(* ===== verification/Prelude.thy ===== *)
theory Prelude
  imports Main "HOL-Library.Word"
begin

text \<open>
  Shared vocabulary of the development: the kernel's fixed-width integers
  (\<^verbatim>\<open>sys/types.h\<close>), panics as error values, sequencing of fallible steps, the collections of
  rewrite rules the components fill, and generic lemmas on lists and words.
\<close>

unbundle bit_operations_syntax

section \<open>Integer types\<close>

type_synonym uint8 = "8 word"
type_synonym uint16 = "16 word"
type_synonym uint32 = "32 word"
type_synonym uint64 = "64 word"
type_synonym uintptr = "64 word"
type_synonym pte_t = "64 word"

section \<open>Panics as values\<close>

text \<open>
  \<open>panic()\<close> does not return, and \<open>KASSERT\<close> panics in a kernel built with invariants
  armed. Both end an operation with \<open>Inl (Panic msg)\<close>, where \<open>msg\<close> is the format string of
  the call; no state is returned, because nothing runs after it. \<open>Fault\<close> is an access through a
  null or dangling pointer.
\<close>

datatype kerror = Panic string | Fault

type_synonym 'a res = "kerror + 'a"

definition rbind :: "'a res \<Rightarrow> ('a \<Rightarrow> 'b res) \<Rightarrow> 'b res" where
  "rbind m f = (case m of Inl e \<Rightarrow> Inl e | Inr x \<Rightarrow> f x)"

definition kassert :: "bool \<Rightarrow> string \<Rightarrow> 'a res \<Rightarrow> 'a res" where
  "kassert b msg k = (if b then k else Inl (Panic msg))"

named_theorems kdefs \<open>constants and macros of the kernel headers\<close>
named_theorems inv_simps \<open>unfolding of the components' invariants\<close>

lemma rbind_simps [simp]:
  "rbind (Inl e) f = Inl e"
  "rbind (Inr x) f = f x"
  by (simp_all add: rbind_def)

lemma rbind_Inr_iff: "rbind m f = Inr y \<longleftrightarrow> (\<exists>x. m = Inr x \<and> f x = Inr y)"
  by (cases m) simp_all

lemma rbind_InrE [elim]:
  assumes "rbind m f = Inr y"
  obtains x where "m = Inr x" "f x = Inr y"
  using assms by (auto simp: rbind_Inr_iff)

lemma rbind_assoc: "rbind (rbind m f) g = rbind m (\<lambda>x. rbind (f x) g)"
  by (cases m) simp_all

lemma kassert_True [simp]: "kassert True msg k = k"
  by (simp add: kassert_def)

lemma kassert_Inr_iff [simp]: "kassert b msg k = Inr y \<longleftrightarrow> b \<and> k = Inr y"
  by (simp add: kassert_def)

section \<open>Lists\<close>

lemma sum_list_take_le: "sum_list (take k xs) \<le> (sum_list xs :: nat)"
  by (metis append_take_drop_id le_add1 sum_list_append)

lemma nth_drop_one: "i < length xs \<Longrightarrow> drop i xs = xs ! i # drop (Suc i) xs"
  by (simp add: Cons_nth_drop_Suc)

lemma take_Suc_nth: "i < length xs \<Longrightarrow> take (Suc i) xs = take i xs @ [xs ! i]"
  by (rule take_Suc_conv_app_nth)

text \<open>A fallible step run on each element of a list in turn; the first failure ends the run.\<close>

fun seq_res :: "('a \<Rightarrow> 's \<Rightarrow> 'e + 's) \<Rightarrow> 'a list \<Rightarrow> 's \<Rightarrow> 'e + 's" where
  "seq_res f [] s = Inr s"
| "seq_res f (x # xs) s = (case f x s of Inl e \<Rightarrow> Inl e | Inr s' \<Rightarrow> seq_res f xs s')"

lemma seq_res_append:
  "seq_res f (xs @ ys) s = (case seq_res f xs s of Inl e \<Rightarrow> Inl e | Inr s' \<Rightarrow> seq_res f ys s')"
  by (induction xs arbitrary: s) (auto split: sum.split)

lemma seq_res_invariant:
  assumes "P s" "\<And>x s. x \<in> set xs \<Longrightarrow> P s \<Longrightarrow> \<exists>s'. f x s = Inr s' \<and> P s'"
  shows "\<exists>s'. seq_res f xs s = Inr s' \<and> P s'"
  using assms
proof (induction xs arbitrary: s)
  case (Cons x xs)
  then obtain s' where "f x s = Inr s'" "P s'" by fastforce
  with Cons.IH [of s'] Cons.prems(2) show ?case by simp
qed simp

section \<open>Words\<close>

lemma unat_add_no_wrap:
  fixes a b :: "'a::len word"
  assumes "unat a + unat b < 2 ^ LENGTH('a)"
  shows "unat (a + b) = unat a + unat b"
  using assms by (simp add: unat_word_ariths)

lemma unat_sub_no_wrap:
  fixes a b :: "'a::len word"
  assumes "b \<le> a"
  shows "unat (a - b) = unat a - unat b"
  using assms by (rule unat_sub)

lemma bit_single [simp]:
  "bit (2 ^ k :: 'a::len word) n \<longleftrightarrow> n = k \<and> k < LENGTH('a)"
  by (auto simp: bit_exp_iff)

lemma word_zero_iff_bits: "(w :: 'a::len word) = 0 \<longleftrightarrow> (\<forall>n < LENGTH('a). \<not> bit w n)"
  by (metis bit_0_eq bit_word_eqI bot_apply bot_bool_def)

lemma unat_and_mask: "unat ((a :: 'a::len word) AND mask n) = unat a mod 2 ^ n"
  by (simp add: unsigned_take_bit_eq flip: take_bit_eq_mask take_bit_eq_mod)

lemma and_not_mask_split: "(a :: 'a::len word) = (a AND mask n) + (a AND NOT (mask n))"
proof -
  have "(a AND mask n) AND (a AND NOT (mask n)) = 0"
    by (rule bit_word_eqI) (auto simp: bit_and_iff bit_not_iff)
  then have "(a AND mask n) + (a AND NOT (mask n)) = (a AND mask n) OR (a AND NOT (mask n))"
    by (rule disjunctive_add_eq_or)
  also have "\<dots> = a"
    by (rule bit_word_eqI) (auto simp: bit_and_iff bit_or_iff bit_not_iff)
  finally show ?thesis ..
qed

lemma unat_and_not_mask:
  "unat ((a :: 'a::len word) AND NOT (mask n)) = unat a div 2 ^ n * 2 ^ n"
proof -
  have "a AND NOT (mask n) = a - (a AND mask n)"
    by (metis add_diff_cancel_left' and_not_mask_split)
  moreover have "a AND mask n \<le> a"
    by (simp add: word_le_nat_alt unat_and_mask)
  ultimately have "unat (a AND NOT (mask n)) = unat a - unat a mod 2 ^ n"
    by (simp add: unat_sub unat_and_mask)
  then show ?thesis by (simp add: minus_mod_eq_div_mult)
qed

lemma unat_drop_bit_div: "unat (drop_bit n (w :: 'a::len word)) = unat w div 2 ^ n"
  by (metis unat_drop_bit_eq drop_bit_eq_div)

lemma unat_push_bit_mult:
  assumes "unat (w :: 'a::len word) * 2 ^ n < 2 ^ LENGTH('a)"
  shows "unat (push_bit n w) = unat w * 2 ^ n"
  unfolding unsigned_push_bit_eq
  using assms by (subst take_bit_nat_eq_self) (simp_all add: push_bit_eq_mult)

lemma unat_of_nat_small: "n < 2 ^ LENGTH('a) \<Longrightarrow> unat (of_nat n :: 'a::len word) = n"
  by (simp add: unat_of_nat)

lemma unat64_less: "unat (w :: uint64) < 2 ^ 64"
  using unsigned_less [of w] by simp

lemma unat32_less: "unat (w :: uint32) < 2 ^ 32"
  using unsigned_less [of w] by simp

lemma unat64_le: "unat (w :: uint64) \<le> 2 ^ 64 - 1"
  using unat64_less [of w] by linarith

end
