(* ===== verification/Ring.thy ===== *)
theory Ring
  imports Prelude
begin

text \<open>
  Circular buffers. Several parts of the kernel keep a queue in a fixed array addressed modulo its
  length (\<^verbatim>\<open>kern/kmsg.c\<close> twice, \<^verbatim>\<open>dev/console.c\<close>). \<open>ring_view n xs t k\<close> is the list of the \<open>k\<close>
  live elements from index \<open>t\<close>; the lemmas say what a push, a pop and an update in place do to it.
\<close>

definition ring_view :: "nat \<Rightarrow> 'a list \<Rightarrow> nat \<Rightarrow> nat \<Rightarrow> 'a list" where
  "ring_view n xs t k = map (\<lambda>i. xs ! ((t + i) mod n)) [0..<k]"

lemma length_ring_view [simp]: "length (ring_view n xs t k) = k"
  by (simp add: ring_view_def)

lemma ring_view_0 [simp]: "ring_view n xs t 0 = []"
  by (simp add: ring_view_def)

lemma nth_ring_view [simp]: "i < k \<Longrightarrow> ring_view n xs t k ! i = xs ! ((t + i) mod n)"
  by (simp add: ring_view_def)

lemma ring_view_mod [simp]: "ring_view n xs (t mod n) k = ring_view n xs t k"
  by (simp add: ring_view_def mod_add_left_eq)

lemma ring_index_inj:
  assumes "(t + i) mod n = (t + j) mod n" "i < n" "j < n"
  shows "i = (j :: nat)"
proof (cases "i \<le> j")
  case True
  then have "n dvd j - i" using assms(1) mod_eq_dvd_iff_nat [of "t + i" "t + j" n] by simp
  with True assms(2,3) show ?thesis by (auto dest: dvd_imp_le)
next
  case False
  then have "n dvd i - j" using assms(1) mod_eq_dvd_iff_nat [of "t + j" "t + i" n] by simp
  with False assms(2,3) show ?thesis by (auto dest: dvd_imp_le)
qed

lemma ring_view_update:
  assumes "length xs = n" "i < n" "k \<le> n"
  shows "ring_view n (xs[(t + i) mod n := v]) t k =
    (if i < k then (ring_view n xs t k)[i := v] else ring_view n xs t k)"
proof (rule nth_equalityI)
  show "length (ring_view n (xs[(t + i) mod n := v]) t k) =
    length (if i < k then (ring_view n xs t k)[i := v] else ring_view n xs t k)" by simp
next
  fix j assume "j < length (ring_view n (xs[(t + i) mod n := v]) t k)"
  then have j: "j < k" by simp
  have n: "0 < n" using assms(2) by simp
  have "(t + j) mod n = (t + i) mod n \<longleftrightarrow> j = i"
    using ring_index_inj [of t j n i] assms j by auto
  with j assms n show "ring_view n (xs[(t + i) mod n := v]) t k ! j =
    (if i < k then (ring_view n xs t k)[i := v] else ring_view n xs t k) ! j"
    by (auto simp: nth_list_update)
qed

lemma ring_view_Suc: "ring_view n xs t (Suc k) = ring_view n xs t k @ [xs ! ((t + k) mod n)]"
  by (simp add: ring_view_def)

lemma ring_view_Cons: "ring_view n xs t (Suc k) = xs ! (t mod n) # ring_view n xs (Suc t) k"
  by (simp add: ring_view_def upt_conv_Cons map_Suc_upt [symmetric] del: upt_Suc)

lemma ring_view_push:
  assumes "length xs = n" "k < n"
  shows "ring_view n (xs[(t + k) mod n := v]) t (Suc k) = ring_view n xs t k @ [v]"
  using ring_view_update [OF assms(1,2), of "Suc k" t v] assms
  by (simp add: ring_view_Suc list_update_append)

lemma ring_view_drop:
  assumes "m \<le> k"
  shows "ring_view n xs (t + m) (k - m) = drop m (ring_view n xs t k)"
  by (rule nth_equalityI) (use assms in \<open>auto simp: add.assoc\<close>)

lemma ring_view_take: "m \<le> k \<Longrightarrow> take m (ring_view n xs t k) = ring_view n xs t m"
  by (rule nth_equalityI) auto

lemma ring_view_slice:
  assumes "p + l \<le> k"
  shows "ring_view n xs (t + p) l = take l (drop p (ring_view n xs t k))"
  by (rule nth_equalityI) (use assms in \<open>auto simp: add.assoc\<close>)

text \<open>Writing a block of bytes, one element at a time.\<close>

fun ring_write :: "nat \<Rightarrow> 'a list \<Rightarrow> nat \<Rightarrow> 'a list \<Rightarrow> 'a list" where
  "ring_write n xs p [] = xs"
| "ring_write n xs p (c # cs) = ring_write n (xs[p mod n := c]) (Suc p) cs"

lemma length_ring_write [simp]: "length (ring_write n xs p cs) = length xs"
  by (induction n xs p cs rule: ring_write.induct) simp_all

lemma ring_view_write:
  assumes "length xs = n" "k + length cs \<le> n"
  shows "ring_view n (ring_write n xs (t + k) cs) t (k + length cs) = ring_view n xs t k @ cs"
  using assms
proof (induction cs arbitrary: xs k)
  case (Cons c cs)
  have "ring_view n (ring_write n (xs[(t + k) mod n := c]) (t + Suc k) cs) t (Suc k + length cs)
      = ring_view n (xs[(t + k) mod n := c]) t (Suc k) @ cs"
    using Cons.prems by (intro Cons.IH) simp_all
  also have "\<dots> = ring_view n xs t k @ c # cs"
    using Cons.prems by (simp add: ring_view_push)
  finally show ?case by simp
qed simp

end
