(* ===== verification/Kmsg.thy ===== *)
theory Kmsg
  imports Ring "HOL-Library.While_Combinator"
begin

text \<open>
  \<^verbatim>\<open>kern/kmsg.c\<close>: the kernel message ring, a descriptor ring and a text ring that are filled and
  retired in step. The operations below are the bodies that run under \<open>kmsg_lock\<close>; the timestamp,
  the caller id and the re-entry flag are inputs, and \<open>kmsg_add\<close> also returns what the bypass path
  sends straight to the port. The lemmas show that the two rings implement a bounded list of
  records.
\<close>

section \<open>State\<close>

definition KMSG_TEXTSZ :: uint32 where [kdefs]: "KMSG_TEXTSZ = 64 * 1024"
definition KMSG_NDESC :: uint32 where [kdefs]: "KMSG_NDESC = 1024"
definition KMSG_RECORD_MAX :: uint16 where [kdefs]: "KMSG_RECORD_MAX = 256"
definition KMSG_NO_SEQ :: uint64 where [kdefs]: "KMSG_NO_SEQ = NOT 0"
definition KMSG_F_FINAL :: uint8 where [kdefs]: "KMSG_F_FINAL = 0x01"
definition KMSG_CALLER_CPU :: uint32 where [kdefs]: "KMSG_CALLER_CPU = 0x80000000"
definition KERN_INFO :: nat where [kdefs]: "KERN_INFO = 6"
definition KERN_CONT :: nat where [kdefs]: "KERN_CONT = 8"

record kmsg_desc =
  d_seq :: uint64
  d_ts :: uint64
  d_off :: uint32
  d_caller :: uint32
  d_len :: uint16
  d_level :: uint8
  d_flags :: uint8

record kmsg =
  desc :: "kmsg_desc list"
  textbuf :: "uint8 list"
  dhead :: uint32
  dtail :: uint32
  ndesc :: uint32
  thead :: uint32
  ttail :: uint32
  tused :: uint32
  next_seq :: uint64

definition NL :: uint8 where "NL = 10"

section \<open>Operations\<close>

definition kmsg_init :: kmsg where
  "kmsg_init = \<lparr>
     desc = replicate (unat KMSG_NDESC)
       \<lparr>d_seq = 0, d_ts = 0, d_off = 0, d_caller = 0, d_len = 0, d_level = 0, d_flags = 0\<rparr>,
     textbuf = replicate (unat KMSG_TEXTSZ) 0,
     dhead = 0, dtail = 0, ndesc = 0, thead = 0, ttail = 0, tused = 0, next_seq = 0\<rparr>"

definition kmsg_drop_oldest :: "kmsg \<Rightarrow> kmsg" where
  "kmsg_drop_oldest s =
     (let len = ucast (d_len (desc s ! unat (dtail s))) :: uint32 in
      s\<lparr>ttail := (ttail s + len) mod KMSG_TEXTSZ,
        tused := tused s - len,
        dtail := (dtail s + 1) mod KMSG_NDESC,
        ndesc := ndesc s - 1\<rparr>)"

fun kmsg_write_text :: "uint32 \<Rightarrow> uint8 list \<Rightarrow> kmsg \<Rightarrow> kmsg" where
  "kmsg_write_text off [] s = s"
| "kmsg_write_text off (c # cs) s =
     kmsg_write_text (off + 1) cs
       (s\<lparr>textbuf := (textbuf s)[unat (off mod KMSG_TEXTSZ) := c]\<rparr>)"

text \<open>The newest record is named by its index in \<open>desc\<close>; \<open>None\<close> is NULL.\<close>

definition kmsg_last :: "kmsg \<Rightarrow> nat option" where
  "kmsg_last s =
     (if ndesc s = 0 then None
      else Some (unat ((dhead s + KMSG_NDESC - 1) mod KMSG_NDESC)))"

definition kmsg_caller :: "uint32 option \<Rightarrow> uint32 \<Rightarrow> uint32" where
  "kmsg_caller pid cpu = (case pid of Some p \<Rightarrow> p | None \<Rightarrow> KMSG_CALLER_CPU OR cpu)"

definition kmsg_append_last :: "uint32 \<Rightarrow> uint8 list \<Rightarrow> uint16 \<Rightarrow> kmsg \<Rightarrow> (nat \<times> kmsg) option" where
  "kmsg_append_last caller text len s =
     (case kmsg_last s of None \<Rightarrow> None
      | Some i \<Rightarrow>
          (let d = desc s ! i in
           if d_flags d AND KMSG_F_FINAL \<noteq> 0 \<or> d_caller d \<noteq> caller then None
           else if unat (d_len d) + unat len > unat KMSG_RECORD_MAX
             \<or> tused s + ucast len > KMSG_TEXTSZ then None
           else
             (let s1 = kmsg_write_text (thead s) (take (unat len) text) s;
                  d1 = d\<lparr>d_len := d_len d + len,
                         d_flags := (if text ! (unat len - 1) = NL
                           then d_flags d OR KMSG_F_FINAL else d_flags d)\<rparr>
              in Some (i, s1\<lparr>thead := (thead s + ucast len) mod KMSG_TEXTSZ,
                             tused := tused s + ucast len,
                             desc := (desc s)[i := d1]\<rparr>))))"

definition kmsg_close_last :: "kmsg \<Rightarrow> kmsg" where
  "kmsg_close_last s =
     (case kmsg_last s of None \<Rightarrow> s
      | Some i \<Rightarrow> s\<lparr>desc := (desc s)[i := (desc s ! i)
          \<lparr>d_flags := d_flags (desc s ! i) OR KMSG_F_FINAL\<rparr>]\<rparr>)"

definition kmsg_make_room :: "uint16 \<Rightarrow> kmsg \<Rightarrow> kmsg option" where
  "kmsg_make_room len =
     while_option (\<lambda>s. ndesc s = KMSG_NDESC \<or> tused s + ucast len > KMSG_TEXTSZ) kmsg_drop_oldest"

definition kmsg_new_record ::
  "uint64 \<Rightarrow> uint32 \<Rightarrow> nat \<Rightarrow> uint8 list \<Rightarrow> uint16 \<Rightarrow> kmsg \<Rightarrow> uint64 \<times> kmsg" where
  "kmsg_new_record ts caller level text len s =
     (let d = \<lparr>d_seq = next_seq s, d_ts = ts, d_off = thead s, d_caller = caller, d_len = len,
               d_level = of_nat (if level = KERN_CONT then KERN_INFO else level),
               d_flags = (if text ! (unat len - 1) = NL then KMSG_F_FINAL else 0)\<rparr>;
          s1 = kmsg_write_text (thead s) (take (unat len) text) s
      in (d_seq d, s1\<lparr>desc := (desc s)[unat (dhead s) := d],
           thead := (thead s + ucast len) mod KMSG_TEXTSZ,
           tused := tused s + ucast len,
           dhead := (dhead s + 1) mod KMSG_NDESC,
           ndesc := ndesc s + 1,
           next_seq := next_seq s + 1\<rparr>))"

text \<open>
  The result is the sequence number, the ring and the bytes the bypass wrote to the port; \<open>None\<close>
  would be a reclaim loop that never ends.
\<close>

definition kmsg_add ::
  "uint64 \<Rightarrow> uint32 \<Rightarrow> bool \<Rightarrow> nat \<Rightarrow> uint8 list \<Rightarrow> uint16 \<Rightarrow> kmsg \<Rightarrow>
     (uint64 \<times> kmsg \<times> uint8 list) option" where
  "kmsg_add ts caller in_kmsg level text len0 s =
     (let len = (if len0 > KMSG_RECORD_MAX then KMSG_RECORD_MAX else len0) in
      if len = 0 then Some (KMSG_NO_SEQ, s, [])
      else if in_kmsg then Some (KMSG_NO_SEQ, s, take (unat len) text)
      else
        (case (if level = KERN_CONT then kmsg_append_last caller text len s else None) of
           Some (i, s1) \<Rightarrow> Some (d_seq (desc s1 ! i), s1, [])
         | None \<Rightarrow>
             (case kmsg_make_room len (kmsg_close_last s) of
                None \<Rightarrow> None
              | Some s2 \<Rightarrow>
                  (let (seq, s3) = kmsg_new_record ts caller level text len s2
                   in Some (seq, s3, [])))))"

definition kmsg_finalize :: "kmsg \<Rightarrow> kmsg" where
  "kmsg_finalize s = kmsg_close_last s"

definition kmsg_read :: "uint64 \<Rightarrow> kmsg \<Rightarrow> (kmsg_desc \<times> uint8 list) option" where
  "kmsg_read seq s =
     (if ndesc s = 0 \<or> seq < d_seq (desc s ! unat (dtail s)) \<or> seq \<ge> next_seq s then None
      else
        (let idx = (dtail s + ucast (seq - d_seq (desc s ! unat (dtail s)))) mod KMSG_NDESC;
             d = desc s ! unat idx in
         if d_flags d AND KMSG_F_FINAL = 0 then None
         else Some (d, map (\<lambda>i. textbuf s ! unat ((d_off d + of_nat i) mod KMSG_TEXTSZ))
                          [0..<unat (d_len d)])))"

definition kmsg_first_seq :: "kmsg \<Rightarrow> uint64" where
  "kmsg_first_seq s = (if ndesc s = 0 then next_seq s else d_seq (desc s ! unat (dtail s)))"

definition kmsg_next_seq :: "kmsg \<Rightarrow> uint64" where
  "kmsg_next_seq s = next_seq s"

section \<open>The abstract log\<close>

text \<open>A log is a list of records, oldest first, and the next sequence number.\<close>

record krec =
  k_seq :: uint64
  k_ts :: uint64
  k_caller :: uint32
  k_level :: uint8
  k_final :: bool
  k_text :: "uint8 list"

type_synonym klog = "krec list"

definition log_bytes :: "klog \<Rightarrow> nat" where
  "log_bytes l = sum_list (map (length \<circ> k_text) l)"

definition close_last :: "klog \<Rightarrow> klog" where
  "close_last l = (if l = [] then [] else butlast l @ [(last l)\<lparr>k_final := True\<rparr>])"

fun make_room :: "nat \<Rightarrow> klog \<Rightarrow> klog" where
  "make_room n [] = []"
| "make_room n (r # l) =
     (if length (r # l) = 1024 \<or> log_bytes (r # l) + n > 65536 then make_room n l else r # l)"

definition can_extend :: "uint32 \<Rightarrow> nat \<Rightarrow> klog \<Rightarrow> bool" where
  "can_extend caller n l \<longleftrightarrow> l \<noteq> [] \<and> \<not> k_final (last l) \<and> k_caller (last l) = caller \<and>
     length (k_text (last l)) + n \<le> 256 \<and> log_bytes l + n \<le> 65536"

definition log_add :: "uint64 \<Rightarrow> uint64 \<Rightarrow> uint32 \<Rightarrow> nat \<Rightarrow> uint8 list \<Rightarrow> klog \<Rightarrow> klog" where
  "log_add seq ts caller level bytes l =
     (if level = KERN_CONT \<and> can_extend caller (length bytes) l then
        butlast l @ [(last l)\<lparr>k_text := k_text (last l) @ bytes,
                              k_final := (last bytes = NL)\<rparr>]
      else make_room (length bytes) (close_last l) @
        [\<lparr>k_seq = seq, k_ts = ts, k_caller = caller,
          k_level = of_nat (if level = KERN_CONT then KERN_INFO else level),
          k_final = (last bytes = NL), k_text = bytes\<rparr>])"

section \<open>Abstraction\<close>

definition live :: "kmsg \<Rightarrow> kmsg_desc list" where
  "live s = ring_view 1024 (desc s) (unat (dtail s)) (unat (ndesc s))"

definition live_text :: "kmsg \<Rightarrow> uint8 list" where
  "live_text s = ring_view 65536 (textbuf s) (unat (ttail s)) (unat (tused s))"

definition to_rec :: "kmsg_desc \<Rightarrow> uint8 list \<Rightarrow> krec" where
  "to_rec d t = \<lparr>k_seq = d_seq d, k_ts = d_ts d, k_caller = d_caller d, k_level = d_level d,
     k_final = (d_flags d AND KMSG_F_FINAL \<noteq> 0), k_text = t\<rparr>"

fun to_recs :: "kmsg_desc list \<Rightarrow> uint8 list \<Rightarrow> klog" where
  "to_recs [] bs = []"
| "to_recs (d # ds) bs = to_rec d (take (unat (d_len d)) bs) # to_recs ds (drop (unat (d_len d)) bs)"

definition kabs :: "kmsg \<Rightarrow> klog" where
  "kabs s = to_recs (live s) (live_text s)"

definition lens :: "kmsg_desc list \<Rightarrow> nat" where
  "lens ds = sum_list (map (unat \<circ> d_len) ds)"

fun offs_ok :: "nat \<Rightarrow> kmsg_desc list \<Rightarrow> bool" where
  "offs_ok p [] = True"
| "offs_ok p (d # ds) \<longleftrightarrow> unat (d_off d) = p mod 65536 \<and> offs_ok (p + unat (d_len d)) ds"

fun seqs_ok :: "uint64 \<Rightarrow> kmsg_desc list \<Rightarrow> uint64 \<Rightarrow> bool" where
  "seqs_ok q [] nxt \<longleftrightarrow> q = nxt"
| "seqs_ok q (d # ds) nxt \<longleftrightarrow> d_seq d = q \<and> seqs_ok (q + 1) ds nxt"

definition kmsg_inv :: "kmsg \<Rightarrow> bool" where [inv_simps]:
  "kmsg_inv s \<longleftrightarrow> length (desc s) = 1024 \<and> length (textbuf s) = 65536 \<and>
     unat (ndesc s) \<le> 1024 \<and> unat (dtail s) < 1024 \<and>
     unat (dhead s) = (unat (dtail s) + unat (ndesc s)) mod 1024 \<and>
     unat (ttail s) < 65536 \<and> unat (tused s) \<le> 65536 \<and>
     unat (thead s) = (unat (ttail s) + unat (tused s)) mod 65536 \<and>
     lens (live s) = unat (tused s) \<and> offs_ok (unat (ttail s)) (live s) \<and>
     (\<forall>d \<in> set (live s). 0 < unat (d_len d) \<and> unat (d_len d) \<le> 256) \<and>
     unat (ndesc s) \<le> unat (next_seq s) \<and>
     seqs_ok (next_seq s - of_nat (unat (ndesc s))) (live s) (next_seq s)"

section \<open>Ring arithmetic on words\<close>

lemma unat_TEXTSZ [simp]: "unat KMSG_TEXTSZ = 65536" by (simp add: kdefs)
lemma unat_NDESC [simp]: "unat KMSG_NDESC = 1024" by (simp add: kdefs)
lemma unat_RECORD_MAX [simp]: "unat KMSG_RECORD_MAX = 256" by (simp add: kdefs)

lemma unat_ring_add:
  "unat ((a + b) mod KMSG_TEXTSZ) = (unat a + unat b) mod 65536"
  "unat ((c + d) mod KMSG_NDESC) = (unat c + unat d) mod 1024"
  by (simp_all add: unat_mod unat_word_ariths mod_mod_cancel)

lemma unat_ucast_len [simp]: "unat (ucast (w :: uint16) :: uint32) = unat w"
proof -
  have "unat w < 2 ^ 16" using unsigned_less [of w] by simp
  then show ?thesis by (simp add: unsigned_ucast_eq take_bit_nat_eq_self)
qed

lemma write_text_eq:
  "p mod 65536 = unat off mod 65536 \<Longrightarrow>
   kmsg_write_text off cs s = s\<lparr>textbuf := ring_write 65536 (textbuf s) p cs\<rparr>"
proof (induction off cs s arbitrary: p rule: kmsg_write_text.induct)
  case (2 off c cs s)
  have "Suc p mod 65536 = unat (off + 1) mod 65536"
  proof -
    have "unat (off + 1) mod 65536 = Suc (unat off) mod 65536"
      by (simp add: unat_word_ariths mod_mod_cancel)
    also have "\<dots> = Suc p mod 65536" using 2(2) by (metis mod_Suc_eq)
    finally show ?thesis by (rule sym)
  qed
  from 2(1) [OF this] 2(2) show ?case by (simp add: unat_mod)
qed simp

section \<open>Records and their text\<close>

lemma lens_simps [simp]:
  "lens [] = 0" "lens (d # ds) = unat (d_len d) + lens ds" "lens (ds @ es) = lens ds + lens es"
  by (simp_all add: lens_def)

lemma length_to_recs [simp]: "length (to_recs ds bs) = length ds"
  by (induction ds bs rule: to_recs.induct) simp_all

lemma to_recs_append:
  "lens ds = length bs \<Longrightarrow> to_recs (ds @ es) (bs @ cs) = to_recs ds bs @ to_recs es cs"
  by (induction ds bs rule: to_recs.induct) simp_all

lemma log_bytes_to_recs: "lens ds = length bs \<Longrightarrow> log_bytes (to_recs ds bs) = length bs"
  by (induction ds bs rule: to_recs.induct) (simp_all add: log_bytes_def to_rec_def)

lemma offs_ok_append: "offs_ok p (ds @ es) \<longleftrightarrow> offs_ok p ds \<and> offs_ok (p + lens ds) es"
  by (induction p ds rule: offs_ok.induct) (simp_all add: add.assoc)

lemma offs_ok_mod: "offs_ok (p mod 65536) ds = offs_ok p ds"
proof (induction ds arbitrary: p)
  case (Cons d ds)
  have "offs_ok (p mod 65536 + k) ds = offs_ok (p + k) ds" for k
    using Cons.IH [of "p mod 65536 + k"] Cons.IH [of "p + k"] by (simp add: mod_add_left_eq)
  then show ?case by simp
qed simp

lemma seqs_ok_append:
  "seqs_ok q (ds @ [d]) nxt \<longleftrightarrow> seqs_ok q ds (d_seq d) \<and> nxt = d_seq d + 1"
  by (induction ds arbitrary: q) auto

lemma seqs_ok_nth: "seqs_ok q ds nxt \<Longrightarrow> i < length ds \<Longrightarrow> d_seq (ds ! i) = q + of_nat i"
proof (induction ds arbitrary: q i)
  case (Cons d ds)
  then show ?case by (cases i) (auto simp: add.assoc add.commute)
qed simp

lemma to_recs_nth:
  "i < length ds \<Longrightarrow>
   to_recs ds bs ! i = to_rec (ds ! i) (take (unat (d_len (ds ! i))) (drop (lens (take i ds)) bs))"
proof (induction ds arbitrary: i bs)
  case (Cons d ds)
  then show ?case by (cases i) (simp_all add: add.commute)
qed simp

lemma offs_ok_nth:
  "offs_ok p ds \<Longrightarrow> i < length ds \<Longrightarrow> unat (d_off (ds ! i)) = (p + lens (take i ds)) mod 65536"
proof (induction ds arbitrary: p i)
  case (Cons d ds)
  then show ?case using Cons.IH [of "p + unat (d_len d)" "i - 1"] by (cases i) (simp_all add: add.assoc)
qed simp

lemma length_live [simp]: "length (live s) = unat (ndesc s)"
  "length (live_text s) = unat (tused s)"
  by (simp_all add: live_def live_text_def)

lemma length_kabs [simp]: "length (kabs s) = unat (ndesc s)"
  by (simp add: kabs_def)

lemma log_bytes_kabs: "kmsg_inv s \<Longrightarrow> log_bytes (kabs s) = unat (tused s)"
  by (simp add: kabs_def log_bytes_to_recs kmsg_inv_def)

lemma kmsg_inv_init: "kmsg_inv kmsg_init" "kabs kmsg_init = []"
  by (simp_all add: kmsg_inv_def kmsg_init_def live_def kabs_def)

section \<open>Retiring the oldest record\<close>

lemma live_Cons:
  assumes "kmsg_inv s" "ndesc s \<noteq> 0"
  obtains ds where "live s = desc s ! unat (dtail s) # ds"
    "ds = ring_view 1024 (desc s) (unat (dtail s) + 1) (unat (ndesc s) - 1)"
proof -
  obtain k where k: "unat (ndesc s) = Suc k" using assms(2) by (metis not0_implies_Suc unat_0_iff)
  have "live s = desc s ! unat (dtail s) # ring_view 1024 (desc s) (Suc (unat (dtail s))) k"
    using assms(1) by (simp add: live_def k ring_view_Cons kmsg_inv_def)
  then show ?thesis using that k by simp
qed

lemma drop_oldest_live:
  assumes inv: "kmsg_inv s" and n: "ndesc s \<noteq> 0"
  shows "live (kmsg_drop_oldest s) = tl (live s)"
    "live_text (kmsg_drop_oldest s) = drop (unat (d_len (hd (live s)))) (live_text s)"
    "kmsg_inv (kmsg_drop_oldest s)" "unat (ndesc (kmsg_drop_oldest s)) = unat (ndesc s) - 1"
    "next_seq (kmsg_drop_oldest s) = next_seq s"
proof -
  let ?s = "kmsg_drop_oldest s" and ?d = "desc s ! unat (dtail s)"
  obtain ds where live: "live s = ?d # ds"
    and ds: "ds = ring_view 1024 (desc s) (unat (dtail s) + 1) (unat (ndesc s) - 1)"
    using live_Cons [OF inv n] by metis
  have len: "unat (d_len ?d) \<le> unat (tused s)" "0 < unat (d_len ?d)"
    using inv live by (auto simp: kmsg_inv_def)
  then have le: "(ucast (d_len ?d) :: uint32) \<le> tused s" by (simp add: word_le_nat_alt)
  have nd: "unat (ndesc s - 1) = unat (ndesc s) - 1" using n by (simp add: unat_minus_one)
  have nd1: "1 \<le> unat (ndesc s)" using n by (simp add: Suc_le_eq unat_gt_0)
  have tu: "unat (tused s - ucast (d_len ?d)) = unat (tused s) - unat (d_len ?d)"
    using le by (simp add: unat_sub)
  show l: "live ?s = tl (live s)"
    unfolding live by (simp add: ds live_def kmsg_drop_oldest_def Let_def unat_ring_add nd)
  show t: "live_text ?s = drop (unat (d_len (hd (live s)))) (live_text s)"
    using len(1)
    by (simp add: live live_text_def kmsg_drop_oldest_def Let_def unat_ring_add tu ring_view_drop)
  show "unat (ndesc ?s) = unat (ndesc s) - 1" by (simp add: kmsg_drop_oldest_def Let_def nd)
  show "next_seq ?s = next_seq s" by (simp add: kmsg_drop_oldest_def Let_def)
  have inv': "lens ds = unat (tused s) - unat (d_len ?d)"
    "offs_ok (unat (ttail s) + unat (d_len ?d)) ds"
    "seqs_ok (next_seq s - of_nat (unat (ndesc s)) + 1) ds (next_seq s)"
    using inv live by (auto simp: kmsg_inv_def)
  have sq: "next_seq s - of_nat (unat (ndesc s)) + 1 = next_seq s - of_nat (unat (ndesc s) - 1)"
    using nd1 by (simp add: of_nat_diff)
  have heads: "(unat (dtail s) + unat (ndesc s)) mod 1024
      = ((unat (dtail s) + 1) mod 1024 + (unat (ndesc s) - 1)) mod 1024"
    "(unat (ttail s) + unat (tused s)) mod 65536
      = ((unat (ttail s) + unat (d_len ?d)) mod 65536 + (unat (tused s) - unat (d_len ?d))) mod 65536"
    using nd1 len(1) by (simp_all only: mod_add_left_eq) simp_all
  have f: "desc ?s = desc s" "textbuf ?s = textbuf s" "dhead ?s = dhead s" "thead ?s = thead s"
    "unat (dtail ?s) = (unat (dtail s) + 1) mod 1024" "unat (ndesc ?s) = unat (ndesc s) - 1"
    "unat (ttail ?s) = (unat (ttail s) + unat (d_len ?d)) mod 65536"
    "unat (tused ?s) = unat (tused s) - unat (d_len ?d)" "next_seq ?s = next_seq s"
    by (simp_all add: kmsg_drop_oldest_def Let_def unat_ring_add tu nd)
  have tl: "tl (live s) = ds" by (simp add: live)
  show "kmsg_inv ?s"
    unfolding kmsg_inv_def l f tl
  proof (intro conjI)
    show "unat (dhead s) = ((unat (dtail s) + 1) mod 1024 + (unat (ndesc s) - 1)) mod 1024"
      "unat (thead s) = ((unat (ttail s) + unat (d_len ?d)) mod 65536 +
        (unat (tused s) - unat (d_len ?d))) mod 65536"
      using inv heads by (simp_all only: kmsg_inv_def)
    show "\<forall>d \<in> set ds. 0 < unat (d_len d) \<and> unat (d_len d) \<le> 256"
      using inv live by (simp add: kmsg_inv_def)
    show "seqs_ok (next_seq s - of_nat (unat (ndesc s) - 1)) ds (next_seq s)"
      using inv'(3) by (simp only: sq)
    show "offs_ok ((unat (ttail s) + unat (d_len ?d)) mod 65536) ds"
      using inv'(2) by (simp add: offs_ok_mod)
  qed (use inv inv'(1) in \<open>auto simp: kmsg_inv_def\<close>)
qed

section \<open>Making room\<close>

lemma kabs_Cons:
  assumes "kmsg_inv s" "ndesc s \<noteq> 0"
  shows "kabs s = to_rec (hd (live s)) (take (unat (d_len (hd (live s)))) (live_text s)) #
    kabs (kmsg_drop_oldest s)"
proof -
  obtain ds where "live s = desc s ! unat (dtail s) # ds" using live_Cons [OF assms] by metis
  then show ?thesis using drop_oldest_live(1,2) [OF assms] by (simp add: kabs_def)
qed

lemma room_guard:
  fixes len :: uint16
  assumes "kmsg_inv s" "unat len \<le> 256"
  shows "(ndesc s = KMSG_NDESC \<or> tused s + ucast len > KMSG_TEXTSZ) \<longleftrightarrow>
    length (kabs s) = 1024 \<or> log_bytes (kabs s) + unat len > 65536"
proof -
  have "unat (tused s + ucast len) = unat (tused s) + unat len"
    using assms by (subst unat_add_no_wrap) (auto simp: kmsg_inv_def)
  moreover have "ndesc s = KMSG_NDESC \<longleftrightarrow> unat (ndesc s) = 1024"
    by (metis unat_NDESC word_unat_eq_iff)
  ultimately show ?thesis using assms(1) by (simp add: word_less_nat_alt log_bytes_kabs)
qed

lemma make_room_refines:
  assumes "kmsg_inv s" "unat len \<le> 256"
  shows "\<exists>s'. kmsg_make_room len s = Some s' \<and> kmsg_inv s' \<and>
    kabs s' = make_room (unat len) (kabs s) \<and> next_seq s' = next_seq s \<and>
    unat (ndesc s') < 1024 \<and> unat (tused s') + unat len \<le> 65536"
  using assms
proof (induction "unat (ndesc s)" arbitrary: s)
  case 0
  then have z: "ndesc s = 0" by (simp add: unat_0_iff)
  then have tu: "unat (tused s) = 0" using 0 by (simp add: kmsg_inv_def live_def)
  have e: "kabs s = []" using 0 by (metis length_0_conv length_kabs)
  then have "\<not> (ndesc s = KMSG_NDESC \<or> tused s + ucast len > KMSG_TEXTSZ)"
    using room_guard [OF 0(2,3)] 0(3) by (simp add: log_bytes_def)
  then have "kmsg_make_room len s = Some s"
    by (simp add: kmsg_make_room_def while_option_unfold)
  with 0 tu e show ?case by simp
next
  case (Suc k)
  have n: "ndesc s \<noteq> 0" using Suc.hyps(2) by auto
  note d = drop_oldest_live [OF Suc.prems(1) n] and g = room_guard [OF Suc.prems]
  show ?case
  proof (cases "ndesc s = KMSG_NDESC \<or> tused s + ucast len > KMSG_TEXTSZ")
    case True
    then have step: "kmsg_make_room len s = kmsg_make_room len (kmsg_drop_oldest s)"
      by (simp add: kmsg_make_room_def while_option_unfold [of _ _ s])
    have "make_room (unat len) (kabs s) = make_room (unat len) (kabs (kmsg_drop_oldest s))"
      using g True kabs_Cons [OF Suc.prems(1) n] by (metis make_room.simps(2))
    moreover have "k = unat (ndesc (kmsg_drop_oldest s))" using Suc.hyps(2) d(4) by simp
    note Suc.hyps(1) [OF this d(3) Suc.prems(2)]
    ultimately show ?thesis using step d(5) by simp
  next
    case False
    then have "kmsg_make_room len s = Some s"
      by (simp add: kmsg_make_room_def while_option_unfold [of _ _ s])
    moreover have "make_room (unat len) (kabs s) = kabs s"
      using g False kabs_Cons [OF Suc.prems(1) n] by (metis make_room.simps(2))
    moreover have "unat (ndesc s) < 1024" "unat (tused s) + unat len \<le> 65536"
      using g False Suc.prems(1) by (auto simp: kmsg_inv_def log_bytes_kabs)
    ultimately show ?thesis using Suc.prems(1) by simp
  qed
qed

section \<open>Closing and extending the newest record\<close>

lemma kmsg_last_Some:
  assumes inv: "kmsg_inv s"
  shows "kmsg_last s = (if kabs s = [] then None
    else Some ((unat (dtail s) + (unat (ndesc s) - 1)) mod 1024))"
proof (cases "ndesc s = 0")
  case True
  then have "kabs s = []" by (metis length_0_conv length_kabs unat_0)
  with True show ?thesis by (simp add: kmsg_last_def)
next
  case False
  then have n: "1 \<le> unat (ndesc s)" by (simp add: Suc_le_eq unat_gt_0)
  have "dhead s + KMSG_NDESC - 1 = dhead s + 1023" by (simp add: kdefs)
  then have "unat ((dhead s + KMSG_NDESC - 1) mod KMSG_NDESC) = (unat (dhead s) + 1023) mod 1024"
    by (simp only: unat_ring_add) simp
  also have "\<dots> = (unat (dtail s) + (unat (ndesc s) - 1) + 1024) mod 1024"
  proof -
    have "unat (dhead s) = (unat (dtail s) + unat (ndesc s)) mod 1024"
      using inv by (simp add: kmsg_inv_def)
    then have "(unat (dhead s) + 1023) mod 1024 = (unat (dtail s) + unat (ndesc s) + 1023) mod 1024"
      by (simp only: mod_add_left_eq)
    also have "unat (dtail s) + unat (ndesc s) + 1023 = unat (dtail s) + (unat (ndesc s) - 1) + 1024"
      using n by simp
    finally show ?thesis .
  qed
  also have "\<dots> = (unat (dtail s) + (unat (ndesc s) - 1)) mod 1024" by simp
  moreover have "kabs s \<noteq> []" using n by (metis length_kabs list.size(3) not_one_le_zero)
  ultimately show ?thesis using False by (simp add: kmsg_last_def)
qed

text \<open>Rewriting the newest descriptor, with its length grown by freshly written bytes.\<close>

lemma update_last:
  assumes inv: "kmsg_inv s" and ne: "kabs s \<noteq> []" and i: "kmsg_last s = Some i"
  defines "d \<equiv> desc s ! i"
  shows "live s = butlast (live s) @ [d]" "last (live s) = d" "i < 1024"
    "live (s\<lparr>desc := (desc s)[i := e]\<rparr>) = butlast (live s) @ [e]"
    "kabs s = to_recs (butlast (live s)) (take (lens (butlast (live s))) (live_text s)) @
       [to_rec d (drop (lens (butlast (live s))) (live_text s))]"
    "unat (tused s) = lens (butlast (live s)) + unat (d_len d)"
proof -
  let ?t = "unat (dtail s)" and ?k = "unat (ndesc s)"
  have k: "1 \<le> ?k" using ne length_kabs [of s] by (cases "kabs s") auto
  have i': "i = (?t + (?k - 1)) mod 1024" using kmsg_last_Some [OF inv] i ne by simp
  then show "i < 1024" by simp
  have nl: "live s \<noteq> []" using k by (metis length_live(1) list.size(3) not_one_le_zero)
  have len: "length (desc s) = 1024" "?k - 1 < 1024" "?k \<le> 1024" using inv k by (auto simp: kmsg_inv_def)
  show lst: "last (live s) = d"
    using nl k by (simp add: last_conv_nth d_def i' live_def)
  then show eq: "live s = butlast (live s) @ [d]" using nl by (metis append_butlast_last_id)
  have "live (s\<lparr>desc := (desc s)[i := e]\<rparr>) = (live s)[?k - 1 := e]"
    using ring_view_update [OF len, of ?t e] k by (simp add: live_def i')
  also have "\<dots> = butlast (live s) @ [e]"
    using eq by (metis length_append_singleton length_live(1) diff_Suc_1 list_update_length)
  finally show "live (s\<lparr>desc := (desc s)[i := e]\<rparr>) = butlast (live s) @ [e]" .
  let ?b = "butlast (live s)" and ?T = "live_text s"
  have lens: "unat (tused s) = lens ?b + unat (d_len d)"
    using inv eq by (metis kmsg_inv_def lens_simps(1,2,3) add.right_neutral)
  then show "unat (tused s) = lens ?b + unat (d_len d)" .
  have "kabs s = to_recs (?b @ [d]) (take (lens ?b) ?T @ drop (lens ?b) ?T)"
    unfolding kabs_def by (subst eq) simp
  also have "\<dots> = to_recs ?b (take (lens ?b) ?T) @ to_recs [d] (drop (lens ?b) ?T)"
    using lens by (intro to_recs_append) simp
  finally show "kabs s = to_recs ?b (take (lens ?b) ?T) @ [to_rec d (drop (lens ?b) ?T)]"
    using lens by simp
qed

lemma grow_last:
  assumes inv: "kmsg_inv s" and ne: "kabs s \<noteq> []" and i: "kmsg_last s = Some i"
    and e: "d_off e = d_off (desc s ! i)" "d_seq e = d_seq (desc s ! i)"
      "unat (d_len e) = unat (d_len (desc s ! i)) + length cs" "unat (d_len e) \<le> 256"
    and fits: "unat (tused s) + length cs \<le> 65536"
    and s': "desc s' = (desc s)[i := e]" "dhead s' = dhead s" "dtail s' = dtail s"
      "ndesc s' = ndesc s" "ttail s' = ttail s" "next_seq s' = next_seq s"
      "textbuf s' = ring_write 65536 (textbuf s) (unat (ttail s) + unat (tused s)) cs"
      "unat (tused s') = unat (tused s) + length cs"
      "unat (thead s') = (unat (ttail s) + unat (tused s) + length cs) mod 65536"
  shows "kmsg_inv s' \<and> kabs s' = butlast (kabs s) @ [to_rec e (k_text (last (kabs s)) @ cs)]"
proof -
  let ?d = "desc s ! i" and ?b = "butlast (live s)" and ?T = "live_text s"
  note ul = update_last [OF inv ne i]
  have live': "live s' = ?b @ [e]" using ul(4) [of e] s' by (simp add: live_def)
  have text': "live_text s' = ?T @ cs"
    using inv fits s' unfolding live_text_def
    by (simp add: ring_view_write kmsg_inv_def)
  have lens': "lens (live s') = unat (tused s')" using live' e(3) ul(6) s'(8) by simp
  have kabs': "kabs s' = to_recs ?b (take (lens ?b) ?T) @ [to_rec e (drop (lens ?b) ?T @ cs)]"
  proof -
    have "kabs s' = to_recs (?b @ [e]) (take (lens ?b) ?T @ (drop (lens ?b) ?T @ cs))"
      by (simp add: kabs_def live' text' flip: append_assoc)
    also have "\<dots> = to_recs ?b (take (lens ?b) ?T) @ to_recs [e] (drop (lens ?b) ?T @ cs)"
      using ul(6) by (intro to_recs_append) simp
    finally show ?thesis using ul(6) e(3) by simp
  qed
  have "kabs s' = butlast (kabs s) @ [to_rec e (k_text (last (kabs s)) @ cs)]"
    unfolding kabs' by (subst (1 2) ul(5)) (simp add: to_rec_def)
  moreover have "kmsg_inv s'"
    unfolding kmsg_inv_def
  proof (intro conjI)
    have old: "offs_ok (unat (ttail s)) (?b @ [?d])"
      "seqs_ok (next_seq s - of_nat (unat (ndesc s))) (?b @ [?d]) (next_seq s)"
      "\<forall>d \<in> set ?b. 0 < unat (d_len d) \<and> unat (d_len d) \<le> 256" "0 < unat (d_len ?d)"
      using inv ul(1) unfolding kmsg_inv_def by (metis, metis, metis in_set_butlastD,
          metis in_set_conv_decomp)
    show "offs_ok (unat (ttail s')) (live s')" using old(1) e(1) s'(5) by (simp add: live' offs_ok_append)
    show "seqs_ok (next_seq s' - of_nat (unat (ndesc s'))) (live s') (next_seq s')"
      using old(2) unfolding s'(4,6) live' seqs_ok_append e(2) .
    show "\<forall>d \<in> set (live s'). 0 < unat (d_len d) \<and> unat (d_len d) \<le> 256"
      using old(3,4) e(3,4) by (auto simp: live')
    show "lens (live s') = unat (tused s')" by (rule lens')
    show "unat (thead s') = (unat (ttail s') + unat (tused s')) mod 65536"
      using s'(5,8,9) by (simp add: add.assoc)
  qed (use inv fits s' in \<open>simp_all add: kmsg_inv_def\<close>)
  ultimately show ?thesis by blast
qed

lemma close_last_refines:
  assumes inv: "kmsg_inv s"
  shows "kmsg_inv (kmsg_close_last s)" "kabs (kmsg_close_last s) = close_last (kabs s)"
    "next_seq (kmsg_close_last s) = next_seq s"
proof -
  have "kmsg_inv (kmsg_close_last s) \<and> kabs (kmsg_close_last s) = close_last (kabs s)"
  proof (cases "kabs s = []")
    case True
    then show ?thesis using inv kmsg_last_Some [OF inv] by (simp add: kmsg_close_last_def close_last_def)
  next
    case False
    then obtain i where i: "kmsg_last s = Some i" using kmsg_last_Some [OF inv] by simp
    let ?d = "desc s ! i" let ?e = "?d\<lparr>d_flags := d_flags ?d OR KMSG_F_FINAL\<rparr>"
    note ul = update_last [OF inv False i]
    have "0 < unat (d_len ?d) \<and> unat (d_len ?d) \<le> 256"
      using inv ul(1) by (metis kmsg_inv_def in_set_conv_decomp)
    then have "kmsg_inv (kmsg_close_last s) \<and>
        kabs (kmsg_close_last s) = butlast (kabs s) @ [to_rec ?e (k_text (last (kabs s)) @ [])]"
      using inv by (intro grow_last [OF inv False i])
        (simp_all add: kmsg_close_last_def i kmsg_inv_def)
    moreover have "to_rec ?e (k_text (last (kabs s))) = (last (kabs s))\<lparr>k_final := True\<rparr>"
    proof -
      have "(x OR KMSG_F_FINAL) AND KMSG_F_FINAL \<noteq> 0" for x :: uint8
        by (simp add: bit.conj_disj_distrib2 kdefs)
      moreover obtain t where "last (kabs s) = to_rec ?d t" using ul(5) by simp
      ultimately show ?thesis by (simp add: to_rec_def)
    qed
    ultimately show ?thesis using False by (simp add: close_last_def)
  qed
  then show "kmsg_inv (kmsg_close_last s)" "kabs (kmsg_close_last s) = close_last (kabs s)" by blast+
  show "next_seq (kmsg_close_last s) = next_seq s" by (simp add: kmsg_close_last_def split: option.split)
qed

lemma last_take_nth:
  "0 < n \<Longrightarrow> n \<le> length xs \<Longrightarrow> last (take n xs) = xs ! (n - 1)"
  by (subst last_conv_nth) auto

lemma append_last_refines:
  fixes len :: uint16
  assumes inv: "kmsg_inv s" and len: "0 < unat len" "unat len \<le> 256" "unat len \<le> length text"
  defines "bs \<equiv> take (unat len) text"
  shows "case kmsg_append_last caller text len s of
      None \<Rightarrow> \<not> can_extend caller (unat len) (kabs s)
    | Some (i, s') \<Rightarrow> can_extend caller (unat len) (kabs s) \<and> kmsg_inv s' \<and>
        kabs s' = butlast (kabs s) @ [(last (kabs s))\<lparr>k_text := k_text (last (kabs s)) @ bs,
          k_final := (last bs = NL)\<rparr>] \<and>
        d_seq (desc s' ! i) = k_seq (last (kabs s')) \<and> next_seq s' = next_seq s"
proof (cases "kabs s = []")
  case True
  then show ?thesis using kmsg_last_Some [OF inv]
    by (simp add: kmsg_append_last_def can_extend_def)
next
  case False
  then obtain i where i: "kmsg_last s = Some i" using kmsg_last_Some [OF inv] by simp
  let ?d = "desc s ! i"
  note ul = update_last [OF inv False i]
  obtain t where last: "last (kabs s) = to_rec ?d t" "length t = unat (d_len ?d)"
    using ul(5,6) by simp
  have tu: "unat (tused s + ucast len) = unat (tused s) + unat len"
    using inv len by (subst unat_add_no_wrap) (auto simp: kmsg_inv_def)
  have can: "can_extend caller (unat len) (kabs s) \<longleftrightarrow> d_flags ?d AND KMSG_F_FINAL = 0 \<and>
      d_caller ?d = caller \<and> unat (d_len ?d) + unat len \<le> 256 \<and> unat (tused s) + unat len \<le> 65536"
    using False last inv by (simp add: can_extend_def to_rec_def log_bytes_kabs)
  show ?thesis
  proof (cases "can_extend caller (unat len) (kabs s)")
    case no: False
    then have "kmsg_append_last caller text len s = None"
      using can by (auto simp: kmsg_append_last_def i Let_def word_less_nat_alt tu)
    with no show ?thesis by simp
  next
    case yes: True
    define fl where "fl = (if last bs = NL then d_flags ?d OR KMSG_F_FINAL else d_flags ?d)"
    define e where "e = ?d\<lparr>d_len := d_len ?d + len, d_flags := fl\<rparr>"
    define s' where "s' = s\<lparr>textbuf := ring_write 65536 (textbuf s) (unat (ttail s) + unat (tused s)) bs,
      thead := (thead s + ucast len) mod KMSG_TEXTSZ, tused := tused s + ucast len,
      desc := (desc s)[i := e]\<rparr>"
    have lb: "length bs = unat len" using len by (simp add: bs_def)
    have lst: "text ! (unat len - 1) = last bs" using len by (simp add: bs_def last_take_nth)
    have wt: "kmsg_write_text (thead s) bs s =
        s\<lparr>textbuf := ring_write 65536 (textbuf s) (unat (ttail s) + unat (tused s)) bs\<rparr>"
      using inv by (intro write_text_eq) (simp add: kmsg_inv_def)
    have run: "kmsg_append_last caller text len s = Some (i, s')"
      using yes can unfolding kmsg_append_last_def i option.case Let_def lst bs_def [symmetric] wt
      by (simp add: word_less_nat_alt tu s'_def e_def fl_def)
    have el: "unat (d_len e) = unat (d_len ?d) + length bs"
      using yes can lb by (simp add: e_def unat_add_no_wrap)
    have "kmsg_inv s' \<and> kabs s' = butlast (kabs s) @ [to_rec e (k_text (last (kabs s)) @ bs)]"
      using el yes can lb inv
      by (intro grow_last [OF inv False i])
        (auto simp: s'_def e_def tu unat_ring_add kmsg_inv_def mod_add_left_eq)
    moreover have "to_rec e (k_text (last (kabs s)) @ bs) =
        (last (kabs s))\<lparr>k_text := k_text (last (kabs s)) @ bs, k_final := (last bs = NL)\<rparr>"
      using yes can last
      by (simp add: to_rec_def e_def fl_def bit.conj_disj_distrib2) (simp add: kdefs)
    moreover have "desc s' ! i = e" using ul(3) inv by (simp add: s'_def kmsg_inv_def)
    moreover have "next_seq s' = next_seq s" by (simp add: s'_def)
    moreover have "d_seq e = k_seq (last (kabs s))" using last by (simp add: to_rec_def e_def)
    ultimately show ?thesis using run yes by simp
  qed
qed

lemma new_record_refines:
  fixes len :: uint16
  assumes inv: "kmsg_inv s" and len: "0 < unat len" "unat len \<le> 256" "unat len \<le> length text"
    and room: "unat (ndesc s) < 1024" "unat (tused s) + unat len \<le> 65536"
    and seq: "next_seq s < KMSG_NO_SEQ"
    and run: "kmsg_new_record ts caller level text len s = (q, s')"
  defines "bs \<equiv> take (unat len) text"
  shows "kmsg_inv s' \<and> q = next_seq s \<and> next_seq s' = next_seq s + 1 \<and>
    kabs s' = kabs s @ [\<lparr>k_seq = next_seq s, k_ts = ts, k_caller = caller,
      k_level = of_nat (if level = KERN_CONT then KERN_INFO else level),
      k_final = (last bs = NL), k_text = bs\<rparr>]"
proof -
  define d where "d = \<lparr>d_seq = next_seq s, d_ts = ts, d_off = thead s, d_caller = caller, d_len = len,
    d_level = of_nat (if level = KERN_CONT then KERN_INFO else level),
    d_flags = (if last bs = NL then KMSG_F_FINAL else 0)\<rparr>"
  have lb: "length bs = unat len" using len by (simp add: bs_def)
  have lst: "text ! (unat len - 1) = last bs" using len by (simp add: bs_def last_take_nth)
  have wt: "kmsg_write_text (thead s) bs s =
      s\<lparr>textbuf := ring_write 65536 (textbuf s) (unat (ttail s) + unat (tused s)) bs\<rparr>"
    using inv by (intro write_text_eq) (simp add: kmsg_inv_def)
  have s': "s' = s\<lparr>textbuf := ring_write 65536 (textbuf s) (unat (ttail s) + unat (tused s)) bs,
      desc := (desc s)[unat (dhead s) := d], thead := (thead s + ucast len) mod KMSG_TEXTSZ,
      tused := tused s + ucast len, dhead := (dhead s + 1) mod KMSG_NDESC, ndesc := ndesc s + 1,
      next_seq := next_seq s + 1\<rparr>" and q: "q = next_seq s"
    using run unfolding kmsg_new_record_def Let_def lst bs_def [symmetric] wt d_def [symmetric]
    by (auto simp: d_def)
  have tu: "unat (tused s') = unat (tused s) + unat len"
    unfolding s' using room by (simp add: unat_add_no_wrap)
  have nd: "unat (ndesc s') = Suc (unat (ndesc s))"
    unfolding s' using room by (simp add: unat_add_no_wrap)
  have sq: "unat (next_seq s + 1) = Suc (unat (next_seq s))"
  proof -
    have "unat KMSG_NO_SEQ = 2 ^ 64 - 1"
      by (simp add: kdefs unsigned_minus_1_eq_mask mask_eq_exp_minus_1)
    then have "unat (next_seq s) + unat (1 :: uint64) < 2 ^ LENGTH(64)"
      using seq unfolding word_less_nat_alt by simp
    from unat_add_no_wrap [OF this] show ?thesis by simp
  qed
  have live': "live s' = live s @ [d]"
    using room inv nd unfolding live_def
    by (simp add: s' ring_view_push kmsg_inv_def)
  have text': "live_text s' = live_text s @ bs"
  proof -
    have "length (textbuf s) = 65536" using inv by (simp add: kmsg_inv_def)
    from ring_view_write [OF this, of "unat (tused s)" bs "unat (ttail s)"] room(2) lb
    have "ring_view 65536 (ring_write 65536 (textbuf s) (unat (ttail s) + unat (tused s)) bs)
        (unat (ttail s)) (unat (tused s) + unat len) = live_text s @ bs"
      unfolding live_text_def by simp
    then show ?thesis unfolding live_text_def [of s'] tu by (simp add: s')
  qed
  have inv_parts: "lens (live s) = unat (tused s)" "offs_ok (unat (ttail s)) (live s)"
    "unat (thead s) = (unat (ttail s) + unat (tused s)) mod 65536"
    "seqs_ok (next_seq s - of_nat (unat (ndesc s))) (live s) (next_seq s)"
    using inv by (auto simp: kmsg_inv_def)
  have "kabs s' = kabs s @ [to_rec d bs]"
    using inv_parts(1) lb by (simp add: kabs_def live' text' to_recs_append d_def)
  moreover have "kmsg_inv s'"
    unfolding kmsg_inv_def live'
  proof (intro conjI)
    show "unat (dhead s') = (unat (dtail s') + unat (ndesc s')) mod 1024"
      using inv nd by (simp add: s' unat_ring_add kmsg_inv_def mod_Suc_eq)
    show "unat (thead s') = (unat (ttail s') + unat (tused s')) mod 65536"
      using inv_parts(3) tu by (simp add: s' unat_ring_add mod_add_left_eq add.assoc)
    show "offs_ok (unat (ttail s')) (live s @ [d])"
      using inv_parts(1-3) by (simp add: s' offs_ok_append d_def)
    have "next_seq s + 1 - of_nat (Suc (unat (ndesc s))) = next_seq s - of_nat (unat (ndesc s))"
      by simp
    then show "seqs_ok (next_seq s' - of_nat (unat (ndesc s'))) (live s @ [d]) (next_seq s')"
      using inv_parts(4) unfolding nd seqs_ok_append by (simp add: s' d_def)
    show "\<forall>x \<in> set (live s @ [d]). 0 < unat (d_len x) \<and> unat (d_len x) \<le> 256"
      using inv len by (simp add: d_def kmsg_inv_def ball_Un)
    show "unat (ndesc s') \<le> unat (next_seq s')"
      using inv nd sq by (simp add: s' kmsg_inv_def)
  qed (use inv room tu nd inv_parts(1) in \<open>simp_all add: s' kmsg_inv_def d_def\<close>)
  ultimately show ?thesis
    using q by (simp add: to_rec_def d_def s') (simp add: kdefs)
qed

section \<open>Sequence numbers and reads\<close>

lemma kabs_nth:
  assumes inv: "kmsg_inv s" and i: "i < unat (ndesc s)"
  shows "kabs s ! i = to_rec (live s ! i)
      (ring_view 65536 (textbuf s) (unat (d_off (live s ! i))) (unat (d_len (live s ! i))))"
    "unat (k_seq (kabs s ! i)) = unat (next_seq s) - unat (ndesc s) + i"
proof -
  let ?p = "lens (take i (live s))" and ?d = "live s ! i"
  have "take (Suc i) (live s) @ drop (Suc i) (live s) = live s" by simp
  then have "lens (live s) = ?p + unat (d_len ?d) + lens (drop (Suc i) (live s))"
    using i by (metis lens_simps take_Suc_nth length_live(1) add.right_neutral)
  then have "?p + unat (d_len ?d) \<le> unat (tused s)" using inv by (simp add: kmsg_inv_def)
  then have "take (unat (d_len ?d)) (drop ?p (live_text s)) =
      ring_view 65536 (textbuf s) (unat (ttail s) + ?p) (unat (d_len ?d))"
    by (simp add: live_text_def ring_view_slice)
  also have "\<dots> = ring_view 65536 (textbuf s) (unat (d_off ?d)) (unat (d_len ?d))"
    using offs_ok_nth [of "unat (ttail s)" "live s" i] inv i by (simp add: kmsg_inv_def)
  finally show "kabs s ! i = to_rec ?d (ring_view 65536 (textbuf s) (unat (d_off ?d)) (unat (d_len ?d)))"
    using i by (simp add: kabs_def to_recs_nth)
  then have "k_seq (kabs s ! i) = next_seq s - of_nat (unat (ndesc s)) + of_nat i"
    using seqs_ok_nth [of _ "live s" "next_seq s" i] inv i by (simp add: to_rec_def kmsg_inv_def)
  also have "\<dots> = of_nat (unat (next_seq s) - unat (ndesc s) + i)"
    using inv by (simp add: kmsg_inv_def of_nat_diff)
  finally have k: "k_seq (kabs s ! i) = of_nat (unat (next_seq s) - unat (ndesc s) + i)" .
  have "unat (ndesc s) \<le> unat (next_seq s)" using inv by (simp add: kmsg_inv_def)
  moreover have "unat (next_seq s) < 2 ^ 64" using unsigned_less [of "next_seq s"] by simp
  ultimately have "unat (next_seq s) - unat (ndesc s) + i < 2 ^ 64" using i by linarith
  then show "unat (k_seq (kabs s ! i)) = unat (next_seq s) - unat (ndesc s) + i"
    unfolding k by (subst unat_of_nat) simp
qed

lemma find_nth:
  assumes "i < length xs" "P (xs ! i)" "\<And>j. j < length xs \<Longrightarrow> P (xs ! j) \<Longrightarrow> j = i"
  shows "find P xs = Some (xs ! i)"
proof -
  have "j < i \<Longrightarrow> \<not> P (xs ! j)" for j
    using assms(3) [of j] assms(1) by (metis less_irrefl less_trans)
  then show ?thesis
    unfolding find_Some_iff by (intro exI [of _ i] conjI assms(1,2) refl allI impI) blast
qed

lemma read_find:
  assumes inv: "kmsg_inv s"
  shows "map_option (\<lambda>(d, t). to_rec d t) (kmsg_read seq s) =
    find (\<lambda>r. k_seq r = seq \<and> k_final r) (kabs s)"
proof (cases "ndesc s = 0")
  case True
  then have "kabs s = []" by (metis length_0_conv length_kabs unat_0)
  with True show ?thesis by (simp add: kmsg_read_def)
next
  case False
  let ?N = "unat (next_seq s)" and ?n = "unat (ndesc s)"
  let ?first = "d_seq (desc s ! unat (dtail s))"
  have n: "0 < ?n" "?n \<le> ?N" "?n \<le> 1024" using False inv by (auto simp: kmsg_inv_def unat_gt_0)
  have hd: "live s ! 0 = desc s ! unat (dtail s)" using n inv by (simp add: live_def kmsg_inv_def)
  have first: "unat ?first = ?N - ?n"
    using kabs_nth(1,2) [OF inv n(1)] hd by (simp add: to_rec_def)
  show ?thesis
  proof (cases "seq < ?first \<or> seq \<ge> next_seq s")
    case True
    then have "find (\<lambda>r. k_seq r = seq \<and> k_final r) (kabs s) = None"
      using kabs_nth(2) [OF inv] first n
      by (auto simp: find_None_iff in_set_conv_nth word_less_nat_alt word_le_nat_alt)
    with True show ?thesis by (auto simp: kmsg_read_def)
  next
    case range: False
    define i where "i = unat seq - (?N - ?n)"
    have i: "i < ?n" using range first n by (auto simp: i_def word_less_nat_alt word_le_nat_alt)
    have "unat (seq - ?first) = i"
      using range first by (simp add: i_def unat_sub word_le_nat_alt word_less_nat_alt)
    then have "unat (ucast (seq - ?first) :: uint32) = i"
      using i n(3) by (simp add: unsigned_ucast_eq take_bit_nat_eq_self)
    then have idx: "desc s ! unat ((dtail s + ucast (seq - ?first)) mod KMSG_NDESC) = live s ! i"
      using i by (simp add: unat_ring_add live_def)
    let ?d = "live s ! i"
    have rd_text: "map (\<lambda>j. textbuf s ! unat ((d_off ?d + of_nat j) mod KMSG_TEXTSZ)) [0..<unat (d_len ?d)]
        = ring_view 65536 (textbuf s) (unat (d_off ?d)) (unat (d_len ?d))"
    proof -
      have "unat (d_len ?d) < 2 ^ 16" using unsigned_less [of "d_len ?d"] by simp
      then have "j mod 4294967296 = j" if "j < unat (d_len ?d)" for j using that by simp
      then show ?thesis by (simp add: ring_view_def unat_ring_add unat_of_nat)
    qed
    have k: "k_seq (kabs s ! i) = seq"
    proof -
      have "unat seq \<ge> ?N - ?n" using range first by (simp add: word_less_nat_alt)
      then show ?thesis
        using kabs_nth(2) [OF inv i] unfolding word_unat_eq_iff i_def by linarith
    qed
    have uniq: "j = i" if "j < length (kabs s)" "k_seq (kabs s ! j) = seq" for j
      using kabs_nth(2) [OF inv, of j] kabs_nth(2) [OF inv i] that k by simp
    have rd: "kmsg_read seq s = (if d_flags ?d AND KMSG_F_FINAL = 0 then None
        else Some (?d, ring_view 65536 (textbuf s) (unat (d_off ?d)) (unat (d_len ?d))))"
      using False range unfolding kmsg_read_def Let_def idx rd_text by simp
    show ?thesis
    proof (cases "d_flags ?d AND KMSG_F_FINAL = 0")
      case True
      then have "\<not> k_final (kabs s ! i)" using kabs_nth(1) [OF inv i] by (simp add: to_rec_def)
      then have "find (\<lambda>r. k_seq r = seq \<and> k_final r) (kabs s) = None"
        unfolding find_None_iff in_set_conv_nth using uniq by metis
      with rd True show ?thesis by simp
    next
      case False
      then have kf: "k_final (kabs s ! i)" unfolding kabs_nth(1) [OF inv i] by (simp add: to_rec_def)
      have "find (\<lambda>r. k_seq r = seq \<and> k_final r) (kabs s) = Some (kabs s ! i)"
        using i by (intro find_nth conjI k kf) (simp, rule uniq, assumption, erule conjunct1)
      with rd False show ?thesis using kabs_nth(1) [OF inv i] by simp
    qed
  qed
qed

section \<open>The ring implements the log\<close>

lemma kmsg_add_cases:
  fixes len0 :: uint16
  assumes inv: "kmsg_inv s" and len: "unat len0 \<le> length text" "len0 \<noteq> 0"
    and seq: "next_seq s < KMSG_NO_SEQ"
  defines "bs \<equiv> take (min 256 (unat len0)) text"
  shows "\<exists>q s'. kmsg_add ts caller False level text len0 s = Some (q, s', []) \<and> kmsg_inv s' \<and>
    kabs s' = log_add (next_seq s) ts caller level bs (kabs s) \<and> q = k_seq (last (kabs s')) \<and>
    (next_seq s' = next_seq s \<or> next_seq s' = next_seq s + 1)"
proof -
  define l where "l = (if len0 > KMSG_RECORD_MAX then KMSG_RECORD_MAX else len0)"
  have ul: "unat l = min 256 (unat len0)" by (auto simp: l_def word_less_nat_alt)
  have l: "0 < unat l" "unat l \<le> 256" "unat l \<le> length text" "l \<noteq> 0"
    using len ul unat_gt_0 [of len0] unat_gt_0 [of l] by auto
  have lb: "length bs = unat l" and bs: "bs = take (unat l) text" using l ul by (auto simp: bs_def)
  have unfold: "kmsg_add ts caller False level text len0 s =
      (case (if level = KERN_CONT then kmsg_append_last caller text l s else None) of
         Some (i, s1) \<Rightarrow> Some (d_seq (desc s1 ! i), s1, [])
       | None \<Rightarrow> (case kmsg_make_room l (kmsg_close_last s) of None \<Rightarrow> None
          | Some s2 \<Rightarrow> (let (q, s3) = kmsg_new_record ts caller level text l s2 in Some (q, s3, []))))"
    using l(4) by (simp add: kmsg_add_def l_def [symmetric] Let_def)
  note ap = append_last_refines [OF inv l(1-3), of caller]
  show ?thesis
  proof (cases "if level = KERN_CONT then kmsg_append_last caller text l s else None")
    case (Some a)
    then obtain i s' where a: "a = (i, s')" "level = KERN_CONT"
      "kmsg_append_last caller text l s = Some (i, s')" by (cases a) (auto split: if_splits)
    with ap have can: "can_extend caller (unat l) (kabs s)" by simp
    have "log_add (next_seq s) ts caller level bs (kabs s) =
        butlast (kabs s) @ [(last (kabs s))\<lparr>k_text := k_text (last (kabs s)) @ bs, k_final := (last bs = NL)\<rparr>]"
      using can a(2) unfolding log_add_def lb by simp
    with ap a unfold Some can show ?thesis unfolding bs by simp
  next
    case None
    then have fresh: "\<not> (level = KERN_CONT \<and> can_extend caller (unat l) (kabs s))"
      using ap by (auto split: if_splits)
    note cl = close_last_refines [OF inv]
    obtain s2 where s2: "kmsg_make_room l (kmsg_close_last s) = Some s2" "kmsg_inv s2"
      "kabs s2 = make_room (unat l) (close_last (kabs s))" "next_seq s2 = next_seq s"
      "unat (ndesc s2) < 1024" "unat (tused s2) + unat l \<le> 65536"
      using make_room_refines [OF cl(1) l(2)] cl(2,3) by auto
    obtain q s3 where s3: "kmsg_new_record ts caller level text l s2 = (q, s3)" by fastforce
    have "log_add (next_seq s) ts caller level bs (kabs s) = kabs s2 @
        [\<lparr>k_seq = next_seq s, k_ts = ts, k_caller = caller,
          k_level = of_nat (if level = KERN_CONT then KERN_INFO else level),
          k_final = (last bs = NL), k_text = bs\<rparr>]"
      using fresh s2(3) unfolding log_add_def lb by (simp only: if_False)
    moreover have "kmsg_inv s3 \<and> q = next_seq s \<and> next_seq s3 = next_seq s + 1 \<and> kabs s3 = kabs s2 @
        [\<lparr>k_seq = next_seq s, k_ts = ts, k_caller = caller,
          k_level = of_nat (if level = KERN_CONT then KERN_INFO else level),
          k_final = (last bs = NL), k_text = bs\<rparr>]"
      using new_record_refines [OF s2(2) l(1-3) s2(5,6) _ s3] seq s2(4) unfolding bs by simp
    moreover have "kmsg_add ts caller False level text len0 s = Some (q, s3, [])"
      using unfold None s2(1) s3 by simp
    ultimately show ?thesis by simp
  qed
qed

section \<open>Every state the kernel reaches\<close>

text \<open>The rings a kernel can be in: the zeroed buffers, then any sequence of calls.\<close>

inductive kmsg_reach :: "kmsg \<Rightarrow> bool" where
  init: "kmsg_reach kmsg_init"
| add: "\<lbrakk>kmsg_reach s; unat len \<le> length text; next_seq s < KMSG_NO_SEQ;
     kmsg_add ts caller in_kmsg level text len s = Some (q, s', out)\<rbrakk> \<Longrightarrow> kmsg_reach s'"
| finalize: "kmsg_reach s \<Longrightarrow> kmsg_reach (kmsg_finalize s)"

lemma kmsg_add_bypass:
  assumes "len = 0 \<or> in_kmsg"
  shows "\<exists>out. kmsg_add ts caller in_kmsg level text len s = Some (KMSG_NO_SEQ, s, out)"
  using assms by (auto simp: kmsg_add_def Let_def)

lemma kmsg_reach_inv: "kmsg_reach s \<Longrightarrow> kmsg_inv s"
proof (induction rule: kmsg_reach.induct)
  case init
  show ?case by (rule kmsg_inv_init)
next
  case (add s len bytes ts caller in_kmsg level q s' out)
  show ?case
  proof (cases "len = 0 \<or> in_kmsg")
    case True
    from kmsg_add_bypass [OF this] add show ?thesis by (metis Pair_inject option.inject)
  next
    case False
    with kmsg_add_cases [of s len bytes ts caller level] add show ?thesis by auto
  qed
next
  case (finalize s)
  then show ?case unfolding kmsg_finalize_def by (intro close_last_refines(1))
qed

text \<open>C10: On every reachable ring a \<open>kmsg_add\<close> outside the bypass returns (its reclaim loop ends)
  and does to the log of records exactly what the abstract \<open>log_add\<close> does: a continuation of the
  same caller extends the open last record when it fits, anything else closes that record, drops as
  many of the oldest records as are in the way and appends one record with the next sequence
  number; the number returned is that of the newest record.\<close>

theorem kmsg_add_refines:
  fixes len :: uint16
  assumes "kmsg_reach s" "len \<noteq> 0" "unat len \<le> length text" "next_seq s < KMSG_NO_SEQ"
  shows "\<exists>q s'. kmsg_add ts caller False level text len s = Some (q, s', []) \<and> kmsg_reach s' \<and>
    kabs s' = log_add (next_seq s) ts caller level (take (min 256 (unat len)) text) (kabs s) \<and>
    q = k_seq (last (kabs s'))"
  using kmsg_add_cases [OF kmsg_reach_inv [OF assms(1)] assms(3,2,4), of ts caller level]
    kmsg_reach.add [OF assms(1,3,4)] by blast

theorem kmsg_add_refines_witness:
  "\<exists>q s'. kmsg_add 7 3 False KERN_INFO [104, 105, NL] 3 kmsg_init = Some (q, s', []) \<and> kmsg_reach s' \<and>
    kabs s' = log_add 0 7 3 KERN_INFO [104, 105, NL] [] \<and> q = k_seq (last (kabs s'))"
proof -
  have ns: "next_seq kmsg_init = 0" by (simp add: kmsg_init_def)
  have k0: "kabs kmsg_init = []" by (rule kmsg_inv_init)
  have "next_seq kmsg_init < KMSG_NO_SEQ" unfolding ns by (simp add: kdefs word_less_nat_alt unsigned_minus_1_eq_mask)
  from kmsg_add_refines [OF kmsg_reach.init _ _ this, of 3 "[104, 105, NL]" 7 3 KERN_INFO]
  show ?thesis unfolding ns k0 by simp
qed

text \<open>C31: \<open>kmsg_read\<close> is a lookup in the log: on every reachable ring it returns the descriptor and
  the text of the closed record that carries the sequence number, and fails when that record was
  dropped, was never written or is still open.\<close>

theorem kmsg_read_find:
  assumes "kmsg_reach s"
  shows "map_option (\<lambda>(d, t). to_rec d t) (kmsg_read seq s) =
    find (\<lambda>r. k_seq r = seq \<and> k_final r) (kabs s)"
  using kmsg_reach_inv [OF assms] by (rule read_find)

theorem kmsg_read_find_witness:
  "map_option (\<lambda>(d, t). to_rec d t) (kmsg_read 0 (kmsg_finalize kmsg_init)) = None"
proof -
  have "kabs (kmsg_finalize kmsg_init) = []"
    using kmsg_inv_init by (simp add: kmsg_finalize_def close_last_refines close_last_def)
  then show ?thesis
    using kmsg_read_find [OF kmsg_reach.finalize [OF kmsg_reach.init], of 0] by simp
qed

end
