(* ===== verification/Bitstring.thy ===== *)
theory Bitstring
  imports Prelude
begin

text \<open>
  \<^verbatim>\<open>sys/bitstring.h\<close>: bit arrays over 64-bit words, and \<^verbatim>\<open>sys/cpumask.h\<close>, the CPU sets built on
  them. \<open>bit_ffc\<close> finds the first clear bit a word at a time; the lemmas relate it to the plain
  set view of the array. The locale \<open>bitmap\<close> is the interface that the id allocators rely on.
\<close>

section \<open>Bit arrays\<close>

type_synonym bitstr = "uint64 list"

definition BITSTR_T_BITS :: nat where "BITSTR_T_BITS = 64"

definition BITSTR_NWORDS :: "nat \<Rightarrow> nat" where
  "BITSTR_NWORDS n = (n + BITSTR_T_BITS - 1) div BITSTR_T_BITS"

definition BIT_IDX :: "nat \<Rightarrow> nat" where "BIT_IDX b = b div BITSTR_T_BITS"

definition BIT_MASK :: "nat \<Rightarrow> uint64" where "BIT_MASK b = push_bit (b mod BITSTR_T_BITS) 1"

definition bit_decl :: "nat \<Rightarrow> bitstr" where
  "bit_decl nbits = replicate (BITSTR_NWORDS nbits) 0"

definition bit_set :: "bitstr \<Rightarrow> nat \<Rightarrow> bitstr" where
  "bit_set a b = a[BIT_IDX b := a ! BIT_IDX b OR BIT_MASK b]"

definition bit_clear :: "bitstr \<Rightarrow> nat \<Rightarrow> bitstr" where
  "bit_clear a b = a[BIT_IDX b := a ! BIT_IDX b AND NOT (BIT_MASK b)]"

definition bit_test :: "bitstr \<Rightarrow> nat \<Rightarrow> bool" where
  "bit_test a b \<longleftrightarrow> a ! BIT_IDX b AND BIT_MASK b \<noteq> 0"

text \<open>\<open>__builtin_ctzll\<close>, used on nonzero words only.\<close>

definition builtin_ctzll :: "uint64 \<Rightarrow> nat" where
  "builtin_ctzll w = length (takeWhile (\<lambda>n. \<not> bit w n) [0..<64])"

function bit_ffc_loop :: "bitstr \<Rightarrow> nat \<Rightarrow> nat \<Rightarrow> int" where
  "bit_ffc_loop bs nbits w =
     (if w < BITSTR_NWORDS nbits then
        (let free = NOT (bs ! w) in
         if free \<noteq> 0 then
           (let b = w * BITSTR_T_BITS + builtin_ctzll free in
            if b < nbits then int b else -1)
         else bit_ffc_loop bs nbits (Suc w))
      else -1)"
  by pat_completeness auto
termination
  by (relation "measure (\<lambda>(bs, nbits, w). BITSTR_NWORDS nbits - w)") auto

definition bit_ffc :: "bitstr \<Rightarrow> nat \<Rightarrow> int" where
  "bit_ffc bs nbits = bit_ffc_loop bs nbits 0"

declare bit_ffc_loop.simps [simp del]

section \<open>CPU masks\<close>

definition NCPU_MAX :: nat where "NCPU_MAX = 32"

definition cpumask_zero :: bitstr where
  "cpumask_zero = replicate (BITSTR_NWORDS NCPU_MAX) 0"

definition cpumask_set :: "bitstr \<Rightarrow> nat \<Rightarrow> bitstr" where "cpumask_set m cpu = bit_set m cpu"

definition cpumask_clear :: "bitstr \<Rightarrow> nat \<Rightarrow> bitstr" where "cpumask_clear m cpu = bit_clear m cpu"

definition cpumask_test :: "bitstr \<Rightarrow> nat \<Rightarrow> bool" where "cpumask_test m cpu = bit_test m cpu"

section \<open>The bit array as a set of indices\<close>

lemmas bitstr_defs = BITSTR_T_BITS_def BIT_IDX_def BIT_MASK_def bit_set_def bit_clear_def bit_test_def

definition bitstr_ok :: "nat \<Rightarrow> bitstr \<Rightarrow> bool" where
  "bitstr_ok n a \<longleftrightarrow> n \<le> 64 * length a"

lemma idx_less: "bitstr_ok n a \<Longrightarrow> b < n \<Longrightarrow> b div 64 < length a"
  by (simp add: bitstr_ok_def less_mult_imp_div_less mult.commute)

lemma bit_test_iff: "bit_test a b \<longleftrightarrow> bit (a ! (b div 64)) (b mod 64)"
proof
  assume "bit_test a b"
  then obtain n where "bit (a ! (b div 64) AND push_bit (b mod 64) 1) n"
    by (auto simp: bitstr_defs word_zero_iff_bits)
  then show "bit (a ! (b div 64)) (b mod 64)" by (auto simp: bit_and_iff)
next
  assume "bit (a ! (b div 64)) (b mod 64)"
  then have "bit (a ! (b div 64) AND push_bit (b mod 64) 1) (b mod 64)"
    by (simp add: bit_and_iff)
  then show "bit_test a b" by (auto simp: bitstr_defs)
qed

lemma div_mod_64_eq: "(b :: nat) div 64 = c div 64 \<Longrightarrow> b mod 64 = c mod 64 \<Longrightarrow> b = c"
  by (metis div_mult_mod_eq)

lemma bit_test_set:
  assumes "bitstr_ok n a" "b < n" "c < n"
  shows "bit_test (bit_set a b) c \<longleftrightarrow> c = b \<or> bit_test a c"
  using idx_less [OF assms(1,2)] div_mod_64_eq [of c b]
  by (auto simp: bit_test_iff bitstr_defs nth_list_update bit_or_iff)

lemma bit_test_clear:
  assumes "bitstr_ok n a" "b < n" "c < n"
  shows "bit_test (bit_clear a b) c \<longleftrightarrow> c \<noteq> b \<and> bit_test a c"
  using idx_less [OF assms(1,2)] div_mod_64_eq [of c b]
  by (auto simp: bit_test_iff bitstr_defs nth_list_update bit_and_iff bit_not_iff)

lemma bitstr_ok_set [simp]: "bitstr_ok n (bit_set a b) = bitstr_ok n a"
  by (simp add: bitstr_ok_def bit_set_def)

lemma bitstr_ok_clear [simp]: "bitstr_ok n (bit_clear a b) = bitstr_ok n a"
  by (simp add: bitstr_ok_def bit_clear_def)

lemma bitstr_ok_decl [simp]: "bitstr_ok n (bit_decl n)"
  by (simp add: bitstr_ok_def bit_decl_def BITSTR_NWORDS_def BITSTR_T_BITS_def)

lemma bit_test_decl [simp]: "b < n \<Longrightarrow> \<not> bit_test (bit_decl n) b"
proof -
  assume "b < n"
  then have "b div 64 < length (bit_decl n)" by (rule idx_less [OF bitstr_ok_decl])
  then show ?thesis by (simp add: bit_test_iff bit_decl_def)
qed

section \<open>First clear bit\<close>

lemma ctzll_props:
  assumes "w \<noteq> 0"
  shows "builtin_ctzll w < 64" "bit w (builtin_ctzll w)" "i < builtin_ctzll w \<Longrightarrow> \<not> bit w i"
proof -
  let ?xs = "[0..<64] :: nat list" and ?P = "\<lambda>n. \<not> bit w n"
  obtain k where k: "k < 64" "bit w k" using assms by (auto simp: word_zero_iff_bits)
  have "\<exists>x\<in>set ?xs. \<not> ?P x" using k by (intro bexI [of _ k]) auto
  then have "takeWhile ?P ?xs \<noteq> ?xs" by (simp add: takeWhile_eq_all_conv)
  then have lt: "length (takeWhile ?P ?xs) < length ?xs"
    by (metis length_takeWhile_le le_neq_implies_less takeWhile_eq_take take_all order_refl)
  then show l: "builtin_ctzll w < 64" by (simp add: builtin_ctzll_def)
  from lt have "\<not> ?P (?xs ! length (takeWhile ?P ?xs))" by (rule nth_length_takeWhile)
  with l show "bit w (builtin_ctzll w)" by (simp add: builtin_ctzll_def)
  assume i: "i < builtin_ctzll w"
  then have "takeWhile ?P ?xs ! i \<in> set (takeWhile ?P ?xs)"
    by (simp add: builtin_ctzll_def)
  moreover have "takeWhile ?P ?xs ! i = i"
    using i l by (simp add: builtin_ctzll_def takeWhile_nth)
  ultimately show "\<not> bit w i" by (metis set_takeWhileD)
qed

lemma bit_ffc_loop_spec:
  assumes "bitstr_ok nbits bs" "\<forall>b < 64 * w. b < nbits \<longrightarrow> bit_test bs b"
  shows "(case bit_ffc_loop bs nbits w of r \<Rightarrow>
      (r = -1 \<and> (\<forall>b < nbits. bit_test bs b)) \<or>
      (0 \<le> r \<and> nat r < nbits \<and> \<not> bit_test bs (nat r) \<and> (\<forall>b < nat r. bit_test bs b)))"
  using assms
proof (induction bs nbits w rule: bit_ffc_loop.induct)
  case (1 bs nbits w)
  note ok = "1.prems"(1) and below = "1.prems"(2)
  let ?free = "NOT (bs ! w)"
  have in_word: "bit_test bs b \<longleftrightarrow> \<not> bit ?free (b mod 64)" if "b div 64 = w" for b
    using that by (simp add: bit_test_iff bit_not_iff)
  consider (fin) "\<not> w < BITSTR_NWORDS nbits" | (full) "w < BITSTR_NWORDS nbits" "?free = 0"
    | (hit) "w < BITSTR_NWORDS nbits" "?free \<noteq> 0" by blast
  then show ?case
  proof cases
    case fin
    then have "nbits \<le> 64 * w" by (simp add: BITSTR_NWORDS_def BITSTR_T_BITS_def)
    with below fin show ?thesis by (auto simp: bit_ffc_loop.simps [of bs nbits w])
  next
    case full
    have "\<forall>b < 64 * Suc w. b < nbits \<longrightarrow> bit_test bs b"
    proof (intro allI impI)
      fix b assume "b < 64 * Suc w" "b < nbits"
      then show "bit_test bs b"
        using below in_word [of b] full(2) by (cases "b < 64 * w") (auto simp: div_nat_eqI)
    qed
    with "1.IH" [OF full(1) refl _ ok] full show ?thesis
      by (simp add: bit_ffc_loop.simps [of bs nbits w])
  next
    case hit
    let ?c = "builtin_ctzll ?free"
    define k where "k = w * 64 + ?c"
    note ctz = ctzll_props [OF hit(2)]
    have upto: "bit_test bs b" if "b < k" "b < nbits" for b
    proof (cases "b < 64 * w")
      case True
      with below that show ?thesis by blast
    next
      case False
      with that ctz(1) have b: "b div 64 = w" by (intro div_nat_eqI) (auto simp: k_def)
      then have "b = w * 64 + b mod 64" by (metis div_mult_mod_eq)
      with that have "b mod 64 < ?c" by (simp add: k_def)
      with b have "b div 64 = w" "b mod 64 < ?c" by simp_all
      with in_word ctz(3) show ?thesis by blast
    qed
    have "\<not> bit_test bs k" using in_word [of k] ctz(1,2) by (simp add: k_def)
    moreover have "bit_ffc_loop bs nbits w = (if k < nbits then int k else -1)"
      using hit by (simp add: bit_ffc_loop.simps [of bs nbits w] BITSTR_T_BITS_def k_def)
    ultimately show ?thesis using upto by (cases "k < nbits") auto
  qed
qed

lemma bit_ffc_cases:
  assumes "bitstr_ok n bs"
  obtains (full) "bit_ffc bs n = -1" "\<forall>b < n. bit_test bs b"
  | (found) i where "bit_ffc bs n = int i" "i < n" "\<not> bit_test bs i" "\<forall>b < i. bit_test bs b"
  using bit_ffc_loop_spec [of n bs 0] assms unfolding bit_ffc_def
  by (auto; metis int_nat_eq)

section \<open>The bitmap interface\<close>

text \<open>
  What the pid, kernel-stack-slot, ASID and slab-slot allocators rely on: an array of a fixed
  capacity with single-bit updates and a first-clear search. \<open>reserve\<close> is the pattern they share:
  find a clear bit and set it.
\<close>

locale bitmap =
  fixes ok :: "nat \<Rightarrow> 'm \<Rightarrow> bool"
    and tst :: "'m \<Rightarrow> nat \<Rightarrow> bool"
    and set_at :: "'m \<Rightarrow> nat \<Rightarrow> 'm"
    and clear_at :: "'m \<Rightarrow> nat \<Rightarrow> 'm"
    and ffc :: "'m \<Rightarrow> nat \<Rightarrow> int"
  assumes ok_set_at: "ok n m \<Longrightarrow> b < n \<Longrightarrow> ok n (set_at m b)"
    and ok_clear_at: "ok n m \<Longrightarrow> b < n \<Longrightarrow> ok n (clear_at m b)"
    and tst_set_at: "ok n m \<Longrightarrow> b < n \<Longrightarrow> c < n \<Longrightarrow> tst (set_at m b) c \<longleftrightarrow> c = b \<or> tst m c"
    and tst_clear_at: "ok n m \<Longrightarrow> b < n \<Longrightarrow> c < n \<Longrightarrow> tst (clear_at m b) c \<longleftrightarrow> c \<noteq> b \<and> tst m c"
    and ffc_none: "ok n m \<Longrightarrow> ffc m n < 0 \<Longrightarrow> b < n \<Longrightarrow> tst m b"
    and ffc_some: "ok n m \<Longrightarrow> 0 \<le> ffc m n \<Longrightarrow> nat (ffc m n) < n \<and> \<not> tst m (nat (ffc m n))"
    and ffc_first: "ok n m \<Longrightarrow> 0 \<le> ffc m n \<Longrightarrow> b < nat (ffc m n) \<Longrightarrow> tst m b"
begin

definition used :: "nat \<Rightarrow> 'm \<Rightarrow> nat set" where
  "used n m = {b. b < n \<and> tst m b}"

definition reserve :: "nat \<Rightarrow> 'm \<Rightarrow> int \<times> 'm" where
  "reserve n m = (let i = ffc m n in (i, if 0 \<le> i then set_at m (nat i) else m))"

lemma used_finite [simp]: "finite (used n m)"
  by (simp add: used_def)

lemma used_set_at: "ok n m \<Longrightarrow> b < n \<Longrightarrow> used n (set_at m b) = insert b (used n m)"
  by (auto simp: used_def tst_set_at)

lemma used_clear_at: "ok n m \<Longrightarrow> b < n \<Longrightarrow> used n (clear_at m b) = used n m - {b}"
  by (auto simp: used_def tst_clear_at)

lemma reserve_fresh:
  assumes "ok n m" "reserve n m = (i, m')" "0 \<le> i"
  shows "nat i < n" "nat i \<notin> used n m" "used n m' = insert (nat i) (used n m)" "ok n m'"
  using assms ffc_some [of n m]
  by (auto simp: reserve_def Let_def used_set_at ok_set_at used_def tst_set_at)

lemma reserve_full:
  assumes "ok n m" "reserve n m = (i, m')" "i < 0"
  shows "used n m = {..<n}" "m' = m"
  using assms ffc_none [of n m] by (auto simp: reserve_def Let_def used_def)

lemma reserve_total:
  assumes "ok n m" "card (used n m) < n"
  shows "0 \<le> fst (reserve n m)"
proof (rule ccontr)
  assume "\<not> 0 \<le> fst (reserve n m)"
  with reserve_full(1) [OF assms(1), of "fst (reserve n m)" "snd (reserve n m)"]
  have "used n m = {..<n}" by simp
  with assms(2) show False by simp
qed

lemma release_reserve:
  assumes "ok n m" "reserve n m = (i, m')" "0 \<le> i"
  shows "used n (clear_at m' (nat i)) = used n m"
  using reserve_fresh [OF assms] by (simp add: used_clear_at)

end

interpretation bs: bitmap bitstr_ok bit_test bit_set bit_clear bit_ffc
proof
  fix n m b assume ok: "bitstr_ok n m"
  show "b < n \<Longrightarrow> bit_test m b" if "bit_ffc m n < 0"
    using ok that by (cases rule: bit_ffc_cases) auto
  show "nat (bit_ffc m n) < n \<and> \<not> bit_test m (nat (bit_ffc m n))" if "0 \<le> bit_ffc m n"
    using ok that by (cases rule: bit_ffc_cases) auto
  show "bit_test m b" if "0 \<le> bit_ffc m n" "b < nat (bit_ffc m n)"
    using ok that by (cases rule: bit_ffc_cases) auto
qed (auto simp: bit_test_set bit_test_clear)

end
