(* ===== verification/Asid.thy ===== *)
theory Asid
  imports Bitstring
begin

text \<open>
  The address space identifier allocator (\<^verbatim>\<open>arch/asid.c\<close>): a bitmap of the numbers of the current
  generation, the context word of each process (generation and number packed), and per CPU the
  active slot, the number carried across a rollover and a pending local TLB flush.
  \<open>asid_switch\<close> is split where the code synchronises: the three reads and the compare-and-swap of
  the lock-free fast path are steps of their own, and the slow path, which holds \<open>asid_lock\<close> from
  its re-check to its publication, is one step. The TLB of each CPU is modelled as the set of
  (context, process) pairs it has cached translations for, of which the hardware compares only the
  number, so that the property the allocator exists for can be stated: no CPU ever translates
  through another process's entries.
\<close>

section \<open>State and operations\<close>

definition ASID_MAX :: nat where [kdefs]: "ASID_MAX = 65536"
definition ASID_RESERVED :: nat where [kdefs]: "ASID_RESERVED = 0"

record asid_st =
  as_ncpus :: nat
  as_total :: uint64                 \<comment> \<open>\<open>asid_num_total\<close>\<close>
  as_mask :: uint64
  as_gen :: uint64                   \<comment> \<open>\<open>asid_generation\<close>\<close>
  as_next :: uint64
  as_bitmap :: bitstr
  as_pending :: bitstr               \<comment> \<open>\<open>tlb_pending\<close>\<close>
  as_active :: "nat \<Rightarrow> uint64"       \<comment> \<open>\<open>cpus[c].asid_active\<close>\<close>
  as_reserved :: "nat \<Rightarrow> uint64"     \<comment> \<open>\<open>cpus[c].asid_reserved\<close>\<close>
  as_ctx :: "nat \<Rightarrow> uint64"          \<comment> \<open>\<open>p->asid_ctx\<close>, by process\<close>

definition bitmap_find_zero :: "uint64 \<Rightarrow> 'a asid_st_scheme \<Rightarrow> uint64" where
  "bitmap_find_zero start s =
     (case find (\<lambda>i. \<not> bit_test (as_bitmap s) i) [unat start..<unat (as_total s)] of
        Some i \<Rightarrow> of_nat i
      | None \<Rightarrow>
          (case find (\<lambda>b. \<not> bit_test (as_bitmap s) b) [1..<unat start] of
             Some b \<Rightarrow> of_nat b
           | None \<Rightarrow> as_total s))"

definition check_update_reserved_asid ::
  "uint64 \<Rightarrow> uint64 \<Rightarrow> 'a asid_st_scheme \<Rightarrow> bool \<times> 'a asid_st_scheme" where
  "check_update_reserved_asid asid newasid s =
     (\<exists>c < as_ncpus s. as_reserved s c = asid,
      s\<lparr>as_reserved := (\<lambda>c. if c < as_ncpus s \<and> as_reserved s c = asid then newasid else as_reserved s c)\<rparr>)"

text \<open>\<open>bits\<close> is \<open>asid_bits()\<close>, 8 or 16 by a feature register.\<close>

definition asid_init :: "nat \<Rightarrow> 'a asid_st_scheme \<Rightarrow> 'a asid_st_scheme" where
  "asid_init bits s =
     s\<lparr>as_total := push_bit bits 1, as_mask := push_bit bits 1 - 1, as_gen := push_bit bits 1, as_next := 1,
       as_pending := cpumask_zero, as_bitmap := bit_set (bit_decl ASID_MAX) ASID_RESERVED,
       as_active := (\<lambda>c. if c < NCPU_MAX then 0 else as_active s c),
       as_reserved := (\<lambda>c. if c < NCPU_MAX then 0 else as_reserved s c)\<rparr>"

definition asid_num :: "nat \<Rightarrow> 'a asid_st_scheme \<Rightarrow> uint16" where
  "asid_num p s = ucast (as_ctx s p AND as_mask s)"

definition flush_cpu :: "nat \<Rightarrow> 'a asid_st_scheme \<Rightarrow> 'a asid_st_scheme" where
  "flush_cpu c s =
     (let asid = (if as_active s c = 0 then as_reserved s c else as_active s c) in
      s\<lparr>as_active := (as_active s)(c := 0), as_reserved := (as_reserved s)(c := asid),
        as_bitmap := (if asid \<noteq> 0 then bit_set (as_bitmap s) (unat (asid AND as_mask s)) else as_bitmap s)\<rparr>)"

definition flush_context :: "'a asid_st_scheme \<Rightarrow> 'a asid_st_scheme" where
  "flush_context s =
     (let s1 = s\<lparr>as_bitmap := bit_set (bit_decl ASID_MAX) ASID_RESERVED\<rparr>;
          s2 = fold flush_cpu [0..<as_ncpus s] s1
      in s2\<lparr>as_pending := fold (\<lambda>c m. cpumask_set m c) [0..<as_ncpus s] (as_pending s2),
            as_gen := as_gen s2 + as_total s2, as_next := 1\<rparr>)"

definition pick_asid :: "'a asid_st_scheme \<Rightarrow> (uint64 \<times> 'a asid_st_scheme) res" where
  "pick_asid s =
     (let asid = bitmap_find_zero (as_next s) s;
          s1 = (if asid = as_total s then flush_context s else s);
          asid1 = (if asid = as_total s then bitmap_find_zero 1 s1 else asid) in
      kassert (asid1 \<noteq> as_total s1) ''asid: pool exhausted after rollover''
        (Inr (as_gen s1 OR asid1,
              s1\<lparr>as_bitmap := bit_set (as_bitmap s1) (unat asid1), as_next := asid1 + 1\<rparr>)))"

definition new_context :: "nat \<Rightarrow> 'a asid_st_scheme \<Rightarrow> (uint64 \<times> 'a asid_st_scheme) res" where
  "new_context p s =
     (let old = as_ctx s p; newasid = as_gen s OR (old AND as_mask s);
          (hit, s1) = check_update_reserved_asid old newasid s in
      if old \<noteq> 0 \<and> hit then Inr (newasid, s1)
      else if old \<noteq> 0 \<and> \<not> bit_test (as_bitmap s) (unat (old AND as_mask s)) then
        Inr (newasid, s\<lparr>as_bitmap := bit_set (as_bitmap s) (unat (old AND as_mask s))\<rparr>)
      else pick_asid s)"

text \<open>
  The slow path of \<open>asid_switch\<close>: the context it publishes, whether it flushed the local TLB, and
  the state it leaves.
\<close>

definition asid_switch_slow :: "nat \<Rightarrow> nat \<Rightarrow> 'a asid_st_scheme \<Rightarrow> (uint64 \<times> bool \<times> 'a asid_st_scheme) res" where
  "asid_switch_slow cpu p s =
     rbind (if as_ctx s p AND NOT (as_mask s) \<noteq> as_gen s then
              rbind (new_context p s) (\<lambda>(ctx, s1). Inr (ctx, s1\<lparr>as_ctx := (as_ctx s1)(p := ctx)\<rparr>))
            else Inr (as_ctx s p, s))
       (\<lambda>(ctx, s2).
          let flush = cpumask_test (as_pending s2) cpu in
          Inr (ctx, flush,
            s2\<lparr>as_pending := (if flush then cpumask_clear (as_pending s2) cpu else as_pending s2),
               as_active := (as_active s2)(cpu := ctx)\<rparr>))"

text \<open>The fast path's test on what it has read, before the compare-and-swap.\<close>

definition asid_fast_ok :: "uint64 \<Rightarrow> uint64 \<Rightarrow> uint64 \<Rightarrow> 'a asid_st_scheme \<Rightarrow> bool" where
  "asid_fast_ok ctx gen old_active s \<longleftrightarrow> old_active \<noteq> 0 \<and> (ctx XOR gen) AND NOT (as_mask s) = 0"

section \<open>The machine around it\<close>

text \<open>Where a CPU is in \<open>asid_switch\<close>, what its TTBR0 holds, and what its TLB may hold.\<close>

datatype asid_pc =
    Away
  | Read_ctx nat uint64
  | Read_gen nat uint64 uint64
  | Read_active nat uint64 uint64 uint64
  | Slow nat

primrec pc_proc :: "asid_pc \<Rightarrow> nat option" where
  "pc_proc Away = None"
| "pc_proc (Read_ctx p x) = Some p"
| "pc_proc (Read_gen p x g) = Some p"
| "pc_proc (Read_active p x g a) = Some p"
| "pc_proc (Slow p) = Some p"

record asid_sys = asid_st +
  ay_pc :: "nat \<Rightarrow> asid_pc"
  ay_ttbr0 :: "nat \<Rightarrow> (uint64 \<times> nat) option"
  ay_tlb :: "nat \<Rightarrow> (uint64 \<times> nat) set"

definition set_pc :: "nat \<Rightarrow> asid_pc \<Rightarrow> asid_sys \<Rightarrow> asid_sys" where
  "set_pc c k s = s\<lparr>ay_pc := (ay_pc s)(c := k)\<rparr>"

definition load_ttbr0 :: "nat \<Rightarrow> uint64 \<Rightarrow> nat \<Rightarrow> asid_sys \<Rightarrow> asid_sys" where
  "load_ttbr0 c x p s = s\<lparr>ay_ttbr0 := (ay_ttbr0 s)(c := Some (x, p)), ay_pc := (ay_pc s)(c := Away)\<rparr>"

text \<open>
  The scheduler calls \<open>asid_switch\<close> with the process's lock held, so a process is switched to by one
  CPU at a time, and parks TTBR0 on the empty table first. A walk may cache an entry at any moment
  for the table TTBR0 points at; a local flush may be followed by a last walk through the old table.
\<close>

inductive asid_step :: "asid_sys \<Rightarrow> asid_sys \<Rightarrow> bool" where
  enter: "\<lbrakk>c < as_ncpus s; ay_pc s c = Away; \<forall>d < as_ncpus s. pc_proc (ay_pc s d) \<noteq> Some p\<rbrakk>
     \<Longrightarrow> asid_step s (set_pc c (Read_ctx p (as_ctx s p)) s)"
| read_gen: "\<lbrakk>c < as_ncpus s; ay_pc s c = Read_ctx p x\<rbrakk>
     \<Longrightarrow> asid_step s (set_pc c (Read_gen p x (as_gen s)) s)"
| read_active: "\<lbrakk>c < as_ncpus s; ay_pc s c = Read_gen p x g\<rbrakk>
     \<Longrightarrow> asid_step s (set_pc c (Read_active p x g (as_active s c)) s)"
| cas_ok: "\<lbrakk>c < as_ncpus s; ay_pc s c = Read_active p x g a; asid_fast_ok x g a s; as_active s c = a\<rbrakk>
     \<Longrightarrow> asid_step s (load_ttbr0 c x p (s\<lparr>as_active := (as_active s)(c := x)\<rparr>))"
| cas_fail: "\<lbrakk>c < as_ncpus s; ay_pc s c = Read_active p x g a; \<not> (asid_fast_ok x g a s \<and> as_active s c = a)\<rbrakk>
     \<Longrightarrow> asid_step s (set_pc c (Slow p) s)"
| slow: "\<lbrakk>c < as_ncpus s; ay_pc s c = Slow p; unat (as_gen s) + unat (as_total s) < 2 ^ 64;
     asid_switch_slow c p s = Inr (x, flush, s'); T \<subseteq> set_option (ay_ttbr0 s c)\<rbrakk>
     \<Longrightarrow> asid_step s (load_ttbr0 c x p (s'\<lparr>ay_tlb := (ay_tlb s)(c := if flush then T else ay_tlb s c)\<rparr>))"
| fill: "\<lbrakk>c < as_ncpus s; ay_ttbr0 s c = Some e\<rbrakk>
     \<Longrightarrow> asid_step s (s\<lparr>ay_tlb := (ay_tlb s)(c := insert e (ay_tlb s c))\<rparr>)"
| park: "\<lbrakk>c < as_ncpus s; ay_pc s c = Away\<rbrakk>
     \<Longrightarrow> asid_step s (s\<lparr>ay_ttbr0 := (ay_ttbr0 s)(c := None)\<rparr>)"
| asid_flush: "asid_step s (s\<lparr>ay_tlb := (\<lambda>c. {(x, q) \<in> ay_tlb s c. x AND as_mask s \<noteq> as_ctx s p AND as_mask s})\<rparr>)"

definition asid_boot :: "nat \<Rightarrow> nat \<Rightarrow> asid_sys" where
  "asid_boot bits n = asid_init bits
     \<lparr>as_ncpus = n, as_total = 0, as_mask = 0, as_gen = 0, as_next = 0, as_bitmap = [], as_pending = [],
      as_active = (\<lambda>_. 0), as_reserved = (\<lambda>_. 0), as_ctx = (\<lambda>_. 0),
      ay_pc = (\<lambda>_. Away), ay_ttbr0 = (\<lambda>_. None), ay_tlb = (\<lambda>_. {})\<rparr>"

inductive asid_reach :: "nat \<Rightarrow> nat \<Rightarrow> asid_sys \<Rightarrow> bool" for bits n where
  boot: "asid_reach bits n (asid_boot bits n)"
| step: "asid_reach bits n s \<Longrightarrow> asid_step s s' \<Longrightarrow> asid_reach bits n s'"

section \<open>Packed contexts\<close>

lemma mask_word: "(push_bit b 1 :: 'a::len word) - 1 = mask b"
  by (simp add: mask_eq_decr_exp)

lemma unpack: "(x :: 'a::len word) AND m = y AND m \<Longrightarrow> x AND NOT m = y AND NOT m \<Longrightarrow> x = y"
  by (metis and.commute bit.conj_disj_distrib2 bit.disj_cancel_right and.right_neutral)

lemma pack:
  assumes "(g :: 'a::len word) AND m = 0" "a AND m = a"
  shows "(g OR a) AND m = a" "(g OR a) AND NOT m = g"
proof -
  show "(g OR a) AND m = a" using assms by (simp add: bit.conj_disj_distrib2)
  have "a AND NOT m = 0" using assms(2) by (metis and.assoc bit.conj_cancel_right and_zero_eq)
  moreover have "g AND NOT m = g"
    by (metis assms(1) unpack and.assoc and.right_idem bit.conj_cancel_left and_zero_eq)
  ultimately show "(g OR a) AND NOT m = g" by (simp add: bit.conj_disj_distrib2)
qed

lemma and_mask_self: "unat (a :: 'a::len word) < 2 ^ b \<Longrightarrow> a AND mask b = a"
  by (simp add: word_unat_eq_iff unat_and_mask)

lemma next_gen:
  assumes "(g :: uint64) AND mask b = 0" "unat g + 2 ^ b < 2 ^ 64" "b < 64"
  shows "(g + push_bit b 1) AND mask b = 0" "unat (g + push_bit b 1) = unat g + 2 ^ b"
proof -
  have "(2 :: nat) ^ b < 2 ^ 64" using assms(3) by (intro power_strict_increasing) simp_all
  then have "unat (1 :: uint64) * 2 ^ b < 2 ^ LENGTH(64)" by simp
  from unat_push_bit_mult [OF this] have u1: "unat (push_bit b 1 :: uint64) = 2 ^ b"
    by (simp only: unsigned_1 mult_1)
  show u: "unat (g + push_bit b 1) = unat g + 2 ^ b"
    using assms(2) unfolding u1 [symmetric] by (intro unat_add_no_wrap) simp
  have "unat g mod 2 ^ b = 0" using assms(1) by (metis unat_and_mask unat_0)
  then have "unat ((g + push_bit b 1) AND mask b) = 0" by (simp only: unat_and_mask u mod_add_self2)
  then show "(g + push_bit b 1) AND mask b = 0" by (simp only: unat_eq_zero)
qed

section \<open>The allocator's invariant\<close>

definition num :: "'a asid_st_scheme \<Rightarrow> uint64 \<Rightarrow> nat" where
  "num s x = unat (x AND as_mask s)"

definition cur :: "'a asid_st_scheme \<Rightarrow> nat \<Rightarrow> bool" where
  "cur s p \<longleftrightarrow> as_ctx s p AND NOT (as_mask s) = as_gen s"

definition width_ok :: "nat \<Rightarrow> 'a asid_st_scheme \<Rightarrow> bool" where [inv_simps]:
  "width_ok b s \<longleftrightarrow> (b = 8 \<or> b = 16) \<and> as_total s = push_bit b 1 \<and> as_mask s = mask b \<and> as_ncpus s \<le> NCPU_MAX \<and>
     as_gen s AND mask b = 0 \<and> as_gen s \<noteq> 0 \<and> bitstr_ok ASID_MAX (as_bitmap s) \<and>
     bitstr_ok NCPU_MAX (as_pending s) \<and> 1 \<le> unat (as_next s) \<and> unat (as_next s) \<le> 2 ^ b"

definition ctx_ok :: "'a asid_st_scheme \<Rightarrow> bool" where [inv_simps]:
  "ctx_ok s \<longleftrightarrow> bit_test (as_bitmap s) 0 \<and>
     (\<forall>p. as_ctx s p AND NOT (as_mask s) \<le> as_gen s) \<and>
     (\<forall>p q. as_ctx s p = as_ctx s q \<and> as_ctx s p \<noteq> 0 \<longrightarrow> p = q) \<and>
     (\<forall>p. cur s p \<longrightarrow> bit_test (as_bitmap s) (num s (as_ctx s p)))"

definition reserved_ok :: "'a asid_st_scheme \<Rightarrow> bool" where [inv_simps]:
  "reserved_ok s \<longleftrightarrow> (\<forall>c < as_ncpus s. as_reserved s c \<noteq> 0 \<longrightarrow>
     bit_test (as_bitmap s) (num s (as_reserved s c)) \<and> (\<exists>p. as_ctx s p = as_reserved s c) \<and>
     (\<forall>q. cur s q \<and> num s (as_ctx s q) = num s (as_reserved s c) \<longrightarrow> as_ctx s q = as_reserved s c) \<and>
     (\<forall>d < as_ncpus s. as_reserved s d \<noteq> 0 \<and> num s (as_reserved s d) = num s (as_reserved s c) \<longrightarrow>
        as_reserved s d = as_reserved s c))"

definition active_ok :: "'a asid_st_scheme \<Rightarrow> bool" where [inv_simps]:
  "active_ok s \<longleftrightarrow> (\<forall>c < as_ncpus s. as_active s c \<noteq> 0 \<longrightarrow>
     (\<exists>p. cur s p \<and> as_ctx s p = as_active s c) \<and> \<not> cpumask_test (as_pending s) c)"

definition asid_inv :: "nat \<Rightarrow> 'a asid_st_scheme \<Rightarrow> bool" where [inv_simps]:
  "asid_inv b s \<longleftrightarrow> width_ok b s \<and> ctx_ok s \<and> reserved_ok s \<and> active_ok s"

text \<open>A process holds its number while it is current or carried by some CPU's reservation.\<close>

definition held :: "'a asid_st_scheme \<Rightarrow> nat \<Rightarrow> bool" where
  "held s q \<longleftrightarrow> as_ctx s q \<noteq> 0 \<and> (cur s q \<or> (\<exists>c < as_ncpus s. as_reserved s c = as_ctx s q))"

lemma num_less:
  assumes "width_ok b s"
  shows "num s x < 2 ^ b" "num s x < ASID_MAX"
proof -
  show "num s x < 2 ^ b" using assms by (simp add: num_def width_ok_def unat_and_mask)
  moreover have "(2 :: nat) ^ b \<le> ASID_MAX" using assms by (auto simp: width_ok_def ASID_MAX_def)
  ultimately show "num s x < ASID_MAX" by linarith
qed

lemma cur_ctx_nonzero: "width_ok b s \<Longrightarrow> cur s p \<Longrightarrow> as_ctx s p \<noteq> 0"
  by (auto simp: cur_def width_ok_def)

lemma cur_unique:
  assumes "width_ok b s" "ctx_ok s" "cur s p" "cur s q" "num s (as_ctx s p) = num s (as_ctx s q)"
  shows "p = q"
proof -
  have "as_ctx s p AND as_mask s = as_ctx s q AND as_mask s"
    using assms(5) unfolding num_def word_unat_eq_iff .
  moreover have "as_ctx s p AND NOT (as_mask s) = as_ctx s q AND NOT (as_mask s)"
    using assms(3,4) unfolding cur_def by (rule trans [OF _ sym])
  ultimately have "as_ctx s p = as_ctx s q" by (rule unpack)
  moreover have "as_ctx s p \<noteq> 0" by (rule cur_ctx_nonzero [OF assms(1,3)])
  ultimately show ?thesis using assms(2) unfolding ctx_ok_def by blast
qed

lemma held_unique:
  assumes "asid_inv b s" "held s p" "held s q" "num s (as_ctx s p) = num s (as_ctx s q)"
  shows "p = q"
proof -
  have w: "width_ok b s" "ctx_ok s" "reserved_ok s" using assms(1) by (simp_all add: asid_inv_def)
  have inj: "as_ctx s p = as_ctx s q \<Longrightarrow> p = q" using w(2) assms(2) by (simp add: ctx_ok_def held_def)
  have cr: "as_ctx s x = as_ctx s y"
    if "cur s x" "c < as_ncpus s" "as_reserved s c = as_ctx s y" "as_ctx s y \<noteq> 0"
      "num s (as_ctx s x) = num s (as_ctx s y)" for x y c
    using w(3) that unfolding reserved_ok_def by metis
  have rr: "as_ctx s p = as_ctx s q" if "c < as_ncpus s" "as_reserved s c = as_ctx s p"
    "d < as_ncpus s" "as_reserved s d = as_ctx s q" for c d
    using w(3) that assms(2-4) unfolding reserved_ok_def held_def by metis
  show ?thesis
    using assms(2-4) cur_unique [OF w(1,2)] inj cr rr unfolding held_def by metis
qed

lemma held_bit:
  assumes "asid_inv b s" "held s p"
  shows "bit_test (as_bitmap s) (num s (as_ctx s p))"
  using assms unfolding asid_inv_def held_def ctx_ok_def reserved_ok_def by metis

section \<open>Finding a number and starting a generation\<close>

lemma width_total: "width_ok b s \<Longrightarrow> unat (as_total s) = 2 ^ b"
  by (auto simp: width_ok_def)

lemma find_upt_Some: "find P [a..<b] = Some i \<Longrightarrow> a \<le> i \<and> i < b \<and> P i"
  by (auto simp: find_Some_iff)

lemma find_upt_None: "find P [a..<b] = None \<longleftrightarrow> (\<forall>i. a \<le> i \<and> i < b \<longrightarrow> \<not> P i)"
  by (auto simp: find_None_iff)

lemma bitmap_find_zero_cases:
  assumes "width_ok b s" "1 \<le> unat start" "unat start \<le> 2 ^ b"
  obtains (full) "bitmap_find_zero start s = as_total s" "\<forall>i. 1 \<le> i \<and> i < 2 ^ b \<longrightarrow> bit_test (as_bitmap s) i"
  | (found) a where "bitmap_find_zero start s = a" "a \<noteq> as_total s" "1 \<le> unat a" "unat a < 2 ^ b"
      "\<not> bit_test (as_bitmap s) (unat a)"
proof -
  let ?P = "\<lambda>i. \<not> bit_test (as_bitmap s) i"
  have small: "unat (of_nat i :: uint64) = i" if "i < 2 ^ b" for i
  proof -
    have "i < 65536" using that assms(1) by (auto simp: width_ok_def)
    then show ?thesis by (subst unat_of_nat) simp
  qed
  have hit: thesis if "bitmap_find_zero start s = of_nat i" "1 \<le> i" "i < 2 ^ b" "?P i" for i
  proof (rule found [OF that(1)])
    show "of_nat i \<noteq> as_total s" using small [OF that(3)] width_total [OF assms(1)] that(3) by auto
  qed (use that small [OF that(3)] in simp_all)
  show thesis
  proof (cases "find ?P [unat start..<unat (as_total s)]")
    case (Some i)
    then show ?thesis using find_upt_Some [OF Some] assms(2) width_total [OF assms(1)]
      by (intro hit [of i]) (simp_all add: bitmap_find_zero_def)
  next
    case None
    show ?thesis
    proof (cases "find ?P [1..<unat start]")
      case (Some i)
      then show ?thesis using find_upt_Some [OF Some] assms(3) None
        by (intro hit [of i]) (simp_all add: bitmap_find_zero_def)
    next
      case n2: None
      then have "\<forall>i. 1 \<le> i \<and> i < 2 ^ b \<longrightarrow> bit_test (as_bitmap s) i"
        using None unfolding find_upt_None width_total [OF assms(1)] by (metis leI)
      then show ?thesis using None n2 by (intro full) (simp_all add: bitmap_find_zero_def)
    qed
  qed
qed

definition carried :: "'a asid_st_scheme \<Rightarrow> nat \<Rightarrow> uint64" where
  "carried s c = (if as_active s c = 0 then as_reserved s c else as_active s c)"

lemma flush_fold:
  assumes "bitstr_ok ASID_MAX (as_bitmap s)" "\<And>x. num s x < ASID_MAX"
  shows "\<exists>bm. fold flush_cpu [0..<n] s = s\<lparr>as_active := (\<lambda>c. if c < n then 0 else as_active s c),
      as_reserved := (\<lambda>c. if c < n then carried s c else as_reserved s c), as_bitmap := bm\<rparr> \<and>
    bitstr_ok ASID_MAX bm \<and> (\<forall>i < ASID_MAX. bit_test bm i \<longleftrightarrow>
      bit_test (as_bitmap s) i \<or> (\<exists>c < n. carried s c \<noteq> 0 \<and> num s (carried s c) = i))"
proof (induction n)
  case 0
  then show ?case using assms by (intro exI [of _ "as_bitmap s"]) simp
next
  case (Suc n)
  then obtain bm where bm: "fold flush_cpu [0..<n] s = s\<lparr>as_active := (\<lambda>c. if c < n then 0 else as_active s c),
      as_reserved := (\<lambda>c. if c < n then carried s c else as_reserved s c), as_bitmap := bm\<rparr>" (is "_ = ?s")
    "bitstr_ok ASID_MAX bm" and tst: "\<forall>i < ASID_MAX. bit_test bm i \<longleftrightarrow>
      bit_test (as_bitmap s) i \<or> (\<exists>c < n. carried s c \<noteq> 0 \<and> num s (carried s c) = i)" by blast
  let ?bm = "if carried s n \<noteq> 0 then bit_set bm (num s (carried s n)) else bm"
  have "fold flush_cpu [0..<Suc n] s = flush_cpu n ?s" using bm(1) by simp
  also have "\<dots> = s\<lparr>as_active := (\<lambda>c. if c < Suc n then 0 else as_active s c),
      as_reserved := (\<lambda>c. if c < Suc n then carried s c else as_reserved s c), as_bitmap := ?bm\<rparr>"
    by (auto simp: flush_cpu_def Let_def carried_def num_def less_Suc_eq fun_eq_iff)
  finally have "fold flush_cpu [0..<Suc n] s = s\<lparr>as_active := (\<lambda>c. if c < Suc n then 0 else as_active s c),
      as_reserved := (\<lambda>c. if c < Suc n then carried s c else as_reserved s c), as_bitmap := ?bm\<rparr>" .
  moreover have "bitstr_ok ASID_MAX ?bm" using bm(2) by simp
  moreover have "bit_test ?bm i \<longleftrightarrow>
      bit_test (as_bitmap s) i \<or> (\<exists>c < Suc n. carried s c \<noteq> 0 \<and> num s (carried s c) = i)"
    if "i < ASID_MAX" for i
    using tst that bit_test_set [OF bm(2) assms(2) that, of "carried s n"] by (auto simp: less_Suc_eq)
  ultimately show ?case by blast
qed

lemma pending_fold:
  assumes "bitstr_ok NCPU_MAX m" "n \<le> NCPU_MAX"
  shows "bitstr_ok NCPU_MAX (fold (\<lambda>c m. cpumask_set m c) [0..<n] m) \<and>
    (\<forall>c < NCPU_MAX. cpumask_test (fold (\<lambda>c m. cpumask_set m c) [0..<n] m) c \<longleftrightarrow> c < n \<or> cpumask_test m c)"
  using assms(2)
proof (induction n)
  case 0
  then show ?case using assms(1) by simp
next
  case (Suc n)
  let ?m = "fold (\<lambda>c m. cpumask_set m c) [0..<n] m"
  have IH: "bitstr_ok NCPU_MAX ?m" "\<forall>c < NCPU_MAX. cpumask_test ?m c \<longleftrightarrow> c < n \<or> cpumask_test m c" "n < NCPU_MAX"
    using Suc by simp_all
  have "bit_test (bit_set ?m n) c \<longleftrightarrow> c = n \<or> bit_test ?m c" if "c < NCPU_MAX" for c
    by (rule bit_test_set [OF IH(1,3) that])
  then show ?case using IH by (simp add: cpumask_set_def cpumask_test_def) auto
qed

text \<open>What a rollover leaves: every CPU's number carried, every CPU owing a flush, nobody current.\<close>

lemma flush_context_spec:
  assumes w: "width_ok b s" and nw: "unat (as_gen s) + unat (as_total s) < 2 ^ 64"
  obtains bm pm where "flush_context s = s\<lparr>
      as_active := (\<lambda>c. if c < as_ncpus s then 0 else as_active s c),
      as_reserved := (\<lambda>c. if c < as_ncpus s then carried s c else as_reserved s c),
      as_bitmap := bm, as_pending := pm, as_gen := as_gen s + as_total s, as_next := 1\<rparr>"
    "width_ok b (flush_context s)" "unat (as_gen s + as_total s) = unat (as_gen s) + 2 ^ b"
    "\<forall>c < as_ncpus s. cpumask_test pm c"
    "\<forall>i < ASID_MAX. bit_test bm i \<longleftrightarrow> i = 0 \<or> (\<exists>c < as_ncpus s. carried s c \<noteq> 0 \<and> num s (carried s c) = i)"
proof -
  define s1 where "s1 = s\<lparr>as_bitmap := bit_set (bit_decl ASID_MAX) ASID_RESERVED\<rparr>"
  have nums: "num s1 x < ASID_MAX" for x using num_less(2) [OF w, of x] by (simp add: num_def s1_def)
  obtain bm where bm: "fold flush_cpu [0..<as_ncpus s] s1 = s1\<lparr>
      as_active := (\<lambda>c. if c < as_ncpus s then 0 else as_active s1 c),
      as_reserved := (\<lambda>c. if c < as_ncpus s then carried s1 c else as_reserved s1 c), as_bitmap := bm\<rparr>"
    "bitstr_ok ASID_MAX bm" "\<forall>i < ASID_MAX. bit_test bm i \<longleftrightarrow> bit_test (as_bitmap s1) i \<or>
      (\<exists>c < as_ncpus s. carried s1 c \<noteq> 0 \<and> num s1 (carried s1 c) = i)"
    using flush_fold [of s1 "as_ncpus s"] nums by (auto simp: s1_def)
  let ?pm = "fold (\<lambda>c m. cpumask_set m c) [0..<as_ncpus s] (as_pending s)"
  have pm: "bitstr_ok NCPU_MAX ?pm" "\<forall>c < as_ncpus s. cpumask_test ?pm c"
    using pending_fold [of "as_pending s" "as_ncpus s"] w by (auto simp: width_ok_def)
  have eq: "flush_context s = s\<lparr>as_active := (\<lambda>c. if c < as_ncpus s then 0 else as_active s c),
      as_reserved := (\<lambda>c. if c < as_ncpus s then carried s c else as_reserved s c),
      as_bitmap := bm, as_pending := ?pm, as_gen := as_gen s + as_total s, as_next := 1\<rparr>"
  proof -
    have eqs: "as_active s1 = as_active s" "carried s1 = carried s" "as_reserved s1 = as_reserved s"
      by (simp_all add: s1_def carried_def fun_eq_iff)
    show ?thesis unfolding flush_context_def Let_def s1_def [symmetric] bm(1) eqs by (simp add: s1_def)
  qed
  have t: "as_total s = push_bit b 1" "b < 64" "as_mask s = mask b" "as_gen s AND mask b = 0"
    using w by (auto simp: width_ok_def)
  have "unat (as_gen s) + 2 ^ b < 2 ^ 64" using nw width_total [OF w] by simp
  note ng = next_gen [OF t(4) this t(2), folded t(1)]
  have "as_gen s + as_total s \<noteq> 0" using ng(2) by (metis add_is_0 power_not_zero unat_0 zero_neq_numeral)
  then have "width_ok b (flush_context s)"
    using w bm(2) pm(1) ng(1) t(3) unfolding eq width_ok_def by simp
  moreover have "bit_test (as_bitmap s1) i \<longleftrightarrow> i = 0" if "i < ASID_MAX" for i
    using bit_test_set [OF bitstr_ok_decl _ that, of 0] that by (simp add: s1_def ASID_RESERVED_def ASID_MAX_def)
  then have "\<forall>i < ASID_MAX. bit_test bm i \<longleftrightarrow>
      i = 0 \<or> (\<exists>c < as_ncpus s. carried s c \<noteq> 0 \<and> num s (carried s c) = i)"
    using bm(3) by (simp add: s1_def carried_def num_def)
  ultimately show thesis using that [OF eq _ ng(2) pm(2)] by blast
qed

lemma carried_held:
  assumes inv: "asid_inv b s" and c: "c < as_ncpus s" "carried s c \<noteq> 0"
  obtains p where "held s p" "as_ctx s p = carried s c"
proof (cases "as_active s c = 0")
  case True
  then have "as_reserved s c \<noteq> 0" "carried s c = as_reserved s c" using c(2) by (simp_all add: carried_def)
  then show ?thesis using that inv c(1) unfolding asid_inv_def reserved_ok_def held_def by metis
next
  case False
  then have "carried s c = as_active s c" by (simp add: carried_def)
  moreover obtain p where "cur s p" "as_ctx s p = as_active s c"
    using inv c(1) False unfolding asid_inv_def active_ok_def by blast
  ultimately show ?thesis using that [of p] False by (simp add: held_def)
qed

lemma flush_context_inv:
  assumes inv: "asid_inv b s" and nw: "unat (as_gen s) + unat (as_total s) < 2 ^ 64"
  defines "s' \<equiv> flush_context s"
  shows "asid_inv b s'" "\<not> cur s' p" "as_ctx s' = as_ctx s" "as_ncpus s' = as_ncpus s" "as_mask s' = as_mask s"
    "c < as_ncpus s \<Longrightarrow> as_active s' c = 0 \<and> as_reserved s' c = carried s c \<and> cpumask_test (as_pending s') c"
    "\<exists>i. 1 \<le> i \<and> i < 2 ^ b \<and> \<not> bit_test (as_bitmap s') i" "as_next s' = 1"
    "asid_st.more s' = asid_st.more s"
proof -
  have w: "width_ok b s" "ctx_ok s" using inv by (simp_all add: asid_inv_def)
  obtain bm pm where eq: "flush_context s = s\<lparr>
      as_active := (\<lambda>c. if c < as_ncpus s then 0 else as_active s c),
      as_reserved := (\<lambda>c. if c < as_ncpus s then carried s c else as_reserved s c),
      as_bitmap := bm, as_pending := pm, as_gen := as_gen s + as_total s, as_next := 1\<rparr>"
    and w': "width_ok b (flush_context s)" and g: "unat (as_gen s + as_total s) = unat (as_gen s) + 2 ^ b"
    and pm: "\<forall>c < as_ncpus s. cpumask_test pm c"
    and bits: "\<forall>i < ASID_MAX. bit_test bm i \<longleftrightarrow>
      i = 0 \<or> (\<exists>c < as_ncpus s. carried s c \<noteq> 0 \<and> num s (carried s c) = i)"
    by (rule flush_context_spec [OF w(1) nw])
  note s' = s'_def [unfolded eq]
  have parts [simp]: "as_bitmap s' = bm" "as_ncpus s' = as_ncpus s" "as_ctx s' = as_ctx s" "as_mask s' = as_mask s"
    "as_gen s' = as_gen s + as_total s" "as_pending s' = pm" "num s' = num s"
    by (simp_all add: s' num_def fun_eq_iff)
  have res: "as_reserved s' c = carried s c" "as_active s' c = 0" if "c < as_ncpus s" for c
    using that by (simp_all add: s')
  have older: "as_ctx s p AND NOT (as_mask s) < as_gen s + as_total s" for p
    using w(2) g unfolding ctx_ok_def word_le_nat_alt word_less_nat_alt
    by (metis add_less_cancel_left le_add1 le_less_trans less_add_same_cancel1 zero_less_numeral zero_less_power)
  show nocur: "\<not> cur s' p" for p using older [of p] by (simp add: cur_def)
  have inj: "\<forall>p q. as_ctx s p = as_ctx s q \<and> as_ctx s p \<noteq> 0 \<longrightarrow> p = q" using w(2) unfolding ctx_ok_def by blast
  have "ctx_ok s'" unfolding ctx_ok_def parts
    using older nocur bits by (intro conjI inj) (simp_all add: ASID_MAX_def less_imp_le)
  moreover have "reserved_ok s'" unfolding reserved_ok_def
  proof (intro allI impI conjI)
    fix c assume c: "c < as_ncpus s'" "as_reserved s' c \<noteq> 0"
    then have cc: "c < as_ncpus s" "carried s c \<noteq> 0" "as_reserved s' c = carried s c" using res by simp_all
    obtain p where p: "held s p" "as_ctx s p = carried s c" using carried_held [OF inv cc(1,2)] .
    show "\<exists>p. as_ctx s' p = as_reserved s' c" using p(2) cc(3) by auto
    show "bit_test (as_bitmap s') (num s' (as_reserved s' c))"
    proof -
      have "bit_test bm (num s (carried s c))" using bits num_less(2) [OF w(1), of "carried s c"] cc(1,2) by blast
      then show ?thesis unfolding cc(3) parts .
    qed
    fix d assume d: "d < as_ncpus s'" "as_reserved s' d \<noteq> 0 \<and> num s' (as_reserved s' d) = num s' (as_reserved s' c)"
    then have dd: "d < as_ncpus s" "carried s d \<noteq> 0" "as_reserved s' d = carried s d" using res by simp_all
    obtain q where q: "held s q" "as_ctx s q = carried s d" using carried_held [OF inv dd(1,2)] .
    have "num s (as_ctx s q) = num s (as_ctx s p)" using d(2) unfolding p(2) q(2) cc(3) dd(3) parts by simp
    then have "q = p" by (rule held_unique [OF inv q(1) p(1)])
    then show "as_reserved s' d = as_reserved s' c" unfolding cc(3) dd(3) p(2) [symmetric] q(2) [symmetric] by simp
  qed (use nocur in blast)
  moreover have "active_ok s'" using res by (simp add: active_ok_def)
  ultimately show "asid_inv b s'" using w' by (simp add: asid_inv_def s'_def)
  show "\<exists>i. 1 \<le> i \<and> i < 2 ^ b \<and> \<not> bit_test (as_bitmap s') i"
  proof (rule ccontr)
    assume "\<not> ?thesis"
    then have all: "bit_test bm i" if "1 \<le> i" "i < 2 ^ b" for i using that by auto
    have b: "b = 8 \<or> b = 16" "as_ncpus s \<le> 32" using w(1) by (auto simp: width_ok_def NCPU_MAX_def)
    have "{1..<2 ^ b} \<subseteq> (\<lambda>c. num s (carried s c)) ` {..<as_ncpus s}"
    proof
      fix i :: nat assume i: "i \<in> {1..<2 ^ b}"
      then have "i < ASID_MAX" using b(1) by (auto simp: ASID_MAX_def)
      then show "i \<in> (\<lambda>c. num s (carried s c)) ` {..<as_ncpus s}" using all [of i] bits i by auto
    qed
    then have "card {1..<(2 :: nat) ^ b} \<le> card ((\<lambda>c. num s (carried s c)) ` {..<as_ncpus s})"
      by (intro card_mono) simp_all
    also have "\<dots> \<le> as_ncpus s" using card_image_le [of "{..<as_ncpus s}"] by simp
    finally show False using b by auto
  qed
  show "c < as_ncpus s \<Longrightarrow> as_active s' c = 0 \<and> as_reserved s' c = carried s c \<and> cpumask_test (as_pending s') c"
    using res pm by simp
  show "as_next s' = 1" by (simp add: s')
  show "asid_st.more s' = asid_st.more s" by (simp add: s')
  show "as_ctx s' = as_ctx s" "as_ncpus s' = as_ncpus s" "as_mask s' = as_mask s" by simp_all
qed

section \<open>Assigning a context\<close>

text \<open>A process outside the current generation takes a clear bit.\<close>

lemma assign_fresh:
  assumes inv: "asid_inv b s" and nh: "\<not> held s p"
    and a: "unat a < 2 ^ b" "\<not> bit_test (as_bitmap s) (unat a)" and nx: "1 \<le> unat nx" "unat nx \<le> 2 ^ b"
  defines "s' \<equiv> s\<lparr>as_bitmap := bit_set (as_bitmap s) (unat a), as_next := nx,
    as_ctx := (as_ctx s)(p := as_gen s OR a)\<rparr>"
  shows "asid_inv b s' \<and> cur s' p \<and> num s' (as_gen s OR a) = unat a"
proof -
  have w: "width_ok b s" "ctx_ok s" "reserved_ok s" "active_ok s" using inv by (simp_all add: asid_inv_def)
  have m: "as_mask s = mask b" "as_gen s AND mask b = 0" "bitstr_ok ASID_MAX (as_bitmap s)" "as_gen s \<noteq> 0"
    using w(1) by (auto simp: width_ok_def)
  note pk = pack [OF m(2) and_mask_self [OF a(1)], folded m(1)]
  have amax: "unat a < ASID_MAX" using a(1) w(1) by (auto simp: width_ok_def ASID_MAX_def)
  have bits: "bit_test (bit_set (as_bitmap s) (unat a)) i \<longleftrightarrow> i = unat a \<or> bit_test (as_bitmap s) i"
    if "i < ASID_MAX" for i using bit_test_set [OF m(3) amax that] .
  have parts [simp]: "as_ncpus s' = as_ncpus s" "as_mask s' = as_mask s" "as_gen s' = as_gen s"
    "as_reserved s' = as_reserved s" "as_active s' = as_active s" "as_pending s' = as_pending s" "num s' = num s"
    "as_ctx s' = (as_ctx s)(p := as_gen s OR a)" "as_bitmap s' = bit_set (as_bitmap s) (unat a)"
    by (simp_all add: s'_def num_def fun_eq_iff)
  have nump: "num s (as_gen s OR a) = unat a" using pk(1) by (simp add: num_def)
  have ncur: "\<not> cur s p" using nh cur_ctx_nonzero [OF w(1)] by (auto simp: held_def)
  have cur': "cur s' q \<longleftrightarrow> q = p \<or> cur s q" for q using pk(2) ncur by (auto simp: cur_def)
  have keep: "bit_test (as_bitmap s') (num s x)" if "bit_test (as_bitmap s) (num s x)" for x
    using bits [OF num_less(2) [OF w(1)]] that by simp
  have fresh: "as_ctx s q \<noteq> as_gen s OR a" if "q \<noteq> p" for q
  proof
    assume eq: "as_ctx s q = as_gen s OR a"
    then have "cur s q" using pk(2) by (simp add: cur_def)
    then have "bit_test (as_bitmap s) (unat a)" using w(2) eq nump by (metis ctx_ok_def)
    then show False using a(2) by simp
  qed
  have "width_ok b s'" using w(1) nx by (simp add: width_ok_def s'_def)
  moreover have "ctx_ok s'" unfolding ctx_ok_def
  proof (intro conjI allI impI)
    show "bit_test (as_bitmap s') 0" using w(2) bits [of 0] by (simp add: ctx_ok_def ASID_MAX_def)
    show "as_ctx s' q AND NOT (as_mask s') \<le> as_gen s'" for q using w(2) pk(2) by (simp add: ctx_ok_def)
    show "q = r" if "as_ctx s' q = as_ctx s' r \<and> as_ctx s' q \<noteq> 0" for q r
      using that fresh [of q] fresh [of r] w(2) by (auto simp: ctx_ok_def split: if_splits)
    show "bit_test (as_bitmap s') (num s' (as_ctx s' q))" if "cur s' q" for q
      using that cur' keep w(2) nump bits [OF amax] by (cases "q = p") (simp_all add: ctx_ok_def)
  qed
  moreover have "reserved_ok s'" unfolding reserved_ok_def
  proof (intro allI impI conjI)
    fix c assume c0: "c < as_ncpus s'" "as_reserved s' c \<noteq> 0"
    then have c: "c < as_ncpus s" "as_reserved s c \<noteq> 0" by simp_all
    have rb: "bit_test (as_bitmap s) (num s (as_reserved s c))" using w(3) c unfolding reserved_ok_def by blast
    then show "bit_test (as_bitmap s') (num s' (as_reserved s' c))" using keep by simp
    obtain q where "as_ctx s q = as_reserved s c" using w(3) c unfolding reserved_ok_def by blast
    moreover from this have "q \<noteq> p" using nh c by (auto simp: held_def)
    ultimately show "\<exists>q. as_ctx s' q = as_reserved s' c" by auto
    show "as_ctx s' q = as_reserved s' c" if q: "cur s' q \<and> num s' (as_ctx s' q) = num s' (as_reserved s' c)" for q
    proof (cases "q = p")
      case True
      then show ?thesis using q nump rb a(2) by simp
    next
      case False
      then show ?thesis using q cur' w(3) c unfolding reserved_ok_def by simp
    qed
    show "as_reserved s' d = as_reserved s' c"
      if "d < as_ncpus s'" "as_reserved s' d \<noteq> 0 \<and> num s' (as_reserved s' d) = num s' (as_reserved s' c)" for d
      using that w(3) c unfolding reserved_ok_def by simp
  qed
  moreover have "active_ok s'" unfolding active_ok_def
  proof (intro allI impI conjI)
    fix c assume c: "c < as_ncpus s'" "as_active s' c \<noteq> 0"
    then obtain q where "cur s q" "as_ctx s q = as_active s c" using w(4) unfolding active_ok_def parts by blast
    then show "\<exists>q. cur s' q \<and> as_ctx s' q = as_active s' c" using ncur cur' by (intro exI [of _ q]) auto
    show "\<not> cpumask_test (as_pending s') c" using w(4) c by (simp add: active_ok_def)
  qed
  ultimately show ?thesis using cur' nump by (simp add: asid_inv_def)
qed

text \<open>A process whose number a CPU carried keeps it, and every reservation of it moves along.\<close>

lemma assign_carried:
  assumes inv: "asid_inv b s" and nc: "\<not> cur s p" and hp: "held s p"
  defines "x \<equiv> as_gen s OR (as_ctx s p AND as_mask s)"
  defines "s' \<equiv> s\<lparr>as_reserved := (\<lambda>c. if c < as_ncpus s \<and> as_reserved s c = as_ctx s p then x else as_reserved s c),
    as_ctx := (as_ctx s)(p := x)\<rparr>"
  shows "asid_inv b s' \<and> cur s' p \<and> num s' x = num s (as_ctx s p)"
proof -
  have w: "width_ok b s" "ctx_ok s" "reserved_ok s" "active_ok s" using inv by (simp_all add: asid_inv_def)
  have m: "as_mask s = mask b" "as_gen s AND as_mask s = 0" "as_gen s \<noteq> 0"
    using w(1) by (auto simp: width_ok_def)
  have "(as_ctx s p AND as_mask s) AND as_mask s = as_ctx s p AND as_mask s" by (simp add: and.assoc)
  note pk = pack [OF m(2) this, folded x_def]
  have parts [simp]: "as_ncpus s' = as_ncpus s" "as_mask s' = as_mask s" "as_gen s' = as_gen s"
    "as_active s' = as_active s" "as_pending s' = as_pending s" "num s' = num s"
    "as_ctx s' = (as_ctx s)(p := x)" "as_bitmap s' = as_bitmap s"
    by (simp_all add: s'_def num_def fun_eq_iff)
  have numx: "num s x = num s (as_ctx s p)" using pk(1) by (simp add: num_def)
  have ctxp: "as_ctx s p \<noteq> 0" using hp by (simp add: held_def)
  have x0: "x \<noteq> 0" using pk(2) m(3) by auto
  have cur': "cur s' q \<longleftrightarrow> q = p \<or> cur s q" for q using pk(2) nc by (auto simp: cur_def)
  have hq: "q = p" if "held s q" "num s (as_ctx s q) = num s x" for q
    using held_unique [OF inv that(1) hp] that(2) numx by simp
  have curheld: "held s q" if "cur s q" for q using that cur_ctx_nonzero [OF w(1) that] by (simp add: held_def)
  have res: "as_reserved s' c = (if as_reserved s c = as_ctx s p then x else as_reserved s c)"
    if "c < as_ncpus s" for c using that by (simp add: s'_def)
  have rown: "\<exists>q. held s q \<and> as_ctx s q = as_reserved s c" if "c < as_ncpus s" "as_reserved s c \<noteq> 0" for c
    using that w(3) unfolding reserved_ok_def held_def by metis
  text \<open>Each live reservation names a holder, before and after, by its new context.\<close>
  have rown': "\<exists>q. as_ctx s' q = as_reserved s' c \<and> held s q \<and> num s (as_reserved s' c) = num s (as_ctx s q)"
    if asm: "c < as_ncpus s" "as_reserved s' c \<noteq> 0" for c
  proof (cases "as_reserved s c = as_ctx s p")
    case True
    then show ?thesis using res [OF asm(1)] hp numx by (intro exI [of _ p]) simp
  next
    case False
    then obtain q where "held s q" "as_ctx s q = as_reserved s c" using rown asm res [OF asm(1)] by auto
    with False show ?thesis using res [OF asm(1)] by (intro exI [of _ q]) auto
  qed
  have "width_ok b s'" using w(1) by (simp add: width_ok_def s'_def)
  moreover have "ctx_ok s'" unfolding ctx_ok_def
  proof (intro conjI allI impI)
    show "bit_test (as_bitmap s') 0" using w(2) by (simp add: ctx_ok_def)
    show "as_ctx s' q AND NOT (as_mask s') \<le> as_gen s'" for q using w(2) pk(2) by (simp add: ctx_ok_def)
    have "as_ctx s q \<noteq> x" if "q \<noteq> p" for q
      using hq [of q] curheld [of q] that pk(2) by (auto simp: cur_def)
    then show "q = r" if "as_ctx s' q = as_ctx s' r \<and> as_ctx s' q \<noteq> 0" for q r
      using that w(2) by (auto simp: ctx_ok_def split: if_splits)
    show "bit_test (as_bitmap s') (num s' (as_ctx s' q))" if "cur s' q" for q
      using that cur' numx held_bit [OF inv] hp curheld by (cases "q = p") simp_all
  qed
  moreover have "reserved_ok s'" unfolding reserved_ok_def
  proof (intro allI impI conjI)
    fix c assume c0: "c < as_ncpus s'" "as_reserved s' c \<noteq> 0"
    then have c: "c < as_ncpus s" by simp
    obtain q where q: "as_ctx s' q = as_reserved s' c" "held s q" "num s (as_reserved s' c) = num s (as_ctx s q)"
      using rown' [OF c c0(2)] by blast
    show "bit_test (as_bitmap s') (num s' (as_reserved s' c))" using held_bit [OF inv q(2)] q(3) by simp
    show "\<exists>q. as_ctx s' q = as_reserved s' c" using q(1) by blast
    show "as_ctx s' r = as_reserved s' c" if r: "cur s' r \<and> num s' (as_ctx s' r) = num s' (as_reserved s' c)" for r
    proof -
      have "held s r" using r cur' hp curheld by (cases "r = p") simp_all
      moreover have "num s (as_ctx s r) = num s (as_ctx s' r)" using numx by (cases "r = p") simp_all
      ultimately have "r = q" using held_unique [OF inv _ q(2)] r q(3) by simp
      then show ?thesis using q(1) by simp
    qed
    show "as_reserved s' d = as_reserved s' c"
      if d: "d < as_ncpus s'" "as_reserved s' d \<noteq> 0 \<and> num s' (as_reserved s' d) = num s' (as_reserved s' c)" for d
    proof -
      obtain r where r: "as_ctx s' r = as_reserved s' d" "held s r" "num s (as_reserved s' d) = num s (as_ctx s r)"
        using rown' [of d] d unfolding parts(1) by blast
      then have "r = q" using held_unique [OF inv r(2) q(2)] d(2) q(3) by simp
      then show ?thesis using q(1) r(1) by simp
    qed
  qed
  moreover have "active_ok s'" unfolding active_ok_def
  proof (intro allI impI conjI)
    fix c assume c: "c < as_ncpus s'" "as_active s' c \<noteq> 0"
    then obtain q where "cur s q" "as_ctx s q = as_active s c" using w(4) unfolding active_ok_def parts by blast
    then show "\<exists>q. cur s' q \<and> as_ctx s' q = as_active s' c" using nc cur' by (intro exI [of _ q]) auto
    show "\<not> cpumask_test (as_pending s') c" using w(4) c by (simp add: active_ok_def)
  qed
  ultimately show ?thesis using cur' numx by (simp add: asid_inv_def)
qed

text \<open>What \<open>new_context\<close> does to everybody else: nothing, a moved reservation, or a rollover.\<close>

definition quiet :: "nat \<Rightarrow> uint64 \<Rightarrow> 'a asid_st_scheme \<Rightarrow> 'a asid_st_scheme \<Rightarrow> bool" where
  "quiet p x s s' \<longleftrightarrow> as_gen s' = as_gen s \<and> as_active s' = as_active s \<and> as_pending s' = as_pending s \<and>
     (\<forall>c < as_ncpus s. as_reserved s' c =
        (if as_ctx s p \<noteq> 0 \<and> as_reserved s c = as_ctx s p then x else as_reserved s c))"

definition rolled :: "'a asid_st_scheme \<Rightarrow> 'a asid_st_scheme \<Rightarrow> bool" where
  "rolled s s' \<longleftrightarrow> (\<forall>c < as_ncpus s. as_active s' c = 0 \<and> as_reserved s' c = carried s c \<and>
     cpumask_test (as_pending s') c)"

lemma pick_asid_spec:
  fixes s :: "'a asid_st_scheme"
  assumes inv: "asid_inv b s" and nw: "unat (as_gen s) + unat (as_total s) < 2 ^ 64"
    and nc: "\<not> cur s p" and nh: "\<not> held s p"
  shows "\<exists>x s1 s'. pick_asid s = Inr (x, s1) \<and> s' = s1\<lparr>as_ctx := (as_ctx s1)(p := x)\<rparr> \<and>
    asid_inv b s' \<and> cur s' p \<and> as_ncpus s' = as_ncpus s \<and> as_mask s' = as_mask s \<and>
    asid_st.more s' = asid_st.more s \<and> as_ctx s' = (as_ctx s)(p := x) \<and> (quiet p x s s' \<or> rolled s s')"
proof -
  have w: "width_ok b s" using inv by (simp add: asid_inv_def)
  have nx: "1 \<le> unat (as_next s)" "unat (as_next s) \<le> 2 ^ b" using w by (simp_all add: width_ok_def)
  have suc: "1 \<le> unat (a + 1)" "unat (a + 1) \<le> 2 ^ b" if "unat (a :: uint64) < 2 ^ b" for a
  proof -
    have "unat a < 65536" using that w by (auto simp: width_ok_def)
    then have "unat (a + 1) = unat a + 1" by (simp add: unat_add_no_wrap)
    then show "1 \<le> unat (a + 1)" "unat (a + 1) \<le> 2 ^ b" using that by simp_all
  qed
  show ?thesis
  proof (cases rule: bitmap_find_zero_cases [OF w nx, case_names full found])
    case (found a)
    let ?s' = "s\<lparr>as_bitmap := bit_set (as_bitmap s) (unat a), as_next := a + 1,
      as_ctx := (as_ctx s)(p := as_gen s OR a)\<rparr>"
    have "asid_inv b ?s' \<and> cur ?s' p" using assign_fresh [OF inv nh found(4,5) suc [OF found(4)]] by blast
    moreover have "quiet p (as_gen s OR a) s ?s'" using nh by (auto simp: quiet_def held_def)
    moreover have "pick_asid s = Inr (as_gen s OR a, s\<lparr>as_bitmap := bit_set (as_bitmap s) (unat a), as_next := a + 1\<rparr>)"
      using found(1,2) by (simp add: pick_asid_def Let_def)
    ultimately show ?thesis by (intro exI conjI) (assumption, rule refl, simp_all)
  next
    case full
    let ?f = "flush_context s"
    note fl = flush_context_inv [OF inv nw]
    have wf: "width_ok b ?f" using fl(1) by (simp add: asid_inv_def)
    have one: "1 \<le> unat (1 :: uint64)" "unat (1 :: uint64) \<le> 2 ^ b" by simp_all
    obtain a where a: "bitmap_find_zero 1 ?f = a" "a \<noteq> as_total ?f" "unat a < 2 ^ b"
      "\<not> bit_test (as_bitmap ?f) (unat a)"
      by (rule bitmap_find_zero_cases [OF wf one]) (use fl(7) in blast, rule that)
    let ?s' = "?f\<lparr>as_bitmap := bit_set (as_bitmap ?f) (unat a), as_next := a + 1,
      as_ctx := (as_ctx ?f)(p := as_gen ?f OR a)\<rparr>"
    have nhf: "\<not> held ?f p"
    proof
      assume "held ?f p"
      then obtain c where c: "c < as_ncpus s" "carried s c = as_ctx s p" "as_ctx s p \<noteq> 0"
        using fl(2,3,4,6) unfolding held_def by metis
      obtain q where "held s q" "as_ctx s q = carried s c"
        by (rule carried_held [OF inv c(1)]) (use c in simp_all)
      then have "q = p" using c(2,3) inv unfolding asid_inv_def ctx_ok_def by metis
      then show False using \<open>held s q\<close> nh by simp
    qed
    have "asid_inv b ?s' \<and> cur ?s' p" using assign_fresh [OF fl(1) nhf a(3,4) suc [OF a(3)]] by blast
    moreover have "rolled s ?s'" using fl(6) by (simp add: rolled_def)
    moreover have "pick_asid s = Inr (as_gen ?f OR a, ?f\<lparr>as_bitmap := bit_set (as_bitmap ?f) (unat a), as_next := a + 1\<rparr>)"
      using full(1) a(1,2) by (simp add: pick_asid_def Let_def)
    ultimately show ?thesis using fl(3-5,9)
      by (intro exI conjI) (assumption, rule refl, simp_all)
  qed
qed

lemma new_context_spec:
  fixes s :: "'a asid_st_scheme"
  assumes inv: "asid_inv b s" and nw: "unat (as_gen s) + unat (as_total s) < 2 ^ 64" and nc: "\<not> cur s p"
  shows "\<exists>x s1 s'. new_context p s = Inr (x, s1) \<and> s' = s1\<lparr>as_ctx := (as_ctx s1)(p := x)\<rparr> \<and>
    asid_inv b s' \<and> cur s' p \<and> as_ncpus s' = as_ncpus s \<and> as_mask s' = as_mask s \<and>
    asid_st.more s' = asid_st.more s \<and> as_ctx s' = (as_ctx s)(p := x) \<and>
    (held s p \<and> num s x = num s (as_ctx s p) \<and> quiet p x s s' \<or> \<not> held s p \<and> (quiet p x s s' \<or> rolled s s'))"
proof (cases "held s p")
  case True
  let ?x = "as_gen s OR (as_ctx s p AND as_mask s)"
  let ?s1 = "s\<lparr>as_reserved := (\<lambda>c. if c < as_ncpus s \<and> as_reserved s c = as_ctx s p then ?x else as_reserved s c)\<rparr>"
  let ?s' = "?s1\<lparr>as_ctx := (as_ctx s)(p := ?x)\<rparr>"
  have "asid_inv b ?s' \<and> cur ?s' p \<and> num ?s' ?x = num s (as_ctx s p)" using assign_carried [OF inv nc True] by simp
  moreover have "new_context p s = Inr (?x, ?s1)"
    using True nc by (auto simp: new_context_def check_update_reserved_asid_def Let_def held_def)
  moreover have "quiet p ?x s ?s'" using True by (auto simp: quiet_def held_def)
  ultimately show ?thesis using True by (intro exI [of _ ?x] exI [of _ ?s1] exI [of _ ?s']) (simp add: num_def)
next
  case False
  show ?thesis
  proof (cases "as_ctx s p \<noteq> 0 \<and> \<not> bit_test (as_bitmap s) (unat (as_ctx s p AND as_mask s))")
    case keep: True
    let ?a = "as_ctx s p AND as_mask s"
    let ?s1 = "s\<lparr>as_bitmap := bit_set (as_bitmap s) (unat ?a)\<rparr>"
    let ?s' = "?s1\<lparr>as_ctx := (as_ctx s)(p := as_gen s OR ?a)\<rparr>"
    have w: "width_ok b s" using inv by (simp add: asid_inv_def)
    have nx: "1 \<le> unat (as_next s)" "unat (as_next s) \<le> 2 ^ b" using w by (simp_all add: width_ok_def)
    have "unat ?a < 2 ^ b" using num_less(1) [OF w] by (simp add: num_def)
    from assign_fresh [OF inv False this conjunct2 [OF keep] nx]
    have "asid_inv b ?s' \<and> cur ?s' p" by simp
    moreover have "new_context p s = Inr (as_gen s OR ?a, ?s1)"
      using False keep by (auto simp: new_context_def check_update_reserved_asid_def Let_def held_def)
    moreover have "quiet p (as_gen s OR ?a) s ?s'" using False by (auto simp: quiet_def held_def)
    ultimately show ?thesis using False
      by (intro exI [of _ "as_gen s OR ?a"] exI [of _ ?s1] exI [of _ ?s']) simp
  next
    case pick: False
    have "new_context p s = pick_asid s"
      using False pick by (auto simp: new_context_def check_update_reserved_asid_def Let_def held_def)
    with pick_asid_spec [OF inv nw nc False] False show ?thesis by simp
  qed
qed

section \<open>No translation through another process's entries\<close>

definition ttbr_ok :: "asid_sys \<Rightarrow> nat \<Rightarrow> bool" where [inv_simps]:
  "ttbr_ok s c \<longleftrightarrow> (\<forall>x q. ay_ttbr0 s c = Some (x, q) \<longrightarrow> as_ctx s q \<noteq> 0 \<and> num s x = num s (as_ctx s q) \<and>
     (if as_active s c \<noteq> 0 then as_active s c else as_reserved s c) = as_ctx s q)"

definition tlb_ok :: "asid_sys \<Rightarrow> nat \<Rightarrow> bool" where [inv_simps]:
  "tlb_ok s c \<longleftrightarrow> (cpumask_test (as_pending s) c \<or>
       (\<forall>x q. (x, q) \<in> ay_tlb s c \<longrightarrow> held s q \<and> num s x = num s (as_ctx s q))) \<and>
     (\<forall>x q y r. ay_ttbr0 s c = Some (x, q) \<and> (y, r) \<in> ay_tlb s c \<and> num s y = num s x \<longrightarrow> r = q)"

primrec pc_ok :: "asid_sys \<Rightarrow> nat \<Rightarrow> asid_pc \<Rightarrow> bool" where
  "pc_ok s c Away = True"
| "pc_ok s c (Read_ctx p x) = (x = as_ctx s p)"
| "pc_ok s c (Read_gen p x g) = (x = as_ctx s p \<and> (as_active s c \<noteq> 0 \<longrightarrow> g = as_gen s))"
| "pc_ok s c (Read_active p x g a) =
     (x = as_ctx s p \<and> (as_active s c \<noteq> 0 \<longrightarrow> g = as_gen s \<and> a = as_active s c))"
| "pc_ok s c (Slow p) = True"

definition sys_inv :: "nat \<Rightarrow> asid_sys \<Rightarrow> bool" where [inv_simps]:
  "sys_inv b s \<longleftrightarrow> asid_inv b s \<and> (\<forall>c < as_ncpus s. ttbr_ok s c \<and> tlb_ok s c \<and> pc_ok s c (ay_pc s c)) \<and>
     (\<forall>c < as_ncpus s. \<forall>d < as_ncpus s. c \<noteq> d \<and> pc_proc (ay_pc s c) \<noteq> None \<longrightarrow>
        pc_proc (ay_pc s c) \<noteq> pc_proc (ay_pc s d))"

lemma more_eq:
  fixes s s' :: asid_sys
  assumes "asid_st.more s' = asid_st.more s"
  shows "ay_pc s' = ay_pc s" "ay_ttbr0 s' = ay_ttbr0 s" "ay_tlb s' = ay_tlb s"
  using assms by (cases s; cases s'; simp)+

lemma sys_inv_boot: "b = 8 \<or> b = 16 \<Longrightarrow> n \<le> NCPU_MAX \<Longrightarrow> sys_inv b (asid_boot b n)"
proof -
  assume b: "b = 8 \<or> b = 16" and n: "n \<le> NCPU_MAX"
  have bit0: "bit_test (bit_set (bit_decl ASID_MAX) 0) 0"
    using bit_test_set [OF bitstr_ok_decl, of 0 ASID_MAX 0] by (simp add: ASID_MAX_def)
  have m: "(2 ^ b :: uint64) - 1 = mask b" by (simp add: mask_eq_decr_exp)
  have g: "(push_bit b 1 :: uint64) AND mask b = 0" "(push_bit b 1 :: uint64) \<noteq> 0"
    using b by (auto simp: mask_eq_decr_exp)
  have z: "bitstr_ok NCPU_MAX cpumask_zero"
    by (simp add: cpumask_zero_def bitstr_ok_def BITSTR_NWORDS_def BITSTR_T_BITS_def NCPU_MAX_def)
  have "width_ok b (asid_boot b n)" unfolding width_ok_def
    using b n g z by (simp add: asid_boot_def asid_init_def m)
  moreover have "ctx_ok (asid_boot b n)" unfolding ctx_ok_def cur_def
    using bit0 g by (simp add: asid_boot_def asid_init_def ASID_RESERVED_def)
  moreover have "reserved_ok (asid_boot b n)" "active_ok (asid_boot b n)"
    by (simp_all add: reserved_ok_def active_ok_def asid_boot_def asid_init_def)
  ultimately show ?thesis by (simp add: sys_inv_def asid_inv_def ttbr_ok_def tlb_ok_def asid_boot_def asid_init_def)
qed

lemma ttbr_held:
  assumes "asid_inv b s" "c < as_ncpus s" "ttbr_ok s c" "ay_ttbr0 s c = Some (x, q)"
  shows "held s q" "num s x = num s (as_ctx s q)"
proof -
  have t: "as_ctx s q \<noteq> 0" "(if as_active s c \<noteq> 0 then as_active s c else as_reserved s c) = as_ctx s q"
    using assms(3,4) by (simp_all add: ttbr_ok_def)
  show "held s q"
  proof (cases "as_active s c = 0")
    case True
    then show ?thesis using t assms(2) by (auto simp: held_def)
  next
    case False
    then obtain r where "cur s r" "as_ctx s r = as_active s c"
      using assms(1,2) unfolding asid_inv_def active_ok_def by blast
    then have "cur s q" using t(2) False by (simp add: cur_def)
    then show ?thesis using t(1) by (simp add: held_def)
  qed
  show "num s x = num s (as_ctx s q)" using assms(3,4) by (simp add: ttbr_ok_def)
qed

text \<open>Publishing a current context on a CPU that owes no flush any more.\<close>

lemma publish_inv:
  assumes inv: "sys_inv b s" and c: "c < as_ncpus s" and cp: "cur s p"
    and pm: "bitstr_ok NCPU_MAX pm" "\<not> cpumask_test pm c"
      "\<And>d. d < as_ncpus s \<Longrightarrow> d \<noteq> c \<Longrightarrow> cpumask_test pm d = cpumask_test (as_pending s) d"
    and tE: "\<And>y q. (y, q) \<in> E \<Longrightarrow> held s q \<and> num s y = num s (as_ctx s q)"
  shows "sys_inv b (load_ttbr0 c (as_ctx s p) p
    (s\<lparr>as_pending := pm, as_active := (as_active s)(c := as_ctx s p), ay_tlb := (ay_tlb s)(c := E)\<rparr>))" (is "sys_inv b ?u")
proof -
  have ai: "asid_inv b s" and w: "width_ok b s" "active_ok s" using inv by (simp_all add: sys_inv_def asid_inv_def)
  have p0: "as_ctx s p \<noteq> 0" by (rule cur_ctx_nonzero [OF w(1) cp])
  have hp: "held s p" using cp p0 by (simp add: held_def)
  have same: "num ?u = num s" "held ?u = held s" "cur ?u = cur s"
    by (simp_all add: load_ttbr0_def num_def held_def cur_def fun_eq_iff)
  have "width_ok b ?u" using w(1) pm(1) by (simp add: width_ok_def load_ttbr0_def)
  moreover have "ctx_ok ?u = ctx_ok s" "reserved_ok ?u = reserved_ok s"
    unfolding ctx_ok_def reserved_ok_def same by (simp_all add: load_ttbr0_def)
  moreover have "active_ok ?u" unfolding active_ok_def same
    using w(2) cp pm(2,3) by (auto simp: load_ttbr0_def active_ok_def)
  ultimately have "asid_inv b ?u" using ai unfolding asid_inv_def by blast
  moreover have "ttbr_ok ?u d \<and> tlb_ok ?u d \<and> pc_ok ?u d (ay_pc ?u d)" if d: "d < as_ncpus s" for d
  proof (cases "d = c")
    case True
    have "r = p" if "(y, r) \<in> E" "num s y = num s (as_ctx s p)" for y r
      using held_unique [OF ai _ hp] tE [OF that(1)] that(2) by simp
    then have u: "\<forall>y r. (y, r) \<in> E \<and> num s y = num s (as_ctx s p) \<longrightarrow> r = p" by blast
    have t: "\<forall>x q. (x, q) \<in> E \<longrightarrow> held s q \<and> num s x = num s (as_ctx s q)" using tE by blast
    have "ttbr_ok ?u d" using True p0 unfolding ttbr_ok_def same by (simp add: load_ttbr0_def)
    moreover have "tlb_ok ?u d" using True u t unfolding tlb_ok_def same by (simp add: load_ttbr0_def)
    moreover have "pc_ok ?u d (ay_pc ?u d)" using True by (simp add: load_ttbr0_def)
    ultimately show ?thesis by blast
  next
    case False
    have old: "ttbr_ok s d" "tlb_ok s d" "pc_ok s d (ay_pc s d)" using inv d by (simp_all add: sys_inv_def)
    have "pc_ok ?u d k = pc_ok s d k" for k using False by (cases k) (simp_all add: load_ttbr0_def)
    moreover have "ay_pc ?u d = ay_pc s d" using False by (simp add: load_ttbr0_def)
    moreover have "ttbr_ok ?u d = ttbr_ok s d" using False unfolding ttbr_ok_def same by (simp add: load_ttbr0_def)
    moreover have "tlb_ok ?u d = tlb_ok s d"
      using False pm(3) [OF d False] unfolding tlb_ok_def same by (simp add: load_ttbr0_def)
    ultimately show ?thesis using old by simp
  qed
  moreover have "\<forall>d < as_ncpus ?u. \<forall>e < as_ncpus ?u. d \<noteq> e \<and> pc_proc (ay_pc ?u d) \<noteq> None \<longrightarrow>
      pc_proc (ay_pc ?u d) \<noteq> pc_proc (ay_pc ?u e)"
    using inv unfolding sys_inv_def by (auto simp: load_ttbr0_def)
  ultimately show ?thesis unfolding sys_inv_def by (simp add: load_ttbr0_def)
qed

lemma recontext_inv:
  assumes inv: "sys_inv b s" and c: "c < as_ncpus s" "ay_pc s c = Slow p" and nc: "\<not> cur s p"
    and s': "asid_inv b s'" "cur s' p" "as_ncpus s' = as_ncpus s" "as_mask s' = as_mask s"
      "asid_st.more s' = asid_st.more s" "as_ctx s' = (as_ctx s)(p := x)"
    and how: "held s p \<and> num s x = num s (as_ctx s p) \<and> quiet p x s s' \<or>
      \<not> held s p \<and> (quiet p x s s' \<or> rolled s s')"
  shows "sys_inv b s'"
proof -
  note me = more_eq [OF s'(5)]
  have ai: "asid_inv b s" using inv by (simp add: sys_inv_def)
  have w': "width_ok b s'" using s'(1) by (simp add: asid_inv_def)
  have numeq: "num s' = num s" by (simp add: num_def s'(4) fun_eq_iff)
  have x0: "x \<noteq> 0" using cur_ctx_nonzero [OF w' s'(2)] s'(6) by simp
  have inj: "as_ctx s q \<noteq> as_ctx s p" if "q \<noteq> p" "as_ctx s q \<noteq> 0" for q
    using ai that unfolding asid_inv_def ctx_ok_def by metis
  have still: "held s' q \<and> num s (as_ctx s' q) = num s (as_ctx s q)" if q: "held s q" and qt: "quiet p x s s'" for q
  proof (cases "q = p")
    case True
    then show ?thesis using q how s'(2,6) x0 by (simp add: held_def)
  next
    case False
    then have "cur s' q = cur s q" using qt s'(4,6) by (simp add: cur_def quiet_def)
    moreover have "as_reserved s' d = as_ctx s q" if "d < as_ncpus s" "as_reserved s d = as_ctx s q" for d
      using qt that inj [OF False] q unfolding quiet_def held_def by simp
    ultimately show ?thesis using q False s'(3,6) unfolding held_def by auto
  qed
  have "ttbr_ok s' d \<and> tlb_ok s' d \<and> pc_ok s' d (ay_pc s' d)" if d: "d < as_ncpus s" for d
  proof (intro conjI)
    have old: "ttbr_ok s d" "tlb_ok s d" "pc_ok s d (ay_pc s d)" using inv d by (simp_all add: sys_inv_def)
    have roll: "as_active s' d = 0" "as_reserved s' d = carried s d" "cpumask_test (as_pending s') d"
      if "rolled s s'" using that d by (simp_all add: rolled_def)
    show "ttbr_ok s' d" unfolding ttbr_ok_def
    proof (intro allI impI)
      fix y q assume y: "ay_ttbr0 s' d = Some (y, q)"
      then have t: "held s q" "num s y = num s (as_ctx s q)" using ttbr_held [OF ai d old(1)] me(2) by simp_all
      have sel: "(if as_active s d \<noteq> 0 then as_active s d else as_reserved s d) = as_ctx s q"
        using old(1) y me(2) by (simp add: ttbr_ok_def)
      have q0: "as_ctx s q \<noteq> 0" using t(1) by (simp add: held_def)
      consider (q) "quiet p x s s'" | (r) "rolled s s'" "q \<noteq> p" using how t(1) by blast
      then show "as_ctx s' q \<noteq> 0 \<and> num s' y = num s' (as_ctx s' q) \<and>
          (if as_active s' d \<noteq> 0 then as_active s' d else as_reserved s' d) = as_ctx s' q"
      proof cases
        case q
        have act: "as_active s' d = as_active s d" using q by (simp add: quiet_def)
        have res: "as_reserved s' d = (if as_ctx s p \<noteq> 0 \<and> as_reserved s d = as_ctx s p then x else as_reserved s d)"
          using q d by (simp add: quiet_def)
        show ?thesis
        proof (cases "q = p")
          case True
          have "as_active s d = 0"
          proof (rule ccontr)
            assume a: "as_active s d \<noteq> 0"
            then obtain r where "cur s r" "as_ctx s r = as_active s d"
              using ai d unfolding asid_inv_def active_ok_def by blast
            then show False using sel a True nc by (simp add: cur_def)
          qed
          then show ?thesis using True sel act res x0 s'(6) q0 t still [OF t(1) q] numeq by simp
        next
          case False
          then show ?thesis using sel act res s'(6) q0 t numeq inj [OF False q0] by auto
        qed
      next
        case r
        then show ?thesis using sel roll s'(6) q0 t numeq by (simp add: carried_def split: if_splits)
      qed
    qed
    have "\<forall>y q. (y, q) \<in> ay_tlb s' d \<longrightarrow> held s' q \<and> num s' y = num s' (as_ctx s' q)"
      if np: "\<not> cpumask_test (as_pending s') d"
    proof -
      have qt: "quiet p x s s'" using how np roll by blast
      then have "\<not> cpumask_test (as_pending s) d" using np by (simp add: quiet_def)
      then show ?thesis using old(2) still [OF _ qt] me(3) unfolding tlb_ok_def numeq by metis
    qed
    then show "tlb_ok s' d" using old(2) unfolding tlb_ok_def numeq me(2,3) by blast
    show "pc_ok s' d (ay_pc s' d)"
    proof (cases "d = c")
      case True
      then show ?thesis using c(2) me(1) by simp
    next
      case False
      then have np: "pc_proc (ay_pc s d) \<noteq> Some p" using inv c d unfolding sys_inv_def
        by (metis option.distinct(1) pc_proc.simps(5))
      have "as_active s' d = 0 \<or> as_active s' d = as_active s d \<and> as_gen s' = as_gen s"
        using how roll by (auto simp: quiet_def)
      then show ?thesis using old(3) np s'(6) unfolding me(1) by (cases "ay_pc s d") auto
    qed
  qed
  then show ?thesis using inv s'(1,3) unfolding sys_inv_def me(1) by simp
qed

lemma slow_path:
  assumes inv: "sys_inv b s" and c: "c < as_ncpus s" "ay_pc s c = Slow p"
    and nw: "unat (as_gen s) + unat (as_total s) < 2 ^ 64"
  obtains s2 where "sys_inv b s2" "cur s2 p" "as_ncpus s2 = as_ncpus s" "asid_st.more s2 = asid_st.more s"
    "asid_switch_slow c p s = Inr (as_ctx s2 p, cpumask_test (as_pending s2) c,
       s2\<lparr>as_pending := (if cpumask_test (as_pending s2) c then cpumask_clear (as_pending s2) c else as_pending s2),
          as_active := (as_active s2)(c := as_ctx s2 p)\<rparr>)"
proof (cases "cur s p")
  case True
  then show ?thesis using inv by (intro that [of s]) (simp_all add: asid_switch_slow_def cur_def Let_def)
next
  case False
  have ai: "asid_inv b s" using inv by (simp add: sys_inv_def)
  obtain x s1 s' where n: "new_context p s = Inr (x, s1)" "s' = s1\<lparr>as_ctx := (as_ctx s1)(p := x)\<rparr>"
    and s': "asid_inv b s'" "cur s' p" "as_ncpus s' = as_ncpus s" "as_mask s' = as_mask s"
      "asid_st.more s' = asid_st.more s" "as_ctx s' = (as_ctx s)(p := x)"
    and how: "held s p \<and> num s x = num s (as_ctx s p) \<and> quiet p x s s' \<or>
      \<not> held s p \<and> (quiet p x s s' \<or> rolled s s')"
    using new_context_spec [OF ai nw False] by blast
  have "sys_inv b s'" by (rule recontext_inv [OF inv c False s' how])
  moreover have "as_ctx s' p = x" using s'(6) by simp
  moreover have "asid_switch_slow c p s = Inr (x, cpumask_test (as_pending s') c,
       s'\<lparr>as_pending := (if cpumask_test (as_pending s') c then cpumask_clear (as_pending s') c else as_pending s'),
          as_active := (as_active s')(c := x)\<rparr>)"
    using False n by (simp add: asid_switch_slow_def cur_def Let_def)
  ultimately show ?thesis using s'(2,3,5) by (intro that [of s']) simp_all
qed

lemma slow_inv:
  assumes inv: "sys_inv b s" and c: "c < as_ncpus s" "ay_pc s c = Slow p"
    and nw: "unat (as_gen s) + unat (as_total s) < 2 ^ 64"
    and run: "asid_switch_slow c p s = Inr (x, flush, s')" and T: "T \<subseteq> set_option (ay_ttbr0 s c)"
  shows "sys_inv b (load_ttbr0 c x p (s'\<lparr>ay_tlb := (ay_tlb s)(c := if flush then T else ay_tlb s c)\<rparr>))"
proof -
  obtain s2 where s2: "sys_inv b s2" "cur s2 p" "as_ncpus s2 = as_ncpus s" "asid_st.more s2 = asid_st.more s"
    and eq: "asid_switch_slow c p s = Inr (as_ctx s2 p, cpumask_test (as_pending s2) c,
       s2\<lparr>as_pending := (if cpumask_test (as_pending s2) c then cpumask_clear (as_pending s2) c else as_pending s2),
          as_active := (as_active s2)(c := as_ctx s2 p)\<rparr>)"
    by (rule slow_path [OF inv c nw])
  note me = more_eq [OF s2(4)]
  have ai: "asid_inv b s2" and w: "width_ok b s2" using s2(1) by (simp_all add: sys_inv_def asid_inv_def)
  have c2: "c < as_ncpus s2" "c < NCPU_MAX" using c(1) s2(3) w by (simp_all add: width_ok_def)
  let ?pm = "if cpumask_test (as_pending s2) c then cpumask_clear (as_pending s2) c else as_pending s2"
  have pok: "bitstr_ok NCPU_MAX (as_pending s2)" using w by (simp add: width_ok_def)
  have clr: "cpumask_test (cpumask_clear (as_pending s2) c) d \<longleftrightarrow> d \<noteq> c \<and> cpumask_test (as_pending s2) d"
    if "d < as_ncpus s2" for d
    using bit_test_clear [OF pok c2(2), of d] that w by (simp add: cpumask_test_def cpumask_clear_def width_ok_def)
  let ?tl = "if cpumask_test (as_pending s2) c then T else ay_tlb s2 c"
  have old: "ttbr_ok s2 c" "tlb_ok s2 c" using s2(1) c2(1) by (simp_all add: sys_inv_def)
  have "held s2 q \<and> num s2 y = num s2 (as_ctx s2 q)" if "(y, q) \<in> ?tl" for y q
  proof (cases "cpumask_test (as_pending s2) c")
    case True
    then have "ay_ttbr0 s2 c = Some (y, q)" using that T unfolding me(2) by (cases "ay_ttbr0 s c") auto
    then show ?thesis using ttbr_held [OF ai c2(1) old(1)] by simp
  next
    case False
    then show ?thesis using that old(2) unfolding tlb_ok_def by simp
  qed
  then have "sys_inv b (load_ttbr0 c (as_ctx s2 p) p (s2\<lparr>as_pending := ?pm,
      as_active := (as_active s2)(c := as_ctx s2 p), ay_tlb := (ay_tlb s2)(c := ?tl)\<rparr>))"
    using clr c2(1) pok by (intro publish_inv [OF s2(1) c2(1) s2(2)]) (auto simp: cpumask_clear_def)
  moreover have "x = as_ctx s2 p" "flush = cpumask_test (as_pending s2) c"
    "s' = s2\<lparr>as_pending := ?pm, as_active := (as_active s2)(c := as_ctx s2 p)\<rparr>"
    using run unfolding eq sum.inject prod.inject by blast+
  ultimately show ?thesis unfolding me(3) by simp
qed

text \<open>Steps that only move a CPU along the fast path keep everything but its own position.\<close>

lemma set_pc_inv:
  assumes inv: "sys_inv b s" and c: "c < as_ncpus s" and ok: "pc_ok s c k"
    and uniq: "\<forall>d < as_ncpus s. d \<noteq> c \<longrightarrow> pc_proc k \<noteq> None \<longrightarrow> pc_proc (ay_pc s d) \<noteq> pc_proc k"
  shows "sys_inv b (set_pc c k s)"
proof -
  have same: "num (set_pc c k s) = num s" "held (set_pc c k s) = held s" "cur (set_pc c k s) = cur s"
    by (simp_all add: set_pc_def num_def held_def cur_def fun_eq_iff)
  have "asid_inv b (set_pc c k s) = asid_inv b s"
    unfolding asid_inv_def width_ok_def ctx_ok_def reserved_ok_def active_ok_def same by (simp add: set_pc_def)
  moreover have "ttbr_ok (set_pc c k s) d = ttbr_ok s d" "tlb_ok (set_pc c k s) d = tlb_ok s d" for d
    unfolding ttbr_ok_def tlb_ok_def same by (simp_all add: set_pc_def)
  moreover have "pc_ok (set_pc c k s) d j = pc_ok s d j" for d j by (cases j) (simp_all add: set_pc_def)
  moreover have "as_ncpus (set_pc c k s) = as_ncpus s" "ay_pc (set_pc c k s) = (ay_pc s)(c := k)"
    by (simp_all add: set_pc_def)
  ultimately show ?thesis using inv ok uniq unfolding sys_inv_def by auto
qed

lemma tlb_update_inv:
  assumes inv: "sys_inv b s"
    and sub: "\<And>c e. c < as_ncpus s \<Longrightarrow> e \<in> t c \<Longrightarrow> e \<in> ay_tlb s c \<or> ay_ttbr0 s c = Some e"
  shows "sys_inv b (s\<lparr>ay_tlb := t\<rparr>)" (is "sys_inv b ?u")
proof -
  have same: "num ?u = num s" "held ?u = held s" "cur ?u = cur s"
    by (simp_all add: num_def held_def cur_def fun_eq_iff)
  have ai: "asid_inv b s" using inv by (simp add: sys_inv_def)
  have "asid_inv b ?u = asid_inv b s"
    unfolding asid_inv_def width_ok_def ctx_ok_def reserved_ok_def active_ok_def same by simp
  moreover have "ttbr_ok ?u d = ttbr_ok s d" for d unfolding ttbr_ok_def same by simp
  moreover have "tlb_ok ?u d" if d: "d < as_ncpus s" for d
  proof -
    have old: "ttbr_ok s d" "tlb_ok s d" using inv d by (simp_all add: sys_inv_def)
    have part: "as_pending ?u = as_pending s" "ay_tlb ?u = t" "ay_ttbr0 ?u = ay_ttbr0 s" "as_ctx ?u = as_ctx s"
      by simp_all
    have "held s q \<and> num s y = num s (as_ctx s q)" if "(y, q) \<in> t d" "\<not> cpumask_test (as_pending s) d" for y q
      using sub [OF d that(1)] old(2) that(2) ttbr_held [OF ai d old(1)] unfolding tlb_ok_def by blast
    moreover have "r = q" if "ay_ttbr0 s d = Some (x, q)" "(y, r) \<in> t d" "num s y = num s x" for x q y r
    proof (cases "(y, r) \<in> ay_tlb s d")
      case True
      then show ?thesis using old(2) that(1,3) unfolding tlb_ok_def by blast
    next
      case False
      then have "Some (y, r) = Some (x, q)" using sub [OF d that(2)] that(1) by simp
      then show ?thesis by simp
    qed
    ultimately show ?thesis unfolding tlb_ok_def same part by blast
  qed
  moreover have "pc_ok ?u d j = pc_ok s d j" for d j by (cases j) simp_all
  moreover have "as_ncpus ?u = as_ncpus s" "ay_pc ?u = ay_pc s" by simp_all
  ultimately show ?thesis using inv unfolding sys_inv_def by auto
qed

lemma park_inv:
  assumes inv: "sys_inv b s"
  shows "sys_inv b (s\<lparr>ay_ttbr0 := (ay_ttbr0 s)(c := None)\<rparr>)" (is "sys_inv b ?u")
proof -
  have same: "num ?u = num s" "held ?u = held s" "cur ?u = cur s"
    by (simp_all add: num_def held_def cur_def fun_eq_iff)
  have "asid_inv b ?u = asid_inv b s"
    unfolding asid_inv_def width_ok_def ctx_ok_def reserved_ok_def active_ok_def same by simp
  moreover have "ttbr_ok ?u d \<and> tlb_ok ?u d" if ok: "ttbr_ok s d" "tlb_ok s d" for d
  proof (cases "d = c")
    case True
    then have "ttbr_ok ?u d" "tlb_ok ?u d \<longleftrightarrow> cpumask_test (as_pending s) d \<or>
        (\<forall>x q. (x, q) \<in> ay_tlb s d \<longrightarrow> held s q \<and> num s x = num s (as_ctx s q))"
      unfolding ttbr_ok_def tlb_ok_def same by simp_all
    then show ?thesis using ok(2) unfolding tlb_ok_def by blast
  next
    case False
    then have "ttbr_ok ?u d = ttbr_ok s d" "tlb_ok ?u d = tlb_ok s d"
      unfolding ttbr_ok_def tlb_ok_def same by simp_all
    then show ?thesis using ok by simp
  qed
  moreover have "pc_ok ?u d j = pc_ok s d j" for d j by (cases j) simp_all
  moreover have "as_ncpus ?u = as_ncpus s" "ay_pc ?u = ay_pc s" by simp_all
  ultimately show ?thesis using inv unfolding sys_inv_def by auto
qed

lemma fast_cur:
  assumes "width_ok b s" "asid_fast_ok x (as_gen s) a s" "x = as_ctx s p"
  shows "cur s p"
proof -
  have m: "as_gen s AND as_mask s = 0" using assms(1) by (auto simp: width_ok_def)
  have "x AND NOT (as_mask s) = as_gen s AND NOT (as_mask s)"
  proof (rule bit_word_eqI)
    fix n assume "n < LENGTH(64)"
    have "bit ((x XOR as_gen s) AND NOT (as_mask s)) n = False" using assms(2) by (simp add: asid_fast_ok_def)
    then show "bit (x AND NOT (as_mask s)) n = bit (as_gen s AND NOT (as_mask s)) n"
      by (auto simp: bit_and_iff bit_xor_iff)
  qed
  also have "\<dots> = as_gen s" using pack(2) [OF m, of 0] by simp
  finally show ?thesis using assms(3) by (simp add: cur_def)
qed

lemma step_inv: "asid_step s s' \<Longrightarrow> sys_inv b s \<Longrightarrow> sys_inv b s'"
proof (induction rule: asid_step.induct)
  case (enter c s p)
  then show ?case by (intro set_pc_inv) auto
next
  case (read_gen c s p x)
  then have "pc_ok s c (Read_ctx p x)" unfolding sys_inv_def by metis
  moreover have "pc_proc (ay_pc s d) \<noteq> Some p" if "d < as_ncpus s" "d \<noteq> c" for d
    using read_gen that unfolding sys_inv_def by (metis option.distinct(1) pc_proc.simps(2))
  ultimately show ?case using read_gen by (intro set_pc_inv) auto
next
  case (read_active c s p x g)
  then have "pc_ok s c (Read_gen p x g)" unfolding sys_inv_def by metis
  moreover have "pc_proc (ay_pc s d) \<noteq> Some p" if "d < as_ncpus s" "d \<noteq> c" for d
    using read_active that unfolding sys_inv_def by (metis option.distinct(1) pc_proc.simps(3))
  ultimately show ?case using read_active by (intro set_pc_inv) auto
next
  case (cas_ok c s p x g a)
  have ai: "asid_inv b s" and w: "width_ok b s" "active_ok s" using cas_ok by (simp_all add: sys_inv_def asid_inv_def)
  have "pc_ok s c (Read_active p x g a)" using cas_ok unfolding sys_inv_def by metis
  then have x: "x = as_ctx s p" and g: "g = as_gen s" and a0: "as_active s c \<noteq> 0"
    using cas_ok by (auto simp: asid_fast_ok_def)
  have cp: "cur s p" using fast_cur [OF w(1) _ x] cas_ok(3) g by simp
  have np: "\<not> cpumask_test (as_pending s) c" using w(2) cas_ok(1) a0 by (simp add: active_ok_def)
  have "held s q \<and> num s y = num s (as_ctx s q)" if "(y, q) \<in> ay_tlb s c" for y q
    using cas_ok np that unfolding sys_inv_def tlb_ok_def by blast
  then have "sys_inv b (load_ttbr0 c (as_ctx s p) p (s\<lparr>as_pending := as_pending s,
      as_active := (as_active s)(c := as_ctx s p), ay_tlb := (ay_tlb s)(c := ay_tlb s c)\<rparr>))"
    using np w(1) by (intro publish_inv [OF cas_ok(5,1) cp]) (auto simp: width_ok_def)
  then show ?case unfolding x by simp
next
  case (cas_fail c s p x g a)
  then have "pc_proc (ay_pc s d) \<noteq> Some p" if "d < as_ncpus s" "d \<noteq> c" for d
    using that unfolding sys_inv_def by (metis option.distinct(1) pc_proc.simps(4))
  with cas_fail show ?case by (intro set_pc_inv) auto
next
  case (slow c s p x flush s' T)
  then show ?case by (intro slow_inv)
next
  case (fill c s e)
  then show ?case by (intro tlb_update_inv) (auto split: if_splits)
next
  case (park c s)
  then show ?case by (intro park_inv)
next
  case (asid_flush s p)
  then show ?case by (intro tlb_update_inv) auto
qed

lemma reach_inv: "asid_reach b n s \<Longrightarrow> b = 8 \<or> b = 16 \<Longrightarrow> n \<le> NCPU_MAX \<Longrightarrow> sys_inv b s"
  by (induction rule: asid_reach.induct) (auto intro: sys_inv_boot step_inv)

text \<open>C5: On a machine of up to 32 CPUs, whatever the interleaving of address space switches, fast
  paths, rollovers and TLB fills, a CPU never holds, under the number its TTBR0 carries, an entry
  of another process; and two CPUs whose TTBR0 carry the same number run the same process.\<close>

theorem asid_isolation:
  assumes "asid_reach b n s" "b = 8 \<or> b = 16" "n \<le> NCPU_MAX" "c < as_ncpus s" "ay_ttbr0 s c = Some (x, p)"
  shows "(\<forall>y q. (y, q) \<in> ay_tlb s c \<and> y AND as_mask s = x AND as_mask s \<longrightarrow> q = p) \<and>
    (\<forall>d y q. d < as_ncpus s \<and> ay_ttbr0 s d = Some (y, q) \<and> y AND as_mask s = x AND as_mask s \<longrightarrow> q = p)"
proof -
  have inv: "sys_inv b s" using reach_inv [OF assms(1-3)] .
  then have ai: "asid_inv b s" by (simp add: sys_inv_def)
  have ok: "ttbr_ok s d" "tlb_ok s d" if "d < as_ncpus s" for d using inv that by (simp_all add: sys_inv_def)
  have "q = p" if "(y, q) \<in> ay_tlb s c" "y AND as_mask s = x AND as_mask s" for y q
    using ok(2) [OF assms(4)] that assms(5) unfolding tlb_ok_def num_def by metis
  moreover have "q = p" if d: "d < as_ncpus s" "ay_ttbr0 s d = Some (y, q)" "y AND as_mask s = x AND as_mask s" for d y q
    using held_unique [OF ai] ttbr_held [OF ai d(1) ok(1) [OF d(1)] d(2)]
      ttbr_held [OF ai assms(4) ok(1) [OF assms(4)] assms(5)] d(3) unfolding num_def by metis
  ultimately show ?thesis by blast
qed

text \<open>The slow path never panics: after a rollover at least one number is free, because only
  the reserved number and one number per CPU survive it. The context it publishes belongs to the
  current generation, and the CPU owes no flush afterwards.\<close>

theorem asid_slow_path_total:
  assumes "asid_reach b n s" "b = 8 \<or> b = 16" "n \<le> NCPU_MAX" "c < as_ncpus s" "ay_pc s c = Slow p"
    "unat (as_gen s) + unat (as_total s) < 2 ^ 64"
  shows "\<exists>x flush s'. asid_switch_slow c p s = Inr (x, flush, s') \<and> as_active s' c = x \<and> as_ctx s' p = x \<and>
    x AND NOT (as_mask s') = as_gen s' \<and> \<not> cpumask_test (as_pending s') c"
proof -
  obtain s2 where s2: "sys_inv b s2" "cur s2 p" "as_ncpus s2 = as_ncpus s"
    and eq: "asid_switch_slow c p s = Inr (as_ctx s2 p, cpumask_test (as_pending s2) c,
       s2\<lparr>as_pending := (if cpumask_test (as_pending s2) c then cpumask_clear (as_pending s2) c else as_pending s2),
          as_active := (as_active s2)(c := as_ctx s2 p)\<rparr>)"
    by (rule slow_path [OF reach_inv [OF assms(1-3)] assms(4-6)])
  have w: "width_ok b s2" using s2(1) by (simp add: sys_inv_def asid_inv_def)
  then have "c < NCPU_MAX" "bitstr_ok NCPU_MAX (as_pending s2)" using assms(4) s2(3) by (simp_all add: width_ok_def)
  then have "\<not> cpumask_test (cpumask_clear (as_pending s2) c) c"
    using bit_test_clear by (simp add: cpumask_test_def cpumask_clear_def)
  then show ?thesis using eq s2(2) by (simp add: cur_def)
qed

section \<open>A first switch\<close>

lemma set_pc_simps [simp]:
  "as_ncpus (set_pc c k s) = as_ncpus s" "ay_pc (set_pc c k s) = (ay_pc s)(c := k)"
  "as_ctx (set_pc c k s) = as_ctx s" "as_gen (set_pc c k s) = as_gen s" "as_total (set_pc c k s) = as_total s"
  "as_active (set_pc c k s) = as_active s" "ay_ttbr0 (set_pc c k s) = ay_ttbr0 s"
  "set_pc c j (set_pc c k s) = set_pc c j s"
  by (simp_all add: set_pc_def)

lemma asid_boot_simps [simp]:
  "as_ncpus (asid_boot b n) = n" "ay_pc (asid_boot b n) = (\<lambda>_. Away)" "as_ctx (asid_boot b n) = (\<lambda>_. 0)"
  "as_active (asid_boot b n) = (\<lambda>_. 0)" "ay_ttbr0 (asid_boot b n) = (\<lambda>_. None)"
  "as_gen (asid_boot b n) = push_bit b 1" "as_total (asid_boot b n) = push_bit b 1"
  by (simp_all add: asid_boot_def asid_init_def fun_eq_iff)

lemma first_switch_slow: "asid_reach 8 1 (set_pc 0 (Slow 5) (asid_boot 8 1))"
proof -
  let ?s = "asid_boot 8 1"
  have "asid_reach 8 1 (set_pc 0 (Read_ctx 5 0) ?s)"
    using asid_reach.step [OF asid_reach.boot asid_step.enter [of 0 ?s 5]] by simp
  from asid_reach.step [OF this asid_step.read_gen [of 0 _ 5 0]]
  have "asid_reach 8 1 (set_pc 0 (Read_gen 5 0 (as_gen ?s)) ?s)" by simp
  from asid_reach.step [OF this asid_step.read_active [of 0 _ 5 0 "as_gen ?s"]]
  have "asid_reach 8 1 (set_pc 0 (Read_active 5 0 (as_gen ?s) 0) ?s)" by simp
  from asid_reach.step [OF this asid_step.cas_fail [of 0 _ 5 0 "as_gen ?s" 0]]
  show ?thesis by (simp add: asid_fast_ok_def)
qed

theorem asid_slow_path_total_witness:
  "\<exists>x flush s'. asid_switch_slow 0 5 (set_pc 0 (Slow 5) (asid_boot 8 1)) = Inr (x, flush, s') \<and>
    as_active s' 0 = x \<and> as_ctx s' 5 = x"
proof -
  have h: "(8 :: nat) = 8 \<or> (8 :: nat) = 16" "1 \<le> NCPU_MAX" by (simp_all add: NCPU_MAX_def)
  have "0 < as_ncpus (set_pc 0 (Slow 5) (asid_boot 8 1))" "ay_pc (set_pc 0 (Slow 5) (asid_boot 8 1)) 0 = Slow 5"
    "unat (as_gen (set_pc 0 (Slow 5) (asid_boot 8 1))) + unat (as_total (set_pc 0 (Slow 5) (asid_boot 8 1))) < 2 ^ 64"
    by simp_all
  from asid_slow_path_total [OF first_switch_slow h this] show ?thesis by blast
qed

theorem asid_isolation_witness:
  "\<exists>s x. asid_reach 8 1 s \<and> ay_ttbr0 s 0 = Some (x, 5) \<and>
    {q. \<exists>y. (y, q) \<in> ay_tlb s 0 \<and> y AND as_mask s = x AND as_mask s} \<subseteq> {5}"
proof -
  let ?s = "set_pc 0 (Slow 5) (asid_boot 8 1)"
  have h: "(8 :: nat) = 8 \<or> (8 :: nat) = 16" "1 \<le> NCPU_MAX" by (simp_all add: NCPU_MAX_def)
  have c: "0 < as_ncpus ?s" "ay_pc ?s 0 = Slow 5" "unat (as_gen ?s) + unat (as_total ?s) < 2 ^ 64" by simp_all
  obtain s2 where s2: "as_ncpus s2 = as_ncpus ?s"
    and eq: "asid_switch_slow 0 5 ?s = Inr (as_ctx s2 5, cpumask_test (as_pending s2) 0,
       s2\<lparr>as_pending := (if cpumask_test (as_pending s2) 0 then cpumask_clear (as_pending s2) 0 else as_pending s2),
          as_active := (as_active s2)(0 := as_ctx s2 5)\<rparr>)"
    by (rule slow_path [OF reach_inv [OF first_switch_slow h] c])
  from asid_reach.step [OF first_switch_slow asid_step.slow [OF c eq empty_subsetI]]
  obtain s where s: "asid_reach 8 1 s" "ay_ttbr0 s 0 = Some (as_ctx s2 5, 5)" "0 < as_ncpus s"
    using s2 by (fastforce simp: load_ttbr0_def)
  from asid_isolation [OF s(1) h s(3,2)] show ?thesis using s by blast
qed

end
