(* ===== verification/Spinlock.thy ===== *)
theory Spinlock
  imports Prelude
begin

text \<open>
  Spin locks and interrupt nesting (\<^verbatim>\<open>kern/spinlock.c\<close>). The state is the interrupt part of
  \<^verbatim>\<open>struct cpu\<close> and the lock words. The functions are the source's straight-line pieces between two
  shared accesses; \<open>lock_step\<close> interleaves them between CPUs, so that the window between the atomic
  swap and the store of \<open>lk->cpu\<close>, and the one between clearing \<open>lk->cpu\<close> and the releasing store,
  are states of their own.
\<close>

section \<open>State and operations\<close>

record cpu =
  irq :: bool            \<comment> \<open>\<open>irq_get()\<close>: interrupts enabled\<close>
  noff :: int
  intena :: bool
  off_file :: string
  off_line :: int

record spinlock =
  lk_locked :: uint32
  lk_name :: string
  lk_cpu :: "nat option"

record locks =
  cpus :: "nat \<Rightarrow> cpu"
  lks :: "nat \<Rightarrow> spinlock"
  panicking :: bool

definition set_cpu :: "nat \<Rightarrow> cpu \<Rightarrow> 'a locks_scheme \<Rightarrow> 'a locks_scheme" where
  "set_cpu c k s = s\<lparr>cpus := (cpus s)(c := k)\<rparr>"

definition set_lk :: "nat \<Rightarrow> spinlock \<Rightarrow> 'a locks_scheme \<Rightarrow> 'a locks_scheme" where
  "set_lk l k s = s\<lparr>lks := (lks s)(l := k)\<rparr>"

definition push_off_at :: "string \<Rightarrow> int \<Rightarrow> nat \<Rightarrow> 'a locks_scheme \<Rightarrow> 'a locks_scheme" where
  "push_off_at file line c s =
     (let k = cpus s c; k1 = k\<lparr>irq := False\<rparr>;
          k2 = (if noff k = 0 then k1\<lparr>intena := irq k, off_file := file, off_line := line\<rparr> else k1)
      in set_cpu c (k2\<lparr>noff := noff k + 1\<rparr>) s)"

definition pop_off_at :: "nat \<Rightarrow> 'a locks_scheme \<Rightarrow> 'a locks_scheme res" where
  "pop_off_at c s =
     (let k = cpus s c in
      kassert (\<not> irq k) ''pop_off: interruptable at %s:%d''
        (kassert (noff k \<ge> 1) ''pop_off: underflow at %s:%d''
          (Inr (set_cpu c (k\<lparr>noff := noff k - 1, irq := (irq k \<or> noff k - 1 = 0 \<and> intena k)\<rparr>) s))))"

definition holding_spinlock :: "nat \<Rightarrow> nat \<Rightarrow> 'a locks_scheme \<Rightarrow> bool" where
  "holding_spinlock c l s \<longleftrightarrow> lk_locked (lks s l) \<noteq> 0 \<and> lk_cpu (lks s l) = Some c"

definition init_spinlock :: "nat \<Rightarrow> string \<Rightarrow> 'a locks_scheme \<Rightarrow> 'a locks_scheme" where
  "init_spinlock l name s = set_lk l \<lparr>lk_locked = 0, lk_name = name, lk_cpu = None\<rparr> s"

text \<open>\<open>acquire_spinlock_at\<close> and \<open>try_acquire_spinlock_at\<close> up to their loop or swap.\<close>

definition acquire_enter :: "string \<Rightarrow> string \<Rightarrow> int \<Rightarrow> nat \<Rightarrow> nat \<Rightarrow> 'a locks_scheme \<Rightarrow> 'a locks_scheme res" where
  "acquire_enter msg file line c l s =
     (let s1 = push_off_at file line c s in
      kassert (\<not> holding_spinlock c l s1 \<or> panicking s1) msg (Inr s1))"

text \<open>\<open>atomic_swap(&lk->locked, 1)\<close>: the old value and the new state.\<close>

definition atomic_swap :: "nat \<Rightarrow> uint32 \<Rightarrow> 'a locks_scheme \<Rightarrow> uint32 \<times> 'a locks_scheme" where
  "atomic_swap l v s = (lk_locked (lks s l), set_lk l ((lks s l)\<lparr>lk_locked := v\<rparr>) s)"

definition lk_own :: "nat \<Rightarrow> nat \<Rightarrow> 'a locks_scheme \<Rightarrow> 'a locks_scheme" where
  "lk_own c l s = set_lk l ((lks s l)\<lparr>lk_cpu := Some c\<rparr>) s"

definition release_enter :: "nat \<Rightarrow> nat \<Rightarrow> 'a locks_scheme \<Rightarrow> 'a locks_scheme res" where
  "release_enter c l s =
     kassert (holding_spinlock c l s \<or> panicking s) ''release_spinlock: %s not held at %s:%d''
       (Inr (set_lk l ((lks s l)\<lparr>lk_cpu := None\<rparr>) s))"

definition release_exit :: "nat \<Rightarrow> nat \<Rightarrow> 'a locks_scheme \<Rightarrow> 'a locks_scheme res" where
  "release_exit c l s = pop_off_at c (set_lk l ((lks s l)\<lparr>lk_locked := 0\<rparr>) s)"

text \<open>The whole calls, when no other CPU interferes; \<open>None\<close> is a loop that never ends.\<close>

definition acquire_spinlock_at :: "string \<Rightarrow> int \<Rightarrow> nat \<Rightarrow> nat \<Rightarrow> 'a locks_scheme \<Rightarrow> 'a locks_scheme res option" where
  "acquire_spinlock_at file line c l s =
     (case acquire_enter ''acquire_spinlock: %s already held held at %s:%d'' file line c l s of
        Inl e \<Rightarrow> Some (Inl e)
      | Inr s1 \<Rightarrow>
          (let (v, s2) = atomic_swap l 1 s1 in
           if v = 0 then Some (Inr (lk_own c l s2))
           else if panicking s2 then Some (Inr s2) else None))"

definition release_spinlock_at :: "nat \<Rightarrow> nat \<Rightarrow> 'a locks_scheme \<Rightarrow> 'a locks_scheme res" where
  "release_spinlock_at c l s = rbind (release_enter c l s) (release_exit c l)"

definition try_acquire_spinlock_at ::
  "string \<Rightarrow> int \<Rightarrow> nat \<Rightarrow> nat \<Rightarrow> 'a locks_scheme \<Rightarrow> (bool \<times> 'a locks_scheme) res" where
  "try_acquire_spinlock_at file line c l s =
     rbind (acquire_enter ''try_acquire_spinlock: %s already held at %s:%d'' file line c l s) (\<lambda>s1.
       let (v, s2) = atomic_swap l 1 s1 in
       if v \<noteq> 0 then
         if panicking s2 then Inr (True, s2)
         else rbind (pop_off_at c s2) (\<lambda>s3. Inr (False, s3))
       else Inr (True, lk_own c l s2))"

section \<open>CPUs competing for locks\<close>

datatype lock_pc = Run | Spin nat | Try nat | Won nat | Rel nat

text \<open>
  Besides the real state: where each CPU is, the locks each CPU is inside of, its unmatched
  \<open>push_off\<close>s, and the interrupt state it chose for itself when it last had none.
\<close>

record lock_sys = locks +
  pc :: "nat \<Rightarrow> lock_pc"
  inside :: "nat \<Rightarrow> nat set"
  pushes :: "nat \<Rightarrow> nat"
  want :: "nat \<Rightarrow> bool"

definition at :: "nat \<Rightarrow> lock_pc \<Rightarrow> lock_sys \<Rightarrow> lock_sys" where
  "at c k s = s\<lparr>pc := (pc s)(c := k)\<rparr>"

definition acq_msg :: string where "acq_msg = ''acquire_spinlock: %s already held held at %s:%d''"
definition try_msg :: string where "try_msg = ''try_acquire_spinlock: %s already held at %s:%d''"

inductive lock_step :: "lock_sys \<Rightarrow> lock_sys \<Rightarrow> bool" where
  irq_set: "\<lbrakk>pc s c = Run; noff (cpus s c) = 0\<rbrakk>
    \<Longrightarrow> lock_step s ((set_cpu c ((cpus s c)\<lparr>irq := v\<rparr>) s)\<lparr>want := (want s)(c := v)\<rparr>)"
| push: "pc s c = Run \<Longrightarrow> lock_step s ((push_off_at f n c s)\<lparr>pushes := (pushes s)(c := pushes s c + 1)\<rparr>)"
| pop: "\<lbrakk>pc s c = Run; pushes s c > 0; pop_off_at c s = Inr s'\<rbrakk>
    \<Longrightarrow> lock_step s (s'\<lparr>pushes := (pushes s)(c := pushes s c - 1)\<rparr>)"
| acquire: "\<lbrakk>pc s c = Run; acquire_enter acq_msg f n c l s = Inr s'\<rbrakk> \<Longrightarrow> lock_step s (at c (Spin l) s')"
| try_acquire: "\<lbrakk>pc s c = Run; acquire_enter try_msg f n c l s = Inr s'\<rbrakk> \<Longrightarrow> lock_step s (at c (Try l) s')"
| swap_won: "\<lbrakk>pc s c = Spin l \<or> pc s c = Try l; atomic_swap l 1 s = (0, s')\<rbrakk> \<Longrightarrow> lock_step s (at c (Won l) s')"
| swap_spin: "\<lbrakk>pc s c = Spin l; atomic_swap l 1 s = (v, s'); v \<noteq> 0\<rbrakk> \<Longrightarrow> lock_step s s'"
| swap_give_up: "\<lbrakk>pc s c = Try l; atomic_swap l 1 s = (v, s'); v \<noteq> 0; pop_off_at c s' = Inr s''\<rbrakk>
    \<Longrightarrow> lock_step s (at c Run s'')"
| own: "pc s c = Won l \<Longrightarrow> lock_step s ((at c Run (lk_own c l s))\<lparr>inside := (inside s)(c := insert l (inside s c))\<rparr>)"
| release: "\<lbrakk>pc s c = Run; release_enter c l s = Inr s'\<rbrakk>
    \<Longrightarrow> lock_step s ((at c (Rel l) s')\<lparr>inside := (inside s)(c := inside s c - {l})\<rparr>)"
| unlock: "\<lbrakk>pc s c = Rel l; release_exit c l s = Inr s'\<rbrakk> \<Longrightarrow> lock_step s (at c Run s')"

definition locks_boot :: "(nat \<Rightarrow> bool) \<Rightarrow> (nat \<Rightarrow> string) \<Rightarrow> lock_sys" where
  "locks_boot irqs names = \<lparr>
     cpus = (\<lambda>c. \<lparr>irq = irqs c, noff = 0, intena = False, off_file = [], off_line = 0\<rparr>),
     lks = (\<lambda>l. \<lparr>lk_locked = 0, lk_name = names l, lk_cpu = None\<rparr>), panicking = False,
     pc = (\<lambda>_. Run), inside = (\<lambda>_. {}), pushes = (\<lambda>_. 0), want = irqs\<rparr>"

inductive lock_reach :: "lock_sys \<Rightarrow> bool" where
  boot: "lock_reach (locks_boot irqs names)"
| step: "lock_reach s \<Longrightarrow> lock_step s s' \<Longrightarrow> lock_reach s'"

section \<open>The invariant\<close>

text \<open>A CPU is engaged with a lock from the swap that won it to the store that frees it.\<close>

definition engaged :: "lock_sys \<Rightarrow> nat \<Rightarrow> nat \<Rightarrow> bool" where
  "engaged s c l \<longleftrightarrow> l \<in> inside s c \<or> pc s c = Won l \<or> pc s c = Rel l"

definition depth :: "lock_sys \<Rightarrow> nat \<Rightarrow> int" where
  "depth s c = int (card (inside s c)) + int (pushes s c) + (if pc s c = Run then 0 else 1)"

definition lock_ok :: "lock_sys \<Rightarrow> nat \<Rightarrow> bool" where
  "lock_ok s l \<longleftrightarrow> (lk_locked (lks s l) \<noteq> 0 \<longleftrightarrow> (\<exists>c. engaged s c l)) \<and>
     (\<forall>c d. engaged s c l \<and> engaged s d l \<longrightarrow> c = d) \<and>
     (\<forall>c. lk_cpu (lks s l) = Some c \<longleftrightarrow> l \<in> inside s c)"

definition cpu_ok :: "lock_sys \<Rightarrow> nat \<Rightarrow> bool" where
  "cpu_ok s c \<longleftrightarrow> finite (inside s c) \<and> noff (cpus s c) = depth s c \<and>
     (\<forall>l. l \<in> inside s c \<longrightarrow> pc s c \<noteq> Won l \<and> pc s c \<noteq> Rel l) \<and>
     (if noff (cpus s c) = 0 then irq (cpus s c) = want s c
      else \<not> irq (cpus s c) \<and> intena (cpus s c) = want s c)"

definition locks_inv :: "lock_sys \<Rightarrow> bool" where
  "locks_inv s \<longleftrightarrow> \<not> panicking s \<and> (\<forall>l. lock_ok s l) \<and> (\<forall>c. cpu_ok s c)"

lemmas lock_defs = set_cpu_def set_lk_def push_off_at_def pop_off_at_def holding_spinlock_def
  acquire_enter_def atomic_swap_def lk_own_def release_enter_def release_exit_def at_def Let_def

lemma boot_inv: "locks_inv (locks_boot irqs names)"
  by (simp add: locks_inv_def lock_ok_def cpu_ok_def depth_def engaged_def locks_boot_def)

lemma cpu_ok_frame:
  assumes "cpus s' d = cpus s d" "pc s' d = pc s d" "inside s' d = inside s d" "pushes s' d = pushes s d"
    "want s' d = want s d"
  shows "cpu_ok s' d = cpu_ok s d"
  using assms by (simp add: cpu_ok_def depth_def)

lemma lock_ok_frame:
  assumes "lks s' l = lks s l" "\<And>c. engaged s' c l = engaged s c l" "\<And>c. l \<in> inside s' c \<longleftrightarrow> l \<in> inside s c"
  shows "lock_ok s' l = lock_ok s l"
  using assms by (simp add: lock_ok_def)

text \<open>The interrupt bookkeeping of one CPU, apart from how deep it is nested.\<close>

definition irq_ok :: "cpu \<Rightarrow> bool \<Rightarrow> bool" where
  "irq_ok k w \<longleftrightarrow> noff k \<ge> 0 \<and> (if noff k = 0 then irq k = w else \<not> irq k \<and> intena k = w)"

lemma cpu_ok_iff: "cpu_ok s c \<longleftrightarrow> finite (inside s c) \<and> noff (cpus s c) = depth s c \<and>
    (\<forall>l. l \<in> inside s c \<longrightarrow> pc s c \<noteq> Won l \<and> pc s c \<noteq> Rel l) \<and> irq_ok (cpus s c) (want s c)"
  by (auto simp: cpu_ok_def irq_ok_def depth_def)

lemma push_off_effect:
  assumes "irq_ok (cpus s c) w"
  obtains k where "push_off_at f n c s = set_cpu c k s" "noff k = noff (cpus s c) + 1" "irq_ok k w"
  using assms by (auto simp: push_off_at_def irq_ok_def Let_def)

lemma pop_off_effect:
  assumes "irq_ok (cpus s c) w" "noff (cpus s c) \<ge> 1"
  obtains k where "pop_off_at c s = Inr (set_cpu c k s)" "noff k = noff (cpus s c) - 1" "irq_ok k w"
  using assms by (auto simp: pop_off_at_def irq_ok_def Let_def)

text \<open>A step of CPU \<open>c\<close> that leaves every lock and every other CPU alone.\<close>

lemma local_step:
  assumes inv: "locks_inv s" and same: "lks s' = lks s" "panicking s' = panicking s" "inside s' = inside s"
    "\<And>d. d \<noteq> c \<Longrightarrow> cpus s' d = cpus s d \<and> pc s' d = pc s d \<and> pushes s' d = pushes s d \<and> want s' d = want s d"
    "\<And>l. pc s' c = Won l \<longleftrightarrow> pc s c = Won l" "\<And>l. pc s' c = Rel l \<longleftrightarrow> pc s c = Rel l"
    and me: "noff (cpus s' c) = depth s' c" "irq_ok (cpus s' c) (want s' c)"
  shows "locks_inv s'"
proof -
  have "engaged s' d l = engaged s d l" for d l using same by (cases "d = c") (simp_all add: engaged_def)
  then have "lock_ok s' l = lock_ok s l" for l using same(1,3) by (intro lock_ok_frame) simp_all
  moreover have "cpu_ok s' d" for d
  proof (cases "d = c")
    case True
    have "cpu_ok s c" using inv by (simp add: locks_inv_def)
    then show ?thesis using True me same(3,5,6) by (simp add: cpu_ok_iff)
  next
    case False
    then have "cpu_ok s' d = cpu_ok s d" using same(3,4) by (intro cpu_ok_frame) simp_all
    then show ?thesis using inv by (simp add: locks_inv_def)
  qed
  ultimately show ?thesis using inv same(2) by (simp add: locks_inv_def)
qed

text \<open>A step of CPU \<open>c\<close> that touches one lock \<open>l\<close>.\<close>

lemma lock_change:
  assumes inv: "locks_inv s" and same: "panicking s' = panicking s" "pushes s' = pushes s" "want s' = want s"
    "\<And>j. j \<noteq> l \<Longrightarrow> lks s' j = lks s j"
    "\<And>d. d \<noteq> c \<Longrightarrow> cpus s' d = cpus s d \<and> pc s' d = pc s d \<and> inside s' d = inside s d"
    "\<And>j. j \<noteq> l \<Longrightarrow> (j \<in> inside s' c \<longleftrightarrow> j \<in> inside s c) \<and> (engaged s' c j \<longleftrightarrow> engaged s c j)"
    and me: "lock_ok s' l" "cpu_ok s' c"
  shows "locks_inv s'"
proof -
  have "lock_ok s' j" for j
  proof (cases "j = l")
    case False
    have "engaged s' d j = engaged s d j \<and> (j \<in> inside s' d \<longleftrightarrow> j \<in> inside s d)" for d
      using same(5) [of d] same(6) [OF False] by (cases "d = c") (blast, simp add: engaged_def)
    then have "lock_ok s' j = lock_ok s j" using same(4) [OF False] by (intro lock_ok_frame) simp_all
    then show ?thesis using inv by (simp add: locks_inv_def)
  qed (use me in simp)
  moreover have "cpu_ok s' d" for d
  proof (cases "d = c")
    case False
    then have "cpu_ok s' d = cpu_ok s d" using same by (intro cpu_ok_frame) simp_all
    then show ?thesis using inv by (simp add: locks_inv_def)
  qed (use me in simp)
  ultimately show ?thesis using inv same(1) by (simp add: locks_inv_def)
qed

lemma step_local_cases:
  assumes inv: "locks_inv s" and run: "pc s c = Run"
  shows "noff (cpus s c) = 0 \<Longrightarrow> locks_inv ((set_cpu c ((cpus s c)\<lparr>irq := v\<rparr>) s)\<lparr>want := (want s)(c := v)\<rparr>)"
    "locks_inv ((push_off_at f n c s)\<lparr>pushes := (pushes s)(c := pushes s c + 1)\<rparr>)"
    "pushes s c > 0 \<Longrightarrow> pop_off_at c s = Inr s' \<Longrightarrow> locks_inv (s'\<lparr>pushes := (pushes s)(c := pushes s c - 1)\<rparr>)"
    "j = Spin l \<or> j = Try l \<Longrightarrow> acquire_enter m f n c l s = Inr s' \<Longrightarrow> locks_inv (at c j s')"
proof -
  have ok: "noff (cpus s c) = depth s c" "irq_ok (cpus s c) (want s c)"
    using inv by (simp_all add: locks_inv_def cpu_ok_iff)
  show "locks_inv ((set_cpu c ((cpus s c)\<lparr>irq := v\<rparr>) s)\<lparr>want := (want s)(c := v)\<rparr>)" if "noff (cpus s c) = 0"
    using that ok by (intro local_step [OF inv, where c = c]) (simp_all add: set_cpu_def depth_def irq_ok_def)
  obtain k where k: "push_off_at f n c s = set_cpu c k s" "noff k = noff (cpus s c) + 1" "irq_ok k (want s c)"
    by (rule push_off_effect [OF ok(2)])
  show "locks_inv ((push_off_at f n c s)\<lparr>pushes := (pushes s)(c := pushes s c + 1)\<rparr>)"
    unfolding k(1) using k(2,3) ok run
    by (intro local_step [OF inv, where c = c]) (simp_all add: set_cpu_def depth_def)
  show "locks_inv (s'\<lparr>pushes := (pushes s)(c := pushes s c - 1)\<rparr>)"
    if p: "pushes s c > 0" "pop_off_at c s = Inr s'"
  proof -
    have "noff (cpus s c) \<ge> 1" using p(1) ok(1) by (simp add: depth_def)
    then obtain j where "pop_off_at c s = Inr (set_cpu c j s)" "noff j = noff (cpus s c) - 1" "irq_ok j (want s c)"
      by (rule pop_off_effect [OF ok(2)])
    then show ?thesis using p ok run
      by (intro local_step [OF inv, where c = c]) (auto simp: set_cpu_def depth_def of_nat_diff)
  qed
  show "locks_inv (at c j s')" if j: "j = Spin l \<or> j = Try l" "acquire_enter m f n c l s = Inr s'"
  proof -
    have "s' = set_cpu c k s" using j(2) k(1) by (simp add: acquire_enter_def Let_def)
    then show ?thesis using j(1) k(2,3) ok run
      by (intro local_step [OF inv, where c = c]) (auto simp: set_cpu_def depth_def at_def)
  qed
qed

lemma lock_step_inv: "lock_step s s' \<Longrightarrow> locks_inv s \<Longrightarrow> locks_inv s'"
proof (induction rule: lock_step.induct)
  case (irq_set s c v)
  then show ?case by (intro step_local_cases(1))
next
  case (push s c f n)
  then show ?case by (intro step_local_cases(2))
next
  case (pop s c s')
  then show ?case by (intro step_local_cases(3))
next
  case (acquire s c f n l s')
  then show ?case by (intro step_local_cases(4)) simp_all
next
  case (try_acquire s c f n l s')
  then show ?case by (intro step_local_cases(4)) simp_all
next
  case (swap_won s c l s')
  then have s': "s' = set_lk l ((lks s l)\<lparr>lk_locked := 1\<rparr>) s" "lk_locked (lks s l) = 0"
    by (simp_all add: atomic_swap_def)
  have ok: "lock_ok s l" "cpu_ok s c" using swap_won by (simp_all add: locks_inv_def)
  then have no: "\<not> engaged s d l" for d using s'(2) by (auto simp: lock_ok_def)
  show ?case
    by (rule lock_change [OF swap_won(3), where c = c and l = l])
      (use swap_won(1) no ok in \<open>auto simp: s'(1) at_def set_lk_def engaged_def lock_ok_def cpu_ok_def depth_def\<close>)
next
  case (swap_spin s c l v s')
  then have s': "s' = set_lk l ((lks s l)\<lparr>lk_locked := 1\<rparr>) s" "lk_locked (lks s l) \<noteq> 0"
    by (auto simp: atomic_swap_def)
  have ok: "lock_ok s l" "cpu_ok s c" using swap_spin by (simp_all add: locks_inv_def)
  have "engaged s' = engaged s" by (simp add: s'(1) set_lk_def engaged_def fun_eq_iff)
  then have "lock_ok s' l" using ok(1) s'(2) unfolding lock_ok_def by (simp add: s'(1) set_lk_def)
  moreover have "cpu_ok s' c" using ok(2) by (simp add: s'(1) set_lk_def cpu_ok_def depth_def)
  ultimately show ?case
    by (intro lock_change [OF swap_spin(4), where c = c and l = l]) (simp_all add: s'(1) set_lk_def engaged_def)
next
  case (swap_give_up s c l v s' s'')
  then have s': "s' = set_lk l ((lks s l)\<lparr>lk_locked := 1\<rparr>) s" "lk_locked (lks s l) \<noteq> 0"
    by (auto simp: atomic_swap_def)
  have ok: "lock_ok s l" "cpu_ok s c" using swap_give_up by (simp_all add: locks_inv_def)
  have "irq_ok (cpus s' c) (want s c)" "noff (cpus s' c) \<ge> 1"
    using ok(2) swap_give_up(1) by (simp_all add: s'(1) set_lk_def cpu_ok_iff depth_def)
  then obtain k where k: "pop_off_at c s' = Inr (set_cpu c k s')" "noff k = noff (cpus s' c) - 1" "irq_ok k (want s c)"
    by (rule pop_off_effect)
  then have s'': "s'' = set_cpu c k s'" using swap_give_up by simp
  let ?u = "at c Run s''"
  have "engaged ?u d j = engaged s d j" for d j
    using swap_give_up(1) by (simp add: s'' s'(1) set_lk_def set_cpu_def at_def engaged_def)
  then have "lock_ok ?u l" using ok(1) s'(2) unfolding lock_ok_def by (simp add: s'' s'(1) set_lk_def set_cpu_def at_def)
  moreover have "cpu_ok ?u c" using ok(2) k(2,3) swap_give_up(1)
    by (simp add: s'' s'(1) set_lk_def set_cpu_def at_def cpu_ok_iff depth_def)
  ultimately show ?case using \<open>\<And>d j. engaged ?u d j = engaged s d j\<close>
    by (intro lock_change [OF swap_give_up(5), where c = c and l = l])
      (simp_all add: s'' s'(1) set_lk_def set_cpu_def at_def)
next
  case (own s c l)
  have ok: "lock_ok s l" "cpu_ok s c" using own by (simp_all add: locks_inv_def)
  then have eng: "engaged s d l \<longleftrightarrow> d = c" for d using own(1) unfolding lock_ok_def engaged_def by metis
  have new: "l \<notin> inside s d" for d using eng [of d] own(1) ok(2) unfolding cpu_ok_def engaged_def by metis
  show ?case
    by (rule lock_change [OF own(2), where c = c and l = l])
      (use own(1) ok eng new in \<open>auto simp: at_def lk_own_def set_lk_def engaged_def lock_ok_def cpu_ok_iff depth_def\<close>)
next
  case (release s c l s')
  have ok: "lock_ok s l" "cpu_ok s c" "\<not> panicking s" using release by (simp_all add: locks_inv_def)
  then have h: "l \<in> inside s c" "s' = set_lk l ((lks s l)\<lparr>lk_cpu := None\<rparr>) s"
    using release(2) by (auto simp: release_enter_def holding_spinlock_def lock_ok_def)
  then have eng: "engaged s d l \<longleftrightarrow> d = c" for d using ok(1) unfolding lock_ok_def engaged_def by metis
  have fin: "finite (inside s c)" using ok(2) by (simp add: cpu_ok_def)
  have card: "int (card (inside s c - {l})) = int (card (inside s c)) - 1"
    using card_Suc_Diff1 [OF fin h(1)] by linarith
  show ?case
    by (rule lock_change [OF release(3), where c = c and l = l])
      (use release(1) ok eng h card in \<open>auto simp: at_def set_lk_def engaged_def lock_ok_def cpu_ok_iff depth_def\<close>)
next
  case (unlock s c l s')
  have ok: "lock_ok s l" "cpu_ok s c" using unlock by (simp_all add: locks_inv_def)
  then have eng: "engaged s d l \<longleftrightarrow> d = c" for d using unlock(1) unfolding lock_ok_def engaged_def by metis
  have new: "l \<notin> inside s d" for d using eng [of d] unlock(1) ok(2) unfolding cpu_ok_def engaged_def by metis
  let ?s1 = "set_lk l ((lks s l)\<lparr>lk_locked := 0\<rparr>) s"
  have "irq_ok (cpus ?s1 c) (want s c)" "noff (cpus ?s1 c) \<ge> 1"
    using ok(2) unlock(1) by (simp_all add: set_lk_def cpu_ok_iff depth_def)
  then obtain k where k: "pop_off_at c ?s1 = Inr (set_cpu c k ?s1)" "noff k = noff (cpus ?s1 c) - 1" "irq_ok k (want s c)"
    by (rule pop_off_effect)
  then have s': "s' = set_cpu c k ?s1" using unlock(2) by (simp add: release_exit_def)
  show ?case
    by (rule lock_change [OF unlock(3), where c = c and l = l])
      (use unlock(1) ok eng new k in \<open>auto simp: s' at_def set_lk_def set_cpu_def engaged_def lock_ok_def cpu_ok_iff depth_def\<close>)
qed

lemma lock_reach_inv: "lock_reach s \<Longrightarrow> locks_inv s"
  by (induction rule: lock_reach.induct) (auto intro: boot_inv lock_step_inv)

text \<open>C16: Mutual exclusion and its reach: in every interleaving of acquires, tries, releases and
  interrupt nesting on any number of CPUs, at most one CPU is inside a lock; while it is, it runs
  with interrupts off and is the CPU the lock names as its holder.\<close>

theorem spinlock_mutual_exclusion:
  assumes "lock_reach s" "l \<in> inside s c"
  shows "(\<forall>d. l \<in> inside s d \<longrightarrow> d = c) \<and> \<not> irq (cpus s c) \<and> holding_spinlock c l s"
proof -
  have inv: "locks_inv s" by (rule lock_reach_inv [OF assms(1)])
  then have l: "lock_ok s l" and ok: "cpu_ok s c" by (simp_all add: locks_inv_def)
  have "card (inside s c) > 0" using ok assms(2) by (auto simp: cpu_ok_def card_gt_0_iff)
  then have "noff (cpus s c) \<noteq> 0" using ok by (simp add: cpu_ok_def depth_def)
  then have "\<not> irq (cpus s c)" using ok by (simp add: cpu_ok_def)
  moreover have "holding_spinlock c l s"
    using l assms(2) by (auto simp: lock_ok_def holding_spinlock_def engaged_def)
  moreover have "d = c" if "l \<in> inside s d" for d using l that assms(2) unfolding lock_ok_def engaged_def by blast
  ultimately show ?thesis by blast
qed

text \<open>The assertions of the lock code fire exactly on misuse: an acquire or a try is refused
  exactly when the CPU is already inside the lock, a release exactly when it is not, and the
  \<open>pop_off\<close> that ends a release or a failed try never underflows and never finds interrupts on.
  A CPU that has left every lock and every \<open>push_off\<close> has its own interrupt state back.\<close>

theorem spinlock_assertions:
  assumes "lock_reach s"
  shows "((\<exists>s'. acquire_enter m f n c l s = Inr s') \<longleftrightarrow> l \<notin> inside s c) \<and>
    ((\<exists>s'. release_enter c l s = Inr s') \<longleftrightarrow> l \<in> inside s c) \<and>
    (pc s c = Rel l \<longrightarrow> (\<exists>s'. release_exit c l s = Inr s')) \<and>
    (pc s c = Try l \<longrightarrow> (\<exists>s'. pop_off_at c (snd (atomic_swap l 1 s)) = Inr s')) \<and>
    (pc s c = Run \<and> inside s c = {} \<and> pushes s c = 0 \<longrightarrow> irq (cpus s c) = want s c)"
proof (intro conjI impI)
  have inv: "locks_inv s" by (rule lock_reach_inv [OF assms])
  then have l: "lock_ok s l" and ok: "cpu_ok s c" and np: "\<not> panicking s" by (simp_all add: locks_inv_def)
  have hold: "holding_spinlock c l s \<longleftrightarrow> l \<in> inside s c"
    using l by (auto simp: lock_ok_def holding_spinlock_def engaged_def)
  show "(\<exists>s'. acquire_enter m f n c l s = Inr s') \<longleftrightarrow> l \<notin> inside s c"
    using hold np by (auto simp: acquire_enter_def push_off_at_def set_cpu_def holding_spinlock_def Let_def)
  show "(\<exists>s'. release_enter c l s = Inr s') \<longleftrightarrow> l \<in> inside s c" using hold np by (simp add: release_enter_def)
  have pop: "\<exists>s'. pop_off_at c t = Inr s'" if "cpus t = cpus s" "pc s c \<noteq> Run" for t
  proof (rule pop_off_effect [of t c "want s c"])
    show "irq_ok (cpus t c) (want s c)" "1 \<le> noff (cpus t c)"
      using ok that by (simp_all add: cpu_ok_iff depth_def)
  qed blast
  show "\<exists>s'. release_exit c l s = Inr s'" if "pc s c = Rel l"
    unfolding release_exit_def by (rule pop) (use that in \<open>simp_all add: set_lk_def\<close>)
  show "\<exists>s'. pop_off_at c (snd (atomic_swap l 1 s)) = Inr s'" if "pc s c = Try l"
    by (rule pop) (use that in \<open>simp_all add: atomic_swap_def set_lk_def\<close>)
  show "irq (cpus s c) = want s c" if "pc s c = Run \<and> inside s c = {} \<and> pushes s c = 0"
    using ok that by (simp add: cpu_ok_def depth_def)
qed

section \<open>One acquire\<close>

abbreviation lk0 :: lock_sys where "lk0 \<equiv> locks_boot (\<lambda>_. True) (\<lambda>_. ''kmem'')"

lemma first_acquire:
  "\<exists>s. lock_reach s \<and> inside s 2 = {7} \<and> pc s 2 = Run"
proof -
  obtain s1 where a: "acquire_enter acq_msg [] 0 2 7 lk0 = Inr s1" and s1: "s1 = push_off_at [] 0 2 lk0"
    by (simp add: acquire_enter_def holding_spinlock_def push_off_at_def set_cpu_def locks_boot_def Let_def)
  have "lock_reach (at 2 (Spin 7) s1)"
    using lock_reach.step [OF lock_reach.boot lock_step.acquire [OF _ a]] by (simp add: locks_boot_def)
  moreover obtain s2 where b: "atomic_swap 7 1 (at 2 (Spin 7) s1) = (0, s2)" "inside s2 = (\<lambda>_. {})"
    by (simp add: s1 atomic_swap_def at_def set_lk_def push_off_at_def set_cpu_def locks_boot_def Let_def)
  ultimately have "lock_reach (at 2 (Won 7) s2)"
    using lock_reach.step [OF _ lock_step.swap_won [of _ 2 7]] by (simp add: at_def)
  then have "lock_reach ((at 2 Run (lk_own 2 7 (at 2 (Won 7) s2)))\<lparr>inside := (inside (at 2 (Won 7) s2))
      (2 := insert 7 (inside (at 2 (Won 7) s2) 2))\<rparr>)" (is "lock_reach ?u")
    using lock_reach.step lock_step.own [of "at 2 (Won 7) s2" 2 7] by (simp add: at_def)
  then show ?thesis using b(2) by (intro exI [of _ ?u]) (simp add: at_def lk_own_def set_lk_def)
qed

theorem spinlock_mutual_exclusion_witness:
  "\<exists>s. lock_reach s \<and> {d. 7 \<in> inside s d} = {2} \<and> \<not> irq (cpus s 2)"
proof -
  obtain s where "lock_reach s" "inside s 2 = {7}" using first_acquire by blast
  then show ?thesis using spinlock_mutual_exclusion [of s 7 2] by auto
qed

theorem spinlock_assertions_witness:
  "\<exists>s. lock_reach s \<and> (\<exists>s'. release_enter 2 7 s = Inr s') \<and> (\<nexists>s'. acquire_enter acq_msg [] 0 2 7 s = Inr s')"
proof -
  obtain s where "lock_reach s" "inside s 2 = {7}" using first_acquire by blast
  then show ?thesis using spinlock_assertions [of s acq_msg "[]" 0 2 7] by auto
qed

end
