(* ===== verification/Kstring.thy ===== *)
theory Kstring
  imports Prelude
begin

text \<open>
  The string library (\<^verbatim>\<open>libkern/string.c\<close>) over a byte memory. Addresses are natural numbers: an
  object never straddles the end of the address space. The word-at-a-time loops of \<open>memcpy\<close> and
  \<open>memmove\<close> move eight bytes per step, exactly as the source does, and are compared with the
  one-line specification \<open>blit\<close>. Loops that scan for a terminator are partial: \<open>None\<close> is a scan that
  never ends.
\<close>

type_synonym mem = "nat \<Rightarrow> uint8"

section \<open>The library\<close>

definition store :: "mem \<Rightarrow> nat \<Rightarrow> uint8 \<Rightarrow> mem" where
  "store m a v = m(a := v)"

fun memset :: "mem \<Rightarrow> nat \<Rightarrow> uint8 \<Rightarrow> nat \<Rightarrow> mem" where
  "memset m dst c 0 = m"
| "memset m dst c (Suc n) = store (memset m dst c n) (dst + n) c"

text \<open>One 64-bit load and store, eight bytes at once.\<close>

definition move_word :: "mem \<Rightarrow> nat \<Rightarrow> nat \<Rightarrow> mem" where
  "move_word m d s = (\<lambda>a. if d \<le> a \<and> a < d + 8 then m (s + (a - d)) else m a)"

fun copy_head :: "mem \<Rightarrow> nat \<Rightarrow> nat \<Rightarrow> nat \<Rightarrow> mem \<times> nat \<times> nat \<times> nat" where
  "copy_head m d s 0 = (m, d, s, 0)"
| "copy_head m d s (Suc n) =
     (if d mod 8 \<noteq> 0 then copy_head (store m d (m s)) (d + 1) (s + 1) n else (m, d, s, Suc n))"

function copy_words :: "mem \<Rightarrow> nat \<Rightarrow> nat \<Rightarrow> nat \<Rightarrow> mem \<times> nat \<times> nat \<times> nat" where
  "copy_words m d s n =
     (if n \<ge> 8 then copy_words (move_word m d s) (d + 8) (s + 8) (n - 8) else (m, d, s, n))"
  by pat_completeness auto
termination by (relation "measure (\<lambda>(m, d, s, n). n)") auto

fun copy_tail :: "mem \<Rightarrow> nat \<Rightarrow> nat \<Rightarrow> nat \<Rightarrow> mem" where
  "copy_tail m d s 0 = m"
| "copy_tail m d s (Suc n) = copy_tail (store m d (m s)) (d + 1) (s + 1) n"

definition memcpy :: "mem \<Rightarrow> nat \<Rightarrow> nat \<Rightarrow> nat \<Rightarrow> mem" where
  "memcpy m dst src n =
     (let (m1, d1, s1, n1) = copy_head m dst src n;
          (m2, d2, s2, n2) = copy_words m1 d1 s1 n1
      in copy_tail m2 d2 s2 n2)"

text \<open>The backward direction: \<open>d\<close> and \<open>s\<close> are one past the bytes still to move.\<close>

fun back_head :: "mem \<Rightarrow> nat \<Rightarrow> nat \<Rightarrow> nat \<Rightarrow> mem \<times> nat \<times> nat \<times> nat" where
  "back_head m d s 0 = (m, d, s, 0)"
| "back_head m d s (Suc n) =
     (if d mod 8 \<noteq> 0 then back_head (store m (d - 1) (m (s - 1))) (d - 1) (s - 1) n else (m, d, s, Suc n))"

function back_words :: "mem \<Rightarrow> nat \<Rightarrow> nat \<Rightarrow> nat \<Rightarrow> mem \<times> nat \<times> nat \<times> nat" where
  "back_words m d s n =
     (if n \<ge> 8 then back_words (move_word m (d - 8) (s - 8)) (d - 8) (s - 8) (n - 8) else (m, d, s, n))"
  by pat_completeness auto
termination by (relation "measure (\<lambda>(m, d, s, n). n)") auto

fun back_tail :: "mem \<Rightarrow> nat \<Rightarrow> nat \<Rightarrow> nat \<Rightarrow> mem" where
  "back_tail m d s 0 = m"
| "back_tail m d s (Suc n) = back_tail (store m (d - 1) (m (s - 1))) (d - 1) (s - 1) n"

definition memmove :: "mem \<Rightarrow> nat \<Rightarrow> nat \<Rightarrow> nat \<Rightarrow> mem" where
  "memmove m dst src n =
     (if dst = src then m
      else if dst < src then
        (let (m1, d1, s1, n1) = copy_head m dst src n;
             (m2, d2, s2, n2) = copy_words m1 d1 s1 n1
         in copy_tail m2 d2 s2 n2)
      else
        (let (m1, d1, s1, n1) = back_head m (dst + n) (src + n) n;
             (m2, d2, s2, n2) = back_words m1 d1 s1 n1
         in back_tail m2 d2 s2 n2))"

fun memcmp :: "mem \<Rightarrow> nat \<Rightarrow> nat \<Rightarrow> nat \<Rightarrow> int" where
  "memcmp m a b 0 = 0"
| "memcmp m a b (Suc n) =
     (if m a \<noteq> m b then (if m a < m b then -1 else 1) else memcmp m (a + 1) (b + 1) n)"

text \<open>\<open>strlen\<close> counts in a 32-bit \<open>uint\<close> and returns it as \<open>uint64\<close>.\<close>

partial_function (option) strlen_loop :: "mem \<Rightarrow> nat \<Rightarrow> uint32 \<Rightarrow> uint32 option" where
  "strlen_loop m str len = (if m (str + unat len) \<noteq> 0 then strlen_loop m str (len + 1) else Some len)"

definition strlen :: "mem \<Rightarrow> nat \<Rightarrow> uint64 option" where
  "strlen m str = map_option ucast (strlen_loop m str 0)"

fun strncpy_copy :: "mem \<Rightarrow> nat \<Rightarrow> nat \<Rightarrow> nat \<Rightarrow> mem \<times> nat \<times> nat" where
  "strncpy_copy m d s 0 = (m, d, 0)"
| "strncpy_copy m d s (Suc n) =
     (if m s \<noteq> 0 then strncpy_copy (store m d (m s)) (d + 1) (s + 1) n else (m, d, Suc n))"

fun zero_fill :: "mem \<Rightarrow> nat \<Rightarrow> nat \<Rightarrow> mem" where
  "zero_fill m d 0 = m"
| "zero_fill m d (Suc n) = zero_fill (store m d 0) (d + 1) n"

definition strncpy :: "mem \<Rightarrow> nat \<Rightarrow> nat \<Rightarrow> nat \<Rightarrow> mem" where
  "strncpy m dst src n = (let (m1, d, k) = strncpy_copy m dst src n in zero_fill m1 d k)"

partial_function (option) strcmp :: "mem \<Rightarrow> nat \<Rightarrow> nat \<Rightarrow> int option" where
  "strcmp m a b =
     (if m a = m b then if m a = 0 then Some 0 else strcmp m (a + 1) (b + 1)
      else Some (if m a < m b then -1 else 1))"

fun strncmp :: "mem \<Rightarrow> nat \<Rightarrow> nat \<Rightarrow> nat \<Rightarrow> int" where
  "strncmp m a b 0 = 0"
| "strncmp m a b (Suc n) =
     (if m a \<noteq> m b then (if m a < m b then -1 else 1)
      else if m a = 0 then 0 else strncmp m (a + 1) (b + 1) n)"

declare copy_words.simps [simp del] back_words.simps [simp del]

section \<open>Copies\<close>

definition blit :: "mem \<Rightarrow> nat \<Rightarrow> nat \<Rightarrow> nat \<Rightarrow> mem" where
  "blit m d s n = (\<lambda>a. if d \<le> a \<and> a < d + n then m (s + (a - d)) else m a)"

lemma memset_eq: "memset m d c n = (\<lambda>a. if d \<le> a \<and> a < d + n then c else m a)"
  by (induction n) (auto simp: fun_eq_iff store_def)

lemma blit_0 [simp]: "blit m d s 0 = m"
  by (auto simp: blit_def fun_eq_iff)

lemma move_word_blit: "move_word m d s = blit m d s 8"
  by (simp add: move_word_def blit_def)

lemma byte_blit: "store m d (m s) = blit m d s 1"
  by (auto simp: blit_def store_def fun_eq_iff le_less_Suc_eq)

text \<open>Moving the first \<open>k\<close> bytes and then the rest is moving them all, when reading stays ahead of writing.\<close>

lemma blit_split:
  assumes "d \<le> s \<or> s + n \<le> d" "k \<le> n"
  shows "blit (blit m d s k) (d + k) (s + k) (n - k) = blit m d s n"
  using assms by (auto simp: blit_def fun_eq_iff)

lemma blit_split_back:
  assumes "s \<le> d" "k \<le> n"
  shows "blit (blit m (d + (n - k)) (s + (n - k)) k) d s (n - k) = blit m d s n"
  using assms by (auto simp: blit_def fun_eq_iff)

lemma copy_head_spec:
  assumes "copy_head m d s n = (m', d', s', n')" "d \<le> s \<or> s + n \<le> d"
  shows "\<exists>k \<le> n. m' = blit m d s k \<and> d' = d + k \<and> s' = s + k \<and> n' = n - k"
  using assms
proof (induction m d s n rule: copy_head.induct)
  case (2 m d s n)
  show ?case
  proof (cases "d mod 8 = 0")
    case True
    with 2 show ?thesis by (intro exI [of _ 0]) simp
  next
    case False
    then obtain k where k: "k \<le> n" "m' = blit (store m d (m s)) (d + 1) (s + 1) k" "d' = d + 1 + k" "s' = s + 1 + k" "n' = n - k"
      using 2(1) [OF False] 2(2,3) False by auto
    have "blit (blit m d s 1) (d + 1) (s + 1) (Suc k - 1) = blit m d s (Suc k)"
      using 2(3) k(1) by (intro blit_split) auto
    then show ?thesis using k by (intro exI [of _ "Suc k"]) (simp add: byte_blit)
  qed
qed simp

lemma copy_words_spec:
  assumes "copy_words m d s n = (m', d', s', n')" "d \<le> s \<or> s + n \<le> d"
  shows "\<exists>k \<le> n. m' = blit m d s k \<and> d' = d + k \<and> s' = s + k \<and> n' = n - k"
  using assms
proof (induction m d s n rule: copy_words.induct)
  case (1 m d s n)
  show ?case
  proof (cases "n \<ge> 8")
    case True
    then have "copy_words (move_word m d s) (d + 8) (s + 8) (n - 8) = (m', d', s', n')"
      using 1(2) by (subst (asm) copy_words.simps) simp
    then obtain k where k: "k \<le> n - 8" "m' = blit (move_word m d s) (d + 8) (s + 8) k" "d' = d + 8 + k"
      "s' = s + 8 + k" "n' = n - 8 - k" using 1(1) [OF True] 1(3) True by auto
    have "blit (blit m d s 8) (d + 8) (s + 8) (8 + k - 8) = blit m d s (8 + k)"
      using 1(3) k(1) True by (intro blit_split) auto
    then show ?thesis using k True by (intro exI [of _ "8 + k"]) (simp add: move_word_blit)
  next
    case False
    then show ?thesis using 1(2) by (subst (asm) copy_words.simps) auto
  qed
qed

lemma copy_tail_spec:
  assumes "d \<le> s \<or> s + n \<le> d"
  shows "copy_tail m d s n = blit m d s n"
  using assms
proof (induction m d s n rule: copy_tail.induct)
  case (2 m d s n)
  then have "copy_tail m d s (Suc n) = blit (blit m d s 1) (d + 1) (s + 1) (Suc n - 1)"
    by (simp add: byte_blit del: One_nat_def) auto
  also have "\<dots> = blit m d s (Suc n)" using 2(2) by (intro blit_split) auto
  finally show ?case .
qed simp

lemma forward_copy:
  assumes "d \<le> s \<or> s + n \<le> d"
  shows "(let (m1, d1, s1, n1) = copy_head m d s n; (m2, d2, s2, n2) = copy_words m1 d1 s1 n1
      in copy_tail m2 d2 s2 n2) = blit m d s n"
proof -
  obtain m1 d1 s1 n1 where h: "copy_head m d s n = (m1, d1, s1, n1)" by (metis prod_cases4)
  then obtain k where k: "k \<le> n" "m1 = blit m d s k" "d1 = d + k" "s1 = s + k" "n1 = n - k"
    using copy_head_spec [OF h assms] by blast
  obtain m2 d2 s2 n2 where w: "copy_words m1 d1 s1 n1 = (m2, d2, s2, n2)" by (metis prod_cases4)
  have c1: "d1 \<le> s1 \<or> s1 + n1 \<le> d1" using assms k by auto
  then obtain j where j: "j \<le> n1" "m2 = blit m1 d1 s1 j" "d2 = d1 + j" "s2 = s1 + j" "n2 = n1 - j"
    using copy_words_spec [OF w] by blast
  have "copy_tail m2 d2 s2 n2 = blit m2 d2 s2 n2" using c1 j by (intro copy_tail_spec) auto
  also have "\<dots> = blit m1 d1 s1 n1" unfolding j using c1 j(1) by (intro blit_split) auto
  also have "\<dots> = blit m d s n" unfolding k using assms k(1) by (intro blit_split) auto
  finally show ?thesis using h w by simp
qed

lemma back_head_spec:
  assumes "back_head m (d + n) (s + n) n = (m', d', s', n')" "s \<le> d"
  shows "\<exists>k \<le> n. m' = blit m (d + (n - k)) (s + (n - k)) k \<and> d' = d + (n - k) \<and> s' = s + (n - k) \<and> n' = n - k"
  using assms(1)
proof (induction n arbitrary: m)
  case (Suc n)
  show ?case
  proof (cases "(d + Suc n) mod 8 = 0")
    case True
    then have "(m', d', s', n') = (m, d + Suc n, s + Suc n, Suc n)" using Suc.prems by simp
    then show ?thesis by (intro exI [of _ 0]) simp
  next
    case False
    let ?m = "store m (d + n) (m (s + n))"
    have "back_head ?m (d + n) (s + n) n = (m', d', s', n')" using Suc.prems False by simp
    then obtain k where k: "k \<le> n" "m' = blit ?m (d + (n - k)) (s + (n - k)) k" "d' = d + (n - k)"
      "s' = s + (n - k)" "n' = n - k" using Suc.IH by blast
    have "?m = blit m (d + (n - k) + (Suc k - 1)) (s + (n - k) + (Suc k - 1)) 1" using k(1) by (simp add: byte_blit)
    then have "m' = blit m (d + (n - k)) (s + (n - k)) (Suc k)"
      using blit_split_back [of "s + (n - k)" "d + (n - k)" 1 "Suc k" m] assms(2) k(2) by simp
    then show ?thesis using k by (intro exI [of _ "Suc k"]) simp
  qed
qed simp

lemma back_words_spec:
  assumes "back_words m (d + n) (s + n) n = (m', d', s', n')" "s \<le> d"
  shows "\<exists>k \<le> n. m' = blit m (d + (n - k)) (s + (n - k)) k \<and> d' = d + (n - k) \<and> s' = s + (n - k) \<and> n' = n - k"
  using assms(1)
proof (induction n arbitrary: m rule: less_induct)
  case (less n)
  show ?case
  proof (cases "n \<ge> 8")
    case True
    let ?m = "move_word m (d + (n - 8)) (s + (n - 8))"
    have e: "d + n - 8 = d + (n - 8)" "s + n - 8 = s + (n - 8)" using True by simp_all
    have "back_words ?m (d + (n - 8)) (s + (n - 8)) (n - 8) = (m', d', s', n')"
      using less.prems unfolding back_words.simps [of m "d + n" "s + n" n] e by (simp only: True if_True)
    then obtain k where k: "k \<le> n - 8" "m' = blit ?m (d + (n - 8 - k)) (s + (n - 8 - k)) k" "d' = d + (n - 8 - k)"
      "s' = s + (n - 8 - k)" "n' = n - 8 - k" using less.IH [of "n - 8"] True by force
    define p where "p = n - 8 - k"
    have p: "n - 8 = p + k" "n - (8 + k) = p" "n - 8 - k = p" "n = p + (k + 8)" using k(1) True by (simp_all add: p_def)
    have "?m = blit m (d + p + k) (s + p + k) 8" unfolding p(1) move_word_blit by (simp only: add.assoc)
    then have "m' = blit (blit m (d + p + k) (s + p + k) 8) (d + p) (s + p) k" using k(2) unfolding p(3) by simp
    also have "\<dots> = blit m (d + p) (s + p) (8 + k)"
      using blit_split_back [of "s + p" "d + p" 8 "8 + k" m] assms(2) by simp
    finally show ?thesis using k(3-5) unfolding p(3) by (intro exI [of _ "8 + k"]) (simp add: p(2) p(4))
  next
    case False
    then show ?thesis using less.prems by (subst (asm) back_words.simps) auto
  qed
qed

lemma back_tail_spec: "s \<le> d \<Longrightarrow> back_tail m (d + n) (s + n) n = blit m d s n"
proof (induction n arbitrary: m)
  case (Suc n)
  have "back_tail m (d + Suc n) (s + Suc n) (Suc n) = blit (blit m (d + n) (s + n) 1) d s n"
    using Suc by (simp add: byte_blit)
  also have "\<dots> = blit m d s (Suc n)" using blit_split_back [of s d 1 "Suc n" m] Suc.prems by simp
  finally show ?case .
qed simp

lemma backward_copy:
  assumes "s \<le> d"
  shows "(let (m1, d1, s1, n1) = back_head m (d + n) (s + n) n; (m2, d2, s2, n2) = back_words m1 d1 s1 n1
      in back_tail m2 d2 s2 n2) = blit m d s n"
proof -
  obtain m1 d1 s1 n1 where h: "back_head m (d + n) (s + n) n = (m1, d1, s1, n1)" by (metis prod_cases4)
  then obtain k where k: "k \<le> n" "m1 = blit m (d + (n - k)) (s + (n - k)) k" "d1 = d + (n - k)" "s1 = s + (n - k)" "n1 = n - k"
    using back_head_spec [OF h assms] by blast
  obtain m2 d2 s2 n2 where w: "back_words m1 d1 s1 n1 = (m2, d2, s2, n2)" by (metis prod_cases4)
  have "back_words m1 (d + n1) (s + n1) n1 = (m2, d2, s2, n2)" using w k(3-5) by simp
  then obtain j where j: "j \<le> n1" "m2 = blit m1 (d + (n1 - j)) (s + (n1 - j)) j" "d2 = d + (n1 - j)"
    "s2 = s + (n1 - j)" "n2 = n1 - j" using back_words_spec [OF _ assms] by blast
  have "back_tail m2 d2 s2 n2 = blit m2 d s n2" unfolding j(3,4) j(5) [symmetric] by (rule back_tail_spec [OF assms])
  also have "\<dots> = blit m1 d s n1" unfolding j(2,5) by (rule blit_split_back [OF assms j(1)])
  also have "\<dots> = blit m d s n" unfolding k(2,5) by (rule blit_split_back [OF assms k(1)])
  finally show ?thesis using h w by simp
qed

text \<open>C20: \<open>memmove\<close> moves the \<open>n\<close> bytes as they were before the call, for every overlap, every
  alignment and every length, although it copies words forward or backward in place; \<open>memcpy\<close> does
  the same whenever the ranges do not overlap. No other byte changes.\<close>

theorem memmove_memcpy_correct:
  "memmove m d s n = blit m d s n \<and> (d + n \<le> s \<or> s + n \<le> d \<longrightarrow> memcpy m d s n = blit m d s n)"
proof
  show "memmove m d s n = blit m d s n"
  proof (cases "d = s")
    case True
    then show ?thesis by (simp add: memmove_def blit_def fun_eq_iff)
  next
    case False
    then show ?thesis unfolding memmove_def using forward_copy [of d s n m] backward_copy [of s d m n] by auto
  qed
  show "d + n \<le> s \<or> s + n \<le> d \<longrightarrow> memcpy m d s n = blit m d s n"
    unfolding memcpy_def using forward_copy [of d s n m] by auto
qed

theorem memmove_memcpy_correct_witness:
  "memmove (\<lambda>a. of_nat a) 3 1 20 = blit (\<lambda>a. of_nat a) 3 1 20 \<and>
   memcpy (\<lambda>a. of_nat a) 30 1 20 = blit (\<lambda>a. of_nat a) 30 1 20"
  using memmove_memcpy_correct [of "\<lambda>a. of_nat a" 3 1 20] memmove_memcpy_correct [of "\<lambda>a. of_nat a" 30 1 20] by simp

section \<open>Strings\<close>

text \<open>A string of length \<open>k\<close> at \<open>a\<close>.\<close>

definition cstr :: "mem \<Rightarrow> nat \<Rightarrow> nat \<Rightarrow> bool" where
  "cstr m a k \<longleftrightarrow> m (a + k) = 0 \<and> (\<forall>i < k. m (a + i) \<noteq> 0)"

definition bytes_at :: "mem \<Rightarrow> nat \<Rightarrow> nat \<Rightarrow> uint8 list" where
  "bytes_at m a k = map (\<lambda>i. m (a + i)) [0..<k]"

lemma bytes_at_simps [simp]:
  "bytes_at m a 0 = []" "bytes_at m a (Suc k) = m a # bytes_at m (Suc a) k" "length (bytes_at m a k) = k"
proof -
  show "bytes_at m a (Suc k) = m a # bytes_at m (Suc a) k"
    unfolding bytes_at_def upt_conv_Cons [OF zero_less_Suc] map_Suc_upt [symmetric] list.map by simp
qed (simp_all add: bytes_at_def)

lemma cstr_Suc: "cstr m a (Suc k) \<longleftrightarrow> m a \<noteq> 0 \<and> cstr m (Suc a) k"
  by (auto simp: cstr_def less_Suc_eq_0_disj)

lemma strlen_loop_eq:
  assumes "cstr m a k" "k < 2 ^ 32" "unat len \<le> k"
  shows "strlen_loop m a len = Some (of_nat k)"
  using assms(3)
proof (induction "k - unat len" arbitrary: len)
  case 0
  then have "unat len = k" by simp
  then have "len = of_nat k" by (metis of_nat_unat ucast_id)
  then show ?case using assms(1) \<open>unat len = k\<close> by (subst strlen_loop.simps) (simp add: cstr_def)
next
  case (Suc j)
  then have lt: "unat len < k" by simp
  have u: "unat (len + 1) = unat len + 1" using lt assms(2) by (simp add: unat_add_no_wrap)
  have "strlen_loop m a (len + 1) = Some (of_nat k)" using Suc lt u by (intro Suc.hyps(1)) simp_all
  moreover have "m (a + unat len) \<noteq> 0" using assms(1) lt by (simp add: cstr_def)
  ultimately show ?case by (subst strlen_loop.simps) simp
qed

lemma strcmp_eq:
  assumes "cstr m a k" "cstr m b j"
  shows "strcmp m a b = Some (if bytes_at m a k = bytes_at m b j then 0
    else if (bytes_at m a k, bytes_at m b j) \<in> lexord {(x, y). x < y} then -1 else 1)"
  using assms
proof (induction k arbitrary: a b j)
  case 0
  then show ?case by (cases j) (subst strcmp.simps; auto simp: cstr_def word_gt_0)+
next
  case (Suc k)
  note kS = Suc
  show ?case
  proof (cases j)
    case 0
    then show ?thesis using Suc.prems by (subst strcmp.simps) (auto simp: cstr_def)
  next
    case (Suc i)
    then show ?thesis using kS(1) [of "Suc a" "Suc b" i] kS(2,3) by (subst strcmp.simps) (auto simp: cstr_Suc)
  qed
qed

lemma memcmp_0_iff: "memcmp m a b n = 0 \<longleftrightarrow> bytes_at m a n = bytes_at m b n"
  by (induction m a b n rule: memcmp.induct) simp_all

lemma strncmp_0_iff:
  "strncmp m a b n = 0 \<longleftrightarrow> takeWhile (\<lambda>c. c \<noteq> 0) (bytes_at m a n) = takeWhile (\<lambda>c. c \<noteq> 0) (bytes_at m b n)"
  by (induction m a b n rule: strncmp.induct) auto

lemma zero_fill_eq: "zero_fill m d n = (\<lambda>a. if d \<le> a \<and> a < d + n then 0 else m a)"
proof (induction n arbitrary: m d)
  case (Suc n)
  show ?case unfolding zero_fill.simps Suc.IH by (auto simp: fun_eq_iff store_def)
qed (auto simp: fun_eq_iff)

lemma strncpy_copy_spec:
  assumes "d + n \<le> s \<or> s + n \<le> d" "k = length (takeWhile (\<lambda>c. c \<noteq> 0) (bytes_at m s n))"
  shows "strncpy_copy m d s n = (blit m d s k, d + k, n - k)"
  using assms
proof (induction m d s n arbitrary: k rule: strncpy_copy.induct)
  case (2 m d s n)
  show ?case
  proof (cases "m s = 0")
    case True
    then show ?thesis using 2(3) by simp
  next
    case False
    have same: "bytes_at (store m d (m s)) (Suc s) n = bytes_at m (Suc s) n"
      unfolding bytes_at_def by (rule map_cong) (use 2(2) in \<open>auto simp: store_def\<close>)
    define j where "j = length (takeWhile (\<lambda>c. c \<noteq> 0) (bytes_at m (Suc s) n))"
    have k: "k = Suc j" using 2(3) False by (simp add: j_def)
    have "strncpy_copy (store m d (m s)) (d + 1) (s + 1) n = (blit (store m d (m s)) (d + 1) (s + 1) j, d + 1 + j, n - j)"
      using 2(1) [OF False, of j] 2(2) by (simp add: same j_def) auto
    moreover have "blit (store m d (m s)) (d + 1) (s + 1) j = blit m d s k"
    proof -
      have "j \<le> n" using length_takeWhile_le [of "\<lambda>c. c \<noteq> 0" "bytes_at m (Suc s) n"] by (simp add: j_def)
      then show ?thesis using blit_split [of d s "Suc j" 1 m] 2(2) by (simp add: byte_blit k) auto
    qed
    ultimately show ?thesis using False k by simp
  qed
qed simp

text \<open>\<open>strncpy\<close> copies the string up to its terminator or up to \<open>n\<close> bytes, whichever comes first,
  and zeroes the rest of the \<open>n\<close> bytes; nothing outside them changes.\<close>

theorem strncpy_correct:
  assumes "d + n \<le> s \<or> s + n \<le> d"
  shows "strncpy m d s n = (\<lambda>a. if d \<le> a \<and> a < d + n then
      (if a - d < length (takeWhile (\<lambda>c. c \<noteq> 0) (bytes_at m s n)) then m (s + (a - d)) else 0) else m a)"
proof -
  define k where "k = length (takeWhile (\<lambda>c. c \<noteq> 0) (bytes_at m s n))"
  have "k \<le> n" using length_takeWhile_le [of "\<lambda>c. c \<noteq> 0" "bytes_at m s n"] by (simp add: k_def)
  then show ?thesis
    unfolding strncpy_def strncpy_copy_spec [OF assms k_def] k_def [symmetric]
    by (auto simp: zero_fill_eq blit_def fun_eq_iff)
qed

theorem strncpy_correct_witness:
  "strncpy (\<lambda>a. if a < 4 then 65 else 0) 100 0 8 = (\<lambda>a. if 100 \<le> a \<and> a < 108 then (if a - 100 < 4 then 65 else 0)
     else if a < 4 then 65 else 0)"
proof -
  have "length (takeWhile (\<lambda>c. c \<noteq> 0) (bytes_at (\<lambda>a. if a < 4 then 65 else 0) 0 8)) = 4"
    by code_simp
  with strncpy_correct [of 100 8 0 "\<lambda>a. if a < 4 then 65 else 0"] show ?thesis by (auto simp: fun_eq_iff)
qed

text \<open>On terminated strings the scans end with the right answer: \<open>strlen\<close> returns the length (below
  \<open>2\<^sup>3\<^sup>2\<close>, its counter's width), \<open>strcmp\<close> the sign of the lexicographic order of the bytes as unsigned
  numbers, and \<open>memcmp\<close> and \<open>strncmp\<close> return 0 exactly on equal ranges and equal prefixes.\<close>

theorem string_scans_correct:
  assumes "cstr m a k" "cstr m b j" "k < 2 ^ 32"
  shows "strlen m a = Some (of_nat k) \<and>
    strcmp m a b = Some (if bytes_at m a k = bytes_at m b j then 0
      else if (bytes_at m a k, bytes_at m b j) \<in> lexord {(x, y). x < y} then -1 else 1) \<and>
    (memcmp m a b n = 0 \<longleftrightarrow> bytes_at m a n = bytes_at m b n) \<and>
    (strncmp m a b n = 0 \<longleftrightarrow>
       takeWhile (\<lambda>c. c \<noteq> 0) (bytes_at m a n) = takeWhile (\<lambda>c. c \<noteq> 0) (bytes_at m b n))"
proof -
  have "strlen m a = Some (ucast (of_nat k :: uint32))"
    using strlen_loop_eq [OF assms(1,3), of 0] by (simp add: strlen_def)
  moreover have "(ucast (of_nat k :: uint32) :: uint64) = of_nat k"
  proof -
    have "unat (ucast (of_nat k :: uint32) :: uint64) = k"
      using assms(3) by (simp add: unsigned_ucast_eq unat_of_nat take_bit_nat_eq_self)
    then show ?thesis by (metis of_nat_unat ucast_id)
  qed
  ultimately show ?thesis using strcmp_eq [OF assms(1,2)] memcmp_0_iff strncmp_0_iff by simp
qed

theorem string_scans_correct_witness:
  "strlen (\<lambda>a. if a = 2 then 0 else 9) 0 = Some 2 \<and> strcmp (\<lambda>a. if a = 2 then 0 else 9) 0 1 = Some 1"
proof -
  let ?m = "(\<lambda>a. if a = 2 then 0 else 9) :: mem"
  have "cstr ?m 0 2" "cstr ?m 1 1" by (auto simp: cstr_def)
  from string_scans_correct [OF this, of 0] show ?thesis
    unfolding bytes_at_def by (simp add: upt_rec)
qed

end
