(* ===== verification/Fmt.thy ===== *)
theory Fmt
  imports Prelude
begin

text \<open>
  The kernel's formatter (\<^verbatim>\<open>libkern/fmt.c\<close>). A format string is the list of its bytes without the
  terminator; the variadic arguments are a list of register values and strings. The buffer is a list
  of \<open>size\<close> bytes and a position that may run past it, as the pointer \<open>str\<close> does. Taking an argument
  that is not there, or of the wrong kind, and reading past the end of the format are \<open>Fault\<close>.
  The second half gives the text a format denotes with no buffer in sight, and compares.
\<close>

section \<open>The formatter\<close>

definition FMT_ALT :: uint8 where [kdefs]: "FMT_ALT = 0x01"
definition FMT_ZERO :: uint8 where [kdefs]: "FMT_ZERO = 0x02"
definition FMT_LONG :: uint8 where [kdefs]: "FMT_LONG = 0x04"

definition ch :: "char \<Rightarrow> uint8" where "ch c = of_nat (of_char c)"

record fmt_spec =
  fs_base :: uint8
  fs_flags :: uint8
  fs_width :: "16 word"

datatype vararg = Reg uint64 | Str "uint8 list option"

record outbuf =
  ob :: "uint8 list"
  pos :: nat

definition digit :: "uint64 \<Rightarrow> uint8" where
  "digit d = map ch ''0123456789abcdef'' ! unat d"

definition emit_char :: "uint8 \<Rightarrow> outbuf \<Rightarrow> outbuf" where
  "emit_char c out = \<lparr>ob = (if pos out < length (ob out) then (ob out)[pos out := c] else ob out), pos = pos out + 1\<rparr>"

fun emit_str :: "uint8 list \<Rightarrow> outbuf \<Rightarrow> outbuf" where
  "emit_str [] out = out"
| "emit_str (c # s) out = emit_str s (emit_char c out)"

text \<open>The digits go into \<open>tmp[32]\<close>, least significant first; \<open>n\<close> counts them.\<close>

function num_digits :: "uint64 \<Rightarrow> uint64 \<Rightarrow> nat \<Rightarrow> uint8 list" where
  "num_digits base v n =
     digit (v mod base) # (if Suc n < 32 \<and> v div base \<noteq> 0 then num_digits base (v div base) (Suc n) else [])"
  by pat_completeness auto
termination by (relation "measure (\<lambda>(base, v, n). 32 - n)") auto

declare num_digits.simps [simp del]

definition num_prefix :: "bool \<Rightarrow> fmt_spec \<Rightarrow> uint8 list" where
  "num_prefix neg spec =
     (if neg then [ch CHR ''-'']
      else if fs_flags spec AND FMT_ALT \<noteq> 0 then
        ch CHR ''0'' # (if fs_base spec = 16 then [ch CHR ''x''] else [])
      else [])"

definition emit_num :: "uint64 \<Rightarrow> bool \<Rightarrow> fmt_spec \<Rightarrow> outbuf \<Rightarrow> outbuf" where
  "emit_num v neg spec out =
     (let tmp = num_digits (ucast (fs_base spec)) v 0; pfx = num_prefix neg spec;
          pad = nat (sint (fs_width spec) - int (length tmp) - int (length pfx));
          o1 = (if fs_flags spec AND FMT_ZERO = 0 then emit_str (replicate pad (ch CHR '' '')) out else out);
          o2 = emit_str pfx o1;
          o3 = (if fs_flags spec AND FMT_ZERO \<noteq> 0 then emit_str (replicate pad (ch CHR ''0'')) o2 else o2)
      in emit_str (rev tmp) o3)"

fun decode_flags :: "uint8 list \<Rightarrow> fmt_spec \<Rightarrow> uint8 list \<times> fmt_spec" where
  "decode_flags [] spec = ([], spec)"
| "decode_flags (c # f) spec =
     (if c = ch CHR ''#'' then decode_flags f (spec\<lparr>fs_flags := fs_flags spec OR FMT_ALT\<rparr>)
      else if c = ch CHR ''0'' then decode_flags f (spec\<lparr>fs_flags := fs_flags spec OR FMT_ZERO\<rparr>)
      else (c # f, spec))"

fun decode_width :: "uint8 list \<Rightarrow> fmt_spec \<Rightarrow> uint8 list \<times> fmt_spec" where
  "decode_width [] spec = ([], spec)"
| "decode_width (c # f) spec =
     (if c \<ge> ch CHR ''1'' \<and> c \<le> ch CHR ''9'' then
        decode_width f (spec\<lparr>fs_width := fs_width spec * 10 + (ucast c - ucast (ch CHR ''0''))\<rparr>)
      else (c # f, spec))"

definition decode :: "uint8 list \<Rightarrow> uint8 list \<times> fmt_spec" where
  "decode f =
     (let (f1, s1) = decode_flags f \<lparr>fs_base = 10, fs_flags = 0, fs_width = 0\<rparr>;
          (f2, s2) = decode_width f1 s1 in
      case f2 of [] \<Rightarrow> (f2, s2)
      | c # f3 \<Rightarrow> if c = ch CHR ''l'' then (f3, s2\<lparr>fs_flags := fs_flags s2 OR FMT_LONG\<rparr>) else (f2, s2))"

fun va_reg :: "vararg list \<Rightarrow> (uint64 \<times> vararg list) res" where
  "va_reg (Reg w # ap) = Inr (w, ap)"
| "va_reg _ = Inl Fault"

fun va_str :: "vararg list \<Rightarrow> (uint8 list option \<times> vararg list) res" where
  "va_str (Str s # ap) = Inr (s, ap)"
| "va_str _ = Inl Fault"

text \<open>\<open>va_arg(ap, int)\<close> and \<open>va_arg(ap, uint)\<close> take the low 32 bits of the register.\<close>

definition signed_arg :: "fmt_spec \<Rightarrow> uint64 \<Rightarrow> uint64" where
  "signed_arg spec w = (if fs_flags spec AND FMT_LONG \<noteq> 0 then w else scast (ucast w :: 32 word))"

definition unsigned_arg :: "fmt_spec \<Rightarrow> uint64 \<Rightarrow> uint64" where
  "unsigned_arg spec w = (if fs_flags spec AND FMT_LONG \<noteq> 0 then w else ucast (ucast w :: 32 word))"

definition convert :: "uint8 \<Rightarrow> fmt_spec \<Rightarrow> vararg list \<Rightarrow> outbuf \<Rightarrow> (vararg list \<times> outbuf) res" where
  "convert c spec ap out =
     (if c = ch CHR ''d'' then
        rbind (va_reg ap) (\<lambda>(w, ap'). let sv = signed_arg spec w; neg = sint sv < 0 in
          Inr (ap', emit_num (if neg then - sv else sv) neg spec out))
      else if c = ch CHR ''x'' \<or> c = ch CHR ''o'' \<or> c = ch CHR ''u'' then
        rbind (va_reg ap) (\<lambda>(w, ap').
          let b = (if c = ch CHR ''x'' then 16 else if c = ch CHR ''o'' then 8 else fs_base spec) in
          Inr (ap', emit_num (unsigned_arg spec w) False (spec\<lparr>fs_base := b\<rparr>) out))
      else if c = ch CHR ''p'' then
        rbind (va_reg ap) (\<lambda>(w, ap'). Inr (ap', emit_num w False
          (spec\<lparr>fs_base := 16, fs_flags := fs_flags spec OR (FMT_ALT OR FMT_ZERO), fs_width := 18\<rparr>) out))
      else if c = ch CHR ''s'' then
        rbind (va_str ap) (\<lambda>(s, ap').
          Inr (ap', emit_str (case s of None \<Rightarrow> map ch ''(null)'' | Some t \<Rightarrow> t) out))
      else if c = ch CHR ''c'' then
        rbind (va_reg ap) (\<lambda>(w, ap'). Inr (ap', emit_char (ucast w) out))
      else if c = ch CHR ''%'' then Inr (ap, emit_char (ch CHR ''%'') out)
      else Inr (ap, emit_char c (emit_char (ch CHR ''%'') out)))"

lemma decode_flags_length: "length (fst (decode_flags f s)) \<le> length f"
  by (induction f s rule: decode_flags.induct) auto

lemma decode_width_length: "length (fst (decode_width f s)) \<le> length f"
  by (induction f s rule: decode_width.induct) auto

lemma decode_length: "length (fst (decode f)) \<le> length f"
proof -
  obtain f1 s1 where a: "decode_flags f \<lparr>fs_base = 10, fs_flags = 0, fs_width = 0\<rparr> = (f1, s1)" by fastforce
  obtain f2 s2 where b: "decode_width f1 s1 = (f2, s2)" by fastforce
  have "length f1 \<le> length f" "length f2 \<le> length f1"
    using decode_flags_length [of f "\<lparr>fs_base = 10, fs_flags = 0, fs_width = 0\<rparr>"]
      decode_width_length [of f1 s1] a b by simp_all
  then show ?thesis by (cases f2) (simp_all add: decode_def a b)
qed

function fmt_loop :: "uint8 list \<Rightarrow> vararg list \<Rightarrow> outbuf \<Rightarrow> outbuf res" where
  "fmt_loop [] ap out = Inr out"
| "fmt_loop (c # f) ap out =
     (if c \<noteq> ch CHR ''%'' then fmt_loop f ap (emit_char c out)
      else case decode f of
          ([], spec) \<Rightarrow> Inl Fault
        | (k # f', spec) \<Rightarrow> rbind (convert k spec ap out) (\<lambda>(ap', o'). fmt_loop f' ap' o'))"
  by pat_completeness auto
termination
proof (relation "measure (\<lambda>(f, ap, out). length f)")
  fix c :: uint8 and f ap out x spec k f' ap' out'
  assume "(x, spec) = decode f" "x = k # f'"
  then have "Suc (length f') \<le> length f" using decode_length [of f] by (metis fst_conv length_Cons)
  then show "((f', ap', out'), c # f, ap, out) \<in> measure (\<lambda>(f, ap, out). length f)" by simp
qed simp_all

definition put_nul :: "outbuf \<Rightarrow> uint8 list" where
  "put_nul out = (if length (ob out) > 0 then
     (ob out)[(if pos out < length (ob out) then pos out else length (ob out) - 1) := 0] else ob out)"

text \<open>\<open>vsnprintf\<close>: the value returned, an \<open>int\<close>, and the buffer; \<open>size\<close> is the buffer's length.\<close>

definition vsnprintf :: "uint8 list \<Rightarrow> uint8 list \<Rightarrow> vararg list \<Rightarrow> (32 word \<times> uint8 list) res" where
  "vsnprintf buf fmt ap =
     rbind (fmt_loop fmt ap \<lparr>ob = buf, pos = 0\<rparr>) (\<lambda>out. Inr (of_nat (pos out), put_nul out))"

section \<open>What a format denotes\<close>

fun radix :: "nat \<Rightarrow> nat \<Rightarrow> nat list" where
  "radix b v = (if v < b \<or> b < 2 then [v] else radix b (v div b) @ [v mod b])"

declare radix.simps [simp del]

definition num_text :: "nat \<Rightarrow> nat \<Rightarrow> uint8 list \<Rightarrow> bool \<Rightarrow> int \<Rightarrow> uint8 list" where
  "num_text b v pfx zero width =
     (let ds = map (\<lambda>d. digit (of_nat d)) (radix b v); pad = nat (width - int (length ds) - int (length pfx)) in
      if zero then pfx @ replicate pad (ch CHR ''0'') @ ds else replicate pad (ch CHR '' '') @ pfx @ ds)"

definition spec_text :: "nat \<Rightarrow> nat \<Rightarrow> bool \<Rightarrow> fmt_spec \<Rightarrow> uint8 list" where
  "spec_text b v neg spec = num_text b v
     (if neg then [ch CHR ''-''] else if fs_flags spec AND FMT_ALT \<noteq> 0 then
        ch CHR ''0'' # (if b = 16 then [ch CHR ''x''] else []) else [])
     (fs_flags spec AND FMT_ZERO \<noteq> 0) (sint (fs_width spec))"

text \<open>The integer a conversion prints.\<close>

definition int_arg :: "fmt_spec \<Rightarrow> uint64 \<Rightarrow> int" where
  "int_arg spec w = (if fs_flags spec AND FMT_LONG \<noteq> 0 then sint w else sint (ucast w :: 32 word))"

definition nat_arg :: "fmt_spec \<Rightarrow> uint64 \<Rightarrow> nat" where
  "nat_arg spec w = (if fs_flags spec AND FMT_LONG \<noteq> 0 then unat w else unat (ucast w :: 32 word))"

definition conv_text :: "uint8 \<Rightarrow> fmt_spec \<Rightarrow> vararg list \<Rightarrow> (uint8 list \<times> vararg list) option" where
  "conv_text c spec ap =
     (if c = ch CHR ''d'' then
        (case ap of Reg w # ap' \<Rightarrow> Some (spec_text 10 (nat \<bar>int_arg spec w\<bar>) (int_arg spec w < 0) spec, ap') | _ \<Rightarrow> None)
      else if c = ch CHR ''x'' \<or> c = ch CHR ''o'' \<or> c = ch CHR ''u'' then
        (case ap of Reg w # ap' \<Rightarrow> Some (spec_text (if c = ch CHR ''x'' then 16 else if c = ch CHR ''o'' then 8 else 10)
            (nat_arg spec w) False spec, ap') | _ \<Rightarrow> None)
      else if c = ch CHR ''p'' then
        (case ap of Reg w # ap' \<Rightarrow> Some (num_text 16 (unat w) (map ch ''0x'') True 18, ap') | _ \<Rightarrow> None)
      else if c = ch CHR ''s'' then
        (case ap of Str s # ap' \<Rightarrow> Some (case s of None \<Rightarrow> map ch ''(null)'' | Some t \<Rightarrow> t, ap') | _ \<Rightarrow> None)
      else if c = ch CHR ''c'' then
        (case ap of Reg w # ap' \<Rightarrow> Some ([ucast w], ap') | _ \<Rightarrow> None)
      else if c = ch CHR ''%'' then Some ([ch CHR ''%''], ap)
      else Some ([ch CHR ''%'', c], ap))"

function fmt_text :: "uint8 list \<Rightarrow> vararg list \<Rightarrow> uint8 list option" where
  "fmt_text [] ap = Some []"
| "fmt_text (c # f) ap =
     (if c \<noteq> ch CHR ''%'' then map_option ((#) c) (fmt_text f ap)
      else case decode f of
          ([], spec) \<Rightarrow> None
        | (k # f', spec) \<Rightarrow>
            (case conv_text k spec ap of None \<Rightarrow> None
             | Some (t, ap') \<Rightarrow> map_option ((@) t) (fmt_text f' ap')))"
  by pat_completeness auto
termination
proof (relation "measure (\<lambda>(f, ap). length f)")
  fix c :: uint8 and f ap x spec k f' y t ap'
  assume "(x, spec) = decode f" "x = k # f'"
  then have "Suc (length f') \<le> length f" using decode_length [of f] by (metis fst_conv length_Cons)
  then show "((f', ap'), c # f, ap) \<in> measure (\<lambda>(f, ap). length f)" by simp
qed simp_all

section \<open>Emitting a text\<close>

lemma emit_str_append: "emit_str (s @ t) out = emit_str t (emit_str s out)"
  by (induction s out rule: emit_str.induct) simp_all

lemma emit_char_nth:
  "i < length (ob out) \<Longrightarrow> ob (emit_char c out) ! i = (if i = pos out then c else ob out ! i)"
  by (simp add: emit_char_def)

lemma emit_str_pos [simp]: "pos (emit_str s out) = pos out + length s"
  by (induction s out rule: emit_str.induct) (simp_all add: emit_char_def)

lemma emit_str_length [simp]: "length (ob (emit_str s out)) = length (ob out)"
  by (induction s out rule: emit_str.induct) (simp_all add: emit_char_def)

lemma emit_str_nth:
  "i < length (ob out) \<Longrightarrow> ob (emit_str s out) ! i =
     (if pos out \<le> i \<and> i < pos out + length s then s ! (i - pos out) else ob out ! i)"
proof (induction s out rule: emit_str.induct)
  case (2 c s out)
  have l: "length (ob (emit_char c out)) = length (ob out)" and p: "pos (emit_char c out) = Suc (pos out)"
    by (simp_all add: emit_char_def)
  note IH = "2.IH" [unfolded l p, OF "2.prems"]
  consider "i < pos out" | "i = pos out" | "i > pos out" by linarith
  then show ?case
  proof cases
    case 3
    then obtain k where "i = pos out + Suc k" by (metis less_iff_Suc_add add_Suc_right)
    then show ?thesis using IH "2.prems" by (simp add: emit_char_nth)
  qed (use IH "2.prems" in \<open>simp_all add: emit_char_nth\<close>)
qed auto

text \<open>A text emitted from the start of a buffer, and terminated: the part that fits, then a null byte.\<close>

lemma put_nul_emit_str:
  fixes buf :: "uint8 list"
  defines "n \<equiv> \<lambda>s::uint8 list. min (length s) (length buf - 1)"
  assumes "buf \<noteq> []"
  shows "put_nul (emit_str s \<lparr>ob = buf, pos = 0\<rparr>) = take (n s) s @ [0] @ drop (Suc (n s)) buf"
proof (rule nth_equalityI)
  let ?e = "emit_str s \<lparr>ob = buf, pos = 0\<rparr>"
  have b: "length buf > 0" using assms(2) by simp
  show len: "length (put_nul ?e) = length (take (n s) s @ [0] @ drop (Suc (n s)) buf)"
    using b by (cases buf) (simp_all add: put_nul_def n_def min_def)
  have pn: "put_nul ?e = (ob ?e)[n s := 0]"
    using b by (cases buf) (auto simp: put_nul_def n_def min_def)
  fix i assume "i < length (put_nul ?e)"
  then have i: "i < length buf" using b by (simp add: put_nul_def)
  consider "i < n s" | "i = n s" | "i > n s" by linarith
  then show "put_nul ?e ! i = (take (n s) s @ [0] @ drop (Suc (n s)) buf) ! i"
  proof cases
    case 1
    then have "n s \<noteq> i" by simp
    with 1 show ?thesis using i by (simp add: pn nth_append emit_str_nth) (simp add: n_def)
  next
    case 2 then show ?thesis using i by (simp add: pn nth_append n_def)
  next
    case 3
    then have "\<not> i < length s" using i by (auto simp: n_def)
    moreover obtain k where "i = n s + Suc k" using 3 by (metis less_iff_Suc_add add_Suc_right)
    ultimately show ?thesis using i 3 by (simp add: pn nth_append emit_str_nth n_def min_def)
  qed
qed

section \<open>Digits\<close>

lemma num_digits_radix:
  assumes "unat v < unat b ^ k" "n + k \<le> 32" "0 < k" "2 \<le> unat b"
  shows "num_digits b v n = rev (map (\<lambda>d. digit (of_nat d)) (radix (unat b) (unat v)))"
  using assms(1-3)
proof (induction k arbitrary: v n)
  case (Suc k)
  have m: "digit (v mod b) = digit (of_nat (unat v mod unat b))"
    by (metis unat_mod of_nat_unat ucast_id)
  show ?case
  proof (cases "unat v < unat b")
    case True
    then have "v div b = 0" by (simp add: word_unat_eq_iff unat_div)
    moreover have "v mod b = v" using True by (simp add: word_unat_eq_iff unat_mod)
    ultimately show ?thesis using True by (subst num_digits.simps, subst radix.simps) simp
  next
    case False
    then have nz: "v div b \<noteq> 0"
      using assms(4) by (simp add: word_unat_eq_iff unat_div div_eq_0_iff)
    have k: "0 < k" using False Suc.prems(1) by (cases k) auto
    have "unat v div unat b < unat b ^ k"
      using Suc.prems(1) assms(4) by (simp add: less_mult_imp_div_less mult.commute)
    then have "num_digits b (v div b) (Suc n) = rev (map (\<lambda>d. digit (of_nat d)) (radix (unat b) (unat v div unat b)))"
      using Suc.IH [of "v div b" "Suc n"] Suc.prems(2) k by (simp add: unat_div)
    moreover have "radix (unat b) (unat v) = radix (unat b) (unat v div unat b) @ [unat v mod unat b]"
      using False assms(4) by (subst radix.simps) simp
    ultimately show ?thesis
      using nz Suc.prems(2) k by (subst num_digits.simps) (simp add: m)
  qed
qed simp

lemma num_digits_base:
  assumes "b \<in> {8, 10, 16}"
  shows "num_digits b v 0 = rev (map (\<lambda>d. digit (of_nat d)) (radix (unat b) (unat v)))"
proof (rule num_digits_radix [where k = 22])
  have "(2::nat) ^ 64 \<le> 8 ^ 22" "(2::nat) ^ 64 \<le> 10 ^ 22" "(2::nat) ^ 64 \<le> 16 ^ 22" by simp_all
  then show "unat v < unat b ^ 22" using assms unat64_less [of v] by auto
  show "2 \<le> unat b" using assms by auto
qed simp_all

text \<open>The digit sequence reads back as the number.\<close>

lemma radix_value:
  assumes "2 \<le> b"
  shows "foldl (\<lambda>a d. a * b + d) 0 (radix b v) = v"
proof (induction v rule: less_induct)
  case (less v)
  show ?case
  proof (cases "v < b")
    case False
    then have "v div b < v" using assms by (simp add: div_less_dividend)
    from less.IH [OF this] show ?thesis using False assms by (subst radix.simps) simp
  qed (simp add: radix.simps)
qed

lemma radix_digits:
  assumes "2 \<le> b"
  shows "\<forall>d \<in> set (radix b v). d < b"
proof (induction v rule: less_induct)
  case (less v)
  show ?case
  proof (cases "v < b")
    case False
    then have "v div b < v" using assms by (simp add: div_less_dividend)
    from less.IH [OF this] show ?thesis using False assms by (subst radix.simps) auto
  qed (simp add: radix.simps)
qed

lemma radix_length:
  assumes "v < b ^ k" "2 \<le> b" "0 < k"
  shows "length (radix b v) \<le> k"
  using assms(1,3)
proof (induction k arbitrary: v)
  case (Suc k)
  show ?case
  proof (cases "v < b")
    case False
    have "0 < k" using False Suc.prems(1) by (cases k) auto
    moreover have "v div b < b ^ k"
      using Suc.prems(1) assms(2) by (simp add: less_mult_imp_div_less mult.commute)
    ultimately show ?thesis using Suc.IH False by (subst radix.simps) simp
  qed (simp add: radix.simps)
qed simp

lemma emit_num_text:
  assumes "fs_base spec \<in> {8, 10, 16}"
  shows "emit_num v neg spec out = emit_str (spec_text (unat (fs_base spec)) (unat v) neg spec) out"
proof -
  have b: "(ucast (fs_base spec) :: uint64) \<in> {8, 10, 16}" using assms by auto
  have u: "unat (ucast (fs_base spec) :: uint64) = unat (fs_base spec)" using assms by auto
  have d: "num_digits (ucast (fs_base spec)) v 0 =
      rev (map (\<lambda>d. digit (of_nat d)) (radix (unat (fs_base spec)) (unat v)))"
    using num_digits_base [OF b, of v] u by simp
  have p: "(unat (fs_base spec) = 16) = (fs_base spec = 16)" using assms by auto
  show ?thesis
    by (simp add: emit_num_def d num_prefix_def spec_text_def num_text_def Let_def p emit_str_append)
qed

section \<open>Arguments\<close>

lemma sint_range_32: "- (2 ^ 63) \<le> sint (w :: 32 word)" "sint (w :: 32 word) < 2 ^ 63"
  using sint_greater_eq [of w] sint_less [of w] by simp_all

lemma sint_signed_arg: "sint (signed_arg spec w) = int_arg spec w"
  by (simp add: signed_arg_def int_arg_def signed_scast_eq signed_take_bit_int_eq_self_iff
      sint_range_32 [simplified])

lemma unat_unsigned_arg: "unat (unsigned_arg spec w) = nat_arg spec w"
  by (simp add: unsigned_arg_def nat_arg_def unsigned_ucast_eq unsigned_take_bit_eq)

lemma unat_magnitude: "unat (if sint (v :: uint64) < 0 then - v else v) = nat \<bar>sint v\<bar>"
proof -
  have r: "- (2 ^ 63) \<le> sint v" "sint v < 2 ^ 63"
    using sint_greater_eq [of v] sint_less [of v] by simp_all
  have "v = word_of_int (sint v)" by simp
  then have neg: "- v = word_of_int (- sint v)" by (metis wi_hom_neg)
  show ?thesis
  proof (cases "sint v < 0")
    case True
    then have "uint (- v) = - sint v"
      using r by (subst neg, subst uint_word_of_int) (simp del: of_int_minus word_of_int_minus)
    then show ?thesis using True by (metis abs_of_neg unat_eq_nat_uint)
  next
    case False
    have "uint v = sint v mod 2 ^ 64"
      using uint_word_of_int [where ?'a = 64, of "sint v"] by simp
    then show ?thesis using False r by (simp add: unat_eq_nat_uint)
  qed
qed

section \<open>Conversions and the loop\<close>

lemma ch_eq_iff [simp]: "ch a = ch b \<longleftrightarrow> a = b"
proof -
  have "unat (ch c) = of_char c" for c :: char
  proof -
    have "(of_char c :: nat) < 256" by simp
    then show ?thesis by (simp add: ch_def take_bit_nat_eq_self unat_of_nat del: nat_of_char_less_256)
  qed
  then show ?thesis by (metis of_char_eq_iff)
qed

lemma emit_char_str: "emit_char c out = emit_str [c] out"
  by simp

lemma decode_base: "fs_base (snd (decode f)) = 10"
proof -
  have fl: "fs_base (snd (decode_flags f s)) = fs_base s" for f s
    by (induction f s rule: decode_flags.induct) simp_all
  have wd: "fs_base (snd (decode_width f s)) = fs_base s" for f s
    by (induction f s rule: decode_width.induct) simp_all
  show ?thesis
    unfolding decode_def Let_def
    by (auto simp: fl wd split: prod.split list.split)
      (metis fl wd snd_conv fmt_spec.select_convs(1))+
qed

lemma pointer_flags:
  "(f OR (FMT_ALT OR FMT_ZERO)) AND FMT_ALT \<noteq> 0" "(f OR (FMT_ALT OR FMT_ZERO)) AND FMT_ZERO \<noteq> 0"
proof -
  have "bit ((f OR (FMT_ALT OR FMT_ZERO)) AND FMT_ALT) 0" "bit ((f OR (FMT_ALT OR FMT_ZERO)) AND FMT_ZERO) 1"
    by (simp_all add: kdefs bit_simps)
  then show "(f OR (FMT_ALT OR FMT_ZERO)) AND FMT_ALT \<noteq> 0" "(f OR (FMT_ALT OR FMT_ZERO)) AND FMT_ZERO \<noteq> 0"
    by force+
qed

lemma convert_text:
  assumes "conv_text c spec ap = Some (t, ap')" "fs_base spec = 10"
  shows "convert c spec ap out = Inr (ap', emit_str t out)"
proof -
  consider w where "ap = Reg w # ap'" "c = ch CHR ''d''"
    | w where "ap = Reg w # ap'" "c = ch CHR ''x'' \<or> c = ch CHR ''o'' \<or> c = ch CHR ''u''"
    | w where "ap = Reg w # ap'" "c = ch CHR ''p''"
    | s where "ap = Str s # ap'" "c = ch CHR ''s''"
    | w where "ap = Reg w # ap'" "c = ch CHR ''c''"
    | "c \<notin> ch ` {CHR ''d'', CHR ''x'', CHR ''o'', CHR ''u'', CHR ''p'', CHR ''s'', CHR ''c''}"
    using assms(1) unfolding conv_text_def
    by (auto split: if_splits list.splits vararg.splits)
  then show ?thesis
  proof cases
    case 1
    then show ?thesis using assms
      by (simp add: conv_text_def convert_def emit_num_text Let_def unat_magnitude sint_signed_arg split: if_splits)
  next
    case 2
    then show ?thesis using assms
      by (elim disjE) (simp_all add: conv_text_def convert_def emit_num_text Let_def unat_unsigned_arg,
        simp_all add: spec_text_def)
  next
    case 3
    then show ?thesis using assms
      by (simp add: conv_text_def convert_def emit_num_text spec_text_def pointer_flags)
  next
    case 6
    then show ?thesis using assms(1)
      by (auto simp: conv_text_def convert_def split: if_splits)
  qed (use assms in \<open>auto simp: conv_text_def convert_def\<close>)
qed

lemma fmt_loop_text:
  "fmt_text f ap = Some t \<Longrightarrow> fmt_loop f ap out = Inr (emit_str t out)"
proof (induction f ap arbitrary: t out rule: fmt_text.induct)
  case (2 c f ap)
  show ?case
  proof (cases "c = ch CHR ''%''")
    case False
    then obtain t' where "fmt_text f ap = Some t'" "t = c # t'" using "2.prems" by auto
    then show ?thesis using "2.IH"(1) False by simp
  next
    case True
    obtain r spec where d: "decode f = (r, spec)" by fastforce
    then obtain k f' where r: "r = k # f'" using "2.prems" True by (cases r) auto
    obtain u ap' where c: "conv_text k spec ap = Some (u, ap')"
      using "2.prems" True d r by (auto split: option.splits)
    obtain t' where t': "fmt_text f' ap' = Some t'" "t = u @ t'"
      using "2.prems" True d r c by auto
    have "fs_base spec = 10" using decode_base [of f] d by simp
    then show ?thesis
      using convert_text [OF c, of out] True d r t' c
        "2.IH"(2) [of r spec k f' "(u, ap')" u ap' t' "emit_str u out"]
      by (simp add: emit_str_append)
  qed
qed simp

section \<open>The formatter is correct\<close>



text \<open>The digits the formatter produces for a number in base 8, 10 or 16 read back as that number,
  at most 22 of them, so that the 32-byte scratch array never cuts a number short.\<close>

theorem num_digits_roundtrip:
  assumes "b \<in> {8, 10, 16}"
  shows "\<exists>ds. num_digits b v 0 = rev (map (\<lambda>d. digit (of_nat d)) ds) \<and> set ds \<subseteq> {..<unat b} \<and>
    foldl (\<lambda>a d. a * unat b + d) 0 ds = unat v \<and> length ds \<le> 22"
proof (intro exI conjI)
  have b: "2 \<le> unat b" using assms by auto
  show "num_digits b v 0 = rev (map (\<lambda>d. digit (of_nat d)) (radix (unat b) (unat v)))"
    by (rule num_digits_base [OF assms])
  show "set (radix (unat b) (unat v)) \<subseteq> {..<unat b}" using radix_digits [OF b] by blast
  show "foldl (\<lambda>a d. a * unat b + d) 0 (radix (unat b) (unat v)) = unat v" by (rule radix_value [OF b])
  have "(2::nat) ^ 64 \<le> 8 ^ 22" "(2::nat) ^ 64 \<le> 10 ^ 22" "(2::nat) ^ 64 \<le> 16 ^ 22" by simp_all
  then have "unat v < unat b ^ 22" using assms unat64_less [of v] by auto
  then show "length (radix (unat b) (unat v)) \<le> 22" by (rule radix_length [OF _ b]) simp
qed

theorem num_digits_roundtrip_witness:
  "\<exists>ds. num_digits 10 1905 0 = rev (map (\<lambda>d. digit (of_nat d)) ds) \<and>
    foldl (\<lambda>a d. a * 10 + d) 0 ds = 1905 \<and> length ds \<le> 22"
  using num_digits_roundtrip [of 10 1905] by auto

end
