(* ===== verification/Mmu.thy ===== *)
theory Mmu
  imports Prelude
begin

text \<open>
  The constants and address macros of \<^verbatim>\<open>arch/mmu.h\<close> and \<^verbatim>\<open>arch/memlayout.h\<close>: page rounding, the
  direct map between physical and kernel virtual addresses, table indices, descriptor bits and
  the kernel-stack window. The lemmas read each macro as arithmetic on \<open>unat\<close>.
\<close>

section \<open>Pages\<close>

definition PGSIZE :: uint64 where [kdefs]: "PGSIZE = 4096"
definition PGSHIFT :: nat where [kdefs]: "PGSHIFT = 12"

definition PGROUNDUP :: "uint64 \<Rightarrow> uint64" where
  "PGROUNDUP sz = (sz + PGSIZE - 1) AND NOT (PGSIZE - 1)"

definition PGROUNDDW :: "uint64 \<Rightarrow> uint64" where
  "PGROUNDDW sz = sz AND NOT (PGSIZE - 1)"

section \<open>The direct map\<close>

definition KERN_BASE :: uintptr where [kdefs]: "KERN_BASE = 0xFFFF000000000000"

definition KVA_TO_PA :: "uintptr \<Rightarrow> uintptr" where "KVA_TO_PA addr = addr - KERN_BASE"

definition PA_TO_KVA :: "uintptr \<Rightarrow> uintptr" where "PA_TO_KVA addr = addr + KERN_BASE"

lemma KVA_PA_inverse [simp]: "KVA_TO_PA (PA_TO_KVA a) = a" "PA_TO_KVA (KVA_TO_PA a) = a"
  by (simp_all add: KVA_TO_PA_def PA_TO_KVA_def)

lemma PA_TO_KVA_inj [simp]: "PA_TO_KVA a = PA_TO_KVA b \<longleftrightarrow> a = b"
  by (simp add: PA_TO_KVA_def)

section \<open>Translation tables\<close>

definition L0_SHIFT :: nat where [kdefs]: "L0_SHIFT = 39"
definition L1_SHIFT :: nat where [kdefs]: "L1_SHIFT = 30"
definition L2_SHIFT :: nat where [kdefs]: "L2_SHIFT = 21"
definition L3_SHIFT :: nat where [kdefs]: "L3_SHIFT = 12"
definition TABLE_ENTRIES :: nat where [kdefs]: "TABLE_ENTRIES = 512"
definition BLOCK_SIZE_2M :: uint64 where [kdefs]: "BLOCK_SIZE_2M = push_bit L2_SHIFT 1"
definition BLOCK_SIZE_1G :: uint64 where [kdefs]: "BLOCK_SIZE_1G = push_bit L1_SHIFT 1"
definition MAXUVA :: uint64 where [kdefs]: "MAXUVA = push_bit 48 1"
definition USER_BASE :: uint64 where [kdefs]: "USER_BASE = 0"

definition PTE_ADDR :: "pte_t \<Rightarrow> uint64" where "PTE_ADDR pte = pte AND 0x0000FFFFFFFFF000"

definition PTE_VALID :: pte_t where [kdefs]: "PTE_VALID = push_bit 0 1"
definition PTE_TABLE :: pte_t where [kdefs]: "PTE_TABLE = push_bit 1 1"
definition PTE_BLOCK :: pte_t where [kdefs]: "PTE_BLOCK = push_bit 1 0"
definition PTE_ATTRINDX :: "pte_t \<Rightarrow> pte_t" where [kdefs]: "PTE_ATTRINDX n = push_bit 2 n"
definition PTE_AP_RW_EL1 :: pte_t where [kdefs]: "PTE_AP_RW_EL1 = push_bit 6 0"
definition PTE_AP_RW_ALL :: pte_t where [kdefs]: "PTE_AP_RW_ALL = push_bit 6 1"
definition PTE_SH_NONE :: pte_t where [kdefs]: "PTE_SH_NONE = push_bit 8 0"
definition PTE_SH_INNER :: pte_t where [kdefs]: "PTE_SH_INNER = push_bit 8 3"
definition PTE_AF :: pte_t where [kdefs]: "PTE_AF = push_bit 10 1"
definition PTE_PXN :: pte_t where [kdefs]: "PTE_PXN = push_bit 53 1"
definition PTE_UXN :: pte_t where [kdefs]: "PTE_UXN = push_bit 54 1"
definition MT_DEVICE_nGnRnE :: pte_t where [kdefs]: "MT_DEVICE_nGnRnE = 0"
definition MT_NORMAL :: pte_t where [kdefs]: "MT_NORMAL = 1"
definition MT_NORMAL_TAGGED :: pte_t where [kdefs]: "MT_NORMAL_TAGGED = 2"

definition BLOCK_DEVICE :: pte_t where [kdefs]:
  "BLOCK_DEVICE = PTE_VALID OR PTE_BLOCK OR PTE_ATTRINDX MT_DEVICE_nGnRnE
     OR PTE_AP_RW_EL1 OR PTE_SH_NONE OR PTE_AF OR PTE_PXN OR PTE_UXN"

definition BLOCK_NORMAL :: pte_t where [kdefs]:
  "BLOCK_NORMAL = PTE_VALID OR PTE_BLOCK OR PTE_ATTRINDX MT_NORMAL
     OR PTE_AP_RW_EL1 OR PTE_SH_INNER OR PTE_AF OR PTE_UXN"

definition PAGE_USER :: pte_t where [kdefs]:
  "PAGE_USER = PTE_VALID OR PTE_TABLE OR PTE_ATTRINDX MT_NORMAL_TAGGED
     OR PTE_AP_RW_ALL OR PTE_SH_INNER OR PTE_AF OR PTE_PXN"

definition PAGE_KERNEL :: pte_t where [kdefs]:
  "PAGE_KERNEL = PTE_VALID OR PTE_TABLE OR PTE_ATTRINDX MT_NORMAL
     OR PTE_AP_RW_EL1 OR PTE_SH_INNER OR PTE_AF OR PTE_PXN OR PTE_UXN"

section \<open>The kernel-stack window\<close>

definition KSTACK_WINDOW_L1 :: nat where [kdefs]: "KSTACK_WINDOW_L1 = 511"
definition KSTACK_WINDOW :: uint64 where [kdefs]: "KSTACK_WINDOW = KERN_BASE + push_bit 30 511"
definition KSTACK_WINDOW_SIZE :: uint64 where [kdefs]: "KSTACK_WINDOW_SIZE = push_bit 30 1"
definition KSTACK_PAGES :: nat where [kdefs]: "KSTACK_PAGES = 4"
definition KSTACK_GUARD_PAGES :: nat where [kdefs]: "KSTACK_GUARD_PAGES = 4"
definition KSTACK_SLOT_PAGES :: nat where [kdefs]:
  "KSTACK_SLOT_PAGES = KSTACK_GUARD_PAGES + KSTACK_PAGES"
definition KSTACK_NSLOTS :: nat where [kdefs]:
  "KSTACK_NSLOTS = unat KSTACK_WINDOW_SIZE div (KSTACK_SLOT_PAGES * unat PGSIZE)"

lemma KSTACK_NSLOTS_eq: "KSTACK_NSLOTS = 32768"
  by (simp add: kdefs)

section \<open>Page rounding as arithmetic\<close>

definition page_aligned :: "uint64 \<Rightarrow> bool" where
  "page_aligned a \<longleftrightarrow> 4096 dvd unat a"

lemma PGSIZE_mask: "PGSIZE - 1 = mask 12"
  by (simp add: PGSIZE_def mask_eq_decr_exp)

lemma unat_PGSIZE [simp]: "unat PGSIZE = 4096"
  by (simp add: PGSIZE_def)

lemma unat_PGROUNDDW: "unat (PGROUNDDW a) = unat a div 4096 * 4096"
  by (simp add: PGROUNDDW_def PGSIZE_mask unat_and_not_mask)

lemma unat_PGROUNDUP:
  assumes "unat a + 4095 < 2 ^ 64"
  shows "unat (PGROUNDUP a) = (unat a + 4095) div 4096 * 4096"
proof -
  have "PGROUNDUP a = (a + 4095) AND NOT (mask 12)"
    by (simp add: PGROUNDUP_def PGSIZE_mask) (simp add: PGSIZE_def algebra_simps)
  moreover have "unat (a + 4095) = unat a + 4095"
    using assms by (simp add: unat_add_no_wrap)
  ultimately show ?thesis by (simp add: unat_and_not_mask)
qed

lemma page_aligned_PGROUNDDW [simp]: "page_aligned (PGROUNDDW a)"
  by (simp add: page_aligned_def unat_PGROUNDDW)

lemma page_aligned_PGROUNDUP [simp]: "page_aligned (PGROUNDUP a)"
  by (simp add: page_aligned_def PGROUNDUP_def PGSIZE_mask unat_and_not_mask)

lemma PGROUNDDW_le: "PGROUNDDW a \<le> a"
  by (simp add: word_le_nat_alt unat_PGROUNDDW)

lemma PGROUNDDW_aligned [simp]: "page_aligned a \<Longrightarrow> PGROUNDDW a = a"
  by (metis dvd_div_mult_self page_aligned_def unat_PGROUNDDW word_unat_eq_iff)

section \<open>Loops over pages\<close>

text \<open>
  \<^verbatim>\<open>for (a = start; a < end; a += PGSIZE) body\<close>, where \<open>Inl\<close> in the body leaves the loop.
  \<open>None\<close> is the loop that never ends because \<open>a\<close> wraps around below \<open>end\<close>.
\<close>

partial_function (option) for_pages ::
  "(uint64 \<Rightarrow> 's \<Rightarrow> 'e + 's) \<Rightarrow> uint64 \<Rightarrow> uint64 \<Rightarrow> 's \<Rightarrow> ('e + 's) option" where
  "for_pages body a e s =
     (if a < e then
        (case body a s of Inl err \<Rightarrow> Some (Inl err) | Inr s' \<Rightarrow> for_pages body (a + PGSIZE) e s')
      else Some (Inr s))"

definition page_range :: "uint64 \<Rightarrow> nat \<Rightarrow> uint64 list" where
  "page_range a n = map (\<lambda>k. a + of_nat k * PGSIZE) [0..<n]"

definition page_count :: "uint64 \<Rightarrow> uint64 \<Rightarrow> nat" where
  "page_count a e = (unat e - unat a + 4095) div 4096"

lemma page_range_Suc: "page_range a (Suc n) = a # page_range (a + PGSIZE) n"
  unfolding page_range_def upt_conv_Cons [OF zero_less_Suc] map_Suc_upt [symmetric] list.map
  by (simp add: algebra_simps)

lemma length_page_range [simp]: "length (page_range a n) = n"
  by (simp add: page_range_def)

lemma unat_page_range:
  assumes "unat a + k * 4096 < 2 ^ 64"
  shows "unat (a + of_nat k * PGSIZE) = unat a + k * 4096"
proof -
  have "of_nat k * PGSIZE = of_nat (k * 4096)" by (simp add: PGSIZE_def)
  moreover have "unat (of_nat (k * 4096) :: uint64) = k * 4096"
    using assms by (subst unat_of_nat) simp
  ultimately show ?thesis using assms by (simp add: unat_add_no_wrap)
qed

lemma page_count_step:
  assumes "0 < (d :: nat)"
  shows "(d + 4095) div 4096 = Suc ((d - 4096 + 4095) div 4096)"
proof (cases "d < 4096")
  case True
  then have "(d + 4095) div 4096 = 1" using assms by (intro div_nat_eqI) simp_all
  with True show ?thesis by simp
next
  case False
  then have "d + 4095 = (d - 4096 + 4095) + 4096" by simp
  then show ?thesis by (metis div_add_self2 Suc_eq_plus1 zero_neq_numeral)
qed

lemma for_pages_seq:
  assumes "unat e + 4095 < 2 ^ 64"
  shows "for_pages body a e s = Some (seq_res body (page_range a (page_count a e)) s)"
proof (induction "page_count a e" arbitrary: a s)
  case 0
  then have "\<not> a < e" by (auto simp: page_count_def word_less_nat_alt)
  then show ?case unfolding 0 [symmetric] by (subst for_pages.simps) (simp add: page_range_def)
next
  case (Suc n)
  then have "unat a < unat e" by (cases "unat a < unat e") (simp_all add: page_count_def)
  then have lt: "a < e" by (simp add: word_less_nat_alt)
  have ua: "unat (a + PGSIZE) = unat a + 4096"
    using \<open>unat a < unat e\<close> assms by (subst unat_add_no_wrap) simp_all
  have "page_count a e = Suc (page_count (a + PGSIZE) e)"
    using page_count_step [of "unat e - unat a"] \<open>unat a < unat e\<close> by (simp add: page_count_def ua)
  with Suc.hyps(2) have n: "n = page_count (a + PGSIZE) e" "page_count a e = Suc n" by simp_all
  show ?case
    unfolding n(2) page_range_Suc using Suc.hyps(1) [OF n(1)] lt n(1)
    by (subst for_pages.simps) (simp split: sum.split)
qed

end
