(* ===== verification/Physmem.thy ===== *)
theory Physmem
  imports Mmu
begin

text \<open>
  \<^verbatim>\<open>vm/physmem.c\<close>: the physical memory map. Memory banks and exclusions are sorted, coalesced
  region lists; \<open>physmem_avail\<close> subtracts the second from the first. The fixed arrays with their
  counts are lists of the live entries, with the capacity checks of the code kept. The lemmas give
  each operation's effect on the set of byte addresses a list covers.
\<close>

section \<open>State\<close>

definition MAX_HWCNT :: nat where [kdefs]: "MAX_HWCNT = 16"
definition MAX_EXCNT :: nat where [kdefs]: "MAX_EXCNT = 16"
definition VM_PHYSSEG_MAX :: nat where [kdefs]: "VM_PHYSSEG_MAX = 64"

record region =
  r_addr :: uint64
  r_size :: uint64

text \<open>A \<open>struct page *\<close> is the index of its descriptor in the descriptor array; \<open>None\<close> is NULL.\<close>

record vm_phys_seg =
  seg_start :: uint64
  seg_end :: uint64
  first_page :: "nat option"

record physmem =
  hwregions :: "region list"
  exregions :: "region list"
  vm_phys_segs :: "vm_phys_seg list"

definition physmem_boot :: physmem where
  "physmem_boot = \<lparr>hwregions = [], exregions = [], vm_phys_segs = []\<rparr>"

section \<open>Sorted insertion\<close>

definition r_end :: "region \<Rightarrow> uint64" where "r_end r = r_addr r + r_size r"

fun merge_scan :: "uint64 \<Rightarrow> region list \<Rightarrow> uint64 \<times> region list" where
  "merge_scan e [] = (e, [])"
| "merge_scan e (r # rs) =
     (if r_addr r > e then (e, r # rs)
      else merge_scan (if r_end r > e then r_end r else e) rs)"

definition merge_upper :: "region list \<Rightarrow> nat \<Rightarrow> region list" where
  "merge_upper rs i =
     (let (e, rest) = merge_scan (r_end (rs ! i)) (drop (Suc i) rs)
      in take i rs @ [(rs ! i)\<lparr>r_size := e - r_addr (rs ! i)\<rparr>] @ rest)"

function find_slot :: "region list \<Rightarrow> uint64 \<Rightarrow> uint64 \<Rightarrow> nat \<Rightarrow> nat \<times> bool" where
  "find_slot rs a e i =
     (if i < length rs then
        (if a \<le> r_end (rs ! i) \<and> e \<ge> r_addr (rs ! i) then (i, True)
         else if a < r_addr (rs ! i) then (i, False)
         else find_slot rs a e (Suc i))
      else (i, False))"
  by pat_completeness auto
termination
  by (relation "measure (\<lambda>(rs, a, e, i). length rs - i)") auto

declare find_slot.simps [simp del]

text \<open>\<open>None\<close> is the source's \<open>-1\<close>: the list is full.\<close>

definition insert_region :: "region list \<Rightarrow> nat \<Rightarrow> uint64 \<Rightarrow> uint64 \<Rightarrow> region list option" where
  "insert_region rs mx a sz =
     (let e = a + sz; (i, hit) = find_slot rs a e 0 in
      if hit then
        (let r = rs ! i;
             a' = (if a < r_addr r then a else r_addr r);
             e' = (if e < r_end r then r_end r else e)
         in Some (merge_upper (rs[i := \<lparr>r_addr = a', r_size = e' - a'\<rparr>]) i))
      else if length rs \<ge> mx then None
      else Some (take i rs @ [\<lparr>r_addr = a, r_size = sz\<rparr>] @ drop i rs))"

definition physmem_hardware_region :: "uint64 \<Rightarrow> uint64 \<Rightarrow> physmem \<Rightarrow> physmem res" where
  "physmem_hardware_region pa sz s =
     (let start = PGROUNDUP pa; end' = PGROUNDDW (pa + sz) in
      if start \<ge> end' then Inr s
      else case insert_region (hwregions s) MAX_HWCNT start (end' - start) of
          None \<Rightarrow> Inl (Panic ''physmem: too many memory banks (max %d)'')
        | Some rs \<Rightarrow> Inr (s\<lparr>hwregions := rs\<rparr>))"

definition physmem_exclude_region :: "uint64 \<Rightarrow> uint64 \<Rightarrow> physmem \<Rightarrow> physmem res" where
  "physmem_exclude_region pa sz s =
     (let start = PGROUNDDW pa; end' = PGROUNDUP (pa + sz) in
      if start \<ge> end' then Inr s
      else case insert_region (exregions s) MAX_EXCNT start (end' - start) of
          None \<Rightarrow> Inl (Panic ''physmem: too many excluded regions (max %d)'')
        | Some rs \<Rightarrow> Inr (s\<lparr>exregions := rs\<rparr>))"

definition physmem_excluded :: "uint64 \<Rightarrow> uint64 \<Rightarrow> physmem \<Rightarrow> bool" where
  "physmem_excluded pa sz s =
     list_ex (\<lambda>r. pa < r_end r \<and> pa + sz > r_addr r) (exregions s)"

section \<open>Subtracting the exclusions\<close>

definition add_seg :: "uint64 \<Rightarrow> uint64 \<Rightarrow> vm_phys_seg list \<Rightarrow> vm_phys_seg list res" where
  "add_seg start end' segs =
     (if start \<ge> end' then Inr segs
      else if length segs \<ge> VM_PHYSSEG_MAX then
        Inl (Panic ''physmem: too many segments (max %d)'')
      else Inr (segs @ [\<lparr>seg_start = start, seg_end = end', first_page = None\<rparr>]))"

fun avail_bank ::
  "uint64 \<Rightarrow> uint64 \<Rightarrow> region list \<Rightarrow> vm_phys_seg list \<Rightarrow> vm_phys_seg list res" where
  "avail_bank start end' [] segs = add_seg start end' segs"
| "avail_bank start end' (x # xs) segs =
     (let xstart = r_addr x; xend = r_end x in
      if xend \<le> start then avail_bank start end' xs segs
      else if xstart \<ge> end' then add_seg start end' segs
      else if xstart \<le> start then
        (if xend \<ge> end' then add_seg xend end' segs else avail_bank xend end' xs segs)
      else if xend \<ge> end' then add_seg start xstart segs
      else rbind (add_seg start xstart segs) (avail_bank xend end' xs))"

fun avail_banks :: "region list \<Rightarrow> region list \<Rightarrow> vm_phys_seg list \<Rightarrow> vm_phys_seg list res" where
  "avail_banks [] exs segs = Inr segs"
| "avail_banks (h # hs) exs segs =
     rbind (avail_bank (r_addr h) (r_end h) exs segs) (avail_banks hs exs)"

definition physmem_avail :: "physmem \<Rightarrow> physmem res" where
  "physmem_avail s =
     rbind (avail_banks (hwregions s) (exregions s) [])
       (\<lambda>segs. Inr (s\<lparr>vm_phys_segs := segs\<rparr>))"

section \<open>Queries\<close>

definition in_seg :: "uint64 \<Rightarrow> vm_phys_seg \<Rightarrow> bool" where
  "in_seg pa g \<longleftrightarrow> pa \<ge> seg_start g \<and> pa < seg_end g"

definition physmem_seg :: "uint64 \<Rightarrow> physmem \<Rightarrow> vm_phys_seg option" where
  "physmem_seg pa s = find (in_seg pa) (vm_phys_segs s)"

definition physmem_size :: "physmem \<Rightarrow> uint64" where
  "physmem_size s = foldl (\<lambda>sz g. sz + (seg_end g - seg_start g)) 0 (vm_phys_segs s)"

definition physmem_start :: "physmem \<Rightarrow> uint64 res" where
  "physmem_start s =
     (if hwregions s = [] then Inl (Panic ''physmem: no memory banks'')
      else Inr (r_addr (hwregions s ! 0)))"

definition physmem_end :: "physmem \<Rightarrow> uint64 res" where
  "physmem_end s =
     (if hwregions s = [] then Inl (Panic ''physmem: no memory banks'')
      else Inr (r_end (hwregions s ! (length (hwregions s) - 1))))"

section \<open>Region lists as sets of addresses\<close>

definition r_lo :: "region \<Rightarrow> nat" where "r_lo r = unat (r_addr r)"
definition r_hi :: "region \<Rightarrow> nat" where "r_hi r = unat (r_addr r) + unat (r_size r)"

definition region_ok :: "region \<Rightarrow> bool" where
  "region_ok r \<longleftrightarrow> r_lo r < r_hi r \<and> r_hi r < 2 ^ 64"

definition regions_ok :: "region list \<Rightarrow> bool" where
  "regions_ok rs \<longleftrightarrow> (\<forall>r \<in> set rs. region_ok r) \<and> sorted_wrt (\<lambda>r s. r_hi r < r_lo s) rs"

definition covered :: "region list \<Rightarrow> nat set" where
  "covered rs = (\<Union>r \<in> set rs. {r_lo r..<r_hi r})"

lemma covered_simps [simp]:
  "covered [] = {}"
  "covered (r # rs) = {r_lo r..<r_hi r} \<union> covered rs"
  "covered (rs @ rs') = covered rs \<union> covered rs'"
  by (auto simp: covered_def)

lemma regions_ok_simps:
  "regions_ok []"
  "regions_ok (r # rs) \<longleftrightarrow> region_ok r \<and> (\<forall>s \<in> set rs. r_hi r < r_lo s) \<and> regions_ok rs"
  "regions_ok (rs @ rs') \<longleftrightarrow>
     regions_ok rs \<and> regions_ok rs' \<and> (\<forall>r \<in> set rs. \<forall>s \<in> set rs'. r_hi r < r_lo s)"
  by (auto simp: regions_ok_def sorted_wrt_append)

lemma unat_r_end: "region_ok r \<Longrightarrow> unat (r_end r) = r_hi r"
  by (simp add: region_ok_def r_hi_def r_end_def unat_add_no_wrap)

lemmas region_nat = word_le_nat_alt word_less_nat_alt unat_r_end

lemma region_ok_mk:
  assumes "unat a < unat e"
  shows "region_ok \<lparr>r_addr = a, r_size = e - a\<rparr>" "r_lo \<lparr>r_addr = a, r_size = e - a\<rparr> = unat a"
    "r_hi \<lparr>r_addr = a, r_size = e - a\<rparr> = unat e"
proof -
  have "unat (e - a) = unat e - unat a"
    using assms by (simp add: unat_sub word_le_nat_alt)
  with assms unsigned_less [of e] show
    "region_ok \<lparr>r_addr = a, r_size = e - a\<rparr>" "r_lo \<lparr>r_addr = a, r_size = e - a\<rparr> = unat a"
    "r_hi \<lparr>r_addr = a, r_size = e - a\<rparr> = unat e"
    by (simp_all add: region_ok_def r_lo_def r_hi_def)
qed

lemma merge_scan_spec:
  assumes "merge_scan e rs = (e', rest)" "regions_ok rs" "lo \<le> unat e" "\<forall>r \<in> set rs. lo \<le> r_lo r"
  shows "{lo..<unat e'} \<union> covered rest = {lo..<unat e} \<union> covered rs \<and>
    unat e \<le> unat e' \<and> regions_ok rest \<and> (\<forall>r \<in> set rest. unat e' < r_lo r) \<and>
    set rest \<subseteq> set rs \<and> length rest \<le> length rs \<and>
    (e' = e \<or> e' \<in> r_end ` set rs)"
  using assms
proof (induction e rs rule: merge_scan.induct)
  case (1 e)
  then show ?case by (simp add: regions_ok_simps)
next
  case (2 e r rs)
  note ok = "2.prems"(2)
  have r: "region_ok r" "regions_ok rs" using ok by (simp_all add: regions_ok_simps)
  show ?case
  proof (cases "r_addr r > e")
    case True
    then have "e' = e" "rest = r # rs" using "2.prems"(1) by auto
    moreover have "unat e < r_lo r" using True by (simp add: r_lo_def region_nat)
    moreover have "\<forall>s \<in> set rs. r_lo r < r_lo s"
      using ok by (auto simp: regions_ok_simps region_ok_def)
    ultimately show ?thesis using ok by auto
  next
    case False
    let ?e = "if r_end r > e then r_end r else e"
    have "unat ?e = max (unat e) (r_hi r)" using r(1) by (auto simp: region_nat)
    moreover have "r_lo r \<le> unat e" using False by (simp add: r_lo_def region_nat)
    ultimately have e: "lo \<le> unat ?e" "unat e \<le> unat ?e"
      "{lo..<unat ?e} = {lo..<unat e} \<union> {r_lo r..<r_hi r}"
      using "2.prems"(3,4) by auto
    have "merge_scan ?e rs = (e', rest)" using "2.prems"(1) False by simp
    from "2.IH" [OF False this r(2) e(1)] "2.prems"(4) e show ?thesis by auto
  qed
qed

text \<open>The slot search: everything before the slot ends below the new region.\<close>

lemma find_slot_spec:
  assumes "find_slot rs a e i = (k, hit)" "regions_ok rs" "unat a < unat e" "i \<le> length rs"
    "\<forall>j < i. r_hi (rs ! j) < unat a"
  shows "k \<le> length rs \<and> (\<forall>j < k. r_hi (rs ! j) < unat a) \<and>
    (if hit then k < length rs \<and> unat a \<le> r_hi (rs ! k) \<and> r_lo (rs ! k) \<le> unat e
     else k < length rs \<longrightarrow> unat e < r_lo (rs ! k))"
  using assms
proof (induction rs a e i rule: find_slot.induct)
  case (1 rs a e i)
  show ?case
  proof (cases "i < length rs")
    case True
    then have ok: "region_ok (rs ! i)" using "1.prems"(2) by (simp add: regions_ok_def)
    consider (hit) "a \<le> r_end (rs ! i)" "r_addr (rs ! i) \<le> e"
      | (below) "\<not> (a \<le> r_end (rs ! i) \<and> r_addr (rs ! i) \<le> e)" "a < r_addr (rs ! i)"
      | (next_one) "\<not> (a \<le> r_end (rs ! i) \<and> r_addr (rs ! i) \<le> e)" "\<not> a < r_addr (rs ! i)"
      by blast
    then show ?thesis
    proof cases
      case hit
      with "1.prems" True ok show ?thesis
        by (auto simp: find_slot.simps [of rs a e i] region_nat r_lo_def)
    next
      case below
      with "1.prems" True ok show ?thesis
        by (auto simp: find_slot.simps [of rs a e i] region_nat r_lo_def region_ok_def r_hi_def)
    next
      case next_one
      with "1.prems"(3) ok have "r_hi (rs ! i) < unat a"
        by (auto simp: region_nat r_lo_def)
      with "1.prems"(5) have "\<forall>j < Suc i. r_hi (rs ! j) < unat a" by (auto simp: less_Suc_eq)
      moreover have "find_slot rs a e (Suc i) = (k, hit)"
        using "1.prems"(1) True next_one by (auto simp: find_slot.simps [of rs a e i])
      ultimately show ?thesis using "1.IH" [OF True next_one] "1.prems" True by simp
    qed
  next
    case False
    with "1.prems" show ?thesis by (auto simp: find_slot.simps [of rs a e i])
  qed
qed

definition aligned_regions :: "region list \<Rightarrow> bool" where
  "aligned_regions rs \<longleftrightarrow> (\<forall>r \<in> set rs. 4096 dvd r_lo r \<and> 4096 dvd r_hi r)"

lemma regions_split:
  assumes "regions_ok rs" "i < length rs"
  shows "rs = take i rs @ rs ! i # drop (Suc i) rs" "region_ok (rs ! i)"
    "regions_ok (take i rs)" "regions_ok (drop (Suc i) rs)"
    "\<forall>s \<in> set (drop (Suc i) rs). r_hi (rs ! i) < r_lo s"
proof -
  show eq: "rs = take i rs @ rs ! i # drop (Suc i) rs" using assms(2) by (rule id_take_nth_drop)
  from assms(1) have "regions_ok (take i rs @ rs ! i # drop (Suc i) rs)" by (subst (asm) eq)
  then show "region_ok (rs ! i)" "regions_ok (take i rs)" "regions_ok (drop (Suc i) rs)"
    "\<forall>s \<in> set (drop (Suc i) rs). r_hi (rs ! i) < r_lo s"
    by (simp_all add: regions_ok_simps)
qed

lemma in_set_take_less:
  assumes "\<forall>j < k. P (rs ! j)" "x \<in> set (take k rs)"
  shows "P x"
  using assms by (auto simp: in_set_conv_nth)

lemma merge_hit_spec:
  fixes a e :: uint64
  assumes ok: "regions_ok rs" and i: "i < length rs" and ae: "unat a < unat e"
    and below: "\<forall>j < i. r_hi (rs ! j) < unat a"
    and touch: "unat a \<le> r_hi (rs ! i)" "r_lo (rs ! i) \<le> unat e"
  defines "a' \<equiv> (if a < r_addr (rs ! i) then a else r_addr (rs ! i))"
    and "e' \<equiv> (if e < r_end (rs ! i) then r_end (rs ! i) else e)"
  defines "rs' \<equiv> merge_upper (rs[i := \<lparr>r_addr = a', r_size = e' - a'\<rparr>]) i"
  shows "regions_ok rs' \<and> covered rs' = covered rs \<union> {unat a..<unat e} \<and> length rs' \<le> length rs \<and>
    (aligned_regions rs \<and> 4096 dvd unat a \<and> 4096 dvd unat e \<longrightarrow> aligned_regions rs')"
proof -
  let ?r = "rs ! i"
  note split = regions_split [OF ok i]
  have a': "unat a' = min (unat a) (r_lo ?r)" by (auto simp: a'_def r_lo_def region_nat)
  have e': "unat e' = max (unat e) (r_hi ?r)" using split(2) by (auto simp: e'_def region_nat)
  obtain e2 rest where scan: "merge_scan e' (drop (Suc i) rs) = (e2, rest)" by fastforce
  have "unat a' \<le> unat e'" "\<forall>s \<in> set (drop (Suc i) rs). unat a' \<le> r_lo s"
    using a' e' ae split(5) touch by auto
  from merge_scan_spec [OF scan split(4) this]
  have ms: "{unat a'..<unat e2} \<union> covered rest = {unat a'..<unat e'} \<union> covered (drop (Suc i) rs)"
    "unat e' \<le> unat e2" "regions_ok rest" "\<forall>s \<in> set rest. unat e2 < r_lo s"
    "set rest \<subseteq> set (drop (Suc i) rs)" "length rest \<le> length (drop (Suc i) rs)"
    "e2 = e' \<or> e2 \<in> r_end ` set (drop (Suc i) rs)" by simp_all
  have rs': "rs' = take i rs @ [\<lparr>r_addr = a', r_size = e2 - a'\<rparr>] @ rest"
    using i scan by (simp add: rs'_def merge_upper_def r_end_def)
  note g = region_ok_mk [of a' e2]
  have lt: "unat a' < unat e2" using a' e' ae ms(2) by linarith
  have lows: "\<forall>s \<in> set (take i rs). r_hi s < unat a'"
  proof
    fix s assume s: "s \<in> set (take i rs)"
    then have "r_hi s < unat a" using in_set_take_less [OF below] by blast
    moreover have "r_hi s < r_lo ?r" using s ok split(1) by (metis UnCI list.set_intros(1)
          regions_ok_simps(3))
    ultimately show "r_hi s < unat a'" using a' by simp
  qed
  have okr: "regions_ok rs'"
    unfolding rs' using g [OF lt] lows ms(3,4) split(3) lt
    by (fastforce simp: regions_ok_simps)
  have cov: "covered rs' = covered (take i rs) \<union> ({unat a'..<unat e'} \<union> covered (drop (Suc i) rs))"
    unfolding rs' using g [OF lt] ms(1) by simp
  have "{unat a'..<unat e'} = {r_lo ?r..<r_hi ?r} \<union> {unat a..<unat e}"
    using a' e' ae touch split(2) by (auto simp: region_ok_def)
  moreover have "covered rs = covered (take i rs) \<union> ({r_lo ?r..<r_hi ?r} \<union> covered (drop (Suc i) rs))"
    by (subst split(1)) simp
  ultimately have cov': "covered rs' = covered rs \<union> {unat a..<unat e}" using cov by blast
  have al: "aligned_regions rs'" if al: "aligned_regions rs" "4096 dvd unat a" "4096 dvd unat e"
  proof -
    have sub: "set (take i rs) \<subseteq> set rs" "set rest \<subseteq> set rs" "?r \<in> set rs"
      using ms(5) set_take_subset [of i rs] set_drop_subset [of "Suc i" rs] i by auto
    have "4096 dvd unat a'" "4096 dvd unat e'"
      using a' e' al sub(3) by (auto simp: aligned_regions_def min_def max_def)
    moreover have "4096 dvd unat e2"
      using ms(7) calculation al(1) set_drop_subset [of "Suc i" rs] ok
      by (auto simp: aligned_regions_def regions_ok_def unat_r_end)
    ultimately show ?thesis
      using al(1) sub g [OF lt] unfolding rs' by (auto simp: aligned_regions_def)
  qed
  have "length rs' \<le> length rs" unfolding rs' using ms(6) i by simp
  with okr cov' al show ?thesis by blast
qed

lemma insert_region_Some:
  assumes ok: "regions_ok rs" and nw: "unat a + unat sz < 2 ^ 64" "0 < unat sz"
    and ins: "insert_region rs mx a sz = Some rs'" and len: "length rs \<le> mx"
  shows "regions_ok rs' \<and> covered rs' = covered rs \<union> {unat a..<unat a + unat sz} \<and>
    length rs' \<le> mx \<and>
    (aligned_regions rs \<and> 4096 dvd unat a \<and> 4096 dvd unat sz \<longrightarrow> aligned_regions rs')"
proof -
  define e where "e = a + sz"
  have e: "unat e = unat a + unat sz" using nw(1) by (simp add: e_def unat_add_no_wrap)
  then have ae: "unat a < unat e" using nw(2) by simp
  obtain i hit where slot: "find_slot rs a e 0 = (i, hit)" by fastforce
  from find_slot_spec [OF slot ok ae] have below: "i \<le> length rs" "\<forall>j < i. r_hi (rs ! j) < unat a"
    and at: "if hit then i < length rs \<and> unat a \<le> r_hi (rs ! i) \<and> r_lo (rs ! i) \<le> unat e
      else i < length rs \<longrightarrow> unat e < r_lo (rs ! i)" by auto
  show ?thesis
  proof (cases hit)
    case True
    with at ins slot merge_hit_spec [OF ok _ ae below(2)] len
    show ?thesis
      by (fastforce simp: insert_region_def Let_def e e_def [symmetric])
  next
    case False
    let ?n = "\<lparr>r_addr = a, r_size = sz\<rparr>"
    have rs': "rs' = take i rs @ [?n] @ drop i rs" and lt: "length rs < mx"
      using False ins slot by (auto simp: insert_region_def Let_def e_def [symmetric] split: if_splits)
    have n: "r_lo ?n = unat a" "r_hi ?n = unat e" "region_ok ?n"
      using e ae nw(1) by (simp_all add: r_lo_def r_hi_def region_ok_def)
    have two: "regions_ok (take i rs)" "regions_ok (drop i rs)"
      "\<forall>r \<in> set (take i rs). \<forall>s \<in> set (drop i rs). r_hi r < r_lo s"
      using ok regions_ok_simps(3) [of "take i rs" "drop i rs"] by simp_all
    have above: "\<forall>s \<in> set (drop i rs). unat e < r_lo s"
    proof (cases "i < length rs")
      case True
      with regions_split [OF ok True] at False show ?thesis
        by (auto simp: nth_drop_one region_ok_def)
    qed simp
    have "\<forall>r \<in> set (take i rs). r_hi r < unat a" using in_set_take_less [OF below(2)] by blast
    then have "regions_ok rs'"
      unfolding rs' using two above n ae by (fastforce simp: regions_ok_simps)
    moreover have "covered rs' = covered rs \<union> {unat a..<unat e}"
      unfolding rs' using n covered_simps(3) [of "take i rs" "drop i rs"] by auto
    moreover have "length rs' \<le> mx" unfolding rs' using lt below(1) by simp
    moreover have "aligned_regions rs'"
      if "aligned_regions rs" "4096 dvd unat a" "4096 dvd unat sz"
      unfolding rs' using that n e set_take_subset [of i rs] set_drop_subset [of i rs]
      by (auto simp: aligned_regions_def)
    ultimately show ?thesis by (simp add: e)
  qed
qed

lemma insert_region_None:
  assumes ok: "regions_ok rs" and nw: "unat a + unat sz < 2 ^ 64" "0 < unat sz"
    and ins: "insert_region rs mx a sz = None"
  shows "mx \<le> length rs"
  using ins by (auto simp: insert_region_def Let_def split: if_splits prod.splits)

section \<open>The two lists\<close>

definition physmem_inv :: "physmem \<Rightarrow> bool" where [inv_simps]:
  "physmem_inv s \<longleftrightarrow>
     regions_ok (hwregions s) \<and> aligned_regions (hwregions s) \<and> length (hwregions s) \<le> MAX_HWCNT \<and>
     regions_ok (exregions s) \<and> aligned_regions (exregions s) \<and> length (exregions s) \<le> MAX_EXCNT"

lemma physmem_inv_boot: "physmem_inv physmem_boot"
  by (simp add: physmem_inv_def physmem_boot_def regions_ok_simps aligned_regions_def)

text \<open>The whole pages inside, and the pages touched by, a byte range.\<close>

definition pages_inside :: "nat \<Rightarrow> nat \<Rightarrow> nat set" where
  "pages_inside lo hi = {(lo + 4095) div 4096 * 4096..<hi div 4096 * 4096}"

definition pages_touched :: "nat \<Rightarrow> nat \<Rightarrow> nat set" where
  "pages_touched lo hi = {lo div 4096 * 4096..<(hi + 4095) div 4096 * 4096}"

lemma unat_diff_aligned:
  assumes "start < end'" "4096 dvd unat start" "4096 dvd unat end'"
  shows "unat (end' - start) = unat end' - unat start" "4096 dvd unat (end' - start)"
    "unat start + unat (end' - start) = unat end'" "0 < unat (end' - start)"
  using assms by (auto simp: unat_sub word_less_nat_alt word_le_nat_alt)

lemma hardware_region_effect:
  assumes inv: "physmem_inv s" and nw: "unat pa + unat sz < 2 ^ 64" "unat pa + 4095 < 2 ^ 64"
    and run: "physmem_hardware_region pa sz s = Inr s'"
  shows "physmem_inv s'" "covered (hwregions s') = covered (hwregions s) \<union>
      pages_inside (unat pa) (unat pa + unat sz)"
    "exregions s' = exregions s"
proof -
  define st where "st = PGROUNDUP pa"
  define en where "en = PGROUNDDW (pa + sz)"
  have u: "unat st = (unat pa + 4095) div 4096 * 4096"
    "unat en = (unat pa + unat sz) div 4096 * 4096"
    using nw by (simp_all add: st_def en_def unat_PGROUNDUP unat_PGROUNDDW unat_add_no_wrap)
  then have al: "4096 dvd unat st" "4096 dvd unat en" by simp_all
  have "physmem_inv s' \<and> covered (hwregions s') = covered (hwregions s) \<union> {unat st..<unat en} \<and>
    exregions s' = exregions s"
  proof (cases "en \<le> st")
    case True
    then show ?thesis using run inv
      by (simp add: physmem_hardware_region_def st_def en_def Let_def word_le_nat_alt)
  next
    case False
    note d = unat_diff_aligned [OF _ al] 
    obtain rs where ins: "insert_region (hwregions s) MAX_HWCNT st (en - st) = Some rs"
      and s': "s' = s\<lparr>hwregions := rs\<rparr>"
      using run False
      by (auto simp: physmem_hardware_region_def st_def en_def Let_def split: option.splits)
    have "unat st + unat (en - st) < 2 ^ 64" "0 < unat (en - st)"
      using False d(3,4) unsigned_less [of en] by auto
    from insert_region_Some [OF _ this ins] inv d(2,3) False al(1)
    show ?thesis unfolding s' by (auto simp: physmem_inv_def)
  qed
  then show "physmem_inv s'" "covered (hwregions s') = covered (hwregions s) \<union>
      pages_inside (unat pa) (unat pa + unat sz)" "exregions s' = exregions s"
    by (auto simp: pages_inside_def u)
qed

lemma exclude_region_effect:
  assumes inv: "physmem_inv s" and nw: "unat pa + unat sz + 4095 < 2 ^ 64"
    and run: "physmem_exclude_region pa sz s = Inr s'"
  shows "physmem_inv s'" "covered (exregions s') = covered (exregions s) \<union>
      pages_touched (unat pa) (unat pa + unat sz)"
    "hwregions s' = hwregions s"
proof -
  define st where "st = PGROUNDDW pa"
  define en where "en = PGROUNDUP (pa + sz)"
  have u: "unat st = unat pa div 4096 * 4096"
    "unat en = (unat pa + unat sz + 4095) div 4096 * 4096"
    using nw by (simp_all add: st_def en_def unat_PGROUNDUP unat_PGROUNDDW unat_add_no_wrap)
  then have al: "4096 dvd unat st" "4096 dvd unat en" by simp_all
  have "physmem_inv s' \<and> covered (exregions s') = covered (exregions s) \<union> {unat st..<unat en} \<and>
    hwregions s' = hwregions s"
  proof (cases "en \<le> st")
    case True
    then show ?thesis using run inv
      by (simp add: physmem_exclude_region_def st_def en_def Let_def word_le_nat_alt)
  next
    case False
    note d = unat_diff_aligned [OF _ al]
    obtain rs where ins: "insert_region (exregions s) MAX_EXCNT st (en - st) = Some rs"
      and s': "s' = s\<lparr>exregions := rs\<rparr>"
      using run False
      by (auto simp: physmem_exclude_region_def st_def en_def Let_def split: option.splits)
    have "unat st + unat (en - st) < 2 ^ 64" "0 < unat (en - st)"
      using False d(3,4) unsigned_less [of en] by auto
    from insert_region_Some [OF _ this ins] inv d(2,3) False al(1)
    show ?thesis unfolding s' by (auto simp: physmem_inv_def)
  qed
  then show "physmem_inv s'" "covered (exregions s') = covered (exregions s) \<union>
      pages_touched (unat pa) (unat pa + unat sz)" "hwregions s' = hwregions s"
    by (auto simp: pages_touched_def u)
qed

section \<open>The subtraction without the segment limit\<close>

definition mk_seg :: "uint64 \<Rightarrow> uint64 \<Rightarrow> vm_phys_seg list" where
  "mk_seg s e = (if s \<ge> e then [] else [\<lparr>seg_start = s, seg_end = e, first_page = None\<rparr>])"

fun pieces :: "uint64 \<Rightarrow> uint64 \<Rightarrow> region list \<Rightarrow> vm_phys_seg list" where
  "pieces s e [] = mk_seg s e"
| "pieces s e (x # xs) =
     (if r_end x \<le> s then pieces s e xs
      else if r_addr x \<ge> e then mk_seg s e
      else if r_addr x \<le> s then (if r_end x \<ge> e then [] else pieces (r_end x) e xs)
      else if r_end x \<ge> e then mk_seg s (r_addr x)
      else mk_seg s (r_addr x) @ pieces (r_end x) e xs)"

definition all_pieces :: "region list \<Rightarrow> region list \<Rightarrow> vm_phys_seg list" where
  "all_pieces hs xs = concat (map (\<lambda>h. pieces (r_addr h) (r_end h) xs) hs)"

definition too_many_segs :: kerror where
  "too_many_segs = Panic ''physmem: too many segments (max %d)''"

lemma add_seg_mk_seg:
  "length segs \<le> VM_PHYSSEG_MAX \<Longrightarrow> add_seg s e segs =
     (if length segs + length (mk_seg s e) \<le> VM_PHYSSEG_MAX then Inr (segs @ mk_seg s e)
      else Inl too_many_segs)"
  by (simp add: add_seg_def mk_seg_def too_many_segs_def)

lemma avail_bank_pieces:
  "length segs \<le> VM_PHYSSEG_MAX \<Longrightarrow> avail_bank s e xs segs =
     (if length segs + length (pieces s e xs) \<le> VM_PHYSSEG_MAX then Inr (segs @ pieces s e xs)
      else Inl too_many_segs)"
proof (induction s e xs arbitrary: segs rule: pieces.induct)
  case (1 s e)
  then show ?case by (simp add: add_seg_mk_seg)
next
  case (2 s e x xs)
  then show ?case by (auto simp: add_seg_mk_seg Let_def) (auto simp: mk_seg_def)
qed

lemma avail_banks_pieces:
  "length segs \<le> VM_PHYSSEG_MAX \<Longrightarrow> avail_banks hs xs segs =
     (if length segs + length (all_pieces hs xs) \<le> VM_PHYSSEG_MAX then Inr (segs @ all_pieces hs xs)
      else Inl too_many_segs)"
proof (induction hs arbitrary: segs)
  case Nil
  then show ?case by (simp add: all_pieces_def)
next
  case (Cons h hs)
  then show ?case by (auto simp: avail_bank_pieces all_pieces_def)
qed

definition seg_lo :: "vm_phys_seg \<Rightarrow> nat" where "seg_lo g = unat (seg_start g)"
definition seg_hi :: "vm_phys_seg \<Rightarrow> nat" where "seg_hi g = unat (seg_end g)"

definition seg_covered :: "vm_phys_seg list \<Rightarrow> nat set" where
  "seg_covered gs = (\<Union>g \<in> set gs. {seg_lo g..<seg_hi g})"

definition segs_ok :: "vm_phys_seg list \<Rightarrow> bool" where
  "segs_ok gs \<longleftrightarrow> (\<forall>g \<in> set gs. seg_lo g < seg_hi g) \<and> sorted_wrt (\<lambda>g h. seg_hi g < seg_lo h) gs"

lemma segs_ok_simps:
  "segs_ok []"
  "segs_ok (g # gs) \<longleftrightarrow> seg_lo g < seg_hi g \<and> (\<forall>h \<in> set gs. seg_hi g < seg_lo h) \<and> segs_ok gs"
  "segs_ok (gs @ gs') \<longleftrightarrow>
     segs_ok gs \<and> segs_ok gs' \<and> (\<forall>g \<in> set gs. \<forall>h \<in> set gs'. seg_hi g < seg_lo h)"
  by (auto simp: segs_ok_def sorted_wrt_append)

lemma seg_covered_simps [simp]:
  "seg_covered [] = {}"
  "seg_covered (g # gs) = {seg_lo g..<seg_hi g} \<union> seg_covered gs"
  "seg_covered (gs @ gs') = seg_covered gs \<union> seg_covered gs'"
  by (auto simp: seg_covered_def)

definition within :: "nat \<Rightarrow> nat \<Rightarrow> vm_phys_seg list \<Rightarrow> bool" where
  "within lo hi gs \<longleftrightarrow> (\<forall>g \<in> set gs. lo \<le> seg_lo g \<and> seg_hi g \<le> hi)"

lemma mk_seg_spec:
  "segs_ok (mk_seg s e)" "seg_covered (mk_seg s e) = {unat s..<unat e}"
  "within (unat s) (unat e) (mk_seg s e)"
  "seg_start ` set (mk_seg s e) \<subseteq> {s}" "seg_end ` set (mk_seg s e) \<subseteq> {e}"
  by (auto simp: mk_seg_def segs_ok_simps seg_lo_def seg_hi_def within_def word_le_nat_alt)

lemma covered_above:
  assumes "regions_ok (x # xs)"
  shows "covered xs \<subseteq> {r_hi x..}" "r_lo x < r_hi x"
  using assms by (fastforce simp: covered_def regions_ok_simps region_ok_def)+

lemma pieces_spec:
  assumes "regions_ok xs"
  shows "segs_ok (pieces s e xs) \<and> seg_covered (pieces s e xs) = {unat s..<unat e} - covered xs \<and>
    within (unat s) (unat e) (pieces s e xs) \<and>
    seg_start ` set (pieces s e xs) \<subseteq> {s} \<union> r_end ` set xs \<and>
    seg_end ` set (pieces s e xs) \<subseteq> {e} \<union> r_addr ` set xs"
  using assms
proof (induction s e xs rule: pieces.induct)
  case (1 s e)
  then show ?case using mk_seg_spec [of s e] by auto
next
  case (2 s e x xs)
  have ok: "region_ok x" "regions_ok xs" using "2.prems" by (simp_all add: regions_ok_simps)
  note ab = covered_above [OF "2.prems"]
  note u = unat_r_end [OF ok(1)]
  have lo: "unat (r_addr x) = r_lo x" by (simp add: r_lo_def)
  consider (a) "r_end x \<le> s" | (b) "\<not> r_end x \<le> s" "r_addr x \<ge> e"
    | (c) "\<not> r_end x \<le> s" "\<not> r_addr x \<ge> e" "r_addr x \<le> s" "r_end x \<ge> e"
    | (d) "\<not> r_end x \<le> s" "\<not> r_addr x \<ge> e" "r_addr x \<le> s" "\<not> r_end x \<ge> e"
    | (f) "\<not> r_end x \<le> s" "\<not> r_addr x \<ge> e" "\<not> r_addr x \<le> s" "r_end x \<ge> e"
    | (g) "\<not> r_end x \<le> s" "\<not> r_addr x \<ge> e" "\<not> r_addr x \<le> s" "\<not> r_end x \<ge> e" by blast
  then show ?case
  proof cases
    case a
    then have "{unat s..<unat e} - covered (x # xs) = {unat s..<unat e} - covered xs"
      using u ab by (auto simp: word_le_nat_alt)
    with "2.IH"(1) [OF a ok(2)] a show ?thesis by auto
  next
    case b
    then have "{unat s..<unat e} - covered (x # xs) = {unat s..<unat e}"
      using u ab lo by (fastforce simp: word_le_nat_alt)
    with b mk_seg_spec [of s e] show ?thesis by auto
  next
    case c
    then have "{unat s..<unat e} - covered (x # xs) = {}"
      using u lo by (auto simp: word_le_nat_alt)
    with c show ?thesis by (auto simp: segs_ok_simps within_def)
  next
    case d
    then have "{unat s..<unat e} - covered (x # xs) = {unat (r_end x)..<unat e} - covered xs"
      "unat s \<le> unat (r_end x)"
      using u lo ab by (auto simp: word_le_nat_alt)
    with "2.IH"(2) [OF d ok(2)] d show ?thesis by (auto simp: within_def)
  next
    case f
    then have "{unat s..<unat e} - covered (x # xs) = {unat s..<unat (r_addr x)}"
      "unat (r_addr x) \<le> unat e"
      using u lo ab by (fastforce simp: word_le_nat_alt)+
    with f mk_seg_spec [of s "r_addr x"] show ?thesis by (auto simp: within_def)
  next
    case g
    then have "{unat s..<unat e} - covered (x # xs) =
        {unat s..<unat (r_addr x)} \<union> ({unat (r_end x)..<unat e} - covered xs)"
      "unat (r_addr x) < unat (r_end x)" "unat (r_addr x) \<le> unat e" "unat s \<le> unat (r_end x)"
      using u lo ab by (fastforce simp: word_le_nat_alt)+
    note geo = this
    define p q where "p = mk_seg s (r_addr x)" and "q = pieces (r_end x) e xs"
    have eq: "pieces s e (x # xs) = p @ q" using g by (simp add: p_def q_def)
    note q = "2.IH"(3) [OF g ok(2), folded q_def] and p = mk_seg_spec [of s "r_addr x", folded p_def]
    have "seg_hi g < seg_lo h" if "g \<in> set p" "h \<in> set q" for g h
      using that p(3) q geo(2) unfolding within_def by (metis le_less_trans order_less_le_trans)
    then have "segs_ok (p @ q)" using p(1) q by (simp add: segs_ok_simps)
    moreover have "within (unat s) (unat e) (p @ q)"
      using p(3) q geo(3,4) by (auto simp: within_def)
    moreover have "seg_covered (p @ q) = {unat s..<unat e} - covered (x # xs)"
      using p(2) q geo(1) by simp
    ultimately show ?thesis unfolding eq using p(4,5) q by auto
  qed
qed

lemma all_pieces_spec:
  assumes xs: "regions_ok xs" and hs: "regions_ok hs"
  shows "segs_ok (all_pieces hs xs) \<and> seg_covered (all_pieces hs xs) = covered hs - covered xs \<and>
    (\<forall>g \<in> set (all_pieces hs xs). \<exists>h \<in> set hs. r_lo h \<le> seg_lo g \<and> seg_hi g \<le> r_hi h) \<and>
    seg_start ` set (all_pieces hs xs) \<subseteq> r_addr ` set hs \<union> r_end ` set xs \<and>
    seg_end ` set (all_pieces hs xs) \<subseteq> r_end ` set hs \<union> r_addr ` set xs"
  using hs
proof (induction hs)
  case Nil
  then show ?case by (simp add: all_pieces_def segs_ok_simps)
next
  case (Cons h hs)
  have ok: "region_ok h" "regions_ok hs" "\<forall>k \<in> set hs. r_hi h < r_lo k"
    using Cons.prems by (simp_all add: regions_ok_simps)
  define p q where "p = pieces (r_addr h) (r_end h) xs" and "q = all_pieces hs xs"
  have eq: "all_pieces (h # hs) xs = p @ q" by (simp add: all_pieces_def p_def q_def)
  note p = pieces_spec [OF xs, of "r_addr h" "r_end h", folded p_def r_lo_def,
      unfolded unat_r_end [OF ok(1)]]
  note q = Cons.IH [OF ok(2), folded q_def]
  have "seg_hi g < seg_lo g'" if "g \<in> set p" "g' \<in> set q" for g g'
  proof -
    from q that(2) obtain k where "k \<in> set hs" "r_lo k \<le> seg_lo g'" by blast
    moreover have "seg_hi g \<le> r_hi h" using p that(1) by (simp add: within_def)
    ultimately show ?thesis using ok(3) by fastforce
  qed
  then have "segs_ok (p @ q)" using p q by (simp add: segs_ok_simps)
  moreover have "seg_covered (p @ q) = covered (h # hs) - covered xs" using p q by auto
  moreover have "\<forall>g \<in> set (p @ q). \<exists>k \<in> set (h # hs). r_lo k \<le> seg_lo g \<and> seg_hi g \<le> r_hi k"
    using p q by (auto simp: within_def)
  ultimately show ?case unfolding eq using p q by auto
qed

lemma segs_ok_distinct: "segs_ok gs \<Longrightarrow> distinct (map seg_start gs)"
proof (induction gs)
  case (Cons g gs)
  then have "seg_lo g < seg_lo h" if "h \<in> set gs" for h
    using that by (force simp: segs_ok_simps)
  with Cons show ?case by (fastforce simp: segs_ok_simps seg_lo_def)
qed simp

lemma all_pieces_length:
  assumes "regions_ok xs" "regions_ok hs"
  shows "length (all_pieces hs xs) \<le> length hs + length xs"
proof -
  let ?ps = "all_pieces hs xs"
  note ps = all_pieces_spec [OF assms]
  then have "distinct (map seg_start ?ps)" by (simp add: segs_ok_distinct)
  then have "length ?ps = card (seg_start ` set ?ps)"
    by (metis distinct_card length_map set_map)
  also have "\<dots> \<le> card (r_addr ` set hs \<union> r_end ` set xs)"
    using ps by (intro card_mono) auto
  also have "\<dots> \<le> card (r_addr ` set hs) + card (r_end ` set xs)" by (rule card_Un_le)
  also have "\<dots> \<le> length hs + length xs"
    by (metis add_mono card_length length_map set_map)
  finally show ?thesis .
qed

lemma physmem_avail_eq:
  assumes "physmem_inv s"
  shows "physmem_avail s = Inr (s\<lparr>vm_phys_segs := all_pieces (hwregions s) (exregions s)\<rparr>)"
proof -
  have "length (all_pieces (hwregions s) (exregions s)) \<le> VM_PHYSSEG_MAX"
    using all_pieces_length [of "exregions s" "hwregions s"] assms
    by (simp add: physmem_inv_def kdefs)
  then show ?thesis by (simp add: physmem_avail_def avail_banks_pieces)
qed

lemma seg_aligned:
  assumes "physmem_inv s" "g \<in> set (all_pieces (hwregions s) (exregions s))"
  shows "4096 dvd seg_lo g" "4096 dvd seg_hi g"
proof -
  note sp = all_pieces_spec [of "exregions s" "hwregions s"]
  have "seg_start g \<in> r_addr ` set (hwregions s) \<union> r_end ` set (exregions s)"
    "seg_end g \<in> r_end ` set (hwregions s) \<union> r_addr ` set (exregions s)"
    using assms sp by (auto simp: physmem_inv_def)
  then show "4096 dvd seg_lo g" "4096 dvd seg_hi g"
    using assms(1) unat_r_end
    by (auto simp: physmem_inv_def aligned_regions_def regions_ok_def seg_lo_def seg_hi_def r_lo_def)
qed

lemma find_segs_ok:
  assumes "segs_ok gs"
  shows "find (in_seg pa) gs = Some g \<longleftrightarrow> g \<in> set gs \<and> unat pa \<in> {seg_lo g..<seg_hi g}"
  using assms
proof (induction gs)
  case (Cons h gs)
  have ins: "in_seg pa k \<longleftrightarrow> unat pa \<in> {seg_lo k..<seg_hi k}" for k
    by (auto simp: in_seg_def seg_lo_def seg_hi_def word_le_nat_alt word_less_nat_alt)
  have "unat pa \<notin> {seg_lo k..<seg_hi k}" if "unat pa \<in> {seg_lo h..<seg_hi h}" "k \<in> set gs" for k
    using that Cons.prems by (fastforce simp: segs_ok_simps)
  with Cons show ?case by (auto simp: ins segs_ok_simps)
qed simp

lemma physmem_size_sum:
  assumes "segs_ok gs" "(\<Sum>g \<leftarrow> gs. seg_hi g - seg_lo g) + unat z < 2 ^ 64"
  shows "unat (foldl (\<lambda>sz g. sz + (seg_end g - seg_start g)) z gs) =
    (\<Sum>g \<leftarrow> gs. seg_hi g - seg_lo g) + unat z"
  using assms
proof (induction gs arbitrary: z)
  case (Cons g gs)
  have "unat (seg_end g - seg_start g) = seg_hi g - seg_lo g"
    using Cons.prems(1)
    by (simp add: unat_sub seg_hi_def seg_lo_def segs_ok_simps word_le_nat_alt)
  moreover from this have "unat (z + (seg_end g - seg_start g)) = unat z + (seg_hi g - seg_lo g)"
    using Cons.prems(2) by (simp add: unat_add_no_wrap)
  ultimately show ?case using Cons by (simp add: segs_ok_simps)
qed simp

section \<open>Boot-time use\<close>

text \<open>
  The states the map can be in while the device tree is parsed and the kernel claims its own
  memory: any sequence of bank reports, exclusions and recomputations whose ranges stay clear of
  the top of the address space.
\<close>

inductive physmem_reach :: "physmem \<Rightarrow> bool" where
  boot: "physmem_reach physmem_boot"
| bank: "physmem_reach s \<Longrightarrow> unat pa + unat sz + 4095 < 2 ^ 64 \<Longrightarrow>
    physmem_hardware_region pa sz s = Inr s' \<Longrightarrow> physmem_reach s'"
| excl: "physmem_reach s \<Longrightarrow> unat pa + unat sz + 4095 < 2 ^ 64 \<Longrightarrow>
    physmem_exclude_region pa sz s = Inr s' \<Longrightarrow> physmem_reach s'"
| avail: "physmem_reach s \<Longrightarrow> physmem_avail s = Inr s' \<Longrightarrow> physmem_reach s'"

lemma physmem_reach_inv: "physmem_reach s \<Longrightarrow> physmem_inv s"
proof (induction rule: physmem_reach.induct)
  case boot
  show ?case by (rule physmem_inv_boot)
next
  case (bank s pa sz s')
  then show ?case by (intro hardware_region_effect(1) [of s pa sz s']) auto
next
  case (excl s pa sz s')
  then show ?case by (intro exclude_region_effect(1) [of s pa sz s']) auto
next
  case (avail s s')
  then show ?case by (auto simp: physmem_avail_eq physmem_inv_def)
qed

text \<open>C1: \<open>physmem_avail\<close> never runs out of segments: from every state the boot code can build it
  succeeds, leaves both region lists alone, and publishes sorted, disjoint, page-aligned,
  nonempty segments that cover exactly the bytes of the memory banks that no exclusion covers.
\<close>

theorem physmem_avail_exact:
  assumes "physmem_reach s"
  shows "\<exists>s'. physmem_avail s = Inr s' \<and>
    seg_covered (vm_phys_segs s') = covered (hwregions s) - covered (exregions s) \<and>
    segs_ok (vm_phys_segs s') \<and>
    (\<forall>g \<in> set (vm_phys_segs s'). page_aligned (seg_start g) \<and> page_aligned (seg_end g)) \<and>
    hwregions s' = hwregions s \<and> exregions s' = exregions s"
proof -
  have inv: "physmem_inv s" using assms by (rule physmem_reach_inv)
  then have "regions_ok (exregions s)" "regions_ok (hwregions s)"
    by (simp_all add: physmem_inv_def)
  note sp = all_pieces_spec [OF this]
  let ?s' = "s\<lparr>vm_phys_segs := all_pieces (hwregions s) (exregions s)\<rparr>"
  have "\<forall>g \<in> set (vm_phys_segs ?s'). page_aligned (seg_start g) \<and> page_aligned (seg_end g)"
    using seg_aligned [OF inv] by (simp add: page_aligned_def seg_lo_def seg_hi_def)
  moreover have "segs_ok (vm_phys_segs ?s')"
    "seg_covered (vm_phys_segs ?s') = covered (hwregions s) - covered (exregions s)"
    using sp by simp_all
  moreover have "hwregions ?s' = hwregions s" "exregions ?s' = exregions s" by simp_all
  ultimately show ?thesis using physmem_avail_eq [OF inv] by blast
qed

lemma insert_region_below_capacity: "length rs < mx \<Longrightarrow> \<exists>rs'. insert_region rs mx a sz = Some rs'"
  by (cases "find_slot rs a (a + sz) 0") (simp add: insert_region_def Let_def)

lemma region_below_capacity:
  "length (hwregions s) < MAX_HWCNT \<Longrightarrow> \<exists>s'. physmem_hardware_region pa sz s = Inr s'"
  "length (exregions s) < MAX_EXCNT \<Longrightarrow> \<exists>s'. physmem_exclude_region pa sz s = Inr s'"
  using insert_region_below_capacity [of "hwregions s" MAX_HWCNT "PGROUNDUP pa" "PGROUNDDW (pa + sz) - PGROUNDUP pa"]
    insert_region_below_capacity [of "exregions s" MAX_EXCNT "PGROUNDDW pa" "PGROUNDUP (pa + sz) - PGROUNDDW pa"]
  by (auto simp: physmem_hardware_region_def physmem_exclude_region_def Let_def)

text \<open>Recording a bank or an exclusion changes the address set of its list by exactly the rounded
  range: banks shrink to the whole pages inside the report, exclusions grow to every page the
  range touches. Both lists stay sorted, coalesced and within their capacity, and a list below its
  capacity always takes the range.
\<close>

theorem physmem_regions_effect:
  assumes "physmem_reach s" "unat pa + unat sz + 4095 < 2 ^ 64"
  shows "(length (hwregions s) < MAX_HWCNT \<longrightarrow> (\<exists>s'. physmem_hardware_region pa sz s = Inr s')) \<and>
    (length (exregions s) < MAX_EXCNT \<longrightarrow> (\<exists>s'. physmem_exclude_region pa sz s = Inr s')) \<and>
    (\<forall>s'. physmem_hardware_region pa sz s = Inr s' \<longrightarrow> physmem_inv s' \<and>
      covered (hwregions s') = covered (hwregions s) \<union> pages_inside (unat pa) (unat pa + unat sz) \<and>
      exregions s' = exregions s) \<and>
    (\<forall>s'. physmem_exclude_region pa sz s = Inr s' \<longrightarrow> physmem_inv s' \<and>
      covered (exregions s') = covered (exregions s) \<union> pages_touched (unat pa) (unat pa + unat sz) \<and>
      hwregions s' = hwregions s)"
proof (intro conjI allI impI)
  show "\<exists>s'. physmem_hardware_region pa sz s = Inr s'" if "length (hwregions s) < MAX_HWCNT"
    using that by (rule region_below_capacity)
  show "\<exists>s'. physmem_exclude_region pa sz s = Inr s'" if "length (exregions s) < MAX_EXCNT"
    using that by (rule region_below_capacity)
next
  have inv: "physmem_inv s" using assms(1) by (rule physmem_reach_inv)
  have nw: "unat pa + unat sz < 2 ^ 64" "unat pa + 4095 < 2 ^ 64" using assms(2) by simp_all
  fix s' assume "physmem_hardware_region pa sz s = Inr s'"
  then show "physmem_inv s'" "exregions s' = exregions s"
    "covered (hwregions s') = covered (hwregions s) \<union> pages_inside (unat pa) (unat pa + unat sz)"
    by (fact hardware_region_effect [OF inv nw])+
next
  have inv: "physmem_inv s" using assms(1) by (rule physmem_reach_inv)
  fix s' assume "physmem_exclude_region pa sz s = Inr s'"
  then show "physmem_inv s'" "hwregions s' = hwregions s"
    "covered (exregions s') = covered (exregions s) \<union> pages_touched (unat pa) (unat pa + unat sz)"
    by (fact exclude_region_effect [OF inv assms(2)])+
qed

text \<open>Looking an address up finds a segment exactly when the address is usable memory, the segment
  found contains it, and a second \<open>physmem_avail\<close> publishes the same segments.
\<close>

theorem physmem_seg_lookup:
  assumes "physmem_reach s" "physmem_avail s = Inr s'"
  shows "(physmem_seg pa s' \<noteq> None \<longleftrightarrow>
      unat pa \<in> covered (hwregions s) - covered (exregions s)) \<and>
    (\<forall>g. physmem_seg pa s' = Some g \<longrightarrow> g \<in> set (vm_phys_segs s') \<and>
      unat pa \<in> {seg_lo g..<seg_hi g}) \<and>
    physmem_avail s' = Inr s'"
proof -
  have inv: "physmem_inv s" using assms(1) by (rule physmem_reach_inv)
  then have ok: "regions_ok (exregions s)" "regions_ok (hwregions s)"
    by (simp_all add: physmem_inv_def)
  have s': "s' = s\<lparr>vm_phys_segs := all_pieces (hwregions s) (exregions s)\<rparr>"
    using assms(2) by (simp add: physmem_avail_eq [OF inv])
  note sp = all_pieces_spec [OF ok]
  then have "segs_ok (vm_phys_segs s')" by (simp add: s')
  note fnd = find_segs_ok [OF this, of pa]
  have "physmem_seg pa s' \<noteq> None \<longleftrightarrow> unat pa \<in> seg_covered (vm_phys_segs s')"
    using fnd by (auto simp: physmem_seg_def seg_covered_def)
  moreover have "seg_covered (vm_phys_segs s') = covered (hwregions s) - covered (exregions s)"
    using sp by (simp add: s')
  moreover have "physmem_inv s'" using inv by (simp add: s' physmem_inv_def)
  then have "physmem_avail s' = Inr s'" by (simp add: physmem_avail_eq s')
  ultimately show ?thesis using fnd by (auto simp: physmem_seg_def)
qed

section \<open>A QEMU-like map\<close>

text \<open>One gigabyte at \<^verbatim>\<open>0x40000000\<close> with the kernel image withheld.\<close>

definition qemu_map :: physmem where
  "qemu_map = \<lparr>hwregions = [\<lparr>r_addr = 0x40000000, r_size = 0x40000000\<rparr>],
     exregions = [\<lparr>r_addr = 0x40080000, r_size = 0x100000\<rparr>], vm_phys_segs = []\<rparr>"

lemma qemu_map_reach: "physmem_reach qemu_map"
proof -
  let ?b = "\<lparr>hwregions = [\<lparr>r_addr = 0x40000000, r_size = 0x40000000\<rparr>], exregions = [],
     vm_phys_segs = []\<rparr>"
  have "physmem_hardware_region 0x40000000 0x40000000 physmem_boot = Inr ?b"
    by (simp add: physmem_hardware_region_def physmem_boot_def PGROUNDUP_def PGROUNDDW_def PGSIZE_def
        insert_region_def find_slot.simps kdefs)
  then have "physmem_reach ?b" by (rule physmem_reach.bank [OF physmem_reach.boot, rotated]) simp
  moreover have "physmem_exclude_region 0x40080000 0x100000 ?b = Inr qemu_map"
    by (simp add: physmem_exclude_region_def qemu_map_def PGROUNDUP_def PGROUNDDW_def PGSIZE_def
        insert_region_def find_slot.simps kdefs)
  ultimately show ?thesis
    by (intro physmem_reach.excl [of ?b "0x40080000" "0x100000" qemu_map]) simp_all
qed

lemma qemu_map_avail:
  "physmem_avail qemu_map = Inr (qemu_map\<lparr>vm_phys_segs :=
     [\<lparr>seg_start = 0x40000000, seg_end = 0x40080000, first_page = None\<rparr>,
      \<lparr>seg_start = 0x40180000, seg_end = 0x80000000, first_page = None\<rparr>]\<rparr>)"
  by (simp add: physmem_avail_def qemu_map_def add_seg_def r_end_def kdefs)

theorem physmem_avail_exact_witness:
  "\<exists>s'. physmem_avail qemu_map = Inr s' \<and>
    seg_covered (vm_phys_segs s') = covered (hwregions qemu_map) - covered (exregions qemu_map)"
  using physmem_avail_exact [OF qemu_map_reach] by blast

theorem physmem_regions_effect_witness:
  "\<exists>s'. physmem_exclude_region 0x50000001 1 qemu_map = Inr s' \<and>
    covered (exregions s') = covered (exregions qemu_map) \<union> pages_touched 0x50000001 0x50000002"
proof -
  have u: "unat (0x50000001 :: uint64) + unat (1 :: uint64) + 4095 < 2 ^ 64"
    "unat (0x50000001 :: uint64) + unat (1 :: uint64) = 0x50000002" by simp_all
  have "length (exregions qemu_map) < MAX_EXCNT" by (simp add: qemu_map_def kdefs)
  then obtain s' where s': "physmem_exclude_region 0x50000001 1 qemu_map = Inr s'"
    using physmem_regions_effect [OF qemu_map_reach u(1)] by blast
  then have "covered (exregions s') = covered (exregions qemu_map) \<union>
      pages_touched (unat (0x50000001 :: uint64)) (unat (0x50000001 :: uint64) + unat (1 :: uint64))"
    using physmem_regions_effect [OF qemu_map_reach u(1)] by blast
  with s' show ?thesis unfolding u(2) by auto
qed

theorem physmem_seg_lookup_witness:
  "\<exists>s'. physmem_avail qemu_map = Inr s' \<and> physmem_avail s' = Inr s'"
  using physmem_seg_lookup [OF qemu_map_reach qemu_map_avail] qemu_map_avail by blast

end
