(* ===== verification/Kalloc.thy ===== *)
theory Kalloc
  imports Physmem
begin

text \<open>
  The physical page allocator (\<^verbatim>\<open>vm/kalloc.c\<close>) and the boot allocator it starts from
  (\<^verbatim>\<open>boot_alloc\<close> in \<^verbatim>\<open>arch/pmap.c\<close>). A \<^verbatim>\<open>struct page *\<close> is an index into the descriptor
  array; the array's segments' slices start at \<open>first_page\<close>. The free list is the linked list the
  code keeps through \<open>pg_next\<close>. Every operation runs under \<open>kmem.lock\<close> and is one step.
  The record is extensible: the components above add their own fields.
\<close>

section \<open>State and operations\<close>

definition PG_UNUSED :: uint32 where [kdefs]: "PG_UNUSED = 0"
definition PG_FREE :: uint32 where [kdefs]: "PG_FREE = 1"
definition PG_USED :: uint32 where [kdefs]: "PG_USED = 2"
definition PG_SLAB :: uint32 where [kdefs]: "PG_SLAB = 3"

record page =
  pg_next :: "nat option"
  pg_flags :: uint32
  pg_refcnt :: "32 word"

record kmem =
  km_phys :: physmem
  km_boot :: uint64            \<comment> \<open>\<open>boot_freemem\<close>\<close>
  km_array :: uint64           \<comment> \<open>physical address of the descriptor array\<close>
  km_npages :: uint64
  km_pages :: "page list"
  km_freelist :: "nat option"

definition boot_alloc :: "uint64 \<Rightarrow> 'a kmem_scheme \<Rightarrow> uint64 \<times> 'a kmem_scheme" where
  "boot_alloc n s = (km_boot s, s\<lparr>km_boot := km_boot s + n * PGSIZE\<rparr>)"

text \<open>Pages of a segment, and the descriptors before a segment's slice.\<close>

definition seg_npages :: "vm_phys_seg \<Rightarrow> nat" where
  "seg_npages g = unat (drop_bit PGSHIFT (seg_end g - seg_start g))"

definition pa_to_page :: "uint64 \<Rightarrow> 'a kmem_scheme \<Rightarrow> nat option" where
  "pa_to_page pa s =
     (case physmem_seg pa (km_phys s) of None \<Rightarrow> None
      | Some g \<Rightarrow> map_option (\<lambda>f. f + unat (drop_bit PGSHIFT (pa - seg_start g))) (first_page g))"

definition holds_page :: "nat \<Rightarrow> vm_phys_seg \<Rightarrow> bool" where
  "holds_page pg g = (case first_page g of None \<Rightarrow> False | Some f \<Rightarrow> f \<le> pg \<and> pg < f + seg_npages g)"

definition page_to_pa :: "nat \<Rightarrow> 'a kmem_scheme \<Rightarrow> uint64 res" where
  "page_to_pa pg s =
     (case find (holds_page pg) (vm_phys_segs (km_phys s)) of
        Some g \<Rightarrow> Inr (seg_start g + push_bit PGSHIFT (of_nat (pg - the (first_page g))))
      | None \<Rightarrow> Inl (Panic ''unreachable''))"

definition kpage_set_slab :: "uintptr \<Rightarrow> 'a kmem_scheme \<Rightarrow> 'a kmem_scheme res" where
  "kpage_set_slab va s =
     (case pa_to_page (KVA_TO_PA va) s of
        None \<Rightarrow> Inl (Panic ''kpage_set_slab: %p is not managed RAM'')
      | Some i \<Rightarrow> Inr (s\<lparr>km_pages := (km_pages s)[i := (km_pages s ! i)\<lparr>pg_flags := PG_SLAB\<rparr>]\<rparr>))"

definition kpage_is_slab :: "uintptr \<Rightarrow> 'a kmem_scheme \<Rightarrow> bool" where
  "kpage_is_slab va s =
     (case pa_to_page (KVA_TO_PA (PGROUNDDW va)) s of None \<Rightarrow> False
      | Some i \<Rightarrow> pg_flags (km_pages s ! i) = PG_SLAB)"

definition push_free :: "nat \<Rightarrow> 'a kmem_scheme \<Rightarrow> 'a kmem_scheme" where
  "push_free i s =
     s\<lparr>km_pages := (km_pages s)[i := \<lparr>pg_next = km_freelist s, pg_flags = PG_FREE, pg_refcnt = 0\<rparr>],
       km_freelist := Some i\<rparr>"

definition kpage_free :: "uintptr \<Rightarrow> 'a kmem_scheme \<Rightarrow> 'a kmem_scheme res" where
  "kpage_free va s =
     (let pa = KVA_TO_PA va in
      kassert (pa mod PGSIZE = 0) ''kfree: unaligned address %#lx''
        (case pa_to_page pa s of
           None \<Rightarrow> Inl (Panic ''kfree: %#lx is not managed RAM'')
         | Some i \<Rightarrow>
             kassert (pg_flags (km_pages s ! i) = PG_USED \<or> pg_flags (km_pages s ! i) = PG_SLAB)
               ''kpage_free: %#lx not allocated (flags %d)''
               (kassert (pg_refcnt (km_pages s ! i) = 1) ''kfree: %#lx bad refcnt %d''
                 (Inr (push_free i s)))))"

definition freelist_pop :: "'a kmem_scheme \<Rightarrow> nat option \<times> 'a kmem_scheme" where
  "freelist_pop s =
     (case km_freelist s of None \<Rightarrow> (None, s)
      | Some i \<Rightarrow>
          (Some i, s\<lparr>km_freelist := pg_next (km_pages s ! i),
             km_pages := (km_pages s)[i := (km_pages s ! i)\<lparr>pg_flags := PG_USED, pg_refcnt := 1\<rparr>]\<rparr>))"

text \<open>
  \<open>reclaim\<close> is \<open>kmem_reclaim\<close> of the slab allocator above, which may give pages back through
  \<open>kpage_free\<close> and returns how many it gave.
\<close>

definition kpage_alloc ::
  "('a kmem_scheme \<Rightarrow> (int \<times> 'a kmem_scheme) res) \<Rightarrow> 'a kmem_scheme
     \<Rightarrow> (uintptr option \<times> 'a kmem_scheme) res" where
  "kpage_alloc reclaim s =
     (let (pg, s1) = freelist_pop s in
      rbind (if pg = None then
               rbind (reclaim s1) (\<lambda>(n, s2). Inr (if n > 0 then freelist_pop s2 else (None, s2)))
             else Inr (pg, s1))
        (\<lambda>(pg, s3). case pg of None \<Rightarrow> Inr (None, s3)
           | Some i \<Rightarrow> rbind (page_to_pa i s3) (\<lambda>pa. Inr (Some (PA_TO_KVA pa), s3))))"

text \<open>\<open>kinit\<close>: slice the array across the segments, then put every page on the free list.\<close>

fun slice_segs :: "nat \<Rightarrow> vm_phys_seg list \<Rightarrow> vm_phys_seg list" where
  "slice_segs pg [] = []"
| "slice_segs pg (g # gs) = g\<lparr>first_page := Some pg\<rparr> # slice_segs (pg + seg_npages g) gs"

definition kinit_page :: "uint64 \<Rightarrow> 'a kmem_scheme \<Rightarrow> 'a kmem_scheme res" where
  "kinit_page pa s = (case pa_to_page pa s of None \<Rightarrow> Inl Fault | Some i \<Rightarrow> Inr (push_free i s))"

fun kinit_segs :: "vm_phys_seg list \<Rightarrow> 'a kmem_scheme \<Rightarrow> 'a kmem_scheme res option" where
  "kinit_segs [] s = Some (Inr s)"
| "kinit_segs (g # gs) s =
     (case for_pages kinit_page (seg_start g) (seg_end g) s of
        Some (Inr s') \<Rightarrow> kinit_segs gs s'
      | r \<Rightarrow> r)"

definition SIZEOF_PAGE :: uint64 where [kdefs]: "SIZEOF_PAGE = 16"

text \<open>\<open>raw\<close> is what the memory of the descriptor array holds before it is written.\<close>

definition kinit :: "(nat \<Rightarrow> page) \<Rightarrow> 'a kmem_scheme \<Rightarrow> 'a kmem_scheme res option" where
  "kinit raw s =
     (case physmem_avail (km_phys s) of Inl e \<Rightarrow> Some (Inl e)
      | Inr p1 \<Rightarrow>
          (let np = drop_bit PGSHIFT (physmem_size p1);
               array_bytes = PGROUNDUP (np * SIZEOF_PAGE);
               (array_pa, s1) = boot_alloc (drop_bit PGSHIFT array_bytes) s;
               no_room = Panic ''kinit: no room for the %lu KB page-descriptor array'' in
           case physmem_seg array_pa p1 of None \<Rightarrow> Some (Inl no_room)
           | Some g \<Rightarrow>
               if array_pa + array_bytes > seg_end g then Some (Inl no_room)
               else
                 (case rbind (physmem_exclude_region array_pa array_bytes p1) physmem_avail of
                    Inl e \<Rightarrow> Some (Inl e)
                  | Inr p2 \<Rightarrow>
                      (let p3 = p2\<lparr>vm_phys_segs := slice_segs 0 (vm_phys_segs p2)\<rparr> in
                       kinit_segs (vm_phys_segs p3)
                         (s1\<lparr>km_phys := p3, km_array := array_pa, km_npages := np,
                            km_pages := map raw [0..<unat np]\<rparr>)))))"

section \<open>Segments and descriptors\<close>

definition total_pages :: "vm_phys_seg list \<Rightarrow> nat" where
  "total_pages gs = sum_list (map seg_npages gs)"

fun sliced :: "nat \<Rightarrow> vm_phys_seg list \<Rightarrow> bool" where
  "sliced k [] \<longleftrightarrow> True"
| "sliced k (g # gs) \<longleftrightarrow> first_page g = Some k \<and> sliced (k + seg_npages g) gs"

definition seg_al :: "vm_phys_seg \<Rightarrow> bool" where
  "seg_al g \<longleftrightarrow> 4096 dvd seg_lo g \<and> 4096 dvd seg_hi g \<and> seg_lo g < seg_hi g"

lemma total_pages_simps [simp]:
  "total_pages [] = 0" "total_pages (g # gs) = seg_npages g + total_pages gs"
  by (simp_all add: total_pages_def)

lemma seg_npages_eq: "seg_al g \<Longrightarrow> seg_npages g = (seg_hi g - seg_lo g) div 4096"
  by (simp add: seg_npages_def seg_al_def seg_hi_def seg_lo_def PGSHIFT_def unat_drop_bit_div
      unat_sub word_le_nat_alt)

lemma seg_hi_npages: "seg_al g \<Longrightarrow> seg_hi g = seg_lo g + seg_npages g * 4096"
  by (simp add: seg_npages_eq seg_al_def)

text \<open>The descriptor of an address and the address of a descriptor, on sliced segments.\<close>

definition page_no :: "vm_phys_seg \<Rightarrow> uint64 \<Rightarrow> nat" where
  "page_no g pa = unat (drop_bit PGSHIFT (pa - seg_start g))"

lemma page_no_eq:
  assumes "unat pa \<in> {seg_lo g..<seg_hi g}"
  shows "page_no g pa = (unat pa - seg_lo g) div 4096"
  using assms by (simp add: page_no_def seg_lo_def PGSHIFT_def unat_drop_bit_div unat_sub word_le_nat_alt)

lemma page_no_less:
  assumes "seg_al g" "unat pa \<in> {seg_lo g..<seg_hi g}"
  shows "page_no g pa < seg_npages g"
proof -
  have "unat pa - seg_lo g < seg_npages g * 4096" using assms(2) seg_hi_npages [OF assms(1)] by auto
  then show ?thesis using assms(2) by (simp add: page_no_eq less_mult_imp_div_less)
qed

lemma sliced_bounds:
  assumes "sliced k gs" "g \<in> set gs"
  obtains f where "first_page g = Some f" "k \<le> f" "f + seg_npages g \<le> k + total_pages gs"
  using assms
proof (induction gs arbitrary: k thesis)
  case (Cons h gs)
  show ?case
  proof (cases "g = h")
    case True
    then show ?thesis using Cons.prems by simp
  next
    case False
    then have "g \<in> set gs" using Cons.prems(3) by simp
    obtain f where "first_page g = Some f" "k + seg_npages h \<le> f"
      "f + seg_npages g \<le> k + seg_npages h + total_pages gs"
      by (rule Cons.IH [of "k + seg_npages h"]) (use \<open>g \<in> set gs\<close> Cons.prems(2) in auto)
    then show ?thesis using Cons.prems(1) by simp
  qed
qed simp

lemma find_holds_page:
  assumes "sliced k gs" "g \<in> set gs" "first_page g = Some f" "j < seg_npages g"
  shows "find (holds_page (f + j)) gs = Some g"
  using assms
proof (induction gs arbitrary: k)
  case (Cons h gs)
  show ?case
  proof (cases "g = h")
    case True
    then show ?thesis using Cons.prems by (simp add: holds_page_def)
  next
    case False
    then have g: "g \<in> set gs" "sliced (k + seg_npages h) gs" using Cons.prems by simp_all
    have "k + seg_npages h \<le> f" using sliced_bounds [OF g(2,1)] Cons.prems(3) by auto
    then have "\<not> holds_page (f + j) h" using Cons.prems(1) by (simp add: holds_page_def)
    then show ?thesis using Cons.IH [OF g(2,1) Cons.prems(3,4)] by simp
  qed
qed simp

lemma sliced_covers:
  assumes "sliced k gs" "k \<le> i" "i < k + total_pages gs"
  obtains g f where "g \<in> set gs" "first_page g = Some f" "f \<le> i" "i < f + seg_npages g"
  using assms
proof (induction gs arbitrary: k thesis)
  case (Cons h gs)
  show ?case
  proof (cases "i < k + seg_npages h")
    case True
    then show ?thesis using Cons.prems(1) [of h k] Cons.prems(2,3) by simp
  next
    case False
    obtain g f where "g \<in> set gs" "first_page g = Some f" "f \<le> i" "i < f + seg_npages g"
      by (rule Cons.IH [where k = "k + seg_npages h"]) (use False Cons.prems in auto)
    then show ?thesis using Cons.prems(1) by (meson list.set_intros(2))
  qed
qed simp

lemma slice_segs_spec:
  "sliced k (slice_segs k gs)" "total_pages (slice_segs k gs) = total_pages gs"
  "map seg_start (slice_segs k gs) = map seg_start gs" "map seg_end (slice_segs k gs) = map seg_end gs"
  by (induction gs arbitrary: k) (simp_all add: seg_npages_def)

section \<open>Invariant and abstraction\<close>

abbreviation segs :: "'a kmem_scheme \<Rightarrow> vm_phys_seg list" where
  "segs s \<equiv> vm_phys_segs (km_phys s)"

definition layout_ok :: "'a kmem_scheme \<Rightarrow> bool" where [inv_simps]:
  "layout_ok s \<longleftrightarrow> segs_ok (segs s) \<and> (\<forall>g \<in> set (segs s). seg_al g) \<and> sliced 0 (segs s) \<and>
     total_pages (segs s) \<le> length (km_pages s)"

fun fpath :: "page list \<Rightarrow> nat option \<Rightarrow> nat list \<Rightarrow> bool" where
  "fpath ps st [] \<longleftrightarrow> st = None"
| "fpath ps st (i # is) \<longleftrightarrow> st = Some i \<and> fpath ps (pg_next (ps ! i)) is"

definition flag :: "'a kmem_scheme \<Rightarrow> nat \<Rightarrow> uint32" where
  "flag s i = pg_flags (km_pages s ! i)"

definition kalloc_inv :: "'a kmem_scheme \<Rightarrow> bool" where [inv_simps]:
  "kalloc_inv s \<longleftrightarrow> layout_ok s \<and>
     (\<exists>is. fpath (km_pages s) (km_freelist s) is \<and> distinct is \<and>
        set is = {i. i < total_pages (segs s) \<and> flag s i = PG_FREE}) \<and>
     (\<forall>i < total_pages (segs s). flag s i \<in> {PG_FREE, PG_USED, PG_SLAB} \<and>
        (flag s i \<noteq> PG_FREE \<longrightarrow> pg_refcnt (km_pages s ! i) = 1))"

text \<open>What the allocator is to its clients: the state of each page, by its kernel address.\<close>

definition page_state :: "'a kmem_scheme \<Rightarrow> uintptr \<Rightarrow> uint32 option" where
  "page_state s va =
     (if page_aligned (KVA_TO_PA va) then map_option (flag s) (pa_to_page (KVA_TO_PA va) s) else None)"

definition free_pages :: "'a kmem_scheme \<Rightarrow> uintptr set" where
  "free_pages s = {va. page_state s va = Some PG_FREE}"

definition owned :: "'a kmem_scheme \<Rightarrow> uintptr set" where
  "owned s = {va. page_state s va = Some PG_USED \<or> page_state s va = Some PG_SLAB}"

lemma page_aligned_mod: "page_aligned a \<longleftrightarrow> a mod PGSIZE = 0"
  by (simp add: page_aligned_def word_unat_eq_iff unat_mod dvd_eq_mod_eq_0)

lemma pa_to_page_iff:
  assumes "layout_ok s"
  shows "pa_to_page pa s = Some i \<longleftrightarrow>
    (\<exists>g f. g \<in> set (segs s) \<and> unat pa \<in> {seg_lo g..<seg_hi g} \<and> first_page g = Some f \<and>
       i = f + page_no g pa)"
proof -
  have ok: "segs_ok (segs s)" using assms by (simp add: layout_ok_def)
  show ?thesis
  proof (cases "find (in_seg pa) (segs s)")
    case None
    then have "\<not> (\<exists>g \<in> set (segs s). unat pa \<in> {seg_lo g..<seg_hi g})"
      using find_segs_ok [OF ok, of pa] by auto
    with None show ?thesis unfolding pa_to_page_def physmem_seg_def by auto
  next
    case (Some g)
    then have g: "g \<in> set (segs s)" "unat pa \<in> {seg_lo g..<seg_hi g}"
      using find_segs_ok [OF ok] by simp_all
    have "h = g" if "h \<in> set (segs s)" "unat pa \<in> {seg_lo h..<seg_hi h}" for h
      using find_segs_ok [OF ok, of pa h] that Some by simp
    then have "(\<exists>h f. h \<in> set (segs s) \<and> unat pa \<in> {seg_lo h..<seg_hi h} \<and> first_page h = Some f \<and>
        i = f + page_no h pa) \<longleftrightarrow> (\<exists>f. first_page g = Some f \<and> i = f + page_no g pa)"
      using g by blast
    then show ?thesis using Some by (auto simp: pa_to_page_def physmem_seg_def page_no_def)
  qed
qed

lemma pa_to_page_less:
  assumes "layout_ok s" "pa_to_page pa s = Some i"
  shows "i < total_pages (segs s)"
proof -
  obtain g f where g: "g \<in> set (segs s)" "unat pa \<in> {seg_lo g..<seg_hi g}" "first_page g = Some f"
    "i = f + page_no g pa" using assms pa_to_page_iff by blast
  have "seg_al g" "sliced 0 (segs s)" using assms(1) g(1) by (simp_all add: layout_ok_def)
  then show ?thesis
    using sliced_bounds [OF _ g(1), of 0] page_no_less [OF _ g(2)] g(3,4) by fastforce
qed

lemma page_to_pa_spec:
  assumes "layout_ok s" "i < total_pages (segs s)"
  shows "\<exists>pa. page_to_pa i s = Inr pa \<and> page_aligned pa \<and> pa_to_page pa s = Some i"
proof -
  have sl: "sliced 0 (segs s)" using assms(1) by (simp add: layout_ok_def)
  obtain g f where g: "g \<in> set (segs s)" "first_page g = Some f" "f \<le> i" "i < f + seg_npages g"
    using sliced_covers [OF sl, of i] assms(2) by auto
  define j where "j = i - f"
  have j: "i = f + j" "j < seg_npages g" using g by (simp_all add: j_def)
  have al: "seg_al g" using assms(1) g(1) by (simp add: layout_ok_def)
  have hi: "seg_lo g + j * 4096 < seg_hi g" using seg_hi_npages [OF al] j by simp
  have lt: "seg_hi g < 2 ^ 64" using unsigned_less [of "seg_end g"] by (simp add: seg_hi_def)
  define pa where "pa = seg_start g + push_bit PGSHIFT (of_nat j)"
  have "pa = seg_start g + of_nat j * PGSIZE" by (simp add: pa_def PGSHIFT_def PGSIZE_def push_bit_eq_mult)
  then have u: "unat pa = seg_lo g + j * 4096"
    using unat_page_range [of "seg_start g" j] hi lt by (simp add: seg_lo_def)
  have rng: "unat pa \<in> {seg_lo g..<seg_hi g}" using u hi by simp
  have "page_to_pa i s = Inr pa"
    using find_holds_page [OF sl g(1,2) j(2)] g(2) by (simp add: page_to_pa_def j pa_def)
  moreover have "page_aligned pa" using al u by (simp add: page_aligned_def seg_al_def)
  moreover have "pa_to_page pa s = Some i"
    unfolding pa_to_page_iff [OF assms(1)]
    using g(1,2) rng u j(1) by (intro exI [of _ g] exI [of _ f]) (simp add: page_no_eq)
  ultimately show ?thesis by blast
qed

lemma page_to_pa_to_page:
  assumes "layout_ok s" "page_aligned pa" "pa_to_page pa s = Some i"
  shows "page_to_pa i s = Inr pa"
proof -
  obtain g f where g: "g \<in> set (segs s)" "unat pa \<in> {seg_lo g..<seg_hi g}" "first_page g = Some f"
    "i = f + page_no g pa" using assms(1,3) pa_to_page_iff by blast
  have sl: "sliced 0 (segs s)" and al: "seg_al g" using assms(1) g(1) by (simp_all add: layout_ok_def)
  have "unat pa = seg_lo g + page_no g pa * 4096"
    using al assms(2) g(2) by (simp add: page_no_eq page_aligned_def seg_al_def)
  moreover have "unat pa < 2 ^ 64" using unsigned_less [of pa] by simp
  ultimately have "unat (seg_start g + of_nat (page_no g pa) * PGSIZE) = unat pa"
    by (subst unat_page_range) (simp_all add: seg_lo_def)
  then have "seg_start g + of_nat (page_no g pa) * PGSIZE = pa" by (simp only: word_unat_eq_iff)
  then have "pa = seg_start g + push_bit PGSHIFT (of_nat (page_no g pa))"
    by (simp add: PGSHIFT_def PGSIZE_def push_bit_eq_mult)
  then show ?thesis
    using find_holds_page [OF sl g(1,3) page_no_less [OF al g(2)]] g(3,4)
    by (simp add: page_to_pa_def)
qed

text \<open>Writing one descriptor changes the state of exactly one page.\<close>

lemma layout_ok_update:
  assumes "layout_ok s" "segs s' = segs s" "length (km_pages s') = length (km_pages s)"
  shows "layout_ok s'" "pa_to_page pa s' = pa_to_page pa s" "page_to_pa i s' = page_to_pa i s"
  using assms by (simp_all add: layout_ok_def pa_to_page_def page_to_pa_def physmem_seg_def)

lemma page_state_update:
  assumes "layout_ok s" "pa_to_page (KVA_TO_PA va) s = Some i" "page_aligned (KVA_TO_PA va)"
    "segs s' = segs s" "km_pages s' = (km_pages s)[i := p]"
  shows "page_state s' = (page_state s)(va \<mapsto> pg_flags p)"
proof
  fix va'
  have i: "i < length (km_pages s)"
    using pa_to_page_less [OF assms(1,2)] assms(1) by (simp add: layout_ok_def)
  have same: "pa_to_page pa s' = pa_to_page pa s" for pa
    using layout_ok_update(2) [OF assms(1,4)] assms(5) by simp
  show "page_state s' va' = ((page_state s)(va \<mapsto> pg_flags p)) va'"
  proof (cases "page_aligned (KVA_TO_PA va') \<and> pa_to_page (KVA_TO_PA va') s = Some i")
    case True
    then have "KVA_TO_PA va' = KVA_TO_PA va"
      using page_to_pa_to_page [OF assms(1)] assms(2,3) by (metis sum.inject(2))
    then have "va' = va" by (metis KVA_PA_inverse(2))
    then show ?thesis using True i by (simp add: page_state_def same flag_def assms(5))
  next
    case False
    then have "va' \<noteq> va" using assms(2,3) by auto
    then show ?thesis using False
      by (auto simp: page_state_def same flag_def assms(5) map_option_case nth_list_update
          split: option.split)
  qed
qed

section \<open>The operations on the abstract page states\<close>

lemma fpath_update: "fpath ps st is \<Longrightarrow> i \<notin> set is \<Longrightarrow> fpath (ps[i := p]) st is"
  by (induction ps st "is" rule: fpath.induct) auto

lemma PG_distinct [simp]:
  "PG_FREE \<noteq> PG_USED" "PG_USED \<noteq> PG_FREE" "PG_FREE \<noteq> PG_SLAB" "PG_SLAB \<noteq> PG_FREE"
  "PG_USED \<noteq> PG_SLAB" "PG_SLAB \<noteq> PG_USED"
  by (simp_all add: kdefs)

definition same_frame :: "'a kmem_scheme \<Rightarrow> 'a kmem_scheme \<Rightarrow> bool" where
  "same_frame s s' \<longleftrightarrow> km_phys s' = km_phys s \<and> km_boot s' = km_boot s \<and> km_array s' = km_array s \<and>
     km_npages s' = km_npages s \<and> kmem.more s' = kmem.more s"

lemma same_frame_refl [simp]: "same_frame s s"
  and same_frame_trans: "same_frame s s' \<Longrightarrow> same_frame s' s'' \<Longrightarrow> same_frame s s''"
  by (simp_all add: same_frame_def)

lemma push_free_parts [simp]:
  "km_phys (push_free i s) = km_phys s"
  "km_pages (push_free i s) = (km_pages s)[i := \<lparr>pg_next = km_freelist s, pg_flags = PG_FREE, pg_refcnt = 0\<rparr>]"
  "km_freelist (push_free i s) = Some i" "same_frame s (push_free i s)"
  by (simp_all add: push_free_def same_frame_def)

lemma push_free_path:
  assumes "fpath (km_pages s) (km_freelist s) is" "i \<notin> set is" "i < length (km_pages s)"
  shows "fpath (km_pages (push_free i s)) (km_freelist (push_free i s)) (i # is)"
  using assms by (simp add: fpath_update)

text \<open>The part of the invariant that speaks of one descriptor at a time.\<close>

lemma kalloc_inv_parts:
  assumes "kalloc_inv s"
  obtains "is" where "layout_ok s" "fpath (km_pages s) (km_freelist s) is" "distinct is"
    "set is = {i. i < total_pages (segs s) \<and> flag s i = PG_FREE}"
    "\<And>i. i < total_pages (segs s) \<Longrightarrow> flag s i \<in> {PG_FREE, PG_USED, PG_SLAB}"
    "\<And>i. i < total_pages (segs s) \<Longrightarrow> flag s i \<noteq> PG_FREE \<Longrightarrow> pg_refcnt (km_pages s ! i) = 1"
  using assms unfolding kalloc_inv_def by blast

lemma owned_iff:
  assumes "kalloc_inv s"
  shows "va \<in> owned s \<longleftrightarrow> page_aligned (KVA_TO_PA va) \<and>
    (\<exists>i. pa_to_page (KVA_TO_PA va) s = Some i \<and> flag s i \<noteq> PG_FREE)"
proof -
  have "layout_ok s" "\<forall>i < total_pages (segs s). flag s i \<in> {PG_FREE, PG_USED, PG_SLAB}"
    using assms unfolding kalloc_inv_def by simp_all
  then have "flag s i = PG_FREE \<or> flag s i = PG_USED \<or> flag s i = PG_SLAB"
    if "pa_to_page pa s = Some i" for pa i
    using pa_to_page_less [OF _ that] by blast
  then show ?thesis
    by (cases "pa_to_page (KVA_TO_PA va) s") (auto simp: owned_def page_state_def)
qed

lemma kpage_free_ok:
  assumes inv: "kalloc_inv s" and va: "va \<in> owned s"
  shows "\<exists>s'. kpage_free va s = Inr s' \<and> kalloc_inv s' \<and> page_state s' = (page_state s)(va \<mapsto> PG_FREE) \<and>
    same_frame s s'"
proof -
  obtain "is" where i0: "layout_ok s" "fpath (km_pages s) (km_freelist s) is" "distinct is"
    and sis: "set is = {i. i < total_pages (segs s) \<and> flag s i = PG_FREE}"
    and fl: "\<And>i. i < total_pages (segs s) \<Longrightarrow> flag s i \<in> {PG_FREE, PG_USED, PG_SLAB}"
    and rc: "\<And>i. i < total_pages (segs s) \<Longrightarrow> flag s i \<noteq> PG_FREE \<Longrightarrow> pg_refcnt (km_pages s ! i) = 1"
    by (rule kalloc_inv_parts [OF inv]) (rule that)
  obtain i where i: "page_aligned (KVA_TO_PA va)" "pa_to_page (KVA_TO_PA va) s = Some i" "flag s i \<noteq> PG_FREE"
    using va owned_iff [OF inv] by blast
  note tot = pa_to_page_less [OF i0(1) i(2)]
  have len: "i < length (km_pages s)" using tot i0(1) by (simp add: layout_ok_def)
  let ?s' = "push_free i s"
  have run: "kpage_free va s = Inr ?s'"
    using i fl [OF tot] rc [OF tot]
    by (simp add: kpage_free_def page_aligned_mod [symmetric] kassert_def flag_def [symmetric])
  have flag': "flag ?s' j = (if j = i then PG_FREE else flag s j)" for j
    using len by (simp add: flag_def)
  have "i \<notin> set is" using i(3) sis by simp
  then have "fpath (km_pages ?s') (km_freelist ?s') (i # is)" "distinct (i # is)"
    using push_free_path [OF i0(2) _ len] i0(3) by simp_all
  moreover have "set (i # is) = {j. j < total_pages (segs ?s') \<and> flag ?s' j = PG_FREE}"
    using sis tot unfolding flag' by auto
  moreover have "\<forall>j < total_pages (segs ?s'). flag ?s' j \<in> {PG_FREE, PG_USED, PG_SLAB} \<and>
      (flag ?s' j \<noteq> PG_FREE \<longrightarrow> pg_refcnt (km_pages ?s' ! j) = 1)"
    using fl rc unfolding flag' by simp
  moreover have "layout_ok ?s'" by (rule layout_ok_update(1) [OF i0(1)]) simp_all
  ultimately have "kalloc_inv ?s'" unfolding kalloc_inv_def by blast
  moreover have "page_state ?s' = (page_state s)(va \<mapsto> PG_FREE)"
    using page_state_update [OF i0(1) i(2,1), of ?s'] by simp
  ultimately show ?thesis using run push_free_parts(4) by blast
qed

lemma kpage_free_panics:
  assumes inv: "kalloc_inv s" and va: "va \<notin> owned s"
  shows "\<exists>m. kpage_free va s = Inl (Panic m)"
proof (cases "page_aligned (KVA_TO_PA va)")
  case al: True
  show ?thesis
  proof (cases "pa_to_page (KVA_TO_PA va) s")
    case (Some i)
    then have "flag s i = PG_FREE" using va al owned_iff [OF inv] by blast
    then show ?thesis using al Some by (simp add: kpage_free_def kassert_def flag_def Let_def page_aligned_mod)
  qed (use al in \<open>simp add: kpage_free_def kassert_def page_aligned_mod\<close>)
qed (simp add: kpage_free_def kassert_def page_aligned_mod)

lemma freelist_pop_None:
  assumes inv: "kalloc_inv s" and "km_freelist s = None"
  shows "free_pages s = {}" "freelist_pop s = (None, s)"
proof -
  obtain "is" where "layout_ok s" "fpath (km_pages s) (km_freelist s) is"
    "set is = {i. i < total_pages (segs s) \<and> flag s i = PG_FREE}"
    using inv unfolding kalloc_inv_def by blast
  then have "flag s i \<noteq> PG_FREE" if "pa_to_page pa s = Some i" for i pa
    using assms(2) pa_to_page_less [OF _ that] by (cases "is") auto
  then show "free_pages s = {}" by (auto simp: free_pages_def page_state_def)
qed (simp add: freelist_pop_def assms(2))

lemma freelist_pop_Some:
  assumes inv: "kalloc_inv s" and st: "km_freelist s = Some i"
  obtains s' va where "freelist_pop s = (Some i, s')" "page_to_pa i s' = Inr (KVA_TO_PA va)"
    "va \<in> free_pages s" "kalloc_inv s'" "page_state s' = (page_state s)(va \<mapsto> PG_USED)" "same_frame s s'"
proof -
  obtain is0 where i0: "layout_ok s" "fpath (km_pages s) (km_freelist s) is0" "distinct is0"
    and sis0: "set is0 = {i. i < total_pages (segs s) \<and> flag s i = PG_FREE}"
    and fl: "\<And>i. i < total_pages (segs s) \<Longrightarrow> flag s i \<in> {PG_FREE, PG_USED, PG_SLAB}"
    and rc: "\<And>i. i < total_pages (segs s) \<Longrightarrow> flag s i \<noteq> PG_FREE \<Longrightarrow> pg_refcnt (km_pages s ! i) = 1"
    by (rule kalloc_inv_parts [OF inv]) (rule that)
  obtain "is" where isi: "is0 = i # is" "fpath (km_pages s) (pg_next (km_pages s ! i)) is"
    using i0(2) st by (cases is0) auto
  have tot: "i < total_pages (segs s)" "flag s i = PG_FREE" using sis0 isi(1) by auto
  have len: "i < length (km_pages s)" using tot i0(1) by (simp add: layout_ok_def)
  let ?p = "(km_pages s ! i)\<lparr>pg_flags := PG_USED, pg_refcnt := 1\<rparr>"
  let ?s' = "s\<lparr>km_freelist := pg_next (km_pages s ! i), km_pages := (km_pages s)[i := ?p]\<rparr>"
  have run: "freelist_pop s = (Some i, ?s')" by (simp add: freelist_pop_def st)
  obtain pa where pa: "page_to_pa i s = Inr pa" "page_aligned pa" "pa_to_page pa s = Some i"
    using page_to_pa_spec [OF i0(1) tot(1)] by blast
  note lay = layout_ok_update [OF i0(1), of ?s']
  have flag': "flag ?s' j = (if j = i then PG_USED else flag s j)" for j
    using len by (simp add: flag_def)
  have "fpath (km_pages ?s') (km_freelist ?s') is" "distinct is"
    using isi i0(3) by (simp_all add: fpath_update)
  moreover have "set is = {j. j < total_pages (segs ?s') \<and> flag ?s' j = PG_FREE}"
    using sis0 isi(1) i0(3) unfolding flag' by auto
  moreover have "\<forall>j < total_pages (segs ?s'). flag ?s' j \<in> {PG_FREE, PG_USED, PG_SLAB} \<and>
      (flag ?s' j \<noteq> PG_FREE \<longrightarrow> pg_refcnt (km_pages ?s' ! j) = 1)"
    using fl rc len unfolding flag' by (simp add: nth_list_update)
  ultimately have "kalloc_inv ?s'" unfolding kalloc_inv_def using lay(1) by auto
  moreover have "page_to_pa i ?s' = Inr (KVA_TO_PA (PA_TO_KVA pa))" using lay(3) pa(1) by simp
  moreover have "PA_TO_KVA pa \<in> free_pages s" using pa(2,3) tot(2) by (simp add: free_pages_def page_state_def)
  moreover have "page_state ?s' = (page_state s)(PA_TO_KVA pa \<mapsto> PG_USED)"
    using page_state_update [OF i0(1), of "PA_TO_KVA pa" i ?s' ?p] pa(2,3) by simp
  moreover have "same_frame s ?s'" by (simp add: same_frame_def)
  ultimately show ?thesis using that [OF run] by blast
qed

lemma kpage_alloc_free:
  assumes inv: "kalloc_inv s" and "free_pages s \<noteq> {}"
  shows "\<exists>va s'. kpage_alloc reclaim s = Inr (Some va, s') \<and> va \<in> free_pages s \<and> kalloc_inv s' \<and>
    page_state s' = (page_state s)(va \<mapsto> PG_USED) \<and> same_frame s s'"
proof -
  obtain i where i: "km_freelist s = Some i" using assms freelist_pop_None by blast
  obtain s' va where "freelist_pop s = (Some i, s')" "page_to_pa i s' = Inr (KVA_TO_PA va)"
    "va \<in> free_pages s" "kalloc_inv s'" "page_state s' = (page_state s)(va \<mapsto> PG_USED)" "same_frame s s'"
    using freelist_pop_Some [OF inv i] by metis
  then show ?thesis by (simp add: kpage_alloc_def)
qed

lemma kpage_alloc_empty:
  assumes inv: "kalloc_inv s" and "free_pages s = {}"
  shows "kpage_alloc reclaim s = rbind (reclaim s) (\<lambda>(n, s'). if n > 0 then
    (case freelist_pop s' of (None, s'') \<Rightarrow> Inr (None, s'')
     | (Some i, s'') \<Rightarrow> rbind (page_to_pa i s'') (\<lambda>pa. Inr (Some (PA_TO_KVA pa), s''))) else Inr (None, s'))"
proof -
  have "km_freelist s = None"
    using assms freelist_pop_Some [OF inv] by (metis empty_iff not_Some_eq)
  then show ?thesis using freelist_pop_None [OF inv]
    by (cases "reclaim s") (auto simp: kpage_alloc_def split: option.split)
qed

section \<open>The interface of the page allocator\<close>

text \<open>
  What the clients (page tables, kernel stacks, slabs) rely on: a page handed out was available and
  is owned until it is given back, and a request fails only when nothing is available.
\<close>

locale page_allocator =
  fixes inv :: "'s \<Rightarrow> bool" and available taken :: "'s \<Rightarrow> 'p set"
    and palloc :: "'s \<Rightarrow> ('p option \<times> 's) res" and pfree :: "'p \<Rightarrow> 's \<Rightarrow> 's res"
  assumes palloc_ok: "inv s \<Longrightarrow> available s \<noteq> {} \<Longrightarrow> \<exists>p s'. palloc s = Inr (Some p, s') \<and> p \<in> available s \<and>
      inv s' \<and> available s' = available s - {p} \<and> taken s' = insert p (taken s)"
    and palloc_none: "inv s \<Longrightarrow> available s = {} \<Longrightarrow> palloc s = Inr (None, s)"
    and pfree_ok: "inv s \<Longrightarrow> p \<in> taken s \<Longrightarrow> \<exists>s'. pfree p s = Inr s' \<and> inv s' \<and>
      available s' = insert p (available s) \<and> taken s' = taken s - {p}"
    and pfree_bad: "inv s \<Longrightarrow> p \<notin> taken s \<Longrightarrow> \<exists>m. pfree p s = Inl (Panic m)"
    and separate: "inv s \<Longrightarrow> available s \<inter> taken s = {}"
    and fin: "inv s \<Longrightarrow> finite (available s)"
begin

text \<open>Allocate pages until \<open>n\<close> are in hand or memory runs out; give back a list of pages.\<close>

fun take_pages :: "nat \<Rightarrow> 's \<Rightarrow> ('p list \<times> 's) res" where
  "take_pages 0 s = Inr ([], s)"
| "take_pages (Suc n) s = rbind (palloc s) (\<lambda>(r, s'). case r of None \<Rightarrow> Inr ([], s')
     | Some p \<Rightarrow> rbind (take_pages n s') (\<lambda>(ps, s''). Inr (p # ps, s'')))"

lemma take_pages_spec:
  assumes "inv s"
  shows "\<exists>ps s'. take_pages n s = Inr (ps, s') \<and> inv s' \<and> length ps = min n (card (available s)) \<and>
    distinct ps \<and> set ps \<subseteq> available s \<and> available s' = available s - set ps \<and>
    taken s' = taken s \<union> set ps"
  using assms
proof (induction n arbitrary: s)
  case (Suc n)
  show ?case
  proof (cases "available s = {}")
    case True
    then show ?thesis using palloc_none [OF Suc.prems True] Suc.prems by simp
  next
    case False
    obtain p s1 where a: "palloc s = Inr (Some p, s1)" "p \<in> available s" "inv s1"
      "available s1 = available s - {p}" "taken s1 = insert p (taken s)"
      using palloc_ok [OF Suc.prems False] by blast
    obtain ps s' where b: "take_pages n s1 = Inr (ps, s')" "inv s'"
      "length ps = min n (card (available s1))" "distinct ps" "set ps \<subseteq> available s1"
      "available s' = available s1 - set ps" "taken s' = taken s1 \<union> set ps"
      using Suc.IH [OF a(3)] by blast
    have "card (available s) = Suc (card (available s1))"
      unfolding a(4) using a(2) fin [OF Suc.prems] by (rule card_Suc_Diff1 [symmetric, rotated])
    then have "length (p # ps) = min (Suc n) (card (available s))" using b(3) by simp
    moreover have "distinct (p # ps)" "set (p # ps) \<subseteq> available s" "available s' = available s - set (p # ps)"
      "taken s' = taken s \<union> set (p # ps)"
      using a(2,4,5) b(4-7) by auto
    moreover have "take_pages (Suc n) s = Inr (p # ps, s')" using a(1) b(1) by simp
    ultimately show ?thesis using b(2) by blast
  qed
qed (simp add: assms)

lemma give_back_spec:
  assumes "inv s" "set ps \<subseteq> taken s" "distinct ps"
  shows "\<exists>s'. seq_res pfree ps s = Inr s' \<and> inv s' \<and> available s' = available s \<union> set ps \<and>
    taken s' = taken s - set ps"
  using assms
proof (induction ps arbitrary: s)
  case (Cons p ps)
  obtain s1 where a: "pfree p s = Inr s1" "inv s1" "available s1 = insert p (available s)"
    "taken s1 = taken s - {p}" using pfree_ok [OF Cons.prems(1), of p] Cons.prems(2) by auto
  have "set ps \<subseteq> taken s1" using a(4) Cons.prems(2,3) by auto
  then obtain s' where "seq_res pfree ps s1 = Inr s'" "inv s'"
    "available s' = available s1 \<union> set ps" "taken s' = taken s1 - set ps"
    using Cons.IH [OF a(2)] Cons.prems(3) by auto
  with a show ?case by auto
qed simp

lemma no_double_free:
  assumes "inv s" "p \<in> taken s" "pfree p s = Inr s'"
  shows "\<exists>m. pfree p s' = Inl (Panic m)"
  using pfree_ok [OF assms(1,2)] assms(3) pfree_bad by fastforce

lemma take_give_back:
  assumes "inv s"
  shows "\<exists>ps s' s''. take_pages n s = Inr (ps, s') \<and> seq_res pfree ps s' = Inr s'' \<and>
    available s'' = available s \<and> taken s'' = taken s"
proof -
  obtain ps s' where a: "take_pages n s = Inr (ps, s')" "inv s'" "distinct ps" "set ps \<subseteq> available s"
    "available s' = available s - set ps" "taken s' = taken s \<union> set ps"
    using take_pages_spec [OF assms, of n] by blast
  then obtain s'' where "seq_res pfree ps s' = Inr s''" "available s'' = available s' \<union> set ps"
    "taken s'' = taken s' - set ps" using give_back_spec [of s' ps] by blast
  with a separate [OF assms] show ?thesis by blast
qed

end

definition no_reclaim :: "'a kmem_scheme \<Rightarrow> (int \<times> 'a kmem_scheme) res" where
  "no_reclaim s = Inr (0, s)"

lemma page_state_sets:
  "page_state s' = (page_state s)(va \<mapsto> PG_USED) \<Longrightarrow> free_pages s' = free_pages s - {va}"
  "page_state s' = (page_state s)(va \<mapsto> PG_USED) \<Longrightarrow> owned s' = insert va (owned s)"
  "page_state s' = (page_state s)(va \<mapsto> PG_FREE) \<Longrightarrow> free_pages s' = insert va (free_pages s)"
  "page_state s' = (page_state s)(va \<mapsto> PG_FREE) \<Longrightarrow> owned s' = owned s - {va}"
  by (auto simp: free_pages_def owned_def)

lemma finite_free_pages: "finite (free_pages s)"
  by (rule finite_subset [OF subset_UNIV]) simp

interpretation ka: page_allocator kalloc_inv free_pages owned "kpage_alloc no_reclaim" kpage_free
proof unfold_locales
  fix s :: "'a kmem_scheme" and va :: uintptr
  assume inv: "kalloc_inv s"
  show "free_pages s \<noteq> {} \<Longrightarrow> \<exists>p s'. kpage_alloc no_reclaim s = Inr (Some p, s') \<and> p \<in> free_pages s \<and>
      kalloc_inv s' \<and> free_pages s' = free_pages s - {p} \<and> owned s' = insert p (owned s)"
  proof -
    assume "free_pages s \<noteq> {}"
    then obtain p s' where "kpage_alloc no_reclaim s = Inr (Some p, s')" "p \<in> free_pages s" "kalloc_inv s'"
      "page_state s' = (page_state s)(p \<mapsto> PG_USED)"
      using kpage_alloc_free [OF inv] by blast
    with page_state_sets(1,2) show ?thesis by blast
  qed
  show "free_pages s = {} \<Longrightarrow> kpage_alloc no_reclaim s = Inr (None, s)"
    by (simp add: kpage_alloc_empty [OF inv] no_reclaim_def)
  show "va \<in> owned s \<Longrightarrow> \<exists>s'. kpage_free va s = Inr s' \<and> kalloc_inv s' \<and>
      free_pages s' = insert va (free_pages s) \<and> owned s' = owned s - {va}"
    using kpage_free_ok [OF inv, of va] page_state_sets(3,4) by blast
  show "va \<notin> owned s \<Longrightarrow> \<exists>m. kpage_free va s = Inl (Panic m)" by (rule kpage_free_panics [OF inv])
  show "free_pages s \<inter> owned s = {}" by (auto simp: free_pages_def owned_def)
  show "finite (free_pages s)" by (rule finite_free_pages)
qed

section \<open>Building the free list\<close>

lemma seg_al_pieces:
  assumes "physmem_inv p" "g \<in> set (all_pieces (hwregions p) (exregions p))"
  shows "seg_al g"
  using seg_aligned [OF assms] all_pieces_spec [of "exregions p" "hwregions p"] assms
  by (auto simp: seg_al_def physmem_inv_def segs_ok_def)

lemma card_seg_covered:
  assumes "segs_ok gs" "\<forall>g \<in> set gs. seg_al g"
  shows "card (seg_covered gs) = total_pages gs * 4096"
  using assms
proof (induction gs)
  case (Cons g gs)
  have "{seg_lo g..<seg_hi g} \<inter> seg_covered gs = {}"
    using Cons.prems(1) by (fastforce simp: segs_ok_simps seg_covered_def)
  moreover have "finite (seg_covered gs)" by (simp add: seg_covered_def)
  ultimately have "card (seg_covered (g # gs)) = (seg_hi g - seg_lo g) + card (seg_covered gs)"
    by (simp add: card_Un_disjoint)
  then show ?case using Cons seg_hi_npages [of g] by (simp add: segs_ok_simps algebra_simps)
qed simp

lemma total_pages_bound:
  assumes "segs_ok gs" "\<forall>g \<in> set gs. seg_al g"
  shows "total_pages gs * 4096 < 2 ^ 64"
proof -
  have "seg_hi g \<le> 2 ^ 64 - 1" for g unfolding seg_hi_def by (rule unat64_le)
  then have "seg_covered gs \<subseteq> {..<2 ^ 64 - 1}"
    unfolding seg_covered_def by (auto intro: less_le_trans)
  then have "card (seg_covered gs) \<le> card {..<(2 :: nat) ^ 64 - 1}" by (intro card_mono) simp_all
  then show ?thesis using card_seg_covered [OF assms] by simp
qed

lemma physmem_size_eq:
  assumes "segs_ok gs" "\<forall>g \<in> set gs. seg_al g" "vm_phys_segs p = gs"
  shows "unat (physmem_size p) = total_pages gs * 4096"
proof -
  have "foldl (\<lambda>sz g. sz + (seg_end g - seg_start g)) a gs = a + of_nat (total_pages gs * 4096)"
    if "\<forall>g \<in> set gs. seg_al g" for gs a
    using that
  proof (induction gs arbitrary: a)
    case (Cons g gs)
    have "seg_end g - seg_start g = of_nat (seg_npages g * 4096)"
    proof -
      have "unat (seg_end g - seg_start g) = seg_npages g * 4096"
        using seg_hi_npages [of g] Cons.prems
        by (simp add: seg_hi_def seg_lo_def seg_al_def unat_sub word_le_nat_alt)
      then show ?thesis by (metis of_nat_unat ucast_id)
    qed
    then show ?case using Cons by (simp add: algebra_simps)
  qed simp
  then have sz: "physmem_size p = of_nat (total_pages gs * 4096)"
    using assms(2,3) by (simp add: physmem_size_def)
  show ?thesis unfolding sz using total_pages_bound [OF assms(1,2)] by (subst unat_of_nat) simp
qed

text \<open>Freeing a run of pages in order pushes exactly their descriptors.\<close>

lemma kinit_pages:
  assumes "layout_ok s" "fpath (km_pages s) (km_freelist s) is" "distinct is"
    "\<And>pa. pa \<in> set pas \<Longrightarrow> page_aligned pa \<and> (\<exists>i. pa_to_page pa s = Some i \<and> i \<notin> set is)" "distinct pas"
    "\<And>i. i \<in> set is \<Longrightarrow> flag s i = PG_FREE"
  shows "\<exists>s' is'. seq_res kinit_page pas s = Inr s' \<and> layout_ok s' \<and> same_frame s s' \<and>
    fpath (km_pages s') (km_freelist s') is' \<and> distinct is' \<and>
    set is' = set is \<union> {i. \<exists>pa \<in> set pas. pa_to_page pa s = Some i} \<and>
    (\<forall>i \<in> set is'. flag s' i = PG_FREE)"
  using assms
proof (induction pas arbitrary: s "is")
  case (Cons pa pas)
  obtain i where i: "pa_to_page pa s = Some i" "i \<notin> set is" "page_aligned pa" using Cons.prems(4) by force
  have len: "i < length (km_pages s)"
    using pa_to_page_less [OF Cons.prems(1) i(1)] Cons.prems(1) by (simp add: layout_ok_def)
  let ?s = "push_free i s"
  note lay = layout_ok_update [OF Cons.prems(1), of ?s]
  have same: "pa_to_page a ?s = pa_to_page a s" for a using lay(2) by simp
  have path: "fpath (km_pages ?s) (km_freelist ?s) (i # is)" "distinct (i # is)"
    using push_free_path [OF Cons.prems(2) i(2) len] i(2) Cons.prems(3) by simp_all
  have "page_aligned a \<and> (\<exists>j. pa_to_page a ?s = Some j \<and> j \<notin> set (i # is))" if a: "a \<in> set pas" for a
  proof -
    obtain j where j: "pa_to_page a s = Some j" "j \<notin> set is" "page_aligned a" using Cons.prems(4) a by force
    have "j \<noteq> i" using page_to_pa_to_page [OF Cons.prems(1)] i(1,3) j(1,3) a Cons.prems(5)
      by (metis distinct.simps(2) sum.inject(2))
    with j same show ?thesis by simp
  qed
  moreover have "flag ?s j = PG_FREE" if "j \<in> set (i # is)" for j
    using that len Cons.prems(6) by (auto simp: flag_def nth_list_update)
  ultimately obtain s' is' where s': "seq_res kinit_page pas ?s = Inr s'" "layout_ok s'" "same_frame ?s s'"
    "fpath (km_pages s') (km_freelist s') is'" "distinct is'"
    "set is' = set (i # is) \<union> {i. \<exists>pa \<in> set pas. pa_to_page pa ?s = Some i}"
    "\<forall>i \<in> set is'. flag s' i = PG_FREE"
    using Cons.IH [OF lay(1) path] Cons.prems(5) by force
  have "seq_res kinit_page (pa # pas) s = Inr s'" using s'(1) i(1) by (simp add: kinit_page_def)
  moreover have "set is' = set is \<union> {i. \<exists>pa \<in> set (pa # pas). pa_to_page pa s = Some i}"
    using s'(6) i(1) unfolding same by auto
  moreover have "same_frame s s'" using s'(3) push_free_parts(4) same_frame_trans by blast
  ultimately show ?case using s'(2,4,5,7) by blast
qed (rule exI, rule exI, auto)

definition seg_pas :: "vm_phys_seg list \<Rightarrow> uint64 list" where
  "seg_pas gs = concat (map (\<lambda>g. page_range (seg_start g) (seg_npages g)) gs)"

lemma seg_al_hi: "seg_al g \<Longrightarrow> unat (seg_end g) + 4095 < 2 ^ 64"
proof -
  assume "seg_al g"
  then obtain k where "unat (seg_end g) = 4096 * k" by (auto simp: seg_al_def seg_hi_def dvd_def)
  moreover from this have "k < 2 ^ 52" using unat64_less [of "seg_end g"] by simp
  ultimately show ?thesis by simp
qed

lemma kinit_segs_seq:
  assumes "\<forall>g \<in> set gs. seg_al g"
  shows "kinit_segs gs s = Some (seq_res kinit_page (seg_pas gs) s)"
  using assms
proof (induction gs arbitrary: s)
  case (Cons g gs)
  then have al: "seg_al g" by simp
  have pc: "page_count (seg_start g) (seg_end g) = seg_npages g"
    using seg_hi_npages [OF al] by (simp add: page_count_def seg_hi_def seg_lo_def)
  have loop: "for_pages kinit_page (seg_start g) (seg_end g) s =
      Some (seq_res kinit_page (page_range (seg_start g) (seg_npages g)) s)" for s :: "'a kmem_scheme"
    unfolding for_pages_seq [OF seg_al_hi [OF al]] pc ..
  show ?case using Cons
    by (auto simp: loop seg_pas_def seq_res_append split: sum.split)
qed (simp add: seg_pas_def)

lemma set_seg_range:
  assumes "seg_al g"
  shows "set (page_range (seg_start g) (seg_npages g)) = {pa. page_aligned pa \<and> unat pa \<in> {seg_lo g..<seg_hi g}}"
    "distinct (page_range (seg_start g) (seg_npages g))"
proof -
  note hi = seg_hi_npages [OF assms]
  have lt: "seg_hi g < 2 ^ 64" using unat64_less [of "seg_end g"] by (simp add: seg_hi_def)
  have u: "unat (seg_start g + of_nat k * PGSIZE) = seg_lo g + k * 4096" if "k < seg_npages g" for k
    using that hi lt by (subst unat_page_range) (simp_all add: seg_lo_def)
  show "set (page_range (seg_start g) (seg_npages g)) = {pa. page_aligned pa \<and> unat pa \<in> {seg_lo g..<seg_hi g}}"
  proof (intro set_eqI iffI)
    fix pa assume "pa \<in> set (page_range (seg_start g) (seg_npages g))"
    then obtain k where "k < seg_npages g" "pa = seg_start g + of_nat k * PGSIZE"
      by (auto simp: page_range_def)
    then show "pa \<in> {pa. page_aligned pa \<and> unat pa \<in> {seg_lo g..<seg_hi g}}"
      using u [of k] assms hi by (simp add: page_aligned_def seg_al_def)
  next
    fix pa assume pa: "pa \<in> {pa. page_aligned pa \<and> unat pa \<in> {seg_lo g..<seg_hi g}}"
    then have k: "page_no g pa < seg_npages g" using page_no_less [OF assms] by simp
    have "unat pa = seg_lo g + page_no g pa * 4096"
      using pa assms by (simp add: page_no_eq page_aligned_def seg_al_def)
    then have "pa = seg_start g + of_nat (page_no g pa) * PGSIZE"
      using u [OF k] by (simp add: word_unat_eq_iff)
    then show "pa \<in> set (page_range (seg_start g) (seg_npages g))" using k by (auto simp: page_range_def)
  qed
  have "inj_on (\<lambda>k. seg_start g + of_nat k * PGSIZE) {0..<seg_npages g}"
  proof (rule inj_onI)
    fix j k assume "j \<in> {0..<seg_npages g}" "k \<in> {0..<seg_npages g}"
      "seg_start g + of_nat j * PGSIZE = seg_start g + of_nat k * PGSIZE"
    with u [of j] u [of k] show "j = k" by (metis add_left_imp_eq atLeastLessThan_iff mult_cancel2 zero_neq_numeral)
  qed
  then show "distinct (page_range (seg_start g) (seg_npages g))"
    by (simp add: page_range_def distinct_map)
qed

lemma seg_pas_spec:
  assumes "segs_ok gs" "\<forall>g \<in> set gs. seg_al g"
  shows "set (seg_pas gs) = {pa. page_aligned pa \<and> unat pa \<in> seg_covered gs}" "distinct (seg_pas gs)"
proof -
  show st: "set (seg_pas gs) = {pa. page_aligned pa \<and> unat pa \<in> seg_covered gs}"
    using assms(2) set_seg_range(1) by (fastforce simp: seg_pas_def seg_covered_def)
  show "distinct (seg_pas gs)" using assms
  proof (induction gs)
    case (Cons g gs)
    have "set (page_range (seg_start g) (seg_npages g)) \<inter> set (seg_pas gs) = {}"
      using Cons.prems set_seg_range(1) by (fastforce simp: seg_pas_def segs_ok_simps)
    moreover have "distinct (seg_pas gs)" using Cons by (simp add: segs_ok_simps)
    ultimately show ?case using Cons.prems(2) set_seg_range(2) [of g] by (simp add: seg_pas_def)
  qed (simp add: seg_pas_def)
qed

lemma pa_to_page_covered:
  assumes "layout_ok s"
  shows "pa_to_page pa s \<noteq> None \<longleftrightarrow> unat pa \<in> seg_covered (segs s)"
proof -
  have "\<exists>f. first_page g = Some f" if "g \<in> set (segs s)" for g
    using assms sliced_bounds [OF _ that, of 0] unfolding layout_ok_def by blast
  then show ?thesis using pa_to_page_iff [OF assms, of pa] unfolding seg_covered_def by blast
qed

lemma kinit_segs_spec:
  fixes s :: "'a kmem_scheme"
  assumes lay: "layout_ok s" and fl: "km_freelist s = None"
  shows "\<exists>s'. kinit_segs (segs s) s = Some (Inr s') \<and> kalloc_inv s' \<and> same_frame s s' \<and>
    page_state s' = (\<lambda>va. if page_aligned (KVA_TO_PA va) \<and> unat (KVA_TO_PA va) \<in> seg_covered (segs s)
       then Some PG_FREE else None)"
proof -
  have ok: "segs_ok (segs s)" "\<forall>g \<in> set (segs s). seg_al g" using lay by (simp_all add: layout_ok_def)
  note sp = seg_pas_spec [OF ok]
  have h: "fpath (km_pages s) (km_freelist s) []" "distinct ([] :: nat list)" using fl by simp_all
  have hp: "page_aligned pa \<and> (\<exists>i. pa_to_page pa s = Some i \<and> i \<notin> set [])" if "pa \<in> set (seg_pas (segs s))" for pa
    using that sp(1) pa_to_page_covered [OF lay, of pa] by auto
  have hf: "flag s i = PG_FREE" if "i \<in> set []" for i using that by simp
  obtain s' is' where s': "seq_res kinit_page (seg_pas (segs s)) s = Inr s'" "layout_ok s'" "same_frame s s'"
    "fpath (km_pages s') (km_freelist s') is'" "distinct is'"
    "set is' = set [] \<union> {i. \<exists>pa \<in> set (seg_pas (segs s)). pa_to_page pa s = Some i}"
    "\<forall>i \<in> set is'. flag s' i = PG_FREE"
    using kinit_pages [OF lay h(1,2) hp sp(2) hf] by blast
  have sg: "segs s' = segs s" using s'(3) by (simp add: same_frame_def)
  have all: "set is' = {i. i < total_pages (segs s')}"
  proof (intro set_eqI iffI)
    fix i assume "i \<in> set is'"
    then obtain pa where "pa_to_page pa s = Some i" using s'(6) by auto
    then show "i \<in> {i. i < total_pages (segs s')}" using pa_to_page_less [OF lay] unfolding sg by simp
  next
    fix i assume "i \<in> {i. i < total_pages (segs s')}"
    then obtain pa where pa: "page_aligned pa" "pa_to_page pa s = Some i"
      using page_to_pa_spec [OF lay, of i] unfolding sg by auto
    then have "pa \<in> set (seg_pas (segs s))" using sp(1) pa_to_page_covered [OF lay, of pa] by simp
    then show "i \<in> set is'" using pa(2) s'(6) by auto
  qed
  then have flg: "flag s' i = PG_FREE" if "i < total_pages (segs s')" for i using s'(7) that by auto
  have "set is' = {i. i < total_pages (segs s') \<and> flag s' i = PG_FREE}" using all flg by auto
  then have "kalloc_inv s'" unfolding kalloc_inv_def using s'(2,4,5) flg by auto
  moreover have "page_state s' va = (if page_aligned (KVA_TO_PA va) \<and>
      unat (KVA_TO_PA va) \<in> seg_covered (segs s) then Some PG_FREE else None)" for va
    using pa_to_page_covered [OF s'(2), of "KVA_TO_PA va"] pa_to_page_less [OF s'(2)] flg
    by (cases "pa_to_page (KVA_TO_PA va) s'") (auto simp: page_state_def sg)
  ultimately show ?thesis using kinit_segs_seq [OF ok(2), of s] s'(1,3) by auto
qed

lemma avail_facts:
  assumes "physmem_inv p" "physmem_avail p = Inr q"
  shows "physmem_inv q" "segs_ok (vm_phys_segs q)" "\<forall>g \<in> set (vm_phys_segs q). seg_al g"
    "seg_covered (vm_phys_segs q) = covered (hwregions p) - covered (exregions p)"
    "hwregions q = hwregions p" "exregions q = exregions p"
proof -
  have q: "q = p\<lparr>vm_phys_segs := all_pieces (hwregions p) (exregions p)\<rparr>"
    using assms by (simp add: physmem_avail_eq)
  have ok: "regions_ok (exregions p)" "regions_ok (hwregions p)" using assms(1) by (simp_all add: physmem_inv_def)
  show "segs_ok (vm_phys_segs q)" "seg_covered (vm_phys_segs q) = covered (hwregions p) - covered (exregions p)"
    using all_pieces_spec [OF ok] by (simp_all add: q)
  show "\<forall>g \<in> set (vm_phys_segs q). seg_al g" using seg_al_pieces [OF assms(1)] by (simp add: q)
  show "physmem_inv q" "hwregions q = hwregions p" "exregions q = exregions p"
    using assms(1) by (simp_all add: q physmem_inv_def)
qed

lemma slice_segs_sets:
  "set (map (\<lambda>g. (seg_start g, seg_end g)) (slice_segs k gs)) = set (map (\<lambda>g. (seg_start g, seg_end g)) gs)"
  "segs_ok (slice_segs k gs) = segs_ok gs" "seg_covered (slice_segs k gs) = seg_covered gs"
  "(\<forall>g \<in> set (slice_segs k gs). seg_al g) = (\<forall>g \<in> set gs. seg_al g)"
proof (induction gs arbitrary: k)
  case (Cons g gs)
  {
    case 1 then show ?case using Cons(1) by simp
  next
    case 2
    have "(\<forall>h \<in> set (slice_segs j gs). P (seg_start h) (seg_end h)) = (\<forall>h \<in> set gs. P (seg_start h) (seg_end h))"
      for j P using Cons(1) [of j] by (force simp: image_iff set_eq_iff)
    from this [of _ "\<lambda>a b. seg_hi g < unat a"] show ?case
      using Cons(2) by (simp add: segs_ok_simps seg_lo_def seg_hi_def)
  next
    case 3 then show ?case using Cons(3) by (simp add: seg_lo_def seg_hi_def)
  next
    case 4 then show ?case using Cons(4) by (simp add: seg_al_def seg_lo_def seg_hi_def)
  }
qed simp_all

lemma array_bytes_bound:
  assumes "segs_ok gs" "\<forall>g \<in> set gs. seg_al g" "vm_phys_segs p = gs"
  shows "unat (drop_bit PGSHIFT (physmem_size p)) = total_pages gs"
    "unat (PGROUNDUP (drop_bit PGSHIFT (physmem_size p) * SIZEOF_PAGE)) < 2 ^ 57"
    "unat (PGROUNDUP (drop_bit PGSHIFT (physmem_size p) * SIZEOF_PAGE)) \<ge> 16 * total_pages gs"
proof -
  show np: "unat (drop_bit PGSHIFT (physmem_size p)) = total_pages gs"
    using physmem_size_eq [OF assms] by (simp add: unat_drop_bit_div PGSHIFT_def)
  have tb: "total_pages gs < 2 ^ 52" using total_pages_bound [OF assms(1,2)] by simp
  have m: "unat (drop_bit PGSHIFT (physmem_size p) * SIZEOF_PAGE) = total_pages gs * 16"
    using np tb by (simp add: unat_word_ariths SIZEOF_PAGE_def)
  then have u: "unat (PGROUNDUP (drop_bit PGSHIFT (physmem_size p) * SIZEOF_PAGE)) =
      (total_pages gs * 16 + 4095) div 4096 * 4096"
    using tb by (subst unat_PGROUNDUP) simp_all
  show "unat (PGROUNDUP (drop_bit PGSHIFT (physmem_size p) * SIZEOF_PAGE)) < 2 ^ 57"
    unfolding u using tb div_times_less_eq_dividend [of "total_pages gs * 16 + 4095" 4096] by simp
  have "(total_pages gs * 16 + 4095) div 4096 * 4096 + (total_pages gs * 16 + 4095) mod 4096 =
      total_pages gs * 16 + 4095" by (rule div_mult_mod_eq)
  moreover have "(total_pages gs * 16 + 4095) mod 4096 \<le> 4095"
    using mod_less_divisor [of 4096 "total_pages gs * 16 + 4095"] by linarith
  ultimately show "unat (PGROUNDUP (drop_bit PGSHIFT (physmem_size p) * SIZEOF_PAGE)) \<ge> 16 * total_pages gs"
    unfolding u by linarith
qed

lemma pages_touched_aligned:
  assumes "4096 dvd a" "4096 dvd b"
  shows "pages_touched a (a + b) = {a..<a + b}"
proof -
  obtain k where k: "a + b = 4096 * k" using dvd_add [OF assms] by (auto simp: dvd_def)
  have "(4096 * k + 4095) div 4096 = k" by simp
  then have "(a + b + 4095) div 4096 * 4096 = a + b" unfolding k by simp
  then show ?thesis unfolding pages_touched_def using assms(1) by simp
qed

text \<open>C17: After \<open>kinit\<close> every page of memory that no exclusion and no descriptor of the allocator
  itself occupies is free, and nothing else is managed: whatever the memory map and whatever the
  descriptor array held before, provided the array fits in the segment above the kernel, the loops
  end, no assertion fires, and the free list is exactly those pages.\<close>

theorem kinit_correct:
  fixes s :: "'a kmem_scheme"
  assumes inv: "physmem_inv (km_phys s)" and ex: "length (exregions (km_phys s)) < MAX_EXCNT"
    and boot: "page_aligned (km_boot s)" "unat (km_boot s) < 2 ^ 63" and fl: "km_freelist s = None"
    and av: "physmem_avail (km_phys s) = Inr p1"
    and bytes: "bytes = PGROUNDUP (drop_bit PGSHIFT (physmem_size p1) * SIZEOF_PAGE)"
    and room: "physmem_seg (km_boot s) p1 = Some g" "km_boot s + bytes \<le> seg_end g"
  shows "\<exists>s'. kinit raw s = Some (Inr s') \<and> kalloc_inv s' \<and> owned s' = {} \<and>
    free_pages s' = {va. page_aligned (KVA_TO_PA va) \<and> unat (KVA_TO_PA va) \<in>
      covered (hwregions (km_phys s)) - covered (exregions (km_phys s)) -
      {unat (km_boot s)..<unat (km_boot s) + unat bytes}}"
proof -
  note af = avail_facts [OF inv av]
  note ab = array_bytes_bound [OF af(2,3) refl, folded bytes]
  have nw: "unat (km_boot s) + unat bytes + 4095 < 2 ^ 64" using boot(2) ab(2) by simp
  have bal: "4096 dvd unat bytes" using page_aligned_PGROUNDUP unfolding bytes page_aligned_def by blast
  obtain p2 where p2: "physmem_exclude_region (km_boot s) bytes p1 = Inr p2"
    using region_below_capacity(2) ex af(6) by metis
  note ef = exclude_region_effect [OF af(1) nw p2]
  obtain p3 where p3: "physmem_avail p2 = Inr p3" using physmem_avail_eq [OF ef(1)] by blast
  note af3 = avail_facts [OF ef(1) p3]
  define p4 where "p4 = p3\<lparr>vm_phys_segs := slice_segs 0 (vm_phys_segs p3)\<rparr>"
  define s1 where "s1 = (snd (boot_alloc (drop_bit PGSHIFT bytes) s))\<lparr>km_phys := p4, km_array := km_boot s,
    km_npages := drop_bit PGSHIFT (physmem_size p1),
    km_pages := map raw [0..<unat (drop_bit PGSHIFT (physmem_size p1))]\<rparr>"
  have run: "kinit raw s = kinit_segs (segs s1) s1"
    using room(1) room(2) [unfolded linorder_not_less [symmetric]] p2 p3
    by (simp add: kinit_def av Let_def boot_alloc_def bytes s1_def p4_def)
  have cov: "seg_covered (segs s1) = covered (hwregions (km_phys s)) - covered (exregions (km_phys s)) -
      {unat (km_boot s)..<unat (km_boot s) + unat bytes}"
    using af3(4) ef(2,3) af(5,6) boot(1) bal
    by (auto simp: s1_def p4_def slice_segs_sets pages_touched_aligned page_aligned_def)
  have gs: "segs_ok (segs s1)" "\<forall>g \<in> set (segs s1). seg_al g" "sliced 0 (segs s1)"
    using af3(2,3) slice_segs_sets slice_segs_spec(1) by (simp_all add: s1_def p4_def)
  have "seg_covered (segs s1) \<subseteq> seg_covered (vm_phys_segs p1)" using cov af(4) by auto
  then have "card (seg_covered (segs s1)) \<le> card (seg_covered (vm_phys_segs p1))"
    by (intro card_mono) (simp_all add: seg_covered_def)
  then have "total_pages (segs s1) \<le> total_pages (vm_phys_segs p1)"
    using card_seg_covered [OF gs(1,2)] card_seg_covered [OF af(2,3)] by simp
  then have "layout_ok s1" using gs ab(1) by (simp add: layout_ok_def) (simp add: s1_def)
  moreover have "km_freelist s1 = None" using fl by (simp add: s1_def boot_alloc_def)
  ultimately obtain s' where s': "kinit_segs (segs s1) s1 = Some (Inr s')" "kalloc_inv s'"
    "page_state s' = (\<lambda>va. if page_aligned (KVA_TO_PA va) \<and> unat (KVA_TO_PA va) \<in> seg_covered (segs s1)
       then Some PG_FREE else None)"
    using kinit_segs_spec by blast
  then have "owned s' = {}" "free_pages s' = {va. page_aligned (KVA_TO_PA va) \<and>
      unat (KVA_TO_PA va) \<in> seg_covered (segs s1)}"
    by (auto simp: owned_def free_pages_def split: if_splits)
  with s'(1,2) cov run show ?thesis by auto
qed

definition qemu_boot :: kmem where
  "qemu_boot = \<lparr>km_phys = qemu_map, km_boot = 0x40180000, km_array = 0, km_npages = 0, km_pages = [],
     km_freelist = None\<rparr>"

abbreviation qemu_segs :: "vm_phys_seg list" where
  "qemu_segs \<equiv> [\<lparr>seg_start = 0x40000000, seg_end = 0x40080000, first_page = None\<rparr>,
     \<lparr>seg_start = 0x40180000, seg_end = 0x80000000, first_page = None\<rparr>]"

lemma qemu_boot_parts [simp]:
  "km_phys qemu_boot = qemu_map" "km_boot qemu_boot = 0x40180000" "km_freelist qemu_boot = None"
  by (simp_all add: qemu_boot_def)

theorem kinit_correct_witness:
  "\<exists>s'. kinit (\<lambda>_. undefined) qemu_boot = Some (Inr s') \<and> kalloc_inv s' \<and> owned s' = {} \<and>
    free_pages s' = {va. page_aligned (KVA_TO_PA va) \<and> unat (KVA_TO_PA va) \<in>
      covered (hwregions qemu_map) - covered (exregions qemu_map) - {0x40180000..<0x4057F000}}"
proof -
  let ?p1 = "qemu_map\<lparr>vm_phys_segs := qemu_segs\<rparr>"
  have bt: "PGROUNDUP (drop_bit PGSHIFT (physmem_size ?p1) * SIZEOF_PAGE) = 0x3FF000"
    by (simp add: physmem_size_def PGROUNDUP_def drop_bit_eq_div PGSHIFT_def SIZEOF_PAGE_def PGSIZE_def)
  have sg: "physmem_seg 0x40180000 ?p1 = Some \<lparr>seg_start = 0x40180000, seg_end = 0x80000000, first_page = None\<rparr>"
    by (simp add: physmem_seg_def in_seg_def)
  have "physmem_inv qemu_map" by (rule physmem_reach_inv [OF qemu_map_reach])
  moreover have "length (exregions qemu_map) < MAX_EXCNT" by (simp add: qemu_map_def kdefs)
  moreover have "page_aligned 0x40180000" by (simp add: page_aligned_mod PGSIZE_def)
  moreover have "unat (0x3FF000 :: uint64) = 0x3FF000" "unat (0x40180000 :: uint64) = 0x40180000" by simp_all
  ultimately show ?thesis
    using kinit_correct [of qemu_boot ?p1 "0x3FF000" _ "\<lambda>_. undefined"] sg bt qemu_map_avail by simp
qed

text \<open>C2: Allocating and freeing: while a page is free the allocator hands one out without asking for
  a reclaim; the page was free, becomes owned and no other page changes; giving it back restores
  every page's state, and giving it back a second time panics instead of corrupting the list.\<close>

theorem kpage_alloc_free_cycle:
  fixes s :: "'a kmem_scheme"
  assumes "kalloc_inv s" "free_pages s \<noteq> {}"
  shows "\<exists>va s1 s2. kpage_alloc reclaim s = Inr (Some va, s1) \<and> va \<in> free_pages s \<and>
    page_state s1 = (page_state s)(va \<mapsto> PG_USED) \<and> kalloc_inv s1 \<and> kpage_free va s1 = Inr s2 \<and> kalloc_inv s2 \<and>
    page_state s2 = page_state s \<and> (\<exists>m. kpage_free va s2 = Inl (Panic m))"
proof -
  obtain va s1 where a: "kpage_alloc reclaim s = Inr (Some va, s1)" "va \<in> free_pages s" "kalloc_inv s1"
    "page_state s1 = (page_state s)(va \<mapsto> PG_USED)"
    using kpage_alloc_free [OF assms, of reclaim] by blast
  have own: "va \<in> owned s1" using a(4) by (simp add: owned_def)
  obtain s2 where b: "kpage_free va s1 = Inr s2" "kalloc_inv s2" "page_state s2 = (page_state s1)(va \<mapsto> PG_FREE)"
    using kpage_free_ok [OF a(3) own] by blast
  have "page_state s2 = page_state s" using a(2,4) b(3) by (auto simp: free_pages_def)
  moreover have "\<exists>m. kpage_free va s2 = Inl (Panic m)" by (rule ka.no_double_free [OF a(3) own b(1)])
  ultimately show ?thesis using a b by blast
qed

text \<open>Exhaustion: \<open>n\<close> requests in a row return distinct pages, as many as are free and no fewer,
  and each was free; the failure of a request means that no page is left.\<close>

theorem kpage_alloc_many:
  fixes s :: "'a kmem_scheme"
  assumes "kalloc_inv s"
  shows "\<exists>ps s'. ka.take_pages n s = Inr (ps, s') \<and> kalloc_inv s' \<and> length ps = min n (card (free_pages s)) \<and>
    distinct ps \<and> set ps \<subseteq> free_pages s \<and> free_pages s' = free_pages s - set ps \<and>
    owned s' = owned s \<union> set ps"
  using assms by (rule ka.take_pages_spec)

text \<open>The descriptor of an address and the address of a descriptor are inverse to each other, for
  every page of every segment: neither the segment scan of \<open>page_to_pa\<close> nor the index arithmetic of
  \<open>pa_to_page\<close> ever mixes up the slices, and the scan always finds one.\<close>

theorem page_descriptor_roundtrip:
  assumes "kalloc_inv s"
  shows "(page_aligned pa \<and> unat pa \<in> seg_covered (segs s) \<longrightarrow>
      (\<exists>i < total_pages (segs s). pa_to_page pa s = Some i \<and> page_to_pa i s = Inr pa)) \<and>
    (i < total_pages (segs s) \<longrightarrow> (\<exists>pa. page_to_pa i s = Inr pa \<and> page_aligned pa \<and> pa_to_page pa s = Some i))"
proof (intro conjI impI)
  have lay: "layout_ok s" using assms by (simp add: kalloc_inv_def)
  show "\<exists>i < total_pages (segs s). pa_to_page pa s = Some i \<and> page_to_pa i s = Inr pa"
    if pa: "page_aligned pa \<and> unat pa \<in> seg_covered (segs s)"
  proof -
    obtain i where "pa_to_page pa s = Some i" using pa_to_page_covered [OF lay, of pa] pa by auto
    then show ?thesis using pa_to_page_less [OF lay] page_to_pa_to_page [OF lay] pa by blast
  qed
  show "\<exists>pa. page_to_pa i s = Inr pa \<and> page_aligned pa \<and> pa_to_page pa s = Some i" if "i < total_pages (segs s)"
    using page_to_pa_spec [OF lay that] .
qed

section \<open>A two-page machine\<close>

definition two_pages :: kmem where
  "two_pages = \<lparr>km_phys = \<lparr>hwregions = [], exregions = [], vm_phys_segs =
       [\<lparr>seg_start = 0x1000, seg_end = 0x2000, first_page = Some 0\<rparr>,
        \<lparr>seg_start = 0x3000, seg_end = 0x4000, first_page = Some 1\<rparr>]\<rparr>,
     km_boot = 0x5000, km_array = 0x4000, km_npages = 2,
     km_pages = [\<lparr>pg_next = None, pg_flags = PG_FREE, pg_refcnt = 0\<rparr>,
                 \<lparr>pg_next = Some 0, pg_flags = PG_FREE, pg_refcnt = 0\<rparr>], km_freelist = Some 1\<rparr>"

lemma two_pages_inv: "kalloc_inv two_pages"
proof -
  have n: "total_pages (segs two_pages) = 2"
    by (simp add: two_pages_def seg_npages_def PGSHIFT_def drop_bit_eq_div)
  have "layout_ok two_pages" unfolding layout_ok_def n
    by (simp add: two_pages_def segs_ok_simps seg_lo_def seg_hi_def seg_al_def seg_npages_def PGSHIFT_def
        drop_bit_eq_div)
  moreover have "fpath (km_pages two_pages) (km_freelist two_pages) [1, 0]" by (simp add: two_pages_def)
  moreover have "flag two_pages i = PG_FREE" if "i < 2" for i
    using that by (auto simp: flag_def two_pages_def less_2_cases_iff)
  moreover from this have "set [1, 0] = {i. i < 2 \<and> flag two_pages i = PG_FREE}" by auto
  ultimately show ?thesis unfolding kalloc_inv_def n
    by (intro conjI exI [of _ "[1, 0]"]) auto
qed

lemma two_pages_free: "PA_TO_KVA 0x1000 \<in> free_pages two_pages"
  by (simp add: free_pages_def page_state_def page_aligned_mod PGSIZE_def pa_to_page_def two_pages_def
      physmem_seg_def in_seg_def flag_def PGSHIFT_def)

theorem kpage_alloc_free_cycle_witness:
  "\<exists>va s1 s2. kpage_alloc no_reclaim two_pages = Inr (Some va, s1) \<and> kpage_free va s1 = Inr s2 \<and>
     (\<exists>m. kpage_free va s2 = Inl (Panic m))"
  using kpage_alloc_free_cycle [OF two_pages_inv, of no_reclaim] two_pages_free by blast

theorem kpage_alloc_many_witness:
  "\<exists>ps s'. ka.take_pages 5 two_pages = Inr (ps, s') \<and> distinct ps \<and> set ps \<subseteq> free_pages two_pages"
  using kpage_alloc_many [OF two_pages_inv, of 5] by blast

theorem page_descriptor_roundtrip_witness:
  "\<exists>pa. page_to_pa 1 two_pages = Inr pa \<and> page_aligned pa \<and> pa_to_page pa two_pages = Some 1"
proof -
  have "1 < total_pages (segs two_pages)"
    by (simp add: two_pages_def seg_npages_def PGSHIFT_def drop_bit_eq_div)
  then show ?thesis using page_descriptor_roundtrip [OF two_pages_inv, of _ 1] by blast
qed

end
