(* ===== verification/Ptable.thy ===== *)
theory Ptable
  imports Kalloc
begin

text \<open>
  The memory of page tables and the trees they form. The store maps the kernel address of a page to
  its 512 words, so that a \<^verbatim>\<open>pte_t *\<close> is a page and an index in it; the record extends the page
  allocator's. A table of height \<open>Suc h\<close> points at nodes of height \<open>h\<close>, and height 0 is a data page:
  the L0 table of a process has height 4, an L3 table height 1. The lemmas say what reading through
  the tree gives after one entry of one table changes.
\<close>

section \<open>The store\<close>

type_synonym ptstore = "uintptr \<Rightarrow> nat \<Rightarrow> uint64"
type_synonym ptep = "uintptr \<times> nat"

record vm = kmem +
  vm_page :: ptstore

definition rd :: "ptep \<Rightarrow> 'a vm_scheme \<Rightarrow> pte_t" where
  "rd p s = vm_page s (fst p) (snd p)"

definition wr :: "ptep \<Rightarrow> pte_t \<Rightarrow> 'a vm_scheme \<Rightarrow> 'a vm_scheme" where
  "wr p e s = s\<lparr>vm_page := (vm_page s)(fst p := (vm_page s (fst p))(snd p := e))\<rparr>"

text \<open>\<^verbatim>\<open>memset(page, 0, PGSIZE)\<close> and \<^verbatim>\<open>memcpy(dst, src, PGSIZE)\<close> on whole pages.\<close>

definition zero_page :: "uintptr \<Rightarrow> 'a vm_scheme \<Rightarrow> 'a vm_scheme" where
  "zero_page p s = s\<lparr>vm_page := (vm_page s)(p := \<lambda>_. 0)\<rparr>"

definition copy_page :: "uintptr \<Rightarrow> uintptr \<Rightarrow> 'a vm_scheme \<Rightarrow> 'a vm_scheme" where
  "copy_page dst src s = s\<lparr>vm_page := (vm_page s)(dst := vm_page s src)\<rparr>"

definition pte_valid :: "pte_t \<Rightarrow> bool" where
  "pte_valid e \<longleftrightarrow> e AND PTE_VALID \<noteq> 0"

definition pte_child :: "pte_t \<Rightarrow> uintptr" where
  "pte_child e = PA_TO_KVA (PTE_ADDR e)"

section \<open>Trees\<close>

fun pt_foot :: "ptstore \<Rightarrow> nat \<Rightarrow> uintptr \<Rightarrow> uintptr set" where
  "pt_foot M 0 t = {t}"
| "pt_foot M (Suc h) t = insert t (\<Union>i \<in> {i. i < 512 \<and> pte_valid (M t i)}. pt_foot M h (pte_child (M t i)))"

fun pt_tables :: "ptstore \<Rightarrow> nat \<Rightarrow> uintptr \<Rightarrow> uintptr set" where
  "pt_tables M 0 t = {}"
| "pt_tables M (Suc h) t = insert t (\<Union>i \<in> {i. i < 512 \<and> pte_valid (M t i)}. pt_tables M h (pte_child (M t i)))"

fun pt_wf :: "ptstore \<Rightarrow> nat \<Rightarrow> uintptr \<Rightarrow> bool" where
  "pt_wf M 0 t \<longleftrightarrow> True"
| "pt_wf M (Suc h) t \<longleftrightarrow>
     (\<forall>i < 512. \<not> pte_valid (M t i) \<longrightarrow> M t i = 0) \<and>
     (\<forall>i < 512. pte_valid (M t i) \<longrightarrow> pt_wf M h (pte_child (M t i)) \<and> t \<notin> pt_foot M h (pte_child (M t i))) \<and>
     (\<forall>i < 512. \<forall>j < 512. i \<noteq> j \<longrightarrow> pte_valid (M t i) \<longrightarrow> pte_valid (M t j) \<longrightarrow>
        pt_foot M h (pte_child (M t i)) \<inter> pt_foot M h (pte_child (M t j)) = {})"

text \<open>The entry of page number \<open>k\<close>: index \<open>k div 512 ^ h mod 512\<close> at a table of height \<open>Suc h\<close>.\<close>

definition pt_idx :: "nat \<Rightarrow> nat \<Rightarrow> nat" where
  "pt_idx h k = k div 512 ^ h mod 512"

fun pt_slot :: "ptstore \<Rightarrow> nat \<Rightarrow> uintptr \<Rightarrow> nat \<Rightarrow> ptep option" where
  "pt_slot M 0 t k = None"
| "pt_slot M (Suc 0) t k = Some (t, pt_idx 0 k)"
| "pt_slot M (Suc (Suc h)) t k =
     (let e = M t (pt_idx (Suc h) k) in if pte_valid e then pt_slot M (Suc h) (pte_child e) k else None)"

definition pt_lookup :: "ptstore \<Rightarrow> nat \<Rightarrow> uintptr \<Rightarrow> nat \<Rightarrow> pte_t option" where
  "pt_lookup M h t k = (case pt_slot M h t k of None \<Rightarrow> None
     | Some (q, i) \<Rightarrow> if pte_valid (M q i) then Some (M q i) else None)"

lemma pt_idx_less [simp]: "pt_idx h k < 512"
  by (simp add: pt_idx_def)

lemma pt_lookup_leaf: "pt_lookup M (Suc 0) t k =
    (if pte_valid (M t (pt_idx 0 k)) then Some (M t (pt_idx 0 k)) else None)"
  by (simp add: pt_lookup_def)

lemma pt_lookup_node: "pt_lookup M (Suc (Suc h)) t k =
    (let e = M t (pt_idx (Suc h) k) in if pte_valid e then pt_lookup M (Suc h) (pte_child e) k else None)"
  by (simp add: pt_lookup_def Let_def)

lemma pte_valid_0 [simp]: "\<not> pte_valid 0"
  by (simp add: pte_valid_def)

lemma pt_foot_root [simp]: "t \<in> pt_foot M h t"
  by (cases h) simp_all

lemma pt_tables_foot: "pt_tables M h t \<subseteq> pt_foot M h t"
  by (induction h arbitrary: t) fastforce+

lemma pt_slot_table: "pt_slot M h t k = Some (q, i) \<Longrightarrow> q \<in> pt_tables M h t \<and> i < 512"
proof (induction h arbitrary: t)
  case (Suc h)
  show ?case
  proof (cases h)
    case (Suc g)
    then show ?thesis using Suc.prems Suc.IH
      by (auto simp: Let_def split: if_splits) (use pt_idx_less in blast)
  qed (use Suc.prems in auto)
qed simp

lemma pt_lookup_foot:
  assumes "pt_lookup M h t k = Some e"
  shows "pte_valid e \<and> pte_child e \<in> pt_foot M h t"
  using assms
proof (induction h arbitrary: t)
  case (Suc h)
  show ?case
  proof (cases h)
    case 0
    then show ?thesis using Suc.prems pt_idx_less by (fastforce simp: pt_lookup_leaf split: if_splits)
  next
    case (Suc g)
    then have "pte_valid (M t (pt_idx h k))" "pt_lookup M h (pte_child (M t (pt_idx h k))) k = Some e"
      using Suc.prems by (auto simp: pt_lookup_node Let_def split: if_splits)
    with Suc.IH have "pte_valid e" "pte_child e \<in> pt_foot M h (pte_child (M t (pt_idx h k)))" by blast+
    then show ?thesis using \<open>pte_valid (M t (pt_idx h k))\<close> pt_idx_less [of h k] by auto
  qed
qed (simp add: pt_lookup_def)

text \<open>A tree depends on its tables alone.\<close>

lemma pt_frame:
  assumes "\<forall>p \<in> pt_tables M h t. M' p = M p"
  shows "pt_foot M' h t = pt_foot M h t" "pt_tables M' h t = pt_tables M h t" "pt_wf M' h t = pt_wf M h t"
    "pt_slot M' h t k = pt_slot M h t k" "pt_lookup M' h t k = pt_lookup M h t k"
proof -
  have *: "pt_foot M' h t = pt_foot M h t \<and> pt_tables M' h t = pt_tables M h t \<and> pt_wf M' h t = pt_wf M h t \<and>
      pt_slot M' h t k = pt_slot M h t k"
    using assms
  proof (induction h arbitrary: t)
    case (Suc h)
    have row: "M' t = M t" using Suc.prems by simp
    have sub: "pt_foot M' h (pte_child (M t i)) = pt_foot M h (pte_child (M t i)) \<and>
        pt_tables M' h (pte_child (M t i)) = pt_tables M h (pte_child (M t i)) \<and>
        pt_wf M' h (pte_child (M t i)) = pt_wf M h (pte_child (M t i)) \<and>
        pt_slot M' h (pte_child (M t i)) k = pt_slot M h (pte_child (M t i)) k"
      if "i < 512" "pte_valid (M t i)" for i
      by (rule Suc.IH) (use Suc.prems that in auto)
    have "pt_slot M' (Suc h) t k = pt_slot M (Suc h) t k"
      using sub [OF pt_idx_less] row by (cases h) (simp_all add: Let_def)
    then show ?case using sub row by simp
  qed simp
  then show "pt_foot M' h t = pt_foot M h t" "pt_tables M' h t = pt_tables M h t" "pt_wf M' h t = pt_wf M h t"
    "pt_slot M' h t k = pt_slot M h t k" by blast+
  show "pt_lookup M' h t k = pt_lookup M h t k"
    using * assms pt_slot_table [of M h t k] by (auto simp: pt_lookup_def split: option.split)
qed

section \<open>Changing one entry\<close>

definition pt_sub :: "ptstore \<Rightarrow> nat \<Rightarrow> pte_t \<Rightarrow> uintptr set" where
  "pt_sub M h e = (if pte_valid e then pt_foot M h (pte_child e) else {})"

lemma pt_foot_sub: "pt_foot M (Suc h) t = insert t (\<Union>i \<in> {..<512}. pt_sub M h (M t i))"
  by (auto simp: pt_sub_def split: if_splits)

lemma pt_sub_disjoint:
  assumes "pt_wf M (Suc h) t" "i < 512" "j < 512" "i \<noteq> j"
  shows "pt_sub M h (M t i) \<inter> pt_sub M h (M t j) = {}"
  using assms by (auto simp: pt_sub_def)

lemma pt_sub_root: "pt_wf M (Suc h) t \<Longrightarrow> i < 512 \<Longrightarrow> t \<notin> pt_sub M h (M t i)"
  by (auto simp: pt_sub_def)

lemma pt_wf_child: "pt_wf M (Suc h) t \<Longrightarrow> i < 512 \<Longrightarrow> pte_valid (M t i) \<Longrightarrow> pt_wf M h (pte_child (M t i))"
  by simp

lemma pt_wf_zero: "pt_wf M (Suc h) t \<Longrightarrow> i < 512 \<Longrightarrow> \<not> pte_valid (M t i) \<Longrightarrow> M t i = 0"
  by simp

lemma pt_node_update:
  assumes wf: "pt_wf M (Suc h) t" and i: "i < 512"
    and agree: "\<And>p. p \<in> pt_foot M (Suc h) t \<Longrightarrow> p \<notin> pt_sub M h (M t i) \<Longrightarrow> p \<noteq> t \<Longrightarrow> M' p = M p"
    and row: "\<And>j. j < 512 \<Longrightarrow> j \<noteq> i \<Longrightarrow> M' t j = M t j"
    and e0: "\<not> pte_valid (M' t i) \<Longrightarrow> M' t i = 0"
    and e1: "pte_valid (M' t i) \<Longrightarrow> pt_wf M' h (pte_child (M' t i)) \<and> t \<notin> pt_sub M' h (M' t i) \<and>
      pt_sub M' h (M' t i) \<inter> (pt_foot M (Suc h) t - pt_sub M h (M t i)) = {}"
  shows "pt_wf M' (Suc h) t"
    and "pt_foot M' (Suc h) t = (pt_foot M (Suc h) t - pt_sub M h (M t i)) \<union> pt_sub M' h (M' t i)"
    and "pt_idx h k \<noteq> i \<Longrightarrow> pt_lookup M' (Suc h) t k = pt_lookup M (Suc h) t k"
    and "pt_idx h k \<noteq> i \<Longrightarrow> pt_slot M' (Suc h) t k = pt_slot M (Suc h) t k"
proof -
  have fr: "\<forall>p \<in> pt_tables M h (pte_child (M t j)). M' p = M p"
    if "j < 512" "j \<noteq> i" "pte_valid (M t j)" for j
  proof
    fix p assume "p \<in> pt_tables M h (pte_child (M t j))"
    then have p: "p \<in> pt_sub M h (M t j)" using pt_tables_foot that(3) by (auto simp: pt_sub_def)
    then have "p \<in> pt_foot M (Suc h) t" using that(1) unfolding pt_foot_sub by blast
    moreover have "p \<notin> pt_sub M h (M t i)" using pt_sub_disjoint [OF wf that(1) i that(2)] p by blast
    moreover have "p \<noteq> t" using pt_sub_root [OF wf that(1)] p by blast
    ultimately show "M' p = M p" by (rule agree)
  qed
  have sub: "pt_sub M' h (M' t j) = pt_sub M h (M t j)" if "j < 512" "j \<noteq> i" for j
    using row [OF that] pt_frame(1) [OF fr [OF that]] by (auto simp: pt_sub_def)
  have subwf: "pt_wf M' h (pte_child (M' t j)) = pt_wf M h (pte_child (M t j))"
    if "j < 512" "j \<noteq> i" "pte_valid (M t j)" for j
    using row [OF that(1,2)] pt_frame(3) [OF fr [OF that]] by simp
  have inF: "pt_sub M h (M t j) \<subseteq> pt_foot M (Suc h) t - pt_sub M h (M t i)" if "j < 512" "j \<noteq> i" for j
    using pt_sub_disjoint [OF wf that(1) i that(2)] that(1) unfolding pt_foot_sub by blast
  have "pt_sub M' h (M' t i) \<inter> (pt_foot M (Suc h) t - pt_sub M h (M t i)) = {}"
    using e1 by (cases "pte_valid (M' t i)") (simp_all add: pt_sub_def)
  then have new: "pt_sub M' h (M' t i) \<inter> pt_sub M' h (M' t j) = {}" if "j < 512" "j \<noteq> i" for j
    using inF [OF that] unfolding sub [OF that] by blast
  have disj: "pt_sub M' h (M' t j) \<inter> pt_sub M' h (M' t l) = {}" if "j < 512" "l < 512" "j \<noteq> l" for j l
  proof (cases "j = i \<or> l = i")
    case True then show ?thesis using new [of l] new [of j] that by blast
  next
    case False then show ?thesis using sub pt_sub_disjoint [OF wf that] that by simp
  qed
  have root: "t \<notin> pt_sub M' h (M' t j)" if "j < 512" for j
    using e1 sub [OF that] pt_sub_root [OF wf that] by (cases "j = i") (auto simp: pt_sub_def)
  have zero: "M' t j = 0" if "j < 512" "\<not> pte_valid (M' t j)" for j
    using e0 row [OF that(1)] wf that by (cases "j = i") auto
  have kids: "pt_wf M' h (pte_child (M' t j))" if "j < 512" "pte_valid (M' t j)" for j
    using e1 subwf [OF that(1)] row [OF that(1)] wf that by (cases "j = i") auto
  show "pt_wf M' (Suc h) t"
    unfolding pt_wf.simps
  proof (intro conjI allI impI)
    fix j l :: nat assume "j < 512" "l < 512" "j \<noteq> l" "pte_valid (M' t j)" "pte_valid (M' t l)"
    then show "pt_foot M' h (pte_child (M' t j)) \<inter> pt_foot M' h (pte_child (M' t l)) = {}"
      using disj [of j l] by (simp add: pt_sub_def)
  next
    fix j :: nat assume "j < 512" "pte_valid (M' t j)"
    then show "pt_wf M' h (pte_child (M' t j))" "t \<notin> pt_foot M' h (pte_child (M' t j))"
      using kids root [of j] by (simp_all add: pt_sub_def)
  qed (use zero in simp)
  have "(\<Union>j \<in> {..<512}. pt_sub M' h (M' t j)) = (\<Union>j \<in> {..<512} - {i}. pt_sub M h (M t j)) \<union> pt_sub M' h (M' t i)"
    using sub i by auto
  moreover have "(\<Union>j \<in> {..<512} - {i}. pt_sub M h (M t j)) = (\<Union>j \<in> {..<512}. pt_sub M h (M t j)) - pt_sub M h (M t i)"
    using inF unfolding pt_foot_sub by blast
  ultimately show "pt_foot M' (Suc h) t = (pt_foot M (Suc h) t - pt_sub M h (M t i)) \<union> pt_sub M' h (M' t i)"
    unfolding pt_foot_sub using pt_sub_root [OF wf i] by auto
  assume k: "pt_idx h k \<noteq> i"
  show "pt_slot M' (Suc h) t k = pt_slot M (Suc h) t k"
    using row [OF pt_idx_less k] pt_frame(4) [OF fr [OF pt_idx_less k]] by (cases h) (simp_all add: Let_def)
  show "pt_lookup M' (Suc h) t k = pt_lookup M (Suc h) t k"
    using row [OF pt_idx_less k] pt_frame(5) [OF fr [OF pt_idx_less k]]
    by (cases h) (simp_all add: Let_def pt_lookup_leaf pt_lookup_node)
qed

lemma pt_mod_split: "k mod 512 ^ Suc h = l mod 512 ^ Suc h \<longleftrightarrow> pt_idx h k = pt_idx h l \<and> k mod 512 ^ h = l mod (512 ^ h :: nat)"
proof -
  have s: "x mod 512 ^ Suc h = 512 ^ h * pt_idx h x + x mod 512 ^ h" for x :: nat
    by (metis mod_mult2_eq pt_idx_def power_Suc mult.commute)
  show ?thesis
  proof
    assume eq: "k mod 512 ^ Suc h = l mod 512 ^ Suc h"
    have "x mod 512 ^ Suc h mod 512 ^ h = x mod 512 ^ h" for x :: nat
      by (simp add: mod_mod_cancel)
    then have m: "k mod 512 ^ h = l mod 512 ^ h" using eq by metis
    then have "512 ^ h * pt_idx h k = 512 ^ h * pt_idx h l" using eq s [of k] s [of l] by simp
    then show "pt_idx h k = pt_idx h l \<and> k mod 512 ^ h = l mod 512 ^ h" using m by simp
  qed (use s [of k] s [of l] in simp)
qed

lemma pt_write_slot:
  assumes "pt_wf M (Suc h) t" "pt_slot M (Suc h) t k = Some (q, i)"
    and M': "M' = M(q := (M q)(i := e))"
    and e: "pte_valid e \<and> pte_child e \<notin> pt_foot M (Suc h) t \<or> e = 0"
  shows "pt_wf M' (Suc h) t \<and>
    pt_foot M' (Suc h) t = (pt_foot M (Suc h) t - pt_sub M 0 (M q i)) \<union> pt_sub M' 0 e \<and>
    (\<forall>l. pt_slot M' (Suc h) t l = pt_slot M (Suc h) t l) \<and>
    (\<forall>l. pt_lookup M' (Suc h) t l = (if l mod 512 ^ Suc h = k mod 512 ^ Suc h
       then (if pte_valid e then Some e else None) else pt_lookup M (Suc h) t l))"
  using assms(1,2) e
proof (induction h arbitrary: t)
  case 0
  then have q: "q = t" "i = pt_idx 0 k" by auto
  have row: "M' t i = e" by (simp add: M' q)
  have e1: "pte_valid (M' t i) \<Longrightarrow> pt_wf M' 0 (pte_child (M' t i)) \<and> t \<notin> pt_sub M' 0 (M' t i) \<and>
      pt_sub M' 0 (M' t i) \<inter> (pt_foot M (Suc 0) t - pt_sub M 0 (M t i)) = {}"
    using "0.prems"(3) unfolding row by (auto simp: pt_sub_def)
  have i: "i < 512" by (simp add: q)
  have e0: "\<not> pte_valid (M' t i) \<Longrightarrow> M' t i = 0" using "0.prems"(3) row by auto
  have agree: "\<And>p. p \<noteq> t \<Longrightarrow> M' p = M p" and other: "\<And>j. j \<noteq> i \<Longrightarrow> M' t j = M t j"
    by (simp_all add: M' q)
  note u = pt_node_update [where M' = M', OF "0.prems"(1) i agree other e0 e1, simplified]
  have "pt_lookup M' (Suc 0) t l = (if l mod 512 ^ Suc 0 = k mod 512 ^ Suc 0
      then (if pte_valid e then Some e else None) else pt_lookup M (Suc 0) t l)" for l
    using row other [of "pt_idx 0 l"] by (auto simp: pt_lookup_leaf q pt_idx_def)
  then show ?case using u(1,2) by (simp add: row q(1))
next
  case (Suc h)
  let ?j = "pt_idx (Suc h) k"
  let ?c = "pte_child (M t ?j)"
  have v: "pte_valid (M t ?j)" "pt_slot M (Suc h) ?c k = Some (q, i)"
    using Suc.prems(2) by (auto simp: Let_def split: if_splits)
  have sub: "pt_sub M (Suc h) (M t ?j) = pt_foot M (Suc h) ?c" using v by (simp add: pt_sub_def)
  have cin: "pt_foot M (Suc h) ?c \<subseteq> pt_foot M (Suc (Suc h)) t"
    unfolding pt_foot_sub [of M "Suc h" t] sub [symmetric] using pt_idx_less by blast
  have wfc: "pt_wf M (Suc h) ?c" using Suc.prems(1) v(1) by simp
  have IH: "pt_wf M' (Suc h) ?c" "pt_foot M' (Suc h) ?c = (pt_foot M (Suc h) ?c - pt_sub M 0 (M q i)) \<union> pt_sub M' 0 e"
    "\<And>l. pt_slot M' (Suc h) ?c l = pt_slot M (Suc h) ?c l"
    "\<And>l. pt_lookup M' (Suc h) ?c l = (if l mod 512 ^ Suc h = k mod 512 ^ Suc h
       then (if pte_valid e then Some e else None) else pt_lookup M (Suc h) ?c l)"
    using Suc.IH [OF wfc v(2)] Suc.prems(3) cin by blast+
  have q: "q \<in> pt_foot M (Suc h) ?c" using pt_slot_table [OF v(2)] pt_tables_foot by blast
  have tn: "t \<notin> pt_foot M (Suc h) ?c" using pt_sub_root [OF Suc.prems(1) pt_idx_less] sub by blast
  then have row: "M' t = M t" using q by (auto simp: M')
  have new: "pt_sub M' 0 e \<inter> pt_foot M (Suc (Suc h)) t = {}" using Suc.prems(3) by (auto simp: pt_sub_def)
  have sub': "pt_sub M' (Suc h) (M' t ?j) = pt_foot M' (Suc h) ?c" using v by (simp add: pt_sub_def row)
  have old: "pt_sub M 0 (M q i) \<subseteq> pt_foot M (Suc h) ?c"
  proof (cases "pte_valid (M q i)")
    case True
    then have "pt_lookup M (Suc h) ?c k = Some (M q i)" using v(2) by (simp add: pt_lookup_def)
    from pt_lookup_foot [OF this] show ?thesis by (simp add: pt_sub_def)
  qed (simp add: pt_sub_def)
  have agree: "\<And>p. p \<in> pt_foot M (Suc (Suc h)) t \<Longrightarrow> p \<notin> pt_sub M (Suc h) (M t ?j) \<Longrightarrow> p \<noteq> t \<Longrightarrow> M' p = M p"
    using q sub by (auto simp: M')
  have other: "\<And>j. j < 512 \<Longrightarrow> j \<noteq> ?j \<Longrightarrow> M' t j = M t j" by (simp add: row)
  have e1: "pt_wf M' (Suc h) (pte_child (M' t ?j)) \<and> t \<notin> pt_sub M' (Suc h) (M' t ?j) \<and>
      pt_sub M' (Suc h) (M' t ?j) \<inter> (pt_foot M (Suc (Suc h)) t - pt_sub M (Suc h) (M t ?j)) = {}"
    unfolding sub' unfolding IH(2) sub using IH(1) new tn by (auto simp: row)
  have e0: "\<not> pte_valid (M' t ?j) \<Longrightarrow> M' t ?j = 0" using v(1) row by simp
  note u = pt_node_update [where M' = M', OF Suc.prems(1) pt_idx_less agree other e0 e1]
  have foot: "pt_foot M' (Suc (Suc h)) t = (pt_foot M (Suc (Suc h)) t - pt_sub M 0 (M q i)) \<union> pt_sub M' 0 e"
  proof -
    have "pt_foot M' (Suc (Suc h)) t = (pt_foot M (Suc (Suc h)) t - pt_foot M (Suc h) ?c) \<union> pt_foot M' (Suc h) ?c"
      using u(2) unfolding sub sub' .
    then show ?thesis unfolding IH(2) using cin old by blast
  qed
  have slot: "pt_slot M' (Suc (Suc h)) t l = pt_slot M (Suc (Suc h)) t l" for l
    using u(4) [of l] IH(3) [of l] v(1) row by (cases "pt_idx (Suc h) l = ?j") (simp_all add: Let_def)
  have "pt_lookup M' (Suc (Suc h)) t l = (if l mod 512 ^ Suc (Suc h) = k mod 512 ^ Suc (Suc h)
       then (if pte_valid e then Some e else None) else pt_lookup M (Suc (Suc h)) t l)" for l
    unfolding pt_mod_split [of l "Suc h"]
    using u(3) [of l] IH(4) [of l] v(1) row
    by (cases "pt_idx (Suc h) l = ?j") (simp_all add: Let_def pt_lookup_node)
  then show ?case using u(1) foot slot row by blast
qed

end
