(* ===== verification/Pmap.thy ===== *)
theory Pmap
  imports Ptable
begin

text \<open>
  User page tables (\<^verbatim>\<open>arch/pmap.c\<close>): \<open>walk\<close>, \<open>mappages\<close>, \<open>uvmcopy\<close>, \<open>uvmalloc\<close>, \<open>uvmunmap_range\<close>,
  \<open>uvmdealloc\<close>, \<open>uvmcreate\<close>, \<open>uvmfree\<close> and \<open>switchuvm\<close>. A \<^verbatim>\<open>pte_t *\<close> that may be NULL is an option.
  The loops over levels run on the number of levels left, so level 0 is three steps above the leaf
  table. Barriers and cache maintenance have no state here. \<open>rc\<close> is the slab allocator's
  \<open>kmem_reclaim\<close>, as in \<open>kpage_alloc\<close>. The locale \<open>page_store\<close> is what the page tables need of the
  memory below them.
\<close>

section \<open>Walking\<close>

definition pt_shift :: "nat list" where [kdefs]: "pt_shift = [L0_SHIFT, L1_SHIFT, L2_SHIFT, L3_SHIFT]"

definition va_idx :: "nat \<Rightarrow> uintptr \<Rightarrow> nat" where
  "va_idx level va = unat (drop_bit (pt_shift ! level) va AND of_nat (TABLE_ENTRIES - 1))"

type_synonym 'a reclaim = "'a vm_scheme \<Rightarrow> (int \<times> 'a vm_scheme) res"

definition ptalloc :: "'a reclaim \<Rightarrow> 'a vm_scheme \<Rightarrow> (uintptr option \<times> 'a vm_scheme) res" where
  "ptalloc rc s = rbind (kpage_alloc rc s) (\<lambda>(mem, s1).
     case mem of None \<Rightarrow> Inr (None, s1) | Some p \<Rightarrow> Inr (Some p, zero_page p s1))"

fun walk_loop :: "'a reclaim \<Rightarrow> nat \<Rightarrow> uintptr \<Rightarrow> uintptr \<Rightarrow> bool \<Rightarrow> 'a vm_scheme
     \<Rightarrow> (ptep option \<times> 'a vm_scheme) res" where
  "walk_loop rc 0 t va alloc s = Inr (Some (t, va_idx 3 va), s)"
| "walk_loop rc (Suc n) t va alloc s =
     (let pte = (t, va_idx (2 - n) va) in
      if pte_valid (rd pte s) then walk_loop rc n (pte_child (rd pte s)) va alloc s
      else if \<not> alloc then Inr (None, s)
      else rbind (ptalloc rc s) (\<lambda>(nx, s1).
        case nx of None \<Rightarrow> Inr (None, s1)
        | Some next \<Rightarrow>
            walk_loop rc n next va alloc (wr pte (KVA_TO_PA next OR PTE_VALID OR PTE_TABLE) s1)))"

definition walk :: "'a reclaim \<Rightarrow> uintptr \<Rightarrow> uintptr \<Rightarrow> bool \<Rightarrow> 'a vm_scheme
     \<Rightarrow> (ptep option \<times> 'a vm_scheme) res" where
  "walk rc pagetable va alloc s =
     kassert (va < MAXUVA) ''walk: va %#lx out of range'' (walk_loop rc 3 pagetable va alloc s)"

section \<open>Mapping\<close>

lemma rbind_cong [fundef_cong]:
  "m = m' \<Longrightarrow> (\<And>x. m' = Inr x \<Longrightarrow> f x = f' x) \<Longrightarrow> rbind m f = rbind m' f'"
  by (cases m') simp_all

lemma kassert_cong [fundef_cong]:
  "b = b' \<Longrightarrow> (b' \<Longrightarrow> k = k') \<Longrightarrow> kassert b msg k = kassert b' msg k'"
  by (simp add: kassert_def)

lemma walk_Inr: "walk rc t va alloc s = Inr r \<Longrightarrow> va < MAXUVA"
  by (simp add: walk_def)

lemma page_step_measure:
  assumes "a < MAXUVA"
  shows "2 ^ 48 - unat (a + PGSIZE) < 2 ^ 48 - unat a"
proof -
  have "unat a < 2 ^ 48" using assms by (simp add: word_less_nat_alt MAXUVA_def)
  moreover have "unat (a + PGSIZE) = unat a + 4096"
    using calculation by (subst unat_add_no_wrap) simp_all
  ultimately show ?thesis by simp
qed

text \<open>A loop that returns \<open>-1\<close> on failure returns a boolean that says whether it succeeded.\<close>

function mappages_loop :: "'a reclaim \<Rightarrow> uintptr \<Rightarrow> uintptr \<Rightarrow> uintptr \<Rightarrow> uintptr \<Rightarrow> uint64 \<Rightarrow> 'a vm_scheme
     \<Rightarrow> (bool \<times> 'a vm_scheme) res" where
  "mappages_loop rc pagetable a lst pa perm s =
     rbind (walk rc pagetable a True s) (\<lambda>r.
       case fst r of None \<Rightarrow> Inr (False, snd r)
       | Some pte \<Rightarrow>
           kassert (\<not> pte_valid (rd pte (snd r))) ''mappages: remap at va %#lx''
             (let s2 = wr pte (pa OR perm) (snd r) in
              if a = lst then Inr (True, s2)
              else mappages_loop rc pagetable (a + PGSIZE) lst (pa + PGSIZE) perm s2))"
  by pat_completeness auto
termination
proof (relation "measure (\<lambda>(rc, t, a, lst, pa, perm, s). 2 ^ 48 - unat a)")
  fix rc :: "'a reclaim" and pagetable a lst pa :: uintptr and perm :: uint64 and s s2 :: "'a vm_scheme"
    and r :: "ptep option \<times> 'a vm_scheme"
  assume "walk rc pagetable a True s = Inr r"
  from page_step_measure [OF walk_Inr [OF this]]
  show "((rc, pagetable, a + PGSIZE, lst, pa + PGSIZE, perm, s2), rc, pagetable, a, lst, pa, perm, s)
      \<in> measure (\<lambda>(rc, t, a, lst, pa, perm, s). 2 ^ 48 - unat a)" by simp
qed simp

declare mappages_loop.simps [simp del]

definition mappages :: "'a reclaim \<Rightarrow> uintptr \<Rightarrow> uintptr \<Rightarrow> uintptr \<Rightarrow> uint64 \<Rightarrow> uint64 \<Rightarrow> 'a vm_scheme
     \<Rightarrow> (bool \<times> 'a vm_scheme) res" where
  "mappages rc pagetable va pa sz perm s =
     kassert (sz \<noteq> 0) ''mappages: sz == 0''
       (mappages_loop rc pagetable (PGROUNDDW va) (PGROUNDDW (va + sz - 1)) pa perm s)"

section \<open>Copying an address space\<close>

definition uvmcopy_page :: "'a reclaim \<Rightarrow> uintptr \<Rightarrow> uintptr \<Rightarrow> pte_t \<Rightarrow> 'a vm_scheme \<Rightarrow> (bool \<times> 'a vm_scheme) res" where
  "uvmcopy_page rc dst va e s =
     (let pa = PTE_ADDR e; flags = e XOR pa in
      rbind (kpage_alloc rc s) (\<lambda>(m, s1).
        case m of None \<Rightarrow> Inr (False, s1)
        | Some mem \<Rightarrow>
            rbind (mappages rc dst va (KVA_TO_PA mem) PGSIZE flags (copy_page mem (PA_TO_KVA pa) s1)) (\<lambda>(ok, s2).
              if ok then Inr (True, s2) else rbind (kpage_free mem s2) (\<lambda>s3. Inr (False, s3)))))"

function uvmcopy_loop :: "'a reclaim \<Rightarrow> uintptr \<Rightarrow> uintptr \<Rightarrow> uintptr \<Rightarrow> uintptr \<Rightarrow> 'a vm_scheme
     \<Rightarrow> (bool \<times> 'a vm_scheme) res" where
  "uvmcopy_loop rc src dst va e s =
     (if va < e then
        rbind (walk rc src va False s) (\<lambda>r.
          case fst r of None \<Rightarrow> uvmcopy_loop rc src dst (va + PGSIZE) e (snd r)
          | Some pte \<Rightarrow>
              if \<not> pte_valid (rd pte (snd r)) then uvmcopy_loop rc src dst (va + PGSIZE) e (snd r)
              else rbind (uvmcopy_page rc dst va (rd pte (snd r)) (snd r)) (\<lambda>c.
                if fst c then uvmcopy_loop rc src dst (va + PGSIZE) e (snd c) else Inr (False, snd c)))
      else Inr (True, s))"
  by pat_completeness auto
termination
proof (relation "measure (\<lambda>(rc, src, dst, va, e, s). 2 ^ 48 - unat va)", goal_cases)
  case (2 rc src dst va e s r)
  from page_step_measure [OF walk_Inr [OF 2(2)]] show ?case by simp
next
  case (3 rc src dst va e s r pte)
  from page_step_measure [OF walk_Inr [OF 3(2)]] show ?case by simp
next
  case (4 rc src dst va e s r pte c)
  from page_step_measure [OF walk_Inr [OF 4(2)]] show ?case by simp
qed simp

declare uvmcopy_loop.simps [simp del]

definition uvmcopy :: "'a reclaim \<Rightarrow> uintptr \<Rightarrow> uintptr \<Rightarrow> uint64 \<Rightarrow> 'a vm_scheme \<Rightarrow> (bool \<times> 'a vm_scheme) res" where
  "uvmcopy rc src dst sz s = uvmcopy_loop rc src dst USER_BASE (USER_BASE + sz) s"

section \<open>Unmapping\<close>

text \<open>
  \<^verbatim>\<open>for (va = a; va < e; va += step) body\<close> with a body that may panic; \<open>None\<close> is the loop that never
  ends because \<open>va\<close> wraps below \<open>e\<close>.
\<close>

partial_function (option) for_step ::
  "(uint64 \<Rightarrow> 's \<Rightarrow> 's res option) \<Rightarrow> uint64 \<Rightarrow> uint64 \<Rightarrow> uint64 \<Rightarrow> 's \<Rightarrow> 's res option" where
  "for_step body step va e s =
     (if va < e then
        (case body va s of None \<Rightarrow> None | Some (Inl err) \<Rightarrow> Some (Inl err)
         | Some (Inr s') \<Rightarrow> for_step body step (va + step) e s')
      else Some (Inr s))"

definition table_empty :: "uintptr \<Rightarrow> 'a vm_scheme \<Rightarrow> bool" where
  "table_empty t s \<longleftrightarrow> list_all (\<lambda>j. rd (t, j) s = 0) [0..<TABLE_ENTRIES]"

definition collapse :: "ptep \<Rightarrow> uintptr \<Rightarrow> 'a vm_scheme \<Rightarrow> 'a vm_scheme res" where
  "collapse pte child s =
     (if table_empty child s then rbind (kpage_free child s) (\<lambda>s'. Inr (wr pte 0 s')) else Inr s)"

fun unmap_table :: "nat \<Rightarrow> uintptr \<Rightarrow> uintptr \<Rightarrow> uintptr \<Rightarrow> 'a vm_scheme \<Rightarrow> 'a vm_scheme res option" where
  "unmap_table n table va_start va_end s =
     (let level = 3 - n; entry_size = push_bit (pt_shift ! level) 1 in
      for_step (\<lambda>va s.
        (let pte = (table, va_idx level va); next_va = va + entry_size in
         if pte_valid (rd pte s) then
           (case n of 0 \<Rightarrow>
              Some (if va \<ge> va_start \<and> va < va_end then
                 rbind (kpage_free (pte_child (rd pte s)) s) (\<lambda>s'. Inr (wr pte 0 s')) else Inr s)
            | Suc m \<Rightarrow>
                (let child = pte_child (rd pte s);
                     sub_start = (if va_start > va then va_start else va);
                     sub_end = (if va_end < next_va then va_end else next_va) in
                 case unmap_table m child sub_start sub_end s of
                   Some (Inr s') \<Rightarrow> Some (collapse pte child s')
                 | r \<Rightarrow> r))
         else Some (Inr s)))
        entry_size (va_start AND NOT (entry_size - 1)) va_end s)"

declare unmap_table.simps [simp del]

definition uvmunmap_range :: "uintptr \<Rightarrow> int \<Rightarrow> uintptr \<Rightarrow> uintptr \<Rightarrow> 'a vm_scheme \<Rightarrow> 'a vm_scheme res option" where
  "uvmunmap_range table level va_start va_end s =
     (if 0 \<le> level \<and> level \<le> 3 then unmap_table (nat (3 - level)) table va_start va_end s
      else Some (Inl (Panic ''uvmunmap_range: bad level %d'')))"

definition uvmdealloc :: "uintptr \<Rightarrow> uint64 \<Rightarrow> uint64 \<Rightarrow> 'a vm_scheme \<Rightarrow> (uint64 \<times> 'a vm_scheme) res option" where
  "uvmdealloc pagetable oldsz newsz s =
     (if newsz \<ge> oldsz then Some (Inr (oldsz, s))
      else
        (let va_start = USER_BASE + PGROUNDUP newsz; va_end = USER_BASE + PGROUNDUP oldsz in
         map_option (\<lambda>r. rbind r (\<lambda>s'. Inr (newsz, s')))
           (if va_start < va_end then uvmunmap_range pagetable 0 va_start va_end s else Some (Inr s))))"

section \<open>Growing\<close>

definition uvmalloc_undo :: "uintptr \<Rightarrow> uint64 \<Rightarrow> uint64 \<Rightarrow> 'a vm_scheme \<Rightarrow> (uint64 \<times> 'a vm_scheme) res option" where
  "uvmalloc_undo pagetable a oldsz s =
     map_option (\<lambda>r. rbind r (\<lambda>(_, s'). Inr (0, s'))) (uvmdealloc pagetable a oldsz s)"

definition uvmalloc_page :: "'a reclaim \<Rightarrow> uintptr \<Rightarrow> uint64 \<Rightarrow> 'a vm_scheme \<Rightarrow> (bool \<times> 'a vm_scheme) res" where
  "uvmalloc_page rc pagetable a s =
     rbind (kpage_alloc rc s) (\<lambda>(m, s1).
       case m of None \<Rightarrow> Inr (False, s1)
       | Some mem \<Rightarrow>
           rbind (mappages rc pagetable (USER_BASE + a) (KVA_TO_PA mem) PGSIZE PAGE_USER (zero_page mem s1))
             (\<lambda>(ok, s2). if ok then Inr (True, s2) else rbind (kpage_free mem s2) (\<lambda>s3. Inr (False, s3))))"

lemma uvmalloc_page_True:
  assumes "uvmalloc_page rc t a s = Inr (True, s')"
  shows "PGROUNDDW a < MAXUVA"
proof -
  have "PGROUNDDW a < MAXUVA" if "mappages rc t (USER_BASE + a) pa PGSIZE PAGE_USER s1 = Inr (True, s2)" for pa s1 s2
    using that by (auto simp: mappages_def USER_BASE_def mappages_loop.simps [of _ _ "PGROUNDDW a"] rbind_Inr_iff
        dest!: walk_Inr)
  then show ?thesis using assms
    by (auto simp: uvmalloc_page_def rbind_Inr_iff split: option.splits if_splits)
qed

text \<open>The loop of \<open>uvmalloc\<close>; \<open>a\<close> is a multiple of the page size.\<close>

function uvmalloc_loop :: "'a reclaim \<Rightarrow> uintptr \<Rightarrow> uint64 \<Rightarrow> uint64 \<Rightarrow> uint64 \<Rightarrow> 'a vm_scheme
     \<Rightarrow> (uint64 \<times> 'a vm_scheme) res option" where
  "uvmalloc_loop rc pagetable a oldsz newsz s =
     (if a < newsz then
        (case uvmalloc_page rc pagetable a s of Inl e \<Rightarrow> Some (Inl e)
         | Inr r \<Rightarrow> if fst r then uvmalloc_loop rc pagetable (a + PGSIZE) oldsz newsz (snd r)
             else uvmalloc_undo pagetable a oldsz (snd r))
      else Some (Inr (newsz, s)))"
  by pat_completeness auto
termination
proof (relation "measure (\<lambda>(rc, t, a, oldsz, newsz, s). 2 ^ 48 - unat a)", goal_cases)
  case (2 rc t a oldsz newsz s r)
  then have "PGROUNDDW a < MAXUVA" using uvmalloc_page_True by (cases r) auto
  then have "unat a div 4096 * 4096 < 2 ^ 48" by (simp add: word_less_nat_alt unat_PGROUNDDW MAXUVA_def)
  then have "a < MAXUVA" by (simp add: word_less_nat_alt MAXUVA_def)
  from page_step_measure [OF this] show ?case by simp
qed simp

declare uvmalloc_loop.simps [simp del]

definition uvmalloc :: "'a reclaim \<Rightarrow> uintptr \<Rightarrow> uint64 \<Rightarrow> uint64 \<Rightarrow> 'a vm_scheme \<Rightarrow> (uint64 \<times> 'a vm_scheme) res option" where
  "uvmalloc rc pagetable oldsz newsz s =
     (if newsz < oldsz then Some (Inr (oldsz, s))
      else uvmalloc_loop rc pagetable (PGROUNDUP oldsz) (PGROUNDUP oldsz) newsz s)"

section \<open>Creating and freeing\<close>

definition uvmcreate :: "'a reclaim \<Rightarrow> 'a vm_scheme \<Rightarrow> (uintptr option \<times> 'a vm_scheme) res" where
  "uvmcreate rc s = ptalloc rc s"

fun freewalk :: "nat \<Rightarrow> uintptr \<Rightarrow> 'a vm_scheme \<Rightarrow> 'a vm_scheme res" where
  "freewalk n pagetable s =
     rbind (seq_res (\<lambda>i s.
        (let entry = rd (pagetable, i) s in
         if \<not> pte_valid entry then Inr s
         else rbind (case n of Suc m \<Rightarrow> freewalk m (pte_child entry) s | 0 \<Rightarrow> kpage_free (pte_child entry) s)
                (\<lambda>s'. Inr (wr (pagetable, i) 0 s')))) [0..<TABLE_ENTRIES] s)
       (kpage_free pagetable)"

declare freewalk.simps [simp del]

definition uvmfree :: "uintptr \<Rightarrow> 'a vm_scheme \<Rightarrow> 'a vm_scheme res" where
  "uvmfree pagetable s = freewalk 3 pagetable s"

text \<open>The value \<open>switchuvm\<close> loads into \<open>TTBR0_EL1\<close>.\<close>

definition switchuvm :: "uint16 \<Rightarrow> uintptr option \<Rightarrow> uint64 res" where
  "switchuvm asid pagetable =
     (case pagetable of None \<Rightarrow> Inl (Panic ''switchuvm: no page table'')
      | Some t \<Rightarrow> Inr (push_bit 48 (ucast asid) OR KVA_TO_PA t))"

end
