(* ===== verification/PmapProofs.thy ===== *)
theory PmapProofs
  imports Pmap
begin

text \<open>
  Correctness of the user page tables. \<open>page_store\<close> states what they need of the page allocator with
  its store; inside it, each operation is described by what it does to the map from page numbers to
  entries and to the set of pages in use. The interpretations put the model's allocator below it.
\<close>

declare pt_foot.simps(2) [simp del] pt_tables.simps(2) [simp del] pt_wf.simps(2) [simp del]

section \<open>Entries and indices\<close>

definition vpn :: "uintptr \<Rightarrow> nat" where "vpn va = unat va div 4096"

definition used_pages :: "'a vm_scheme \<Rightarrow> uintptr set" where
  "used_pages s = {p. page_state s p = Some PG_USED}"

lemma page_state_vm_page [simp]: "page_state (s\<lparr>vm_page := m\<rparr>) = page_state s"
proof -
  have "flag (s\<lparr>vm_page := m\<rparr>) = flag s" by (rule ext) (simp add: flag_def)
  then show ?thesis by (intro ext) (simp add: page_state_def pa_to_page_def physmem_seg_def)
qed

lemma used_pages_vm_page [simp]:
  "used_pages (s\<lparr>vm_page := m\<rparr>) = used_pages s" "used_pages (wr q e s) = used_pages s"
  "used_pages (zero_page p s) = used_pages s" "used_pages (copy_page p r s) = used_pages s"
  by (simp_all add: used_pages_def wr_def zero_page_def copy_page_def)

lemma vm_page_upd [simp]:
  "vm_page (wr (t, i) e s) = (vm_page s)(t := (vm_page s t)(i := e))"
  "vm_page (zero_page p s) = (vm_page s)(p := \<lambda>_. 0)"
  "vm_page (copy_page p r s) = (vm_page s)(p := vm_page s r)"
  by (simp_all add: wr_def zero_page_def copy_page_def)

lemma rd_vm_page [simp]: "rd (t, i) s = vm_page s t i"
  by (simp add: rd_def)

lemma va_idx_pt_idx:
  assumes "n \<le> 3"
  shows "va_idx (3 - n) va = pt_idx n (vpn va)"
proof -
  have sh: "pt_shift ! (3 - n) = 12 + 9 * n"
    using assms by (auto simp: kdefs le_Suc_eq numeral_eq_Suc)
  have "unat va div 2 ^ (12 + 9 * n) = unat va div 4096 div 512 ^ n"
    by (simp add: power_add power_mult div_mult2_eq)
  moreover have "(of_nat (TABLE_ENTRIES - 1) :: uint64) = mask 9"
    by (simp add: TABLE_ENTRIES_def mask_eq_decr_exp)
  ultimately show ?thesis
    by (simp add: va_idx_def sh unat_and_mask unat_drop_bit_div pt_idx_def vpn_def)
qed

lemma pt_shift_nth: "n \<le> 3 \<Longrightarrow> pt_shift ! (3 - n) = 12 + 9 * n"
  by (auto simp: kdefs le_Suc_eq numeral_eq_Suc)

lemma unat_push_bit_one: "k < 64 \<Longrightarrow> unat (push_bit k 1 :: uint64) = 2 ^ k"
  using power_strict_increasing [of k 64 "2::nat"] by (subst unat_push_bit_mult) simp_all

lemma div_mod_512_eq: "x div 512 = y div 512 \<Longrightarrow> x mod 512 = y mod 512 \<longleftrightarrow> x = (y :: nat)"
  by (metis div_mult_mod_eq)

lemma unat_add64: "unat (a :: uint64) + unat b < 2 ^ 64 \<Longrightarrow> unat (a + b) = unat a + unat b"
  by (simp add: unat_add_no_wrap)

lemma div_block: "0 < N \<Longrightarrow> k div N = q \<longleftrightarrow> q * N \<le> k \<and> k < Suc q * (N :: nat)"
  by (auto intro: div_nat_eqI simp: mult.commute dividend_less_times_div)

lemma PTE_ADDR_mask: "PTE_ADDR e = e AND (mask 48 AND NOT (mask 12))"
  by (simp add: PTE_ADDR_def mask_eq_decr_exp)

text \<open>Building an entry: the address and the attributes read back.\<close>

definition attrs_ok :: "uint64 \<Rightarrow> bool" where
  "attrs_ok perm \<longleftrightarrow> PTE_ADDR perm = 0 \<and> pte_valid perm"

lemma pte_make:
  assumes "page_aligned pa" "pa < MAXUVA"
  shows "PTE_ADDR perm = 0 \<Longrightarrow> PTE_ADDR (pa OR perm) = pa" "pte_valid (pa OR perm) = pte_valid perm"
proof -
  have "take_bit 48 pa = pa"
    using assms(2) by (simp add: MAXUVA_def word_unat_eq_iff unsigned_take_bit_eq take_bit_nat_eq_self word_less_nat_alt)
  then have a: "pa AND mask 48 = pa" by (simp add: take_bit_eq_mask)
  have "pa AND mask 12 = 0"
    using assms(1) by (simp add: word_unat_eq_iff unat_and_mask page_aligned_def)
  then have b: "pa AND NOT (mask 12) = pa"
    using and_not_mask_split [of pa 12] by simp
  have c: "PTE_ADDR pa = pa" unfolding PTE_ADDR_mask using a b by (metis and.assoc)
  show "PTE_ADDR (pa OR perm) = pa" if "PTE_ADDR perm = 0"
    using c that by (simp add: PTE_ADDR_def bit.conj_disj_distrib2)
  have "(mask 12 AND 1 :: uint64) = 1" by (simp add: mask_eq_decr_exp)
  then have "pa AND PTE_VALID = (pa AND mask 12) AND 1" by (simp add: PTE_VALID_def and.assoc)
  then have "pa AND PTE_VALID = 0" using \<open>pa AND mask 12 = 0\<close> by simp
  then show "pte_valid (pa OR perm) = pte_valid perm"
    by (simp add: pte_valid_def bit.conj_disj_distrib2)
qed

lemma table_attrs: "attrs_ok (PTE_VALID OR PTE_TABLE)"
  by (simp add: attrs_ok_def pte_valid_def PTE_ADDR_def kdefs)

lemma PAGE_USER_attrs: "attrs_ok PAGE_USER"
  by (simp add: attrs_ok_def pte_valid_def PTE_ADDR_def kdefs)

lemma PAGE_KERNEL_attrs: "attrs_ok PAGE_KERNEL"
  by (simp add: attrs_ok_def pte_valid_def PTE_ADDR_def kdefs)

lemma pte_make_child:
  assumes "page_aligned (KVA_TO_PA p)" "KVA_TO_PA p < MAXUVA" "attrs_ok perm"
  shows "pte_child (KVA_TO_PA p OR perm) = p" "pte_valid (KVA_TO_PA p OR perm)"
  using pte_make [OF assms(1,2)] assms(3) by (simp_all add: pte_child_def attrs_ok_def)

lemma pt_empty_entries:
  assumes "\<And>j. j < 512 \<Longrightarrow> M t j = 0"
  shows "pt_wf M (Suc h) t" "pt_foot M (Suc h) t = {t}" "pt_tables M (Suc h) t = {t}"
    "pt_lookup M (Suc h) t k = None"
proof -
  have "pt_lookup M (Suc h) t k = None" using assms [OF pt_idx_less]
    by (cases h) (simp_all add: pt_lookup_leaf pt_lookup_node)
  moreover have "\<not> (i < 512 \<and> pte_valid (M t i))" for i using assms [of i] by auto
  ultimately show "pt_wf M (Suc h) t" "pt_foot M (Suc h) t = {t}" "pt_tables M (Suc h) t = {t}"
    "pt_lookup M (Suc h) t k = None"
    using assms by (auto simp add: pt_foot.simps pt_tables.simps pt_wf.simps)
qed

lemma pt_empty:
  assumes "M t = (\<lambda>_. 0)"
  shows "pt_wf M (Suc h) t" "pt_foot M (Suc h) t = {t}" "pt_tables M (Suc h) t = {t}"
    "pt_lookup M (Suc h) t k = None"
  using pt_empty_entries [of M t] assms by simp_all

section \<open>Growth of a tree\<close>

definition pt_ok :: "'a vm_scheme \<Rightarrow> nat \<Rightarrow> uintptr \<Rightarrow> bool" where
  "pt_ok s h t \<longleftrightarrow> pt_wf (vm_page s) h t \<and> pt_foot (vm_page s) h t \<subseteq> used_pages s"

lemma pt_ok_child:
  assumes "pt_ok s (Suc h) t" "i < 512" "pte_valid (vm_page s t i)"
  shows "pt_ok s h (pte_child (vm_page s t i))"
proof -
  have "pt_sub (vm_page s) h (vm_page s t i) \<subseteq> pt_foot (vm_page s) (Suc h) t"
    unfolding pt_foot_sub using assms(2) by blast
  then have "pt_foot (vm_page s) h (pte_child (vm_page s t i)) \<subseteq> used_pages s"
    using assms(1,3) unfolding pt_ok_def pt_sub_def by (simp only: if_True) blast
  moreover have "pt_wf (vm_page s) h (pte_child (vm_page s t i))"
    using pt_wf_child [of "vm_page s" h t i] assms unfolding pt_ok_def by blast
  ultimately show ?thesis unfolding pt_ok_def by blast
qed

text \<open>New tables, taken from memory not in use, may have been linked in; no mapping and no page
  other than the tree's own tables has changed.\<close>

definition pt_grown :: "'a vm_scheme \<Rightarrow> 'a vm_scheme \<Rightarrow> nat \<Rightarrow> uintptr \<Rightarrow> bool" where
  "pt_grown s s' h t \<longleftrightarrow>
     (\<exists>new. used_pages s' = used_pages s \<union> new \<and> new \<inter> used_pages s = {} \<and>
        pt_foot (vm_page s') h t = pt_foot (vm_page s) h t \<union> new) \<and>
     pt_tables (vm_page s) h t \<subseteq> pt_tables (vm_page s') h t \<and>
     pt_tables (vm_page s') h t \<inter> used_pages s \<subseteq> pt_tables (vm_page s) h t \<and>
     (\<forall>p \<in> used_pages s - pt_tables (vm_page s) h t. vm_page s' p = vm_page s p) \<and>
     (\<forall>k. pt_lookup (vm_page s') h t k = pt_lookup (vm_page s) h t k)"

lemma pt_grown_refl: "pt_grown s s h t"
  unfolding pt_grown_def by (intro conjI exI [of _ "{}"]) auto

lemma pt_grown_trans:
  assumes "pt_grown s s1 h t" "pt_grown s1 s2 h t"
  shows "pt_grown s s2 h t"
proof -
  obtain n1 where a: "used_pages s1 = used_pages s \<union> n1" "n1 \<inter> used_pages s = {}"
    "pt_foot (vm_page s1) h t = pt_foot (vm_page s) h t \<union> n1"
    "pt_tables (vm_page s) h t \<subseteq> pt_tables (vm_page s1) h t"
    "pt_tables (vm_page s1) h t \<inter> used_pages s \<subseteq> pt_tables (vm_page s) h t"
    "\<And>p. p \<in> used_pages s - pt_tables (vm_page s) h t \<Longrightarrow> vm_page s1 p = vm_page s p"
    "\<And>k. pt_lookup (vm_page s1) h t k = pt_lookup (vm_page s) h t k"
    using assms(1) unfolding pt_grown_def by blast
  obtain n2 where b: "used_pages s2 = used_pages s1 \<union> n2" "n2 \<inter> used_pages s1 = {}"
    "pt_foot (vm_page s2) h t = pt_foot (vm_page s1) h t \<union> n2"
    "pt_tables (vm_page s1) h t \<subseteq> pt_tables (vm_page s2) h t"
    "pt_tables (vm_page s2) h t \<inter> used_pages s1 \<subseteq> pt_tables (vm_page s1) h t"
    "\<And>p. p \<in> used_pages s1 - pt_tables (vm_page s1) h t \<Longrightarrow> vm_page s2 p = vm_page s1 p"
    "\<And>k. pt_lookup (vm_page s2) h t k = pt_lookup (vm_page s1) h t k"
    using assms(2) unfolding pt_grown_def by blast
  show ?thesis unfolding pt_grown_def
  proof (intro conjI exI [of _ "n1 \<union> n2"] ballI allI)
    fix p assume p: "p \<in> used_pages s - pt_tables (vm_page s) h t"
    then have "p \<in> used_pages s1 - pt_tables (vm_page s1) h t" using a(1,5) by blast
    then show "vm_page s2 p = vm_page s p" using a(6) [OF p] b(6) by simp
  qed (use a b in \<open>auto\<close>)
qed

definition pt_tsub :: "ptstore \<Rightarrow> nat \<Rightarrow> pte_t \<Rightarrow> uintptr set" where
  "pt_tsub M h e = (if pte_valid e then pt_tables M h (pte_child e) else {})"

lemma pt_tables_tsub: "pt_tables M (Suc h) t = insert t (\<Union>i \<in> {..<512}. pt_tsub M h (M t i))"
  by (auto simp: pt_tsub_def pt_tables.simps split: if_splits)

lemma pt_tsub_sub: "pt_tsub M h e \<subseteq> pt_sub M h e"
  using pt_tables_foot by (simp add: pt_tsub_def pt_sub_def)

lemma UN_split_one: "i < (512::nat) \<Longrightarrow> (\<Union>j \<in> {..<512}. f j) = f i \<union> (\<Union>j \<in> {..<512} - {i}. f j)"
  by blast

text \<open>When the tree below one entry grows, the whole tree grows.\<close>

lemma pt_grown_child:
  fixes s s' :: "'a vm_scheme"
  assumes ok: "pt_ok s (Suc (Suc n)) t" and i: "i < 512" and v: "pte_valid (vm_page s t i)"
    and c: "c = pte_child (vm_page s t i)" and okc: "pt_ok s' (Suc n) c" and gr: "pt_grown s s' (Suc n) c"
  shows "pt_ok s' (Suc (Suc n)) t" "pt_grown s s' (Suc (Suc n)) t" "vm_page s' t = vm_page s t"
proof -
  let ?M = "vm_page s" and ?M' = "vm_page s'"
  obtain new where u: "used_pages s' = used_pages s \<union> new" "new \<inter> used_pages s = {}"
      "pt_foot ?M' (Suc n) c = pt_foot ?M (Suc n) c \<union> new"
    and tb: "pt_tables ?M (Suc n) c \<subseteq> pt_tables ?M' (Suc n) c"
      "pt_tables ?M' (Suc n) c \<inter> used_pages s \<subseteq> pt_tables ?M (Suc n) c"
    and same: "\<And>p. p \<in> used_pages s \<Longrightarrow> p \<notin> pt_tables ?M (Suc n) c \<Longrightarrow> ?M' p = ?M p"
    and lk: "\<And>k. pt_lookup ?M' (Suc n) c k = pt_lookup ?M (Suc n) c k"
    using gr unfolding pt_grown_def by blast
  have wf: "pt_wf ?M (Suc (Suc n)) t" and sub: "pt_foot ?M (Suc (Suc n)) t \<subseteq> used_pages s"
    using ok by (simp_all only: pt_ok_def)
  have sc: "pt_sub ?M (Suc n) (?M t i) = pt_foot ?M (Suc n) c" using v c by (simp add: pt_sub_def)
  have tc: "pt_tables ?M (Suc n) c \<subseteq> pt_foot ?M (Suc n) c" by (rule pt_tables_foot)
  have tn: "t \<notin> pt_foot ?M (Suc n) c" using pt_sub_root [OF wf i] sc by simp
  have tu: "t \<in> used_pages s" using sub pt_foot_root by blast
  show row: "?M' t = ?M t" using same [OF tu] tn tc by blast
  have sc': "pt_sub ?M' (Suc n) (?M' t i) = pt_foot ?M' (Suc n) c" using v c by (simp add: pt_sub_def row)
  have agree: "\<And>p. p \<in> pt_foot ?M (Suc (Suc n)) t \<Longrightarrow> p \<notin> pt_sub ?M (Suc n) (?M t i) \<Longrightarrow> p \<noteq> t \<Longrightarrow> ?M' p = ?M p"
    using same sub tc sc by blast
  have e1: "pt_wf ?M' (Suc n) (pte_child (?M' t i)) \<and> t \<notin> pt_sub ?M' (Suc n) (?M' t i) \<and>
      pt_sub ?M' (Suc n) (?M' t i) \<inter> (pt_foot ?M (Suc (Suc n)) t - pt_sub ?M (Suc n) (?M t i)) = {}"
  proof -
    have "pt_wf ?M' (Suc n) c" using okc by (simp only: pt_ok_def)
    moreover have "pt_foot ?M' (Suc n) c \<inter> (pt_foot ?M (Suc (Suc n)) t - pt_foot ?M (Suc n) c) = {}"
      "t \<notin> pt_foot ?M' (Suc n) c"
      unfolding u(3) using tn tu u(2) sub by blast+
    ultimately show ?thesis unfolding sc sc' unfolding row c [symmetric] by blast
  qed
  have cin: "pt_foot ?M (Suc n) c \<subseteq> pt_foot ?M (Suc (Suc n)) t"
    using i unfolding pt_foot_sub [of ?M "Suc n" t] sc [symmetric] by blast
  have foot: "pt_foot ?M' (Suc (Suc n)) t = pt_foot ?M (Suc (Suc n)) t \<union> new"
    using pt_node_update(2) [where M' = ?M', OF wf i agree _ _ e1] v cin
    unfolding sc sc' u(3) by (simp add: row) blast
  have wf': "pt_wf ?M' (Suc (Suc n)) t"
    using pt_node_update(1) [where M' = ?M', OF wf i agree _ _ e1] v by (simp add: row)
  then show "pt_ok s' (Suc (Suc n)) t" unfolding pt_ok_def foot u(1) using sub by blast
  have kid: "pt_tsub ?M' (Suc n) (?M t j) = pt_tsub ?M (Suc n) (?M t j)" if "j < 512" "j \<noteq> i" for j
  proof (cases "pte_valid (?M t j)")
    case True
    have "\<forall>p \<in> pt_tables ?M (Suc n) (pte_child (?M t j)). ?M' p = ?M p"
    proof
      fix p assume "p \<in> pt_tables ?M (Suc n) (pte_child (?M t j))"
      then have "p \<in> pt_sub ?M (Suc n) (?M t j)" using pt_tsub_sub True unfolding pt_tsub_def by fastforce
      moreover from this have "p \<in> pt_foot ?M (Suc (Suc n)) t" using that(1) unfolding pt_foot_sub by blast
      moreover have "pt_sub ?M (Suc n) (?M t j) \<inter> pt_sub ?M (Suc n) (?M t i) = {}"
        by (rule pt_sub_disjoint [OF wf that(1) i that(2)])
      ultimately show "?M' p = ?M p" using same sub tc sc by blast
    qed
    from pt_frame(2) [OF this] show ?thesis by (simp add: pt_tsub_def)
  qed (simp add: pt_tsub_def)
  have ti: "pt_tsub ?M' (Suc n) (?M t i) = pt_tables ?M' (Suc n) c" "pt_tsub ?M (Suc n) (?M t i) = pt_tables ?M (Suc n) c"
    using v c by (simp_all add: pt_tsub_def)
  have tabs: "pt_tables ?M' (Suc (Suc n)) t = insert t (pt_tables ?M' (Suc n) c \<union>
      (\<Union>j \<in> {..<512} - {i}. pt_tsub ?M (Suc n) (?M t j)))"
    unfolding pt_tables_tsub [of ?M' "Suc n"] row UN_split_one [OF i] ti using kid by simp
  have tabs0: "pt_tables ?M (Suc (Suc n)) t = insert t (pt_tables ?M (Suc n) c \<union>
      (\<Union>j \<in> {..<512} - {i}. pt_tsub ?M (Suc n) (?M t j)))"
    unfolding pt_tables_tsub [of ?M "Suc n"] UN_split_one [OF i] ti ..
  have look: "pt_lookup ?M' (Suc (Suc n)) t k = pt_lookup ?M (Suc (Suc n)) t k" for k
  proof (cases "pt_idx (Suc n) k = i")
    case True
    then show ?thesis using lk v c by (simp add: pt_lookup_node row)
  next
    case False
    then show ?thesis using pt_node_update(3) [where M' = ?M', OF wf i agree _ _ e1 False] v by (simp add: row)
  qed
  show "pt_grown s s' (Suc (Suc n)) t"
    unfolding pt_grown_def
  proof (intro conjI exI [of _ new] ballI allI)
    show "pt_tables ?M (Suc (Suc n)) t \<subseteq> pt_tables ?M' (Suc (Suc n)) t"
      unfolding tabs tabs0 using tb(1) by blast
    show "pt_tables ?M' (Suc (Suc n)) t \<inter> used_pages s \<subseteq> pt_tables ?M (Suc (Suc n)) t"
      unfolding tabs tabs0 using tb(2) by blast
    show "?M' p = ?M p" if "p \<in> used_pages s - pt_tables ?M (Suc (Suc n)) t" for p
      using same [of p] that unfolding tabs0 by blast
  qed (use u foot look in blast)+
qed

text \<open>Writing a leaf entry leaves the set of tables alone.\<close>

lemma fill_tables:
  assumes "pt_slot M (Suc h) t k = Some (p, i)" "pt_wf M (Suc h) t"
  shows "pt_tables (M(p := (M p)(i := e))) (Suc h) t = pt_tables M (Suc h) t"
  using assms
proof (induction h arbitrary: t)
  case 0
  then show ?case by (auto simp: pt_tables.simps)
next
  case (Suc h)
  let ?j = "pt_idx (Suc h) k" and ?M' = "M(p := (M p)(i := e))"
  have v: "pte_valid (M t ?j)" "pt_slot M (Suc h) (pte_child (M t ?j)) k = Some (p, i)"
    using Suc.prems(1) by (auto simp: Let_def split: if_splits)
  have wfc: "pt_wf M (Suc h) (pte_child (M t ?j))"
    using Suc.prems(2) v(1) by (simp add: pt_wf.simps(2) [of M "Suc h" t])
  have p: "p \<in> pt_sub M (Suc h) (M t ?j)"
    using subsetD [OF pt_tables_foot] pt_slot_table [OF v(2)] v(1) unfolding pt_sub_def by presburger
  then have row: "?M' t = M t" using pt_sub_root [OF Suc.prems(2) pt_idx_less] by auto
  have "pt_tsub ?M' (Suc h) (M t j) = pt_tsub M (Suc h) (M t j)" if j: "j < 512" for j
  proof (cases "j = ?j")
    case True
    then show ?thesis using Suc.IH [OF v(2) wfc] v(1) by (simp only: pt_tsub_def if_True)
  next
    case False
    then have "p \<notin> pt_sub M (Suc h) (M t j)" using pt_sub_disjoint [OF Suc.prems(2) j pt_idx_less] p by blast
    then have "\<forall>r \<in> pt_tsub M (Suc h) (M t j). ?M' r = M r" using pt_tsub_sub by fastforce
    then show ?thesis using pt_frame(2) [of M "Suc h" "pte_child (M t j)" ?M'] by (auto simp: pt_tsub_def split: if_splits)
  qed
  then show ?case unfolding pt_tables_tsub [of _ "Suc h"] row by simp
qed

text \<open>The tree of a process after the mappings \<open>m\<close> were added: new tables and the mapped pages join the
  tree, and nothing else changes.\<close>

definition pt_adds :: "'a vm_scheme \<Rightarrow> 'a vm_scheme \<Rightarrow> nat \<Rightarrow> uintptr \<Rightarrow> (nat \<rightharpoonup> pte_t) \<Rightarrow> bool" where
  "pt_adds s s' h t m \<longleftrightarrow>
     (\<exists>new. used_pages s' = used_pages s \<union> new \<and> new \<inter> used_pages s = {} \<and>
        pt_foot (vm_page s') h t = pt_foot (vm_page s) h t \<union> new \<union> pte_child ` ran m) \<and>
     pt_tables (vm_page s') h t \<inter> used_pages s \<subseteq> pt_tables (vm_page s) h t \<and>
     (\<forall>p \<in> used_pages s - pt_tables (vm_page s) h t. vm_page s' p = vm_page s p) \<and>
     (\<forall>k < 512 ^ h. pt_lookup (vm_page s') h t k = (pt_lookup (vm_page s) h t ++ m) k)"

lemma pt_grown_adds: "pt_grown s s' h t \<Longrightarrow> pt_adds s s' h t Map.empty"
  unfolding pt_grown_def pt_adds_def by simp

lemma pt_adds_trans:
  assumes "pt_adds s s1 h t m1" "pt_adds s1 s2 h t m2" "dom m1 \<inter> dom m2 = {}"
  shows "pt_adds s s2 h t (m1 ++ m2)"
proof -
  obtain n1 where a: "used_pages s1 = used_pages s \<union> n1" "n1 \<inter> used_pages s = {}"
    "pt_foot (vm_page s1) h t = pt_foot (vm_page s) h t \<union> n1 \<union> pte_child ` ran m1"
    "pt_tables (vm_page s1) h t \<inter> used_pages s \<subseteq> pt_tables (vm_page s) h t"
    "\<And>p. p \<in> used_pages s - pt_tables (vm_page s) h t \<Longrightarrow> vm_page s1 p = vm_page s p"
    "\<And>k. k < 512 ^ h \<Longrightarrow> pt_lookup (vm_page s1) h t k = (pt_lookup (vm_page s) h t ++ m1) k"
    using assms(1) unfolding pt_adds_def by blast
  obtain n2 where b: "used_pages s2 = used_pages s1 \<union> n2" "n2 \<inter> used_pages s1 = {}"
    "pt_foot (vm_page s2) h t = pt_foot (vm_page s1) h t \<union> n2 \<union> pte_child ` ran m2"
    "pt_tables (vm_page s2) h t \<inter> used_pages s1 \<subseteq> pt_tables (vm_page s1) h t"
    "\<And>p. p \<in> used_pages s1 - pt_tables (vm_page s1) h t \<Longrightarrow> vm_page s2 p = vm_page s1 p"
    "\<And>k. k < 512 ^ h \<Longrightarrow> pt_lookup (vm_page s2) h t k = (pt_lookup (vm_page s1) h t ++ m2) k"
    using assms(2) unfolding pt_adds_def by blast
  have ran: "ran (m1 ++ m2) = ran m1 \<union> ran m2" using assms(3) by (rule ran_map_add)
  show ?thesis unfolding pt_adds_def ran
  proof (intro conjI exI [of _ "n1 \<union> n2"] ballI allI impI)
    fix p assume p: "p \<in> used_pages s - pt_tables (vm_page s) h t"
    then have "p \<in> used_pages s1 - pt_tables (vm_page s1) h t" using a(1,4) by blast
    then show "vm_page s2 p = vm_page s p" using a(5) [OF p] b(5) by simp
  next
    fix k :: nat assume k: "k < 512 ^ h"
    show "pt_lookup (vm_page s2) h t k = (pt_lookup (vm_page s) h t ++ (m1 ++ m2)) k"
      unfolding b(6) [OF k] map_add_assoc by (simp only: map_add_def a(6) [OF k, unfolded map_add_def])
  next
    show "pt_foot (vm_page s2) h t = pt_foot (vm_page s) h t \<union> (n1 \<union> n2) \<union> pte_child ` (ran m1 \<union> ran m2)"
      unfolding b(3) a(3) by auto
    show "pt_tables (vm_page s2) h t \<inter> used_pages s \<subseteq> pt_tables (vm_page s) h t"
      using a(1,4) b(4) by blast
    show "used_pages s2 = used_pages s \<union> (n1 \<union> n2)" unfolding a(1) b(1) by blast
    show "(n1 \<union> n2) \<inter> used_pages s = {}" using a(1,2) b(2) by blast
  qed
qed

text \<open>The tree after the mappings of \<open>K\<close> were removed, seen on the page numbers \<open>B\<close>: the pages
  \<open>gone\<close>, among them every page that was mapped there, have left the tree and are no longer in use.\<close>

definition pt_cut :: "'a vm_scheme \<Rightarrow> 'a vm_scheme \<Rightarrow> nat \<Rightarrow> uintptr \<Rightarrow> nat set \<Rightarrow> nat set \<Rightarrow> bool" where
  "pt_cut s s' h t B K \<longleftrightarrow>
     (\<exists>gone. used_pages s' = used_pages s - gone \<and> gone \<subseteq> pt_foot (vm_page s) h t - {t} \<and>
        pt_foot (vm_page s') h t = pt_foot (vm_page s) h t - gone \<and>
        (\<forall>k \<in> B \<inter> K. \<forall>e. pt_lookup (vm_page s) h t k = Some e \<longrightarrow> pte_child e \<in> gone)) \<and>
     pt_tables (vm_page s') h t \<subseteq> pt_tables (vm_page s) h t \<and>
     (\<forall>p. p \<notin> pt_tables (vm_page s) h t \<longrightarrow> vm_page s' p = vm_page s p) \<and>
     (\<forall>k \<in> B. pt_lookup (vm_page s') h t k = (if k \<in> K then None else pt_lookup (vm_page s) h t k))"

lemma pt_cut_none:
  assumes "\<And>k. k \<in> B \<Longrightarrow> k \<in> K \<Longrightarrow> pt_lookup (vm_page s) h t k = None"
  shows "pt_cut s s h t B K"
  unfolding pt_cut_def using assms by (intro conjI exI [of _ "{}"]) auto

lemma pt_cut_weaken:
  assumes "pt_cut s s' h t B K" "L \<subseteq> K" "\<And>k. k \<in> B \<Longrightarrow> k \<in> K \<Longrightarrow> k \<notin> L \<Longrightarrow> pt_lookup (vm_page s) h t k = None"
  shows "pt_cut s s' h t B L"
proof -
  have "\<forall>k \<in> B. pt_lookup (vm_page s') h t k = (if k \<in> L then None else pt_lookup (vm_page s) h t k)"
    using assms unfolding pt_cut_def by (metis (no_types, lifting) subsetD)
  then show ?thesis using assms(1,2) unfolding pt_cut_def by blast
qed

lemma pt_cut_trans:
  assumes "pt_cut s s1 h t B K1" "pt_cut s1 s2 h t B K2"
  shows "pt_cut s s2 h t B (K1 \<union> K2)"
proof -
  obtain g1 where a: "used_pages s1 = used_pages s - g1" "g1 \<subseteq> pt_foot (vm_page s) h t - {t}"
    "pt_foot (vm_page s1) h t = pt_foot (vm_page s) h t - g1"
    "\<And>k e. k \<in> B \<inter> K1 \<Longrightarrow> pt_lookup (vm_page s) h t k = Some e \<Longrightarrow> pte_child e \<in> g1"
    "pt_tables (vm_page s1) h t \<subseteq> pt_tables (vm_page s) h t"
    "\<And>p. p \<notin> pt_tables (vm_page s) h t \<Longrightarrow> vm_page s1 p = vm_page s p"
    "\<And>k. k \<in> B \<Longrightarrow> pt_lookup (vm_page s1) h t k = (if k \<in> K1 then None else pt_lookup (vm_page s) h t k)"
    using assms(1) unfolding pt_cut_def by blast
  obtain g2 where b: "used_pages s2 = used_pages s1 - g2" "g2 \<subseteq> pt_foot (vm_page s1) h t - {t}"
    "pt_foot (vm_page s2) h t = pt_foot (vm_page s1) h t - g2"
    "\<And>k e. k \<in> B \<inter> K2 \<Longrightarrow> pt_lookup (vm_page s1) h t k = Some e \<Longrightarrow> pte_child e \<in> g2"
    "pt_tables (vm_page s2) h t \<subseteq> pt_tables (vm_page s1) h t"
    "\<And>p. p \<notin> pt_tables (vm_page s1) h t \<Longrightarrow> vm_page s2 p = vm_page s1 p"
    "\<And>k. k \<in> B \<Longrightarrow> pt_lookup (vm_page s2) h t k = (if k \<in> K2 then None else pt_lookup (vm_page s1) h t k)"
    using assms(2) unfolding pt_cut_def by blast
  show ?thesis unfolding pt_cut_def
  proof (intro conjI exI [of _ "g1 \<union> g2"] ballI allI impI)
    fix k e assume "k \<in> B \<inter> (K1 \<union> K2)" "pt_lookup (vm_page s) h t k = Some e"
    then show "pte_child e \<in> g1 \<union> g2" using a(4,7) b(4) by (cases "k \<in> K1") auto
  next
    fix p assume p: "p \<notin> pt_tables (vm_page s) h t"
    then show "vm_page s2 p = vm_page s p" using a(6) [OF p] b(6) [of p] a(5) by auto
  next
    fix k assume "k \<in> B"
    then show "pt_lookup (vm_page s2) h t k = (if k \<in> K1 \<union> K2 then None else pt_lookup (vm_page s) h t k)"
      using a(7) b(7) by simp
  next
    show "used_pages s2 = used_pages s - (g1 \<union> g2)" unfolding a(1) b(1) by blast
    show "g1 \<union> g2 \<subseteq> pt_foot (vm_page s) h t - {t}" using a(2,3) b(2) by blast
    show "pt_foot (vm_page s2) h t = pt_foot (vm_page s) h t - (g1 \<union> g2)" unfolding a(3) b(3) by blast
    show "pt_tables (vm_page s2) h t \<subseteq> pt_tables (vm_page s) h t" using a(5) b(5) by blast
  qed
qed

text \<open>Tables below the other entries of a node are untouched when only the tree of one entry changes.\<close>

lemma pt_tsub_frame:
  assumes wf: "pt_wf M (Suc h) t" and i: "i < 512" "j < 512" "j \<noteq> i"
    and same: "\<And>p. p \<noteq> t \<Longrightarrow> p \<notin> pt_tsub M h (M t i) \<Longrightarrow> p \<in> pt_foot M (Suc h) t \<Longrightarrow> M' p = M p"
  shows "pt_tsub M' h (M t j) = pt_tsub M h (M t j)"
proof (cases "pte_valid (M t j)")
  case True
  have "\<forall>p \<in> pt_tables M h (pte_child (M t j)). M' p = M p"
  proof
    fix p assume "p \<in> pt_tables M h (pte_child (M t j))"
    then have p: "p \<in> pt_sub M h (M t j)" using pt_tsub_sub True unfolding pt_tsub_def by fastforce
    have "pt_sub M h (M t j) \<inter> pt_sub M h (M t i) = {}" by (rule pt_sub_disjoint [OF wf i(2,1,3)])
    moreover have "p \<in> pt_foot M (Suc h) t" using p i(2) unfolding pt_foot_sub by blast
    ultimately show "M' p = M p" using same [of p] p pt_tsub_sub pt_sub_root [OF wf i(2)] by blast
  qed
  from pt_frame(2) [OF this] show ?thesis by (simp add: pt_tsub_def)
qed (simp add: pt_tsub_def)

lemma pt_cut_child:
  fixes s s' :: "'a vm_scheme"
  assumes ok: "pt_ok s (Suc (Suc n)) t" and i: "i < 512" and v: "pte_valid (vm_page s t i)"
    and c: "c = pte_child (vm_page s t i)" and okc: "pt_ok s' (Suc n) c" and cut: "pt_cut s s' (Suc n) c C K"
    and B: "\<And>k. k \<in> B \<Longrightarrow> pt_idx (Suc n) k = i \<longleftrightarrow> k \<in> C" and K: "K \<subseteq> C"
  shows "pt_ok s' (Suc (Suc n)) t" "pt_cut s s' (Suc (Suc n)) t B K" "vm_page s' t = vm_page s t"
proof -
  let ?M = "vm_page s" and ?M' = "vm_page s'"
  obtain g where u: "used_pages s' = used_pages s - g" "g \<subseteq> pt_foot ?M (Suc n) c - {c}"
      "pt_foot ?M' (Suc n) c = pt_foot ?M (Suc n) c - g"
      "\<And>k e. k \<in> C \<inter> K \<Longrightarrow> pt_lookup ?M (Suc n) c k = Some e \<Longrightarrow> pte_child e \<in> g"
    and tb: "pt_tables ?M' (Suc n) c \<subseteq> pt_tables ?M (Suc n) c"
    and same: "\<And>p. p \<notin> pt_tables ?M (Suc n) c \<Longrightarrow> ?M' p = ?M p"
    and lk: "\<And>k. k \<in> C \<Longrightarrow> pt_lookup ?M' (Suc n) c k = (if k \<in> K then None else pt_lookup ?M (Suc n) c k)"
    using cut unfolding pt_cut_def by blast
  have wf: "pt_wf ?M (Suc (Suc n)) t" and sub: "pt_foot ?M (Suc (Suc n)) t \<subseteq> used_pages s"
    using ok by (simp_all only: pt_ok_def)
  have sc: "pt_sub ?M (Suc n) (?M t i) = pt_foot ?M (Suc n) c" using v c by (simp add: pt_sub_def)
  have tc: "pt_tables ?M (Suc n) c \<subseteq> pt_foot ?M (Suc n) c" by (rule pt_tables_foot)
  have tn: "t \<notin> pt_foot ?M (Suc n) c" using pt_sub_root [OF wf i] sc by simp
  show row: "?M' t = ?M t" using same [of t] tn tc by blast
  have sc': "pt_sub ?M' (Suc n) (?M' t i) = pt_foot ?M' (Suc n) c" using v c by (simp add: pt_sub_def row)
  have cin: "pt_foot ?M (Suc n) c \<subseteq> pt_foot ?M (Suc (Suc n)) t"
    using i unfolding pt_foot_sub [of ?M "Suc n" t] sc [symmetric] by blast
  have agree: "\<And>p. p \<in> pt_foot ?M (Suc (Suc n)) t \<Longrightarrow> p \<notin> pt_sub ?M (Suc n) (?M t i) \<Longrightarrow> p \<noteq> t \<Longrightarrow> ?M' p = ?M p"
    using same tc sc by blast
  have other: "\<And>j. j < 512 \<Longrightarrow> j \<noteq> i \<Longrightarrow> ?M' t j = ?M t j" by (simp add: row)
  have e0: "\<not> pte_valid (?M' t i) \<Longrightarrow> ?M' t i = 0" using v row by simp
  have e1: "pt_wf ?M' (Suc n) (pte_child (?M' t i)) \<and> t \<notin> pt_sub ?M' (Suc n) (?M' t i) \<and>
      pt_sub ?M' (Suc n) (?M' t i) \<inter> (pt_foot ?M (Suc (Suc n)) t - pt_sub ?M (Suc n) (?M t i)) = {}"
  proof -
    have "pt_wf ?M' (Suc n) c" using okc by (simp only: pt_ok_def)
    moreover have "pt_foot ?M' (Suc n) c \<inter> (pt_foot ?M (Suc (Suc n)) t - pt_foot ?M (Suc n) c) = {}"
      "t \<notin> pt_foot ?M' (Suc n) c" unfolding u(3) using tn by blast+
    ultimately show ?thesis unfolding sc sc' unfolding row c [symmetric] by blast
  qed
  note w = pt_node_update [where M' = ?M', OF wf i agree other e0 e1]
  have foot: "pt_foot ?M' (Suc (Suc n)) t = pt_foot ?M (Suc (Suc n)) t - g"
    using w(2) u(2) cin unfolding sc sc' u(3) by blast
  show "pt_ok s' (Suc (Suc n)) t" unfolding pt_ok_def foot u(1) using w(1) sub by blast
  have kid: "pt_tsub ?M' (Suc n) (?M t j) = pt_tsub ?M (Suc n) (?M t j)" if "j < 512" "j \<noteq> i" for j
    by (rule pt_tsub_frame [OF wf i that]) (use same v c in \<open>simp add: pt_tsub_def\<close>)
  have ti: "pt_tsub ?M' (Suc n) (?M t i) \<subseteq> pt_tsub ?M (Suc n) (?M t i)"
    using tb v c by (simp add: pt_tsub_def)
  have tabs: "pt_tables ?M' (Suc (Suc n)) t \<subseteq> pt_tables ?M (Suc (Suc n)) t"
    unfolding pt_tables_tsub [of _ "Suc n"] row UN_split_one [OF i] using kid ti by auto
  have cint: "pt_tables ?M (Suc n) c \<subseteq> pt_tables ?M (Suc (Suc n)) t"
    using i v c unfolding pt_tables_tsub [of _ "Suc n" t] by (auto simp: pt_tsub_def)
  have sel: "pt_lookup ?M (Suc (Suc n)) t k = pt_lookup ?M (Suc n) c k"
    "pt_lookup ?M' (Suc (Suc n)) t k = pt_lookup ?M' (Suc n) c k" if "pt_idx (Suc n) k = i" for k
    using that v c by (simp_all add: pt_lookup_node row)
  show "pt_cut s s' (Suc (Suc n)) t B K"
    unfolding pt_cut_def
  proof (intro conjI exI [of _ g] ballI allI impI)
    fix k assume k: "k \<in> B"
    show "pt_lookup ?M' (Suc (Suc n)) t k = (if k \<in> K then None else pt_lookup ?M (Suc (Suc n)) t k)"
      using B [OF k] lk sel w(3) K by (cases "k \<in> C") auto
  next
    fix k e assume k: "k \<in> B \<inter> K" "pt_lookup ?M (Suc (Suc n)) t k = Some e"
    then have "k \<in> C \<inter> K" "pt_idx (Suc n) k = i" using K B by blast+
    then show "pte_child e \<in> g" using u(4) [of k e] sel(1) k(2) by simp
  next
    show "g \<subseteq> pt_foot ?M (Suc (Suc n)) t - {t}" using u(2) cin tn by blast
    show "?M' p = ?M p" if "p \<notin> pt_tables ?M (Suc (Suc n)) t" for p using same [of p] that cint by blast
  qed (use u foot tabs in blast)+
qed

text \<open>The mappings of \<open>j\<close> pages from page number \<open>k0\<close> on, at consecutive physical pages.\<close>

definition range_map :: "nat \<Rightarrow> uint64 \<Rightarrow> uint64 \<Rightarrow> nat \<Rightarrow> nat \<rightharpoonup> pte_t" where
  "range_map k0 pa perm j = (\<lambda>k. if k0 \<le> k \<and> k < k0 + j then Some ((pa + of_nat (k - k0) * PGSIZE) OR perm) else None)"

lemma range_map_0 [simp]: "range_map k0 pa perm 0 = Map.empty"
  by (auto simp: range_map_def)

lemma range_map_Suc: "range_map k0 pa perm (Suc j) = [k0 \<mapsto> pa OR perm] ++ range_map (Suc k0) (pa + PGSIZE) perm j"
proof
  fix k
  show "range_map k0 pa perm (Suc j) k = ([k0 \<mapsto> pa OR perm] ++ range_map (Suc k0) (pa + PGSIZE) perm j) k"
  proof (cases "Suc k0 \<le> k")
    case True
    then obtain d where d: "k = Suc k0 + d" by (metis le_iff_add)
    have "pa + of_nat (Suc d) * PGSIZE = pa + PGSIZE + of_nat d * PGSIZE" by (simp add: algebra_simps)
    then show ?thesis by (simp add: range_map_def map_add_def d add.assoc)
  qed (auto simp: range_map_def map_add_def)
qed

lemma range_map_1: "range_map k0 pa perm (Suc 0) = [k0 \<mapsto> pa OR perm]"
  by (simp add: range_map_Suc)

lemma dom_range_map [simp]: "dom (range_map k0 pa perm j) = {k0..<k0 + j}"
  by (auto simp: range_map_def split: if_splits)

lemma vpn_less: "va < MAXUVA \<Longrightarrow> vpn va < 512 ^ 4"
  by (simp add: vpn_def word_less_nat_alt MAXUVA_def)

lemma vpn_page_step:
  assumes "page_aligned a" "unat a + 4096 < 2 ^ 64"
  shows "vpn (a + PGSIZE) = Suc (vpn a)" "page_aligned (a + PGSIZE)"
proof -
  have "unat (a + PGSIZE) = unat a + 4096" using assms(2) by (subst unat_add_no_wrap) simp_all
  then show "vpn (a + PGSIZE) = Suc (vpn a)" "page_aligned (a + PGSIZE)"
    using assms(1) by (simp_all add: vpn_def page_aligned_def)
qed

text \<open>Loops over entries.\<close>

lemma for_step_invariant:
  assumes P: "P va s" and e: "unat e + unat step \<le> 2 ^ 64" "0 < unat step"
    and body: "\<And>va s. P va s \<Longrightarrow> va < e \<Longrightarrow> \<exists>s'. body va s = Some (Inr s') \<and> P (va + step) s'"
  shows "\<exists>va' s'. for_step body step va e s = Some (Inr s') \<and> P va' s' \<and> \<not> va' < e"
  using P
proof (induction "unat e - unat va" arbitrary: va s rule: less_induct)
  case less
  show ?case
  proof (cases "va < e")
    case True
    then obtain s' where b: "body va s = Some (Inr s')" "P (va + step) s'" using body [OF less.prems] by blast
    have "unat va < unat e" using True by (simp add: word_less_nat_alt)
    moreover from this have "unat (va + step) = unat va + unat step" using e(1) by (subst unat_add_no_wrap) simp_all
    ultimately have "unat e - unat (va + step) < unat e - unat va" using e(2) by linarith
    from less.hyps [OF this b(2)] show ?thesis using True b(1) by (subst for_step.simps) simp
  next
    case False
    then show ?thesis using less.prems by (subst for_step.simps) auto
  qed
qed

section \<open>The view of a process\<close>

text \<open>
  What an operation on an address space may do: the map from page numbers to entries becomes \<open>m\<close>; the
  pages in use outside the tree stay the same ones with the same contents (nothing leaks, nothing of
  others is touched), and a page mapped before and after keeps its contents.
\<close>

definition uvm_map :: "'a vm_scheme \<Rightarrow> uintptr \<Rightarrow> nat \<rightharpoonup> pte_t" where
  "uvm_map s t k = (if k < 512 ^ 4 then pt_lookup (vm_page s) 4 t k else None)"

definition uvm_rest :: "'a vm_scheme \<Rightarrow> uintptr \<Rightarrow> uintptr set" where
  "uvm_rest s t = used_pages s - pt_foot (vm_page s) 4 t"

definition uvm_rel :: "'a vm_scheme \<Rightarrow> 'a vm_scheme \<Rightarrow> uintptr \<Rightarrow> (nat \<rightharpoonup> pte_t) \<Rightarrow> bool" where
  "uvm_rel s s' t m \<longleftrightarrow> uvm_map s' t = m \<and> uvm_rest s' t = uvm_rest s t \<and>
     (\<forall>p \<in> uvm_rest s t. vm_page s' p = vm_page s p) \<and>
     (\<forall>k e. uvm_map s t k = Some e \<longrightarrow> m k = Some e \<longrightarrow> vm_page s' (pte_child e) = vm_page s (pte_child e))"

lemma uvm_rel_content:
  "uvm_rel s s' t m \<Longrightarrow> uvm_map s t k = Some e \<Longrightarrow> m k = Some e \<Longrightarrow> vm_page s' (pte_child e) = vm_page s (pte_child e)"
  unfolding uvm_rel_def by blast

lemma uvm_rel_map: "uvm_rel s s' t m \<Longrightarrow> uvm_map s' t = m"
  unfolding uvm_rel_def by blast

lemma uvm_rel_refl: "uvm_rel s s t (uvm_map s t)"
  by (simp add: uvm_rel_def)

lemma uvm_rel_trans:
  assumes "uvm_rel s s1 t m1" "uvm_rel s1 s2 t m2"
    "\<And>k e. uvm_map s t k = Some e \<Longrightarrow> m2 k = Some e \<Longrightarrow> m1 k = Some e"
  shows "uvm_rel s s2 t m2"
  using assms unfolding uvm_rel_def by (metis (no_types, lifting))

lemma pt_lookup_not_table:
  assumes "pt_wf M (Suc h) t" "pt_lookup M (Suc h) t k = Some e"
  shows "pte_child e \<notin> pt_tables M (Suc h) t"
  using assms
proof (induction h arbitrary: t)
  case 0
  let ?i = "pt_idx 0 k"
  have e: "pte_valid (M t ?i)" "e = M t ?i" using "0.prems"(2) by (auto simp: pt_lookup_leaf split: if_splits)
  then have "pte_child e \<noteq> t" using pt_sub_root [OF "0.prems"(1) pt_idx_less, of 0 k] by (simp add: pt_sub_def)
  then show ?case by (simp add: pt_tables.simps)
next
  case (Suc h)
  let ?i = "pt_idx (Suc h) k"
  have v: "pte_valid (M t ?i)" "pt_lookup M (Suc h) (pte_child (M t ?i)) k = Some e"
    using Suc.prems(2) by (auto simp: pt_lookup_node Let_def split: if_splits)
  have n: "pte_child e \<notin> pt_tsub M (Suc h) (M t ?i)"
    using Suc.IH [OF pt_wf_child [OF Suc.prems(1) pt_idx_less v(1)] v(2)] v(1) by (simp add: pt_tsub_def)
  have f: "pte_child e \<in> pt_sub M (Suc h) (M t ?i)" using pt_lookup_foot [OF v(2)] v(1) by (simp add: pt_sub_def)
  have "pte_child e \<notin> pt_tsub M (Suc h) (M t j)" if "j < 512" for j
    using n f pt_sub_disjoint [OF Suc.prems(1) pt_idx_less that, of "Suc h" k] pt_tsub_sub
    by (cases "j = ?i") blast+
  moreover have "pte_child e \<noteq> t" using f pt_sub_root [OF Suc.prems(1) pt_idx_less] by blast
  ultimately show ?case unfolding pt_tables_tsub [of M "Suc h" t] by blast
qed

lemma uvm_map_page:
  assumes "pt_ok s 4 t" "uvm_map s t k = Some e"
  shows "pte_child e \<in> used_pages s" "pte_child e \<in> pt_foot (vm_page s) 4 t" "pte_child e \<notin> pt_tables (vm_page s) 4 t"
proof -
  have l: "pt_lookup (vm_page s) 4 t k = Some e" using assms(2) by (auto simp: uvm_map_def split: if_splits)
  have four: "(4::nat) = Suc 3" by simp
  show f: "pte_child e \<in> pt_foot (vm_page s) 4 t" using pt_lookup_foot [OF l] by blast
  then show "pte_child e \<in> used_pages s" using assms(1) unfolding pt_ok_def by blast
  show "pte_child e \<notin> pt_tables (vm_page s) 4 t"
    using pt_lookup_not_table [of "vm_page s" 3 t k e] l assms(1) unfolding pt_ok_def four by blast
qed

lemma pt_adds_rel:
  assumes "pt_ok s 4 t" "pt_adds s s' 4 t m" "dom m \<subseteq> {..<512 ^ 4}"
  shows "uvm_map s' t = uvm_map s t ++ m" "uvm_rest s' t = uvm_rest s t - pte_child ` ran m"
    "p \<in> uvm_rest s t \<Longrightarrow> vm_page s' p = vm_page s p"
    "uvm_map s t k = Some e \<Longrightarrow> vm_page s' (pte_child e) = vm_page s (pte_child e)"
proof -
  obtain new where a: "used_pages s' = used_pages s \<union> new" "new \<inter> used_pages s = {}"
    "pt_foot (vm_page s') 4 t = pt_foot (vm_page s) 4 t \<union> new \<union> pte_child ` ran m"
    "\<And>p. p \<in> used_pages s - pt_tables (vm_page s) 4 t \<Longrightarrow> vm_page s' p = vm_page s p"
    "\<And>k. k < 512 ^ 4 \<Longrightarrow> pt_lookup (vm_page s') 4 t k = (pt_lookup (vm_page s) 4 t ++ m) k"
    using assms(2) unfolding pt_adds_def by blast
  show "uvm_map s' t = uvm_map s t ++ m"
  proof
    fix k
    show "uvm_map s' t k = (uvm_map s t ++ m) k"
    proof (cases "k < 512 ^ 4")
      case True then show ?thesis using a(5) [OF True] by (simp add: uvm_map_def map_add_def split: option.split)
    next
      case False
      then have "m k = None" using assms(3) by auto
      then show ?thesis using False by (simp add: uvm_map_def map_add_def)
    qed
  qed
  show "uvm_rest s' t = uvm_rest s t - pte_child ` ran m" unfolding uvm_rest_def a(1,3) using a(2) by blast
  show "p \<in> uvm_rest s t \<Longrightarrow> vm_page s' p = vm_page s p"
    using a(4) [of p] subsetD [OF pt_tables_foot] unfolding uvm_rest_def by blast
  show "uvm_map s t k = Some e \<Longrightarrow> vm_page s' (pte_child e) = vm_page s (pte_child e)"
    using uvm_map_page [OF assms(1), of k e] a(4) by blast
qed

lemma pt_cut_rel:
  assumes "pt_ok s 4 t" "pt_cut s s' 4 t {..<512 ^ 4} K"
  shows "uvm_rel s s' t (uvm_map s t |` (- K))"
    "k \<in> K \<Longrightarrow> uvm_map s t k = Some e \<Longrightarrow> pte_child e \<notin> used_pages s'"
proof -
  obtain g where a: "used_pages s' = used_pages s - g" "g \<subseteq> pt_foot (vm_page s) 4 t - {t}"
    "pt_foot (vm_page s') 4 t = pt_foot (vm_page s) 4 t - g"
    "\<And>k e. k \<in> {..<512 ^ 4} \<inter> K \<Longrightarrow> pt_lookup (vm_page s) 4 t k = Some e \<Longrightarrow> pte_child e \<in> g"
    "\<And>p. p \<notin> pt_tables (vm_page s) 4 t \<Longrightarrow> vm_page s' p = vm_page s p"
    "\<And>k. k \<in> {..<512 ^ 4} \<Longrightarrow> pt_lookup (vm_page s') 4 t k = (if k \<in> K then None else pt_lookup (vm_page s) 4 t k)"
    using assms(2) unfolding pt_cut_def by blast
  have m: "uvm_map s' t = uvm_map s t |` (- K)"
    by (rule ext) (simp add: uvm_map_def restrict_map_def a(6))
  have r: "uvm_rest s' t = uvm_rest s t" unfolding uvm_rest_def a(1,3) using a(2) by blast
  have p: "vm_page s' p = vm_page s p" if "p \<in> uvm_rest s t" for p
    using that a(5) [of p] subsetD [OF pt_tables_foot] unfolding uvm_rest_def by blast
  have d: "vm_page s' (pte_child e) = vm_page s (pte_child e)" if "uvm_map s t k = Some e" for k e
    using uvm_map_page(3) [OF assms(1) that] a(5) by blast
  show "uvm_rel s s' t (uvm_map s t |` (- K))" unfolding uvm_rel_def using m r p d by blast
  show "k \<in> K \<Longrightarrow> uvm_map s t k = Some e \<Longrightarrow> pte_child e \<notin> used_pages s'"
    using a(1,4) by (auto simp: uvm_map_def split: if_splits)
qed

text \<open>Pages that cover a size.\<close>

definition npages :: "uint64 \<Rightarrow> nat" where
  "npages sz = (unat sz + 4095) div 4096"

lemma npages_PGROUNDUP:
  assumes "unat sz \<le> 2 ^ 48"
  shows "unat (PGROUNDUP sz) = 4096 * npages sz" "vpn (PGROUNDUP sz) = npages sz"
  using unat_PGROUNDUP [of sz] assms by (simp_all add: npages_def vpn_def)

lemma npages_mono: "unat a \<le> unat b \<Longrightarrow> npages a \<le> npages b"
  by (simp add: npages_def div_le_mono)

lemma npages_aligned: "page_aligned a \<Longrightarrow> npages a = vpn a"
  by (auto simp: npages_def vpn_def page_aligned_def elim!: dvdE)

lemma npages_max: "unat sz \<le> 2 ^ 48 \<Longrightarrow> npages sz \<le> 512 ^ 4"
proof -
  assume "unat sz \<le> 2 ^ 48"
  then have "(unat sz + 4095) div 4096 \<le> (2 ^ 48 + 4095) div 4096" by (intro div_le_mono) simp
  then show ?thesis by (simp add: npages_def)
qed

lemma less_npages: "page_aligned a \<Longrightarrow> unat a < unat sz \<longleftrightarrow> vpn a < npages sz"
  by (auto simp: npages_def vpn_def page_aligned_def elim!: dvdE)

text \<open>The attributes of an entry, as \<open>uvmcopy\<close> extracts them.\<close>

lemma entry_attrs:
  assumes "pte_valid e"
  shows "attrs_ok (e XOR PTE_ADDR e)"
proof -
  have "PTE_ADDR e AND PTE_VALID = 0" by (simp add: PTE_ADDR_def PTE_VALID_def and.assoc)
  then have "(e XOR PTE_ADDR e) AND PTE_VALID = e AND PTE_VALID"
    by (simp add: bit.conj_xor_distrib2)
  moreover have "PTE_ADDR (e XOR PTE_ADDR e) = 0"
    by (simp add: PTE_ADDR_def bit.conj_xor_distrib2 and.assoc)
  ultimately show ?thesis using assms by (simp add: attrs_ok_def pte_valid_def)
qed

section \<open>What the page tables need of memory\<close>

text \<open>
  Pages in use keep their contents and stay in use when a page is allocated, even when the allocator
  has to reclaim; a page handed out was not in use; a page in use can be written and given back.
\<close>

locale page_store =
  fixes inv :: "'a vm_scheme \<Rightarrow> bool" and rc :: "'a reclaim"
  assumes used_range: "inv s \<Longrightarrow> p \<in> used_pages s \<Longrightarrow> page_aligned (KVA_TO_PA p) \<and> KVA_TO_PA p < MAXUVA"
    and alloc_ok: "inv s \<Longrightarrow> \<exists>r s'. kpage_alloc rc s = Inr (r, s') \<and> inv s' \<and>
      used_pages s' = used_pages s \<union> set_option r \<and> set_option r \<inter> used_pages s = {} \<and>
      (\<forall>p \<in> used_pages s. vm_page s' p = vm_page s p)"
    and free_ok: "inv s \<Longrightarrow> p \<in> used_pages s \<Longrightarrow> \<exists>s'. kpage_free p s = Inr s' \<and> inv s' \<and>
      used_pages s' = used_pages s - {p} \<and> vm_page s' = vm_page s"
    and write_ok: "inv s \<Longrightarrow> p \<in> used_pages s \<Longrightarrow> inv (s\<lparr>vm_page := (vm_page s)(p := f)\<rparr>)"
begin

lemma inv_wr: "inv s \<Longrightarrow> t \<in> used_pages s \<Longrightarrow> inv (wr (t, i) e s)"
  by (simp add: wr_def write_ok)

lemma inv_zero_page: "inv s \<Longrightarrow> p \<in> used_pages s \<Longrightarrow> inv (zero_page p s)"
  by (simp add: zero_page_def write_ok)

lemma inv_copy_page: "inv s \<Longrightarrow> p \<in> used_pages s \<Longrightarrow> inv (copy_page p r s)"
  by (simp add: copy_page_def write_ok)

lemma ptalloc_ok:
  assumes "inv s"
  shows "\<exists>r s'. ptalloc rc s = Inr (r, s') \<and> inv s' \<and> used_pages s' = used_pages s \<union> set_option r \<and>
    set_option r \<inter> used_pages s = {} \<and> (\<forall>p \<in> used_pages s. vm_page s' p = vm_page s p) \<and>
    (\<forall>p \<in> set_option r. vm_page s' p = (\<lambda>_. 0))"
proof -
  obtain r s' where a: "kpage_alloc rc s = Inr (r, s')" "inv s'" "used_pages s' = used_pages s \<union> set_option r"
    "set_option r \<inter> used_pages s = {}" "\<forall>p \<in> used_pages s. vm_page s' p = vm_page s p"
    using alloc_ok [OF assms] by blast
  show ?thesis
  proof (cases r)
    case (Some p)
    then have "inv (zero_page p s')" using a inv_zero_page by simp
    then show ?thesis using a Some by (auto simp: ptalloc_def)
  qed (use a in \<open>simp add: ptalloc_def\<close>)
qed

text \<open>Linking an empty table into a free entry.\<close>

lemma link_table:
  assumes inv: "inv s1" and ok: "pt_ok s (Suc (Suc n)) t" and i: "i < 512" and nv: "\<not> pte_valid (vm_page s t i)"
    and u: "used_pages s1 = insert nx (used_pages s)" "nx \<notin> used_pages s"
    and same: "\<forall>p \<in> used_pages s. vm_page s1 p = vm_page s p" and z: "vm_page s1 nx = (\<lambda>_. 0)"
    and s2: "s2 = wr (t, i) (KVA_TO_PA nx OR PTE_VALID OR PTE_TABLE) s1"
  shows "inv s2" "pt_ok s2 (Suc (Suc n)) t" "pt_grown s s2 (Suc (Suc n)) t"
    "pte_valid (vm_page s2 t i)" "pte_child (vm_page s2 t i) = nx" "pt_ok s2 (Suc n) nx"
proof -
  let ?M = "vm_page s" and ?M' = "vm_page s2" and ?e = "KVA_TO_PA nx OR PTE_VALID OR PTE_TABLE"
  have wf: "pt_wf ?M (Suc (Suc n)) t" and sub: "pt_foot ?M (Suc (Suc n)) t \<subseteq> used_pages s"
    using ok by (simp_all only: pt_ok_def)
  have tu: "t \<in> used_pages s" using sub pt_foot_root by blast
  have tnx: "t \<noteq> nx" using u tu by blast
  have us2: "used_pages s2 = insert nx (used_pages s)" by (simp add: s2 u)
  show "inv s2" using inv_wr [OF inv] tu u(1) by (simp add: s2)
  have rng: "page_aligned (KVA_TO_PA nx)" "KVA_TO_PA nx < MAXUVA" using used_range [OF inv] u(1) by blast+
  note mk = pte_make_child [OF rng table_attrs]
  have row: "?M' t i = ?e" "\<And>j. j \<noteq> i \<Longrightarrow> ?M' t j = ?M t j" using same tu by (simp_all add: s2)
  show v: "pte_valid (?M' t i)" and c: "pte_child (?M' t i) = nx" using mk by (simp_all add: row(1))
  have znx: "?M' nx = (\<lambda>_. 0)" using z tnx by (simp add: s2)
  note em = pt_empty [of ?M' nx, OF znx]
  show "pt_ok s2 (Suc n) nx" unfolding pt_ok_def using em(1,2) us2 by blast
  have other: "?M' p = ?M p" if "p \<in> used_pages s" "p \<noteq> t" for p using same that by (simp add: s2)
  have so: "pt_sub ?M (Suc n) (?M t i) = {}" using nv by (simp add: pt_sub_def)
  have sn: "pt_sub ?M' (Suc n) (?M' t i) = {nx}" using v c em(2) by (simp only: pt_sub_def if_True)
  have agree: "\<And>p. p \<in> pt_foot ?M (Suc (Suc n)) t \<Longrightarrow> p \<notin> pt_sub ?M (Suc n) (?M t i) \<Longrightarrow> p \<noteq> t \<Longrightarrow> ?M' p = ?M p"
    using other sub by blast
  have e0: "\<not> pte_valid (?M' t i) \<Longrightarrow> ?M' t i = 0" using v by blast
  have e1: "pt_wf ?M' (Suc n) (pte_child (?M' t i)) \<and> t \<notin> pt_sub ?M' (Suc n) (?M' t i) \<and>
      pt_sub ?M' (Suc n) (?M' t i) \<inter> (pt_foot ?M (Suc (Suc n)) t - pt_sub ?M (Suc n) (?M t i)) = {}"
    unfolding sn c using em(1) tnx u(2) sub by blast
  note w = pt_node_update [where M' = ?M', OF wf i agree row(2) e0 e1]
  have foot: "pt_foot ?M' (Suc (Suc n)) t = insert nx (pt_foot ?M (Suc (Suc n)) t)"
    using w(2) unfolding so sn by blast
  show "pt_ok s2 (Suc (Suc n)) t" unfolding pt_ok_def foot us2 using w(1) sub by blast
  have kid: "pt_tsub ?M' (Suc n) (?M t j) = pt_tsub ?M (Suc n) (?M t j)" if "j < 512" for j
  proof (cases "pte_valid (?M t j)")
    case True
    have "\<forall>p \<in> pt_tables ?M (Suc n) (pte_child (?M t j)). ?M' p = ?M p"
    proof
      fix p assume "p \<in> pt_tables ?M (Suc n) (pte_child (?M t j))"
      then have "p \<in> pt_sub ?M (Suc n) (?M t j)" using pt_tsub_sub True unfolding pt_tsub_def by fastforce
      then show "?M' p = ?M p"
        using that pt_sub_root [OF wf that] agree [of p] so unfolding pt_foot_sub by blast
    qed
    from pt_frame(2) [OF this] show ?thesis by (simp add: pt_tsub_def)
  qed (simp add: pt_tsub_def)
  have tabs: "pt_tables ?M' (Suc (Suc n)) t = insert nx (pt_tables ?M (Suc (Suc n)) t)"
  proof -
    have "pt_tsub ?M' (Suc n) (?M' t i) = {nx}" "pt_tsub ?M (Suc n) (?M t i) = {}"
      using v c em(3) nv by (simp_all add: pt_tsub_def)
    moreover have "(\<Union>j \<in> {..<512} - {i}. pt_tsub ?M' (Suc n) (?M' t j)) =
        (\<Union>j \<in> {..<512} - {i}. pt_tsub ?M (Suc n) (?M t j))"
      using kid row(2) by simp
    ultimately show ?thesis unfolding pt_tables_tsub [of _ "Suc n"] UN_split_one [OF i]
      by (simp add: insert_commute)
  qed
  have look: "pt_lookup ?M' (Suc (Suc n)) t k = pt_lookup ?M (Suc (Suc n)) t k" for k
  proof (cases "pt_idx (Suc n) k = i")
    case True
    then show ?thesis using v c em(4) nv by (simp add: pt_lookup_node)
  qed (rule w(3))
  show "pt_grown s s2 (Suc (Suc n)) t"
    unfolding pt_grown_def tabs us2 foot
  proof (intro conjI exI [of _ "{nx}"] ballI)
    fix p assume p: "p \<in> used_pages s - pt_tables ?M (Suc (Suc n)) t"
    moreover have "t \<in> pt_tables ?M (Suc (Suc n)) t" by (simp add: pt_tables.simps(2) [of _ "Suc n"])
    ultimately show "?M' p = ?M p" using other by blast
  qed (use u(2) look in auto)
qed

lemma walk_loop_spec:
  assumes "inv s" "pt_ok s (Suc n) t" "n \<le> 3"
  shows "\<exists>r s'. walk_loop rc n t va alloc s = Inr (r, s') \<and> inv s' \<and> pt_ok s' (Suc n) t \<and>
    pt_grown s s' (Suc n) t \<and>
    (case r of None \<Rightarrow> pt_lookup (vm_page s') (Suc n) t (vpn va) = None
     | Some q \<Rightarrow> pt_slot (vm_page s') (Suc n) t (vpn va) = Some q)"
  using assms
proof (induction n arbitrary: t s)
  case 0
  then show ?case using pt_grown_refl va_idx_pt_idx [of 0 va] by auto
next
  case (Suc n)
  let ?i = "pt_idx (Suc n) (vpn va)"
  have i: "va_idx (2 - n) va = ?i" using va_idx_pt_idx [OF Suc.prems(3), of va] by simp
  have step: "\<exists>r s'. walk_loop rc n (pte_child (vm_page s t ?i)) va alloc s = Inr (r, s') \<and> inv s' \<and>
      pt_ok s' (Suc (Suc n)) t \<and> pt_grown s s' (Suc (Suc n)) t \<and>
      (case r of None \<Rightarrow> pt_lookup (vm_page s') (Suc (Suc n)) t (vpn va) = None
       | Some q \<Rightarrow> pt_slot (vm_page s') (Suc (Suc n)) t (vpn va) = Some q)"
    if s: "inv s" "pt_ok s (Suc (Suc n)) t" "pte_valid (vm_page s t ?i)" "pt_ok s (Suc n) (pte_child (vm_page s t ?i))" for s
  proof -
    let ?c = "pte_child (vm_page s t ?i)"
    obtain r s' where a: "walk_loop rc n ?c va alloc s = Inr (r, s')" "inv s'" "pt_ok s' (Suc n) ?c"
      "pt_grown s s' (Suc n) ?c" "case r of None \<Rightarrow> pt_lookup (vm_page s') (Suc n) ?c (vpn va) = None
       | Some q \<Rightarrow> pt_slot (vm_page s') (Suc n) ?c (vpn va) = Some q"
      using Suc.IH [OF s(1,4)] Suc.prems(3) by auto
    note g = pt_grown_child [OF s(2) pt_idx_less s(3) refl a(3,4)]
    have "case r of None \<Rightarrow> pt_lookup (vm_page s') (Suc (Suc n)) t (vpn va) = None
       | Some q \<Rightarrow> pt_slot (vm_page s') (Suc (Suc n)) t (vpn va) = Some q"
      using a(5) s(3) g(3) by (cases r) (simp_all add: pt_lookup_node Let_def)
    then show ?thesis using a g by blast
  qed
  show ?case
  proof (cases "pte_valid (vm_page s t ?i)")
    case v: True
    have "pt_ok s (Suc n) (pte_child (vm_page s t ?i))" by (rule pt_ok_child [OF Suc.prems(2) pt_idx_less v])
    from step [OF Suc.prems(1,2) v this] show ?thesis using v by (simp add: i)
  next
    case nv: False
    have none: "pt_lookup (vm_page s) (Suc (Suc n)) t (vpn va) = None" using nv by (simp add: pt_lookup_node)
    show ?thesis
    proof (cases alloc)
      case False
      then show ?thesis using nv none Suc.prems pt_grown_refl by (auto simp: i)
    next
      case True
      obtain r s1 where a: "ptalloc rc s = Inr (r, s1)" "inv s1" "used_pages s1 = used_pages s \<union> set_option r"
        "set_option r \<inter> used_pages s = {}" "\<forall>p \<in> used_pages s. vm_page s1 p = vm_page s p"
        "\<forall>p \<in> set_option r. vm_page s1 p = (\<lambda>_. 0)"
        using ptalloc_ok [OF Suc.prems(1)] by blast
      show ?thesis
      proof (cases r)
        case None
        have tab: "\<forall>p \<in> pt_tables (vm_page s) (Suc (Suc n)) t. vm_page s1 p = vm_page s p"
          using a(5) Suc.prems(2) pt_tables_foot unfolding pt_ok_def by blast
        note fr = pt_frame [OF tab]
        have "pt_ok s1 (Suc (Suc n)) t" using Suc.prems(2) a(3) None unfolding pt_ok_def fr by simp
        moreover have "pt_grown s s1 (Suc (Suc n)) t" unfolding pt_grown_def fr
          using a(3,5) None by (intro conjI exI [of _ "{}"]) auto
        ultimately show ?thesis using a(1,2) None nv True none fr by (simp add: i)
      next
        case (Some nx)
        let ?s2 = "wr (t, ?i) (KVA_TO_PA nx OR PTE_VALID OR PTE_TABLE) s1"
        have b: "used_pages s1 = insert nx (used_pages s)" "nx \<notin> used_pages s" "vm_page s1 nx = (\<lambda>_. 0)"
          using a Some by auto
        note l = link_table [OF a(2) Suc.prems(2) pt_idx_less nv b(1,2) a(5) b(3) refl]
        obtain r' s' where d: "walk_loop rc n nx va alloc ?s2 = Inr (r', s')" "inv s'"
          "pt_ok s' (Suc (Suc n)) t" "pt_grown ?s2 s' (Suc (Suc n)) t"
          "case r' of None \<Rightarrow> pt_lookup (vm_page s') (Suc (Suc n)) t (vpn va) = None
            | Some q \<Rightarrow> pt_slot (vm_page s') (Suc (Suc n)) t (vpn va) = Some q"
          using step [OF l(1,2,4)] l(5,6) by auto
        have "pt_grown s s' (Suc (Suc n)) t" by (rule pt_grown_trans [OF l(3) d(4)])
        then show ?thesis using d a(1) Some nv True by (simp add: i)
      qed
    qed
  qed
qed

lemma walk_loop_read: "n \<le> 3 \<Longrightarrow> walk_loop rc n t va False s = Inr (pt_slot (vm_page s) (Suc n) t (vpn va), s)"
proof (induction n arbitrary: t)
  case 0
  then show ?case using va_idx_pt_idx [of 0 va] by simp
next
  case (Suc n)
  then show ?case using va_idx_pt_idx [OF Suc.prems, of va] by (simp add: Let_def)
qed



text \<open>One entry: a free slot of a well-formed tree is filled.\<close>

lemma fill_slot:
  assumes inv: "inv s" and ok: "pt_ok s (Suc h) t" and sl: "pt_slot (vm_page s) (Suc h) t k = Some q"
    and nv: "pt_lookup (vm_page s) (Suc h) t k = None" and k: "k < 512 ^ Suc h"
    and e: "pte_valid e" "pte_child e \<in> used_pages s - pt_foot (vm_page s) (Suc h) t"
  shows "\<not> pte_valid (rd q s)" "inv (wr q e s)" "pt_ok (wr q e s) (Suc h) t"
    "pt_adds s (wr q e s) (Suc h) t [k \<mapsto> e]"
proof -
  obtain p i where q: "q = (p, i)" by (cases q)
  have pt: "p \<in> pt_tables (vm_page s) (Suc h) t" using pt_slot_table [OF sl [unfolded q]] by blast
  have pf: "p \<in> pt_foot (vm_page s) (Suc h) t" using pt pt_tables_foot by blast
  show nvq: "\<not> pte_valid (rd q s)" using nv sl q by (auto simp: pt_lookup_def split: if_splits)
  have wf: "pt_wf (vm_page s) (Suc h) t" and sub: "pt_foot (vm_page s) (Suc h) t \<subseteq> used_pages s"
    using ok by (simp_all only: pt_ok_def)
  show "inv (wr q e s)" unfolding q by (rule inv_wr [OF inv]) (use pf sub in blast)
  have w: "pt_wf (vm_page (wr q e s)) (Suc h) t"
    "pt_foot (vm_page (wr q e s)) (Suc h) t = (pt_foot (vm_page s) (Suc h) t - pt_sub (vm_page s) 0 (vm_page s p i)) \<union>
      pt_sub (vm_page (wr q e s)) 0 e"
    "\<And>l. pt_lookup (vm_page (wr q e s)) (Suc h) t l = (if l mod 512 ^ Suc h = k mod 512 ^ Suc h
       then (if pte_valid e then Some e else None) else pt_lookup (vm_page s) (Suc h) t l)"
    using pt_write_slot [OF wf sl [unfolded q], of "vm_page (wr q e s)" e] e by (auto simp: q)
  have foot: "pt_foot (vm_page (wr q e s)) (Suc h) t = insert (pte_child e) (pt_foot (vm_page s) (Suc h) t)"
    unfolding w(2) using e(1) nvq q by (simp add: pt_sub_def)
  show "pt_ok (wr q e s) (Suc h) t" unfolding pt_ok_def foot using w(1) sub e(2) by simp
  have tab: "pt_tables (vm_page (wr q e s)) (Suc h) t \<inter> used_pages s \<subseteq> pt_tables (vm_page s) (Suc h) t"
    using fill_tables [OF sl [unfolded q] wf, of e] e(2) unfolding q by auto
  show "pt_adds s (wr q e s) (Suc h) t [k \<mapsto> e]"
    unfolding pt_adds_def foot
    using w(3) e(1) k tab pt by (intro conjI exI [of _ "{}"]) (auto simp: q)
qed

lemma walk_spec:
  assumes "inv s" "pt_ok s 4 t" "va < MAXUVA"
  shows "\<exists>r s'. walk rc t va alloc s = Inr (r, s') \<and> inv s' \<and> pt_ok s' 4 t \<and> pt_grown s s' 4 t \<and>
    (case r of None \<Rightarrow> pt_lookup (vm_page s') 4 t (vpn va) = None
     | Some q \<Rightarrow> pt_slot (vm_page s') 4 t (vpn va) = Some q)"
proof -
  have four: "Suc 3 = (4::nat)" by simp
  show ?thesis using walk_loop_spec [of s 3 t va alloc, unfolded four] assms by (simp add: walk_def)
qed

text \<open>One step of the loop of \<open>mappages\<close>: the page is mapped, or there was no memory for a table.\<close>

lemma map_one:
  assumes s: "inv s" "pt_ok s 4 t" and va: "va < MAXUVA" and none: "pt_lookup (vm_page s) 4 t (vpn va) = None"
    and pa: "page_aligned pa" "pa < MAXUVA" "attrs_ok perm" "PA_TO_KVA pa \<in> used_pages s - pt_foot (vm_page s) 4 t"
  shows "\<exists>r s1. walk rc t va True s = Inr (r, s1) \<and>
    (case r of None \<Rightarrow> inv s1 \<and> pt_ok s1 4 t \<and> pt_adds s s1 4 t Map.empty
     | Some q \<Rightarrow> \<not> pte_valid (rd q s1) \<and> inv (wr q (pa OR perm) s1) \<and> pt_ok (wr q (pa OR perm) s1) 4 t \<and>
         pt_adds s (wr q (pa OR perm) s1) 4 t [vpn va \<mapsto> pa OR perm])"
proof -
  obtain r s1 where w: "walk rc t va True s = Inr (r, s1)" "inv s1" "pt_ok s1 4 t" "pt_grown s s1 4 t"
    "case r of None \<Rightarrow> pt_lookup (vm_page s1) 4 t (vpn va) = None
     | Some q \<Rightarrow> pt_slot (vm_page s1) 4 t (vpn va) = Some q"
    using walk_spec [OF s va, of True] by blast
  note g = pt_grown_adds [OF w(4)]
  show ?thesis
  proof (cases r)
    case None then show ?thesis using w g by simp
  next
    case (Some q)
    have four: "(4::nat) = Suc 3" by simp
    have e: "pte_valid (pa OR perm)" "pte_child (pa OR perm) = PA_TO_KVA pa"
      using pte_make_child [of "PA_TO_KVA pa" perm] pa by simp_all
    have fr: "PA_TO_KVA pa \<in> used_pages s1 - pt_foot (vm_page s1) 4 t"
      using w(4) pa(4) unfolding pt_grown_def by blast
    have nl: "pt_lookup (vm_page s1) 4 t (vpn va) = None" using w(4) none unfolding pt_grown_def by simp
    note f = fill_slot [where h = 3, folded four, OF w(2,3) _ nl vpn_less [OF va] e(1), unfolded e(2), OF _ fr, of q]
    have sl: "pt_slot (vm_page s1) 4 t (vpn va) = Some q" using w(5) Some by simp
    have "pt_adds s (wr q (pa OR perm) s1) 4 t (Map.empty ++ [vpn va \<mapsto> pa OR perm])"
      by (rule pt_adds_trans [OF g f(4) [OF sl]]) simp
    then show ?thesis using f(1-3) [OF sl] w(1) Some by simp
  qed
qed

lemma mappages_loop_spec:
  assumes "inv s" "pt_ok s 4 t" "page_aligned a" "unat a + Suc n * 4096 \<le> 2 ^ 48"
    "lst = a + of_nat n * PGSIZE" "page_aligned pa" "unat pa + Suc n * 4096 \<le> 2 ^ 48" "attrs_ok perm"
    "\<And>k. k \<le> n \<Longrightarrow> pt_lookup (vm_page s) 4 t (vpn a + k) = None"
    "\<And>k. k \<le> n \<Longrightarrow> PA_TO_KVA (pa + of_nat k * PGSIZE) \<in> used_pages s - pt_foot (vm_page s) 4 t"
  shows "\<exists>ok s' j. mappages_loop rc t a lst pa perm s = Inr (ok, s') \<and> inv s' \<and> pt_ok s' 4 t \<and>
    (if ok then j = Suc n else j \<le> n) \<and> pt_adds s s' 4 t (range_map (vpn a) pa perm j)"
  using assms
proof (induction n arbitrary: a pa s)
  case (0 a pa s)
  have rng: "a < MAXUVA" "pa < MAXUVA" using "0.prems"(4,7) by (simp_all add: word_less_nat_alt MAXUVA_def)
  have l: "pt_lookup (vm_page s) 4 t (vpn a) = None" using "0.prems"(9) [of 0] by simp
  have p: "PA_TO_KVA pa \<in> used_pages s - pt_foot (vm_page s) 4 t" using "0.prems"(10) [of 0] by simp
  obtain r s1 where m: "walk rc t a True s = Inr (r, s1)"
    "case r of None \<Rightarrow> inv s1 \<and> pt_ok s1 4 t \<and> pt_adds s s1 4 t Map.empty
     | Some q \<Rightarrow> \<not> pte_valid (rd q s1) \<and> inv (wr q (pa OR perm) s1) \<and> pt_ok (wr q (pa OR perm) s1) 4 t \<and>
         pt_adds s (wr q (pa OR perm) s1) 4 t [vpn a \<mapsto> pa OR perm]"
    using map_one [OF "0.prems"(1,2) rng(1) l "0.prems"(6) rng(2) "0.prems"(8) p] by blast
  show ?case
  proof (cases r)
    case None
    then show ?thesis using m by (intro exI [of _ False] exI [of _ s1] exI [of _ 0]) (simp add: mappages_loop.simps)
  next
    case (Some q)
    have run: "mappages_loop rc t a lst pa perm s = Inr (True, wr q (pa OR perm) s1)"
      using Some m "0.prems"(5) by (simp add: mappages_loop.simps [of _ _ a] Let_def)
    show ?thesis using Some m(2)
      by (intro exI [of _ True] exI [of _ "wr q (pa OR perm) s1"] exI [of _ "Suc 0"])
        (simp only: run range_map_1 option.case if_True simp_thms)
  qed
next
  case (Suc n a pa s)
  have rng: "a < MAXUVA" "pa < MAXUVA" using Suc.prems(4,7) by (simp_all add: word_less_nat_alt MAXUVA_def)
  have l: "pt_lookup (vm_page s) 4 t (vpn a) = None" using Suc.prems(9) [of 0] by simp
  have p: "PA_TO_KVA pa \<in> used_pages s - pt_foot (vm_page s) 4 t" using Suc.prems(10) [of 0] by simp
  obtain r s1 where m: "walk rc t a True s = Inr (r, s1)"
    "case r of None \<Rightarrow> inv s1 \<and> pt_ok s1 4 t \<and> pt_adds s s1 4 t Map.empty
     | Some q \<Rightarrow> \<not> pte_valid (rd q s1) \<and> inv (wr q (pa OR perm) s1) \<and> pt_ok (wr q (pa OR perm) s1) 4 t \<and>
         pt_adds s (wr q (pa OR perm) s1) 4 t [vpn a \<mapsto> pa OR perm]"
    using map_one [OF Suc.prems(1,2) rng(1) l Suc.prems(6) rng(2) Suc.prems(8) p] by blast
  show ?case
  proof (cases r)
    case None
    then show ?thesis using m by (intro exI [of _ False] exI [of _ s1] exI [of _ 0]) (simp add: mappages_loop.simps)
  next
    case (Some q)
    let ?s2 = "wr q (pa OR perm) s1"
    have s2: "inv ?s2" "pt_ok ?s2 4 t" "pt_adds s ?s2 4 t [vpn a \<mapsto> pa OR perm]" "\<not> pte_valid (rd q s1)"
      using m(2) Some by simp_all
    have a64: "unat a + 4096 < 2 ^ 64" "unat pa + 4096 < 2 ^ 64" using Suc.prems(4,7) by simp_all
    note va = vpn_page_step [OF Suc.prems(3) a64(1)] and vp = vpn_page_step [OF Suc.prems(6) a64(2)]
    have ua: "unat (a + PGSIZE) = unat a + 4096" "unat (pa + PGSIZE) = unat pa + 4096"
      using a64 by (simp_all add: unat_add_no_wrap)
    have nl: "a \<noteq> lst"
    proof
      assume "a = lst"
      then have "of_nat (Suc n) * PGSIZE = 0" using Suc.prems(5) by simp
      moreover have "unat (0 + of_nat (Suc n) * PGSIZE) = unat (0 :: uint64) + Suc n * 4096"
        by (rule unat_page_range) (use Suc.prems(4) in simp)
      ultimately show False by simp
    qed
    have lst: "lst = (a + PGSIZE) + of_nat n * PGSIZE" using Suc.prems(5) by (simp add: algebra_simps)
    have lk: "pt_lookup (vm_page ?s2) 4 t (vpn (a + PGSIZE) + k) = None" if "k \<le> n" for k
    proof -
      have "vpn a + Suc k < 512 ^ 4" using that Suc.prems(3,4) by (auto simp: vpn_def page_aligned_def)
      then have "pt_lookup (vm_page ?s2) 4 t (vpn a + Suc k) = (pt_lookup (vm_page s) 4 t ++ [vpn a \<mapsto> pa OR perm]) (vpn a + Suc k)"
        using s2(3) unfolding pt_adds_def by blast
      then show ?thesis using Suc.prems(9) [of "Suc k"] that by (simp add: va map_add_def)
    qed
    have e: "pte_child (pa OR perm) = PA_TO_KVA pa"
      using pte_make_child [of "PA_TO_KVA pa" perm] Suc.prems(6,8) rng by simp
    have fr: "PA_TO_KVA (pa + PGSIZE + of_nat k * PGSIZE) \<in> used_pages ?s2 - pt_foot (vm_page ?s2) 4 t" if "k \<le> n" for k
    proof -
      have eq: "pa + PGSIZE + of_nat k * PGSIZE = pa + of_nat (Suc k) * PGSIZE" by (simp add: algebra_simps)
      have "unat (pa + of_nat (Suc k) * PGSIZE) = unat pa + Suc k * 4096"
        by (rule unat_page_range) (use Suc.prems(7) that in simp)
      then have "pa + of_nat (Suc k) * PGSIZE \<noteq> pa" by (metis add_cancel_left_right mult_is_0 nat.distinct(1) zero_neq_numeral)
      then have "PA_TO_KVA (pa + of_nat (Suc k) * PGSIZE) \<noteq> PA_TO_KVA pa" by simp
      then show ?thesis using s2(3) Suc.prems(10) [of "Suc k"] that e unfolding pt_adds_def eq by auto
    qed
    obtain ok s' j where r: "mappages_loop rc t (a + PGSIZE) lst (pa + PGSIZE) perm ?s2 = Inr (ok, s')" "inv s'" "pt_ok s' 4 t"
      "if ok then j = Suc n else j \<le> n" "pt_adds ?s2 s' 4 t (range_map (vpn (a + PGSIZE)) (pa + PGSIZE) perm j)"
      using Suc.IH [OF s2(1,2) va(2) _ lst vp(2) _ Suc.prems(8) lk fr] Suc.prems(4,7) ua by auto
    have "pt_adds s s' 4 t (range_map (vpn a) pa perm (Suc j))"
      unfolding range_map_Suc by (rule pt_adds_trans [OF s2(3) r(5) [unfolded va(1)]]) simp
    moreover have "mappages_loop rc t a lst pa perm s = Inr (ok, s')"
      using m(1) Some s2(4) nl r(1) by (simp add: mappages_loop.simps [of _ _ a] Let_def)
    ultimately show ?thesis using r(2-4) by (intro exI [of _ ok] exI [of _ s'] exI [of _ "Suc j"]) auto
  qed
qed

text \<open>Freeing a tree gives back exactly its pages.\<close>

definition free_spec :: "nat \<Rightarrow> (uintptr \<Rightarrow> 'a vm_scheme \<Rightarrow> 'a vm_scheme res) \<Rightarrow> bool" where
  "free_spec h f \<longleftrightarrow> (\<forall>s c. inv s \<longrightarrow> pt_ok s h c \<longrightarrow> (\<exists>s'. f c s = Inr s' \<and> inv s' \<and>
     used_pages s' = used_pages s - pt_foot (vm_page s) h c \<and>
     (\<forall>p. p \<notin> pt_foot (vm_page s) h c \<longrightarrow> vm_page s' p = vm_page s p)))"

lemma free_entries:
  fixes f :: "uintptr \<Rightarrow> 'a vm_scheme \<Rightarrow> 'a vm_scheme res"
  assumes f: "free_spec h f" and s: "inv s" "pt_ok s (Suc h) t" and "j \<le> 512"
    and g: "g = (\<lambda>i s. if \<not> pte_valid (rd (t, i) s) then Inr s
      else rbind (f (pte_child (rd (t, i) s)) s) (\<lambda>s'. Inr (wr (t, i) 0 s')))"
  shows "\<exists>s'. seq_res g [0..<j] s = Inr s' \<and> inv s' \<and>
    used_pages s' = used_pages s - (\<Union>i \<in> {..<j}. pt_sub (vm_page s) h (vm_page s t i)) \<and>
    (\<forall>i \<ge> j. vm_page s' t i = vm_page s t i) \<and>
    (\<forall>p. p \<noteq> t \<longrightarrow> p \<notin> (\<Union>i \<in> {..<j}. pt_sub (vm_page s) h (vm_page s t i)) \<longrightarrow> vm_page s' p = vm_page s p)"
  using assms(4)
proof (induction j)
  case 0
  then show ?case using s by simp
next
  case (Suc j)
  let ?U = "\<lambda>j. \<Union>i \<in> {..<j}. pt_sub (vm_page s) h (vm_page s t i)"
  have wf: "pt_wf (vm_page s) (Suc h) t" and sub: "pt_foot (vm_page s) (Suc h) t \<subseteq> used_pages s"
    using s(2) by (simp_all only: pt_ok_def)
  have j: "j < 512" using Suc.prems by simp
  obtain s1 where a: "seq_res g [0..<j] s = Inr s1" "inv s1" "used_pages s1 = used_pages s - ?U j"
    "\<And>i. i \<ge> j \<Longrightarrow> vm_page s1 t i = vm_page s t i" "\<And>p. p \<noteq> t \<Longrightarrow> p \<notin> ?U j \<Longrightarrow> vm_page s1 p = vm_page s p"
    using Suc.IH j by auto
  let ?e = "vm_page s t j"
  have U: "?U (Suc j) = ?U j \<union> pt_sub (vm_page s) h ?e" by (simp add: lessThan_Suc Un_commute)
  have "pt_sub (vm_page s) h (vm_page s t i) \<inter> pt_sub (vm_page s) h ?e = {}" if "i < j" for i
    using pt_sub_disjoint [OF wf _ j, of i] that j by simp
  then have disj: "?U j \<inter> pt_sub (vm_page s) h ?e = {}" by blast
  have inF: "pt_sub (vm_page s) h ?e \<subseteq> pt_foot (vm_page s) (Suc h) t" using j unfolding pt_foot_sub by blast
  have tn: "t \<notin> ?U j" using pt_sub_root [OF wf] j by simp
  have tu: "t \<in> used_pages s1" using sub pt_foot_root tn unfolding a(3) by blast
  show ?case
  proof (cases "pte_valid ?e")
    case False
    then have "pt_sub (vm_page s) h ?e = {}" "g j s1 = Inr s1" using a(4) [of j] by (simp_all add: pt_sub_def g)
    then show ?thesis unfolding U using a by (simp add: seq_res_append)
  next
    case v: True
    let ?c = "pte_child ?e"
    have se: "pt_sub (vm_page s) h ?e = pt_foot (vm_page s) h ?c" using v by (simp add: pt_sub_def)
    have "vm_page s1 p = vm_page s p" if "p \<in> pt_tables (vm_page s) h ?c" for p
    proof -
      have "p \<in> pt_sub (vm_page s) h ?e" using that pt_tables_foot unfolding se by blast
      then show ?thesis using a(5) [of p] disj pt_sub_root [OF wf j] by blast
    qed
    then have tab: "\<forall>p \<in> pt_tables (vm_page s) h ?c. vm_page s1 p = vm_page s p" by blast
    note fr = pt_frame [OF tab]
    have wfc: "pt_wf (vm_page s1) h ?c" unfolding fr using pt_wf_child [of "vm_page s" h t j] wf j v by blast
    have okc: "pt_ok s1 h ?c" using wfc inF sub disj unfolding pt_ok_def fr a(3) se by blast
    obtain s2 where b: "f ?c s1 = Inr s2" "inv s2" "used_pages s2 = used_pages s1 - pt_foot (vm_page s) h ?c"
      "\<And>p. p \<notin> pt_foot (vm_page s) h ?c \<Longrightarrow> vm_page s2 p = vm_page s1 p"
      using f a(2) okc unfolding free_spec_def fr(1) [symmetric] by blast
    have tc: "t \<notin> pt_foot (vm_page s) h ?c" using pt_sub_root [OF wf j] unfolding se .
    have run: "seq_res g [0..<Suc j] s = Inr (wr (t, j) 0 s2)"
      using a(1) a(4) [of j] v b(1) by (simp add: seq_res_append g)
    have "inv (wr (t, j) 0 s2)" using inv_wr [OF b(2)] tu tc b(3) by blast
    moreover have "used_pages (wr (t, j) 0 s2) = used_pages s - ?U (Suc j)" unfolding U se using a(3) b(3) by auto
    moreover have "vm_page (wr (t, j) 0 s2) t i = vm_page s t i" if "i \<ge> Suc j" for i
      using that a(4) [of i] b(4) [OF tc] by simp
    moreover have "vm_page (wr (t, j) 0 s2) p = vm_page s p" if "p \<noteq> t" "p \<notin> ?U (Suc j)" for p
      using that a(5) [of p] b(4) [of p] unfolding U se by simp
    ultimately show ?thesis using run by blast
  qed
qed

lemma free_spec_table:
  assumes f: "free_spec h f" and F: "\<And>t s. F t s = rbind (seq_res (\<lambda>i s. if \<not> pte_valid (rd (t, i) s) then Inr s
      else rbind (f (pte_child (rd (t, i) s)) s) (\<lambda>s'. Inr (wr (t, i) 0 s'))) [0..<512] s) (kpage_free t)"
  shows "free_spec (Suc h) F"
  unfolding free_spec_def
proof (intro allI impI)
  fix s t assume s: "inv s" "pt_ok s (Suc h) t"
  let ?U = "\<Union>i \<in> {..<512}. pt_sub (vm_page s) h (vm_page s t i)"
  have wf: "pt_wf (vm_page s) (Suc h) t" and sub: "pt_foot (vm_page s) (Suc h) t \<subseteq> used_pages s"
    using s(2) by (simp_all only: pt_ok_def)
  have foot: "pt_foot (vm_page s) (Suc h) t = insert t ?U" by (rule pt_foot_sub)
  obtain s1 where a: "seq_res (\<lambda>i s. if \<not> pte_valid (rd (t, i) s) then Inr s
      else rbind (f (pte_child (rd (t, i) s)) s) (\<lambda>s'. Inr (wr (t, i) 0 s'))) [0..<512] s = Inr s1"
    "inv s1" "used_pages s1 = used_pages s - ?U" "\<And>p. p \<noteq> t \<Longrightarrow> p \<notin> ?U \<Longrightarrow> vm_page s1 p = vm_page s p"
    using free_entries [OF f s order_refl refl] by blast
  have "t \<notin> ?U" using pt_sub_root [OF wf] by simp
  then have "t \<in> used_pages s1" using sub unfolding foot a(3) by blast
  then obtain s' where b: "kpage_free t s1 = Inr s'" "inv s'" "used_pages s' = used_pages s1 - {t}" "vm_page s' = vm_page s1"
    using free_ok [OF a(2)] by blast
  have "F t s = Inr s'" unfolding F a(1) by (simp add: b(1))
  then show "\<exists>s'. F t s = Inr s' \<and> inv s' \<and> used_pages s' = used_pages s - pt_foot (vm_page s) (Suc h) t \<and>
      (\<forall>p. p \<notin> pt_foot (vm_page s) (Suc h) t \<longrightarrow> vm_page s' p = vm_page s p)"
    using a b unfolding foot by auto
qed

lemma freewalk_spec: "free_spec (Suc n) (freewalk n)"
proof (induction n)
  case 0
  have "free_spec 0 kpage_free" unfolding free_spec_def pt_ok_def using free_ok by fastforce
  then show ?case by (rule free_spec_table) (subst freewalk.simps, simp add: TABLE_ENTRIES_def Let_def cong: if_cong)
next
  case (Suc n)
  then show ?case by (rule free_spec_table) (subst freewalk.simps, simp add: TABLE_ENTRIES_def Let_def cong: if_cong)
qed

text \<open>Clearing an entry whose tree is a single page.\<close>

lemma clear_entry:
  assumes inv: "inv s" and ok: "pt_ok s (Suc h) t" and i: "i < 512" and v: "pte_valid (vm_page s t i)"
    and c: "c = pte_child (vm_page s t i)" and single: "pt_foot (vm_page s) h c = {c}"
    and B: "\<And>k. k \<in> B \<Longrightarrow> pt_idx h k = i \<longleftrightarrow> k \<in> C"
  shows "\<exists>s1. kpage_free c s = Inr s1 \<and> inv (wr (t, i) 0 s1) \<and> pt_ok (wr (t, i) 0 s1) (Suc h) t \<and>
    pt_cut s (wr (t, i) 0 s1) (Suc h) t B C"
proof -
  let ?M = "vm_page s"
  have wf: "pt_wf ?M (Suc h) t" and sub: "pt_foot ?M (Suc h) t \<subseteq> used_pages s"
    using ok by (simp_all only: pt_ok_def)
  have so: "pt_sub ?M h (?M t i) = {c}" using v c single by (simp add: pt_sub_def)
  have ct: "t \<noteq> c" using pt_sub_root [OF wf i] unfolding so by blast
  have cin: "c \<in> pt_foot ?M (Suc h) t" using i so unfolding pt_foot_sub by blast
  have tin: "t \<in> pt_foot ?M (Suc h) t" by simp
  obtain s1 where f: "kpage_free c s = Inr s1" "inv s1" "used_pages s1 = used_pages s - {c}" "vm_page s1 = ?M"
    using free_ok [OF inv, of c] cin sub by blast
  let ?s2 = "wr (t, i) 0 s1" and ?M' = "vm_page (wr (t, i) 0 s1)"
  have inv2: "inv ?s2" by (rule inv_wr [OF f(2)]) (use tin sub ct f(3) in blast)
  have M': "\<And>p. p \<noteq> t \<Longrightarrow> ?M' p = ?M p" "\<And>j. j \<noteq> i \<Longrightarrow> ?M' t j = ?M t j" "?M' t i = 0"
    by (simp_all add: f(4))
  have sn: "pt_sub ?M' h (?M' t i) = {}" by (simp add: pt_sub_def M'(3))
  have e1: "pte_valid (?M' t i) \<Longrightarrow> pt_wf ?M' h (pte_child (?M' t i)) \<and> t \<notin> pt_sub ?M' h (?M' t i) \<and>
      pt_sub ?M' h (?M' t i) \<inter> (pt_foot ?M (Suc h) t - pt_sub ?M h (?M t i)) = {}"
    unfolding M'(3) by simp
  have e0: "\<not> pte_valid (?M' t i) \<Longrightarrow> ?M' t i = 0" using M'(3) by blast
  note w = pt_node_update [where M' = ?M', OF wf i M'(1) M'(2) e0 e1]
  have foot: "pt_foot ?M' (Suc h) t = pt_foot ?M (Suc h) t - {c}" using w(2) unfolding so sn by blast
  have ok2: "pt_ok ?s2 (Suc h) t" unfolding pt_ok_def foot using w(1) sub f(3) by auto
  have gone: "pt_lookup ?M' (Suc h) t k = None" if "pt_idx h k = i" for k
    using that M'(3) by (cases h) (simp_all add: pt_lookup_leaf pt_lookup_node)
  have was: "pte_child e = c" if k: "pt_idx h k = i" and e: "pt_lookup ?M (Suc h) t k = Some e" for k e
  proof (cases h)
    case 0 then show ?thesis using k e v c by (simp add: pt_lookup_leaf)
  next
    case (Suc m)
    then have "pt_lookup ?M h c k = Some e" using k e v c by (simp add: pt_lookup_node)
    from pt_lookup_foot [OF this] show ?thesis using single by blast
  qed
  have kid: "pt_tsub ?M' h (?M t j) = pt_tsub ?M h (?M t j)" if "j < 512" "j \<noteq> i" for j
    by (rule pt_tsub_frame [OF wf i that]) (use M'(1) in blast)
  have tabs: "pt_tables ?M' (Suc h) t \<subseteq> pt_tables ?M (Suc h) t"
    unfolding pt_tables_tsub UN_split_one [OF i] M'(3) using kid M'(2) by (auto simp: pt_tsub_def)
  have tt: "t \<in> pt_tables ?M (Suc h) t" by (simp add: pt_tables.simps)
  have "pt_cut s ?s2 (Suc h) t B C"
    unfolding pt_cut_def
  proof (intro conjI exI [of _ "{c}"] ballI allI impI)
    fix k assume k: "k \<in> B"
    show "pt_lookup ?M' (Suc h) t k = (if k \<in> C then None else pt_lookup ?M (Suc h) t k)"
      using B [OF k] gone w(3) by auto
  next
    fix k e assume "k \<in> B \<inter> C" "pt_lookup ?M (Suc h) t k = Some e"
    then show "pte_child e \<in> {c}" using B was by blast
  next
    show "used_pages ?s2 = used_pages s - {c}" by (simp add: f(3))
    show "{c} \<subseteq> pt_foot ?M (Suc h) t - {t}" using cin ct by blast
    show "?M' p = ?M p" if "p \<notin> pt_tables ?M (Suc h) t" for p
    proof -
      have "p \<noteq> t" using that tt by blast
      then show ?thesis by (rule M'(1))
    qed
  qed (use foot tabs in blast)+
  then show ?thesis using f(1) inv2 ok2 by blast
qed

lemma collapse_spec:
  assumes s: "inv s" "pt_ok s (Suc (Suc m)) t" "i < 512" "pte_valid (vm_page s t i)" "c = pte_child (vm_page s t i)"
    and B: "\<And>k. k \<in> B \<Longrightarrow> pt_idx (Suc m) k = i \<longleftrightarrow> k \<in> C"
  shows "\<exists>s'. collapse (t, i) c s = Inr s' \<and> inv s' \<and> pt_ok s' (Suc (Suc m)) t \<and> pt_cut s s' (Suc (Suc m)) t B {}"
proof (cases "table_empty c s")
  case False
  then show ?thesis using s pt_cut_none [of B "{}" s] by (auto simp: collapse_def)
next
  case True
  then have z: "\<And>j. j < 512 \<Longrightarrow> vm_page s c j = 0" by (simp add: table_empty_def list_all_iff TABLE_ENTRIES_def)
  obtain s1 where a: "kpage_free c s = Inr s1" "inv (wr (t, i) 0 s1)" "pt_ok (wr (t, i) 0 s1) (Suc (Suc m)) t"
    "pt_cut s (wr (t, i) 0 s1) (Suc (Suc m)) t B C"
    using clear_entry [OF s pt_empty_entries(2) [of "vm_page s" c m, OF z] B] by blast
  have "pt_lookup (vm_page s) (Suc (Suc m)) t k = None" if "k \<in> B" "k \<in> C" for k
  proof -
    have "pt_idx (Suc m) k = i" using B that by blast
    then show ?thesis using s(4,5) pt_empty_entries(4) [of "vm_page s" c m k, OF z] by (simp add: pt_lookup_node)
  qed
  then have "pt_cut s (wr (t, i) 0 s1) (Suc (Suc m)) t B {}" by (intro pt_cut_weaken [OF a(4)]) simp_all
  then show ?thesis using a True by (auto simp: collapse_def)
qed

text \<open>The loop over the entries of one table, for a body that unmaps what one entry covers.\<close>

lemma unmap_loop:
  fixes b n :: nat
  defines "B \<equiv> {k. k div 512 ^ Suc n = b}"
  assumes n: "n \<le> 3" and s: "inv s" "pt_ok s (Suc n) t" and al: "page_aligned vs" "page_aligned ve" "unat ve \<le> 2 ^ 48"
    and blk: "vpn vs div 512 ^ Suc n = b" "vpn vs < vpn ve" "vpn ve \<le> Suc b * 512 ^ Suc n"
    and body: "\<And>s1 va q. inv s1 \<Longrightarrow> pt_ok s1 (Suc n) t \<Longrightarrow> unat va = 4096 * (q * 512 ^ n) \<Longrightarrow> q div 512 = b \<Longrightarrow>
      vpn vs div 512 ^ n \<le> q \<Longrightarrow> q * 512 ^ n < vpn ve \<Longrightarrow> pte_valid (vm_page s1 t (q mod 512)) \<Longrightarrow>
      (\<And>k. k \<in> B \<Longrightarrow> pt_idx n k = q mod 512 \<longleftrightarrow> k \<in> {k. k div 512 ^ n = q}) \<Longrightarrow>
      \<exists>s2. bd va (t, q mod 512) s1 = Some (Inr s2) \<and> inv s2 \<and> pt_ok s2 (Suc n) t \<and>
        pt_cut s1 s2 (Suc n) t B {k. vpn vs \<le> k \<and> k < vpn ve \<and> k div 512 ^ n = q}"
  shows "\<exists>s'. for_step (\<lambda>va s. let pte = (t, va_idx (3 - n) va) in if pte_valid (rd pte s) then bd va pte s else Some (Inr s))
      (push_bit (pt_shift ! (3 - n)) 1) (vs AND NOT (push_bit (pt_shift ! (3 - n)) 1 - 1)) ve s = Some (Inr s') \<and>
    inv s' \<and> pt_ok s' (Suc n) t \<and> pt_cut s s' (Suc n) t B {vpn vs..<vpn ve}"
proof -
  let ?N = "512 ^ n :: nat" and ?k0 = "vpn vs" and ?k1 = "vpn ve"
  let ?E = "push_bit (pt_shift ! (3 - n)) 1 :: uint64"
  let ?body = "\<lambda>va s. let pte = (t, va_idx (3 - n) va) in if pte_valid (rd pte s) then bd va pte s else Some (Inr s)"
  define P where "P = (\<lambda>(va :: uint64) s'. \<exists>q. unat va = 4096 * (q * ?N) \<and> ?k0 div ?N \<le> q \<and> inv s' \<and> pt_ok s' (Suc n) t \<and>
      pt_cut s s' (Suc n) t B {k. ?k0 \<le> k \<and> k < ?k1 \<and> k div ?N < q})"
  have sh: "pt_shift ! (3 - n) = 12 + 9 * n" by (rule pt_shift_nth [OF n])
  have pw: "(2::nat) ^ (12 + 9 * n) = 4096 * ?N" by (simp add: power_add power_mult)
  have small: "4096 * ?N \<le> 2 ^ 39" using n power_increasing [of n 3 "512 :: nat"] by simp
  have E: "unat ?E = 4096 * ?N"
    unfolding sh pw [symmetric] by (rule unat_push_bit_one) (use n in simp)
  have ve: "unat ve = 4096 * ?k1" and vs: "unat vs = 4096 * ?k0" using al by (auto simp: vpn_def page_aligned_def)
  have "?E - 1 = mask (12 + 9 * n)" by (simp add: sh mask_eq_decr_exp push_bit_eq_mult)
  then have "unat (vs AND NOT (?E - 1)) = unat vs div (4096 * ?N) * (4096 * ?N)"
    by (simp add: unat_and_not_mask pw)
  moreover have "unat vs div (4096 * ?N) = ?k0 div ?N" by (simp add: vpn_def div_mult2_eq)
  ultimately have va0: "unat (vs AND NOT (?E - 1)) = 4096 * (?k0 div ?N * ?N)" by simp
  have init: "P (vs AND NOT (?E - 1)) s"
    unfolding P_def using va0 s div_le_mono [where k = ?N]
    by (intro exI [of _ "?k0 div ?N"] conjI pt_cut_none) (auto simp: not_less [symmetric])
  have step: "\<exists>s2. ?body va s1 = Some (Inr s2) \<and> P (va + ?E) s2" if p: "P va s1" and lt: "va < ve" for va s1
  proof -
    obtain q where q: "unat va = 4096 * (q * ?N)" "?k0 div ?N \<le> q" "inv s1" "pt_ok s1 (Suc n) t"
      "pt_cut s s1 (Suc n) t B {k. ?k0 \<le> k \<and> k < ?k1 \<and> k div ?N < q}"
      using p unfolding P_def by blast
    have qlt: "q * ?N < ?k1" using lt q(1) ve by (simp add: word_less_nat_alt)
    have "Suc b * 512 ^ Suc n = Suc b * 512 * ?N" by (simp only: power_Suc mult.assoc)
    then have "q * ?N < Suc b * 512 * ?N" using qlt blk(3) by (simp only: less_le_trans)
    then have "q < Suc b * 512" by (simp only: mult_less_cancel2)
    moreover have "b * 512 \<le> q"
    proof -
      have "?k0 div ?N div 512 = b" using blk(1) by (simp add: div_mult2_eq [symmetric] mult.commute)
      then have "b * 512 \<le> ?k0 div ?N" by (metis div_times_less_eq_dividend)
      then show ?thesis using q(2) by simp
    qed
    ultimately have qb: "q div 512 = b" by (simp add: div_nat_eqI)
    have vq: "vpn va = q * ?N" using q(1) by (simp add: vpn_def)
    have idx: "va_idx (3 - n) va = q mod 512" by (simp add: va_idx_pt_idx [OF n] pt_idx_def vq)
    have cov: "pt_idx n k = q mod 512 \<longleftrightarrow> k \<in> {k. k div ?N = q}" if "k \<in> B" for k
    proof -
      have "k div ?N div 512 = q div 512" using that qb by (simp add: B_def div_mult2_eq [symmetric] mult.commute)
      from div_mod_512_eq [OF this] show ?thesis unfolding pt_idx_def by simp
    qed
    have "unat va + unat ?E < 2 ^ 64" using E small al(3) lt by (simp add: word_less_nat_alt)
    then have next': "unat (va + ?E) = 4096 * (Suc q * ?N)"
      using unat_add64 [of va ?E] q(1) E by simp
    have "\<exists>s2. ?body va s1 = Some (Inr s2) \<and> inv s2 \<and> pt_ok s2 (Suc n) t \<and>
        pt_cut s1 s2 (Suc n) t B {k. ?k0 \<le> k \<and> k < ?k1 \<and> k div ?N = q}"
    proof (cases "pte_valid (vm_page s1 t (q mod 512))")
      case True
      then show ?thesis using body [OF q(3,4,1) qb q(2) qlt True cov] idx by simp
    next
      case False
      have "pt_lookup (vm_page s1) (Suc n) t k = None" if "k \<in> B" "k div ?N = q" for k
        using False cov [OF that(1)] that(2) by (cases n) (simp_all add: pt_lookup_leaf pt_lookup_node Let_def)
      then have "pt_cut s1 s1 (Suc n) t B {k. ?k0 \<le> k \<and> k < ?k1 \<and> k div ?N = q}" by (intro pt_cut_none) simp
      then show ?thesis using False idx q(3,4) by simp
    qed
    then obtain s2 where s2: "?body va s1 = Some (Inr s2)" "inv s2" "pt_ok s2 (Suc n) t"
      "pt_cut s1 s2 (Suc n) t B {k. ?k0 \<le> k \<and> k < ?k1 \<and> k div ?N = q}" by blast
    have "{k. ?k0 \<le> k \<and> k < ?k1 \<and> k div ?N < q} \<union> {k. ?k0 \<le> k \<and> k < ?k1 \<and> k div ?N = q} =
        {k. ?k0 \<le> k \<and> k < ?k1 \<and> k div ?N < Suc q}" by auto
    then have "pt_cut s s2 (Suc n) t B {k. ?k0 \<le> k \<and> k < ?k1 \<and> k div ?N < Suc q}"
      using pt_cut_trans [OF q(5) s2(4)] by simp
    then have "P (va + ?E) s2" unfolding P_def using next' q(2) s2(2,3) by (intro exI [of _ "Suc q"]) simp
    then show ?thesis using s2(1) by blast
  qed
  have e: "unat ve + unat ?E \<le> 2 ^ 64" "0 < unat ?E" using E small al(3) by simp_all
  obtain va' s' where r: "for_step ?body ?E (vs AND NOT (?E - 1)) ve s = Some (Inr s')" "P va' s'" "\<not> va' < ve"
    using for_step_invariant [where body = ?body and P = P, OF init e step] by blast
  obtain q where q: "unat va' = 4096 * (q * ?N)" "inv s'" "pt_ok s' (Suc n) t"
    "pt_cut s s' (Suc n) t B {k. ?k0 \<le> k \<and> k < ?k1 \<and> k div ?N < q}" using r(2) unfolding P_def by blast
  have "?k1 \<le> q * ?N" using r(3) q(1) ve by (simp add: word_less_nat_alt)
  then have "{k. ?k0 \<le> k \<and> k < ?k1 \<and> k div ?N < q} = {?k0..<?k1}"
    by (auto simp: less_mult_imp_div_less)
  then show ?thesis using r(1) q by auto
qed

text \<open>Unmapping a range of page numbers inside the block of one table.\<close>

lemma unmap_table_spec:
  assumes "n \<le> 3" "inv s" "pt_ok s (Suc n) t" "page_aligned vs" "page_aligned ve" "unat ve \<le> 2 ^ 48"
    "vpn vs div 512 ^ Suc n = b" "vpn vs < vpn ve" "vpn ve \<le> Suc b * 512 ^ Suc n"
  shows "\<exists>s'. unmap_table n t vs ve s = Some (Inr s') \<and> inv s' \<and> pt_ok s' (Suc n) t \<and>
    pt_cut s s' (Suc n) t {k. k div 512 ^ Suc n = b} {vpn vs..<vpn ve}"
  using assms
proof (induction n arbitrary: s t vs ve b)
  case (0 s t vs ve b)
  let ?B = "{k. k div 512 ^ Suc 0 = b}"
  let ?bd = "\<lambda>va pte s. Some (if va \<ge> vs \<and> va < ve then
                 rbind (kpage_free (pte_child (rd pte s)) s) (\<lambda>s'. Inr (wr pte 0 s')) else Inr s)"
  have eq: "unmap_table 0 t vs ve s = for_step (\<lambda>va s. let pte = (t, va_idx (3 - 0) va) in
      if pte_valid (rd pte s) then ?bd va pte s else Some (Inr s))
      (push_bit (pt_shift ! (3 - 0)) 1) (vs AND NOT (push_bit (pt_shift ! (3 - 0)) 1 - 1)) ve s"
    by (subst unmap_table.simps) (simp add: Let_def cong: if_cong)
  show ?case unfolding eq
  proof (rule unmap_loop [OF "0.prems"])
    fix s1 :: "'a vm_scheme" and va :: uint64 and q :: nat
    assume a: "inv s1" "pt_ok s1 (Suc 0) t" "unat va = 4096 * (q * 512 ^ 0)" "vpn vs div 512 ^ 0 \<le> q"
      "q * 512 ^ 0 < vpn ve" "pte_valid (vm_page s1 t (q mod 512))"
      and cov: "\<And>k. k \<in> ?B \<Longrightarrow> pt_idx 0 k = q mod 512 \<longleftrightarrow> k \<in> {k. k div 512 ^ 0 = q}"
    have "va \<ge> vs \<and> va < ve"
      using a(3-5) "0.prems"(4,5) by (auto simp: word_le_nat_alt word_less_nat_alt vpn_def page_aligned_def)
    moreover have "{k. vpn vs \<le> k \<and> k < vpn ve \<and> k div 512 ^ 0 = q} = {k. k div 512 ^ 0 = q}"
      using a(4,5) by auto
    ultimately show "\<exists>s2. ?bd va (t, q mod 512) s1 = Some (Inr s2) \<and> inv s2 \<and> pt_ok s2 (Suc 0) t \<and>
        pt_cut s1 s2 (Suc 0) t ?B {k. vpn vs \<le> k \<and> k < vpn ve \<and> k div 512 ^ 0 = q}"
      using clear_entry [where B = ?B, OF a(1,2) _ a(6) refl _ cov] by auto
  qed
next
  case (Suc n s t vs ve b)
  let ?B = "{k. k div 512 ^ Suc (Suc n) = b}"
  let ?E = "push_bit (pt_shift ! (3 - Suc n)) 1 :: uint64"
  let ?bd = "\<lambda>va pte s. (case unmap_table n (pte_child (rd pte s)) (if vs > va then vs else va)
      (if ve < va + ?E then ve else va + ?E) s of
        Some (Inr s') \<Rightarrow> Some (collapse pte (pte_child (rd pte s)) s') | r \<Rightarrow> r)"
  have eq: "unmap_table (Suc n) t vs ve s = for_step (\<lambda>va s. let pte = (t, va_idx (3 - Suc n) va) in
      if pte_valid (rd pte s) then ?bd va pte s else Some (Inr s)) ?E (vs AND NOT (?E - 1)) ve s"
    by (subst unmap_table.simps) (simp add: Let_def cong: if_cong)
  show ?case unfolding eq
  proof (rule unmap_loop [OF Suc.prems])
    fix s1 :: "'a vm_scheme" and va :: uint64 and q :: nat
    assume a: "inv s1" "pt_ok s1 (Suc (Suc n)) t" "unat va = 4096 * (q * 512 ^ Suc n)" "q div 512 = b"
      "vpn vs div 512 ^ Suc n \<le> q" "q * 512 ^ Suc n < vpn ve" "pte_valid (vm_page s1 t (q mod 512))"
      and cov: "\<And>k. k \<in> ?B \<Longrightarrow> pt_idx (Suc n) k = q mod 512 \<longleftrightarrow> k \<in> {k. k div 512 ^ Suc n = q}"
    let ?c = "pte_child (vm_page s1 t (q mod 512))"
    let ?ss = "if vs > va then vs else va" and ?se = "if ve < va + ?E then ve else va + ?E"
    let ?N = "512 ^ Suc n :: nat"
    have i: "q mod 512 < 512" by simp
    have pw: "(2::nat) ^ (12 + 9 * Suc n) = 4096 * ?N" by (simp add: power_add power_mult)
    have E: "unat ?E = 4096 * ?N" unfolding pt_shift_nth [OF Suc.prems(1)] pw [symmetric]
      by (rule unat_push_bit_one) (use Suc.prems(1) in simp)
    have small: "4096 * ?N \<le> 2 ^ 39" using Suc.prems(1) power_increasing [of "Suc n" 3 "512 :: nat"] by simp
    have ve: "unat ve = 4096 * vpn ve" and vs: "unat vs = 4096 * vpn vs"
      using Suc.prems(4,5) by (auto simp: vpn_def page_aligned_def)
    have "unat va < unat ve" using a(3,6) ve by simp
    then have nx: "unat (va + ?E) = 4096 * (Suc q * ?N)"
      using a(3) E small Suc.prems(6) by (subst unat_add_no_wrap) simp_all
    have ss: "vpn ?ss = max (vpn vs) (q * ?N)" "page_aligned ?ss"
      using a(3) vs Suc.prems(4) by (auto simp: vpn_def page_aligned_def word_less_nat_alt max_def)
    have se: "vpn ?se = min (vpn ve) (Suc q * ?N)" "page_aligned ?se" "unat ?se \<le> 2 ^ 48"
      using nx ve Suc.prems(5,6) by (auto simp: vpn_def page_aligned_def word_less_nat_alt min_def)
    have k0: "vpn vs < Suc q * ?N"
      using a(5) by (metis div_less_iff_less_mult less_Suc_eq_le zero_less_numeral zero_less_power)
    have blk: "vpn ?ss div ?N = q" unfolding ss(1) using k0 by (intro div_nat_eqI) (auto simp: mult.commute)
    have lt: "vpn ?ss < vpn ?se" "vpn ?se \<le> Suc q * ?N" unfolding ss(1) se(1)
      using k0 a(6) Suc.prems(8) by auto
    note okc = pt_ok_child [OF a(2) i a(7)]
    obtain s2 where u: "unmap_table n ?c ?ss ?se s1 = Some (Inr s2)" "inv s2" "pt_ok s2 (Suc n) ?c"
      "pt_cut s1 s2 (Suc n) ?c {k. k div ?N = q} {vpn ?ss..<vpn ?se}"
      using Suc.IH [OF _ a(1) okc ss(2) se(2,3) blk lt] Suc.prems(1) by auto
    have K: "{vpn ?ss..<vpn ?se} = {k. vpn vs \<le> k \<and> k < vpn ve \<and> k div ?N = q}"
    proof -
      have iff: "k div ?N = q \<longleftrightarrow> q * ?N \<le> k \<and> k < Suc q * ?N" for k by (rule div_block) simp
      show ?thesis unfolding ss(1) se(1) iff set_eq_iff
        by (simp only: atLeastLessThan_iff mem_Collect_eq max.bounded_iff min_less_iff_conj) blast
    qed
    have sub: "{vpn ?ss..<vpn ?se} \<subseteq> {k. k div ?N = q}" unfolding K by blast
    note g = pt_cut_child [where B = ?B, OF a(2) i a(7) refl u(3,4) cov sub]
    have v2: "pte_valid (vm_page s2 t (q mod 512))" "?c = pte_child (vm_page s2 t (q mod 512))" using a(7) g(3) by simp_all
    obtain s3 where d: "collapse (t, q mod 512) ?c s2 = Inr s3" "inv s3" "pt_ok s3 (Suc (Suc n)) t"
      "pt_cut s2 s3 (Suc (Suc n)) t ?B {}"
      using collapse_spec [where B = ?B, OF u(2) g(1) i v2 cov] by blast
    have "pt_cut s1 s3 (Suc (Suc n)) t ?B {k. vpn vs \<le> k \<and> k < vpn ve \<and> k div ?N = q}"
      using pt_cut_trans [OF g(2) d(4)] unfolding K by simp
    then show "\<exists>s2. ?bd va (t, q mod 512) s1 = Some (Inr s2) \<and> inv s2 \<and> pt_ok s2 (Suc (Suc n)) t \<and>
        pt_cut s1 s2 (Suc (Suc n)) t ?B {k. vpn vs \<le> k \<and> k < vpn ve \<and> k div ?N = q}"
      using u(1) d by simp
  qed
qed

text \<open>Mapping one page of an aligned address.\<close>

lemma mappages_one:
  assumes s: "inv s" "pt_ok s 4 t" and a: "page_aligned a" "a < MAXUVA" and none: "uvm_map s t (vpn a) = None"
    and p: "p \<in> uvm_rest s t" and perm: "attrs_ok perm"
  shows "\<exists>ok s'. mappages rc t a (KVA_TO_PA p) PGSIZE perm s = Inr (ok, s') \<and> inv s' \<and> pt_ok s' 4 t \<and>
    pt_adds s s' 4 t (if ok then [vpn a \<mapsto> KVA_TO_PA p OR perm] else Map.empty)"
proof -
  have r: "page_aligned (KVA_TO_PA p)" "KVA_TO_PA p < MAXUVA"
    using used_range [OF s(1), of p] p unfolding uvm_rest_def by blast+
  have lim: "unat x + Suc 0 * 4096 \<le> 2 ^ 48" if x: "page_aligned x" "x < MAXUVA" for x
  proof -
    obtain d where d: "unat x = 4096 * d" using x(1) by (auto simp: page_aligned_def elim!: dvdE)
    then have "4096 * d < 4096 * 2 ^ 36" using x(2) by (simp add: word_less_nat_alt MAXUVA_def)
    then show ?thesis using d by simp
  qed
  have none': "pt_lookup (vm_page s) 4 t (vpn a + k) = None" if "k \<le> 0" for k
    using none that vpn_less [OF a(2)] by (simp add: uvm_map_def)
  have fr: "PA_TO_KVA (KVA_TO_PA p + of_nat k * PGSIZE) \<in> used_pages s - pt_foot (vm_page s) 4 t" if "k \<le> 0" for k
    using p that unfolding uvm_rest_def by simp
  have lst: "PGROUNDDW (a + PGSIZE - 1) = a"
  proof -
    have "a + PGSIZE - 1 = a + 4095" by (simp add: PGSIZE_def)
    moreover have "unat (a + 4095) = unat a + 4095" using lim [OF a] by (subst unat_add64) simp_all
    ultimately have "unat (PGROUNDDW (a + PGSIZE - 1)) = (unat a + 4095) div 4096 * 4096"
      by (simp only: unat_PGROUNDDW)
    also have "\<dots> = unat a" using a(1) by (auto simp: page_aligned_def elim!: dvdE)
    finally show ?thesis by (simp only: word_unat_eq_iff)
  qed
  obtain ok s' j where m: "mappages_loop rc t a a (KVA_TO_PA p) perm s = Inr (ok, s')" "inv s'" "pt_ok s' 4 t"
    "if ok then j = Suc 0 else j \<le> 0" "pt_adds s s' 4 t (range_map (vpn a) (KVA_TO_PA p) perm j)"
    using mappages_loop_spec [OF s a(1) lim [OF a] _ r(1) lim [OF r] perm none' fr, of a] by auto
  have "pt_adds s s' 4 t (if ok then [vpn a \<mapsto> KVA_TO_PA p OR perm] else Map.empty)"
    using m(4,5) by (cases ok) (simp_all only: if_True if_False range_map_1 le_zero_eq range_map_0)
  moreover have "mappages rc t a (KVA_TO_PA p) PGSIZE perm s = Inr (ok, s')"
    using m(1) a(1) lst by (simp add: mappages_def kassert_def PGSIZE_def)
  ultimately show ?thesis using m(2,3) by blast
qed

text \<open>Allocate a page, fill it, map it; on failure give it back.\<close>

definition install :: "(uintptr \<Rightarrow> 'a vm_scheme \<Rightarrow> 'a vm_scheme) \<Rightarrow> uint64 \<Rightarrow> uintptr \<Rightarrow> uintptr \<Rightarrow> 'a vm_scheme
    \<Rightarrow> (bool \<times> 'a vm_scheme) res" where
  "install fill perm t a s = rbind (kpage_alloc rc s) (\<lambda>(m, s1).
     case m of None \<Rightarrow> Inr (False, s1)
     | Some mem \<Rightarrow> rbind (mappages rc t a (KVA_TO_PA mem) PGSIZE perm (fill mem s1)) (\<lambda>(ok, s2).
         if ok then Inr (True, s2) else rbind (kpage_free mem s2) (\<lambda>s3. Inr (False, s3))))"

lemma install_spec:
  assumes s: "inv s" "pt_ok s 4 t" and a: "page_aligned a" "a < MAXUVA" and none: "uvm_map s t (vpn a) = None"
    and perm: "attrs_ok perm"
    and fill: "\<And>mem s1. fill mem s1 = s1\<lparr>vm_page := (vm_page s1)(mem := g (vm_page s1))\<rparr>"
    and local: "\<And>M. (\<And>p. p \<in> used_pages s \<Longrightarrow> M p = vm_page s p) \<Longrightarrow> g M = g (vm_page s)"
  shows "\<exists>ok s'. install fill perm t a s = Inr (ok, s') \<and> inv s' \<and> pt_ok s' 4 t \<and> used_pages s \<subseteq> used_pages s' \<and>
    (if ok then \<exists>mem. mem \<notin> used_pages s \<and> mem \<in> used_pages s' \<and>
         uvm_rel s s' t ((uvm_map s t)(vpn a \<mapsto> KVA_TO_PA mem OR perm)) \<and> vm_page s' mem = g (vm_page s)
     else uvm_rel s s' t (uvm_map s t))"
proof -
  obtain r s1 where al: "kpage_alloc rc s = Inr (r, s1)" "inv s1" "used_pages s1 = used_pages s \<union> set_option r"
    "set_option r \<inter> used_pages s = {}" "\<forall>p \<in> used_pages s. vm_page s1 p = vm_page s p"
    using alloc_ok [OF s(1)] by blast
  have tab: "pt_tables (vm_page s) 4 t \<subseteq> used_pages s" using s(2) pt_tables_foot unfolding pt_ok_def by blast
  have data: "pte_child e \<in> used_pages s" if "uvm_map s t k = Some e" for k e by (rule uvm_map_page [OF s(2) that])
  show ?thesis
  proof (cases r)
    case None
    have "\<forall>p \<in> pt_tables (vm_page s) 4 t. vm_page s1 p = vm_page s p" using al(5) tab by blast
    note fr = pt_frame [OF this]
    have "pt_ok s1 4 t" using s(2) al(3) None unfolding pt_ok_def fr by simp
    moreover have "uvm_rel s s1 t (uvm_map s t)"
      unfolding uvm_rel_def uvm_map_def uvm_rest_def fr using al(3,5) None data
      by (auto simp: fun_eq_iff fr uvm_map_def)
    ultimately show ?thesis using al(1-3) None by (auto simp: install_def)
  next
    case (Some mem)
    let ?s1 = "fill mem s1"
    have mem: "mem \<notin> used_pages s" "used_pages ?s1 = insert mem (used_pages s)" using al(3,4) Some by (auto simp: fill)
    have inv1: "inv ?s1" unfolding fill by (rule write_ok [OF al(2)]) (use mem in \<open>simp add: fill\<close>)
    have gm: "g (vm_page s1) = g (vm_page s)" by (rule local) (use al(5) in blast)
    have same: "vm_page ?s1 p = vm_page s p" if "p \<in> used_pages s" for p using that mem al(5) by (auto simp: fill)
    have cont: "vm_page ?s1 mem = g (vm_page s)" by (simp add: fill gm)
    have "\<forall>p \<in> pt_tables (vm_page s) 4 t. vm_page ?s1 p = vm_page s p" using same tab by blast
    note fr = pt_frame [OF this]
    have ok1: "pt_ok ?s1 4 t" using s(2) mem unfolding pt_ok_def fr by auto
    have map1: "uvm_map ?s1 t = uvm_map s t" by (simp add: fun_eq_iff uvm_map_def fr)
    have memf: "mem \<notin> pt_foot (vm_page ?s1) 4 t" using s(2) mem(1) unfolding fr pt_ok_def by blast
    have rest1: "uvm_rest ?s1 t = insert mem (uvm_rest s t)"
      using memf unfolding uvm_rest_def mem(2) fr by blast
    obtain ok s2 where m: "mappages rc t a (KVA_TO_PA mem) PGSIZE perm ?s1 = Inr (ok, s2)" "inv s2" "pt_ok s2 4 t"
      "pt_adds ?s1 s2 4 t (if ok then [vpn a \<mapsto> KVA_TO_PA mem OR perm] else Map.empty)"
      using mappages_one [OF inv1 ok1 a _ _ perm, of mem] none map1 rest1 by auto
    have dom: "dom (if ok then [vpn a \<mapsto> KVA_TO_PA mem OR perm] else Map.empty) \<subseteq> {..<512 ^ 4}"
      using vpn_less [OF a(2)] by simp
    note ad = pt_adds_rel [OF ok1 m(4) dom]
    have rng: "page_aligned (KVA_TO_PA mem)" "KVA_TO_PA mem < MAXUVA" using used_range [OF inv1] mem(2) by blast+
    have ch: "pte_child (KVA_TO_PA mem OR perm) = mem" by (rule pte_make_child(1) [OF rng perm])
    have kept: "vm_page s2 p = vm_page s p" if "p \<in> uvm_rest s t" for p
      using ad(3) [of p] that rest1 same [of p] unfolding uvm_rest_def by auto
    have keptd: "vm_page s2 (pte_child e) = vm_page s (pte_child e)" if "uvm_map s t k = Some e" for k e
      using ad(4) [of k e] that map1 same [OF data [OF that]] by simp
    have cont2: "vm_page s2 mem = g (vm_page s)" using ad(3) [of mem] rest1 cont by simp
    have mrest: "mem \<notin> uvm_rest s t" using mem(1) unfolding uvm_rest_def by blast
    have used2: "used_pages ?s1 \<subseteq> used_pages s2" using m(4) unfolding pt_adds_def by blast
    show ?thesis
    proof (cases ok)
      case True
      have "uvm_rest s2 t = uvm_rest s t" using ad(2) rest1 True ch mrest by auto
      moreover have "uvm_map s2 t = (uvm_map s t)(vpn a \<mapsto> KVA_TO_PA mem OR perm)"
        using ad(1) True map1 by (simp add: map_add_upd)
      ultimately have "uvm_rel s s2 t ((uvm_map s t)(vpn a \<mapsto> KVA_TO_PA mem OR perm))"
        unfolding uvm_rel_def using kept keptd by blast
      then show ?thesis using al(1) Some m(1-3) True mem used2 cont2 by (auto simp: install_def)
    next
      case False
      have mu: "mem \<in> used_pages s2" using used2 mem(2) by blast
      have mf: "mem \<notin> pt_foot (vm_page s2) 4 t"
        using ad(2) rest1 False unfolding uvm_rest_def by auto
      obtain s3 where f: "kpage_free mem s2 = Inr s3" "inv s3" "used_pages s3 = used_pages s2 - {mem}" "vm_page s3 = vm_page s2"
        using free_ok [OF m(2) mu] by blast
      have rest3: "uvm_rest s3 t = uvm_rest s t"
        using ad(2) rest1 False mrest unfolding uvm_rest_def f(3,4) by auto
      have "uvm_map s3 t = uvm_map s2 t" by (simp add: uvm_map_def fun_eq_iff f(4))
      then have map3: "uvm_map s3 t = uvm_map s t" using ad(1) False map1 by simp
      have "uvm_rel s s3 t (uvm_map s t)" unfolding uvm_rel_def rest3 map3 f(4) using kept keptd by blast
      moreover have "pt_ok s3 4 t" using m(3) mf unfolding pt_ok_def f(3,4) by blast
      moreover have "used_pages s \<subseteq> used_pages s3" using used2 mem f(3) by blast
      ultimately show ?thesis using al(1) Some m(1) False f(1,2) by (auto simp: install_def)
    qed
  qed
qed

text \<open>Shrinking.\<close>

lemma uvmdealloc_spec:
  assumes s: "inv s" "pt_ok s 4 t" and sz: "unat oldsz \<le> 2 ^ 48" "newsz < oldsz"
  shows "\<exists>s'. uvmdealloc t oldsz newsz s = Some (Inr (newsz, s')) \<and> inv s' \<and> pt_ok s' 4 t \<and>
    uvm_rel s s' t (uvm_map s t |` (- {npages newsz..<npages oldsz})) \<and>
    (\<forall>k e. k \<in> {npages newsz..<npages oldsz} \<longrightarrow> uvm_map s t k = Some e \<longrightarrow> pte_child e \<notin> used_pages s')"
proof -
  have lt: "unat newsz < unat oldsz" using sz(2) by (simp add: word_less_nat_alt)
  note old = npages_PGROUNDUP [OF sz(1)] and new = npages_PGROUNDUP [of newsz]
  have new: "unat (PGROUNDUP newsz) = 4096 * npages newsz" "vpn (PGROUNDUP newsz) = npages newsz"
    using new lt sz(1) by simp_all
  show ?thesis
  proof (cases "npages newsz < npages oldsz")
    case False
    then have e: "{npages newsz..<npages oldsz} = {}" by simp
    have "\<not> PGROUNDUP newsz < PGROUNDUP oldsz" using False old new by (simp add: word_less_nat_alt)
    moreover have "uvm_map s t |` (- {}) = uvm_map s t" by (simp add: restrict_map_def fun_eq_iff)
    moreover have "\<not> oldsz \<le> newsz" using sz(2) by simp
    ultimately show ?thesis using s uvm_rel_refl [of s t] unfolding e
      by (simp add: uvmdealloc_def USER_BASE_def)
  next
    case True
    have B: "{k. k div 512 ^ 4 = 0} = {..<512 ^ 4 :: nat}" by (auto simp: div_eq_0_iff)
    have four: "Suc 3 = (4::nat)" by simp
    have ve: "unat (PGROUNDUP oldsz) \<le> 2 ^ 48" using old(1) npages_max [OF sz(1)] by simp
    have "npages newsz div 512 ^ Suc 3 = 0" using True npages_max [OF sz(1)] by (simp add: div_eq_0_iff)
    moreover have "npages oldsz \<le> Suc 0 * 512 ^ Suc 3" using npages_max [OF sz(1)] by simp
    ultimately obtain s' where u: "unmap_table 3 t (PGROUNDUP newsz) (PGROUNDUP oldsz) s = Some (Inr s')" "inv s'"
      "pt_ok s' 4 t" "pt_cut s s' 4 t {..<512 ^ 4} {npages newsz..<npages oldsz}"
      using unmap_table_spec [of 3 s t "PGROUNDUP newsz" "PGROUNDUP oldsz" 0, unfolded four B new(2) old(2)] s True ve
      by auto
    have "PGROUNDUP newsz < PGROUNDUP oldsz" using True old new by (simp add: word_less_nat_alt)
    then have "uvmdealloc t oldsz newsz s = Some (Inr (newsz, s'))"
      using u(1) sz(2) by (auto simp: uvmdealloc_def USER_BASE_def uvmunmap_range_def)
    then show ?thesis using u(2,3) pt_cut_rel [OF s(2) u(4)] by blast
  qed
qed

text \<open>Growing: the new pages, all zero, or nothing.\<close>

definition grown :: "'a vm_scheme \<Rightarrow> 'a vm_scheme \<Rightarrow> uintptr \<Rightarrow> nat \<Rightarrow> nat \<Rightarrow> (nat \<rightharpoonup> pte_t) \<Rightarrow> bool" where
  "grown s s' t k0 k m \<longleftrightarrow> uvm_rel s s' t (uvm_map s t ++ m) \<and> dom m = {k0..<k} \<and>
     (\<forall>e \<in> ran m. e = KVA_TO_PA (pte_child e) OR PAGE_USER \<and> vm_page s' (pte_child e) = (\<lambda>_. 0))"

lemma uvmalloc_page_spec:
  assumes s: "inv s" "pt_ok s 4 t" and a: "page_aligned a" "a < MAXUVA" and none: "uvm_map s t (vpn a) = None"
  shows "\<exists>ok s'. uvmalloc_page rc t a s = Inr (ok, s') \<and> inv s' \<and> pt_ok s' 4 t \<and>
    (if ok then \<exists>mem. mem \<notin> used_pages s \<and> mem \<in> used_pages s' \<and>
         uvm_rel s s' t ((uvm_map s t)(vpn a \<mapsto> KVA_TO_PA mem OR PAGE_USER)) \<and> vm_page s' mem = (\<lambda>_. 0)
     else uvm_rel s s' t (uvm_map s t))"
proof -
  have "install zero_page PAGE_USER t a s = uvmalloc_page rc t a s"
    by (simp only: install_def uvmalloc_page_def USER_BASE_def add_0_left)
  then show ?thesis
    using install_spec [OF s a none PAGE_USER_attrs, of zero_page "\<lambda>_ _. 0", OF zero_page_def refl] by (simp only:) blast
qed

lemma uvmalloc_undo_spec:
  assumes g: "grown s s1 t k0 (vpn a) m" and s: "inv s1" "pt_ok s1 4 t" and a: "page_aligned a" "unat a \<le> 2 ^ 48"
    and old: "page_aligned old" "vpn old = k0" "k0 \<le> vpn a" and none: "\<forall>k \<in> {k0..<vpn a}. uvm_map s t k = None"
  shows "\<exists>s'. uvmalloc_undo t a old s1 = Some (Inr (0, s')) \<and> inv s' \<and> pt_ok s' 4 t \<and> uvm_rel s s' t (uvm_map s t)"
proof -
  have m: "uvm_rel s s1 t (uvm_map s t ++ m)" "dom m = {k0..<vpn a}" "uvm_map s1 t = uvm_map s t ++ m"
    using g by (simp_all only: grown_def) (simp only: uvm_rel_def)
  show ?thesis
  proof (cases "old < a")
    case False
    then have "k0 = vpn a" using old a by (auto simp: word_less_nat_alt vpn_def page_aligned_def elim!: dvdE)
    then have "m = Map.empty" using m(2) by simp
    then have "uvm_rel s s1 t (uvm_map s t)" using m(1) by simp
    then show ?thesis using False s by (auto simp: uvmalloc_undo_def uvmdealloc_def)
  next
    case True
    obtain s' where u: "uvmdealloc t a old s1 = Some (Inr (old, s'))" "inv s'" "pt_ok s' 4 t"
      "uvm_rel s1 s' t (uvm_map s1 t |` (- {k0..<vpn a}))"
      using uvmdealloc_spec [OF s a(2) True] npages_aligned [OF a(1)] npages_aligned [OF old(1)] old(2) by auto
    have "uvm_map s1 t |` (- {k0..<vpn a}) = uvm_map s t"
    proof
      fix k
      show "(uvm_map s1 t |` (- {k0..<vpn a})) k = uvm_map s t k"
      proof (cases "k \<in> {k0..<vpn a}")
        case True then show ?thesis using none by simp
      next
        case False
        then have "m k = None" using m(2) by blast
        then show ?thesis using False m(3) by (simp add: restrict_map_def map_add_def)
      qed
    qed
    then have r: "uvm_rel s1 s' t (uvm_map s t)" using u(4) by simp
    have "uvm_rel s s' t (uvm_map s t)"
    proof (rule uvm_rel_trans [OF m(1) r])
      fix k e assume "uvm_map s t k = Some e"
      then have "m k = None" using none m(2) by (metis domIff option.distinct(1))
      then show "(uvm_map s t ++ m) k = Some e" using \<open>uvm_map s t k = Some e\<close> by (simp add: map_add_def)
    qed
    then show ?thesis using u(1-3) by (auto simp: uvmalloc_undo_def)
  qed
qed

lemma uvmalloc_loop_spec:
  assumes "inv s1" "pt_ok s1 4 t" "grown s s1 t k0 (vpn a) m" "page_aligned a" "k0 \<le> vpn a" "vpn a \<le> npages newsz"
    and sz: "unat newsz \<le> 2 ^ 48" and old: "page_aligned old" "vpn old = k0"
    and none: "\<forall>k \<in> {k0..<npages newsz}. uvm_map s t k = None"
  shows "\<exists>r s'. uvmalloc_loop rc t a old newsz s1 = Some (Inr (r, s')) \<and> inv s' \<and> pt_ok s' 4 t \<and>
    (r = newsz \<and> (\<exists>m. grown s s' t k0 (npages newsz) m) \<or> r = 0 \<and> uvm_rel s s' t (uvm_map s t))"
  using assms(1-6)
proof (induction "npages newsz - vpn a" arbitrary: a s1 m)
  case 0
  then have "\<not> a < newsz" using less_npages [OF "0.prems"(4), of newsz] by (simp add: word_less_nat_alt)
  moreover have "vpn a = npages newsz" using 0 by simp
  ultimately show ?case using "0.prems" by (subst uvmalloc_loop.simps) auto
next
  case (Suc d)
  have lt: "vpn a < npages newsz" using Suc.hyps(2) by simp
  then have alt: "a < newsz" using less_npages [OF Suc.prems(4), of newsz] by (simp add: word_less_nat_alt)
  then have amax: "a < MAXUVA" "unat a \<le> 2 ^ 48" using sz by (simp_all add: word_less_nat_alt MAXUVA_def)
  have g: "uvm_rel s s1 t (uvm_map s t ++ m)" "dom m = {k0..<vpn a}"
    "\<forall>e \<in> ran m. e = KVA_TO_PA (pte_child e) OR PAGE_USER \<and> vm_page s1 (pte_child e) = (\<lambda>_. 0)"
    using Suc.prems(3) unfolding grown_def by blast+
  have map1: "uvm_map s1 t = uvm_map s t ++ m" using g(1) by (simp only: uvm_rel_def)
  have nk: "m (vpn a) = None" using g(2) by (metis atLeastLessThan_iff domIff less_irrefl)
  have na: "uvm_map s1 t (vpn a) = None" using none lt Suc.prems(5) nk map1 by (simp add: map_add_def)
  obtain ok s2 where p: "uvmalloc_page rc t a s1 = Inr (ok, s2)" "inv s2" "pt_ok s2 4 t"
    "if ok then \<exists>mem. mem \<notin> used_pages s1 \<and> mem \<in> used_pages s2 \<and>
         uvm_rel s1 s2 t ((uvm_map s1 t)(vpn a \<mapsto> KVA_TO_PA mem OR PAGE_USER)) \<and> vm_page s2 mem = (\<lambda>_. 0)
     else uvm_rel s1 s2 t (uvm_map s1 t)"
    using uvmalloc_page_spec [OF Suc.prems(1,2,4) amax(1) na] by blast
  have none_m: "m k = None" if "uvm_map s t k = Some e" for k e
    using that none g(2) lt by (metis atLeastLessThan_iff domIff less_trans option.distinct(1))
  show ?case
  proof (cases ok)
    case True
    then obtain mem where mem: "mem \<in> used_pages s2" "vm_page s2 mem = (\<lambda>_. 0)"
      "uvm_rel s1 s2 t ((uvm_map s1 t)(vpn a \<mapsto> KVA_TO_PA mem OR PAGE_USER))" using p(4) by auto
    let ?e = "KVA_TO_PA mem OR PAGE_USER" and ?m = "m(vpn a \<mapsto> KVA_TO_PA mem OR PAGE_USER)"
    have che: "pte_child ?e = mem" using used_range [OF p(2) mem(1)] pte_make_child(1) PAGE_USER_attrs by blast
    have m2: "(uvm_map s1 t)(vpn a \<mapsto> ?e) = uvm_map s t ++ ?m" unfolding map1 by simp
    have rel: "uvm_rel s s2 t (uvm_map s t ++ ?m)"
    proof (rule uvm_rel_trans [OF g(1) mem(3) [unfolded m2]])
      fix k e assume "uvm_map s t k = Some e"
      then show "(uvm_map s t ++ m) k = Some e" using none_m by (simp add: map_add_def)
    qed
    have step: "vpn (a + PGSIZE) = Suc (vpn a)" "page_aligned (a + PGSIZE)"
      by (rule vpn_page_step [OF Suc.prems(4)], use amax in simp)+
    have zero: "e = KVA_TO_PA (pte_child e) OR PAGE_USER \<and> vm_page s2 (pte_child e) = (\<lambda>_. 0)" if e: "e \<in> ran ?m" for e
    proof (cases "e = ?e")
      case True then show ?thesis using che mem(2) by simp
    next
      case False
      then have "e \<in> ran m" using e nk by auto
      then obtain k where k: "m k = Some e" "e = KVA_TO_PA (pte_child e) OR PAGE_USER" "vm_page s1 (pte_child e) = (\<lambda>_. 0)"
        using g(3) unfolding ran_def by blast
      have "k \<noteq> vpn a" using k(1) nk by auto
      then have "uvm_map s1 t k = Some e" "((uvm_map s1 t)(vpn a \<mapsto> ?e)) k = Some e" using k(1) map1 by simp_all
      then have "vm_page s2 (pte_child e) = vm_page s1 (pte_child e)" using mem(3) unfolding uvm_rel_def by blast
      then show ?thesis using k by simp
    qed
    have "dom ?m = {k0..<Suc (vpn a)}" using g(2) Suc.prems(5) by auto
    then have g2: "grown s s2 t k0 (vpn (a + PGSIZE)) ?m" unfolding grown_def step(1) using rel zero by blast
    obtain r s' where r: "uvmalloc_loop rc t (a + PGSIZE) old newsz s2 = Some (Inr (r, s'))" "inv s'" "pt_ok s' 4 t"
      "r = newsz \<and> (\<exists>m. grown s s' t k0 (npages newsz) m) \<or> r = 0 \<and> uvm_rel s s' t (uvm_map s t)"
    proof -
      have "d = npages newsz - vpn (a + PGSIZE)" "k0 \<le> vpn (a + PGSIZE)" "vpn (a + PGSIZE) \<le> npages newsz"
        using Suc.hyps(2) Suc.prems(5) lt step(1) by simp_all
      from Suc.hyps(1) [OF this(1) p(2,3) g2 step(2) this(2,3)] show thesis using that by blast
    qed
    then show ?thesis using alt p(1) True by (subst uvmalloc_loop.simps) auto
  next
    case False
    have r1: "uvm_rel s1 s2 t (uvm_map s t ++ m)" using p(4) False map1 by simp
    have rel: "uvm_rel s s2 t (uvm_map s t ++ m)" by (rule uvm_rel_trans [OF g(1) r1]) simp
    have zero: "e = KVA_TO_PA (pte_child e) OR PAGE_USER \<and> vm_page s2 (pte_child e) = (\<lambda>_. 0)" if e: "e \<in> ran m" for e
    proof -
      obtain k where k: "m k = Some e" "e = KVA_TO_PA (pte_child e) OR PAGE_USER" "vm_page s1 (pte_child e) = (\<lambda>_. 0)"
        using g(3) e unfolding ran_def by blast
      then have "(uvm_map s t ++ m) k = Some e" by simp
      then have "vm_page s2 (pte_child e) = vm_page s1 (pte_child e)" using r1 map1 unfolding uvm_rel_def by metis
      then show ?thesis using k by simp
    qed
    have g2: "grown s s2 t k0 (vpn a) m" unfolding grown_def using rel g(2) zero by blast
    have none': "\<forall>k \<in> {k0..<vpn a}. uvm_map s t k = None" using none lt by auto
    obtain s' where "uvmalloc_undo t a old s2 = Some (Inr (0, s'))" "inv s'" "pt_ok s' 4 t" "uvm_rel s s' t (uvm_map s t)"
      using uvmalloc_undo_spec [OF g2 p(2,3) Suc.prems(4) amax(2) old Suc.prems(5) none'] by blast
    then show ?thesis using alt p(1) False by (subst uvmalloc_loop.simps) auto
  qed
qed

lemma uvmalloc_spec:
  assumes s: "inv s" "pt_ok s 4 t" and sz: "oldsz \<le> newsz" "unat newsz \<le> 2 ^ 48"
    and none: "\<forall>k \<in> {npages oldsz..<npages newsz}. uvm_map s t k = None"
  shows "\<exists>r s'. uvmalloc rc t oldsz newsz s = Some (Inr (r, s')) \<and> inv s' \<and> pt_ok s' 4 t \<and>
    (r = newsz \<and> (\<exists>m. grown s s' t (npages oldsz) (npages newsz) m) \<or> r = 0 \<and> uvm_rel s s' t (uvm_map s t))"
proof -
  have le: "unat oldsz \<le> unat newsz" using sz(1) by (simp add: word_le_nat_alt)
  note np = npages_PGROUNDUP [OF order_trans [OF le sz(2)]]
  have "grown s s t (npages oldsz) (vpn (PGROUNDUP oldsz)) Map.empty"
    using uvm_rel_refl [of s t] by (simp add: grown_def np)
  from uvmalloc_loop_spec [OF s this _ _ _ sz(2) _ np(2) none]
  show ?thesis using np npages_mono [OF le] sz(1) by (simp add: uvmalloc_def not_less [symmetric])
qed

text \<open>Copying. \<open>copied\<close> relates the entries of the copy to those of the source: same attributes, a
  page of its own, the same contents.\<close>

definition copied :: "'a vm_scheme \<Rightarrow> 'a vm_scheme \<Rightarrow> uintptr \<Rightarrow> nat \<Rightarrow> (nat \<rightharpoonup> pte_t) \<Rightarrow> bool" where
  "copied s s' src n m \<longleftrightarrow> dom m = dom (uvm_map s src) \<inter> {..<n} \<and>
     (\<forall>k e e0. m k = Some e \<longrightarrow> uvm_map s src k = Some e0 \<longrightarrow>
        e = KVA_TO_PA (pte_child e) OR (e0 XOR PTE_ADDR e0) \<and> pte_child e \<notin> used_pages s \<and>
        vm_page s' (pte_child e) = vm_page s (pte_child e0))"

lemma copied_dom: "copied s s' src n m \<Longrightarrow> dom m = dom (uvm_map s src) \<inter> {..<n}"
  by (simp only: copied_def)

lemma copied_entry:
  "copied s s' src n m \<Longrightarrow> m k = Some e \<Longrightarrow> uvm_map s src k = Some e0 \<Longrightarrow>
     e = KVA_TO_PA (pte_child e) OR (e0 XOR PTE_ADDR e0) \<and> pte_child e \<notin> used_pages s \<and>
     vm_page s' (pte_child e) = vm_page s (pte_child e0)"
  unfolding copied_def by blast

lemma copiedI:
  assumes "dom m = dom (uvm_map s src) \<inter> {..<n}"
    "\<And>k e e0. m k = Some e \<Longrightarrow> uvm_map s src k = Some e0 \<Longrightarrow>
     e = KVA_TO_PA (pte_child e) OR (e0 XOR PTE_ADDR e0) \<and> pte_child e \<notin> used_pages s \<and>
     vm_page s' (pte_child e) = vm_page s (pte_child e0)"
  shows "copied s s' src n m"
  unfolding copied_def using assms by blast

lemma source_kept:
  assumes "pt_ok s 4 src" "pt_foot (vm_page s) 4 src \<subseteq> uvm_rest s dst" "uvm_rel s s1 dst m"
  shows "uvm_map s1 src = uvm_map s src" "pt_ok s1 4 src"
    "uvm_map s src k = Some e \<Longrightarrow> vm_page s1 (pte_child e) = vm_page s (pte_child e)"
    "pt_foot (vm_page s1) 4 src \<subseteq> uvm_rest s1 dst"
    "pt_slot (vm_page s1) 4 src k = pt_slot (vm_page s) 4 src k"
proof -
  have rest: "uvm_rest s1 dst = uvm_rest s dst" and same: "\<And>p. p \<in> uvm_rest s dst \<Longrightarrow> vm_page s1 p = vm_page s p"
    using assms(3) unfolding uvm_rel_def by blast+
  have "\<forall>p \<in> pt_tables (vm_page s) 4 src. vm_page s1 p = vm_page s p"
    using same assms(2) subsetD [OF pt_tables_foot] by blast
  note fr = pt_frame [OF this]
  show "uvm_map s1 src = uvm_map s src" by (simp add: uvm_map_def fun_eq_iff fr)
  show "pt_foot (vm_page s1) 4 src \<subseteq> uvm_rest s1 dst" unfolding fr rest by (rule assms(2))
  then have "pt_foot (vm_page s1) 4 src \<subseteq> used_pages s1" unfolding uvm_rest_def by blast
  then show "pt_ok s1 4 src" using assms(1) unfolding pt_ok_def fr by blast
  show "uvm_map s src k = Some e \<Longrightarrow> vm_page s1 (pte_child e) = vm_page s (pte_child e)"
    using uvm_map_page(2) [OF assms(1)] assms(2) same by blast
  show "pt_slot (vm_page s1) 4 src k = pt_slot (vm_page s) 4 src k" by (rule fr)
qed

lemma uvmcopy_page_spec:
  assumes s: "inv s" "pt_ok s 4 dst" and a: "page_aligned va" "va < MAXUVA" and none: "uvm_map s dst (vpn va) = None"
    and e: "pte_valid e" "pte_child e \<in> used_pages s"
  shows "\<exists>ok s'. uvmcopy_page rc dst va e s = Inr (ok, s') \<and> inv s' \<and> pt_ok s' 4 dst \<and> used_pages s \<subseteq> used_pages s' \<and>
    (if ok then \<exists>mem. mem \<notin> used_pages s \<and> mem \<in> used_pages s' \<and>
         uvm_rel s s' dst ((uvm_map s dst)(vpn va \<mapsto> KVA_TO_PA mem OR (e XOR PTE_ADDR e))) \<and>
         vm_page s' mem = vm_page s (pte_child e)
     else uvm_rel s s' dst (uvm_map s dst))"
proof -
  let ?f = "\<lambda>mem s. copy_page mem (PA_TO_KVA (PTE_ADDR e)) s"
  have eq: "uvmcopy_page rc dst va e s = install ?f (e XOR PTE_ADDR e) dst va s"
    by (simp only: install_def uvmcopy_page_def Let_def)
  have f: "?f mem s1 = s1\<lparr>vm_page := (vm_page s1)(mem := (\<lambda>M. M (pte_child e)) (vm_page s1))\<rparr>" for mem s1
    by (simp add: copy_page_def pte_child_def)
  show ?thesis unfolding eq
    by (rule install_spec [where g = "\<lambda>M. M (pte_child e)" and fill = ?f, OF s a none entry_attrs [OF e(1)]])
      (rule f, use e(2) in blast)
qed

lemma uvmcopy_loop_spec:
  assumes sz: "unat sz \<le> 2 ^ 48"
    and ok: "pt_ok s 4 src" "pt_ok s 4 dst" "pt_foot (vm_page s) 4 src \<subseteq> uvm_rest s dst" "uvm_map s dst = Map.empty"
    and "inv s1" "pt_ok s1 4 dst" "uvm_rel s s1 dst m" "copied s s1 src (vpn va) m" "page_aligned va" "vpn va \<le> npages sz"
    "used_pages s \<subseteq> used_pages s1"
  shows "\<exists>ok s' m. uvmcopy_loop rc src dst va sz s1 = Inr (ok, s') \<and> inv s' \<and> pt_ok s' 4 dst \<and> uvm_rel s s' dst m \<and>
    (\<exists>n \<le> npages sz. copied s s' src n m \<and> (ok \<longrightarrow> n = npages sz))"
  using assms(6-12)
proof (induction "npages sz - vpn va" arbitrary: va s1 m)
  case 0
  then have "\<not> va < sz" using less_npages [OF "0.prems"(5), of sz] by (simp add: word_less_nat_alt)
  moreover have "vpn va = npages sz" using 0 by simp
  ultimately show ?case using "0.prems" by (subst uvmcopy_loop.simps) auto
next
  case (Suc d)
  have lt: "vpn va < npages sz" using Suc.hyps(2) by simp
  then have alt: "va < sz" using less_npages [OF Suc.prems(5), of sz] by (simp add: word_less_nat_alt)
  then have amax: "va < MAXUVA" "unat va \<le> 2 ^ 48" using sz by (simp_all add: word_less_nat_alt MAXUVA_def)
  have klt: "vpn va < 512 ^ 4" by (rule vpn_less [OF amax(1)])
  have step: "vpn (va + PGSIZE) = Suc (vpn va)" "page_aligned (va + PGSIZE)"
    by (rule vpn_page_step [OF Suc.prems(5)], use amax in simp)+
  have d: "d = npages sz - vpn (va + PGSIZE)" "vpn (va + PGSIZE) \<le> npages sz" using Suc.hyps(2) lt step(1) by simp_all
  note src = source_kept [OF ok(1,3) Suc.prems(3)]
  have three: "Suc 3 = (4::nat)" by simp
  have w: "walk rc src va False s1 = Inr (pt_slot (vm_page s1) 4 src (vpn va), s1)"
    using walk_loop_read [of 3 src va s1, unfolded three] amax(1) by (simp add: walk_def)
  have dm: "dom m = dom (uvm_map s src) \<inter> {..<vpn va}"
    and cp: "\<And>k e e0. m k = Some e \<Longrightarrow> uvm_map s src k = Some e0 \<Longrightarrow>
        e = KVA_TO_PA (pte_child e) OR (e0 XOR PTE_ADDR e0) \<and> pte_child e \<notin> used_pages s \<and>
        vm_page s1 (pte_child e) = vm_page s (pte_child e0)"
    by (rule copied_dom [OF Suc.prems(4)], rule copied_entry [OF Suc.prems(4)])
  have map1: "uvm_map s1 dst = m" using Suc.prems(3) unfolding uvm_rel_def by blast
  have mk: "m (vpn va) = None" using dm by (metis IntD2 domIff lessThan_iff less_irrefl)
  have lk: "pt_lookup (vm_page s1) 4 src (vpn va) = uvm_map s src (vpn va)" using src(1) klt by (metis uvm_map_def)
  show ?case
  proof (cases "uvm_map s src (vpn va)")
    case None
    have run: "uvmcopy_loop rc src dst va sz s1 = uvmcopy_loop rc src dst (va + PGSIZE) sz s1"
      using alt w lk None by (subst uvmcopy_loop.simps) (auto simp: pt_lookup_def split: option.splits if_splits)
    have "dom m = dom (uvm_map s src) \<inter> {..<Suc (vpn va)}" using dm None by (auto simp: less_Suc_eq)
    then have "copied s s1 src (vpn (va + PGSIZE)) m" unfolding step(1) by (rule copiedI) (rule cp)
    from Suc.hyps(1) [OF d(1) Suc.prems(1-3) this step(2) d(2) Suc.prems(7)] show ?thesis unfolding run .
  next
    case (Some e0)
    obtain q i where q: "pt_slot (vm_page s1) 4 src (vpn va) = Some (q, i)" "pte_valid (vm_page s1 q i)" "vm_page s1 q i = e0"
      using lk Some by (auto simp: pt_lookup_def split: option.splits if_splits)
    have e0: "pte_valid e0" "pte_child e0 \<in> used_pages s1" using q uvm_map_page(1) [OF src(2)] src(1) Some by auto
    obtain okc s2 where p: "uvmcopy_page rc dst va e0 s1 = Inr (okc, s2)" "inv s2" "pt_ok s2 4 dst" "used_pages s1 \<subseteq> used_pages s2"
      "if okc then \<exists>mem. mem \<notin> used_pages s1 \<and> mem \<in> used_pages s2 \<and>
         uvm_rel s1 s2 dst ((uvm_map s1 dst)(vpn va \<mapsto> KVA_TO_PA mem OR (e0 XOR PTE_ADDR e0))) \<and>
         vm_page s2 mem = vm_page s1 (pte_child e0)
       else uvm_rel s1 s2 dst (uvm_map s1 dst)"
      using uvmcopy_page_spec [OF Suc.prems(1,2,5) amax(1) _ e0] map1 mk by auto
    show ?thesis
    proof (cases okc)
      case False
      have r1: "uvm_rel s1 s2 dst m" using p(5) False map1 by simp
      have rel: "uvm_rel s s2 dst m" by (rule uvm_rel_trans [OF Suc.prems(3) r1]) (simp add: ok(4))
      have "vm_page s2 (pte_child e) = vm_page s1 (pte_child e)" if "m k = Some e" for k e
        using uvm_rel_content [OF r1] that map1 by simp
      then have "copied s s2 src (vpn va) m" by (intro copiedI dm) (simp add: cp)
      moreover have "uvmcopy_loop rc src dst va sz s1 = Inr (False, s2)"
        using alt w q p(1) False by (subst uvmcopy_loop.simps) simp
      ultimately show ?thesis using p(2,3) rel lt less_imp_le by blast
    next
      case True
      then obtain mem where mem: "mem \<notin> used_pages s1" "mem \<in> used_pages s2"
        "uvm_rel s1 s2 dst (m(vpn va \<mapsto> KVA_TO_PA mem OR (e0 XOR PTE_ADDR e0)))"
        "vm_page s2 mem = vm_page s1 (pte_child e0)" using p(5) map1 by auto
      let ?e = "KVA_TO_PA mem OR (e0 XOR PTE_ADDR e0)" and ?m = "m(vpn va \<mapsto> KVA_TO_PA mem OR (e0 XOR PTE_ADDR e0))"
      have che: "pte_child ?e = mem" using used_range [OF p(2) mem(2)] pte_make_child(1) entry_attrs [OF e0(1)] by blast
      have rel: "uvm_rel s s2 dst ?m" by (rule uvm_rel_trans [OF Suc.prems(3) mem(3)]) (simp add: ok(4))
      have mems: "mem \<notin> used_pages s" using mem(1) Suc.prems(7) by blast
      have copied: "copied s s2 src (vpn (va + PGSIZE)) ?m" unfolding step(1)
      proof (rule copiedI)
        show "dom ?m = dom (uvm_map s src) \<inter> {..<Suc (vpn va)}" using dm Some by (auto simp: less_Suc_eq)
      next
        fix k e e1 assume k: "?m k = Some e" "uvm_map s src k = Some e1"
        show "e = KVA_TO_PA (pte_child e) OR (e1 XOR PTE_ADDR e1) \<and> pte_child e \<notin> used_pages s \<and>
            vm_page s2 (pte_child e) = vm_page s (pte_child e1)"
        proof (cases "k = vpn va")
          case True
          then have "e = ?e" "e1 = e0" using k Some by simp_all
          then show ?thesis using che mems mem(4) src(3) [OF Some] by simp
        next
          case False
          then have mk': "m k = Some e" using k(1) by simp
          have "vm_page s2 (pte_child e) = vm_page s1 (pte_child e)"
            using uvm_rel_content [OF mem(3) _ k(1)] mk' map1 by simp
          then show ?thesis using cp [OF mk' k(2)] by simp
        qed
      qed
      have run: "uvmcopy_loop rc src dst va sz s1 = uvmcopy_loop rc src dst (va + PGSIZE) sz s2"
        using alt w q p(1) True by (subst uvmcopy_loop.simps) simp
      from Suc.hyps(1) [OF d(1) p(2,3) rel copied step(2) d(2)] show ?thesis
        unfolding run using Suc.prems(7) p(4) by blast
    qed
  qed
qed

end

section \<open>The page allocator below\<close>

text \<open>Physical memory the tables can name: the direct map ends below the 48-bit limit.\<close>

definition vm_inv :: "'a vm_scheme \<Rightarrow> bool" where [inv_simps]:
  "vm_inv s \<longleftrightarrow> kalloc_inv s \<and> (\<forall>g \<in> set (segs s). seg_hi g \<le> 2 ^ 48)"

lemma kalloc_inv_vm_page [simp]: "kalloc_inv (s\<lparr>vm_page := m\<rparr>) = kalloc_inv s"
proof -
  have "flag (s\<lparr>vm_page := m\<rparr>) = flag s" by (rule ext) (simp add: flag_def)
  then show ?thesis by (simp add: kalloc_inv_def layout_ok_def)
qed

lemma vm_inv_vm_page [simp]: "vm_inv (s\<lparr>vm_page := m\<rparr>) = vm_inv s"
  by (simp add: vm_inv_def)

lemma same_frame_vm:
  assumes "same_frame s s'"
  shows "vm_page s' = vm_page s" "segs s' = segs s" "kmem.more s' = kmem.more s"
proof -
  show m: "kmem.more s' = kmem.more s" and "segs s' = segs s" using assms by (simp_all add: same_frame_def)
  show "vm_page s' = vm_page s" using m by (cases s; cases s') simp
qed

lemma vm_inv_used_range:
  assumes "vm_inv s" "p \<in> used_pages s"
  shows "page_aligned (KVA_TO_PA p) \<and> KVA_TO_PA p < MAXUVA"
proof -
  have lay: "layout_ok s" using assms(1) by (simp add: vm_inv_def kalloc_inv_def)
  obtain i where i: "page_aligned (KVA_TO_PA p)" "pa_to_page (KVA_TO_PA p) s = Some i"
    using assms(2) by (auto simp: used_pages_def page_state_def split: if_splits)
  then obtain g where "g \<in> set (segs s)" "unat (KVA_TO_PA p) < seg_hi g"
    using pa_to_page_iff [OF lay, of "KVA_TO_PA p" i] by auto
  then have "unat (KVA_TO_PA p) < 2 ^ 48" using assms(1) by (auto simp: vm_inv_def)
  then show ?thesis using i(1) by (simp add: word_less_nat_alt MAXUVA_def)
qed

lemma used_pages_alloc:
  assumes "page_state s' = (page_state s)(va \<mapsto> PG_USED)" shows "used_pages s' = insert va (used_pages s)"
  using assms by (auto simp: used_pages_def)

lemma used_pages_free:
  assumes "page_state s' = (page_state s)(va \<mapsto> PG_FREE)" shows "used_pages s' = used_pages s - {va}"
  using assms by (auto simp: used_pages_def)

lemma used_pages_owned: "used_pages s \<subseteq> owned s" and used_not_free: "used_pages s \<inter> free_pages s = {}"
  by (auto simp: used_pages_def owned_def free_pages_def)

lemma vm_inv_free:
  assumes "vm_inv s" "p \<in> used_pages s"
  shows "\<exists>s'. kpage_free p s = Inr s' \<and> vm_inv s' \<and> used_pages s' = used_pages s - {p} \<and> vm_page s' = vm_page s"
proof -
  obtain s' where a: "kpage_free p s = Inr s'" "kalloc_inv s'" "page_state s' = (page_state s)(p \<mapsto> PG_FREE)" "same_frame s s'"
    using kpage_free_ok [of s p] assms used_pages_owned by (auto simp: vm_inv_def)
  then show ?thesis using assms(1) used_pages_free [OF a(3)] same_frame_vm [OF a(4)] by (simp add: vm_inv_def)
qed

interpretation pv: page_store vm_inv no_reclaim
proof unfold_locales
  fix s :: "'a vm_scheme" and p :: uintptr and f
  assume inv: "vm_inv s"
  show "p \<in> used_pages s \<Longrightarrow> page_aligned (KVA_TO_PA p) \<and> KVA_TO_PA p < MAXUVA" by (rule vm_inv_used_range [OF inv])
  show "p \<in> used_pages s \<Longrightarrow> \<exists>s'. kpage_free p s = Inr s' \<and> vm_inv s' \<and> used_pages s' = used_pages s - {p} \<and> vm_page s' = vm_page s"
    by (rule vm_inv_free [OF inv])
  show "p \<in> used_pages s \<Longrightarrow> vm_inv (s\<lparr>vm_page := (vm_page s)(p := f)\<rparr>)" using inv by simp
  have k: "kalloc_inv s" using inv by (simp add: vm_inv_def)
  show "\<exists>r s'. kpage_alloc no_reclaim s = Inr (r, s') \<and> vm_inv s' \<and> used_pages s' = used_pages s \<union> set_option r \<and>
      set_option r \<inter> used_pages s = {} \<and> (\<forall>p \<in> used_pages s. vm_page s' p = vm_page s p)"
  proof (cases "free_pages s = {}")
    case True
    then have "kpage_alloc no_reclaim s = Inr (None, s)" by (simp add: kpage_alloc_empty [OF k] no_reclaim_def)
    then show ?thesis using inv by auto
  next
    case False
    then obtain va s' where a: "kpage_alloc no_reclaim s = Inr (Some va, s')" "va \<in> free_pages s" "kalloc_inv s'"
      "page_state s' = (page_state s)(va \<mapsto> PG_USED)" "same_frame s s'"
      using kpage_alloc_free [OF k, of no_reclaim] by blast
    have "va \<notin> used_pages s" using a(2) used_not_free by blast
    moreover have "vm_inv s'" using inv a(3) same_frame_vm(2) [OF a(5)] by (simp add: vm_inv_def)
    ultimately show ?thesis using a(1) used_pages_alloc [OF a(4)] same_frame_vm(1) [OF a(5)] by auto
  qed
qed

end
