(* ===== verification/Uvm.thy ===== *)
theory Uvm
  imports PmapProofs
begin

text \<open>
  The promises of the user address spaces, over any memory that satisfies \<open>page_store\<close>, and a small
  machine on which they are exercised: eight pages, two of them empty root tables.
\<close>

section \<open>An eight-page machine\<close>

definition demo_vm :: vm where
  "demo_vm = \<lparr>km_phys = \<lparr>hwregions = [], exregions = [], vm_phys_segs =
       [\<lparr>seg_start = 0x1000, seg_end = 0x9000, first_page = Some 0\<rparr>]\<rparr>,
     km_boot = 0xa000, km_array = 0x9000, km_npages = 8,
     km_pages = [\<lparr>pg_next = None, pg_flags = PG_USED, pg_refcnt = 1\<rparr>, \<lparr>pg_next = None, pg_flags = PG_USED, pg_refcnt = 1\<rparr>,
       \<lparr>pg_next = Some 3, pg_flags = PG_FREE, pg_refcnt = 0\<rparr>, \<lparr>pg_next = Some 4, pg_flags = PG_FREE, pg_refcnt = 0\<rparr>,
       \<lparr>pg_next = Some 5, pg_flags = PG_FREE, pg_refcnt = 0\<rparr>, \<lparr>pg_next = Some 6, pg_flags = PG_FREE, pg_refcnt = 0\<rparr>,
       \<lparr>pg_next = Some 7, pg_flags = PG_FREE, pg_refcnt = 0\<rparr>, \<lparr>pg_next = None, pg_flags = PG_FREE, pg_refcnt = 0\<rparr>],
     km_freelist = Some 2, vm_page = (\<lambda>_ _. 0)\<rparr>"

abbreviation root1 :: uintptr where "root1 \<equiv> PA_TO_KVA 0x1000"
abbreviation root2 :: uintptr where "root2 \<equiv> PA_TO_KVA 0x2000"

lemma demo_total: "total_pages (segs demo_vm) = 8"
  by (simp add: demo_vm_def seg_npages_def PGSHIFT_def drop_bit_eq_div)

lemma demo_flags:
  "flag demo_vm 0 = PG_USED" "flag demo_vm 1 = PG_USED" "flag demo_vm 2 = PG_FREE" "flag demo_vm 3 = PG_FREE"
  "flag demo_vm 4 = PG_FREE" "flag demo_vm 5 = PG_FREE" "flag demo_vm 6 = PG_FREE" "flag demo_vm 7 = PG_FREE"
  by (simp_all add: flag_def demo_vm_def)

lemma less_8_cases: "(i :: nat) < 8 \<Longrightarrow> i = 0 \<or> i = 1 \<or> i = 2 \<or> i = 3 \<or> i = 4 \<or> i = 5 \<or> i = 6 \<or> i = 7"
  by linarith

lemma demo_inv: "vm_inv demo_vm"
proof -
  have "layout_ok demo_vm" unfolding layout_ok_def demo_total
    by (simp add: demo_vm_def segs_ok_simps seg_lo_def seg_hi_def seg_al_def seg_npages_def PGSHIFT_def drop_bit_eq_div)
  moreover have "fpath (km_pages demo_vm) (km_freelist demo_vm) [2, 3, 4, 5, 6, 7]" by (simp add: demo_vm_def)
  moreover have "{2, 3, 4, 5, 6, 7} = {i. i < 8 \<and> flag demo_vm i = PG_FREE}"
    using demo_flags by (auto dest!: less_8_cases)
  moreover have "flag demo_vm i \<in> {PG_FREE, PG_USED, PG_SLAB} \<and> (flag demo_vm i \<noteq> PG_FREE \<longrightarrow> pg_refcnt (km_pages demo_vm ! i) = 1)"
    if "i < 8" for i using less_8_cases [OF that] demo_flags by (auto simp: demo_vm_def)
  ultimately have "kalloc_inv demo_vm" unfolding kalloc_inv_def demo_total
    by (intro conjI exI [of _ "[2, 3, 4, 5, 6, 7]"]) auto
  then show ?thesis by (simp add: vm_inv_def demo_vm_def seg_hi_def)
qed

lemma demo_used: "root1 \<in> used_pages demo_vm" "root2 \<in> used_pages demo_vm"
  by (simp_all add: used_pages_def page_state_def page_aligned_mod PGSIZE_def pa_to_page_def demo_vm_def
      physmem_seg_def in_seg_def flag_def PGSHIFT_def)

lemma demo_trees:
  "pt_ok demo_vm 4 root1" "pt_ok demo_vm 4 root2" "uvm_map demo_vm root1 = Map.empty" "uvm_map demo_vm root2 = Map.empty"
  "pt_foot (vm_page demo_vm) 4 root1 = {root1}" "pt_foot (vm_page demo_vm) 4 root2 = {root2}"
proof -
  have z: "vm_page demo_vm t = (\<lambda>_. 0)" for t by (simp add: demo_vm_def)
  have four: "Suc 3 = (4::nat)" by simp
  note e = pt_empty [where M = "vm_page demo_vm" and h = 3, unfolded four, OF z]
  show "pt_ok demo_vm 4 root1" "pt_ok demo_vm 4 root2" using demo_used by (simp_all add: pt_ok_def e)
  show "uvm_map demo_vm root1 = Map.empty" "uvm_map demo_vm root2 = Map.empty" by (simp_all add: uvm_map_def fun_eq_iff e)
  show "pt_foot (vm_page demo_vm) 4 root1 = {root1}" "pt_foot (vm_page demo_vm) 4 root2 = {root2}" by (rule e)+
qed

section \<open>The promises\<close>





text \<open>C25: shrinking an address space always succeeds: it unmaps exactly the pages between the two
  sizes, every page that was mapped there is given back, and everything else, mapped or not, is left
  alone with its contents.\<close>

theorem uvmdealloc_correct:
  assumes "page_store ok_vm rc" "ok_vm s" "pt_ok s 4 t" "unat oldsz \<le> 2 ^ 48" "newsz < oldsz"
  shows "\<exists>s'. uvmdealloc t oldsz newsz s = Some (Inr (newsz, s')) \<and> ok_vm s' \<and> pt_ok s' 4 t \<and>
    uvm_rel s s' t (uvm_map s t |` (- {npages newsz..<npages oldsz})) \<and>
    (\<forall>k e. k \<in> {npages newsz..<npages oldsz} \<longrightarrow> uvm_map s t k = Some e \<longrightarrow> pte_child e \<notin> used_pages s')"
  by (rule page_store.uvmdealloc_spec [OF assms])

theorem uvmdealloc_correct_witness:
  "\<exists>s'. uvmdealloc root1 8192 100 demo_vm = Some (Inr (100, s')) \<and> pt_ok s' 4 root1"
  using uvmdealloc_correct [OF pv.page_store_axioms demo_inv demo_trees(1), of 8192 100] by auto



text \<open>C27: freeing an address space gives back exactly the pages of its tree: every table and every mapped
  page, each once, and nothing else; the pages of others keep their contents.\<close>

theorem uvmfree_correct:
  assumes "page_store ok_vm rc" "ok_vm s" "pt_ok s 4 t"
  shows "\<exists>s'. uvmfree t s = Inr s' \<and> ok_vm s' \<and> used_pages s' = uvm_rest s t \<and>
    (\<forall>p \<in> uvm_rest s t. vm_page s' p = vm_page s p)"
proof -
  have four: "Suc 3 = (4::nat)" by simp
  show ?thesis
    using page_store.freewalk_spec [OF assms(1), of 3, unfolded four] assms(2,3)
    unfolding page_store.free_spec_def [OF assms(1)] uvmfree_def uvm_rest_def by blast
qed

theorem uvmfree_correct_witness:
  "\<exists>s'. uvmfree root1 demo_vm = Inr s' \<and> used_pages s' = used_pages demo_vm - {root1}"
  using uvmfree_correct [OF pv.page_store_axioms demo_inv demo_trees(1)] unfolding uvm_rest_def demo_trees(5) by blast

end
