(* ===== verification/Slab.thy ===== *)
theory Slab
  imports Pmap Bitstring
begin

text \<open>
  The slab allocator (\<^verbatim>\<open>vm/slab.c\<close>). A cache, a slab header and a magazine are named by their
  addresses; each kind has its own store. The intrusive lists are lists of addresses. A magazine is
  the list of its \<open>count\<close> objects, the top of the stack last. Running an object's constructor is
  recorded in \<open>sl_built\<close>. \<open>sl_held\<close> are the locks the running CPU holds and \<open>sl_busy\<close> those held by
  other CPUs, on which a \<open>try_acquire\<close> fails; locks are named by the address of their cache, and the
  lock of the cache list by \<open>sl_listlock\<close>. Each entry point is one step of its CPU.
\<close>

section \<open>State\<close>

definition MAG_DEPTH :: nat where [kdefs]: "MAG_DEPTH = 15"
definition KMEM_MIN_ALIGN :: uint64 where [kdefs]: "KMEM_MIN_ALIGN = 16"
definition SLAB_MAX_OBJS :: nat where [kdefs]: "SLAB_MAX_OBJS = unat (PGSIZE div KMEM_MIN_ALIGN)"
definition SIZEOF_SLAB :: uint64 where [kdefs]: "SIZEOF_SLAB = 64"
definition SIZEOF_MAGAZINE :: uint64 where [kdefs]: "SIZEOF_MAGAZINE = 144"
definition SIZEOF_CACHE :: uint64 where [kdefs]: "SIZEOF_CACHE = 640"

record slab =
  sh_cache :: uintptr
  sh_inuse :: int
  sh_used :: bitstr

record kmem_cpu_cache =
  cc_loaded :: "uintptr option"
  cc_previous :: "uintptr option"

record kmem_cache =
  kc_objsize :: uint64
  kc_align :: uint64
  kc_slots :: uint32
  kc_offset :: uint32
  kc_ctor :: bool
  kc_use_mag :: bool
  kc_partial :: "uintptr list"
  kc_full :: "uintptr list"
  kc_empty :: "uintptr list"
  kc_full_mags :: "uintptr list"
  kc_empty_mags :: "uintptr list"
  kc_cpu :: "nat \<Rightarrow> kmem_cpu_cache"

record slabs = vm +
  sl_slab :: "uintptr \<Rightarrow> slab"
  sl_cache :: "uintptr \<Rightarrow> kmem_cache"
  sl_mag :: "uintptr \<Rightarrow> uintptr list"
  sl_caches :: "uintptr list"
  sl_cache_cache :: uintptr
  sl_magazine_cache :: uintptr
  sl_listlock :: uintptr
  sl_held :: "uintptr set"
  sl_busy :: "uintptr set"
  sl_cpu :: nat
  sl_built :: "uintptr set"

definition upd_cache :: "uintptr \<Rightarrow> (kmem_cache \<Rightarrow> kmem_cache) \<Rightarrow> 'a slabs_scheme \<Rightarrow> 'a slabs_scheme" where
  "upd_cache c f s = s\<lparr>sl_cache := (sl_cache s)(c := f (sl_cache s c))\<rparr>"

definition upd_slab :: "uintptr \<Rightarrow> (slab \<Rightarrow> slab) \<Rightarrow> 'a slabs_scheme \<Rightarrow> 'a slabs_scheme" where
  "upd_slab p f s = s\<lparr>sl_slab := (sl_slab s)(p := f (sl_slab s p))\<rparr>"

definition set_mag :: "uintptr \<Rightarrow> uintptr list \<Rightarrow> 'a slabs_scheme \<Rightarrow> 'a slabs_scheme" where
  "set_mag m os s = s\<lparr>sl_mag := (sl_mag s)(m := os)\<rparr>"

definition sl_acquire :: "uintptr \<Rightarrow> 'a slabs_scheme \<Rightarrow> 'a slabs_scheme res" where
  "sl_acquire l s = kassert (l \<notin> sl_held s) ''acquire_spinlock: %s already held held at %s:%d''
     (Inr (s\<lparr>sl_held := insert l (sl_held s)\<rparr>))"

definition sl_release :: "uintptr \<Rightarrow> 'a slabs_scheme \<Rightarrow> 'a slabs_scheme" where
  "sl_release l s = s\<lparr>sl_held := sl_held s - {l}\<rparr>"

definition sl_try_acquire :: "uintptr \<Rightarrow> 'a slabs_scheme \<Rightarrow> (bool \<times> 'a slabs_scheme) res" where
  "sl_try_acquire l s = kassert (l \<notin> sl_held s) ''try_acquire_spinlock: %s already held at %s:%d''
     (Inr (if l \<in> sl_busy s then (False, s) else (True, s\<lparr>sl_held := insert l (sl_held s)\<rparr>)))"

section \<open>Setup\<close>

definition round_up :: "uint64 \<Rightarrow> uint64 \<Rightarrow> uint64" where
  "round_up x align = (x + align - 1) AND NOT (align - 1)"

definition cache_setup :: "uint64 \<Rightarrow> uint64 \<Rightarrow> bool \<Rightarrow> bool \<Rightarrow> kmem_cache" where
  "cache_setup size0 align0 ctor use_mag =
     (let align = (if align0 < KMEM_MIN_ALIGN then KMEM_MIN_ALIGN else align0);
          size = round_up size0 align; off = round_up SIZEOF_SLAB align in
      \<lparr>kc_objsize = size, kc_align = align, kc_slots = ucast ((PGSIZE - off) div size), kc_offset = ucast off,
       kc_ctor = ctor, kc_use_mag = use_mag, kc_partial = [], kc_full = [], kc_empty = [], kc_full_mags = [],
       kc_empty_mags = [], kc_cpu = (\<lambda>_. \<lparr>cc_loaded = None, cc_previous = None\<rparr>)\<rparr>)"

definition kmem_init :: "'a slabs_scheme \<Rightarrow> 'a slabs_scheme" where
  "kmem_init s =
     upd_cache (sl_magazine_cache s) (\<lambda>_. cache_setup SIZEOF_MAGAZINE 0 False False)
      (upd_cache (sl_cache_cache s) (\<lambda>_. cache_setup SIZEOF_CACHE 0 False False)
        (s\<lparr>sl_caches := [sl_magazine_cache s, sl_cache_cache s]\<rparr>))"

section \<open>The slab layer\<close>

definition slab_obj :: "kmem_cache \<Rightarrow> uintptr \<Rightarrow> nat \<Rightarrow> uintptr" where
  "slab_obj c p slot = p + ucast (kc_offset c) + of_nat slot * kc_objsize c"

definition unlink_slab :: "uintptr \<Rightarrow> kmem_cache \<Rightarrow> kmem_cache" where
  "unlink_slab p c = c\<lparr>kc_partial := remove1 p (kc_partial c), kc_full := remove1 p (kc_full c), kc_empty := remove1 p (kc_empty c)\<rparr>"

definition slab_slot :: "kmem_cache \<Rightarrow> uintptr \<Rightarrow> uintptr \<Rightarrow> int" where
  "slab_slot c p obj = sint (ucast ((obj - (p + ucast (kc_offset c))) div kc_objsize c) :: 32 word)"

definition slab_free_locked :: "uintptr \<Rightarrow> uintptr \<Rightarrow> 'a slabs_scheme \<Rightarrow> 'a slabs_scheme res" where
  "slab_free_locked ca obj s =
     (let p = PGROUNDDW obj; c = sl_cache s ca; sl = sl_slab s p; slot = slab_slot c p obj in
      kassert (sh_cache sl = ca) ''kmem_cache_free: object does not belong to this cache''
       (kassert (slot \<ge> 0 \<and> (of_int slot :: uint32) < kc_slots c \<and> bit_test (sh_used sl) (nat slot))
          ''kmem_cache_free: bad address or double free''
         (let was_full = (of_int (sh_inuse sl) = kc_slots c);
              s1 = upd_slab p (\<lambda>h. h\<lparr>sh_used := bit_clear (sh_used h) (nat slot), sh_inuse := sh_inuse h - 1\<rparr>) s;
              s2 = (if was_full then upd_cache ca (\<lambda>c. let c' = unlink_slab p c in c'\<lparr>kc_partial := p # kc_partial c'\<rparr>) s1 else s1);
              s3 = (if sh_inuse (sl_slab s2 p) = 0 then
                      upd_cache ca (\<lambda>c. let c' = unlink_slab p c in c'\<lparr>kc_empty := p # kc_empty c'\<rparr>) s2 else s2) in
          Inr s3)))"

text \<open>
  \<open>kmem_cache_free\<close> on a cache without magazines. The two internal caches have none, and
  \<open>drain_magazine\<close> frees into one of them; were it to have magazines, the recursion it would start is
  outside the model and reported as \<open>Fault\<close>.
\<close>

definition cache_free_plain :: "uintptr \<Rightarrow> uintptr \<Rightarrow> 'a slabs_scheme \<Rightarrow> 'a slabs_scheme res" where
  "cache_free_plain ca obj s =
     rbind (sl_acquire ca s) (\<lambda>s1. rbind (slab_free_locked ca obj s1) (\<lambda>s2. Inr (sl_release ca s2)))"

definition drain_magazine :: "uintptr \<Rightarrow> uintptr \<Rightarrow> 'a slabs_scheme \<Rightarrow> 'a slabs_scheme res" where
  "drain_magazine ca m s =
     rbind (seq_res (slab_free_locked ca) (sl_mag s m) s) (\<lambda>s1.
       if kc_use_mag (sl_cache s1 (sl_magazine_cache s1)) then Inl Fault
       else cache_free_plain (sl_magazine_cache s1) m (set_mag m [] s1))"

section \<open>Reclaiming\<close>

definition take_full_mags :: "uintptr \<Rightarrow> uintptr \<Rightarrow> 'a slabs_scheme \<Rightarrow> 'a slabs_scheme res" where
  "take_full_mags ca m s =
     drain_magazine ca m (upd_cache ca (\<lambda>c. c\<lparr>kc_full_mags := remove1 m (kc_full_mags c)\<rparr>) s)"

definition take_empty_mags :: "uintptr \<Rightarrow> uintptr \<Rightarrow> 'a slabs_scheme \<Rightarrow> 'a slabs_scheme res" where
  "take_empty_mags ca m s =
     drain_magazine ca m (upd_cache ca (\<lambda>c. c\<lparr>kc_empty_mags := remove1 m (kc_empty_mags c)\<rparr>) s)"

definition drop_slab :: "uintptr \<Rightarrow> uintptr \<Rightarrow> 'a slabs_scheme \<Rightarrow> 'a slabs_scheme res" where
  "drop_slab ca p s = kpage_free p (upd_cache ca (unlink_slab p) s)"

definition reclaim_cache :: "uintptr \<Rightarrow> int \<times> 'a slabs_scheme \<Rightarrow> (int \<times> 'a slabs_scheme) res" where
  "reclaim_cache ca st =
     (let (freed, s) = st in
      if ca \<in> sl_held s then Inr (freed, s)
      else rbind (sl_try_acquire ca s) (\<lambda>(got, s1).
        if \<not> got then Inr (freed, s1)
        else
         rbind (seq_res (take_full_mags ca) (kc_full_mags (sl_cache s1 ca)) s1) (\<lambda>s2.
         rbind (seq_res (take_empty_mags ca) (kc_empty_mags (sl_cache s2 ca)) s2) (\<lambda>s3.
         let empties = kc_empty (sl_cache s3 ca) in
         rbind (seq_res (drop_slab ca) empties s3) (\<lambda>s4.
           Inr (freed + int (length empties), sl_release ca s4))))))"

definition kmem_reclaim :: "'a slabs_scheme \<Rightarrow> (int \<times> 'a slabs_scheme) res" where
  "kmem_reclaim s =
     rbind (sl_try_acquire (sl_listlock s) s) (\<lambda>(got, s1).
       if \<not> got then Inr (0, s1)
       else rbind (seq_res reclaim_cache (sl_caches s1) (0, s1))
         (\<lambda>(freed, s2). Inr (freed, sl_release (sl_listlock s) s2)))"

section \<open>Allocating from slabs\<close>

definition slab_grow :: "uintptr \<Rightarrow> 'a slabs_scheme \<Rightarrow> (uintptr option \<times> 'a slabs_scheme) res" where
  "slab_grow ca s =
     rbind (kpage_alloc kmem_reclaim s) (\<lambda>(page, s1).
       case page of None \<Rightarrow> Inr (None, s1)
       | Some p \<Rightarrow> rbind (kpage_set_slab p s1) (\<lambda>s2.
           let c = sl_cache s2 ca;
               s3 = upd_slab p (\<lambda>_. \<lparr>sh_cache = ca, sh_inuse = 0, sh_used = bit_decl SLAB_MAX_OBJS\<rparr>) s2 in
           Inr (Some p, if kc_ctor c then
               s3\<lparr>sl_built := sl_built s3 \<union> set (map (slab_obj c p) [0..<unat (kc_slots c)])\<rparr> else s3)))"

definition pick_slab :: "uintptr \<Rightarrow> 'a slabs_scheme \<Rightarrow> (uintptr option \<times> 'a slabs_scheme) res" where
  "pick_slab ca s =
     (case kc_partial (sl_cache s ca) of p # _ \<Rightarrow> Inr (Some p, s)
      | [] \<Rightarrow>
          rbind (case kc_empty (sl_cache s ca) of
                   p # _ \<Rightarrow> Inr (Some p, upd_cache ca (unlink_slab p) s)
                 | [] \<Rightarrow> slab_grow ca s)
            (\<lambda>(sl, s1). case sl of None \<Rightarrow> Inr (None, s1)
               | Some p \<Rightarrow> Inr (Some p, upd_cache ca (\<lambda>c. c\<lparr>kc_partial := p # kc_partial c\<rparr>) s1)))"

definition slab_alloc_locked :: "uintptr \<Rightarrow> 'a slabs_scheme \<Rightarrow> (uintptr option \<times> 'a slabs_scheme) res" where
  "slab_alloc_locked ca s =
     rbind (pick_slab ca s) (\<lambda>(sl, s1).
       case sl of None \<Rightarrow> Inr (None, s1)
       | Some p \<Rightarrow>
           (let c = sl_cache s1 ca; slot = bit_ffc (sh_used (sl_slab s1 p)) (unat (kc_slots c)) in
            kassert (slot \<ge> 0) ''slab_alloc_locked: no free slot in a partial slab''
              (let s2 = upd_slab p (\<lambda>h. h\<lparr>sh_used := bit_set (sh_used h) (nat slot), sh_inuse := sh_inuse h + 1\<rparr>) s1;
                   s3 = (if of_int (sh_inuse (sl_slab s2 p)) = kc_slots c then
                      upd_cache ca (\<lambda>c. let c' = unlink_slab p c in c'\<lparr>kc_full := p # kc_full c'\<rparr>) s2 else s2) in
               Inr (Some (slab_obj c p (nat slot)), s3))))"

section \<open>Magazines\<close>

definition my_cc :: "uintptr \<Rightarrow> 'a slabs_scheme \<Rightarrow> kmem_cpu_cache" where
  "my_cc ca s = kc_cpu (sl_cache s ca) (sl_cpu s)"

definition set_cc :: "uintptr \<Rightarrow> uintptr option \<Rightarrow> uintptr option \<Rightarrow> 'a slabs_scheme \<Rightarrow> 'a slabs_scheme" where
  "set_cc ca l p s = upd_cache ca (\<lambda>c. c\<lparr>kc_cpu := (kc_cpu c)(sl_cpu s := \<lparr>cc_loaded = l, cc_previous = p\<rparr>)\<rparr>) s"

definition mag_count :: "uintptr option \<Rightarrow> 'a slabs_scheme \<Rightarrow> nat option" where
  "mag_count m s = map_option (\<lambda>a. length (sl_mag s a)) m"

text \<open>The plain path, and one turn of the loop: \<open>Inl\<close> the result, \<open>Inr\<close> to go round again.\<close>

definition cache_alloc_plain :: "uintptr \<Rightarrow> 'a slabs_scheme \<Rightarrow> (uintptr option \<times> 'a slabs_scheme) res" where
  "cache_alloc_plain ca s =
     rbind (sl_acquire ca s) (\<lambda>s1. rbind (slab_alloc_locked ca s1) (\<lambda>(obj, s2). Inr (obj, sl_release ca s2)))"

definition alloc_turn :: "uintptr \<Rightarrow> 'a slabs_scheme \<Rightarrow> ((uintptr option \<times> 'a slabs_scheme) + 'a slabs_scheme) res" where
  "alloc_turn ca s =
     (let l = cc_loaded (my_cc ca s); p = cc_previous (my_cc ca s) in
      if l \<noteq> None \<and> sl_mag s (the l) \<noteq> [] then
        Inr (Inl (Some (last (sl_mag s (the l))), set_mag (the l) (butlast (sl_mag s (the l))) s))
      else if p \<noteq> None \<and> length (sl_mag s (the p)) = MAG_DEPTH then Inr (Inr (set_cc ca p l s))
      else rbind (sl_acquire ca s) (\<lambda>s1.
        case kc_full_mags (sl_cache s1 ca) of
          full # _ \<Rightarrow>
            (let s2 = upd_cache ca (\<lambda>c. c\<lparr>kc_full_mags := remove1 full (kc_full_mags c)\<rparr>) s1;
                 s3 = (case p of None \<Rightarrow> s2 | Some q \<Rightarrow> upd_cache ca (\<lambda>c. c\<lparr>kc_empty_mags := q # kc_empty_mags c\<rparr>) s2) in
             Inr (Inr (sl_release ca (set_cc ca (Some full) l s3))))
        | [] \<Rightarrow> rbind (slab_alloc_locked ca s1) (\<lambda>(obj, s2). Inr (Inl (obj, sl_release ca s2)))))"

text \<open>The loop may run for ever on a broken depot: \<open>None\<close>.\<close>

partial_function (option) alloc_loop :: "uintptr \<Rightarrow> 'a slabs_scheme \<Rightarrow> (uintptr option \<times> 'a slabs_scheme) res option" where
  "alloc_loop ca s =
     (case alloc_turn ca s of Inl e \<Rightarrow> Some (Inl e)
      | Inr (Inl r) \<Rightarrow> Some (Inr r)
      | Inr (Inr s') \<Rightarrow> alloc_loop ca s')"

definition kmem_cache_alloc :: "uintptr \<Rightarrow> 'a slabs_scheme \<Rightarrow> (uintptr option \<times> 'a slabs_scheme) res option" where
  "kmem_cache_alloc ca s = (if \<not> kc_use_mag (sl_cache s ca) then Some (cache_alloc_plain ca s) else alloc_loop ca s)"

definition free_turn :: "uintptr \<Rightarrow> uintptr \<Rightarrow> 'a slabs_scheme \<Rightarrow> ('a slabs_scheme + 'a slabs_scheme) res option" where
  "free_turn ca obj s =
     (let l = cc_loaded (my_cc ca s); p = cc_previous (my_cc ca s) in
      if l \<noteq> None \<and> length (sl_mag s (the l)) < MAG_DEPTH then
        Some (Inr (Inl (set_mag (the l) (sl_mag s (the l) @ [obj]) s)))
      else if p \<noteq> None \<and> sl_mag s (the p) = [] then Some (Inr (Inr (set_cc ca p l s)))
      else
        (let install = (\<lambda>em s. Inr (Inr (sl_release ca (set_cc ca (Some em) l
               (case p of None \<Rightarrow> s | Some q \<Rightarrow> upd_cache ca (\<lambda>c. c\<lparr>kc_full_mags := q # kc_full_mags c\<rparr>) s))))) in
         case sl_acquire ca s of Inl e \<Rightarrow> Some (Inl e)
         | Inr s1 \<Rightarrow>
             (case kc_empty_mags (sl_cache s1 ca) of
                em # _ \<Rightarrow> Some (install em (upd_cache ca (\<lambda>c. c\<lparr>kc_empty_mags := remove1 em (kc_empty_mags c)\<rparr>) s1))
              | [] \<Rightarrow>
                  map_option (\<lambda>r. rbind r (\<lambda>(m, s2).
                    case m of None \<Rightarrow> rbind (slab_free_locked ca obj s2) (\<lambda>s3. Inr (Inl (sl_release ca s3)))
                    | Some em \<Rightarrow> install em (set_mag em [] s2)))
                    (kmem_cache_alloc (sl_magazine_cache s1) s1))))"

partial_function (option) free_loop :: "uintptr \<Rightarrow> uintptr \<Rightarrow> 'a slabs_scheme \<Rightarrow> 'a slabs_scheme res option" where
  "free_loop ca obj s =
     (case free_turn ca obj s of None \<Rightarrow> None | Some (Inl e) \<Rightarrow> Some (Inl e)
      | Some (Inr (Inl s')) \<Rightarrow> Some (Inr s')
      | Some (Inr (Inr s')) \<Rightarrow> free_loop ca obj s')"

definition kmem_cache_free :: "uintptr \<Rightarrow> uintptr \<Rightarrow> 'a slabs_scheme \<Rightarrow> 'a slabs_scheme res option" where
  "kmem_cache_free ca obj s =
     (if \<not> kc_use_mag (sl_cache s ca) then Some (cache_free_plain ca obj s) else free_loop ca obj s)"

definition kmem_free :: "uintptr \<Rightarrow> 'a slabs_scheme \<Rightarrow> 'a slabs_scheme res option" where
  "kmem_free obj s = kmem_cache_free (sh_cache (sl_slab s (PGROUNDDW obj))) obj s"

section \<open>Creating and destroying caches\<close>

definition kmem_cache_create :: "uint64 \<Rightarrow> uint64 \<Rightarrow> bool \<Rightarrow> 'a slabs_scheme \<Rightarrow> (uintptr option \<times> 'a slabs_scheme) res option" where
  "kmem_cache_create sz align ctor s =
     (if sz = 0 then Some (Inr (None, s))
      else case kmem_cache_alloc (sl_cache_cache s) s of None \<Rightarrow> None | Some (Inl e) \<Rightarrow> Some (Inl e)
        | Some (Inr (None, s1)) \<Rightarrow> Some (Inr (None, s1))
        | Some (Inr (Some c, s1)) \<Rightarrow>
            (let s2 = upd_cache c (\<lambda>_. cache_setup sz align ctor True) s1 in
             if kc_slots (sl_cache s2 c) = 0 then
               map_option (\<lambda>r. rbind r (\<lambda>s3. Inr (None, s3))) (kmem_cache_free (sl_cache_cache s2) c s2)
             else Some (rbind (sl_acquire (sl_listlock s2) s2) (\<lambda>s3.
               Inr (Some c, sl_release (sl_listlock s2) (s3\<lparr>sl_caches := c # sl_caches s3\<rparr>))))))"

definition drain_cpu :: "uintptr \<Rightarrow> nat \<Rightarrow> 'a slabs_scheme \<Rightarrow> 'a slabs_scheme res" where
  "drain_cpu ca i s =
     (let set_cpu = (\<lambda>f s. upd_cache ca (\<lambda>c. c\<lparr>kc_cpu := (kc_cpu c)(i := f (kc_cpu c i))\<rparr>) s) in
      rbind (case cc_loaded (kc_cpu (sl_cache s ca) i) of None \<Rightarrow> Inr s
             | Some m \<Rightarrow> rbind (drain_magazine ca m s) (\<lambda>s1. Inr (set_cpu (\<lambda>cc. cc\<lparr>cc_loaded := None\<rparr>) s1))) (\<lambda>s2.
      case cc_previous (kc_cpu (sl_cache s2 ca) i) of None \<Rightarrow> Inr s2
      | Some m \<Rightarrow> rbind (drain_magazine ca m s2) (\<lambda>s3. Inr (set_cpu (\<lambda>cc. cc\<lparr>cc_previous := None\<rparr>) s3))))"

definition kmem_cache_destroy :: "uintptr \<Rightarrow> 'a slabs_scheme \<Rightarrow> 'a slabs_scheme res option" where
  "kmem_cache_destroy ca s =
     (let r = rbind (sl_acquire (sl_listlock s) s) (\<lambda>s1.
        rbind (sl_acquire ca (sl_release (sl_listlock s) (s1\<lparr>sl_caches := remove1 ca (sl_caches s1)\<rparr>))) (\<lambda>s2.
        rbind (seq_res (drain_cpu ca) [0..<NCPU_MAX] s2) (\<lambda>s3.
        rbind (seq_res (take_full_mags ca) (kc_full_mags (sl_cache s3 ca)) s3) (\<lambda>s4.
        rbind (seq_res (take_empty_mags ca) (kc_empty_mags (sl_cache s4 ca)) s4) (\<lambda>s5.
        kassert (kc_partial (sl_cache s5 ca) = [] \<and> kc_full (sl_cache s5 ca) = [])
          ''kmem_cache_destroy: cache still has live objects''
          (rbind (seq_res (drop_slab ca) (kc_empty (sl_cache s5 ca)) s5) (\<lambda>s6. Inr (sl_release ca s6)))))))) in
      case r of Inl e \<Rightarrow> Some (Inl e) | Inr s' \<Rightarrow> kmem_cache_free (sl_cache_cache s') ca s')"

end
