(* ===== verification/Kstack.thy ===== *)
theory Kstack
  imports Slab
begin

text \<open>
  Kernel stacks (\<^verbatim>\<open>arch/pmap.c\<close>): the slot map of the kernel-stack window, the mapping of a slot's pages
  and its removal. The window's L2 table is static; its address is a field. Each operation runs under
  \<open>kstack_lock\<close> and is one step; the translations dropped by \<open>tlbi_vaae1is_range\<close> have no state here.
\<close>

section \<open>Operations\<close>

record kstacks = slabs +
  l2_kstack :: uintptr
  kstack_slotmap :: bitstr

definition L2X :: "uintptr \<Rightarrow> nat" where
  "L2X va = unat (drop_bit L2_SHIFT va AND of_nat (TABLE_ENTRIES - 1))"

definition L3X :: "uintptr \<Rightarrow> nat" where
  "L3X va = unat (drop_bit L3_SHIFT va AND of_nat (TABLE_ENTRIES - 1))"

type_synonym 'a ks_reclaim = "'a kstacks_scheme \<Rightarrow> (int \<times> 'a kstacks_scheme) res"

definition kstack_walk :: "'a ks_reclaim \<Rightarrow> uint64 \<Rightarrow> bool \<Rightarrow> 'a kstacks_scheme
     \<Rightarrow> (ptep option \<times> 'a kstacks_scheme) res" where
  "kstack_walk rc va alloc s =
     (let l2p = (l2_kstack s, L2X va);
          leaf = (\<lambda>s. Inr (Some (pte_child (rd l2p s), L3X va), s)) in
      if \<not> pte_valid (rd l2p s) then
        if \<not> alloc then Inr (None, s)
        else rbind (ptalloc rc s) (\<lambda>(l3, s1). case l3 of None \<Rightarrow> Inr (None, s1)
          | Some t \<Rightarrow> leaf (wr l2p (KVA_TO_PA t OR PTE_VALID OR PTE_TABLE) s1))
      else leaf s)"

definition kstack_base_va :: "int \<Rightarrow> uint64" where
  "kstack_base_va idx = KSTACK_WINDOW + of_int idx * of_nat KSTACK_SLOT_PAGES * PGSIZE
     + of_nat KSTACK_GUARD_PAGES * PGSIZE"

text \<open>Unwinding a partial allocation: \<open>kstack_walk\<close> cannot return NULL there, or the dereference faults.\<close>

definition kstack_unmap1 :: "'a ks_reclaim \<Rightarrow> uint64 \<Rightarrow> nat \<Rightarrow> 'a kstacks_scheme \<Rightarrow> 'a kstacks_scheme res" where
  "kstack_unmap1 rc base_va j s =
     rbind (kstack_walk rc (base_va + of_nat j * PGSIZE) False s) (\<lambda>(pte, s1).
       case pte of None \<Rightarrow> Inl Fault
       | Some p \<Rightarrow> rbind (kpage_free (pte_child (rd p s1)) s1) (\<lambda>s2. Inr (wr p 0 s2)))"

function kstack_map :: "'a ks_reclaim \<Rightarrow> uint64 \<Rightarrow> nat \<Rightarrow> 'a kstacks_scheme \<Rightarrow> (bool \<times> 'a kstacks_scheme) res" where
  "kstack_map rc base_va i s =
     (if i < KSTACK_PAGES then
        rbind (kstack_walk rc (base_va + of_nat i * PGSIZE) True s) (\<lambda>(pte, s1).
          rbind (if pte \<noteq> None then kpage_alloc rc s1 else Inr (None, s1)) (\<lambda>(mem, s2).
            case (pte, mem) of
              (Some p, Some m) \<Rightarrow> kstack_map rc base_va (Suc i) (wr p (KVA_TO_PA m OR PAGE_KERNEL) s2)
            | _ \<Rightarrow>
                rbind (case mem of Some m \<Rightarrow> kpage_free m s2 | None \<Rightarrow> Inr s2) (\<lambda>s3.
                  rbind (seq_res (kstack_unmap1 rc base_va) [0..<i] s3) (\<lambda>s4. Inr (False, s4)))))
      else Inr (True, s))"
  by pat_completeness auto
termination by (relation "measure (\<lambda>(rc, base_va, i, s). KSTACK_PAGES - i)") auto

declare kstack_map.simps [simp del]

definition kstack_alloc :: "'a ks_reclaim \<Rightarrow> int \<Rightarrow> 'a kstacks_scheme \<Rightarrow> (uint64 \<times> 'a kstacks_scheme) res" where
  "kstack_alloc rc idx s =
     kassert (idx \<ge> 0 \<and> of_int (idx + 1) * of_nat KSTACK_SLOT_PAGES * PGSIZE \<le> KSTACK_WINDOW_SIZE)
       ''kstack_alloc: slot %d outside the kstack window''
       (rbind (kstack_map rc (kstack_base_va idx) 0 s) (\<lambda>(ok, s').
          Inr (if ok then KSTACK_WINDOW + of_int (idx + 1) * of_nat KSTACK_SLOT_PAGES * PGSIZE else 0, s')))"

definition kstack_free1 :: "'a ks_reclaim \<Rightarrow> uint64 \<Rightarrow> nat \<Rightarrow> 'a kstacks_scheme \<Rightarrow> 'a kstacks_scheme res" where
  "kstack_free1 rc base_va i s =
     rbind (kstack_walk rc (base_va + of_nat i * PGSIZE) False s) (\<lambda>(pte, s1).
       case pte of None \<Rightarrow> Inr s1
       | Some p \<Rightarrow> if pte_valid (rd p s1) then rbind (kpage_free (pte_child (rd p s1)) s1) (\<lambda>s2. Inr (wr p 0 s2))
           else Inr s1)"

definition kstack_free :: "'a ks_reclaim \<Rightarrow> int \<Rightarrow> 'a kstacks_scheme \<Rightarrow> 'a kstacks_scheme res" where
  "kstack_free rc idx s = seq_res (kstack_free1 rc (kstack_base_va idx)) [0..<KSTACK_PAGES] s"

definition kstack_slot_alloc :: "'a kstacks_scheme \<Rightarrow> int \<times> 'a kstacks_scheme" where
  "kstack_slot_alloc s =
     (let slot = bit_ffc (kstack_slotmap s) KSTACK_NSLOTS in
      (slot, if slot \<ge> 0 then s\<lparr>kstack_slotmap := bit_set (kstack_slotmap s) (nat slot)\<rparr> else s))"

definition kstack_slot_free :: "int \<Rightarrow> 'a kstacks_scheme \<Rightarrow> 'a kstacks_scheme" where
  "kstack_slot_free slot s = s\<lparr>kstack_slotmap := bit_clear (kstack_slotmap s) (nat slot)\<rparr>"

section \<open>Slots\<close>

lemma unat_window: "unat KSTACK_WINDOW = 0xFFFF007FC0000000"
  by (simp add: kdefs)

lemma slot_offset:
  assumes "n \<le> 32768 * 32768" shows "unat (KSTACK_WINDOW + of_nat n) = 0xFFFF007FC0000000 + n"
proof -
  have "unat (of_nat n :: uint64) = n" using assms by (subst unat_of_nat) simp
  then show ?thesis using assms by (subst unat_add_no_wrap) (simp_all add: unat_window)
qed

lemma kstack_base_unat:
  assumes "i < 32768"
  shows "unat (kstack_base_va (int i)) = 0xFFFF007FC0000000 + i * 32768 + 16384"
proof -
  have "kstack_base_va (int i) = KSTACK_WINDOW + of_nat (i * 32768 + 16384)"
    by (simp add: kstack_base_va_def KSTACK_SLOT_PAGES_def KSTACK_GUARD_PAGES_def KSTACK_PAGES_def PGSIZE_def)
  then show ?thesis using slot_offset [of "i * 32768 + 16384"] assms by simp
qed

definition kstack_top :: "int \<Rightarrow> uint64" where
  "kstack_top idx = KSTACK_WINDOW + of_int (idx + 1) * of_nat KSTACK_SLOT_PAGES * PGSIZE"

lemma kstack_top_unat:
  assumes "i < 32768"
  shows "unat (kstack_top (int i)) = 0xFFFF007FC0000000 + Suc i * 32768"
proof -
  have "kstack_top (int i) = KSTACK_WINDOW + of_nat (Suc i * 32768)"
    by (simp add: kstack_top_def KSTACK_SLOT_PAGES_def KSTACK_GUARD_PAGES_def KSTACK_PAGES_def PGSIZE_def algebra_simps)
  then show ?thesis using slot_offset [of "Suc i * 32768"] assms by simp
qed

text \<open>The geometry of the kernel-stack window, with no wrap-around: for every slot the window has,
  the stack is four pages that end at the address \<open>kstack_alloc\<close> returns, it lies inside the 1 GB window
  of its own L1 entry, and below it down to the stack of any lower slot there are at least four
  unmapped guard pages; the assertion of \<open>kstack_alloc\<close> refuses every other slot number below
  \<open>2 ^ 31\<close>.\<close>

theorem kstack_geometry:
  assumes "j < KSTACK_NSLOTS"
  shows "unat (kstack_top (int j)) = unat (kstack_base_va (int j)) + KSTACK_PAGES * 4096 \<and>
    unat KSTACK_WINDOW + KSTACK_GUARD_PAGES * 4096 \<le> unat (kstack_base_va (int j)) \<and>
    unat (kstack_top (int j)) \<le> unat KSTACK_WINDOW + unat KSTACK_WINDOW_SIZE \<and>
    (i < j \<longrightarrow> unat (kstack_top (int i)) + KSTACK_GUARD_PAGES * 4096 \<le> unat (kstack_base_va (int j))) \<and>
    (idx < 2 ^ 31 \<longrightarrow> \<not> (0 \<le> idx \<and> idx < int KSTACK_NSLOTS) \<longrightarrow>
       kstack_alloc rc idx s = Inl (Panic ''kstack_alloc: slot %d outside the kstack window''))"
proof -
  note c = KSTACK_NSLOTS_eq KSTACK_PAGES_def KSTACK_GUARD_PAGES_def
  have j: "j < 32768" using assms by (simp add: c)
  have ws: "unat KSTACK_WINDOW_SIZE = 32768 * 32768" by (simp add: KSTACK_WINDOW_SIZE_def)
  have "kstack_alloc rc idx s = Inl (Panic ''kstack_alloc: slot %d outside the kstack window'')"
    if a: "idx < 2 ^ 31" "\<not> (0 \<le> idx \<and> idx < int KSTACK_NSLOTS)"
  proof (cases "0 \<le> idx")
    case True
    then obtain n where n: "idx = int n" by (metis nonneg_int_cases)
    then have big: "32768 \<le> n" "n < 2 ^ 31" using a True by (simp_all add: c)
    have "of_int (idx + 1) * of_nat KSTACK_SLOT_PAGES * PGSIZE = (of_nat (Suc n * 32768) :: uint64)"
      by (simp add: n KSTACK_SLOT_PAGES_def KSTACK_GUARD_PAGES_def KSTACK_PAGES_def PGSIZE_def algebra_simps)
    moreover have "unat (of_nat (Suc n * 32768) :: uint64) = Suc n * 32768" using big by (subst unat_of_nat) simp
    ultimately have "\<not> of_int (idx + 1) * of_nat KSTACK_SLOT_PAGES * PGSIZE \<le> KSTACK_WINDOW_SIZE"
      using big(1) ws by (simp add: word_le_nat_alt)
    then show ?thesis by (simp add: kstack_alloc_def kassert_def)
  qed (simp add: kstack_alloc_def kassert_def)
  then show ?thesis
    using j ws kstack_base_unat [OF j] kstack_top_unat [OF j] kstack_top_unat [of i]
    by (simp add: KSTACK_PAGES_def KSTACK_GUARD_PAGES_def unat_window)
qed

definition no_stacks :: kstacks where
  "no_stacks = \<lparr>km_phys = \<lparr>hwregions = [], exregions = [], vm_phys_segs = []\<rparr>, km_boot = 0, km_array = 0, km_npages = 0,
     km_pages = [], km_freelist = None, vm_page = (\<lambda>_ _. 0), sl_slab = (\<lambda>_. \<lparr>sh_cache = 0, sh_inuse = 0, sh_used = []\<rparr>),
     sl_cache = (\<lambda>_. cache_setup 144 0 False False), sl_mag = (\<lambda>_. []), sl_caches = [], sl_cache_cache = 0, sl_magazine_cache = 1,
     sl_listlock = 2, sl_held = {}, sl_busy = {}, sl_cpu = 0, sl_built = {}, l2_kstack = 0, kstack_slotmap = bit_decl KSTACK_NSLOTS\<rparr>"

theorem kstack_geometry_witness:
  "unat (kstack_top (int 5)) + KSTACK_GUARD_PAGES * 4096 \<le> unat (kstack_base_va (int 6))"
  using kstack_geometry [of 6 5 40000 "\<lambda>s. Inr (0, s)" no_stacks] by (simp add: KSTACK_NSLOTS_eq)

definition slots_used :: "'a kstacks_scheme \<Rightarrow> nat set" where
  "slots_used s = bs.used KSTACK_NSLOTS (kstack_slotmap s)"

text \<open>Slot numbers: \<open>kstack_slot_alloc\<close> returns a slot that was free and marks just that one, and it
  returns -1, changing nothing, only when all 32768 slots are taken; freeing a slot makes exactly that
  slot available again.\<close>

theorem kstack_slots_correct:
  assumes "bitstr_ok KSTACK_NSLOTS (kstack_slotmap s)" "kstack_slot_alloc s = (slot, s')"
  shows "bitstr_ok KSTACK_NSLOTS (kstack_slotmap s') \<and>
    (if slot \<ge> 0 then slot < int KSTACK_NSLOTS \<and> nat slot \<notin> slots_used s \<and>
        slots_used s' = insert (nat slot) (slots_used s) \<and> slots_used (kstack_slot_free slot s') = slots_used s
     else slots_used s = {..<KSTACK_NSLOTS} \<and> s' = s)"
proof -
  have r: "bs.reserve KSTACK_NSLOTS (kstack_slotmap s) = (slot, kstack_slotmap s')"
    using assms(2) by (auto simp: kstack_slot_alloc_def bs.reserve_def Let_def split: if_splits)
  show ?thesis
  proof (cases "slot \<ge> 0")
    case True
    then show ?thesis
      using bs.reserve_fresh [OF assms(1) r True] bs.release_reserve [OF assms(1) r True]
      by (auto simp: slots_used_def kstack_slot_free_def)
  next
    case False
    then have "s' = s" using assms(2) by (auto simp: kstack_slot_alloc_def Let_def)
    then show ?thesis using False bs.reserve_full [OF assms(1) r] assms(1) by (simp add: slots_used_def)
  qed
qed

theorem kstack_slots_correct_witness:
  "let (slot, s') = kstack_slot_alloc no_stacks in bitstr_ok KSTACK_NSLOTS (kstack_slotmap s')"
  using kstack_slots_correct [of no_stacks] by (simp add: no_stacks_def split: prod.split)

end
