(* ===== verification/SlabProofs.thy ===== *)
theory SlabProofs
  imports Slab PmapProofs
begin

text \<open>
  The slab layer as an object allocator: the invariant of one cache, the set of objects it has handed
  out, and what allocation and freeing do to that set.
\<close>

section \<open>Geometry\<close>

definition geom_ok :: "kmem_cache \<Rightarrow> bool" where
  "geom_ok c \<longleftrightarrow> 0 < unat (kc_slots c) \<and> unat (kc_slots c) \<le> 256 \<and> 0 < unat (kc_objsize c) \<and>
     unat (kc_offset c) + unat (kc_slots c) * unat (kc_objsize c) \<le> 4096"

definition slab_pages :: "kmem_cache \<Rightarrow> uintptr list" where
  "slab_pages c = kc_partial c @ kc_full c @ kc_empty c"

lemma slab_obj_unat:
  assumes "geom_ok c" "page_aligned p" "i < unat (kc_slots c)"
  shows "unat (slab_obj c p i) = unat p + (unat (kc_offset c) + i * unat (kc_objsize c))"
    "unat (kc_offset c) + i * unat (kc_objsize c) < 4096"
proof -
  let ?o = "unat (kc_offset c)" and ?z = "unat (kc_objsize c)"
  have "i * ?z + ?z \<le> unat (kc_slots c) * ?z"
    using assms(3) by (metis Suc_leI add.commute mult_Suc mult_le_mono1)
  then show lt: "?o + i * ?z < 4096" using assms(1) unfolding geom_ok_def by linarith
  have iz: "unat (of_nat i * kc_objsize c :: uint64) = i * ?z"
  proof -
    have "unat (of_nat i :: uint64) = i" using assms(1,3) by (intro unat_of_nat_small) (simp add: geom_ok_def)
    then show ?thesis using lt by (subst unat_word_ariths) simp
  qed
  have uo: "unat (ucast (kc_offset c) :: uint64) = ?o" 
    using unat32_less [of "kc_offset c"] by (simp add: unsigned_ucast_eq take_bit_nat_eq_self)
  have al: "unat p + 4096 \<le> 2 ^ 64"
  proof -
    obtain d where d: "unat p = 4096 * d" using assms(2) by (auto simp: page_aligned_def elim!: dvdE)
    then have "4096 * d < 4096 * 2 ^ 52" using unat64_less [of p] by simp
    then show ?thesis using d by simp
  qed
  have "unat (p + ucast (kc_offset c)) = unat p + ?o" using uo lt al by (subst unat_add64) simp_all
  then show "unat (slab_obj c p i) = unat p + (?o + i * ?z)"
    unfolding slab_obj_def using iz lt al by (subst unat_add64) simp_all
qed

lemma slab_obj_page:
  assumes "geom_ok c" "page_aligned p" "i < unat (kc_slots c)"
  shows "PGROUNDDW (slab_obj c p i) = p"
proof -
  obtain d where d: "unat p = 4096 * d" using assms(2) by (auto simp: page_aligned_def elim!: dvdE)
  have "unat (PGROUNDDW (slab_obj c p i)) = unat p"
    unfolding unat_PGROUNDDW slab_obj_unat(1) [OF assms] d using slab_obj_unat(2) [OF assms]
    by (simp only: div_mult_self4 add.commute) simp
  then show ?thesis by (simp add: word_unat_eq_iff)
qed

lemma slab_slot_obj:
  assumes "geom_ok c" "page_aligned p" "i < unat (kc_slots c)"
  shows "slab_slot c p (slab_obj c p i) = int i"
proof -
  have "slab_obj c p i - (p + ucast (kc_offset c)) = of_nat i * kc_objsize c" by (simp add: slab_obj_def)
  moreover have "unat (of_nat i * kc_objsize c div kc_objsize c :: uint64) = i"
  proof -
    have "unat (of_nat i :: uint64) = i" using assms(1,3) by (intro unat_of_nat_small) (simp add: geom_ok_def)
    then have "unat (of_nat i * kc_objsize c :: uint64) = i * unat (kc_objsize c)"
      using slab_obj_unat(2) [OF assms] by (subst unat_word_ariths) simp
    then show ?thesis using assms(1) by (simp add: unat_div geom_ok_def)
  qed
  moreover have "sint (ucast w :: 32 word) = int i" if "unat (w :: uint64) = i" for w
  proof -
    have i: "i < 256" using assms(1,3) by (simp add: geom_ok_def)
    have "unat (ucast w :: 32 word) = i" using that i by (simp add: unsigned_ucast_eq take_bit_nat_eq_self)
    then have "(ucast w :: 32 word) = of_nat i" by (metis of_nat_unat ucast_id)
    then show ?thesis using i by (simp add: signed_of_nat signed_take_bit_int_eq_self)
  qed
  ultimately show ?thesis by (simp add: slab_slot_def)
qed

lemma slab_obj_inj:
  assumes "geom_ok c" "page_aligned p" "i < unat (kc_slots c)" "page_aligned q" "j < unat (kc_slots c)"
    "slab_obj c p i = slab_obj c q j"
  shows "p = q \<and> i = j"
  using slab_obj_page [OF assms(1-3)] slab_obj_page [OF assms(1,4,5)]
    slab_slot_obj [OF assms(1-3)] slab_slot_obj [OF assms(1,4,5)] assms(6) by simp

lemma page_state_cong:
  assumes "km_pages s' = km_pages s" "km_phys s' = km_phys s"
  shows "page_state s' = page_state s"
proof -
  have "flag s' = flag s" using assms(1) by (auto simp: flag_def fun_eq_iff)
  then show ?thesis using assms(2) by (intro ext) (simp add: page_state_def pa_to_page_def)
qed

section \<open>The invariant of a cache\<close>

definition taken_slots :: "kmem_cache \<Rightarrow> slab \<Rightarrow> nat set" where
  "taken_slots c h = {i. i < unat (kc_slots c) \<and> bit_test (sh_used h) i}"

definition slab_ok :: "'a slabs_scheme \<Rightarrow> uintptr \<Rightarrow> uintptr \<Rightarrow> bool" where
  "slab_ok s ca p \<longleftrightarrow> page_aligned p \<and> page_state s p = Some PG_SLAB \<and> sh_cache (sl_slab s p) = ca \<and>
     bitstr_ok SLAB_MAX_OBJS (sh_used (sl_slab s p)) \<and>
     sh_inuse (sl_slab s p) = int (card (taken_slots (sl_cache s ca) (sl_slab s p)))"

definition cache_ok :: "'a slabs_scheme \<Rightarrow> uintptr \<Rightarrow> bool" where
  "cache_ok s ca \<longleftrightarrow> (let c = sl_cache s ca in geom_ok c \<and> distinct (slab_pages c) \<and>
     (\<forall>p \<in> set (slab_pages c). slab_ok s ca p) \<and>
     (\<forall>p \<in> set (kc_partial c). 0 < sh_inuse (sl_slab s p) \<and> sh_inuse (sl_slab s p) < int (unat (kc_slots c))) \<and>
     (\<forall>p \<in> set (kc_full c). sh_inuse (sl_slab s p) = int (unat (kc_slots c))) \<and>
     (\<forall>p \<in> set (kc_empty c). sh_inuse (sl_slab s p) = 0))"

definition objects :: "'a slabs_scheme \<Rightarrow> uintptr \<Rightarrow> uintptr set" where
  "objects s ca = (\<Union>p \<in> set (slab_pages (sl_cache s ca)). slab_obj (sl_cache s ca) p ` taken_slots (sl_cache s ca) (sl_slab s p))"

text \<open>What the slab layer leaves alone: the memory below, the other caches and their slabs.\<close>

definition slab_frame :: "uintptr \<Rightarrow> 'a slabs_scheme \<Rightarrow> 'a slabs_scheme \<Rightarrow> bool" where
  "slab_frame ca s s' \<longleftrightarrow> (\<forall>x. x \<noteq> ca \<longrightarrow> sl_cache s' x = sl_cache s x) \<and>
     (\<forall>p. p \<notin> set (slab_pages (sl_cache s' ca)) \<longrightarrow> sl_slab s' p = sl_slab s p) \<and>
     sl_mag s' = sl_mag s \<and> sl_caches s' = sl_caches s \<and> sl_held s' = sl_held s \<and> sl_cpu s' = sl_cpu s \<and>
     sl_cache_cache s' = sl_cache_cache s \<and> sl_magazine_cache s' = sl_magazine_cache s \<and> sl_listlock s' = sl_listlock s \<and>
     kc_cpu (sl_cache s' ca) = kc_cpu (sl_cache s ca) \<and> kc_full_mags (sl_cache s' ca) = kc_full_mags (sl_cache s ca) \<and>
     kc_empty_mags (sl_cache s' ca) = kc_empty_mags (sl_cache s ca) \<and> kc_use_mag (sl_cache s' ca) = kc_use_mag (sl_cache s ca) \<and>
     used_pages s' = used_pages s \<and> vm_page s' = vm_page s"

lemma taken_slots_finite [simp]: "finite (taken_slots c h)"
  by (simp add: taken_slots_def)

lemma taken_slots_card: "card (taken_slots c h) \<le> unat (kc_slots c)"
  using card_mono [of "{..<unat (kc_slots c)}" "taken_slots c h"] by (simp add: taken_slots_def subset_eq)

lemma taken_slots_full: "card (taken_slots c h) = unat (kc_slots c) \<longleftrightarrow> taken_slots c h = {..<unat (kc_slots c)}"
proof
  assume "card (taken_slots c h) = unat (kc_slots c)"
  then show "taken_slots c h = {..<unat (kc_slots c)}"
    by (intro card_subset_eq) (auto simp: taken_slots_def)
qed simp

lemma of_int_slots: "0 \<le> n \<Longrightarrow> n \<le> 256 \<Longrightarrow> (of_int n :: uint32) = kc_slots c \<longleftrightarrow> n = int (unat (kc_slots c))"
proof -
  assume "0 \<le> n" "n \<le> 256"
  then obtain m where m: "n = int m" "m \<le> 256" by (metis nonneg_int_cases of_nat_le_iff of_nat_numeral)
  then have "unat (of_nat m :: uint32) = m" by (intro unat_of_nat_small) simp
  then have "(of_nat m :: uint32) = kc_slots c \<longleftrightarrow> m = unat (kc_slots c)" by (metis of_nat_unat ucast_id)
  then show ?thesis unfolding m(1) of_int_of_nat_eq of_nat_eq_iff .
qed

lemma objects_iff:
  assumes "cache_ok s ca" "page_aligned p" "i < unat (kc_slots (sl_cache s ca))"
  shows "slab_obj (sl_cache s ca) p i \<in> objects s ca \<longleftrightarrow>
    p \<in> set (slab_pages (sl_cache s ca)) \<and> i \<in> taken_slots (sl_cache s ca) (sl_slab s p)"
proof
  let ?c = "sl_cache s ca"
  have g: "geom_ok ?c" and al: "\<And>q. q \<in> set (slab_pages ?c) \<Longrightarrow> page_aligned q"
    using assms(1) by (auto simp: cache_ok_def Let_def slab_ok_def)
  assume "slab_obj ?c p i \<in> objects s ca"
  then obtain q j where q: "q \<in> set (slab_pages ?c)" "j \<in> taken_slots ?c (sl_slab s q)" "slab_obj ?c p i = slab_obj ?c q j"
    by (auto simp: objects_def)
  then show "p \<in> set (slab_pages ?c) \<and> i \<in> taken_slots ?c (sl_slab s p)"
    using slab_obj_inj [OF g assms(2,3) al [OF q(1)], of j] by (auto simp: taken_slots_def)
qed (auto simp: objects_def)

section \<open>Moving slabs between the lists\<close>

lemma unlink_sets:
  assumes "distinct (slab_pages c)"
  shows "set (kc_partial (unlink_slab p c)) = set (kc_partial c) - {p}" "set (kc_full (unlink_slab p c)) = set (kc_full c) - {p}"
    "set (kc_empty (unlink_slab p c)) = set (kc_empty c) - {p}" "distinct (slab_pages (unlink_slab p c))"
    "set (slab_pages (unlink_slab p c)) = set (slab_pages c) - {p}"
proof -
  have d: "distinct (kc_partial c)" "distinct (kc_full c)" "distinct (kc_empty c)"
    "set (kc_partial c) \<inter> set (kc_full c) = {}" "set (kc_partial c) \<inter> set (kc_empty c) = {}" "set (kc_full c) \<inter> set (kc_empty c) = {}"
    using assms by (auto simp: slab_pages_def)
  show a: "set (kc_partial (unlink_slab p c)) = set (kc_partial c) - {p}" "set (kc_full (unlink_slab p c)) = set (kc_full c) - {p}"
    "set (kc_empty (unlink_slab p c)) = set (kc_empty c) - {p}"
    using d by (simp_all add: unlink_slab_def)
  have "distinct (kc_partial (unlink_slab p c))" "distinct (kc_full (unlink_slab p c))" "distinct (kc_empty (unlink_slab p c))"
    using d by (simp_all add: unlink_slab_def)
  then show "distinct (slab_pages (unlink_slab p c))" using d a by (simp add: slab_pages_def) blast
  show "set (slab_pages (unlink_slab p c)) = set (slab_pages c) - {p}" using a by (auto simp: slab_pages_def)
qed

lemma unlink_parts [simp]:
  "kc_slots (unlink_slab p c) = kc_slots c" "kc_objsize (unlink_slab p c) = kc_objsize c" "kc_offset (unlink_slab p c) = kc_offset c"
  "kc_cpu (unlink_slab p c) = kc_cpu c" "kc_full_mags (unlink_slab p c) = kc_full_mags c"
  "kc_empty_mags (unlink_slab p c) = kc_empty_mags c" "kc_use_mag (unlink_slab p c) = kc_use_mag c"
  by (simp_all add: unlink_slab_def)

lemma upd_simps [simp]:
  "sl_cache (upd_cache ca f s) = (sl_cache s)(ca := f (sl_cache s ca))" "sl_slab (upd_cache ca f s) = sl_slab s"
  "sl_slab (upd_slab p g s) = (sl_slab s)(p := g (sl_slab s p))" "sl_cache (upd_slab p g s) = sl_cache s"
  "page_state (upd_cache ca f s) = page_state s" "page_state (upd_slab p g s) = page_state s"
  "sl_mag (upd_cache ca f s) = sl_mag s" "sl_mag (upd_slab p g s) = sl_mag s"
  "sl_caches (upd_cache ca f s) = sl_caches s" "sl_caches (upd_slab p g s) = sl_caches s"
  "sl_held (upd_cache ca f s) = sl_held s" "sl_held (upd_slab p g s) = sl_held s"
  "sl_cpu (upd_cache ca f s) = sl_cpu s" "sl_cpu (upd_slab p g s) = sl_cpu s"
  "sl_cache_cache (upd_cache ca f s) = sl_cache_cache s" "sl_cache_cache (upd_slab p g s) = sl_cache_cache s"
  "sl_magazine_cache (upd_cache ca f s) = sl_magazine_cache s" "sl_magazine_cache (upd_slab p g s) = sl_magazine_cache s"
  "sl_listlock (upd_cache ca f s) = sl_listlock s" "sl_listlock (upd_slab p g s) = sl_listlock s"
  "used_pages (upd_cache ca f s) = used_pages s" "used_pages (upd_slab p g s) = used_pages s"
  "vm_page (upd_cache ca f s) = vm_page s" "vm_page (upd_slab p g s) = vm_page s"
proof -
  show "page_state (upd_cache ca f s) = page_state s" "page_state (upd_slab p g s) = page_state s"
    by (rule page_state_cong, simp_all add: upd_cache_def upd_slab_def)+
  then show "used_pages (upd_cache ca f s) = used_pages s" "used_pages (upd_slab p g s) = used_pages s"
    by (simp_all add: used_pages_def)
qed (simp_all add: upd_cache_def upd_slab_def)

section \<open>One slab changes\<close>

definition same_geom :: "kmem_cache \<Rightarrow> kmem_cache \<Rightarrow> bool" where
  "same_geom c c' \<longleftrightarrow> kc_slots c' = kc_slots c \<and> kc_objsize c' = kc_objsize c \<and> kc_offset c' = kc_offset c"

lemma same_geom_simps:
  assumes "same_geom c c'"
  shows "slab_obj c' = slab_obj c" "taken_slots c' = taken_slots c" "geom_ok c' = geom_ok c" "kc_slots c' = kc_slots c"
  using assms by (simp_all add: same_geom_def slab_obj_def taken_slots_def geom_ok_def fun_eq_iff)

text \<open>The header of slab \<open>p\<close> becomes \<open>h\<close> and the lists become those of \<open>c'\<close>, where only \<open>p\<close> moved.\<close>

lemma cache_ok_retouch:
  assumes ok: "cache_ok s ca" and c': "sl_cache s' ca = c'" and sl: "sl_slab s' = (sl_slab s)(p := h)"
    and st: "\<And>q. q \<noteq> p \<Longrightarrow> q \<in> set (slab_pages (sl_cache s ca)) \<Longrightarrow> page_state s' q = page_state s q"
    and geo: "same_geom (sl_cache s ca) c'" and dist: "distinct (slab_pages c')"
    and lists: "set (kc_partial c') - {p} = set (kc_partial (sl_cache s ca)) - {p}"
      "set (kc_full c') - {p} = set (kc_full (sl_cache s ca)) - {p}" "set (kc_empty c') - {p} = set (kc_empty (sl_cache s ca)) - {p}"
    and pos: "p \<in> set (kc_partial c') \<Longrightarrow> 0 < sh_inuse h \<and> sh_inuse h < int (unat (kc_slots c'))"
      "p \<in> set (kc_full c') \<Longrightarrow> sh_inuse h = int (unat (kc_slots c'))" "p \<in> set (kc_empty c') \<Longrightarrow> sh_inuse h = 0"
    and okp: "p \<in> set (slab_pages c') \<Longrightarrow> slab_ok s' ca p"
  shows "cache_ok s' ca" "objects s' ca = (\<Union>q \<in> set (slab_pages (sl_cache s ca)) - {p}.
      slab_obj (sl_cache s ca) q ` taken_slots (sl_cache s ca) (sl_slab s q)) \<union>
    (if p \<in> set (slab_pages c') then slab_obj (sl_cache s ca) p ` taken_slots (sl_cache s ca) h else {})"
proof -
  let ?c = "sl_cache s ca"
  note g = same_geom_simps [OF geo]
  have ok0: "geom_ok ?c" "\<And>q. q \<in> set (slab_pages ?c) \<Longrightarrow> slab_ok s ca q"
    "\<And>q. q \<in> set (kc_partial ?c) \<Longrightarrow> 0 < sh_inuse (sl_slab s q) \<and> sh_inuse (sl_slab s q) < int (unat (kc_slots ?c))"
    "\<And>q. q \<in> set (kc_full ?c) \<Longrightarrow> sh_inuse (sl_slab s q) = int (unat (kc_slots ?c))"
    "\<And>q. q \<in> set (kc_empty ?c) \<Longrightarrow> sh_inuse (sl_slab s q) = 0"
    using ok unfolding cache_ok_def Let_def by blast+
  have pg: "set (slab_pages c') - {p} = set (slab_pages ?c) - {p}"
    using lists by (simp add: slab_pages_def Un_Diff)
  have other: "slab_ok s' ca q" if "q \<in> set (slab_pages ?c)" "q \<noteq> p" for q
    using ok0(2) [OF that(1)] st [OF that(2,1)] that(2) by (simp add: slab_ok_def sl c' g)
  have all: "slab_ok s' ca q" if "q \<in> set (slab_pages c')" for q
    using other [of q] okp that pg by (cases "q = p") auto
  have part: "0 < sh_inuse (sl_slab s' q) \<and> sh_inuse (sl_slab s' q) < int (unat (kc_slots c'))"
    if "q \<in> set (kc_partial c')" for q
    using pos(1) ok0(3) [of q] lists(1) that by (cases "q = p") (auto simp: sl g)
  have full: "sh_inuse (sl_slab s' q) = int (unat (kc_slots c'))" if "q \<in> set (kc_full c')" for q
    using pos(2) ok0(4) [of q] lists(2) that by (cases "q = p") (auto simp: sl g)
  have emp: "sh_inuse (sl_slab s' q) = 0" if "q \<in> set (kc_empty c')" for q
    using pos(3) ok0(5) [of q] lists(3) that by (cases "q = p") (auto simp: sl)
  show "cache_ok s' ca" unfolding cache_ok_def Let_def c' using ok0(1) g dist all part full emp by simp
  have "objects s' ca = (\<Union>q \<in> set (slab_pages c'). slab_obj ?c q ` taken_slots ?c (sl_slab s' q))"
    by (simp add: objects_def c' g)
  also have "\<dots> = (\<Union>q \<in> set (slab_pages c') - {p}. slab_obj ?c q ` taken_slots ?c (sl_slab s' q)) \<union>
      (if p \<in> set (slab_pages c') then slab_obj ?c p ` taken_slots ?c h else {})"
    by (auto simp: sl split: if_splits)
  also have "(\<Union>q \<in> set (slab_pages c') - {p}. slab_obj ?c q ` taken_slots ?c (sl_slab s' q)) =
      (\<Union>q \<in> set (slab_pages ?c) - {p}. slab_obj ?c q ` taken_slots ?c (sl_slab s q))"
    unfolding pg by (auto simp: sl)
  finally show "objects s' ca = (\<Union>q \<in> set (slab_pages ?c) - {p}. slab_obj ?c q ` taken_slots ?c (sl_slab s q)) \<union>
    (if p \<in> set (slab_pages c') then slab_obj ?c p ` taken_slots ?c h else {})" .
qed

lemma objects_split:
  assumes "p \<in> set (slab_pages (sl_cache s ca))"
  shows "objects s ca = (\<Union>q \<in> set (slab_pages (sl_cache s ca)) - {p}.
      slab_obj (sl_cache s ca) q ` taken_slots (sl_cache s ca) (sl_slab s q)) \<union>
    slab_obj (sl_cache s ca) p ` taken_slots (sl_cache s ca) (sl_slab s p)"
  using assms by (auto simp: objects_def)

lemma taken_set_bit:
  assumes "bitstr_ok SLAB_MAX_OBJS (sh_used h)" "i < unat (kc_slots c)" "unat (kc_slots c) \<le> 256"
  shows "taken_slots c (h\<lparr>sh_used := bit_set (sh_used h) i, sh_inuse := n\<rparr>) = insert i (taken_slots c h)"
    "taken_slots c (h\<lparr>sh_used := bit_clear (sh_used h) i, sh_inuse := n\<rparr>) = taken_slots c h - {i}"
proof -
  have m: "SLAB_MAX_OBJS = 256" by (simp add: kdefs)
  show "taken_slots c (h\<lparr>sh_used := bit_set (sh_used h) i, sh_inuse := n\<rparr>) = insert i (taken_slots c h)"
    "taken_slots c (h\<lparr>sh_used := bit_clear (sh_used h) i, sh_inuse := n\<rparr>) = taken_slots c h - {i}"
    using assms bit_test_set [of 256 "sh_used h" i] bit_test_clear [of 256 "sh_used h" i]
    by (auto simp: taken_slots_def m)
qed

section \<open>Freeing an object\<close>

definition to_partial :: "uintptr \<Rightarrow> kmem_cache \<Rightarrow> kmem_cache" where
  "to_partial p c = (let c' = unlink_slab p c in c'\<lparr>kc_partial := p # kc_partial c'\<rparr>)"

definition to_full :: "uintptr \<Rightarrow> kmem_cache \<Rightarrow> kmem_cache" where
  "to_full p c = (let c' = unlink_slab p c in c'\<lparr>kc_full := p # kc_full c'\<rparr>)"

definition to_empty :: "uintptr \<Rightarrow> kmem_cache \<Rightarrow> kmem_cache" where
  "to_empty p c = (let c' = unlink_slab p c in c'\<lparr>kc_empty := p # kc_empty c'\<rparr>)"

lemma to_eta:
  "(\<lambda>c. let c' = unlink_slab p c in c'\<lparr>kc_partial := p # kc_partial c'\<rparr>) = to_partial p"
  "(\<lambda>c. let c' = unlink_slab p c in c'\<lparr>kc_full := p # kc_full c'\<rparr>) = to_full p"
  "(\<lambda>c. let c' = unlink_slab p c in c'\<lparr>kc_empty := p # kc_empty c'\<rparr>) = to_empty p"
  by (simp_all add: fun_eq_iff to_partial_def to_full_def to_empty_def)

lemmas to_defs = to_partial_def to_full_def to_empty_def Let_def

lemma to_lists:
  assumes "distinct (slab_pages c)"
  shows "distinct (slab_pages (to_partial p c))" "set (slab_pages (to_partial p c)) = insert p (set (slab_pages c))"
    "distinct (slab_pages (to_full p c))" "set (slab_pages (to_full p c)) = insert p (set (slab_pages c))"
    "distinct (slab_pages (to_empty p c))" "set (slab_pages (to_empty p c)) = insert p (set (slab_pages c))"
    "set (kc_partial (to_partial p c)) = insert p (set (kc_partial c) - {p})" "set (kc_full (to_partial p c)) = set (kc_full c) - {p}"
    "set (kc_empty (to_partial p c)) = set (kc_empty c) - {p}" "set (kc_partial (to_full p c)) = set (kc_partial c) - {p}"
    "set (kc_full (to_full p c)) = insert p (set (kc_full c) - {p})" "set (kc_empty (to_full p c)) = set (kc_empty c) - {p}"
    "set (kc_partial (to_empty p c)) = set (kc_partial c) - {p}" "set (kc_full (to_empty p c)) = set (kc_full c) - {p}"
    "set (kc_empty (to_empty p c)) = insert p (set (kc_empty c) - {p})"
proof -
  note u = unlink_sets [OF assms, of p]
  show "set (kc_partial (to_partial p c)) = insert p (set (kc_partial c) - {p})" "set (kc_full (to_partial p c)) = set (kc_full c) - {p}"
    "set (kc_empty (to_partial p c)) = set (kc_empty c) - {p}" "set (kc_partial (to_full p c)) = set (kc_partial c) - {p}"
    "set (kc_full (to_full p c)) = insert p (set (kc_full c) - {p})" "set (kc_empty (to_full p c)) = set (kc_empty c) - {p}"
    "set (kc_partial (to_empty p c)) = set (kc_partial c) - {p}" "set (kc_full (to_empty p c)) = set (kc_full c) - {p}"
    "set (kc_empty (to_empty p c)) = insert p (set (kc_empty c) - {p})"
    using u(1-3) by (simp_all add: to_defs)
  have d: "distinct (slab_pages (unlink_slab p c))" "p \<notin> set (slab_pages (unlink_slab p c))" using u by simp_all
  then show "distinct (slab_pages (to_partial p c))" "distinct (slab_pages (to_full p c))" "distinct (slab_pages (to_empty p c))"
    by (auto simp: to_defs slab_pages_def)
  show "set (slab_pages (to_partial p c)) = insert p (set (slab_pages c))" "set (slab_pages (to_full p c)) = insert p (set (slab_pages c))"
    "set (slab_pages (to_empty p c)) = insert p (set (slab_pages c))"
    using u(5) by (auto simp: to_defs slab_pages_def)
qed

lemma to_same [simp]:
  "same_geom c (to_partial p c)" "same_geom c (to_full p c)" "same_geom c (to_empty p c)"
  "kc_cpu (to_partial p c) = kc_cpu c" "kc_cpu (to_full p c) = kc_cpu c" "kc_cpu (to_empty p c) = kc_cpu c"
  "kc_full_mags (to_partial p c) = kc_full_mags c" "kc_full_mags (to_full p c) = kc_full_mags c" "kc_full_mags (to_empty p c) = kc_full_mags c"
  "kc_empty_mags (to_partial p c) = kc_empty_mags c" "kc_empty_mags (to_full p c) = kc_empty_mags c" "kc_empty_mags (to_empty p c) = kc_empty_mags c"
  "kc_use_mag (to_partial p c) = kc_use_mag c" "kc_use_mag (to_full p c) = kc_use_mag c" "kc_use_mag (to_empty p c) = kc_use_mag c"
  by (simp_all add: to_defs same_geom_def)

lemma same_geom_refl [simp]: "same_geom c c" and same_geom_trans: "same_geom c d \<Longrightarrow> same_geom d e \<Longrightarrow> same_geom c e"
  by (simp_all add: same_geom_def)

lemma cache_ok_parts:
  assumes "cache_ok s ca"
  shows "geom_ok (sl_cache s ca)" "distinct (slab_pages (sl_cache s ca))"
    "p \<in> set (slab_pages (sl_cache s ca)) \<Longrightarrow> slab_ok s ca p"
    "p \<in> set (kc_partial (sl_cache s ca)) \<Longrightarrow> 0 < sh_inuse (sl_slab s p) \<and> sh_inuse (sl_slab s p) < int (unat (kc_slots (sl_cache s ca)))"
    "p \<in> set (kc_full (sl_cache s ca)) \<Longrightarrow> sh_inuse (sl_slab s p) = int (unat (kc_slots (sl_cache s ca)))"
    "p \<in> set (kc_empty (sl_cache s ca)) \<Longrightarrow> sh_inuse (sl_slab s p) = 0"
  using assms unfolding cache_ok_def Let_def by blast+

lemma geom_ok_slots: "geom_ok c \<Longrightarrow> 0 < uint (kc_slots c)"
  unfolding geom_ok_def unat_eq_nat_uint by linarith

lemma cache_ok_list:
  assumes "cache_ok s ca" "p \<in> set (slab_pages (sl_cache s ca))"
  shows "p \<in> set (kc_full (sl_cache s ca)) \<longleftrightarrow> sh_inuse (sl_slab s p) = int (unat (kc_slots (sl_cache s ca)))"
    "p \<in> set (kc_empty (sl_cache s ca)) \<longleftrightarrow> sh_inuse (sl_slab s p) = 0"
proof -
  let ?P = "set (kc_partial (sl_cache s ca))" and ?F = "set (kc_full (sl_cache s ca))" and ?E = "set (kc_empty (sl_cache s ca))"
  let ?n = "int (unat (kc_slots (sl_cache s ca)))" and ?i = "sh_inuse (sl_slab s p)"
  have pos: "0 < ?n" using cache_ok_parts(1) [OF assms(1)] by (simp only: geom_ok_def of_nat_0_less_iff)
  have or: "p \<in> ?P \<or> p \<in> ?F \<or> p \<in> ?E" using assms(2) by (auto simp: slab_pages_def)
  note pt = cache_ok_parts(4-6) [OF assms(1), of p]
  show "p \<in> ?F \<longleftrightarrow> ?i = ?n" using or pt pos by (metis less_irrefl)
  show "p \<in> ?E \<longleftrightarrow> ?i = 0" using or pt pos by (metis less_irrefl)
qed

lemma slab_free_locked_spec:
  assumes ok: "cache_ok s ca" and obj: "obj \<in> objects s ca"
  shows "\<exists>s'. slab_free_locked ca obj s = Inr s' \<and> cache_ok s' ca \<and> objects s' ca = objects s ca - {obj} \<and>
    slab_frame ca s s' \<and> set (slab_pages (sl_cache s' ca)) = set (slab_pages (sl_cache s ca)) \<and>
    same_geom (sl_cache s ca) (sl_cache s' ca) \<and> page_state s' = page_state s"
proof -
  let ?c = "sl_cache s ca"
  obtain p i where p: "p \<in> set (slab_pages ?c)" "i \<in> taken_slots ?c (sl_slab s p)" "obj = slab_obj ?c p i"
    using obj by (auto simp: objects_def)
  have i: "i < unat (kc_slots ?c)" "bit_test (sh_used (sl_slab s p)) i" using p(2) by (auto simp: taken_slots_def)
  note pt = cache_ok_parts [OF ok]
  have geo: "geom_ok ?c" by (rule pt)
  have n256: "unat (kc_slots ?c) \<le> 256" using geo by (simp add: geom_ok_def)
  have okp: "page_aligned p" "page_state s p = Some PG_SLAB" "sh_cache (sl_slab s p) = ca"
    "bitstr_ok SLAB_MAX_OBJS (sh_used (sl_slab s p))" "sh_inuse (sl_slab s p) = int (card (taken_slots ?c (sl_slab s p)))"
    using pt(3) [OF p(1)] by (simp_all add: slab_ok_def)
  have pg: "PGROUNDDW obj = p" "slab_slot ?c p obj = int i"
    using slab_obj_page [OF geo okp(1) i(1)] slab_slot_obj [OF geo okp(1) i(1)] p(3) by simp_all
  let ?n = "card (taken_slots ?c (sl_slab s p))"
  have n: "0 < ?n" "?n \<le> unat (kc_slots ?c)" using p(2) taken_slots_card [of ?c "sl_slab s p"] by (auto simp: card_gt_0_iff)
  define h where "h = (sl_slab s p)\<lparr>sh_used := bit_clear (sh_used (sl_slab s p)) i, sh_inuse := sh_inuse (sl_slab s p) - 1\<rparr>"
  define c1 where "c1 = (if ?n = unat (kc_slots ?c) then to_partial p ?c else ?c)"
  define c2 where "c2 = (if ?n = 1 then to_empty p c1 else c1)"
  define s' where "s' = (if ?n = 1 then upd_cache ca (to_empty p) else id)
    ((if ?n = unat (kc_slots ?c) then upd_cache ca (to_partial p) else id) (upd_slab p (\<lambda>_. h) s))"
  have wf: "of_int (sh_inuse (sl_slab s p)) = kc_slots ?c \<longleftrightarrow> ?n = unat (kc_slots ?c)"
    using of_int_slots [of "sh_inuse (sl_slab s p)" ?c] n n256 unfolding okp(5) by (simp only: of_nat_eq_iff of_nat_0_le_iff of_nat_le_numeral_iff)
  have g2: "(of_int (int i) :: uint32) < kc_slots ?c"
  proof -
    have "unat (of_nat i :: uint32) = i" using i(1) n256 by (intro unat_of_nat_small) simp
    then show ?thesis using i(1) by (simp add: word_less_nat_alt)
  qed
  have e1: "upd_slab p (\<lambda>h. h\<lparr>sh_used := bit_clear (sh_used h) i, sh_inuse := sh_inuse h - 1\<rparr>) s = upd_slab p (\<lambda>_. h) s"
    by (simp add: upd_slab_def h_def)
  have z: "sh_inuse h = 0 \<longleftrightarrow> ?n = 1" by (simp add: h_def okp(5))
  have sel: "sl_slab (if b then upd_cache ca f x else x) = sl_slab x" for b f and x :: "'a slabs_scheme" by simp
  have run: "slab_free_locked ca obj s = Inr s'"
    unfolding slab_free_locked_def to_eta unfolding Let_def pg s'_def
    by (simp only: okp(3) i(2) g2 kassert_def nat_int of_nat_0_le_iff simp_thms if_True e1 wf sel upd_simps fun_upd_same z)
      (simp only: id_def if_distribR)
  have s': "sl_cache s' ca = c2" "sl_slab s' = (sl_slab s)(p := h)" "page_state s' = page_state s"
    "\<And>x. x \<noteq> ca \<Longrightarrow> sl_cache s' x = sl_cache s x"
    by (simp_all add: s'_def c2_def c1_def)
  have tk: "taken_slots ?c h = taken_slots ?c (sl_slab s p) - {i}"
    unfolding h_def by (rule taken_set_bit(2) [OF okp(4) i(1) n256])
  have card: "card (taken_slots ?c h) = ?n - 1" unfolding tk using p(2) by simp
  have inuse: "sh_inuse h = int ?n - 1" by (simp add: h_def okp(5))
  have d1: "distinct (slab_pages c1)" "set (slab_pages c1) = set (slab_pages ?c)"
    using to_lists(1,2) [OF pt(2), of p] pt(2) p(1) by (auto simp: c1_def)
  have d2: "distinct (slab_pages c2)" "set (slab_pages c2) = set (slab_pages ?c)"
    using to_lists(5,6) [OF d1(1), of p] d1 p(1) by (auto simp: c2_def)
  have geo2: "same_geom ?c c2" by (auto simp: c2_def c1_def intro: same_geom_trans [of _ "to_partial p ?c"])
  note t1 = to_lists [OF pt(2), of p] and t2 = to_lists [OF d1(1), of p]
  have lists: "set (kc_partial c2) - {p} = set (kc_partial ?c) - {p}" "set (kc_full c2) - {p} = set (kc_full ?c) - {p}"
    "set (kc_empty c2) - {p} = set (kc_empty ?c) - {p}"
    using t1 t2 by (auto simp: c2_def c1_def)
  have li: "p \<in> set (kc_full ?c) \<longleftrightarrow> ?n = unat (kc_slots ?c)" "p \<notin> set (kc_empty ?c)"
    using cache_ok_list [OF ok p(1)] n(1) unfolding okp(5) of_nat_eq_iff by (blast, auto)
  have slots2: "kc_slots c2 = kc_slots ?c" using geo2 by (simp add: same_geom_def)
  have "p \<notin> set (kc_full c1)" unfolding c1_def using t1(8) li(1) by (cases "?n = unat (kc_slots ?c)") simp_all
  then have full2: "p \<notin> set (kc_full c2)" unfolding c2_def using t2(14) by (cases "?n = 1") simp_all
  have "p \<notin> set (kc_empty c1)" unfolding c1_def using t1(9) li(2) by (cases "?n = unat (kc_slots ?c)") simp_all
  then have emp2: "p \<in> set (kc_empty c2) \<Longrightarrow> sh_inuse h = 0" unfolding c2_def z by (cases "?n = 1") simp_all
  have par2: "p \<in> set (kc_partial c2) \<Longrightarrow> 0 < sh_inuse h \<and> sh_inuse h < int (unat (kc_slots c2))"
  proof -
    assume a: "p \<in> set (kc_partial c2)"
    have "?n \<noteq> 1" using a t2(13) unfolding c2_def by (cases "?n = 1") simp_all
    then show "0 < sh_inuse h \<and> sh_inuse h < int (unat (kc_slots c2))" unfolding slots2 inuse using n by linarith
  qed
  have okp': "slab_ok s' ca p"
    using okp inuse card n(1) same_geom_simps(2) [OF geo2] by (auto simp: slab_ok_def s' h_def)
  note r = cache_ok_retouch [where s' = s' and p = p, OF ok s'(1,2) _ geo2 d2(1) lists par2 _ emp2 okp']
  have ok': "cache_ok s' ca" using r(1) full2 s'(3) by simp
  have "objects s' ca = (\<Union>q \<in> set (slab_pages ?c) - {p}. slab_obj ?c q ` taken_slots ?c (sl_slab s q)) \<union>
      slab_obj ?c p ` (taken_slots ?c (sl_slab s p) - {i})"
    using r(2) full2 s'(3) d2(2) p(1) tk by simp
  also have "\<dots> = objects s ca - {obj}"
  proof -
    have "slab_obj ?c p ` (taken_slots ?c (sl_slab s p) - {i}) = slab_obj ?c p ` taken_slots ?c (sl_slab s p) - {obj}"
      using slab_obj_inj [OF geo okp(1) _ okp(1) i(1)] p(3) by (auto simp: taken_slots_def)
    moreover have "obj \<notin> slab_obj ?c q ` taken_slots ?c (sl_slab s q)" if "q \<in> set (slab_pages ?c) - {p}" for q
      using that slab_obj_inj [OF geo okp(1) i(1), of q] pt(3) [of q] p(3) by (auto simp: taken_slots_def slab_ok_def)
    ultimately show ?thesis unfolding objects_split [OF p(1)] by blast
  qed
  finally have obs: "objects s' ca = objects s ca - {obj}" .
  have cpu: "kc_cpu c2 = kc_cpu ?c" "kc_full_mags c2 = kc_full_mags ?c" "kc_empty_mags c2 = kc_empty_mags ?c"
    "kc_use_mag c2 = kc_use_mag ?c"
    by (simp_all add: c2_def c1_def)
  have "slab_frame ca s s'"
    unfolding slab_frame_def s'(1) using s'(2,4) cpu d2(2) p(1) by (auto simp: s'_def)
  then show ?thesis using run ok' obs s'(1,3) d2(2) geo2 by auto
qed

section \<open>Allocating an object\<close>

lemma kpage_set_slab_ok:
  assumes inv: "kalloc_inv s" and st: "page_state s va = Some PG_USED"
  shows "\<exists>s'. kpage_set_slab va s = Inr s' \<and> kalloc_inv s' \<and> page_state s' = (page_state s)(va \<mapsto> PG_SLAB) \<and> same_frame s s'"
proof -
  obtain i where i: "page_aligned (KVA_TO_PA va)" "pa_to_page (KVA_TO_PA va) s = Some i" "flag s i = PG_USED"
    using st by (auto simp: page_state_def split: if_splits)
  obtain "is" where "is": "layout_ok s" "fpath (km_pages s) (km_freelist s) is" "distinct is"
    "set is = {i. i < total_pages (segs s) \<and> flag s i = PG_FREE}"
    "\<And>i. i < total_pages (segs s) \<Longrightarrow> flag s i \<in> {PG_FREE, PG_USED, PG_SLAB}"
    "\<And>i. i < total_pages (segs s) \<Longrightarrow> flag s i \<noteq> PG_FREE \<Longrightarrow> pg_refcnt (km_pages s ! i) = 1"
    by (rule kalloc_inv_parts [OF inv]) (rule that)
  have lt: "i < total_pages (segs s)" by (rule pa_to_page_less [OF "is"(1) i(2)])
  have len: "i < length (km_pages s)" using lt "is"(1) by (simp add: layout_ok_def)
  let ?pg = "(km_pages s ! i)\<lparr>pg_flags := PG_SLAB\<rparr>"
  let ?s' = "s\<lparr>km_pages := (km_pages s)[i := ?pg]\<rparr>"
  have fl: "flag ?s' j = (if j = i then PG_SLAB else flag s j)" for j using len by (simp add: flag_def nth_list_update)
  have rc: "pg_refcnt (km_pages ?s' ! j) = pg_refcnt (km_pages s ! j)" for j using len by (cases "j = i") simp_all
  have ni: "i \<notin> set is" using "is"(4) i(3) by simp
  have "set is = {j. j < total_pages (segs ?s') \<and> flag ?s' j = PG_FREE}" unfolding "is"(4) using i(3) by (auto simp: fl)
  moreover have "fpath (km_pages ?s') (km_freelist ?s') is" using fpath_update [OF "is"(2) ni] by simp
  moreover have "layout_ok ?s'" using layout_ok_update(1) [OF "is"(1), of ?s'] by simp
  moreover have "\<forall>j < total_pages (segs ?s'). flag ?s' j \<in> {PG_FREE, PG_USED, PG_SLAB}" using "is"(5) by (simp add: fl)
  moreover have "\<forall>j < total_pages (segs ?s'). flag ?s' j \<noteq> PG_FREE \<longrightarrow> pg_refcnt (km_pages ?s' ! j) = 1"
    unfolding rc using "is"(6) i(3) by (simp add: fl)
  ultimately have "kalloc_inv ?s'" unfolding kalloc_inv_def using "is"(3) by blast
  moreover have "page_state ?s' = (page_state s)(va \<mapsto> PG_SLAB)"
    using page_state_update [OF "is"(1) i(2,1), of ?s' ?pg] by simp
  moreover have "kpage_set_slab va s = Inr ?s'" by (simp add: kpage_set_slab_def i(2))
  ultimately show ?thesis by (simp add: same_frame_def)
qed

lemma same_frame_slabs:
  assumes "same_frame s (s' :: 'a slabs_scheme)"
  shows "sl_slab s' = sl_slab s" "sl_cache s' = sl_cache s" "sl_mag s' = sl_mag s" "sl_caches s' = sl_caches s"
    "sl_held s' = sl_held s" "sl_cpu s' = sl_cpu s" "sl_cache_cache s' = sl_cache_cache s" "sl_busy s' = sl_busy s"
    "sl_magazine_cache s' = sl_magazine_cache s" "sl_listlock s' = sl_listlock s" "sl_built s' = sl_built s" "vm_page s' = vm_page s"
  using same_frame_vm(3) [OF assms] by (cases s; cases s'; simp)+

lemma page_aligned_KVA [simp]: "page_aligned (KVA_TO_PA p) = page_aligned p"
proof -
  have "KVA_TO_PA p = p + 0x1000000000000" by (simp add: KVA_TO_PA_def kdefs)
  then have "unat (KVA_TO_PA p) = (unat p + 4096 * 2 ^ 36) mod (4096 * 2 ^ 52)" by (simp add: unat_word_ariths)
  then show ?thesis unfolding page_aligned_def by (simp only: dvd_mod_iff dvd_triv_left dvd_add_left_iff)
qed

text \<open>The slab \<open>p\<close> picked for the next object, between the search and the claim of a slot.\<close>

definition picked :: "'a slabs_scheme \<Rightarrow> uintptr \<Rightarrow> uintptr \<Rightarrow> 'a slabs_scheme \<Rightarrow> bool" where
  "picked s ca p s1 \<longleftrightarrow> kalloc_inv s1 \<and> sl_slab s1 = (sl_slab s)(p := sl_slab s1 p) \<and> slab_frame ca s s1 \<and>
     same_geom (sl_cache s ca) (sl_cache s1 ca) \<and> distinct (slab_pages (sl_cache s1 ca)) \<and>
     p \<in> set (kc_partial (sl_cache s1 ca)) \<and>
     set (kc_partial (sl_cache s1 ca)) - {p} = set (kc_partial (sl_cache s ca)) - {p} \<and>
     set (kc_full (sl_cache s1 ca)) - {p} = set (kc_full (sl_cache s ca)) - {p} \<and>
     set (kc_empty (sl_cache s1 ca)) - {p} = set (kc_empty (sl_cache s ca)) - {p} \<and>
     slab_ok s1 ca p \<and> sh_inuse (sl_slab s1 p) < int (unat (kc_slots (sl_cache s ca))) \<and>
     taken_slots (sl_cache s ca) (sl_slab s1 p) =
       (if p \<in> set (slab_pages (sl_cache s ca)) then taken_slots (sl_cache s ca) (sl_slab s p) else {}) \<and>
     (p \<in> set (slab_pages (sl_cache s ca)) \<or> p \<in> free_pages s) \<and>
     (\<forall>q. q \<noteq> p \<longrightarrow> page_state s1 q = page_state s q)"

lemma picked_partial:
  assumes ok: "cache_ok s ca" and k: "kalloc_inv s" and p: "p \<in> set (kc_partial (sl_cache s ca))"
  shows "picked s ca p s"
proof -
  have "p \<in> set (slab_pages (sl_cache s ca))" using p by (simp add: slab_pages_def)
  moreover have "slab_frame ca s s" by (simp add: slab_frame_def)
  ultimately show ?thesis unfolding picked_def
    using cache_ok_parts(2,3) [OF ok] cache_ok_parts(4) [OF ok p] k p by simp
qed

lemma kalloc_inv_upd [simp]: "kalloc_inv (upd_cache ca f s) = kalloc_inv s" "kalloc_inv (upd_slab p g s) = kalloc_inv s"
proof -
  have "flag (upd_cache ca f s) = flag s" "flag (upd_slab p g s) = flag s"
    by (auto simp: flag_def fun_eq_iff upd_cache_def upd_slab_def)
  then show "kalloc_inv (upd_cache ca f s) = kalloc_inv s" "kalloc_inv (upd_slab p g s) = kalloc_inv s"
    by (simp_all add: kalloc_inv_def layout_ok_def upd_cache_def upd_slab_def)
qed

lemma picked_empty:
  assumes ok: "cache_ok s ca" and k: "kalloc_inv s" and p: "p \<in> set (kc_empty (sl_cache s ca))"
  shows "picked s ca p (upd_cache ca (to_partial p) s)"
proof -
  let ?c = "sl_cache s ca" and ?s1 = "upd_cache ca (to_partial p) s"
  note pt = cache_ok_parts [OF ok] and t1 = to_lists [OF cache_ok_parts(2) [OF ok], of p]
  have pp: "p \<in> set (slab_pages ?c)" using p by (simp add: slab_pages_def)
  have "slab_ok ?s1 ca p" using pt(3) [OF pp] by (simp add: slab_ok_def same_geom_simps(2) [OF to_same(1)])
  moreover have "slab_frame ca s ?s1" by (simp add: slab_frame_def)
  moreover note geom_ok_slots [OF pt(1)]
  ultimately show ?thesis unfolding picked_def using k pp pt(6) [OF p] t1 by auto
qed

lemma slab_grow_ok:
  assumes k: "kalloc_inv s" and f: "free_pages s \<noteq> {}"
  shows "\<exists>p s1. slab_grow ca s = Inr (Some p, s1) \<and> p \<in> free_pages s \<and> kalloc_inv s1 \<and>
    page_state s1 = (page_state s)(p \<mapsto> PG_SLAB) \<and> sl_cache s1 = sl_cache s \<and>
    sl_slab s1 = (sl_slab s)(p := \<lparr>sh_cache = ca, sh_inuse = 0, sh_used = bit_decl SLAB_MAX_OBJS\<rparr>) \<and>
    vm_page s1 = vm_page s \<and> sl_mag s1 = sl_mag s \<and> sl_caches s1 = sl_caches s \<and> sl_held s1 = sl_held s \<and> sl_cpu s1 = sl_cpu s \<and>
    sl_cache_cache s1 = sl_cache_cache s \<and> sl_magazine_cache s1 = sl_magazine_cache s \<and> sl_listlock s1 = sl_listlock s"
proof -
  obtain p s2 where a: "kpage_alloc kmem_reclaim s = Inr (Some p, s2)" "p \<in> free_pages s" "kalloc_inv s2"
    "page_state s2 = (page_state s)(p \<mapsto> PG_USED)" "same_frame s s2"
    using kpage_alloc_free [OF k f, of kmem_reclaim] by blast
  obtain s3 where b: "kpage_set_slab p s2 = Inr s3" "kalloc_inv s3" "page_state s3 = (page_state s2)(p \<mapsto> PG_SLAB)" "same_frame s2 s3"
    using kpage_set_slab_ok [OF a(3), of p] a(4) by auto
  note fr = same_frame_slabs [OF same_frame_trans [OF a(5) b(4)]]
  let ?h = "\<lparr>sh_cache = ca, sh_inuse = 0, sh_used = bit_decl SLAB_MAX_OBJS\<rparr>"
  let ?s4 = "upd_slab p (\<lambda>_. ?h) s3"
  let ?s5 = "if kc_ctor (sl_cache s3 ca) then ?s4\<lparr>sl_built := sl_built ?s4 \<union> set (map (slab_obj (sl_cache s3 ca) p) [0..<unat (kc_slots (sl_cache s3 ca))])\<rparr> else ?s4"
  have run: "slab_grow ca s = Inr (Some p, ?s5)"
    by (simp add: slab_grow_def a(1) b(1) rbind_def Let_def)
  have st: "page_state (x\<lparr>sl_built := y\<rparr>) = page_state x" for x :: "'a slabs_scheme" and y by (rule page_state_cong) simp_all
  have kb: "kalloc_inv (x\<lparr>sl_built := y\<rparr>) = kalloc_inv x" for x :: "'a slabs_scheme" and y
    by (simp add: kalloc_inv_def layout_ok_def flag_def)
  show ?thesis using run a(2,4) b(2,3) by (auto simp: st kb fr)
qed

lemma picked_grow:
  assumes ok: "cache_ok s ca" and g: "p \<in> free_pages s" "kalloc_inv s1" "page_state s1 = (page_state s)(p \<mapsto> PG_SLAB)"
    "sl_cache s1 = sl_cache s" "sl_slab s1 = (sl_slab s)(p := \<lparr>sh_cache = ca, sh_inuse = 0, sh_used = bit_decl SLAB_MAX_OBJS\<rparr>)"
    "vm_page s1 = vm_page s \<and> sl_mag s1 = sl_mag s \<and> sl_caches s1 = sl_caches s \<and> sl_held s1 = sl_held s \<and> sl_cpu s1 = sl_cpu s \<and>
    sl_cache_cache s1 = sl_cache_cache s \<and> sl_magazine_cache s1 = sl_magazine_cache s \<and> sl_listlock s1 = sl_listlock s"
  shows "picked s ca p (upd_cache ca (\<lambda>c. c\<lparr>kc_partial := p # kc_partial c\<rparr>) s1)"
proof -
  let ?c = "sl_cache s ca" and ?s2 = "upd_cache ca (\<lambda>c. c\<lparr>kc_partial := p # kc_partial c\<rparr>) s1"
  let ?h = "\<lparr>sh_cache = ca, sh_inuse = 0, sh_used = bit_decl SLAB_MAX_OBJS\<rparr>" and ?c2 = "?c\<lparr>kc_partial := p # kc_partial ?c\<rparr>"
  note pt = cache_ok_parts [OF ok]
  have np: "p \<notin> set (slab_pages ?c)" using pt(3) [of p] g(1) by (auto simp: slab_ok_def free_pages_def)
  have geo: "same_geom ?c ?c2" by (simp add: same_geom_def)
  have n: "0 < uint (kc_slots ?c)" "unat (kc_slots ?c) \<le> 256" using pt(1) geom_ok_slots by (simp_all add: geom_ok_def)
  have tk: "taken_slots ?c ?h = {}" using n(2) by (auto simp: taken_slots_def SLAB_MAX_OBJS_def kdefs)
  have pa: "page_aligned p" using g(1) by (auto simp: free_pages_def page_state_def split: if_splits)
  have "slab_ok ?s2 ca p" unfolding slab_ok_def
    using pa tk by (simp add: g(3-5) same_geom_simps(2) [OF geo])
  moreover have "used_pages s1 = used_pages s" using g(1) by (auto simp: used_pages_def g(3) free_pages_def)
  then have "slab_frame ca s ?s2" using g(6) by (auto simp: slab_frame_def g(4,5) slab_pages_def)
  moreover have "distinct (slab_pages ?c2)" using pt(2) np by (simp add: slab_pages_def)
  ultimately show ?thesis unfolding picked_def using g(1,2) np n(1) tk geo by (simp add: g(3-5))
qed

lemma pick_slab_ok:
  assumes ok: "cache_ok s ca" and k: "kalloc_inv s"
    and av: "kc_partial (sl_cache s ca) \<noteq> [] \<or> kc_empty (sl_cache s ca) \<noteq> [] \<or> free_pages s \<noteq> {}"
  shows "\<exists>p s1. pick_slab ca s = Inr (Some p, s1) \<and> picked s ca p s1"
proof (cases "kc_partial (sl_cache s ca)")
  case (Cons p ps)
  then show ?thesis using picked_partial [OF ok k, of p] by (simp add: pick_slab_def)
next
  case np: Nil
  show ?thesis
  proof (cases "kc_empty (sl_cache s ca)")
    case (Cons p ps)
    have "upd_cache ca (\<lambda>c. c\<lparr>kc_partial := p # kc_partial c\<rparr>) (upd_cache ca (unlink_slab p) s) = upd_cache ca (to_partial p) s"
      by (simp add: upd_cache_def to_defs)
    then show ?thesis using picked_empty [OF ok k, of p] np Cons by (simp add: pick_slab_def rbind_def)
  next
    case Nil
    then have "free_pages s \<noteq> {}" using av np by simp
    then obtain p s1 where "slab_grow ca s = Inr (Some p, s1)"
      "picked s ca p (upd_cache ca (\<lambda>c. c\<lparr>kc_partial := p # kc_partial c\<rparr>) s1)"
      using slab_grow_ok [OF k, of ca] picked_grow [OF ok] by blast
    then show ?thesis using np Nil by (simp add: pick_slab_def rbind_def)
  qed
qed

lemma slab_frame_trans:
  assumes "slab_frame ca s s1" "slab_frame ca s1 s2" "set (slab_pages (sl_cache s1 ca)) \<subseteq> set (slab_pages (sl_cache s2 ca))"
  shows "slab_frame ca s s2"
proof -
  have "\<forall>p. p \<notin> set (slab_pages (sl_cache s2 ca)) \<longrightarrow> sl_slab s2 p = sl_slab s p"
  proof (intro allI impI)
    fix p
    assume a: "p \<notin> set (slab_pages (sl_cache s2 ca))"
    then have "p \<notin> set (slab_pages (sl_cache s1 ca))" using assms(3) by blast
    with a show "sl_slab s2 p = sl_slab s p" using assms(1,2) unfolding slab_frame_def by metis
  qed
  then show ?thesis using assms(1,2) unfolding slab_frame_def by simp
qed

lemma slab_alloc_locked_spec:
  assumes ok: "cache_ok s ca" and k: "kalloc_inv s"
    and av: "kc_partial (sl_cache s ca) \<noteq> [] \<or> kc_empty (sl_cache s ca) \<noteq> [] \<or> free_pages s \<noteq> {}"
  shows "\<exists>obj s'. slab_alloc_locked ca s = Inr (Some obj, s') \<and> obj \<notin> objects s ca \<and>
    objects s' ca = insert obj (objects s ca) \<and> cache_ok s' ca \<and> kalloc_inv s' \<and> slab_frame ca s s' \<and>
    set (slab_pages (sl_cache s' ca)) \<subseteq> set (slab_pages (sl_cache s ca)) \<union> free_pages s \<and>
    (\<forall>q. q \<notin> set (slab_pages (sl_cache s' ca)) \<longrightarrow> page_state s' q = page_state s q)"
proof -
  let ?c = "sl_cache s ca"
  obtain p s1 where run1: "pick_slab ca s = Inr (Some p, s1)" and pk: "picked s ca p s1" using pick_slab_ok [OF ok k av] by blast
  let ?c1 = "sl_cache s1 ca" and ?h0 = "sl_slab s1 p"
  have pk': "kalloc_inv s1" "sl_slab s1 = (sl_slab s)(p := ?h0)" "slab_frame ca s s1" "same_geom ?c ?c1" "distinct (slab_pages ?c1)"
    "p \<in> set (kc_partial ?c1)" "set (kc_partial ?c1) - {p} = set (kc_partial ?c) - {p}"
    "set (kc_full ?c1) - {p} = set (kc_full ?c) - {p}" "set (kc_empty ?c1) - {p} = set (kc_empty ?c) - {p}"
    "slab_ok s1 ca p" "sh_inuse ?h0 < int (unat (kc_slots ?c))"
    "taken_slots ?c ?h0 = (if p \<in> set (slab_pages ?c) then taken_slots ?c (sl_slab s p) else {})"
    "p \<in> set (slab_pages ?c) \<or> p \<in> free_pages s" "\<And>q. q \<noteq> p \<Longrightarrow> page_state s1 q = page_state s q"
    using pk unfolding picked_def by blast+
  note geo = same_geom_simps [OF pk'(4)]
  have g: "geom_ok ?c" by (rule cache_ok_parts(1) [OF ok])
  have n256: "unat (kc_slots ?c) \<le> 256" using g by (simp add: geom_ok_def)
  have okp: "page_aligned p" "page_state s1 p = Some PG_SLAB" "sh_cache ?h0 = ca" "bitstr_ok SLAB_MAX_OBJS (sh_used ?h0)"
    "sh_inuse ?h0 = int (card (taken_slots ?c ?h0))"
    using pk'(10) by (simp_all add: slab_ok_def geo)
  have bs: "bitstr_ok (unat (kc_slots ?c)) (sh_used ?h0)" using okp(4) n256 by (simp add: bitstr_ok_def kdefs)
  obtain i where i: "bit_ffc (sh_used ?h0) (unat (kc_slots ?c)) = int i" "i < unat (kc_slots ?c)" "\<not> bit_test (sh_used ?h0) i"
  proof (rule bit_ffc_cases [OF bs])
    assume "\<forall>b<unat (kc_slots ?c). bit_test (sh_used ?h0) b"
    then have "taken_slots ?c ?h0 = {..<unat (kc_slots ?c)}" by (auto simp: taken_slots_def)
    then have "card (taken_slots ?c ?h0) = unat (kc_slots ?c)" by simp
    then show thesis using pk'(11) okp(5) by simp
  qed (use that in blast)
  let ?n = "card (taken_slots ?c ?h0)" and ?obj = "slab_obj ?c p i"
  have ni: "i \<notin> taken_slots ?c ?h0" using i(3) by (simp add: taken_slots_def)
  have nlt: "?n < unat (kc_slots ?c)" using pk'(11) unfolding okp(5) by (simp only: of_nat_less_iff)
  define h where "h = ?h0\<lparr>sh_used := bit_set (sh_used ?h0) i, sh_inuse := sh_inuse ?h0 + 1\<rparr>"
  define s2 where "s2 = upd_slab p (\<lambda>_. h) s1"
  define s' where "s' = (if Suc ?n = unat (kc_slots ?c) then upd_cache ca (to_full p) s2 else s2)"
  have inuse: "sh_inuse h = int (Suc ?n)" by (simp add: h_def okp(5))
  have wf: "of_int (sh_inuse h) = kc_slots ?c \<longleftrightarrow> Suc ?n = unat (kc_slots ?c)"
    unfolding inuse using of_int_slots [of "int (Suc ?n)" ?c] nlt n256 by (simp only: of_nat_eq_iff of_nat_0_le_iff of_nat_le_numeral_iff)
  have e1: "upd_slab p (\<lambda>h. h\<lparr>sh_used := bit_set (sh_used h) i, sh_inuse := sh_inuse h + 1\<rparr>) s1 = s2"
    by (simp add: upd_slab_def h_def s2_def)
  have hs: "sl_slab s2 p = h" by (simp add: s2_def)
  have run: "slab_alloc_locked ca s = Inr (Some ?obj, s')"
    unfolding slab_alloc_locked_def run1 to_eta unfolding rbind_def Let_def s'_def
    by (simp only: sum.case prod.case option.case geo i(1) nat_int e1 hs wf kassert_def of_nat_0_le_iff if_True)
  define c' where "c' = (if Suc ?n = unat (kc_slots ?c) then to_full p ?c1 else ?c1)"
  have s': "sl_cache s' ca = c'" "sl_slab s' = (sl_slab s)(p := h)" "page_state s' = page_state s1" "kalloc_inv s'"
  proof -
    have "(sl_slab s1)(p := h) = (sl_slab s)(p := h)" by (subst pk'(2)) simp
    then show "sl_cache s' ca = c'" "sl_slab s' = (sl_slab s)(p := h)" "page_state s' = page_state s1" "kalloc_inv s'"
      using pk'(1) by (simp_all add: s'_def c'_def s2_def)
  qed
  have pin: "p \<in> set (slab_pages ?c1)" using pk'(6) by (simp add: slab_pages_def)
  have tl: "distinct (slab_pages c')" "set (slab_pages c') = set (slab_pages ?c1)"
    using to_lists(3,4) [OF pk'(5), of p] pk'(5) pin by (auto simp: c'_def)
  have gc': "same_geom ?c c'" using pk'(4) same_geom_trans [OF pk'(4) to_same(2)] by (simp add: c'_def)
  have sc': "kc_slots c' = kc_slots ?c" by (rule same_geom_simps(4) [OF gc'])
  note tf = to_lists(10-12) [OF pk'(5), of p]
  have lists: "set (kc_partial c') - {p} = set (kc_partial ?c) - {p}" "set (kc_full c') - {p} = set (kc_full ?c) - {p}"
    "set (kc_empty c') - {p} = set (kc_empty ?c) - {p}"
    using tf pk'(7-9) by (auto simp: c'_def)
  have dj: "p \<notin> set (kc_full ?c1)" "p \<notin> set (kc_empty ?c1)" using pk'(5,6) by (auto simp: slab_pages_def)
  have ne: "p \<notin> set (kc_empty c')" using dj(2) tf(3) by (simp add: c'_def)
  have par: "p \<in> set (kc_partial c') \<Longrightarrow> 0 < sh_inuse h \<and> sh_inuse h < int (unat (kc_slots c'))"
  proof -
    assume "p \<in> set (kc_partial c')"
    then have "Suc ?n \<noteq> unat (kc_slots ?c)" using tf(1) unfolding c'_def by (cases "Suc ?n = unat (kc_slots ?c)") simp_all
    then show "0 < sh_inuse h \<and> sh_inuse h < int (unat (kc_slots c'))" unfolding inuse sc' using nlt by linarith
  qed
  have ful: "p \<in> set (kc_full c') \<Longrightarrow> sh_inuse h = int (unat (kc_slots c'))"
    unfolding inuse sc' using dj(1) unfolding c'_def by (cases "Suc ?n = unat (kc_slots ?c)") simp_all
  have tk: "taken_slots ?c h = insert i (taken_slots ?c ?h0)" unfolding h_def by (rule taken_set_bit(1) [OF okp(4) i(2) n256])
  have okp': "slab_ok s' ca p"
  proof -
    have "card (taken_slots ?c h) = Suc ?n" unfolding tk using ni by simp
    moreover have "sh_cache h = ca" "bitstr_ok SLAB_MAX_OBJS (sh_used h)" using okp(3,4) by (simp_all add: h_def)
    ultimately show ?thesis unfolding slab_ok_def s' same_geom_simps(2) [OF gc'] using okp(1,2) inuse by simp
  qed
  note r = cache_ok_retouch [where s' = s' and p = p, OF ok s'(1,2) _ gc' tl(1) lists par ful _ okp']
  have st: "\<And>q. q \<noteq> p \<Longrightarrow> page_state s' q = page_state s q" using pk'(14) s'(3) by simp
  have ok': "cache_ok s' ca" using r(1) st ne by blast
  have obs: "objects s' ca = insert ?obj (objects s ca)"
  proof -
    have "objects s' ca = (\<Union>q \<in> set (slab_pages ?c) - {p}. slab_obj ?c q ` taken_slots ?c (sl_slab s q)) \<union> slab_obj ?c p ` taken_slots ?c h"
      using r(2) st ne tl(2) pin by simp
    also have "\<dots> = insert ?obj (objects s ca)"
      unfolding tk pk'(12) using objects_split [of p s ca] by (auto simp: objects_def)
    finally show ?thesis .
  qed
  have new: "?obj \<notin> objects s ca" using objects_iff [OF ok okp(1) i(2)] ni pk'(12) by auto
  have pgs: "set (slab_pages ?c1) \<subseteq> set (slab_pages ?c) \<union> free_pages s"
    using pk'(7-9,13) unfolding slab_pages_def by auto
  have "slab_frame ca s1 s'"
    unfolding slab_frame_def s'(1) using pin tl(2) by (auto simp: s'_def s2_def c'_def)
  then have "slab_frame ca s s'" using slab_frame_trans [OF pk'(3)] s'(1) tl(2) by blast
  then show ?thesis using run new obs ok' s'(1,4) pgs st pin tl(2) by (metis (no_types))
qed

lemma slab_free_locked_dead:
  assumes ok: "cache_ok s ca" and p: "p \<in> set (slab_pages (sl_cache s ca))" "i < unat (kc_slots (sl_cache s ca))"
    and dead: "slab_obj (sl_cache s ca) p i \<notin> objects s ca"
  shows "slab_free_locked ca (slab_obj (sl_cache s ca) p i) s = Inl (Panic ''kmem_cache_free: bad address or double free'')"
proof -
  let ?c = "sl_cache s ca"
  have g: "geom_ok ?c" by (rule cache_ok_parts(1) [OF ok])
  have okp: "page_aligned p" "sh_cache (sl_slab s p) = ca" using cache_ok_parts(3) [OF ok p(1)] by (simp_all add: slab_ok_def)
  have "\<not> bit_test (sh_used (sl_slab s p)) i" using dead objects_iff [OF ok okp(1) p(2)] p by (auto simp: taken_slots_def)
  then show ?thesis unfolding slab_free_locked_def Let_def slab_obj_page [OF g okp(1) p(2)] slab_slot_obj [OF g okp(1) p(2)]
    using okp(2) by (simp add: kassert_def)
qed

lemma slab_free_foreign:
  assumes "sh_cache (sl_slab s (PGROUNDDW obj)) \<noteq> ca"
  shows "slab_free_locked ca obj s = Inl (Panic ''kmem_cache_free: object does not belong to this cache'')"
  using assms by (simp add: slab_free_locked_def kassert_def Let_def)

lemma objects_obtain:
  assumes "cache_ok s ca" "x \<in> objects s ca"
  obtains p i where "p \<in> set (slab_pages (sl_cache s ca))" "i < unat (kc_slots (sl_cache s ca))" "x = slab_obj (sl_cache s ca) p i"
    "page_aligned p" "PGROUNDDW x = p"
    "unat x = unat p + (unat (kc_offset (sl_cache s ca)) + i * unat (kc_objsize (sl_cache s ca)))"
proof -
  let ?c = "sl_cache s ca"
  obtain p i where p: "p \<in> set (slab_pages ?c)" "i < unat (kc_slots ?c)" "x = slab_obj ?c p i"
    using assms(2) by (auto simp: objects_def taken_slots_def)
  have a: "page_aligned p" using cache_ok_parts(3) [OF assms(1) p(1)] by (simp add: slab_ok_def)
  note g = cache_ok_parts(1) [OF assms(1)]
  show ?thesis using that [OF p a] slab_obj_page [OF g a p(2)] slab_obj_unat(1) [OF g a p(2)] p(3) by simp
qed

lemma aligned_apart: "page_aligned p \<Longrightarrow> page_aligned q \<Longrightarrow> unat p < unat q \<Longrightarrow> unat p + 4096 \<le> unat q"
proof -
  assume "page_aligned p" "page_aligned q" "unat p < unat q"
  then obtain a b where "unat p = 4096 * a" "unat q = 4096 * b" "a < b" by (auto simp: page_aligned_def elim!: dvdE)
  then show ?thesis by linarith
qed

lemma slots_apart: "i < j \<Longrightarrow> i * z + z \<le> j * (z :: nat)"
  by (metis Suc_leI add.commute mult_Suc mult_le_mono1)

end
