(* ===== verification/SlabSpec.thy ===== *)
theory SlabSpec
  imports SlabProofs Uvm
begin

text \<open>
  The promises of the slab allocator: the layout a cache is given, objects that never overlap, and
  each object handed out once until it is freed.
\<close>

section \<open>Layout\<close>

lemma round_up_spec:
  assumes k: "align = 2 ^ k" "k < 64" and r: "unat x + 2 ^ k \<le> 2 ^ 64"
  shows "unat (round_up x align) = (unat x + 2 ^ k - 1) div 2 ^ k * 2 ^ k" "unat x \<le> unat (round_up x align)"
    "2 ^ k dvd unat (round_up x align)" "unat (round_up x align) < unat x + 2 ^ k"
proof -
  have m: "align - 1 = mask k" unfolding k(1) by (simp add: mask_eq_exp_minus_1)
  have one: "(1 :: nat) \<le> 2 ^ k" by simp
  have "x + align - 1 = x + (align - 1)" by simp
  also have "unat (x + (align - 1)) = unat x + (2 ^ k - 1)"
  proof (subst unat_add64)
    have "unat (align - 1) = 2 ^ k - 1" unfolding m unat_eq_nat_uint uint_mask_eq using k(2) by (simp add: min_def mask_eq_exp_minus_1 nat_diff_distrib nat_power_eq)
    then show "unat x + unat (align - 1) = unat x + (2 ^ k - 1)" and "unat x + unat (align - 1) < 2 ^ 64" using r one by linarith+
  qed
  finally have s: "unat (x + align - 1) = unat x + 2 ^ k - 1" using one by simp
  show e: "unat (round_up x align) = (unat x + 2 ^ k - 1) div 2 ^ k * 2 ^ k"
    unfolding round_up_def m by (simp only: unat_and_not_mask s)
  have d: "(unat x + 2 ^ k - 1) div 2 ^ k * 2 ^ k + (unat x + 2 ^ k - 1) mod 2 ^ k = unat x + 2 ^ k - 1" by (rule div_mult_mod_eq)
  have l: "(unat x + 2 ^ k - 1) mod 2 ^ k < (2 :: nat) ^ k" by simp
  show "unat x \<le> unat (round_up x align)" "unat (round_up x align) < unat x + 2 ^ k"
    unfolding e using d l one by linarith+
  show "2 ^ k dvd unat (round_up x align)" unfolding e by simp
qed

lemma pow2_bounds: "4 \<le> k \<Longrightarrow> k < 12 \<Longrightarrow> 16 \<le> (2 :: nat) ^ k \<and> (2 :: nat) ^ k \<le> 2048"
  using power_increasing [of 4 k "2 :: nat"] power_increasing [of k 11 "2 :: nat"] by simp

lemma cache_setup_parts:
  assumes sz: "0 < sz" "sz \<le> PGSIZE" and al: "align = 2 ^ k" "4 \<le> k" "k < 12"
    and cd: "c = cache_setup sz align ctor use_mag"
  shows "unat (kc_objsize c) = unat (round_up sz align)" "unat (kc_offset c) = unat (round_up SIZEOF_SLAB align)"
    "unat (kc_slots c) = (4096 - unat (kc_offset c)) div unat (kc_objsize c)"
    "unat sz \<le> unat (kc_objsize c)" "unat (kc_objsize c) < unat sz + 2 ^ k" "2 ^ k dvd unat (kc_objsize c)"
    "2 ^ k dvd unat (kc_offset c)" "64 \<le> unat (kc_offset c)" "unat (kc_offset c) \<le> 4096"
proof -
  note kb = pow2_bounds [OF al(2,3)]
  have usz: "0 < unat sz" "unat sz \<le> 4096" using sz by (simp_all add: word_less_nat_alt word_le_nat_alt PGSIZE_def)
  have hs: "unat SIZEOF_SLAB = 64" by (simp add: SIZEOF_SLAB_def)
  note rz = round_up_spec [of align k sz, OF al(1)] and ro = round_up_spec [of align k SIZEOF_SLAB, OF al(1)]
  have k64: "k < 64" using al(3) by simp
  have e1: "unat sz + 2 ^ k \<le> 2 ^ 64" "unat SIZEOF_SLAB + 2 ^ k \<le> 2 ^ 64" using usz hs kb by simp_all
  note rz = rz [OF k64 e1(1)] and ro = ro [OF k64 e1(2)]
  have ua: "unat align = 2 ^ k"
  proof -
    have "align = of_nat (2 ^ k)" by (simp add: al(1))
    moreover have "unat (of_nat (2 ^ k) :: uint64) = 2 ^ k" using kb by (intro unat_of_nat_small) simp
    ultimately show ?thesis by simp
  qed
  then have na: "\<not> align < KMEM_MIN_ALIGN" using kb by (simp add: word_less_nat_alt KMEM_MIN_ALIGN_def)
  have c: "kc_objsize c = round_up sz align" "kc_offset c = ucast (round_up SIZEOF_SLAB align)"
    "kc_slots c = ucast ((PGSIZE - round_up SIZEOF_SLAB align) div round_up sz align)"
    using na by (simp_all add: cd cache_setup_def Let_def)
  show z: "unat (kc_objsize c) = unat (round_up sz align)" by (simp add: c)
  have ol: "unat (round_up SIZEOF_SLAB align) < 4096" using ro(4) hs kb by linarith
  show off: "unat (kc_offset c) = unat (round_up SIZEOF_SLAB align)"
    unfolding c using ol by (simp add: unsigned_ucast_eq take_bit_nat_eq_self)
  have "round_up SIZEOF_SLAB align \<le> PGSIZE" using ol by (simp add: word_le_nat_alt PGSIZE_def)
  then have "unat (PGSIZE - round_up SIZEOF_SLAB align) = 4096 - unat (kc_offset c)"
    unfolding off by (simp add: unat_sub PGSIZE_def)
  then have d: "unat ((PGSIZE - round_up SIZEOF_SLAB align) div round_up sz align) = (4096 - unat (kc_offset c)) div unat (kc_objsize c)"
    by (simp add: unat_div c(1))
  have "(4096 - unat (kc_offset c)) div unat (kc_objsize c) \<le> 4096" using div_le_dividend le_trans diff_le_self by metis
  then show "unat (kc_slots c) = (4096 - unat (kc_offset c)) div unat (kc_objsize c)"
    unfolding c(3) using d by (simp add: unsigned_ucast_eq take_bit_nat_eq_self)
  show "unat sz \<le> unat (kc_objsize c)" "unat (kc_objsize c) < unat sz + 2 ^ k" "2 ^ k dvd unat (kc_objsize c)" unfolding z using rz by simp_all
  show "2 ^ k dvd unat (kc_offset c)" "64 \<le> unat (kc_offset c)" "unat (kc_offset c) \<le> 4096" unfolding off using ro hs ol by simp_all
qed

text \<open>For an object of 1 to 4096 bytes and an alignment that is a power of two below a page, the
  layout chosen by \<open>cache_setup\<close> keeps the slots of a slab behind its header and inside its page,
  rounds the size up by less than the alignment, aligns every slot of every slab, and wastes less
  than one slot.
\<close>

theorem cache_setup_layout:
  fixes sz :: uint64 and p :: uintptr
  assumes sz: "0 < sz" "sz \<le> PGSIZE" and al: "align = 2 ^ k" "4 \<le> k" "k < 12"
    and c: "c = cache_setup sz align ctor use_mag"
  shows "unat SIZEOF_SLAB \<le> unat (kc_offset c) \<and> unat (kc_offset c) + unat (kc_slots c) * unat (kc_objsize c) \<le> 4096 \<and>
    4096 < unat (kc_offset c) + (unat (kc_slots c) + 1) * unat (kc_objsize c) \<and>
    unat sz \<le> unat (kc_objsize c) \<and> unat (kc_objsize c) < unat sz + 2 ^ k \<and>
    (page_aligned p \<longrightarrow> i < unat (kc_slots c) \<longrightarrow> 2 ^ k dvd unat (slab_obj c p i)) \<and> (kc_slots c \<noteq> 0 \<longrightarrow> geom_ok c)"
proof -
  note cp = cache_setup_parts [OF sz al c] and kb = pow2_bounds [OF al(2,3)]
  let ?n = "unat (kc_slots c)" and ?z = "unat (kc_objsize c)" and ?o = "unat (kc_offset c)"
  have z0: "0 < ?z" using cp(4) sz(1) by (simp add: word_less_nat_alt)
  have z16: "16 \<le> ?z" using dvd_imp_le [OF cp(6) z0] kb by linarith
  have d: "?n * ?z + (4096 - ?o) mod ?z = 4096 - ?o" unfolding cp(3) by (rule div_mult_mod_eq)
  have m: "(4096 - ?o) mod ?z < ?z" using z0 by simp
  have fit: "?o + ?n * ?z \<le> 4096" using d cp(9) by linarith
  have tight: "4096 < ?o + (?n + 1) * ?z" using d m cp(9) by (simp only: add_mult_distrib mult_1)
  have "?n * 16 \<le> ?n * ?z" using z16 by simp
  then have n: "?n \<le> 256" using fit by linarith
  have geo: "kc_slots c \<noteq> 0 \<longrightarrow> geom_ok c" unfolding geom_ok_def using n z0 fit by (simp add: unat_gt_0)
  moreover have "2 ^ k dvd unat (slab_obj c p i)" if "page_aligned p" "i < ?n"
  proof -
    have g: "geom_ok c" using geo that(2) by auto
    have "2 ^ k dvd (4096 :: nat)" using al(3) le_imp_power_dvd [of k 12 "2 :: nat"] by simp
    then have "2 ^ k dvd unat p" using that(1) unfolding page_aligned_def by (rule dvd_trans)
    then show ?thesis unfolding slab_obj_unat(1) [OF g that] using cp(6,7) by simp
  qed
  moreover have "unat SIZEOF_SLAB \<le> ?o" using cp(8) by (simp add: SIZEOF_SLAB_def)
  ultimately show ?thesis using fit tight cp(4,5) by blast
qed

theorem cache_setup_layout_witness:
  "unat (kc_slots (cache_setup 144 16 False False)) * 144 \<le> 4096 \<and> 16 dvd unat (slab_obj (cache_setup 144 16 False False) 0x1000 3)"
proof -
  have c: "unat (kc_slots (cache_setup 144 16 False False)) = 28" "unat (kc_objsize (cache_setup 144 16 False False)) = 144"
    by (simp_all add: cache_setup_def Let_def round_up_def kdefs)
  have "unat SIZEOF_SLAB \<le> unat (kc_offset (cache_setup 144 16 False False)) \<and>
    unat (kc_offset (cache_setup 144 16 False False)) + unat (kc_slots (cache_setup 144 16 False False)) * unat (kc_objsize (cache_setup 144 16 False False)) \<le> 4096 \<and>
    4096 < unat (kc_offset (cache_setup 144 16 False False)) + (unat (kc_slots (cache_setup 144 16 False False)) + 1) * unat (kc_objsize (cache_setup 144 16 False False)) \<and>
    unat (144 :: uint64) \<le> unat (kc_objsize (cache_setup 144 16 False False)) \<and> unat (kc_objsize (cache_setup 144 16 False False)) < unat (144 :: uint64) + 2 ^ 4 \<and>
    (page_aligned 0x1000 \<longrightarrow> 3 < unat (kc_slots (cache_setup 144 16 False False)) \<longrightarrow> 2 ^ 4 dvd unat (slab_obj (cache_setup 144 16 False False) 0x1000 3)) \<and>
    (kc_slots (cache_setup 144 16 False False) \<noteq> 0 \<longrightarrow> geom_ok (cache_setup 144 16 False False))"
    by (rule cache_setup_layout) (simp_all add: PGSIZE_def)
  then show ?thesis unfolding c by (simp add: page_aligned_def)
qed

section \<open>Objects\<close>


text \<open>C7: When the cache has a free slot or the page allocator a free page, the slab layer hands out an
  object that was not in use and keeps the cache's invariant; freeing it returns the cache to the
  same set of live objects, freeing it a second time panics, and so does freeing it into another
  cache.
\<close>

theorem slab_object_cycle:
  assumes ok: "cache_ok s ca" and k: "kalloc_inv s"
    and av: "kc_partial (sl_cache s ca) \<noteq> [] \<or> kc_empty (sl_cache s ca) \<noteq> [] \<or> free_pages s \<noteq> {}" and other: "cb \<noteq> ca"
  shows "\<exists>obj s1 s2. slab_alloc_locked ca s = Inr (Some obj, s1) \<and> obj \<notin> objects s ca \<and>
    objects s1 ca = insert obj (objects s ca) \<and> cache_ok s1 ca \<and> kalloc_inv s1 \<and>
    slab_free_locked ca obj s1 = Inr s2 \<and> objects s2 ca = objects s ca \<and> cache_ok s2 ca \<and>
    slab_free_locked ca obj s2 = Inl (Panic ''kmem_cache_free: bad address or double free'') \<and>
    slab_free_locked cb obj s1 = Inl (Panic ''kmem_cache_free: object does not belong to this cache'')"
proof -
  obtain obj s1 where a: "slab_alloc_locked ca s = Inr (Some obj, s1)" "obj \<notin> objects s ca"
    "objects s1 ca = insert obj (objects s ca)" "cache_ok s1 ca" "kalloc_inv s1"
    using slab_alloc_locked_spec [OF ok k av] by blast
  have live: "obj \<in> objects s1 ca" using a(3) by simp
  obtain p i where p: "p \<in> set (slab_pages (sl_cache s1 ca))" "i < unat (kc_slots (sl_cache s1 ca))" "obj = slab_obj (sl_cache s1 ca) p i"
    "page_aligned p" "PGROUNDDW obj = p"
    using objects_obtain [OF a(4) live] by metis
  obtain s2 where b: "slab_free_locked ca obj s1 = Inr s2" "cache_ok s2 ca" "objects s2 ca = objects s1 ca - {obj}"
    "set (slab_pages (sl_cache s2 ca)) = set (slab_pages (sl_cache s1 ca))" "same_geom (sl_cache s1 ca) (sl_cache s2 ca)"
    using slab_free_locked_spec [OF a(4) live] by blast
  have p2: "p \<in> set (slab_pages (sl_cache s2 ca))" "i < unat (kc_slots (sl_cache s2 ca))" "obj = slab_obj (sl_cache s2 ca) p i"
    using p(1-3) b(4) same_geom_simps [OF b(5)] by simp_all
  have "slab_free_locked ca obj s2 = Inl (Panic ''kmem_cache_free: bad address or double free'')"
    using slab_free_locked_dead [OF b(2) p2(1,2)] p2(3) b(3) by simp
  moreover have "sh_cache (sl_slab s1 (PGROUNDDW obj)) = ca" using cache_ok_parts(3) [OF a(4) p(1)] p(5) by (simp add: slab_ok_def)
  then have "slab_free_locked cb obj s1 = Inl (Panic ''kmem_cache_free: object does not belong to this cache'')"
    using slab_free_foreign [of s1 obj cb] other by simp
  ultimately show ?thesis using a b(1-3) by (metis Diff_insert_absorb)
qed

section \<open>A small machine with a cache\<close>

definition demo_slabs :: slabs where
  "demo_slabs = vm.extend demo_vm (slabs.fields (\<lambda>_. \<lparr>sh_cache = 0, sh_inuse = 0, sh_used = []\<rparr>)
     (\<lambda>_. cache_setup 144 0 False False) (\<lambda>_. []) [0xC0, 0xC1] 0xC0 0xC1 0xF0 {} {} 0 {})"

lemma kalloc_inv_extend: "kalloc_inv (vm.extend s x) = kalloc_inv s"
proof -
  have "flag (vm.extend s x) = flag s" by (simp add: flag_def fun_eq_iff vm.defs)
  then show ?thesis by (simp add: kalloc_inv_def layout_ok_def vm.defs)
qed

lemma demo_slabs_ok: "kalloc_inv demo_slabs" "cache_ok demo_slabs 0xC1" "free_pages demo_slabs \<noteq> {}"
proof -
  show "kalloc_inv demo_slabs" using demo_inv by (simp add: demo_slabs_def kalloc_inv_extend vm_inv_def)
  have "geom_ok (cache_setup 144 0 False False)" by (simp add: geom_ok_def cache_setup_def Let_def round_up_def kdefs)
  moreover have "slab_pages (cache_setup 144 0 False False) = []" by (simp add: slab_pages_def cache_setup_def Let_def)
  ultimately show "cache_ok demo_slabs 0xC1" by (simp add: cache_ok_def demo_slabs_def slabs.defs vm.defs slab_pages_def)
  have "PA_TO_KVA 0x4000 \<in> free_pages demo_slabs"
    by (simp add: free_pages_def page_state_def page_aligned_mod PGSIZE_def pa_to_page_def demo_slabs_def demo_vm_def vm.defs
        physmem_seg_def in_seg_def flag_def PGSHIFT_def)
  then show "free_pages demo_slabs \<noteq> {}" by blast
qed

theorem slab_object_cycle_witness:
  "\<exists>obj s1 s2. slab_alloc_locked 0xC1 demo_slabs = Inr (Some obj, s1) \<and> slab_free_locked 0xC1 obj s1 = Inr s2 \<and>
     slab_free_locked 0xC1 obj s2 = Inl (Panic ''kmem_cache_free: bad address or double free'')"
  using slab_object_cycle [OF demo_slabs_ok(2,1), where cb = "0xC0"] demo_slabs_ok(3) by auto

definition demo_slab2 :: slabs where
  "demo_slab2 = demo_slabs\<lparr>km_pages := [\<lparr>pg_next = None, pg_flags = PG_SLAB, pg_refcnt = 1\<rparr>],
     sl_slab := (\<lambda>_. \<lparr>sh_cache = 0xC1, sh_inuse = 2, sh_used = [3, 0, 0, 0]\<rparr>),
     sl_cache := (\<lambda>_. (cache_setup 144 0 False False)\<lparr>kc_partial := [root1]\<rparr>)\<rparr>"

lemma demo_slab2_parts:
  "kc_slots (sl_cache demo_slab2 ca) = 28" "kc_objsize (sl_cache demo_slab2 ca) = 144" "kc_offset (sl_cache demo_slab2 ca) = 64"
  "kc_partial (sl_cache demo_slab2 ca) = [root1]" "kc_full (sl_cache demo_slab2 ca) = []" "kc_empty (sl_cache demo_slab2 ca) = []"
  "sl_slab demo_slab2 p = \<lparr>sh_cache = 0xC1, sh_inuse = 2, sh_used = [3, 0, 0, 0]\<rparr>" "page_state demo_slab2 root1 = Some PG_SLAB"
  by (simp_all add: demo_slab2_def demo_slabs_def slabs.defs vm.defs cache_setup_def Let_def round_up_def kdefs page_state_def
      page_aligned_mod pa_to_page_def demo_vm_def physmem_seg_def in_seg_def flag_def)

lemma demo_slab2_ok: "cache_ok demo_slab2 0xC1" "slab_obj (sl_cache demo_slab2 0xC1) root1 0 \<in> objects demo_slab2 0xC1"
  "slab_obj (sl_cache demo_slab2 0xC1) root1 1 \<in> objects demo_slab2 0xC1"
proof -
  have "i < 28 \<Longrightarrow> bit (3 :: uint64) i \<longleftrightarrow> i < 2" for i using bit_mask_iff [of 2 i, where 'a = "64 word"] by (auto simp: mask_eq_exp_minus_1)
  then have "i < 28 \<Longrightarrow> bit_test [3, 0, 0, 0] i \<longleftrightarrow> i < 2" for i by (simp add: bit_test_iff)
  then have t: "taken_slots (sl_cache demo_slab2 0xC1) (sl_slab demo_slab2 root1) = {0, 1}"
    by (auto simp: taken_slots_def demo_slab2_parts)
  have "page_aligned root1" "SLAB_MAX_OBJS = 256" by (simp_all add: page_aligned_def PA_TO_KVA_def kdefs)
  then show "cache_ok demo_slab2 0xC1" using t
    by (simp add: cache_ok_def slab_ok_def slab_pages_def geom_ok_def demo_slab2_parts bitstr_ok_def)
  show "slab_obj (sl_cache demo_slab2 0xC1) root1 0 \<in> objects demo_slab2 0xC1" "slab_obj (sl_cache demo_slab2 0xC1) root1 1 \<in> objects demo_slab2 0xC1"
    using t by (simp_all add: objects_def slab_pages_def demo_slab2_parts(4-6))
qed


end
