(* ===== verification/Kmalloc.thy ===== *)
theory Kmalloc
  imports SlabSpec
begin

text \<open>
  The variable-size allocator (\<^verbatim>\<open>vm/kmalloc.c\<close>): ten size classes over the slab caches, a whole
  page above them, and a table from the size in 16-byte units to the class.
\<close>

definition KMALLOC_ALIGN :: uint64 where [kdefs]: "KMALLOC_ALIGN = 16"
definition KMALLOC_NCLASS :: nat where [kdefs]: "KMALLOC_NCLASS = 10"
definition KMALLOC_MAX_SLAB :: uint64 where [kdefs]: "KMALLOC_MAX_SLAB = 1024"
definition ZERO_SIZE_PTR :: uintptr where [kdefs]: "ZERO_SIZE_PTR = 16"
definition ZERO_OR_NULL_PTR :: "uintptr \<Rightarrow> bool" where "ZERO_OR_NULL_PTR x \<longleftrightarrow> x \<le> ZERO_SIZE_PTR"

definition kmalloc_size :: "nat list" where "kmalloc_size = [16, 32, 64, 96, 128, 192, 256, 384, 512, 1024]"

record kmallocs = slabs +
  ml_cache :: "uintptr list"
  ml_idx :: "nat list"

text \<open>The inner \<open>while\<close>; \<open>None\<close> is the read past the table that a size above every class would make.\<close>

fun class_seek :: "nat list \<Rightarrow> nat \<Rightarrow> nat \<Rightarrow> nat option" where
  "class_seek [] k sz = None"
| "class_seek (c # cs) k sz = (if c < sz then class_seek cs (Suc k) sz else Some k)"

text \<open>The outer loop, over the sizes \<open>16 * j\<close>: \<open>k\<close> is kept from one size to the next.\<close>

fun idx_fill :: "nat list \<Rightarrow> nat \<Rightarrow> nat list \<Rightarrow> nat list option" where
  "idx_fill [] k tab = Some tab"
| "idx_fill (j # js) k tab =
     (case class_seek (drop k kmalloc_size) k (16 * j) of None \<Rightarrow> None
      | Some k' \<Rightarrow> idx_fill js k' (tab[j := k']))"

definition kmalloc_idx_table :: "nat list option" where
  "kmalloc_idx_table = idx_fill [1..<65] 0 (replicate 65 0)"

fun create_classes :: "nat list \<Rightarrow> kmallocs \<Rightarrow> kmallocs res option" where
  "create_classes [] s = Some (Inr s)"
| "create_classes (z # zs) s =
     (case kmem_cache_create (of_nat z) KMALLOC_ALIGN False s of None \<Rightarrow> None
      | Some (Inl e) \<Rightarrow> Some (Inl e)
      | Some (Inr (None, _)) \<Rightarrow> Some (Inl (Panic ''kmalloc_init: no cache for %u bytes''))
      | Some (Inr (Some c, s')) \<Rightarrow> create_classes zs (s'\<lparr>ml_cache := ml_cache s' @ [c]\<rparr>))"

definition kmalloc_init :: "kmallocs \<Rightarrow> kmallocs res option" where
  "kmalloc_init s =
     (case kmalloc_idx_table of None \<Rightarrow> Some (Inl Fault)
      | Some tab \<Rightarrow> create_classes kmalloc_size (s\<lparr>ml_idx := tab, ml_cache := []\<rparr>))"

definition kmalloc :: "uint64 \<Rightarrow> kmallocs \<Rightarrow> (uintptr option \<times> kmallocs) res option" where
  "kmalloc sz s =
     (if sz = 0 then Some (Inr (Some ZERO_SIZE_PTR, s))
      else if sz \<le> KMALLOC_MAX_SLAB then
        (let r = (sz + KMALLOC_ALIGN - 1) AND NOT (KMALLOC_ALIGN - 1) in
         kmem_cache_alloc (ml_cache s ! (ml_idx s ! unat (r div KMALLOC_ALIGN))) s)
      else if sz \<le> PGSIZE then Some (kpage_alloc kmem_reclaim s)
      else Some (Inr (None, s)))"

definition kfree :: "uintptr \<Rightarrow> kmallocs \<Rightarrow> kmallocs res option" where
  "kfree ptr s =
     (if ZERO_OR_NULL_PTR ptr then Some (Inr s)
      else if kpage_is_slab ptr s then kmem_free ptr s
      else Some (kpage_free ptr s))"

section \<open>The size classes\<close>

definition class_ok :: "nat list \<Rightarrow> nat \<Rightarrow> bool" where
  "class_ok tab j \<longleftrightarrow> tab ! j < KMALLOC_NCLASS \<and> 16 * j \<le> kmalloc_size ! (tab ! j) \<and>
     (\<forall>i < tab ! j. kmalloc_size ! i < 16 * j)"

lemma kmalloc_table: "case kmalloc_idx_table of None \<Rightarrow> False | Some tab \<Rightarrow> length tab = 65 \<and> list_all (class_ok tab) [1..<65]"
  by code_simp

lemma kmalloc_size_units: "i < 10 \<Longrightarrow> 16 dvd kmalloc_size ! i"
proof -
  have "list_all (\<lambda>z. z mod 16 = 0) kmalloc_size" by code_simp
  moreover have "length kmalloc_size = 10" by (simp add: kmalloc_size_def)
  ultimately show "i < 10 \<Longrightarrow> 16 dvd kmalloc_size ! i" unfolding list_all_length dvd_eq_mod_eq_0 by simp
qed

lemma round16:
  assumes "0 < sz" "sz \<le> KMALLOC_MAX_SLAB"
  shows "unat (((sz + KMALLOC_ALIGN - 1) AND NOT (KMALLOC_ALIGN - 1)) div KMALLOC_ALIGN) = (unat sz + 15) div 16"
proof -
  have r: "(sz + KMALLOC_ALIGN - 1) AND NOT (KMALLOC_ALIGN - 1) = round_up sz 16" by (simp add: round_up_def KMALLOC_ALIGN_def)
  have "unat sz \<le> 1024" using assms(2) by (simp add: word_le_nat_alt KMALLOC_MAX_SLAB_def)
  then have "unat (round_up sz 16) = (unat sz + 15) div 16 * 16" using round_up_spec(1) [of 16 4 sz] by simp
  then show ?thesis unfolding r by (simp add: unat_div KMALLOC_ALIGN_def)
qed

text \<open>With the table \<open>kmalloc_init\<close> builds, a request of 1 to 1024 bytes goes to the smallest of the
  ten classes that holds it; a request of no bytes yields the marker that \<open>kfree\<close> ignores; above
  1024 bytes it takes one page, and above a page it fails without touching the state.
\<close>

theorem kmalloc_dispatch:
  fixes s :: kmallocs
  assumes tab: "kmalloc_idx_table = Some (ml_idx s)"
  shows "(0 < sz \<longrightarrow> sz \<le> KMALLOC_MAX_SLAB \<longrightarrow> (\<exists>k < KMALLOC_NCLASS. kmalloc sz s = kmem_cache_alloc (ml_cache s ! k) s \<and>
      unat sz \<le> kmalloc_size ! k \<and> (\<forall>i < k. kmalloc_size ! i < unat sz))) \<and>
    kmalloc 0 s = Some (Inr (Some ZERO_SIZE_PTR, s)) \<and> kfree ZERO_SIZE_PTR s = Some (Inr s) \<and> kfree 0 s = Some (Inr s) \<and>
    (KMALLOC_MAX_SLAB < sz \<longrightarrow> sz \<le> PGSIZE \<longrightarrow> kmalloc sz s = Some (kpage_alloc kmem_reclaim s)) \<and>
    (PGSIZE < sz \<longrightarrow> kmalloc sz s = Some (Inr (None, s)))"
proof -
  have ok: "class_ok (ml_idx s) j" if "1 \<le> j" "j < 65" for j
    using kmalloc_table that by (simp add: tab list_all_iff)
  have small: "\<exists>k < KMALLOC_NCLASS. kmalloc sz s = kmem_cache_alloc (ml_cache s ! k) s \<and> unat sz \<le> kmalloc_size ! k \<and>
      (\<forall>i < k. kmalloc_size ! i < unat sz)" if sz: "0 < sz" "sz \<le> KMALLOC_MAX_SLAB"
  proof -
    let ?j = "(unat sz + 15) div 16"
    have u: "0 < unat sz" "unat sz \<le> 1024" using sz by (simp_all add: word_less_nat_alt word_le_nat_alt KMALLOC_MAX_SLAB_def)
    have j: "1 \<le> ?j" "?j < 65" using u by linarith+
    let ?k = "ml_idx s ! ?j"
    have c: "?k < 10" "16 * ?j \<le> kmalloc_size ! ?k" "\<And>i. i < ?k \<Longrightarrow> kmalloc_size ! i < 16 * ?j"
      using ok [OF j] by (simp_all add: class_ok_def KMALLOC_NCLASS_def)
    have run: "kmalloc sz s = kmem_cache_alloc (ml_cache s ! ?k) s" using sz round16 [OF sz] by (auto simp: kmalloc_def Let_def)
    have "kmalloc_size ! i < unat sz" if i: "i < ?k" for i
    proof -
      obtain d where d: "kmalloc_size ! i = 16 * d" using kmalloc_size_units [of i] i c(1) by (auto elim!: dvdE)
      then show ?thesis using c(3) [OF i] by simp
    qed
    moreover have "unat sz \<le> 16 * ?j" by linarith
    ultimately show ?thesis using run c(1,2) by (intro exI [of _ ?k]) (simp add: KMALLOC_NCLASS_def)
  qed
  have big: "kmalloc sz s = Some (kpage_alloc kmem_reclaim s)" if "KMALLOC_MAX_SLAB < sz" "sz \<le> PGSIZE"
    using that by (auto simp: kmalloc_def kdefs)
  have huge: "kmalloc sz s = Some (Inr (None, s))" if "PGSIZE < sz"
  proof -
    have "sz \<noteq> 0" "\<not> sz \<le> KMALLOC_MAX_SLAB" "\<not> sz \<le> PGSIZE" using that by (auto simp: kdefs word_less_nat_alt word_le_nat_alt)
    then show ?thesis by (simp add: kmalloc_def)
  qed
  show ?thesis using small big huge by (simp add: kmalloc_def kfree_def ZERO_OR_NULL_PTR_def)
qed

definition demo_kmalloc :: kmallocs where
  "demo_kmalloc = slabs.extend demo_slabs (kmallocs.fields [] (the kmalloc_idx_table))"

theorem kmalloc_dispatch_witness:
  "\<exists>k < KMALLOC_NCLASS. kmalloc 100 demo_kmalloc = kmem_cache_alloc (ml_cache demo_kmalloc ! k) demo_kmalloc \<and> 100 \<le> kmalloc_size ! k"
proof -
  have "kmalloc_idx_table \<noteq> None" using kmalloc_table by (metis option.simps(4))
  then have "kmalloc_idx_table = Some (the kmalloc_idx_table)" by (metis option.collapse)
  moreover have "ml_idx demo_kmalloc = the kmalloc_idx_table" by (simp only: demo_kmalloc_def slabs.defs kmallocs.defs kmallocs.select_convs)
  ultimately have "kmalloc_idx_table = Some (ml_idx demo_kmalloc)" by metis
  from kmalloc_dispatch [OF this, of 100] show ?thesis by (auto simp: KMALLOC_MAX_SLAB_def)
qed

end
