(* ===== verification/Elf.thy ===== *)
theory Elf
  imports Uvm
begin

text \<open>
  Loading a program (\<^verbatim>\<open>kern/exec.c\<close>: \<open>load_segment\<close>, \<open>loadelf\<close>; \<^verbatim>\<open>sys/elf.h\<close>). An image is the list of
  bytes between its two linker labels; \<open>size\<close> is its length. A read outside it is a \<open>Fault\<close>. Pages are
  512 words in the store of the page tables, so \<open>memcpy\<close> into a page sets bytes of words. The messages
  \<open>loadelf\<close> prints are left out; \<open>-1\<close> is the result \<open>None\<close>.
\<close>

section \<open>Bytes of words\<close>

fun le_word :: "uint8 list \<Rightarrow> 'a::len word" where
  "le_word [] = 0"
| "le_word (b # bs) = ucast b OR push_bit 8 (le_word bs)"

definition get_byte :: "(nat \<Rightarrow> uint64) \<Rightarrow> nat \<Rightarrow> uint8" where
  "get_byte w k = ucast (drop_bit (8 * (k mod 8)) (w (k div 8)))"

definition put_words :: "nat \<Rightarrow> uint8 list \<Rightarrow> (nat \<Rightarrow> uint64) \<Rightarrow> nat \<Rightarrow> uint64" where
  "put_words off bs w i =
     le_word (map (\<lambda>j. let k = 8 * i + j in if off \<le> k \<and> k < off + length bs then bs ! (k - off) else get_byte w k) [0..<8])"

text \<open>\<^verbatim>\<open>memcpy(page + off, bytes, n)\<close>.\<close>

definition put_bytes :: "uintptr \<Rightarrow> nat \<Rightarrow> uint8 list \<Rightarrow> 'a vm_scheme \<Rightarrow> 'a vm_scheme" where
  "put_bytes p off bs s = s\<lparr>vm_page := (vm_page s)(p := put_words off bs (vm_page s p))\<rparr>"

lemma bit_le_word:
  "bit (le_word bs :: 'a::len word) n \<longleftrightarrow> n < LENGTH('a) \<and> n < 8 * length bs \<and> bit (bs ! (n div 8)) (n mod 8)"
proof (induction bs arbitrary: n)
  case (Cons b bs)
  show ?case
  proof (cases "n < 8")
    case True
    then show ?thesis by (auto simp: bit_or_iff bit_push_bit_iff bit_ucast_iff)
  next
    case False
    then have "n div 8 = Suc ((n - 8) div 8)" "n mod 8 = (n - 8) mod 8" "\<not> bit b n"
      by (simp_all add: le_div_geq le_mod_geq bit_word.rep_eq not_less)
    then show ?thesis using Cons.IH [of "n - 8"] False by (auto simp: bit_or_iff bit_push_bit_iff bit_ucast_iff)
  qed
qed simp

lemma le_word_byte:
  assumes "j < length bs" "length bs \<le> 8"
  shows "ucast (drop_bit (8 * j) (le_word bs :: uint64)) = bs ! j"
proof (rule bit_word_eqI)
  fix n assume n: "n < LENGTH(8)"
  then have "(8 * j + n) div 8 = j" "(8 * j + n) mod 8 = n" by simp_all
  then show "bit (ucast (drop_bit (8 * j) (le_word bs :: uint64)) :: uint8) n = bit (bs ! j) n"
    using n assms by (simp add: bit_ucast_iff bit_drop_bit_eq bit_le_word)
qed

lemma get_put_words:
  "get_byte (put_words off bs w) k = (if off \<le> k \<and> k < off + length bs then bs ! (k - off) else get_byte w k)"
proof -
  let ?f = "\<lambda>j. let k' = 8 * (k div 8) + j in if off \<le> k' \<and> k' < off + length bs then bs ! (k' - off) else get_byte w k'"
  have "get_byte (put_words off bs w) k = map ?f [0..<8] ! (k mod 8)"
    unfolding get_byte_def put_words_def by (rule le_word_byte) simp_all
  also have "\<dots> = ?f (k mod 8)" by simp
  finally show ?thesis by (simp add: Let_def)
qed

lemma get_byte_zero [simp]: "get_byte (\<lambda>_. 0) k = 0"
  by (simp add: get_byte_def)

section \<open>The headers\<close>

record elfhdr =
  eh_ident :: "uint8 list"
  eh_type :: uint16
  eh_machine :: uint16
  eh_version :: uint32
  eh_entry :: uint64
  eh_phoff :: uint64
  eh_shoff :: uint64
  eh_flags :: uint32
  eh_ehsize :: uint16
  eh_phentsize :: uint16
  eh_phnum :: uint16
  eh_shentsize :: uint16
  eh_shnum :: uint16
  eh_shstrndx :: uint16

record proghdr =
  ph_type :: uint32
  ph_flags :: uint32
  ph_off :: uint64
  ph_vaddr :: uint64
  ph_paddr :: uint64
  ph_filesz :: uint64
  ph_memsz :: uint64
  ph_align :: uint64

definition SIZEOF_ELFHDR :: uint64 where [kdefs]: "SIZEOF_ELFHDR = 64"
definition SIZEOF_PROGHDR :: uint64 where [kdefs]: "SIZEOF_PROGHDR = 56"
definition ELFMAG :: "uint8 list" where [kdefs]: "ELFMAG = [0x7F, 0x45, 0x4C, 0x46]"
definition EI_CLASS :: nat where [kdefs]: "EI_CLASS = 4"
definition EI_DATA :: nat where [kdefs]: "EI_DATA = 5"
definition ELFCLASS64 :: uint8 where [kdefs]: "ELFCLASS64 = 2"
definition ELFDATA2LSB :: uint8 where [kdefs]: "ELFDATA2LSB = 1"
definition ET_EXEC :: uint16 where [kdefs]: "ET_EXEC = 2"
definition EM_AARCH64 :: uint16 where [kdefs]: "EM_AARCH64 = 183"
definition PT_LOAD :: uint32 where [kdefs]: "PT_LOAD = 1"

definition le_field :: "uint8 list \<Rightarrow> nat \<Rightarrow> nat \<Rightarrow> 'a::len word" where
  "le_field bs off n = le_word (take n (drop off bs))"

text \<open>The cast of a pointer to the image to \<^verbatim>\<open>struct elfhdr *\<close> and \<^verbatim>\<open>struct proghdr *\<close>.\<close>

definition elfhdr_of :: "uint8 list \<Rightarrow> elfhdr" where
  "elfhdr_of bs = \<lparr>eh_ident = take 16 bs, eh_type = le_field bs 16 2, eh_machine = le_field bs 18 2, eh_version = le_field bs 20 4,
     eh_entry = le_field bs 24 8, eh_phoff = le_field bs 32 8, eh_shoff = le_field bs 40 8, eh_flags = le_field bs 48 4,
     eh_ehsize = le_field bs 52 2, eh_phentsize = le_field bs 54 2, eh_phnum = le_field bs 56 2, eh_shentsize = le_field bs 58 2,
     eh_shnum = le_field bs 60 2, eh_shstrndx = le_field bs 62 2\<rparr>"

definition proghdr_of :: "uint8 list \<Rightarrow> proghdr" where
  "proghdr_of bs = \<lparr>ph_type = le_field bs 0 4, ph_flags = le_field bs 4 4, ph_off = le_field bs 8 8, ph_vaddr = le_field bs 16 8,
     ph_paddr = le_field bs 24 8, ph_filesz = le_field bs 32 8, ph_memsz = le_field bs 40 8, ph_align = le_field bs 48 8\<rparr>"

text \<open>Bytes \<open>[off, off + n)\<close> of the image.\<close>

definition image_bytes :: "uint8 list \<Rightarrow> uint64 \<Rightarrow> uint64 \<Rightarrow> uint8 list res" where
  "image_bytes img off n = (if unat off + unat n \<le> length img then Inr (take (unat n) (drop (unat off) img)) else Inl Fault)"

section \<open>Segments\<close>

definition load_page :: "'a reclaim \<Rightarrow> uintptr \<Rightarrow> uintptr \<Rightarrow> uint8 list \<Rightarrow> uint64 \<Rightarrow> uint64 \<Rightarrow> 'a vm_scheme \<Rightarrow> (bool \<times> 'a vm_scheme) res" where
  "load_page rc pagetable va img src copy_now s =
     rbind (kpage_alloc rc s) (\<lambda>(m, s1).
       case m of None \<Rightarrow> Inr (False, s1)
       | Some page \<Rightarrow>
           rbind (if copy_now > 0 then image_bytes img src copy_now else Inr []) (\<lambda>bs.
           rbind (mappages rc pagetable (USER_BASE + va) (KVA_TO_PA page) PGSIZE PAGE_USER (put_bytes page 0 bs (zero_page page s1)))
             (\<lambda>(ok, s2). if ok then Inr (True, s2) else rbind (kpage_free page s2) (\<lambda>s3. Inr (False, s3)))))"

lemma mappages_True:
  assumes "mappages rc t a pa PGSIZE perm s = Inr (True, s')"
  shows "PGROUNDDW a < MAXUVA"
  using assms by (auto simp: mappages_def mappages_loop.simps [of _ _ "PGROUNDDW a"] rbind_Inr_iff dest!: walk_Inr)

lemma load_page_True:
  assumes "load_page rc t va img src n s = Inr (True, s')"
  shows "PGROUNDDW va < MAXUVA"
  using assms by (auto simp: load_page_def rbind_Inr_iff USER_BASE_def split: option.splits if_splits dest: mappages_True)

function load_pages :: "'a reclaim \<Rightarrow> uintptr \<Rightarrow> uint8 list \<Rightarrow> uintptr \<Rightarrow> uintptr \<Rightarrow> uint64 \<Rightarrow> uint64 \<Rightarrow> 'a vm_scheme
     \<Rightarrow> (bool \<times> 'a vm_scheme) res" where
  "load_pages rc pagetable img va va_end src file_remaining s =
     (if va < va_end then
        (let copy_now = (if file_remaining < PGSIZE then file_remaining else PGSIZE) in
         case load_page rc pagetable va img src copy_now s of Inl e \<Rightarrow> Inl e
         | Inr r \<Rightarrow> if fst r then load_pages rc pagetable img (va + PGSIZE) va_end (src + copy_now) (file_remaining - copy_now) (snd r)
             else Inr (False, snd r))
      else Inr (True, s))"
  by pat_completeness auto
termination
proof (relation "measure (\<lambda>(rc, t, img, va, va_end, src, n, s). 2 ^ 48 - unat va)", goal_cases)
  case (2 rc t img va va_end src n s k r)
  then have "PGROUNDDW va < MAXUVA" using load_page_True by (cases r) auto
  then have "unat va div 4096 * 4096 < 2 ^ 48" by (simp add: word_less_nat_alt unat_PGROUNDDW MAXUVA_def)
  then have "va < MAXUVA" by (simp add: word_less_nat_alt MAXUVA_def)
  from page_step_measure [OF this] show ?case by simp
qed simp

declare load_pages.simps [simp del]

definition load_segment :: "'a reclaim \<Rightarrow> uintptr \<Rightarrow> uint8 list \<Rightarrow> uint64 \<Rightarrow> proghdr \<Rightarrow> 'a vm_scheme \<Rightarrow> (bool \<times> 'a vm_scheme) res" where
  "load_segment rc pagetable img src ph s =
     (if ph_vaddr ph AND (PGSIZE - 1) \<noteq> 0 then Inr (False, s)
      else if ph_memsz ph < ph_filesz ph then Inr (False, s)
      else load_pages rc pagetable img (ph_vaddr ph) (ph_vaddr ph + ph_memsz ph) src (ph_filesz ph) s)"

section \<open>The whole image\<close>

definition phdr_off :: "elfhdr \<Rightarrow> nat \<Rightarrow> uint64" where
  "phdr_off eh i = eh_phoff eh + of_nat i * ucast (eh_phentsize eh)"

text \<open>One program header: \<open>None\<close> the return of \<open>-1\<close>, or the new \<open>max_end\<close>.\<close>

definition load_phdr :: "'a reclaim \<Rightarrow> uintptr \<Rightarrow> uint8 list \<Rightarrow> elfhdr \<Rightarrow> nat \<Rightarrow> uint64 \<Rightarrow> 'a vm_scheme \<Rightarrow> (uint64 option \<times> 'a vm_scheme) res" where
  "load_phdr rc pagetable img eh i max_end s =
     (let size = of_nat (length img) in
      if phdr_off eh i + SIZEOF_PROGHDR > size then Inr (None, s)
      else rbind (image_bytes img (phdr_off eh i) SIZEOF_PROGHDR) (\<lambda>bs.
        let ph = proghdr_of bs in
        if ph_type ph \<noteq> PT_LOAD then Inr (Some max_end, s)
        else if ph_memsz ph < ph_filesz ph then Inr (None, s)
        else if ph_vaddr ph + ph_memsz ph < ph_vaddr ph then Inr (None, s)
        else if ph_vaddr ph + ph_memsz ph > MAXUVA then Inr (None, s)
        else if ph_off ph + ph_filesz ph > size then Inr (None, s)
        else rbind (load_segment rc pagetable img (ph_off ph) ph s) (\<lambda>(ok, s1).
          if \<not> ok then Inr (None, s1)
          else let end' = ph_vaddr ph + ph_memsz ph in Inr (Some (if end' > max_end then end' else max_end), s1))))"

fun load_phdrs :: "'a reclaim \<Rightarrow> uintptr \<Rightarrow> uint8 list \<Rightarrow> elfhdr \<Rightarrow> nat list \<Rightarrow> uint64 \<Rightarrow> 'a vm_scheme \<Rightarrow> (uint64 option \<times> 'a vm_scheme) res" where
  "load_phdrs rc pagetable img eh [] max_end s = Inr (Some max_end, s)"
| "load_phdrs rc pagetable img eh (i # is) max_end s =
     rbind (load_phdr rc pagetable img eh i max_end s) (\<lambda>(r, s1).
       case r of None \<Rightarrow> Inr (None, s1) | Some m \<Rightarrow> load_phdrs rc pagetable img eh is m s1)"

text \<open>The tests on the file header, in the order of the code; each failure is the same \<open>-1\<close>.\<close>

definition elf_header_ok :: "uint8 list \<Rightarrow> bool" where
  "elf_header_ok img \<longleftrightarrow>
     \<not> of_nat (length img) < SIZEOF_ELFHDR \<and>
     (let eh = elfhdr_of img in
      take 4 (eh_ident eh) = ELFMAG \<and> eh_ident eh ! EI_CLASS = ELFCLASS64 \<and> eh_ident eh ! EI_DATA = ELFDATA2LSB \<and>
      eh_machine eh = EM_AARCH64 \<and> eh_type eh = ET_EXEC \<and> ucast (eh_phentsize eh) = SIZEOF_PROGHDR)"

definition loadelf :: "'a reclaim \<Rightarrow> uintptr \<Rightarrow> uint8 list \<Rightarrow> 'a vm_scheme \<Rightarrow> ((uintptr \<times> uint64) option \<times> 'a vm_scheme) res" where
  "loadelf rc pagetable img s =
     (if \<not> elf_header_ok img then Inr (None, s)
      else let eh = elfhdr_of img in
        rbind (load_phdrs rc pagetable img eh [0..<unat (eh_phnum eh)] 0 s) (\<lambda>(r, s1).
          case r of None \<Rightarrow> Inr (None, s1)
          | Some max_end \<Rightarrow> if max_end = 0 then Inr (None, s1) else Inr (Some (eh_entry eh, PGROUNDUP max_end), s1)))"

section \<open>What a segment looks like once loaded\<close>

text \<open>Page \<open>k0 + j\<close> of the segment holds bytes \<open>[4096 j, 4096 j + 4096)\<close> of \<open>bs\<close>, padded with zeroes.\<close>

definition seg_page :: "uint8 list \<Rightarrow> nat \<Rightarrow> nat \<Rightarrow> uint64" where
  "seg_page bs j = put_words 0 (take 4096 (drop (4096 * j) bs)) (\<lambda>_. 0)"

definition seg_loaded :: "'a vm_scheme \<Rightarrow> 'a vm_scheme \<Rightarrow> uintptr \<Rightarrow> nat \<Rightarrow> nat \<Rightarrow> uint8 list \<Rightarrow> (nat \<rightharpoonup> pte_t) \<Rightarrow> bool" where
  "seg_loaded s s' t k0 n bs m \<longleftrightarrow> uvm_rel s s' t (uvm_map s t ++ m) \<and> dom m = {k0..<k0 + n} \<and>
     (\<forall>j < n. \<exists>e. m (k0 + j) = Some e \<and> e = KVA_TO_PA (pte_child e) OR PAGE_USER \<and> vm_page s' (pte_child e) = seg_page bs j)"

lemma Max_insert2: "finite A \<Longrightarrow> Max (insert (max a b) A) = Max (insert a (insert (b :: 'b::linorder) A))"
  by (cases "A = {}") (simp_all add: ac_simps)

lemma get_seg_page:
  "get_byte (seg_page bs (d div 4096)) (d mod 4096) = (if d < length bs then bs ! d else 0)"
proof -
  have d: "4096 * (d div 4096) + d mod 4096 = d" "d mod 4096 < 4096" by simp_all
  show ?thesis
  proof (cases "d < length bs")
    case True
    then have "d mod 4096 < length bs - 4096 * (d div 4096)" using d by linarith
    then show ?thesis using True d by (simp add: seg_page_def get_put_words)
  next
    case False
    then have "\<not> d mod 4096 < length bs - 4096 * (d div 4096)" using d by linarith
    then show ?thesis using False by (simp add: seg_page_def get_put_words)
  qed
qed

lemma seg_page_0: "seg_page bs 0 = put_words 0 (take 4096 bs) (\<lambda>_. 0)"
  by (simp add: seg_page_def)

lemma seg_page_Suc: "seg_page bs (Suc j) = seg_page (drop 4096 bs) j"
  by (simp add: seg_page_def add.commute)

definition user_byte :: "'a vm_scheme \<Rightarrow> uintptr \<Rightarrow> nat \<Rightarrow> uint8 option" where
  "user_byte s t v = map_option (\<lambda>e. get_byte (vm_page s (pte_child e)) (v mod 4096)) (uvm_map s t (v div 4096))"

lemma user_byte_kept:
  assumes "uvm_rel s s' t (uvm_map s t ++ m)" "v div 4096 \<notin> dom m" "user_byte s t v = Some b"
  shows "user_byte s' t v = Some b"
proof -
  obtain e where e: "uvm_map s t (v div 4096) = Some e" "b = get_byte (vm_page s (pte_child e)) (v mod 4096)"
    using assms(3) by (auto simp: user_byte_def)
  then have e': "(uvm_map s t ++ m) (v div 4096) = Some e" using assms(2) by (simp add: map_add_def domIff)
  show ?thesis using uvm_rel_map [OF assms(1)] uvm_rel_content [OF assms(1) e(1) e'] e e' by (simp add: user_byte_def)
qed

text \<open>A segment the loader can place: aligned, below \<open>MAXUVA\<close>, its bytes inside the image.\<close>

definition seg_ok :: "uint8 list \<Rightarrow> proghdr \<Rightarrow> bool" where
  "seg_ok img ph \<longleftrightarrow> page_aligned (ph_vaddr ph) \<and> unat (ph_filesz ph) \<le> unat (ph_memsz ph) \<and>
     unat (ph_vaddr ph) + unat (ph_memsz ph) \<le> 2 ^ 48 \<and> unat (ph_off ph) + unat (ph_filesz ph) \<le> length img"

definition seg_pages :: "proghdr \<Rightarrow> nat set" where
  "seg_pages ph = {unat (ph_vaddr ph) div 4096..<(unat (ph_vaddr ph) + unat (ph_memsz ph) + 4095) div 4096}"

definition seg_in_memory :: "'a vm_scheme \<Rightarrow> uintptr \<Rightarrow> uint8 list \<Rightarrow> proghdr \<Rightarrow> bool" where
  "seg_in_memory s t img ph \<longleftrightarrow> (\<forall>d < unat (ph_memsz ph).
     user_byte s t (unat (ph_vaddr ph) + d) = Some (if d < unat (ph_filesz ph) then img ! (unat (ph_off ph) + d) else 0))"

lemma seg_page_of: "d < unat (ph_memsz ph) \<Longrightarrow> (unat (ph_vaddr ph) + d) div 4096 \<in> seg_pages ph"
  unfolding seg_pages_def by (auto intro: div_le_mono)

lemma seg_in_memory_kept:
  assumes "uvm_rel s s' t (uvm_map s t ++ m)" "dom m \<inter> seg_pages ph = {}" "seg_in_memory s t img ph"
  shows "seg_in_memory s' t img ph"
  unfolding seg_in_memory_def
proof (intro allI impI)
  fix d assume d: "d < unat (ph_memsz ph)"
  then have "(unat (ph_vaddr ph) + d) div 4096 \<notin> dom m" using assms(2) seg_page_of by blast
  then show "user_byte s' t (unat (ph_vaddr ph) + d) = Some (if d < unat (ph_filesz ph) then img ! (unat (ph_off ph) + d) else 0)"
    by (rule user_byte_kept [OF assms(1)]) (use assms(3) d in \<open>simp add: seg_in_memory_def\<close>)
qed

lemma seg_loaded_memory:
  assumes l: "seg_loaded s s' t (vpn (ph_vaddr ph)) n (take (unat (ph_filesz ph)) (drop (unat (ph_off ph)) img)) m"
    and ok: "seg_ok img ph" and n: "unat (ph_memsz ph) \<le> 4096 * n"
  shows "seg_in_memory s' t img ph"
  unfolding seg_in_memory_def
proof (intro allI impI)
  fix d assume d: "d < unat (ph_memsz ph)"
  let ?bs = "take (unat (ph_filesz ph)) (drop (unat (ph_off ph)) img)"
  obtain q where q: "unat (ph_vaddr ph) = 4096 * q" using ok by (auto simp: seg_ok_def page_aligned_def elim!: dvdE)
  have dn: "d div 4096 < n" using d n by (simp add: div_less_iff_less_mult)
  obtain e where e: "m (vpn (ph_vaddr ph) + d div 4096) = Some e" "vm_page s' (pte_child e) = seg_page ?bs (d div 4096)"
    using l dn unfolding seg_loaded_def by blast
  have idx: "(unat (ph_vaddr ph) + d) div 4096 = vpn (ph_vaddr ph) + d div 4096" "(unat (ph_vaddr ph) + d) mod 4096 = d mod 4096"
    by (simp_all add: q vpn_def)
  have "uvm_map s' t (vpn (ph_vaddr ph) + d div 4096) = Some e"
    using l e(1) uvm_rel_map unfolding seg_loaded_def by (metis map_add_find_right)
  then have "user_byte s' t (unat (ph_vaddr ph) + d) = Some (get_byte (seg_page ?bs (d div 4096)) (d mod 4096))"
    by (simp add: user_byte_def idx e(2))
  also have "get_byte (seg_page ?bs (d div 4096)) (d mod 4096) = (if d < length ?bs then ?bs ! d else 0)"
    by (rule get_seg_page)
  also have "\<dots> = (if d < unat (ph_filesz ph) then img ! (unat (ph_off ph) + d) else 0)" using ok by (auto simp: seg_ok_def)
  finally show "user_byte s' t (unat (ph_vaddr ph) + d) = Some (if d < unat (ph_filesz ph) then img ! (unat (ph_off ph) + d) else 0)" .
qed

context page_store
begin

lemma load_page_spec:
  assumes s: "inv s" "pt_ok s 4 t" and a: "page_aligned a" "a < MAXUVA" and none: "uvm_map s t (vpn a) = None"
    and b: "(if n > 0 then image_bytes img src n else Inr []) = Inr bs"
  shows "\<exists>ok s'. load_page rc t a img src n s = Inr (ok, s') \<and> inv s' \<and> pt_ok s' 4 t \<and>
    (if ok then \<exists>mem. mem \<notin> used_pages s \<and> mem \<in> used_pages s' \<and>
         uvm_rel s s' t ((uvm_map s t)(vpn a \<mapsto> KVA_TO_PA mem OR PAGE_USER)) \<and> vm_page s' mem = put_words 0 bs (\<lambda>_. 0)
     else uvm_rel s s' t (uvm_map s t))"
proof -
  let ?fill = "\<lambda>mem s1. put_bytes mem 0 bs (zero_page mem s1)"
  have f: "?fill mem s1 = s1\<lparr>vm_page := (vm_page s1)(mem := put_words 0 bs (\<lambda>_. 0))\<rparr>" for mem and s1 :: "'a vm_scheme"
    by (simp add: put_bytes_def zero_page_def)
  have "install ?fill PAGE_USER t a s = load_page rc t a img src n s"
    by (simp only: install_def load_page_def USER_BASE_def add_0_left b rbind_simps)
  then show ?thesis
    using install_spec [OF s a none PAGE_USER_attrs, of ?fill "\<lambda>_. put_words 0 bs (\<lambda>_. 0)", OF f refl] by (simp only:) blast
qed

text \<open>The loop: \<open>n\<close> more pages and the bytes \<open>bs\<close> of the file that are still to be placed.\<close>

lemma load_pages_spec:
  assumes "inv s" "pt_ok s 4 t" "page_aligned va" "vpn va + n = npages va_end" "unat va_end \<le> 2 ^ 48"
    and "unat src + unat rem \<le> length img" "bs = take (unat rem) (drop (unat src) img)" "length img < 2 ^ 64"
    and "\<And>k. vpn va \<le> k \<Longrightarrow> k < vpn va + n \<Longrightarrow> uvm_map s t k = None"
  shows "\<exists>ok s' m. load_pages rc t img va va_end src rem s = Inr (ok, s') \<and> inv s' \<and> pt_ok s' 4 t \<and>
    (if ok then seg_loaded s s' t (vpn va) n bs m else uvm_rel s s' t (uvm_map s t ++ m) \<and> dom m \<subseteq> {vpn va..<vpn va + n})"
  using assms(1-4,6,7,9)
proof (induction n arbitrary: s va src rem bs)
  case 0
  then have "\<not> va < va_end" using less_npages [OF "0.prems"(3), of va_end] by (simp add: word_less_nat_alt)
  then show ?case using "0.prems"(1,2) uvm_rel_refl [of s t]
    by (subst load_pages.simps) (auto simp: seg_loaded_def intro!: exI [of _ Map.empty])
next
  case (Suc n)
  have lt: "va < va_end" using less_npages [OF Suc.prems(3), of va_end] Suc.prems(4) by (simp add: word_less_nat_alt)
  then have amax: "va < MAXUVA" "unat va \<le> 2 ^ 48" using assms(5) by (simp_all add: word_less_nat_alt MAXUVA_def)
  let ?n = "if rem < PGSIZE then rem else PGSIZE"
  have un: "unat ?n = min 4096 (unat rem)" by (auto simp: PGSIZE_def word_less_nat_alt)
  have le: "?n \<le> rem" by (simp add: not_less)
  have bs: "(if ?n > 0 then image_bytes img src ?n else Inr []) = Inr (take 4096 bs)"
  proof -
    have "unat ?n = 0" if "\<not> ?n > 0" using that by (simp add: word_less_nat_alt)
    then show ?thesis using Suc.prems(5,6) un by (cases "?n > 0") (auto simp: image_bytes_def min.commute take_take)
  qed
  obtain ok s1 where p: "load_page rc t va img src ?n s = Inr (ok, s1)" "inv s1" "pt_ok s1 4 t"
    "if ok then \<exists>mem. mem \<notin> used_pages s \<and> mem \<in> used_pages s1 \<and> uvm_rel s s1 t ((uvm_map s t)(vpn va \<mapsto> KVA_TO_PA mem OR PAGE_USER)) \<and> vm_page s1 mem = put_words 0 (take 4096 bs) (\<lambda>_. 0)
     else uvm_rel s s1 t (uvm_map s t)"
    using load_page_spec [OF Suc.prems(1,2,3) amax(1) _ bs] Suc.prems(7) [of "vpn va"] by auto
  show ?case
  proof (cases ok)
    case False
    then have "load_pages rc t img va va_end src rem s = Inr (False, s1)" using p(1) lt by (subst load_pages.simps) (simp add: Let_def)
    moreover have "uvm_rel s s1 t (uvm_map s t ++ Map.empty)" using p(4) False by simp
    ultimately show ?thesis using p(2,3) by (intro exI [of _ False] exI [of _ s1] exI [of _ Map.empty]) simp
  next
    case True
    then obtain mem where mem: "mem \<in> used_pages s1" "vm_page s1 mem = seg_page bs 0"
      "uvm_rel s s1 t ((uvm_map s t)(vpn va \<mapsto> KVA_TO_PA mem OR PAGE_USER))" using p(4) by (auto simp: seg_page_0)
    let ?e = "KVA_TO_PA mem OR PAGE_USER"
    have che: "pte_child ?e = mem" using used_range [OF p(2) mem(1)] pte_make_child(1) PAGE_USER_attrs by blast
    note map1 = uvm_rel_map [OF mem(3)]
    have step: "vpn (va + PGSIZE) = Suc (vpn va)" "page_aligned (va + PGSIZE)"
      by (rule vpn_page_step [OF Suc.prems(3)], use amax in simp)+
    have usr: "unat (src + ?n) = unat src + unat ?n" using Suc.prems(5) assms(8) un by (subst unat_add64) simp_all
    have urm: "unat (rem - ?n) = unat rem - unat ?n" by (rule unat_sub_no_wrap [OF le])
    have pre: "vpn (va + PGSIZE) + n = npages va_end" "unat (src + ?n) + unat (rem - ?n) \<le> length img"
      "drop 4096 bs = take (unat (rem - ?n)) (drop (unat (src + ?n)) img)"
      "\<And>k. vpn (va + PGSIZE) \<le> k \<Longrightarrow> k < vpn (va + PGSIZE) + n \<Longrightarrow> uvm_map s1 t k = None"
      using Suc.prems(4-7) step(1) un usr urm map1 by (auto simp: drop_take add.commute min_def)
    obtain ok' s' m where r: "load_pages rc t img (va + PGSIZE) va_end (src + ?n) (rem - ?n) s1 = Inr (ok', s')" "inv s'" "pt_ok s' 4 t"
      "if ok' then seg_loaded s1 s' t (vpn (va + PGSIZE)) n (drop 4096 bs) m
       else uvm_rel s1 s' t (uvm_map s1 t ++ m) \<and> dom m \<subseteq> {vpn (va + PGSIZE)..<vpn (va + PGSIZE) + n}"
      using Suc.IH [OF p(2,3) step(2) pre(1,2,3,4)] by blast
    have rel1: "uvm_rel s1 s' t (uvm_map s1 t ++ m)" and dm: "dom m \<subseteq> {Suc (vpn va)..<Suc (vpn va) + n}"
      using r(4) unfolding seg_loaded_def step(1) by (auto split: if_splits)
    have m0: "m (vpn va) = None" using dm by (metis atLeastLessThan_iff domIff not_less_eq_eq order_refl subsetD)
    let ?m = "[vpn va \<mapsto> ?e] ++ m"
    have mm: "uvm_map s1 t ++ m = uvm_map s t ++ ?m" unfolding map1 by (auto simp: fun_eq_iff map_add_def m0 split: option.split)
    have rel: "uvm_rel s s' t (uvm_map s t ++ ?m)"
    proof (rule uvm_rel_trans [OF mem(3) rel1 [unfolded mm]])
      fix k e assume k: "uvm_map s t k = Some e"
      then show "((uvm_map s t)(vpn va \<mapsto> ?e)) k = Some e" using Suc.prems(7) [of "vpn va"] by auto
    qed
    have run: "load_pages rc t img va va_end src rem s = Inr (ok', s')"
      using lt p(1) True r(1) by (subst load_pages.simps) (simp add: Let_def)
    show ?thesis
    proof (cases ok')
      case False
      then have "dom ?m \<subseteq> {vpn va..<vpn va + Suc n}" using dm by auto
      then show ?thesis using run r(2,3) rel False by (intro exI [of _ False] exI [of _ s'] exI [of _ ?m]) simp
    next
      case True
      have pg: "m (Suc (vpn va) + j) = Some e \<longrightarrow> ?m (vpn va + Suc j) = Some e" for j e by simp
      have d: "dom m = {Suc (vpn va)..<Suc (vpn va) + n}"
        "\<forall>j < n. \<exists>e. m (Suc (vpn va) + j) = Some e \<and> e = KVA_TO_PA (pte_child e) OR PAGE_USER \<and> vm_page s' (pte_child e) = seg_page (drop 4096 bs) j"
        using r(4) True unfolding seg_loaded_def step(1) by (simp_all)
      have "\<exists>e. ?m (vpn va + j) = Some e \<and> e = KVA_TO_PA (pte_child e) OR PAGE_USER \<and> vm_page s' (pte_child e) = seg_page bs j" if j: "j < Suc n" for j
      proof (cases j)
        case 0
        have "uvm_map s1 t (vpn va) = Some ?e" "(uvm_map s1 t ++ m) (vpn va) = Some ?e" using map1 m0 by (simp_all add: map_add_def)
        then have "vm_page s' (pte_child ?e) = vm_page s1 (pte_child ?e)" by (rule uvm_rel_content [OF rel1])
        then show ?thesis using 0 mem(2) che m0 by (simp add: map_add_def)
      next
        case (Suc i)
        then obtain e where "m (Suc (vpn va) + i) = Some e" "e = KVA_TO_PA (pte_child e) OR PAGE_USER" "vm_page s' (pte_child e) = seg_page bs j"
          using d(2) j by (auto simp: seg_page_Suc)
        then show ?thesis using Suc by (intro exI [of _ e]) simp
      qed
      moreover have "dom ?m = {vpn va..<vpn va + Suc n}" using d(1) by auto
      ultimately have "seg_loaded s s' t (vpn va) (Suc n) bs ?m" unfolding seg_loaded_def using rel by blast
      then show ?thesis using run r(2,3) True by (intro exI [of _ True] exI [of _ s'] exI [of _ ?m]) simp
    qed
  qed
qed

lemma load_segment_spec:
  assumes s: "inv s" "pt_ok s 4 t" and ok: "seg_ok img ph" and len: "length img < 2 ^ 64"
    and none: "\<And>k. k \<in> seg_pages ph \<Longrightarrow> uvm_map s t k = None"
  shows "\<exists>r s' m. load_segment rc t img (ph_off ph) ph s = Inr (r, s') \<and> inv s' \<and> pt_ok s' 4 t \<and>
    uvm_rel s s' t (uvm_map s t ++ m) \<and> dom m \<subseteq> seg_pages ph \<and> (r \<longrightarrow> seg_in_memory s' t img ph)"
proof -
  let ?va = "ph_vaddr ph" and ?fin = "ph_vaddr ph + ph_memsz ph"
  have u: "unat ?fin = unat ?va + unat (ph_memsz ph)" using ok by (intro unat_add64) (simp add: seg_ok_def)
  have al: "page_aligned ?va" "\<not> ph_memsz ph < ph_filesz ph" using ok by (simp_all add: seg_ok_def word_less_nat_alt)
  have msk: "?va AND (PGSIZE - 1) = 0" using al(1) by (simp add: page_aligned_def PGSIZE_mask unat_and_mask word_unat_eq_iff mod_eq_0_iff_dvd)
  have end48: "unat ?fin \<le> 2 ^ 48" using ok u by (simp add: seg_ok_def)
  define n where "n = npages ?fin - vpn ?va"
  have le: "vpn ?va \<le> npages ?fin" unfolding npages_def vpn_def u by (rule div_le_mono) simp
  have pg: "seg_pages ph = {vpn ?va..<vpn ?va + n}" using le by (simp add: seg_pages_def n_def npages_def vpn_def u)
  have big: "unat (ph_memsz ph) \<le> 4096 * n" using al(1) unfolding n_def npages_def vpn_def u by (auto simp: page_aligned_def elim!: dvdE)
  have off: "unat (ph_off ph) + unat (ph_filesz ph) \<le> length img" using ok by (simp add: seg_ok_def)
  obtain r s' m where l: "load_pages rc t img ?va ?fin (ph_off ph) (ph_filesz ph) s = Inr (r, s')" "inv s'" "pt_ok s' 4 t"
    "if r then seg_loaded s s' t (vpn ?va) n (take (unat (ph_filesz ph)) (drop (unat (ph_off ph)) img)) m
     else uvm_rel s s' t (uvm_map s t ++ m) \<and> dom m \<subseteq> {vpn ?va..<vpn ?va + n}"
    using load_pages_spec [OF s al(1) _ end48 off refl len, of n] none le unfolding pg n_def by auto
  have "load_segment rc t img (ph_off ph) ph s = Inr (r, s')" using l(1) msk al(2) by (simp add: load_segment_def)
  moreover have "uvm_rel s s' t (uvm_map s t ++ m)" "dom m \<subseteq> seg_pages ph"
    using l(4) unfolding pg seg_loaded_def by (auto split: if_splits)
  moreover have "r \<longrightarrow> seg_in_memory s' t img ph" using l(4) seg_loaded_memory [OF _ ok big] by auto
  ultimately show ?thesis using l(2,3) by blast
qed

lemma load_phdr_spec:
  assumes s: "inv s" "pt_ok s 4 t" and len: "length img < 2 ^ 64" and hdr: "unat (phdr_off eh i) + 56 \<le> length img"
    and ph: "ph = proghdr_of (take 56 (drop (unat (phdr_off eh i)) img))"
    and ok: "ph_type ph = PT_LOAD \<Longrightarrow> seg_ok img ph \<and> (\<forall>k \<in> seg_pages ph. uvm_map s t k = None)"
  shows "\<exists>r s' m. load_phdr rc t img eh i max_end s = Inr (r, s') \<and> inv s' \<and> pt_ok s' 4 t \<and> uvm_rel s s' t (uvm_map s t ++ m) \<and>
    (if ph_type ph = PT_LOAD then dom m \<subseteq> seg_pages ph \<and>
        (\<forall>me. r = Some me \<longrightarrow> seg_in_memory s' t img ph \<and> me = max max_end (ph_vaddr ph + ph_memsz ph))
     else m = Map.empty \<and> r = Some max_end)"
proof -
  have sz: "unat (of_nat (length img) :: uint64) = length img" using len by (simp add: unat_of_nat)
  have "unat (phdr_off eh i + SIZEOF_PROGHDR) = unat (phdr_off eh i) + 56" using hdr len by (subst unat_add64) (simp_all add: SIZEOF_PROGHDR_def)
  then have g: "\<not> phdr_off eh i + SIZEOF_PROGHDR > of_nat (length img)" using hdr sz by (simp add: word_less_nat_alt)
  have rd: "image_bytes img (phdr_off eh i) SIZEOF_PROGHDR = Inr (take 56 (drop (unat (phdr_off eh i)) img))"
    using hdr by (simp add: image_bytes_def SIZEOF_PROGHDR_def)
  note run = load_phdr_def [of rc t img eh i max_end s, unfolded Let_def if_not_P [OF g] rd rbind_simps ph [symmetric]]
  show ?thesis
  proof (cases "ph_type ph = PT_LOAD")
    case False
    then show ?thesis using s uvm_rel_refl [of s t] by (simp add: run)
  next
    case True
    note o = ok [OF True, THEN conjunct1] and none = ok [OF True, THEN conjunct2]
    have u: "unat (ph_vaddr ph + ph_memsz ph) = unat (ph_vaddr ph) + unat (ph_memsz ph)" using o by (intro unat_add64) (simp add: seg_ok_def)
    have u2: "unat (ph_off ph + ph_filesz ph) = unat (ph_off ph) + unat (ph_filesz ph)" using o len by (intro unat_add64) (simp add: seg_ok_def)
    have c: "\<not> ph_memsz ph < ph_filesz ph" "\<not> ph_vaddr ph + ph_memsz ph < ph_vaddr ph" "\<not> ph_vaddr ph + ph_memsz ph > MAXUVA"
      "\<not> ph_off ph + ph_filesz ph > of_nat (length img)"
      using o sz unfolding word_less_nat_alt u u2 by (simp_all add: seg_ok_def MAXUVA_def)
    obtain r s' m where l: "load_segment rc t img (ph_off ph) ph s = Inr (r, s')" "inv s'" "pt_ok s' 4 t"
      "uvm_rel s s' t (uvm_map s t ++ m)" "dom m \<subseteq> seg_pages ph" "r \<longrightarrow> seg_in_memory s' t img ph"
      using load_segment_spec [OF s o len] none by blast
    have "load_phdr rc t img eh i max_end s = Inr (if r then Some (max max_end (ph_vaddr ph + ph_memsz ph)) else None, s')"
      using c l(1) True by (auto simp: run max_def)
    then show ?thesis using l(2-6) True by (cases r) (auto intro!: exI [of _ m])
  qed
qed

lemma load_phdrs_spec:
  assumes "inv s" "pt_ok s 4 t" and len: "length img < 2 ^ 64" and "distinct is"
    and hdr: "\<And>i. i \<in> set is \<Longrightarrow> unat (phdr_off eh i) + 56 \<le> length img"
    and ph: "\<And>i. i \<in> set is \<Longrightarrow> ph i = proghdr_of (take 56 (drop (unat (phdr_off eh i)) img))"
    and ok: "\<And>i. i \<in> set is \<Longrightarrow> ph_type (ph i) = PT_LOAD \<Longrightarrow> seg_ok img (ph i) \<and> (\<forall>k \<in> seg_pages (ph i). uvm_map s t k = None)"
    and dis: "\<And>i j. i \<in> set is \<Longrightarrow> j \<in> set is \<Longrightarrow> i \<noteq> j \<Longrightarrow> ph_type (ph i) = PT_LOAD \<Longrightarrow> ph_type (ph j) = PT_LOAD \<Longrightarrow>
       seg_pages (ph i) \<inter> seg_pages (ph j) = {}"
  shows "\<exists>r s' m. load_phdrs rc t img eh is max_end s = Inr (r, s') \<and> inv s' \<and> pt_ok s' 4 t \<and> uvm_rel s s' t (uvm_map s t ++ m) \<and>
    dom m \<subseteq> (\<Union>i \<in> {i \<in> set is. ph_type (ph i) = PT_LOAD}. seg_pages (ph i)) \<and>
    (\<forall>me. r = Some me \<longrightarrow> (\<forall>i \<in> set is. ph_type (ph i) = PT_LOAD \<longrightarrow> seg_in_memory s' t img (ph i)) \<and>
       me = Max (insert max_end ((\<lambda>i. ph_vaddr (ph i) + ph_memsz (ph i)) ` {i \<in> set is. ph_type (ph i) = PT_LOAD})))"
  using assms(1,2,4-8)
proof (induction "is" arbitrary: s max_end)
  case Nil
  then show ?case using uvm_rel_refl [of s t] by (auto intro!: exI [of _ Map.empty])
next
  case (Cons i "is")
  let ?L = "\<lambda>is. {i \<in> set is. ph_type (ph i) = PT_LOAD}" and ?fin = "\<lambda>i. ph_vaddr (ph i) + ph_memsz (ph i)"
  obtain r s1 m where a: "load_phdr rc t img eh i max_end s = Inr (r, s1)" "inv s1" "pt_ok s1 4 t" "uvm_rel s s1 t (uvm_map s t ++ m)"
    "if ph_type (ph i) = PT_LOAD then dom m \<subseteq> seg_pages (ph i) \<and>
        (\<forall>me. r = Some me \<longrightarrow> seg_in_memory s1 t img (ph i) \<and> me = max max_end (?fin i))
     else m = Map.empty \<and> r = Some max_end"
    using load_phdr_spec [OF Cons.prems(1,2) len Cons.prems(4) [OF list.set_intros(1)] Cons.prems(5) [OF list.set_intros(1)],
        of max_end] Cons.prems(6) [OF list.set_intros(1)] by blast
  have dm: "dom m \<subseteq> (\<Union>i \<in> ?L [i]. seg_pages (ph i))" using a(5) by (auto split: if_splits)
  show ?case
  proof (cases r)
    case None
    then have "load_phdrs rc t img eh (i # is) max_end s = Inr (None, s1)" using a(1) by simp
    then show ?thesis using a(2-4) dm by (intro exI [of _ None] exI [of _ s1] exI [of _ m]) auto
  next
    case (Some me)
    have ni: "i \<notin> set is" "distinct is" using Cons.prems(3) by simp_all
    have ok1: "seg_ok img (ph j) \<and> (\<forall>k \<in> seg_pages (ph j). uvm_map s1 t k = None)" if j: "j \<in> set is" "ph_type (ph j) = PT_LOAD" for j
    proof -
      have "dom m \<inter> seg_pages (ph j) = {}"
        using dm Cons.prems(7) [of i j] j ni(1) by auto
      moreover have "uvm_map s1 t = uvm_map s t ++ m" by (rule uvm_rel_map [OF a(4)])
      ultimately show ?thesis using Cons.prems(6) [of j] j by (auto simp: map_add_def split: option.split)
    qed
    obtain r' s' m' where b: "load_phdrs rc t img eh is me s1 = Inr (r', s')" "inv s'" "pt_ok s' 4 t" "uvm_rel s1 s' t (uvm_map s1 t ++ m')"
      "dom m' \<subseteq> (\<Union>i \<in> ?L is. seg_pages (ph i))"
      "\<forall>me'. r' = Some me' \<longrightarrow> (\<forall>i \<in> set is. ph_type (ph i) = PT_LOAD \<longrightarrow> seg_in_memory s' t img (ph i)) \<and> me' = Max (insert me (?fin ` ?L is))"
      using Cons.IH [OF a(2,3) ni(2) Cons.prems(4) [OF list.set_intros(2)] Cons.prems(5) [OF list.set_intros(2)] ok1
          Cons.prems(7) [OF list.set_intros(2) list.set_intros(2)], of me] by blast
    have mm: "uvm_map s1 t ++ m' = uvm_map s t ++ (m ++ m')" using uvm_rel_map [OF a(4)] by simp
    have none: "m k = None" if "uvm_map s t k = Some e" for k e using that dm Cons.prems(6) [OF list.set_intros(1)] by fastforce
    have rel: "uvm_rel s s' t (uvm_map s t ++ (m ++ m'))"
      by (rule uvm_rel_trans [OF a(4) b(4) [unfolded mm]]) (simp add: none map_add_def)
    have run: "load_phdrs rc t img eh (i # is) max_end s = Inr (r', s')" using a(1) Some b(1) by simp
    have mem: "seg_in_memory s' t img (ph j)" if "r' = Some me'" "j \<in> set (i # is)" "ph_type (ph j) = PT_LOAD" for j me'
    proof (cases "j = i")
      case True
      have "dom m' \<inter> seg_pages (ph i) = {}" using b(5) Cons.prems(7) [of i] ni(1) that(3) True by fastforce
      moreover have "seg_in_memory s1 t img (ph i)" using a(5) Some that(3) True by simp
      ultimately show ?thesis using seg_in_memory_kept [OF b(4)] True by blast
    qed (use b(6) that in auto)
    have mx: "Max (insert me (?fin ` ?L is)) = Max (insert max_end (?fin ` ?L (i # is)))"
    proof (cases "ph_type (ph i) = PT_LOAD")
      case True
      then have "me = max max_end (?fin i)" "?L (i # is) = insert i (?L is)" using a(5) Some by auto
      then show ?thesis using Max_insert2 [of "?fin ` ?L is" max_end "?fin i"] by (simp only: image_insert finite_imageI finite_set finite_filter) simp
    next
      case False
      then have "me = max_end" "?L (i # is) = ?L is" using a(5) Some by auto
      then show ?thesis by simp
    qed
    have "dom (m ++ m') \<subseteq> (\<Union>i \<in> ?L (i # is). seg_pages (ph i))" using dm b(5) by auto
    then show ?thesis using run b(2,3) rel mem b(6) mx by (intro exI [of _ r'] exI [of _ s'] exI [of _ "m ++ m'"]) auto
  qed
qed

text \<open>A well-formed image: program headers inside it, loadable segments that fit and share no page.\<close>

end

definition phdr_at :: "uint8 list \<Rightarrow> nat \<Rightarrow> proghdr" where
  "phdr_at img i = proghdr_of (take 56 (drop (unat (eh_phoff (elfhdr_of img)) + 56 * i) img))"

definition loadable :: "uint8 list \<Rightarrow> nat set" where
  "loadable img = {i. i < unat (eh_phnum (elfhdr_of img)) \<and> ph_type (phdr_at img i) = PT_LOAD}"

definition elf_wf :: "uint8 list \<Rightarrow> bool" where
  "elf_wf img \<longleftrightarrow> elf_header_ok img \<and> length img < 2 ^ 64 \<and>
     unat (eh_phoff (elfhdr_of img)) + 56 * unat (eh_phnum (elfhdr_of img)) \<le> length img \<and>
     (\<forall>i \<in> loadable img. seg_ok img (phdr_at img i)) \<and>
     (\<forall>i \<in> loadable img. \<forall>j \<in> loadable img. i \<noteq> j \<longrightarrow> seg_pages (phdr_at img i) \<inter> seg_pages (phdr_at img j) = {})"

lemma phdr_off_at:
  assumes "elf_wf img" "i < unat (eh_phnum (elfhdr_of img))"
  shows "unat (phdr_off (elfhdr_of img) i) = unat (eh_phoff (elfhdr_of img)) + 56 * i"
    "unat (phdr_off (elfhdr_of img) i) + 56 \<le> length img"
proof -
  let ?eh = "elfhdr_of img"
  have e: "(ucast (eh_phentsize ?eh) :: uint64) = 56" using assms(1) by (simp add: elf_wf_def elf_header_ok_def SIZEOF_PROGHDR_def Let_def)
  have b: "unat (eh_phoff ?eh) + 56 * unat (eh_phnum ?eh) \<le> length img" "length img < 2 ^ 64" using assms(1) by (simp_all add: elf_wf_def)
  have "56 * Suc i \<le> 56 * unat (eh_phnum ?eh)" using assms(2) by (intro mult_le_mono2) simp
  then have l: "unat (eh_phoff ?eh) + 56 * i + 56 \<le> length img" using b(1) by simp
  have "of_nat i * 56 = (of_nat (56 * i) :: uint64)" by simp
  moreover have "unat (of_nat (56 * i) :: uint64) = 56 * i" by (rule unat_of_nat_small) (use l b(2) in simp)
  ultimately have "unat (of_nat i * 56 :: uint64) = 56 * i" by (simp only:)
  then show "unat (phdr_off ?eh i) = unat (eh_phoff ?eh) + 56 * i"
    unfolding phdr_off_def e using l b(2) by (subst unat_add64) simp_all
  then show "unat (phdr_off ?eh i) + 56 \<le> length img" using l by simp
qed

section \<open>The promises\<close>


lemma load_segment_True:
  assumes "load_segment rc t img src ph s = Inr (True, s')"
  shows "page_aligned (ph_vaddr ph)"
  using assms by (auto simp: load_segment_def page_aligned_def PGSIZE_mask unat_and_mask word_unat_eq_iff mod_eq_0_iff_dvd split: if_splits)

text \<open>What the checks on a program header establish, whatever its bytes are.\<close>

definition phdr_checked :: "uint8 list \<Rightarrow> proghdr \<Rightarrow> bool" where
  "phdr_checked img ph \<longleftrightarrow> page_aligned (ph_vaddr ph) \<and> ph_filesz ph \<le> ph_memsz ph \<and> unat (ph_vaddr ph) + unat (ph_memsz ph) \<le> 2 ^ 48 \<and>
     ph_off ph + ph_filesz ph \<le> of_nat (length img)"

lemma load_phdr_Some:
  assumes "load_phdr rc t img eh i max_end s = Inr (Some me, s')"
  shows "\<exists>bs. image_bytes img (phdr_off eh i) SIZEOF_PROGHDR = Inr bs \<and> (ph_type (proghdr_of bs) = PT_LOAD \<longrightarrow> phdr_checked img (proghdr_of bs))"
proof -
  obtain bs where bs: "image_bytes img (phdr_off eh i) SIZEOF_PROGHDR = Inr bs" using assms by (auto simp: load_phdr_def Let_def split: if_splits)
  show ?thesis
  proof (intro exI [of _ bs] conjI impI bs)
    let ?ph = "proghdr_of bs"
    assume "ph_type ?ph = PT_LOAD"
    then have c: "\<not> ph_memsz ?ph < ph_filesz ?ph" "\<not> ph_vaddr ?ph + ph_memsz ?ph < ph_vaddr ?ph" "\<not> MAXUVA < ph_vaddr ?ph + ph_memsz ?ph"
      "\<not> of_nat (length img) < ph_off ?ph + ph_filesz ?ph" "page_aligned (ph_vaddr ?ph)"
      using assms bs by (auto simp: load_phdr_def Let_def rbind_Inr_iff split: if_splits dest: load_segment_True)
    have "unat (ph_vaddr ?ph) + unat (ph_memsz ?ph) < 2 ^ 64"
    proof (rule ccontr)
      assume n: "\<not> ?thesis"
      then have "unat (ph_vaddr ?ph + ph_memsz ?ph) = unat (ph_vaddr ?ph) + unat (ph_memsz ?ph) - 2 ^ 64"
        using unsigned_less [of "ph_vaddr ?ph", where 'a = nat] unsigned_less [of "ph_memsz ?ph", where 'a = nat] by (simp add: unat_word_ariths mod_if)
      then show False using n c(2) unsigned_less [of "ph_memsz ?ph", where 'a = nat] unfolding word_less_nat_alt by simp
    qed
    then have "unat (ph_vaddr ?ph + ph_memsz ?ph) = unat (ph_vaddr ?ph) + unat (ph_memsz ?ph)" by (intro unat_add64)
    then show "phdr_checked img ?ph" using c by (simp add: phdr_checked_def word_less_nat_alt word_le_nat_alt not_less MAXUVA_def)
  qed
qed

lemma load_phdrs_Some:
  assumes "load_phdrs rc t img eh is max_end s = Inr (Some me, s')" "i \<in> set is"
  shows "\<exists>bs. image_bytes img (phdr_off eh i) SIZEOF_PROGHDR = Inr bs \<and> (ph_type (proghdr_of bs) = PT_LOAD \<longrightarrow> phdr_checked img (proghdr_of bs))"
  using assms
proof (induction "is" arbitrary: max_end s)
  case (Cons j "is")
  then obtain me1 s1 where a: "load_phdr rc t img eh j max_end s = Inr (Some me1, s1)" "load_phdrs rc t img eh is me1 s1 = Inr (Some me, s')"
    by (auto simp: rbind_Inr_iff split: option.splits)
  show ?case using Cons.IH [OF a(2)] load_phdr_Some [OF a(1)] Cons.prems(2) by (cases "i = j") auto
qed simp

text \<open>Which images are refused. An image that is too short or has the wrong magic, class, byte order, machine,
  type or header size is refused before any page is touched; and whatever an accepted image contains, each of
  its program headers was read inside it and each segment it loads is aligned, no smaller than its part of the
  file and ends below \<open>2 ^ 48\<close> without wrapping.\<close>

theorem loadelf_refuses:
  shows "(\<not> elf_header_ok img \<longrightarrow> loadelf rc t img s = Inr (None, s)) \<and>
    (loadelf rc t img s = Inr (Some (entry, sz), s') \<longrightarrow> elf_header_ok img \<and> entry = eh_entry (elfhdr_of img) \<and> page_aligned sz \<and>
      (\<forall>i < unat (eh_phnum (elfhdr_of img)). \<exists>bs. image_bytes img (phdr_off (elfhdr_of img) i) SIZEOF_PROGHDR = Inr bs \<and>
         (ph_type (proghdr_of bs) = PT_LOAD \<longrightarrow> phdr_checked img (proghdr_of bs))))"
proof -
  have "elf_header_ok img \<and> entry = eh_entry (elfhdr_of img) \<and> page_aligned sz \<and>
      (\<forall>i < unat (eh_phnum (elfhdr_of img)). \<exists>bs. image_bytes img (phdr_off (elfhdr_of img) i) SIZEOF_PROGHDR = Inr bs \<and>
         (ph_type (proghdr_of bs) = PT_LOAD \<longrightarrow> phdr_checked img (proghdr_of bs)))"
    if l: "loadelf rc t img s = Inr (Some (entry, sz), s')"
  proof -
    obtain me s1 where "elf_header_ok img" "load_phdrs rc t img (elfhdr_of img) [0..<unat (eh_phnum (elfhdr_of img))] 0 s = Inr (Some me, s1)"
      "entry = eh_entry (elfhdr_of img)" "sz = PGROUNDUP me"
      using l by (auto simp: loadelf_def Let_def rbind_Inr_iff split: if_splits option.splits)
    then show ?thesis using load_phdrs_Some by fastforce
  qed
  then show ?thesis by (auto simp: loadelf_def)
qed

text \<open>An image with one segment of four bytes of code and four of zeroes at \<open>0x1000\<close>.\<close>

definition demo_img :: "uint8 list" where
  "demo_img = [127, 69, 76, 70, 2, 1, 1, 0, 0, 0, 0, 0, 0, 0, 0, 0, 2, 0, 183, 0, 1, 0, 0, 0,
     0, 16, 0, 0, 0, 0, 0, 0, 64, 0, 0, 0, 0, 0, 0, 0, 0, 0, 0, 0, 0, 0, 0, 0,
     0, 0, 0, 0, 64, 0, 56, 0, 1, 0, 0, 0, 0, 0, 0, 0, 1, 0, 0, 0, 5, 0, 0, 0,
     120, 0, 0, 0, 0, 0, 0, 0, 0, 16, 0, 0, 0, 0, 0, 0, 0, 16, 0, 0, 0, 0, 0, 0,
     4, 0, 0, 0, 0, 0, 0, 0, 8, 0, 0, 0, 0, 0, 0, 0, 0, 16, 0, 0, 0, 0, 0, 0,
     222, 173, 190, 239]"

lemma demo_img_parts:
  "length demo_img = 124" "elf_header_ok demo_img" "unat (eh_phnum (elfhdr_of demo_img)) = 1" "unat (eh_phoff (elfhdr_of demo_img)) = 64"
  "eh_entry (elfhdr_of demo_img) = 0x1000"
  by code_simp+

lemma demo_phdr:
  "phdr_at demo_img 0 = \<lparr>ph_type = 1, ph_flags = 5, ph_off = 120, ph_vaddr = 0x1000, ph_paddr = 0x1000, ph_filesz = 4, ph_memsz = 8, ph_align = 4096\<rparr>"
  by code_simp

lemma demo_elf_wf: "elf_wf demo_img" and demo_loadable: "loadable demo_img = {0}"
proof -
  show "loadable demo_img = {0}" by (auto simp: loadable_def demo_img_parts demo_phdr PT_LOAD_def)
  then show "elf_wf demo_img" by (simp add: elf_wf_def demo_img_parts demo_phdr seg_ok_def page_aligned_def)
qed


theorem loadelf_refuses_witness:
  "loadelf no_reclaim root1 [0x7f, 0x45, 0x4c, 0x46] demo_vm = Inr (None, demo_vm)"
  using loadelf_refuses [of "[0x7f, 0x45, 0x4c, 0x46]" no_reclaim root1 demo_vm 0 0 demo_vm] by (simp add: elf_header_ok_def SIZEOF_ELFHDR_def)

end
