(* ===== verification/ProcState.thy ===== *)
theory ProcState
  imports Kstack Spinlock Asid
begin

text \<open>
  The state of process management (\<^verbatim>\<open>sys/proc.h\<close>, \<^verbatim>\<open>kern/proc.c\<close>): the process structures by their
  addresses, the three tables, the pid map, what each CPU runs, and the locks, whose state is the one
  of the spin-lock component. An operation runs on CPU \<open>sl_cpu\<close>; it is \<open>None\<close> when it spins for ever
  on a lock another CPU holds.
\<close>

section \<open>Results that may not come\<close>

definition tbind :: "'a res option \<Rightarrow> ('a \<Rightarrow> 'b res option) \<Rightarrow> 'b res option" where
  "tbind m f = (case m of None \<Rightarrow> None | Some (Inl e) \<Rightarrow> Some (Inl e) | Some (Inr x) \<Rightarrow> f x)"

definition tret :: "'a \<Rightarrow> 'a res option" where "tret x = Some (Inr x)"

definition tassert :: "bool \<Rightarrow> string \<Rightarrow> 'a res option \<Rightarrow> 'a res option" where
  "tassert b msg k = (if b then k else Some (Inl (Panic msg)))"

fun tseq :: "('a \<Rightarrow> 's \<Rightarrow> 's res option) \<Rightarrow> 'a list \<Rightarrow> 's \<Rightarrow> 's res option" where
  "tseq f [] s = tret s"
| "tseq f (x # xs) s = tbind (f x s) (tseq f xs)"

lemma tbind_simps [simp]:
  "tbind (tret x) f = f x" "tbind (Some (Inr x)) f = f x" "tbind (Some (Inl e)) f = Some (Inl e)" "tbind None f = None"
  by (simp_all add: tbind_def tret_def)

lemma tassert_simps [simp]: "tassert True msg k = k" "tassert False msg k = Some (Inl (Panic msg))"
  by (simp_all add: tassert_def)

section \<open>Processes\<close>

datatype procstate = UNUSED | USED | SLEEPING | RUNNABLE | RUNNING | ZOMBIE

record trapframe =
  tf_x :: "uint64 list"
  tf_sp :: uint64
  tf_elr :: uint64
  tf_spsr :: uint64
  tf_tpidr :: uint64

text \<open>The registers of \<open>struct context\<close> the C code names; the others are only moved by \<open>swtch\<close>.\<close>

record swcontext =
  cx_x19 :: uint64
  cx_x30 :: uint64
  cx_sp :: uint64

record proc =
  p_state :: procstate
  p_chan :: uintptr
  p_killed :: bool
  p_xstate :: int
  p_pid :: int
  p_parent :: "uintptr option"
  p_kstack :: uint64
  p_onfault :: uintptr
  p_tf :: trapframe
  p_tfaddr :: uintptr
  p_pagetable :: "uintptr option"
  p_isrc :: uintptr
  p_sz :: uint64
  p_context :: swcontext
  p_name :: string
  p_kslot :: int

record procs = kstacks +
  pr_proc :: "uintptr \<Rightarrow> proc"
  pr_cache :: uintptr
  pr_allproc :: "uintptr list"
  pr_pidhash :: "nat \<Rightarrow> uintptr list"
  pr_runq :: "uintptr list"
  pr_pidmap :: bitstr
  pr_initproc :: "uintptr option"
  pr_cur :: "nat \<Rightarrow> uintptr option"
  pr_locks :: locks
  pr_asid :: asid_st              \<comment> \<open>with \<open>p->asid_ctx\<close> of process \<open>p\<close> as \<open>as_ctx (unat p)\<close>\<close>
  pr_ttbr0 :: "nat \<Rightarrow> uint64"      \<comment> \<open>\<open>TTBR0_EL1\<close> of each CPU\<close>
  pr_l0_reserved :: uintptr

definition PIDHASH_BUCKETS :: nat where [kdefs]: "PIDHASH_BUCKETS = 64"
definition TF_SIZE :: uint64 where [kdefs]: "TF_SIZE = 288"
definition SIZEOF_PROC :: uint64 where [kdefs]: "SIZEOF_PROC = 296"

definition upd_proc :: "uintptr \<Rightarrow> (proc \<Rightarrow> proc) \<Rightarrow> 'a procs_scheme \<Rightarrow> 'a procs_scheme" where
  "upd_proc p f s = s\<lparr>pr_proc := (pr_proc s)(p := f (pr_proc s p))\<rparr>"

section \<open>Locks\<close>

definition pid_lock :: nat where "pid_lock = 0"
definition wait_lock :: nat where "wait_lock = 1"
definition ptable_lock :: nat where "ptable_lock = 2"
definition runq_lock :: nat where "runq_lock = 3"
definition p_lock :: "uintptr \<Rightarrow> nat" where "p_lock p = 4 + unat p"

definition acquire :: "nat \<Rightarrow> 'a procs_scheme \<Rightarrow> 'a procs_scheme res option" where
  "acquire l s =
     tbind (acquire_spinlock_at ''proc.c'' 0 (sl_cpu s) l (pr_locks s)) (\<lambda>k. tret (s\<lparr>pr_locks := k\<rparr>))"

definition release :: "nat \<Rightarrow> 'a procs_scheme \<Rightarrow> 'a procs_scheme res option" where
  "release l s = tbind (Some (release_spinlock_at (sl_cpu s) l (pr_locks s))) (\<lambda>k. tret (s\<lparr>pr_locks := k\<rparr>))"

definition myproc :: "'a procs_scheme \<Rightarrow> uintptr option" where
  "myproc s = pr_cur s (sl_cpu s)"

section \<open>What taking and giving back a lock does\<close>

definition locks_good :: "nat \<Rightarrow> nat set \<Rightarrow> locks \<Rightarrow> bool" where
  "locks_good c H k \<longleftrightarrow> finite H \<and> (\<forall>l. lk_locked (lks k l) \<noteq> 0 \<longleftrightarrow> l \<in> H) \<and> (\<forall>l \<in> H. lk_cpu (lks k l) = Some c) \<and>
     noff (cpus k c) = int (card H) \<and> (0 < noff (cpus k c) \<longrightarrow> \<not> irq (cpus k c)) \<and> \<not> panicking k"

lemma acquire_ok:
  assumes g: "locks_good (sl_cpu s) H (pr_locks s)" and l: "l \<notin> H"
  shows "\<exists>k. acquire l s = Some (Inr (s\<lparr>pr_locks := k\<rparr>)) \<and> locks_good (sl_cpu s) (insert l H) k \<and>
    (\<forall>d. d \<noteq> sl_cpu s \<longrightarrow> cpus k d = cpus (pr_locks s) d)"
proof -
  let ?c = "sl_cpu s" and ?k = "pr_locks s"
  have free: "lk_locked (lks ?k l) = 0" using g l by (auto simp: locks_good_def)
  have np: "\<not> panicking ?k" using g by (simp add: locks_good_def)
  let ?k1 = "push_off_at ''proc.c'' 0 ?c ?k"
  have k1: "lks ?k1 = lks ?k" "panicking ?k1 = panicking ?k" "noff (cpus ?k1 ?c) = noff (cpus ?k ?c) + 1" "\<not> irq (cpus ?k1 ?c)"
    "\<forall>d. d \<noteq> ?c \<longrightarrow> cpus ?k1 d = cpus ?k d"
    by (simp_all add: push_off_at_def Let_def set_cpu_def)
  let ?k3 = "lk_own ?c l (set_lk l ((lks ?k1 l)\<lparr>lk_locked := 1\<rparr>) ?k1)"
  have run: "acquire_spinlock_at ''proc.c'' 0 ?c l ?k = Some (Inr ?k3)"
    using free k1 by (simp add: acquire_spinlock_at_def acquire_enter_def holding_spinlock_def kassert_def atomic_swap_def Let_def)
  have "card (insert l H) = Suc (card H)" using g l by (simp add: locks_good_def)
  then have "locks_good ?c (insert l H) ?k3"
    using g k1 np l by (auto simp: locks_good_def lk_own_def set_lk_def)
  moreover have "\<forall>d. d \<noteq> ?c \<longrightarrow> cpus ?k3 d = cpus ?k d" using k1(5) by (simp add: lk_own_def set_lk_def)
  ultimately show ?thesis using run unfolding acquire_def by (intro exI [of _ ?k3]) (simp add: tret_def)
qed

lemma release_ok:
  assumes g: "locks_good (sl_cpu s) H (pr_locks s)" and l: "l \<in> H"
  shows "\<exists>k. release l s = Some (Inr (s\<lparr>pr_locks := k\<rparr>)) \<and> locks_good (sl_cpu s) (H - {l}) k \<and>
    (\<forall>d. d \<noteq> sl_cpu s \<longrightarrow> cpus k d = cpus (pr_locks s) d)"
proof -
  let ?c = "sl_cpu s" and ?k = "pr_locks s"
  have h: "holding_spinlock ?c l ?k" using g l by (auto simp: locks_good_def holding_spinlock_def)
  have cd: "card H = Suc (card (H - {l}))" using g l by (simp add: locks_good_def card_Suc_Diff1 del: card_Diff_insert card_Diff_singleton)
  then have n: "1 \<le> noff (cpus ?k ?c)" "\<not> irq (cpus ?k ?c)" using g by (auto simp: locks_good_def)
  let ?k1 = "set_lk l ((lks ?k l)\<lparr>lk_cpu := None\<rparr>) ?k"
  let ?k2 = "set_lk l ((lks ?k1 l)\<lparr>lk_locked := 0\<rparr>) ?k1"
  let ?x = "cpus ?k2 ?c"
  let ?k3 = "set_cpu ?c (?x\<lparr>noff := noff ?x - 1, irq := (irq ?x \<or> noff ?x - 1 = 0 \<and> intena ?x)\<rparr>) ?k2"
  have run: "release_spinlock_at ?c l ?k = Inr ?k3"
  proof -
    have "release_enter ?c l ?k = Inr ?k1" using h by (simp add: release_enter_def kassert_def)
    moreover have "cpus ?k2 = cpus ?k" by (simp add: set_lk_def)
    then have "release_exit ?c l ?k1 = Inr ?k3" using n unfolding release_exit_def pop_off_at_def Let_def kassert_def by presburger
    ultimately show ?thesis by (simp add: release_spinlock_at_def rbind_def)
  qed
  obtain k3 where r: "release_spinlock_at ?c l ?k = Inr k3" and k3: "lks k3 = (lks ?k)(l := (lks ?k l)\<lparr>lk_cpu := None, lk_locked := 0\<rparr>)"
    "panicking k3 = panicking ?k" "noff (cpus k3 ?c) = noff (cpus ?k ?c) - 1" "0 < noff (cpus ?k ?c) - 1 \<longrightarrow> \<not> irq (cpus k3 ?c)"
    "\<forall>d. d \<noteq> ?c \<longrightarrow> cpus k3 d = cpus ?k d"
    by (rule that [OF run]; use n in \<open>simp add: set_lk_def set_cpu_def\<close>)
  have "locks_good ?c (H - {l}) k3"
    using g cd l k3 by (simp add: locks_good_def del: card_Diff_insert card_Diff_singleton)
  then show ?thesis using r k3(5) unfolding release_def by (intro exI [of _ k3]) (simp add: tret_def)
qed

section \<open>A machine with two processes\<close>

definition idle_proc :: proc where
  "idle_proc = \<lparr>p_state = UNUSED, p_chan = 0, p_killed = False, p_xstate = 0, p_pid = 0, p_parent = None, p_kstack = 0, p_onfault = 0,
     p_tf = \<lparr>tf_x = replicate 31 0, tf_sp = 0, tf_elr = 0, tf_spsr = 0, tf_tpidr = 0\<rparr>, p_tfaddr = 0, p_pagetable = None, p_isrc = 0,
     p_sz = 0, p_context = \<lparr>cx_x19 = 0, cx_x30 = 0, cx_sp = 0\<rparr>, p_name = '''', p_kslot = 0\<rparr>"

definition no_locks :: locks where
  "no_locks = \<lparr>cpus = (\<lambda>_. \<lparr>irq = True, noff = 0, intena = False, off_file = '''', off_line = 0\<rparr>),
     lks = (\<lambda>_. \<lparr>lk_locked = 0, lk_name = '''', lk_cpu = None\<rparr>), panicking = False\<rparr>"

text \<open>Process 0x100 (pid 1, init) runs on CPU 0; process 0x200 (pid 2) sleeps on channel 0x900.\<close>

definition demo_procs :: procs where
  "demo_procs = kstacks.extend no_stacks (procs.fields
     ((\<lambda>_. idle_proc)(0x100 := idle_proc\<lparr>p_state := RUNNING, p_pid := 1\<rparr>,
        0x200 := idle_proc\<lparr>p_state := SLEEPING, p_pid := 2, p_chan := 0x900, p_parent := Some 0x100\<rparr>))
     0x7000 [0x200, 0x100] ((\<lambda>_. [])(1 := [0x100], 2 := [0x200])) [] (bit_decl KSTACK_NSLOTS) (Some 0x100) ((\<lambda>_. None)(0 := Some 0x100)) no_locks
     (asid_init 8 \<lparr>as_ncpus = 1, as_total = 0, as_mask = 0, as_gen = 0, as_next = 0, as_bitmap = [], as_pending = [],
       as_active = (\<lambda>_. 0), as_reserved = (\<lambda>_. 0), as_ctx = (\<lambda>_. 0)\<rparr>) (\<lambda>_. 0) 0xFFFF000000001000)"

lemma demo_procs_parts [simp]:
  "sl_cpu demo_procs = 0" "pr_cur demo_procs = (\<lambda>_. None)(0 := Some 0x100)" "pr_allproc demo_procs = [0x200, 0x100]" "pr_runq demo_procs = []"
  "pr_locks demo_procs = no_locks" "pr_initproc demo_procs = Some 0x100" "pr_pidhash demo_procs = (\<lambda>_. [])(1 := [0x100], 2 := [0x200])"
  "pr_proc demo_procs = (\<lambda>_. idle_proc)(0x100 := idle_proc\<lparr>p_state := RUNNING, p_pid := 1\<rparr>,
     0x200 := idle_proc\<lparr>p_state := SLEEPING, p_pid := 2, p_chan := 0x900, p_parent := Some 0x100\<rparr>)"
  by (simp_all add: demo_procs_def kstacks.defs procs.defs no_stacks_def)

lemma no_locks_good: "locks_good c {} no_locks"
  by (simp add: locks_good_def no_locks_def)

end
