(* ===== verification/Copy.thy ===== *)
theory Copy
  imports ProcState
begin

text \<open>
  User memory access (\<^verbatim>\<open>arch/copy.c\<close>): the range check in front of the unprivileged load and store
  loops, which are assembly (\<^verbatim>\<open>arch/copy_user.s\<close>) and a parameter here: each returns the status the
  assembly leaves in \<open>x0\<close>, the bytes it read, and the memory it leaves.
\<close>

record 's uaccess =
  copy_fault :: uintptr
  copyin_bytes :: "uintptr \<Rightarrow> uint64 \<Rightarrow> 's \<Rightarrow> int \<times> uint8 list \<times> 's"
  copyout_bytes :: "uintptr \<Rightarrow> uint8 list \<Rightarrow> 's \<Rightarrow> int \<times> 's"
  copyinstr_bytes :: "uintptr \<Rightarrow> uint64 \<Rightarrow> 's \<Rightarrow> int \<times> uint8 list \<times> 's"

definition user_range_ok :: "uintptr \<Rightarrow> uint64 \<Rightarrow> bool" where
  "user_range_ok user len = (if user \<ge> MAXUVA then False else if len > MAXUVA - user then False else True)"

text \<open>\<open>p->onfault\<close> of the running process; without one the store through \<open>p\<close> faults.\<close>

definition with_onfault :: "uintptr \<Rightarrow> ('a procs_scheme \<Rightarrow> 'r \<times> 'a procs_scheme) \<Rightarrow> 'a procs_scheme \<Rightarrow> ('r \<times> 'a procs_scheme) res" where
  "with_onfault hdl f s =
     (case myproc s of None \<Rightarrow> Inl Fault
      | Some p \<Rightarrow>
          (let (r, s') = f (upd_proc p (\<lambda>q. q\<lparr>p_onfault := hdl\<rparr>) s) in
           Inr (r, upd_proc p (\<lambda>q. q\<lparr>p_onfault := 0\<rparr>) s')))"

definition copyin :: "'a procs_scheme uaccess \<Rightarrow> uintptr \<Rightarrow> uint64 \<Rightarrow> 'a procs_scheme \<Rightarrow> ((int \<times> uint8 list) \<times> 'a procs_scheme) res" where
  "copyin ua user_src len s =
     (if len = 0 then Inr ((0, []), s)
      else if \<not> user_range_ok user_src len then Inr ((-1, []), s)
      else with_onfault (copy_fault ua) (\<lambda>s. let (r, bs, s') = copyin_bytes ua user_src len s in ((r, bs), s')) s)"

definition copyout :: "'a procs_scheme uaccess \<Rightarrow> uintptr \<Rightarrow> uint8 list \<Rightarrow> 'a procs_scheme \<Rightarrow> (int \<times> 'a procs_scheme) res" where
  "copyout ua user_dst src s =
     (let len = of_nat (length src) in
      if len = 0 then Inr (0, s)
      else if \<not> user_range_ok user_dst len then Inr (-1, s)
      else with_onfault (copy_fault ua) (copyout_bytes ua user_dst src) s)"

definition copyinstr :: "'a procs_scheme uaccess \<Rightarrow> uintptr \<Rightarrow> uint64 \<Rightarrow> 'a procs_scheme \<Rightarrow> ((int \<times> uint8 list) \<times> 'a procs_scheme) res" where
  "copyinstr ua user_src mx s =
     (if mx = 0 then Inr ((-1, []), s)
      else if \<not> user_range_ok user_src mx then Inr ((-1, []), s)
      else with_onfault (copy_fault ua) (\<lambda>s. let (r, bs, s') = copyinstr_bytes ua user_src mx s in ((r, bs), s')) s)"

section \<open>No kernel address is reachable\<close>

lemma user_range_iff:
  assumes "0 < len"
  shows "user_range_ok user len \<longleftrightarrow> unat user + unat len \<le> 2 ^ 48"
proof -
  have m: "unat MAXUVA = 2 ^ 48" by (simp add: MAXUVA_def)
  have l: "0 < unat len" using assms by (simp add: word_less_nat_alt)
  show ?thesis
  proof (cases "user < MAXUVA")
    case True
    then have u: "unat user < 2 ^ 48" by (simp add: word_less_nat_alt m)
    have "unat (MAXUVA - user) = 2 ^ 48 - unat user" using True m by (simp add: unat_sub)
    then show ?thesis using True u by (auto simp: user_range_ok_def word_less_nat_alt word_le_nat_alt m)
  next
    case False
    then show ?thesis using l by (auto simp: user_range_ok_def word_less_nat_alt word_le_nat_alt m)
  qed
qed

text \<open>User memory access: \<open>copyin\<close>, \<open>copyout\<close> and \<open>copyinstr\<close> reach memory only for a range that lies,
  without wrap-around, below \<open>2 ^ 48\<close>, and then with the fault handler of the running process armed, and
  disarmed afterwards; on every other range they return -1 and change nothing.\<close>

theorem copy_guarded:
  fixes s :: "'a procs_scheme"
  assumes cur: "myproc s = Some p" and len: "0 < len" "length src = unat len"
  shows "(if unat user + unat len \<le> 2 ^ 48 then
      (let armed = upd_proc p (\<lambda>q. q\<lparr>p_onfault := copy_fault ua\<rparr>) s; disarm = upd_proc p (\<lambda>q. q\<lparr>p_onfault := 0\<rparr>) in
       copyout ua user src s = (case copyout_bytes ua user src armed of (r, s') \<Rightarrow> Inr (r, disarm s')) \<and>
       copyin ua user len s = (case copyin_bytes ua user len armed of (r, bs, s') \<Rightarrow> Inr ((r, bs), disarm s')) \<and>
       copyinstr ua user len s = (case copyinstr_bytes ua user len armed of (r, bs, s') \<Rightarrow> Inr ((r, bs), disarm s')))
    else copyout ua user src s = Inr (-1, s) \<and> copyin ua user len s = Inr ((-1, []), s) \<and> copyinstr ua user len s = Inr ((-1, []), s))"
proof -
  have l: "of_nat (length src) = len" "len \<noteq> 0" using len by (simp_all add: word_less_nat_alt) auto
  note d = copyout_def copyin_def copyinstr_def with_onfault_def Let_def
  show ?thesis
    using user_range_iff [OF len(1), of user] l cur by (cases "user_range_ok user len") (auto simp: d split: prod.split)
qed

definition demo_access :: "procs uaccess" where
  "demo_access = \<lparr>copy_fault = 0xF00, copyin_bytes = (\<lambda>u n s. (0, replicate (unat n) 7, s)), copyout_bytes = (\<lambda>u bs s. (0, s)),
     copyinstr_bytes = (\<lambda>u n s. (0, [0], s))\<rparr>"

theorem copy_guarded_witness:
  "copyout demo_access 0xFFFFFFFFFFFF [1, 2] demo_procs = Inr (-1, demo_procs) \<and>
   copyin demo_access 0x1000 2 demo_procs = Inr ((0, [7, 7]), demo_procs)"
proof -
  have cur: "myproc demo_procs = Some 0x100" by (simp add: myproc_def)
  have i: "upd_proc 0x100 (\<lambda>q. q\<lparr>p_onfault := 0\<rparr>) (upd_proc 0x100 (\<lambda>q. q\<lparr>p_onfault := 0xF00\<rparr>) demo_procs) = demo_procs"
    by (simp add: upd_proc_def fun_upd_twist demo_procs_def kstacks.defs procs.defs no_stacks_def idle_proc_def)
  have "copyout demo_access 0xFFFFFFFFFFFF [1, 2] demo_procs = Inr (-1, demo_procs)"
    using copy_guarded [OF cur, of 2 "[1, 2]" "0xFFFFFFFFFFFF" demo_access] by simp
  moreover have "replicate 2 (7 :: uint8) = [7, 7]" by (simp add: numeral_2_eq_2)
  then have "copyin demo_access 0x1000 2 demo_procs = Inr ((0, [7, 7]), demo_procs)"
    using copy_guarded [OF cur, of 2 "[1, 2]" "0x1000" demo_access] i by (simp add: demo_access_def)
  ultimately show ?thesis by simp
qed

end
