(* ===== verification/Proc.thy ===== *)
theory Proc
  imports Copy
begin

text \<open>
  Process management and scheduling (\<^verbatim>\<open>kern/proc.c\<close>). \<open>allproc\<close>, the buckets of \<open>pidhash\<close> and the run
  queue are lists of process addresses. A call that ends in \<open>swtch\<close> is split there: \<open>yield\<close>, \<open>sleep\<close>
  and \<open>exit\<close> end in \<open>sched\<close>, \<open>scheduler_return\<close> is what the scheduler does when the process has
  switched back to it, and \<open>sched_resume\<close> what a process does when it runs again.
\<close>

section \<open>Pids, the run queue, the pid hash\<close>

definition pid_alloc :: "'a procs_scheme \<Rightarrow> (int \<times> 'a procs_scheme) res option" where
  "pid_alloc s =
     tbind (acquire pid_lock s) (\<lambda>s1.
       let pid = bit_ffc (pr_pidmap s1) KSTACK_NSLOTS;
           s2 = (if pid \<ge> 0 then s1\<lparr>pr_pidmap := bit_set (pr_pidmap s1) (nat pid)\<rparr> else s1) in
       tbind (release pid_lock s2) (\<lambda>s3. tret (pid, s3)))"

definition pid_free :: "int \<Rightarrow> 'a procs_scheme \<Rightarrow> 'a procs_scheme res option" where
  "pid_free pid s =
     tbind (acquire pid_lock s) (\<lambda>s1. release pid_lock (s1\<lparr>pr_pidmap := bit_clear (pr_pidmap s1) (nat pid)\<rparr>))"

definition runq_enqueue :: "uintptr \<Rightarrow> 'a procs_scheme \<Rightarrow> 'a procs_scheme res option" where
  "runq_enqueue p s = tbind (acquire runq_lock s) (\<lambda>s1. release runq_lock (s1\<lparr>pr_runq := pr_runq s1 @ [p]\<rparr>))"

definition runq_dequeue :: "'a procs_scheme \<Rightarrow> (uintptr option \<times> 'a procs_scheme) res option" where
  "runq_dequeue s =
     tbind (acquire runq_lock s) (\<lambda>s1.
       case pr_runq s1 of [] \<Rightarrow> tbind (release runq_lock s1) (\<lambda>s2. tret (None, s2))
       | p # ps \<Rightarrow> tbind (release runq_lock (s1\<lparr>pr_runq := ps\<rparr>)) (\<lambda>s2. tret (Some p, s2)))"

definition pid_bucket :: "int \<Rightarrow> nat" where
  "pid_bucket pid = nat (and pid (int PIDHASH_BUCKETS - 1))"

definition pid_lookup :: "int \<Rightarrow> 'a procs_scheme \<Rightarrow> uintptr option" where
  "pid_lookup pid s = find (\<lambda>p. p_pid (pr_proc s p) = pid) (pr_pidhash s (pid_bucket pid))"

section \<open>Building and releasing a process\<close>

definition procinit :: "'a procs_scheme \<Rightarrow> 'a procs_scheme res option" where
  "procinit s =
     (let k = fold (\<lambda>(l, n). init_spinlock l n) [(pid_lock, ''pid''), (wait_lock, ''wait_lock''), (ptable_lock, ''ptable''), (runq_lock, ''runq'')] (pr_locks s);
          s1 = s\<lparr>pr_locks := k, pr_allproc := [], pr_runq := [], pr_pidhash := (\<lambda>b. if b < PIDHASH_BUCKETS then [] else pr_pidhash s b),
                 pr_pidmap := bit_set (pr_pidmap s) 0\<rparr> in
      tbind (kmem_cache_create SIZEOF_PROC 0 True s1) (\<lambda>(c, s2).
        case c of None \<Rightarrow> Some (Inl (Panic ''procinit: proc_cache create failed'')) | Some ca \<Rightarrow> tret (s2\<lparr>pr_cache := ca\<rparr>)))"

definition fresh_proc :: "uint64 \<Rightarrow> int \<Rightarrow> int \<Rightarrow> uint64 \<Rightarrow> proc \<Rightarrow> proc" where
  "fresh_proc forkret_pc pid slot kstack p =
     p\<lparr>p_pid := pid, p_kslot := slot, p_kstack := kstack, p_state := USED, p_chan := 0, p_killed := False, p_xstate := 0,
       p_parent := None, p_onfault := 0, p_pagetable := None, p_isrc := 0, p_sz := 0, p_name := '''',
       p_tfaddr := kstack - TF_SIZE, p_context := \<lparr>cx_x19 = 0, cx_x30 = forkret_pc, cx_sp = kstack - TF_SIZE\<rparr>\<rparr>"

definition allocproc :: "uint64 \<Rightarrow> 'a procs_scheme \<Rightarrow> (uintptr option \<times> 'a procs_scheme) res option" where
  "allocproc forkret_pc s =
     tbind (pid_alloc s) (\<lambda>(pid, s1).
       if pid < 0 then tret (None, s1)
       else let (slot, s2) = kstack_slot_alloc s1 in
         if slot < 0 then tbind (pid_free pid s2) (\<lambda>s3. tret (None, s3))
         else tbind (Some (kstack_alloc kmem_reclaim slot s2)) (\<lambda>(kstack, s3).
           if kstack = 0 then tbind (pid_free pid (kstack_slot_free slot s3)) (\<lambda>s4. tret (None, s4))
           else tbind (kmem_cache_alloc (pr_cache s3) s3) (\<lambda>(p, s4).
             case p of
               None \<Rightarrow> tbind (Some (kstack_free kmem_reclaim slot s4)) (\<lambda>s5.
                  tbind (pid_free pid (kstack_slot_free slot s5)) (\<lambda>s6. tret (None, s6)))
             | Some a \<Rightarrow> tret (Some a, upd_proc a (fresh_proc forkret_pc pid slot kstack)
                 (s4\<lparr>pr_asid := (pr_asid s4)\<lparr>as_ctx := (as_ctx (pr_asid s4))(unat a := 0)\<rparr>\<rparr>)))))"

definition freeproc :: "uintptr \<Rightarrow> 'a procs_scheme \<Rightarrow> 'a procs_scheme res option" where
  "freeproc p s =
     tbind (case p_pagetable (pr_proc s p) of None \<Rightarrow> tret s
            | Some t \<Rightarrow> tbind (Some (uvmfree t s)) (\<lambda>s1. tret (upd_proc p (\<lambda>q. q\<lparr>p_pagetable := None\<rparr>) s1))) (\<lambda>s2.
     tbind (if p_kstack (pr_proc s2 p) \<noteq> 0 then
              tbind (Some (kstack_free kmem_reclaim (p_kslot (pr_proc s2 p)) s2)) (\<lambda>s3.
                tret (upd_proc p (\<lambda>q. q\<lparr>p_kstack := 0\<rparr>) (kstack_slot_free (p_kslot (pr_proc s3 p)) s3)))
            else tret s2) (\<lambda>s4.
     tbind (pid_free (p_pid (pr_proc s4 p)) s4) (\<lambda>s5. kmem_cache_free (pr_cache s5) p s5)))"

definition publish :: "uintptr \<Rightarrow> uintptr option \<Rightarrow> 'a procs_scheme \<Rightarrow> 'a procs_scheme" where
  "publish p parent s =
     (let b = pid_bucket (p_pid (pr_proc s p));
          s1 = s\<lparr>pr_allproc := p # pr_allproc s, pr_pidhash := (pr_pidhash s)(b := p # pr_pidhash s b)\<rparr>;
          s2 = (case parent of None \<Rightarrow> s1 | Some q \<Rightarrow> upd_proc p (\<lambda>r. r\<lparr>p_parent := Some q\<rparr>) s1) in
      upd_proc p (\<lambda>r. r\<lparr>p_state := RUNNABLE\<rparr>) s2)"

definition proc_activate :: "uintptr \<Rightarrow> uintptr option \<Rightarrow> 'a procs_scheme \<Rightarrow> 'a procs_scheme res option" where
  "proc_activate p parent s =
     tbind (acquire ptable_lock s) (\<lambda>s1. tbind (acquire (p_lock p) s1) (\<lambda>s2.
     tbind (runq_enqueue p (publish p parent s2)) (\<lambda>s3.
     tbind (release (p_lock p) s3) (release ptable_lock))))"

section \<open>Scheduling\<close>

datatype forkret_to = Kthread uint64 | User

definition forkret :: "'a procs_scheme \<Rightarrow> (forkret_to \<times> 'a procs_scheme) res option" where
  "forkret s =
     (case myproc s of None \<Rightarrow> Some (Inl Fault)
      | Some p \<Rightarrow> tbind (release (p_lock p) s) (\<lambda>s1.
          let fn = cx_x19 (p_context (pr_proc s1 p)) in tret (if fn \<noteq> 0 then Kthread fn else User, s1)))"

text \<open>
  \<open>asid_switch\<close> as one call, which the process's lock and the masked interrupts make it for this CPU;
  the address-space component interleaves its steps with the other CPUs.
\<close>

definition asid_switch :: "uintptr \<Rightarrow> 'a procs_scheme \<Rightarrow> 'a procs_scheme res" where
  "asid_switch p s =
     (let cpu = sl_cpu s; a = pr_asid s; q = unat p in
      rbind (if asid_fast_ok (as_ctx a q) (as_gen a) (as_active a cpu) a then Inr (a\<lparr>as_active := (as_active a)(cpu := as_ctx a q)\<rparr>)
             else rbind (asid_switch_slow cpu q a) (\<lambda>(ctx, flush, a1). Inr a1)) (\<lambda>a2.
      rbind (switchuvm (asid_num q a2) (p_pagetable (pr_proc s p))) (\<lambda>v.
        Inr (s\<lparr>pr_asid := a2, pr_ttbr0 := (pr_ttbr0 s)(cpu := v)\<rparr>))))"

definition switchuvm_reserved :: "'a procs_scheme \<Rightarrow> 'a procs_scheme res" where
  "switchuvm_reserved s =
     rbind (switchuvm (of_nat ASID_RESERVED) (Some (pr_l0_reserved s))) (\<lambda>v. Inr (s\<lparr>pr_ttbr0 := (pr_ttbr0 s)(sl_cpu s := v)\<rparr>))"

text \<open>One turn of the scheduler's loop up to \<open>swtch\<close>.\<close>

datatype sched_turn = Stopped | Idle | Skipped | Dispatch uintptr

definition irq_enable :: "'a procs_scheme \<Rightarrow> 'a procs_scheme" where
  "irq_enable s = s\<lparr>pr_locks := set_cpu (sl_cpu s) ((cpus (pr_locks s) (sl_cpu s))\<lparr>irq := True\<rparr>) (pr_locks s)\<rparr>"

definition scheduler_turn :: "'a procs_scheme \<Rightarrow> (sched_turn \<times> 'a procs_scheme) res option" where
  "scheduler_turn s =
     (if panicking (pr_locks s) then tret (Stopped, s)
      else tbind (runq_dequeue (irq_enable s)) (\<lambda>(p, s1).
        case p of None \<Rightarrow> tret (Idle, s1)
        | Some a \<Rightarrow>
            tassert (irq (cpus (pr_locks s1) (sl_cpu s1))) ''scheduler: dispatch with IRQs masked''
             (tbind (acquire (p_lock a) s1) (\<lambda>s2.
                if p_state (pr_proc s2 a) \<noteq> RUNNABLE then tbind (release (p_lock a) s2) (\<lambda>s3. tret (Skipped, s3))
                else
                  (let s3 = upd_proc a (\<lambda>q. q\<lparr>p_state := RUNNING\<rparr>) (s2\<lparr>pr_cur := (pr_cur s2)(sl_cpu s2 := Some a)\<rparr>) in
                   tbind (if p_pagetable (pr_proc s3 a) \<noteq> None then Some (asid_switch a s3) else tret s3) (\<lambda>s4. tret (Dispatch a, s4)))))))"

definition scheduler_return :: "uintptr \<Rightarrow> 'a procs_scheme \<Rightarrow> 'a procs_scheme res option" where
  "scheduler_return p s =
     tbind (Some (switchuvm_reserved (s\<lparr>pr_cur := (pr_cur s)(sl_cpu s := None)\<rparr>))) (\<lambda>s1.
      tbind (if p_state (pr_proc s1 p) = RUNNABLE then runq_enqueue p s1 else tret s1) (release (p_lock p)))"

text \<open>\<open>sched\<close> up to its \<open>swtch\<close>, with the value of \<open>intena\<close> it keeps, and after it.\<close>

definition sched :: "'a procs_scheme \<Rightarrow> (bool \<times> 'a procs_scheme) res option" where
  "sched s =
     (case myproc s of None \<Rightarrow> Some (Inl Fault)
      | Some p \<Rightarrow>
          (let c = sl_cpu s; k = cpus (pr_locks s) c in
           tassert (holding_spinlock c (p_lock p) (pr_locks s)) ''sched: p->lock not held''
             (tassert (noff k = 1) ''sched: %d locks held''
               (tassert (p_state (pr_proc s p) \<noteq> RUNNING) ''sched: still RUNNING''
                 (tassert (\<not> irq k) ''sched: interrupts enabled'' (tret (intena k, s)))))))"

definition sched_resume :: "bool \<Rightarrow> 'a procs_scheme \<Rightarrow> 'a procs_scheme" where
  "sched_resume ena s = s\<lparr>pr_locks := set_cpu (sl_cpu s) ((cpus (pr_locks s) (sl_cpu s))\<lparr>intena := ena\<rparr>) (pr_locks s)\<rparr>"

definition yield :: "'a procs_scheme \<Rightarrow> (bool \<times> 'a procs_scheme) res option" where
  "yield s =
     (case myproc s of None \<Rightarrow> Some (Inl Fault)
      | Some p \<Rightarrow> tbind (acquire (p_lock p) s) (\<lambda>s1. sched (upd_proc p (\<lambda>q. q\<lparr>p_state := RUNNABLE\<rparr>) s1)))"

definition yield_resume :: "bool \<Rightarrow> 'a procs_scheme \<Rightarrow> 'a procs_scheme res option" where
  "yield_resume ena s =
     (let s1 = sched_resume ena s in case myproc s1 of None \<Rightarrow> Some (Inl Fault) | Some p \<Rightarrow> release (p_lock p) s1)"

definition sleep :: "uintptr \<Rightarrow> nat \<Rightarrow> 'a procs_scheme \<Rightarrow> (bool \<times> 'a procs_scheme) res option" where
  "sleep chan lk s =
     (case myproc s of None \<Rightarrow> Some (Inl Fault)
      | Some p \<Rightarrow> tbind (acquire (p_lock p) s) (\<lambda>s1. tbind (release lk s1) (\<lambda>s2.
          sched (upd_proc p (\<lambda>q. q\<lparr>p_chan := chan, p_state := SLEEPING\<rparr>) s2))))"

definition sleep_resume :: "bool \<Rightarrow> nat \<Rightarrow> 'a procs_scheme \<Rightarrow> 'a procs_scheme res option" where
  "sleep_resume ena lk s =
     (let s1 = sched_resume ena s in
      case myproc s1 of None \<Rightarrow> Some (Inl Fault)
      | Some p \<Rightarrow> tbind (release (p_lock p) (upd_proc p (\<lambda>q. q\<lparr>p_chan := 0\<rparr>) s1)) (acquire lk))"

definition wakeup_one :: "uintptr \<Rightarrow> uintptr option \<Rightarrow> uintptr \<Rightarrow> 'a procs_scheme \<Rightarrow> 'a procs_scheme res option" where
  "wakeup_one chan self p s =
     (if self = Some p then tret s
      else tbind (acquire (p_lock p) s) (\<lambda>s1.
        tbind (if p_state (pr_proc s1 p) = SLEEPING \<and> p_chan (pr_proc s1 p) = chan
               then runq_enqueue p (upd_proc p (\<lambda>q. q\<lparr>p_state := RUNNABLE\<rparr>) s1) else tret s1) (release (p_lock p))))"

definition wakeup :: "uintptr \<Rightarrow> 'a procs_scheme \<Rightarrow> 'a procs_scheme res option" where
  "wakeup chan s =
     tbind (acquire ptable_lock s) (\<lambda>s1. tbind (tseq (wakeup_one chan (myproc s)) (pr_allproc s1) s1) (release ptable_lock))"

section \<open>Exit, wait, kill\<close>

definition reparent :: "uintptr \<Rightarrow> 'a procs_scheme \<Rightarrow> 'a procs_scheme" where
  "reparent p s = fold (\<lambda>c s. if p_parent (pr_proc s c) = Some p then upd_proc c (\<lambda>q. q\<lparr>p_parent := pr_initproc s\<rparr>) s else s) (pr_allproc s) s"

definition ptr :: "uintptr option \<Rightarrow> uintptr" where "ptr x = (case x of None \<Rightarrow> 0 | Some p \<Rightarrow> p)"

definition exit_release :: "uintptr \<Rightarrow> 'a procs_scheme \<Rightarrow> 'a procs_scheme res option" where
  "exit_release p s =
     (case p_pagetable (pr_proc s p) of None \<Rightarrow> tret s
      | Some t \<Rightarrow> tbind (Some (uvmfree t s)) (\<lambda>s1. tret (upd_proc p (\<lambda>q. q\<lparr>p_pagetable := None, p_sz := 0\<rparr>) s1)))"

definition exit :: "int \<Rightarrow> 'a procs_scheme \<Rightarrow> (bool \<times> 'a procs_scheme) res option" where
  "exit status s =
     (case myproc s of None \<Rightarrow> Some (Inl Fault)
      | Some p \<Rightarrow>
          if pr_initproc s = Some p then Some (Inl (Panic ''init exiting''))
          else tbind (exit_release p s) (\<lambda>s1. tbind (acquire wait_lock s1) (\<lambda>s2. tbind (acquire ptable_lock s2) (\<lambda>s3.
            tbind (release ptable_lock (reparent p s3)) (\<lambda>s4. tbind (wakeup (ptr (pr_initproc s4)) s4) (\<lambda>s5.
            tbind (case p_parent (pr_proc s5 p) of None \<Rightarrow> tret s5
                   | Some q \<Rightarrow> if pr_initproc s5 = Some q then tret s5 else wakeup q s5) (\<lambda>s6.
            tbind (acquire (p_lock p) s6) (\<lambda>s7.
            tbind (release wait_lock (upd_proc p (\<lambda>r. r\<lparr>p_xstate := status, p_state := ZOMBIE\<rparr>) s7)) sched))))))))"

datatype wait_result = Returned int | Slept bool

definition i32_bytes :: "int \<Rightarrow> uint8 list" where
  "i32_bytes v = map (\<lambda>i. of_int (v div 256 ^ i)) [0..<4]"

definition unlink_proc :: "uintptr \<Rightarrow> 'a procs_scheme \<Rightarrow> 'a procs_scheme" where
  "unlink_proc p s =
     (let b = pid_bucket (p_pid (pr_proc s p)) in
      s\<lparr>pr_allproc := remove1 p (pr_allproc s), pr_pidhash := (pr_pidhash s)(b := remove1 p (pr_pidhash s b))\<rparr>)"

text \<open>One pass over \<open>allproc\<close>, under \<open>wait_lock\<close> and \<open>ptable_lock\<close>: \<open>Inl\<close> the value \<open>wait\<close> returns, or
  \<open>Inr havekids\<close>.\<close>

fun wait_scan :: "'a procs_scheme uaccess \<Rightarrow> uintptr \<Rightarrow> uintptr \<Rightarrow> uintptr list \<Rightarrow> bool \<Rightarrow> 'a procs_scheme
     \<Rightarrow> ((int + bool) \<times> 'a procs_scheme) res option" where
  "wait_scan ua p xstatus [] kids s = tret (Inr kids, s)"
| "wait_scan ua p xstatus (np # nps) kids s =
     (if p_parent (pr_proc s np) \<noteq> Some p then wait_scan ua p xstatus nps kids s
      else tbind (acquire (p_lock np) s) (\<lambda>s1.
        if p_state (pr_proc s1 np) = ZOMBIE then
          tbind (if xstatus \<noteq> 0 then Some (copyout ua xstatus (i32_bytes (p_xstate (pr_proc s1 np))) s1) else tret (0, s1)) (\<lambda>(r, s2).
            if r < 0 then
              tbind (release (p_lock np) s2) (\<lambda>s3. tbind (release ptable_lock s3) (\<lambda>s4.
                tbind (release wait_lock s4) (\<lambda>s5. tret (Inl (-1), s5))))
            else
              (let pid = p_pid (pr_proc s1 np) in
               tbind (release (p_lock np) (unlink_proc np s2)) (\<lambda>s3. tbind (release ptable_lock s3) (\<lambda>s4.
                 tbind (freeproc np s4) (\<lambda>s5. tbind (release wait_lock s5) (\<lambda>s6. tret (Inl pid, s6)))))))
        else tbind (release (p_lock np) s1) (wait_scan ua p xstatus nps True)))"

definition killed :: "uintptr \<Rightarrow> 'a procs_scheme \<Rightarrow> (bool \<times> 'a procs_scheme) res option" where
  "killed p s = tbind (acquire (p_lock p) s) (\<lambda>s1. tbind (release (p_lock p) s1) (\<lambda>s2. tret (p_killed (pr_proc s1 p), s2)))"

text \<open>One turn of \<open>wait\<close>'s loop, entered with \<open>wait_lock\<close> held.\<close>

definition wait_turn :: "'a procs_scheme uaccess \<Rightarrow> uintptr \<Rightarrow> uintptr \<Rightarrow> 'a procs_scheme \<Rightarrow> (wait_result \<times> 'a procs_scheme) res option" where
  "wait_turn ua p xstatus s =
     tbind (acquire ptable_lock s) (\<lambda>s1. tbind (wait_scan ua p xstatus (pr_allproc s1) False s1) (\<lambda>(r, s2).
       case r of Inl v \<Rightarrow> tret (Returned v, s2)
       | Inr kids \<Rightarrow> tbind (release ptable_lock s2) (\<lambda>s3.
           tbind (if kids then killed p s3 else tret (True, s3)) (\<lambda>(stop, s4).
             if stop then tbind (release wait_lock s4) (\<lambda>s5. tret (Returned (-1), s5))
             else tbind (sleep p wait_lock s4) (\<lambda>(ena, s5). tret (Slept ena, s5))))))"

definition wait :: "'a procs_scheme uaccess \<Rightarrow> uintptr \<Rightarrow> 'a procs_scheme \<Rightarrow> (wait_result \<times> 'a procs_scheme) res option" where
  "wait ua xstatus s =
     (case myproc s of None \<Rightarrow> Some (Inl Fault) | Some p \<Rightarrow> tbind (acquire wait_lock s) (wait_turn ua p xstatus))"

definition kill :: "int \<Rightarrow> 'a procs_scheme \<Rightarrow> (int \<times> 'a procs_scheme) res option" where
  "kill pid s =
     tbind (acquire ptable_lock s) (\<lambda>s1.
       case pid_lookup pid s1 of None \<Rightarrow> tbind (release ptable_lock s1) (\<lambda>s2. tret (-1, s2))
       | Some p \<Rightarrow> tbind (acquire (p_lock p) s1) (\<lambda>s2.
           let s3 = upd_proc p (\<lambda>q. q\<lparr>p_killed := True\<rparr>) s2 in
           tbind (if p_state (pr_proc s3 p) = SLEEPING then runq_enqueue p (upd_proc p (\<lambda>q. q\<lparr>p_state := RUNNABLE\<rparr>) s3) else tret s3) (\<lambda>s4.
           tbind (release (p_lock p) s4) (\<lambda>s5. tbind (release ptable_lock s5) (\<lambda>s6. tret (0, s6))))))"

section \<open>Creating processes, growing them\<close>

definition proc_name :: "string \<Rightarrow> string" where
  "proc_name n = take 15 (takeWhile (\<lambda>c. c \<noteq> CHR 0x00) n)"

definition kthread_add :: "uint64 \<Rightarrow> uint64 \<Rightarrow> uintptr \<Rightarrow> string \<Rightarrow> 'a procs_scheme \<Rightarrow> (int \<times> 'a procs_scheme) res option" where
  "kthread_add forkret_pc fn isrc name s =
     tbind (allocproc forkret_pc s) (\<lambda>(p, s1).
       case p of None \<Rightarrow> tret (-1, s1)
       | Some a \<Rightarrow>
           (let s2 = upd_proc a (\<lambda>q. q\<lparr>p_context := (p_context q)\<lparr>cx_x19 := fn\<rparr>, p_isrc := isrc, p_name := proc_name name\<rparr>) s1 in
            tbind (proc_activate a None s2) (\<lambda>s3. tret (p_pid (pr_proc s2 a), s3))))"

definition fork :: "uint64 \<Rightarrow> 'a procs_scheme \<Rightarrow> (int \<times> 'a procs_scheme) res option" where
  "fork forkret_pc s =
     (case myproc s of None \<Rightarrow> Some (Inl Fault)
      | Some p \<Rightarrow> tbind (allocproc forkret_pc s) (\<lambda>(n, s1).
          case n of None \<Rightarrow> tret (-1, s1)
          | Some np \<Rightarrow> tbind (Some (uvmcreate kmem_reclaim s1)) (\<lambda>(t, s2).
              case t of None \<Rightarrow> tbind (freeproc np s2) (\<lambda>s3. tret (-1, s3))
              | Some pt \<Rightarrow>
                  (let s3 = upd_proc np (\<lambda>q. q\<lparr>p_pagetable := Some pt\<rparr>) s2; pp = pr_proc s3 p in
                   tbind (case p_pagetable pp of None \<Rightarrow> Some (Inl Fault) | Some ppt \<Rightarrow> Some (uvmcopy kmem_reclaim ppt pt (p_sz pp) s3)) (\<lambda>(ok, s4).
                     if \<not> ok then tbind (freeproc np s4) (\<lambda>s5. tret (-1, s5))
                     else
                       (let pp4 = pr_proc s4 p;
                            s5 = upd_proc np (\<lambda>q. q\<lparr>p_sz := p_sz pp4, p_tf := (p_tf pp4)\<lparr>tf_x := (tf_x (p_tf pp4))[0 := 0]\<rparr>, p_name := proc_name (p_name pp4)\<rparr>) s4;
                            pid = p_pid (pr_proc s5 np) in
                        tbind (acquire wait_lock s5) (\<lambda>s6. tbind (proc_activate np (Some p) s6) (\<lambda>s7.
                          tbind (release wait_lock s7) (\<lambda>s8. tret (pid, s8))))))))))"

text \<open>\<open>n\<close> is an \<open>int\<close>: \<open>sz + n\<close> sign-extends it and wraps. \<open>flushed\<close> reports the call of \<open>asid_flush\<close>.\<close>

definition growproc :: "int \<Rightarrow> 'a procs_scheme \<Rightarrow> ((int \<times> bool) \<times> 'a procs_scheme) res option" where
  "growproc n s =
     (case myproc s of None \<Rightarrow> Some (Inl Fault)
      | Some p \<Rightarrow>
          (let sz = p_sz (pr_proc s p); t = p_pagetable (pr_proc s p) in
           if n > 0 then
             (case t of None \<Rightarrow> Some (Inl Fault) | Some pt \<Rightarrow>
               tbind (uvmalloc kmem_reclaim pt sz (sz + of_int n) s) (\<lambda>(nsz, s1).
                 if nsz = 0 then tret ((-1, True), s1) else tret ((0, False), upd_proc p (\<lambda>q. q\<lparr>p_sz := nsz\<rparr>) s1)))
           else if n < 0 then
             if of_int (- n) > sz then tret ((-1, False), s)
             else (case t of None \<Rightarrow> Some (Inl Fault) | Some pt \<Rightarrow>
               tbind (uvmdealloc pt sz (sz + of_int n) s) (\<lambda>(nsz, s1). tret ((0, True), upd_proc p (\<lambda>q. q\<lparr>p_sz := nsz\<rparr>) s1)))
           else tret ((0, False), upd_proc p (\<lambda>q. q\<lparr>p_sz := sz\<rparr>) s)))"

end
