(* ===== verification/ProcSpec.thy ===== *)
theory ProcSpec
  imports Proc
begin

text \<open>
  The promises of process management: the tables agree with each other, wake-ups are not lost, the
  run queue is first in, first out, and a pid names at most one process.
\<close>

section \<open>Critical sections\<close>

text \<open>\<open>s'\<close> is \<open>s\<close> but for this CPU's bookkeeping of the locks, which is sound with the locks \<open>H\<close> held.\<close>

definition lockeq :: "nat set \<Rightarrow> 'a procs_scheme \<Rightarrow> 'a procs_scheme \<Rightarrow> bool" where
  "lockeq H s s' \<longleftrightarrow> (\<exists>k. s' = s\<lparr>pr_locks := k\<rparr> \<and> locks_good (sl_cpu s) H k \<and>
     (\<forall>d. d \<noteq> sl_cpu s \<longrightarrow> cpus k d = cpus (pr_locks s) d))"

abbreviation good :: "nat set \<Rightarrow> 'a procs_scheme \<Rightarrow> bool" where
  "good H s \<equiv> locks_good (sl_cpu s) H (pr_locks s)"

lemma lockeqD:
  assumes "lockeq H s s'"
  shows "good H s'" "d \<noteq> sl_cpu s \<Longrightarrow> cpus (pr_locks s') d = cpus (pr_locks s) d" "pr_proc s' = pr_proc s" "pr_allproc s' = pr_allproc s" "pr_runq s' = pr_runq s" "pr_pidhash s' = pr_pidhash s"
    "pr_pidmap s' = pr_pidmap s" "pr_cur s' = pr_cur s" "pr_initproc s' = pr_initproc s" "sl_cpu s' = sl_cpu s" "myproc s' = myproc s"
  using assms by (auto simp: lockeq_def myproc_def)

lemma lockeq_trans: "lockeq H s s1 \<Longrightarrow> lockeq J s1 s2 \<Longrightarrow> lockeq J s s2"
  by (auto simp: lockeq_def)

lemma acquire_lockeq: "good H s \<Longrightarrow> l \<notin> H \<Longrightarrow> \<exists>s'. acquire l s = Some (Inr s') \<and> lockeq (insert l H) s s'"
  unfolding lockeq_def using acquire_ok by blast

lemma release_lockeq: "good H s \<Longrightarrow> l \<in> H \<Longrightarrow> \<exists>s'. release l s = Some (Inr s') \<and> lockeq (H - {l}) s s'"
  unfolding lockeq_def using release_ok by blast

lemma lock_names [simp]:
  "p_lock p \<noteq> pid_lock" "p_lock p \<noteq> wait_lock" "p_lock p \<noteq> ptable_lock" "p_lock p \<noteq> runq_lock"
  "pid_lock \<noteq> p_lock p" "wait_lock \<noteq> p_lock p" "ptable_lock \<noteq> p_lock p" "runq_lock \<noteq> p_lock p"
  "pid_lock \<noteq> wait_lock" "wait_lock \<noteq> ptable_lock" "ptable_lock \<noteq> wait_lock" "ptable_lock \<noteq> runq_lock" "runq_lock \<noteq> ptable_lock"
  "wait_lock \<noteq> runq_lock" "runq_lock \<noteq> wait_lock" "p_lock p = p_lock q \<longleftrightarrow> p = q"
  by (simp_all add: pid_lock_def wait_lock_def ptable_lock_def runq_lock_def p_lock_def word_unat_eq_iff)

lemma lockeq_upd:
  assumes "lockeq H s s1"
  shows "lockeq H (s\<lparr>pr_runq := q\<rparr>) (s1\<lparr>pr_runq := q\<rparr>)" "lockeq H (upd_proc p f s) (upd_proc p f s1)"
    "lockeq H (s\<lparr>pr_allproc := q, pr_pidhash := h\<rparr>) (s1\<lparr>pr_allproc := q, pr_pidhash := h\<rparr>)"
    "lockeq H (s\<lparr>pr_cur := u\<rparr>) (s1\<lparr>pr_cur := u\<rparr>)"
proof -
  obtain k where k: "s1 = s\<lparr>pr_locks := k\<rparr>" "locks_good (sl_cpu s) H k" "\<forall>d. d \<noteq> sl_cpu s \<longrightarrow> cpus k d = cpus (pr_locks s) d" using assms by (auto simp: lockeq_def)
  show "lockeq H (s\<lparr>pr_runq := q\<rparr>) (s1\<lparr>pr_runq := q\<rparr>)" "lockeq H (upd_proc p f s) (upd_proc p f s1)"
    "lockeq H (s\<lparr>pr_allproc := q, pr_pidhash := h\<rparr>) (s1\<lparr>pr_allproc := q, pr_pidhash := h\<rparr>)"
    "lockeq H (s\<lparr>pr_cur := u\<rparr>) (s1\<lparr>pr_cur := u\<rparr>)"
    unfolding lockeq_def by (rule exI [of _ k], simp add: k upd_proc_def)+
qed

text \<open>A section under one lock: \<open>f\<close> runs with \<open>l\<close> added to the locks held.\<close>

lemma section_ok:
  assumes g: "good H s" and l: "l \<notin> H"
    and f: "\<And>s1. lockeq (insert l H) s s1 \<Longrightarrow> \<exists>s2. f s1 = Some (Inr s2) \<and> lockeq (insert l H) s' s2"
  shows "\<exists>s3. tbind (acquire l s) (\<lambda>s1. tbind (f s1) (release l)) = Some (Inr s3) \<and> lockeq H s' s3"
proof -
  obtain s1 where a: "acquire l s = Some (Inr s1)" "lockeq (insert l H) s s1" using acquire_lockeq [OF g l] by blast
  obtain s2 where b: "f s1 = Some (Inr s2)" "lockeq (insert l H) s' s2" using f [OF a(2)] by blast
  have "good (insert l H) s2" by (rule lockeqD(1) [OF b(2)])
  then obtain s3 where c: "release l s2 = Some (Inr s3)" "lockeq (insert l H - {l}) s2 s3" using release_lockeq by blast
  have "insert l H - {l} = H" using l by auto
  then have "lockeq H s' s3" using lockeq_trans [OF b(2) c(2)] by simp
  then show ?thesis using a(1) b(1) c(1) by simp
qed

lemma runq_enqueue_ok:
  assumes "good H s" "runq_lock \<notin> H"
  shows "\<exists>s'. runq_enqueue p s = Some (Inr s') \<and> lockeq H (s\<lparr>pr_runq := pr_runq s @ [p]\<rparr>) s'"
proof -
  have "\<exists>s3. tbind (acquire runq_lock s) (\<lambda>s1. tbind (tret (s1\<lparr>pr_runq := pr_runq s1 @ [p]\<rparr>)) (release runq_lock)) = Some (Inr s3) \<and>
      lockeq H (s\<lparr>pr_runq := pr_runq s @ [p]\<rparr>) s3"
    by (rule section_ok [OF assms]) (use lockeq_upd(1) lockeqD(5) in \<open>fastforce simp: tret_def\<close>)
  then show ?thesis by (simp add: runq_enqueue_def)
qed

lemma runq_dequeue_ok:
  assumes "good H s" "runq_lock \<notin> H"
  shows "\<exists>s'. runq_dequeue s = Some (Inr (case pr_runq s of [] \<Rightarrow> None | p # _ \<Rightarrow> Some p, s')) \<and> lockeq H (s\<lparr>pr_runq := tl (pr_runq s)\<rparr>) s'"
proof -
  obtain s1 where a: "acquire runq_lock s = Some (Inr s1)" "lockeq (insert runq_lock H) s s1" using acquire_lockeq [OF assms] by blast
  let ?s2 = "s1\<lparr>pr_runq := tl (pr_runq s1)\<rparr>"
  have u: "lockeq (insert runq_lock H) (s\<lparr>pr_runq := tl (pr_runq s)\<rparr>) ?s2" using lockeq_upd(1) [OF a(2)] lockeqD(5) [OF a(2)] by simp
  obtain s3 where c: "release runq_lock ?s2 = Some (Inr s3)" "lockeq (insert runq_lock H - {runq_lock}) ?s2 s3"
    using release_lockeq [OF lockeqD(1) [OF u]] by blast
  have "insert runq_lock H - {runq_lock} = H" using assms(2) by auto
  then have "lockeq H (s\<lparr>pr_runq := tl (pr_runq s)\<rparr>) s3" using lockeq_trans [OF u c(2)] by simp
  note q = this lockeqD(5) [OF a(2)]
  show ?thesis
  proof (cases "pr_runq s")
    case Nil
    have "s1\<lparr>pr_runq := pr_runq s1\<rparr> = s1" by simp
    then have "?s2 = s1" using Nil q(2) by simp
    then have "release runq_lock s1 = Some (Inr s3)" using c(1) by simp
    then show ?thesis using a(1) q Nil by (simp add: runq_dequeue_def tret_def)
  next
    case (Cons p ps)
    then show ?thesis using a(1) c(1) q by (auto simp: runq_dequeue_def tret_def)
  qed
qed

section \<open>The run queue is first in, first out\<close>

datatype 'a qop = Enq 'a | Deq

text \<open>What comes out of a sequence of operations on a queue, in order, and the state it ends in.\<close>

fun serve :: "('a \<Rightarrow> 's \<Rightarrow> 's res option) \<Rightarrow> ('s \<Rightarrow> ('a option \<times> 's) res option) \<Rightarrow> 'a qop list \<Rightarrow> 's \<Rightarrow> ('a list \<times> 's) res option" where
  "serve enq deq [] s = tret ([], s)"
| "serve enq deq (Enq x # xs) s = tbind (enq x s) (serve enq deq xs)"
| "serve enq deq (Deq # xs) s =
     tbind (deq s) (\<lambda>(x, s1). tbind (serve enq deq xs s1) (\<lambda>(ys, s2). tret (case x of None \<Rightarrow> ys | Some y \<Rightarrow> y # ys, s2)))"

fun enqueued :: "'a qop list \<Rightarrow> 'a list" where
  "enqueued [] = []"
| "enqueued (Enq x # xs) = x # enqueued xs"
| "enqueued (Deq # xs) = enqueued xs"

definition dequeues :: "'a qop list \<Rightarrow> nat" where
  "dequeues xs = length (filter (\<lambda>x. case x of Deq \<Rightarrow> True | _ \<Rightarrow> False) xs)"

lemma dequeues_simps [simp]: "dequeues [] = 0" "dequeues (Enq x # xs) = dequeues xs" "dequeues (Deq # xs) = Suc (dequeues xs)"
  by (simp_all add: dequeues_def)

text \<open>A queue whose operations may panic or hang, and what its users rely on.\<close>

locale fifo_queue =
  fixes ready :: "'s \<Rightarrow> bool" and content :: "'s \<Rightarrow> 'a list"
    and enq :: "'a \<Rightarrow> 's \<Rightarrow> 's res option" and deq :: "'s \<Rightarrow> ('a option \<times> 's) res option"
  assumes enq_ok: "ready s \<Longrightarrow> \<exists>s'. enq x s = Some (Inr s') \<and> ready s' \<and> content s' = content s @ [x]"
    and deq_ok: "ready s \<Longrightarrow> \<exists>s'. deq s = Some (Inr (case content s of [] \<Rightarrow> None | x # _ \<Rightarrow> Some x, s')) \<and> ready s' \<and> content s' = tl (content s)"
begin

lemma serve_order:
  "ready s \<Longrightarrow> \<exists>out s'. serve enq deq xs s = Some (Inr (out, s')) \<and> ready s' \<and> out @ content s' = content s @ enqueued xs \<and>
     (\<forall>i < length (content s). i < dequeues xs \<longrightarrow> i < length out)"
proof (induction xs arbitrary: s)
  case Nil
  then show ?case by (simp add: tret_def)
next
  case (Cons op xs)
  show ?case
  proof (cases op)
    case (Enq x)
    obtain s1 where s1: "enq x s = Some (Inr s1)" "ready s1" "content s1 = content s @ [x]" using enq_ok [OF Cons.prems] by blast
    then show ?thesis using Cons.IH [OF s1(2)] Enq by auto
  next
    case Deq
    obtain s1 where s1: "deq s = Some (Inr (case content s of [] \<Rightarrow> None | x # _ \<Rightarrow> Some x, s1))" "ready s1" "content s1 = tl (content s)"
      using deq_ok [OF Cons.prems] by blast
    obtain out s2 where o: "serve enq deq xs s1 = Some (Inr (out, s2))" "ready s2" "out @ content s2 = content s1 @ enqueued xs"
      "\<forall>i < length (content s1). i < dequeues xs \<longrightarrow> i < length out"
      using Cons.IH [OF s1(2)] by blast
    show ?thesis
    proof (cases "content s")
      case Nil
      then show ?thesis using s1 o Deq by (auto simp: tret_def)
    next
      case (Cons y ys)
      have "i < Suc (length out)" if "i < length (content s)" "i < Suc (dequeues xs)" for i
        using o(4) that s1(3) Cons by (cases i) auto
      then show ?thesis using s1 o Cons Deq by (auto simp: tret_def)
    qed
  qed
qed

lemma served:
  assumes "ready s" "i < length (content s)" "i < dequeues xs"
  shows "\<exists>out s'. serve enq deq xs s = Some (Inr (out, s')) \<and> i < length out \<and> out ! i = content s ! i"
proof -
  obtain out s' where o: "serve enq deq xs s = Some (Inr (out, s'))" "out @ content s' = content s @ enqueued xs" "i < length out"
    using serve_order [OF assms(1), of xs] assms(2,3) by blast
  then have "out ! i = content s ! i" using assms(2) by (metis nth_append)
  then show ?thesis using o by blast
qed

end

interpretation rq: fifo_queue "good {}" pr_runq runq_enqueue runq_dequeue
proof unfold_locales
  fix s :: "'a procs_scheme" and x
  assume g: "good {} s"
  show "\<exists>s'. runq_enqueue x s = Some (Inr s') \<and> good {} s' \<and> pr_runq s' = pr_runq s @ [x]"
    using runq_enqueue_ok [OF g, of x] lockeqD(1,5) by fastforce
  show "\<exists>s'. runq_dequeue s = Some (Inr (case pr_runq s of [] \<Rightarrow> None | x # _ \<Rightarrow> Some x, s')) \<and> good {} s' \<and> pr_runq s' = tl (pr_runq s)"
    using runq_dequeue_ok [OF g] lockeqD(1,5) by fastforce
qed

text \<open>C36: no runnable process starves in the run queue: whatever is enqueued in between, every dequeue
  returns, they return the processes in the order they were queued, and the process with \<open>i\<close> others
  before it is returned by the time \<open>i + 1\<close> dequeues have run.\<close>

theorem runq_no_starvation:
  fixes s :: "'a procs_scheme"
  assumes "locks_good (sl_cpu s) {} (pr_locks s)" "i < length (pr_runq s)" "i < dequeues ops"
  shows "\<exists>out s'. serve runq_enqueue runq_dequeue ops s = Some (Inr (out, s')) \<and>
    out @ pr_runq s' = pr_runq s @ enqueued ops \<and> i < length out \<and> out ! i = pr_runq s ! i"
proof -
  obtain out s' where o: "serve runq_enqueue runq_dequeue ops s = Some (Inr (out, s'))" "out @ pr_runq s' = pr_runq s @ enqueued ops"
    using rq.serve_order [OF assms(1), of ops] by blast
  then show ?thesis using rq.served [OF assms] by auto
qed

theorem runq_no_starvation_witness:
  "\<exists>out s'. serve runq_enqueue runq_dequeue [Deq, Enq 0x300, Deq] (demo_procs\<lparr>pr_runq := [0x100, 0x200]\<rparr>) = Some (Inr (out, s')) \<and>
     out ! 1 = 0x200 \<and> out @ pr_runq s' = [0x100, 0x200, 0x300]"
  using runq_no_starvation [of "demo_procs\<lparr>pr_runq := [0x100, 0x200]\<rparr>" 1 "[Deq, Enq 0x300, Deq]"] no_locks_good by auto

section \<open>Waking up\<close>

definition asleep_on :: "uintptr \<Rightarrow> uintptr option \<Rightarrow> 'a procs_scheme \<Rightarrow> uintptr \<Rightarrow> bool" where
  "asleep_on chan self s p \<longleftrightarrow> self \<noteq> Some p \<and> p_state (pr_proc s p) = SLEEPING \<and> p_chan (pr_proc s p) = chan"

definition wake :: "uintptr \<Rightarrow> uintptr option \<Rightarrow> uintptr \<Rightarrow> 'a procs_scheme \<Rightarrow> 'a procs_scheme" where
  "wake chan self p s =
     (if asleep_on chan self s p then (upd_proc p (\<lambda>q. q\<lparr>p_state := RUNNABLE\<rparr>) s)\<lparr>pr_runq := pr_runq s @ [p]\<rparr> else s)"

lemma upd_proc_parts [simp]:
  "pr_runq (upd_proc p f s) = pr_runq s" "pr_locks (upd_proc p f s) = pr_locks s" "sl_cpu (upd_proc p f s) = sl_cpu s"
  "pr_allproc (upd_proc p f s) = pr_allproc s" "pr_pidhash (upd_proc p f s) = pr_pidhash s" "pr_cur (upd_proc p f s) = pr_cur s"
  "pr_proc (upd_proc p f s) = (pr_proc s)(p := f (pr_proc s p))" "pr_initproc (upd_proc p f s) = pr_initproc s"
  "pr_pidmap (upd_proc p f s) = pr_pidmap s" "myproc (upd_proc p f s) = myproc s"
  by (simp_all add: upd_proc_def myproc_def)

lemma lockeq_refl: "good H s \<Longrightarrow> lockeq H s s"
  unfolding lockeq_def by (rule exI [of _ "pr_locks s"]) simp

lemma wakeup_one_ok:
  assumes g: "good H s" and l: "p_lock p \<notin> H" "runq_lock \<notin> H"
  shows "\<exists>s'. wakeup_one chan self p s = Some (Inr s') \<and> lockeq H (wake chan self p s) s'"
proof (cases "self = Some p")
  case True
  then show ?thesis using lockeq_refl [OF g] by (simp add: wakeup_one_def wake_def asleep_on_def tret_def)
next
  case False
  let ?f = "\<lambda>s1. if p_state (pr_proc s1 p) = SLEEPING \<and> p_chan (pr_proc s1 p) = chan
    then runq_enqueue p (upd_proc p (\<lambda>q. q\<lparr>p_state := RUNNABLE\<rparr>) s1) else tret s1"
  have "\<exists>s3. tbind (acquire (p_lock p) s) (\<lambda>s1. tbind (?f s1) (release (p_lock p))) = Some (Inr s3) \<and> lockeq H (wake chan self p s) s3"
  proof (rule section_ok [OF g l(1)])
    fix s1 assume u: "lockeq (insert (p_lock p) H) s s1"
    show "\<exists>s2. ?f s1 = Some (Inr s2) \<and> lockeq (insert (p_lock p) H) (wake chan self p s) s2"
    proof (cases "asleep_on chan self s p")
      case True
      then have c: "p_state (pr_proc s1 p) = SLEEPING \<and> p_chan (pr_proc s1 p) = chan" using lockeqD(3) [OF u] by (simp add: asleep_on_def)
      let ?s = "upd_proc p (\<lambda>q. q\<lparr>p_state := RUNNABLE\<rparr>) s" and ?s1 = "upd_proc p (\<lambda>q. q\<lparr>p_state := RUNNABLE\<rparr>) s1"
      have u1: "lockeq (insert (p_lock p) H) ?s ?s1" by (rule lockeq_upd(2) [OF u])
      obtain s2 where e: "runq_enqueue p ?s1 = Some (Inr s2)" "lockeq (insert (p_lock p) H) (?s1\<lparr>pr_runq := pr_runq ?s1 @ [p]\<rparr>) s2"
        using runq_enqueue_ok [OF lockeqD(1) [OF u1], of p] l(2) by auto
      have "lockeq (insert (p_lock p) H) (?s\<lparr>pr_runq := pr_runq ?s1 @ [p]\<rparr>) s2" by (rule lockeq_trans [OF lockeq_upd(1) [OF u1] e(2)])
      then show ?thesis using c e(1) True lockeqD(5) [OF u] by (simp add: wake_def)
    next
      case no: False
      then have "\<not> (p_state (pr_proc s1 p) = SLEEPING \<and> p_chan (pr_proc s1 p) = chan)" using False lockeqD(3) [OF u] by (simp add: asleep_on_def)
      then show ?thesis using u no by (auto simp: wake_def tret_def)
    qed
  qed
  then show ?thesis using False by (simp add: wakeup_one_def)
qed

lemma wake_parts [simp]:
  "pr_allproc (wake chan self p s) = pr_allproc s" "pr_pidhash (wake chan self p s) = pr_pidhash s" "pr_cur (wake chan self p s) = pr_cur s"
  "sl_cpu (wake chan self p s) = sl_cpu s" "pr_locks (wake chan self p s) = pr_locks s" "pr_initproc (wake chan self p s) = pr_initproc s"
  "pr_pidmap (wake chan self p s) = pr_pidmap s"
  by (simp_all add: wake_def)

lemma wake_lockeq: "lockeq H s s1 \<Longrightarrow> lockeq H (wake chan self p s) (wake chan self p s1)"
  using lockeq_upd(1) [OF lockeq_upd(2)] lockeqD(3,5) by (fastforce simp: wake_def asleep_on_def)

lemma wakeup_seq:
  assumes "good H s" "runq_lock \<notin> H" "\<And>p. p_lock p \<notin> H"
  shows "\<exists>s'. tseq (wakeup_one chan self) ps s = Some (Inr s') \<and> lockeq H (fold (wake chan self) ps s) s'"
  using assms(1)
proof (induction ps arbitrary: s)
  case Nil
  then show ?case using lockeq_refl [OF Nil] by (simp add: tret_def)
next
  case (Cons p ps)
  obtain s1 where s1: "wakeup_one chan self p s = Some (Inr s1)" "lockeq H (wake chan self p s) s1"
    using wakeup_one_ok [OF Cons.prems assms(3,2)] by blast
  obtain s2 where s2: "tseq (wakeup_one chan self) ps s1 = Some (Inr s2)" "lockeq H (fold (wake chan self) ps s1) s2"
    using Cons.IH [OF lockeqD(1) [OF s1(2)]] by blast
  have "lockeq H (fold (wake chan self) ps x) (fold (wake chan self) ps y)" if "lockeq H x y" for x y
    using that by (induction ps arbitrary: x y) (simp_all add: wake_lockeq)
  then have "lockeq H (fold (wake chan self) ps (wake chan self p s)) s2" using lockeq_trans [OF _ s2(2)] s1(2) by blast
  then show ?case using s1(1) s2(1) by simp
qed

lemma wake_fold:
  assumes "distinct ps"
  shows "pr_runq (fold (wake chan self) ps s) = pr_runq s @ filter (asleep_on chan self s) ps"
    "pr_proc (fold (wake chan self) ps s) p = (if p \<in> set ps \<and> asleep_on chan self s p then (pr_proc s p)\<lparr>p_state := RUNNABLE\<rparr> else pr_proc s p)"
    "pr_allproc (fold (wake chan self) ps s) = pr_allproc s" "pr_pidhash (fold (wake chan self) ps s) = pr_pidhash s"
    "pr_cur (fold (wake chan self) ps s) = pr_cur s" "sl_cpu (fold (wake chan self) ps s) = sl_cpu s"
    "pr_locks (fold (wake chan self) ps s) = pr_locks s" "pr_initproc (fold (wake chan self) ps s) = pr_initproc s"
    "pr_pidmap (fold (wake chan self) ps s) = pr_pidmap s"
proof -
  have "pr_runq (fold (wake chan self) ps s) = pr_runq s @ filter (asleep_on chan self s) ps \<and>
    (\<forall>p. pr_proc (fold (wake chan self) ps s) p = (if p \<in> set ps \<and> asleep_on chan self s p then (pr_proc s p)\<lparr>p_state := RUNNABLE\<rparr> else pr_proc s p))"
    using assms
  proof (induction ps arbitrary: s)
    case (Cons q ps)
    have a: "asleep_on chan self (wake chan self q s) p = asleep_on chan self s p" if "p \<noteq> q" for p
      using that by (simp add: asleep_on_def wake_def)
    then have f: "filter (asleep_on chan self (wake chan self q s)) ps = filter (asleep_on chan self s) ps"
      using Cons.prems by (intro filter_cong [OF refl] a) auto
    have w: "pr_runq (wake chan self q s) = pr_runq s @ (if asleep_on chan self s q then [q] else [])"
      "pr_proc (wake chan self q s) = (if asleep_on chan self s q then (pr_proc s)(q := (pr_proc s q)\<lparr>p_state := RUNNABLE\<rparr>) else pr_proc s)"
      by (simp_all add: wake_def)
    have d: "q \<notin> set ps" "distinct ps" using Cons.prems by simp_all
    have m: "p \<in> set ps \<and> asleep_on chan self (wake chan self q s) p \<longleftrightarrow> p \<in> set ps \<and> asleep_on chan self s p" for p
      using a [of p] d(1) by blast
    show ?case using Cons.IH [of "wake chan self q s", OF d(2), unfolded m] d(1) by (auto simp: w f)
  qed simp
  then show "pr_runq (fold (wake chan self) ps s) = pr_runq s @ filter (asleep_on chan self s) ps"
    "pr_proc (fold (wake chan self) ps s) p = (if p \<in> set ps \<and> asleep_on chan self s p then (pr_proc s p)\<lparr>p_state := RUNNABLE\<rparr> else pr_proc s p)"
    by simp_all
  show "pr_allproc (fold (wake chan self) ps s) = pr_allproc s" "pr_pidhash (fold (wake chan self) ps s) = pr_pidhash s"
    "pr_cur (fold (wake chan self) ps s) = pr_cur s" "sl_cpu (fold (wake chan self) ps s) = sl_cpu s"
    "pr_locks (fold (wake chan self) ps s) = pr_locks s" "pr_initproc (fold (wake chan self) ps s) = pr_initproc s"
    "pr_pidmap (fold (wake chan self) ps s) = pr_pidmap s"
    by (induction ps arbitrary: s) simp_all
qed

lemma wakeup_ok:
  assumes "good H s" "runq_lock \<notin> H" "ptable_lock \<notin> H" "\<And>p. p_lock p \<notin> H"
  shows "\<exists>s'. wakeup chan s = Some (Inr s') \<and> lockeq H (fold (wake chan (myproc s)) (pr_allproc s) s) s'"
proof -
  have "\<exists>s3. tbind (acquire ptable_lock s) (\<lambda>s1. tbind (tseq (wakeup_one chan (myproc s)) (pr_allproc s1) s1) (release ptable_lock)) = Some (Inr s3) \<and>
    lockeq H (fold (wake chan (myproc s)) (pr_allproc s) s) s3"
  proof (rule section_ok [OF assms(1,3)])
    fix s1 assume u: "lockeq (insert ptable_lock H) s s1"
    obtain s2 where s2: "tseq (wakeup_one chan (myproc s)) (pr_allproc s1) s1 = Some (Inr s2)"
      "lockeq (insert ptable_lock H) (fold (wake chan (myproc s)) (pr_allproc s1) s1) s2"
      using wakeup_seq [OF lockeqD(1) [OF u], of chan "myproc s" "pr_allproc s1"] assms by auto
    have "lockeq (insert ptable_lock H) (fold (wake chan (myproc s)) ps x) (fold (wake chan (myproc s)) ps y)"
      if "lockeq (insert ptable_lock H) x y" for ps x y
      using that by (induction ps arbitrary: x y) (simp_all add: wake_lockeq)
    from lockeq_trans [OF this [OF u] s2(2)] show "\<exists>s2. tseq (wakeup_one chan (myproc s)) (pr_allproc s1) s1 = Some (Inr s2) \<and>
        lockeq (insert ptable_lock H) (fold (wake chan (myproc s)) (pr_allproc s) s) s2"
      using s2(1) lockeqD(4) [OF u] by auto
  qed
  then show ?thesis by (simp add: wakeup_def)
qed

section \<open>The tables agree\<close>

definition live_in :: "'a procs_scheme \<Rightarrow> procstate \<Rightarrow> uintptr set" where
  "live_in s st = {p \<in> set (pr_allproc s). p_state (pr_proc s p) = st}"

definition hash_ok :: "'a procs_scheme \<Rightarrow> bool" where
  "hash_ok s \<longleftrightarrow> distinct (pr_allproc s) \<and> inj_on (\<lambda>p. p_pid (pr_proc s p)) (set (pr_allproc s)) \<and>
     (\<forall>b < PIDHASH_BUCKETS. pr_pidhash s b = filter (\<lambda>p. pid_bucket (p_pid (pr_proc s p)) = b) (pr_allproc s))"

definition runq_ok :: "'a procs_scheme \<Rightarrow> bool" where
  "runq_ok s \<longleftrightarrow> distinct (pr_runq s) \<and> set (pr_runq s) = live_in s RUNNABLE"

definition cur_ok :: "'a procs_scheme \<Rightarrow> bool" where
  "cur_ok s \<longleftrightarrow> (\<forall>c d p. pr_cur s c = Some p \<longrightarrow> pr_cur s d = Some p \<longrightarrow> c = d) \<and> {p. \<exists>c. pr_cur s c = Some p} = live_in s RUNNING"

definition tables_ok :: "'a procs_scheme \<Rightarrow> bool" where
  "tables_ok s \<longleftrightarrow> hash_ok s \<and> runq_ok s \<and> cur_ok s \<and> (\<forall>c. locks_good c {} (pr_locks s))"

lemma pid_bucket_mod: "pid_bucket pid = nat (pid mod 64)"
proof -
  have "and pid (mask 6) = take_bit 6 pid" by (simp add: take_bit_eq_mask)
  then show ?thesis by (simp add: pid_bucket_def PIDHASH_BUCKETS_def mask_eq_exp_minus_1 take_bit_eq_mod)
qed

lemma pid_bucket_less [simp]: "pid_bucket pid < PIDHASH_BUCKETS"
  by (simp add: pid_bucket_mod PIDHASH_BUCKETS_def nat_less_iff)

lemma pid_lookup_iff:
  assumes "hash_ok s"
  shows "pid_lookup pid s = Some p \<longleftrightarrow> p \<in> set (pr_allproc s) \<and> p_pid (pr_proc s p) = pid"
proof -
  let ?P = "\<lambda>p. p_pid (pr_proc s p) = pid"
  have h: "pr_pidhash s (pid_bucket pid) = filter (\<lambda>p. pid_bucket (p_pid (pr_proc s p)) = pid_bucket pid) (pr_allproc s)"
    and inj: "inj_on (\<lambda>p. p_pid (pr_proc s p)) (set (pr_allproc s))" using assms by (simp_all add: hash_ok_def)
  have some: "find ?P xs = Some q \<Longrightarrow> q \<in> set xs \<and> ?P q" and none: "find ?P xs = None \<Longrightarrow> x \<in> set xs \<Longrightarrow> \<not> ?P x" for xs q x
    by (auto simp: find_Some_iff find_None_iff)
  show ?thesis
  proof
    assume "pid_lookup pid s = Some p"
    then show "p \<in> set (pr_allproc s) \<and> ?P p" using some unfolding pid_lookup_def h by fastforce
  next
    assume p: "p \<in> set (pr_allproc s) \<and> ?P p"
    then have m: "p \<in> set (pr_pidhash s (pid_bucket pid))" by (simp add: h)
    then obtain q where q: "pid_lookup pid s = Some q" using none p by (cases "pid_lookup pid s") (auto simp: pid_lookup_def)
    then have "q \<in> set (pr_allproc s)" "?P q" using some unfolding pid_lookup_def h by fastforce+
    then show "pid_lookup pid s = Some p" using q p inj by (metis inj_onD)
  qed
qed

text \<open>A change of the state of some processes, with the run queue and the CPUs changed to match.\<close>

lemma hash_ok_cong:
  assumes "hash_ok s" "pr_allproc s' = pr_allproc s" "pr_pidhash s' = pr_pidhash s" "\<And>p. p_pid (pr_proc s' p) = p_pid (pr_proc s p)"
  shows "hash_ok s'"
  using assms by (simp add: hash_ok_def)

lemma tables_ok_lockeq:
  assumes "tables_ok s" "lockeq {} s s'" "\<forall>c. locks_good c {} (pr_locks s)"
  shows "\<forall>c. locks_good c {} (pr_locks s')"
proof
  fix c
  note u = lockeqD [OF assms(2)]
  show "locks_good c {} (pr_locks s')"
  proof (cases "c = sl_cpu s")
    case True
    then show ?thesis using u(1) u(10) by simp
  next
    case False
    have "locks_good c {} (pr_locks s)" using assms(3) by simp
    then show ?thesis using u(1) u(2) [OF False] by (simp add: locks_good_def)
  qed
qed

section \<open>Steps\<close>

text \<open>The part of the state the tables are in, and that an operation ended with the locks \<open>H\<close> held.\<close>

definition tab :: "'a procs_scheme \<Rightarrow> (uintptr \<Rightarrow> proc) \<times> uintptr list \<times> (nat \<Rightarrow> uintptr list) \<times> uintptr list \<times> (nat \<Rightarrow> uintptr option)" where
  "tab s = (pr_proc s, pr_allproc s, pr_pidhash s, pr_runq s, pr_cur s)"

definition ended :: "nat set \<Rightarrow> 'a procs_scheme \<Rightarrow> 'a procs_scheme \<Rightarrow> bool" where
  "ended H s s' \<longleftrightarrow> sl_cpu s' = sl_cpu s \<and> locks_good (sl_cpu s) H (pr_locks s') \<and> (\<forall>d. d \<noteq> sl_cpu s \<longrightarrow> cpus (pr_locks s') d = cpus (pr_locks s) d)"

lemma lockeq_ended: "lockeq H s s' \<Longrightarrow> ended H s s' \<and> tab s' = tab s"
  using lockeqD [of H s s'] by (auto simp: ended_def tab_def)

lemma ended_trans: "ended H s s1 \<Longrightarrow> ended J s1 s2 \<Longrightarrow> ended J s s2"
  by (simp add: ended_def)

lemma ended_locks:
  assumes "ended {} s s'" "\<forall>c. locks_good c {} (pr_locks s)"
  shows "\<forall>c. locks_good c {} (pr_locks s')"
proof
  fix c
  have a: "locks_good (sl_cpu s) {} (pr_locks s')" "c \<noteq> sl_cpu s \<Longrightarrow> cpus (pr_locks s') c = cpus (pr_locks s) c" using assms(1) by (simp_all add: ended_def)
  show "locks_good c {} (pr_locks s')"
    using a assms(2) by (cases "c = sl_cpu s") (auto simp: locks_good_def)
qed

lemma acquire_inv:
  assumes "good H s" "l \<notin> H" "acquire l s = Some (Inr s')"
  shows "lockeq (insert l H) s s'"
  using acquire_lockeq [OF assms(1,2)] assms(3) by auto

lemma release_inv:
  assumes "good H s" "l \<in> H" "release l s = Some (Inr s')"
  shows "lockeq (H - {l}) s s'"
  using release_lockeq [OF assms(1,2)] assms(3) by auto

lemma enqueue_inv:
  assumes "good H s" "runq_lock \<notin> H" "runq_enqueue p s = Some (Inr s')"
  shows "lockeq H (s\<lparr>pr_runq := pr_runq s @ [p]\<rparr>) s'"
  using runq_enqueue_ok [OF assms(1,2), of p] assms(3) by auto

lemma tbind_Inr: "tbind m f = Some (Inr y) \<longleftrightarrow> (\<exists>x. m = Some (Inr x) \<and> f x = Some (Inr y))"
  by (auto simp: tbind_def split: option.split sum.split)

lemma tassert_Inr: "tassert b msg k = Some (Inr y) \<longleftrightarrow> b \<and> k = Some (Inr y)"
  by (simp add: tassert_def)

lemma tret_Inr [simp]: "tret x = Some (Inr y) \<longleftrightarrow> x = y"
  by (simp add: tret_def)

text \<open>\<open>sched\<close> passes its assertions or panics; it changes nothing.\<close>

lemma sched_inv:
  assumes "sched s = Some (Inr (ena, s'))"
  shows "s' = s" "\<exists>p. myproc s = Some p \<and> p_state (pr_proc s p) \<noteq> RUNNING"
  using assms by (auto simp: sched_def Let_def tassert_Inr split: option.splits)

lemma switchuvm_reserved_tab:
  assumes "switchuvm_reserved s = Inr s'"
  shows "tab s' = tab s" "pr_locks s' = pr_locks s" "sl_cpu s' = sl_cpu s"
  using assms by (auto simp: switchuvm_reserved_def rbind_Inr_iff tab_def)

lemma asid_switch_tab:
  assumes "asid_switch p s = Inr s'"
  shows "tab s' = tab s" "pr_locks s' = pr_locks s" "sl_cpu s' = sl_cpu s"
  using assms by (auto simp: asid_switch_def Let_def rbind_Inr_iff tab_def)

lemma scheduler_return_inv:
  assumes g: "good {p_lock p} s" and r: "scheduler_return p s = Some (Inr s')"
  shows "ended {} s s'" "tab s' = (pr_proc s, pr_allproc s, pr_pidhash s,
      pr_runq s @ (if p_state (pr_proc s p) = RUNNABLE then [p] else []), (pr_cur s)(sl_cpu s := None))"
proof -
  obtain s1 s2 where a: "switchuvm_reserved (s\<lparr>pr_cur := (pr_cur s)(sl_cpu s := None)\<rparr>) = Inr s1"
    "(if p_state (pr_proc s1 p) = RUNNABLE then runq_enqueue p s1 else tret s1) = Some (Inr s2)" "release (p_lock p) s2 = Some (Inr s')"
    using r by (auto simp: scheduler_return_def tbind_Inr)
  note b = switchuvm_reserved_tab [OF a(1)]
  have g1: "good {p_lock p} s1" using g b(2,3) by simp
  have l2: "lockeq {p_lock p} (s1\<lparr>pr_runq := pr_runq s1 @ (if p_state (pr_proc s1 p) = RUNNABLE then [p] else [])\<rparr>) s2"
  proof (cases "p_state (pr_proc s1 p) = RUNNABLE")
    case True
    then show ?thesis using enqueue_inv [OF g1, of p s2] a(2) by simp
  next
    case False
    then show ?thesis using a(2) lockeq_refl [OF g1] by simp
  qed
  have "lockeq ({p_lock p} - {p_lock p}) s2 s'" by (rule release_inv [OF lockeqD(1) [OF l2] _ a(3)]) simp
  then have e: "lockeq {} (s1\<lparr>pr_runq := pr_runq s1 @ (if p_state (pr_proc s1 p) = RUNNABLE then [p] else [])\<rparr>) s'"
    using lockeq_trans [OF l2] by simp
  have t: "pr_proc s1 = pr_proc s" "pr_allproc s1 = pr_allproc s" "pr_pidhash s1 = pr_pidhash s" "pr_runq s1 = pr_runq s"
    "pr_cur s1 = (pr_cur s)(sl_cpu s := None)" using b(1) by (simp_all add: tab_def)
  show "ended {} s s'" "tab s' = (pr_proc s, pr_allproc s, pr_pidhash s,
      pr_runq s @ (if p_state (pr_proc s p) = RUNNABLE then [p] else []), (pr_cur s)(sl_cpu s := None))"
    using lockeq_ended [OF e] b(2,3) by (simp_all add: ended_def tab_def t)
qed

lemma ended_good: "ended H s s' \<Longrightarrow> good H s'"
  by (simp add: ended_def)

text \<open>Giving up the CPU: the running process leaves the state it has and the scheduler takes over.\<close>

definition lists_ok :: "'a procs_scheme \<Rightarrow> bool" where
  "lists_ok s \<longleftrightarrow> hash_ok s \<and> runq_ok s \<and> cur_ok s"

lemma lists_ok_cong:
  assumes "lists_ok s" "pr_allproc s' = pr_allproc s" "pr_pidhash s' = pr_pidhash s" "pr_runq s' = pr_runq s" "pr_cur s' = pr_cur s"
    "\<And>p. p_pid (pr_proc s' p) = p_pid (pr_proc s p)" "\<And>p. p_state (pr_proc s' p) = p_state (pr_proc s p)"
  shows "lists_ok s'"
  using assms by (simp add: lists_ok_def hash_ok_def runq_ok_def cur_ok_def live_in_def)

lemma give_up_lists:
  assumes ok: "lists_ok s" and p: "myproc s = Some p" and st: "st \<noteq> RUNNING"
    and s1: "good {p_lock p} s1" "sl_cpu s1 = sl_cpu s" "tab s1 = ((pr_proc s)(p := f (pr_proc s p)), pr_allproc s, pr_pidhash s, pr_runq s, pr_cur s)"
    and f: "p_state (f (pr_proc s p)) = st" "p_pid (f (pr_proc s p)) = p_pid (pr_proc s p)"
    and r: "scheduler_return p s1 = Some (Inr s')"
  shows "lists_ok s'" "ended {} s1 s'"
proof -
  have t1: "pr_proc s1 = (pr_proc s)(p := f (pr_proc s p))" "pr_allproc s1 = pr_allproc s" "pr_pidhash s1 = pr_pidhash s" "pr_runq s1 = pr_runq s"
    "pr_cur s1 = pr_cur s" using s1(3) by (simp_all add: tab_def)
  note sr = scheduler_return_inv [OF s1(1) r]
  show "ended {} s1 s'" by (rule sr(1))
  have t: "pr_proc s' = (pr_proc s)(p := f (pr_proc s p))" "pr_allproc s' = pr_allproc s" "pr_pidhash s' = pr_pidhash s"
    "pr_runq s' = pr_runq s @ (if st = RUNNABLE then [p] else [])" "pr_cur s' = (pr_cur s)(sl_cpu s := None)"
    using sr(2) f(1) by (simp_all add: tab_def t1 s1(2))
  have c: "pr_cur s (sl_cpu s) = Some p" using p by (simp add: myproc_def)
  have h: "hash_ok s" "runq_ok s" "cur_ok s" using ok by (simp_all add: lists_ok_def)
  have run: "p \<in> set (pr_allproc s)" "p_state (pr_proc s p) = RUNNING" using c h(3) by (auto simp: cur_ok_def live_in_def)
  have "p_pid (pr_proc s' q) = p_pid (pr_proc s q)" for q using f(2) by (simp add: t)
  then have "hash_ok s'" using hash_ok_cong [OF h(1) t(2,3)] by blast
  moreover have "runq_ok s'" using h(2) run f(1) by (auto simp: runq_ok_def live_in_def t)
  moreover have "cur_ok s'"
  proof -
    have "{q. \<exists>d. pr_cur s' d = Some q} = {q. \<exists>d. pr_cur s d = Some q} - {p}"
    proof -
      have inj: "pr_cur s d = Some p \<Longrightarrow> d = sl_cpu s" for d using c h(3) unfolding cur_ok_def by metis
      have "(\<exists>d. pr_cur s' d = Some q) \<longleftrightarrow> (\<exists>d. pr_cur s d = Some q) \<and> q \<noteq> p" for q
        using c inj unfolding t by (metis fun_upd_apply option.inject option.distinct(1))
      then show ?thesis by auto
    qed
    moreover have "live_in s' RUNNING = live_in s RUNNING - {p}" using f(1) st by (auto simp: live_in_def t)
    moreover have "\<forall>a b q. pr_cur s' a = Some q \<longrightarrow> pr_cur s' b = Some q \<longrightarrow> a = b" using h(3) by (auto simp: t cur_ok_def)
    ultimately show ?thesis using h(3) by (simp add: cur_ok_def)
  qed
  ultimately show "lists_ok s'" by (simp add: lists_ok_def)
qed

lemma tables_lists: "tables_ok s \<longleftrightarrow> lists_ok s \<and> (\<forall>c. locks_good c {} (pr_locks s))"
  by (simp add: tables_ok_def lists_ok_def)

lemma give_up:
  assumes ok: "tables_ok s" and p: "myproc s = Some p" and st: "st \<noteq> RUNNING"
    and s1: "ended {p_lock p} s s1" "tab s1 = ((pr_proc s)(p := f (pr_proc s p)), pr_allproc s, pr_pidhash s, pr_runq s, pr_cur s)"
    and f: "p_state (f (pr_proc s p)) = st" "p_pid (f (pr_proc s p)) = p_pid (pr_proc s p)"
    and r: "scheduler_return p s1 = Some (Inr s')"
  shows "tables_ok s'"
proof -
  have c: "sl_cpu s1 = sl_cpu s" using s1(1) by (simp add: ended_def)
  have o: "lists_ok s" "\<forall>c. locks_good c {} (pr_locks s)" using ok by (simp_all add: tables_lists)
  note gl = give_up_lists [where f = f, OF o(1) p st ended_good [OF s1(1)] c s1(2) f r]
  show ?thesis using gl(1) ended_locks [OF ended_trans [OF s1(1) gl(2)] o(2)] by (simp add: tables_lists)
qed

lemma yield_ok:
  assumes ok: "tables_ok s" and y: "yield s = Some (Inr (ena, s1))" and r: "myproc s = Some p" "scheduler_return p s1 = Some (Inr s')"
  shows "tables_ok s'"
proof -
  have g: "good {} s" using ok by (simp add: tables_ok_def)
  obtain s0 where a: "acquire (p_lock p) s = Some (Inr s0)" "sched (upd_proc p (\<lambda>q. q\<lparr>p_state := RUNNABLE\<rparr>) s0) = Some (Inr (ena, s1))"
    using y r(1) by (auto simp: yield_def tbind_Inr)
  have l: "lockeq {p_lock p} s s0" using acquire_inv [OF g _ a(1)] by simp
  have s1: "s1 = upd_proc p (\<lambda>q. q\<lparr>p_state := RUNNABLE\<rparr>) s0" using sched_inv(1) [OF a(2)] .
  note e = lockeq_ended [OF l]
  show ?thesis
    by (rule give_up [OF ok r(1), where st = RUNNABLE and f = "\<lambda>q. q\<lparr>p_state := RUNNABLE\<rparr>" and ?s1.0 = s1]) (use e s1 r(2) in \<open>auto simp: ended_def tab_def\<close>)
qed

lemma sleep_ok:
  assumes ok: "tables_ok s" and lk: "acquire lk s = Some (Inr s0)" "\<And>q. lk \<noteq> p_lock q"
    and y: "sleep chan lk s0 = Some (Inr (ena, s1))" and r: "myproc s = Some p" "scheduler_return p s1 = Some (Inr s')"
  shows "tables_ok s'"
proof -
  have g: "good {} s" using ok by (simp add: tables_ok_def)
  have l0: "lockeq {lk} s s0" using acquire_inv [OF g _ lk(1)] by simp
  have "myproc s0 = Some p" using r(1) lockeqD(11) [OF l0] by simp
  then obtain s2 s3 where a: "acquire (p_lock p) s0 = Some (Inr s2)" "release lk s2 = Some (Inr s3)"
    "sched (upd_proc p (\<lambda>q. q\<lparr>p_chan := chan, p_state := SLEEPING\<rparr>) s3) = Some (Inr (ena, s1))"
    using y by (auto simp: sleep_def tbind_Inr)
  have l1: "lockeq {p_lock p, lk} s0 s2" using acquire_inv [OF lockeqD(1) [OF l0] _ a(1)] lk(2) by auto
  have "lockeq ({p_lock p, lk} - {lk}) s2 s3" using release_inv [OF lockeqD(1) [OF l1] _ a(2)] by simp
  moreover have "{p_lock p, lk} - {lk} = {p_lock p}" using lk(2) [of p] by auto
  ultimately have l3: "lockeq {p_lock p} s s3" using lockeq_trans [OF l0 lockeq_trans [OF l1]] by simp
  have s1: "s1 = upd_proc p (\<lambda>q. q\<lparr>p_chan := chan, p_state := SLEEPING\<rparr>) s3" using sched_inv(1) [OF a(3)] .
  note e = lockeq_ended [OF l3]
  show ?thesis
    by (rule give_up [OF ok r(1), where st = SLEEPING and f = "\<lambda>q. q\<lparr>p_chan := chan, p_state := SLEEPING\<rparr>" and ?s1.0 = s1])
      (use e s1 r(2) in \<open>auto simp: ended_def tab_def\<close>)
qed

lemma irq_enable_ended: "good {} s \<Longrightarrow> ended {} s (irq_enable s)" and irq_enable_tab: "tab (irq_enable s) = tab s"
  by (auto simp: ended_def irq_enable_def locks_good_def set_cpu_def tab_def)

lemma scheduler_turn_inv:
  assumes g: "good {} s" and r: "scheduler_turn s = Some (Inr (r, s1))"
  shows "r = Stopped \<Longrightarrow> s1 = s"
    "r = Idle \<Longrightarrow> ended {} s s1 \<and> tab s1 = tab s \<and> pr_runq s = []"
    "r = Skipped \<Longrightarrow> \<exists>p ps. pr_runq s = p # ps \<and> p_state (pr_proc s p) \<noteq> RUNNABLE"
    "r = Dispatch p \<Longrightarrow> ended {p_lock p} s s1 \<and> (\<exists>ps. pr_runq s = p # ps \<and> p_state (pr_proc s p) = RUNNABLE \<and>
       tab s1 = ((pr_proc s)(p := (pr_proc s p)\<lparr>p_state := RUNNING\<rparr>), pr_allproc s, pr_pidhash s, ps, (pr_cur s)(sl_cpu s := Some p)))"
proof -
  note ie = irq_enable_ended [OF g]
  have t0: "pr_runq (irq_enable s) = pr_runq s" using irq_enable_tab [of s] by (simp add: tab_def)
  have gi: "good {} (irq_enable s)" by (rule ended_good [OF ie])
  obtain s2 where d: "runq_dequeue (irq_enable s) = Some (Inr (case pr_runq s of [] \<Rightarrow> None | p # _ \<Rightarrow> Some p, s2))"
    "lockeq {} ((irq_enable s)\<lparr>pr_runq := tl (pr_runq s)\<rparr>) s2"
    using runq_dequeue_ok [OF gi] t0 by auto
  have e2: "ended {} s s2" "tab s2 = (pr_proc s, pr_allproc s, pr_pidhash s, tl (pr_runq s), pr_cur s)"
    using lockeq_ended [OF d(2)] ie irq_enable_tab [of s] by (auto simp: ended_def tab_def)
  have t2: "pr_proc s2 = pr_proc s" "pr_allproc s2 = pr_allproc s" "pr_pidhash s2 = pr_pidhash s" "pr_runq s2 = tl (pr_runq s)"
    "pr_cur s2 = pr_cur s" "sl_cpu s2 = sl_cpu s" using e2 by (simp_all add: tab_def ended_def)
  have tp: "\<not> panicking (pr_locks s)" using g by (simp add: locks_good_def)
  show "r = Stopped \<Longrightarrow> s1 = s" using r by (auto simp: scheduler_turn_def tbind_Inr tassert_Inr Let_def split: if_splits option.splits)
  show "r = Idle \<Longrightarrow> ended {} s s1 \<and> tab s1 = tab s \<and> pr_runq s = []"
    using r d(1) e2 tp by (cases "pr_runq s") (auto simp: scheduler_turn_def tbind_Inr tassert_Inr tab_def Let_def split: if_splits)
  have cont: "\<exists>s3. acquire (p_lock q) s2 = Some (Inr s3) \<and> lockeq {p_lock q} s2 s3" for q
    using acquire_lockeq [OF ended_good [OF e2(1)], of "p_lock q"] by simp
  show "\<exists>p ps. pr_runq s = p # ps \<and> p_state (pr_proc s p) \<noteq> RUNNABLE" if "r = Skipped"
  proof (cases "pr_runq s")
    case (Cons q qs)
    obtain s3 where "acquire (p_lock q) s2 = Some (Inr s3)" "lockeq {p_lock q} s2 s3" using cont by blast
    then show ?thesis using r that d(1) tp Cons t2(1) lockeqD(3)
      by (fastforce simp: scheduler_turn_def tbind_Inr tassert_Inr Let_def split: if_splits)
  qed (use r that d(1) tp in \<open>simp add: scheduler_turn_def tbind_Inr\<close>)
  show "ended {p_lock p} s s1 \<and> (\<exists>ps. pr_runq s = p # ps \<and> p_state (pr_proc s p) = RUNNABLE \<and>
       tab s1 = ((pr_proc s)(p := (pr_proc s p)\<lparr>p_state := RUNNING\<rparr>), pr_allproc s, pr_pidhash s, ps, (pr_cur s)(sl_cpu s := Some p)))"
    if disp: "r = Dispatch p"
  proof (cases "pr_runq s")
    case (Cons q qs)
    obtain s3 where s3: "acquire (p_lock q) s2 = Some (Inr s3)" "lockeq {p_lock q} s2 s3" using cont by blast
    let ?s4 = "upd_proc q (\<lambda>q. q\<lparr>p_state := RUNNING\<rparr>) (s3\<lparr>pr_cur := (pr_cur s3)(sl_cpu s3 := Some q)\<rparr>)"
    have q: "q = p" "p_state (pr_proc s3 q) = RUNNABLE"
      "(if p_pagetable (pr_proc ?s4 q) \<noteq> None then Some (asid_switch q ?s4) else tret ?s4) = Some (Inr s1)"
      using r disp d(1) tp Cons s3(1) by (auto simp: scheduler_turn_def tbind_Inr tassert_Inr Let_def split: if_splits)
    have a: "tab s1 = tab ?s4" "pr_locks s1 = pr_locks ?s4" "sl_cpu s1 = sl_cpu ?s4"
      using q(3) asid_switch_tab [of q ?s4 s1] by (auto split: if_splits)
    have e3: "ended {p_lock p} s s3" "tab s3 = tab s2" using lockeq_ended [OF s3(2)] ended_trans [OF e2(1)] q(1) by auto
    have t3: "pr_proc s3 = pr_proc s" "pr_allproc s3 = pr_allproc s" "pr_pidhash s3 = pr_pidhash s" "pr_runq s3 = qs" "pr_cur s3 = pr_cur s" "sl_cpu s3 = sl_cpu s"
      using e3 t2 Cons by (simp_all add: tab_def ended_def)
    have "ended {p_lock p} s s1" using e3(1) a(2,3) by (simp add: ended_def)
    moreover have "tab s1 = ((pr_proc s)(p := (pr_proc s p)\<lparr>p_state := RUNNING\<rparr>), pr_allproc s, pr_pidhash s, qs, (pr_cur s)(sl_cpu s := Some p))"
      using a(1) q(1) by (simp add: tab_def t3)
    ultimately show ?thesis using Cons q(1,2) t3(1) by simp
  qed (use r disp d(1) tp in \<open>simp add: scheduler_turn_def tbind_Inr\<close>)
qed

text \<open>A dispatched process runs on: past \<open>forkret\<close>, out of \<open>yield\<close>, or out of \<open>sleep\<close> up to the release of
  the lock it slept with.\<close>

inductive resumes :: "'a procs_scheme \<Rightarrow> 'a procs_scheme \<Rightarrow> bool" where
  first: "forkret s = Some (Inr (r, s')) \<Longrightarrow> resumes s s'"
| yielded: "yield_resume ena s = Some (Inr s') \<Longrightarrow> resumes s s'"
| slept: "sleep_resume ena lk s = Some (Inr s1) \<Longrightarrow> (\<And>q. lk \<noteq> p_lock q) \<Longrightarrow> release lk s1 = Some (Inr s') \<Longrightarrow> resumes s s'"

lemma resumes_inv:
  assumes "resumes s s'" "good {p_lock p} s" "myproc s = Some p"
  shows "ended {} s s' \<and> (\<exists>f. (\<forall>q. p_state (f q) = p_state q \<and> p_pid (f q) = p_pid q) \<and>
    tab s' = ((pr_proc s)(p := f (pr_proc s p)), pr_allproc s, pr_pidhash s, pr_runq s, pr_cur s))"
  using assms(1)
proof cases
  case (first r)
  then have "release (p_lock p) s = Some (Inr s')" using assms(3) by (auto simp: forkret_def tbind_Inr Let_def)
  then have "lockeq {} s s'" using release_inv [OF assms(2)] by fastforce
  then show ?thesis using lockeq_ended by (intro conjI exI [of _ "\<lambda>q. q"]) (auto simp: tab_def)
next
  case (yielded ena)
  let ?s1 = "sched_resume ena s"
  have g1: "good {p_lock p} ?s1" "ended {p_lock p} s ?s1" "tab ?s1 = tab s" "myproc ?s1 = Some p"
    using assms(2,3) by (auto simp: sched_resume_def locks_good_def set_cpu_def ended_def tab_def myproc_def)
  then have "release (p_lock p) ?s1 = Some (Inr s')" using yielded by (simp add: yield_resume_def Let_def)
  then have "lockeq {} ?s1 s'" using release_inv [OF g1(1)] by fastforce
  then show ?thesis using lockeq_ended [of "{}" ?s1 s'] g1(3) ended_trans [OF g1(2)]
    by (intro conjI exI [of _ "\<lambda>q. q"]) (auto simp: tab_def)
next
  case (slept ena lk s1)
  let ?s1 = "sched_resume ena s" let ?f = "\<lambda>q. q\<lparr>p_chan := 0\<rparr>"
  have g1: "good {p_lock p} ?s1" "ended {p_lock p} s ?s1" "tab ?s1 = tab s" "myproc ?s1 = Some p"
    using assms(2,3) by (auto simp: sched_resume_def locks_good_def set_cpu_def ended_def tab_def myproc_def)
  obtain s2 where s2: "release (p_lock p) (upd_proc p ?f ?s1) = Some (Inr s2)" "acquire lk s2 = Some (Inr s1)"
    using slept(1) g1(4) by (auto simp: sleep_resume_def tbind_Inr Let_def)
  have l2: "lockeq {} (upd_proc p ?f ?s1) s2" using release_inv [OF _ _ s2(1), of "{p_lock p}"] g1(1) by simp
  have l3: "lockeq {lk} s2 s1" using acquire_inv [OF lockeqD(1) [OF l2] _ s2(2)] by simp
  have "lockeq {} s1 s'" using release_inv [OF lockeqD(1) [OF l3] _ slept(3)] by simp
  then have l: "lockeq {} (upd_proc p ?f ?s1) s'" using lockeq_trans [OF l2] lockeq_trans [OF l3] by blast
  have "ended {} s s'" using lockeq_ended [OF l] g1(2) by (simp add: ended_def)
  moreover have "tab s' = ((pr_proc s)(p := ?f (pr_proc s p)), pr_allproc s, pr_pidhash s, pr_runq s, pr_cur s)"
    using lockeq_ended [OF l] g1(3) by (simp add: tab_def)
  ultimately show ?thesis by (intro conjI exI [of _ ?f]) simp_all
qed

lemma dispatch_ok:
  assumes ok: "tables_ok s" and idle: "myproc s = None" and t: "scheduler_turn s = Some (Inr (Dispatch p, s1))" and r: "resumes s1 s'"
  shows "tables_ok s'"
proof -
  have h: "hash_ok s" "runq_ok s" "cur_ok s" "\<forall>c. locks_good c {} (pr_locks s)" using ok by (simp_all add: tables_ok_def)
  have g: "good {} s" using h(4) by simp
  obtain ps where e: "ended {p_lock p} s s1" "pr_runq s = p # ps" "p_state (pr_proc s p) = RUNNABLE"
    "tab s1 = ((pr_proc s)(p := (pr_proc s p)\<lparr>p_state := RUNNING\<rparr>), pr_allproc s, pr_pidhash s, ps, (pr_cur s)(sl_cpu s := Some p))"
    using scheduler_turn_inv(4) [OF g t] by blast
  have t1: "pr_proc s1 = (pr_proc s)(p := (pr_proc s p)\<lparr>p_state := RUNNING\<rparr>)" "pr_allproc s1 = pr_allproc s" "pr_pidhash s1 = pr_pidhash s"
    "pr_runq s1 = ps" "pr_cur s1 = (pr_cur s)(sl_cpu s := Some p)" "sl_cpu s1 = sl_cpu s" using e(1,4) by (simp_all add: tab_def ended_def)
  have "myproc s1 = Some p" by (simp add: myproc_def t1)
  from resumes_inv [OF r ended_good [OF e(1)] this] obtain f where f: "ended {} s1 s'" "\<And>q. p_state (f q) = p_state q" "\<And>q. p_pid (f q) = p_pid q"
    "tab s' = ((pr_proc s1)(p := f (pr_proc s1 p)), pr_allproc s1, pr_pidhash s1, pr_runq s1, pr_cur s1)" by blast
  have t: "pr_proc s' = (pr_proc s)(p := f ((pr_proc s p)\<lparr>p_state := RUNNING\<rparr>))" "pr_allproc s' = pr_allproc s" "pr_pidhash s' = pr_pidhash s"
    "pr_runq s' = ps" "pr_cur s' = (pr_cur s)(sl_cpu s := Some p)" using f(4) by (simp_all add: tab_def t1)
  have pin: "p \<in> set (pr_allproc s)" using h(2) e(2) by (auto simp: runq_ok_def live_in_def)
  have c: "pr_cur s (sl_cpu s) = None" using idle by (simp add: myproc_def)
  have np: "pr_cur s d \<noteq> Some p" for d
  proof
    assume "pr_cur s d = Some p"
    then have "p \<in> live_in s RUNNING" using h(3) unfolding cur_ok_def by blast
    then show False using e(3) by (simp add: live_in_def)
  qed
  have "p_pid (pr_proc s' q) = p_pid (pr_proc s q)" for q using f(3) by (simp add: t)
  then have "hash_ok s'" using hash_ok_cong [OF h(1) t(2,3)] by blast
  moreover have "runq_ok s'" using h(2) e(2) f(2) unfolding runq_ok_def live_in_def t by auto
  moreover have "cur_ok s'"
  proof -
    have "(\<exists>d. pr_cur s' d = Some q) \<longleftrightarrow> (\<exists>d. pr_cur s d = Some q) \<or> q = p" for q unfolding t using c by (metis fun_upd_apply option.distinct(1) option.inject)
    moreover have "live_in s' RUNNING = insert p (live_in s RUNNING)" using f(2) pin unfolding live_in_def t by auto
    moreover have "\<forall>a b q. pr_cur s' a = Some q \<longrightarrow> pr_cur s' b = Some q \<longrightarrow> a = b" using h(3) np unfolding t cur_ok_def by (auto simp: fun_upd_apply)
    ultimately show ?thesis using h(3) unfolding cur_ok_def by auto
  qed
  moreover have "\<forall>c. locks_good c {} (pr_locks s')" by (rule ended_locks [OF ended_trans [OF e(1) f(1)] h(4)])
  ultimately show ?thesis by (simp add: tables_ok_def)
qed

text \<open>Processes that become runnable: by \<open>wakeup\<close> and \<open>kill\<close>, and newly published ones.\<close>

lemma tables_ok_ended:
  assumes "ended {} s s'" "\<forall>c. locks_good c {} (pr_locks s)" "hash_ok s'" "runq_ok s'" "cur_ok s'"
  shows "tables_ok s'"
  using ended_locks [OF assms(1,2)] assms(3-5) by (simp add: tables_ok_def)

lemma wakeup_lists:
  assumes ok: "lists_ok s" and g: "good H s" "runq_lock \<notin> H" "ptable_lock \<notin> H" "\<And>p. p_lock p \<notin> H" and w: "wakeup chan s = Some (Inr s')"
  shows "lists_ok s'" "pr_runq s' = pr_runq s @ filter (asleep_on chan (myproc s) s) (pr_allproc s)"
    "pr_proc s' p = (if p \<in> set (pr_allproc s) \<and> asleep_on chan (myproc s) s p then (pr_proc s p)\<lparr>p_state := RUNNABLE\<rparr> else pr_proc s p)"
    "pr_allproc s' = pr_allproc s" "pr_cur s' = pr_cur s" "ended H s s'" "pr_initproc s' = pr_initproc s"
proof -
  have h: "hash_ok s" "runq_ok s" "cur_ok s" using ok by (simp_all add: lists_ok_def)
  have dist: "distinct (pr_allproc s)" using h by (simp_all add: hash_ok_def)
  have l: "lockeq H (fold (wake chan (myproc s)) (pr_allproc s) s) s'" using wakeup_ok [OF g, of chan] w by auto
  note wf = wake_fold [OF dist, of chan "myproc s" s]
  show q: "pr_runq s' = pr_runq s @ filter (asleep_on chan (myproc s) s) (pr_allproc s)" using lockeqD(5) [OF l] wf(1) by simp
  show pp: "pr_proc s' p = (if p \<in> set (pr_allproc s) \<and> asleep_on chan (myproc s) s p then (pr_proc s p)\<lparr>p_state := RUNNABLE\<rparr> else pr_proc s p)" for p
    using lockeqD(3) [OF l] wf(2) by simp
  show al: "pr_allproc s' = pr_allproc s" and cu: "pr_cur s' = pr_cur s" using lockeqD(4,8) [OF l] wf(3,5) by simp_all
  show "pr_initproc s' = pr_initproc s" using lockeqD(9) [OF l] wf(8) by simp
  show e: "ended H s s'" using lockeq_ended [OF l] wf(6,7) by (simp add: ended_def)
  have hs: "pr_pidhash s' = pr_pidhash s" using lockeqD(6) [OF l] wf(4) by simp
  have "p_pid (pr_proc s' p) = p_pid (pr_proc s p)" for p by (simp add: pp)
  then have "hash_ok s'" using hash_ok_cong [OF h(1) al hs] by blast
  moreover have "runq_ok s'"
  proof -
    have "p \<in> live_in s' RUNNABLE \<longleftrightarrow> p \<in> live_in s RUNNABLE \<or> p \<in> set (pr_allproc s) \<and> asleep_on chan (myproc s) s p" for p
      by (auto simp: live_in_def al pp)
    moreover have "p \<notin> live_in s RUNNABLE" if "asleep_on chan (myproc s) s p" for p using that by (simp add: live_in_def asleep_on_def)
    ultimately show ?thesis using h(2) dist by (auto simp: runq_ok_def q)
  qed
  moreover have "live_in s' RUNNING = live_in s RUNNING" by (auto simp: live_in_def al pp asleep_on_def)
  then have "cur_ok s'" using h(3) by (simp add: cur_ok_def cu)
  ultimately show "lists_ok s'" by (simp add: lists_ok_def)
qed

lemma wakeup_tables:
  assumes ok: "tables_ok s" and w: "wakeup chan s = Some (Inr s')"
  shows "tables_ok s'"
proof -
  have o: "lists_ok s" "\<forall>c. locks_good c {} (pr_locks s)" using ok by (simp_all add: tables_lists)
  have "good {} s" using o(2) by simp
  note wl = wakeup_lists [OF o(1) this _ _ _ w, simplified]
  show ?thesis using wl(1) ended_locks [OF wl(6) o(2)] by (simp add: tables_lists)
qed

lemma kill_tables:
  assumes ok: "tables_ok s" and k: "kill pid s = Some (Inr (r, s'))"
  shows "tables_ok s'" "if \<exists>p \<in> set (pr_allproc s). p_pid (pr_proc s p) = pid
     then r = 0 \<and> (\<exists>p \<in> set (pr_allproc s). p_pid (pr_proc s p) = pid \<and> p_killed (pr_proc s' p) \<and> p_state (pr_proc s' p) \<noteq> SLEEPING \<and>
       (p_state (pr_proc s p) = SLEEPING \<longrightarrow> p \<in> set (pr_runq s')))
     else r = -1 \<and> tab s' = tab s"
proof -
  have h: "hash_ok s" "runq_ok s" "cur_ok s" "\<forall>c. locks_good c {} (pr_locks s)" using ok by (simp_all add: tables_ok_def)
  have g: "good {} s" using h(4) by simp
  obtain s1 where s1: "acquire ptable_lock s = Some (Inr s1)" "lockeq {ptable_lock} s s1" using acquire_lockeq [OF g] by auto
  have lk: "pid_lookup pid s1 = pid_lookup pid s" using lockeqD(3,6) [OF s1(2)] by (simp add: pid_lookup_def)
  have "tables_ok s' \<and> (if \<exists>p \<in> set (pr_allproc s). p_pid (pr_proc s p) = pid
     then r = 0 \<and> (\<exists>p \<in> set (pr_allproc s). p_pid (pr_proc s p) = pid \<and> p_killed (pr_proc s' p) \<and> p_state (pr_proc s' p) \<noteq> SLEEPING \<and>
       (p_state (pr_proc s p) = SLEEPING \<longrightarrow> p \<in> set (pr_runq s')))
     else r = -1 \<and> tab s' = tab s)"
  proof (cases "pid_lookup pid s")
    case None
    then have no: "\<not> (\<exists>p \<in> set (pr_allproc s). p_pid (pr_proc s p) = pid)" using pid_lookup_iff [OF h(1), of pid] by auto
    have "release ptable_lock s1 = Some (Inr s')" "r = -1" using k s1(1) lk None by (auto simp: kill_def tbind_Inr)
    then have "lockeq {} s1 s'" using release_inv [OF lockeqD(1) [OF s1(2)]] by fastforce
    then have e: "ended {} s s'" "tab s' = tab s" using lockeq_ended [OF lockeq_trans [OF s1(2)]] by blast+
    then have t: "pr_proc s' = pr_proc s" "pr_allproc s' = pr_allproc s" "pr_pidhash s' = pr_pidhash s" "pr_runq s' = pr_runq s" "pr_cur s' = pr_cur s"
      by (simp_all add: tab_def)
    have "tables_ok s'" by (rule tables_ok_ended [OF e(1) h(4)]) (use h in \<open>simp_all add: hash_ok_def runq_ok_def cur_ok_def live_in_def t\<close>)
    then show ?thesis using no e(2) \<open>r = -1\<close> by simp
  next
    case (Some p)
    then have p: "p \<in> set (pr_allproc s)" "p_pid (pr_proc s p) = pid" using pid_lookup_iff [OF h(1), of pid p] by auto
    obtain s2 where s2: "acquire (p_lock p) s1 = Some (Inr s2)" "lockeq {p_lock p, ptable_lock} s1 s2"
      using acquire_lockeq [OF lockeqD(1) [OF s1(2)], of "p_lock p"] by auto
    let ?s3 = "upd_proc p (\<lambda>q. q\<lparr>p_killed := True\<rparr>) s2" let ?w = "p_state (pr_proc s p) = SLEEPING"
    have q: "pr_proc s2 = pr_proc s" "pr_runq s2 = pr_runq s" using lockeqD(3,5) [OF lockeq_trans [OF s1(2) s2(2)]] by simp_all
    obtain s4 s5 where s4: "(if ?w then runq_enqueue p (upd_proc p (\<lambda>q. q\<lparr>p_state := RUNNABLE\<rparr>) ?s3) else tret ?s3) = Some (Inr s4)"
      "release (p_lock p) s4 = Some (Inr s5)" "release ptable_lock s5 = Some (Inr s')" "r = 0"
      using k s1(1) s2(1) lk Some q(1) by (auto simp: kill_def tbind_Inr Let_def)
    let ?t = "if ?w then (upd_proc p (\<lambda>q. q\<lparr>p_killed := True, p_state := RUNNABLE\<rparr>) s2)\<lparr>pr_runq := pr_runq s2 @ [p]\<rparr> else ?s3"
    have g2: "good {p_lock p, ptable_lock} s2" by (rule lockeqD(1) [OF s2(2)])
    have l4: "lockeq {p_lock p, ptable_lock} ?t s4"
    proof (cases ?w)
      case True
      have u: "upd_proc p (\<lambda>q. q\<lparr>p_state := RUNNABLE\<rparr>) ?s3 = upd_proc p (\<lambda>q. q\<lparr>p_killed := True, p_state := RUNNABLE\<rparr>) s2"
        by (simp add: upd_proc_def)
      have "runq_enqueue p (upd_proc p (\<lambda>q. q\<lparr>p_killed := True, p_state := RUNNABLE\<rparr>) s2) = Some (Inr s4)" using s4(1) True u by simp
      from enqueue_inv [OF _ _ this, of "{p_lock p, ptable_lock}"] show ?thesis using True g2 by simp
    next
      case False
      have "good {p_lock p, ptable_lock} ?s3" using g2 by simp
      from lockeq_refl [OF this] show ?thesis using False s4(1) by simp
    qed
    have "lockeq ({p_lock p, ptable_lock} - {p_lock p}) s4 s5" using release_inv [OF lockeqD(1) [OF l4] _ s4(2)] by simp
    then have l5: "lockeq {ptable_lock} s4 s5" by (simp add: insert_Diff_if)
    have "lockeq {} s5 s'" using release_inv [OF lockeqD(1) [OF l5] _ s4(3)] by simp
    then have l: "lockeq {} ?t s'" using lockeq_trans [OF l4] lockeq_trans [OF l5] by blast
    note e12 = lockeq_ended [OF lockeq_trans [OF s1(2) s2(2)]]
    have e: "ended {} s s'" using lockeq_ended [OF l] e12 by (auto simp: ended_def split: if_splits)
    have t: "pr_proc s' = (pr_proc s)(p := (pr_proc s p)\<lparr>p_killed := True, p_state := (if ?w then RUNNABLE else p_state (pr_proc s p))\<rparr>)"
      "pr_allproc s' = pr_allproc s" "pr_pidhash s' = pr_pidhash s" "pr_runq s' = pr_runq s @ (if ?w then [p] else [])" "pr_cur s' = pr_cur s"
      using lockeq_ended [OF l] e12 by (auto simp: tab_def)
    have "p_pid (pr_proc s' q) = p_pid (pr_proc s q)" for q by (simp add: t)
    then have "hash_ok s'" using hash_ok_cong [OF h(1) t(2,3)] by blast
    moreover have "runq_ok s'" using h(2) p(1) unfolding runq_ok_def live_in_def t by (cases ?w) auto
    moreover have "live_in s' RUNNING = live_in s RUNNING" unfolding live_in_def t by (cases ?w) auto
    then have "cur_ok s'" using h(3) by (simp add: cur_ok_def t(5))
    ultimately have "tables_ok s'" by (rule tables_ok_ended [OF e h(4)])
    moreover have "p_killed (pr_proc s' p) \<and> p_state (pr_proc s' p) \<noteq> SLEEPING \<and> (?w \<longrightarrow> p \<in> set (pr_runq s'))" unfolding t by simp
    ultimately show ?thesis using p s4(4) by auto
  qed
  then show "tables_ok s'" "if \<exists>p \<in> set (pr_allproc s). p_pid (pr_proc s p) = pid
     then r = 0 \<and> (\<exists>p \<in> set (pr_allproc s). p_pid (pr_proc s p) = pid \<and> p_killed (pr_proc s' p) \<and> p_state (pr_proc s' p) \<noteq> SLEEPING \<and>
       (p_state (pr_proc s p) = SLEEPING \<longrightarrow> p \<in> set (pr_runq s')))
     else r = -1 \<and> tab s' = tab s" by blast+
qed

text \<open>A process is published once it is complete, and taken off the tables once it is a zombie.\<close>

lemma activate_tables:
  assumes ok: "tables_ok s" and new: "p \<notin> set (pr_allproc s)" "\<forall>q \<in> set (pr_allproc s). p_pid (pr_proc s q) \<noteq> p_pid (pr_proc s p)"
    and a: "proc_activate p parent s = Some (Inr s')"
  shows "tables_ok s'"
proof -
  have h: "hash_ok s" "runq_ok s" "cur_ok s" "\<forall>c. locks_good c {} (pr_locks s)" using ok by (simp_all add: tables_ok_def)
  have g: "good {} s" using h(4) by simp
  obtain s1 s2 s3 s4 where s1: "acquire ptable_lock s = Some (Inr s1)" "acquire (p_lock p) s1 = Some (Inr s2)"
    "runq_enqueue p (publish p parent s2) = Some (Inr s3)" "release (p_lock p) s3 = Some (Inr s4)" "release ptable_lock s4 = Some (Inr s')"
    using a by (auto simp: proc_activate_def tbind_Inr)
  have l1: "lockeq {ptable_lock} s s1" using acquire_inv [OF g _ s1(1)] by simp
  have l2: "lockeq {p_lock p, ptable_lock} s1 s2" using acquire_inv [OF lockeqD(1) [OF l1] _ s1(2)] by simp
  note e2 = lockeq_ended [OF lockeq_trans [OF l1 l2]]
  let ?t = "publish p parent s2"
  have "pr_locks ?t = pr_locks s2" "sl_cpu ?t = sl_cpu s2" by (auto simp: publish_def Let_def split: option.split)
  then have gt: "good {p_lock p, ptable_lock} ?t" using lockeqD(1) [OF l2] by simp
  have l3: "lockeq {p_lock p, ptable_lock} (?t\<lparr>pr_runq := pr_runq ?t @ [p]\<rparr>) s3" using enqueue_inv [OF gt _ s1(3)] by simp
  have "lockeq ({p_lock p, ptable_lock} - {p_lock p}) s3 s4" using release_inv [OF lockeqD(1) [OF l3] _ s1(4)] by simp
  then have l4: "lockeq {ptable_lock} s3 s4" by (simp add: insert_Diff_if)
  have "lockeq {} s4 s'" using release_inv [OF lockeqD(1) [OF l4] _ s1(5)] by simp
  then have l: "lockeq {} (?t\<lparr>pr_runq := pr_runq ?t @ [p]\<rparr>) s'" using lockeq_trans [OF l3] lockeq_trans [OF l4] by blast
  have e: "ended {} s s'" using lockeq_ended [OF l] e2 by (auto simp: ended_def publish_def Let_def split: option.splits)
  let ?b = "pid_bucket (p_pid (pr_proc s p))"
  obtain f where f: "\<And>q. p_pid (f q) = p_pid q" "\<And>q. p_state (f q) = RUNNABLE" and
    t: "pr_proc s' = (pr_proc s)(p := f (pr_proc s p))" "pr_allproc s' = p # pr_allproc s"
    "pr_pidhash s' = (pr_pidhash s)(?b := p # pr_pidhash s ?b)" "pr_runq s' = pr_runq s @ [p]" "pr_cur s' = pr_cur s"
  proof (cases parent)
    case None
    show ?thesis by (rule that [of "\<lambda>q. q\<lparr>p_state := RUNNABLE\<rparr>"]) (use lockeq_ended [OF l] e2 None in \<open>auto simp: tab_def publish_def Let_def\<close>)
  next
    case (Some par)
    show ?thesis by (rule that [of "\<lambda>q. q\<lparr>p_parent := Some par, p_state := RUNNABLE\<rparr>"])
        (use lockeq_ended [OF l] e2 Some in \<open>auto simp: tab_def publish_def Let_def\<close>)
  qed
  have pid: "p_pid (pr_proc s' q) = p_pid (pr_proc s q)" for q using f(1) by (simp add: t)
  have "inj_on (\<lambda>q. p_pid (pr_proc s q)) (insert p (set (pr_allproc s)))" using h(1) new(2) unfolding hash_ok_def inj_on_insert by auto
  then have "hash_ok s'" using h(1) new(1) unfolding hash_ok_def pid t(2,3) by simp
  moreover have st: "p_state (pr_proc s' q) = (if q = p then RUNNABLE else p_state (pr_proc s q))" for q using f(2) by (simp add: t)
  have "live_in s' RUNNABLE = insert p (live_in s RUNNABLE)" "p \<notin> live_in s RUNNABLE" using new(1) unfolding live_in_def st t(2) by auto
  then have "runq_ok s'" using h(2) by (simp add: runq_ok_def t(4))
  moreover have "live_in s' RUNNING = live_in s RUNNING" using new(1) unfolding live_in_def st t(2) by auto
  then have "cur_ok s'" using h(3) by (simp add: cur_ok_def t(5))
  ultimately show ?thesis by (rule tables_ok_ended [OF e h(4)])
qed

lemma unlink_tables:
  assumes ok: "tables_ok s" and z: "p \<in> set (pr_allproc s)" "p_state (pr_proc s p) = ZOMBIE"
  shows "tables_ok (unlink_proc p s)"
proof -
  have h: "hash_ok s" "runq_ok s" "cur_ok s" "\<forall>c. locks_good c {} (pr_locks s)" using ok by (simp_all add: tables_ok_def)
  have d: "distinct (pr_allproc s)" using h(1) by (simp add: hash_ok_def)
  let ?s = "unlink_proc p s" and ?b = "pid_bucket (p_pid (pr_proc s p))"
  have t: "pr_proc ?s = pr_proc s" "pr_allproc ?s = remove1 p (pr_allproc s)" "pr_pidhash ?s = (pr_pidhash s)(?b := remove1 p (pr_pidhash s ?b))"
    "pr_runq ?s = pr_runq s" "pr_cur ?s = pr_cur s" "pr_locks ?s = pr_locks s" by (simp_all add: unlink_proc_def Let_def)
  have fr: "filter P (remove1 p xs) = (if P p then remove1 p (filter P xs) else filter P xs)" for P and xs :: "uintptr list"
    by (induction xs) auto
  have sets: "set (remove1 p (pr_allproc s)) = set (pr_allproc s) - {p}" using d by simp
  have "hash_ok ?s" using h(1) unfolding hash_ok_def t fr by (auto simp: inj_on_def sets)
  moreover have "runq_ok ?s" using h(2) z unfolding runq_ok_def live_in_def t sets by auto
  moreover have "live_in ?s RUNNING = live_in s RUNNING" using z unfolding live_in_def t sets by auto
  then have "cur_ok ?s" using h(3) by (simp add: cur_ok_def t(5))
  ultimately show ?thesis using h(4) t(6) by (simp add: tables_ok_def)
qed

section \<open>Exit\<close>

lemma kpage_free_more: "kpage_free p s = Inr s' \<Longrightarrow> kmem.more s' = kmem.more s"
  by (auto simp: kpage_free_def kassert_def Let_def push_free_def split: if_splits option.splits)

lemma kpage_free_vm_more: "kpage_free p (s :: 'a vm_scheme) = Inr s' \<Longrightarrow> vm.more s' = vm.more s"
  using kpage_free_more [of p s s'] by (cases s; cases s') simp

lemma seq_res_more:
  assumes "\<And>x s s'. f x s = Inr s' \<Longrightarrow> vm.more s' = vm.more (s :: 'a vm_scheme)" "seq_res f xs s = Inr s'"
  shows "vm.more s' = vm.more s"
  using assms(2) by (induction xs arbitrary: s) (auto split: sum.splits dest: assms(1))

lemma freewalk_more: "freewalk n t s = Inr s' \<Longrightarrow> vm.more s' = vm.more s"
proof (induction n arbitrary: t s s')
  case 0
  then show ?case unfolding freewalk.simps [of 0] rbind_Inr_iff
    by (auto simp: Let_def wr_def rbind_Inr_iff split: if_splits dest!: kpage_free_vm_more seq_res_more [rotated])
next
  case (Suc n)
  then show ?case unfolding freewalk.simps [of "Suc n"] rbind_Inr_iff
    by (auto simp: Let_def wr_def rbind_Inr_iff split: if_splits dest!: kpage_free_vm_more seq_res_more [rotated])
qed

text \<open>The memory operations leave all of process management as it was.\<close>

lemma more_tab:
  assumes "vm.more s' = vm.more (s :: 'a procs_scheme)"
  shows "tab s' = tab s" "pr_locks s' = pr_locks s" "sl_cpu s' = sl_cpu s" "pr_initproc s' = pr_initproc s" "pr_ttbr0 s' = pr_ttbr0 s"
  using assms by (cases s; cases s'; simp add: tab_def)+

lemma exit_release_inv:
  assumes "exit_release p s = Some (Inr s')"
  shows "pr_locks s' = pr_locks s" "sl_cpu s' = sl_cpu s" "pr_initproc s' = pr_initproc s" "pr_ttbr0 s' = pr_ttbr0 s"
    "\<exists>f. (\<forall>q. p_state (f q) = p_state q \<and> p_pid (f q) = p_pid q \<and> p_parent (f q) = p_parent q) \<and> tab s' = ((pr_proc s)(p := f (pr_proc s p)), pr_allproc s, pr_pidhash s, pr_runq s, pr_cur s)"
proof -
  have "pr_locks s' = pr_locks s \<and> sl_cpu s' = sl_cpu s \<and> pr_initproc s' = pr_initproc s \<and> pr_ttbr0 s' = pr_ttbr0 s \<and>
    (\<exists>f. (\<forall>q. p_state (f q) = p_state q \<and> p_pid (f q) = p_pid q \<and> p_parent (f q) = p_parent q) \<and> tab s' = ((pr_proc s)(p := f (pr_proc s p)), pr_allproc s, pr_pidhash s, pr_runq s, pr_cur s))"
  proof (cases "p_pagetable (pr_proc s p)")
    case None
    then show ?thesis using assms by (auto simp: exit_release_def tab_def intro!: exI [of _ "\<lambda>q. q"])
  next
    case (Some t)
    let ?f = "\<lambda>q. q\<lparr>p_pagetable := None, p_sz := 0\<rparr>"
    obtain s1 where s1: "uvmfree t s = Inr s1" "s' = upd_proc p ?f s1" using assms Some by (auto simp: exit_release_def tbind_Inr)
    note m = more_tab [OF freewalk_more [OF s1(1) [unfolded uvmfree_def]]]
    have "tab s' = ((pr_proc s)(p := ?f (pr_proc s p)), pr_allproc s, pr_pidhash s, pr_runq s, pr_cur s)" using m(1) by (simp add: s1(2) tab_def)
    then show ?thesis using m(2-5) s1(2) by (auto simp: upd_proc_def intro!: exI [of _ ?f])
  qed
  then show "pr_locks s' = pr_locks s" "sl_cpu s' = sl_cpu s" "pr_initproc s' = pr_initproc s" "pr_ttbr0 s' = pr_ttbr0 s"
    "\<exists>f. (\<forall>q. p_state (f q) = p_state q \<and> p_pid (f q) = p_pid q \<and> p_parent (f q) = p_parent q) \<and> tab s' = ((pr_proc s)(p := f (pr_proc s p)), pr_allproc s, pr_pidhash s, pr_runq s, pr_cur s)"
    by blast+
qed

lemma reparent_parts:
  "pr_allproc (reparent p s) = pr_allproc s" "pr_pidhash (reparent p s) = pr_pidhash s" "pr_runq (reparent p s) = pr_runq s"
  "pr_cur (reparent p s) = pr_cur s" "pr_locks (reparent p s) = pr_locks s" "sl_cpu (reparent p s) = sl_cpu s" "pr_initproc (reparent p s) = pr_initproc s"
  "pr_proc (reparent p s) q = (if q \<in> set (pr_allproc s) \<and> p_parent (pr_proc s q) = Some p then (pr_proc s q)\<lparr>p_parent := pr_initproc s\<rparr> else pr_proc s q)"
proof -
  let ?f = "\<lambda>c s. if p_parent (pr_proc s c) = Some p then upd_proc c (\<lambda>q. q\<lparr>p_parent := pr_initproc s\<rparr>) s else s"
  have "pr_allproc (fold ?f xs s) = pr_allproc s \<and> pr_pidhash (fold ?f xs s) = pr_pidhash s \<and> pr_runq (fold ?f xs s) = pr_runq s \<and>
    pr_cur (fold ?f xs s) = pr_cur s \<and> pr_locks (fold ?f xs s) = pr_locks s \<and> sl_cpu (fold ?f xs s) = sl_cpu s \<and> pr_initproc (fold ?f xs s) = pr_initproc s \<and>
    pr_proc (fold ?f xs s) q = (if q \<in> set xs \<and> p_parent (pr_proc s q) = Some p then (pr_proc s q)\<lparr>p_parent := pr_initproc s\<rparr> else pr_proc s q)" for xs
  proof (induction xs arbitrary: s)
    case (Cons x xs)
    let ?s = "?f x s"
    have "pr_allproc ?s = pr_allproc s" "pr_pidhash ?s = pr_pidhash s" "pr_runq ?s = pr_runq s" "pr_cur ?s = pr_cur s" "pr_locks ?s = pr_locks s"
      "sl_cpu ?s = sl_cpu s" "pr_initproc ?s = pr_initproc s"
      "pr_proc ?s q = (if q = x \<and> p_parent (pr_proc s q) = Some p then (pr_proc s q)\<lparr>p_parent := pr_initproc s\<rparr> else pr_proc s q)" by auto
    then show ?case using Cons.IH [of ?s] by (cases "pr_initproc s = Some p") auto
  qed simp
  then show "pr_allproc (reparent p s) = pr_allproc s" "pr_pidhash (reparent p s) = pr_pidhash s" "pr_runq (reparent p s) = pr_runq s"
    "pr_cur (reparent p s) = pr_cur s" "pr_locks (reparent p s) = pr_locks s" "sl_cpu (reparent p s) = sl_cpu s" "pr_initproc (reparent p s) = pr_initproc s"
    "pr_proc (reparent p s) q = (if q \<in> set (pr_allproc s) \<and> p_parent (pr_proc s q) = Some p then (pr_proc s q)\<lparr>p_parent := pr_initproc s\<rparr> else pr_proc s q)"
    unfolding reparent_def by blast+
qed

lemma wait_lock_free: "good {wait_lock} s \<Longrightarrow> lists_ok s \<Longrightarrow> wakeup chan s = Some (Inr s') \<Longrightarrow>
    lists_ok s' \<and> ended {wait_lock} s s' \<and> pr_allproc s' = pr_allproc s \<and> pr_cur s' = pr_cur s \<and> pr_initproc s' = pr_initproc s \<and>
    (\<forall>p. p_parent (pr_proc s' p) = p_parent (pr_proc s p))"
  using wakeup_lists [of s "{wait_lock}" chan s'] by simp

lemma exit_tables:
  assumes ok: "tables_ok s" and p: "myproc s = Some p" and x: "exit status s = Some (Inr (ena, s1))" and r: "scheduler_return p s1 = Some (Inr s')"
  shows "tables_ok s'" "p_state (pr_proc s' p) = ZOMBIE" "p_xstate (pr_proc s' p) = status"
    "q \<in> set (pr_allproc s') \<Longrightarrow> p_parent (pr_proc s' q) \<noteq> Some p" "pr_initproc s \<noteq> Some p"
proof -
  have o: "lists_ok s" "\<forall>c. locks_good c {} (pr_locks s)" using ok by (simp_all add: tables_lists)
  show ni: "pr_initproc s \<noteq> Some p" using x p by (auto simp: exit_def)
  obtain a b c d e f g h where st: "exit_release p s = Some (Inr a)" "acquire wait_lock a = Some (Inr b)" "acquire ptable_lock b = Some (Inr c)"
    "release ptable_lock (reparent p c) = Some (Inr d)" "wakeup (ptr (pr_initproc d)) d = Some (Inr e)"
    "(case p_parent (pr_proc e p) of None \<Rightarrow> tret e | Some q \<Rightarrow> if pr_initproc e = Some q then tret e else wakeup q e) = Some (Inr f)"
    "acquire (p_lock p) f = Some (Inr g)" "release wait_lock (upd_proc p (\<lambda>r. r\<lparr>p_xstate := status, p_state := ZOMBIE\<rparr>) g) = Some (Inr h)"
    "sched h = Some (Inr (ena, s1))"
    using x p ni by (auto simp: exit_def tbind_Inr)
  note er = exit_release_inv [OF st(1)]
  obtain fa where fa: "\<And>q. p_state (fa q) = p_state q \<and> p_pid (fa q) = p_pid q \<and> p_parent (fa q) = p_parent q"
    "tab a = ((pr_proc s)(p := fa (pr_proc s p)), pr_allproc s, pr_pidhash s, pr_runq s, pr_cur s)" using er(5) by blast
  have ga: "good {} a" "ended {} s a" using o(2) er(1,2) by (simp_all add: ended_def)
  have la: "lists_ok a" by (rule lists_ok_cong [OF o(1)]) (use fa in \<open>simp_all add: tab_def\<close>)
  have lb: "lockeq {wait_lock} a b" using acquire_inv [OF ga(1) _ st(2)] by simp
  have lc: "lockeq {ptable_lock, wait_lock} b c" using acquire_inv [OF lockeqD(1) [OF lb] _ st(3)] by simp
  note bc = lockeq_ended [OF lockeq_trans [OF lb lc]] and rp = reparent_parts [of p c]
  have tc: "pr_proc c = pr_proc a" "pr_allproc c = pr_allproc a" "pr_pidhash c = pr_pidhash a" "pr_runq c = pr_runq a" "pr_cur c = pr_cur a"
    "pr_initproc c = pr_initproc a" using bc lockeqD(9) [OF lockeq_trans [OF lb lc]] by (simp_all add: tab_def)
  have gc: "good {ptable_lock, wait_lock} (reparent p c)" using lockeqD(1) [OF lc] rp by simp
  have "lockeq ({ptable_lock, wait_lock} - {ptable_lock}) (reparent p c) d" using release_inv [OF gc _ st(4)] by simp
  then have ld: "lockeq {wait_lock} (reparent p c) d" by (simp add: insert_Diff_if)
  note td = lockeq_ended [OF ld]
  have ed: "ended {wait_lock} s d" using td bc ga(2) rp by (simp add: ended_def)
  have td': "pr_proc d = pr_proc (reparent p c)" "pr_allproc d = pr_allproc s" "pr_pidhash d = pr_pidhash s" "pr_runq d = pr_runq s" "pr_cur d = pr_cur s"
    "pr_initproc d = pr_initproc s" using td rp tc fa(2) lockeqD(9) [OF ld] er(3) by (simp_all add: tab_def)
  have lod: "lists_ok d" by (rule lists_ok_cong [OF o(1)]) (use td' rp(8) tc(1) fa in \<open>simp_all add: tab_def\<close>)
  have par: "p_parent (pr_proc d q) \<noteq> Some p" if "q \<in> set (pr_allproc s)" for q
    using that ni rp(8) [of q] tc fa er(3) by (auto simp: td' tab_def)
  have we: "lists_ok e" "ended {wait_lock} d e" "pr_allproc e = pr_allproc d" "pr_cur e = pr_cur d" "pr_initproc e = pr_initproc d"
    "\<And>q. p_parent (pr_proc e q) = p_parent (pr_proc d q)" using wait_lock_free [OF ended_good [OF ed] lod st(5)] by simp_all
  have "lists_ok f \<and> ended {wait_lock} e f \<and> pr_allproc f = pr_allproc e \<and> pr_cur f = pr_cur e \<and> (\<forall>q. p_parent (pr_proc f q) = p_parent (pr_proc e q))"
  proof -
    have ge: "good {wait_lock} e" by (rule ended_good [OF we(2)])
    have "f = e \<or> (\<exists>q. wakeup q e = Some (Inr f))" using st(6) by (auto split: option.splits if_splits)
    then show ?thesis using wait_lock_free [OF ge we(1)] we(1) ge by (auto simp: ended_def)
  qed
  then have wf: "lists_ok f" "ended {wait_lock} e f" "pr_allproc f = pr_allproc e" "pr_cur f = pr_cur e" "\<And>q. p_parent (pr_proc f q) = p_parent (pr_proc e q)"
    by simp_all
  have ef: "ended {wait_lock} s f" by (rule ended_trans [OF ended_trans [OF ed we(2)] wf(2)])
  let ?z = "\<lambda>r. r\<lparr>p_xstate := status, p_state := ZOMBIE\<rparr>"
  have lg: "lockeq {p_lock p, wait_lock} f g" using acquire_inv [OF ended_good [OF wf(2)] _ st(7)] by simp
  have "good {p_lock p, wait_lock} (upd_proc p ?z g)" using lockeqD(1) [OF lg] by simp
  then have "lockeq ({p_lock p, wait_lock} - {wait_lock}) (upd_proc p ?z g) h" using release_inv [OF _ _ st(8)] by blast
  moreover have "{p_lock p, wait_lock} - {wait_lock} = {p_lock p}" by auto
  ultimately have lh: "lockeq {p_lock p} (upd_proc p ?z g) h" by simp
  have s1: "s1 = h" by (rule sched_inv(1) [OF st(9)])
  note eg = lockeq_ended [OF lg] and eh = lockeq_ended [OF lh]
  have e1: "ended {p_lock p} f s1" using eg eh by (simp add: s1 ended_def)
  have t1: "tab s1 = ((pr_proc f)(p := ?z (pr_proc f p)), pr_allproc f, pr_pidhash f, pr_runq f, pr_cur f)" using eg eh by (simp add: s1 tab_def)
  have cf: "pr_cur f = pr_cur s" "sl_cpu f = sl_cpu s" "pr_allproc f = pr_allproc s" using wf(3,4) we(3,4) td' ef by (simp_all add: ended_def)
  have pf: "myproc f = Some p" using p cf by (simp add: myproc_def)
  have c1: "sl_cpu s1 = sl_cpu f" using e1 by (simp add: ended_def)
  note gl = give_up_lists [where f = ?z and st = ZOMBIE, OF wf(1) pf _ ended_good [OF e1] c1 t1 _ _ r, simplified]
  show "tables_ok s'" using gl(1) ended_locks [OF ended_trans [OF ended_trans [OF ef e1] gl(2)] o(2)] by (simp add: tables_lists)
  have "tab s' = (pr_proc s1, pr_allproc s1, pr_pidhash s1, pr_runq s1 @ (if p_state (pr_proc s1 p) = RUNNABLE then [p] else []), (pr_cur s1)(sl_cpu s1 := None))"
    by (rule scheduler_return_inv(2) [OF ended_good [OF e1] r])
  then have ts: "pr_proc s' = (pr_proc f)(p := ?z (pr_proc f p))" "pr_allproc s' = pr_allproc s" using t1 cf(3) by (simp_all add: tab_def)
  show "p_state (pr_proc s' p) = ZOMBIE" "p_xstate (pr_proc s' p) = status" by (simp_all add: ts)
  show "p_parent (pr_proc s' q) \<noteq> Some p" if "q \<in> set (pr_allproc s')" using par [of q] that by (cases "q = p") (auto simp: ts wf(5) we(6))
qed

section \<open>The life of the system\<close>

text \<open>What the CPUs do to the process tables, one operation at a time.\<close>

inductive proc_step :: "'a procs_scheme \<Rightarrow> 'a procs_scheme \<Rightarrow> bool" where
  other_cpu: "proc_step s (s\<lparr>sl_cpu := c\<rparr>)"
| idles: "scheduler_turn s = Some (Inr (Idle, s')) \<Longrightarrow> proc_step s s'"
| runs: "myproc s = None \<Longrightarrow> scheduler_turn s = Some (Inr (Dispatch p, s1)) \<Longrightarrow> resumes s1 s' \<Longrightarrow> proc_step s s'"
| yields: "myproc s = Some p \<Longrightarrow> yield s = Some (Inr (ena, s1)) \<Longrightarrow> scheduler_return p s1 = Some (Inr s') \<Longrightarrow> proc_step s s'"
| sleeps: "myproc s = Some p \<Longrightarrow> acquire lk s = Some (Inr s0) \<Longrightarrow> (\<And>q. lk \<noteq> p_lock q) \<Longrightarrow> sleep chan lk s0 = Some (Inr (ena, s1)) \<Longrightarrow>
     scheduler_return p s1 = Some (Inr s') \<Longrightarrow> proc_step s s'"
| exits: "myproc s = Some p \<Longrightarrow> exit status s = Some (Inr (ena, s1)) \<Longrightarrow> scheduler_return p s1 = Some (Inr s') \<Longrightarrow> proc_step s s'"
| wakes: "wakeup chan s = Some (Inr s') \<Longrightarrow> proc_step s s'"
| kills: "kill pid s = Some (Inr (r, s')) \<Longrightarrow> proc_step s s'"
| publishes: "p \<notin> set (pr_allproc s) \<Longrightarrow> \<forall>q \<in> set (pr_allproc s). p_pid (pr_proc s q) \<noteq> p_pid (pr_proc s p) \<Longrightarrow>
     proc_activate p parent s = Some (Inr s') \<Longrightarrow> proc_step s s'"
| reaps: "p \<in> set (pr_allproc s) \<Longrightarrow> p_state (pr_proc s p) = ZOMBIE \<Longrightarrow> proc_step s (unlink_proc p s)"

lemma step_tables:
  assumes "proc_step s s'" "tables_ok s"
  shows "tables_ok s'"
  using assms
proof (induction rule: proc_step.induct)
  case (other_cpu s c)
  then show ?case by (simp add: tables_ok_def hash_ok_def runq_ok_def cur_ok_def live_in_def)
next
  case (idles s s')
  have o: "lists_ok s" "\<forall>c. locks_good c {} (pr_locks s)" using idles.prems by (simp_all add: tables_lists)
  have "good {} s" using o(2) by simp
  then have "ended {} s s'" "tab s' = tab s" using scheduler_turn_inv(2) [OF _ idles.hyps] by simp_all
  then show ?case using lists_ok_cong [OF o(1), of s'] ended_locks [OF _ o(2), of s'] by (simp add: tables_lists tab_def)
next
  case (sleeps s p lk s0 chan ena s1 s')
  then show ?case using sleep_ok by blast
qed (blast intro: dispatch_ok yield_ok exit_tables(1) wakeup_tables kill_tables(1) activate_tables unlink_tables)+

text \<open>C6: the process tables agree in every state the scheduler, \<open>yield\<close>, \<open>sleep\<close>, \<open>wakeup\<close>, \<open>kill\<close>, \<open>exit\<close>,
  the publishing of a new process and the reaping of a zombie can reach: each runnable process is in
  the run queue, and just once; a running process runs on exactly one CPU; a pid names at most one
  process, and \<open>pid_lookup\<close> finds it in the hash exactly when it is on the list of all processes.\<close>

theorem proc_tables_agree:
  assumes "tables_ok s" "proc_step\<^sup>*\<^sup>* s s'"
  shows "tables_ok s' \<and> distinct (pr_runq s') \<and>
    (p \<in> set (pr_runq s') \<longleftrightarrow> p \<in> set (pr_allproc s') \<and> p_state (pr_proc s' p) = RUNNABLE) \<and>
    (pr_cur s' c = Some p \<longrightarrow> p \<in> set (pr_allproc s') \<and> p_state (pr_proc s' p) = RUNNING \<and> (\<forall>d. pr_cur s' d = Some p \<longrightarrow> d = c)) \<and>
    (pid_lookup pid s' = Some p \<longleftrightarrow> p \<in> set (pr_allproc s') \<and> p_pid (pr_proc s' p) = pid)"
proof -
  have ok: "tables_ok s'" using assms(2,1) by (induction rule: rtranclp_induct) (auto intro: step_tables)
  then have h: "hash_ok s'" "runq_ok s'" "cur_ok s'" by (simp_all add: tables_ok_def)
  have "pr_cur s' c = Some p \<longrightarrow> p \<in> live_in s' RUNNING" using h(3) unfolding cur_ok_def by blast
  moreover have "pr_cur s' c = Some p \<longrightarrow> (\<forall>d. pr_cur s' d = Some p \<longrightarrow> d = c)" using h(3) unfolding cur_ok_def by blast
  ultimately show ?thesis using ok h(2) pid_lookup_iff [OF h(1), of pid p] by (auto simp: runq_ok_def live_in_def)
qed

lemma sched_ok:
  assumes "good {p_lock p} s" "myproc s = Some p" "p_state (pr_proc s p) \<noteq> RUNNING"
  shows "\<exists>ena. sched s = Some (Inr (ena, s))"
  using assms by (auto simp: sched_def Let_def locks_good_def holding_spinlock_def tret_def)

lemma scheduler_return_ok:
  assumes "good {p_lock p} s"
  shows "\<exists>s'. scheduler_return p s = Some (Inr s')"
proof -
  let ?s0 = "s\<lparr>pr_cur := (pr_cur s)(sl_cpu s := None)\<rparr>"
  obtain s1 where s1: "switchuvm_reserved ?s0 = Inr s1" by (auto simp: switchuvm_reserved_def switchuvm_def rbind_def)
  have g1: "good {p_lock p} s1" using assms switchuvm_reserved_tab(2,3) [OF s1] by simp
  obtain s2 where s2: "(if p_state (pr_proc s1 p) = RUNNABLE then runq_enqueue p s1 else tret s1) = Some (Inr s2)" "good {p_lock p} s2"
    using runq_enqueue_ok [OF g1, of p] lockeqD(1) g1 by (cases "p_state (pr_proc s1 p) = RUNNABLE") (fastforce simp: tret_def)+
  obtain s3 where "release (p_lock p) s2 = Some (Inr s3)" using release_lockeq [OF s2(2)] by blast
  then show ?thesis using s1 s2(1) by (simp add: scheduler_return_def)
qed


lemma reparent_locks [simp]: "pr_locks (reparent p s) = pr_locks s" "sl_cpu (reparent p s) = sl_cpu s" "pr_cur (reparent p s) = pr_cur s"
proof -
  have "pr_locks (f s) = pr_locks s \<and> sl_cpu (f s) = sl_cpu s \<and> pr_cur (f s) = pr_cur s"
    if "f = fold (\<lambda>c s. if p_parent (pr_proc s c) = Some p then upd_proc c (\<lambda>q. q\<lparr>p_parent := pr_initproc s\<rparr>) s else s) ps" for f ps
    unfolding that by (induction ps arbitrary: s) (auto simp: upd_proc_def)
  then show "pr_locks (reparent p s) = pr_locks s" "sl_cpu (reparent p s) = sl_cpu s" "pr_cur (reparent p s) = pr_cur s"
    unfolding reparent_def by blast+
qed

lemma wake_fold_myproc [simp]: "myproc (fold (wake ch q) ps z) = myproc z"
  by (induction ps arbitrary: z) (simp_all add: wake_def myproc_def upd_proc_def)

lemma exit_ok:
  assumes ok: "tables_ok s" and p: "myproc s = Some p" "pr_initproc s \<noteq> Some p" and a: "exit_release p s = Some (Inr a)"
  shows "\<exists>ena s1 s'. exit status s = Some (Inr (ena, s1)) \<and> scheduler_return p s1 = Some (Inr s')"
proof -
  have g: "good {} a" and m: "myproc a = Some p"
    using ok exit_release_inv(1,2,5) [OF a] p(1) by (auto simp: tables_lists tab_def myproc_def)
  obtain b where b: "acquire wait_lock a = Some (Inr b)" "lockeq {wait_lock} a b" using acquire_lockeq [OF g] by blast
  obtain c where c: "acquire ptable_lock b = Some (Inr c)" "lockeq {ptable_lock, wait_lock} b c" using acquire_lockeq [OF lockeqD(1) [OF b(2)], of ptable_lock] by auto
  have "good {ptable_lock, wait_lock} (reparent p c)" using lockeqD(1) [OF c(2)] by simp
  then obtain d where d: "release ptable_lock (reparent p c) = Some (Inr d)" "lockeq ({ptable_lock, wait_lock} - {ptable_lock}) (reparent p c) d"
    using release_lockeq by blast
  have W: "{ptable_lock, wait_lock} - {ptable_lock} = {wait_lock}" by auto
  have mc: "myproc (reparent p c) = Some p" using m lockeqD(11) [OF b(2)] lockeqD(11) [OF c(2)] by (simp add: myproc_def)
  have gd: "good {wait_lock} d" and md: "myproc d = Some p" using lockeqD(1,11) [OF d(2)] mc unfolding W by simp_all
  have wk: "\<exists>y. wakeup ch x = Some (Inr y) \<and> good {wait_lock} y \<and> myproc y = Some p" if gx: "good {wait_lock} x" and mx: "myproc x = Some p" for ch x
  proof -
    obtain y where y: "wakeup ch x = Some (Inr y)" "lockeq {wait_lock} (fold (wake ch (myproc x)) (pr_allproc x) x) y"
      using wakeup_ok [OF gx, of ch] by auto
    then show ?thesis using mx lockeqD(1,11) [OF y(2)] by simp
  qed
  obtain e where e: "wakeup (ptr (pr_initproc d)) d = Some (Inr e)" "good {wait_lock} e" "myproc e = Some p" using wk [OF gd md] by blast
  have "\<exists>f. (case p_parent (pr_proc e p) of None \<Rightarrow> tret e | Some q \<Rightarrow> if pr_initproc e = Some q then tret e else wakeup q e) = Some (Inr f) \<and>
    good {wait_lock} f \<and> myproc f = Some p"
  proof (cases "p_parent (pr_proc e p)")
    case (Some q)
    then show ?thesis using wk [OF e(2,3), of q] e(2,3) by (cases "pr_initproc e = Some q") (auto simp: tret_def)
  qed (use e(2,3) in \<open>simp add: tret_def\<close>)
  then obtain f where f: "(case p_parent (pr_proc e p) of None \<Rightarrow> tret e | Some q \<Rightarrow> if pr_initproc e = Some q then tret e else wakeup q e) = Some (Inr f)"
    "good {wait_lock} f" "myproc f = Some p" by blast
  obtain h where h: "acquire (p_lock p) f = Some (Inr h)" "lockeq {p_lock p, wait_lock} f h" using acquire_lockeq [OF f(2), of "p_lock p"] by auto
  let ?h = "upd_proc p (\<lambda>r. r\<lparr>p_xstate := status, p_state := ZOMBIE\<rparr>) h"
  have "good {p_lock p, wait_lock} ?h" using lockeqD(1) [OF h(2)] by simp
  then obtain k where k: "release wait_lock ?h = Some (Inr k)" "lockeq ({p_lock p, wait_lock} - {wait_lock}) ?h k"
    using release_lockeq [of ?h "{p_lock p, wait_lock}" wait_lock] by auto
  have P: "{p_lock p, wait_lock} - {wait_lock} = {p_lock p}" by auto
  have gk: "good {p_lock p} k" and "myproc k = Some p" "p_state (pr_proc k p) = ZOMBIE"
    using lockeqD(1,3,11) [OF k(2)] lockeqD(11) [OF h(2)] f(3) unfolding P by (simp_all add: myproc_def)
  then obtain ena where n: "sched k = Some (Inr (ena, k))" using sched_ok [OF gk] by auto
  have "exit status s = Some (Inr (ena, k))"
    using p a b(1) c(1) d(1) e(1) f(1) h(1) k(1) n by (simp add: exit_def)
  then show ?thesis using scheduler_return_ok [OF gk] by blast
qed



lemma demo_procs_ok: "tables_ok demo_procs"
proof -
  have "hash_ok demo_procs" by (auto simp: hash_ok_def pid_bucket_mod PIDHASH_BUCKETS_def inj_on_def idle_proc_def)
  moreover have "runq_ok demo_procs" by (auto simp: runq_ok_def live_in_def)
  moreover have "live_in demo_procs RUNNING = {0x100}" by (auto simp: live_in_def)
  then have "cur_ok demo_procs" by (auto simp: cur_ok_def)
  ultimately show ?thesis using no_locks_good by (simp add: tables_ok_def)
qed

theorem proc_tables_agree_witness:
  "pid_lookup 2 (demo_procs\<lparr>sl_cpu := 1\<rparr>) = Some 0x200 \<and> tables_ok (demo_procs\<lparr>sl_cpu := 1\<rparr>)"
proof -
  have "proc_step\<^sup>*\<^sup>* demo_procs (demo_procs\<lparr>sl_cpu := 1\<rparr>)" by (rule r_into_rtranclp) (rule proc_step.other_cpu)
  from proc_tables_agree [OF demo_procs_ok this, of "0x200" 0 2] show ?thesis by simp
qed


lemma tables_init: "tables_ok s \<Longrightarrow> tables_ok (s\<lparr>pr_initproc := i\<rparr>)"
  unfolding tables_ok_def hash_ok_def runq_ok_def live_in_def cur_ok_def by simp



end
