(* ===== verification/Frame.thy ===== *)
theory Frame
  imports Elf ProcSpec
begin

text \<open>
  What the memory operations leave alone. A component whose state lies outside the page allocator and the
  page store states, once, that reclaiming memory does not touch a part \<open>view\<close> of it; then no operation on
  pages, page tables and images does. The interpretation is the process table above the slab allocator.
\<close>

locale memory_frame =
  fixes view :: "'a vm_scheme \<Rightarrow> 'v" and rc :: "'a reclaim"
  assumes view_pages: "view (s\<lparr>km_pages := ps\<rparr>) = view s"
    and view_freelist: "view (s\<lparr>km_freelist := f\<rparr>) = view s"
    and view_store: "view (s\<lparr>vm_page := m\<rparr>) = view s"
    and view_reclaim: "rc s = Inr (n, s') \<Longrightarrow> view s' = view s"
begin

lemmas view_simps = view_pages view_freelist view_store

lemma pop_view: "freelist_pop s = (i, s') \<Longrightarrow> view s' = view s"
  by (auto simp: freelist_pop_def view_simps split: option.splits)

lemma alloc_view: "kpage_alloc rc s = Inr (p, s') \<Longrightarrow> view s' = view s"
  by (auto simp: kpage_alloc_def rbind_Inr_iff split: prod.splits option.splits if_splits dest!: pop_view view_reclaim)

lemma free_view: "kpage_free p s = Inr s' \<Longrightarrow> view s' = view s"
  by (auto simp: kpage_free_def kassert_def Let_def push_free_def view_simps split: if_splits option.splits)

lemma store_view [simp]: "view (wr p e s) = view s" "view (zero_page q s) = view s" "view (put_bytes q off bs s) = view s"
  by (simp_all add: wr_def zero_page_def put_bytes_def view_simps)

lemma ptalloc_view: "ptalloc rc s = Inr (p, s') \<Longrightarrow> view s' = view s"
  by (auto simp: ptalloc_def rbind_Inr_iff split: option.splits dest!: alloc_view)

lemma walk_loop_view: "walk_loop rc n t va al s = Inr (p, s') \<Longrightarrow> view s' = view s"
proof (induction n arbitrary: t s)
  case (Suc n)
  then show ?case by (fastforce simp: Let_def rbind_Inr_iff split: if_splits option.splits dest: ptalloc_view)
qed simp

lemma mappages_loop_view: "mappages_loop rc t a lst pa perm s = Inr (ok, s') \<Longrightarrow> view s' = view s"
proof (induction "2 ^ 48 - unat a" arbitrary: a pa s rule: less_induct)
  case less
  obtain r where w: "walk rc t a True s = Inr r" using less.prems by (subst (asm) mappages_loop.simps) (auto simp: rbind_Inr_iff)
  have v: "view (snd r) = view s" using w walk_loop_view by (cases r) (auto simp: walk_def)
  show ?case
  proof (cases "fst r")
    case None
    then show ?thesis using less.prems w v by (subst (asm) mappages_loop.simps) auto
  next
    case (Some pte)
    let ?s2 = "wr pte (pa OR perm) (snd r)"
    have "(if a = lst then Inr (True, ?s2) else mappages_loop rc t (a + PGSIZE) lst (pa + PGSIZE) perm ?s2) = Inr (ok, s')"
      using less.prems w Some by (subst (asm) mappages_loop.simps) (auto simp: Let_def)
    then show ?thesis using less.hyps [OF page_step_measure [OF walk_Inr [OF w]]] v by (auto split: if_splits)
  qed
qed

lemma mappages_view: "mappages rc t va pa sz perm s = Inr (ok, s') \<Longrightarrow> view s' = view s"
  by (auto simp: mappages_def dest: mappages_loop_view)

lemma load_page_view: "load_page rc t va img src n s = Inr (ok, s') \<Longrightarrow> view s' = view s"
  by (fastforce simp: load_page_def rbind_Inr_iff split: option.splits if_splits dest: alloc_view mappages_view free_view)

lemma load_pages_view: "load_pages rc t img va va_end src n s = Inr (ok, s') \<Longrightarrow> view s' = view s"
proof (induction "2 ^ 48 - unat va" arbitrary: va src n s rule: less_induct)
  case less
  show ?case
  proof (cases "va < va_end")
    case True
    let ?n = "if n < PGSIZE then n else PGSIZE"
    obtain r where l: "load_page rc t va img src ?n s = Inr r"
      "(if fst r then load_pages rc t img (va + PGSIZE) va_end (src + ?n) (n - ?n) (snd r) else Inr (False, snd r)) = Inr (ok, s')"
      using less.prems True unfolding load_pages.simps [of rc t img va va_end src n s]
      by (cases "load_page rc t va img src ?n s") (simp_all add: Let_def)
    have v: "view (snd r) = view s" using l(1) load_page_view by (cases r) auto
    show ?thesis
    proof (cases "fst r")
      case True
      then have "PGROUNDDW va < MAXUVA" using load_page_True l(1) by (cases r) auto
      then have "unat va div 4096 * 4096 < 2 ^ 48" by (simp add: word_less_nat_alt unat_PGROUNDDW MAXUVA_def)
      then have "va < MAXUVA" by (simp add: word_less_nat_alt MAXUVA_def)
      then show ?thesis using less.hyps [OF page_step_measure] l(2) True v by simp
    qed (use l(2) v in simp)
  qed (use less.prems in \<open>simp add: load_pages.simps\<close>)
qed

lemma load_phdr_view: "load_phdr rc t img eh i me s = Inr (r, s') \<Longrightarrow> view s' = view s"
  by (auto simp: load_phdr_def load_segment_def Let_def rbind_Inr_iff split: if_splits dest: load_pages_view)

lemma load_phdrs_view: "load_phdrs rc t img eh xs me s = Inr (r, s') \<Longrightarrow> view s' = view s"
proof (induction xs arbitrary: me s)
  case (Cons i xs)
  then show ?case by (fastforce simp: rbind_Inr_iff split: option.splits dest: load_phdr_view)
qed simp

lemma loadelf_view: "loadelf rc t img s = Inr (r, s') \<Longrightarrow> view s' = view s"
  by (auto simp: loadelf_def Let_def rbind_Inr_iff split: option.splits if_splits dest: load_phdrs_view)

lemma seq_res_view:
  assumes "\<And>x s s'. f x s = Inr s' \<Longrightarrow> view s' = view s" "seq_res f xs s = Inr s'"
  shows "view s' = view s"
  using assms(2) by (induction xs arbitrary: s) (auto split: sum.splits dest: assms(1))

lemma freewalk_view: "freewalk n t s = Inr s' \<Longrightarrow> view s' = view s"
proof (induction n arbitrary: t s s')
  case 0
  then show ?case unfolding freewalk.simps [of 0] rbind_Inr_iff
    by (auto simp: Let_def rbind_Inr_iff split: if_splits dest!: free_view seq_res_view [rotated])
next
  case (Suc n)
  then show ?case unfolding freewalk.simps [of "Suc n"] rbind_Inr_iff
    by (auto simp: Let_def rbind_Inr_iff split: if_splits dest!: free_view seq_res_view [rotated])
qed

lemma uvmfree_view: "uvmfree t s = Inr s' \<Longrightarrow> view s' = view s"
  by (simp add: uvmfree_def freewalk_view)

end

section \<open>Reclaiming leaves everything above the slab allocator alone\<close>

definition above :: "'a slabs_scheme \<Rightarrow> nat \<times> 'a" where
  "above s = (sl_cpu s, slabs.more s)"

lemma above_upd [simp]:
  "above (upd_cache c f s) = above s" "above (upd_slab p g s) = above s" "above (set_mag m os s) = above s"
  "above (s\<lparr>sl_held := h\<rparr>) = above s" "above (sl_release l s) = above s"
  by (simp_all add: above_def upd_cache_def upd_slab_def set_mag_def sl_release_def)

lemma seq_res_above:
  assumes "\<And>x s s'. f x s = Inr s' \<Longrightarrow> V s' = V s" "seq_res f xs s = Inr s'"
  shows "V s' = V s"
  using assms(2) by (induction xs arbitrary: s) (auto split: sum.splits dest: assms(1))

lemma kpage_free_above: "kpage_free p s = Inr s' \<Longrightarrow> above s' = above s"
  by (auto simp: kpage_free_def kassert_def Let_def push_free_def above_def split: if_splits option.splits)

lemma slab_free_above: "slab_free_locked ca obj s = Inr s' \<Longrightarrow> above s' = above s"
  by (auto simp: slab_free_locked_def Let_def kassert_def split: if_splits)

lemma cache_free_above: "cache_free_plain ca obj s = Inr s' \<Longrightarrow> above s' = above s"
  by (auto simp: cache_free_plain_def rbind_Inr_iff sl_acquire_def dest!: slab_free_above)

lemma drain_above: "drain_magazine ca m s = Inr s' \<Longrightarrow> above s' = above s"
  by (auto simp: drain_magazine_def rbind_Inr_iff split: if_splits dest!: cache_free_above seq_res_above [of _ above, OF slab_free_above, rotated])

lemma reclaim_cache_above: "reclaim_cache ca (n, s) = Inr (n', s') \<Longrightarrow> above s' = above s"
proof -
  have f: "take_full_mags ca m a = Inr b \<Longrightarrow> above b = above a" "take_empty_mags ca m a = Inr b \<Longrightarrow> above b = above a"
    "drop_slab ca m a = Inr b \<Longrightarrow> above b = above a" for m and a b :: "'a slabs_scheme"
    by (auto simp: take_full_mags_def take_empty_mags_def drop_slab_def dest!: drain_above kpage_free_above)
  have q: "seq_res (take_full_mags ca) xs a = Inr b \<Longrightarrow> above b = above a" "seq_res (take_empty_mags ca) xs a = Inr b \<Longrightarrow> above b = above a"
    "seq_res (drop_slab ca) xs a = Inr b \<Longrightarrow> above b = above a" for xs and a b :: "'a slabs_scheme"
    by (erule seq_res_above [rotated], erule f)+
  show "reclaim_cache ca (n, s) = Inr (n', s') \<Longrightarrow> above s' = above s"
    by (auto simp: reclaim_cache_def rbind_Inr_iff sl_try_acquire_def Let_def split: if_splits dest!: q)
qed

lemma kmem_reclaim_above: "kmem_reclaim s = Inr (n, s') \<Longrightarrow> above s' = above s"
proof -
  have "above (snd b) = above (snd a)" if "reclaim_cache x a = Inr b" for x and a b :: "int \<times> 'a slabs_scheme"
    using that reclaim_cache_above by (cases a; cases b) auto
  then have "seq_res reclaim_cache xs a = Inr b \<Longrightarrow> above (snd b) = above (snd a)" for xs and a b :: "int \<times> 'a slabs_scheme"
    using seq_res_above [of reclaim_cache "\<lambda>x. above (snd x)"] by blast
  then show "kmem_reclaim s = Inr (n, s') \<Longrightarrow> above s' = above s"
    by (fastforce simp: kmem_reclaim_def rbind_Inr_iff sl_try_acquire_def split: if_splits)
qed

text \<open>The part of the state the process table and the CPUs are.\<close>

definition proc_view :: "'a procs_scheme \<Rightarrow> (uintptr \<Rightarrow> proc) \<times> (nat \<Rightarrow> uint64) \<times> (nat \<Rightarrow> uintptr option) \<times> nat \<times> asid_st" where
  "proc_view s = (pr_proc s, pr_ttbr0 s, pr_cur s, sl_cpu s, pr_asid s)"

lemma above_proc_view: "above s' = above (s :: 'a procs_scheme) \<Longrightarrow> proc_view s' = proc_view s"
  by (cases s; cases s') (simp add: above_def proc_view_def)

interpretation pf: memory_frame proc_view kmem_reclaim
proof unfold_locales
  fix s s' :: "'a procs_scheme" and n
  show "proc_view (s\<lparr>km_pages := ps\<rparr>) = proc_view s" "proc_view (s\<lparr>km_freelist := f\<rparr>) = proc_view s"
    "proc_view (s\<lparr>vm_page := m\<rparr>) = proc_view s" for ps f m by (simp_all add: proc_view_def)
  show "kmem_reclaim s = Inr (n, s') \<Longrightarrow> proc_view s' = proc_view s" by (rule above_proc_view) (rule kmem_reclaim_above)
qed

end
