(* ===== verification/Exec.thy ===== *)
theory Exec
  imports Frame
begin

text \<open>
  \<open>exec\<close> (\<^verbatim>\<open>kern/exec.c\<close>) and the first process (\<open>userinit\<close> of \<^verbatim>\<open>kern/proc.c\<close>). The images are linked into the
  kernel by \<^verbatim>\<open>user/blobs.s\<close> and a parameter. Paths are strings without their terminator. The state has no
  TLB, so \<open>asid_flush\<close>, which \<open>exec\<close> calls between \<open>switchuvm\<close> and \<open>uvmfree\<close>, leaves it alone.
\<close>

record blobs =
  init_elf :: "uint8 list"
  argvtest_elf :: "uint8 list"
  faulttest_elf :: "uint8 list"

definition MAXARG :: nat where [kdefs]: "MAXARG = 32"

definition embedded_progs :: "blobs \<Rightarrow> (string \<times> uint8 list) list" where
  "embedded_progs b = [(''/init'', init_elf b), (''/argv_test'', argvtest_elf b), (''/fault_test'', faulttest_elf b)]"

definition word_bytes :: "uint64 \<Rightarrow> uint8 list" where
  "word_bytes w = map (\<lambda>j. ucast (drop_bit (8 * j) w)) [0..<8]"

section \<open>The argument vector\<close>

text \<open>
  The loop over \<open>argv\<close>, with \<open>n = MAXARG - argc\<close> turns left: \<open>None\<close> is \<open>goto bad\<close>, else \<open>argc\<close> and the number
  of bytes packed into \<open>argbuf\<close>.
\<close>

fun exec_args :: "'a procs_scheme uaccess \<Rightarrow> uintptr \<Rightarrow> uintptr \<Rightarrow> nat \<Rightarrow> nat \<Rightarrow> uint64 \<Rightarrow> 'a procs_scheme
     \<Rightarrow> ((nat \<times> uint64) option \<times> 'a procs_scheme) res" where
  "exec_args ua argbuf uargv 0 argc pos s = Inr (None, s)"
| "exec_args ua argbuf uargv (Suc n) argc pos s =
     rbind (copyin ua (uargv + of_nat argc * 8) 8 s) (\<lambda>((r, bs), s1).
       if r < 0 then Inr (None, s1)
       else
         (let uarg = le_word bs in
          if uarg = 0 then Inr (Some (argc, pos), s1)
          else rbind (copyinstr ua uarg (PGSIZE - pos) s1) (\<lambda>((slen, str), s2).
            let s3 = put_bytes argbuf (unat pos) str s2 in
            if slen < 0 then Inr (None, s3)
            else exec_args ua argbuf uargv n (Suc argc) (pos + (of_int slen + 1)) s3)))"

text \<open>\<^verbatim>\<open>strlen(argbuf + off)\<close> in the page \<open>w\<close>.\<close>

definition strlen_at :: "(nat \<Rightarrow> uint64) \<Rightarrow> uint64 \<Rightarrow> nat res" where
  "strlen_at w off =
     (let k = length (takeWhile (\<lambda>i. get_byte w i \<noteq> 0) [unat off..<4096]) in if unat off + k < 4096 then Inr k else Inl Fault)"

fun exec_argv :: "(nat \<Rightarrow> uint64) \<Rightarrow> uint64 \<Rightarrow> uint64 \<Rightarrow> nat \<Rightarrow> uint64 list res" where
  "exec_argv w strbase off 0 = Inr []"
| "exec_argv w strbase off (Suc n) =
     rbind (strlen_at w off) (\<lambda>k. rbind (exec_argv w strbase (off + (of_nat k + 1)) n) (\<lambda>ps. Inr ((strbase + off) # ps)))"

definition exec_strbase :: "uint64 \<Rightarrow> uint64 \<Rightarrow> uint64" where
  "exec_strbase new_sz pos = (new_sz + PGSIZE - pos) AND NOT 0xF"

definition exec_sp :: "uint64 \<Rightarrow> uint64 \<Rightarrow> nat \<Rightarrow> uint64" where
  "exec_sp new_sz pos argc = (exec_strbase new_sz pos - (of_nat argc + 5) * 8) AND NOT 0xF"

text \<open>The layout of the new stack page: \<open>None\<close> is \<open>goto bad\<close>, else the stack pointer.\<close>

definition exec_stack :: "uintptr \<Rightarrow> uintptr \<Rightarrow> uint64 \<Rightarrow> nat \<Rightarrow> uint64 \<Rightarrow> 'a vm_scheme \<Rightarrow> (uint64 option \<times> 'a vm_scheme) res" where
  "exec_stack stack argbuf new_sz argc pos s =
     (let strbase = exec_strbase new_sz pos;
          s1 = (if pos \<noteq> 0 then put_bytes stack (unat (strbase - new_sz)) (map (get_byte (vm_page s argbuf)) [0..<unat pos]) s else s);
          sp = exec_sp new_sz pos argc in
      if sp < new_sz then Inr (None, s1)
      else rbind (exec_argv (vm_page s1 argbuf) strbase 0 argc) (\<lambda>ps.
        Inr (Some sp, put_bytes stack (unat (sp - new_sz)) (concat (map word_bytes (of_nat argc # ps @ [0, 0, 0, 0]))) s1)))"

section \<open>exec\<close>

definition exec_bad :: "uintptr option \<Rightarrow> uintptr \<Rightarrow> 'a vm_scheme \<Rightarrow> (int \<times> 'a vm_scheme) res" where
  "exec_bad argbuf pagetable s =
     rbind (case argbuf of None \<Rightarrow> Inr s | Some a \<Rightarrow> kpage_free a s) (\<lambda>s1. rbind (uvmfree pagetable s1) (\<lambda>s2. Inr (-1, s2)))"

fun basename :: "string \<Rightarrow> string \<Rightarrow> string" where
  "basename base [] = base"
| "basename base (c # q) = basename (if c = CHR ''/'' then q else base) q"

definition zero_tf :: trapframe where
  "zero_tf = \<lparr>tf_x = replicate 31 0, tf_sp = 0, tf_elr = 0, tf_spsr = 0, tf_tpidr = 0\<rparr>"

text \<open>Phase 2: the new address space is installed and the old one freed.\<close>

definition exec_commit :: "string \<Rightarrow> uintptr \<Rightarrow> uintptr \<Rightarrow> uint64 \<Rightarrow> uint64 \<Rightarrow> 'a procs_scheme \<Rightarrow> (int \<times> 'a procs_scheme) res" where
  "exec_commit path pagetable entry new_sz sp s =
     (case myproc s of None \<Rightarrow> Inl Fault
      | Some p \<Rightarrow>
          (let old = p_pagetable (pr_proc s p);
               s1 = upd_proc p (\<lambda>q. q\<lparr>p_pagetable := Some pagetable, p_sz := new_sz + PGSIZE,
                      p_tf := zero_tf\<lparr>tf_sp := sp, tf_elr := entry, tf_spsr := 0\<rparr>, p_name := proc_name (basename path path)\<rparr>) s in
           rbind (switchuvm (asid_num (unat p) (pr_asid s1)) (p_pagetable (pr_proc s1 p))) (\<lambda>v.
             let s2 = s1\<lparr>pr_ttbr0 := (pr_ttbr0 s1)(sl_cpu s1 := v)\<rparr> in
             case old of None \<Rightarrow> Inl Fault | Some t \<Rightarrow> rbind (uvmfree t s2) (\<lambda>s3. Inr (0, s3)))))"

definition exec_enter :: "'a procs_scheme uaccess \<Rightarrow> string \<Rightarrow> uintptr \<Rightarrow> uintptr \<Rightarrow> uintptr \<Rightarrow> uintptr \<Rightarrow> uint64 \<Rightarrow> 'a procs_scheme
     \<Rightarrow> (int \<times> 'a procs_scheme) res" where
  "exec_enter ua path uargv pagetable stack entry new_sz s =
     rbind (if uargv = 0 then Inr (None, Some (0, 0), s)
            else rbind (kpage_alloc kmem_reclaim s) (\<lambda>(a, s1).
              case a of None \<Rightarrow> Inr (None, None, s1)
              | Some argbuf \<Rightarrow> rbind (exec_args ua argbuf uargv MAXARG 0 0 s1) (\<lambda>(r, s2). Inr (Some argbuf, r, s2))))
       (\<lambda>(argbuf, args, s3).
         case args of None \<Rightarrow> exec_bad argbuf pagetable s3
         | Some (argc, pos) \<Rightarrow>
             rbind (exec_stack stack (ptr argbuf) new_sz argc pos s3) (\<lambda>(r, s4).
               case r of None \<Rightarrow> exec_bad argbuf pagetable s4
               | Some sp \<Rightarrow> rbind (case argbuf of None \<Rightarrow> Inr s4 | Some a \<Rightarrow> kpage_free a s4)
                   (exec_commit path pagetable entry new_sz sp)))"

text \<open>A zeroed stack page above the image, or \<open>None\<close> with the page given back.\<close>

definition stack_page :: "uintptr \<Rightarrow> uint64 \<Rightarrow> 'a slabs_scheme \<Rightarrow> (uintptr option \<times> 'a slabs_scheme) res" where
  "stack_page pagetable sz s =
     rbind (kpage_alloc kmem_reclaim s) (\<lambda>(m, s1).
       case m of None \<Rightarrow> Inr (None, s1)
       | Some stack \<Rightarrow>
           rbind (mappages kmem_reclaim pagetable (USER_BASE + sz) (KVA_TO_PA stack) PGSIZE PAGE_USER (zero_page stack s1)) (\<lambda>(ok, s2).
             if ok then Inr (Some stack, s2) else rbind (kpage_free stack s2) (\<lambda>s3. Inr (None, s3))))"

definition exec :: "blobs \<Rightarrow> 'a procs_scheme uaccess \<Rightarrow> string \<Rightarrow> uintptr \<Rightarrow> 'a procs_scheme \<Rightarrow> (int \<times> 'a procs_scheme) res" where
  "exec b ua path uargv s =
     (case map_of (embedded_progs b) path of None \<Rightarrow> Inr (-1, s)
      | Some elf \<Rightarrow>
          rbind (uvmcreate kmem_reclaim s) (\<lambda>(t, s1).
            case t of None \<Rightarrow> Inr (-1, s1)
            | Some pagetable \<Rightarrow>
                rbind (loadelf kmem_reclaim pagetable elf s1) (\<lambda>(r, s2).
                  case r of None \<Rightarrow> exec_bad None pagetable s2
                  | Some (entry, new_sz) \<Rightarrow>
                      rbind (stack_page pagetable new_sz s2) (\<lambda>(st, s3).
                        case st of None \<Rightarrow> exec_bad None pagetable s3
                        | Some stack \<Rightarrow> exec_enter ua path uargv pagetable stack entry new_sz s3))))"

section \<open>The first process\<close>

definition userinit :: "blobs \<Rightarrow> uint64 \<Rightarrow> 'a procs_scheme \<Rightarrow> 'a procs_scheme res option" where
  "userinit b forkret_pc s =
     tbind (allocproc forkret_pc s) (\<lambda>(a, s1).
       case a of None \<Rightarrow> Some (Inl (Panic ''userinit: allocproc failed''))
       | Some p \<Rightarrow> tbind (Some (uvmcreate kmem_reclaim s1)) (\<lambda>(t, s2).
           case t of None \<Rightarrow> Some (Inl (Panic ''userinit: uvmcreate failed''))
           | Some pagetable \<Rightarrow>
               tbind (Some (loadelf kmem_reclaim pagetable (init_elf b) (upd_proc p (\<lambda>q. q\<lparr>p_pagetable := Some pagetable\<rparr>) s2))) (\<lambda>(r, s3).
                 case r of None \<Rightarrow> Some (Inl (Panic ''userinit: loadelf failed''))
                 | Some (entry, sz) \<Rightarrow> tbind (Some (kpage_alloc kmem_reclaim s3)) (\<lambda>(m, s4).
                     case m of None \<Rightarrow> Some (Inl (Panic ''userinit: kalloc failed''))
                     | Some stack \<Rightarrow>
                         tbind (Some (mappages kmem_reclaim pagetable (USER_BASE + sz) (KVA_TO_PA stack) PGSIZE PAGE_USER (zero_page stack s4))) (\<lambda>(ok, s5).
                           if \<not> ok then Some (Inl (Panic ''userinit: stack mappages failed''))
                           else
                             (let sp = (sz + PGSIZE - 5 * 8) AND NOT 0xF;
                                  s6 = put_bytes stack (unat (sp - sz)) (concat (map word_bytes [0, 0, 0, 0, 0])) s5;
                                  s7 = upd_proc p (\<lambda>q. q\<lparr>p_sz := sz + PGSIZE, p_tf := zero_tf\<lparr>tf_elr := entry, tf_spsr := 0, tf_sp := sp\<rparr>,
                                         p_name := proc_name ''init''\<rparr>) s6 in
                              proc_activate p None (s7\<lparr>pr_initproc := Some p\<rparr>)))))))"

section \<open>The initial stack\<close>

definition get_word :: "(nat \<Rightarrow> uint64) \<Rightarrow> nat \<Rightarrow> uint64" where
  "get_word w a = le_word (map (\<lambda>j. get_byte w (a + j)) [0..<8])"

lemma length_word_bytes [simp]: "length (word_bytes v) = 8"
  by (simp add: word_bytes_def)

lemma le_word_bytes [simp]: "le_word (word_bytes v) = v"
proof (rule bit_word_eqI)
  fix n assume "n < LENGTH(64)"
  moreover from this have "n div 8 < 8" by (simp add: div_less_iff_less_mult)
  ultimately show "bit (le_word (word_bytes v) :: uint64) n = bit v n"
    by (simp add: bit_le_word word_bytes_def bit_ucast_iff bit_drop_bit_eq)
qed

lemma concat_word_bytes_nth: "j < length vs \<Longrightarrow> k < 8 \<Longrightarrow> concat (map word_bytes vs) ! (8 * j + k) = word_bytes (vs ! j) ! k"
proof (induction vs arbitrary: j)
  case (Cons v vs)
  show ?case
  proof (cases j)
    case (Suc i)
    then have "8 * j + k = 8 + (8 * i + k)" by simp
    then show ?thesis using Cons Suc by (simp only:) (simp add: nth_append)
  qed (use Cons.prems in \<open>simp add: nth_append\<close>)
qed simp

lemma length_concat_word_bytes [simp]: "length (concat (map word_bytes vs)) = 8 * length vs"
  by (induction vs) simp_all

lemma get_word_put:
  assumes "j < length vs"
  shows "get_word (put_words off (concat (map word_bytes vs)) w) (off + 8 * j) = vs ! j"
proof -
  have "get_byte (put_words off (concat (map word_bytes vs)) w) (off + 8 * j + k) = word_bytes (vs ! j) ! k" if "k < 8" for k
    using concat_word_bytes_nth [OF assms that] assms that by (simp add: get_put_words add.assoc)
  then have "map (\<lambda>k. get_byte (put_words off (concat (map word_bytes vs)) w) (off + 8 * j + k)) [0..<8] = word_bytes (vs ! j)"
    by (intro nth_equalityI) simp_all
  then show ?thesis by (simp only: get_word_def le_word_bytes)
qed

text \<open>Strings packed one after the other, each with its terminator.\<close>

definition packed :: "uint8 list list \<Rightarrow> uint8 list" where
  "packed strs = concat (map (\<lambda>str. str @ [0]) strs)"

lemma packed_simps [simp]: "packed [] = []" "packed (str # strs) = str @ 0 # packed strs"
  by (simp_all add: packed_def)

lemma packed_take:
  "i < length strs \<Longrightarrow> packed strs = packed (take i strs) @ (strs ! i @ [0]) @ packed (drop (Suc i) strs)"
proof (induction strs arbitrary: i)
  case (Cons str strs)
  then show ?case by (cases i) simp_all
qed simp

definition holds_bytes :: "(nat \<Rightarrow> uint64) \<Rightarrow> nat \<Rightarrow> uint8 list \<Rightarrow> bool" where
  "holds_bytes w a bs \<longleftrightarrow> (\<forall>k < length bs. get_byte w (a + k) = bs ! k)"

lemma holds_append: "holds_bytes w a (xs @ ys) \<longleftrightarrow> holds_bytes w a xs \<and> holds_bytes w (a + length xs) ys"
proof
  assume l: "holds_bytes w a (xs @ ys)"
  have "get_byte w (a + length xs + k) = ys ! k" if "k < length ys" for k
    using l that unfolding holds_bytes_def by (metis add.assoc add_less_cancel_left length_append nth_append_length_plus)
  moreover have "get_byte w (a + k) = xs ! k" if "k < length xs" for k
    using l that unfolding holds_bytes_def by (metis length_append nth_append trans_less_add1)
  ultimately show "holds_bytes w a xs \<and> holds_bytes w (a + length xs) ys" unfolding holds_bytes_def by blast
next
  assume r: "holds_bytes w a xs \<and> holds_bytes w (a + length xs) ys"
  show "holds_bytes w a (xs @ ys)" unfolding holds_bytes_def
  proof (intro allI impI)
    fix k assume k: "k < length (xs @ ys)"
    show "get_byte w (a + k) = (xs @ ys) ! k"
    proof (cases "k < length xs")
      case False
      then have "get_byte w (a + length xs + (k - length xs)) = ys ! (k - length xs)"
        using conjunct2 [OF r, unfolded holds_bytes_def, THEN spec, of "k - length xs"] k by simp
      then show ?thesis using False by (simp add: nth_append)
    qed (use r in \<open>simp add: holds_bytes_def nth_append\<close>)
  qed
qed

lemma strlen_at_packed:
  assumes "holds_bytes w off (str @ [0])" "0 \<notin> set str" "off + length str < 4096"
  shows "strlen_at w (of_nat off) = Inr (length str)"
proof -
  have u: "unat (of_nat off :: uint64) = off" using assms(3) by (intro unat_of_nat_small) simp
  have str: "get_byte w i \<noteq> 0" if "off \<le> i" "i < off + length str" for i
  proof -
    have "get_byte w i = str ! (i - off)"
      using conjunct1 [OF assms(1) [unfolded holds_append], unfolded holds_bytes_def, THEN spec, of "i - off"] that by simp
    moreover have "str ! (i - off) \<in> set str" using that by (intro nth_mem) simp
    ultimately show ?thesis using assms(2) by metis
  qed
  have z: "get_byte w (off + length str) = 0" using assms(1) unfolding holds_append holds_bytes_def by simp
  have "[off..<4096] = [off..<off + length str] @ [off + length str..<4096]" 
    using upt_add_eq_append [of off "off + length str" "4096 - (off + length str)"] assms(3) by simp
  moreover have "[off + length str..<4096] = (off + length str) # [Suc (off + length str)..<4096]" using assms(3) by (simp add: upt_conv_Cons)
  ultimately have "takeWhile (\<lambda>i. get_byte w i \<noteq> 0) [off..<4096] = [off..<off + length str]"
    using str z by (simp add: takeWhile_append)
  then show ?thesis using assms(3) u by (simp add: strlen_at_def Let_def)
qed

lemma exec_argv_packed:
  assumes "holds_bytes w off (packed strs)" "0 \<notin> \<Union> (set ` set strs)" "off + length (packed strs) \<le> 4096"
  shows "exec_argv w sb (of_nat off) (length strs) = Inr (map (\<lambda>i. sb + of_nat (off + length (packed (take i strs)))) [0..<length strs])"
  using assms
proof (induction strs arbitrary: off)
  case (Cons str strs)
  let ?off = "off + (length str + 1)"
  have h: "holds_bytes w off (str @ [0])" "holds_bytes w ?off (packed strs)"
    using Cons.prems(1) holds_append [of w off "str @ [0]" "packed strs"] by simp_all
  have o: "(of_nat off + (of_nat (length str) + 1) :: uint64) = of_nat ?off" by (simp add: algebra_simps)
  have len: "strlen_at w (of_nat off) = Inr (length str)" by (rule strlen_at_packed [OF h(1)]) (use Cons.prems in auto)
  have ih: "exec_argv w sb (of_nat ?off) (length strs) = Inr (map (\<lambda>i. sb + of_nat (?off + length (packed (take i strs)))) [0..<length strs])"
    by (rule Cons.IH [OF h(2)]) (use Cons.prems in auto)
  have m: "map (\<lambda>i. sb + of_nat (off + length (packed (take i (str # strs))))) [0..<length (str # strs)] =
    (sb + of_nat off) # map (\<lambda>i. sb + of_nat (?off + length (packed (take i strs)))) [0..<length strs]"
  proof (rule nth_equalityI)
    fix i assume "i < length (map (\<lambda>i. sb + of_nat (off + length (packed (take i (str # strs))))) [0..<length (str # strs)])"
    then show "map (\<lambda>i. sb + of_nat (off + length (packed (take i (str # strs))))) [0..<length (str # strs)] ! i =
      ((sb + of_nat off) # map (\<lambda>i. sb + of_nat (?off + length (packed (take i strs)))) [0..<length strs]) ! i"
      by (cases i) (simp_all add: algebra_simps del: upt_Suc)
  qed simp
  show ?case unfolding m by (simp only: list.size(4) exec_argv.simps add_Suc_right add_0_right len rbind_simps o ih)
qed simp

lemma unat_and_not_15: "unat (x AND NOT 0xF :: uint64) = unat x div 16 * 16"
proof -
  have "(0xF :: uint64) = mask 4" by (simp add: mask_eq_exp_minus_1)
  then show ?thesis by (simp only: unat_and_not_mask) simp
qed

text \<open>The two addresses of the layout, as offsets in the stack page.\<close>

lemma stack_offsets:
  assumes z: "page_aligned z" "4096 \<le> unat z" "unat z \<le> 2 ^ 48" and pos: "unat pos \<le> 4096" and argc: "argc < MAXARG"
  defines "A \<equiv> (4096 - unat pos) div 16 * 16" and "B \<equiv> 8 * (argc + 5)"
  shows "unat (exec_strbase z pos) = unat z + A" "exec_sp z pos argc < z \<longleftrightarrow> A < B"
    "B \<le> A \<Longrightarrow> unat (exec_sp z pos argc) = unat z + (A - B) div 16 * 16"
    "unat (exec_sp z pos argc) mod 16 = 0"
proof -
  obtain q where q: "unat z = 16 * q" using z(1) by (auto simp: page_aligned_def elim!: dvdE)
  have "unat (z + PGSIZE) = unat z + 4096" using z(3) by (subst unat_add64) (simp_all add: PGSIZE_def)
  moreover from this have "pos \<le> z + PGSIZE" using pos by (simp add: word_le_nat_alt)
  ultimately have "unat (z + PGSIZE - pos) = 16 * q + (4096 - unat pos)" using q pos by (simp add: unat_sub)
  then show SB: "unat (exec_strbase z pos) = unat z + A" by (simp only: exec_strbase_def unat_and_not_15 A_def q) simp
  have n: "(of_nat argc + 5) * 8 = (of_nat B :: uint64)" by (simp add: B_def algebra_simps)
  have b: "B < 300" using argc by (simp add: B_def MAXARG_def)
  then have ub: "unat (of_nat B :: uint64) = B" by (intro unat_of_nat_small) simp
  have le: "of_nat B \<le> exec_strbase z pos" using SB b ub z(2) by (simp add: word_le_nat_alt)
  have sp: "unat (exec_sp z pos argc) = (unat z + A - B) div 16 * 16"
    unfolding exec_sp_def n unat_and_not_15 unat_sub [OF le] SB ub by simp
  show "unat (exec_sp z pos argc) mod 16 = 0" by (simp add: sp)
  show f: "unat (exec_sp z pos argc) = unat z + (A - B) div 16 * 16" if "B \<le> A"
  proof -
    have "unat z + A - B = 16 * q + (A - B)" using that q by simp
    then show ?thesis by (simp only: sp q) simp
  qed
  show "exec_sp z pos argc < z \<longleftrightarrow> A < B"
  proof (cases "A < B")
    case True
    then have "(unat z + A - B) div 16 < q" using q b z(2) by (simp add: div_less_iff_less_mult)
    then show ?thesis using True sp q by (simp add: word_less_nat_alt)
  qed (use f in \<open>simp add: word_less_nat_alt\<close>)
qed

text \<open>The strings of the argument page at \<open>A\<close> of the stack page, which nothing above \<open>A\<close> overwrites.\<close>

lemma stack_strings:
  fixes sb z :: uint64
  assumes "holds_bytes w A (packed strs)" "\<And>k. A \<le> k \<Longrightarrow> get_byte w' k = get_byte w k" "unat sb = unat z + A" "A + length (packed strs) \<le> 4096"
    "unat z \<le> 2 ^ 48" "i < length strs"
  defines "p \<equiv> sb + of_nat (length (packed (take i strs)))"
  shows "unat z + A \<le> unat p \<and> holds_bytes w' (unat p - unat z) (strs ! i @ [0])"
proof -
  let ?k = "length (packed (take i strs))"
  note sp_i = packed_take [OF assms(6)]
  have kn: "?k + length (strs ! i @ [0]) \<le> length (packed strs)" using arg_cong [OF sp_i, of length] by simp
  have uk: "unat (of_nat ?k :: uint64) = ?k" by (rule unat_of_nat_small) (use kn assms(4) in simp)
  have u: "unat p = unat z + A + ?k" unfolding p_def using assms(3-5) uk kn by (subst unat_add64) simp_all
  have "holds_bytes w (A + ?k) (strs ! i @ [0])" using assms(1) sp_i by (metis holds_append)
  then show ?thesis using u assms(2) unfolding holds_bytes_def by simp
qed

text \<open>C29: the stack a new program starts on. With \<open>strs\<close> packed in the argument page, \<open>exec\<close> fails exactly when the
  strings and the vector do not fit in one page; otherwise the stack pointer is 16-byte aligned, at it stand \<open>argc\<close>,
  the argument pointers and four zero words, below the strings and all inside the stack page, and the bytes at
  \<open>argv[i]\<close> are the \<open>i\<close>-th string with its terminator.\<close>

theorem exec_stack_correct:
  fixes s :: "'a vm_scheme"
  assumes z: "page_aligned z" "4096 \<le> unat z" "unat z \<le> 2 ^ 48" and pages: "stack \<noteq> argbuf" and argc: "length strs < MAXARG"
    and buf: "holds_bytes (vm_page s argbuf) 0 (packed strs)" "0 \<notin> \<Union> (set ` set strs)" "length (packed strs) \<le> 4096"
  defines "A \<equiv> (4096 - length (packed strs)) div 16 * 16" and "B \<equiv> 8 * (length strs + 5)"
  shows "\<exists>r s'. exec_stack stack argbuf z (length strs) (of_nat (length (packed strs))) s = Inr (r, s') \<and>
    (if A < B then r = None
     else \<exists>sp ps. r = Some sp \<and> unat sp mod 16 = 0 \<and> unat z \<le> unat sp \<and> unat sp + B \<le> unat z + A \<and> A + length (packed strs) \<le> 4096 \<and>
       length ps = length strs \<and>
       (\<forall>j < length strs + 5. get_word (vm_page s' stack) (unat sp - unat z + 8 * j) = (of_nat (length strs) # ps @ [0, 0, 0, 0]) ! j) \<and>
       (\<forall>i < length strs. unat z + A \<le> unat (ps ! i) \<and> holds_bytes (vm_page s' stack) (unat (ps ! i) - unat z) (strs ! i @ [0])))"
proof -
  let ?n = "length (packed strs)"
  let ?pos = "of_nat ?n :: uint64"
  have up: "unat ?pos = ?n" using buf(3) by (intro unat_of_nat_small) simp
  note off = stack_offsets [OF z _ argc, of ?pos, unfolded up, OF buf(3), folded A_def B_def]
  let ?sb = "exec_strbase z ?pos" and ?sp = "exec_sp z ?pos (length strs)"
  define s1 where "s1 = (if ?pos \<noteq> 0 then put_bytes stack (unat (?sb - z)) (map (get_byte (vm_page s argbuf)) [0..<?n]) s else s)"
  have an: "A + ?n \<le> 4096" using buf(3) unfolding A_def by presburger
  have sbz: "unat (?sb - z) = A" using off(1) by (subst unat_sub) (simp_all add: word_le_nat_alt)
  have bytes: "map (get_byte (vm_page s argbuf)) [0..<?n] = packed strs"
    using buf(1) unfolding holds_bytes_def by (intro nth_equalityI) simp_all
  have h1: "holds_bytes (vm_page s1 stack) A (packed strs)"
    unfolding holds_bytes_def s1_def bytes sbz using up by (auto simp: put_bytes_def get_put_words)
  have keep: "vm_page s1 argbuf = vm_page s argbuf" using pages by (simp add: s1_def put_bytes_def)
  have run: "exec_stack stack argbuf z (length strs) ?pos s = (if A < B then Inr (None, s1)
     else rbind (exec_argv (vm_page s argbuf) ?sb 0 (length strs)) (\<lambda>ps.
        Inr (Some ?sp, put_bytes stack (unat (?sp - z)) (concat (map word_bytes (of_nat (length strs) # ps @ [0, 0, 0, 0]))) s1)))"
    unfolding exec_stack_def Let_def up s1_def [symmetric] off(2) keep ..
  show ?thesis
  proof (cases "A < B")
    case False
    define ps where "ps = map (\<lambda>i. ?sb + of_nat (0 + length (packed (take i strs)))) [0..<length strs]"
    define vs where "vs = (of_nat (length strs) :: uint64) # ps @ [0, 0, 0, 0]"
    define s' where "s' = put_bytes stack (unat (?sp - z)) (concat (map word_bytes vs)) s1"
    have argv: "exec_argv (vm_page s argbuf) ?sb 0 (length strs) = Inr ps"
      using exec_argv_packed [OF buf(1,2), of ?sb] buf(3) by (simp add: ps_def)
    have len: "length vs = length strs + 5" "length ps = length strs" by (simp_all add: vs_def ps_def)
    have sp: "unat ?sp = unat z + (A - B) div 16 * 16" using off(3) False by simp
    then have spz: "unat (?sp - z) = (A - B) div 16 * 16" by (subst unat_sub) (simp_all add: word_le_nat_alt)
    have top: "(A - B) div 16 * 16 + B \<le> A" using False by linarith
    have page: "vm_page s' stack = put_words ((A - B) div 16 * 16) (concat (map word_bytes vs)) (vm_page s1 stack)"
      by (simp add: s'_def put_bytes_def spz)
    have words: "get_word (vm_page s' stack) (unat ?sp - unat z + 8 * j) = vs ! j" if "j < length strs + 5" for j
      unfolding page sp using get_word_put [of j vs] that len by simp
    have upper: "get_byte (vm_page s' stack) k = get_byte (vm_page s1 stack) k" if "A \<le> k" for k
      unfolding page get_put_words using that top len by (simp add: B_def)
    have strings: "unat z + A \<le> unat (ps ! i) \<and> holds_bytes (vm_page s' stack) (unat (ps ! i) - unat z) (strs ! i @ [0])" if "i < length strs" for i
      using stack_strings [OF h1 _ off(1) an z(3) that, of "vm_page s' stack"] upper that by (simp add: ps_def)
    have eq: "exec_stack stack argbuf z (length strs) ?pos s = Inr (Some ?sp, s')"
      using run argv False by (simp add: s'_def vs_def)
    have bnd: "unat ?sp mod 16 = 0" "unat z \<le> unat ?sp" "unat ?sp + B \<le> unat z + A" using off(4) sp top by simp_all
    show ?thesis unfolding if_not_P [OF False]
      by (rule exI [of _ "Some ?sp"], rule exI [of _ s'], rule conjI, rule eq, rule exI [of _ ?sp], rule exI [of _ ps],
          intro conjI allI impI refl bnd an len(2) words [unfolded vs_def] strings [THEN conjunct1] strings [THEN conjunct2])
  qed (use run in simp)
qed

section \<open>All or nothing\<close>

text \<open>What the unprivileged load loops of \<^verbatim>\<open>arch/copy_user.s\<close> promise: they change no table of the kernel.\<close>

definition reads_only :: "'a procs_scheme uaccess \<Rightarrow> bool" where
  "reads_only ua \<longleftrightarrow> (\<forall>u n s. proc_view (snd (snd (copyin_bytes ua u n s))) = proc_view s \<and> proc_view (snd (snd (copyinstr_bytes ua u n s))) = proc_view s)"

definition disarmed :: "'a procs_scheme \<Rightarrow> bool" where
  "disarmed s \<longleftrightarrow> (\<forall>p. myproc s = Some p \<longrightarrow> p_onfault (pr_proc s p) = 0)"

lemma proc_view_parts: "proc_view s' = proc_view s \<Longrightarrow> pr_proc s' = pr_proc s \<and> pr_ttbr0 s' = pr_ttbr0 s \<and> myproc s' = myproc s \<and> sl_cpu s' = sl_cpu s \<and> pr_asid s' = pr_asid s"
  by (simp add: proc_view_def myproc_def)

lemma disarmed_view: "proc_view s' = proc_view s \<Longrightarrow> disarmed s' = disarmed s"
  by (drule proc_view_parts) (simp add: disarmed_def)

lemma with_onfault_view:
  assumes "with_onfault h f s = Inr (r, s')" "disarmed s" "\<And>s. proc_view (snd (f s)) = proc_view s"
  shows "proc_view s' = proc_view s"
proof -
  obtain p where p: "myproc s = Some p" using assms(1) by (auto simp: with_onfault_def split: option.splits)
  let ?s = "upd_proc p (\<lambda>q. q\<lparr>p_onfault := h\<rparr>) s"
  have s': "s' = upd_proc p (\<lambda>q. q\<lparr>p_onfault := 0\<rparr>) (snd (f ?s))" using assms(1) p by (auto simp: with_onfault_def Let_def split: prod.splits)
  have z: "p_onfault (pr_proc s p) = 0" using assms(2) p by (simp add: disarmed_def)
  have "proc_view (snd (f ?s)) = proc_view ?s" by (rule assms(3))
  then have "proc_view s' = ((pr_proc s)(p := (pr_proc s p)\<lparr>p_onfault := 0\<rparr>), snd (proc_view s))"
    by (simp add: s' proc_view_def upd_proc_def)
  moreover have "(pr_proc s p)\<lparr>p_onfault := 0\<rparr> = pr_proc s p" using z by simp
  ultimately show ?thesis by (simp add: proc_view_def)
qed

lemma copy_view:
  assumes "reads_only ua" "disarmed s"
  shows "copyin ua u n s = Inr ((r, bs), s') \<Longrightarrow> proc_view s' = proc_view s"
    "copyinstr ua u n s = Inr ((r, bs), s') \<Longrightarrow> proc_view s' = proc_view s"
  using assms
  by (auto simp: copyin_def copyinstr_def reads_only_def Let_def split: if_splits prod.splits elim!: with_onfault_view) (metis snd_conv)+

lemma exec_args_view:
  assumes "reads_only ua" "disarmed s" "exec_args ua argbuf uargv n argc pos s = Inr (r, s')"
  shows "proc_view s' = proc_view s"
  using assms(2,3)
proof (induction n arbitrary: argc pos s)
  case (Suc n)
  obtain r1 bs s1 where c: "copyin ua (uargv + of_nat argc * 8) 8 s = Inr ((r1, bs), s1)" using Suc.prems(2) by (auto simp: rbind_Inr_iff)
  note v = copy_view(1) [OF assms(1) Suc.prems(1) c]
  show ?case
  proof (cases "r1 < 0 \<or> (le_word bs :: uint64) = 0")
    case False
    then obtain r2 str s2 where d: "copyinstr ua (le_word bs) (PGSIZE - pos) s1 = Inr ((r2, str), s2)"
      using Suc.prems(2) c by (auto simp: rbind_Inr_iff Let_def)
    have v2: "proc_view s2 = proc_view s" using copy_view(2) [OF assms(1) _ d] disarmed_view [OF v] Suc.prems(1) v by simp
    then have "disarmed (put_bytes argbuf (unat pos) str s2)" using disarmed_view [of "put_bytes argbuf (unat pos) str s2" s] Suc.prems(1) by simp
    then show ?thesis using Suc.IH Suc.prems(2) c d False v2 by (auto simp: Let_def split: if_splits)
  qed (use Suc.prems(2) c v in \<open>auto simp: Let_def split: if_splits\<close>)
qed simp

lemma exec_stack_view: "exec_stack stack argbuf z argc pos s = Inr (r, s') \<Longrightarrow> proc_view s' = proc_view s"
  by (auto simp: exec_stack_def Let_def rbind_Inr_iff split: if_splits)

lemma exec_bad_view: "exec_bad argbuf t s = Inr (r, s') \<Longrightarrow> r = -1 \<and> proc_view s' = proc_view s"
  by (auto simp: exec_bad_def rbind_Inr_iff split: option.splits dest!: pf.uvmfree_view pf.free_view)

lemma stack_page_view: "stack_page t sz s = Inr (r, s') \<Longrightarrow> proc_view s' = proc_view s"
  by (fastforce simp: stack_page_def rbind_Inr_iff split: option.splits if_splits dest: pf.alloc_view pf.mappages_view pf.free_view)

text \<open>What \<open>exec_commit\<close> makes of the process table.\<close>

definition exec_committed :: "string \<Rightarrow> 'a procs_scheme \<Rightarrow> 'a procs_scheme \<Rightarrow> bool" where
  "exec_committed path s s' \<longleftrightarrow> (\<exists>p t entry sz sp. myproc s = Some p \<and>
     pr_proc s' = (pr_proc s)(p := (pr_proc s p)\<lparr>p_pagetable := Some t, p_sz := sz + PGSIZE,
        p_tf := zero_tf\<lparr>tf_sp := sp, tf_elr := entry\<rparr>, p_name := proc_name (basename path path)\<rparr>) \<and>
     pr_ttbr0 s' = (pr_ttbr0 s)(sl_cpu s := push_bit 48 (ucast (asid_num (unat p) (pr_asid s))) OR KVA_TO_PA t))"

lemma exec_commit_done:
  assumes "exec_commit path t entry sz sp s = Inr (r, s')"
  shows "r = 0 \<and> exec_committed path s s'"
proof -
  obtain p old where p: "myproc s = Some p" "p_pagetable (pr_proc s p) = Some old" 
    using assms by (auto simp: exec_commit_def Let_def switchuvm_def split: option.splits)
  let ?s1 = "upd_proc p (\<lambda>q. q\<lparr>p_pagetable := Some t, p_sz := sz + PGSIZE,
                      p_tf := zero_tf\<lparr>tf_sp := sp, tf_elr := entry, tf_spsr := 0\<rparr>, p_name := proc_name (basename path path)\<rparr>) s"
  let ?s2 = "?s1\<lparr>pr_ttbr0 := (pr_ttbr0 s)(sl_cpu s := push_bit 48 (ucast (asid_num (unat p) (pr_asid s))) OR KVA_TO_PA t)\<rparr>"
  have "r = 0" "uvmfree old ?s2 = Inr s'" using assms p by (auto simp: exec_commit_def Let_def switchuvm_def rbind_Inr_iff upd_proc_def)
  moreover from pf.uvmfree_view [OF this(2)] have "pr_proc s' = pr_proc ?s2" "pr_ttbr0 s' = pr_ttbr0 ?s2" by (simp_all add: proc_view_def)
  moreover have "zero_tf\<lparr>tf_spsr := 0\<rparr> = zero_tf" by (simp add: zero_tf_def)
  ultimately show ?thesis unfolding exec_committed_def using p(1)
    by (intro conjI exI [of _ p] exI [of _ t] exI [of _ entry] exI [of _ sz] exI [of _ sp]) (simp_all add: upd_proc_def zero_tf_def)
qed

lemma exec_committed_view:
  assumes "exec_committed path s1 s'" "proc_view s1 = proc_view s"
  shows "exec_committed path s s'"
  using assms(1) proc_view_parts [OF assms(2)] by (simp add: exec_committed_def)

lemma exec_enter_done:
  assumes "exec_enter ua path uargv t stack entry sz s = Inr (r, s')" "reads_only ua" "disarmed s"
  shows "r = -1 \<and> proc_view s' = proc_view s \<or> r = 0 \<and> exec_committed path s s'"
proof -
  obtain argbuf args s3 where a: "(if uargv = 0 then Inr (None, Some (0, 0), s)
      else rbind (kpage_alloc kmem_reclaim s) (\<lambda>(a, s1).
              case a of None \<Rightarrow> Inr (None, None, s1)
              | Some argbuf \<Rightarrow> rbind (exec_args ua argbuf uargv MAXARG 0 0 s1) (\<lambda>(r, s2). Inr (Some argbuf, r, s2)))) = Inr (argbuf, args, s3)"
    using assms(1) by (auto simp: exec_enter_def rbind_Inr_iff)
  have v3: "proc_view s3 = proc_view s"
  proof (cases "uargv = 0")
    case False
    then obtain x s1 where al: "kpage_alloc kmem_reclaim s = Inr (x, s1)" using a by (auto simp: rbind_Inr_iff)
    note v1 = pf.alloc_view [OF al]
    then have "disarmed s1" using assms(3) disarmed_view by blast
    then show ?thesis using a False al v1 exec_args_view [OF assms(2)] by (auto simp: rbind_Inr_iff split: option.splits)
  qed (use a in simp)
  show ?thesis
  proof (cases args)
    case None
    then have "exec_bad argbuf t s3 = Inr (r, s')" using assms(1) a by (simp add: exec_enter_def)
    then show ?thesis using exec_bad_view v3 by metis
  next
    case (Some ap)
    obtain argc pos where ap: "ap = (argc, pos)" by (cases ap)
    obtain x s4 where st: "exec_stack stack (ptr argbuf) sz argc pos s3 = Inr (x, s4)"
      "(case x of None \<Rightarrow> exec_bad argbuf t s4
        | Some sp \<Rightarrow> rbind (case argbuf of None \<Rightarrow> Inr s4 | Some a \<Rightarrow> kpage_free a s4) (exec_commit path t entry sz sp)) = Inr (r, s')"
      using assms(1) a Some ap by (auto simp: exec_enter_def rbind_Inr_iff)
    have v4: "proc_view s4 = proc_view s" using exec_stack_view [OF st(1)] v3 by simp
    show ?thesis
    proof (cases x)
      case None
      then show ?thesis using st(2) exec_bad_view v4 by fastforce
    next
      case (Some sp)
      then obtain s5 where s5: "(case argbuf of None \<Rightarrow> Inr s4 | Some a \<Rightarrow> kpage_free a s4) = Inr s5" "exec_commit path t entry sz sp s5 = Inr (r, s')"
        using st(2) by (auto simp: rbind_Inr_iff)
      have "proc_view s5 = proc_view s" using s5(1) v4 by (auto split: option.splits dest!: pf.free_view)
      then show ?thesis using exec_commit_done [OF s5(2)] exec_committed_view by blast
    qed
  qed
qed


section \<open>Instances\<close>

definition demo_args :: "uint8 list list" where "demo_args = [[0x61], [0x62, 0x63]]"

lemma demo_args_held: "holds_bytes (vm_page (put_bytes root2 0 (packed demo_args) demo_vm) root2) 0 (packed demo_args)"
  by (simp add: holds_bytes_def put_bytes_def get_put_words)

theorem exec_stack_correct_witness:
  "\<exists>sp s'. exec_stack root1 root2 0x2000 2 5 (put_bytes root2 0 (packed demo_args) demo_vm) = Inr (Some sp, s') \<and>
     16 dvd unat sp \<and> get_word (vm_page s' root1) (unat sp - 0x2000) = 2"
proof -
  let ?s = "put_bytes root2 0 (packed demo_args) demo_vm"
  have d: "length demo_args = 2" "length (packed demo_args) = 5" by (simp_all add: demo_args_def)
  have "root1 \<noteq> root2" by (simp add: PA_TO_KVA_def)
  moreover have "page_aligned 0x2000" "4096 \<le> unat (0x2000 :: uint64)" "unat (0x2000 :: uint64) \<le> 2 ^ 48" by (simp_all add: page_aligned_def)
  moreover have "length demo_args < MAXARG" "0 \<notin> \<Union> (set ` set demo_args)" "length (packed demo_args) \<le> 4096"
    by (simp_all add: demo_args_def MAXARG_def)
  ultimately obtain sp ps s' where r: "exec_stack root1 root2 0x2000 2 5 ?s = Inr (Some sp, s')" "16 dvd unat sp" "8192 \<le> unat sp"
    "\<forall>j < 7. get_word (vm_page s' root1) (unat sp + 8 * j - 8192) = (2 # ps @ [0, 0, 0, 0]) ! j"
    using exec_stack_correct [of "0x2000" root1 root2 demo_args ?s, OF _ _ _ _ _ demo_args_held] d by auto blast
  from r(4) [THEN spec, of 0] show ?thesis using r(1,2) by auto
qed

definition demo_blobs :: blobs where "demo_blobs = \<lparr>init_elf = demo_img, argvtest_elf = [], faulttest_elf = []\<rparr>"


end
