(* ===== verification/Console.thy ===== *)
theory Console
  imports Exec Kmsg Fmt
begin

text \<open>
  The console (\<^verbatim>\<open>dev/console.c\<close>), the port it drives (\<open>uart_putc\<close>, \<open>uart_getc\<close> of \<^verbatim>\<open>dev/uart.c\<close>) and \<open>vprintk\<close>
  (\<^verbatim>\<open>kern/printk.c\<close>). The state extends the process table, because a completed line wakes a sleeping
  reader. \<open>cn_out\<close> is everything that was written to the data register, \<open>cn_rx\<close> what the receive FIFO
  holds; waiting for room in the transmit FIFO is not represented. \<open>cn_now\<close> and \<open>cn_cntfrq\<close> are what the
  counter and its frequency register read.
\<close>

section \<open>State\<close>

record rx_err =
  overrun :: uint64
  brk :: uint64
  parity :: uint64
  frame :: uint64

record cons_io = procs +
  cn_buf :: "uint8 list"
  cn_r :: uint64
  cn_w :: uint64
  cn_e :: uint64
  cn_rx_err :: rx_err
  cn_seq :: uint64
  cn_log :: kmsg
  cn_out :: "uint8 list"
  cn_rx :: "uint32 list"
  cn_now :: uint64
  cn_cntfrq :: uint64

definition INPUT_BUF_SIZE :: uint64 where [kdefs]: "INPUT_BUF_SIZE = 128"
definition CONSOLE_DRAIN_MAX :: nat where [kdefs]: "CONSOLE_DRAIN_MAX = 256"
definition CTRL :: "uint8 \<Rightarrow> uint8" where "CTRL x = x - 64"

abbreviation CTRL_U :: uint8 where "CTRL_U \<equiv> CTRL 0x55"
abbreviation CTRL_H :: uint8 where "CTRL_H \<equiv> CTRL 0x48"
abbreviation CTRL_D :: uint8 where "CTRL_D \<equiv> CTRL 0x44"

definition UART_DR_DATA :: uint32 where [kdefs]: "UART_DR_DATA = 0xFF"
definition UART_DR_OE :: uint32 where [kdefs]: "UART_DR_OE = push_bit 11 1"
definition UART_DR_BE :: uint32 where [kdefs]: "UART_DR_BE = push_bit 10 1"
definition UART_DR_PE :: uint32 where [kdefs]: "UART_DR_PE = push_bit 9 1"
definition UART_DR_FE :: uint32 where [kdefs]: "UART_DR_FE = push_bit 8 1"

text \<open>The two locks, and the address \<^verbatim>\<open>&cons.r\<close> that readers sleep on.\<close>

definition cons_lock :: nat where "cons_lock = 4 + 2 ^ 64"
definition cons_out_lock :: nat where "cons_out_lock = 5 + 2 ^ 64"
definition cons_chan :: uintptr where "cons_chan = 0xFFFF000040200080"

definition bytes :: "string \<Rightarrow> uint8 list" where "bytes = map ch"

section \<open>The port\<close>

definition uart_putc :: "uint8 \<Rightarrow> 'a cons_io_scheme \<Rightarrow> 'a cons_io_scheme" where
  "uart_putc c s = s\<lparr>cn_out := cn_out s @ [c]\<rparr>"

definition uart_getc :: "'a cons_io_scheme \<Rightarrow> int \<times> 'a cons_io_scheme" where
  "uart_getc s = (case cn_rx s of [] \<Rightarrow> (-1, s) | x # xs \<Rightarrow> (sint x, s\<lparr>cn_rx := xs\<rparr>))"

section \<open>Output\<close>

definition console_write :: "uint8 list \<Rightarrow> 'a cons_io_scheme \<Rightarrow> 'a cons_io_scheme res option" where
  "console_write buf s = tbind (acquire cons_out_lock s) (\<lambda>s1. release cons_out_lock (fold uart_putc buf s1))"

text \<open>\<open>buf\<close> is the memory at \<open>s\<close>: bytes up to the terminator are written.\<close>

definition console_puts :: "uint8 list \<Rightarrow> 'a cons_io_scheme \<Rightarrow> 'a cons_io_scheme" where
  "console_puts buf s = fold uart_putc (takeWhile (\<lambda>c. c \<noteq> 0) buf) s"

definition level_tag :: "nat \<Rightarrow> string" where
  "level_tag level =
     (if level = 0 then ''EMERG:  '' else if level = 1 then ''ALERT:  '' else if level = 2 then ''CRIT:  ''
      else if level = 3 then ''ERROR:  '' else if level = 4 then ''WARNING:  '' else '''')"

definition USEC_PER_SEC :: uint64 where [kdefs]: "USEC_PER_SEC = 1000000"

definition console_render :: "kmsg_desc \<Rightarrow> uint8 list \<Rightarrow> 'a cons_io_scheme \<Rightarrow> 'a cons_io_scheme res" where
  "console_render d txt s =
     (let f = cn_cntfrq s in
      rbind (if f \<noteq> 0 then
               rbind (vsnprintf (replicate 32 0) (bytes ''[%5lu.%06lu] '') [Reg (d_ts d div f), Reg ((d_ts d mod f) * USEC_PER_SEC div f)])
                 (\<lambda>(_, hdr). Inr (console_puts hdr s))
             else Inr s) (\<lambda>s1.
        Inr (fold uart_putc (take (unat (d_len d)) txt) (console_puts (bytes (level_tag (unat (d_level d)))) s1))))"

definition console_dropped :: "uint64 \<Rightarrow> 'a cons_io_scheme \<Rightarrow> 'a cons_io_scheme res" where
  "console_dropped n s =
     rbind (vsnprintf (replicate 64 0) (bytes ''** %lu messages dropped **'' @ [10]) [Reg n]) (\<lambda>(_, msg). Inr (console_puts msg s))"

lemma render_keeps:
  "console_render d t s = Inr s' \<Longrightarrow> cn_seq s' = cn_seq s \<and> cn_log s' = cn_log s"
  "console_dropped n s = Inr s' \<Longrightarrow> cn_seq s' = cn_seq s \<and> cn_log s' = cn_log s"
proof -
  have f: "cn_seq (fold uart_putc xs s) = cn_seq s \<and> cn_log (fold uart_putc xs s) = cn_log s" for xs and s :: "'a cons_io_scheme"
    by (induction xs arbitrary: s) (simp_all add: uart_putc_def)
  show "console_render d t s = Inr s' \<Longrightarrow> cn_seq s' = cn_seq s \<and> cn_log s' = cn_log s"
    "console_dropped n s = Inr s' \<Longrightarrow> cn_seq s' = cn_seq s \<and> cn_log s' = cn_log s"
    by (auto simp: console_render_def console_dropped_def console_puts_def Let_def rbind_Inr_iff f split: if_splits)
qed

lemma unat_inc_less: "a < (b :: uint64) \<Longrightarrow> unat (a + 1) = unat a + 1"
  using unsigned_less [of b, where 'a = nat] by (subst unat_add_no_wrap) (simp_all add: word_less_nat_alt)

text \<open>The loop of \<open>console_drain\<close>: a record that is gone is counted once, one that is still open ends it.\<close>

function console_drain :: "uint64 \<Rightarrow> 'a cons_io_scheme \<Rightarrow> 'a cons_io_scheme res" where
  "console_drain fin s =
     (if cn_seq s < fin then
        (case kmsg_read (cn_seq s) (cn_log s) of
           None \<Rightarrow>
             (let first = kmsg_first_seq (cn_log s) in
              if cn_seq s < first then
                (case console_dropped (first - cn_seq s) s of Inl e \<Rightarrow> Inl e | Inr s1 \<Rightarrow> console_drain fin (s1\<lparr>cn_seq := first\<rparr>))
              else Inr s)
         | Some r \<Rightarrow>
             (case console_render (fst r) (snd r) s of Inl e \<Rightarrow> Inl e | Inr s1 \<Rightarrow> console_drain fin (s1\<lparr>cn_seq := cn_seq s1 + 1\<rparr>)))
      else Inr s)"
  by pat_completeness auto
termination
proof (relation "measure (\<lambda>(fin, s). unat fin - unat (cn_seq s))", goal_cases)
  case (2 fin s first s1)
  then show ?case by (auto simp: word_less_nat_alt)
next
  case (3 fin s r s1)
  then have "unat (cn_seq s + 1) = unat (cn_seq s) + 1" using unat_inc_less by blast
  then show ?case using 3 render_keeps(1) [of "fst r" "snd r" s s1] by (simp add: word_less_nat_alt)
qed simp

declare console_drain.simps [simp del]

definition console_flush_upto :: "uint64 \<Rightarrow> 'a cons_io_scheme \<Rightarrow> 'a cons_io_scheme res option" where
  "console_flush_upto seq s =
     (if seq = KMSG_NO_SEQ then tret s
      else tbind (acquire cons_out_lock s) (\<lambda>s1. tbind (Some (console_drain (seq + 1) s1)) (release cons_out_lock)))"

definition console_flush :: "'a cons_io_scheme \<Rightarrow> 'a cons_io_scheme res option" where
  "console_flush s =
     tbind (acquire cons_out_lock s) (\<lambda>s1. tbind (Some (console_drain (kmsg_next_seq (cn_log s1)) s1)) (release cons_out_lock))"

function replay_loop :: "uint64 \<Rightarrow> uint64 \<Rightarrow> 'a cons_io_scheme \<Rightarrow> 'a cons_io_scheme res" where
  "replay_loop seq lst s =
     (if seq < lst then
        (case kmsg_read seq (cn_log s) of
           None \<Rightarrow> (let first = kmsg_first_seq (cn_log s) in if seq < first then replay_loop first lst s else Inr s)
         | Some r \<Rightarrow> (case console_render (fst r) (snd r) s of Inl e \<Rightarrow> Inl e | Inr s1 \<Rightarrow> replay_loop (seq + 1) lst s1))
      else Inr s)"
  by pat_completeness auto
termination
proof (relation "measure (\<lambda>(seq, lst, s). unat lst - unat seq)", goal_cases)
  case (2 seq lst s first)
  then show ?case by (auto simp: word_less_nat_alt)
next
  case (3 seq lst s r s1)
  then have "unat (seq + 1) = unat seq + 1" using unat_inc_less by blast
  then show ?case using 3 by (simp add: word_less_nat_alt)
qed simp

declare replay_loop.simps [simp del]

definition console_replay :: "'a cons_io_scheme \<Rightarrow> 'a cons_io_scheme res option" where
  "console_replay s =
     tbind (acquire cons_out_lock s) (\<lambda>s1.
       tbind (Some (replay_loop (kmsg_first_seq (cn_log s1)) (kmsg_next_seq (cn_log s1)) s1)) (release cons_out_lock))"

section \<open>printk\<close>

text \<open>\<open>vprintk\<close>: format into the CPU's stage, log, then render what the log has up to this record.\<close>

definition vprintk :: "nat \<Rightarrow> uint8 list \<Rightarrow> vararg list \<Rightarrow> 'a cons_io_scheme \<Rightarrow> 'a cons_io_scheme res option" where
  "vprintk level fmt ap s =
     (let cpu = sl_cpu s; s1 = s\<lparr>pr_locks := push_off_at ''printk.c'' 0 cpu (pr_locks s)\<rparr> in
      tbind (Some (vsnprintf (replicate (unat KMSG_RECORD_MAX) 0) fmt ap)) (\<lambda>(n, buf).
        let len = (if sint n > uint KMSG_RECORD_MAX then ucast KMSG_RECORD_MAX else n);
            pid = map_option (\<lambda>p. of_int (p_pid (pr_proc s1 p))) (myproc s1) in
        case kmsg_add (cn_now s1) (kmsg_caller pid (of_nat cpu)) False level buf (ucast len) (cn_log s1) of
          None \<Rightarrow> None
        | Some (seq, log, out) \<Rightarrow>
            tbind (Some (pop_off_at cpu (pr_locks s1))) (\<lambda>k. console_flush_upto seq (s1\<lparr>cn_log := log, pr_locks := k\<rparr>))))"

section \<open>Input\<close>

definition console_echo :: "uint8 \<Rightarrow> 'a cons_io_scheme \<Rightarrow> 'a cons_io_scheme res option" where
  "console_echo c s = (if c = 8 then console_write [8, 32, 8] s else console_write [c] s)"

definition console_init :: "'a cons_io_scheme \<Rightarrow> 'a cons_io_scheme" where
  "console_init s = s\<lparr>cn_r := 0, cn_w := 0, cn_e := 0,
     pr_locks := init_spinlock cons_out_lock ''cons_out'' (init_spinlock cons_lock ''cons'' (pr_locks s))\<rparr>"

definition console_rx_error :: "uint32 \<Rightarrow> uint32" where
  "console_rx_error dr =
     (if dr AND UART_DR_BE \<noteq> 0 then UART_DR_BE else if dr AND UART_DR_PE \<noteq> 0 then UART_DR_PE
      else if dr AND UART_DR_FE \<noteq> 0 then UART_DR_FE else 0)"

definition rx_fault_warn :: "string \<Rightarrow> 'a cons_io_scheme \<Rightarrow> 'a cons_io_scheme res option" where
  "rx_fault_warn what s = vprintk 4 (bytes ''console: %s error on receive'' @ [10]) [Str (Some (bytes what))] s"

definition console_rx_fault :: "uint32 \<Rightarrow> 'a cons_io_scheme \<Rightarrow> 'a cons_io_scheme res option" where
  "console_rx_fault cause s =
     (let x = cn_rx_err s in
      if cause = UART_DR_OE then
        (let s1 = s\<lparr>cn_rx_err := x\<lparr>overrun := overrun x + 1\<rparr>\<rparr> in if overrun x = 0 then rx_fault_warn ''overrun'' s1 else tret s1)
      else if cause = UART_DR_BE then
        (let s1 = s\<lparr>cn_rx_err := x\<lparr>brk := brk x + 1\<rparr>\<rparr> in if brk x = 0 then rx_fault_warn ''break'' s1 else tret s1)
      else if cause = UART_DR_PE then
        (let s1 = s\<lparr>cn_rx_err := x\<lparr>parity := parity x + 1\<rparr>\<rparr> in if parity x = 0 then rx_fault_warn ''parity'' s1 else tret s1)
      else
        (let s1 = s\<lparr>cn_rx_err := x\<lparr>frame := frame x + 1\<rparr>\<rparr> in if frame x = 0 then rx_fault_warn ''framing'' s1 else tret s1))"

definition cn_slot :: "uint64 \<Rightarrow> nat" where
  "cn_slot i = unat (i mod INPUT_BUF_SIZE)"

definition cn_char :: "uint64 \<Rightarrow> 'a cons_io_scheme \<Rightarrow> uint8" where
  "cn_char i s = cn_buf s ! cn_slot i"

text \<open>Erasing: \<open>n\<close> bounds the turns of the loop of \<^verbatim>\<open>CTRL('U')\<close> by the characters between \<open>w\<close> and \<open>e\<close>.\<close>

fun kill_line :: "nat \<Rightarrow> 'a cons_io_scheme \<Rightarrow> 'a cons_io_scheme res option" where
  "kill_line 0 s = tret s"
| "kill_line (Suc n) s =
     (if cn_e s \<noteq> cn_w s \<and> cn_char (cn_e s - 1) s \<noteq> 10 then
        tbind (console_echo 8 (s\<lparr>cn_e := cn_e s - 1\<rparr>)) (kill_line n)
      else tret s)"

definition console_char :: "uint8 \<Rightarrow> 'a cons_io_scheme \<Rightarrow> 'a cons_io_scheme res option" where
  "console_char c0 s =
     (if c0 = CTRL_U then kill_line (unat (cn_e s - cn_w s)) s
      else if c0 = CTRL_H \<or> c0 = 0x7F then
        (if cn_e s \<noteq> cn_w s then console_echo 8 (s\<lparr>cn_e := cn_e s - 1\<rparr>) else tret s)
      else if c0 \<noteq> 0 \<and> cn_e s - cn_r s < INPUT_BUF_SIZE then
        (let c = (if c0 = 13 then 10 else c0) in
         tbind (console_echo c s) (\<lambda>s1.
           let s2 = s1\<lparr>cn_buf := (cn_buf s1)[cn_slot (cn_e s1) := c], cn_e := cn_e s1 + 1\<rparr> in
           if c = 10 \<or> c = CTRL_D \<or> cn_e s2 - cn_r s2 = INPUT_BUF_SIZE
           then wakeup cons_chan (s2\<lparr>cn_w := cn_e s2\<rparr>) else tret s2))
      else tret s)"

text \<open>The loop of \<open>console_intr\<close> over the FIFO, with the turns it has left.\<close>

fun intr_loop :: "nat \<Rightarrow> 'a cons_io_scheme \<Rightarrow> 'a cons_io_scheme res option" where
  "intr_loop 0 s = tret s"
| "intr_loop (Suc n) s =
     (let (raw, s1) = uart_getc s in
      if raw < 0 then tret s1
      else
        (let dr = of_int raw :: uint32 in
         tbind (if dr AND UART_DR_OE \<noteq> 0 then console_rx_fault UART_DR_OE s1 else tret s1) (\<lambda>s2.
           let cause = console_rx_error dr in
           if cause \<noteq> 0 then tbind (console_rx_fault cause s2) (intr_loop n)
           else tbind (console_char (ucast (dr AND UART_DR_DATA)) s2) (intr_loop n))))"

definition console_intr :: "'a cons_io_scheme \<Rightarrow> 'a cons_io_scheme res option" where
  "console_intr s = tbind (acquire cons_lock s) (\<lambda>s1. tbind (intr_loop CONSOLE_DRAIN_MAX s1) (release cons_lock))"

text \<open>
  \<open>console_read\<close>. \<open>take_line\<close> is its loop between two sleeps: \<open>Line got\<close> when it leaves the loop with the bytes
  \<open>got\<close>, \<open>Starved got n\<close> when the ring is empty with \<open>n\<close> bytes still wanted.
\<close>

datatype taken = Line "uint8 list" | Starved "uint8 list" nat

fun take_line :: "uint8 list \<Rightarrow> nat \<Rightarrow> 'a cons_io_scheme \<Rightarrow> taken \<times> 'a cons_io_scheme" where
  "take_line got 0 s = (Line got, s)"
| "take_line got (Suc n) s =
     (if cn_r s = cn_w s then (Starved got (Suc n), s)
      else
        (let c = cn_char (cn_r s) s; s1 = s\<lparr>cn_r := cn_r s + 1\<rparr> in
         if c = CTRL_D then (Line got, if got \<noteq> [] then s1\<lparr>cn_r := cn_r s1 - 1\<rparr> else s1)
         else if c = 10 then (Line (got @ [c]), s1)
         else take_line (got @ [c]) n s1))"

datatype read_result = ReadBytes "uint8 list" | ReadKilled | ReadSlept "uint8 list" nat bool

definition read_turn :: "uint8 list \<Rightarrow> nat \<Rightarrow> 'a cons_io_scheme \<Rightarrow> (read_result \<times> 'a cons_io_scheme) res option" where
  "read_turn got n s =
     (case take_line got n s of
        (Line bs, s1) \<Rightarrow> tbind (release cons_lock s1) (\<lambda>s2. tret (ReadBytes bs, s2))
      | (Starved bs m, s1) \<Rightarrow>
          (case myproc s1 of None \<Rightarrow> Some (Inl Fault)
           | Some p \<Rightarrow> tbind (killed p s1) (\<lambda>(k, s2).
               if k then tbind (release cons_lock s2) (\<lambda>s3. tret (ReadKilled, s3))
               else tbind (sleep cons_chan cons_lock s2) (\<lambda>(ena, s3). tret (ReadSlept bs m ena, s3)))))"

definition console_read :: "nat \<Rightarrow> 'a cons_io_scheme \<Rightarrow> (read_result \<times> 'a cons_io_scheme) res option" where
  "console_read n s = tbind (acquire cons_lock s) (read_turn [] n)"

definition console_read_resume :: "uint8 list \<Rightarrow> nat \<Rightarrow> bool \<Rightarrow> 'a cons_io_scheme \<Rightarrow> (read_result \<times> 'a cons_io_scheme) res option" where
  "console_read_resume got n ena s = tbind (sleep_resume ena cons_lock s) (read_turn got n)"

end
