(* ===== verification/ConsoleSpec.thy ===== *)
theory ConsoleSpec
  imports Console
begin

text \<open>
  What the console promises: the ring with its three indices is a queue of completed lines and a line being
  edited, and the port receives every record of the log once, in order.
\<close>

section \<open>The ring as two lists\<close>

definition win :: "'a cons_io_scheme \<Rightarrow> uint8 list" where
  "win s = map (\<lambda>i. cn_char (cn_r s + of_nat i) s) [0..<unat (cn_e s - cn_r s)]"

definition lines :: "'a cons_io_scheme \<Rightarrow> uint8 list" where
  "lines s = take (unat (cn_w s - cn_r s)) (win s)"

definition editing :: "'a cons_io_scheme \<Rightarrow> uint8 list" where
  "editing s = drop (unat (cn_w s - cn_r s)) (win s)"

definition cons_ok :: "'a cons_io_scheme \<Rightarrow> bool" where [inv_simps]:
  "cons_ok s \<longleftrightarrow> length (cn_buf s) = 128 \<and> unat (cn_e s - cn_r s) \<le> 128 \<and> unat (cn_w s - cn_r s) \<le> unat (cn_e s - cn_r s) \<and>
     10 \<notin> set (editing s)"

definition edit_char :: "uint8 \<Rightarrow> uint8 list \<times> uint8 list \<Rightarrow> uint8 list \<times> uint8 list" where
  "edit_char c0 = (\<lambda>(q, ed).
     if c0 = CTRL_U then (q, [])
     else if c0 = CTRL_H \<or> c0 = 0x7F then (q, butlast ed)
     else if c0 \<noteq> 0 \<and> length q + length ed < 128 then
       (let c = (if c0 = 13 then 10 else c0); ed' = ed @ [c] in
        if c = 10 \<or> c = CTRL_D \<or> length q + length ed' = 128 then (q @ ed', []) else (q, ed'))
     else (q, ed))"

fun line_of :: "uint8 list \<Rightarrow> nat \<Rightarrow> uint8 list \<Rightarrow> taken \<times> uint8 list" where
  "line_of got 0 q = (Line got, q)"
| "line_of got (Suc n) [] = (Starved got (Suc n), [])"
| "line_of got (Suc n) (c # q) =
     (if c = CTRL_D then (Line got, if got \<noteq> [] then c # q else q)
      else if c = 10 then (Line (got @ [c]), q) else line_of (got @ [c]) n q)"

lemma slot_add: "cn_slot (r + of_nat i) = (unat r + i) mod 128"
proof -
  have "unat ((r + of_nat i) mod 128) = unat (r + of_nat i) mod 128" by (simp add: unat_mod_distrib)
  also have "unat (r + of_nat i) mod 128 = (unat r + i) mod 128"
    by (simp add: unat_word_ariths unat_of_nat mod_mod_cancel mod_add_right_eq)
  finally show ?thesis by (simp add: cn_slot_def INPUT_BUF_SIZE_def)
qed

lemma length_win [simp]: "length (win s) = unat (cn_e s - cn_r s)"
  by (simp add: win_def)

lemma win_lines: "win s = lines s @ editing s"
  by (simp add: lines_def editing_def)

lemma ring_lengths:
  assumes "cons_ok s"
  shows "length (lines s) = unat (cn_w s - cn_r s)" "length (editing s) = unat (cn_e s - cn_w s)"
    "unat (cn_e s - cn_r s) = unat (cn_w s - cn_r s) + unat (cn_e s - cn_w s)"
proof -
  have le: "cn_w s - cn_r s \<le> cn_e s - cn_r s" using assms by (simp add: cons_ok_def word_le_nat_alt)
  have "unat (cn_e s - cn_w s) = unat ((cn_e s - cn_r s) - (cn_w s - cn_r s))" by simp
  also have "\<dots> = unat (cn_e s - cn_r s) - unat (cn_w s - cn_r s)" by (rule unat_sub [OF le])
  finally show "length (lines s) = unat (cn_w s - cn_r s)" "length (editing s) = unat (cn_e s - cn_w s)"
    "unat (cn_e s - cn_r s) = unat (cn_w s - cn_r s) + unat (cn_e s - cn_w s)"
    using assms by (simp_all add: lines_def editing_def cons_ok_def)
qed

text \<open>The three moves of the indices.\<close>

lemma ring_erase:
  assumes ok: "cons_ok s" and ne: "cn_e s \<noteq> cn_w s"
  defines "s' \<equiv> s\<lparr>cn_e := cn_e s - 1\<rparr>"
  shows "cons_ok s'" "lines s' = lines s" "editing s' = butlast (editing s)" "cn_char (cn_e s - 1) s = last (editing s)" "editing s \<noteq> []"
proof -
  note len = ring_lengths [OF ok]
  have pos: "0 < unat (cn_e s - cn_w s)" using ne by (simp add: unat_gt_0)
  then have "cn_e s - cn_r s \<noteq> 0" using len(3) by (metis add_gr_0 less_numeral_extra(3) unat_0)
  then have u: "unat (cn_e s - 1 - cn_r s) = unat (cn_e s - cn_r s) - 1"
    using unat_minus_one [of "cn_e s - cn_r s"] by (simp add: algebra_simps)
  have w: "win s' = butlast (win s)" unfolding win_def s'_def by (simp add: u cn_char_def butlast_conv_take take_map)
  show ne': "editing s \<noteq> []" using pos len(2) by (metis length_0_conv less_numeral_extra(3))
  have k: "cn_w s' - cn_r s' = cn_w s - cn_r s" by (simp add: s'_def)
  have lt: "unat (cn_w s - cn_r s) \<le> length (win s) - 1" using len(3) pos by simp
  show ln: "lines s' = lines s" unfolding lines_def k w using lt by (simp add: butlast_conv_take min_absorb1 take_take)
  show ed: "editing s' = butlast (editing s)" unfolding editing_def k w by (simp add: butlast_drop)
  have "last (editing s) = last (win s)" using ne' win_lines [of s] by simp
  also have "\<dots> = cn_char (cn_r s + of_nat (unat (cn_e s - cn_r s) - 1)) s"
    using len(3) pos by (subst last_conv_nth) (auto simp: win_def)
  also have "cn_r s + of_nat (unat (cn_e s - cn_r s) - 1) = cn_e s - 1"
  proof -
    have "of_nat (unat (cn_e s - 1 - cn_r s)) = cn_e s - 1 - cn_r s" by simp
    then show ?thesis unfolding u by simp
  qed
  finally show "cn_char (cn_e s - 1) s = last (editing s)" by simp
  have "set (butlast (editing s)) \<subseteq> set (editing s)" by (auto dest: in_set_butlastD)
  then show "cons_ok s'" using ok ed lt u unfolding cons_ok_def by (auto simp: s'_def u)
qed

lemma mod_window: "i \<le> n \<Longrightarrow> n < 128 \<Longrightarrow> (a + i) mod 128 = (a + n) mod 128 \<longleftrightarrow> i = (n :: nat)"
proof
  assume n: "i \<le> n" "n < 128" and "(a + i) mod 128 = (a + n) mod 128"
  then have "128 dvd (a + n) - (a + i)" using mod_eq_dvd_iff_nat [of "a + i" "a + n" 128] by simp
  then have "128 dvd n - i" by simp
  then show "i = n" using n nat_dvd_not_less [of "n - i" 128] by linarith
qed simp

lemma ring_put:
  fixes s :: "'a cons_io_scheme"
  assumes ok: "cons_ok s" and room: "unat (cn_e s - cn_r s) < 128"
    and s': "s' = s\<lparr>cn_buf := (cn_buf s)[cn_slot (cn_e s) := c], cn_e := cn_e s + 1\<rparr>"
  shows "unat (cn_e s' - cn_r s') = unat (cn_e s - cn_r s) + 1" "lines s' = lines s" "editing s' = editing s @ [c]"
    "c \<noteq> 10 \<Longrightarrow> cons_ok s'" "cons_ok (s'\<lparr>cn_w := cn_e s'\<rparr>)" "lines (s'\<lparr>cn_w := cn_e s'\<rparr>) = lines s @ editing s @ [c]" "editing (s'\<lparr>cn_w := cn_e s'\<rparr>) = []"
proof -
  let ?n = "unat (cn_e s - cn_r s)"
  note len = ring_lengths [OF ok]
  have f: "cn_e s' - cn_r s' = (cn_e s - cn_r s) + 1" "cn_w s' - cn_r s' = cn_w s - cn_r s" "cn_r s' = cn_r s" by (simp_all add: s')
  show u: "unat (cn_e s' - cn_r s') = ?n + 1" unfolding f(1) using room by (subst unat_add_no_wrap) simp_all
  have e: "cn_e s = cn_r s + of_nat ?n" by simp
  have buf: "length (cn_buf s) = 128" using ok by (simp add: cons_ok_def)
  have ch: "cn_char (cn_r s + of_nat i) s' = (if i = ?n then c else cn_char (cn_r s + of_nat i) s)" if i: "i \<le> ?n" for i
  proof -
    have "cn_slot (cn_r s + of_nat i) = cn_slot (cn_e s) \<longleftrightarrow> i = ?n" using mod_window [OF i room] by (subst e) (simp only: slot_add)
    moreover have "cn_slot (cn_e s) < 128" by (subst e) (simp only: slot_add mod_less_divisor)
    ultimately show ?thesis using buf by (auto simp: cn_char_def s' nth_list_update)
  qed
  have "win s' = map (\<lambda>i. cn_char (cn_r s + of_nat i) s') ([0..<?n] @ [?n])"
    unfolding win_def u unfolding f(3) by (simp only: Suc_eq_plus1 [symmetric] upt_Suc_append le0)
  also have "\<dots> = map (\<lambda>i. cn_char (cn_r s + of_nat i) s) [0..<?n] @ [c]"
    using ch [OF order_refl, unfolded if_P [OF refl]] by (simp only: map_append list.map append_same_eq) (rule map_cong [OF refl], simp add: ch)
  finally have w: "win s' = win s @ [c]" by (simp only: win_def)
  have k: "unat (cn_w s - cn_r s) \<le> length (win s)" using ok by (simp add: cons_ok_def)
  show ln: "lines s' = lines s" "editing s' = editing s @ [c]" unfolding lines_def editing_def f(2) w using k by simp_all
  show "cons_ok s'" if "c \<noteq> 10" using ok room u k that ln(2) unfolding cons_ok_def by (auto simp: f(2)) (simp add: s')
  have wn: "win (s'\<lparr>cn_w := cn_e s'\<rparr>) = win s'" by (simp add: win_def cn_char_def)
  have "take (unat (cn_e s' - cn_r s')) (win s') = win s'" "drop (unat (cn_e s' - cn_r s')) (win s') = []" by simp_all
  then show c: "lines (s'\<lparr>cn_w := cn_e s'\<rparr>) = lines s @ editing s @ [c]" "editing (s'\<lparr>cn_w := cn_e s'\<rparr>) = []"
    unfolding lines_def [of "s'\<lparr>cn_w := cn_e s'\<rparr>"] editing_def [of "s'\<lparr>cn_w := cn_e s'\<rparr>"] wn using w win_lines [of s] by simp_all
  show "cons_ok (s'\<lparr>cn_w := cn_e s'\<rparr>)" using c(2) u room buf unfolding cons_ok_def by simp (simp add: s')
qed

lemma ring_get:
  fixes s :: "'a cons_io_scheme"
  assumes ok: "cons_ok s" and ne: "cn_r s \<noteq> cn_w s" and s': "s' = s\<lparr>cn_r := cn_r s + 1\<rparr>"
  shows "lines s = cn_char (cn_r s) s # lines s'" "editing s' = editing s" "cons_ok s'"
proof -
  note len = ring_lengths [OF ok]
  let ?n = "unat (cn_e s - cn_r s)" and ?k = "unat (cn_w s - cn_r s)"
  have k: "0 < ?k" "?k \<le> ?n" using ne ok by (auto simp: unat_gt_0 cons_ok_def)
  then have z: "cn_w s - cn_r s \<noteq> 0" "cn_e s - cn_r s \<noteq> 0" by auto
  have f: "cn_w s' - cn_r s' = (cn_w s - cn_r s) - 1" "cn_e s' - cn_r s' = (cn_e s - cn_r s) - 1" by (simp_all add: s' algebra_simps)
  have u: "unat (cn_w s' - cn_r s') = ?k - 1" "unat (cn_e s' - cn_r s') = ?n - 1" unfolding f using z by (simp_all add: unat_minus_one)
  have "[0..<?n] = 0 # map Suc [0..<?n - 1]" using k by (simp add: map_Suc_upt upt_conv_Cons)
  then have w: "win s = cn_char (cn_r s) s # win s'"
    unfolding win_def u(2) by (simp add: s' cn_char_def algebra_simps)
  show "lines s = cn_char (cn_r s) s # lines s'" "editing s' = editing s"
    unfolding lines_def editing_def u(1) using k(1) w by (cases ?k; simp)+
  then show "cons_ok s'" using ok k u unfolding cons_ok_def by (auto simp: s')
qed

lemma take_line_refines:
  assumes "cons_ok s"
  shows "take_line got n s = (fst (line_of got n (lines s)), snd (take_line got n s)) \<and> cons_ok (snd (take_line got n s)) \<and>
    lines (snd (take_line got n s)) = snd (line_of got n (lines s)) \<and> editing (snd (take_line got n s)) = editing s"
  using assms
proof (induction n arbitrary: got s)
  case (Suc n)
  show ?case
  proof (cases "cn_r s = cn_w s")
    case True
    then have "lines s = []" by (simp add: lines_def)
    then show ?thesis using True Suc.prems by simp
  next
    case False
    let ?s' = "s\<lparr>cn_r := cn_r s + 1\<rparr>"
    note g = ring_get [OF Suc.prems False refl]
    have id: "?s'\<lparr>cn_r := cn_r ?s' - 1\<rparr> = s" by simp
    show ?thesis
    proof (cases "cn_char (cn_r s) s = CTRL_D \<or> cn_char (cn_r s) s = 10")
      case True
      then show ?thesis using False g Suc.prems id by (auto simp: Let_def)
    next
      case F: False
      have "take_line got (Suc n) s = take_line (got @ [cn_char (cn_r s) s]) n ?s'" using False F by (simp add: Let_def)
      moreover have "line_of got (Suc n) (lines s) = line_of (got @ [cn_char (cn_r s) s]) n (lines ?s')" unfolding g(1) using F by simp
      ultimately show ?thesis using Suc.IH [OF g(3), of "got @ [cn_char (cn_r s) s]"] g(2) by simp
    qed
  qed
qed simp

section \<open>One character\<close>

lemma cons_lock_names [simp]:
  "cons_lock \<noteq> p_lock p" "p_lock p \<noteq> cons_lock" "cons_out_lock \<noteq> p_lock p" "p_lock p \<noteq> cons_out_lock" "cons_lock \<noteq> cons_out_lock" "cons_out_lock \<noteq> cons_lock"
  "cons_lock \<noteq> runq_lock" "cons_lock \<noteq> ptable_lock" "runq_lock \<noteq> cons_lock" "ptable_lock \<noteq> cons_lock" "cons_out_lock \<noteq> runq_lock" "cons_out_lock \<noteq> ptable_lock"
  using unsigned_less [of p, where 'a = nat] by (simp_all add: cons_lock_def cons_out_lock_def p_lock_def runq_lock_def ptable_lock_def)

lemma fold_putc: "fold uart_putc bs s = s\<lparr>cn_out := cn_out s @ bs\<rparr>"
  by (induction bs arbitrary: s) (simp_all add: uart_putc_def)

lemma console_write_ok:
  assumes "good H s" "cons_out_lock \<notin> H"
  shows "\<exists>s'. console_write bs s = Some (Inr s') \<and> lockeq H (s\<lparr>cn_out := cn_out s @ bs\<rparr>) s'"
proof -
  have "\<exists>s3. tbind (acquire cons_out_lock s) (\<lambda>s1. tbind (tret (fold uart_putc bs s1)) (release cons_out_lock)) = Some (Inr s3) \<and>
    lockeq H (s\<lparr>cn_out := cn_out s @ bs\<rparr>) s3"
  proof (rule section_ok [OF assms])
    fix s1 :: "'a cons_io_scheme" assume "lockeq (insert cons_out_lock H) s s1"
    then obtain k where k: "s1 = s\<lparr>pr_locks := k\<rparr>" "locks_good (sl_cpu s) (insert cons_out_lock H) k"
      "\<forall>d. d \<noteq> sl_cpu s \<longrightarrow> cpus k d = cpus (pr_locks s) d" by (auto simp: lockeq_def)
    then have "lockeq (insert cons_out_lock H) (s\<lparr>cn_out := cn_out s @ bs\<rparr>) (fold uart_putc bs s1)"
      unfolding lockeq_def fold_putc by (intro exI [of _ k]) simp
    then show "\<exists>s2. tret (fold uart_putc bs s1) = Some (Inr s2) \<and> lockeq (insert cons_out_lock H) (s\<lparr>cn_out := cn_out s @ bs\<rparr>) s2"
      by (simp add: tret_def)
  qed
  then show ?thesis by (simp add: console_write_def tret_def)
qed

text \<open>The part of the state the line discipline is about, and what the locks cannot change.\<close>

definition ring :: "'a cons_io_scheme \<Rightarrow> uint8 list \<times> uint64 \<times> uint64 \<times> uint64 \<times> uint32 list" where
  "ring s = (cn_buf s, cn_r s, cn_w s, cn_e s, cn_rx s)"

lemma ring_view: "ring s' = ring s \<Longrightarrow> cons_ok s' = cons_ok s \<and> lines s' = lines s \<and> editing s' = editing s \<and>
    cn_buf s' = cn_buf s \<and> cn_r s' = cn_r s \<and> cn_w s' = cn_w s \<and> cn_e s' = cn_e s \<and> cn_rx s' = cn_rx s"
  by (simp add: ring_def cons_ok_def lines_def editing_def win_def cn_char_def)

lemma lockeq_ring: "lockeq H s s' \<Longrightarrow> ring s' = ring s \<and> cn_out s' = cn_out s"
  by (auto simp: lockeq_def ring_def)

lemma wake_ring [simp]: "ring (fold (wake chn q) ps s) = ring s" "cn_out (fold (wake chn q) ps s) = cn_out s"
proof -
  have "ring (fold (wake chn q) ps s) = ring s \<and> cn_out (fold (wake chn q) ps s) = cn_out s"
    by (induction ps arbitrary: s) (auto simp: wake_def ring_def upd_proc_def)
  then show "ring (fold (wake chn q) ps s) = ring s" "cn_out (fold (wake chn q) ps s) = cn_out s" by simp_all
qed

definition rubout :: "uint8 list" where "rubout = [8, 32, 8]"

lemma console_echo_ok:
  assumes "good H s" "cons_out_lock \<notin> H"
  shows "\<exists>s'. console_echo c s = Some (Inr s') \<and> good H s' \<and> ring s' = ring s \<and> cn_out s' = cn_out s @ (if c = 8 then rubout else [c])"
proof -
  let ?bs = "if c = 8 then rubout else [c]"
  obtain s' where s': "console_write ?bs s = Some (Inr s')" "lockeq H (s\<lparr>cn_out := cn_out s @ ?bs\<rparr>) s'" using console_write_ok [OF assms] by blast
  have "console_echo c s = Some (Inr s')" using s'(1) by (simp add: console_echo_def rubout_def split: if_splits)
  then show ?thesis using lockeqD(1) [OF s'(2)] lockeq_ring [OF s'(2)] by (auto simp: ring_def)
qed

lemma kill_line_ok:
  assumes "good H s" "cons_out_lock \<notin> H" "cons_ok s" "n = length (editing s)"
  shows "\<exists>s'. kill_line n s = Some (Inr s') \<and> good H s' \<and> cons_ok s' \<and> lines s' = lines s \<and> editing s' = [] \<and>
    cn_out s' = cn_out s @ concat (replicate n rubout) \<and> cn_rx s' = cn_rx s"
  using assms(1,3,4)
proof (induction n arbitrary: s)
  case (Suc n)
  have ne: "cn_e s \<noteq> cn_w s" using Suc.prems(3) ring_lengths(2) [OF Suc.prems(2)] by auto
  let ?s = "s\<lparr>cn_e := cn_e s - 1\<rparr>"
  note er = ring_erase [OF Suc.prems(2) ne]
  have nl: "cn_char (cn_e s - 1) s \<noteq> 10" using er(4) last_in_set [OF er(5)] Suc.prems(2) unfolding cons_ok_def by metis
  have "good H ?s" using Suc.prems(1) by simp
  then obtain s1 where s1: "console_echo 8 ?s = Some (Inr s1)" "good H s1" "ring s1 = ring ?s" "cn_out s1 = cn_out s @ rubout"
    using console_echo_ok [OF _ assms(2), of ?s 8] by auto
  note v = ring_view [OF s1(3)]
  have "n = length (editing s1)" using v er(3) Suc.prems(3) by simp
  then obtain s' where "kill_line n s1 = Some (Inr s')" "good H s'" "cons_ok s'" "lines s' = lines s1" "editing s' = []"
    "cn_out s' = cn_out s1 @ concat (replicate n rubout)" "cn_rx s' = cn_rx s1" using Suc.IH [OF s1(2)] v er(1) by blast
  then show ?case using ne nl s1(1,4) v er(2) by (auto simp: tbind_def)
qed (simp add: tret_def)

text \<open>What the port shows for a character.\<close>

definition echo_of :: "uint8 \<Rightarrow> uint8 list \<times> uint8 list \<Rightarrow> uint8 list" where
  "echo_of c0 = (\<lambda>(q, ed).
     if c0 = CTRL_U then concat (replicate (length ed) rubout)
     else if c0 = CTRL_H \<or> c0 = 0x7F then (if ed \<noteq> [] then rubout else [])
     else if c0 \<noteq> 0 \<and> length q + length ed < 128 then [if c0 = 13 then 10 else c0] else [])"

lemma console_char_ok:
  assumes g: "good H s" "cons_out_lock \<notin> H" "runq_lock \<notin> H" "ptable_lock \<notin> H" "\<And>p. p_lock p \<notin> H" and ok: "cons_ok s"
  shows "\<exists>s'. console_char c s = Some (Inr s') \<and> good H s' \<and> cons_ok s' \<and> (lines s', editing s') = edit_char c (lines s, editing s) \<and>
    cn_out s' = cn_out s @ echo_of c (lines s, editing s) \<and> cn_rx s' = cn_rx s"
proof -
  note len = ring_lengths [OF ok]
  consider (ck) "c = CTRL_U" | (cb) "c \<noteq> CTRL_U" "c = CTRL_H \<or> c = 0x7F" | (cc) "c \<noteq> CTRL_U" "\<not> (c = CTRL_H \<or> c = 0x7F)" by blast
  then show ?thesis
  proof cases
    case ck
    then show ?thesis using kill_line_ok [OF g(1,2) ok refl] len by (auto simp: console_char_def edit_char_def echo_of_def)
  next
    case cb
    show ?thesis
    proof (cases "cn_e s = cn_w s")
      case True
      then have "editing s = []" using len(2) by simp
      then show ?thesis using cb True g(1) ok by (auto simp: console_char_def edit_char_def echo_of_def tret_def)
    next
      case False
      note er = ring_erase [OF ok False]
      have "good H (s\<lparr>cn_e := cn_e s - 1\<rparr>)" using g(1) by simp
      then obtain s1 where s1: "console_echo 8 (s\<lparr>cn_e := cn_e s - 1\<rparr>) = Some (Inr s1)" "good H s1" "ring s1 = ring (s\<lparr>cn_e := cn_e s - 1\<rparr>)" "cn_out s1 = cn_out s @ rubout"
        using console_echo_ok [OF _ g(2), of "s\<lparr>cn_e := cn_e s - 1\<rparr>" 8] by auto
      then show ?thesis using cb False er ring_view [OF s1(3)] by (auto simp: console_char_def edit_char_def echo_of_def)
    qed
  next
    case cc
    have room: "cn_e s - cn_r s < INPUT_BUF_SIZE \<longleftrightarrow> length (lines s) + length (editing s) < 128"
      using len by (simp add: word_less_nat_alt INPUT_BUF_SIZE_def)
    show ?thesis
    proof (cases "c \<noteq> 0 \<and> cn_e s - cn_r s < INPUT_BUF_SIZE")
      case False
      then show ?thesis using cc room g(1) ok by (auto simp: console_char_def edit_char_def echo_of_def tret_def)
    next
      case True
      define c' where "c' = (if c = 13 then 10 else c)"
      have c8: "c' \<noteq> 8" using cc by (auto simp: c'_def CTRL_def)
      obtain s1 where s1: "console_echo c' s = Some (Inr s1)" "good H s1" "ring s1 = ring s" "cn_out s1 = cn_out s @ [c']"
        using console_echo_ok [OF g(1,2), of c'] c8 by auto
      note v = ring_view [OF s1(3)]
      define s2 where "s2 = s1\<lparr>cn_buf := (cn_buf s1)[cn_slot (cn_e s1) := c'], cn_e := cn_e s1 + 1\<rparr>"
      have rm: "unat (cn_e s1 - cn_r s1) < 128" using True v by (simp add: word_less_nat_alt INPUT_BUF_SIZE_def)
      note rp = ring_put [OF _ rm s2_def, simplified v ok simp_thms]
      have full: "cn_e s2 - cn_r s2 = INPUT_BUF_SIZE \<longleftrightarrow> length (lines s) + length (editing s @ [c']) = 128"
        using rp(1) len by (simp add: word_unat_eq_iff INPUT_BUF_SIZE_def)
      have g2: "good H (s2\<lparr>cn_w := cn_e s2\<rparr>)" "good H s2" using s1(2) by (simp_all add: s2_def)
      have run: "console_char c s = (if c' = 10 \<or> c' = CTRL_D \<or> cn_e s2 - cn_r s2 = INPUT_BUF_SIZE
           then wakeup cons_chan (s2\<lparr>cn_w := cn_e s2\<rparr>) else tret s2)"
        using cc True s1(1) by (simp add: console_char_def c'_def s2_def Let_def)
      have rx: "cn_rx s2 = cn_rx s" using v by (simp add: s2_def)
      have out: "echo_of c (lines s, editing s) = [c']" "cn_out s2 = cn_out s @ [c']" using cc True room s1(4) by (auto simp: echo_of_def c'_def s2_def)
      have ed: "edit_char c (lines s, editing s) = (if c' = 10 \<or> c' = CTRL_D \<or> cn_e s2 - cn_r s2 = INPUT_BUF_SIZE
          then (lines s @ editing s @ [c'], []) else (lines s, editing s @ [c']))"
        using cc True room unfolding full by (auto simp: edit_char_def c'_def Let_def)
      show ?thesis
      proof (cases "c' = 10 \<or> c' = CTRL_D \<or> cn_e s2 - cn_r s2 = INPUT_BUF_SIZE")
        case commit: True
        obtain s3 where s3: "wakeup cons_chan (s2\<lparr>cn_w := cn_e s2\<rparr>) = Some (Inr s3)"
          "lockeq H (fold (wake cons_chan (myproc (s2\<lparr>cn_w := cn_e s2\<rparr>))) (pr_allproc (s2\<lparr>cn_w := cn_e s2\<rparr>)) (s2\<lparr>cn_w := cn_e s2\<rparr>)) s3"
          using wakeup_ok [OF g2(1) g(3-5), of cons_chan] by blast
        have r3: "ring s3 = ring (s2\<lparr>cn_w := cn_e s2\<rparr>)" "cn_out s3 = cn_out s2" using lockeq_ring [OF s3(2)] by simp_all
        show ?thesis using run commit s3(1) lockeqD(1) [OF s3(2)] ring_view [OF r3(1)] r3(2) rp(5-7) ed out rx by simp
      next
        case more: False
        then have "c' \<noteq> 10" by simp
        show ?thesis using run more g2(2) rp(2-4) ed out rx \<open>c' \<noteq> 10\<close> by (simp add: tret_def)
      qed
    qed
  qed
qed

section \<open>What the port shows of the log\<close>

text \<open>The text of a format in a buffer of \<open>n\<close> bytes, as \<open>console_puts\<close> shows it.\<close>

definition shown :: "nat \<Rightarrow> uint8 list option \<Rightarrow> uint8 list" where
  "shown n t = (case t of None \<Rightarrow> [] | Some bs \<Rightarrow> takeWhile (\<lambda>c. c \<noteq> 0) (take (n - 1) bs))"

definition hdr_format :: "uint8 list" where "hdr_format = bytes ''[%5lu.%06lu] ''"
definition drop_format :: "uint8 list" where "drop_format = bytes ''** %lu messages dropped **'' @ [10]"

definition rec_text :: "uint64 \<Rightarrow> krec \<Rightarrow> uint8 list" where
  "rec_text f r =
     (if f \<noteq> 0 then shown 32 (fmt_text hdr_format [Reg (k_ts r div f), Reg ((k_ts r mod f) * USEC_PER_SEC div f)]) else []) @
     bytes (level_tag (unat (k_level r))) @ k_text r"

definition dropped_text :: "uint64 \<Rightarrow> uint8 list" where
  "dropped_text n = shown 64 (fmt_text drop_format [Reg n])"

lemma vsnprintf_shown:
  assumes "fmt_text fmt ap = Some t"
  shows "\<exists>n buf. vsnprintf (replicate (Suc m) 0) fmt ap = Inr (n, buf) \<and> takeWhile (\<lambda>c. c \<noteq> 0) buf = shown (Suc m) (Some t)"
proof -
  have ne: "replicate (Suc m) (0 :: uint8) \<noteq> []" by simp
  have "put_nul (emit_str t \<lparr>ob = replicate (Suc m) 0, pos = 0\<rparr>) = take (min (length t) m) t @ [0] @ drop (Suc (min (length t) m)) (replicate (Suc m) 0)"
    using put_nul_emit_str [OF ne, of t] by (simp add: Let_def)
  moreover have "takeWhile (\<lambda>c. c \<noteq> 0) (xs @ [0] @ ys) = takeWhile (\<lambda>c. c \<noteq> 0) xs" for xs ys :: "uint8 list" by (induction xs) simp_all
  moreover have "take (min (length t) m) t = take m t" by (cases "length t \<le> m") (simp_all add: min_def)
  ultimately show ?thesis using fmt_loop_text [OF assms, of "\<lparr>ob = replicate (Suc m) 0, pos = 0\<rparr>"]
    by (simp add: vsnprintf_def shown_def del: append_Cons append_Nil)
qed

lemma fmt_plain: "ch CHR ''%'' \<notin> set p \<Longrightarrow> fmt_text (p @ f) ap = map_option ((@) p) (fmt_text f ap)"
proof (induction p)
  case Nil then show ?case by (cases "fmt_text f ap") simp_all
next
  case (Cons a p) then show ?case by (cases "fmt_text f ap") auto
qed

lemma fmt_unsigned:
  assumes "decode f = (ch CHR ''u'' # f', spec)"
  shows "\<exists>t. fmt_text (ch CHR ''%'' # f) (Reg a # ap) = map_option ((@) t) (fmt_text f' ap)"
  using assms by (simp add: conv_text_def) blast

lemma decode_widths:
  "decode (bytes ''5lu.%06lu] '') = (bytes ''u.%06lu] '', \<lparr>fs_base = 10, fs_flags = FMT_LONG, fs_width = 5\<rparr>)"
  "decode (bytes ''06lu] '') = (bytes ''u] '', \<lparr>fs_base = 10, fs_flags = FMT_ZERO OR FMT_LONG, fs_width = 6\<rparr>)"
  "decode (bytes ''lu messages dropped **'' @ [10]) = (bytes ''u messages dropped **'' @ [10], \<lparr>fs_base = 10, fs_flags = FMT_LONG, fs_width = 0\<rparr>)"
  by code_simp+

lemma console_formats:
  "\<exists>t. fmt_text hdr_format [Reg a, Reg b] = Some t" "\<exists>t. fmt_text drop_format [Reg a] = Some t"
proof -
  have d: "decode (bytes ''5lu.%06lu] '') = (ch CHR ''u'' # bytes ''.%06lu] '', \<lparr>fs_base = 10, fs_flags = FMT_LONG, fs_width = 5\<rparr>)"
    "decode (bytes ''06lu] '') = (ch CHR ''u'' # bytes ''] '', \<lparr>fs_base = 10, fs_flags = FMT_ZERO OR FMT_LONG, fs_width = 6\<rparr>)"
    "decode (bytes ''lu messages dropped **'' @ [10]) = (ch CHR ''u'' # bytes '' messages dropped **'' @ [10], \<lparr>fs_base = 10, fs_flags = FMT_LONG, fs_width = 0\<rparr>)"
    unfolding decode_widths by (simp_all add: bytes_def)
  have h: "hdr_format = bytes ''['' @ ch CHR ''%'' # bytes ''5lu.%06lu] ''" "bytes ''.%06lu] '' = bytes ''.'' @ ch CHR ''%'' # bytes ''06lu] ''"
    "drop_format = bytes ''** '' @ ch CHR ''%'' # (bytes ''lu messages dropped **'' @ [10])"
    by (simp_all add: hdr_format_def drop_format_def bytes_def)
  have p: "ch CHR ''%'' \<notin> set (bytes ''['')" "ch CHR ''%'' \<notin> set (bytes ''.'')" "ch CHR ''%'' \<notin> set (bytes ''] '')" "ch CHR ''%'' \<notin> set (bytes ''** '')"
    "ch CHR ''%'' \<notin> set (bytes '' messages dropped **'' @ [10])" by code_simp+
  obtain t1 where t1: "fmt_text (ch CHR ''%'' # bytes ''5lu.%06lu] '') [Reg a, Reg b] = map_option ((@) t1) (fmt_text (bytes ''.%06lu] '') [Reg b])"
    using fmt_unsigned [OF d(1)] by blast
  obtain t2 where t2: "fmt_text (ch CHR ''%'' # bytes ''06lu] '') [Reg b] = map_option ((@) t2) (fmt_text (bytes ''] '') [])"
    using fmt_unsigned [OF d(2)] by blast
  have e: "fmt_text (bytes ''] '') [] = Some (bytes ''] '')" using fmt_plain [OF p(3), of "[]" "[]"] by simp
  show "\<exists>t. fmt_text hdr_format [Reg a, Reg b] = Some t" unfolding h(1) fmt_plain [OF p(1)] t1 unfolding h(2) fmt_plain [OF p(2)] t2 e by simp
  obtain t3 where t3: "fmt_text (ch CHR ''%'' # (bytes ''lu messages dropped **'' @ [10])) [Reg a] = map_option ((@) t3) (fmt_text (bytes '' messages dropped **'' @ [10]) [])"
    using fmt_unsigned [OF d(3)] by blast
  have "fmt_text (bytes '' messages dropped **'' @ [10]) [] = Some (bytes '' messages dropped **'' @ [10])" using fmt_plain [OF p(5), of "[]" "[]"] by simp
  then show "\<exists>t. fmt_text drop_format [Reg a] = Some t" unfolding h(3) fmt_plain [OF p(4)] t3 by simp
qed

lemma level_tag_puts: "takeWhile (\<lambda>c. c \<noteq> 0) (bytes (level_tag n)) = bytes (level_tag n)"
proof -
  have "\<forall>c \<in> set (bytes ''EMERG:  ''). c \<noteq> 0" "\<forall>c \<in> set (bytes ''ALERT:  ''). c \<noteq> 0" "\<forall>c \<in> set (bytes ''CRIT:  ''). c \<noteq> 0"
    "\<forall>c \<in> set (bytes ''ERROR:  ''). c \<noteq> 0" "\<forall>c \<in> set (bytes ''WARNING:  ''). c \<noteq> 0" "\<forall>c \<in> set (bytes []). c \<noteq> 0" by code_simp+
  then have "\<forall>c \<in> set (bytes (level_tag n)). c \<noteq> 0" unfolding level_tag_def by presburger
  then show ?thesis by (simp add: takeWhile_eq_all_conv)
qed

lemma console_render_shows:
  assumes "length txt = unat (d_len d)"
  shows "console_render d txt s = Inr (s\<lparr>cn_out := cn_out s @ rec_text (cn_cntfrq s) (to_rec d txt)\<rparr>)"
proof -
  let ?f = "cn_cntfrq s"
  let ?ap = "[Reg (d_ts d div ?f), Reg ((d_ts d mod ?f) * USEC_PER_SEC div ?f)]"
  obtain t where t: "fmt_text hdr_format ?ap = Some t" using console_formats(1) by blast
  obtain n buf where "vsnprintf (replicate 32 0) hdr_format ?ap = Inr (n, buf)" "takeWhile (\<lambda>c. c \<noteq> 0) buf = shown 32 (Some t)"
    using vsnprintf_shown [OF t, of 31] by auto
  then show ?thesis using assms t
    by (simp add: console_render_def Let_def rec_text_def to_rec_def console_puts_def fold_putc level_tag_puts flip: hdr_format_def)
qed

lemma console_dropped_shows: "console_dropped n s = Inr (s\<lparr>cn_out := cn_out s @ dropped_text n\<rparr>)"
proof -
  obtain t where t: "fmt_text drop_format [Reg n] = Some t" using console_formats(2) by blast
  obtain k buf where "vsnprintf (replicate 64 0) drop_format [Reg n] = Inr (k, buf)" "takeWhile (\<lambda>c. c \<noteq> 0) buf = shown 64 (Some t)"
    using vsnprintf_shown [OF t, of 63] by auto
  then show ?thesis using t by (simp add: console_dropped_def dropped_text_def console_puts_def fold_putc flip: drop_format_def)
qed

text \<open>Reading the record number \<open>i\<close> of the log.\<close>

lemma unat_first_seq: "kmsg_inv k \<Longrightarrow> unat (kmsg_first_seq k) = unat (next_seq k) - unat (ndesc k)"
proof -
  assume inv: "kmsg_inv k"
  show ?thesis
  proof (cases "ndesc k = 0")
    case False
    then have n: "0 < unat (ndesc k)" by (simp add: unat_gt_0)
    have "live k ! 0 = desc k ! unat (dtail k)" using n inv by (simp add: live_def kmsg_inv_def)
    then have "unat (d_seq (desc k ! unat (dtail k))) = unat (next_seq k) - unat (ndesc k)"
      using kabs_nth(1,2) [OF inv n] by (simp add: to_rec_def)
    then show ?thesis using False by (simp add: kmsg_first_seq_def)
  qed (simp add: kmsg_first_seq_def)
qed

lemma kmsg_read_nth:
  assumes inv: "kmsg_inv k" and i: "i < unat (ndesc k)" and seq: "unat seq = unat (kmsg_first_seq k) + i"
  shows "kmsg_read seq k = None \<longleftrightarrow> \<not> k_final (kabs k ! i)"
    "kmsg_read seq k = Some (d, t) \<Longrightarrow> to_rec d t = kabs k ! i \<and> length t = unat (d_len d)"
proof -
  have nth: "unat (k_seq (kabs k ! j)) = unat (kmsg_first_seq k) + j" if "j < unat (ndesc k)" for j
    using kabs_nth(2) [OF inv that] unat_first_seq [OF inv] by simp
  have eq: "k_seq (kabs k ! j) = seq \<longleftrightarrow> j = i" if "j < unat (ndesc k)" for j
    using nth [OF that] seq by (simp add: word_unat_eq_iff)
  have f: "find (\<lambda>r. k_seq r = seq \<and> k_final r) (kabs k) = (if k_final (kabs k ! i) then Some (kabs k ! i) else None)"
  proof (cases "k_final (kabs k ! i)")
    case True
    have "find (\<lambda>r. k_seq r = seq \<and> k_final r) (kabs k) = Some (kabs k ! i)"
    proof (rule find_nth)
      show "k_seq (kabs k ! i) = seq \<and> k_final (kabs k ! i)" using eq [OF i] True by blast
      show "j = i" if "j < length (kabs k)" "k_seq (kabs k ! j) = seq \<and> k_final (kabs k ! j)" for j using eq [of j] that by (metis length_kabs)
    qed (use i in simp)
    then show ?thesis using True by simp
  next
    case False
    have "\<not> (k_seq x = seq \<and> k_final x)" if x: "x \<in> set (kabs k)" for x
    proof -
      obtain j where j: "j < unat (ndesc k)" "x = kabs k ! j" using x unfolding in_set_conv_nth length_kabs by blast
      then show ?thesis using eq [OF j(1)] False by blast
    qed
    then show ?thesis using False by (simp add: find_None_iff)
  qed
  note r = read_find [OF inv, of seq, unfolded f]
  show "kmsg_read seq k = None \<longleftrightarrow> \<not> k_final (kabs k ! i)" using r by (cases "kmsg_read seq k") (auto split: if_splits)
  show "to_rec d t = kabs k ! i \<and> length t = unat (d_len d)" if m: "kmsg_read seq k = Some (d, t)"
  proof
    show "to_rec d t = kabs k ! i" using r m by (simp split: if_splits)
    show "length t = unat (d_len d)" using m unfolding kmsg_read_def Let_def by (auto split: if_splits)
  qed
qed

text \<open>The records the drain shows from record number \<open>i\<close> on, when it may show \<open>n\<close>.\<close>

definition ready :: "nat \<Rightarrow> nat \<Rightarrow> klog \<Rightarrow> klog" where
  "ready i n l = takeWhile k_final (take n (drop i l))"

lemma drain_shows:
  assumes "kmsg_inv (cn_log s)" "unat (cn_seq s) = unat (kmsg_first_seq (cn_log s)) + i" "unat fin = unat (cn_seq s) + n" "i + n \<le> unat (ndesc (cn_log s))"
  shows "console_drain fin s = Inr (s\<lparr>cn_out := cn_out s @ concat (map (rec_text (cn_cntfrq s)) (ready i n (kabs (cn_log s)))),
     cn_seq := cn_seq s + of_nat (length (ready i n (kabs (cn_log s))))\<rparr>)"
  using assms
proof (induction n arbitrary: i s)
  case 0
  then have "\<not> cn_seq s < fin" by (simp add: word_less_nat_alt)
  then show ?case by (subst console_drain.simps) (simp add: ready_def)
next
  case (Suc n)
  let ?l = "kabs (cn_log s)" and ?f = "cn_cntfrq s"
  have lt: "cn_seq s < fin" using Suc.prems(3) by (simp add: word_less_nat_alt)
  have i: "i < unat (ndesc (cn_log s))" using Suc.prems(4) by simp
  have il: "i < length ?l" using i by simp
  have rd: "ready i (Suc n) ?l = (if k_final (?l ! i) then ?l ! i # ready (Suc i) n ?l else [])"
    using il by (simp add: ready_def Cons_nth_drop_Suc [symmetric])
  note kr = kmsg_read_nth [OF Suc.prems(1) i Suc.prems(2)]
  show ?case
  proof (cases "kmsg_read (cn_seq s) (cn_log s)")
    case None
    have "\<not> cn_seq s < kmsg_first_seq (cn_log s)" using Suc.prems(2) by (simp add: word_less_nat_alt)
    then show ?thesis using lt None kr(1) rd by (subst console_drain.simps) (simp add: Let_def)
  next
    case (Some r)
    obtain d t where r: "r = (d, t)" by (cases r)
    have fin: "k_final (?l ! i)" using kr(1) Some by simp
    have rec: "to_rec d t = ?l ! i" "length t = unat (d_len d)" using kr(2) Some r by blast+
    let ?s1 = "s\<lparr>cn_out := cn_out s @ rec_text ?f (?l ! i), cn_seq := cn_seq s + 1\<rparr>"
    have run: "console_drain fin s = console_drain fin ?s1"
      using lt Some r console_render_shows [OF rec(2), of s] rec(1) by (subst console_drain.simps) simp
    have u: "unat (cn_seq s + 1) = unat (cn_seq s) + 1" by (rule unat_inc_less [OF lt])
    have "console_drain fin ?s1 = Inr (?s1\<lparr>cn_out := cn_out ?s1 @ concat (map (rec_text ?f) (ready (Suc i) n ?l)), cn_seq := cn_seq ?s1 + of_nat (length (ready (Suc i) n ?l))\<rparr>)"
      using Suc.IH [of ?s1 "Suc i"] Suc.prems u by simp
    then show ?thesis unfolding run rd using fin by (simp add: algebra_simps)
  qed
qed

text \<open>The port shows the log. \<open>console_drain\<close> up to the newest record says how many records were lost since the
  last one it showed, if any were, then shows every record that is still held and closed, once and in order,
  each with its time and severity, stops at the first open one, and remembers where it stopped.\<close>

theorem console_drain_shows:
  fixes s :: "'a cons_io_scheme"
  assumes inv: "kmsg_inv (cn_log s)" and seq: "cn_seq s \<le> next_seq (cn_log s)"
  defines "first \<equiv> kmsg_first_seq (cn_log s)"
  defines "start \<equiv> max (cn_seq s) first"
  defines "rs \<equiv> takeWhile k_final (drop (unat start - unat first) (kabs (cn_log s)))"
  shows "console_drain (kmsg_next_seq (cn_log s)) s = Inr (s\<lparr>
      cn_out := cn_out s @ (if cn_seq s < first then dropped_text (first - cn_seq s) else []) @ concat (map (rec_text (cn_cntfrq s)) rs),
      cn_seq := start + of_nat (length rs)\<rparr>)"
proof -
  let ?l = "cn_log s" and ?N = "unat (next_seq (cn_log s))" and ?n = "unat (ndesc (cn_log s))"
  have f: "unat first = ?N - ?n" "?n \<le> ?N" using unat_first_seq [OF inv] inv by (simp_all add: first_def kmsg_inv_def)
  have st: "unat first \<le> unat start" "unat start \<le> ?N"
    using seq f by (simp_all add: start_def max_def word_le_nat_alt)
  define s0 where "s0 = (if cn_seq s < first then s\<lparr>cn_out := cn_out s @ dropped_text (first - cn_seq s), cn_seq := first\<rparr> else s)"
  have s0: "cn_log s0 = ?l" "cn_seq s0 = start" "cn_cntfrq s0 = cn_cntfrq s"
    by (auto simp: s0_def start_def max_def not_less)
  have "console_drain (next_seq ?l) s = console_drain (next_seq ?l) s0"
  proof (cases "cn_seq s < first")
    case True
    then have r: "kmsg_read (cn_seq s) ?l = None" by (auto simp: kmsg_read_def first_def kmsg_first_seq_def Let_def split: if_splits)
    have "cn_seq s < next_seq ?l" using True f by (simp add: word_less_nat_alt)
    then show ?thesis using True r console_dropped_shows [of "first - cn_seq s" s]
      by (subst console_drain.simps) (simp add: Let_def s0_def first_def [symmetric])
  qed (simp add: s0_def)
  also have "\<dots> = Inr (s0\<lparr>cn_out := cn_out s0 @ concat (map (rec_text (cn_cntfrq s0)) (ready (unat start - unat first) (?N - unat start) (kabs (cn_log s0)))),
     cn_seq := cn_seq s0 + of_nat (length (ready (unat start - unat first) (?N - unat start) (kabs (cn_log s0))))\<rparr>)"
    by (rule drain_shows) (use inv st f s0 in \<open>simp_all add: first_def [symmetric]\<close>)
  also have "ready (unat start - unat first) (?N - unat start) (kabs (cn_log s0)) = rs"
    using f st by (simp add: ready_def rs_def s0)
  finally show ?thesis unfolding kmsg_next_seq_def s0 by (simp add: s0_def)
qed

section \<open>The line discipline\<close>

text \<open>C11: the console is a line editor. With the indices in order every character is processed without a
  panic, keeps them in order, and does to the completed lines and the line being edited what \<open>edit_char\<close> says
  (erase a character or the line, append, complete on newline, end of file or a full buffer, refuse when
  full), echoing \<open>echo_of\<close>; and a reader takes from the completed lines what \<open>line_of\<close> says, leaving the
  line being edited alone.\<close>

theorem console_line_discipline:
  assumes "cons_ok s" "good {cons_lock} s"
  shows "(\<exists>s'. console_char c s = Some (Inr s') \<and> good {cons_lock} s' \<and> cons_ok s' \<and>
      (lines s', editing s') = edit_char c (lines s, editing s) \<and> cn_out s' = cn_out s @ echo_of c (lines s, editing s)) \<and>
    (\<exists>s'. take_line [] n s = (fst (line_of [] n (lines s)), s') \<and> cons_ok s' \<and>
      lines s' = snd (line_of [] n (lines s)) \<and> editing s' = editing s)"
proof
  show "\<exists>s'. console_char c s = Some (Inr s') \<and> good {cons_lock} s' \<and> cons_ok s' \<and>
      (lines s', editing s') = edit_char c (lines s, editing s) \<and> cn_out s' = cn_out s @ echo_of c (lines s, editing s)"
    using console_char_ok [OF assms(2) _ _ _ _ assms(1), of c] by auto
  show "\<exists>s'. take_line [] n s = (fst (line_of [] n (lines s)), s') \<and> cons_ok s' \<and>
      lines s' = snd (line_of [] n (lines s)) \<and> editing s' = editing s"
    using take_line_refines [OF assms(1), of "[]" n] by blast
qed

text \<open>Plain characters: neither control characters nor rub-out.\<close>

definition plain :: "uint8 \<Rightarrow> bool" where
  "plain c \<longleftrightarrow> 32 \<le> c \<and> c < 127"

lemma plain_cases: "plain c \<Longrightarrow> c \<noteq> CTRL_U \<and> c \<noteq> CTRL_H \<and> c \<noteq> CTRL_D \<and> c \<noteq> 0x7F \<and> c \<noteq> 0 \<and> c \<noteq> 13 \<and> c \<noteq> 10"
  by (auto simp: plain_def CTRL_def)

lemma rx_plain: "console_rx_error (ucast (c :: uint8)) = 0" "(ucast c :: uint32) AND UART_DR_OE = 0" "ucast ((ucast c :: uint32) AND UART_DR_DATA) = c"
proof -
  have "(ucast c :: uint32) AND push_bit k 1 = 0" if "8 \<le> k" for k
    using that by (intro bit_word_eqI) (auto simp: bit_and_iff bit_ucast_iff bit_push_bit_iff bit_1_iff dest: bit_imp_le_length)
  then show "console_rx_error (ucast c) = 0" "(ucast c :: uint32) AND UART_DR_OE = 0"
    by (simp_all add: console_rx_error_def UART_DR_BE_def UART_DR_PE_def UART_DR_FE_def UART_DR_OE_def del: push_bit_of_1)
  have m: "UART_DR_DATA = mask 8" by (simp add: mask_eq_exp_minus_1 UART_DR_DATA_def)
  show "ucast ((ucast c :: uint32) AND UART_DR_DATA) = c"
    unfolding m by (rule bit_word_eqI) (simp only: bit_and_iff bit_ucast_iff bit_mask_iff, auto)
qed

lemma getc_cons: "cn_rx s = ucast (c :: uint8) # xs \<Longrightarrow> uart_getc s = (uint c, s\<lparr>cn_rx := xs\<rparr>)"
proof -
  have b: "0 \<le> uint c" "uint c < 256" using unsigned_less [of c, where 'a = int] by simp_all
  then have "signed_take_bit 31 (uint c) = uint c" 
  proof (intro signed_take_bit_int_eq_self)
    have "(- (2 ^ 31) :: int) = - 2147483648" "(2 :: int) ^ 31 = 2147483648" by simp_all
    then show "- (2 ^ 31) \<le> uint c" "uint c < 2 ^ 31" using b by linarith+
  qed
  then have "sint (ucast c :: uint32) = uint c"
    using b by (simp add: sint_uint unsigned_ucast_eq take_bit_int_eq_self)
  then show "cn_rx s = ucast (c :: uint8) # xs \<Longrightarrow> uart_getc s = (uint c, s\<lparr>cn_rx := xs\<rparr>)" by (simp add: uart_getc_def)
qed

lemma intr_plain:
  assumes "good {cons_lock} s" "cons_ok s" "cn_rx s = map ucast str @ rest" "\<forall>c \<in> set str. plain c"
    "length (lines s) + length (editing s) + length str < 128" "length str \<le> n"
  shows "\<exists>s'. intr_loop n s = intr_loop (n - length str) s' \<and> good {cons_lock} s' \<and> cons_ok s' \<and> lines s' = lines s \<and>
    editing s' = editing s @ str \<and> cn_rx s' = rest \<and> cn_out s' = cn_out s @ str"
  using assms
proof (induction str arbitrary: s n)
  case (Cons c str)
  obtain m where n: "n = Suc m" using Cons.prems(6) by (cases n) auto
  let ?s = "s\<lparr>cn_rx := map ucast str @ rest\<rparr>"
  have rv: "cons_ok ?s" "lines ?s = lines s" "editing ?s = editing s" using Cons.prems(2) by (simp_all add: cons_ok_def lines_def editing_def win_def cn_char_def)
  have pc: "c \<noteq> CTRL_U" "c \<noteq> CTRL_H" "c \<noteq> CTRL_D" "c \<noteq> 0x7F" "c \<noteq> 0" "c \<noteq> 13" "c \<noteq> 10" using plain_cases [of c] Cons.prems(4) by auto
  have ed: "edit_char c (lines s, editing s) = (lines s, editing s @ [c])" using pc Cons.prems(5) by (simp add: edit_char_def Let_def)
  have ec: "echo_of c (lines s, editing s) = [c]" using pc Cons.prems(5) by (simp add: echo_of_def)
  have "good {cons_lock} ?s" using Cons.prems(1) by simp
  then obtain s1 where s1: "console_char c ?s = Some (Inr s1)" "good {cons_lock} s1" "cons_ok s1" "(lines s1, editing s1) = edit_char c (lines ?s, editing ?s)"
    "cn_out s1 = cn_out ?s @ echo_of c (lines ?s, editing ?s)" "cn_rx s1 = cn_rx ?s"
    using console_char_ok [of ?s "{cons_lock}" c, OF _ _ _ _ _ rv(1)] by auto
  have s1': "lines s1 = lines s" "editing s1 = editing s @ [c]" "cn_out s1 = cn_out s @ [c]" "cn_rx s1 = map ucast str @ rest"
    using s1(4-6) ed ec rv(2,3) by simp_all
  have step: "intr_loop n s = intr_loop m s1"
    using getc_cons [of s c "map ucast str @ rest"] Cons.prems(3) s1(1) rx_plain [of c] by (simp add: n Let_def tret_def del: intr_loop.simps(1))
  obtain s' where "intr_loop m s1 = intr_loop (m - length str) s'" "good {cons_lock} s'" "cons_ok s'" "lines s' = lines s1" "editing s' = editing s1 @ str"
    "cn_rx s' = rest" "cn_out s' = cn_out s1 @ str"
    using Cons.IH [OF s1(2,3) s1'(4), of m] Cons.prems(4-6) s1'(1,2) n by auto
  then show ?case using step s1' n by auto
qed auto

lemma line_of_plain: "\<forall>c \<in> set str. plain c \<Longrightarrow> length str < n \<Longrightarrow> line_of got n (str @ 10 # q) = (Line (got @ str @ [10]), q)"
proof (induction str arbitrary: got n)
  case Nil
  then show ?case by (cases n) (auto simp: CTRL_def)
next
  case (Cons c str)
  then obtain m where "n = Suc m" by (cases n) auto
  then show ?case using Cons plain_cases [of c] by simp
qed

lemma intr_line:
  assumes "good {} s" "cons_ok s" "lines s = []" "editing s = []" "cn_rx s = map ucast (str @ [13])" "\<forall>c \<in> set str. plain c"
    "length str < 127"
  shows "\<exists>d. console_intr s = Some (Inr d) \<and> good {} d \<and> cons_ok d \<and> lines d = str @ [10] \<and> editing d = [] \<and> cn_out d = cn_out s @ str @ [10]"
proof -
  obtain a where a: "acquire cons_lock s = Some (Inr a)" "lockeq {cons_lock} s a" using acquire_lockeq [OF assms(1)] by blast
  have av: "ring a = ring s" "cn_out a = cn_out s" using lockeq_ring [OF a(2)] by simp_all
  note va = ring_view [OF av(1)]
  obtain b where b: "intr_loop CONSOLE_DRAIN_MAX a = intr_loop (CONSOLE_DRAIN_MAX - length str) b" "good {cons_lock} b" "cons_ok b" "lines b = []"
    "editing b = str" "cn_rx b = [13]" "cn_out b = cn_out s @ str"
    using intr_plain [of a str "[13]" CONSOLE_DRAIN_MAX] lockeqD(1) [OF a(2)] va av(2) assms by (auto simp: CONSOLE_DRAIN_MAX_def)
  let ?b = "b\<lparr>cn_rx := []\<rparr>"
  have vb: "cons_ok ?b" "lines ?b = []" "editing ?b = str" using b(3-5) by (simp_all add: cons_ok_def lines_def editing_def win_def cn_char_def)
  have "good {cons_lock} ?b" using b(2) by simp
  then obtain c where c: "console_char 13 ?b = Some (Inr c)" "good {cons_lock} c" "cons_ok c" "(lines c, editing c) = edit_char 13 ([], str)"
    "cn_out c = cn_out b @ echo_of 13 ([], str)" "cn_rx c = []"
    using console_char_ok [of ?b "{cons_lock}" 13, OF _ _ _ _ _ vb(1)] vb(2,3) by auto
  have cl: "lines c = str @ [10]" "editing c = []" "cn_out c = cn_out s @ str @ [10]"
    using c(4,5) b(7) assms(7) by (simp_all add: edit_char_def echo_of_def CTRL_def)
  obtain m where m: "CONSOLE_DRAIN_MAX - length str = Suc (Suc m)"
  proof -
    have "2 \<le> CONSOLE_DRAIN_MAX - length str" using assms(7) by (simp add: CONSOLE_DRAIN_MAX_def)
    then show thesis using that [of "CONSOLE_DRAIN_MAX - length str - 2"] by simp
  qed
  have "intr_loop (Suc (Suc m)) b = Some (Inr c)"
    using getc_cons [of b 13 "[]"] b(6) c(1,6) rx_plain [of 13] by (simp add: Let_def uart_getc_def tret_def)
  then have loop: "intr_loop CONSOLE_DRAIN_MAX a = Some (Inr c)" using b(1) m by simp
  obtain d where d: "release cons_lock c = Some (Inr d)" "lockeq {} c d" using release_lockeq [OF c(2), of cons_lock] by auto
  note vd = ring_view [OF conjunct1 [OF lockeq_ring [OF d(2)]]]
  have intr: "console_intr s = Some (Inr d)" using a(1) loop d(1) by (simp add: console_intr_def)
  show ?thesis using intr lockeqD(1) [OF d(2)] vd c(3) cl lockeq_ring [OF d(2)] by auto
qed

lemma read_line:
  fixes d :: "'a cons_io_scheme"
  assumes "good {} d" "cons_ok d" "lines d = str @ [10]" "editing d = []" "\<forall>c \<in> set str. plain c" "length str < n"
  shows "\<exists>g. console_read n d = Some (Inr (ReadBytes (str @ [10]), g)) \<and> good {} g \<and> cons_ok g \<and> lines g = [] \<and> editing g = []"
proof -
  obtain e where e: "acquire cons_lock d = Some (Inr e)" "lockeq {cons_lock} d e" using acquire_lockeq [OF assms(1)] by blast
  note ve = ring_view [OF conjunct1 [OF lockeq_ring [OF e(2)]]]
  have ok: "cons_ok e" "lines e = str @ [10]" "editing e = []" using ve assms(2-4) by simp_all
  define f where "f = snd (take_line [] n e)"
  have tl: "take_line [] n e = (Line (str @ [10]), f)" "cons_ok f" "lines f = []" "editing f = []"
    using take_line_refines [OF ok(1), of "[]" n] line_of_plain [OF assms(5,6), of "[]" "[]"] ok(2,3) by (auto simp: f_def prod_eq_iff)
  have gf: "good {cons_lock} f"
  proof -
    have "pr_locks (snd (take_line got k x)) = pr_locks x \<and> sl_cpu (snd (take_line got k x)) = sl_cpu x" for got k and x :: "'a cons_io_scheme"
      by (induction k arbitrary: got x) (auto simp: Let_def)
    then show ?thesis using lockeqD(1) [OF e(2)] by (simp add: f_def)
  qed
  obtain g where g: "release cons_lock f = Some (Inr g)" "lockeq {} f g" using release_lockeq [OF gf, of cons_lock] by auto
  note vg = ring_view [OF conjunct1 [OF lockeq_ring [OF g(2)]]]
  have "console_read n d = Some (Inr (ReadBytes (str @ [10]), g))" using e(1) tl(1) g(1) by (simp add: console_read_def read_turn_def tret_def)
  then show ?thesis using lockeqD(1) [OF g(2)] vg tl(2-4) by auto
qed

text \<open>C30: what is typed is what is read. From an idle console, when a line of plain characters and a carriage
  return arrive, the interrupt echoes the line and completes it, and a reader that asks for enough bytes gets
  exactly the line and its newline, without sleeping.\<close>

theorem typed_line_is_read:
  assumes "good {} s" "cons_ok s" "lines s = []" "editing s = []" "cn_rx s = map ucast (str @ [13])" "\<forall>c \<in> set str. plain c"
    "length str < 127" "length str < n"
  shows "\<exists>s1 s2. console_intr s = Some (Inr s1) \<and> cn_out s1 = cn_out s @ str @ [10] \<and>
    console_read n s1 = Some (Inr (ReadBytes (str @ [10]), s2)) \<and> good {} s2 \<and> cons_ok s2 \<and> lines s2 = [] \<and> editing s2 = []"
  using intr_line [OF assms(1-7)] read_line [OF _ _ _ _ assms(6,8)] by metis

section \<open>Instances\<close>

definition demo_cons :: cons_io where
  "demo_cons = procs.extend demo_procs (cons_io.fields (replicate 128 0) 0 0 0 \<lparr>overrun = 0, brk = 0, parity = 0, frame = 0\<rparr> 0 kmsg_init [] [0x68, 0x69, 13] 0 0)"

lemma demo_cons_parts [simp]:
  "cn_buf demo_cons = replicate 128 0" "cn_r demo_cons = 0" "cn_w demo_cons = 0" "cn_e demo_cons = 0" "cn_log demo_cons = kmsg_init" "cn_out demo_cons = []"
  "cn_seq demo_cons = 0" "cn_rx demo_cons = [0x68, 0x69, 13]" "sl_cpu demo_cons = 0" "pr_locks demo_cons = no_locks" "cn_cntfrq demo_cons = 0"
  by (simp_all add: demo_cons_def procs.defs cons_io.defs demo_procs_def kstacks.defs no_stacks_def)

lemma demo_cons_ok: "cons_ok demo_cons" "lines demo_cons = []" "editing demo_cons = []" "good {} demo_cons"
  using no_locks_good by (simp_all add: cons_ok_def lines_def editing_def win_def)

theorem console_drain_shows_witness:
  "\<exists>s'. console_drain (kmsg_next_seq (cn_log demo_cons)) demo_cons = Inr s' \<and> cn_out s' = [] \<and> cn_seq s' = 0"
proof -
  have n: "ndesc kmsg_init = 0" "next_seq kmsg_init = 0" by (simp_all only: kmsg_init_def kmsg.simps)
  then have "kmsg_first_seq kmsg_init = 0" by (simp only: kmsg_first_seq_def if_True simp_thms)
  moreover have "cn_seq demo_cons \<le> next_seq (cn_log demo_cons)" using n by simp
  ultimately show ?thesis using console_drain_shows [of demo_cons] kmsg_inv_init by simp
qed

theorem console_line_discipline_witness:
  "\<exists>a s'. acquire cons_lock demo_cons = Some (Inr a) \<and> console_char 0x68 a = Some (Inr s') \<and> lines s' = [] \<and> editing s' = [0x68] \<and> cn_out s' = [0x68]"
proof -
  obtain a where a: "acquire cons_lock demo_cons = Some (Inr a)" "lockeq {cons_lock} demo_cons a" using acquire_lockeq [OF demo_cons_ok(4)] by blast
  note v = ring_view [OF conjunct1 [OF lockeq_ring [OF a(2)]]]
  obtain s' where "console_char 0x68 a = Some (Inr s')" "(lines s', editing s') = edit_char 0x68 (lines a, editing a)" "cn_out s' = cn_out a @ echo_of 0x68 (lines a, editing a)"
    using console_line_discipline [of a "0x68" 0] lockeqD(1) [OF a(2)] v demo_cons_ok(1) by blast
  then show ?thesis using a(1) v demo_cons_ok(2,3) lockeq_ring [OF a(2)] by (auto simp: edit_char_def echo_of_def CTRL_def)
qed

theorem typed_line_is_read_witness:
  "\<exists>s1 s2. console_intr demo_cons = Some (Inr s1) \<and> cn_out s1 = [0x68, 0x69, 10] \<and> console_read 80 s1 = Some (Inr (ReadBytes [0x68, 0x69, 10], s2))"
proof -
  have "cn_rx demo_cons = map ucast ([0x68, 0x69 :: uint8] @ [13])" by simp
  moreover have "\<forall>c \<in> set [0x68, 0x69]. plain c" by (simp add: plain_def)
  ultimately show ?thesis using typed_line_is_read [of demo_cons "[0x68, 0x69]" 80] demo_cons_ok by auto
qed

end
