(* ===== verification/Access.thy ===== *)
theory Access
  imports ConsoleSpec
begin

text \<open>
  The unprivileged copy loops (\<^verbatim>\<open>arch/copy_user.s\<close>), which the routines of \<^verbatim>\<open>arch/copy.c\<close> take as a parameter, on
  the page tables of the model. \<open>ldtrb\<close> and \<open>sttrb\<close> translate through the table that \<open>TTBR0_EL1\<close> of this CPU
  names and apply the access permissions of user mode; a byte without a translation aborts, and the handler
  of kernel data aborts disarms \<open>onfault\<close> and goes to \<open>_copy_fault\<close>, which returns -1.
\<close>

section \<open>The instructions\<close>

definition PTE_AP_RO :: pte_t where "PTE_AP_RO = push_bit 7 1"

definition ttbr0_table :: "'a procs_scheme \<Rightarrow> uintptr" where
  "ttbr0_table s = PA_TO_KVA (PTE_ADDR (pr_ttbr0 s (sl_cpu s)))"

definition ldtrb :: "uintptr \<Rightarrow> 'a procs_scheme \<Rightarrow> uint8 option" where
  "ldtrb u s =
     (if u < MAXUVA then
        (case uvm_map s (ttbr0_table s) (unat u div 4096) of None \<Rightarrow> None
         | Some e \<Rightarrow> if e AND PTE_AP_RW_ALL \<noteq> 0 then Some (get_byte (vm_page s (pte_child e)) (unat u mod 4096)) else None)
      else None)"

definition sttrb :: "uintptr \<Rightarrow> uint8 \<Rightarrow> 'a procs_scheme \<Rightarrow> 'a procs_scheme option" where
  "sttrb u b s =
     (if u < MAXUVA then
        (case uvm_map s (ttbr0_table s) (unat u div 4096) of None \<Rightarrow> None
         | Some e \<Rightarrow> if e AND PTE_AP_RW_ALL \<noteq> 0 \<and> e AND PTE_AP_RO = 0 then Some (put_bytes (pte_child e) (unat u mod 4096) [b] s) else None)
      else None)"

section \<open>The loops\<close>

fun copyin_loop :: "uintptr \<Rightarrow> nat \<Rightarrow> 'a procs_scheme \<Rightarrow> int \<times> uint8 list" where
  "copyin_loop u 0 s = (0, [])"
| "copyin_loop u (Suc n) s =
     (case ldtrb u s of None \<Rightarrow> (-1, []) | Some b \<Rightarrow> (case copyin_loop (u + 1) n s of (r, bs) \<Rightarrow> (r, b # bs)))"

fun copyout_loop :: "uintptr \<Rightarrow> uint8 list \<Rightarrow> 'a procs_scheme \<Rightarrow> int \<times> 'a procs_scheme" where
  "copyout_loop u [] s = (0, s)"
| "copyout_loop u (b # bs) s = (case sttrb u b s of None \<Rightarrow> (-1, s) | Some s1 \<Rightarrow> copyout_loop (u + 1) bs s1)"

text \<open>With the number of bytes copied so far.\<close>

fun copyinstr_loop :: "uintptr \<Rightarrow> nat \<Rightarrow> nat \<Rightarrow> 'a procs_scheme \<Rightarrow> int \<times> uint8 list" where
  "copyinstr_loop u 0 k s = (-1, [])"
| "copyinstr_loop u (Suc n) k s =
     (case ldtrb u s of None \<Rightarrow> (-1, [])
      | Some b \<Rightarrow> if b = 0 then (int k, [b]) else (case copyinstr_loop (u + 1) n (Suc k) s of (r, bs) \<Rightarrow> (r, b # bs)))"

definition user_access :: "uintptr \<Rightarrow> 'a procs_scheme uaccess" where
  "user_access hdl = \<lparr>copy_fault = hdl,
     copyin_bytes = (\<lambda>u n s. let (r, bs) = copyin_loop u (unat n) s in (r, bs, s)),
     copyout_bytes = copyout_loop,
     copyinstr_bytes = (\<lambda>u n s. let (r, bs) = copyinstr_loop u (unat n) 0 s in (r, bs, s))\<rparr>"

section \<open>What they copy\<close>

definition user_bytes :: "uintptr \<Rightarrow> nat \<Rightarrow> 'a procs_scheme \<Rightarrow> uint8 list" where
  "user_bytes u n s = map (\<lambda>i. the (ldtrb (u + of_nat i) s)) [0..<n]"

definition readable :: "uintptr \<Rightarrow> nat \<Rightarrow> 'a procs_scheme \<Rightarrow> bool" where
  "readable u n s \<longleftrightarrow> (\<forall>i < n. ldtrb (u + of_nat i) s \<noteq> None)"

lemma ldtrb_cong:
  assumes "pr_ttbr0 s' = pr_ttbr0 s" "sl_cpu s' = sl_cpu s" "vm_page s' = vm_page s"
  shows "ldtrb u s' = ldtrb u s"
  by (simp only: ldtrb_def ttbr0_table_def uvm_map_def assms)

lemma ldtrb_onfault [simp]: "ldtrb u (upd_proc p f s) = ldtrb u s"
  by (rule ldtrb_cong) (simp_all add: upd_proc_def)

lemma ldtrb_below: "ldtrb u s \<noteq> None \<Longrightarrow> unat u < 2 ^ 48"
  by (auto simp: ldtrb_def word_less_nat_alt MAXUVA_def split: if_splits)

lemma less_Suc_cases: "(\<forall>i < Suc n. P i) \<longleftrightarrow> P 0 \<and> (\<forall>i < n. P (Suc i))"
  by (metis Suc_less_eq less_Suc_eq_0_disj not0_implies_Suc)

lemma copyin_loop_ok:
  "if readable u n s then copyin_loop u n s = (0, user_bytes u n s) else fst (copyin_loop u n s) = -1"
proof (induction n arbitrary: u)
  case (Suc n)
  have r: "readable u (Suc n) s \<longleftrightarrow> ldtrb u s \<noteq> None \<and> readable (u + 1) n s"
    unfolding readable_def less_Suc_cases by (simp add: algebra_simps)
  have b: "user_bytes u (Suc n) s = the (ldtrb u s) # user_bytes (u + 1) n s"
    by (simp add: user_bytes_def upt_conv_Cons map_Suc_upt [symmetric] comp_def algebra_simps del: upt_Suc)
  show ?case using Suc.IH [of "u + 1"] unfolding r b by (cases "ldtrb u s") (auto split: prod.splits if_splits)
qed (simp add: readable_def user_bytes_def)

text \<open>A range that user mode can read lies below \<open>2 ^ 48\<close>, so the range check lets it through.\<close>

lemma readable_range:
  assumes "readable u (unat len) s" "0 < len"
  shows "user_range_ok u len"
proof -
  have l: "0 < unat len" using assms(2) by (simp add: word_less_nat_alt)
  have "ldtrb (u + of_nat 0) s \<noteq> None" using assms(1) l unfolding readable_def by blast
  then have ub: "unat u < 2 ^ 48" using ldtrb_below [of u s] by simp
  have "unat u + unat len \<le> 2 ^ 48"
  proof (rule ccontr)
    assume c: "\<not> unat u + unat len \<le> 2 ^ 48"
    let ?i = "2 ^ 48 - unat u"
    have i: "?i < unat len" using c ub by linarith
    have "unat (of_nat ?i :: uint64) = ?i" using ub by (intro unat_of_nat_small) simp
    then have "unat (u + of_nat ?i) = 2 ^ 48" using ub by (subst unat_add_no_wrap) simp_all
    moreover have "ldtrb (u + of_nat ?i) s \<noteq> None" using assms(1) i unfolding readable_def by blast
    ultimately show False using ldtrb_below [of "u + of_nat ?i" s] by simp
  qed
  then show ?thesis using user_range_iff [OF assms(2)] by blast
qed

lemma disarm_idem: "myproc s = Some p \<Longrightarrow> disarmed s \<Longrightarrow> upd_proc p (\<lambda>q. q\<lparr>p_onfault := 0\<rparr>) (upd_proc p (\<lambda>q. q\<lparr>p_onfault := h\<rparr>) s) = s"
  by (cases s) (simp add: upd_proc_def disarmed_def fun_upd_idem)

lemma copyin_user:
  assumes "myproc s = Some p" "disarmed s" "0 < len"
  shows "\<exists>bs. copyin (user_access h) u len s = Inr (if readable u (unat len) s then (0, user_bytes u (unat len) s) else (-1, bs), s)"
proof -
  let ?a = "upd_proc p (\<lambda>q. q\<lparr>p_onfault := h\<rparr>) s"
  have r: "readable u n ?a = readable u n s" "user_bytes u n ?a = user_bytes u n s" for n by (simp_all add: readable_def user_bytes_def)
  note c = copyin_loop_ok [of u "unat len" ?a, unfolded r]
  show ?thesis
  proof (cases "user_range_ok u len")
    case True
    then show ?thesis using c assms(1,3) disarm_idem [OF assms(1,2)]
      by (cases "copyin_loop u (unat len) ?a") (auto simp: copyin_def with_onfault_def user_access_def Let_def)
  next
    case False
    then show ?thesis using readable_range [OF _ assms(3)] assms(3) by (auto simp: copyin_def)
  qed
qed

end
