(* ===== verification/Printk.thy ===== *)
theory Printk
  imports Access
begin

text \<open>
  \<open>printk\<close> (\<^verbatim>\<open>kern/printk.c\<close>) never fails: with arguments of the kinds its format asks for it returns from every
  state in which the caller may take the output lock, and it changes nothing but the log, what the port has
  shown and how far the log is shown.
\<close>

definition printk :: "uint8 list \<Rightarrow> vararg list \<Rightarrow> 'a cons_io_scheme \<Rightarrow> 'a cons_io_scheme res option" where
  "printk fmt ap = vprintk KERN_INFO fmt ap"

section \<open>Formats\<close>

text \<open>Whether a format fits its arguments depends on their kinds only.\<close>

fun same_kind :: "vararg \<Rightarrow> vararg \<Rightarrow> bool" where
  "same_kind (Reg _) (Reg _) = True"
| "same_kind (Str _) (Str _) = True"
| "same_kind _ _ = False"

lemma conv_kind:
  assumes "list_all2 same_kind ap ap'"
  shows "(conv_text c spec ap = None \<and> conv_text c spec ap' = None) \<or>
    (\<exists>t t' r r'. conv_text c spec ap = Some (t, r) \<and> conv_text c spec ap' = Some (t', r') \<and> list_all2 same_kind r r')"
proof (cases ap)
  case Nil
  then show ?thesis using assms by (auto simp: conv_text_def)
next
  case (Cons a as)
  then obtain b bs where b: "ap' = b # bs" "same_kind a b" "list_all2 same_kind as bs" using assms by (auto simp: list_all2_Cons1)
  then show ?thesis using Cons by (cases a; cases b) (auto simp: conv_text_def)
qed

lemma fmt_kind:
  assumes "list_all2 same_kind ap ap'" "fmt_text f ap \<noteq> None"
  shows "fmt_text f ap' \<noteq> None"
  using assms
proof (induction f ap arbitrary: ap' rule: fmt_text.induct)
  case (2 c f ap)
  show ?case
  proof (cases "c = ch CHR ''%''")
    case False
    then show ?thesis using "2.IH"(1) [OF False "2.prems"(1)] "2.prems"(2) by auto
  next
    case True
    then obtain k f' spec where d: "decode f = (k # f', spec)" using "2.prems"(2) by (auto split: prod.splits list.splits)
    then obtain t r where t: "conv_text k spec ap = Some (t, r)" "fmt_text f' r \<noteq> None" using "2.prems"(2) True by (auto split: option.splits)
    then obtain t' r' where t': "conv_text k spec ap' = Some (t', r')" "list_all2 same_kind r r'" using conv_kind [OF "2.prems"(1), of k spec] by auto
    have "fmt_text f' r' \<noteq> None" using "2.IH"(2) True d t t'(2) by auto
    then show ?thesis using True d t'(1) by auto
  qed
qed simp

lemma fmt_fits: "fmt_text f ap = Some t \<Longrightarrow> list_all2 same_kind ap ap' \<Longrightarrow> \<exists>t'. fmt_text f ap' = Some t'"
  using fmt_kind [of ap ap' f] by auto

section \<open>Logging\<close>

lemma drain_total: "\<exists>t q. console_drain fin s = Inr (s\<lparr>cn_out := cn_out s @ t, cn_seq := q\<rparr>)"
proof (induction fin s rule: console_drain.induct)
  case (1 fin s)
  show ?case
  proof (cases "cn_seq s < fin")
    case False
    then show ?thesis by (subst console_drain.simps) (intro exI [of _ "[]"] exI [of _ "cn_seq s"], simp)
  next
    case lt: True
    show ?thesis
    proof (cases "kmsg_read (cn_seq s) (cn_log s)")
      case None
      let ?first = "kmsg_first_seq (cn_log s)"
      show ?thesis
      proof (cases "cn_seq s < ?first")
        case True
        let ?s1 = "s\<lparr>cn_out := cn_out s @ dropped_text (?first - cn_seq s)\<rparr>"
        obtain t q where "console_drain fin (?s1\<lparr>cn_seq := ?first\<rparr>) = Inr (?s1\<lparr>cn_seq := ?first\<rparr>\<lparr>cn_out := cn_out (?s1\<lparr>cn_seq := ?first\<rparr>) @ t, cn_seq := q\<rparr>)"
          using "1.IH"(1) [OF lt None refl True console_dropped_shows] by blast
        then show ?thesis using lt None True console_dropped_shows [of "?first - cn_seq s" s]
          by (subst console_drain.simps) (intro exI [of _ "dropped_text (?first - cn_seq s) @ t"] exI [of _ q], simp add: Let_def)
      next
        case False
        then show ?thesis using lt None by (subst console_drain.simps) (intro exI [of _ "[]"] exI [of _ "cn_seq s"], simp add: Let_def)
      qed
    next
      case (Some r)
      have "length (snd r) = unat (d_len (fst r))" using Some unfolding kmsg_read_def Let_def by (auto split: if_splits)
      note rn = console_render_shows [OF this, of s]
      let ?t0 = "rec_text (cn_cntfrq s) (to_rec (fst r) (snd r))"
      let ?s1 = "s\<lparr>cn_out := cn_out s @ ?t0\<rparr>"
      obtain t q where "console_drain fin (?s1\<lparr>cn_seq := cn_seq ?s1 + 1\<rparr>) = Inr (?s1\<lparr>cn_seq := cn_seq ?s1 + 1\<rparr>\<lparr>cn_out := cn_out (?s1\<lparr>cn_seq := cn_seq ?s1 + 1\<rparr>) @ t, cn_seq := q\<rparr>)"
        using "1.IH"(2) [OF lt Some rn] by blast
      then show ?thesis using lt Some rn
        by (subst console_drain.simps) (intro exI [of _ "?t0 @ t"] exI [of _ q], simp)
    qed
  qed
qed

lemma flush_upto_ok:
  fixes s :: "'a cons_io_scheme"
  assumes "good H s" "cons_out_lock \<notin> H"
  shows "\<exists>t q s'. console_flush_upto seq s = Some (Inr s') \<and> lockeq H (s\<lparr>cn_out := cn_out s @ t, cn_seq := q\<rparr>) s'"
proof (cases "seq = KMSG_NO_SEQ")
  case True
  have "lockeq H (s\<lparr>cn_out := cn_out s @ [], cn_seq := cn_seq s\<rparr>) s" using lockeq_refl [OF assms(1)] by simp
  then show ?thesis using True unfolding console_flush_upto_def tret_def by (intro exI [of _ "[]"] exI [of _ "cn_seq s"] exI [of _ s]) simp
next
  case False
  obtain a where a: "acquire cons_out_lock s = Some (Inr a)" "lockeq (insert cons_out_lock H) s a" using acquire_lockeq [OF assms] by blast
  obtain t q where d: "console_drain (seq + 1) a = Inr (a\<lparr>cn_out := cn_out a @ t, cn_seq := q\<rparr>)" using drain_total by blast
  let ?b = "a\<lparr>cn_out := cn_out a @ t, cn_seq := q\<rparr>"
  have "good (insert cons_out_lock H) ?b" using lockeqD(1) [OF a(2)] by simp
  then obtain s' where r: "release cons_out_lock ?b = Some (Inr s')" "lockeq (insert cons_out_lock H - {cons_out_lock}) ?b s'" using release_lockeq by blast
  have "lockeq H (s\<lparr>cn_out := cn_out s @ t, cn_seq := q\<rparr>) s'"
    using a(2) r(2) assms(2) by (auto simp: lockeq_def)
  then show ?thesis using False a(1) d r(1) by (auto simp: console_flush_upto_def)
qed

lemma push_pop_good:
  assumes "locks_good c H k"
  shows "\<exists>k'. pop_off_at c (push_off_at f l c k) = Inr k' \<and> locks_good c H k' \<and> (\<forall>d. d \<noteq> c \<longrightarrow> cpus k' d = cpus k d)"
proof -
  let ?x = "cpus (push_off_at f l c k) c"
  have x: "\<not> irq ?x" "noff ?x = noff (cpus k c) + 1" "lks (push_off_at f l c k) = lks k" "panicking (push_off_at f l c k) = panicking k"
    "\<forall>d. d \<noteq> c \<longrightarrow> cpus (push_off_at f l c k) d = cpus k d"
    by (simp_all add: push_off_at_def Let_def set_cpu_def)
  have n: "0 \<le> noff (cpus k c)" using assms by (simp add: locks_good_def)
  then show ?thesis using assms x by (auto simp: pop_off_at_def kassert_def Let_def locks_good_def set_cpu_def)
qed

lemma kmsg_add_total:
  fixes len :: uint16
  assumes "kmsg_inv k" "next_seq k < KMSG_NO_SEQ" "length buf = 256"
  shows "\<exists>q k'. kmsg_add ts caller False level buf len k = Some (q, k', []) \<and> kmsg_inv k' \<and> (next_seq k' = next_seq k \<or> next_seq k' = next_seq k + 1)"
proof -
  define l where "l = (if len > KMSG_RECORD_MAX then KMSG_RECORD_MAX else len)"
  have "\<not> l > KMSG_RECORD_MAX" by (simp add: l_def)
  then have c: "kmsg_add ts caller False level buf len k = kmsg_add ts caller False level buf l k" by (simp only: kmsg_add_def l_def [symmetric] Let_def if_False)
  have "unat l \<le> length buf" using \<open>\<not> l > KMSG_RECORD_MAX\<close> assms(3) by (simp add: word_less_nat_alt KMSG_RECORD_MAX_def)
  show ?thesis
  proof (cases "l = 0")
    case True
    then have "kmsg_add ts caller False level buf l k = Some (KMSG_NO_SEQ, k, [])" by (simp add: kmsg_add_def)
    then show ?thesis using assms(1) c by simp
  next
    case False
    then show ?thesis using kmsg_add_cases [OF assms(1) \<open>unat l \<le> length buf\<close> False assms(2), of ts caller level] unfolding c by blast
  qed
qed

definition log_ok :: "'a cons_io_scheme \<Rightarrow> bool" where
  "log_ok s \<longleftrightarrow> kmsg_inv (cn_log s) \<and> next_seq (cn_log s) < KMSG_NO_SEQ"

lemma vprintk_ok:
  fixes s :: "'a cons_io_scheme"
  assumes g: "good H s" "cons_out_lock \<notin> H" and l: "log_ok s" and f: "fmt_text fmt ap = Some t"
  shows "\<exists>k out q s'. vprintk level fmt ap s = Some (Inr s') \<and> kmsg_inv k \<and> (next_seq k = next_seq (cn_log s) \<or> next_seq k = next_seq (cn_log s) + 1) \<and>
    lockeq H (s\<lparr>cn_log := k, cn_out := cn_out s @ out, cn_seq := q\<rparr>) s'"
proof -
  let ?c = "sl_cpu s" and ?p = "push_off_at ''printk.c'' 0 (sl_cpu s) (pr_locks s)"
  let ?s1 = "s\<lparr>pr_locks := ?p\<rparr>"
  let ?rep = "replicate (unat KMSG_RECORD_MAX) (0 :: uint8)"
  define n where "n = (of_nat (pos (emit_str t \<lparr>ob = ?rep, pos = 0\<rparr>)) :: 32 word)"
  define buf where "buf = put_nul (emit_str t \<lparr>ob = ?rep, pos = 0\<rparr>)"
  have v: "vsnprintf ?rep fmt ap = Inr (n, buf)" using fmt_loop_text [OF f] by (simp add: vsnprintf_def n_def buf_def)
  have lb: "length buf = 256" by (simp add: buf_def put_nul_def KMSG_RECORD_MAX_def)
  define len where "len = (if sint n > uint KMSG_RECORD_MAX then ucast KMSG_RECORD_MAX else n)"
  define pid where "pid = map_option (\<lambda>p. of_int (p_pid (pr_proc s p)) :: uint32) (pr_cur s ?c)"
  obtain q k where k: "kmsg_add (cn_now s) (kmsg_caller pid (of_nat ?c)) False level buf (ucast len) (cn_log s) = Some (q, k, [])" "kmsg_inv k"
    "next_seq k = next_seq (cn_log s) \<or> next_seq k = next_seq (cn_log s) + 1"
    using kmsg_add_total [OF _ _ lb] l unfolding log_ok_def by blast
  obtain o' where o': "pop_off_at ?c ?p = Inr o'" "locks_good ?c H o'" "\<forall>d. d \<noteq> ?c \<longrightarrow> cpus o' d = cpus (pr_locks s) d" using push_pop_good [OF g(1)] by blast
  let ?s2 = "?s1\<lparr>cn_log := k, pr_locks := o'\<rparr>"
  have "good H ?s2" using o'(2) by simp
  then obtain out r s' where fl: "console_flush_upto q ?s2 = Some (Inr s')" "lockeq H (?s2\<lparr>cn_out := cn_out ?s2 @ out, cn_seq := r\<rparr>) s'"
    using flush_upto_ok [OF _ g(2)] by blast
  have "vprintk level fmt ap s = Some (Inr s')"
    using v k(1) o'(1) fl(1) by (simp add: vprintk_def Let_def myproc_def len_def [symmetric] pid_def [symmetric])
  moreover have "lockeq H (s\<lparr>cn_log := k, cn_out := cn_out s @ out, cn_seq := r\<rparr>) s'" using fl(2) o'(3) by (auto simp: lockeq_def)
  ultimately show ?thesis using k(2,3) by blast
qed

end
