(* ===== verification/Syscall.thy ===== *)
theory Syscall
  imports Printk
begin

text \<open>
  The system calls (\<^verbatim>\<open>kern/syscall.c\<close>): argument fetch from the trap frame, the nine handlers and the
  dispatcher. A handler that blocks ends in \<open>swtch\<close>: \<open>WaitSleep\<close> and \<open>ReadSleep\<close> are the two places where a
  call is suspended, and \<open>syscall_resume\<close> continues it when the process runs again. \<open>Gone\<close> is the switch
  that \<open>exit\<close> does not come back from.
\<close>

record kparams =
  kp_blobs :: blobs
  kp_forkret :: uint64

datatype sys_result = Return uint64 | Gone bool | WaitSleep uintptr bool | ReadSleep uintptr "uint8 list" nat bool

type_synonym 's call = "'s \<Rightarrow> (sys_result \<times> 's) res option"

definition WRITE_BOUNCE_SZ :: uint64 where [kdefs]: "WRITE_BOUNCE_SZ = 128"
definition READ_BOUNCE_SZ :: uint64 where [kdefs]: "READ_BOUNCE_SZ = 128"
definition MAXPATH :: uint64 where [kdefs]: "MAXPATH = 128"

definition SYS_getpid :: uint64 where [kdefs]: "SYS_getpid = 1"
definition SYS_write :: uint64 where [kdefs]: "SYS_write = 2"
definition SYS_fork :: uint64 where [kdefs]: "SYS_fork = 3"
definition SYS_exit :: uint64 where [kdefs]: "SYS_exit = 4"
definition SYS_wait :: uint64 where [kdefs]: "SYS_wait = 5"
definition SYS_kill :: uint64 where [kdefs]: "SYS_kill = 6"
definition SYS_sbrk :: uint64 where [kdefs]: "SYS_sbrk = 7"
definition SYS_exec :: uint64 where [kdefs]: "SYS_exec = 8"
definition SYS_read :: uint64 where [kdefs]: "SYS_read = 9"

section \<open>Arguments\<close>

definition argraw :: "nat \<Rightarrow> 'a procs_scheme \<Rightarrow> uint64 res" where
  "argraw n s =
     (case myproc s of None \<Rightarrow> Inl Fault
      | Some p \<Rightarrow> kassert (n \<le> 5) ''argraw: bad arg index'' (Inr (tf_x (p_tf (pr_proc s p)) ! n)))"

definition argint :: "nat \<Rightarrow> 'a procs_scheme \<Rightarrow> int res" where
  "argint n s = rbind (argraw n s) (\<lambda>x. Inr (sint (ucast x :: uint32)))"

definition argaddr :: "nat \<Rightarrow> 'a procs_scheme \<Rightarrow> uintptr res" where
  "argaddr n s = argraw n s"

definition arglong :: "nat \<Rightarrow> 'a procs_scheme \<Rightarrow> uint64 res" where
  "arglong n s = argraw n s"

section \<open>Handlers\<close>

definition sys_getpid :: "'a procs_scheme call" where
  "sys_getpid s = (case myproc s of None \<Rightarrow> Some (Inl Fault) | Some p \<Rightarrow> tret (Return (of_int (p_pid (pr_proc s p))), s))"

definition sys_fork :: "kparams \<Rightarrow> 'a procs_scheme call" where
  "sys_fork kp s = tbind (fork (kp_forkret kp) s) (\<lambda>(r, s1). tret (Return (of_int r), s1))"

definition sys_exit :: "'a procs_scheme call" where
  "sys_exit s = tbind (Some (argint 0 s)) (\<lambda>status. tbind (exit status s) (\<lambda>(ena, s1). tret (Gone ena, s1)))"

definition wait_return :: "uintptr \<Rightarrow> wait_result \<times> 'a procs_scheme \<Rightarrow> (sys_result \<times> 'a procs_scheme) res option" where
  "wait_return xstatus = (\<lambda>(r, s1). tret (case r of Returned v \<Rightarrow> Return (of_int v) | Slept ena \<Rightarrow> WaitSleep xstatus ena, s1))"

definition sys_wait :: "'a procs_scheme uaccess \<Rightarrow> 'a procs_scheme call" where
  "sys_wait ua s = tbind (Some (argaddr 0 s)) (\<lambda>xstatus. tbind (wait ua xstatus s) (wait_return xstatus))"

definition sys_kill :: "'a procs_scheme call" where
  "sys_kill s = tbind (Some (argint 0 s)) (\<lambda>pid. tbind (kill pid s) (\<lambda>(r, s1). tret (Return (of_int r), s1)))"

definition sys_sbrk :: "'a procs_scheme call" where
  "sys_sbrk s =
     tbind (Some (argint 0 s)) (\<lambda>n.
       case myproc s of None \<Rightarrow> Some (Inl Fault)
       | Some p \<Rightarrow>
           (let old = p_sz (pr_proc s p) in
            tbind (growproc n s) (\<lambda>((r, _), s1). tret (Return (if r < 0 then -1 else old), s1))))"

text \<open>The bytes of a kernel buffer up to its terminator, as a path.\<close>

definition cstring :: "uint8 list \<Rightarrow> string" where
  "cstring bs = map (\<lambda>b. char_of (unat b)) (takeWhile (\<lambda>b. b \<noteq> 0) bs)"

definition sys_exec :: "kparams \<Rightarrow> 'a procs_scheme uaccess \<Rightarrow> 'a procs_scheme call" where
  "sys_exec kp ua s =
     tbind (Some (argaddr 0 s)) (\<lambda>user_path. tbind (Some (argaddr 1 s)) (\<lambda>uargv.
       tbind (Some (copyinstr ua user_path MAXPATH s)) (\<lambda>((n, path), s1).
         if n < 0 then tret (Return (-1), s1)
         else tbind (Some (exec (kp_blobs kp) ua (cstring path) uargv s1)) (\<lambda>(r, s2). tret (Return (of_int r), s2)))))"

lemma chunk_measure:
  assumes "dn < n" "chunk = (if n - dn > WRITE_BOUNCE_SZ then WRITE_BOUNCE_SZ else n - dn)"
  shows "unat (dn + chunk) = unat dn + unat chunk" "0 < unat chunk" "unat dn + unat chunk \<le> unat n"
proof -
  have d: "unat (n - dn) = unat n - unat dn" using assms(1) by (simp add: unat_sub_if' word_less_nat_alt)
  then have c: "unat chunk \<le> unat n - unat dn" "0 < unat chunk"
    using assms by (auto simp: word_less_nat_alt WRITE_BOUNCE_SZ_def)
  then show "0 < unat chunk" "unat dn + unat chunk \<le> unat n" using assms(1) by (auto simp: word_less_nat_alt)
  then show "unat (dn + chunk) = unat dn + unat chunk"
    using unsigned_less [of n, where 'a = nat] by (subst unat_add_no_wrap) simp_all
qed

text \<open>The loop of \<open>sys_write\<close>; it returns the value of the call.\<close>

function write_loop :: "'a cons_io_scheme uaccess \<Rightarrow> uintptr \<Rightarrow> uint64 \<Rightarrow> uint64 \<Rightarrow> 'a cons_io_scheme \<Rightarrow> (uint64 \<times> 'a cons_io_scheme) res option" where
  "write_loop ua user_buf n dn s =
     (if dn < n then
        (let rest = n - dn; chunk = (if rest > WRITE_BOUNCE_SZ then WRITE_BOUNCE_SZ else rest) in
         case copyin ua (user_buf + dn) chunk s of
           Inl e \<Rightarrow> Some (Inl e)
         | Inr ((r, bounce), s1) \<Rightarrow>
             if r < 0 then tret (if dn = 0 then -1 else dn, s1)
             else (case console_write bounce s1 of
                 None \<Rightarrow> None
               | Some (Inl e) \<Rightarrow> Some (Inl e)
               | Some (Inr s2) \<Rightarrow> write_loop ua user_buf n (dn + chunk) s2))
      else tret (dn, s))"
  by pat_completeness auto

termination
proof (relation "measure (\<lambda>(ua, user_buf, n, dn, s). unat n - unat dn)", goal_cases)
  case (2 ua user_buf n dn s rest chunk)
  then have "dn < n" "chunk = (if n - dn > WRITE_BOUNCE_SZ then WRITE_BOUNCE_SZ else n - dn)" by simp_all
  from chunk_measure [OF this] show ?case by simp
qed simp

declare write_loop.simps [simp del]

definition sys_write :: "'a cons_io_scheme uaccess \<Rightarrow> 'a cons_io_scheme call" where
  "sys_write ua s =
     tbind (Some (argint 0 s)) (\<lambda>fd. tbind (Some (argaddr 1 s)) (\<lambda>user_buf. tbind (Some (arglong 2 s)) (\<lambda>n.
       if fd \<noteq> 1 \<and> fd \<noteq> 2 then tret (Return (-1), s)
       else tbind (write_loop ua user_buf n 0 s) (\<lambda>(v, s1). tret (Return v, s1)))))"

text \<open>
  \<open>got\<close> is unsigned, so \<^verbatim>\<open>got <= 0\<close> is the end of input only. A reader that was killed gets \<open>2 ^ 64 - 1\<close> from
  \<open>console_read\<close>, and \<open>copyout\<close> of that many bytes is what refuses it.
\<close>

definition read_return :: "'a cons_io_scheme uaccess \<Rightarrow> uintptr \<Rightarrow> read_result \<times> 'a cons_io_scheme \<Rightarrow> (sys_result \<times> 'a cons_io_scheme) res option" where
  "read_return ua user_buf = (\<lambda>(r, s1).
     case r of
       ReadBytes bs \<Rightarrow>
         if bs = [] then tret (Return 0, s1)
         else tbind (Some (copyout ua user_buf bs s1)) (\<lambda>(e, s2). tret (Return (if e < 0 then -1 else of_nat (length bs)), s2))
     | ReadKilled \<Rightarrow> if \<not> user_range_ok user_buf (-1) then tret (Return (-1), s1) else Some (Inl Fault)
     | ReadSlept bs m ena \<Rightarrow> tret (ReadSleep user_buf bs m ena, s1))"

definition sys_read :: "'a cons_io_scheme uaccess \<Rightarrow> 'a cons_io_scheme call" where
  "sys_read ua s =
     tbind (Some (argint 0 s)) (\<lambda>fd. tbind (Some (argaddr 1 s)) (\<lambda>user_buf. tbind (Some (arglong 2 s)) (\<lambda>n.
       if fd \<noteq> 0 then tret (Return (-1), s)
       else if n = 0 then tret (Return 0, s)
       else
         (let chunk = (if n < READ_BOUNCE_SZ then n else READ_BOUNCE_SZ) in
          tbind (console_read (unat chunk) s) (read_return ua user_buf)))))"

section \<open>Dispatch\<close>

definition syscalls :: "kparams \<Rightarrow> 'a cons_io_scheme uaccess \<Rightarrow> uint64 \<Rightarrow> 'a cons_io_scheme call option" where
  "syscalls kp ua nr =
     map_of [(SYS_getpid, sys_getpid), (SYS_write, sys_write ua), (SYS_fork, sys_fork kp), (SYS_exit, sys_exit), (SYS_wait, sys_wait ua),
       (SYS_kill, sys_kill), (SYS_sbrk, sys_sbrk), (SYS_exec, sys_exec kp ua), (SYS_read, sys_read ua)] nr"

definition NELEM_syscalls :: uint64 where "NELEM_syscalls = SYS_read + 1"

definition set_x0 :: "uintptr \<Rightarrow> uint64 \<Rightarrow> 'a procs_scheme \<Rightarrow> 'a procs_scheme" where
  "set_x0 p v = upd_proc p (\<lambda>q. q\<lparr>p_tf := (p_tf q)\<lparr>tf_x := (tf_x (p_tf q))[0 := v]\<rparr>\<rparr>)"

text \<open>\<^verbatim>\<open>p->tf->x[0] =\<close> the value of a handler that has one by now.\<close>

definition syscall_return :: "uintptr \<Rightarrow> sys_result \<times> 'a procs_scheme \<Rightarrow> (sys_result \<times> 'a procs_scheme) res option" where
  "syscall_return p = (\<lambda>(r, s1). tret (r, case r of Return v \<Rightarrow> set_x0 p v s1 | _ \<Rightarrow> s1))"

definition unknown_format :: "uint8 list" where
  "unknown_format = bytes ''pid %d %s: unknown syscall %lu'' @ [10]"

definition syscall :: "kparams \<Rightarrow> 'a cons_io_scheme uaccess \<Rightarrow> 'a cons_io_scheme call" where
  "syscall kp ua s =
     (case myproc s of None \<Rightarrow> Some (Inl Fault)
      | Some p \<Rightarrow>
          (let nr = tf_x (p_tf (pr_proc s p)) ! 8 in
           case (if nr > 0 \<and> nr < NELEM_syscalls then syscalls kp ua nr else None) of
             Some h \<Rightarrow> tbind (h s) (syscall_return p)
           | None \<Rightarrow>
               tbind (printk unknown_format [Reg (of_int (p_pid (pr_proc s p))), Str (Some (bytes (p_name (pr_proc s p)))), Reg nr] s)
                 (\<lambda>s1. tret (Return (-1), set_x0 p (-1) s1))))"

text \<open>A suspended call when its process has been switched to again.\<close>

definition syscall_resume :: "'a cons_io_scheme uaccess \<Rightarrow> sys_result \<Rightarrow> 'a cons_io_scheme call" where
  "syscall_resume ua r s =
     (case myproc s of None \<Rightarrow> Some (Inl Fault)
      | Some p \<Rightarrow>
          tbind (case r of
              WaitSleep xstatus ena \<Rightarrow> tbind (sleep_resume ena wait_lock s) (\<lambda>s1. tbind (wait_turn ua p xstatus s1) (wait_return xstatus))
            | ReadSleep user_buf got m ena \<Rightarrow> tbind (console_read_resume got m ena s) (read_return ua user_buf)
            | _ \<Rightarrow> tret (r, s))
          (syscall_return p))"

end
