(* ===== verification/SyscallSpec.thy ===== *)
theory SyscallSpec
  imports Syscall
begin

text \<open>
  What the system calls promise: the bytes that \<open>sys_write\<close> shows are the user's, and a call number that does
  not exist costs a process nothing but the call.
\<close>

section \<open>Writing\<close>

text \<open>The number of bytes user mode can read from \<open>u\<close> on, at most \<open>n\<close>.\<close>

definition span :: "uintptr \<Rightarrow> nat \<Rightarrow> 'a procs_scheme \<Rightarrow> nat" where
  "span u n s = length (takeWhile (\<lambda>i. ldtrb (u + of_nat i) s \<noteq> None) [0..<n])"

text \<open>What \<open>sys_write\<close> puts out: everything, or the full chunks before the first byte that cannot be read.\<close>

definition written :: "uintptr \<Rightarrow> nat \<Rightarrow> 'a procs_scheme \<Rightarrow> nat" where
  "written u n s = (if span u n s = n then n else 128 * (span u n s div 128))"

lemma span_le: "span u n s \<le> n"
  unfolding span_def using length_takeWhile_le [of _ "[0..<n]"] by (metis length_upt minus_nat.diff_0)

lemma readable_span:
  assumes "k \<le> n"
  shows "readable u k s \<longleftrightarrow> k \<le> span u n s"
proof
  assume r: "readable u k s"
  have "[0..<n] = [0..<k] @ [k..<n]" using assms upt_add_eq_append [of 0 k "n - k"] by simp
  moreover have "takeWhile (\<lambda>i. ldtrb (u + of_nat i) s \<noteq> None) ([0..<k] @ ys) = [0..<k] @ takeWhile (\<lambda>i. ldtrb (u + of_nat i) s \<noteq> None) ys" for ys
    using r unfolding readable_def by (intro takeWhile_append2) auto
  ultimately show "k \<le> span u n s" by (simp add: span_def)
next
  assume k: "k \<le> span u n s"
  have "ldtrb (u + of_nat i) s \<noteq> None" if i: "i < k" for i
  proof -
    let ?t = "takeWhile (\<lambda>i. ldtrb (u + of_nat i) s \<noteq> None) [0..<n]"
    have i': "i < length ?t" using i k unfolding span_def by simp
    then have "?t ! i \<in> set ?t" by (rule nth_mem)
    moreover have "?t ! i = i" using takeWhile_nth [OF i'] i assms by simp
    ultimately have "i \<in> set ?t" by simp
    then show ?thesis by (blast dest: set_takeWhileD)
  qed
  then show "readable u k s" by (simp add: readable_def)
qed

lemma readable_split: "readable u (a + b) s \<longleftrightarrow> readable u a s \<and> readable (u + of_nat a) b s"
proof -
  have "(\<forall>i < a + b. P i) \<longleftrightarrow> (\<forall>i < a. P i) \<and> (\<forall>i < b. P (a + i))" for P :: "nat \<Rightarrow> bool"
    by (metis add.commute add_diff_inverse_nat less_diff_conv nat_add_left_cancel_less trans_less_add1)
  then show ?thesis unfolding readable_def by (simp add: add.assoc)
qed

lemma user_bytes_split: "user_bytes u (a + b) s = user_bytes u a s @ user_bytes (u + of_nat a) b s"
proof -
  have "[0..<a + b] = [0..<a] @ map (\<lambda>i. a + i) [0..<b]" using upt_add_eq_append [of 0 a b] map_add_upt [of a b] by (simp add: add.commute)
  then show ?thesis by (simp add: user_bytes_def comp_def add.assoc)
qed

text \<open>The state that copying and showing leave alone.\<close>

lemma shown_parts:
  assumes "lockeq H (s\<lparr>cn_out := out\<rparr>) (s' :: 'a cons_io_scheme)"
  shows "myproc s' = myproc s" "disarmed s' = disarmed s" "good H s'" "ldtrb u s' = ldtrb u s" "cn_out s' = out"
    "lockeq {} (s'\<lparr>cn_out := out'\<rparr>) s'' \<Longrightarrow> lockeq {} (s\<lparr>cn_out := out'\<rparr>) s''"
proof -
  obtain k where k: "s' = s\<lparr>cn_out := out, pr_locks := k\<rparr>" "locks_good (sl_cpu s) H k"
    "\<forall>d. d \<noteq> sl_cpu s \<longrightarrow> cpus k d = cpus (pr_locks s) d" using assms by (auto simp: lockeq_def)
  show "myproc s' = myproc s" "disarmed s' = disarmed s" "good H s'" "cn_out s' = out" using k by (simp_all add: myproc_def disarmed_def)
  show "ldtrb u s' = ldtrb u s" by (rule ldtrb_cong) (simp_all add: k)
  show "lockeq {} (s\<lparr>cn_out := out'\<rparr>) s''" if "lockeq {} (s'\<lparr>cn_out := out'\<rparr>) s''"
    using that k by (auto simp: lockeq_def)
qed

lemma write_loop_ok:
  fixes s :: "'a cons_io_scheme"
  assumes "myproc s = Some p" "disarmed s" "good {} s" "128 dvd unat dn \<or> dn = n" "unat dn \<le> span u (unat n) s"
  shows "\<exists>s'. write_loop (user_access h) u n dn s = Some (Inr (if written u (unat n) s = 0 \<and> n \<noteq> 0 then -1 else of_nat (written u (unat n) s), s')) \<and>
    unat dn \<le> written u (unat n) s \<and>
    lockeq {} (s\<lparr>cn_out := cn_out s @ user_bytes (u + dn) (written u (unat n) s - unat dn) s\<rparr>) s'"
  using assms
proof (induction "unat n - unat dn" arbitrary: dn s rule: less_induct)
  case less
  let ?N = "unat n" and ?sp = "span u (unat n) s"
  have dl: "unat dn \<le> ?N" using less.prems(5) span_le order_trans by blast
  show ?case
  proof (cases "dn < n")
    case False
    then have "unat dn = ?N" using dl by (simp add: word_less_nat_alt)
    then have "?sp = ?N" using less.prems(5) span_le [of u ?N s] by simp
    then have w: "written u ?N s = ?N" by (simp add: written_def)
    have "lockeq {} (s\<lparr>cn_out := cn_out s @ user_bytes (u + dn) 0 s\<rparr>) s" using less.prems(3) by (simp add: user_bytes_def lockeq_refl)
    then show ?thesis using False w \<open>unat dn = ?N\<close> by (subst write_loop.simps) (auto simp: tret_def word_unat_eq_iff)
  next
    case True
    then have dv: "128 dvd unat dn" using less.prems(4) by auto
    define chunk where "chunk = (if n - dn > WRITE_BOUNCE_SZ then WRITE_BOUNCE_SZ else n - dn)"
    note cm = chunk_measure [OF True chunk_def]
    have c128: "unat chunk = 128 \<or> unat dn + unat chunk = ?N" "unat chunk \<le> 128"
    proof -
      have "unat (n - dn) = ?N - unat dn" using True by (simp add: unat_sub_if' word_less_nat_alt)
      then show "unat chunk = 128 \<or> unat dn + unat chunk = ?N" "unat chunk \<le> 128"
        using dl by (auto simp: chunk_def WRITE_BOUNCE_SZ_def word_less_nat_alt)
    qed
    have cpos: "0 < chunk" using cm(2) by (simp add: word_less_nat_alt)
    have rd: "readable (u + dn) (unat chunk) s \<longleftrightarrow> unat dn + unat chunk \<le> ?sp"
      using readable_span [OF cm(3), of u s] readable_split [of u "unat dn" "unat chunk" s] readable_span [OF dl, of u s] less.prems(5) by simp
    obtain bs where ci: "copyin (user_access h) (u + dn) chunk s =
        Inr (if readable (u + dn) (unat chunk) s then (0, user_bytes (u + dn) (unat chunk) s) else (-1, bs), s)"
      using copyin_user [OF less.prems(1,2) cpos] by blast
    show ?thesis
    proof (cases "readable (u + dn) (unat chunk) s")
      case False
      then have lt: "?sp < unat dn + unat chunk" using rd by simp
      have "written u ?N s = unat dn"
      proof -
        obtain q where q: "unat dn = 128 * q" using dv by (rule dvdE)
        have "128 * q \<le> ?sp" "?sp < 128 * q + 128" using less.prems(5) lt c128(2) q by linarith+
        then have "?sp div 128 = q" by (simp add: div_nat_eqI)
        then show ?thesis using q lt cm(3) by (simp add: written_def)
      qed
      moreover have "lockeq {} (s\<lparr>cn_out := cn_out s @ user_bytes (u + dn) 0 s\<rparr>) s" using less.prems(3) by (simp add: user_bytes_def lockeq_refl)
      moreover have "n \<noteq> 0" using True by auto
      ultimately show ?thesis using True ci False
        by (subst write_loop.simps) (simp add: chunk_def [symmetric] Let_def tret_def unat_eq_zero)
    next
      case rdy: True
      let ?bs = "user_bytes (u + dn) (unat chunk) s"
      obtain s1 where s1: "console_write ?bs s = Some (Inr s1)" "lockeq {} (s\<lparr>cn_out := cn_out s @ ?bs\<rparr>) s1"
        using console_write_ok [OF less.prems(3)] by blast
      note sp1 = shown_parts [OF s1(2)]
      have sp: "span u ?N s1 = ?sp" "written u ?N s1 = written u ?N s" "user_bytes v k s1 = user_bytes v k s" for v k
        using sp1(4) by (simp_all add: span_def written_def user_bytes_def)
      have dv': "128 dvd unat (dn + chunk) \<or> dn + chunk = n"
        using c128(1) dv cm(1) by (auto simp: word_unat_eq_iff)
      have le: "unat (dn + chunk) \<le> span u ?N s1" unfolding sp cm(1) using rd rdy by simp
      have m: "?N - unat (dn + chunk) < ?N - unat dn" using cm by simp
      have q: "myproc s1 = Some p" "disarmed s1" using sp1(1,2) less.prems(1,2) by simp_all
      obtain s' where s': "write_loop (user_access h) u n (dn + chunk) s1 =
          Some (Inr (if written u ?N s = 0 \<and> n \<noteq> 0 then -1 else of_nat (written u ?N s), s'))"
        "unat dn + unat chunk \<le> written u ?N s"
        "lockeq {} (s1\<lparr>cn_out := cn_out s1 @ user_bytes (u + (dn + chunk)) (written u ?N s - (unat dn + unat chunk)) s\<rparr>) s'"
        using less.hyps [OF m q sp1(3) dv' le] unfolding sp cm(1) by blast
      have "user_bytes (u + dn) (written u ?N s - unat dn) s = ?bs @ user_bytes (u + (dn + chunk)) (written u ?N s - (unat dn + unat chunk)) s"
        using user_bytes_split [of "u + dn" "unat chunk" "written u ?N s - (unat dn + unat chunk)" s] s'(2) by (simp add: algebra_simps)
      then have "lockeq {} (s\<lparr>cn_out := cn_out s @ user_bytes (u + dn) (written u ?N s - unat dn) s\<rparr>) s'"
        using sp1(6) [OF s'(3)] sp1(5) by simp
      moreover have "write_loop (user_access h) u n dn s = write_loop (user_access h) u n (dn + chunk) s1"
        using True ci rdy s1(1) by (subst write_loop.simps) (simp add: chunk_def [symmetric] Let_def)
      ultimately show ?thesis using s'(1,2) by auto
    qed
  qed
qed

text \<open>The arguments of a call, as the running process has them.\<close>

definition arg :: "nat \<Rightarrow> 'a procs_scheme \<Rightarrow> uint64" where
  "arg i s = (case myproc s of None \<Rightarrow> 0 | Some p \<Rightarrow> tf_x (p_tf (pr_proc s p)) ! i)"

lemma args_fetched:
  assumes "myproc s = Some p" "i \<le> 5"
  shows "argraw i s = Inr (arg i s)" "argint i s = Inr (sint (ucast (arg i s) :: uint32))" "argaddr i s = Inr (arg i s)" "arglong i s = Inr (arg i s)"
  using assms by (simp_all add: argraw_def argint_def argaddr_def arglong_def arg_def kassert_def)

text \<open>C12: writing. \<open>sys_write\<close> to the console from a process whose \<open>onfault\<close> is disarmed returns, and the port shows
  exactly the bytes of the user's buffer as user mode sees them through the page table, in order: all of them when
  every byte can be read, and otherwise the full 128-byte chunks before the first byte that cannot; the value
  returned is the number of bytes shown, or -1 when there are none but some were asked for. Nothing else
  changes.\<close>

theorem sys_write_correct:
  fixes s :: "'a cons_io_scheme"
  assumes "myproc s = Some p" "disarmed s" "good {} s" "sint (ucast (arg 0 s) :: uint32) \<in> {1, 2}"
  defines "u \<equiv> arg 1 s" and "n \<equiv> arg 2 s"
  shows "\<exists>s'. sys_write (user_access h) s =
      Some (Inr (Return (if written u (unat n) s = 0 \<and> n \<noteq> 0 then -1 else of_nat (written u (unat n) s)), s')) \<and>
    lockeq {} (s\<lparr>cn_out := cn_out s @ user_bytes u (written u (unat n) s) s\<rparr>) s'"
proof -
  obtain s' where s': "write_loop (user_access h) u n 0 s = Some (Inr (if written u (unat n) s = 0 \<and> n \<noteq> 0 then -1 else of_nat (written u (unat n) s), s'))"
    "lockeq {} (s\<lparr>cn_out := cn_out s @ user_bytes u (written u (unat n) s) s\<rparr>) s'"
    using write_loop_ok [OF assms(1-3), of 0 n u h] by auto
  then show ?thesis using assms(4) args_fetched [OF assms(1)]
    by (intro exI [of _ s']) (auto simp: sys_write_def u_def n_def tret_def)
qed

section \<open>Unknown calls\<close>

lemma unknown_format_fits: "\<exists>t. fmt_text unknown_format [Reg a, Str b, Reg c] = Some t"
proof -
  have "fmt_text unknown_format [Reg 0, Str None, Reg 0] \<noteq> None" by code_simp
  then show ?thesis using fmt_fits [of unknown_format "[Reg 0, Str None, Reg 0]" _ "[Reg a, Str b, Reg c]"] by auto
qed

text \<open>A call number that no handler has, zero or above nine, makes the call return -1 in \<open>x0\<close> of its caller:
  one line goes to the log, and neither the process tables nor memory nor any other register changes.\<close>

theorem syscall_unknown:
  fixes s :: "'a cons_io_scheme"
  assumes "myproc s = Some p" "good {} s" "log_ok s" "arg 8 s = 0 \<or> arg 8 s > 9"
  shows "\<exists>k out q s1. syscall kp ua s = Some (Inr (Return (-1), set_x0 p (-1) s1)) \<and>
    lockeq {} (s\<lparr>cn_log := k, cn_out := cn_out s @ out, cn_seq := q\<rparr>) s1"
proof -
  let ?ap = "[Reg (of_int (p_pid (pr_proc s p))), Str (Some (bytes (p_name (pr_proc s p)))), Reg (arg 8 s)]"
  obtain t where "fmt_text unknown_format ?ap = Some t" using unknown_format_fits by blast
  then obtain k out q s1 where s1: "printk unknown_format ?ap s = Some (Inr s1)" "lockeq {} (s\<lparr>cn_log := k, cn_out := cn_out s @ out, cn_seq := q\<rparr>) s1"
    using vprintk_ok [OF assms(2) _ assms(3)] unfolding printk_def by blast
  have "\<not> (arg 8 s > 0 \<and> arg 8 s < NELEM_syscalls)" using assms(4) by (auto simp: NELEM_syscalls_def SYS_read_def word_less_nat_alt)
  then have "syscall kp ua s = Some (Inr (Return (-1), set_x0 p (-1) s1))"
    using assms(1) s1(1) by (auto simp: syscall_def arg_def Let_def tret_def)
  then show ?thesis using s1(2) by blast
qed

section \<open>A machine with a user page\<close>

text \<open>Four tables map the page at 0x1000, which holds three bytes; the process writes five bytes from 0x1FFD to fd 1.\<close>

definition demo_page :: "uintptr \<Rightarrow> nat \<Rightarrow> uint64" where
  "demo_page = (\<lambda>_ _. 0)(PA_TO_KVA 0x1000 := (\<lambda>_. 0)(0 := 0x2003), PA_TO_KVA 0x2000 := (\<lambda>_. 0)(0 := 0x3003),
     PA_TO_KVA 0x3000 := (\<lambda>_. 0)(0 := 0x4003), PA_TO_KVA 0x4000 := (\<lambda>_. 0)(1 := 0x5000 OR PAGE_USER), PA_TO_KVA 0x5000 := (\<lambda>_. 0)(511 := 0x0A69680000000000))"

definition demo_user :: cons_io where
  "demo_user = demo_cons\<lparr>vm_page := demo_page, pr_ttbr0 := (\<lambda>_. 0x1000),
     pr_proc := (pr_proc demo_procs)(0x100 := (pr_proc demo_procs 0x100)\<lparr>p_tf := zero_tf\<lparr>tf_x := [1, 0x1FFD, 3, 0, 0, 0, 0, 0, 77]\<rparr>\<rparr>)\<rparr>"

lemma demo_user_parts [simp]:
  "vm_page demo_user = demo_page" "pr_ttbr0 demo_user = (\<lambda>_. 0x1000)" "sl_cpu demo_user = 0" "myproc demo_user = Some 0x100"
  "tf_x (p_tf (pr_proc demo_user 0x100)) = [1, 0x1FFD, 3, 0, 0, 0, 0, 0, 77]" "pr_locks demo_user = no_locks" "disarmed demo_user" "cn_out demo_user = []"
  "cn_log demo_user = kmsg_init"
  by (simp_all add: demo_user_def myproc_def disarmed_def demo_cons_def procs.defs cons_io.defs demo_procs_def kstacks.defs no_stacks_def idle_proc_def)

lemma demo_user_bytes: "readable 0x1FFD 3 demo_user" "user_bytes 0x1FFD 3 demo_user = [0x68, 0x69, 0x0A]"
proof -
  have four: "4 = Suc (Suc (Suc (Suc 0)))" by simp
  have "pt_lookup demo_page (Suc (Suc (Suc (Suc 0)))) (PA_TO_KVA (PTE_ADDR 0x1000)) 1 = Some (0x5000 OR PAGE_USER)"
    by (simp add: pt_lookup_node pt_lookup_leaf pt_idx_def demo_page_def pte_valid_def PTE_ADDR_def pte_child_def PA_TO_KVA_def kdefs)
  then have m: "pt_lookup demo_page 4 (PA_TO_KVA (PTE_ADDR 0x1000)) 1 = Some (0x5000 OR PAGE_USER)" by (simp only: four)
  have b: "ldtrb (0x1FFD + of_nat i) demo_user = Some (get_byte (demo_page (pte_child (0x5000 OR PAGE_USER))) (0xFFD + i))" if "i < 3" for i
  proof -
    have u: "unat (0x1FFD + of_nat i :: uint64) = 0x1FFD + i" using that by (subst unat_add_no_wrap) (simp_all add: unat_of_nat_small)
    have "(0x5000 OR PAGE_USER) AND PTE_AP_RW_ALL \<noteq> 0" by code_simp
    moreover have "(0x1FFD + i) div 4096 = 1" "(0x1FFD + i) mod 4096 = 0xFFD + i" using that by (simp_all add: mod_nat_eqI)
    ultimately show ?thesis using m that by (simp add: ldtrb_def u word_less_nat_alt MAXUVA_def ttbr0_table_def uvm_map_def)
  qed
  then show "readable 0x1FFD 3 demo_user" by (simp add: readable_def)
  have "[0..<3] = [0, 1, 2 :: nat]" by (simp add: upt_rec)
  moreover have "map (\<lambda>i. get_byte (demo_page (pte_child (0x5000 OR PAGE_USER))) (0xFFD + i)) [0, 1, 2] = [0x68, 0x69, 0x0A]"
    by (simp add: get_byte_def demo_page_def PTE_ADDR_def pte_child_def PA_TO_KVA_def kdefs)
  moreover have "user_bytes 0x1FFD 3 demo_user = map (\<lambda>i. get_byte (demo_page (pte_child (0x5000 OR PAGE_USER))) (0xFFD + i)) [0..<3]"
    unfolding user_bytes_def using b by (intro map_cong) simp_all
  ultimately show "user_bytes 0x1FFD 3 demo_user = [0x68, 0x69, 0x0A]" by simp
qed

theorem sys_write_correct_witness:
  "\<exists>s'. sys_write (user_access 0xF00) demo_user = Some (Inr (Return 3, s')) \<and> cn_out s' = [0x68, 0x69, 0x0A]"
proof -
  have a: "arg 0 demo_user = 1" "arg 1 demo_user = 0x1FFD" "arg 2 demo_user = 3" by (simp_all add: arg_def)
  have "span 0x1FFD 3 demo_user = 3" using demo_user_bytes(1) readable_span [of 3 3 "0x1FFD" demo_user] span_le [of "0x1FFD" 3 demo_user] by simp
  then have w: "written 0x1FFD (unat (3 :: uint64)) demo_user = 3" by (simp add: written_def)
  have fd: "sint (ucast (arg 0 demo_user) :: uint32) \<in> {1, 2}" unfolding a by simp
  have g: "good {} demo_user" using no_locks_good by simp
  obtain s' where "sys_write (user_access 0xF00) demo_user = Some (Inr (Return 3, s'))" "lockeq {} (demo_user\<lparr>cn_out := [0x68, 0x69, 0x0A]\<rparr>) s'"
    using sys_write_correct [OF demo_user_parts(4,7) g fd, of "0xF00"] unfolding a w demo_user_bytes(2) by auto
  then show ?thesis by (auto simp: lockeq_def)
qed

theorem syscall_unknown_witness:
  "\<exists>k out q s1. syscall \<lparr>kp_blobs = demo_blobs, kp_forkret = 0\<rparr> (user_access 0xF00) demo_user = Some (Inr (Return (-1), set_x0 0x100 (-1) s1)) \<and>
    lockeq {} (demo_user\<lparr>cn_log := k, cn_out := out, cn_seq := q\<rparr>) s1"
proof -
  have g: "good {} demo_user" using no_locks_good by simp
  have "next_seq kmsg_init = 0" by (simp only: kmsg_init_def kmsg.simps)
  then have "log_ok demo_user" using kmsg_inv_init by (simp add: log_ok_def KMSG_NO_SEQ_def word_less_nat_alt unsigned_minus_1_eq_mask)
  moreover have "arg 8 demo_user > 9" by (simp add: arg_def)
  ultimately show ?thesis using syscall_unknown [OF demo_user_parts(4) g, of "\<lparr>kp_blobs = demo_blobs, kp_forkret = 0\<rparr>" "user_access 0xF00"] by auto
qed

end
