(* ===== verification/Intr.thy ===== *)
theory Intr
  imports SyscallSpec
begin

text \<open>
  Interrupt sources (\<^verbatim>\<open>kern/intr.c\<close>), the clock (\<^verbatim>\<open>arch/timer.c\<close>), the CPU interface of the interrupt controller
  (\<open>gic_acknwlg\<close>, \<open>gic_eoi\<close>, \<open>gic_deactivate\<close> of \<^verbatim>\<open>arch/gic.c\<close>) and the interrupt entry \<open>trap_irq\<close> of \<^verbatim>\<open>arch/trap.c\<close>.
  The filters and handlers the kernel registers are the constructors of two datatypes. What is written to
  \<open>ICC_EOIR1\<close> and \<open>ICC_DIR\<close> is a list of events; what \<open>ICC_IAR1\<close> reads is an argument. \<open>kmalloc\<close>, whose state
  is not part of this one, is a parameter.
\<close>

section \<open>State\<close>

datatype filter = Timer_tick | Console_filter
datatype handler = Console_intr
datatype gic_event = Eoi nat uint32 | Dir nat uint32

record intr_src =
  is_name :: string
  is_filter :: filter
  is_handler :: "handler option"
  is_count :: uint64
  is_stray :: uint64
  is_irq :: uint32
  is_pending :: bool

record irqs = cons_io +
  in_srcs :: "uint32 \<Rightarrow> uintptr option"
  in_src :: "uintptr \<Rightarrow> intr_src"
  in_nirq :: uint32
  in_resched :: "nat \<Rightarrow> bool"
  in_halted :: "nat \<Rightarrow> bool"
  in_gic :: "gic_event list"
  tm_interval :: uint64
  tm_ticks :: uint64
  tm_tval :: "nat \<Rightarrow> uint64"

definition FILTER_STRAY :: int where [kdefs]: "FILTER_STRAY = 0"
definition FILTER_HANDLED :: int where [kdefs]: "FILTER_HANDLED = 1"
definition FILTER_SCHEDULE_THREAD :: int where [kdefs]: "FILTER_SCHEDULE_THREAD = 2"
definition IRQ_PANIC :: uint32 where [kdefs]: "IRQ_PANIC = 0"
definition GIC_SPURIOUS :: uint32 where [kdefs]: "GIC_SPURIOUS = 1023"
definition TIMER_HZ :: uint64 where [kdefs]: "TIMER_HZ = 10"
definition SIZEOF_INTR_SRC :: uint64 where [kdefs]: "SIZEOF_INTR_SRC = 48"

definition ithread_lock :: nat where "ithread_lock = 6 + 2 ^ 64"

definition upd_src :: "uintptr \<Rightarrow> (intr_src \<Rightarrow> intr_src) \<Rightarrow> 'a irqs_scheme \<Rightarrow> 'a irqs_scheme" where
  "upd_src a g s = s\<lparr>in_src := (in_src s)(a := g (in_src s a))\<rparr>"

section \<open>The interrupt controller's CPU interface\<close>

definition gic_acknwlg :: "uint32 \<Rightarrow> uint32" where "gic_acknwlg iar = iar AND 0x3FF"

definition gic_eoi :: "uint32 \<Rightarrow> 'a irqs_scheme \<Rightarrow> 'a irqs_scheme" where
  "gic_eoi intid s = s\<lparr>in_gic := in_gic s @ [Eoi (sl_cpu s) intid]\<rparr>"

definition gic_deactivate :: "uint32 \<Rightarrow> 'a irqs_scheme \<Rightarrow> 'a irqs_scheme" where
  "gic_deactivate intid s = s\<lparr>in_gic := in_gic s @ [Dir (sl_cpu s) intid]\<rparr>"

section \<open>The clock\<close>

definition timer_tick :: "'a irqs_scheme \<Rightarrow> int \<times> 'a irqs_scheme" where
  "timer_tick s =
     (let c = sl_cpu s; s1 = s\<lparr>tm_tval := (tm_tval s)(c := tm_interval s)\<rparr>;
          s2 = (if c = 0 then s1\<lparr>tm_ticks := tm_ticks s1 + 1\<rparr> else s1) in
      (FILTER_HANDLED, s2\<lparr>in_resched := (in_resched s2)(c := True)\<rparr>))"

definition console_filter :: int where "console_filter = FILTER_SCHEDULE_THREAD"

section \<open>Sources\<close>

definition run_filter :: "filter \<Rightarrow> 'a irqs_scheme \<Rightarrow> int \<times> 'a irqs_scheme" where
  "run_filter g s = (case g of Timer_tick \<Rightarrow> timer_tick s | Console_filter \<Rightarrow> (console_filter, s))"

definition run_handler :: "handler \<Rightarrow> 'a irqs_scheme \<Rightarrow> 'a irqs_scheme res option" where
  "run_handler h s = (case h of Console_intr \<Rightarrow> console_intr s)"

definition intr_init :: "(uint64 \<Rightarrow> 'a irqs_scheme \<Rightarrow> (uintptr option \<times> 'a irqs_scheme) res option) \<Rightarrow> uint32 \<Rightarrow> 'a irqs_scheme \<Rightarrow> 'a irqs_scheme res option" where
  "intr_init kmalloc nirqs s =
     (let s1 = s\<lparr>pr_locks := init_spinlock ithread_lock ''ithread'' (pr_locks s), in_nirq := nirqs\<rparr> in
      tbind (kmalloc (ucast nirqs * 8) s1) (\<lambda>(t, s2).
        case t of None \<Rightarrow> Some (Inl (Panic ''intr_init: no room for %u sources (%lu bytes)''))
        | Some _ \<Rightarrow> printk (bytes ''intr: %u sources'' @ [10]) [Reg (ucast nirqs)] (s2\<lparr>in_srcs := (\<lambda>_. None)\<rparr>)))"

definition intr_register :: "(uint64 \<Rightarrow> 'a irqs_scheme \<Rightarrow> (uintptr option \<times> 'a irqs_scheme) res option) \<Rightarrow> uint64 \<Rightarrow> uint64 \<Rightarrow>
     uint32 \<Rightarrow> string \<Rightarrow> filter \<Rightarrow> handler option \<Rightarrow> 'a irqs_scheme \<Rightarrow> 'a irqs_scheme res option" where
  "intr_register kmalloc forkret_pc loop_pc intid name g h s =
     tassert (intid < in_nirq s) ''intr_register: irq %d out of range (%u)''
      (tassert (in_srcs s intid = None) ''intr_register: irq %d already registered''
        (tbind (kmalloc SIZEOF_INTR_SRC s) (\<lambda>(a, s1).
          case a of None \<Rightarrow> Some (Inl (Panic ''intr_register: no memory for irq %u''))
          | Some src \<Rightarrow>
              (let s2 = upd_src src (\<lambda>_. \<lparr>is_name = name, is_filter = g, is_handler = h, is_count = 0, is_stray = 0, is_irq = intid, is_pending = False\<rparr>) s1;
                   s3 = s2\<lparr>in_srcs := (in_srcs s2)(intid := Some src)\<rparr> in
               if h = None then tret s3
               else tbind (kthread_add forkret_pc loop_pc src name s3) (\<lambda>(pid, s4).
                 if pid < 0 then Some (Inl (Panic ''intr_register: ithread create failed''))
                 else printk (bytes ''intr: %s ithread pid %d (irq %d)'' @ [10]) [Str (Some (bytes name)), Reg (of_int pid), Reg (ucast intid)] s4)))))"

definition stray_format :: "uint8 list" where "stray_format = bytes ''intr: unexpected IRQ %d'' @ [10]"

definition intr_dispatch :: "uint32 \<Rightarrow> 'a irqs_scheme \<Rightarrow> (int \<times> 'a irqs_scheme) res option" where
  "intr_dispatch intid s =
     (case (if intid \<ge> in_nirq s then None else in_srcs s intid) of
        None \<Rightarrow> tbind (printk stray_format [Reg (ucast intid)] s) (\<lambda>s1. tret (FILTER_STRAY, s1))
      | Some src \<Rightarrow>
          (let (res, s1) = run_filter (is_filter (in_src s src)) (upd_src src (\<lambda>x. x\<lparr>is_count := is_count x + 1\<rparr>) s) in
           if res = FILTER_SCHEDULE_THREAD then
             tbind (acquire ithread_lock s1) (\<lambda>s2. tbind (release ithread_lock (upd_src src (\<lambda>x. x\<lparr>is_pending := True\<rparr>) s2)) (\<lambda>s3.
               tbind (wakeup src s3) (\<lambda>s4. tret (res, s4))))
           else if res = FILTER_STRAY then tret (res, upd_src src (\<lambda>x. x\<lparr>is_stray := is_stray x + 1\<rparr>) s1)
           else tret (res, s1)))"

text \<open>One turn of the loop of an interrupt thread, up to the point where it sleeps or has served the interrupt.\<close>

datatype ithread_result = Served | Waiting bool

definition ithread_check :: "uintptr \<Rightarrow> 'a irqs_scheme \<Rightarrow> (ithread_result \<times> 'a irqs_scheme) res option" where
  "ithread_check src s =
     (if \<not> is_pending (in_src s src) then tbind (sleep src ithread_lock s) (\<lambda>(ena, s1). tret (Waiting ena, s1))
      else tbind (release ithread_lock (upd_src src (\<lambda>x. x\<lparr>is_pending := False\<rparr>) s)) (\<lambda>s1.
        case is_handler (in_src s1 src) of None \<Rightarrow> Some (Inl Fault)
        | Some h \<Rightarrow> tbind (run_handler h s1) (\<lambda>s2. tret (Served, gic_deactivate (is_irq (in_src s2 src)) s2))))"

definition ithread_turn :: "'a irqs_scheme \<Rightarrow> (ithread_result \<times> 'a irqs_scheme) res option" where
  "ithread_turn s =
     (case myproc s of None \<Rightarrow> Some (Inl Fault)
      | Some p \<Rightarrow> (let src = p_isrc (pr_proc s p) in tbind (acquire ithread_lock s) (ithread_check src)))"

definition ithread_resume :: "bool \<Rightarrow> 'a irqs_scheme \<Rightarrow> (ithread_result \<times> 'a irqs_scheme) res option" where
  "ithread_resume ena s =
     (case myproc s of None \<Rightarrow> Some (Inl Fault)
      | Some p \<Rightarrow> (let src = p_isrc (pr_proc s p) in tbind (sleep_resume ena ithread_lock s) (ithread_check src)))"

section \<open>The entry\<close>

datatype irq_result = Resumed | Preempted bool | Parked

definition panic_stop_self :: "'a irqs_scheme \<Rightarrow> 'a irqs_scheme" where
  "panic_stop_self s =
     (let c = sl_cpu s in
      s\<lparr>pr_locks := set_cpu c ((cpus (pr_locks s) c)\<lparr>irq := False\<rparr>) (pr_locks s), in_halted := (in_halted s)(c := True)\<rparr>)"

definition trap_irq :: "uint32 \<Rightarrow> 'a irqs_scheme \<Rightarrow> (irq_result \<times> 'a irqs_scheme) res option" where
  "trap_irq iar s =
     (let intid = gic_acknwlg iar in
      if intid = GIC_SPURIOUS then tret (Resumed, s)
      else if intid = IRQ_PANIC then tret (Parked, panic_stop_self (gic_deactivate intid (gic_eoi intid s)))
      else tbind (intr_dispatch intid s) (\<lambda>(res, s1).
        let s2 = gic_eoi intid s1; s3 = (if res \<noteq> FILTER_SCHEDULE_THREAD then gic_deactivate intid s2 else s2); c = sl_cpu s3 in
        if in_resched s3 c \<and> myproc s3 \<noteq> None then
          tbind (yield (s3\<lparr>in_resched := (in_resched s3)(c := False)\<rparr>)) (\<lambda>(ena, s4). tret (Preempted ena, s4))
        else tret (Resumed, s3)))"

definition timer_init :: "(uint64 \<Rightarrow> 'a irqs_scheme \<Rightarrow> (uintptr option \<times> 'a irqs_scheme) res option) \<Rightarrow> uint64 \<Rightarrow> uint64 \<Rightarrow> uint64 \<Rightarrow> uint32 \<Rightarrow> 'a irqs_scheme
     \<Rightarrow> 'a irqs_scheme res option" where
  "timer_init kmalloc forkret_pc loop_pc timer_freq_dtb timer_irq s =
     (let freq = cn_cntfrq s in
      tbind (if freq = 0 then
               (if timer_freq_dtb = 0 then Some (Inl (Panic ''timer: CNTFRQ_EL0 unset and no DTB clock-frequency''))
                else tbind (vprintk 4 (bytes ''timer: CNTFRQ_EL0 unset, using DTB clock-frequency'' @ [10]) [] s) (\<lambda>s1. tret (timer_freq_dtb, s1)))
             else tret (freq, s)) (\<lambda>(freq, s1).
        tbind (intr_register kmalloc forkret_pc loop_pc timer_irq ''timer'' Timer_tick None (s1\<lparr>tm_interval := freq div TIMER_HZ, tm_ticks := 0\<rparr>)) (\<lambda>s2.
          if sl_cpu s2 = 0 then
            printk (bytes ''timer: freq=%d Hz, interval=%d ticks (%d Hz)'' @ [10]) [Reg freq, Reg (tm_interval s2), Reg TIMER_HZ] s2
          else tret s2)))"

definition timer_inithart :: "'a irqs_scheme \<Rightarrow> 'a irqs_scheme" where
  "timer_inithart s = s\<lparr>tm_tval := (tm_tval s)(sl_cpu s := tm_interval s)\<rparr>"

end
