(* ===== verification/Trap.thy ===== *)
theory Trap
  imports Intr
begin

text \<open>
  The exception handlers (\<^verbatim>\<open>arch/trap.c\<close>; \<open>trap_irq\<close> is with the interrupts). The syndrome and the fault address
  are arguments, as the vectors pass them, and \<open>tf\<close> is the frame they saved. A handler that returns to the
  interrupted context says so; \<open>Exited\<close> is the switch out of \<open>exit\<close>, \<open>Suspended\<close> a system call that sleeps.
\<close>

section \<open>Syndromes\<close>

definition EC_SVC64 :: uint32 where [kdefs]: "EC_SVC64 = 0x15"
definition EC_IABT_EL0 :: uint32 where [kdefs]: "EC_IABT_EL0 = 0x20"
definition EC_IABT_EL1 :: uint32 where [kdefs]: "EC_IABT_EL1 = 0x21"
definition EC_DABT_EL0 :: uint32 where [kdefs]: "EC_DABT_EL0 = 0x24"
definition EC_DABT_EL1 :: uint32 where [kdefs]: "EC_DABT_EL1 = 0x25"
definition EC_SERROR :: uint32 where [kdefs]: "EC_SERROR = 0x2F"

definition ESR_EC_SHIFT :: nat where [kdefs]: "ESR_EC_SHIFT = 26"
definition ESR_EC_MASK :: uint64 where [kdefs]: "ESR_EC_MASK = mask 6"
definition ESR_ISS_MASK :: uint64 where [kdefs]: "ESR_ISS_MASK = mask 25"
definition ESR_ISS_DFSC_MASK :: uint32 where [kdefs]: "ESR_ISS_DFSC_MASK = mask 6"
definition DFSC_TAG_CHECK :: uint32 where [kdefs]: "DFSC_TAG_CHECK = 0x11"
definition ESR_IDS :: uint64 where [kdefs]: "ESR_IDS = push_bit 24 1"
definition ESR_AET_SHIFT :: nat where [kdefs]: "ESR_AET_SHIFT = 10"
definition ESR_AET_MASK :: uint64 where [kdefs]: "ESR_AET_MASK = mask 3"
definition ESR_AET_UEO :: uint64 where [kdefs]: "ESR_AET_UEO = 2"
definition ESR_AET_CE :: uint64 where [kdefs]: "ESR_AET_CE = 6"

definition esr_ec :: "uint64 \<Rightarrow> uint32" where
  "esr_ec esr = ucast (drop_bit ESR_EC_SHIFT esr AND ESR_EC_MASK)"

definition esr_iss :: "uint64 \<Rightarrow> uint32" where
  "esr_iss esr = ucast (esr AND ESR_ISS_MASK)"

text \<open>A line and a panic.\<close>

definition die :: "uint8 list \<Rightarrow> vararg list \<Rightarrow> string \<Rightarrow> 'a cons_io_scheme \<Rightarrow> 'b res option" where
  "die fmt ap msg s = tbind (printk fmt ap s) (\<lambda>_. Some (Inl (Panic msg)))"

definition fline :: "string \<Rightarrow> uint8 list" where "fline str = bytes str @ [10]"

section \<open>Kernel mode\<close>

definition trap_sync :: "trapframe \<Rightarrow> uint64 \<Rightarrow> uint64 \<Rightarrow> 'a cons_io_scheme \<Rightarrow> (trapframe \<times> 'a cons_io_scheme) res option" where
  "trap_sync tf esr far s =
     (let ec = esr_ec esr; iss = Reg (ucast (esr_iss esr)); elr = Reg (tf_elr tf) in
      if ec = EC_DABT_EL1 then
        (case myproc s of
           Some p \<Rightarrow>
             if p_onfault (pr_proc s p) \<noteq> 0
             then tret (tf\<lparr>tf_elr := p_onfault (pr_proc s p)\<rparr>, upd_proc p (\<lambda>q. q\<lparr>p_onfault := 0\<rparr>) s)
             else die (fline ''Data Abort at ELR=%p, FAR=%p, ISS=%#x'') [elr, Reg far, iss] ''data abort'' s
         | None \<Rightarrow> die (fline ''Data Abort at ELR=%p, FAR=%p, ISS=%#x'') [elr, Reg far, iss] ''data abort'' s)
      else if ec = EC_IABT_EL1 then
        die (fline ''Instruction Abort at ELR=%p, FAR=%p, ISS=%#x'') [elr, Reg far, iss] ''instruction abort'' s
      else if ec = EC_SVC64 then die (fline ''SVC from Kernel (unexpected), ESR=%p, ELR=%p'') [Reg esr, elr] ''unexpected svc'' s
      else
        tbind (printk (fline ''Sync Exception: EC=%#x, ISS=%#x'') [Reg (ucast ec), iss] s) (\<lambda>s1.
          tbind (printk (fline ''    ELR=%p (faulting instruction)'') [elr] s1) (\<lambda>s2.
            die (fline ''    FAR=%p (fault address)'') [Reg far] ''unhandled sync exception'' s2)))"

section \<open>User mode\<close>

datatype utrap = To_user | Exited bool | Suspended sys_result

definition exit_killed :: "'a cons_io_scheme \<Rightarrow> (utrap \<times> 'a cons_io_scheme) res option" where
  "exit_killed s = tbind (exit (-1) s) (\<lambda>(ena, s1). tret (Exited ena, s1))"

text \<open>The check on the way out: \<^verbatim>\<open>if (killed(myproc())) exit(-1)\<close>.\<close>

definition usertrap_out :: "'a cons_io_scheme \<Rightarrow> (utrap \<times> 'a cons_io_scheme) res option" where
  "usertrap_out s =
     (case myproc s of None \<Rightarrow> Some (Inl Fault)
      | Some p \<Rightarrow> tbind (killed p s) (\<lambda>(k, s1). if k then exit_killed s1 else tret (To_user, s1)))"

definition after_syscall :: "sys_result \<times> 'a cons_io_scheme \<Rightarrow> (utrap \<times> 'a cons_io_scheme) res option" where
  "after_syscall = (\<lambda>(r, s1).
     case r of Return v \<Rightarrow> usertrap_out s1 | Gone ena \<Rightarrow> tret (Exited ena, s1) | _ \<Rightarrow> tret (Suspended r, s1))"

text \<open>The line that \<open>usertrap_sync\<close> prints before it kills the process.\<close>

definition fault_report :: "int \<Rightarrow> trapframe \<Rightarrow> uint64 \<Rightarrow> uint64 \<Rightarrow> uint8 list \<times> vararg list" where
  "fault_report pid tf esr far =
     (let ec = esr_ec esr; iss = esr_iss esr; p = Reg (of_int pid); elr = Reg (tf_elr tf) in
      if ec = EC_DABT_EL0 then
        (if iss AND ESR_ISS_DFSC_MASK = DFSC_TAG_CHECK
         then (fline ''kill: pid %d MTE tag-check fault, ELR=%p, FAR=%p'', [p, elr, Reg far])
         else (fline ''kill: pid %d data abort ELR=%p, FAR=%p, ISS=%#x'', [p, elr, Reg far, Reg (ucast iss)]))
      else if ec = EC_IABT_EL0 then (fline ''kill: pid %d instruction abort ELR=%p, FAR=%p'', [p, elr, Reg far])
      else (fline ''kill: pid %d illegal sync exception, EC=%#x, ELR=%p, FAR=%p'', [p, Reg (ucast ec), elr, Reg far]))"

definition usertrap_sync :: "kparams \<Rightarrow> 'a cons_io_scheme uaccess \<Rightarrow> trapframe \<Rightarrow> uint64 \<Rightarrow> uint64 \<Rightarrow> 'a cons_io_scheme \<Rightarrow> (utrap \<times> 'a cons_io_scheme) res option" where
  "usertrap_sync kp ua tf esr far s =
     (if esr_ec esr = EC_SVC64 then tbind (syscall kp ua s) after_syscall
      else
        (case myproc s of None \<Rightarrow> Some (Inl Fault)
         | Some p \<Rightarrow>
             (let (fmt, ap) = fault_report (p_pid (pr_proc s p)) tf esr far in
              tbind (printk fmt ap s) exit_killed)))"

definition usertrap_resume :: "'a cons_io_scheme uaccess \<Rightarrow> sys_result \<Rightarrow> 'a cons_io_scheme \<Rightarrow> (utrap \<times> 'a cons_io_scheme) res option" where
  "usertrap_resume ua r s = tbind (syscall_resume ua r s) after_syscall"

definition usertrapret :: "'a procs_scheme \<Rightarrow> (trapframe \<times> 'a procs_scheme) res" where
  "usertrapret s =
     (case myproc s of None \<Rightarrow> Inl Fault
      | Some p \<Rightarrow> (let c = sl_cpu s in
          Inr (p_tf (pr_proc s p), s\<lparr>pr_locks := set_cpu c ((cpus (pr_locks s) c)\<lparr>irq := False\<rparr>) (pr_locks s)\<rparr>)))"

section \<open>What should not happen\<close>

definition trap_unknown :: "uint64 \<Rightarrow> uint64 \<Rightarrow> uint64 \<Rightarrow> 'a cons_io_scheme \<Rightarrow> 'b res option" where
  "trap_unknown esr elr far s =
     tbind (printk (fline ''Unhandled Exception!'') [] s) (\<lambda>s1. tbind (printk (fline ''    ESR=%p'') [Reg esr] s1) (\<lambda>s2.
       tbind (printk (fline ''    ELR=%p'') [Reg elr] s2) (\<lambda>s3. die (fline ''    FAR=%p'') [Reg far] ''unhandled exception'' s3)))"

definition handle_stack_overflow :: "uint64 \<Rightarrow> uint64 \<Rightarrow> uint64 \<Rightarrow> uint64 \<Rightarrow> 'a cons_io_scheme \<Rightarrow> 'b res option" where
  "handle_stack_overflow sp elr esr far s =
     (let p = pr_cur s (sl_cpu s) in
      tbind (printk ([10] @ fline ''=== KERNEL STACK OVERFLOW ==='') [] s) (\<lambda>s1.
        tbind (printk (fline ''cpu %d, pid %d (%s)'') [Reg (of_nat (sl_cpu s)), Reg (case p of None \<Rightarrow> -1 | Some a \<Rightarrow> of_int (p_pid (pr_proc s a))),
            Str (Some (bytes (case p of None \<Rightarrow> ''<none>'' | Some a \<Rightarrow> p_name (pr_proc s a))))] s1) (\<lambda>s2.
          tbind (printk (fline ''    kernel SP = %p (overflowed into the guard)'') [Reg sp] s2) (\<lambda>s3.
            die (fline ''    ELR = %p ESR = %p FAR = %p'') [Reg elr, Reg esr, Reg far] ''kernel stack overflow'' s3))))"

definition SYS_FIELD :: "uint64 \<Rightarrow> nat \<Rightarrow> nat \<Rightarrow> uint64" where
  "SYS_FIELD v sh width = drop_bit sh v AND mask width"

text \<open>\<open>pfr0\<close> is what \<open>ID_AA64PFR0_EL1\<close> reads; its RAS field is four bits from bit 28, 0 on a CPU without the extension.\<close>

definition ID_AA64PFR0_RAS_NONE :: uint64 where [kdefs]: "ID_AA64PFR0_RAS_NONE = 0"

definition serror_is_fatal :: "uint64 \<Rightarrow> uint64 \<Rightarrow> bool" where
  "serror_is_fatal pfr0 esr =
     (if esr AND ESR_IDS \<noteq> 0 \<or> SYS_FIELD pfr0 28 4 = ID_AA64PFR0_RAS_NONE then True
      else (let aet = drop_bit ESR_AET_SHIFT esr AND ESR_AET_MASK in aet \<noteq> ESR_AET_CE \<and> aet \<noteq> ESR_AET_UEO))"

definition trap_serror :: "uint64 \<Rightarrow> trapframe \<Rightarrow> uint64 \<Rightarrow> uint64 \<Rightarrow> 'a cons_io_scheme \<Rightarrow> 'a cons_io_scheme res option" where
  "trap_serror pfr0 tf esr far s =
     tassert (esr_ec esr = EC_SERROR) ''trap_serror: EC %#lx is not SError''
      (if \<not> serror_is_fatal pfr0 esr then tret s
       else die (fline ''SError at ELR=%p, FAR=%p, ESR=%p'') [Reg (tf_elr tf), Reg far, Reg esr] ''uncontainable system error'' s)"

definition trap_fiq :: "trapframe \<Rightarrow> uint64 \<Rightarrow> uint64 \<Rightarrow> 'a cons_io_scheme \<Rightarrow> 'b res option" where
  "trap_fiq tf esr far s = die (fline ''FIQ at ELR=%p, FAR=%p, ESR=%p'') [Reg (tf_elr tf), Reg far, Reg esr] ''unexpected FIQ'' s"

end
