(* ===== verification/TrapSpec.thy ===== *)
theory TrapSpec
  imports Trap SlabSpec
begin

text \<open>
  What the exception handlers promise: a fault in user mode costs the process that made it, and nothing else; a
  process that is marked killed does not get back to user mode from a system call; in the kernel only a fault of
  the copy routines is survived.
\<close>

section \<open>Logging leaves the tables and memory alone\<close>

definition logged :: "'a cons_io_scheme \<Rightarrow> 'a cons_io_scheme \<Rightarrow> bool" where
  "logged s s1 \<longleftrightarrow> (\<exists>k t q. lockeq {} (s\<lparr>cn_log := k, cn_out := cn_out s @ t, cn_seq := q\<rparr>) s1 \<and> kmsg_inv k \<and>
     (next_seq k = next_seq (cn_log s) \<or> next_seq k = next_seq (cn_log s) + 1))"

lemma printk_logged:
  assumes "good {} s" "log_ok s" "fmt_text fmt ap = Some t"
  shows "\<exists>s1. printk fmt ap s = Some (Inr s1) \<and> logged s s1"
  using vprintk_ok [OF assms(1) _ assms(2,3), of KERN_INFO] unfolding printk_def logged_def by blast

section \<open>The page tables of a process\<close>

text \<open>A process has no user address space, or a well-formed one.\<close>

definition space_ok :: "uintptr \<Rightarrow> 'a procs_scheme \<Rightarrow> bool" where
  "space_ok p s \<longleftrightarrow> (case p_pagetable (pr_proc s p) of None \<Rightarrow> True | Some t \<Rightarrow> vm_inv s \<and> pt_ok s 4 t)"

lemma uvmfree_total: "vm_inv s \<Longrightarrow> pt_ok s 4 t \<Longrightarrow> \<exists>s'. uvmfree t s = Inr s'"
  using page_store.freewalk_spec [OF pv.page_store_axioms, of 3] unfolding page_store.free_spec_def [OF pv.page_store_axioms] uvmfree_def
  by (simp add: numeral_eq_Suc) blast

lemma exit_release_total: "space_ok p s \<Longrightarrow> \<exists>s'. exit_release p s = Some (Inr s')"
  using uvmfree_total [of s] by (fastforce simp: space_ok_def exit_release_def tret_def split: option.splits)

section \<open>What taking locks and logging keep\<close>

lemma lockeq_keeps:
  assumes "lockeq {} s s1" "tables_ok s" "space_ok p s"
  shows "tables_ok s1" "space_ok p s1"
proof -
  obtain k where k: "s1 = s\<lparr>pr_locks := k\<rparr>" using assms(1) by (auto simp: lockeq_def)
  show "tables_ok s1"
    using assms(2) ended_locks [OF conjunct1 [OF lockeq_ended [OF assms(1)]]] lists_ok_cong [of s s1] by (simp add: tables_lists k)
  have f: "flag s1 = flag s" by (rule ext) (simp add: flag_def k)
  have "used_pages s1 = used_pages s" by (simp add: used_pages_def page_state_def pa_to_page_def k flag_def)
  moreover have "vm_inv s1 = vm_inv s" using f by (simp add: vm_inv_def kalloc_inv_def layout_ok_def k)
  ultimately show "space_ok p s1" using assms(3) by (simp add: space_ok_def pt_ok_def k split: option.splits)
qed

lemma logs_keep:
  fixes s :: "'a cons_io_scheme"
  assumes "tables_ok s" "space_ok p s"
  shows "tables_ok (s\<lparr>cn_log := k, cn_out := t, cn_seq := q\<rparr>)" "space_ok p (s\<lparr>cn_log := k, cn_out := t, cn_seq := q\<rparr>)"
proof -
  let ?s = "s\<lparr>cn_log := k, cn_out := t, cn_seq := q\<rparr>"
  show "tables_ok ?s" using assms(1) lists_ok_cong [of s ?s] by (simp add: tables_lists)
  have f: "flag ?s = flag s" by (rule ext) (simp add: flag_def)
  have "used_pages ?s = used_pages s" by (simp add: used_pages_def page_state_def pa_to_page_def flag_def)
  moreover have "vm_inv ?s = vm_inv s" using f by (simp add: vm_inv_def kalloc_inv_def layout_ok_def)
  ultimately show "space_ok p ?s" using assms(2) by (simp add: space_ok_def pt_ok_def split: option.splits)
qed

lemma logged_parts:
  assumes "logged s s1"
  shows "pr_proc s1 = pr_proc s" "myproc s1 = myproc s" "pr_initproc s1 = pr_initproc s" "good {} s1" "tab s1 = tab s" "ended {} s s1"
proof -
  obtain k t q where l: "lockeq {} (s\<lparr>cn_log := k, cn_out := cn_out s @ t, cn_seq := q\<rparr>) s1" using assms by (auto simp: logged_def)
  show "pr_proc s1 = pr_proc s" "myproc s1 = myproc s" "pr_initproc s1 = pr_initproc s" "good {} s1" "tab s1 = tab s" "ended {} s s1"
    using lockeqD [OF l] lockeq_ended [OF l] by (simp_all add: myproc_def tab_def ended_def)
qed

lemma logged_keeps: "logged s s1 \<Longrightarrow> tables_ok s \<Longrightarrow> space_ok p s \<Longrightarrow> tables_ok s1 \<and> space_ok p s1"
  using lockeq_keeps logs_keep unfolding logged_def by blast

section \<open>A killed process\<close>

text \<open>What is left of a process when it exits: the tables agree, it is a zombie with status -1, and has no children.\<close>

definition reaped :: "uintptr \<Rightarrow> 'a procs_scheme \<Rightarrow> bool" where
  "reaped p s1 \<longleftrightarrow> (\<exists>s'. scheduler_return p s1 = Some (Inr s') \<and> tables_ok s' \<and> p_state (pr_proc s' p) = ZOMBIE \<and>
     p_xstate (pr_proc s' p) = -1 \<and> (\<forall>q. q \<in> set (pr_allproc s') \<longrightarrow> p_parent (pr_proc s' q) \<noteq> Some p))"

lemma exit_killed_ok:
  assumes "tables_ok s" "myproc s = Some p" "pr_initproc s \<noteq> Some p" "space_ok p s"
  shows "\<exists>ena s1. exit_killed s = Some (Inr (Exited ena, s1)) \<and> reaped p s1"
proof -
  obtain a where "exit_release p s = Some (Inr a)" using exit_release_total [OF assms(4)] by blast
  then obtain ena s1 s' where x: "exit (-1) s = Some (Inr (ena, s1))" "scheduler_return p s1 = Some (Inr s')" using exit_ok [OF assms(1-3)] by blast
  show ?thesis using x exit_tables [OF assms(1,2) x] by (auto simp: exit_killed_def reaped_def tret_def)
qed

lemma regs3_fit: "fmt_text f [Reg 0, Reg 0, Reg 0] \<noteq> None \<Longrightarrow> \<exists>t. fmt_text f [Reg a, Reg b, Reg c] = Some t"
  using fmt_fits [of f "[Reg 0, Reg 0, Reg 0]" _ "[Reg a, Reg b, Reg c]"] by auto

lemma regs4_fit: "fmt_text f [Reg 0, Reg 0, Reg 0, Reg 0] \<noteq> None \<Longrightarrow> \<exists>t. fmt_text f [Reg a, Reg b, Reg c, Reg d] = Some t"
  using fmt_fits [of f "[Reg 0, Reg 0, Reg 0, Reg 0]" _ "[Reg a, Reg b, Reg c, Reg d]"] by auto

lemma fault_formats_fit:
  "\<exists>t. fmt_text (fline ''kill: pid %d MTE tag-check fault, ELR=%p, FAR=%p'') [Reg a, Reg b, Reg c] = Some t"
  "\<exists>t. fmt_text (fline ''kill: pid %d data abort ELR=%p, FAR=%p, ISS=%#x'') [Reg a, Reg b, Reg c, Reg d] = Some t"
  "\<exists>t. fmt_text (fline ''kill: pid %d instruction abort ELR=%p, FAR=%p'') [Reg a, Reg b, Reg c] = Some t"
  "\<exists>t. fmt_text (fline ''kill: pid %d illegal sync exception, EC=%#x, ELR=%p, FAR=%p'') [Reg a, Reg b, Reg c, Reg d] = Some t"
  by (rule regs3_fit, code_simp) (rule regs4_fit, code_simp, rule regs3_fit, code_simp, rule regs4_fit, code_simp)

lemma fault_report_fits: "\<exists>t. (case fault_report pid tf esr far of (fmt, ap) \<Rightarrow> fmt_text fmt ap) = Some t"
  using fault_formats_fit by (simp add: fault_report_def Let_def del: ex_simps)

text \<open>C15: a fault in user mode costs only the process that made it. Whatever the syndrome and the address, an exception
  that is not a system call prints one line and ends in \<open>exit(-1)\<close>, without a panic: when the scheduler has switched
  away from the process it is a zombie with status -1 and no children, and the process tables agree. The process must
  not be init, whose exit is a panic.\<close>

theorem user_fault_kills:
  fixes s :: "'a cons_io_scheme"
  assumes "tables_ok s" "log_ok s" "myproc s = Some p" "pr_initproc s \<noteq> Some p" "space_ok p s" "esr_ec esr \<noteq> EC_SVC64"
  shows "\<exists>ena s1 s'. usertrap_sync kp ua tf esr far s = Some (Inr (Exited ena, s1)) \<and> scheduler_return p s1 = Some (Inr s') \<and> tables_ok s' \<and>
    p_state (pr_proc s' p) = ZOMBIE \<and> p_xstate (pr_proc s' p) = -1 \<and> (\<forall>q. q \<in> set (pr_allproc s') \<longrightarrow> p_parent (pr_proc s' q) \<noteq> Some p)"
proof -
  obtain fmt ap where r: "fault_report (p_pid (pr_proc s p)) tf esr far = (fmt, ap)" by fastforce
  obtain t where t: "fmt_text fmt ap = Some t" using fault_report_fits [of "p_pid (pr_proc s p)" tf esr far] r by auto
  have g: "good {} s" using assms(1) by (simp add: tables_lists)
  obtain s0 where s0: "printk fmt ap s = Some (Inr s0)" "logged s s0" using printk_logged [OF g assms(2) t] by blast
  note l = logged_parts [OF s0(2)]
  obtain ena s1 where "exit_killed s0 = Some (Inr (Exited ena, s1))" "reaped p s1"
    using exit_killed_ok [of s0 p] logged_keeps [OF s0(2) assms(1,5)] assms(3,4) l(2,3) by auto
  moreover have "usertrap_sync kp ua tf esr far s = exit_killed s0" using assms(3,6) r s0(1) by (simp add: usertrap_sync_def)
  ultimately show ?thesis by (auto simp: reaped_def)
qed

lemma killed_ok:
  assumes "good {} s"
  shows "\<exists>s'. killed p s = Some (Inr (p_killed (pr_proc s p), s')) \<and> lockeq {} s s'"
proof -
  obtain s1 where s1: "acquire (p_lock p) s = Some (Inr s1)" "lockeq {p_lock p} s s1" using acquire_lockeq [OF assms, of "p_lock p"] by auto
  obtain s2 where s2: "release (p_lock p) s1 = Some (Inr s2)" "lockeq {} s1 s2" using release_lockeq [OF lockeqD(1) [OF s1(2)], of "p_lock p"] by auto
  show ?thesis using s1(1) s2(1) lockeq_trans [OF s1(2) s2(2)] lockeqD(3) [OF s1(2)] by (simp add: killed_def tret_def)
qed

text \<open>C34: a system call returns to user mode unless the process was killed meanwhile. After the handler of a call has returned,
  a process that is marked killed exits with -1: it ends as a zombie without children, and user mode is not
  reached. A process that is not marked goes back to user mode, and nothing but the locks was touched.\<close>

theorem killed_process_exits:
  fixes s :: "'a cons_io_scheme"
  assumes "tables_ok s" "myproc s = Some p" "pr_initproc s \<noteq> Some p" "space_ok p s"
  shows "\<exists>r s1. after_syscall (Return v, s) = Some (Inr (r, s1)) \<and>
    (if p_killed (pr_proc s p)
     then (\<exists>ena s'. r = Exited ena \<and> scheduler_return p s1 = Some (Inr s') \<and> tables_ok s' \<and> p_state (pr_proc s' p) = ZOMBIE \<and>
       p_xstate (pr_proc s' p) = -1 \<and> (\<forall>q. q \<in> set (pr_allproc s') \<longrightarrow> p_parent (pr_proc s' q) \<noteq> Some p))
     else r = To_user \<and> lockeq {} s s1)"
proof -
  have g: "good {} s" using assms(1) by (simp add: tables_lists)
  obtain s1 where s1: "killed p s = Some (Inr (p_killed (pr_proc s p), s1))" "lockeq {} s s1" using killed_ok [OF g] by blast
  have run: "after_syscall (Return v, s) = (if p_killed (pr_proc s p) then exit_killed s1 else tret (To_user, s1))"
    using assms(2) s1(1) by (simp add: after_syscall_def usertrap_out_def)
  have "\<exists>ena s2. exit_killed s1 = Some (Inr (Exited ena, s2)) \<and> reaped p s2"
    by (rule exit_killed_ok [OF lockeq_keeps(1) [OF s1(2) assms(1,4)] _ _ lockeq_keeps(2) [OF s1(2) assms(1,4)]]) (use assms(2,3) lockeqD(9,11) [OF s1(2)] in simp_all)
  then show ?thesis using s1(2) by (auto simp: run reaped_def tret_def)
qed

section \<open>Kernel mode\<close>

text \<open>The line and the panic of a synchronous exception in the kernel.\<close>

definition cause :: "uint64 \<Rightarrow> string" where
  "cause esr =
     (let ec = esr_ec esr in
      if ec = EC_DABT_EL1 then ''data abort'' else if ec = EC_IABT_EL1 then ''instruction abort''
      else if ec = EC_SVC64 then ''unexpected svc'' else ''unhandled sync exception'')"

lemma die_ok:
  assumes "good {} s" "log_ok s" "\<exists>t. fmt_text fmt ap = Some t"
  shows "die fmt ap msg s = Some (Inl (Panic msg))"
proof -
  obtain s1 where "printk fmt ap s = Some (Inr s1)" using printk_logged [OF assms(1,2)] assms(3) by blast
  then show ?thesis by (simp add: die_def)
qed

lemma logged_log:
  assumes "logged s s1" "unat (next_seq (cn_log s)) + Suc n < 2 ^ 64 - 1"
  shows "log_ok s1" "unat (next_seq (cn_log s1)) + n < 2 ^ 64 - 1"
proof -
  obtain k t q where l: "lockeq {} (s\<lparr>cn_log := k, cn_out := cn_out s @ t, cn_seq := q\<rparr>) s1" "kmsg_inv k"
    "next_seq k = next_seq (cn_log s) \<or> next_seq k = next_seq (cn_log s) + 1" using assms(1) by (auto simp: logged_def)
  have c: "cn_log s1 = k" using l(1) by (auto simp: lockeq_def)
  have "unat (next_seq (cn_log s) + 1) = unat (next_seq (cn_log s)) + 1" using assms(2) by (subst unat_add_no_wrap) simp_all
  then show u: "unat (next_seq (cn_log s1)) + n < 2 ^ 64 - 1" using l(3) assms(2) by (auto simp: c)
  then show "log_ok s1" using l(2) by (simp add: log_ok_def c KMSG_NO_SEQ_def word_less_nat_alt unsigned_minus_1_eq_mask mask_eq_exp_minus_1)
qed

lemma sync_formats_fit:
  "\<exists>t. fmt_text (fline ''Data Abort at ELR=%p, FAR=%p, ISS=%#x'') [Reg a, Reg b, Reg c] = Some t"
  "\<exists>t. fmt_text (fline ''Instruction Abort at ELR=%p, FAR=%p, ISS=%#x'') [Reg a, Reg b, Reg c] = Some t"
  by (rule regs3_fit, code_simp)+

lemma regs2_fit: "fmt_text f [Reg 0, Reg 0] \<noteq> None \<Longrightarrow> \<exists>t. fmt_text f [Reg a, Reg b] = Some t"
  using fmt_fits [of f "[Reg 0, Reg 0]" _ "[Reg a, Reg b]"] by auto

lemma regs1_fit: "fmt_text f [Reg 0] \<noteq> None \<Longrightarrow> \<exists>t. fmt_text f [Reg a] = Some t"
  using fmt_fits [of f "[Reg 0]" _ "[Reg a]"] by auto

lemma svc_format_fits: "\<exists>t. fmt_text (fline ''SVC from Kernel (unexpected), ESR=%p, ELR=%p'') [Reg a, Reg b] = Some t"
  "\<exists>t. fmt_text (fline ''Sync Exception: EC=%#x, ISS=%#x'') [Reg a, Reg b] = Some t"
  by (rule regs2_fit, code_simp)+

lemma unhandled_formats_fit:
  "\<exists>t. fmt_text (fline ''    ELR=%p (faulting instruction)'') [Reg a] = Some t"
  "\<exists>t. fmt_text (fline ''    FAR=%p (fault address)'') [Reg a] = Some t"
  by (rule regs1_fit, code_simp)+

text \<open>What the kernel does about its own synchronous exceptions. A data abort while the current process has armed \<open>onfault\<close> resumes at
  that address, with the handler disarmed and nothing else changed. Every other exception, an armed process or not,
  prints its report and panics with the message of its class; the handler never returns to the faulting instruction.\<close>

theorem kernel_fault_dispositions:
  fixes s :: "'a cons_io_scheme"
  assumes "good {} s" "kmsg_inv (cn_log s)" "unat (next_seq (cn_log s)) + 3 < 2 ^ 64 - 1"
  shows "trap_sync tf esr far s =
    (case myproc s of
       Some p \<Rightarrow> if esr_ec esr = EC_DABT_EL1 \<and> p_onfault (pr_proc s p) \<noteq> 0
         then Some (Inr (tf\<lparr>tf_elr := p_onfault (pr_proc s p)\<rparr>, upd_proc p (\<lambda>q. q\<lparr>p_onfault := 0\<rparr>) s))
         else Some (Inl (Panic (cause esr)))
     | None \<Rightarrow> Some (Inl (Panic (cause esr))))"
proof -
  have l: "log_ok s" using assms(2,3) by (simp add: log_ok_def KMSG_NO_SEQ_def word_less_nat_alt unsigned_minus_1_eq_mask mask_eq_exp_minus_1)
  note d = die_ok [OF assms(1) l]
  show ?thesis
  proof (cases "esr_ec esr \<in> {EC_DABT_EL1, EC_IABT_EL1, EC_SVC64}")
    case True
    then show ?thesis using d [OF sync_formats_fit(1)] d [OF sync_formats_fit(2)] d [OF svc_format_fits(1)]
      by (auto simp: trap_sync_def cause_def Let_def tret_def kdefs split: option.split)
  next
    case False
    let ?iss = "Reg (ucast (esr_iss esr))"
    obtain s1 where s1: "printk (fline ''Sync Exception: EC=%#x, ISS=%#x'') [Reg (ucast (esr_ec esr)), ?iss] s = Some (Inr s1)" "logged s s1"
      using printk_logged [OF assms(1) l] svc_format_fits(2) by blast
    note l1 = logged_log [OF s1(2), of 2] and g1 = logged_parts(4) [OF s1(2)]
    obtain s2 where s2: "printk (fline ''    ELR=%p (faulting instruction)'') [Reg (tf_elr tf)] s1 = Some (Inr s2)" "logged s1 s2"
      using printk_logged [OF g1 l1(1)] unhandled_formats_fit(1) assms(3) by fastforce
    have "log_ok s2" using logged_log(1) [OF s2(2), of 1] l1(2) assms(3) by simp
    from die_ok [OF logged_parts(4) [OF s2(2)] this unhandled_formats_fit(2)]
    have "die (fline ''    FAR=%p (fault address)'') [Reg far] ''unhandled sync exception'' s2 = Some (Inl (Panic ''unhandled sync exception''))" .
    then show ?thesis using False s1(1) s2(1) by (auto simp: trap_sync_def cause_def Let_def split: option.split)
  qed
qed

section \<open>Interrupts\<close>

text \<open>The source of an interrupt, and whether it is served by a thread.\<close>

definition source :: "uint32 \<Rightarrow> 'a irqs_scheme \<Rightarrow> uintptr option" where
  "source intid s = (if intid \<ge> in_nirq s then None else in_srcs s intid)"

definition sourced_by :: "filter \<Rightarrow> uint32 \<Rightarrow> 'a irqs_scheme \<Rightarrow> bool" where
  "sourced_by g intid s \<longleftrightarrow> (case source intid s of None \<Rightarrow> False | Some a \<Rightarrow> is_filter (in_src s a) = g)"

definition counted :: "uint32 \<Rightarrow> 'a irqs_scheme \<Rightarrow> uintptr \<Rightarrow> intr_src" where
  "counted intid s =
     (case source intid s of None \<Rightarrow> in_src s
      | Some a \<Rightarrow> (in_src s)(a := (in_src s a)\<lparr>is_count := is_count (in_src s a) + 1,
          is_pending := (is_pending (in_src s a) \<or> is_filter (in_src s a) = Console_filter)\<rparr>))"

lemma wake_irqs [simp]:
  fixes s :: "'a irqs_scheme"
  shows "in_gic (fold (wake chn q) ps s) = in_gic s" "in_src (fold (wake chn q) ps s) = in_src s" "in_resched (fold (wake chn q) ps s) = in_resched s"
proof -
  have "in_gic (fold (wake chn q) ps s) = in_gic s \<and> in_src (fold (wake chn q) ps s) = in_src s \<and> in_resched (fold (wake chn q) ps s) = in_resched s"
    by (induction ps arbitrary: s) (auto simp: wake_def upd_proc_def)
  then show "in_gic (fold (wake chn q) ps s) = in_gic s" "in_src (fold (wake chn q) ps s) = in_src s" "in_resched (fold (wake chn q) ps s) = in_resched s" by simp_all
qed

lemma stray_fits: "\<exists>t. fmt_text stray_format [Reg a] = Some t"
proof -
  have "fmt_text stray_format [Reg 0] \<noteq> None" by code_simp
  then show ?thesis using fmt_fits [of stray_format "[Reg 0]" _ "[Reg a]"] by auto
qed

text \<open>What dispatching an interrupt leaves behind.\<close>

definition dispatched :: "uint32 \<Rightarrow> 'a irqs_scheme \<Rightarrow> 'a irqs_scheme \<Rightarrow> bool" where
  "dispatched intid s s1 \<longleftrightarrow> ended {} s s1 \<and> pr_cur s1 = pr_cur s \<and> pr_allproc s1 = pr_allproc s \<and> in_gic s1 = in_gic s \<and> in_src s1 = counted intid s \<and>
     in_resched s1 = (if sourced_by Timer_tick intid s then (in_resched s)(sl_cpu s := True) else in_resched s) \<and>
     (if sourced_by Console_filter intid s
      then pr_runq s1 = pr_runq s @ filter (asleep_on (the (source intid s)) (myproc s) s) (pr_allproc s) \<and>
        (\<forall>p. pr_proc s1 p = (if p \<in> set (pr_allproc s) \<and> asleep_on (the (source intid s)) (myproc s) s p then (pr_proc s p)\<lparr>p_state := RUNNABLE\<rparr> else pr_proc s p))
      else pr_runq s1 = pr_runq s \<and> pr_proc s1 = pr_proc s)"

lemma lockeq_upd_src:
  assumes "lockeq H s s1"
  shows "lockeq H (upd_src a g s) (upd_src a g s1)"
proof -
  obtain k where "s1 = s\<lparr>pr_locks := k\<rparr>" "locks_good (sl_cpu s) H k" "\<forall>d. d \<noteq> sl_cpu s \<longrightarrow> cpus k d = cpus (pr_locks s) d"
    using assms by (auto simp: lockeq_def)
  then show ?thesis unfolding lockeq_def by (intro exI [of _ k]) (simp add: upd_src_def)
qed

lemma fold_wake_lockeq: "lockeq H x y \<Longrightarrow> lockeq H (fold (wake chn q) ps x) (fold (wake chn q) ps y)"
  by (induction ps arbitrary: x y) (simp_all add: wake_lockeq)

lemma post_pending:
  fixes s :: "'a irqs_scheme"
  assumes "good {} s"
  shows "\<exists>s1. tbind (acquire ithread_lock s) (\<lambda>s2. tbind (release ithread_lock (upd_src a g s2)) (\<lambda>s3. tbind (wakeup a s3) (\<lambda>s4. tret (r, s4)))) = Some (Inr (r, s1)) \<and>
    lockeq {} (fold (wake a (myproc s)) (pr_allproc s) (upd_src a g s)) s1"
proof -
  obtain s2 where s2: "acquire ithread_lock s = Some (Inr s2)" "lockeq {ithread_lock} s s2"
    using acquire_lockeq [OF assms, of ithread_lock] by auto
  have u: "lockeq {ithread_lock} (upd_src a g s) (upd_src a g s2)" by (rule lockeq_upd_src [OF s2(2)])
  then obtain s3 where s3: "release ithread_lock (upd_src a g s2) = Some (Inr s3)" "lockeq {} (upd_src a g s2) s3"
    using release_lockeq [OF lockeqD(1) [OF u], of ithread_lock] by auto
  have v: "lockeq {} (upd_src a g s) s3" by (rule lockeq_trans [OF u s3(2)])
  obtain s4 where s4: "wakeup a s3 = Some (Inr s4)" "lockeq {} (fold (wake a (myproc s3)) (pr_allproc s3) s3) s4"
    using wakeup_ok [OF lockeqD(1) [OF v], of a] by blast
  have m: "myproc s3 = myproc s" "pr_allproc s3 = pr_allproc s" using v by (auto simp: lockeq_def upd_src_def myproc_def)
  have "lockeq {} (fold (wake a (myproc s)) (pr_allproc s) (upd_src a g s)) (fold (wake a (myproc s)) (pr_allproc s) s3)" by (rule fold_wake_lockeq [OF v])
  then have "lockeq {} (fold (wake a (myproc s)) (pr_allproc s) (upd_src a g s)) s4" using s4(2) unfolding m by (rule lockeq_trans)
  then show ?thesis using s2(1) s3(1) s4(1) by (auto simp: tret_def)
qed

lemma logged_irqs:
  fixes s :: "'a irqs_scheme"
  assumes "logged s s1"
  shows "in_gic s1 = in_gic s" "in_src s1 = in_src s" "in_resched s1 = in_resched s"
  using assms by (auto simp: logged_def lockeq_def)

lemma intr_dispatch_ok:
  fixes s :: "'a irqs_scheme"
  assumes g: "good {} s" and l: "log_ok s" and d: "distinct (pr_allproc s)"
  shows "\<exists>res s1. intr_dispatch intid s = Some (Inr (res, s1)) \<and> (res = FILTER_SCHEDULE_THREAD \<longleftrightarrow> sourced_by Console_filter intid s) \<and> dispatched intid s s1"
proof (cases "source intid s")
  case None
  obtain t where "fmt_text stray_format [Reg (ucast intid)] = Some t" using stray_fits by blast
  then obtain s1 where s1: "printk stray_format [Reg (ucast intid)] s = Some (Inr s1)" "logged s s1" using printk_logged [OF g l] by blast
  have "intr_dispatch intid s = Some (Inr (FILTER_STRAY, s1))" using None s1(1) by (simp add: intr_dispatch_def source_def tret_def)
  moreover have "dispatched intid s s1" using None logged_parts(1,5,6) [OF s1(2)] logged_irqs [OF s1(2)]
    by (simp add: dispatched_def sourced_by_def counted_def tab_def)
  ultimately show ?thesis using None by (auto simp: sourced_by_def kdefs)
next
  case (Some a)
  let ?u = "upd_src a (\<lambda>x. x\<lparr>is_count := is_count x + 1\<rparr>) s"
  show ?thesis
  proof (cases "is_filter (in_src s a)")
    case Timer_tick
    let ?s = "snd (timer_tick ?u)"
    have "intr_dispatch intid s = Some (Inr (FILTER_HANDLED, ?s))" using Some Timer_tick
      by (simp add: intr_dispatch_def source_def tret_def run_filter_def upd_src_def timer_tick_def Let_def kdefs)
    moreover have "dispatched intid s ?s" using Some Timer_tick g
      by (cases "sl_cpu s = 0") (simp_all add: dispatched_def sourced_by_def counted_def ended_def timer_tick_def Let_def upd_src_def fun_eq_iff)
    ultimately show ?thesis using Some Timer_tick by (auto simp: sourced_by_def kdefs)
  next
    case Console_filter
    let ?p = "\<lambda>x. x\<lparr>is_pending := True\<rparr>"
    have "good {} ?u" using g by (simp add: upd_src_def)
    from post_pending [OF this, of a ?p FILTER_SCHEDULE_THREAD] obtain s1 where
      s1: "tbind (acquire ithread_lock ?u) (\<lambda>s2. tbind (release ithread_lock (upd_src a ?p s2)) (\<lambda>s3. tbind (wakeup a s3) (\<lambda>s4. tret (FILTER_SCHEDULE_THREAD, s4)))) = Some (Inr (FILTER_SCHEDULE_THREAD, s1))"
      "lockeq {} (fold (wake a (myproc ?u)) (pr_allproc ?u) (upd_src a ?p ?u)) s1" by blast
    let ?w = "upd_src a ?p ?u"
    have run: "intr_dispatch intid s = Some (Inr (FILTER_SCHEDULE_THREAD, s1))" using Some Console_filter s1(1)
      by (simp add: intr_dispatch_def source_def run_filter_def console_filter_def upd_src_def)
    have u: "myproc ?u = myproc s" "pr_allproc ?u = pr_allproc s" "pr_proc ?w = pr_proc s" "pr_runq ?w = pr_runq s" "sl_cpu ?w = sl_cpu s" "pr_locks ?w = pr_locks s"
      "asleep_on a (myproc s) ?w = asleep_on a (myproc s) s" "pr_cur ?w = pr_cur s" "pr_allproc ?w = pr_allproc s"
      by (simp_all add: upd_src_def myproc_def asleep_on_def fun_eq_iff)
    note q = s1(2) [unfolded u(1,2)]
    have x: "in_gic s1 = in_gic s" "in_src s1 = in_src ?w" "in_resched s1 = in_resched s" using q by (auto simp: lockeq_def) (simp_all add: upd_src_def)
    have "dispatched intid s s1" unfolding dispatched_def sourced_by_def counted_def
      using Some Console_filter x conjunct1 [OF lockeq_ended [OF q]] lockeqD [OF q] wake_fold [OF d, of a "myproc s" ?w] u
      by (simp add: ended_def) (simp add: upd_src_def)
    then show ?thesis using run Some Console_filter by (auto simp: sourced_by_def)
  qed
qed

lemma gic_parts [simp]:
  "sl_cpu (gic_eoi i s) = sl_cpu s" "sl_cpu (gic_deactivate i s) = sl_cpu s" "pr_cur (gic_eoi i s) = pr_cur s" "pr_cur (gic_deactivate i s) = pr_cur s"
  "pr_locks (gic_eoi i s) = pr_locks s" "pr_locks (gic_deactivate i s) = pr_locks s" "pr_proc (gic_eoi i s) = pr_proc s" "pr_proc (gic_deactivate i s) = pr_proc s"
  "in_src (gic_eoi i s) = in_src s" "in_src (gic_deactivate i s) = in_src s" "in_resched (gic_eoi i s) = in_resched s" "in_resched (gic_deactivate i s) = in_resched s"
  "pr_runq (gic_eoi i s) = pr_runq s" "pr_runq (gic_deactivate i s) = pr_runq s"
  "in_gic (gic_eoi i s) = in_gic s @ [Eoi (sl_cpu s) i]" "in_gic (gic_deactivate i s) = in_gic s @ [Dir (sl_cpu s) i]"
  by (simp_all add: gic_eoi_def gic_deactivate_def)

lemma yield_total:
  assumes "good {} s" "myproc s = Some p"
  shows "\<exists>ena s1. yield s = Some (Inr (ena, upd_proc p (\<lambda>q. q\<lparr>p_state := RUNNABLE\<rparr>) s1)) \<and> lockeq {p_lock p} s s1"
proof -
  obtain s1 where s1: "acquire (p_lock p) s = Some (Inr s1)" "lockeq {p_lock p} s s1" using acquire_lockeq [OF assms(1), of "p_lock p"] by auto
  let ?u = "upd_proc p (\<lambda>q. q\<lparr>p_state := RUNNABLE\<rparr>) s1"
  have "good {p_lock p} ?u" "myproc ?u = Some p" using lockeqD(1,11) [OF s1(2)] assms(2) by simp_all
  then obtain ena where "sched ?u = Some (Inr (ena, ?u))" using sched_ok [where s = ?u and p = p] by auto
  then show ?thesis using s1 assms(2) by (auto simp: yield_def)
qed

text \<open>C23: an interrupt is completed exactly once. For every interrupt that is neither spurious nor the stop request, \<open>trap_irq\<close>
  does not panic: it drops the running priority, and deactivates the interrupt at once unless a thread serves the
  source. In that case the source is left pending and every process that sleeps on it is runnable and queued; the
  interrupt stays active until the thread deactivates it. The source's count is one higher, no other source
  changes, and the interrupted process gives up the CPU exactly when a clock tick asked for it.\<close>

theorem irq_completed:
  fixes s :: "'a irqs_scheme"
  assumes "tables_ok s" "log_ok s" "gic_acknwlg iar = intid" "intid \<noteq> GIC_SPURIOUS" "intid \<noteq> IRQ_PANIC"
  shows "\<exists>r s'. trap_irq iar s = Some (Inr (r, s')) \<and>
    in_gic s' = in_gic s @ Eoi (sl_cpu s) intid # (if sourced_by Console_filter intid s then [] else [Dir (sl_cpu s) intid]) \<and>
    in_src s' = counted intid s \<and>
    (sourced_by Console_filter intid s \<longrightarrow> (\<forall>p \<in> set (pr_allproc s). asleep_on (the (source intid s)) (myproc s) s p \<longrightarrow>
       p_state (pr_proc s' p) = RUNNABLE \<and> p \<in> set (pr_runq s'))) \<and>
    (if myproc s \<noteq> None \<and> (in_resched s (sl_cpu s) \<or> sourced_by Timer_tick intid s)
     then (\<exists>ena. r = Preempted ena) \<and> \<not> in_resched s' (sl_cpu s) \<and> p_state (pr_proc s' (the (myproc s))) = RUNNABLE \<and> good {p_lock (the (myproc s))} s'
     else r = Resumed \<and> good {} s')"
proof -
  have g: "good {} s" and d: "distinct (pr_allproc s)" using assms(1) by (simp_all add: tables_lists lists_ok_def hash_ok_def)
  obtain res s1 where x: "intr_dispatch intid s = Some (Inr (res, s1))" "res = FILTER_SCHEDULE_THREAD \<longleftrightarrow> sourced_by Console_filter intid s" "dispatched intid s s1"
    using intr_dispatch_ok [OF g assms(2) d, of intid] by blast
  define s3 where "s3 = (if res \<noteq> FILTER_SCHEDULE_THREAD then gic_deactivate intid (gic_eoi intid s1) else gic_eoi intid s1)"
  have e: "sl_cpu s3 = sl_cpu s" "good {} s3" "myproc s3 = myproc s" "in_src s3 = counted intid s"
    "in_gic s3 = in_gic s @ Eoi (sl_cpu s) intid # (if sourced_by Console_filter intid s then [] else [Dir (sl_cpu s) intid])"
    "in_resched s3 (sl_cpu s) \<longleftrightarrow> in_resched s (sl_cpu s) \<or> sourced_by Timer_tick intid s" "pr_proc s3 = pr_proc s1" "pr_runq s3 = pr_runq s1"
    using x(2,3) by (auto simp: s3_def dispatched_def ended_def myproc_def)
  have w: "p_state (pr_proc s3 p) = RUNNABLE \<and> p \<in> set (pr_runq s3)"
    if "sourced_by Console_filter intid s" "p \<in> set (pr_allproc s)" "asleep_on (the (source intid s)) (myproc s) s p" for p
    using x(3) that unfolding dispatched_def e(7,8) by simp
  have run: "trap_irq iar s = (if in_resched s3 (sl_cpu s3) \<and> myproc s3 \<noteq> None
     then tbind (yield (s3\<lparr>in_resched := (in_resched s3)(sl_cpu s3 := False)\<rparr>)) (\<lambda>(ena, s4). tret (Preempted ena, s4)) else tret (Resumed, s3))"
    using assms(3-5) x(1) by (auto simp add: trap_irq_def Let_def s3_def)
  show ?thesis
  proof (cases "in_resched s3 (sl_cpu s3) \<and> myproc s3 \<noteq> None")
    case False
    then have "trap_irq iar s = Some (Inr (Resumed, s3))" unfolding run tret_def by (rule if_not_P)
    then show ?thesis using False e w by auto
  next
    case True
    then obtain p where p: "myproc s = Some p" using e(3) by auto
    let ?y = "s3\<lparr>in_resched := (in_resched s3)(sl_cpu s3 := False)\<rparr>"
    have "good {} ?y" "myproc ?y = Some p" using e(2,3) p by (simp_all add: myproc_def)
    from yield_total [OF this] obtain ena s4 where y: "yield ?y = Some (Inr (ena, upd_proc p (\<lambda>q. q\<lparr>p_state := RUNNABLE\<rparr>) s4))" "lockeq {p_lock p} ?y s4" by blast
    let ?z = "upd_proc p (\<lambda>q. q\<lparr>p_state := RUNNABLE\<rparr>) s4"
    have r: "trap_irq iar s = Some (Inr (Preempted ena, ?z))" using True y(1) by (simp add: run tret_def)
    have z: "in_gic ?z = in_gic s3" "in_src ?z = in_src s3" "\<not> in_resched ?z (sl_cpu s)" "pr_proc ?z = (pr_proc s3)(p := (pr_proc s3 p)\<lparr>p_state := RUNNABLE\<rparr>)"
      "pr_runq ?z = pr_runq s3" "good {p_lock p} ?z" using y(2) e(1) by (auto simp: lockeq_def upd_proc_def)
    show ?thesis using True r z e w p by (intro exI [of _ "Preempted ena"] exI [of _ ?z]) auto
  qed
qed

section \<open>A machine with a user process\<close>

text \<open>Process 0x100 has an empty address space at \<open>root1\<close> and is not init; process 0x200 sleeps on the source of interrupt 33.\<close>

definition demo_live :: cons_io where
  "demo_live = (vm.extend demo_vm (vm.more demo_cons))\<lparr>pr_initproc := Some 0x200,
     pr_proc := (pr_proc demo_procs)(0x100 := (pr_proc demo_procs 0x100)\<lparr>p_pagetable := Some root1\<rparr>)\<rparr>"

lemma demo_live_parts [simp]:
  "sl_cpu demo_live = 0" "pr_cur demo_live = pr_cur demo_procs" "pr_locks demo_live = no_locks" "pr_initproc demo_live = Some 0x200" "cn_log demo_live = kmsg_init"
  "pr_proc demo_live = (pr_proc demo_procs)(0x100 := (pr_proc demo_procs 0x100)\<lparr>p_pagetable := Some root1\<rparr>)" "myproc demo_live = Some 0x100"
  "pr_allproc demo_live = pr_allproc demo_procs" "pr_pidhash demo_live = pr_pidhash demo_procs" "pr_runq demo_live = pr_runq demo_procs"
  by (simp_all add: demo_live_def myproc_def demo_cons_def vm.defs procs.defs cons_io.defs demo_procs_def kstacks.defs slabs.defs no_stacks_def)

lemma demo_live_ok: "tables_ok demo_live" "space_ok 0x100 demo_live" "log_ok demo_live" "good {} demo_live" "unat (next_seq (cn_log demo_live)) + 3 < 2 ^ 64 - 1"
proof -
  have o: "lists_ok demo_live" by (rule lists_ok_cong [of demo_procs]) (use demo_procs_ok in \<open>simp_all add: tables_lists idle_proc_def\<close>)
  then show "tables_ok demo_live" using no_locks_good by (simp add: tables_lists)
  obtain e where e: "demo_live = vm.extend demo_vm e"
  proof
    show "demo_live = vm.extend demo_vm (vm.more demo_live)" by (rule vm.equality) (simp_all add: demo_live_def vm.defs)
  qed
  have "used_pages demo_live = used_pages demo_vm" "vm_page demo_live = vm_page demo_vm" "segs demo_live = segs demo_vm"
    unfolding e by (simp_all add: used_pages_def page_state_def pa_to_page_def flag_def vm.defs)
  then show "space_ok 0x100 demo_live" using demo_inv demo_trees(1) kalloc_inv_extend [of demo_vm e]
    by (simp add: space_ok_def vm_inv_def pt_ok_def e [symmetric])
  have n: "next_seq kmsg_init = 0" by (simp only: kmsg_init_def kmsg.simps)
  then show "log_ok demo_live" using kmsg_inv_init by (simp add: log_ok_def KMSG_NO_SEQ_def word_less_nat_alt unsigned_minus_1_eq_mask)
  show "good {} demo_live" "unat (next_seq (cn_log demo_live)) + 3 < 2 ^ 64 - 1" using no_locks_good n by simp_all
qed

text \<open>A data abort in user mode at address 0.\<close>

theorem user_fault_kills_witness:
  "\<exists>ena s1 s'. usertrap_sync \<lparr>kp_blobs = demo_blobs, kp_forkret = 0\<rparr> (user_access 0xF00) zero_tf 0x90000000 0 demo_live = Some (Inr (Exited ena, s1)) \<and>
    scheduler_return 0x100 s1 = Some (Inr s') \<and> p_state (pr_proc s' 0x100) = ZOMBIE \<and> p_xstate (pr_proc s' 0x100) = -1"
proof -
  have "pr_initproc demo_live \<noteq> Some 0x100" "esr_ec 0x90000000 \<noteq> EC_SVC64" by simp code_simp
  from user_fault_kills [OF demo_live_ok(1,3) demo_live_parts(7) this(1) demo_live_ok(2) this(2), of "\<lparr>kp_blobs = demo_blobs, kp_forkret = 0\<rparr>" "user_access 0xF00" zero_tf 0]
  show ?thesis by blast
qed

theorem killed_process_exits_witness:
  "\<exists>s1. after_syscall (Return 0, demo_live) = Some (Inr (To_user, s1)) \<and> lockeq {} demo_live s1"
proof -
  have "pr_initproc demo_live \<noteq> Some 0x100" "\<not> p_killed (pr_proc demo_live 0x100)" by (simp_all add: idle_proc_def)
  then show ?thesis using killed_process_exits [OF demo_live_ok(1) demo_live_parts(7) _ demo_live_ok(2), of 0] by auto
qed

theorem kernel_fault_dispositions_witness: "trap_sync zero_tf 0x94000000 0 demo_live = Some (Inl (Panic ''data abort''))"
proof -
  have "kmsg_inv (cn_log demo_live)" using kmsg_inv_init by simp
  moreover have "cause 0x94000000 = ''data abort''" by code_simp
  ultimately show ?thesis using kernel_fault_dispositions [OF demo_live_ok(4) _ demo_live_ok(5), of zero_tf "0x94000000" 0] by (simp add: idle_proc_def)
qed

definition demo_irqs :: irqs where
  "demo_irqs = cons_io.extend demo_live (irqs.fields ((\<lambda>_. None)(33 := Some 0x900))
     (\<lambda>_. \<lparr>is_name = ''console'', is_filter = Console_filter, is_handler = Some Console_intr, is_count = 4, is_stray = 0, is_irq = 33, is_pending = False\<rparr>)
     64 (\<lambda>_. False) (\<lambda>_. False) [] 0 0 (\<lambda>_. 0))"

theorem irq_completed_witness:
  "\<exists>s'. trap_irq 33 demo_irqs = Some (Inr (Resumed, s')) \<and> in_gic s' = [Eoi 0 33] \<and> is_pending (in_src s' 0x900) \<and> p_state (pr_proc s' 0x200) = RUNNABLE"
proof -
  have p: "sl_cpu demo_irqs = 0" "pr_cur demo_irqs = pr_cur demo_live" "pr_locks demo_irqs = no_locks" "pr_proc demo_irqs = pr_proc demo_live" "cn_log demo_irqs = kmsg_init"
    "pr_allproc demo_irqs = pr_allproc demo_live" "pr_pidhash demo_irqs = pr_pidhash demo_live" "pr_runq demo_irqs = pr_runq demo_live" "myproc demo_irqs = myproc demo_live"
    "in_gic demo_irqs = []" "in_srcs demo_irqs = (\<lambda>_. None)(33 := Some 0x900)" "in_nirq demo_irqs = 64" "in_resched demo_irqs = (\<lambda>_. False)"
    "is_filter (in_src demo_irqs 0x900) = Console_filter"
    using demo_live_parts(1,3,5) by (simp_all add: demo_irqs_def cons_io.defs irqs.defs myproc_def)
  have "lists_ok demo_irqs" by (rule lists_ok_cong [of demo_live]) (use demo_live_ok(1) in \<open>simp_all only: tables_lists p\<close>)
  then have t: "tables_ok demo_irqs" using no_locks_good by (simp add: tables_lists p)
  have l: "log_ok demo_irqs" using demo_live_ok(3) by (simp add: log_ok_def p)
  have s: "source 33 demo_irqs = Some 0x900" by (simp add: source_def p)
  have i: "gic_acknwlg 33 = 33" "(33 :: uint32) \<noteq> GIC_SPURIOUS" "(33 :: uint32) \<noteq> IRQ_PANIC" by code_simp+
  have "0x200 \<in> set (pr_allproc demo_irqs)" "asleep_on 0x900 (myproc demo_irqs) demo_irqs 0x200" by (simp_all add: p asleep_on_def idle_proc_def)
  then show ?thesis using irq_completed [OF t l i] s by (auto simp: sourced_by_def counted_def p)
qed

end
