(* ===== verification/Fdt.thy ===== *)
theory Fdt
  imports Prelude
begin

text \<open>
  The flattened device tree reader (\<^verbatim>\<open>libkern/fdt.c\<close>). Memory is a function from 64-bit addresses to bytes and
  pointers are addresses, 0 the null pointer, so that every offset the blob supplies is added the way the code
  adds it. Loops that follow the blob are partial: \<open>None\<close> is a walk that never ends. A name to compare with is a
  literal, without its terminator.
\<close>

type_synonym bytemem = "uintptr \<Rightarrow> uint8"

section \<open>Data\<close>

definition FDT_MAGIC :: uint32 where [kdefs]: "FDT_MAGIC = 0xD00DFEED"
definition FDT_BEGIN_NODE :: uint32 where [kdefs]: "FDT_BEGIN_NODE = 1"
definition FDT_END_NODE :: uint32 where [kdefs]: "FDT_END_NODE = 2"
definition FDT_PROP :: uint32 where [kdefs]: "FDT_PROP = 3"
definition FDT_NOP :: uint32 where [kdefs]: "FDT_NOP = 4"
definition FDT_END :: uint32 where [kdefs]: "FDT_END = 9"
definition FDT_FIRST_SUPPORTED_VERSION :: uint32 where [kdefs]: "FDT_FIRST_SUPPORTED_VERSION = 2"
definition FDT_LAST_SUPPORTED_VERSION :: uint32 where [kdefs]: "FDT_LAST_SUPPORTED_VERSION = 0x11"

record fdt =
  struct_start :: uintptr
  struct_end :: uintptr
  strings :: uintptr
  strings_end :: uintptr

record fdt_node =
  fn_props :: uintptr
  fn_name :: uintptr
  fn_depth :: int

record fdt_tag =
  tg_type :: uint32
  tg_name :: uintptr
  tg_value :: uintptr
  tg_len :: uint32

text \<open>A 32-bit load on the little-endian machine.\<close>

definition rd32 :: "bytemem \<Rightarrow> uintptr \<Rightarrow> uint32" where
  "rd32 m p = ucast (m p) OR push_bit 8 (ucast (m (p + 1))) OR push_bit 16 (ucast (m (p + 2))) OR push_bit 24 (ucast (m (p + 3)))"

section \<open>Cells\<close>

definition fdt32 :: "uint32 \<Rightarrow> uint32" where
  "fdt32 v = push_bit 24 (v AND 0xFF) OR push_bit 8 (v AND 0xFF00) OR drop_bit 8 (v AND 0xFF0000) OR (drop_bit 24 v AND 0xFF)"

definition fdt64 :: "bytemem \<Rightarrow> uintptr \<Rightarrow> uint64" where
  "fdt64 m cells = push_bit 32 (ucast (fdt32 (rd32 m cells))) OR ucast (fdt32 (rd32 m (cells + 4)))"

definition fdt_cells :: "bytemem \<Rightarrow> uintptr \<Rightarrow> int \<Rightarrow> uint64 res" where
  "fdt_cells m cells n =
     (if n = 1 then Inr (ucast (fdt32 (rd32 m cells)))
      else if n = 2 then Inr (fdt64 m cells)
      else Inl (Panic ''fdt: unsupported cell count %d''))"

definition align4 :: "uint32 \<Rightarrow> uint32" where
  "align4 v = (v + 3) AND NOT 3"

section \<open>Tokens\<close>

lemma ptr_inc: "a < (b :: uint64) \<Longrightarrow> unat (a + 1) = unat a + 1"
  using unsigned_less [of b, where 'a = nat] by (subst unat_add_no_wrap) (simp_all add: word_less_nat_alt)

function name_end :: "bytemem \<Rightarrow> uintptr \<Rightarrow> uintptr \<Rightarrow> uintptr" where
  "name_end m s fin = (if s < fin \<and> m s \<noteq> 0 then name_end m (s + 1) fin else s)"
  by pat_completeness auto
termination
  by (relation "measure (\<lambda>(m, s, fin). unat fin - unat s)") (auto simp: ptr_inc word_less_nat_alt)

declare name_end.simps [simp del]

definition fdt_namelen :: "bytemem \<Rightarrow> uintptr \<Rightarrow> uintptr \<Rightarrow> uint32" where
  "fdt_namelen m name fin = (let s = name_end m name fin in if s < fin then ucast (s - name) + 1 else 0)"

text \<open>\<^verbatim>\<open>p += align4(n) >> 2\<close> on a pointer to 32-bit words.\<close>

definition advance :: "uintptr \<Rightarrow> uint32 \<Rightarrow> uintptr" where
  "advance p n = p + 4 * ucast (drop_bit 2 (align4 n))"

definition fdt_next_tag :: "bytemem \<Rightarrow> fdt \<Rightarrow> uintptr \<Rightarrow> (uintptr \<times> fdt_tag) res" where
  "fdt_next_tag m f p =
     (if p \<ge> struct_end f then Inl (Panic ''fdt: structure block ends without FDT_END'')
      else
        (let type = fdt32 (rd32 m p); p1 = p + 4; tag = \<lparr>tg_type = type, tg_name = 0, tg_value = 0, tg_len = 0\<rparr> in
         if type = FDT_BEGIN_NODE then
           (let namelen = fdt_namelen m p1 (struct_end f) in
            if namelen = 0 then Inl (Panic ''fdt: unterminated node name'')
            else Inr (advance p1 namelen, tag\<lparr>tg_name := p1\<rparr>))
         else if type = FDT_PROP then
           (if p1 + 8 > struct_end f then Inl (Panic ''fdt: truncated property header'')
            else
              (let len = fdt32 (rd32 m p1); nameoff = fdt32 (rd32 m (p1 + 4)); p2 = p1 + 8 in
               if strings f + ucast nameoff \<ge> strings_end f then Inl (Panic ''fdt: property name outside the strings block'')
               else if p2 + ucast (align4 len) > struct_end f \<or> p2 + ucast (align4 len) < p2
               then Inl (Panic ''fdt: property value outside the structure block'')
               else Inr (advance p2 len, tag\<lparr>tg_len := len, tg_name := strings f + ucast nameoff, tg_value := p2\<rparr>)))
         else if type = FDT_END_NODE \<or> type = FDT_NOP \<or> type = FDT_END then Inr (p1, tag)
         else Inl (Panic ''fdt: unknown token %#x'')))"

section \<open>Opening\<close>

definition fdt_open :: "bytemem \<Rightarrow> uintptr \<Rightarrow> fdt res" where
  "fdt_open m blob =
     (let hdr = (\<lambda>i. fdt32 (rd32 m (blob + 4 * i))) in
      if hdr 0 \<noteq> FDT_MAGIC then Inl (Panic ''fdt: no valid device tree (bad magic)'')
      else
        (let version = hdr 5 in
         if version < FDT_FIRST_SUPPORTED_VERSION \<or> hdr 6 > FDT_LAST_SUPPORTED_VERSION then Inl (Panic ''fdt: unsupported format version %u'')
         else
           (let totalsize = hdr 1; off_struct = hdr 2; off_strings = hdr 3; size_strings = hdr 8; size_struct = hdr 9 in
            if off_struct + size_struct < off_struct \<or> off_struct + size_struct > totalsize \<or>
               off_strings + size_strings < off_strings \<or> off_strings + size_strings > totalsize
            then Inl (Panic ''fdt: block outside the %u-byte blob'')
            else Inr \<lparr>struct_start = blob + ucast off_struct, struct_end = blob + ucast off_struct + ucast size_struct,
                   strings = blob + ucast off_strings, strings_end = blob + ucast off_strings + ucast size_strings\<rparr>)))"

section \<open>Nodes\<close>

text \<open>The loop of \<open>fdt_next_node\<close>, with what the call returns and the node it leaves.\<close>

partial_function (option) next_node_loop :: "bytemem \<Rightarrow> fdt \<Rightarrow> uintptr \<Rightarrow> fdt_node \<Rightarrow> (bool \<times> fdt_node) res option" where
  "next_node_loop m f p node =
     (case fdt_next_tag m f p of
        Inl e \<Rightarrow> Some (Inl e)
      | Inr (p1, tag) \<Rightarrow>
          if tg_type tag = FDT_BEGIN_NODE then Some (Inr (True, node\<lparr>fn_depth := fn_depth node + 1, fn_name := tg_name tag, fn_props := p1\<rparr>))
          else if tg_type tag = FDT_END_NODE then next_node_loop m f p1 (node\<lparr>fn_depth := fn_depth node - 1\<rparr>)
          else if tg_type tag = FDT_END then Some (Inr (False, node))
          else next_node_loop m f p1 node)"

definition fdt_next_node :: "bytemem \<Rightarrow> fdt \<Rightarrow> fdt_node \<Rightarrow> (bool \<times> fdt_node) res option" where
  "fdt_next_node m f node = next_node_loop m f (fn_props node) node"

definition fdt_first_node :: "bytemem \<Rightarrow> fdt \<Rightarrow> (bool \<times> fdt_node) res option" where
  "fdt_first_node m f = fdt_next_node m f \<lparr>fn_props = struct_start f, fn_name = 0, fn_depth = -1\<rparr>"

partial_function (option) fdt_next_subnode :: "bytemem \<Rightarrow> fdt \<Rightarrow> fdt_node \<Rightarrow> fdt_node \<Rightarrow> (bool \<times> fdt_node) res option" where
  "fdt_next_subnode m f parent child =
     (case fdt_next_node m f child of
        None \<Rightarrow> None
      | Some (Inl e) \<Rightarrow> Some (Inl e)
      | Some (Inr (ok, c)) \<Rightarrow>
          if \<not> ok then Some (Inr (False, c))
          else if fn_depth c \<le> fn_depth parent then Some (Inr (False, c))
          else if fn_depth c = fn_depth parent + 1 then Some (Inr (True, c))
          else fdt_next_subnode m f parent c)"

definition fdt_first_subnode :: "bytemem \<Rightarrow> fdt \<Rightarrow> fdt_node \<Rightarrow> (bool \<times> fdt_node) res option" where
  "fdt_first_subnode m f parent = fdt_next_subnode m f parent parent"

text \<open>A byte of a literal.\<close>

definition cbyte :: "char \<Rightarrow> uint8" where "cbyte c = of_nat (of_char c)"

fun node_is_loop :: "bytemem \<Rightarrow> uintptr \<Rightarrow> string \<Rightarrow> bool" where
  "node_is_loop m s [] \<longleftrightarrow> m s = 0 \<or> m s = cbyte CHR ''@''"
| "node_is_loop m s (c # name) \<longleftrightarrow> (if m s \<noteq> cbyte c then False else node_is_loop m (s + 1) name)"

definition fdt_node_is :: "bytemem \<Rightarrow> fdt_node \<Rightarrow> string \<Rightarrow> bool" where
  "fdt_node_is m node name = node_is_loop m (fn_name node) name"

section \<open>Properties\<close>

text \<open>\<open>strcmp\<close> of a string in memory with a literal gives 0.\<close>

fun str_is :: "bytemem \<Rightarrow> uintptr \<Rightarrow> string \<Rightarrow> bool" where
  "str_is m s [] \<longleftrightarrow> m s = 0"
| "str_is m s (c # name) \<longleftrightarrow> m s = cbyte c \<and> str_is m (s + 1) name"

text \<open>The value's address and its length, or \<open>None\<close> for \<open>NULL\<close>.\<close>

partial_function (option) getprop_loop :: "bytemem \<Rightarrow> fdt \<Rightarrow> uintptr \<Rightarrow> string \<Rightarrow> (uintptr \<times> uint32) option res option" where
  "getprop_loop m f p name =
     (case fdt_next_tag m f p of
        Inl e \<Rightarrow> Some (Inl e)
      | Inr (p1, tag) \<Rightarrow>
          if tg_type tag = FDT_NOP then getprop_loop m f p1 name
          else if tg_type tag \<noteq> FDT_PROP then Some (Inr None)
          else if str_is m (tg_name tag) name then Some (Inr (Some (tg_value tag, tg_len tag)))
          else getprop_loop m f p1 name)"

definition fdt_getprop :: "bytemem \<Rightarrow> fdt \<Rightarrow> fdt_node \<Rightarrow> string \<Rightarrow> (uintptr \<times> uint32) option res option" where
  "fdt_getprop m f node name = getprop_loop m f (fn_props node) name"

definition fdt_prop_u32 :: "bytemem \<Rightarrow> fdt \<Rightarrow> fdt_node \<Rightarrow> string \<Rightarrow> uint32 option res option" where
  "fdt_prop_u32 m f node name =
     (case fdt_getprop m f node name of
        None \<Rightarrow> None
      | Some (Inl e) \<Rightarrow> Some (Inl e)
      | Some (Inr None) \<Rightarrow> Some (Inr None)
      | Some (Inr (Some (v, len))) \<Rightarrow> Some (Inr (if len < 4 then None else Some (fdt32 (rd32 m v)))))"

text \<open>The loop of \<open>fdt_node_by_phandle\<close> from a node that was found (\<open>ok\<close>).\<close>

partial_function (option) phandle_loop :: "bytemem \<Rightarrow> fdt \<Rightarrow> uint32 \<Rightarrow> bool \<Rightarrow> fdt_node \<Rightarrow> (bool \<times> fdt_node) res option" where
  "phandle_loop m f phandle ok node =
     (if \<not> ok then Some (Inr (False, node))
      else
        (case fdt_prop_u32 m f node ''phandle'' of
           None \<Rightarrow> None
         | Some (Inl e) \<Rightarrow> Some (Inl e)
         | Some (Inr v) \<Rightarrow>
             if v = Some phandle then Some (Inr (True, node))
             else
               (case fdt_next_node m f node of
                  None \<Rightarrow> None
                | Some (Inl e) \<Rightarrow> Some (Inl e)
                | Some (Inr (ok1, node1)) \<Rightarrow> phandle_loop m f phandle ok1 node1)))"

definition fdt_node_by_phandle :: "bytemem \<Rightarrow> fdt \<Rightarrow> uint32 \<Rightarrow> (bool \<times> fdt_node) res option" where
  "fdt_node_by_phandle m f phandle =
     (case fdt_first_node m f of
        None \<Rightarrow> None
      | Some (Inl e) \<Rightarrow> Some (Inl e)
      | Some (Inr (ok, node)) \<Rightarrow> phandle_loop m f phandle ok node)"

section \<open>Progress\<close>

text \<open>
  Blocks that leave room above them in the address space, which every blob in the kernel's memory does: no
  pointer into them wraps when a token is skipped.
\<close>

definition fdt_ok :: "fdt \<Rightarrow> bool" where
  "fdt_ok f \<longleftrightarrow> unat (struct_end f) + 2 ^ 34 \<le> 2 ^ 64"

lemma unat_advance: "unat p + 2 ^ 33 \<le> 2 ^ 64 \<Longrightarrow> unat (advance p n) = unat p + 4 * unat (drop_bit 2 (align4 n))"
proof -
  assume p: "unat p + 2 ^ 33 \<le> 2 ^ 64"
  have "unat (align4 n) < 2 ^ 32" using unsigned_less [of "align4 n", where 'a = nat] by simp
  moreover have "unat (drop_bit 2 (align4 n)) = unat (align4 n) div 4" by (simp only: unat_drop_bit_eq) (simp add: drop_bit_eq_div)
  ultimately have d: "4 * unat (drop_bit 2 (align4 n)) < 2 ^ 32" by simp
  have "unat (4 * ucast (drop_bit 2 (align4 n)) :: uint64) = 4 * unat (drop_bit 2 (align4 n))"
    using d by (simp add: unat_word_ariths unsigned_ucast_eq take_bit_nat_eq_self)
  then show ?thesis unfolding advance_def using p d by (subst unat_add_no_wrap) simp_all
qed

lemma next_tag_progress:
  assumes "fdt_ok f" "fdt_next_tag m f p = Inr (p', tag)"
  shows "p < struct_end f" "unat p + 4 \<le> unat p'"
proof -
  show lt: "p < struct_end f" using assms(2) by (auto simp: fdt_next_tag_def split: if_splits)
  then have u: "unat (p + 4) = unat p + 4" using assms(1) by (subst unat_add_no_wrap) (simp_all add: word_less_nat_alt fdt_ok_def)
  have u8: "unat (p + 4 + 8) = unat p + 12" using lt u assms(1) by (subst unat_add_no_wrap) (simp_all add: word_less_nat_alt fdt_ok_def)
  have "unat (p + 4) + 2 ^ 33 \<le> 2 ^ 64" "unat (p + 4 + 8) + 2 ^ 33 \<le> 2 ^ 64"
    unfolding u u8 using lt assms(1) by (simp_all add: word_less_nat_alt fdt_ok_def)
  note a = this [THEN unat_advance]
  show "unat p + 4 \<le> unat p'"
    using assms(2) lt a u u8 by (auto simp: fdt_next_tag_def Let_def split: if_splits)
qed

end
