(* ===== verification/FdtSpec.thy ===== *)
theory FdtSpec
  imports Fdt
begin

text \<open>
  What the device tree reader promises: every walk ends whatever the blob holds, and on the encoding of a tree
  it visits the nodes in document order with their depths and finds a node's properties.
\<close>

section \<open>Every walk ends\<close>

lemma next_node_returns:
  assumes "fdt_ok f"
  shows "\<exists>r. next_node_loop m f p node = Some r \<and> (\<forall>node'. r = Inr (True, node') \<longrightarrow> p < struct_end f \<and> unat p < unat (fn_props node'))"
proof (induction "unat (struct_end f) - unat p" arbitrary: p node rule: less_induct)
  case less
  show ?case
  proof (cases "fdt_next_tag m f p")
    case (Inl e)
    then show ?thesis by (subst next_node_loop.simps) simp
  next
    case (Inr r)
    obtain p' tag where r: "r = (p', tag)" by (cases r)
    note pr = next_tag_progress [OF assms Inr [unfolded r]]
    have lt: "unat (struct_end f) - unat p' < unat (struct_end f) - unat p" using pr by (simp add: word_less_nat_alt)
    have go: "\<exists>r. next_node_loop m f p' node' = Some r \<and> (\<forall>n. r = Inr (True, n) \<longrightarrow> p < struct_end f \<and> unat p < unat (fn_props n))" for node'
      using less [OF lt, of node'] pr by fastforce
    show ?thesis using Inr r pr go [of node] go [of "node\<lparr>fn_depth := fn_depth node - 1\<rparr>"] by (subst next_node_loop.simps) auto
  qed
qed

lemma next_node_ends:
  assumes "fdt_ok f"
  obtains e where "fdt_next_node m f node = Some (Inl e)" | node' where "fdt_next_node m f node = Some (Inr (False, node'))"
  | node' where "fdt_next_node m f node = Some (Inr (True, node'))" "fn_props node < struct_end f" "unat (fn_props node) < unat (fn_props node')"
proof -
  obtain r where r: "fdt_next_node m f node = Some r" "\<forall>node'. r = Inr (True, node') \<longrightarrow> fn_props node < struct_end f \<and> unat (fn_props node) < unat (fn_props node')"
    using next_node_returns [OF assms] unfolding fdt_next_node_def by blast
  show thesis
  proof (cases r)
    case (Inl e) then show ?thesis using r(1) that(1) by blast
  next
    case (Inr x)
    then show ?thesis using r that(2,3) by (cases x; cases "fst x") auto
  qed
qed

lemma getprop_returns: "fdt_ok f \<Longrightarrow> \<exists>r. getprop_loop m f p name = Some r"
proof (induction "unat (struct_end f) - unat p" arbitrary: p rule: less_induct)
  case less
  show ?case
  proof (cases "fdt_next_tag m f p")
    case (Inr r)
    obtain p' tag where r: "r = (p', tag)" by (cases r)
    note pr = next_tag_progress [OF less.prems Inr [unfolded r]]
    have "unat (struct_end f) - unat p' < unat (struct_end f) - unat p" using pr by (simp add: word_less_nat_alt)
    from less.hyps [OF this less.prems] show ?thesis using Inr r by (subst getprop_loop.simps) auto
  qed (subst getprop_loop.simps, simp)
qed

lemma subnode_progress:
  assumes "fdt_ok f"
  shows "\<exists>r. fdt_next_subnode m f parent child = Some r \<and> (\<forall>y. r = Inr (True, y) \<longrightarrow> fn_props child < struct_end f \<and> unat (fn_props child) < unat (fn_props y))"
proof (induction "unat (struct_end f) - unat (fn_props child)" arbitrary: child rule: less_induct)
  case less
  show ?case
  proof (rule next_node_ends [OF assms, of m child])
    fix c assume c: "fdt_next_node m f child = Some (Inr (True, c))" "fn_props child < struct_end f" "unat (fn_props child) < unat (fn_props c)"
    then have "unat (struct_end f) - unat (fn_props c) < unat (struct_end f) - unat (fn_props child)" by (simp add: word_less_nat_alt)
    from less.hyps [OF this] show ?thesis using c by (subst fdt_next_subnode.simps) fastforce
  qed (subst fdt_next_subnode.simps, simp)+
qed

lemma subnode_returns: "fdt_ok f \<Longrightarrow> \<exists>r. fdt_next_subnode m f parent child = Some r"
  using subnode_progress by blast

lemma prop_u32_returns: "fdt_ok f \<Longrightarrow> \<exists>r. fdt_prop_u32 m f node name = Some r"
  using getprop_returns [of f m "fn_props node" name]
  by (auto simp: fdt_prop_u32_def fdt_getprop_def split: sum.splits option.splits prod.splits)

lemma phandle_returns: "fdt_ok f \<Longrightarrow> \<exists>r. phandle_loop m f ph ok node = Some r"
proof (induction "unat (struct_end f) - unat (fn_props node)" arbitrary: ok node rule: less_induct)
  case less
  obtain r where r: "fdt_prop_u32 m f node ''phandle'' = Some r" using prop_u32_returns [OF less.prems] by blast
  show ?case
  proof (rule next_node_ends [OF less.prems, of m node])
    fix c assume c: "fdt_next_node m f node = Some (Inr (True, c))" "fn_props node < struct_end f" "unat (fn_props node) < unat (fn_props c)"
    then have "unat (struct_end f) - unat (fn_props c) < unat (struct_end f) - unat (fn_props node)" by (simp add: word_less_nat_alt)
    from less.hyps [OF this less.prems] show ?thesis using c(1) r by (subst phandle_loop.simps) (auto split: sum.splits)
  next
    fix c assume "fdt_next_node m f node = Some (Inr (False, c))"
    moreover have "phandle_loop m f ph False c = Some (Inr (False, c))" by (subst phandle_loop.simps) simp
    ultimately show ?thesis using r by (subst phandle_loop.simps) (auto split: sum.splits)
  qed (use r in \<open>subst phandle_loop.simps, auto split: sum.splits\<close>)
qed

lemma phandle_search_returns:
  assumes "fdt_ok f"
  shows "\<exists>r. fdt_node_by_phandle m f phandle = Some r"
proof -
  obtain r where r: "fdt_first_node m f = Some r" unfolding fdt_first_node_def by (rule next_node_ends [OF assms]) blast+
  then show ?thesis using phandle_returns [OF assms, of m phandle] by (cases r) (auto simp: fdt_node_by_phandle_def split: prod.split)
qed

lemma open_ok:
  assumes "fdt_open m blob = Inr f" "unat blob \<le> 2 ^ 64 - 2 ^ 35"
  shows "fdt_ok f"
proof -
  let ?h = "\<lambda>i. fdt32 (rd32 m (blob + 4 * i))"
  have f: "struct_end f = blob + ucast (?h 2) + ucast (?h 9)"
    using assms(1) by (auto simp: fdt_open_def Let_def split: if_splits)
  have w: "unat (ucast (x :: uint32) :: uint64) < 2 ^ 32" for x
    using unsigned_less [of x, where 'a = nat] by (simp add: unsigned_ucast_eq take_bit_nat_eq_self)
  have "unat (blob + ucast (?h 2) + ucast (?h 9)) \<le> unat blob + 2 ^ 32 + 2 ^ 32"
    using w [of "?h 2"] w [of "?h 9"] assms(2) by (simp add: unat_word_ariths)
  then show ?thesis using assms(2) by (simp add: fdt_ok_def f)
qed

text \<open>C32: no device tree hangs the boot. Once a blob has been opened, and whatever bytes it holds, every walk over it
  comes back: the next node, the next child, the search for a property and the search for a phandle each return
  or panic.\<close>

theorem fdt_walks_end:
  assumes "fdt_open m blob = Inr f" "unat blob \<le> 2 ^ 64 - 2 ^ 35"
  shows "(\<exists>r. fdt_first_node m f = Some r) \<and> (\<exists>r. fdt_next_node m f node = Some r) \<and> (\<exists>r. fdt_first_subnode m f node = Some r) \<and>
    (\<exists>r. fdt_next_subnode m f node child = Some r) \<and> (\<exists>r. fdt_getprop m f node name = Some r) \<and> (\<exists>r. fdt_prop_u32 m f node name = Some r) \<and>
    (\<exists>r. fdt_node_by_phandle m f phandle = Some r)"
proof -
  note ok = open_ok [OF assms]
  have n: "\<exists>r. fdt_next_node m f x = Some r" for x by (rule next_node_ends [OF ok, of m x]) blast+
  then show ?thesis using subnode_returns [OF ok] getprop_returns [OF ok] prop_u32_returns [OF ok] phandle_search_returns [OF ok]
    unfolding fdt_first_node_def fdt_first_subnode_def fdt_getprop_def by blast
qed

section \<open>The encoding of a tree\<close>

datatype tok = TBegin string | TEndNode | TProp uint32 "uint8 list" | TNop | TFin

definition be32 :: "uint32 \<Rightarrow> uint8 list" where
  "be32 v = [ucast (drop_bit 24 v), ucast (drop_bit 16 v), ucast (drop_bit 8 v), ucast v]"

definition pad4 :: "uint8 list \<Rightarrow> uint8 list" where
  "pad4 bs = bs @ replicate (4 * ((length bs + 3) div 4) - length bs) 0"

fun enc :: "tok \<Rightarrow> uint8 list" where
  "enc (TBegin n) = be32 FDT_BEGIN_NODE @ pad4 (map cbyte n @ [0])"
| "enc TEndNode = be32 FDT_END_NODE"
| "enc (TProp off v) = be32 FDT_PROP @ be32 (of_nat (length v)) @ be32 off @ pad4 v"
| "enc TNop = be32 FDT_NOP"
| "enc TFin = be32 FDT_END"

fun tok_ok :: "fdt \<Rightarrow> tok \<Rightarrow> bool" where
  "tok_ok f (TBegin n) \<longleftrightarrow> 0 \<notin> set (map cbyte n) \<and> length n < 2 ^ 31"
| "tok_ok f (TProp off v) \<longleftrightarrow> length v < 2 ^ 31 \<and> strings f + ucast off < strings_end f"
| "tok_ok f _ \<longleftrightarrow> True"

definition at :: "bytemem \<Rightarrow> uintptr \<Rightarrow> uint8 list \<Rightarrow> bool" where
  "at m p bs \<longleftrightarrow> (\<forall>i < length bs. m (p + of_nat i) = bs ! i)"

lemma at_append: "at m p (xs @ ys) \<longleftrightarrow> at m p xs \<and> at m (p + of_nat (length xs)) ys"
proof
  assume l: "at m p (xs @ ys)"
  have "m (p + of_nat (length xs) + of_nat i) = ys ! i" if "i < length ys" for i
    using l [unfolded at_def, rule_format, of "length xs + i"] that by (simp add: add.assoc)
  moreover have "m (p + of_nat i) = xs ! i" if "i < length xs" for i
    using l [unfolded at_def, rule_format, of i] that by (simp add: nth_append)
  ultimately show "at m p xs \<and> at m (p + of_nat (length xs)) ys" by (simp add: at_def)
next
  assume r: "at m p xs \<and> at m (p + of_nat (length xs)) ys"
  show "at m p (xs @ ys)" unfolding at_def
  proof (intro allI impI)
    fix i assume i: "i < length (xs @ ys)"
    show "m (p + of_nat i) = (xs @ ys) ! i"
    proof (cases "i < length xs")
      case False
      then have e: "p + of_nat i = p + of_nat (length xs) + of_nat (i - length xs)" by (simp add: of_nat_diff)
      have "i - length xs < length ys" using i False by simp
      then have "m (p + of_nat (length xs) + of_nat (i - length xs)) = ys ! (i - length xs)" using r unfolding at_def by blast
      then show ?thesis using False by (simp only: e nth_append if_False)
    qed (use r in \<open>simp add: at_def nth_append\<close>)
  qed
qed

lemma at_Cons: "at m p (x # xs) \<longleftrightarrow> m p = x \<and> at m (p + 1) xs"
  using at_append [of m p "[x]" xs] by (simp add: at_def [of m p "[x]"])

lemma at_Nil [simp]: "at m p []"
  by (simp add: at_def)

lemma length_be32 [simp]: "length (be32 v) = 4"
  by (simp add: be32_def)

lemma length_pad4 [simp]: "length (pad4 bs) = 4 * ((length bs + 3) div 4)"
  unfolding pad4_def by simp

lemma fdt32_be32:
  assumes "at m p (be32 v)"
  shows "fdt32 (rd32 m p) = v"
proof -
  have b: "m p = ucast (drop_bit 24 v)" "m (p + 1) = ucast (drop_bit 16 v)" "m (p + 2) = ucast (drop_bit 8 v)" "m (p + 3) = ucast v"
    using assms by (simp_all add: be32_def at_Cons add.assoc)
  have k: "(0xFF :: uint32) = mask 8" "(0xFF00 :: uint32) = push_bit 8 (mask 8)" "(0xFF0000 :: uint32) = push_bit 16 (mask 8)"
    by (simp_all add: mask_eq_exp_minus_1)
  show ?thesis
  proof (rule bit_word_eqI)
    fix n assume "n < LENGTH(32)"
    then consider "n < 8" | "8 \<le> n" "n < 16" | "16 \<le> n" "n < 24" | "24 \<le> n" "n < 32" by fastforce
    then show "bit (fdt32 (rd32 m p)) n = bit v n" unfolding fdt32_def rd32_def b k
      by cases (auto simp: bit_simps)
  qed
qed

lemma unat_align4: "unat n + 3 < 2 ^ 32 \<Longrightarrow> unat (align4 n) = 4 * ((unat n + 3) div 4)"
proof -
  assume n: "unat n + 3 < 2 ^ 32"
  have m: "(3 :: uint32) = mask 2" by (simp add: mask_eq_exp_minus_1)
  have "unat (n + 3) = unat n + 3" using n by (subst unat_add_no_wrap) simp_all
  then show ?thesis unfolding align4_def using unat_and_not_mask [of "n + 3" 2] by (simp add: m)
qed

lemma advance_len:
  assumes "unat n + 3 < 2 ^ 32"
  shows "advance p n = p + of_nat (4 * ((unat n + 3) div 4))"
proof -
  have "unat (drop_bit 2 (align4 n)) = unat (align4 n) div 4" by (simp only: unat_drop_bit_eq) (simp add: drop_bit_eq_div)
  then have "unat (drop_bit 2 (align4 n)) = (unat n + 3) div 4" using unat_align4 [OF assms] by simp
  moreover have "(ucast (drop_bit 2 (align4 n)) :: uint64) = of_nat (unat (drop_bit 2 (align4 n)))" by simp
  ultimately have "(ucast (drop_bit 2 (align4 n)) :: uint64) = of_nat ((unat n + 3) div 4)" by simp
  then show ?thesis unfolding advance_def by simp
qed

lemma name_end_at:
  assumes "at m s (map cbyte n @ [0])" "0 \<notin> set (map cbyte n)" "unat s + length n + 1 \<le> unat fin"
  shows "name_end m s fin = s + of_nat (length n)"
  using assms
proof (induction n arbitrary: s)
  case Nil
  then show ?case by (subst name_end.simps) (simp add: at_Cons)
next
  case (Cons c n)
  have lt: "s < fin" using Cons.prems(3) by (simp add: word_less_nat_alt)
  have a: "m s = cbyte c" "at m (s + 1) (map cbyte n @ [0])" using Cons.prems(1) by (simp_all add: at_Cons)
  have "name_end m (s + 1) fin = s + 1 + of_nat (length n)" using Cons.IH [OF a(2)] Cons.prems(2,3) ptr_inc [OF lt] by simp
  moreover have "name_end m s fin = name_end m (s + 1) fin" using lt a(1) Cons.prems(2) by (subst name_end.simps) simp
  ultimately show ?case by (simp add: add.assoc)
qed

fun tok_type :: "tok \<Rightarrow> uint32" where
  "tok_type (TBegin n) = FDT_BEGIN_NODE" | "tok_type TEndNode = FDT_END_NODE" | "tok_type (TProp off v) = FDT_PROP"
| "tok_type TNop = FDT_NOP" | "tok_type TFin = FDT_END"

fun tag_of :: "fdt \<Rightarrow> uintptr \<Rightarrow> tok \<Rightarrow> fdt_tag" where
  "tag_of f p (TBegin n) = \<lparr>tg_type = FDT_BEGIN_NODE, tg_name = p + 4, tg_value = 0, tg_len = 0\<rparr>"
| "tag_of f p (TProp off v) = \<lparr>tg_type = FDT_PROP, tg_name = strings f + ucast off, tg_value = p + 12, tg_len = of_nat (length v)\<rparr>"
| "tag_of f p t = \<lparr>tg_type = tok_type t, tg_name = 0, tg_value = 0, tg_len = 0\<rparr>"

lemma token_numbers: "FDT_BEGIN_NODE = 1" "FDT_END_NODE = 2" "FDT_PROP = 3" "FDT_NOP = 4" "FDT_END = 9"
  by (simp_all add: kdefs)

text \<open>The decoder undoes the encoder, one token at a time.\<close>

lemma next_tag_enc:
  assumes ok: "fdt_ok f" and a: "at m p (enc t)" and fits: "unat p + length (enc t) \<le> unat (struct_end f)" and t: "tok_ok f t"
  shows "fdt_next_tag m f p = Inr (p + of_nat (length (enc t)), tag_of f p t)"
proof -
  have e4: "4 \<le> length (enc t)" by (cases t) simp_all
  then have lt: "\<not> struct_end f \<le> p" using fits by (simp add: word_le_nat_alt)
  have u4: "unat (p + 4) = unat p + 4" using ok fits e4 by (subst unat_add_no_wrap) (simp_all add: fdt_ok_def)
  have type: "fdt32 (rd32 m p) = tok_type t"
  proof (rule fdt32_be32)
    show "at m p (be32 (tok_type t))" using a by (cases t) (simp_all add: at_append)
  qed
  show ?thesis
  proof (cases t)
    case (TBegin n)
    let ?s = "p + 4"
    have n: "at m ?s (map cbyte n @ [0])" using a TBegin by (simp add: at_append pad4_def at_Cons)
    have l: "unat ?s + length n + 1 \<le> unat (struct_end f)" using fits TBegin u4 by simp
    have e: "name_end m ?s (struct_end f) = ?s + of_nat (length n)" using name_end_at [OF n _ l] t TBegin by simp
    have sm: "length n < 2 ^ 31" using t TBegin by simp
    have "unat (?s + of_nat (length n)) = unat ?s + length n"
      using l sm unsigned_less [of "struct_end f", where 'a = nat] by (subst unat_add_no_wrap) (simp_all add: unat_of_nat_small)
    then have "?s + of_nat (length n) < struct_end f" using l by (simp add: word_less_nat_alt)
    moreover have "(ucast (of_nat (length n) :: uint64) :: uint32) = of_nat (unat (of_nat (length n) :: uint64))" by simp
    then have "(ucast (of_nat (length n) :: uint64) :: uint32) = of_nat (length n)" using sm by (subst (asm) unat_of_nat_small) simp_all
    ultimately have nl: "fdt_namelen m ?s (struct_end f) = of_nat (length n + 1)" unfolding fdt_namelen_def Let_def e by simp
    have un: "unat (of_nat (length n + 1) :: uint32) = length n + 1" using sm by (intro unat_of_nat_small) simp
    then have nz: "(of_nat (length n + 1) :: uint32) \<noteq> 0" by (metis Suc_eq_plus1 nat.distinct(1) unat_0)
    have adv: "advance ?s (of_nat (length n + 1)) = ?s + of_nat (4 * ((length n + 1 + 3) div 4))"
      using advance_len [of "of_nat (length n + 1)" ?s] sm unfolding un by simp
    show ?thesis using lt type nl nz adv TBegin unfolding fdt_next_tag_def Let_def by (simp add: token_numbers add.assoc)
  next
    case (TProp off v)
    have b: "at m (p + 4) (be32 (of_nat (length v)))" "at m (p + 8) (be32 off)" using a TProp by (simp_all add: at_append add.commute [of _ p])
    have r: "fdt32 (rd32 m (p + 4)) = of_nat (length v)" "fdt32 (rd32 m (p + 8)) = off" using b by (simp_all add: fdt32_be32)
    have f12: "unat p + 12 + 4 * ((length v + 3) div 4) \<le> unat (struct_end f)" using fits TProp by simp
    have u12: "unat (p + 12) = unat p + 12" using ok f12 by (subst unat_add_no_wrap) (simp_all add: fdt_ok_def)
    have sm: "length v < 2 ^ 31" using t TProp by simp
    then have un: "unat (of_nat (length v) :: uint32) = length v" by (intro unat_of_nat_small) simp
    have al: "unat (align4 (of_nat (length v))) = 4 * ((length v + 3) div 4)" using unat_align4 [of "of_nat (length v)"] un sm by simp
    then have uc: "unat (ucast (align4 (of_nat (length v))) :: uint64) = 4 * ((length v + 3) div 4)"
      using unsigned_less [of "align4 (of_nat (length v))", where 'a = nat] by (simp add: unsigned_ucast_eq take_bit_nat_eq_self)
    have ua: "unat (p + 12 + ucast (align4 (of_nat (length v)))) = unat p + 12 + 4 * ((length v + 3) div 4)"
      using u12 uc f12 unsigned_less [of "struct_end f", where 'a = nat] by (subst unat_add_no_wrap) simp_all
    have g: "\<not> struct_end f < p + 12" "\<not> struct_end f < p + 12 + ucast (align4 (of_nat (length v)))" "\<not> p + 12 + ucast (align4 (of_nat (length v))) < p + 12"
      using f12 unfolding word_less_nat_alt ua u12 by simp_all
    have adv: "advance (p + 12) (of_nat (length v)) = p + 12 + of_nat (4 * ((length v + 3) div 4))"
      using advance_len [of "of_nat (length v)" "p + 12"] sm unfolding un by simp
    have so: "\<not> strings_end f \<le> strings f + ucast off" using t TProp by (simp add: not_le)
    show ?thesis using lt type r g adv so TProp unfolding fdt_next_tag_def Let_def by (simp add: token_numbers add.assoc)
  qed (use lt type in \<open>simp_all add: fdt_next_tag_def Let_def token_numbers\<close>)
qed

section \<open>A block of tokens\<close>

definition encs :: "tok list \<Rightarrow> uint8 list" where "encs ts = concat (map enc ts)"

definition block :: "bytemem \<Rightarrow> fdt \<Rightarrow> uintptr \<Rightarrow> tok list \<Rightarrow> bool" where
  "block m f p ts \<longleftrightarrow> at m p (encs ts) \<and> unat p + length (encs ts) \<le> unat (struct_end f) \<and> (\<forall>t \<in> set ts. tok_ok f t)"

lemma block_Cons:
  assumes "fdt_ok f" "block m f p (t # ts)"
  shows "fdt_next_tag m f p = Inr (p + of_nat (length (enc t)), tag_of f p t)" "block m f (p + of_nat (length (enc t))) ts" "at m p (enc t)"
proof -
  have b: "at m p (enc t)" "at m (p + of_nat (length (enc t))) (encs ts)" "unat p + (length (enc t) + length (encs ts)) \<le> unat (struct_end f)" "tok_ok f t"
    using assms(2) by (simp_all add: block_def encs_def at_append)
  show "at m p (enc t)" by (rule b(1))
  show "fdt_next_tag m f p = Inr (p + of_nat (length (enc t)), tag_of f p t)" using next_tag_enc [OF assms(1) b(1) _ b(4)] b(3) by simp
  have "unat (of_nat (length (enc t)) :: uint64) = length (enc t)"
    using b(3) unsigned_less [of "struct_end f", where 'a = nat] by (intro unat_of_nat_small) simp
  then have "unat (p + of_nat (length (enc t))) = unat p + length (enc t)"
    using b(3) unsigned_less [of "struct_end f", where 'a = nat] by (subst unat_add_no_wrap) simp_all
  then show "block m f (p + of_nat (length (enc t))) ts" using assms(2) b by (simp add: block_def)
qed

text \<open>What \<open>fdt_next_node\<close> skips: the name and the depth of the next node and the tokens inside it.\<close>

fun next_begin :: "tok list \<Rightarrow> int \<Rightarrow> (string \<times> int \<times> tok list) option" where
  "next_begin [] d = None"
| "next_begin (TBegin n # ts) d = Some (n, d + 1, ts)"
| "next_begin (TEndNode # ts) d = next_begin ts (d - 1)"
| "next_begin (TFin # ts) d = None"
| "next_begin (_ # ts) d = next_begin ts d"

lemma str_is_at: "at m s (map cbyte n @ [0]) \<Longrightarrow> str_is m s n"
  by (induction n arbitrary: s) (simp_all add: at_Cons)

lemma next_node_tokens:
  assumes "fdt_ok f" "block m f p ts" "TFin \<in> set ts"
  shows "case next_begin ts (fn_depth node) of
      None \<Rightarrow> \<exists>node'. next_node_loop m f p node = Some (Inr (False, node'))
    | Some (n, d, ts') \<Rightarrow> \<exists>node'. next_node_loop m f p node = Some (Inr (True, node')) \<and> fn_depth node' = d \<and> str_is m (fn_name node') n \<and>
        block m f (fn_props node') ts'"
  using assms(2,3)
proof (induction ts arbitrary: p node)
  case (Cons t ts)
  note c = block_Cons [OF assms(1) Cons.prems(1)]
  let ?p = "p + of_nat (length (enc t))"
  have run: "next_node_loop m f p node =
      (case t of TBegin n \<Rightarrow> Some (Inr (True, node\<lparr>fn_depth := fn_depth node + 1, fn_name := p + 4, fn_props := ?p\<rparr>))
       | TEndNode \<Rightarrow> next_node_loop m f ?p (node\<lparr>fn_depth := fn_depth node - 1\<rparr>) | TFin \<Rightarrow> Some (Inr (False, node)) | _ \<Rightarrow> next_node_loop m f ?p node)"
    by (subst next_node_loop.simps) (cases t; simp add: c(1) token_numbers)
  show ?case
  proof (cases t)
    case (TBegin n)
    then have "str_is m (p + 4) n" using c(3) str_is_at [of m "p + 4" n] by (simp add: at_append pad4_def at_Cons)
    then show ?thesis using c(2) TBegin unfolding run by simp
  next
    case TEndNode
    then have r: "next_node_loop m f p node = next_node_loop m f ?p (node\<lparr>fn_depth := fn_depth node - 1\<rparr>)" using run by simp
    show ?thesis using Cons.IH [OF c(2), of "node\<lparr>fn_depth := fn_depth node - 1\<rparr>"] Cons.prems(2) TEndNode unfolding r by simp
  next
    case (TProp off v)
    then have r: "next_node_loop m f p node = next_node_loop m f ?p node" using run by simp
    show ?thesis using Cons.IH [OF c(2), of node] Cons.prems(2) TProp unfolding r by simp
  next
    case TNop
    then have r: "next_node_loop m f p node = next_node_loop m f ?p node" using run by simp
    show ?thesis using Cons.IH [OF c(2), of node] Cons.prems(2) TNop unfolding r by simp
  qed (simp add: run)
qed simp

section \<open>Trees\<close>

datatype dtree = DNode string "(uint32 \<times> uint8 list) list" "dtree list"

fun dtoks :: "dtree \<Rightarrow> tok list" where
  "dtoks (DNode n ps cs) = TBegin n # map (\<lambda>(off, v). TProp off v) ps @ concat (map dtoks cs) @ [TEndNode]"

text \<open>Document order: each node with its depth and its properties.\<close>

fun preorder :: "int \<Rightarrow> dtree \<Rightarrow> (string \<times> int \<times> (uint32 \<times> uint8 list) list) list" where
  "preorder d (DNode n ps cs) = (n, d, ps) # concat (map (preorder (d + 1)) cs)"

fun lead :: "tok list \<Rightarrow> (uint32 \<times> uint8 list) list" where
  "lead (TProp off v # ts) = (off, v) # lead ts"
| "lead (TNop # ts) = lead ts"
| "lead _ = []"

lemma next_begin_shorter: "next_begin ts d = Some (n, d', ts') \<Longrightarrow> length ts' < length ts"
  by (induction ts d rule: next_begin.induct) force+

function visit :: "tok list \<Rightarrow> int \<Rightarrow> (string \<times> int \<times> (uint32 \<times> uint8 list) list) list" where
  "visit ts d = (case next_begin ts d of None \<Rightarrow> [] | Some (n, d', ts') \<Rightarrow> (n, d', lead ts') # visit ts' d')"
  by pat_completeness auto
termination by (relation "measure (\<lambda>(ts, d). length ts)") (auto dest: next_begin_shorter)

declare visit.simps [simp del]

lemma visit_simps [simp]:
  "visit (TBegin n # ts) d = (n, d + 1, lead ts) # visit ts (d + 1)" "visit (TEndNode # ts) d = visit ts (d - 1)"
  "visit (TProp off v # ts) d = visit ts d" "visit (TFin # ts) d = []"
  by (simp_all add: visit.simps)

lemma lead_props: "lead (map (\<lambda>(off, v). TProp off v) ps @ ts) = ps @ lead ts"
  by (induction ps) auto

lemma lead_children: "lead (concat (map dtoks cs) @ TEndNode # ts) = []"
proof (cases cs)
  case (Cons c cs')
  then show ?thesis by (cases c) simp
qed simp

lemma visit_props: "visit (map (\<lambda>(off, v). TProp off v) ps @ ts) d = visit ts d"
  by (induction ps) auto

lemma visit_tree: "visit (dtoks t @ ts) d = preorder (d + 1) t @ visit ts d"
proof (induction t arbitrary: ts d)
  case (DNode n ps cs)
  have "visit (concat (map dtoks cs) @ us) e = concat (map (preorder (e + 1)) cs) @ visit us e" for us e
    using DNode by (induction cs) simp_all
  then show ?case by (simp add: visit_props lead_props lead_children)
qed

text \<open>The walk of a client: \<^verbatim>\<open>for (ok = fdt_first_node(...); ok; ok = fdt_next_node(...))\<close>.\<close>

partial_function (option) nodes_from :: "bytemem \<Rightarrow> fdt \<Rightarrow> (bool \<times> fdt_node) res option \<Rightarrow> fdt_node list res option" where
  "nodes_from m f r =
     (case r of None \<Rightarrow> None | Some (Inl e) \<Rightarrow> Some (Inl e)
      | Some (Inr (ok, node)) \<Rightarrow>
          if \<not> ok then Some (Inr [])
          else Option.bind (nodes_from m f (fdt_next_node m f node)) (\<lambda>ns. Some (rbind ns (\<lambda>ns. Inr (node # ns)))))"

definition finds :: "bytemem \<Rightarrow> fdt \<Rightarrow> (uint32 \<times> uint8 list) list \<Rightarrow> fdt_node \<Rightarrow> bool" where
  "finds m f ps node \<longleftrightarrow> (\<forall>name. case find (\<lambda>(off, v). str_is m (strings f + ucast off) name) ps of
       None \<Rightarrow> fdt_getprop m f node name = Some (Inr None)
     | Some (off, v) \<Rightarrow> \<exists>a. fdt_getprop m f node name = Some (Inr (Some (a, of_nat (length v)))) \<and> at m a v)"

lemma getprop_tokens:
  assumes "fdt_ok f" "block m f p ts" "TFin \<in> set ts"
  shows "case find (\<lambda>(off, v). str_is m (strings f + ucast off) name) (lead ts) of
      None \<Rightarrow> getprop_loop m f p name = Some (Inr None)
    | Some (off, v) \<Rightarrow> \<exists>a. getprop_loop m f p name = Some (Inr (Some (a, of_nat (length v)))) \<and> at m a v"
  using assms(2,3)
proof (induction ts arbitrary: p)
  case (Cons t ts)
  note c = block_Cons [OF assms(1) Cons.prems(1)]
  let ?p = "p + of_nat (length (enc t))"
  have run: "getprop_loop m f p name =
      (case t of TProp off v \<Rightarrow> if str_is m (strings f + ucast off) name then Some (Inr (Some (p + 12, of_nat (length v)))) else getprop_loop m f ?p name
       | TNop \<Rightarrow> getprop_loop m f ?p name | _ \<Rightarrow> Some (Inr None))"
    by (subst getprop_loop.simps) (cases t; simp add: c(1) token_numbers)
  show ?case
  proof (cases t)
    case (TProp off v)
    then have "at m (p + 12) v" using c(3) by (simp add: at_append pad4_def add.commute [of _ p])
    show ?thesis
    proof (cases "str_is m (strings f + ucast off) name")
      case False
      then have r: "getprop_loop m f p name = getprop_loop m f ?p name" using run TProp by simp
      show ?thesis using Cons.IH [OF c(2)] Cons.prems(2) TProp False unfolding r by simp
    qed (use \<open>at m (p + 12) v\<close> TProp run in simp)
  next
    case TNop
    then have r: "getprop_loop m f p name = getprop_loop m f ?p name" using run by simp
    show ?thesis using Cons.IH [OF c(2)] Cons.prems(2) TNop unfolding r by simp
  qed (simp_all add: run)
qed simp

definition describes :: "bytemem \<Rightarrow> fdt \<Rightarrow> fdt_node \<Rightarrow> string \<times> int \<times> (uint32 \<times> uint8 list) list \<Rightarrow> bool" where
  "describes m f node = (\<lambda>(n, d, ps). fn_depth node = d \<and> str_is m (fn_name node) n \<and> finds m f ps node)"

lemma next_begin_fin: "next_begin ts d = Some (n, d', ts') \<Longrightarrow> ts \<noteq> [] \<Longrightarrow> last ts = TFin \<Longrightarrow> TFin \<in> set ts' \<and> last ts' = TFin"
proof (induction ts d rule: next_begin.induct)
  case (2 n0 ts d)
  then have "ts \<noteq> []" by auto
  moreover from this have l: "last ts = TFin" using 2 by simp
  ultimately have "TFin \<in> set ts" using last_in_set by force
  then show ?case using 2 l by auto
qed (auto split: if_splits)

lemma nodes_tokens:
  assumes "fdt_ok f" "block m f (fn_props node) ts" "ts \<noteq> []" "last ts = TFin"
  shows "\<exists>ns. nodes_from m f (fdt_next_node m f node) = Some (Inr ns) \<and> list_all2 (describes m f) ns (visit ts (fn_depth node))"
  using assms(2-)
proof (induction "length ts" arbitrary: ts node rule: less_induct)
  case less
  have fin: "TFin \<in> set ts" using less.prems(2,3) last_in_set by force
  note s = next_node_tokens [OF assms(1) less.prems(1) fin, of node]
  show ?case
  proof (cases "next_begin ts (fn_depth node)")
    case None
    then obtain node' where "fdt_next_node m f node = Some (Inr (False, node'))" using s by (auto simp: fdt_next_node_def)
    then show ?thesis using None by (subst nodes_from.simps, subst visit.simps) simp
  next
    case (Some r)
    obtain n d ts' where r: "r = (n, d, ts')" by (cases r)
    obtain x where x: "fdt_next_node m f node = Some (Inr (True, x))" "fn_depth x = d" "str_is m (fn_name x) n" "block m f (fn_props x) ts'"
      using s Some r by (auto simp: fdt_next_node_def)
    have t: "TFin \<in> set ts'" "last ts' = TFin" using next_begin_fin Some r less.prems(2,3) by blast+
    then have "ts' \<noteq> []" by auto
    obtain ns where ns: "nodes_from m f (fdt_next_node m f x) = Some (Inr ns)" "list_all2 (describes m f) ns (visit ts' d)"
      using less.hyps [OF next_begin_shorter x(4) \<open>ts' \<noteq> []\<close> t(2)] Some r x(2) by blast
    have "describes m f x (n, d, lead ts')"
      unfolding describes_def finds_def fdt_getprop_def using x(2,3) getprop_tokens [OF assms(1) x(4) t(1)] by blast
    then show ?thesis using ns Some r x(1) by (subst nodes_from.simps, subst visit.simps) simp
  qed
qed

text \<open>C19: the reader reads what a tree says. When the structure block holds the encoding of a device tree, the walk from
  the first node on visits exactly the nodes of the tree in document order, each with its name and its depth, and
  at each of them the search for a property finds the first one of that name, its length and its bytes, and none
  when the node has none.\<close>

theorem fdt_reads_tree:
  assumes "fdt_ok f" "block m f (struct_start f) (dtoks t @ [TFin])"
  shows "\<exists>ns. nodes_from m f (fdt_first_node m f) = Some (Inr ns) \<and> list_all2 (describes m f) ns (preorder 0 t)"
proof -
  let ?node = "\<lparr>fn_props = struct_start f, fn_name = 0, fn_depth = -1\<rparr>"
  have "visit (dtoks t @ [TFin]) (-1) = preorder 0 t" using visit_tree [of t "[TFin]" "-1"] by simp
  then show ?thesis using nodes_tokens [of f m ?node "dtoks t @ [TFin]"] assms by (simp add: fdt_first_node_def)
qed

section \<open>A small tree\<close>

definition demo_tree :: dtree where
  "demo_tree = DNode ''/'' [(0, [0, 0, 0, 2])] [DNode ''cpus'' [] [], DNode ''uart@9'' [(0, [7])] []]"

definition demo_fdt :: fdt where
  "demo_fdt = \<lparr>struct_start = 0x10000, struct_end = 0x11000, strings = 0x20000, strings_end = 0x20002\<rparr>"

definition demo_blob :: bytemem where
  "demo_blob a =
     (let i = unat (a - 0x10000); bs = encs (dtoks demo_tree @ [TFin]) in
      if a = 0x20000 then cbyte CHR ''a'' else if i < length bs then bs ! i else 0)"

theorem fdt_reads_tree_witness:
  "\<exists>ns. nodes_from demo_blob demo_fdt (fdt_first_node demo_blob demo_fdt) = Some (Inr ns) \<and>
     map fn_depth ns = [0, 1, 1]"
proof -
  let ?ts = "dtoks demo_tree @ [TFin]"
  have l: "length (encs ?ts) = 80" by code_simp
  have "at demo_blob 0x10000 (encs ?ts)" unfolding at_def l
  proof (intro allI impI)
    fix i :: nat assume i: "i < 80"
    then have "unat (of_nat i :: uint64) = i" by (intro unat_of_nat_small) simp
    moreover from this have "0x10000 + of_nat i \<noteq> (0x20000 :: uint64)" using i by (auto simp: word_unat_eq_iff unat_word_ariths)
    ultimately show "demo_blob (0x10000 + of_nat i) = encs ?ts ! i" using i l by (simp add: demo_blob_def Let_def)
  qed
  moreover have "\<forall>t \<in> set ?ts. tok_ok demo_fdt t" by (simp add: demo_tree_def demo_fdt_def cbyte_def)
  ultimately have b: "block demo_blob demo_fdt (struct_start demo_fdt) ?ts" by (simp add: block_def l demo_fdt_def)
  have "fdt_ok demo_fdt" by (simp add: fdt_ok_def demo_fdt_def)
  from fdt_reads_tree [OF this b] obtain ns where ns: "nodes_from demo_blob demo_fdt (fdt_first_node demo_blob demo_fdt) = Some (Inr ns)"
    "list_all2 (describes demo_blob demo_fdt) ns (preorder 0 demo_tree)" by blast
  have "map fn_depth xs = map (fst \<circ> snd) ys" if "list_all2 (describes m f) xs ys" for m f xs ys
    using that by (induction rule: list_all2_induct) (auto simp: describes_def)
  from this [OF ns(2)] show ?thesis using ns(1) by (simp add: demo_tree_def)
qed

definition demo_header :: bytemem where
  "demo_header a =
     (let i = unat (a - 0x10000); bs = concat (map be32 [FDT_MAGIC, 0x100, 0x30, 0xF0, 0, 17, 16, 0, 8, 0x80]) in if i < length bs then bs ! i else 0)"

theorem fdt_walks_end_witness:
  "\<exists>f. fdt_open demo_header 0x10000 = Inr f \<and> (\<exists>r. fdt_first_node demo_header f = Some r)"
proof -
  have o: "fdt_open demo_header 0x10000 = Inr \<lparr>struct_start = 0x10030, struct_end = 0x100B0, strings = 0x100F0, strings_end = 0x100F8\<rparr>" by code_simp
  moreover have "unat (0x10000 :: uintptr) \<le> 2 ^ 64 - 2 ^ 35" by simp
  ultimately show ?thesis using fdt_walks_end [OF o] by blast
qed

text \<open>
  The length of a property is checked after rounding it up to words in 32 bits, and that wraps: a property of
  \<open>2 ^ 32 - 1\<close> bytes is accepted in a block of 16.
\<close>

definition huge_blob :: bytemem where
  "huge_blob a = (let i = unat (a - 0x10000); bs = be32 FDT_PROP @ be32 0xFFFFFFFF @ be32 0 @ be32 FDT_END in if i < length bs then bs ! i else 0)"

lemma huge_property_accepted:
  "fdt_next_tag huge_blob \<lparr>struct_start = 0x10000, struct_end = 0x10010, strings = 0x20000, strings_end = 0x20002\<rparr> 0x10000 =
     Inr (0x1000C, \<lparr>tg_type = FDT_PROP, tg_name = 0x20000, tg_value = 0x1000C, tg_len = 0xFFFFFFFF\<rparr>)"
  by code_simp

end
