(* ===== verification/Dtb.thy ===== *)
theory Dtb
  imports FdtSpec Physmem ProcState
begin

text \<open>
  What the kernel takes from the device tree (\<^verbatim>\<open>arch/dtb.c\<close>): CPUs, memory banks, the PSCI conduit, the timer, the
  serial port and the interrupt controller. The state is the file's variables with the memory map of \<open>physmem.c\<close>;
  the lines it prints are left out. \<open>read_mpidr\<close> is an argument.
\<close>

section \<open>State\<close>

definition DT_INTR_SPI :: uint32 where [kdefs]: "DT_INTR_SPI = 0"
definition DT_INTR_PPI :: uint32 where [kdefs]: "DT_INTR_PPI = 1"
definition DT_TIMER_PHYS_NS :: nat where [kdefs]: "DT_TIMER_PHYS_NS = 1"
definition GIC_PPI_BASE :: uint32 where [kdefs]: "GIC_PPI_BASE = 16"
definition GIC_SPI_BASE :: uint32 where [kdefs]: "GIC_SPI_BASE = 32"
definition PSCI_CONDUIT_HVC :: int where [kdefs]: "PSCI_CONDUIT_HVC = 0"
definition PSCI_CONDUIT_SMC :: int where [kdefs]: "PSCI_CONDUIT_SMC = 1"

record platform =
  uart_base :: uintptr
  uart_clk :: uint32
  uart_irq :: uint32
  gicd_base :: uintptr
  gicr_base :: uintptr
  timer_irq :: uint32

record dtb =
  dt_ncpus :: nat
  dt_conduit :: int
  dt_timer_freq :: uint64
  dt_platform :: platform
  dt_mpidr :: "uint64 list"         \<comment> \<open>\<open>cpu_mpidr\<close>\<close>
  dt_acells :: int
  dt_scells :: int
  dt_boot_mpidr :: uint64
  dt_nbanks :: int
  dt_boot_found :: bool
  dt_overflow :: bool
  dt_clk_phandle :: uint32
  dt_phys :: physmem

text \<open>The variables as the image has them before \<open>dtb_init\<close>.\<close>

definition dtb0 :: dtb where
  "dtb0 = \<lparr>dt_ncpus = 0, dt_conduit = 0, dt_timer_freq = 0,
     dt_platform = \<lparr>uart_base = 0, uart_clk = 0, uart_irq = 0, gicd_base = 0, gicr_base = 0, timer_irq = 0\<rparr>,
     dt_mpidr = replicate NCPU_MAX 0, dt_acells = 2, dt_scells = 1, dt_boot_mpidr = 0, dt_nbanks = 0, dt_boot_found = False,
     dt_overflow = False, dt_clk_phandle = 0, dt_phys = \<lparr>hwregions = [], exregions = [], vm_phys_segs = []\<rparr>\<rparr>"

definition upd_platform :: "(platform \<Rightarrow> platform) \<Rightarrow> dtb \<Rightarrow> dtb" where
  "upd_platform g s = s\<lparr>dt_platform := g (dt_platform s)\<rparr>"

section \<open>Nodes\<close>

definition dtb_intid :: "bytemem \<Rightarrow> uintptr \<Rightarrow> uint32 res" where
  "dtb_intid m intr =
     (let type = fdt32 (rd32 m intr) in
      if type = DT_INTR_SPI then Inr (GIC_SPI_BASE + fdt32 (rd32 m (intr + 4)))
      else if type = DT_INTR_PPI then Inr (GIC_PPI_BASE + fdt32 (rd32 m (intr + 4)))
      else Inl (Panic ''dtb: interrupt type %u is not SPI or PPI''))"

definition dtb_parse_root :: "bytemem \<Rightarrow> fdt \<Rightarrow> fdt_node \<Rightarrow> dtb \<Rightarrow> dtb res option" where
  "dtb_parse_root m f node s =
     tbind (fdt_prop_u32 m f node ''#address-cells'') (\<lambda>v.
       let s1 = (case v of None \<Rightarrow> s | Some a \<Rightarrow> s\<lparr>dt_acells := sint a\<rparr>) in
       tbind (fdt_prop_u32 m f node ''#size-cells'') (\<lambda>v. tret (case v of None \<Rightarrow> s1 | Some a \<Rightarrow> s1\<lparr>dt_scells := sint a\<rparr>)))"

text \<open>One CPU node: the body of the loop of \<open>dtb_parse_cpus\<close> once its \<open>mpidr\<close> is known.\<close>

definition dtb_add_cpu :: "uint64 \<Rightarrow> dtb \<Rightarrow> dtb res" where
  "dtb_add_cpu mpidr s =
     (if mpidr = dt_boot_mpidr s then
        (if dt_boot_found s then Inl (Panic ''dtb: duplicate CPU MPIDR'') else Inr (s\<lparr>dt_boot_found := True\<rparr>))
      else if \<exists>k \<in> {1..<dt_ncpus s}. dt_mpidr s ! k = mpidr then Inl (Panic ''dtb: duplicate CPU MPIDR'')
      else if dt_ncpus s < NCPU_MAX then Inr (s\<lparr>dt_mpidr := (dt_mpidr s)[dt_ncpus s := mpidr], dt_ncpus := dt_ncpus s + 1\<rparr>)
      else Inr (s\<lparr>dt_overflow := True\<rparr>))"

definition dtb_parse_cpu :: "bytemem \<Rightarrow> fdt \<Rightarrow> fdt_node \<Rightarrow> dtb \<Rightarrow> dtb res option" where
  "dtb_parse_cpu m f cpu s =
     (if \<not> fdt_node_is m cpu ''cpu'' then tret s
      else tbind (fdt_getprop m f cpu ''reg'') (\<lambda>r.
        case r of None \<Rightarrow> tret s
        | Some (reg, len) \<Rightarrow>
            if len < 4 then tret s
            else Some (dtb_add_cpu (if len = 4 then ucast (fdt32 (rd32 m reg)) else fdt64 m reg) s)))"

partial_function (option) cpus_loop :: "bytemem \<Rightarrow> fdt \<Rightarrow> fdt_node \<Rightarrow> bool \<Rightarrow> fdt_node \<Rightarrow> dtb \<Rightarrow> dtb res option" where
  "cpus_loop m f parent ok cpu s =
     (if \<not> ok then Some (Inr s)
      else (case dtb_parse_cpu m f cpu s of None \<Rightarrow> None | Some (Inl e) \<Rightarrow> Some (Inl e)
        | Some (Inr s1) \<Rightarrow>
            (case fdt_next_subnode m f parent cpu of None \<Rightarrow> None | Some (Inl e) \<Rightarrow> Some (Inl e)
             | Some (Inr (ok1, cpu1)) \<Rightarrow> cpus_loop m f parent ok1 cpu1 s1)))"

definition dtb_parse_cpus :: "bytemem \<Rightarrow> fdt \<Rightarrow> fdt_node \<Rightarrow> dtb \<Rightarrow> dtb res option" where
  "dtb_parse_cpus m f node s = tbind (fdt_first_subnode m f node) (\<lambda>(ok, cpu). cpus_loop m f node ok cpu s)"

definition dtb_bank :: "bytemem \<Rightarrow> uintptr \<Rightarrow> uint32 \<Rightarrow> dtb \<Rightarrow> dtb res" where
  "dtb_bank m reg off s =
     rbind (fdt_cells m (reg + 4 * ucast off) (dt_acells s)) (\<lambda>base.
       rbind (fdt_cells m (reg + 4 * ucast off + 4 * of_int (dt_acells s)) (dt_scells s)) (\<lambda>sz.
         if sz > 0 then rbind (physmem_hardware_region base sz (dt_phys s)) (\<lambda>ph. Inr (s\<lparr>dt_phys := ph, dt_nbanks := dt_nbanks s + 1\<rparr>))
         else Inr s))"

partial_function (option) memory_loop :: "bytemem \<Rightarrow> uintptr \<Rightarrow> uint32 \<Rightarrow> uint32 \<Rightarrow> uint32 \<Rightarrow> dtb \<Rightarrow> dtb res option" where
  "memory_loop m reg len ec off s =
     (if (off + ec) * 4 \<le> len then
        (case dtb_bank m reg off s of Inl e \<Rightarrow> Some (Inl e) | Inr s1 \<Rightarrow> memory_loop m reg len ec (off + ec) s1)
      else Some (Inr s))"

definition dtb_parse_memory :: "bytemem \<Rightarrow> fdt \<Rightarrow> fdt_node \<Rightarrow> dtb \<Rightarrow> dtb res option" where
  "dtb_parse_memory m f node s =
     tbind (fdt_getprop m f node ''reg'') (\<lambda>r.
       case r of None \<Rightarrow> tret s | Some (reg, len) \<Rightarrow> memory_loop m reg len (of_int (dt_acells s + dt_scells s)) 0 s)"

definition dtb_parse_psci :: "bytemem \<Rightarrow> fdt \<Rightarrow> fdt_node \<Rightarrow> dtb \<Rightarrow> dtb res option" where
  "dtb_parse_psci m f node s =
     tbind (fdt_getprop m f node ''method'') (\<lambda>r.
       case r of None \<Rightarrow> tret s
       | Some (method, len) \<Rightarrow>
           if len = 0 \<or> m (method + ucast (len - 1)) \<noteq> 0 then tret s
           else tret (s\<lparr>dt_conduit := (if str_is m method ''smc'' then PSCI_CONDUIT_SMC else PSCI_CONDUIT_HVC)\<rparr>))"

definition dtb_parse_timer :: "bytemem \<Rightarrow> fdt \<Rightarrow> fdt_node \<Rightarrow> dtb \<Rightarrow> dtb res option" where
  "dtb_parse_timer m f node s =
     tbind (fdt_prop_u32 m f node ''clock-frequency'') (\<lambda>v.
       let s1 = (case v of None \<Rightarrow> s | Some a \<Rightarrow> s\<lparr>dt_timer_freq := ucast a\<rparr>) in
       tbind (fdt_getprop m f node ''interrupts'') (\<lambda>r.
         case r of None \<Rightarrow> tret s1
         | Some (intr, len) \<Rightarrow>
             if unat len \<ge> (DT_TIMER_PHYS_NS + 1) * 12
             then tbind (Some (dtb_intid m (intr + 4 * of_nat (DT_TIMER_PHYS_NS * 3)))) (\<lambda>i. tret (upd_platform (timer_irq_update (\<lambda>_. i)) s1))
             else tret s1))"

definition dtb_parse_uart :: "bytemem \<Rightarrow> fdt \<Rightarrow> fdt_node \<Rightarrow> dtb \<Rightarrow> dtb res option" where
  "dtb_parse_uart m f node s =
     tbind (fdt_getprop m f node ''reg'') (\<lambda>r.
       let s1 = (case r of None \<Rightarrow> s | Some (reg, len) \<Rightarrow> if len \<ge> 16 then upd_platform (uart_base_update (\<lambda>_. fdt64 m reg)) s else s) in
       tbind (fdt_prop_u32 m f node ''clock-frequency'') (\<lambda>v.
         tbind (case v of Some a \<Rightarrow> tret (upd_platform (uart_clk_update (\<lambda>_. a)) s1)
                | None \<Rightarrow> tbind (fdt_prop_u32 m f node ''clocks'') (\<lambda>w. tret (case w of None \<Rightarrow> s1 | Some a \<Rightarrow> s1\<lparr>dt_clk_phandle := a\<rparr>))) (\<lambda>s2.
           tbind (fdt_getprop m f node ''interrupts'') (\<lambda>r.
             case r of None \<Rightarrow> tret s2
             | Some (intr, len) \<Rightarrow>
                 if len \<ge> 12 then tbind (Some (dtb_intid m intr)) (\<lambda>i. tret (upd_platform (uart_irq_update (\<lambda>_. i)) s2)) else tret s2))))"

definition dtb_parse_gic :: "bytemem \<Rightarrow> fdt \<Rightarrow> fdt_node \<Rightarrow> dtb \<Rightarrow> dtb res option" where
  "dtb_parse_gic m f node s =
     tbind (fdt_getprop m f node ''reg'') (\<lambda>r.
       tret (case r of None \<Rightarrow> s
         | Some (reg, len) \<Rightarrow> if len \<ge> 32 then upd_platform (\<lambda>q. q\<lparr>gicd_base := fdt64 m reg, gicr_base := fdt64 m (reg + 16)\<rparr>) s else s))"

section \<open>The walk\<close>

definition dtb_node :: "bytemem \<Rightarrow> fdt \<Rightarrow> fdt_node \<Rightarrow> dtb \<Rightarrow> dtb res option" where
  "dtb_node m f node s =
     (if fn_depth node = 0 then dtb_parse_root m f node s
      else if fn_depth node \<noteq> 1 then tret s
      else if fdt_node_is m node ''cpus'' then dtb_parse_cpus m f node s
      else if fdt_node_is m node ''memory'' then dtb_parse_memory m f node s
      else if fdt_node_is m node ''psci'' then dtb_parse_psci m f node s
      else if fdt_node_is m node ''timer'' then dtb_parse_timer m f node s
      else if fdt_node_is m node ''pl011'' then dtb_parse_uart m f node s
      else if fdt_node_is m node ''intc'' then dtb_parse_gic m f node s
      else tret s)"

partial_function (option) dtb_loop :: "bytemem \<Rightarrow> fdt \<Rightarrow> bool \<Rightarrow> fdt_node \<Rightarrow> dtb \<Rightarrow> dtb res option" where
  "dtb_loop m f ok node s =
     (if \<not> ok then Some (Inr s)
      else (case dtb_node m f node s of None \<Rightarrow> None | Some (Inl e) \<Rightarrow> Some (Inl e)
        | Some (Inr s1) \<Rightarrow>
            (case fdt_next_node m f node of None \<Rightarrow> None | Some (Inl e) \<Rightarrow> Some (Inl e)
             | Some (Inr (ok1, node1)) \<Rightarrow> dtb_loop m f ok1 node1 s1)))"

definition dtb_uart_clock :: "bytemem \<Rightarrow> fdt \<Rightarrow> dtb \<Rightarrow> dtb res option" where
  "dtb_uart_clock m f s =
     (if uart_clk (dt_platform s) = 0 \<and> dt_clk_phandle s \<noteq> 0 then
        tbind (fdt_node_by_phandle m f (dt_clk_phandle s)) (\<lambda>(ok, clk).
          if ok then tbind (fdt_prop_u32 m f clk ''clock-frequency'') (\<lambda>v.
            tret (case v of None \<Rightarrow> s | Some a \<Rightarrow> upd_platform (uart_clk_update (\<lambda>_. a)) s))
          else tret s)
      else tret s)"

definition dtb_init :: "uint64 \<Rightarrow> bytemem \<Rightarrow> uintptr \<Rightarrow> dtb \<Rightarrow> dtb res option" where
  "dtb_init mpidr m blob s =
     tbind (Some (fdt_open m blob)) (\<lambda>f.
       let s1 = s\<lparr>dt_boot_mpidr := mpidr, dt_mpidr := (dt_mpidr s)[0 := mpidr], dt_ncpus := 1\<rparr> in
       tbind (fdt_first_node m f) (\<lambda>(ok, node). tbind (dtb_loop m f ok node s1) (\<lambda>s2. tbind (dtb_uart_clock m f s2) (\<lambda>s3.
         tassert (dt_boot_found s3) ''dtb: boot CPU MPIDR not described in device tree''
           (tassert (dt_nbanks s3 \<noteq> 0) ''dtb: no usable /memory node in device tree''
             (tassert (uart_irq (dt_platform s3) \<noteq> 0) ''dtb: uart interrupt not described in device tree''
               (tassert (timer_irq (dt_platform s3) \<noteq> 0) ''dtb: timer interrupt not described in device tree'' (tret s3))))))))"

section \<open>Runs that end\<close>

text \<open>\<open>yields c P\<close>: the run \<open>c\<close> ends, and when it does not panic its result has the property \<open>P\<close>.\<close>

definition yields :: "'a res option \<Rightarrow> ('a \<Rightarrow> bool) \<Rightarrow> bool" where
  "yields c P \<longleftrightarrow> (\<exists>r. c = Some r \<and> (\<forall>x. r = Inr x \<longrightarrow> P x))"

lemma yields_simps [simp]: "yields (tret x) P \<longleftrightarrow> P x" "yields (Some (Inr x)) P \<longleftrightarrow> P x" "yields (Some (Inl e)) P"
  by (simp_all add: yields_def tret_def)

lemma yields_tbind [intro]: "yields c Q \<Longrightarrow> (\<And>x. Q x \<Longrightarrow> yields (g x) P) \<Longrightarrow> yields (tbind c g) P"
  by (auto simp: yields_def tbind_def split: option.splits sum.splits)

lemma yields_tassert: "(b \<Longrightarrow> yields k P) \<Longrightarrow> yields (tassert b msg k) P"
  by (cases b) simp_all

lemma yields_mono: "yields c P \<Longrightarrow> (\<And>x. P x \<Longrightarrow> Q x) \<Longrightarrow> yields c Q"
  by (auto simp: yields_def)

lemma yields_total: "\<exists>r. c = Some r \<Longrightarrow> yields c (\<lambda>_. True)"
  by (auto simp: yields_def)

text \<open>No property the reader accepts claims a length whose rounding to words would wrap.\<close>

definition sane_lengths :: "bytemem \<Rightarrow> fdt \<Rightarrow> bool" where
  "sane_lengths m f \<longleftrightarrow> (\<forall>p p' tag. fdt_next_tag m f p = Inr (p', tag) \<longrightarrow> unat (tg_len tag) + 16 < 2 ^ 32)"

lemma getprop_sane:
  assumes "fdt_ok f" "sane_lengths m f"
  shows "yields (fdt_getprop m f node name) (\<lambda>r. \<forall>v len. r = Some (v, len) \<longrightarrow> unat len + 16 < 2 ^ 32)"
proof -
  have "yields (getprop_loop m f p name) (\<lambda>r. \<forall>v len. r = Some (v, len) \<longrightarrow> unat len + 16 < 2 ^ 32)" for p
  proof (induction "unat (struct_end f) - unat p" arbitrary: p rule: less_induct)
    case less
    show ?case
    proof (cases "fdt_next_tag m f p")
      case (Inr r)
      obtain p' tag where r: "r = (p', tag)" by (cases r)
      note pr = next_tag_progress [OF assms(1) Inr [unfolded r]]
      have "unat (struct_end f) - unat p' < unat (struct_end f) - unat p" using pr by (simp add: word_less_nat_alt)
      note ih = less.hyps [OF this]
      have "unat (tg_len tag) + 16 < 2 ^ 32" using assms(2) Inr r unfolding sane_lengths_def by blast
      then show ?thesis using Inr r ih by (subst getprop_loop.simps) simp
    qed (subst getprop_loop.simps, simp)
  qed
  then show ?thesis by (simp add: fdt_getprop_def)
qed

section \<open>The description is well formed\<close>

definition dtb_ok :: "uint64 \<Rightarrow> dtb \<Rightarrow> bool" where
  "dtb_ok mpidr s \<longleftrightarrow> length (dt_mpidr s) = NCPU_MAX \<and> 1 \<le> dt_ncpus s \<and> dt_ncpus s \<le> NCPU_MAX \<and> dt_boot_mpidr s = mpidr \<and>
     dt_mpidr s ! 0 = mpidr \<and> distinct (take (dt_ncpus s) (dt_mpidr s))"

lemma dtb_ok_upd [simp]:
  "dtb_ok c (upd_platform g s) = dtb_ok c s" "dtb_ok c (s\<lparr>dt_boot_found := b\<rparr>) = dtb_ok c s" "dtb_ok c (s\<lparr>dt_overflow := b\<rparr>) = dtb_ok c s"
  "dtb_ok c (s\<lparr>dt_acells := i\<rparr>) = dtb_ok c s" "dtb_ok c (s\<lparr>dt_scells := i\<rparr>) = dtb_ok c s" "dtb_ok c (s\<lparr>dt_conduit := i\<rparr>) = dtb_ok c s"
  "dtb_ok c (s\<lparr>dt_timer_freq := w\<rparr>) = dtb_ok c s" "dtb_ok c (s\<lparr>dt_clk_phandle := h\<rparr>) = dtb_ok c s"
  by (simp_all add: dtb_ok_def upd_platform_def)

lemma add_cpu_ok:
  assumes "dtb_ok c s" "dtb_add_cpu mpidr s = Inr s'"
  shows "dtb_ok c s'"
proof (cases "mpidr = dt_boot_mpidr s")
  case True
  then show ?thesis using assms by (auto simp: dtb_add_cpu_def split: if_splits)
next
  case False
  let ?n = "dt_ncpus s" and ?l = "dt_mpidr s"
  have new: "\<not> (\<exists>k \<in> {1..<?n}. ?l ! k = mpidr)" using assms(2) False by (auto simp: dtb_add_cpu_def split: if_splits)
  show ?thesis
  proof (cases "?n < NCPU_MAX")
    case True
    then have s': "s' = s\<lparr>dt_mpidr := ?l[?n := mpidr], dt_ncpus := ?n + 1\<rparr>" using assms(2) False new by (simp add: dtb_add_cpu_def)
    have len: "length ?l = NCPU_MAX" "1 \<le> ?n" using assms(1) by (simp_all add: dtb_ok_def)
    have "take (?n + 1) (?l[?n := mpidr]) = take ?n ?l @ [mpidr]" using True len by (simp add: take_Suc_conv_app_nth)
    moreover have "mpidr \<notin> set (take ?n ?l)"
    proof
      assume "mpidr \<in> set (take ?n ?l)"
      then obtain k where k: "k < ?n" "?l ! k = mpidr" using True len by (auto simp: in_set_conv_nth)
      then have "k = 0" using new by force
      then show False using k False assms(1) by (simp add: dtb_ok_def)
    qed
    ultimately have "distinct (take (?n + 1) (?l[?n := mpidr]))" using assms(1) by (simp add: dtb_ok_def)
    then show ?thesis using assms(1) True len unfolding s' by (simp add: dtb_ok_def)
  next
    case full: False
    then have "s' = s\<lparr>dt_overflow := True\<rparr>" using assms(2) False new by (simp add: dtb_add_cpu_def)
    then show ?thesis using assms(1) by simp
  qed
qed

lemma bank_ok:
  assumes "dtb_ok c s" "dtb_bank m reg off s = Inr s'"
  shows "dtb_ok c s' \<and> dt_acells s' = dt_acells s \<and> dt_scells s' = dt_scells s \<and> dt_acells s \<in> {1, 2} \<and> dt_scells s \<in> {1, 2}"
proof -
  obtain base sz where b: "fdt_cells m (reg + 4 * ucast off) (dt_acells s) = Inr base"
    "fdt_cells m (reg + 4 * ucast off + 4 * of_int (dt_acells s)) (dt_scells s) = Inr sz"
    using assms(2) by (auto simp: dtb_bank_def rbind_Inr_iff)
  have cells: "dt_acells s \<in> {1, 2}" "dt_scells s \<in> {1, 2}" using b by (auto simp: fdt_cells_def split: if_splits)
  show ?thesis
  proof (cases "sz > 0")
    case True
    then obtain ph where ph: "physmem_hardware_region base sz (dt_phys s) = Inr ph" "s' = s\<lparr>dt_phys := ph, dt_nbanks := dt_nbanks s + 1\<rparr>"
      using assms(2) b by (auto simp: dtb_bank_def rbind_Inr_iff)
    show ?thesis using assms(1) ph(2) cells by (simp add: dtb_ok_def)
  next
    case False
    then show ?thesis using assms b cells by (simp add: dtb_bank_def)
  qed
qed

lemma memory_loop_ok:
  assumes "dtb_ok c s" "unat len + 16 < 2 ^ 32" "ec = of_int (dt_acells s + dt_scells s)" "off * 4 \<le> len" "unat off < 2 ^ 30"
  shows "yields (memory_loop m reg len ec off s) (dtb_ok c)"
  using assms(1,3-)
proof (induction "unat len - 4 * unat off" arbitrary: off s rule: less_induct)
  case less
  show ?case
  proof (cases "(off + ec) * 4 \<le> len")
    case False
    then show ?thesis using less.prems by (subst memory_loop.simps) simp
  next
    case True
    show ?thesis
    proof (cases "dtb_bank m reg off s")
      case (Inl e)
      then show ?thesis using True by (subst memory_loop.simps) simp
    next
      case (Inr s1)
      note b = bank_ok [OF less.prems(1) Inr]
      have ec: "2 \<le> unat ec" "unat ec \<le> 4" using b less.prems(2) by auto
      have o: "4 * unat off \<le> unat len" using less.prems(3,4) by (simp add: word_le_nat_alt unat_word_ariths)
      then have oe: "unat (off + ec) = unat off + unat ec" using ec less.prems(4) by (subst unat_add_no_wrap) simp_all
      have m4: "unat ((off + ec) * 4) = 4 * (unat off + unat ec)" using oe o ec assms(2) by (simp add: unat_word_ariths)
      then have le: "4 * (unat off + unat ec) \<le> unat len" using True by (simp add: word_le_nat_alt)
      have "yields (memory_loop m reg len ec (off + ec) s1) (dtb_ok c)"
      proof (rule less.hyps)
        show "unat len - 4 * unat (off + ec) < unat len - 4 * unat off" using oe ec le by simp
        show "dtb_ok c s1" "ec = of_int (dt_acells s1 + dt_scells s1)" using b less.prems(2) by simp_all
        show "(off + ec) * 4 \<le> len" by (rule True)
        show "unat (off + ec) < 2 ^ 30" using le assms(2) oe by simp
      qed
      then show ?thesis using True Inr by (subst memory_loop.simps) simp
    qed
  qed
qed

section \<open>Every node\<close>

lemma parse_cpus_ok:
  assumes ok: "fdt_ok f" and s: "dtb_ok c s"
  shows "yields (dtb_parse_cpus m f node s) (dtb_ok c)"
proof -
  have cpu: "yields (dtb_parse_cpu m f cpu s) (dtb_ok c)" if "dtb_ok c s" for cpu s
  proof -
    have "yields (fdt_getprop m f cpu ''reg'') (\<lambda>_. True)" using getprop_returns [OF ok] by (simp add: fdt_getprop_def yields_total)
    then show ?thesis using that add_cpu_ok [OF that] unfolding dtb_parse_cpu_def
      by (auto intro!: yields_tbind simp: yields_def [of "Some _"] split: option.split)
  qed
  have loop: "yields (cpus_loop m f node b x s) (dtb_ok c)" if "dtb_ok c s" for b x s
    using that
  proof (induction "unat (struct_end f) - unat (fn_props x)" arbitrary: b x s rule: less_induct)
    case less
    show ?case
    proof (cases b)
      case True
      obtain r where r: "dtb_parse_cpu m f x s = Some r" "\<forall>s1. r = Inr s1 \<longrightarrow> dtb_ok c s1" using cpu [OF less.prems] by (auto simp: yields_def)
      show ?thesis
      proof (cases r)
        case (Inl e)
        then show ?thesis using True r by (subst cpus_loop.simps) simp
      next
        case (Inr s1)
        obtain q where q: "fdt_next_subnode m f node x = Some q" "\<forall>y. q = Inr (True, y) \<longrightarrow> fn_props x < struct_end f \<and> unat (fn_props x) < unat (fn_props y)"
          using subnode_progress [OF ok] by blast
        consider e where "q = Inl e" | y where "q = Inr (False, y)" | y where "q = Inr (True, y)" by (metis obj_sumE prod.exhaust_sel)
        then show ?thesis
        proof cases
          case 2
          have "cpus_loop m f node False y s1 = Some (Inr s1)" by (subst cpus_loop.simps) simp
          then show ?thesis using True r Inr q 2 by (subst cpus_loop.simps) simp
        next
          case 3
          then have "unat (struct_end f) - unat (fn_props y) < unat (struct_end f) - unat (fn_props x)" using q(2) by (auto simp: word_less_nat_alt)
          then have "yields (cpus_loop m f node True y s1) (dtb_ok c)" using less.hyps r(2) Inr by blast
          then show ?thesis using True r Inr q 3 by (subst cpus_loop.simps) simp
        qed (use True r Inr q in \<open>subst cpus_loop.simps, simp\<close>)
      qed
    qed (use less.prems in \<open>subst cpus_loop.simps, simp\<close>)
  qed
  obtain r where "fdt_first_subnode m f node = Some r" using subnode_returns [OF ok] unfolding fdt_first_subnode_def by blast
  then show ?thesis using loop [OF s] unfolding dtb_parse_cpus_def by (cases r) auto
qed

lemma reads_end:
  assumes "fdt_ok f"
  shows "yields (fdt_getprop m f node name) (\<lambda>_. True)" "yields (fdt_prop_u32 m f node name) (\<lambda>_. True)" "yields (fdt_node_by_phandle m f h) (\<lambda>_. True)"
proof -
  show "yields (fdt_getprop m f node name) (\<lambda>_. True)" using getprop_returns [OF assms] by (simp add: fdt_getprop_def yields_total)
  show "yields (fdt_prop_u32 m f node name) (\<lambda>_. True)" using prop_u32_returns [OF assms] by (simp add: yields_total)
  show "yields (fdt_node_by_phandle m f h) (\<lambda>_. True)" using phandle_search_returns [OF assms] by (simp add: yields_total)
qed

lemma node_ok:
  assumes ok: "fdt_ok f" "sane_lengths m f" and s: "dtb_ok c s"
  shows "yields (dtb_node m f node s) (dtb_ok c)"
proof -
  note rd = reads_end [OF ok(1)]
  have "yields (dtb_parse_root m f node s) (dtb_ok c)" unfolding dtb_parse_root_def Let_def
    by (rule yields_tbind [OF rd(2)], rule yields_tbind [OF rd(2)]) (use s in \<open>simp split: option.split\<close>)
  moreover have "yields (dtb_parse_memory m f node s) (dtb_ok c)" unfolding dtb_parse_memory_def
    by (rule yields_tbind [OF getprop_sane [OF ok]]) (use s memory_loop_ok [OF s, of _ _ 0] in \<open>auto split: option.split\<close>)
  moreover have "yields (dtb_parse_psci m f node s) (dtb_ok c)" unfolding dtb_parse_psci_def
    by (rule yields_tbind [OF rd(1)]) (use s in \<open>auto split: option.split\<close>)
  moreover have i: "yields (Some (dtb_intid m p)) (\<lambda>_. True)" for p by (simp add: yields_total)
  have "yields (dtb_parse_timer m f node s) (dtb_ok c)" unfolding dtb_parse_timer_def Let_def
    by (rule yields_tbind [OF rd(2)], rule yields_tbind [OF rd(1)]) (use s in \<open>auto intro!: yields_tbind [OF i] split: option.split\<close>)
  moreover have "yields (dtb_parse_uart m f node s) (dtb_ok c)" unfolding dtb_parse_uart_def Let_def
    by (rule yields_tbind [OF rd(1)], rule yields_tbind [OF rd(2)], rule yields_tbind [where Q = "dtb_ok c"], use s in \<open>auto intro!: yields_tbind [OF rd(2)] split: option.split\<close>)
      (rule yields_tbind [OF rd(1)], auto intro!: yields_tbind [OF i] split: option.split)
  moreover have "yields (dtb_parse_gic m f node s) (dtb_ok c)" unfolding dtb_parse_gic_def
    by (rule yields_tbind [OF rd(1)]) (use s in \<open>auto split: option.split\<close>)
  ultimately show ?thesis using parse_cpus_ok [OF ok(1) s] s unfolding dtb_node_def by simp
qed

lemma dtb_loop_ok:
  assumes ok: "fdt_ok f" "sane_lengths m f" and "dtb_ok c s"
  shows "yields (dtb_loop m f b x s) (dtb_ok c)"
  using assms(3)
proof (induction "unat (struct_end f) - unat (fn_props x)" arbitrary: b x s rule: less_induct)
  case less
  show ?case
  proof (cases b)
    case True
    obtain r where r: "dtb_node m f x s = Some r" "\<forall>s1. r = Inr s1 \<longrightarrow> dtb_ok c s1" using node_ok [OF ok less.prems] by (auto simp: yields_def)
    show ?thesis
    proof (cases r)
      case (Inl e)
      then show ?thesis using True r by (subst dtb_loop.simps) simp
    next
      case (Inr s1)
      show ?thesis
      proof (rule next_node_ends [OF ok(1), of m x])
        fix y assume y: "fdt_next_node m f x = Some (Inr (True, y))" "fn_props x < struct_end f" "unat (fn_props x) < unat (fn_props y)"
        then have "unat (struct_end f) - unat (fn_props y) < unat (struct_end f) - unat (fn_props x)" by (simp add: word_less_nat_alt)
        then have "yields (dtb_loop m f True y s1) (dtb_ok c)" using less.hyps r(2) Inr by blast
        then show ?thesis using True r Inr y(1) by (subst dtb_loop.simps) simp
      next
        fix y assume y: "fdt_next_node m f x = Some (Inr (False, y))"
        have "dtb_loop m f False y s1 = Some (Inr s1)" by (subst dtb_loop.simps) simp
        then show ?thesis using True r Inr y by (subst dtb_loop.simps) simp
      qed (use True r Inr in \<open>subst dtb_loop.simps, simp\<close>)
    qed
  qed (use less.prems in \<open>subst dtb_loop.simps, simp\<close>)
qed


lemma prop_token_byte: "fdt32 (rd32 m p) = FDT_PROP \<Longrightarrow> m (p + 3) = 3"
proof -
  assume a: "fdt32 (rd32 m p) = FDT_PROP"
  have k: "(0xFF :: uint32) = mask 8" "(0xFF00 :: uint32) = push_bit 8 (mask 8)" "(0xFF0000 :: uint32) = push_bit 16 (mask 8)"
    by (simp_all add: mask_eq_exp_minus_1)
  have b: "bit (fdt32 (rd32 m p)) n = bit (m (p + 3)) n" if "n < 8" for n
    unfolding fdt32_def rd32_def k using that by (auto simp: bit_simps dest: bit_imp_le_length)
  show "m (p + 3) = 3"
  proof (rule bit_word_eqI)
    fix n assume "n < LENGTH(8)"
    then have n: "n < 8" by simp
    have "bit (m (p + 3)) n = bit (3 :: uint32) n" using b [OF n] a by (simp add: FDT_PROP_def)
    also have "bit (3 :: uint32) n = bit (3 :: uint8) n" using n by (simp add: bit_numeral_word_iff)
    finally show "bit (m (p + 3)) n = bit (3 :: uint8) n" .
  qed
qed


end
