(* ===== verification/Dmap.thy ===== *)
theory Dmap
  imports ProcState PmapProofs
begin

text \<open>
  The kernel's own translation tables (\<open>kvminit\<close> and the \<open>dmap_\<close> functions of \<^verbatim>\<open>arch/pmap.c\<close>), built at boot with the MMU
  off: a pointer is a physical address, so the store of pages is read at physical addresses here. The static
  tables and the linker symbols are the fields of \<open>ksyms\<close>. The lock that \<open>kvminit\<close> initialises and the line
  it prints have no state here.
\<close>

record ksyms =
  l0_table :: uintptr
  l1_table :: uintptr
  l2_device :: uintptr
  kstack_table :: uintptr
  stext :: uintptr
  kend :: uintptr

definition L0X :: "uintptr \<Rightarrow> nat" where "L0X va = unat (drop_bit L0_SHIFT va AND of_nat (TABLE_ENTRIES - 1))"
definition L1X :: "uintptr \<Rightarrow> nat" where "L1X va = unat (drop_bit L1_SHIFT va AND of_nat (TABLE_ENTRIES - 1))"

definition boot_pgtable :: "'a vm_scheme \<Rightarrow> uintptr \<times> 'a vm_scheme" where
  "boot_pgtable s = (let (pt, s1) = boot_alloc 1 s in (pt, zero_page pt s1))"

definition dmap_l2 :: "ksyms \<Rightarrow> uint64 \<Rightarrow> 'a vm_scheme \<Rightarrow> (uintptr \<times> 'a vm_scheme) res" where
  "dmap_l2 k pa s =
     (let i = L1X pa in
      if i = 0 \<or> i = KSTACK_WINDOW_L1 then Inl (Panic ''kvminit: RAM bank overlaps a reserved L1 slot (device/kstack'')
      else
        (let s1 = (if rd (l1_table k, i) s AND PTE_VALID = 0 then
                     (let (l2, s1) = boot_pgtable s in wr (l1_table k, i) (l2 OR (PTE_VALID OR PTE_TABLE)) s1)
                   else s) in
         Inr (PTE_ADDR (rd (l1_table k, i) s1), s1)))"

definition dmap_page :: "ksyms \<Rightarrow> uint64 \<Rightarrow> 'a vm_scheme \<Rightarrow> 'a vm_scheme res" where
  "dmap_page k pa s =
     rbind (dmap_l2 k pa s) (\<lambda>(l2, s1).
       let s2 = (if rd (l2, L2X pa) s1 AND PTE_VALID = 0 then
                   (let (l3, s2) = boot_pgtable s1 in wr (l2, L2X pa) (l3 OR (PTE_VALID OR PTE_TABLE)) s2)
                 else s1);
           l3 = PTE_ADDR (rd (l2, L2X pa) s2) in
       Inr (wr (l3, L3X pa) (pa OR PAGE_KERNEL) s2))"

definition dmap_block_2m :: "ksyms \<Rightarrow> uint64 \<Rightarrow> 'a vm_scheme \<Rightarrow> 'a vm_scheme res" where
  "dmap_block_2m k pa s = rbind (dmap_l2 k pa s) (\<lambda>(l2, s1). Inr (wr (l2, L2X pa) (pa OR BLOCK_NORMAL) s1))"

definition dmap_block_1g :: "ksyms \<Rightarrow> uint64 \<Rightarrow> 'a vm_scheme \<Rightarrow> 'a vm_scheme res" where
  "dmap_block_1g k pa s =
     (let i = L1X pa in
      if i = 0 \<or> i = KSTACK_WINDOW_L1 then Inl (Panic ''kvminit: RAM bank overlaps a reserved L1 slot (device/kstack)'')
      else Inr (wr (l1_table k, i) (pa OR BLOCK_NORMAL) s))"

text \<open>\<^verbatim>\<open>while (go(pa)) { body(pa); pa += step; }\<close>. \<open>None\<close> is the loop that does not end.\<close>

partial_function (option) blocks ::
  "(uint64 \<Rightarrow> bool) \<Rightarrow> uint64 \<Rightarrow> (uint64 \<Rightarrow> 's \<Rightarrow> 's res) \<Rightarrow> uint64 \<Rightarrow> 's \<Rightarrow> (uint64 \<times> 's) res option" where
  "blocks go step body pa s =
     (if go pa then (case body pa s of Inl e \<Rightarrow> Some (Inl e) | Inr s' \<Rightarrow> blocks go step body (pa + step) s')
      else Some (Inr (pa, s)))"

definition dmap_bank :: "ksyms \<Rightarrow> uint64 \<Rightarrow> uint64 \<Rightarrow> 'a vm_scheme \<Rightarrow> 'a vm_scheme res option" where
  "dmap_bank k start_pa end_pa s =
     (if start_pa < BLOCK_SIZE_1G then Some (Inl (Panic ''kvminit: RAM bank below 1 GB collides with the device block''))
      else if end_pa > push_bit L1_SHIFT (of_nat KSTACK_WINDOW_L1) then Some (Inl (Panic ''kvminit: RAM bank reaches the kstack window (>511 GB)''))
      else
        tbind (blocks (\<lambda>pa. pa < end_pa \<and> pa AND (BLOCK_SIZE_2M - 1) \<noteq> 0) PGSIZE (dmap_page k) start_pa s) (\<lambda>(pa1, s1).
          tbind (blocks (\<lambda>pa. pa + BLOCK_SIZE_2M \<le> end_pa \<and> pa AND (BLOCK_SIZE_1G - 1) \<noteq> 0) BLOCK_SIZE_2M (dmap_block_2m k) pa1 s1) (\<lambda>(pa2, s2).
            tbind (blocks (\<lambda>pa. pa + BLOCK_SIZE_1G \<le> end_pa) BLOCK_SIZE_1G (dmap_block_1g k) pa2 s2) (\<lambda>(pa3, s3).
              tbind (blocks (\<lambda>pa. pa + BLOCK_SIZE_2M \<le> end_pa) BLOCK_SIZE_2M (dmap_block_2m k) pa3 s3) (\<lambda>(pa4, s4).
                tbind (blocks (\<lambda>pa. pa < end_pa) PGSIZE (dmap_page k) pa4 s4) (\<lambda>(_, s5). tret s5))))))"

definition kvm_static :: "ksyms \<Rightarrow> 'a vm_scheme \<Rightarrow> 'a vm_scheme" where
  "kvm_static k s =
     (let s1 = zero_page (kstack_table k) (zero_page (l2_device k) (zero_page (l1_table k) (zero_page (l0_table k) s)));
          s2 = s1\<lparr>km_boot := PGROUNDUP (kend k)\<rparr>;
          s3 = wr (l0_table k, 0) (l1_table k OR (PTE_VALID OR PTE_TABLE)) s2;
          s4 = wr (l1_table k, 0) (l2_device k OR (PTE_VALID OR PTE_TABLE)) s3;
          s5 = fold (\<lambda>i. wr (l2_device k, i) (push_bit L2_SHIFT (of_nat i) OR BLOCK_DEVICE)) [0..<TABLE_ENTRIES] s4 in
      wr (l1_table k, KSTACK_WINDOW_L1) (kstack_table k OR (PTE_VALID OR PTE_TABLE)) s5)"

definition kvminit :: "ksyms \<Rightarrow> 'a vm_scheme \<Rightarrow> 'a vm_scheme res option" where
  "kvminit k s =
     (let s1 = kvm_static k s in
      tbind (Some (physmem_avail (km_phys s1))) (\<lambda>p.
        tbind (tseq (\<lambda>g. dmap_bank k (seg_start g) (seg_end g)) (vm_phys_segs p) (s1\<lparr>km_phys := p\<rparr>)) (\<lambda>s2.
          tbind (Some (physmem_exclude_region (stext k) (km_boot s2 - stext k) (km_phys s2))) (\<lambda>p'.
            tret (s2\<lparr>km_phys := p'\<rparr>)))))"

section \<open>What the hardware reads\<close>

text \<open>The walk of a 48-bit address by the MMU: table descriptors at the upper levels, 1 GB and 2 MB blocks, 4 KB pages.\<close>

definition is_table :: "pte_t \<Rightarrow> bool" where "is_table e \<longleftrightarrow> e AND PTE_TABLE \<noteq> 0"

definition walk_l3 :: "ptstore \<Rightarrow> uintptr \<Rightarrow> uintptr \<Rightarrow> uint64 option" where
  "walk_l3 M t va = (let e = M t (L3X va) in if pte_valid e then Some (PTE_ADDR e + (va AND mask 12)) else None)"

definition walk_l2 :: "ptstore \<Rightarrow> uintptr \<Rightarrow> uintptr \<Rightarrow> uint64 option" where
  "walk_l2 M t va =
     (let e = M t (L2X va) in
      if \<not> pte_valid e then None else if is_table e then walk_l3 M (PTE_ADDR e) va else Some (PTE_ADDR e + (va AND mask 21)))"

definition walk_l1 :: "ptstore \<Rightarrow> uintptr \<Rightarrow> uintptr \<Rightarrow> uint64 option" where
  "walk_l1 M t va =
     (let e = M t (L1X va) in
      if \<not> pte_valid e then None else if is_table e then walk_l2 M (PTE_ADDR e) va else Some (PTE_ADDR e + (va AND mask 30)))"

definition translate :: "ptstore \<Rightarrow> uintptr \<Rightarrow> uintptr \<Rightarrow> uint64 option" where
  "translate M t va = (let e = M t (L0X va) in if pte_valid e \<and> is_table e then walk_l1 M (PTE_ADDR e) va else None)"

lemma index_nat: "L0X va = unat va div 2 ^ 39 mod 512" "L1X va = unat va div 2 ^ 30 mod 512" "L2X va = unat va div 2 ^ 21 mod 512" "L3X va = unat va div 2 ^ 12 mod 512"
proof -
  have m: "of_nat (TABLE_ENTRIES - 1) = (mask 9 :: uint64)" by (simp add: TABLE_ENTRIES_def mask_eq_decr_exp)
  show "L0X va = unat va div 2 ^ 39 mod 512" "L1X va = unat va div 2 ^ 30 mod 512" "L2X va = unat va div 2 ^ 21 mod 512" "L3X va = unat va div 2 ^ 12 mod 512"
    unfolding L0X_def L1X_def L2X_def L3X_def m unat_and_mask unat_drop_bit_div by (simp_all add: kdefs)
qed

lemma index_less [simp]: "L0X va < 512" "L1X va < 512" "L2X va < 512" "L3X va < 512" by (simp_all add: index_nat)

lemma entry_parts:
  assumes "page_aligned pa" "pa < MAXUVA"
  shows "PTE_ADDR (pa OR (PTE_VALID OR PTE_TABLE)) = pa" "pte_valid (pa OR (PTE_VALID OR PTE_TABLE))" "is_table (pa OR (PTE_VALID OR PTE_TABLE))"
    "PTE_ADDR (pa OR BLOCK_NORMAL) = pa" "pte_valid (pa OR BLOCK_NORMAL)" "\<not> is_table (pa OR BLOCK_NORMAL)"
    "PTE_ADDR (pa OR PAGE_KERNEL) = pa" "pte_valid (pa OR PAGE_KERNEL)"
    "PTE_ADDR (pa OR BLOCK_DEVICE) = pa" "pte_valid (pa OR BLOCK_DEVICE)" "\<not> is_table (pa OR BLOCK_DEVICE)"
proof -
  have "pa AND mask 12 = 0" using assms(1) by (simp add: word_unat_eq_iff unat_and_mask page_aligned_def)
  moreover have "pa AND PTE_TABLE = (pa AND mask 12) AND 2" by (simp add: PTE_TABLE_def and.assoc mask_eq_decr_exp)
  ultimately have t: "pa AND PTE_TABLE = 0" by simp
  have b: "attrs_ok BLOCK_NORMAL" "attrs_ok BLOCK_DEVICE" "BLOCK_NORMAL AND PTE_TABLE = 0" "BLOCK_DEVICE AND PTE_TABLE = 0"
    by (simp_all add: attrs_ok_def pte_valid_def PTE_ADDR_def kdefs)
  show "PTE_ADDR (pa OR (PTE_VALID OR PTE_TABLE)) = pa" "pte_valid (pa OR (PTE_VALID OR PTE_TABLE))" "PTE_ADDR (pa OR BLOCK_NORMAL) = pa" "pte_valid (pa OR BLOCK_NORMAL)"
    "PTE_ADDR (pa OR PAGE_KERNEL) = pa" "pte_valid (pa OR PAGE_KERNEL)" "PTE_ADDR (pa OR BLOCK_DEVICE) = pa" "pte_valid (pa OR BLOCK_DEVICE)"
    using pte_make [OF assms] table_attrs PAGE_KERNEL_attrs b(1,2) by (auto simp: attrs_ok_def)
  show "is_table (pa OR (PTE_VALID OR PTE_TABLE))" unfolding is_table_def by (simp add: bit.conj_disj_distrib2 t kdefs)
  show "\<not> is_table (pa OR BLOCK_NORMAL)" "\<not> is_table (pa OR BLOCK_DEVICE)" using t b(3,4) by (simp_all add: is_table_def bit.conj_disj_distrib2)
qed

section \<open>The tables as a map\<close>

text \<open>
  Every table below \<open>l1_table\<close> has one owner: the L2 table of a slot, or the L3 table of an entry of a slot. With \<open>own\<close>
  a function of the page, two entries never share a table.
\<close>

datatype owner = Mid nat | Low nat nat

abbreviation link :: "pte_t \<Rightarrow> bool" where "link e \<equiv> pte_valid e \<and> is_table e"
abbreviation ram_slot :: "nat \<Rightarrow> bool" where "ram_slot i \<equiv> 0 < i \<and> i < 511"

definition boot_page :: "nat \<Rightarrow> 'a vm_scheme \<Rightarrow> uintptr \<Rightarrow> bool" where
  "boot_page E s a \<longleftrightarrow> E \<le> unat a \<and> unat a < unat (km_boot s)"

definition owned :: "ksyms \<Rightarrow> nat \<Rightarrow> (uintptr \<Rightarrow> owner) \<Rightarrow> 'a vm_scheme \<Rightarrow> bool" where
  "owned k E own s \<longleftrightarrow>
     (\<forall>i. ram_slot i \<longrightarrow> link (vm_page s (l1_table k) i) \<longrightarrow>
        (let t = PTE_ADDR (vm_page s (l1_table k) i) in boot_page E s t \<and> own t = Mid i \<and>
          (\<forall>j < 512. link (vm_page s t j) \<longrightarrow> boot_page E s (PTE_ADDR (vm_page s t j)) \<and> own (PTE_ADDR (vm_page s t j)) = Low i j)))"

definition maps_exactly :: "ksyms \<Rightarrow> nat set \<Rightarrow> ptstore \<Rightarrow> bool" where
  "maps_exactly k D M \<longleftrightarrow> (\<forall>q. unat q < 2 ^ 39 \<longrightarrow> ram_slot (L1X q) \<longrightarrow>
     walk_l1 M (l1_table k) q = (if unat q div 4096 \<in> D then Some q else None))"

definition dinv :: "ksyms \<Rightarrow> nat \<Rightarrow> nat \<Rightarrow> (uintptr \<Rightarrow> owner) \<Rightarrow> nat set \<Rightarrow> 'a vm_scheme \<Rightarrow> bool" where
  "dinv k E n own D s \<longleftrightarrow> page_aligned (km_boot s) \<and> E \<le> unat (km_boot s) \<and> unat (km_boot s) \<le> E + n \<and> unat (l1_table k) < E \<and>
     owned k E own s \<and> maps_exactly k D (vm_page s)"

lemma walk_same:
  assumes "M' t (L1X q) = M t (L1X q)" "link (M t (L1X q)) \<Longrightarrow> M' (PTE_ADDR (M t (L1X q))) (L2X q) = M (PTE_ADDR (M t (L1X q))) (L2X q)"
    "link (M t (L1X q)) \<Longrightarrow> link (M (PTE_ADDR (M t (L1X q))) (L2X q)) \<Longrightarrow>
      M' (PTE_ADDR (M (PTE_ADDR (M t (L1X q))) (L2X q))) (L3X q) = M (PTE_ADDR (M (PTE_ADDR (M t (L1X q))) (L2X q))) (L3X q)"
  shows "walk_l1 M' t q = walk_l1 M t q"
  using assms by (simp add: walk_l1_def walk_l2_def walk_l3_def Let_def)

lemma ownedD:
  assumes "owned k E own s" "ram_slot i" "link (vm_page s (l1_table k) i)" "t = PTE_ADDR (vm_page s (l1_table k) i)"
  shows "boot_page E s t" "own t = Mid i"
    "j < 512 \<Longrightarrow> link (vm_page s t j) \<Longrightarrow> boot_page E s (PTE_ADDR (vm_page s t j))"
    "j < 512 \<Longrightarrow> link (vm_page s t j) \<Longrightarrow> own (PTE_ADDR (vm_page s t j)) = Low i j"
  using assms unfolding owned_def Let_def by blast+

text \<open>A table fresh from \<open>boot_pgtable\<close>, hung at an entry that was invalid.\<close>

definition plug :: "uintptr \<Rightarrow> nat \<Rightarrow> 'a vm_scheme \<Rightarrow> 'a vm_scheme" where
  "plug t x s = (let (pt, s1) = boot_pgtable s in wr (t, x) (pt OR (PTE_VALID OR PTE_TABLE)) s1)"

lemma plug_parts:
  assumes "t \<noteq> km_boot s"
  shows "vm_page (plug t x s) = (vm_page s)(km_boot s := (\<lambda>_. 0), t := (vm_page s t)(x := km_boot s OR (PTE_VALID OR PTE_TABLE)))"
    "km_boot (plug t x s) = km_boot s + PGSIZE" "km_phys (plug t x s) = km_phys s"
  using assms by (simp_all add: plug_def boot_pgtable_def boot_alloc_def zero_page_def wr_def Let_def)

lemma boot_room:
  assumes "dinv k E n own D s" "E + n + 4096 \<le> 2 ^ 48"
  shows "unat (km_boot s + PGSIZE) = unat (km_boot s) + 4096" "km_boot s < MAXUVA" "page_aligned (km_boot s + PGSIZE)" "page_aligned (km_boot s)"
proof -
  have a: "page_aligned (km_boot s)" "unat (km_boot s) \<le> E + n" using assms(1) by (simp_all add: dinv_def)
  show u: "unat (km_boot s + PGSIZE) = unat (km_boot s) + 4096" using a(2) assms(2) by (subst unat_add_no_wrap) simp_all
  show "km_boot s < MAXUVA" using a(2) assms(2) by (simp add: word_less_nat_alt MAXUVA_def)
  show "page_aligned (km_boot s + PGSIZE)" using a(1) by (simp add: page_aligned_def u)
  show "page_aligned (km_boot s)" by (rule a(1))
qed

lemma plug_l1:
  assumes d: "dinv k E n own D s" "E + n + 4096 \<le> 2 ^ 48" and i: "ram_slot i" "\<not> pte_valid (vm_page s (l1_table k) i)"
  shows "dinv k E (n + 4096) (own(km_boot s := Mid i)) D (plug (l1_table k) i s)"
    "link (vm_page (plug (l1_table k) i s) (l1_table k) i)" "PTE_ADDR (vm_page (plug (l1_table k) i s) (l1_table k) i) = km_boot s"
    "vm_page (plug (l1_table k) i s) (km_boot s) = (\<lambda>_. 0)"
proof -
  let ?a = "km_boot s" and ?t = "l1_table k" and ?s = "plug (l1_table k) i s" and ?M = "vm_page s"
  note r = boot_room [OF d]
  have o: "owned k E own s" "maps_exactly k D ?M" "E \<le> unat ?a" "unat ?a \<le> E + n" "unat ?t < E" using d(1) by (simp_all add: dinv_def)
  have ta: "?t \<noteq> ?a" using o(3,5) by auto
  note p = plug_parts [OF ta]
  note e = entry_parts [OF r(4,2)]
  have new: "vm_page ?s ?t i = ?a OR (PTE_VALID OR PTE_TABLE)" "vm_page ?s ?a = (\<lambda>_. 0)" using ta by (simp_all add: p)
  have l1: "vm_page ?s ?t x = ?M ?t x" if "x \<noteq> i" for x using that by (simp add: p)
  have old: "vm_page ?s b = ?M b" if "boot_page E s b" for b using that o(5) by (auto simp: p boot_page_def)
  have bp: "boot_page E ?s b" "b \<noteq> ?a" if "boot_page E s b" for b using that r(1) by (auto simp: p boot_page_def)
  have z: "\<not> pte_valid 0" by (simp add: pte_valid_def)
  show "link (vm_page ?s ?t i)" "PTE_ADDR (vm_page ?s ?t i) = ?a" "vm_page ?s ?a = (\<lambda>_. 0)" using e(1-3) new by simp_all
  have "boot_page E ?s ?a" using o(3) r(1) by (simp add: boot_page_def p)
  have ow: "owned k E (own(?a := Mid i)) ?s" unfolding owned_def Let_def
  proof (intro allI impI)
    fix x assume x: "ram_slot x" "link (vm_page ?s ?t x)"
    show "boot_page E ?s (PTE_ADDR (vm_page ?s ?t x)) \<and> (own(?a := Mid i)) (PTE_ADDR (vm_page ?s ?t x)) = Mid x \<and>
      (\<forall>j < 512. link (vm_page ?s (PTE_ADDR (vm_page ?s ?t x)) j) \<longrightarrow> boot_page E ?s (PTE_ADDR (vm_page ?s (PTE_ADDR (vm_page ?s ?t x)) j)) \<and>
        (own(?a := Mid i)) (PTE_ADDR (vm_page ?s (PTE_ADDR (vm_page ?s ?t x)) j)) = Low x j)"
    proof (cases "x = i")
      case True
      then show ?thesis using \<open>boot_page E ?s ?a\<close> e(1) new z by simp
    next
      case False
      note f = ownedD [OF o(1) x(1) _ refl]
      show ?thesis using f x(2) bp old unfolding l1 [OF False] by (metis fun_upd_other)
    qed
  qed
  have "maps_exactly k D (vm_page ?s)" unfolding maps_exactly_def
  proof (intro allI impI)
    fix q :: uint64 assume q: "unat q < 2 ^ 39" "ram_slot (L1X q)"
    have m: "walk_l1 ?M ?t q = (if unat q div 4096 \<in> D then Some q else None)" using o(2) q by (simp add: maps_exactly_def)
    show "walk_l1 (vm_page ?s) ?t q = (if unat q div 4096 \<in> D then Some q else None)"
    proof (cases "L1X q = i")
      case True
      then have "walk_l1 ?M ?t q = None" using i(2) by (simp add: walk_l1_def Let_def)
      moreover have "walk_l1 (vm_page ?s) ?t q = None" using True e(1-3) new z by (simp add: walk_l1_def walk_l2_def Let_def)
      ultimately show ?thesis using m by simp
    next
      case False
      have "walk_l1 (vm_page ?s) ?t q = walk_l1 ?M ?t q"
        by (rule walk_same) (use l1 [OF False] ownedD [OF o(1) q(2) _ refl] old in \<open>simp_all\<close>)
      then show ?thesis using m by simp
    qed
  qed
  then show "dinv k E (n + 4096) (own(?a := Mid i)) D ?s" using ow r o by (simp add: dinv_def p)
qed

lemma mid_tables:
  assumes "owned k E own s" "ram_slot i" "link (vm_page s (l1_table k) i)"
  shows "ram_slot x \<Longrightarrow> link (vm_page s (l1_table k) x) \<Longrightarrow> PTE_ADDR (vm_page s (l1_table k) x) = PTE_ADDR (vm_page s (l1_table k) i) \<longleftrightarrow> x = i"
    "ram_slot x \<Longrightarrow> link (vm_page s (l1_table k) x) \<Longrightarrow> y < 512 \<Longrightarrow> link (vm_page s (PTE_ADDR (vm_page s (l1_table k) x)) y) \<Longrightarrow>
      PTE_ADDR (vm_page s (PTE_ADDR (vm_page s (l1_table k) x)) y) \<noteq> PTE_ADDR (vm_page s (l1_table k) i)"
proof -
  note o = ownedD(2,4) [OF assms(1) _ _ refl]
  show "ram_slot x \<Longrightarrow> link (vm_page s (l1_table k) x) \<Longrightarrow> PTE_ADDR (vm_page s (l1_table k) x) = PTE_ADDR (vm_page s (l1_table k) i) \<longleftrightarrow> x = i"
    using o(1) [of i] o(1) [of x] assms(2,3) by (metis owner.inject(1))
  show "ram_slot x \<Longrightarrow> link (vm_page s (l1_table k) x) \<Longrightarrow> y < 512 \<Longrightarrow> link (vm_page s (PTE_ADDR (vm_page s (l1_table k) x)) y) \<Longrightarrow>
      PTE_ADDR (vm_page s (PTE_ADDR (vm_page s (l1_table k) x)) y) \<noteq> PTE_ADDR (vm_page s (l1_table k) i)"
    using o(1) [of i] o(2) [of x y] assms(2,3) by (metis owner.distinct(1))
qed

lemma low_tables:
  assumes "owned k E own s" "ram_slot i" "link (vm_page s (l1_table k) i)" "t = PTE_ADDR (vm_page s (l1_table k) i)" "j < 512" "link (vm_page s t j)"
  shows "ram_slot x \<Longrightarrow> link (vm_page s (l1_table k) x) \<Longrightarrow> PTE_ADDR (vm_page s (l1_table k) x) \<noteq> PTE_ADDR (vm_page s t j)"
    "ram_slot x \<Longrightarrow> link (vm_page s (l1_table k) x) \<Longrightarrow> y < 512 \<Longrightarrow> link (vm_page s (PTE_ADDR (vm_page s (l1_table k) x)) y) \<Longrightarrow>
      PTE_ADDR (vm_page s (PTE_ADDR (vm_page s (l1_table k) x)) y) = PTE_ADDR (vm_page s t j) \<longleftrightarrow> x = i \<and> y = j"
proof -
  note o = ownedD(2,4) [OF assms(1) _ _ refl]
  have l: "own (PTE_ADDR (vm_page s t j)) = Low i j" using o(2) assms(2-6) by blast
  show "ram_slot x \<Longrightarrow> link (vm_page s (l1_table k) x) \<Longrightarrow> PTE_ADDR (vm_page s (l1_table k) x) \<noteq> PTE_ADDR (vm_page s t j)"
    using o(1) [of x] l by (metis owner.distinct(1))
  show "ram_slot x \<Longrightarrow> link (vm_page s (l1_table k) x) \<Longrightarrow> y < 512 \<Longrightarrow> link (vm_page s (PTE_ADDR (vm_page s (l1_table k) x)) y) \<Longrightarrow>
      PTE_ADDR (vm_page s (PTE_ADDR (vm_page s (l1_table k) x)) y) = PTE_ADDR (vm_page s t j) \<longleftrightarrow> x = i \<and> y = j"
    using o(2) [of x y] l assms(4) by (metis owner.inject(2))
qed

lemma plug_l2:
  assumes d: "dinv k E n own D s" "E + n + 4096 \<le> 2 ^ 48"
    and i: "ram_slot i" "link (vm_page s (l1_table k) i)" "t = PTE_ADDR (vm_page s (l1_table k) i)" and j: "j < 512" "\<not> pte_valid (vm_page s t j)"
  shows "dinv k E (n + 4096) (own(km_boot s := Low i j)) D (plug t j s)" "vm_page (plug t j s) (l1_table k) = vm_page s (l1_table k)"
    "link (vm_page (plug t j s) t j)" "PTE_ADDR (vm_page (plug t j s) t j) = km_boot s"
proof -
  let ?a = "km_boot s" and ?l = "l1_table k" and ?s = "plug t j s" and ?M = "vm_page s"
  note r = boot_room [OF d]
  have o: "owned k E own s" "maps_exactly k D ?M" "E \<le> unat ?a" "unat ?a \<le> E + n" "unat ?l < E" using d(1) by (simp_all add: dinv_def)
  have bt: "boot_page E s t" using ownedD(1) [OF o(1) i] .
  then have ta: "t \<noteq> ?a" "?l \<noteq> t" "?l \<noteq> ?a" using o(3,5) by (auto simp: boot_page_def)
  note p = plug_parts [OF ta(1)]
  note e = entry_parts [OF r(4,2)]
  have new: "vm_page ?s t j = ?a OR (PTE_VALID OR PTE_TABLE)" "vm_page ?s ?a = (\<lambda>_. 0)" using ta by (simp_all add: p)
  have tx: "vm_page ?s t x = ?M t x" if "x \<noteq> j" for x using that by (simp add: p)
  show l1: "vm_page ?s ?l = ?M ?l" using ta by (simp add: p)
  have old: "vm_page ?s b = ?M b" if "boot_page E s b" "b \<noteq> t" for b using that by (auto simp: p boot_page_def)
  have bp: "boot_page E ?s b" "b \<noteq> ?a" if "boot_page E s b" for b using that r(1) by (auto simp: p boot_page_def)
  have z: "\<not> pte_valid 0" by (simp add: pte_valid_def)
  show "link (vm_page ?s t j)" "PTE_ADDR (vm_page ?s t j) = ?a" using e(1-3) new by simp_all
  have na: "boot_page E ?s ?a" using o(3) r(1) by (simp add: boot_page_def p)
  note f = ownedD [OF o(1) _ _ refl]
  note mt = mid_tables [OF o(1) i(1,2), folded i(3)]
  have ow: "owned k E (own(?a := Low i j)) ?s" unfolding owned_def Let_def l1
  proof (intro allI impI conjI)
    fix x assume x: "ram_slot x" "link (?M ?l x)"
    show "boot_page E ?s (PTE_ADDR (?M ?l x))" "(own(?a := Low i j)) (PTE_ADDR (?M ?l x)) = Mid x" using f(1,2) [OF x] bp by simp_all
    fix y assume y: "y < 512" "link (vm_page ?s (PTE_ADDR (?M ?l x)) y)"
    have "boot_page E ?s (PTE_ADDR (vm_page ?s (PTE_ADDR (?M ?l x)) y)) \<and> (own(?a := Low i j)) (PTE_ADDR (vm_page ?s (PTE_ADDR (?M ?l x)) y)) = Low x y"
    proof (cases "x = i \<and> y = j")
      case True
      then show ?thesis using i(3) new e(1) na by simp
    next
      case False
      then have "vm_page ?s (PTE_ADDR (?M ?l x)) y = ?M (PTE_ADDR (?M ?l x)) y" using old [OF f(1) [OF x]] mt(1) [OF x] tx i(3) by metis
      then show ?thesis using f(3,4) [OF x y(1)] y(2) bp by simp
    qed
    then show "boot_page E ?s (PTE_ADDR (vm_page ?s (PTE_ADDR (?M ?l x)) y))" "(own(?a := Low i j)) (PTE_ADDR (vm_page ?s (PTE_ADDR (?M ?l x)) y)) = Low x y" by simp_all
  qed
  have "maps_exactly k D (vm_page ?s)" unfolding maps_exactly_def
  proof (intro allI impI)
    fix q :: uint64 assume q: "unat q < 2 ^ 39" "ram_slot (L1X q)"
    have m: "walk_l1 ?M ?l q = (if unat q div 4096 \<in> D then Some q else None)" using o(2) q by (simp add: maps_exactly_def)
    show "walk_l1 (vm_page ?s) ?l q = (if unat q div 4096 \<in> D then Some q else None)"
    proof (cases "L1X q = i \<and> L2X q = j")
      case True
      then have "walk_l1 ?M ?l q = None" using i(2,3) j(2) by (simp add: walk_l1_def walk_l2_def Let_def)
      moreover have "walk_l1 (vm_page ?s) ?l q = None" using True i(2) i(3) [symmetric] e(1-3) new z by (simp add: walk_l1_def walk_l2_def walk_l3_def Let_def l1)
      ultimately show ?thesis using m by simp
    next
      case False
      have "walk_l1 (vm_page ?s) ?l q = walk_l1 ?M ?l q"
      proof (rule walk_same)
        assume l: "link (?M ?l (L1X q))"
        show "vm_page ?s (PTE_ADDR (?M ?l (L1X q))) (L2X q) = ?M (PTE_ADDR (?M ?l (L1X q))) (L2X q)"
          using False old [OF f(1) [OF q(2) l]] mt(1) [OF q(2) l] tx i(3) by metis
        assume "link (?M (PTE_ADDR (?M ?l (L1X q))) (L2X q))"
        then show "vm_page ?s (PTE_ADDR (?M (PTE_ADDR (?M ?l (L1X q))) (L2X q))) (L3X q) = ?M (PTE_ADDR (?M (PTE_ADDR (?M ?l (L1X q))) (L2X q))) (L3X q)"
          using old [OF f(3) [OF q(2) l]] mt(2) [OF q(2) l] by simp
      qed (simp add: l1)
      then show ?thesis using m by simp
    qed
  qed
  then show "dinv k E (n + 4096) (own(?a := Low i j)) D ?s" using ow r o by (simp add: dinv_def p)
qed

section \<open>Leaves\<close>

abbreviation pn :: "uint64 \<Rightarrow> nat" where "pn q \<equiv> unat q div 4096"

lemma index_pn:
  assumes "unat q < 2 ^ 39"
  shows "L1X q = pn q div 512 div 512" "L2X q = pn q div 512 mod 512" "L3X q = pn q mod 512"
  using assms by (simp_all add: index_nat div_mult2_eq [symmetric])

lemma same_block:
  assumes "unat q < 2 ^ 39" "unat pa < 2 ^ 39"
  shows "L1X q = L1X pa \<longleftrightarrow> pn q div 512 div 512 = pn pa div 512 div 512"
    "L1X q = L1X pa \<and> L2X q = L2X pa \<longleftrightarrow> pn q div 512 = pn pa div 512"
    "L1X q = L1X pa \<and> L2X q = L2X pa \<and> L3X q = L3X pa \<longleftrightarrow> pn q = pn pa"
proof -
  show "L1X q = L1X pa \<longleftrightarrow> pn q div 512 div 512 = pn pa div 512 div 512" using index_pn(1) [OF assms(1)] index_pn(1) [OF assms(2)] by simp
  show b: "L1X q = L1X pa \<and> L2X q = L2X pa \<longleftrightarrow> pn q div 512 = pn pa div 512"
    unfolding index_pn [OF assms(1)] index_pn [OF assms(2)] using div_mod_512_eq [of "pn q div 512" "pn pa div 512"] by metis
  show "L1X q = L1X pa \<and> L2X q = L2X pa \<and> L3X q = L3X pa \<longleftrightarrow> pn q = pn pa"
    using b div_mod_512_eq [of "pn q" "pn pa"] index_pn(3) [OF assms(1)] index_pn(3) [OF assms(2)] by metis
qed

lemma block_offset:
  fixes pa q :: uint64
  assumes "unat pa div 2 ^ m = unat q div 2 ^ m" "2 ^ m dvd unat pa"
  shows "pa + (q AND mask m) = q"
proof -
  have "unat pa + unat q mod 2 ^ m = unat q" using assms by (metis dvd_div_mult_self div_mult_mod_eq)
  moreover from this have "unat (pa + (q AND mask m)) = unat pa + unat q mod 2 ^ m"
    using unat64_less [of q] by (subst unat_add_no_wrap) (simp_all add: unat_and_mask)
  ultimately show ?thesis by (simp add: word_unat_eq_iff)
qed

lemma aligned_div: "(2 ^ m :: nat) dvd a \<Longrightarrow> 12 \<le> m \<Longrightarrow> 4096 dvd a" "a div 4096 div 512 = a div 2 ^ 21" "a div 4096 div 512 div 512 = a div (2 ^ 30 :: nat)"
proof -
  show "(2 ^ m :: nat) dvd a \<Longrightarrow> 12 \<le> m \<Longrightarrow> 4096 dvd a" using le_imp_power_dvd [of 12 m "2 :: nat"] by (auto elim: dvd_trans)
qed (simp_all add: div_mult2_eq [symmetric])

lemma block_pages:
  assumes "N dvd b" "0 < N"
  shows "a div N = b div N \<longleftrightarrow> a \<in> {b ..< b + (N :: nat)}"
  using assms div_block [OF assms(2), of a "b div N"] by (auto simp: algebra_simps)

lemma leaf_page:
  assumes d: "dinv k E n own D s" and pa: "unat pa < 2 ^ 39" "page_aligned pa"
    and i: "ram_slot (L1X pa)" "link (vm_page s (l1_table k) (L1X pa))" "t = PTE_ADDR (vm_page s (l1_table k) (L1X pa))"
    and j: "link (vm_page s t (L2X pa))" "b = PTE_ADDR (vm_page s t (L2X pa))"
  shows "dinv k E n own (insert (pn pa) D) (wr (b, L3X pa) (pa OR PAGE_KERNEL) s)"
proof -
  let ?l = "l1_table k" and ?M = "vm_page s" and ?e = "pa OR PAGE_KERNEL"
  let ?N = "?M(b := (?M b)(L3X pa := ?e))"
  have o: "owned k E own s" "maps_exactly k D ?M" "unat ?l < E" using d by (simp_all add: dinv_def)
  note f = ownedD [OF o(1) _ _ refl]
  have mx: "pa < MAXUVA" using pa(1) by (simp add: word_less_nat_alt MAXUVA_def)
  note e = entry_parts(7,8) [OF pa(2) mx]
  have low: "ram_slot x \<Longrightarrow> link (?M ?l x) \<Longrightarrow> PTE_ADDR (?M ?l x) \<noteq> b"
    "ram_slot x \<Longrightarrow> link (?M ?l x) \<Longrightarrow> y < 512 \<Longrightarrow> link (?M (PTE_ADDR (?M ?l x)) y) \<Longrightarrow> PTE_ADDR (?M (PTE_ADDR (?M ?l x)) y) = b \<longleftrightarrow> x = L1X pa \<and> y = L2X pa" for x y
    using low_tables [OF o(1) i _ j(1)] j(2) by simp_all
  have "boot_page E s b" using f(3) [OF i(1,2)] j i(3) by simp
  then have lb: "?l \<noteq> b" using o(3) by (auto simp: boot_page_def)
  have "owned k E own (wr (b, L3X pa) ?e s)" using o(1) low(1) lb unfolding owned_def Let_def wr_def boot_page_def by simp
  moreover have "maps_exactly k (insert (pn pa) D) ?N" unfolding maps_exactly_def
  proof (intro allI impI)
    fix q :: uint64 assume q: "unat q < 2 ^ 39" "ram_slot (L1X q)"
    have m: "walk_l1 ?M ?l q = (if pn q \<in> D then Some q else None)" using o(2) q by (simp add: maps_exactly_def)
    show "walk_l1 ?N ?l q = (if pn q \<in> insert (pn pa) D then Some q else None)"
    proof (cases "pn q = pn pa")
      case True
      then have x: "L1X q = L1X pa" "L2X q = L2X pa" "L3X q = L3X pa" using same_block(3) [OF q(1) pa(1)] by simp_all
      have "pa + (q AND mask 12) = q" using block_offset [of pa 12 q] True pa(2) by (simp add: page_aligned_def)
      then have "walk_l1 ?N ?l q = Some q" using x i(2) i(3) [symmetric] j(1) j(2) [symmetric] lb low(1) [OF i(1,2)] e
        by (simp add: walk_l1_def walk_l2_def walk_l3_def Let_def)
      then show ?thesis using True by simp
    next
      case False
      then have n3: "\<not> (L1X q = L1X pa \<and> L2X q = L2X pa \<and> L3X q = L3X pa)" using same_block(3) [OF q(1) pa(1)] by simp
      have "walk_l1 ?N ?l q = walk_l1 ?M ?l q"
      proof (rule walk_same)
        assume l: "link (?M ?l (L1X q))"
        show "?N (PTE_ADDR (?M ?l (L1X q))) (L2X q) = ?M (PTE_ADDR (?M ?l (L1X q))) (L2X q)" using low(1) [OF q(2) l] by simp
        assume "link (?M (PTE_ADDR (?M ?l (L1X q))) (L2X q))"
        from low(2) [OF q(2) l _ this] n3 have c: "PTE_ADDR (?M (PTE_ADDR (?M ?l (L1X q))) (L2X q)) = b \<Longrightarrow> L3X q \<noteq> L3X pa" by simp
        have "?N c (L3X q) = ?M c (L3X q)" if "c = b \<Longrightarrow> L3X q \<noteq> L3X pa" for c using that by (cases "c = b") simp_all
        from this [OF c]
        show "?N (PTE_ADDR (?M (PTE_ADDR (?M ?l (L1X q))) (L2X q))) (L3X q) = ?M (PTE_ADDR (?M (PTE_ADDR (?M ?l (L1X q))) (L2X q))) (L3X q)" by blast
      qed (use lb in simp)
      then show ?thesis using m False by simp
    qed
  qed
  ultimately show ?thesis using d by (simp add: dinv_def wr_def)
qed

lemma leaf_2m:
  assumes d: "dinv k E n own D s" and pa: "unat pa < 2 ^ 39" "2 ^ 21 dvd unat pa"
    and i: "ram_slot (L1X pa)" "link (vm_page s (l1_table k) (L1X pa))" "t = PTE_ADDR (vm_page s (l1_table k) (L1X pa))"
  shows "dinv k E n own (D \<union> {pn pa..<pn pa + 512}) (wr (t, L2X pa) (pa OR BLOCK_NORMAL) s)"
proof -
  let ?l = "l1_table k" and ?M = "vm_page s" and ?e = "pa OR BLOCK_NORMAL"
  let ?N = "?M(t := (?M t)(L2X pa := ?e))"
  have o: "owned k E own s" "maps_exactly k D ?M" "unat ?l < E" using d by (simp_all add: dinv_def)
  note f = ownedD [OF o(1) _ _ refl]
  have mx: "pa < MAXUVA" using pa(1) by (simp add: word_less_nat_alt MAXUVA_def)
  have al: "page_aligned pa" using aligned_div(1) [OF pa(2)] by (simp add: page_aligned_def)
  note e = entry_parts(4-6) [OF al mx]
  note mt = mid_tables [OF o(1) i(1,2), folded i(3)]
  have "boot_page E s t" using f(1) [OF i(1,2)] i(3) by simp
  then have lt: "?l \<noteq> t" using o(3) by (auto simp: boot_page_def)
  have "owned k E own (wr (t, L2X pa) ?e s)" unfolding owned_def Let_def
  proof (intro allI impI conjI)
    fix x assume x: "ram_slot x" "link (vm_page (wr (t, L2X pa) ?e s) ?l x)"
    then have x': "link (?M ?l x)" "vm_page (wr (t, L2X pa) ?e s) ?l x = ?M ?l x" using lt by (simp_all add: wr_def)
    show "boot_page E (wr (t, L2X pa) ?e s) (PTE_ADDR (vm_page (wr (t, L2X pa) ?e s) ?l x))" "own (PTE_ADDR (vm_page (wr (t, L2X pa) ?e s) ?l x)) = Mid x"
      using f(1,2) [OF x(1) x'(1)] unfolding x'(2) by (simp_all add: boot_page_def wr_def)
    fix y assume y: "y < 512" "link (vm_page (wr (t, L2X pa) ?e s) (PTE_ADDR (vm_page (wr (t, L2X pa) ?e s) ?l x)) y)"
    then have "vm_page (wr (t, L2X pa) ?e s) (PTE_ADDR (?M ?l x)) y = ?M (PTE_ADDR (?M ?l x)) y" unfolding x'(2) using e(3) by (auto simp: wr_def)
    then show "boot_page E (wr (t, L2X pa) ?e s) (PTE_ADDR (vm_page (wr (t, L2X pa) ?e s) (PTE_ADDR (vm_page (wr (t, L2X pa) ?e s) ?l x)) y))"
      "own (PTE_ADDR (vm_page (wr (t, L2X pa) ?e s) (PTE_ADDR (vm_page (wr (t, L2X pa) ?e s) ?l x)) y)) = Low x y"
      using f(3,4) [OF x(1) x'(1) y(1)] y(2) unfolding x'(2) by (simp_all add: boot_page_def wr_def)
  qed
  moreover have "maps_exactly k (D \<union> {pn pa..<pn pa + 512}) ?N" unfolding maps_exactly_def
  proof (intro allI impI)
    fix q :: uint64 assume q: "unat q < 2 ^ 39" "ram_slot (L1X q)"
    have m: "walk_l1 ?M ?l q = (if pn q \<in> D then Some q else None)" using o(2) q by (simp add: maps_exactly_def)
    have "512 dvd pn pa" using pa(2) by (auto elim!: dvdE)
    then have r: "pn q div 512 = pn pa div 512 \<longleftrightarrow> pn q \<in> {pn pa..<pn pa + 512}" by (rule block_pages) simp
    show "walk_l1 ?N ?l q = (if pn q \<in> D \<union> {pn pa..<pn pa + 512} then Some q else None)"
    proof (cases "pn q div 512 = pn pa div 512")
      case True
      then have x: "L1X q = L1X pa" "L2X q = L2X pa" using same_block(2) [OF q(1) pa(1)] by simp_all
      have "pa + (q AND mask 21) = q" using block_offset [of pa 21 q] True pa(2) aligned_div(2) by simp
      then have "walk_l1 ?N ?l q = Some q" using x i(2) i(3) [symmetric] lt e by (simp add: walk_l1_def walk_l2_def Let_def)
      then show ?thesis using True r by simp
    next
      case False
      then have n2: "\<not> (L1X q = L1X pa \<and> L2X q = L2X pa)" using same_block(2) [OF q(1) pa(1)] by simp
      have "walk_l1 ?N ?l q = walk_l1 ?M ?l q"
        by (rule walk_same) (use n2 lt mt [OF q(2)] in \<open>auto\<close>)
      then show ?thesis using m False r by simp
    qed
  qed
  ultimately show ?thesis using d by (simp add: dinv_def wr_def)
qed

lemma leaf_1g:
  assumes d: "dinv k E n own D s" and pa: "unat pa < 2 ^ 39" "2 ^ 30 dvd unat pa" and i: "ram_slot (L1X pa)"
  shows "dinv k E n own (D \<union> {pn pa..<pn pa + 262144}) (wr (l1_table k, L1X pa) (pa OR BLOCK_NORMAL) s)"
proof -
  let ?l = "l1_table k" and ?M = "vm_page s" and ?e = "pa OR BLOCK_NORMAL"
  let ?N = "?M(?l := (?M ?l)(L1X pa := ?e))"
  have o: "owned k E own s" "maps_exactly k D ?M" "unat ?l < E" using d by (simp_all add: dinv_def)
  note f = ownedD [OF o(1) _ _ refl]
  have mx: "pa < MAXUVA" using pa(1) by (simp add: word_less_nat_alt MAXUVA_def)
  have al: "page_aligned pa" using aligned_div(1) [OF pa(2)] by (simp add: page_aligned_def)
  note e = entry_parts(4-6) [OF al mx]
  have nl: "PTE_ADDR (?M ?l x) \<noteq> ?l" "y < 512 \<Longrightarrow> link (?M (PTE_ADDR (?M ?l x)) y) \<Longrightarrow> PTE_ADDR (?M (PTE_ADDR (?M ?l x)) y) \<noteq> ?l"
    if "ram_slot x" "link (?M ?l x)" for x y using f(1) [OF that] f(3) [OF that, of y] o(3) by (auto simp: boot_page_def)
  have "owned k E own (wr (?l, L1X pa) ?e s)" unfolding owned_def Let_def
  proof (intro allI impI)
    fix x assume x: "ram_slot x" "link (vm_page (wr (?l, L1X pa) ?e s) ?l x)"
    then have x': "link (?M ?l x)" "vm_page (wr (?l, L1X pa) ?e s) ?l x = ?M ?l x" using e(3) by (auto simp: wr_def split: if_splits)
    show "boot_page E (wr (?l, L1X pa) ?e s) (PTE_ADDR (vm_page (wr (?l, L1X pa) ?e s) ?l x)) \<and> own (PTE_ADDR (vm_page (wr (?l, L1X pa) ?e s) ?l x)) = Mid x \<and>
      (\<forall>j < 512. link (vm_page (wr (?l, L1X pa) ?e s) (PTE_ADDR (vm_page (wr (?l, L1X pa) ?e s) ?l x)) j) \<longrightarrow>
        boot_page E (wr (?l, L1X pa) ?e s) (PTE_ADDR (vm_page (wr (?l, L1X pa) ?e s) (PTE_ADDR (vm_page (wr (?l, L1X pa) ?e s) ?l x)) j)) \<and>
        own (PTE_ADDR (vm_page (wr (?l, L1X pa) ?e s) (PTE_ADDR (vm_page (wr (?l, L1X pa) ?e s) ?l x)) j)) = Low x j)"
      using f [OF x(1) x'(1)] nl(1) [OF x(1) x'(1)] unfolding x'(2) by (simp add: boot_page_def wr_def)
  qed
  moreover have "maps_exactly k (D \<union> {pn pa..<pn pa + 262144}) ?N" unfolding maps_exactly_def
  proof (intro allI impI)
    fix q :: uint64 assume q: "unat q < 2 ^ 39" "ram_slot (L1X q)"
    have m: "walk_l1 ?M ?l q = (if pn q \<in> D then Some q else None)" using o(2) q by (simp add: maps_exactly_def)
    have "262144 dvd pn pa" using pa(2) by (auto elim!: dvdE)
    then have "pn q div 262144 = pn pa div 262144 \<longleftrightarrow> pn q \<in> {pn pa..<pn pa + 262144}" by (rule block_pages) simp
    then have r: "pn q div 512 div 512 = pn pa div 512 div 512 \<longleftrightarrow> pn q \<in> {pn pa..<pn pa + 262144}" by (simp add: div_mult2_eq [symmetric])
    show "walk_l1 ?N ?l q = (if pn q \<in> D \<union> {pn pa..<pn pa + 262144} then Some q else None)"
    proof (cases "pn q div 512 div 512 = pn pa div 512 div 512")
      case True
      then have x: "L1X q = L1X pa" using same_block(1) [OF q(1) pa(1)] by simp
      have "pa + (q AND mask 30) = q" using block_offset [of pa 30 q] True pa(2) aligned_div(3) by simp
      then have "walk_l1 ?N ?l q = Some q" using x e by (simp add: walk_l1_def Let_def)
      then show ?thesis using True r by simp
    next
      case False
      then have "L1X q \<noteq> L1X pa" using same_block(1) [OF q(1) pa(1)] by simp
      then have "walk_l1 ?N ?l q = walk_l1 ?M ?l q" by (intro walk_same) (use nl [OF q(2)] in \<open>auto\<close>)
      then show ?thesis using m False r by simp
    qed
  qed
  ultimately show ?thesis using d by (simp add: dinv_def wr_def)
qed

section \<open>The operations\<close>

definition dm :: "ksyms \<Rightarrow> nat \<Rightarrow> nat \<Rightarrow> nat set \<Rightarrow> 'a vm_scheme \<Rightarrow> bool" where
  "dm k E n D s \<longleftrightarrow> (\<exists>own. dinv k E n own D s)"

text \<open>What the operations leave alone: the static tables but for the RAM slots of \<open>l1_table\<close>, and the memory map.\<close>

definition keeps :: "ksyms \<Rightarrow> nat \<Rightarrow> 'a vm_scheme \<Rightarrow> 'a vm_scheme \<Rightarrow> bool" where
  "keeps k E s s' \<longleftrightarrow> km_phys s' = km_phys s \<and> (\<forall>b. unat b < E \<longrightarrow> b \<noteq> l1_table k \<longrightarrow> vm_page s' b = vm_page s b) \<and>
     vm_page s' (l1_table k) 0 = vm_page s (l1_table k) 0 \<and> vm_page s' (l1_table k) 511 = vm_page s (l1_table k) 511"

lemma keeps_refl: "keeps k E s s" by (simp add: keeps_def)

lemma keeps_trans: "keeps k E s s1 \<Longrightarrow> keeps k E s1 s2 \<Longrightarrow> keeps k E s s2" by (simp add: keeps_def)

lemma plug_keeps:
  assumes "E \<le> unat (km_boot s)" "t \<noteq> km_boot s" "t = l1_table k \<and> ram_slot x \<or> E \<le> unat t" "unat (l1_table k) < E"
  shows "keeps k E s (plug t x s)"
  using assms by (auto simp: keeps_def plug_parts)

lemma wr_keeps: "t = l1_table k \<and> ram_slot x \<or> E \<le> unat t \<Longrightarrow> unat (l1_table k) < E \<Longrightarrow> keeps k E s (wr (t, x) e s)"
  by (auto simp: keeps_def wr_def)

lemma dm_mono: "dm k E n D s \<Longrightarrow> n \<le> m \<Longrightarrow> dm k E m D s"
  by (auto simp: dm_def dinv_def)

lemma dmap_l2_ok:
  assumes d: "dm k E n D s" "E + n + 4096 \<le> 2 ^ 48" and i: "ram_slot (L1X pa)" and pa: "unat pa < 2 ^ 39" "pn pa \<notin> D"
  shows "\<exists>s1 own. dmap_l2 k pa s = Inr (PTE_ADDR (vm_page s1 (l1_table k) (L1X pa)), s1) \<and> dinv k E (n + 4096) own D s1 \<and>
    link (vm_page s1 (l1_table k) (L1X pa)) \<and> keeps k E s s1"
proof -
  let ?i = "L1X pa" and ?l = "l1_table k"
  obtain own where o: "dinv k E n own D s" using d(1) by (auto simp: dm_def)
  have w: "walk_l1 (vm_page s) ?l pa = None" using o pa i by (simp add: dinv_def maps_exactly_def)
  have run: "dmap_l2 k pa s = (let s1 = (if pte_valid (vm_page s ?l ?i) then s else plug ?l ?i s) in Inr (PTE_ADDR (vm_page s1 ?l ?i), s1))"
    using i by (simp add: dmap_l2_def plug_def pte_valid_def rd_def Let_def KSTACK_WINDOW_L1_def)
  show ?thesis
  proof (cases "pte_valid (vm_page s ?l ?i)")
    case True
    then have "link (vm_page s ?l ?i)" using w by (auto simp: walk_l1_def Let_def split: if_splits)
    moreover have "dinv k E (n + 4096) own D s" using o by (auto simp: dinv_def)
    ultimately show ?thesis using run True keeps_refl by (intro exI [of _ s] exI [of _ own]) simp
  next
    case False
    note p = plug_l1 [OF o d(2) i False]
    have "unat ?l < E" "E \<le> unat (km_boot s)" using o by (simp_all add: dinv_def)
    then have "keeps k E s (plug ?l ?i s)" using i by (intro plug_keeps) auto
    then show ?thesis using run False p(1,2) by (intro exI [of _ "plug ?l ?i s"] exI [of _ "own(km_boot s := Mid ?i)"]) (simp add: Let_def)
  qed
qed

lemma dmap_page_ok:
  assumes d: "dm k E n D s" "E + n + 8192 \<le> 2 ^ 48" and i: "ram_slot (L1X pa)" and pa: "unat pa < 2 ^ 39" "pn pa \<notin> D" "page_aligned pa"
  shows "\<exists>s'. dmap_page k pa s = Inr s' \<and> dm k E (n + 8192) (insert (pn pa) D) s' \<and> keeps k E s s'"
proof -
  let ?i = "L1X pa" and ?j = "L2X pa" and ?l = "l1_table k"
  have "E + n + 4096 \<le> 2 ^ 48" using d(2) by simp
  from dmap_l2_ok [OF d(1) this i pa(1,2)] obtain s1 own where
    s1: "dmap_l2 k pa s = Inr (PTE_ADDR (vm_page s1 ?l ?i), s1)" "dinv k E (n + 4096) own D s1" "link (vm_page s1 ?l ?i)" "keeps k E s s1" by blast
  define t where "t = PTE_ADDR (vm_page s1 ?l ?i)"
  have E: "unat ?l < E" "E \<le> unat (km_boot s1)" "owned k E own s1" using s1(2) by (simp_all add: dinv_def)
  have bt: "boot_page E s1 t" by (rule ownedD(1) [OF E(3) i s1(3) t_def])
  have w: "walk_l1 (vm_page s1) ?l pa = None" using s1(2) pa i by (simp add: dinv_def maps_exactly_def)
  obtain s2 own2 where s2: "s2 = (if pte_valid (vm_page s1 t ?j) then s1 else plug t ?j s1)" "dinv k E (n + 8192) own2 D s2" "link (vm_page s2 t ?j)"
    "vm_page s2 ?l = vm_page s1 ?l" "keeps k E s1 s2"
  proof (cases "pte_valid (vm_page s1 t ?j)")
    case True
    then have "link (vm_page s1 t ?j)" using w s1(3) by (auto simp: walk_l1_def walk_l2_def Let_def t_def split: if_splits)
    moreover have "dinv k E (n + 8192) own D s1" using s1(2) by (auto simp: dinv_def)
    ultimately show ?thesis using that [of s1 own] True keeps_refl [of k E s1] by simp
  next
    case False
    have "E + (n + 4096) + 4096 \<le> 2 ^ 48" using d(2) by simp
    note p = plug_l2 [OF s1(2) this i s1(3) t_def index_less(3) False]
    have "keeps k E s1 (plug t ?j s1)" using bt E by (intro plug_keeps) (auto simp: boot_page_def)
    then show ?thesis using that [of "plug t ?j s1"] False p by (simp add: add.assoc)
  qed
  let ?b = "PTE_ADDR (vm_page s2 t ?j)" and ?s = "wr (PTE_ADDR (vm_page s2 t ?j), L3X pa) (pa OR PAGE_KERNEL) s2"
  have lk: "link (vm_page s2 ?l ?i)" "t = PTE_ADDR (vm_page s2 ?l ?i)" using s1(3) s2(4) by (simp_all add: t_def)
  have dd: "dinv k E (n + 8192) own2 (insert (pn pa) D) ?s" by (rule leaf_page [OF s2(2) pa(1,3) i lk s2(3) refl])
  have "owned k E own2 s2" using s2(2) by (simp add: dinv_def)
  then have "E \<le> unat ?b" using ownedD(3) [OF _ i lk, of E own2 ?j] s2(3) by (simp add: boot_page_def)
  then have "keeps k E s ?s" using keeps_trans [OF s1(4) keeps_trans [OF s2(5) wr_keeps]] E(1) by blast
  moreover have "dmap_page k pa s = Inr ?s" using s1(1) s2(1) by (simp add: dmap_page_def t_def [symmetric] plug_def pte_valid_def rd_def Let_def split_beta)
  ultimately show ?thesis using dd by (auto simp: dm_def)
qed

lemma dmap_block_2m_ok:
  assumes d: "dm k E n D s" "E + n + 4096 \<le> 2 ^ 48" and i: "ram_slot (L1X pa)" and pa: "unat pa < 2 ^ 39" "pn pa \<notin> D" "2 ^ 21 dvd unat pa"
  shows "\<exists>s'. dmap_block_2m k pa s = Inr s' \<and> dm k E (n + 4096) (D \<union> {pn pa..<pn pa + 512}) s' \<and> keeps k E s s'"
proof -
  let ?i = "L1X pa" and ?l = "l1_table k"
  from dmap_l2_ok [OF d i pa(1,2)] obtain s1 own where
    s1: "dmap_l2 k pa s = Inr (PTE_ADDR (vm_page s1 ?l ?i), s1)" "dinv k E (n + 4096) own D s1" "link (vm_page s1 ?l ?i)" "keeps k E s s1" by blast
  have E: "unat ?l < E" "owned k E own s1" using s1(2) by (simp_all add: dinv_def)
  have "E \<le> unat (PTE_ADDR (vm_page s1 ?l ?i))" using ownedD(1) [OF E(2) i s1(3) refl] by (simp add: boot_page_def)
  then show ?thesis using s1(1) leaf_2m [OF s1(2) pa(1,3) i s1(3) refl] keeps_trans [OF s1(4) wr_keeps] E(1) by (auto simp: dmap_block_2m_def dm_def)
qed

lemma dmap_block_1g_ok:
  assumes d: "dm k E n D s" and i: "ram_slot (L1X pa)" and pa: "unat pa < 2 ^ 39" "2 ^ 30 dvd unat pa"
  shows "\<exists>s'. dmap_block_1g k pa s = Inr s' \<and> dm k E n (D \<union> {pn pa..<pn pa + 262144}) s' \<and> keeps k E s s'"
proof -
  obtain own where o: "dinv k E n own D s" using d(1) by (auto simp: dm_def)
  have "keeps k E s (wr (l1_table k, L1X pa) (pa OR BLOCK_NORMAL) s)" using o i by (intro wr_keeps) (auto simp: dinv_def)
  then show ?thesis using leaf_1g [OF o pa i] i by (auto simp: dmap_block_1g_def dm_def Let_def KSTACK_WINDOW_L1_def)
qed

section \<open>A bank\<close>

lemma blocks_rule:
  assumes "I pa s" and "\<And>pa s. I pa s \<Longrightarrow> go pa \<Longrightarrow> unat pa < unat (pa + step) \<and> (\<exists>s'. body pa s = Inr s' \<and> I (pa + step) s')"
  shows "\<exists>pa' s'. blocks go step body pa s = Some (Inr (pa', s')) \<and> I pa' s' \<and> \<not> go pa'"
  using assms(1)
proof (induction "2 ^ 64 - unat pa" arbitrary: pa s rule: less_induct)
  case less
  show ?case
  proof (cases "go pa")
    case True
    obtain s1 where s1: "unat pa < unat (pa + step)" "body pa s = Inr s1" "I (pa + step) s1" using assms(2) [OF less.prems True] by blast
    have "2 ^ 64 - unat (pa + step) < 2 ^ 64 - unat pa" using s1(1) unat64_less [of "pa + step"] by linarith
    from less.hyps [OF this s1(3)] show ?thesis using True s1(2) by (subst blocks.simps) simp
  next
    case False
    then show ?thesis using less.prems by (subst blocks.simps) simp
  qed
qed

lemma block_sizes [simp]:
  "unat BLOCK_SIZE_2M = 2 ^ 21" "unat BLOCK_SIZE_1G = 2 ^ 30" "pa AND (BLOCK_SIZE_2M - 1) = 0 \<longleftrightarrow> 2 ^ 21 dvd unat pa" "pa AND (BLOCK_SIZE_1G - 1) = 0 \<longleftrightarrow> 2 ^ 30 dvd unat pa"
proof -
  have m: "BLOCK_SIZE_2M - 1 = mask 21" "BLOCK_SIZE_1G - 1 = mask 30" by (simp_all add: kdefs mask_eq_decr_exp)
  show "unat BLOCK_SIZE_2M = 2 ^ 21" "unat BLOCK_SIZE_1G = 2 ^ 30" by (simp_all add: kdefs)
  show "pa AND (BLOCK_SIZE_2M - 1) = 0 \<longleftrightarrow> 2 ^ 21 dvd unat pa" "pa AND (BLOCK_SIZE_1G - 1) = 0 \<longleftrightarrow> 2 ^ 30 dvd unat pa"
    unfolding m by (simp_all only: word_unat_eq_iff unat_and_mask unat_0 dvd_eq_mod_eq_0)
qed

definition bank_inv :: "ksyms \<Rightarrow> nat \<Rightarrow> nat \<Rightarrow> nat set \<Rightarrow> 'a vm_scheme \<Rightarrow> uint64 \<Rightarrow> uint64 \<Rightarrow> uint64 \<Rightarrow> 'a vm_scheme \<Rightarrow> bool" where
  "bank_inv k E n D s0 a e pa s \<longleftrightarrow> page_aligned pa \<and> unat a \<le> unat pa \<and> unat pa \<le> unat e \<and>
     dm k E (n + 8192 * (pn pa - pn a)) (D \<union> {pn a..<pn pa}) s \<and> keeps k E s0 s"

definition bank_ok :: "nat \<Rightarrow> nat \<Rightarrow> nat set \<Rightarrow> uint64 \<Rightarrow> uint64 \<Rightarrow> bool" where
  "bank_ok E n D a e \<longleftrightarrow> page_aligned a \<and> page_aligned e \<and> 2 ^ 30 \<le> unat a \<and> unat a \<le> unat e \<and> unat e \<le> 511 * 2 ^ 30 \<and> D \<inter> {pn a..<pn e} = {} \<and>
     E + n + 8192 * (pn e - pn a) \<le> 2 ^ 48"

lemma bank_at:
  assumes "bank_ok E n D a e" "bank_inv k E n D s0 a e pa s" "unat pa + 4096 * c \<le> unat e" "0 < c"
  shows "unat pa < 2 ^ 39" "ram_slot (L1X pa)" "pn pa \<notin> D \<union> {pn a..<pn pa}" "E + (n + 8192 * (pn pa - pn a)) + 8192 * c \<le> 2 ^ 48" "pn (pa + of_nat c * PGSIZE) = pn pa + c"
    "unat (pa + of_nat c * PGSIZE) = unat pa + 4096 * c" "page_aligned (pa + of_nat c * PGSIZE)" "unat a \<le> unat pa"
proof -
  have b: "page_aligned a" "page_aligned e" "2 ^ 30 \<le> unat a" "unat e \<le> 511 * 2 ^ 30" "D \<inter> {pn a..<pn e} = {}" "E + n + 8192 * (pn e - pn a) \<le> 2 ^ 48"
    and i: "page_aligned pa" "unat a \<le> unat pa" "unat pa \<le> unat e" using assms(1,2) by (simp_all add: bank_ok_def bank_inv_def)
  have c: "unat (of_nat c * PGSIZE) = 4096 * c" using assms(3) b(4) by (simp add: unat_word_ariths unat_of_nat)
  show u: "unat (pa + of_nat c * PGSIZE) = unat pa + 4096 * c" using assms(3) b(4) c by (subst unat_add_no_wrap) simp_all
  have lt: "unat pa < 511 * 2 ^ 30" using assms(3,4) b(4) by linarith
  then show "unat pa < 2 ^ 39" by simp
  have "1 \<le> unat pa div 2 ^ 30" using b(3) i(2) div_le_mono [of "2 ^ 30" "unat pa" "2 ^ 30"] by simp
  moreover have "unat pa div 2 ^ 30 < 511" using lt by (simp add: div_less_iff_less_mult)
  ultimately show "ram_slot (L1X pa)" by (simp add: index_nat)
  have q: "pn pa + c \<le> pn e" using div_le_mono [OF assms(3), of 4096] by simp
  have "pn a \<le> pn pa" using i(2) by (rule div_le_mono)
  then show "pn pa \<notin> D \<union> {pn a..<pn pa}" using b(5) q assms(4) by auto
  show "E + (n + 8192 * (pn pa - pn a)) + 8192 * c \<le> 2 ^ 48" using b(6) q \<open>pn a \<le> pn pa\<close> by linarith
  show "pn (pa + of_nat c * PGSIZE) = pn pa + c" by (simp add: u)
  show "page_aligned (pa + of_nat c * PGSIZE)" using i(1) by (simp add: page_aligned_def u)
  show "unat a \<le> unat pa" by (rule i(2))
qed

lemma bank_step:
  assumes b: "bank_ok E n D a e" "bank_inv k E n D s0 a e pa s" "unat pa + 4096 * c \<le> unat e" "0 < c" and step: "step = of_nat c * PGSIZE"
    and f: "\<exists>s'. body pa s = Inr s' \<and> dm k E m ((D \<union> {pn a..<pn pa}) \<union> {pn pa..<pn pa + c}) s' \<and> keeps k E s s'" "m \<le> n + 8192 * (pn pa - pn a) + 8192 * c"
  shows "unat pa < unat (pa + step) \<and> (\<exists>s'. body pa s = Inr s' \<and> bank_inv k E n D s0 a e (pa + step) s')"
proof -
  note at = bank_at [OF b]
  obtain s' where s': "body pa s = Inr s'" "dm k E m ((D \<union> {pn a..<pn pa}) \<union> {pn pa..<pn pa + c}) s'" "keeps k E s s'" using f(1) by blast
  have le: "pn a \<le> pn pa" using at(8) by (rule div_le_mono)
  have "(D \<union> {pn a..<pn pa}) \<union> {pn pa..<pn pa + c} = D \<union> {pn a..<pn (pa + step)}" using le unfolding step at(5) by auto
  moreover have "n + 8192 * (pn (pa + step) - pn a) = n + 8192 * (pn pa - pn a) + 8192 * c" using le unfolding step at(5) by simp
  ultimately have "dm k E (n + 8192 * (pn (pa + step) - pn a)) (D \<union> {pn a..<pn (pa + step)}) s'" using dm_mono [OF s'(2) f(2)] by (simp only:)
  moreover have "keeps k E s0 s'" using b(2) s'(3) keeps_trans unfolding bank_inv_def by blast
  ultimately have "bank_inv k E n D s0 a e (pa + step) s'" using at(7) at(6) at(8) b(3) by (simp add: bank_inv_def step)
  then show ?thesis using s'(1) at(6) assms(4) by (auto simp: step)
qed

lemma page_step:
  assumes b: "bank_ok E n D a e" "bank_inv k E n D s0 a e pa s" and lt: "unat pa < unat e"
  shows "unat pa < unat (pa + PGSIZE) \<and> (\<exists>s'. dmap_page k pa s = Inr s' \<and> bank_inv k E n D s0 a e (pa + PGSIZE) s')"
proof -
  have al: "page_aligned pa" "page_aligned e" "dm k E (n + 8192 * (pn pa - pn a)) (D \<union> {pn a..<pn pa}) s" using b by (simp_all add: bank_ok_def bank_inv_def)
  then have le: "unat pa + 4096 * 1 \<le> unat e" using lt by (auto simp: page_aligned_def elim!: dvdE)
  note at = bank_at [OF b le]
  show ?thesis by (rule bank_step [OF b le, where m = "n + 8192 * (pn pa - pn a) + 8192"]) (use dmap_page_ok [OF al(3) _ at(2,1,3) al(1)] at(4) in simp_all)
qed

lemma block_2m_step:
  assumes b: "bank_ok E n D a e" "bank_inv k E n D s0 a e pa s" and le: "unat pa + 2 ^ 21 \<le> unat e" and al: "2 ^ 21 dvd unat pa"
  shows "unat pa < unat (pa + BLOCK_SIZE_2M) \<and> (\<exists>s'. dmap_block_2m k pa s = Inr s' \<and> bank_inv k E n D s0 a e (pa + BLOCK_SIZE_2M) s')"
proof -
  have d: "dm k E (n + 8192 * (pn pa - pn a)) (D \<union> {pn a..<pn pa}) s" using b by (simp add: bank_inv_def)
  have le': "unat pa + 4096 * 512 \<le> unat e" using le by simp
  note at = bank_at [OF b le']
  show ?thesis by (rule bank_step [OF b le', where m = "n + 8192 * (pn pa - pn a) + 4096"]) (use dmap_block_2m_ok [OF d _ at(2,1,3) al] at(4) in \<open>simp_all add: BLOCK_SIZE_2M_def L2_SHIFT_def PGSIZE_def\<close>)
qed

lemma block_1g_step:
  assumes b: "bank_ok E n D a e" "bank_inv k E n D s0 a e pa s" and le: "unat pa + 2 ^ 30 \<le> unat e" and al: "2 ^ 30 dvd unat pa"
  shows "unat pa < unat (pa + BLOCK_SIZE_1G) \<and> (\<exists>s'. dmap_block_1g k pa s = Inr s' \<and> bank_inv k E n D s0 a e (pa + BLOCK_SIZE_1G) s')"
proof -
  have d: "dm k E (n + 8192 * (pn pa - pn a)) (D \<union> {pn a..<pn pa}) s" using b by (simp add: bank_inv_def)
  have le': "unat pa + 4096 * 262144 \<le> unat e" using le by simp
  note at = bank_at [OF b le']
  show ?thesis by (rule bank_step [OF b le', where m = "n + 8192 * (pn pa - pn a)"]) (use dmap_block_1g_ok [OF d at(2,1) al] in \<open>simp_all add: BLOCK_SIZE_1G_def L1_SHIFT_def PGSIZE_def\<close>)
qed

lemma go_nat:
  assumes "bank_ok E n D a e" "bank_inv k E n D s0 a e pa s"
  shows "pa + BLOCK_SIZE_2M \<le> e \<longleftrightarrow> unat pa + 2 ^ 21 \<le> unat e" "pa + BLOCK_SIZE_1G \<le> e \<longleftrightarrow> unat pa + 2 ^ 30 \<le> unat e"
    "unat (pa + BLOCK_SIZE_2M) = unat pa + 2 ^ 21" "unat (pa + BLOCK_SIZE_1G) = unat pa + 2 ^ 30"
proof -
  have "unat pa \<le> 511 * 2 ^ 30" using assms by (simp add: bank_ok_def bank_inv_def)
  then show u: "unat (pa + BLOCK_SIZE_2M) = unat pa + 2 ^ 21" "unat (pa + BLOCK_SIZE_1G) = unat pa + 2 ^ 30" by (simp_all add: unat_add_no_wrap)
  show "pa + BLOCK_SIZE_2M \<le> e \<longleftrightarrow> unat pa + 2 ^ 21 \<le> unat e" "pa + BLOCK_SIZE_1G \<le> e \<longleftrightarrow> unat pa + 2 ^ 30 \<le> unat e" by (simp_all only: word_le_nat_alt u)
qed

lemma dmap_bank_ok:
  assumes b: "bank_ok E n D a e" and d: "dm k E n D s"
  shows "\<exists>s'. dmap_bank k a e s = Some (Inr s') \<and> dm k E (n + 8192 * (pn e - pn a)) (D \<union> {pn a..<pn e}) s' \<and> keeps k E s s'"
proof -
  let ?I = "bank_inv k E n D s a e"
  have g: "\<not> a < BLOCK_SIZE_1G" "\<not> e > push_bit L1_SHIFT (of_nat KSTACK_WINDOW_L1)"
    using b by (simp_all add: bank_ok_def word_less_nat_alt kdefs)
  have le: "unat pa \<le> unat e" if "?I pa z" for pa z using that by (simp add: bank_inv_def)
  have P: "unat pa < unat (pa + PGSIZE) \<and> (\<exists>z'. dmap_page k pa z = Inr z' \<and> ?I (pa + PGSIZE) z')" if "?I pa z" "pa < e" for pa z
    using page_step [OF b that(1)] that(2) by (simp add: word_less_nat_alt)
  have 0: "?I a s" using b d keeps_refl by (simp add: bank_inv_def bank_ok_def)
  obtain p1 s1 where 1: "blocks (\<lambda>pa. pa < e \<and> pa AND (BLOCK_SIZE_2M - 1) \<noteq> 0) PGSIZE (dmap_page k) a s = Some (Inr (p1, s1))" "?I p1 s1"
    "\<not> (p1 < e \<and> p1 AND (BLOCK_SIZE_2M - 1) \<noteq> 0)"
    using blocks_rule [of ?I a s "\<lambda>pa. pa < e \<and> pa AND (BLOCK_SIZE_2M - 1) \<noteq> 0" PGSIZE "dmap_page k", OF 0 P] by blast
  let ?J = "\<lambda>pa z. ?I pa z \<and> (2 ^ 21 dvd unat pa \<or> unat pa = unat e)"
  have 2: "?J p1 s1" using 1(2,3) le [OF 1(2)] by (auto simp: word_less_nat_alt)
  have J: "unat pa < unat (pa + BLOCK_SIZE_2M) \<and> (\<exists>z'. dmap_block_2m k pa z = Inr z' \<and> ?J (pa + BLOCK_SIZE_2M) z')" if "?J pa z" "pa + BLOCK_SIZE_2M \<le> e" for pa z
    using block_2m_step [OF b _ _, of k s pa z] that go_nat [OF b, of k s pa z] by auto
  obtain p2 s2 where 3: "blocks (\<lambda>pa. pa + BLOCK_SIZE_2M \<le> e \<and> pa AND (BLOCK_SIZE_1G - 1) \<noteq> 0) BLOCK_SIZE_2M (dmap_block_2m k) p1 s1 = Some (Inr (p2, s2))" "?J p2 s2"
    "\<not> (p2 + BLOCK_SIZE_2M \<le> e \<and> p2 AND (BLOCK_SIZE_1G - 1) \<noteq> 0)"
    using blocks_rule [of ?J p1 s1 "\<lambda>pa. pa + BLOCK_SIZE_2M \<le> e \<and> pa AND (BLOCK_SIZE_1G - 1) \<noteq> 0" BLOCK_SIZE_2M "dmap_block_2m k", OF 2 J] by blast
  let ?K = "\<lambda>pa z. ?J pa z \<and> (2 ^ 30 dvd unat pa \<or> unat e < unat pa + 2 ^ 30)"
  have 4: "?K p2 s2" using 3(2,3) go_nat [OF b, of k s p2 s2] by auto
  have K: "unat pa < unat (pa + BLOCK_SIZE_1G) \<and> (\<exists>z'. dmap_block_1g k pa z = Inr z' \<and> ?K (pa + BLOCK_SIZE_1G) z')" if "?K pa z" "pa + BLOCK_SIZE_1G \<le> e" for pa z
  proof -
    have q: "unat pa + 2 ^ 30 \<le> unat e" "2 ^ 30 dvd unat pa" using that go_nat [OF b, of k s pa z] by auto
    moreover have "(2 :: nat) ^ 21 dvd unat pa + 2 ^ 30" using q(2) by (auto elim!: dvdE)
    ultimately show ?thesis using block_1g_step [OF b, of k s pa z] that go_nat [OF b, of k s pa z] by auto
  qed
  obtain p3 s3 where 5: "blocks (\<lambda>pa. pa + BLOCK_SIZE_1G \<le> e) BLOCK_SIZE_1G (dmap_block_1g k) p2 s2 = Some (Inr (p3, s3))" "?K p3 s3"
    using blocks_rule [of ?K p2 s2 "\<lambda>pa. pa + BLOCK_SIZE_1G \<le> e" BLOCK_SIZE_1G "dmap_block_1g k", OF 4 K] by blast
  obtain p4 s4 where 6: "blocks (\<lambda>pa. pa + BLOCK_SIZE_2M \<le> e) BLOCK_SIZE_2M (dmap_block_2m k) p3 s3 = Some (Inr (p4, s4))" "?J p4 s4"
    using blocks_rule [of ?J p3 s3 "\<lambda>pa. pa + BLOCK_SIZE_2M \<le> e" BLOCK_SIZE_2M "dmap_block_2m k", OF _ J] 5(2) by blast
  obtain p5 s5 where 7: "blocks (\<lambda>pa. pa < e) PGSIZE (dmap_page k) p4 s4 = Some (Inr (p5, s5))" "?I p5 s5" "\<not> p5 < e"
    using blocks_rule [of ?I p4 s4 "\<lambda>pa. pa < e" PGSIZE "dmap_page k", OF _ P] 6(2) by blast
  have "unat p5 = unat e" using 7(3) le [OF 7(2)] by (simp add: word_less_nat_alt)
  then have "dm k E (n + 8192 * (pn e - pn a)) (D \<union> {pn a..<pn e}) s5" "keeps k E s s5" using 7(2) by (simp_all add: bank_inv_def)
  moreover have "dmap_bank k a e s = Some (Inr s5)" using g 1(1) 3(1) 5(1) 6(1) 7(1) by (simp add: dmap_bank_def tret_def del: block_sizes)
  ultimately show ?thesis by blast
qed

section \<open>All banks\<close>

lemma dmap_banks_ok:
  assumes "segs_ok gs" "\<forall>g \<in> set gs. 4096 dvd seg_lo g \<and> 4096 dvd seg_hi g \<and> 2 ^ 30 \<le> seg_lo g \<and> seg_hi g \<le> 511 * 2 ^ 30 \<and> 4096 * x \<le> seg_lo g"
    "D \<subseteq> {..<x}" "dm k E (8192 * x) D s" "E \<le> 2 ^ 47"
  shows "\<exists>x' s'. tseq (\<lambda>g. dmap_bank k (seg_start g) (seg_end g)) gs s = Some (Inr s') \<and>
    dm k E (8192 * x') (D \<union> {q. \<exists>g \<in> set gs. seg_lo g \<le> 4096 * q \<and> 4096 * q < seg_hi g}) s' \<and> keeps k E s s' \<and> (x' = x \<or> x' \<le> 511 * 2 ^ 18)"
  using assms
proof (induction gs arbitrary: x D s)
  case Nil
  then show ?case by (auto simp: tret_def intro: keeps_refl)
next
  case (Cons g gs)
  let ?a = "seg_start g" and ?e = "seg_end g"
  have g: "4096 dvd seg_lo g" "4096 dvd seg_hi g" "2 ^ 30 \<le> seg_lo g" "seg_hi g \<le> 511 * 2 ^ 30" "4096 * x \<le> seg_lo g" "seg_lo g < seg_hi g"
    using Cons.prems(1,2) by (simp_all add: segs_ok_simps)
  note sg = seg_lo_def [of g] seg_hi_def [of g]
  obtain u v where uv: "seg_lo g = 4096 * u" "seg_hi g = 4096 * v" using g(1,2) by (auto elim!: dvdE)
  have p: "pn ?a = u" "pn ?e = v" using uv by (simp_all add: sg)
  have xu: "x \<le> u" "u < v" "v \<le> 511 * 2 ^ 18" using g(4-6) uv by simp_all
  have b: "bank_ok E (8192 * u) D ?a ?e" unfolding bank_ok_def p
    using g xu Cons.prems(3,5) by (auto simp: page_aligned_def sg [symmetric])
  have "dm k E (8192 * u) D s" using dm_mono [OF Cons.prems(4)] xu(1) by simp
  from dmap_bank_ok [OF b this] obtain s1 where
    s1: "dmap_bank k ?a ?e s = Some (Inr s1)" "dm k E (8192 * v) (D \<union> {u..<v}) s1" "keeps k E s s1"
    unfolding p using xu(2) by (auto simp: diff_mult_distrib2)
  have r: "segs_ok gs" "\<forall>h \<in> set gs. 4096 dvd seg_lo h \<and> 4096 dvd seg_hi h \<and> 2 ^ 30 \<le> seg_lo h \<and> seg_hi h \<le> 511 * 2 ^ 30 \<and> 4096 * v \<le> seg_lo h"
    using Cons.prems(1,2) uv by (auto simp: segs_ok_simps)
  have "D \<union> {u..<v} \<subseteq> {..<v}" using Cons.prems(3) xu by auto
  from Cons.IH [OF r this s1(2) Cons.prems(5)] obtain x' s' where s': "tseq (\<lambda>g. dmap_bank k (seg_start g) (seg_end g)) gs s1 = Some (Inr s')"
    "dm k E (8192 * x') ((D \<union> {u..<v}) \<union> {q. \<exists>g \<in> set gs. seg_lo g \<le> 4096 * q \<and> 4096 * q < seg_hi g}) s'" "keeps k E s1 s'" "x' = v \<or> x' \<le> 511 * 2 ^ 18" by blast
  have "(D \<union> {u..<v}) \<union> {q. \<exists>g \<in> set gs. seg_lo g \<le> 4096 * q \<and> 4096 * q < seg_hi g} = D \<union> {q. \<exists>h \<in> set (g # gs). seg_lo h \<le> 4096 * q \<and> 4096 * q < seg_hi h}"
    using uv by auto
  then have "dm k E (8192 * x') (D \<union> {q. \<exists>h \<in> set (g # gs). seg_lo h \<le> 4096 * q \<and> 4096 * q < seg_hi h}) s'" using s'(2) by metis
  moreover have "x' \<le> 511 * 2 ^ 18" using s'(4) xu(3) by auto
  ultimately show ?case using s1(1) s'(1) keeps_trans [OF s1(3) s'(3)] by auto
qed

section \<open>The static tables\<close>

definition syms_ok :: "ksyms \<Rightarrow> bool" where
  "syms_ok k \<longleftrightarrow> distinct [l0_table k, l1_table k, l2_device k, kstack_table k] \<and>
     (\<forall>t \<in> {l0_table k, l1_table k, l2_device k, kstack_table k}. page_aligned t \<and> unat t < unat (kend k)) \<and> stext k \<le> kend k \<and> unat (kend k) + 4096 \<le> 2 ^ 47"

lemma fold_wr:
  "vm_page (fold (\<lambda>i. wr (t, i) (f i)) is s) = (vm_page s)(t := (\<lambda>i. if i \<in> set is then f i else vm_page s t i))"
  "km_boot (fold (\<lambda>i. wr (t, i) (f i)) is s) = km_boot s" "km_phys (fold (\<lambda>i. wr (t, i) (f i)) is s) = km_phys s"
proof -
  show "vm_page (fold (\<lambda>i. wr (t, i) (f i)) is s) = (vm_page s)(t := (\<lambda>i. if i \<in> set is then f i else vm_page s t i))"
    by (induction "is" arbitrary: s) (auto simp: wr_def fun_eq_iff)
  show "km_boot (fold (\<lambda>i. wr (t, i) (f i)) is s) = km_boot s" "km_phys (fold (\<lambda>i. wr (t, i) (f i)) is s) = km_phys s"
    by (induction "is" arbitrary: s) (simp_all add: wr_def)
qed

lemma kvm_static_parts:
  assumes "syms_ok k"
  shows "vm_page (kvm_static k s) (l0_table k) = (\<lambda>_. 0)(0 := l1_table k OR (PTE_VALID OR PTE_TABLE))"
    "vm_page (kvm_static k s) (l1_table k) = (\<lambda>_. 0)(0 := l2_device k OR (PTE_VALID OR PTE_TABLE), 511 := kstack_table k OR (PTE_VALID OR PTE_TABLE))"
    "i < 512 \<Longrightarrow> vm_page (kvm_static k s) (l2_device k) i = push_bit L2_SHIFT (of_nat i) OR BLOCK_DEVICE"
    "vm_page (kvm_static k s) (kstack_table k) = (\<lambda>_. 0)" "km_boot (kvm_static k s) = PGROUNDUP (kend k)" "km_phys (kvm_static k s) = km_phys s"
  using assms unfolding syms_ok_def kvm_static_def Let_def
  by (auto simp: fold_wr wr_def zero_page_def KSTACK_WINDOW_L1_def TABLE_ENTRIES_def)

lemma kvm_static_dm:
  assumes "syms_ok k"
  shows "dm k (unat (PGROUNDUP (kend k))) 0 {} (kvm_static k s)"
proof -
  note p = kvm_static_parts [OF assms, where s = s]
  have z: "\<not> pte_valid 0" by (simp add: pte_valid_def)
  have u: "unat (PGROUNDUP (kend k)) = (unat (kend k) + 4095) div 4096 * 4096" using assms by (intro unat_PGROUNDUP) (simp add: syms_ok_def)
  have "unat (kend k) \<le> (unat (kend k) + 4095) div 4096 * 4096" by linarith
  then have "unat (l1_table k) < unat (PGROUNDUP (kend k))" using assms by (simp add: syms_ok_def u)
  moreover have "owned k (unat (PGROUNDUP (kend k))) own (kvm_static k s)" for own using z by (auto simp: owned_def p)
  moreover have "maps_exactly k {} (vm_page (kvm_static k s))" using z by (auto simp: maps_exactly_def walk_l1_def p Let_def)
  ultimately show ?thesis by (auto simp: dm_def dinv_def p)
qed

section \<open>The direct map\<close>

lemma kva_indices:
  assumes "unat pa < 2 ^ 39"
  shows "L0X (PA_TO_KVA pa) = 0" "walk_l1 M t (PA_TO_KVA pa) = walk_l1 M t pa"
proof -
  have u: "unat (PA_TO_KVA pa) = unat pa + 0xFFFF * 2 ^ 48"
    unfolding PA_TO_KVA_def KERN_BASE_def using assms by (subst unat_add_no_wrap) simp_all
  have h: "(x + 0xFFFF * 2 ^ 48) div 2 ^ m mod 512 = x div 2 ^ m mod (512 :: nat)" if "m \<le> 39" for x m
  proof -
    have "(2 :: nat) ^ 48 = 2 ^ m * (512 * 2 ^ (39 - m))" using that by (simp add: power_add [symmetric] flip: power_Suc)
    then have "x + 0xFFFF * 2 ^ 48 = x + 2 ^ m * (512 * (0xFFFF * 2 ^ (39 - m)))" by simp
    moreover have "(x + 2 ^ m * c) div 2 ^ m = x div 2 ^ m + c" for c :: nat by simp
    ultimately show ?thesis by (simp only: mod_mult_self2)
  qed
  show "L0X (PA_TO_KVA pa) = 0" using h [of 39 "unat pa"] assms unfolding index_nat u by simp
  have i: "L1X (PA_TO_KVA pa) = L1X pa" "L2X (PA_TO_KVA pa) = L2X pa" "L3X (PA_TO_KVA pa) = L3X pa" 
    using h [of 30 "unat pa"] h [of 21 "unat pa"] h [of 12 "unat pa"] unfolding index_nat u by simp_all
  have m: "PA_TO_KVA pa AND mask n = pa AND mask n" if "n \<le> 48" for n
  proof -
    have "(2 :: nat) ^ 48 = 2 ^ n * 2 ^ (48 - n)" using that by (simp add: power_add [symmetric])
    then have "(unat pa + 0xFFFF * 2 ^ 48) mod 2 ^ n = unat pa mod 2 ^ n" by (metis mod_mult_self2 mult.assoc mult.commute)
    then show ?thesis by (simp only: word_unat_eq_iff unat_and_mask u)
  qed
  show "walk_l1 M t (PA_TO_KVA pa) = walk_l1 M t pa" by (simp add: walk_l1_def walk_l2_def walk_l3_def i m Let_def)
qed

lemma page_in: "4096 dvd lo \<Longrightarrow> 4096 dvd hi \<Longrightarrow> lo \<le> 4096 * (a div 4096) \<and> 4096 * (a div 4096) < hi \<longleftrightarrow> a \<in> {lo..<hi :: nat}"
  by (auto elim!: dvdE)

lemma device_walk:
  assumes "\<And>i. i < 512 \<Longrightarrow> M t i = push_bit L2_SHIFT (of_nat i) OR BLOCK_DEVICE" "unat pa < 2 ^ 30"
  shows "walk_l2 M t pa = Some pa"
proof -
  let ?b = "push_bit L2_SHIFT (of_nat (L2X pa)) :: uint64"
  have x: "L2X pa = unat pa div 2 ^ 21" "L2X pa < 512" using assms(2) by (simp_all add: index_nat)
  have "unat (of_nat (L2X pa) :: uint64) = L2X pa" by (rule unat_of_nat_small, rule less_trans [OF x(2)]) simp
  then have u: "unat ?b = unat pa div 2 ^ 21 * 2 ^ 21" using x by (subst unat_push_bit_mult) (simp_all add: L2_SHIFT_def)
  have "page_aligned ?b" "?b < MAXUVA" using u assms(2) by (simp_all add: page_aligned_def word_less_nat_alt MAXUVA_def)
  note e = entry_parts(9-11) [OF this]
  have "?b + (pa AND mask 21) = pa" by (rule block_offset) (simp_all add: u)
  then show ?thesis using assms(1) [OF x(2)] e by (simp add: walk_l2_def Let_def)
qed

lemma static_walk:
  assumes k: "syms_ok k" and kp: "keeps k (unat (PGROUNDUP (kend k))) ((kvm_static k s)\<lparr>km_phys := p\<rparr>) s'" and pa: "unat pa < 2 ^ 39"
  shows "translate (vm_page s') (l0_table k) (PA_TO_KVA pa) =
    (if L1X pa = 0 then Some pa else if L1X pa = 511 then None else walk_l1 (vm_page s') (l1_table k) pa)"
proof -
  note p = kvm_static_parts [OF k, where s = s]
  have u: "unat (PGROUNDUP (kend k)) = (unat (kend k) + 4095) div 4096 * 4096" using k by (intro unat_PGROUNDUP) (simp add: syms_ok_def)
  have "unat (kend k) \<le> (unat (kend k) + 4095) div 4096 * 4096" by linarith
  then have b: "unat t < unat (PGROUNDUP (kend k))" "page_aligned t" "t < MAXUVA" if "t \<in> {l0_table k, l1_table k, l2_device k, kstack_table k}" for t
    using k that by (auto simp: syms_ok_def u word_less_nat_alt MAXUVA_def)
  have d: "l0_table k \<noteq> l1_table k" "l2_device k \<noteq> l1_table k" "kstack_table k \<noteq> l1_table k" using k by (auto simp: syms_ok_def)
  have st: "vm_page s' (l0_table k) = vm_page (kvm_static k s) (l0_table k)" "vm_page s' (l2_device k) = vm_page (kvm_static k s) (l2_device k)"
    "vm_page s' (kstack_table k) = vm_page (kvm_static k s) (kstack_table k)" using kp b(1) d by (simp_all add: keeps_def)
  have l1: "vm_page s' (l1_table k) 0 = l2_device k OR (PTE_VALID OR PTE_TABLE)" "vm_page s' (l1_table k) 511 = kstack_table k OR (PTE_VALID OR PTE_TABLE)"
    using kp by (simp_all add: keeps_def p)
  note e = entry_parts(1-3) [OF b(2,3)]
  have z: "\<not> pte_valid 0" by (simp add: pte_valid_def)
  have t: "translate (vm_page s') (l0_table k) (PA_TO_KVA pa) = walk_l1 (vm_page s') (l1_table k) pa"
    using kva_indices [OF pa] e [of "l1_table k"] by (simp add: translate_def Let_def st p)
  have dev: "walk_l1 (vm_page s') (l1_table k) pa = Some pa" if "L1X pa = 0"
  proof -
    have "unat pa < 2 ^ 30" using that pa by (simp add: index_nat)
    then show ?thesis using device_walk [of "vm_page s'" "l2_device k" pa] p(3) e [of "l2_device k"] that by (simp add: walk_l1_def Let_def l1 st)
  qed
  have "walk_l1 (vm_page s') (l1_table k) pa = None" if "L1X pa = 511"
    using that e [of "kstack_table k"] z by (simp add: walk_l1_def walk_l2_def Let_def l1 st p)
  with dev t show ?thesis by simp
qed

lemma direct_walk:
  assumes k: "syms_ok k" and d: "dm k E n D s2" and kp: "keeps k (unat (PGROUNDUP (kend k))) ((kvm_static k s)\<lparr>km_phys := p\<rparr>) s2"
    and D: "\<And>pa. pn pa \<in> D \<longleftrightarrow> unat pa \<in> C" and pa: "unat pa < 2 ^ 39" and C: "\<And>a. a \<in> C \<Longrightarrow> 2 ^ 30 \<le> a \<and> a < 511 * 2 ^ 30"
  shows "translate (vm_page s2) (l0_table k) (PA_TO_KVA pa) = (if unat pa < 2 ^ 30 \<or> unat pa \<in> C then Some pa else None)"
proof -
  have i: "L1X pa = unat pa div 2 ^ 30" "L1X pa < 512" using pa by (simp_all add: index_nat)
  have j: "L1X pa = 0 \<longleftrightarrow> unat pa < 2 ^ 30" "L1X pa = 511 \<Longrightarrow> 511 * 2 ^ 30 \<le> unat pa"
    unfolding i using div_times_less_eq_dividend [of "unat pa" "2 ^ 30"] by (simp_all add: div_eq_0_iff)
  note w = static_walk [OF k kp pa] C [of "unat pa"]
  consider "L1X pa = 0" | "L1X pa = 511" | "ram_slot (L1X pa)" using i(2) by linarith
  then show ?thesis
  proof cases
    case 3
    then have "walk_l1 (vm_page s2) (l1_table k) pa = (if pn pa \<in> D then Some pa else None)"
      using d pa by (simp add: dm_def dinv_def maps_exactly_def)
    then show ?thesis unfolding w(1) D using 3 j(1) by simp
  qed (use w j in auto)
qed

lemma image_excluded:
  assumes "physmem_inv p" "length (exregions p) < MAX_EXCNT" "unat a \<le> unat b" "unat b \<le> 2 ^ 48"
  shows "\<exists>p'. physmem_exclude_region a (b - a) p = Inr p' \<and> {unat a..<unat b} \<subseteq> covered (exregions p')"
proof -
  have sz: "unat a + unat (b - a) = unat b" using assms(3) by (simp add: unat_sub word_le_nat_alt)
  obtain p' where p': "physmem_exclude_region a (b - a) p = Inr p'" using region_below_capacity(2) [OF assms(2)] by blast
  have "pages_touched (unat a) (unat b) \<subseteq> covered (exregions p')" using exclude_region_effect(2) [OF assms(1) _ p'] assms(4) unfolding sz by simp
  moreover have "{unat a..<unat b} \<subseteq> pages_touched (unat a) (unat b)"
    unfolding pages_touched_def using dividend_less_times_div [of 4096 "unat b + 4095"] by auto
  ultimately show ?thesis using p' by blast
qed

text \<open>C4: the direct map. With the RAM banks between 1 GB and 511 GB, \<open>kvminit\<close> does not panic and ends: afterwards the MMU
  translates the kernel address of every physical address below 512 GB to that address exactly when it is a device
  address (the first gigabyte) or lies in a page of RAM that is not excluded, whatever mix of pages, 2 MB and 1 GB
  blocks the banks need. Every other address of the range faults, the stack window included. The kernel
  image and the tables themselves are then excluded from the memory map.\<close>

theorem kvminit_direct_map:
  assumes k: "syms_ok k" and ph: "physmem_inv (km_phys s)" "length (exregions (km_phys s)) < MAX_EXCNT"
    and hw: "\<forall>r \<in> set (hwregions (km_phys s)). 2 ^ 30 \<le> r_lo r \<and> r_hi r \<le> 511 * 2 ^ 30"
  shows "\<exists>s'. kvminit k s = Some (Inr s') \<and>
    (\<forall>pa. unat pa < 2 ^ 39 \<longrightarrow> translate (vm_page s') (l0_table k) (PA_TO_KVA pa) =
       (if unat pa < 2 ^ 30 \<or> unat pa \<in> covered (hwregions (km_phys s)) - covered (exregions (km_phys s)) then Some pa else None)) \<and>
    {unat (stext k)..<unat (km_boot s')} \<subseteq> covered (exregions (km_phys s'))"
proof -
  let ?E = "unat (PGROUNDUP (kend k))" and ?h = "hwregions (km_phys s)" and ?x = "exregions (km_phys s)"
  let ?gs = "all_pieces ?h ?x" and ?s = "kvm_static k s"
  define p where "p = (km_phys s)\<lparr>vm_phys_segs := ?gs\<rparr>"
  have av: "physmem_avail (km_phys ?s) = Inr p" unfolding kvm_static_parts(6) [OF k] p_def by (rule physmem_avail_eq [OF ph(1)])
  have vp: "vm_phys_segs p = ?gs" by (simp add: p_def)
  have rg: "regions_ok ?x" "regions_ok ?h" using ph(1) by (simp_all add: physmem_inv_def)
  note ap = all_pieces_spec [OF rg]
  have gs: "\<forall>g \<in> set ?gs. 4096 dvd seg_lo g \<and> 4096 dvd seg_hi g \<and> 2 ^ 30 \<le> seg_lo g \<and> seg_hi g \<le> 511 * 2 ^ 30 \<and> 4096 * 0 \<le> seg_lo g"
    using ap hw seg_aligned [OF ph(1)] by fastforce
  have ke: "unat (kend k) + 4096 \<le> 2 ^ 47" "stext k \<le> kend k" using k by (simp_all add: syms_ok_def)
  have "?E = (unat (kend k) + 4095) div 4096 * 4096" using ke(1) by (intro unat_PGROUNDUP) simp
  then have E: "?E \<le> 2 ^ 47" "unat (kend k) \<le> ?E" using ke(1) dividend_less_times_div [of 4096 "unat (kend k) + 4095"] by auto
  have "dm k ?E (8192 * 0) {} (?s\<lparr>km_phys := p\<rparr>)" using kvm_static_dm [OF k, of s] by (simp add: dm_def dinv_def owned_def boot_page_def)
  from dmap_banks_ok [OF conjunct1 [OF ap] gs _ this E(1)] obtain x' s2 where
    s2: "tseq (\<lambda>g. dmap_bank k (seg_start g) (seg_end g)) ?gs (?s\<lparr>km_phys := p\<rparr>) = Some (Inr s2)"
    "dm k ?E (8192 * x') ({} \<union> {q. \<exists>g \<in> set ?gs. seg_lo g \<le> 4096 * q \<and> 4096 * q < seg_hi g}) s2" "keeps k ?E (?s\<lparr>km_phys := p\<rparr>) s2" "x' = 0 \<or> x' \<le> 511 * 2 ^ 18" by blast
  let ?D = "{q. \<exists>g \<in> set ?gs. seg_lo g \<le> 4096 * q \<and> 4096 * q < seg_hi g}"
  have p2: "km_phys s2 = p" using s2(3) by (simp add: keeps_def)
  have in_D: "pn pa \<in> ?D \<longleftrightarrow> unat pa \<in> covered ?h - covered ?x" for pa
  proof -
    have "(\<exists>g \<in> set ?gs. seg_lo g \<le> 4096 * pn pa \<and> 4096 * pn pa < seg_hi g) \<longleftrightarrow> unat pa \<in> seg_covered ?gs"
      unfolding seg_covered_def using gs page_in by fastforce
    then show ?thesis using ap by auto
  qed
  have tr: "translate (vm_page s2) (l0_table k) (PA_TO_KVA pa) = (if unat pa < 2 ^ 30 \<or> unat pa \<in> covered ?h - covered ?x then Some pa else None)"
    if "unat pa < 2 ^ 39" for pa
  proof (rule direct_walk [OF k s2(2) [unfolded Un_empty_left] s2(3) in_D that])
    show "\<And>a. a \<in> covered ?h - covered ?x \<Longrightarrow> 2 ^ 30 \<le> a \<and> a < 511 * 2 ^ 30" using hw by (fastforce simp: covered_def)
  qed
  have "unat (km_boot s2) \<le> ?E + 8192 * x'" "?E \<le> unat (km_boot s2)" using s2(2) by (auto simp: dm_def dinv_def)
  then have bt: "unat (km_boot s2) \<le> 2 ^ 48" "unat (stext k) \<le> unat (km_boot s2)" using s2(4) E ke(2) by (auto simp: word_le_nat_alt)
  have pi: "physmem_inv p" "length (exregions p) < MAX_EXCNT" using ph by (simp_all add: p_def physmem_inv_def)
  obtain p' where p': "physmem_exclude_region (stext k) (km_boot s2 - stext k) p = Inr p'" "{unat (stext k)..<unat (km_boot s2)} \<subseteq> covered (exregions p')"
    using image_excluded [OF pi bt(2,1)] by blast
  have "kvminit k s = Some (Inr (s2\<lparr>km_phys := p'\<rparr>))" 
    using s2(1) p'(1) p2 by (simp add: kvminit_def Let_def av vp) (simp add: tret_def)
  then show ?thesis using tr p'(2) by (intro exI [of _ "s2\<lparr>km_phys := p'\<rparr>"]) simp
qed

section \<open>One gigabyte of RAM\<close>

definition demo_syms :: ksyms where
  "demo_syms = \<lparr>l0_table = 0x400A0000, l1_table = 0x400A1000, l2_device = 0x400A2000, kstack_table = 0x400A3000, stext = 0x40080000, kend = 0x400B0010\<rparr>"

definition demo_boot :: vm where
  "demo_boot = \<lparr>km_phys = \<lparr>hwregions = [\<lparr>r_addr = 0x40000000, r_size = 0x40003000\<rparr>], exregions = [], vm_phys_segs = []\<rparr>,
     km_boot = 0, km_array = 0, km_npages = 0, km_pages = [], km_freelist = None, vm_page = (\<lambda>_ _. 0)\<rparr>"

theorem kvminit_direct_map_witness:
  "\<exists>s'. kvminit demo_syms demo_boot = Some (Inr s') \<and> translate (vm_page s') 0x400A0000 (PA_TO_KVA 0x9000000) = Some 0x9000000 \<and>
    translate (vm_page s') 0x400A0000 (PA_TO_KVA 0x80002FFF) = Some 0x80002FFF \<and> translate (vm_page s') 0x400A0000 (PA_TO_KVA 0x80003000) = None"
proof -
  have k: "syms_ok demo_syms" by (simp add: syms_ok_def demo_syms_def page_aligned_def word_le_nat_alt)
  have ph: "physmem_inv (km_phys demo_boot)" "length (exregions (km_phys demo_boot)) < MAX_EXCNT"
    by (simp_all add: demo_boot_def physmem_inv_def regions_ok_simps aligned_regions_def region_ok_def r_lo_def r_hi_def kdefs)
  have hw: "\<forall>r \<in> set (hwregions (km_phys demo_boot)). 2 ^ 30 \<le> r_lo r \<and> r_hi r \<le> 511 * 2 ^ 30" by (simp add: demo_boot_def r_lo_def r_hi_def)
  have c: "covered (hwregions (km_phys demo_boot)) = {0x40000000..<0x80003000}" "covered (exregions (km_phys demo_boot)) = {}" "l0_table demo_syms = 0x400A0000"
    by (simp_all add: demo_boot_def covered_def r_lo_def r_hi_def demo_syms_def)
  show ?thesis using kvminit_direct_map [OF k ph hw] unfolding c by auto
qed

end
