(* ===== verification/Links.thy ===== *)
theory Links
  imports Prelude
begin

text \<open>
  The intrusive lists of \<^verbatim>\<open>sys/list.h\<close> on a heap. A pointer to a pointer, as \<open>le_prev\<close> and \<open>tqh_last\<close> are, is a \<open>slot\<close>: the first
  pointer of a head, or the next pointer of an element. One link field serves several heads, as the slab lists of
  a cache share one, so a heap represents a family of disjoint lists. The components above keep such lists as HOL lists;
  the lemmas say that the macros implement the list operations, whatever else the heap holds.
\<close>

datatype slot = Head nat | Next uintptr

section \<open>LIST\<close>

record links =
  lh_first :: "nat \<Rightarrow> uintptr option"
  le_next :: "uintptr \<Rightarrow> uintptr option"
  le_prev :: "uintptr \<Rightarrow> slot"

definition deref :: "slot \<Rightarrow> links \<Rightarrow> uintptr option" where
  "deref p m = (case p of Head h \<Rightarrow> lh_first m h | Next a \<Rightarrow> le_next m a)"

definition assign :: "slot \<Rightarrow> uintptr option \<Rightarrow> links \<Rightarrow> links" where
  "assign p v m = (case p of Head h \<Rightarrow> m\<lparr>lh_first := (lh_first m)(h := v)\<rparr> | Next a \<Rightarrow> m\<lparr>le_next := (le_next m)(a := v)\<rparr>)"

definition LIST_INIT :: "nat \<Rightarrow> links \<Rightarrow> links" where
  "LIST_INIT h m = m\<lparr>lh_first := (lh_first m)(h := None)\<rparr>"

definition LIST_FIRST :: "nat \<Rightarrow> links \<Rightarrow> uintptr option" where "LIST_FIRST h m = lh_first m h"
definition LIST_NEXT :: "uintptr \<Rightarrow> links \<Rightarrow> uintptr option" where "LIST_NEXT a m = le_next m a"
definition LIST_EMPTY :: "nat \<Rightarrow> links \<Rightarrow> bool" where "LIST_EMPTY h m \<longleftrightarrow> lh_first m h = None"

definition LIST_INSERT_HEAD :: "nat \<Rightarrow> uintptr \<Rightarrow> links \<Rightarrow> links" where
  "LIST_INSERT_HEAD h a m =
     (let m1 = m\<lparr>le_next := (le_next m)(a := lh_first m h)\<rparr>;
          m2 = (case le_next m1 a of None \<Rightarrow> m1 | Some f \<Rightarrow> m1\<lparr>le_prev := (le_prev m1)(f := Next a)\<rparr>);
          m3 = m2\<lparr>lh_first := (lh_first m2)(h := Some a)\<rparr> in
      m3\<lparr>le_prev := (le_prev m3)(a := Head h)\<rparr>)"

definition LIST_REMOVE :: "uintptr \<Rightarrow> links \<Rightarrow> links" where
  "LIST_REMOVE a m =
     (let m1 = (case le_next m a of None \<Rightarrow> m | Some f \<Rightarrow> m\<lparr>le_prev := (le_prev m)(f := le_prev m a)\<rparr>) in
      assign (le_prev m1 a) (le_next m1 a) m1)"

text \<open>\<open>LIST_FOREACH\<close> and \<open>LIST_FOREACH_SAFE\<close>, with the body as a function of the element; the safe one reads the next
  pointer before the body runs. \<open>None\<close> is a walk that does not end.\<close>

partial_function (option) foreach :: "(uintptr \<Rightarrow> 's \<Rightarrow> 's) \<Rightarrow> ('s \<Rightarrow> links) \<Rightarrow> uintptr option \<Rightarrow> 's \<Rightarrow> 's option" where
  "foreach body heap v s = (case v of None \<Rightarrow> Some s | Some a \<Rightarrow> (let s1 = body a s in foreach body heap (LIST_NEXT a (heap s1)) s1))"

partial_function (option) foreach_safe :: "(uintptr \<Rightarrow> 's \<Rightarrow> 's) \<Rightarrow> ('s \<Rightarrow> links) \<Rightarrow> uintptr option \<Rightarrow> 's \<Rightarrow> 's option" where
  "foreach_safe body heap v s = (case v of None \<Rightarrow> Some s | Some a \<Rightarrow> (let t = LIST_NEXT a (heap s) in foreach_safe body heap t (body a s)))"

definition LIST_FOREACH :: "(uintptr \<Rightarrow> 's \<Rightarrow> 's) \<Rightarrow> ('s \<Rightarrow> links) \<Rightarrow> nat \<Rightarrow> 's \<Rightarrow> 's option" where
  "LIST_FOREACH body heap h s = foreach body heap (LIST_FIRST h (heap s)) s"

definition LIST_FOREACH_SAFE :: "(uintptr \<Rightarrow> 's \<Rightarrow> 's) \<Rightarrow> ('s \<Rightarrow> links) \<Rightarrow> nat \<Rightarrow> 's \<Rightarrow> 's option" where
  "LIST_FOREACH_SAFE body heap h s = foreach_safe body heap (LIST_FIRST h (heap s)) s"

section \<open>TAILQ\<close>

record tailq =
  tqh_first :: "uintptr option"
  tqh_last :: slot
  tqe_next :: "uintptr \<Rightarrow> uintptr option"
  tqe_prev :: "uintptr \<Rightarrow> slot"

definition tq_assign :: "slot \<Rightarrow> uintptr option \<Rightarrow> tailq \<Rightarrow> tailq" where
  "tq_assign p v q = (case p of Head h \<Rightarrow> q\<lparr>tqh_first := v\<rparr> | Next a \<Rightarrow> q\<lparr>tqe_next := (tqe_next q)(a := v)\<rparr>)"

definition TAILQ_INIT :: "tailq \<Rightarrow> tailq" where "TAILQ_INIT q = q\<lparr>tqh_first := None, tqh_last := Head 0\<rparr>"
definition TAILQ_FIRST :: "tailq \<Rightarrow> uintptr option" where "TAILQ_FIRST q = tqh_first q"
definition TAILQ_EMPTY :: "tailq \<Rightarrow> bool" where "TAILQ_EMPTY q \<longleftrightarrow> tqh_first q = None"

definition TAILQ_INSERT_TAIL :: "uintptr \<Rightarrow> tailq \<Rightarrow> tailq" where
  "TAILQ_INSERT_TAIL a q =
     (let q1 = q\<lparr>tqe_next := (tqe_next q)(a := None)\<rparr>;
          q2 = q1\<lparr>tqe_prev := (tqe_prev q1)(a := tqh_last q1)\<rparr>;
          q3 = tq_assign (tqh_last q2) (Some a) q2 in
      q3\<lparr>tqh_last := Next a\<rparr>)"

definition TAILQ_REMOVE :: "uintptr \<Rightarrow> tailq \<Rightarrow> tailq" where
  "TAILQ_REMOVE a q =
     (let q1 = (case tqe_next q a of Some f \<Rightarrow> q\<lparr>tqe_prev := (tqe_prev q)(f := tqe_prev q a)\<rparr>
                | None \<Rightarrow> q\<lparr>tqh_last := tqe_prev q a\<rparr>) in
      tq_assign (tqe_prev q1 a) (tqe_next q1 a) q1)"

section \<open>Chains\<close>

text \<open>A chain from a slot: the slot holds the first element, whose back pointer is the slot, and so on to a null pointer.\<close>

primrec chain :: "(slot \<Rightarrow> uintptr option) \<Rightarrow> (uintptr \<Rightarrow> slot) \<Rightarrow> slot \<Rightarrow> uintptr list \<Rightarrow> bool" where
  "chain v b p [] \<longleftrightarrow> v p = None"
| "chain v b p (a # as) \<longleftrightarrow> v p = Some a \<and> b a = p \<and> chain v b (Next a) as"

definition end_slot :: "slot \<Rightarrow> uintptr list \<Rightarrow> slot" where
  "end_slot p xs = (if xs = [] then p else Next (last xs))"

lemma end_slot_simps [simp]: "end_slot p [] = p" "end_slot p (a # as) = end_slot (Next a) as"
  by (simp_all add: end_slot_def)

lemma end_slot_snoc [simp]: "end_slot p (xs @ [a]) = Next a" by (simp add: end_slot_def)

lemma chain_cong:
  assumes "v p = v' p" "\<And>a. a \<in> set xs \<Longrightarrow> v (Next a) = v' (Next a)" "\<And>a. a \<in> set xs \<Longrightarrow> b a = b' a"
  shows "chain v b p xs = chain v' b' p xs"
  using assms by (induction xs arbitrary: p) auto

lemma chain_first: "chain v b p xs \<Longrightarrow> v p = (case xs of [] \<Rightarrow> None | a # _ \<Rightarrow> Some a)"
  by (cases xs) auto

text \<open>Taking \<open>a\<close> out of a chain: the slot before it takes over its next pointer, and the element behind it its back pointer.\<close>

lemma chain_remove:
  assumes "chain v b p (us @ a # ws)" "distinct (us @ a # ws)" "\<forall>x \<in> set (us @ a # ws). p \<noteq> Next x"
  shows "b a = end_slot p us" "v (Next a) = (case ws of [] \<Rightarrow> None | f # _ \<Rightarrow> Some f)"
    "chain (v(end_slot p us := v (Next a))) (case ws of [] \<Rightarrow> b | f # _ \<Rightarrow> b(f := end_slot p us)) p (us @ ws)"
proof -
  have "b a = end_slot p us \<and> v (Next a) = (case ws of [] \<Rightarrow> None | f # _ \<Rightarrow> Some f) \<and>
    chain (v(end_slot p us := v (Next a))) (case ws of [] \<Rightarrow> b | f # _ \<Rightarrow> b(f := end_slot p us)) p (us @ ws)"
    using assms
  proof (induction us arbitrary: p)
    case Nil
    show ?case
    proof (cases ws)
      case (Cons f fs)
      have "chain (v(p := Some f)) (b(f := p)) (Next f) fs = chain v b (Next f) fs" by (rule chain_cong) (use Nil Cons in auto)
      moreover have "v (Next a) = Some f" "b a = p" "chain v b (Next f) fs" using Nil.prems(1) Cons by simp_all
      ultimately show ?thesis unfolding Cons append_Nil chain.simps list.case by simp
    qed (use Nil in simp)
  next
    case (Cons u us)
    have ih: "b a = end_slot (Next u) us \<and> v (Next a) = (case ws of [] \<Rightarrow> None | f # _ \<Rightarrow> Some f) \<and>
      chain (v(end_slot (Next u) us := v (Next a))) (case ws of [] \<Rightarrow> b | f # _ \<Rightarrow> b(f := end_slot (Next u) us)) (Next u) (us @ ws)"
      by (rule Cons.IH) (use Cons.prems in auto)
    have "end_slot (Next u) us \<noteq> p" using Cons.prems(3) by (cases us rule: rev_cases) auto
    moreover have "(case ws of [] \<Rightarrow> b | f # _ \<Rightarrow> b(f := end_slot (Next u) us)) u = b u" using Cons.prems(2) by (cases ws) simp_all
    moreover have "v p = Some u" "b u = p" using Cons.prems(1) by simp_all
    ultimately show ?case using ih unfolding append_Cons chain.simps end_slot_simps by (elim conjE) simp
  qed
  then show "b a = end_slot p us" "v (Next a) = (case ws of [] \<Rightarrow> None | f # _ \<Rightarrow> Some f)"
    "chain (v(end_slot p us := v (Next a))) (case ws of [] \<Rightarrow> b | f # _ \<Rightarrow> b(f := end_slot p us)) p (us @ ws)" by blast+
qed

lemma chain_snoc:
  assumes "chain v b p xs" "a \<notin> set xs" "distinct xs" "\<forall>x \<in> set xs. p \<noteq> Next x" "p \<noteq> Next a"
  shows "chain (v(end_slot p xs := Some a, Next a := None)) (b(a := end_slot p xs)) p (xs @ [a])"
  using assms
proof (induction xs arbitrary: p)
  case (Cons x xs)
  have "chain (v(end_slot (Next x) xs := Some a, Next a := None)) (b(a := end_slot (Next x) xs)) (Next x) (xs @ [a])"
    by (rule Cons.IH) (use Cons.prems in auto)
  moreover have "end_slot (Next x) xs \<noteq> p" using Cons.prems(4) by (cases xs rule: rev_cases) auto
  moreover have "v p = Some x" "b x = p" "x \<noteq> a" using Cons.prems(1,2) by auto
  ultimately show ?case using Cons.prems(5) unfolding append_Cons chain.simps end_slot_simps by simp
qed simp

section \<open>Families of lists\<close>

definition link_lists :: "links \<Rightarrow> (nat \<Rightarrow> uintptr list) \<Rightarrow> bool" where
  "link_lists m L \<longleftrightarrow> (\<forall>h. distinct (L h) \<and> chain (\<lambda>p. deref p m) (le_prev m) (Head h) (L h)) \<and> (\<forall>h g. h \<noteq> g \<longrightarrow> set (L h) \<inter> set (L g) = {})"

lemma lists_insert:
  assumes "link_lists m L" "\<forall>g. a \<notin> set (L g)"
  shows "link_lists (LIST_INSERT_HEAD h a m) (L(h := a # L h))"
proof -
  let ?m = "LIST_INSERT_HEAD h a m" and ?v = "\<lambda>p. deref p m"
  have c: "chain ?v (le_prev m) (Head g) (L g)" "distinct (L g)" for g using assms(1) by (simp_all add: link_lists_def)
  have f: "lh_first m h = (case L h of [] \<Rightarrow> None | f # _ \<Rightarrow> Some f)" using chain_first [OF c(1) [of h]] by (simp add: deref_def)
  have d: "deref p ?m = (if p = Head h then Some a else if p = Next a then lh_first m h else deref p m)" for p
    by (auto simp: LIST_INSERT_HEAD_def deref_def Let_def split: option.split slot.split)
  have b: "le_prev ?m x = (if x = a then Head h else if Some x = lh_first m h then Next a else le_prev m x)" for x
    by (auto simp: LIST_INSERT_HEAD_def Let_def split: option.split)
  have "chain (\<lambda>p. deref p ?m) (le_prev ?m) (Head h) (a # L h)"
  proof (cases "L h")
    case (Cons y ys)
    have na: "a \<noteq> y" "a \<notin> set ys" using assms(2) [rule_format, of h] Cons by auto
    have "chain (\<lambda>p. deref p ?m) (le_prev ?m) (Next y) ys = chain ?v (le_prev m) (Next y) ys"
      by (rule chain_cong) (use na c(2) [of h] Cons f in \<open>auto simp: d b\<close>)
    then show ?thesis using c(1) [of h] Cons f na by (auto simp: d b)
  qed (simp add: d b f)
  moreover have "chain (\<lambda>p. deref p ?m) (le_prev ?m) (Head g) (L g)" if "g \<noteq> h" for g
  proof -
    have "Some x \<noteq> lh_first m h" if "x \<in> set (L g)" for x
      using that conjunct2 [OF assms(1) [unfolded link_lists_def], rule_format, OF \<open>g \<noteq> h\<close>] by (cases "L h") (auto simp: f)
    then have "chain (\<lambda>p. deref p ?m) (le_prev ?m) (Head g) (L g) = chain ?v (le_prev m) (Head g) (L g)"
      by (intro chain_cong) (use assms(2) \<open>g \<noteq> h\<close> in \<open>auto simp: d b\<close>)
    then show ?thesis using c(1) by simp
  qed
  ultimately show ?thesis using assms by (auto simp: link_lists_def)
qed

lemma lists_remove:
  assumes "link_lists m L" "a \<in> set (L h)"
  shows "link_lists (LIST_REMOVE a m) (L(h := remove1 a (L h)))"
proof -
  let ?m = "LIST_REMOVE a m" and ?v = "\<lambda>p. deref p m"
  have c: "chain ?v (le_prev m) (Head g) (L g)" "distinct (L g)" for g using assms(1) by (simp_all add: link_lists_def)
  obtain us ws where l: "L h = us @ a # ws" using assms(2) by (auto dest: split_list)
  let ?p = "end_slot (Head h) us"
  have nd: "distinct (us @ a # ws)" "\<forall>x \<in> set (us @ a # ws). Head h \<noteq> Next x" using c(2) [of h] by (simp_all add: l)
  note r = chain_remove [OF c(1) [of h, unfolded l] nd]
  have n: "le_next m a = (case ws of [] \<Rightarrow> None | f # _ \<Rightarrow> Some f)" using r(2) by (simp add: deref_def)
  have pr: "le_prev ?m = (case ws of [] \<Rightarrow> le_prev m | f # _ \<Rightarrow> (le_prev m)(f := ?p))"
    using nd(1) r(1) by (auto simp: LIST_REMOVE_def Let_def n assign_def split: list.split slot.split)
  have d: "(\<lambda>p. deref p ?m) = (?v)(?p := ?v (Next a))"
    using nd(1) r(1) by (auto simp: LIST_REMOVE_def Let_def n deref_def assign_def fun_eq_iff split: list.split slot.split)
  have "remove1 a (L h) = us @ ws" using nd(1) by (simp add: l remove1_append)
  then have "chain (\<lambda>p. deref p ?m) (le_prev ?m) (Head h) (remove1 a (L h))" using r(3) by (simp add: d pr)
  moreover have "chain (\<lambda>p. deref p ?m) (le_prev ?m) (Head g) (L g)" if "g \<noteq> h" for g
  proof -
    have dj: "set (L g) \<inter> set (us @ a # ws) = {}" using assms(1) that unfolding l [symmetric] link_lists_def by blast
    then have "Next x \<noteq> ?p" if "x \<in> set (L g)" for x using that by (cases us rule: rev_cases) auto
    moreover have "Head g \<noteq> ?p" using that by (cases us rule: rev_cases) auto
    ultimately have "chain (\<lambda>p. deref p ?m) (le_prev ?m) (Head g) (L g) = chain ?v (le_prev m) (Head g) (L g)"
      by (intro chain_cong) (use dj in \<open>auto simp: fun_cong [OF d] pr split: list.split\<close>)
    then show ?thesis using c(1) by simp
  qed
  moreover have "distinct (remove1 a (L h))" "set (remove1 a (L h)) \<subseteq> set (L h)" using c(2) by (simp_all add: set_remove1_subset)
  ultimately show ?thesis using assms(1) unfolding link_lists_def by (auto simp: disjoint_iff)
qed

text \<open>The walks end, and visit the elements in order; the safe one also when the body takes out the element it is at.\<close>

lemma foreach_fold:
  assumes "chain (\<lambda>p. deref p (heap s)) b p xs" "\<And>a s. le_next (heap (body a s)) = le_next (heap s)" "\<And>a s. lh_first (heap (body a s)) = lh_first (heap s)"
  shows "foreach body heap (deref p (heap s)) s = Some (fold body xs s)"
  using assms(1)
proof (induction xs arbitrary: p s)
  case (Cons a xs)
  have d: "(\<lambda>p. deref p (heap (body a s))) = (\<lambda>p. deref p (heap s))" using assms(2,3) by (auto simp: deref_def fun_eq_iff split: slot.split)
  have "chain (\<lambda>p. deref p (heap (body a s))) b (Next a) xs" using Cons.prems unfolding d by simp
  from Cons.IH [OF this] have "foreach body heap (LIST_NEXT a (heap (body a s))) (body a s) = Some (fold body xs (body a s))" by (simp add: LIST_NEXT_def deref_def)
  then show ?case using Cons.prems by (subst foreach.simps) simp
qed (subst foreach.simps, simp)

lemma foreach_safe_fold:
  assumes "link_lists (heap s) L" "L h = xs" "\<And>a s. heap (body a s) = LIST_REMOVE a (heap s)"
  shows "foreach_safe body heap (LIST_FIRST h (heap s)) s = Some (fold body xs s) \<and> link_lists (heap (fold body xs s)) (L(h := []))"
  using assms(1,2)
proof (induction xs arbitrary: s L)
  case Nil
  then have "LIST_FIRST h (heap s) = None" by (auto simp: link_lists_def LIST_FIRST_def deref_def dest!: spec [of _ h])
  moreover have "L(h := []) = L" using Nil.prems(2) by auto
  ultimately show ?case using Nil.prems(1) by (subst foreach_safe.simps) simp
next
  case (Cons a xs)
  have c: "chain (\<lambda>p. deref p (heap s)) (le_prev (heap s)) (Head h) (a # xs)" "distinct (a # xs)" using Cons.prems by (auto simp: link_lists_def dest!: spec [of _ h])
  have f: "LIST_FIRST h (heap s) = Some a" "LIST_NEXT a (heap s) = (case xs of [] \<Rightarrow> None | x # _ \<Rightarrow> Some x)"
    using c(1) chain_first [of _ _ "Next a" xs] by (auto simp: LIST_FIRST_def LIST_NEXT_def deref_def)
  have l: "link_lists (heap (body a s)) (L(h := xs))" using lists_remove [OF Cons.prems(1), of a h] Cons.prems(2) by (simp add: assms(3))
  have "LIST_FIRST h (heap (body a s)) = (case xs of [] \<Rightarrow> None | x # _ \<Rightarrow> Some x)"
    using l chain_first [of "\<lambda>p. deref p (heap (body a s))" _ "Head h" xs] by (fastforce simp: link_lists_def LIST_FIRST_def deref_def dest!: spec [of _ h])
  then have "foreach_safe body heap (LIST_FIRST h (heap s)) s = foreach_safe body heap (LIST_FIRST h (heap (body a s))) (body a s)"
    using f by (subst foreach_safe.simps) simp
  then show ?case using Cons.IH [OF l fun_upd_same, unfolded fun_upd_upd] by simp
qed

section \<open>Queues\<close>

definition tq_val :: "tailq \<Rightarrow> slot \<Rightarrow> uintptr option" where
  "tq_val q p = (case p of Head _ \<Rightarrow> tqh_first q | Next a \<Rightarrow> tqe_next q a)"

definition queue :: "tailq \<Rightarrow> uintptr list \<Rightarrow> bool" where
  "queue q xs \<longleftrightarrow> distinct xs \<and> chain (tq_val q) (tqe_prev q) (Head 0) xs \<and> tqh_last q = end_slot (Head 0) xs"

lemma queue_insert:
  assumes "queue q xs" "a \<notin> set xs"
  shows "queue (TAILQ_INSERT_TAIL a q) (xs @ [a])"
proof -
  let ?q = "TAILQ_INSERT_TAIL a q" and ?e = "end_slot (Head 0) xs"
  have h: "chain (tq_val q) (tqe_prev q) (Head 0) xs" "distinct xs" "tqh_last q = ?e" using assms(1) by (simp_all add: queue_def)
  have "?e \<noteq> Next a" using assms(2) by (cases xs rule: rev_cases) auto
  moreover have "?e = Head 0 \<or> (\<exists>x. ?e = Next x)" by (cases xs rule: rev_cases) auto
  ultimately have v: "tq_val ?q p = ((tq_val q)(?e := Some a, Next a := None)) p" if "p = Head 0 \<or> (\<exists>x. p = Next x)" for p
    using that h(3) by (auto simp: tq_val_def TAILQ_INSERT_TAIL_def tq_assign_def Let_def split: slot.split)
  have b: "tqe_prev ?q = (tqe_prev q)(a := ?e)" "tqh_last ?q = Next a"
    using h(3) by (auto simp: TAILQ_INSERT_TAIL_def tq_assign_def Let_def split: slot.split)
  have "chain ((tq_val q)(?e := Some a, Next a := None)) ((tqe_prev q)(a := ?e)) (Head 0) (xs @ [a])"
    by (rule chain_snoc [OF h(1) assms(2) h(2)]) simp_all
  moreover have "chain (tq_val ?q) (tqe_prev ?q) (Head 0) (xs @ [a]) = chain ((tq_val q)(?e := Some a, Next a := None)) ((tqe_prev q)(a := ?e)) (Head 0) (xs @ [a])"
    by (rule chain_cong) (simp_all only: v b simp_thms exI)
  ultimately show ?thesis using h(2) assms(2) b(2) by (simp add: queue_def)
qed

lemma queue_remove:
  assumes "queue q xs" "a \<in> set xs"
  shows "queue (TAILQ_REMOVE a q) (remove1 a xs)"
proof -
  let ?q = "TAILQ_REMOVE a q"
  obtain us ws where l: "xs = us @ a # ws" using assms(2) by (auto dest: split_list)
  let ?e = "end_slot (Head 0) us"
  have h: "chain (tq_val q) (tqe_prev q) (Head 0) (us @ a # ws)" "distinct (us @ a # ws)" "tqh_last q = end_slot (Head 0) (us @ a # ws)"
    using assms(1) by (simp_all add: queue_def l)
  note r = chain_remove [OF h(1,2)]
  have ra: "tqe_prev q a = ?e" "tq_val q (Next a) = (case ws of [] \<Rightarrow> None | f # _ \<Rightarrow> Some f)"
    "chain ((tq_val q)(?e := tq_val q (Next a))) (case ws of [] \<Rightarrow> tqe_prev q | f # _ \<Rightarrow> (tqe_prev q)(f := ?e)) (Head 0) (us @ ws)" using r by simp_all
  have n: "tqe_next q a = (case ws of [] \<Rightarrow> None | f # _ \<Rightarrow> Some f)" using ra(2) by (simp add: tq_val_def)
  have "?e = Head 0 \<or> (\<exists>x. ?e = Next x)" by (cases us rule: rev_cases) auto
  then have v: "tq_val ?q p = ((tq_val q)(?e := tq_val q (Next a))) p" if "p = Head 0 \<or> (\<exists>x. p = Next x)" for p
    using that h(2) ra(1) by (auto simp: tq_val_def TAILQ_REMOVE_def tq_assign_def Let_def n split: slot.split list.split)
  have b: "tqe_prev ?q = (case ws of [] \<Rightarrow> tqe_prev q | f # _ \<Rightarrow> (tqe_prev q)(f := ?e))" "tqh_last ?q = (if ws = [] then ?e else tqh_last q)"
    using h(2) ra(1) by (auto simp: TAILQ_REMOVE_def tq_assign_def Let_def n split: slot.split list.split)
  have "chain (tq_val ?q) (tqe_prev ?q) (Head 0) (us @ ws) =
    chain ((tq_val q)(?e := tq_val q (Next a))) (case ws of [] \<Rightarrow> tqe_prev q | f # _ \<Rightarrow> (tqe_prev q)(f := ?e)) (Head 0) (us @ ws)"
    by (rule chain_cong) (simp_all only: v b simp_thms exI)
  moreover have "remove1 a xs = us @ ws" using h(2) by (simp add: l remove1_append)
  moreover have "tqh_last ?q = end_slot (Head 0) (us @ ws)" using h(3) b(2) by (auto simp: end_slot_def)
  ultimately show ?thesis using h(2) ra(3) by (simp add: queue_def)
qed

text \<open>C14: the macros of \<^verbatim>\<open>list.h\<close> implement lists on the heap. Inserting an element that is in no list puts it at the front of its list, removing
  an element takes it out of the list it is in without being told which one, and the other lists that share the link
  field keep their elements and order. A walk ends and visits the elements in order, also when its body takes out the element
  it is at; afterwards that list is empty. On a queue, inserting appends, removing deletes, and the first element
  is the one inserted first.\<close>

theorem links_refine_lists:
  assumes "link_lists m L" "queue q xs"
  shows "((\<forall>g. a \<notin> set (L g)) \<longrightarrow> link_lists (LIST_INSERT_HEAD h a m) (L(h := a # L h))) \<and>
    (b \<in> set (L h) \<longrightarrow> link_lists (LIST_REMOVE b m) (L(h := remove1 b (L h)))) \<and>
    LIST_FIRST h m = (if L h = [] then None else Some (hd (L h))) \<and>
    LIST_FOREACH (\<lambda>a (m, ys). (m, ys @ [a])) fst h (m, []) = Some (m, L h) \<and>
    (\<exists>m'. LIST_FOREACH_SAFE (\<lambda>a (m, ys). (LIST_REMOVE a m, ys @ [a])) fst h (m, []) = Some (m', L h) \<and> link_lists m' (L(h := []))) \<and>
    (c \<notin> set xs \<longrightarrow> queue (TAILQ_INSERT_TAIL c q) (xs @ [c])) \<and>
    (d \<in> set xs \<longrightarrow> queue (TAILQ_REMOVE d q) (remove1 d xs)) \<and>
    TAILQ_FIRST q = (if xs = [] then None else Some (hd xs))"
proof (intro conjI impI)
  assume "\<forall>g. a \<notin> set (L g)"
  then show "link_lists (LIST_INSERT_HEAD h a m) (L(h := a # L h))" by (rule lists_insert [OF assms(1)])
next
  assume "b \<in> set (L h)"
  then show "link_lists (LIST_REMOVE b m) (L(h := remove1 b (L h)))" by (rule lists_remove [OF assms(1)])
next
  have c: "chain (\<lambda>p. deref p m) (le_prev m) (Head h) (L h)" using assms(1) by (simp add: link_lists_def)
  show "LIST_FIRST h m = (if L h = [] then None else Some (hd (L h)))"
    using chain_first [OF c] by (auto simp: LIST_FIRST_def deref_def split: list.splits)
  have f: "fold (\<lambda>a (m, ys). (m, ys @ [a])) zs (n, ys) = (n, ys @ zs)" for zs ys and n :: links by (induction zs arbitrary: ys) simp_all
  show "LIST_FOREACH (\<lambda>a (m, ys). (m, ys @ [a])) fst h (m, []) = Some (m, L h)"
    using foreach_fold [of fst "(m, [])" _ "Head h" "L h" "\<lambda>a (m, ys). (m, ys @ [a])"] c by (simp add: LIST_FOREACH_def LIST_FIRST_def deref_def f split_beta)
next
  let ?body = "\<lambda>a (m, ys). (LIST_REMOVE a m, ys @ [a])"
  have g: "snd (fold ?body zs (n, ys)) = ys @ zs" for zs ys n by (induction zs arbitrary: n ys) simp_all
  have "foreach_safe ?body fst (LIST_FIRST h m) (m, []) = Some (fold ?body (L h) (m, [])) \<and> link_lists (fst (fold ?body (L h) (m, []))) (L(h := []))"
    using foreach_safe_fold [of fst "(m, [])" L h "L h" ?body] assms(1) by (simp add: split_beta)
  moreover obtain m' where "fold ?body (L h) (m, []) = (m', L h)" using g [of "L h" m "[]"] by (cases "fold ?body (L h) (m, [])") simp
  ultimately show "\<exists>m'. LIST_FOREACH_SAFE ?body fst h (m, []) = Some (m', L h) \<and> link_lists m' (L(h := []))"
    by (intro exI [of _ m']) (simp only: LIST_FOREACH_SAFE_def fst_conv simp_thms)
next
  assume "c \<notin> set xs"
  then show "queue (TAILQ_INSERT_TAIL c q) (xs @ [c])" by (rule queue_insert [OF assms(2)])
next
  assume "d \<in> set xs"
  then show "queue (TAILQ_REMOVE d q) (remove1 d xs)" by (rule queue_remove [OF assms(2)])
next
  have "chain (tq_val q) (tqe_prev q) (Head 0) xs" using assms(2) by (simp add: queue_def)
  from chain_first [OF this] show "TAILQ_FIRST q = (if xs = [] then None else Some (hd xs))" by (auto simp: TAILQ_FIRST_def tq_val_def split: list.splits)
qed

text \<open>Two lists and a queue, built by the macros from nothing.\<close>

definition no_links :: links where "no_links = \<lparr>lh_first = (\<lambda>_. None), le_next = (\<lambda>_. None), le_prev = (\<lambda>_. Head 0)\<rparr>"
definition no_queue :: tailq where "no_queue = TAILQ_INIT \<lparr>tqh_first = None, tqh_last = Head 0, tqe_next = (\<lambda>_. None), tqe_prev = (\<lambda>_. Head 0)\<rparr>"

lemma no_links_lists: "link_lists no_links (\<lambda>_. [])" "queue no_queue []"
  by (simp_all add: link_lists_def no_links_def deref_def queue_def no_queue_def tq_val_def TAILQ_INIT_def)

lemma LIST_INIT_empty: "link_lists m L \<Longrightarrow> L h = [] \<Longrightarrow> LIST_INIT h m = m"
  by (auto simp: link_lists_def LIST_INIT_def deref_def fun_upd_idem dest!: spec [of _ h])

theorem links_refine_lists_witness:
  "LIST_FIRST 1 (LIST_REMOVE 0x20 (LIST_INSERT_HEAD 1 0x20 (LIST_INSERT_HEAD 1 0x10 no_links))) = Some 0x10 \<and>
   TAILQ_FIRST (TAILQ_REMOVE 0x30 (TAILQ_INSERT_TAIL 0x40 (TAILQ_INSERT_TAIL 0x30 no_queue))) = Some 0x40"
proof -
  let ?L = "(\<lambda>_. [])(1 := [0x20, 0x10])"
  have "link_lists (LIST_INSERT_HEAD 1 0x10 no_links) ((\<lambda>_. [])(1 := [0x10]))" using lists_insert [OF no_links_lists(1), of "0x10" 1] by simp
  from lists_insert [OF this, of "0x20" 1] have l: "link_lists (LIST_INSERT_HEAD 1 0x20 (LIST_INSERT_HEAD 1 0x10 no_links)) ?L" by simp
  from lists_remove [OF l, of "0x20" 1] have l': "link_lists (LIST_REMOVE 0x20 (LIST_INSERT_HEAD 1 0x20 (LIST_INSERT_HEAD 1 0x10 no_links))) ((\<lambda>_. [])(1 := [0x10]))" by simp
  have "queue (TAILQ_INSERT_TAIL 0x30 no_queue) [0x30]" using queue_insert [OF no_links_lists(2), of "0x30"] by simp
  from queue_insert [OF this, of "0x40"] have q: "queue (TAILQ_INSERT_TAIL 0x40 (TAILQ_INSERT_TAIL 0x30 no_queue)) [0x30, 0x40]" by simp
  from queue_remove [OF q, of "0x30"] have q': "queue (TAILQ_REMOVE 0x30 (TAILQ_INSERT_TAIL 0x40 (TAILQ_INSERT_TAIL 0x30 no_queue))) [0x40]" by simp
  show ?thesis using links_refine_lists [OF l' q', of 0 1] by simp
qed

end
