(* ===== verification/Mmio.thy ===== *)
theory Mmio
  imports ProcState
begin

text \<open>
  Device registers, system registers and the volatile words that other CPUs store. Every access is recorded in order; what a
  read returns is a parameter, the \<open>world\<close>: a function of the accesses so far. The accessors are those of
  \<^verbatim>\<open>arch/mmio.h\<close> and \<^verbatim>\<open>arch/arm64.h\<close>. The kernel waits for the world in one way, a loop bounded by the generic
  counter or, without a counter frequency, by a number of turns; \<open>timed_wait\<close> is that loop.
\<close>

datatype io = Rd32 uintptr | Wr32 uintptr uint32 | Rd64 uintptr | Wr64 uintptr uint64 | Mrs string | Msr string uint64
  | Rd_online nat | Rd_halted nat | Hvc uint64 uint64 uint64 uint64 | Smc uint64 uint64 uint64 uint64

type_synonym world = "io list \<Rightarrow> io \<Rightarrow> uint64"

record mmio =
  io_log :: "io list"

definition io_read :: "world \<Rightarrow> io \<Rightarrow> 'a mmio_scheme \<Rightarrow> uint64 \<times> 'a mmio_scheme" where
  "io_read w x s = (w (io_log s) x, s\<lparr>io_log := io_log s @ [x]\<rparr>)"

definition io_write :: "io \<Rightarrow> 'a mmio_scheme \<Rightarrow> 'a mmio_scheme" where
  "io_write x s = s\<lparr>io_log := io_log s @ [x]\<rparr>"

section \<open>Accessors\<close>

definition mmio_read32 :: "world \<Rightarrow> uintptr \<Rightarrow> 'a mmio_scheme \<Rightarrow> uint32 \<times> 'a mmio_scheme" where
  "mmio_read32 w addr s = (let (v, s1) = io_read w (Rd32 addr) s in (ucast v, s1))"

definition mmio_write32 :: "uintptr \<Rightarrow> uint32 \<Rightarrow> 'a mmio_scheme \<Rightarrow> 'a mmio_scheme" where
  "mmio_write32 addr val = io_write (Wr32 addr val)"

definition mmio_setbits32 :: "world \<Rightarrow> uintptr \<Rightarrow> uint32 \<Rightarrow> 'a mmio_scheme \<Rightarrow> 'a mmio_scheme" where
  "mmio_setbits32 w addr m s = (let (v, s1) = mmio_read32 w addr s in mmio_write32 addr (v OR m) s1)"

definition mmio_clrbits32 :: "world \<Rightarrow> uintptr \<Rightarrow> uint32 \<Rightarrow> 'a mmio_scheme \<Rightarrow> 'a mmio_scheme" where
  "mmio_clrbits32 w addr m s = (let (v, s1) = mmio_read32 w addr s in mmio_write32 addr (v AND NOT m) s1)"

definition mmio_clrsetbits32 :: "world \<Rightarrow> uintptr \<Rightarrow> uint32 \<Rightarrow> uint32 \<Rightarrow> 'a mmio_scheme \<Rightarrow> 'a mmio_scheme" where
  "mmio_clrsetbits32 w addr m val s = (let (v, s1) = mmio_read32 w addr s in mmio_write32 addr ((v AND NOT m) OR (val AND m)) s1)"

definition mmio_read64 :: "world \<Rightarrow> uintptr \<Rightarrow> 'a mmio_scheme \<Rightarrow> uint64 \<times> 'a mmio_scheme" where
  "mmio_read64 w addr = io_read w (Rd64 addr)"

definition mmio_write64 :: "uintptr \<Rightarrow> uint64 \<Rightarrow> 'a mmio_scheme \<Rightarrow> 'a mmio_scheme" where
  "mmio_write64 addr val = io_write (Wr64 addr val)"

definition MPIDR_AFF_MASK :: uint64 where [kdefs]: "MPIDR_AFF_MASK = 0xFF00FFFFFF"

definition read_mpidr :: "world \<Rightarrow> 'a mmio_scheme \<Rightarrow> uint64 \<times> 'a mmio_scheme" where
  "read_mpidr w s = (let (v, s1) = io_read w (Mrs ''mpidr_el1'') s in (v AND MPIDR_AFF_MASK, s1))"

definition read_cntpct :: "world \<Rightarrow> 'a mmio_scheme \<Rightarrow> uint64 \<times> 'a mmio_scheme" where
  "read_cntpct w = io_read w (Mrs ''cntpct_el0'')"

definition read_cntfrq :: "world \<Rightarrow> 'a mmio_scheme \<Rightarrow> uint64 \<times> 'a mmio_scheme" where
  "read_cntfrq w = io_read w (Mrs ''cntfrq_el0'')"

section \<open>Waiting\<close>

text \<open>
  \<^verbatim>\<open>while (busy) { if (freq != 0) { if (read_cntpct() >= deadline) break; } else if (--spins == 0) break; }\<close>. The condition may access the
  world itself. \<open>None\<close> is a wait without an end.
\<close>

partial_function (option) timed_wait ::
  "world \<Rightarrow> ('a mmio_scheme \<Rightarrow> bool \<times> 'a mmio_scheme) \<Rightarrow> uint64 \<Rightarrow> uint64 \<Rightarrow> uint64 \<Rightarrow> 'a mmio_scheme \<Rightarrow> 'a mmio_scheme option" where
  "timed_wait w busy freq deadline spins s =
     (let (b, s1) = busy s in
      if \<not> b then Some s1
      else if freq \<noteq> 0 then (let (t, s2) = read_cntpct w s1 in if t \<ge> deadline then Some s2 else timed_wait w busy freq deadline spins s2)
      else if spins - 1 = 0 then Some s1
      else timed_wait w busy freq deadline (spins - 1) s1)"

text \<open>
  The writes of a list of accesses, the values written to one memory-mapped register in their order, and \<open>traced\<close>: a run from \<open>s\<close> to \<open>s'\<close>
  that only accesses the world, with the writes \<open>P\<close>.
\<close>

fun is_write :: "io \<Rightarrow> bool" where
  "is_write (Rd32 a) = False"
| "is_write (Rd64 a) = False"
| "is_write (Mrs r) = False"
| "is_write (Rd_online c) = False"
| "is_write (Rd_halted c) = False"
| "is_write (Wr32 a v) = True"
| "is_write (Wr64 a v) = True"
| "is_write (Msr r v) = True"
| "is_write (Hvc x0 x1 x2 x3) = True"
| "is_write (Smc x0 x1 x2 x3) = True"

fun stored_at :: "uintptr \<Rightarrow> io \<Rightarrow> uint64 list" where
  "stored_at a (Wr32 b v) = (if b = a then [ucast v] else [])"
| "stored_at a (Wr64 b v) = (if b = a then [v] else [])"
| "stored_at a x = []"

definition stores :: "io list \<Rightarrow> uintptr \<Rightarrow> uint64 list" where
  "stores L a = concat (map (stored_at a) L)"

definition traced :: "'a mmio_scheme \<Rightarrow> 'a mmio_scheme \<Rightarrow> io list \<Rightarrow> bool" where
  "traced s s' P \<longleftrightarrow> (\<exists>L. s' = s\<lparr>io_log := io_log s @ L\<rparr> \<and> filter is_write L = P)"

lemma stores_Nil [simp]: "stores [] a = []" by (simp add: stores_def)
lemma stores_Cons [simp]: "stores (x # L) a = stored_at a x @ stores L a" by (simp add: stores_def)
lemma stores_append [simp]: "stores (L @ M) a = stores L a @ stores M a" by (simp add: stores_def)

lemma stored_reads: "\<not> is_write x \<Longrightarrow> stored_at a x = []" by (cases x) auto

lemma stores_writes: "stores (filter is_write L) a = stores L a"
  by (induction L) (auto simp: stored_reads)

lemma stores_map: "stores (map (\<lambda>i. Wr32 (f i) (h i)) xs) a = map (\<lambda>i. ucast (h i)) (filter (\<lambda>i. f i = a) xs)"
  by (induction xs) auto

lemma stores_map64: "stores (map (\<lambda>i. Wr64 (f i) (h i)) xs) a = map h (filter (\<lambda>i. f i = a) xs)"
  by (induction xs) auto

lemma traced_refl [simp]: "traced s s []" by (auto simp: traced_def intro: exI [of _ "[]"])

lemma traced_trans: "traced s t P \<Longrightarrow> traced t u Q \<Longrightarrow> R = P @ Q \<Longrightarrow> traced s u R"
  by (auto simp: traced_def)

lemma traced_read: "\<not> is_write x \<Longrightarrow> traced s (snd (io_read w x s)) []"
  by (auto simp: traced_def io_read_def)

lemma traced_write: "is_write x \<Longrightarrow> traced s (io_write x s) [x]"
  by (auto simp: traced_def io_write_def)

lemma traced_fold:
  assumes "\<And>x s. traced s (f x s) (g x)"
  shows "traced s (fold f xs s) (concat (map g xs))"
  by (induction xs arbitrary: s) (auto intro: traced_trans [OF assms])

lemma traced_grows: "traced s s' P \<Longrightarrow> length (io_log s) \<le> length (io_log s')"
  by (auto simp: traced_def)

text \<open>A counter that reaches \<open>deadline\<close> in the end.\<close>

definition counter_reaches :: "world \<Rightarrow> uint64 \<Rightarrow> nat \<Rightarrow> bool" where
  "counter_reaches w deadline n \<longleftrightarrow> (\<forall>l. n \<le> length l \<longrightarrow> deadline \<le> w l (Mrs ''cntpct_el0''))"

text \<open>
  What a wait asks of its condition: it does to the state only what the relation \<open>R\<close> allows. Then the wait ends, with or without a counter
  frequency, and what happened is allowed by \<open>R\<close>; the state it returns is the one after the last evaluation of the condition, but for a look at
  the clock.
\<close>

locale wait_body =
  fixes w :: world and busy :: "'a mmio_scheme \<Rightarrow> bool \<times> 'a mmio_scheme" and R :: "'a mmio_scheme \<Rightarrow> 'a mmio_scheme \<Rightarrow> bool"
  assumes R_refl: "R s s"
    and R_trans: "R s t \<Longrightarrow> R t u \<Longrightarrow> R s u"
    and R_busy: "R s (snd (busy s))"
    and R_tick: "R s (s\<lparr>io_log := io_log s @ [Mrs ''cntpct_el0'']\<rparr>)"
    and R_grows: "R s t \<Longrightarrow> length (io_log s) \<le> length (io_log t)"
begin

definition ended :: "'a mmio_scheme \<Rightarrow> 'a mmio_scheme \<Rightarrow> bool" where
  "ended s s' \<longleftrightarrow> (\<exists>s0 b s1. R s s0 \<and> busy s0 = (b, s1) \<and> R s s' \<and> (s' = s1 \<or> s' = s1\<lparr>io_log := io_log s1 @ [Mrs ''cntpct_el0'']\<rparr>))"

lemma ended_now: "busy s = (b, s1) \<Longrightarrow> ended s s1"
  using R_refl [of s] R_busy [of s] unfolding ended_def by (metis snd_conv)

lemma ended_tick: "busy s = (b, s1) \<Longrightarrow> ended s (s1\<lparr>io_log := io_log s1 @ [Mrs ''cntpct_el0'']\<rparr>)"
  using R_refl [of s] R_trans [OF R_busy [of s] R_tick] unfolding ended_def by (metis snd_conv)

lemma ended_later: "R s t \<Longrightarrow> ended t s' \<Longrightarrow> ended s s'"
  unfolding ended_def using R_trans by blast

lemma ends_spins:
  assumes "0 < unat spins"
  shows "\<exists>s'. timed_wait w busy 0 deadline spins s = Some s' \<and> ended s s'"
  using assms
proof (induction "unat spins" arbitrary: spins s rule: less_induct)
  case less
  obtain b s1 where b: "busy s = (b, s1)" by fastforce
  have u: "unat (spins - 1) = unat spins - 1" using less.prems by (simp add: unat_minus_one unat_gt_0)
  show ?case
  proof (cases "b \<and> spins - 1 \<noteq> 0")
    case True
    then have "0 < unat (spins - 1)" by (simp add: unat_gt_0)
    then obtain s' where "timed_wait w busy 0 deadline (spins - 1) s1 = Some s'" "ended s1 s'"
      using less.hyps [of "spins - 1" s1] u less.prems by auto
    then show ?thesis using True b ended_later [of s s1 s'] R_busy [of s] by (subst timed_wait.simps) simp
  qed (subst timed_wait.simps, use ended_now [OF b] in \<open>auto simp: b\<close>)
qed

lemma ends_counter:
  assumes "freq \<noteq> 0" "counter_reaches w deadline n"
  shows "\<exists>s'. timed_wait w busy freq deadline spins s = Some s' \<and> ended s s'"
proof (induction "Suc n - length (io_log s)" arbitrary: s rule: less_induct)
  case less
  obtain b s1 where b: "busy s = (b, s1)" by fastforce
  have r1: "R s s1" using R_busy [of s] b by simp
  let ?t = "w (io_log s1) (Mrs ''cntpct_el0'')" and ?s2 = "s1\<lparr>io_log := io_log s1 @ [Mrs ''cntpct_el0'']\<rparr>"
  show ?case
  proof (cases "b \<and> ?t < deadline")
    case True
    then have "length (io_log s1) < n" using assms(2) by (force simp: counter_reaches_def not_le [symmetric])
    then have "Suc n - length (io_log ?s2) < Suc n - length (io_log s)" using R_grows [OF r1] by simp
    then obtain s' where "timed_wait w busy freq deadline spins ?s2 = Some s'" "ended ?s2 s'" using less.hyps by blast
    then show ?thesis using True b assms(1) ended_later [OF R_trans [OF r1 R_tick]]
      by (subst timed_wait.simps) (auto simp: read_cntpct_def io_read_def)
  qed (subst timed_wait.simps, use ended_now [OF b] ended_tick [OF b] in \<open>auto simp: b assms(1) read_cntpct_def io_read_def\<close>)
qed

lemma ends:
  assumes "0 < unat spins" "freq \<noteq> 0 \<Longrightarrow> counter_reaches w deadline n"
  shows "\<exists>s'. timed_wait w busy freq deadline spins s = Some s' \<and> ended s s'"
  using assms ends_spins ends_counter by (cases "freq = 0") simp_all

end

lemma tick_traced: "traced s (s\<lparr>io_log := io_log s @ [Mrs ''cntpct_el0'']\<rparr>) []"
  by (auto simp: traced_def)

end
