(* ===== verification/Gic.thy ===== *)
theory Gic
  imports Mmio Dtb
begin

text \<open>
  The interrupt controller (\<^verbatim>\<open>arch/gic.c\<close>): the distributor and the redistributors, whose registers are the world's, and the
  set-up of the CPU interface. The platform addresses come from the device tree. The lines that are printed, and
  the barriers, have no state here; the acknowledge and completion of an interrupt are with the interrupts.
\<close>

section \<open>Registers\<close>

definition GICD_CTLR :: uint64 where [kdefs]: "GICD_CTLR = 0x000"
definition GICD_TYPER :: uint64 where [kdefs]: "GICD_TYPER = 0x004"
definition GICD_ISENABLER :: "uint32 \<Rightarrow> uint64" where [kdefs]: "GICD_ISENABLER n = ucast (0x100 + 4 * n)"
definition GICD_ICENABLER :: "uint32 \<Rightarrow> uint64" where [kdefs]: "GICD_ICENABLER n = ucast (0x180 + 4 * n)"
definition GICD_ICACTIVER :: "uint32 \<Rightarrow> uint64" where [kdefs]: "GICD_ICACTIVER n = ucast (0x380 + 4 * n)"
definition GICD_ICFGR :: "uint32 \<Rightarrow> uint64" where [kdefs]: "GICD_ICFGR n = ucast (0xC00 + 4 * n)"
definition GICD_IPRIORITYR :: "uint32 \<Rightarrow> uint64" where [kdefs]: "GICD_IPRIORITYR n = ucast (0x400 + 4 * n)"
definition GICD_IGROUPR :: "uint32 \<Rightarrow> uint64" where [kdefs]: "GICD_IGROUPR n = ucast (0x080 + 4 * n)"
definition GICD_IROUTER :: "uint32 \<Rightarrow> uint64" where [kdefs]: "GICD_IROUTER n = ucast (0x6000 + 8 * n)"
definition GICD_PIDR2 :: uint64 where [kdefs]: "GICD_PIDR2 = 0xFFE8"
definition GICD_CTLR_EN_GRP1NS :: uint32 where [kdefs]: "GICD_CTLR_EN_GRP1NS = push_bit 1 1"
definition GICD_CTLR_EN_GRP1A :: uint32 where [kdefs]: "GICD_CTLR_EN_GRP1A = push_bit 2 1"
definition GICD_CTLR_ARE_NS :: uint32 where [kdefs]: "GICD_CTLR_ARE_NS = push_bit 4 1"
definition GICD_CTLR_RWP :: uint32 where [kdefs]: "GICD_CTLR_RWP = push_bit 31 1"
definition GICD_TYPER_ITLINES_MASK :: uint32 where [kdefs]: "GICD_TYPER_ITLINES_MASK = 0x1f"
definition GICD_SPI_MAX :: uint32 where [kdefs]: "GICD_SPI_MAX = 1020"
definition GIC_RWP_SPINS :: uint64 where [kdefs]: "GIC_RWP_SPINS = 100000000"
definition GICD_PIDR2_ARCHREV_SHIFT :: nat where [kdefs]: "GICD_PIDR2_ARCHREV_SHIFT = 4"
definition GICD_PIDR2_ARCHREV_MASK :: uint32 where [kdefs]: "GICD_PIDR2_ARCHREV_MASK = 0xF"
definition GICR_FRAME_SIZE :: uint64 where [kdefs]: "GICR_FRAME_SIZE = 0x20000"
definition GICR_FRAME_SIZE_VLPI :: uint64 where [kdefs]: "GICR_FRAME_SIZE_VLPI = 0x40000"
definition GICR_TYPER_OFF :: uint64 where [kdefs]: "GICR_TYPER_OFF = 0x008"
definition GICR_TYPER_VLPIS :: uint64 where [kdefs]: "GICR_TYPER_VLPIS = push_bit 1 1"
definition GICR_TYPER_LAST :: uint64 where [kdefs]: "GICR_TYPER_LAST = push_bit 4 1"
definition GICR_WAKER_OFF :: uint64 where [kdefs]: "GICR_WAKER_OFF = 0x014"
definition GICR_SGI_OFF :: uint64 where [kdefs]: "GICR_SGI_OFF = 0x10000"
definition GICR_IGROUPR0_OFF :: uint64 where [kdefs]: "GICR_IGROUPR0_OFF = GICR_SGI_OFF + 0x080"
definition GICR_ISENABLER0_OFF :: uint64 where [kdefs]: "GICR_ISENABLER0_OFF = GICR_SGI_OFF + 0x100"
definition GICR_ICENABLER0_OFF :: uint64 where [kdefs]: "GICR_ICENABLER0_OFF = GICR_SGI_OFF + 0x180"
definition GICR_IPRIORITYR_OFF :: "uint32 \<Rightarrow> uint64" where [kdefs]: "GICR_IPRIORITYR_OFF n = ucast ((ucast GICR_SGI_OFF :: uint32) + 0x400 + 4 * n)"
definition GICR_WAKER_PSLEEP :: uint32 where [kdefs]: "GICR_WAKER_PSLEEP = push_bit 1 1"
definition GICR_WAKER_CASLEEP :: uint32 where [kdefs]: "GICR_WAKER_CASLEEP = push_bit 2 1"
definition ICC_CTLR_EOIMODE :: uint64 where [kdefs]: "ICC_CTLR_EOIMODE = push_bit 1 1"
definition GIC_PRIO_DEFAULT :: uint8 where [kdefs]: "GIC_PRIO_DEFAULT = 0xA0"

record gic = mmio +
  gicd :: uintptr
  gic_nirq :: uint32
  gicr_stride :: uint64
  gicr_frame :: "nat \<Rightarrow> uintptr"
  gi_cpu :: nat

definition icc_write_sre :: "uint64 \<Rightarrow> 'a mmio_scheme \<Rightarrow> 'a mmio_scheme" where "icc_write_sre val = io_write (Msr ''ICC_SRE_EL1'' val)"
definition icc_write_pmr :: "uint32 \<Rightarrow> 'a mmio_scheme \<Rightarrow> 'a mmio_scheme" where "icc_write_pmr val = io_write (Msr ''ICC_PMR_EL1'' (ucast val))"
definition icc_write_igrpen1 :: "uint32 \<Rightarrow> 'a mmio_scheme \<Rightarrow> 'a mmio_scheme" where "icc_write_igrpen1 val = io_write (Msr ''ICC_IGRPEN1_EL1'' (ucast val))"
definition icc_read_ctlr :: "world \<Rightarrow> 'a mmio_scheme \<Rightarrow> uint64 \<times> 'a mmio_scheme" where "icc_read_ctlr w = io_read w (Mrs ''ICC_CTLR_EL1'')"
definition icc_write_ctlr :: "uint64 \<Rightarrow> 'a mmio_scheme \<Rightarrow> 'a mmio_scheme" where "icc_write_ctlr val = io_write (Msr ''ICC_CTLR_EL1'' val)"

definition gicr_base_fn :: "'a gic_scheme \<Rightarrow> uintptr" where "gicr_base_fn s = gicr_frame s (gi_cpu s)"

definition gicd_read32 :: "world \<Rightarrow> uint64 \<Rightarrow> 'a gic_scheme \<Rightarrow> uint32 \<times> 'a gic_scheme" where
  "gicd_read32 w off s = mmio_read32 w (gicd s + off) s"

definition gicd_write32 :: "uint64 \<Rightarrow> uint32 \<Rightarrow> 'a gic_scheme \<Rightarrow> 'a gic_scheme" where
  "gicd_write32 off val s = mmio_write32 (gicd s + off) val s"

definition gicd_write64 :: "uint64 \<Rightarrow> uint64 \<Rightarrow> 'a gic_scheme \<Rightarrow> 'a gic_scheme" where
  "gicd_write64 off val s = mmio_write64 (gicd s + off) val s"

definition gic_typer_nirq :: "world \<Rightarrow> 'a gic_scheme \<Rightarrow> uint32 \<times> 'a gic_scheme" where
  "gic_typer_nirq w s =
     (let (v, s1) = gicd_read32 w GICD_TYPER s; n = 32 * ((v AND GICD_TYPER_ITLINES_MASK) + 1) in
      (if n > GICD_SPI_MAX then GICD_SPI_MAX else n, s1))"

definition rwp_busy :: "world \<Rightarrow> 'a gic_scheme \<Rightarrow> bool \<times> 'a gic_scheme" where
  "rwp_busy w s = (let (v, s1) = gicd_read32 w GICD_CTLR s in (v AND GICD_CTLR_RWP \<noteq> 0, s1))"

definition gic_wait_rwp :: "world \<Rightarrow> 'a gic_scheme \<Rightarrow> 'a gic_scheme option" where
  "gic_wait_rwp w s =
     (let (freq, s1) = read_cntfrq w s;
          (deadline, s2) = (if freq \<noteq> 0 then (let (v, s2) = read_cntfrq w s1 in (v + freq, s2)) else (0, s1)) in
      timed_wait w (rwp_busy w) freq deadline GIC_RWP_SPINS s2)"

definition mpidr_to_affinity :: "uint64 \<Rightarrow> uint64" where
  "mpidr_to_affinity mpidr =
     push_bit 24 (drop_bit 32 mpidr AND 0xff) OR push_bit 16 (drop_bit 16 mpidr AND 0xff) OR push_bit 8 (drop_bit 8 mpidr AND 0xff) OR (mpidr AND 0xff)"

partial_function (option) gicr_find_loop :: "world \<Rightarrow> uint64 \<Rightarrow> uintptr \<Rightarrow> 'a gic_scheme \<Rightarrow> (uintptr \<times> 'a gic_scheme) res option" where
  "gicr_find_loop w target frame s =
     (let (typer, s1) = mmio_read64 w (frame + GICR_TYPER_OFF) s in
      if drop_bit 32 typer AND 0xffffffff = target then Some (Inr (frame, s1))
      else if typer AND GICR_TYPER_LAST \<noteq> 0 then Some (Inl (Panic ''gic: no redistributor frame for this CPU''))
      else gicr_find_loop w target (frame + gicr_stride s1) s1)"

definition gicr_find :: "world \<Rightarrow> uint64 list \<Rightarrow> platform \<Rightarrow> 'a gic_scheme \<Rightarrow> (uintptr \<times> 'a gic_scheme) res option" where
  "gicr_find w cpu_mpidr pf s = gicr_find_loop w (mpidr_to_affinity (cpu_mpidr ! gi_cpu s)) (PA_TO_KVA (gicr_base pf)) s"

definition gic_nirqs :: "'a gic_scheme \<Rightarrow> uint32" where "gic_nirqs s = gic_nirq s"

section \<open>One interrupt\<close>

definition gic_irq_enable :: "uint32 \<Rightarrow> 'a gic_scheme \<Rightarrow> 'a gic_scheme" where
  "gic_irq_enable intid s =
     (if intid \<ge> GIC_SPI_BASE then gicd_write32 (GICD_ISENABLER (intid div 32)) (push_bit (unat (intid mod 32)) 1) s
      else mmio_write32 (gicr_base_fn s + GICR_ISENABLER0_OFF) (push_bit (unat intid) 1) s)"

definition gic_irq_disable :: "uint32 \<Rightarrow> 'a gic_scheme \<Rightarrow> 'a gic_scheme" where
  "gic_irq_disable intid s =
     (if intid \<ge> GIC_SPI_BASE then gicd_write32 (GICD_ICENABLER (intid div 32)) (push_bit (unat (intid mod 32)) 1) s
      else mmio_write32 (gicr_base_fn s + GICR_ICENABLER0_OFF) (push_bit (unat intid) 1) s)"

definition gic_irq_set_group :: "world \<Rightarrow> uint32 \<Rightarrow> uint32 \<Rightarrow> 'a gic_scheme \<Rightarrow> 'a gic_scheme" where
  "gic_irq_set_group w intid grp s =
     (let (reg, bt) = (if intid \<ge> GIC_SPI_BASE then (gicd s + GICD_IGROUPR (intid div 32), push_bit (unat (intid mod 32)) 1)
                       else (gicr_base_fn s + GICR_IGROUPR0_OFF, push_bit (unat intid) 1)) in
      if grp \<noteq> 0 then mmio_setbits32 w reg bt s else mmio_clrbits32 w reg bt s)"

definition gic_irq_set_priority :: "world \<Rightarrow> uint32 \<Rightarrow> uint8 \<Rightarrow> 'a gic_scheme \<Rightarrow> 'a gic_scheme" where
  "gic_irq_set_priority w intid prio s =
     (let sh = unat ((intid mod 4) * 8);
          reg = (if intid \<ge> GIC_SPI_BASE then gicd s + GICD_IPRIORITYR (intid div 4) else gicr_base_fn s + GICR_IPRIORITYR_OFF (intid div 4)) in
      mmio_clrsetbits32 w reg (push_bit sh 0xFF) (push_bit sh (ucast prio)) s)"

definition gic_irq_set_affinity :: "uint32 \<Rightarrow> uint64 \<Rightarrow> 'a gic_scheme \<Rightarrow> 'a gic_scheme" where
  "gic_irq_set_affinity intid aff s = (if intid < GIC_SPI_BASE then s else gicd_write64 (GICD_IROUTER intid) aff s)"

definition gic_send_sgi_all :: "uint32 \<Rightarrow> 'a mmio_scheme \<Rightarrow> 'a mmio_scheme" where
  "gic_send_sgi_all intid = io_write (Msr ''ICC_SGI1R_EL1'' (push_bit 40 1 OR push_bit 24 (ucast (intid AND 0xF))))"

section \<open>Initialisation\<close>

text \<open>\<^verbatim>\<open>for (i = GIC_SPI_BASE; i < gic_nirq; i += step)\<close>, with \<^verbatim>\<open>gic_nirq\<close> at most 1020.\<close>

definition spis :: "nat \<Rightarrow> uint32 \<Rightarrow> uint32 list" where
  "spis step nirq = map of_nat (filter (\<lambda>i. (i - 32) mod step = 0) [32..<unat nirq])"

definition spi_reset :: "uint32 \<Rightarrow> 'a gic_scheme \<Rightarrow> 'a gic_scheme" where
  "spi_reset i s = gicd_write32 (GICD_ICACTIVER (drop_bit 5 i)) 0xFFFFFFFF
     (gicd_write32 (GICD_ICENABLER (drop_bit 5 i)) 0xFFFFFFFF (gicd_write32 (GICD_IGROUPR (drop_bit 5 i)) 0xFFFFFFFF s))"

definition spi_route :: "world \<Rightarrow> uint32 \<Rightarrow> 'a gic_scheme \<Rightarrow> 'a gic_scheme" where
  "spi_route w i s = (let (m, s1) = read_mpidr w s in gic_irq_set_affinity i m s1)"

definition obind :: "'a option \<Rightarrow> ('a \<Rightarrow> 'b res option) \<Rightarrow> 'b res option" where
  "obind m f = (case m of None \<Rightarrow> None | Some x \<Rightarrow> f x)"

definition gic_init :: "world \<Rightarrow> platform \<Rightarrow> 'a gic_scheme \<Rightarrow> 'a gic_scheme res option" where
  "gic_init w pf s0 =
     (let s = s0\<lparr>gicd := PA_TO_KVA (gicd_base pf)\<rparr>;
          (pidr2, s) = gicd_read32 w GICD_PIDR2 s;
          archrev = drop_bit GICD_PIDR2_ARCHREV_SHIFT pidr2 AND GICD_PIDR2_ARCHREV_MASK in
      if archrev < 3 then Some (Inl (Panic ''gic: not a GICv3 distributor (PIDR2 ArchRev < 3''))
      else
        (let (typer, s) = mmio_read64 w (PA_TO_KVA (gicr_base pf) + GICR_TYPER_OFF) s;
             s = (if typer AND GICR_TYPER_VLPIS \<noteq> 0 then s\<lparr>gicr_stride := GICR_FRAME_SIZE_VLPI\<rparr> else s);
             (n, s) = gic_typer_nirq w s;
             s = gicd_write32 GICD_CTLR 0 (s\<lparr>gic_nirq := n\<rparr>) in
         obind (gic_wait_rwp w s) (\<lambda>s.
           let s = fold spi_reset (spis 32 n) s;
               s = fold (\<lambda>i. gicd_write32 (GICD_ICFGR (drop_bit 4 i)) 0) (spis 16 n) s;
               s = fold (\<lambda>i. gicd_write32 (GICD_IPRIORITYR (drop_bit 2 i)) 0x80808080) (spis 4 n) s in
           obind (gic_wait_rwp w s) (\<lambda>s.
             obind (gic_wait_rwp w (gicd_write32 GICD_CTLR (GICD_CTLR_ARE_NS OR GICD_CTLR_EN_GRP1NS OR GICD_CTLR_EN_GRP1A) s)) (\<lambda>s.
               let s = fold (spi_route w) (spis 1 n) s;
                   s = gic_irq_set_priority w (uart_irq pf) GIC_PRIO_DEFAULT s in
               tret (gic_irq_enable (uart_irq pf) s))))))"

partial_function (option) wake_wait :: "world \<Rightarrow> uintptr \<Rightarrow> 'a gic_scheme \<Rightarrow> 'a gic_scheme option" where
  "wake_wait w gicr s =
     (let (v, s1) = mmio_read32 w (gicr + GICR_WAKER_OFF) s in if v AND GICR_WAKER_CASLEEP \<noteq> 0 then wake_wait w gicr s1 else Some s1)"

definition gic_inithart :: "world \<Rightarrow> uint64 list \<Rightarrow> platform \<Rightarrow> 'a gic_scheme \<Rightarrow> 'a gic_scheme res option" where
  "gic_inithart w cpu_mpidr pf s =
     tbind (gicr_find w cpu_mpidr pf s) (\<lambda>(frame, s).
       let s = s\<lparr>gicr_frame := (gicr_frame s)(gi_cpu s := frame)\<rparr>;
           gicr = gicr_base_fn s;
           s = icc_write_sre 1 s;
           (ctlr, s) = icc_read_ctlr w s;
           s = icc_write_igrpen1 1 (icc_write_pmr 0xFF (icc_write_ctlr (ctlr OR ICC_CTLR_EOIMODE) s));
           s = mmio_clrbits32 w (gicr + GICR_WAKER_OFF) GICR_WAKER_PSLEEP s in
       obind (wake_wait w gicr s) (\<lambda>s.
         let s = mmio_write32 (gicr + GICR_IGROUPR0_OFF) (NOT 0) s;
             s = gic_irq_set_priority w (timer_irq pf) GIC_PRIO_DEFAULT s;
             s = gic_irq_set_priority w 0 GIC_PRIO_DEFAULT s in
         tret (gic_irq_enable 0 (gic_irq_enable (timer_irq pf) s))))"

section \<open>The traces of the accessors\<close>

lemma traced_gicd_read: "traced s (snd (gicd_read32 w off s)) []"
  using traced_read [of "Rd32 (gicd s + off)" s w] by (simp add: gicd_read32_def mmio_read32_def split_beta)

lemma traced_mmio_read64: "traced s (snd (mmio_read64 w a s)) []"
  using traced_read [of "Rd64 a" s w] by (simp add: mmio_read64_def)

lemma traced_read_cntfrq: "traced s (snd (read_cntfrq w s)) []"
  using traced_read [of "Mrs ''cntfrq_el0''" s w] by (simp add: read_cntfrq_def)

lemma traced_gicd_write: "traced s (gicd_write32 off v s) [Wr32 (gicd s + off) v]"
  unfolding gicd_write32_def mmio_write32_def by (rule traced_write) simp

lemma traced_gicd: "traced s s' P \<Longrightarrow> gicd s' = gicd (s :: 'a gic_scheme)"
  by (auto simp: traced_def)

lemma gicd_kept [simp]: "gicd (gicd_write32 off v s) = gicd s"
  by (rule traced_gicd [OF traced_gicd_write])

lemma traced_nirq: "traced s s' P \<Longrightarrow> gic_nirq s' = gic_nirq (s :: 'a gic_scheme)"
  by (auto simp: traced_def)

lemma traced_frame: "traced s s' P \<Longrightarrow> gicr_base_fn s' = gicr_base_fn (s :: 'a gic_scheme)"
  by (auto simp: traced_def gicr_base_fn_def)

interpretation rwp: wait_body w "rwp_busy w" "\<lambda>s s'. traced s s' []"
  by unfold_locales (auto simp: rwp_busy_def split_beta traced_gicd_read tick_traced intro: traced_trans traced_grows)

lemma traced_clrset: "\<exists>v. traced s (mmio_clrsetbits32 w a m val s) [Wr32 a ((v AND NOT m) OR (val AND m))]"
proof -
  have "traced s (mmio_clrsetbits32 w a m val s) ([] @ [Wr32 a ((fst (mmio_read32 w a s) AND NOT m) OR (val AND m))])"
    unfolding mmio_clrsetbits32_def split_beta Let_def mmio_write32_def
    using traced_read [of "Rd32 a" s w] by (intro traced_trans [OF _ traced_write refl]) (simp_all add: mmio_read32_def split_beta)
  then show ?thesis by auto
qed

lemma traced_clr: "\<exists>v. traced s (mmio_clrbits32 w a m s) [Wr32 a (v AND NOT m)]"
proof -
  have "traced s (mmio_clrbits32 w a m s) ([] @ [Wr32 a (fst (mmio_read32 w a s) AND NOT m)])"
    unfolding mmio_clrbits32_def split_beta Let_def mmio_write32_def
    using traced_read [of "Rd32 a" s w] by (intro traced_trans [OF _ traced_write refl]) (simp_all add: mmio_read32_def split_beta)
  then show ?thesis by auto
qed

text \<open>
  What the waits rely on: the counter frequency is constant, and where it is not zero the counter reaches the deadline. The code
  takes the frequency for the time of the call, so the deadline is the counter value at two seconds, whenever the wait begins.
\<close>

definition clock_runs :: "world \<Rightarrow> uint64 \<Rightarrow> nat \<Rightarrow> bool" where
  "clock_runs w f n \<longleftrightarrow> (\<forall>l. w l (Mrs ''cntfrq_el0'') = f) \<and> (f \<noteq> 0 \<longrightarrow> counter_reaches w (f + f) n)"

lemma wait_rwp_ends:
  assumes "clock_runs w f n"
  shows "\<exists>s'. gic_wait_rwp w s = Some s' \<and> traced s s' []"
proof -
  define s1 where "s1 = snd (read_cntfrq w s)"
  define s2 where "s2 = (if f \<noteq> 0 then snd (read_cntfrq w s1) else s1)"
  have t1: "traced s s2 []" by (simp add: s2_def s1_def traced_read_cntfrq traced_trans [OF traced_read_cntfrq traced_read_cntfrq])
  have fr: "read_cntfrq w s = (f, s1)" "read_cntfrq w s1 = (f, snd (read_cntfrq w s1))"
    using assms by (auto simp: clock_runs_def read_cntfrq_def io_read_def s1_def)
  have run: "gic_wait_rwp w s = timed_wait w (rwp_busy w) f (if f \<noteq> 0 then f + f else 0) GIC_RWP_SPINS s2"
    using fr by (cases "read_cntfrq w s1") (simp add: gic_wait_rwp_def s2_def)
  have "\<exists>s'. timed_wait w (rwp_busy w) f (if f \<noteq> 0 then f + f else 0) GIC_RWP_SPINS s2 = Some s' \<and> rwp.ended w s2 s'"
    using assms by (intro rwp.ends [where n = n]) (auto simp: clock_runs_def GIC_RWP_SPINS_def)
  then show ?thesis using run traced_trans [OF t1] by (auto simp: rwp.ended_def)
qed

section \<open>Register offsets\<close>

lemma off_word:
  fixes n c :: uint32
  assumes "unat n < 0x1000" "unat c < 0x10000"
  shows "(ucast (c + 4 * n) :: uint64) = of_nat (unat c + 4 * unat n)"
proof -
  have "unat (4 * n) = 4 * unat n" using assms(1) by (subst unat_mult_lem [THEN iffD1]) auto
  then have "unat (c + 4 * n) = unat c + 4 * unat n" using assms by (subst unat_add_lem [THEN iffD1]) auto
  then show ?thesis by (metis of_nat_unat)
qed

lemma off_word8:
  fixes n c :: uint32
  assumes "unat n < 0x1000" "unat c < 0x10000"
  shows "(ucast (c + 8 * n) :: uint64) = of_nat (unat c + 8 * unat n)"
proof -
  have "unat (8 * n) = 8 * unat n" using assms(1) by (subst unat_mult_lem [THEN iffD1]) auto
  then have "unat (c + 8 * n) = unat c + 8 * unat n" using assms by (subst unat_add_lem [THEN iffD1]) auto
  then show ?thesis by (metis of_nat_unat)
qed

lemma gicd_offsets:
  fixes n :: uint32
  assumes "unat n < 0x1000"
  shows "GICD_IGROUPR n = of_nat (0x80 + 4 * unat n)" "GICD_ISENABLER n = of_nat (0x100 + 4 * unat n)"
    "GICD_ICENABLER n = of_nat (0x180 + 4 * unat n)" "GICD_ICACTIVER n = of_nat (0x380 + 4 * unat n)"
    "GICD_IPRIORITYR n = of_nat (0x400 + 4 * unat n)" "GICD_ICFGR n = of_nat (0xC00 + 4 * unat n)"
    "GICD_IROUTER n = of_nat (0x6000 + 8 * unat n)"
  using off_word [OF assms, of "0x80"] off_word [OF assms, of "0x100"] off_word [OF assms, of "0x180"] off_word [OF assms, of "0x380"]
    off_word [OF assms, of "0x400"] off_word [OF assms, of "0xC00"] off_word8 [OF assms, of "0x6000"]
  by (simp_all add: kdefs)

lemma unat_off: "a < 0x10000 \<Longrightarrow> unat (of_nat a :: uint64) = a"
  by (rule unat_of_nat_small) simp

lemma off_eq: "a < 0x10000 \<Longrightarrow> b < 0x10000 \<Longrightarrow> (g + of_nat a = (g :: uint64) + of_nat b) = (a = b)"
  by (metis add_left_cancel unat_off)

text \<open>The steps of a loop over the interrupts and the registers it reaches, a register for \<open>c\<close> interrupts.\<close>

lemma spis_hit:
  assumes "c dvd 32" "0 < c"
  shows "filter (\<lambda>j. j div c = k) (filter (\<lambda>i. (i - 32) mod c = 0) [32..<n]) = (if 32 \<le> c * k \<and> c * k < n then [c * k] else [])"
proof -
  have one: "((i - 32) mod c = 0 \<and> i div c = k) = (i = c * k)" if "32 \<le> i" for i
  proof
    assume h: "(i - 32) mod c = 0 \<and> i div c = k"
    then have "c dvd (i - 32) + 32" using assms(1) by (intro dvd_add) auto
    then show "i = c * k" using that h by auto
  next
    assume "i = c * k"
    then show "(i - 32) mod c = 0 \<and> i div c = k" using assms by (simp add: dvd_diff_nat mod_0_imp_dvd)
  qed
  have "filter (\<lambda>j. j div c = k) (filter (\<lambda>i. (i - 32) mod c = 0) [32..<n]) = filter (\<lambda>i. i = c * k) [32..<n]"
    by (simp add: conj_commute) (rule filter_cong [OF refl], use one in \<open>auto simp: conj_commute\<close>)
  also have "\<dots> = (if 32 \<le> c * k \<and> c * k < n then [c * k] else [])"
    by (induction n) auto
  finally show ?thesis .
qed

text \<open>What one pass of each loop writes, at the offsets of the registers.\<close>

lemma drop_bit_of_nat32: "i < 0x10000 \<Longrightarrow> unat (drop_bit n (of_nat i :: uint32)) = i div 2 ^ n"
  by (simp add: unat_drop_bit_div unat_of_nat_small)

lemma traced_loop:
  assumes "\<And>i s. i < 0x1000 \<Longrightarrow> 32 \<le> i \<Longrightarrow> traced s (f (of_nat i) s) (h (gicd s) i)" "n \<le> 0x1000"
  shows "traced s (fold f (map of_nat (filter p [32..<n])) s) (concat (map (h (gicd s)) (filter p [32..<n])))"
proof -
  have "traced s (fold f (map of_nat xs) s) (concat (map (h (gicd s)) xs))" if "\<forall>i\<in>set xs. i < 0x1000 \<and> 32 \<le> i" for xs s
    using that
  proof (induction xs arbitrary: s)
    case (Cons x xs)
    have a: "traced s (f (of_nat x) s) (h (gicd s) x)" using assms(1) Cons.prems by simp
    show ?case using traced_trans [OF a Cons.IH] Cons.prems traced_gicd [OF a] by simp
  qed simp
  then show ?thesis using assms(2) by simp
qed

definition at_gicd :: "uintptr \<Rightarrow> nat \<Rightarrow> uint32 \<Rightarrow> io" where
  "at_gicd g off v = Wr32 (g + of_nat off) v"

lemma traced_reset:
  "i < 0x1000 \<Longrightarrow> traced s (spi_reset (of_nat i) s)
     [at_gicd (gicd s) (0x80 + 4 * (i div 32)) 0xFFFFFFFF, at_gicd (gicd s) (0x180 + 4 * (i div 32)) 0xFFFFFFFF,
      at_gicd (gicd s) (0x380 + 4 * (i div 32)) 0xFFFFFFFF]"
proof -
  assume i: "i < 0x1000"
  let ?k = "drop_bit 5 (of_nat i :: uint32)"
  have k: "unat ?k = i div 32" using drop_bit_of_nat32 [of i 5] i by simp
  then have "unat ?k < 0x1000" using i by simp
  note o = gicd_offsets [OF this, unfolded k]
  let ?a = "gicd_write32 (GICD_IGROUPR ?k) 0xFFFFFFFF s" and ?c = "GICD_ICENABLER ?k"
  let ?b = "gicd_write32 ?c 0xFFFFFFFF ?a"
  have "traced s (spi_reset (of_nat i) s)
    ([Wr32 (gicd s + GICD_IGROUPR ?k) 0xFFFFFFFF] @ [Wr32 (gicd ?a + ?c) 0xFFFFFFFF] @ [Wr32 (gicd ?b + GICD_ICACTIVER ?k) 0xFFFFFFFF])"
    unfolding spi_reset_def by (rule traced_trans [OF traced_gicd_write traced_trans [OF traced_gicd_write traced_gicd_write refl] refl])
  then show ?thesis by (simp add: o at_gicd_def)
qed

lemma traced_icfgr:
  "i < 0x1000 \<Longrightarrow> traced s (gicd_write32 (GICD_ICFGR (drop_bit 4 (of_nat i))) 0 s) [at_gicd (gicd s) (0xC00 + 4 * (i div 16)) 0]"
  using traced_gicd_write [of s "GICD_ICFGR (drop_bit 4 (of_nat i))" 0] drop_bit_of_nat32 [of i 4]
  by (simp add: gicd_offsets at_gicd_def)

lemma traced_ipriority:
  "i < 0x1000 \<Longrightarrow> traced s (gicd_write32 (GICD_IPRIORITYR (drop_bit 2 (of_nat i))) v s) [at_gicd (gicd s) (0x400 + 4 * (i div 4)) v]"
  using traced_gicd_write [of s "GICD_IPRIORITYR (drop_bit 2 (of_nat i))" v] drop_bit_of_nat32 [of i 2]
  by (simp add: gicd_offsets at_gicd_def)

text \<open>The CPU the code runs on: its affinity.\<close>

definition runs_on :: "world \<Rightarrow> uint64 \<Rightarrow> bool" where
  "runs_on w m \<longleftrightarrow> (\<forall>l. w l (Mrs ''mpidr_el1'') AND MPIDR_AFF_MASK = m)"

lemma traced_route:
  assumes "32 \<le> i" "i < 0x1000" "runs_on w m"
  shows "traced s (spi_route w (of_nat i) s) [Wr64 (gicd s + of_nat (0x6000 + 8 * i)) m]"
proof -
  have u: "unat (of_nat i :: uint32) = i" using assms(2) by (simp add: unat_of_nat_small)
  let ?s1 = "snd (read_mpidr w s)"
  have t: "traced s ?s1 []" using traced_read [of "Mrs ''mpidr_el1''" s w] by (simp add: read_mpidr_def split_beta)
  have f: "fst (read_mpidr w s) = m" using assms(3) by (simp add: read_mpidr_def io_read_def runs_on_def)
  have "\<not> (of_nat i :: uint32) < GIC_SPI_BASE" using assms(1) u by (simp add: word_less_nat_alt GIC_SPI_BASE_def)
  then have "spi_route w (of_nat i) s = io_write (Wr64 (gicd ?s1 + GICD_IROUTER (of_nat i)) m) ?s1"
    by (simp add: spi_route_def split_beta f gic_irq_set_affinity_def gicd_write64_def mmio_write64_def)
  moreover have "traced s (io_write (Wr64 (gicd ?s1 + GICD_IROUTER (of_nat i)) m) ?s1) [Wr64 (gicd ?s1 + GICD_IROUTER (of_nat i)) m]"
    by (rule traced_trans [OF t traced_write]) simp_all
  ultimately show ?thesis using traced_gicd [OF t] u assms(2) by (simp add: gicd_offsets)
qed

section \<open>The distributor is configured\<close>

text \<open>
  The values written to the registers of the loops: a register for \<open>c\<close> interrupts from \<open>32\<close> on is written once, and no other.
\<close>

lemma stores_concat1: "stores (concat (map (\<lambda>i. [f i]) xs)) a = stores (map f xs) a"
  by (simp add: stores_def)

lemma loop_hits:
  assumes "c dvd 32" "0 < c" "n \<le> 1020" "b + 4 * 1020 < 0x10000" "off < 0x10000"
  shows "stores (map (\<lambda>i. at_gicd g (b + 4 * (i div c)) v) (filter (\<lambda>i. (i - 32) mod c = 0) [32..<n])) (g + of_nat off)
     = (if \<exists>k. off = b + 4 * k \<and> 32 \<le> c * k \<and> c * k < n then [ucast v] else [])"
proof -
  let ?xs = "filter (\<lambda>i. (i - 32) mod c = 0) [32..<n]"
  have eq: "(g + of_nat (b + 4 * (i div c)) = g + of_nat off) = (b + 4 * (i div c) = off)" if "i \<in> set ?xs" for i
  proof (rule off_eq)
    have "i div c \<le> i" "i < 1020" using that assms(3) by auto
    then show "b + 4 * (i div c) < 0x10000" using assms(4) by linarith
  qed fact
  have "filter (\<lambda>i. g + of_nat (b + 4 * (i div c)) = g + of_nat off) ?xs = filter (\<lambda>i. b + 4 * (i div c) = off) ?xs"
    by (rule filter_cong [OF refl eq])
  also have "\<dots> = (if \<exists>k. off = b + 4 * k \<and> 32 \<le> c * k \<and> c * k < n then [c * ((off - b) div 4)] else [])"
  proof (cases "\<exists>k. off = b + 4 * k")
    case True
    then obtain k where k: "off = b + 4 * k" by blast
    have "filter (\<lambda>i. b + 4 * (i div c) = off) ?xs = filter (\<lambda>i. i div c = k) ?xs" by (rule filter_cong) (auto simp: k)
    then show ?thesis using spis_hit [OF assms(1,2), of k n] k by simp
  next
    case False
    then have "filter (\<lambda>i. b + 4 * (i div c) = off) ?xs = []" by (auto simp: filter_empty_conv)
    then show ?thesis using False by auto
  qed
  finally show ?thesis by (auto simp: at_gicd_def stores_map)
qed

lemma stores_three:
  assumes "\<And>i. i \<in> set xs \<Longrightarrow> stored_at a (f i) @ stored_at a (g i) @ stored_at a (h i) = stored_at a (e i)"
  shows "stores (concat (map (\<lambda>i. [f i, g i, h i]) xs)) a = stores (map e xs) a"
  using assms by (induction xs) (auto simp: append_assoc [symmetric] simp del: append_assoc)

lemma reset_hits:
  assumes "n \<le> 1020" "off < 0x10000"
  shows "stores (concat (map (\<lambda>i. [at_gicd g (0x80 + 4 * (i div 32)) v, at_gicd g (0x180 + 4 * (i div 32)) v, at_gicd g (0x380 + 4 * (i div 32)) v])
       (filter (\<lambda>i. (i - 32) mod 32 = 0) [32..<n]))) (g + of_nat off)
     = (if \<exists>k. (off = 0x80 + 4 * k \<or> off = 0x180 + 4 * k \<or> off = 0x380 + 4 * k) \<and> 32 \<le> 32 * k \<and> 32 * k < n then [ucast v] else [])"
    (is "stores (concat (map ?three ?xs)) ?a = _")
proof -
  define b :: nat where "b = (if off < 0x180 then 0x80 else if off < 0x380 then 0x180 else 0x380)"
  have small: "i div 32 < 32" "0 < i div 32" if "i \<in> set ?xs" for i using that assms(1) by auto
  have e: "stored_at ?a (at_gicd g (d + 4 * (i div 32)) v) = (if off = d + 4 * (i div 32) then [ucast v] else [])" if "i \<in> set ?xs" "d \<le> 0x380" for i d
    using off_eq [of "d + 4 * (i div 32)" off g] small [OF that(1)] that(2) assms(2) by (auto simp: at_gicd_def)
  have "stores (concat (map ?three ?xs)) ?a = stores (map (\<lambda>i. at_gicd g (b + 4 * (i div 32)) v) ?xs) ?a"
  proof (rule stores_three)
    fix i assume i: "i \<in> set ?xs"
    show "stored_at ?a (at_gicd g (0x80 + 4 * (i div 32)) v) @ stored_at ?a (at_gicd g (0x180 + 4 * (i div 32)) v)
        @ stored_at ?a (at_gicd g (0x380 + 4 * (i div 32)) v) = stored_at ?a (at_gicd g (b + 4 * (i div 32)) v)"
      using e [OF i, of 128] e [OF i, of 384] e [OF i, of 896] small [OF i] by (auto simp: b_def)
  qed
  also have "\<dots> = (if \<exists>k. off = b + 4 * k \<and> 32 \<le> 32 * k \<and> 32 * k < n then [ucast v] else [])"
    using assms by (intro loop_hits) (auto simp: b_def)
  also have "(\<exists>k. off = b + 4 * k \<and> 32 \<le> 32 * k \<and> 32 * k < n)
      = (\<exists>k. (off = 0x80 + 4 * k \<or> off = 0x180 + 4 * k \<or> off = 0x380 + 4 * k) \<and> 32 \<le> 32 * k \<and> 32 * k < n)"
    using assms(1) by (intro ex_cong1) (auto simp: b_def)
  finally show ?thesis .
qed

lemma route_hits:
  assumes "n \<le> 1020" "off < 0x10000"
  shows "stores (map (\<lambda>i. Wr64 (g + of_nat (0x6000 + 8 * i)) m) [32..<n]) (g + of_nat off)
     = (if \<exists>i. off = 0x6000 + 8 * i \<and> 32 \<le> i \<and> i < n then [m] else [])"
proof -
  have eq: "(g + of_nat (0x6000 + 8 * i) = g + of_nat off) = (0x6000 + 8 * i = off)" if "i \<in> set [32..<n]" for i
    using that assms by (intro off_eq) auto
  have "filter (\<lambda>i. g + of_nat (0x6000 + 8 * i) = g + of_nat off) [32..<n] = filter (\<lambda>i. 0x6000 + 8 * i = off) [32..<n]"
    by (rule filter_cong [OF refl eq])
  also have "\<dots> = (if \<exists>i. off = 0x6000 + 8 * i \<and> 32 \<le> i \<and> i < n then [(off - 0x6000) div 8] else [])"
    by (induction n) auto
  finally show ?thesis by (auto simp: stores_map64)
qed

text \<open>The writes of \<^verbatim>\<open>gic_init\<close>: the distributor is off while its interrupts are set up, and on when they are routed.\<close>

definition spi_config :: "uintptr \<Rightarrow> nat \<Rightarrow> io list" where
  "spi_config g n =
     concat (map (\<lambda>i. [at_gicd g (0x80 + 4 * (i div 32)) 0xFFFFFFFF, at_gicd g (0x180 + 4 * (i div 32)) 0xFFFFFFFF, at_gicd g (0x380 + 4 * (i div 32)) 0xFFFFFFFF])
       (filter (\<lambda>i. (i - 32) mod 32 = 0) [32..<n]))
     @ map (\<lambda>i. at_gicd g (0xC00 + 4 * (i div 16)) 0) (filter (\<lambda>i. (i - 32) mod 16 = 0) [32..<n])
     @ map (\<lambda>i. at_gicd g (0x400 + 4 * (i div 4)) 0x80808080) (filter (\<lambda>i. (i - 32) mod 4 = 0) [32..<n])"

lemma concat_singles: "concat (map (\<lambda>i. [f i]) xs) = map f xs" by (induction xs) auto

lemma config_traced:
  assumes "unat n \<le> 1020"
  shows "traced s (fold (\<lambda>i. gicd_write32 (GICD_IPRIORITYR (drop_bit 2 i)) 0x80808080) (spis 4 n)
      (fold (\<lambda>i. gicd_write32 (GICD_ICFGR (drop_bit 4 i)) 0) (spis 16 n) (fold spi_reset (spis 32 n) s))) (spi_config (gicd s) (unat n))"
proof -
  let ?a = "fold spi_reset (spis 32 n) s"
  let ?b = "fold (\<lambda>i. gicd_write32 (GICD_ICFGR (drop_bit 4 i)) 0) (spis 16 n) ?a"
  have n: "unat n \<le> 0x1000" using assms by simp
  have a: "traced s ?a (concat (map (\<lambda>i. [at_gicd (gicd s) (0x80 + 4 * (i div 32)) 0xFFFFFFFF,
      at_gicd (gicd s) (0x180 + 4 * (i div 32)) 0xFFFFFFFF, at_gicd (gicd s) (0x380 + 4 * (i div 32)) 0xFFFFFFFF]) (filter (\<lambda>i. (i - 32) mod 32 = 0) [32..<unat n])))"
    unfolding spis_def by (rule traced_loop [where h = "\<lambda>g i. [at_gicd g (0x80 + 4 * (i div 32)) 0xFFFFFFFF,
      at_gicd g (0x180 + 4 * (i div 32)) 0xFFFFFFFF, at_gicd g (0x380 + 4 * (i div 32)) 0xFFFFFFFF]", OF _ n]) (rule traced_reset)
  have b: "traced ?a ?b (concat (map (\<lambda>i. [at_gicd (gicd ?a) (0xC00 + 4 * (i div 16)) 0]) (filter (\<lambda>i. (i - 32) mod 16 = 0) [32..<unat n])))"
    unfolding spis_def by (rule traced_loop [where h = "\<lambda>g i. [at_gicd g (0xC00 + 4 * (i div 16)) 0]", OF _ n]) (rule traced_icfgr)
  have c: "traced ?b (fold (\<lambda>i. gicd_write32 (GICD_IPRIORITYR (drop_bit 2 i)) 0x80808080) (spis 4 n) ?b)
     (concat (map (\<lambda>i. [at_gicd (gicd ?b) (0x400 + 4 * (i div 4)) 0x80808080]) (filter (\<lambda>i. (i - 32) mod 4 = 0) [32..<unat n])))"
    unfolding spis_def by (rule traced_loop [where h = "\<lambda>g i. [at_gicd g (0x400 + 4 * (i div 4)) 0x80808080]", OF _ n]) (rule traced_ipriority)
  have g: "gicd ?a = gicd s" "gicd ?b = gicd s" using traced_gicd [OF a] traced_gicd [OF b] by auto
  show ?thesis
    by (rule traced_trans [OF a traced_trans [OF b c refl]]) (simp only: g spi_config_def concat_singles)
qed

lemma nirq_range:
  assumes "gic_typer_nirq w s = (n, s1)"
  shows "32 \<le> unat n \<and> unat n \<le> 1020 \<and> traced s s1 []"
proof -
  let ?v = "fst (gicd_read32 w GICD_TYPER s) AND GICD_TYPER_ITLINES_MASK"
  have m: "?v = ?v AND mask 5" by (simp add: GICD_TYPER_ITLINES_MASK_def mask_eq_exp_minus_1)
  have "unat ?v < 32" by (subst m) (simp add: unat_and_mask)
  then have "unat (32 * (?v + 1)) = 32 * (unat ?v + 1)"
    by (simp add: unat_word_ariths)
  then show ?thesis using assms traced_gicd_read [of s w GICD_TYPER]
    by (auto simp: gic_typer_nirq_def split_beta Let_def GICD_SPI_MAX_def word_less_nat_alt split: if_splits)
qed

text \<open>The same for a run that also assigns the variables of the driver.\<close>

definition logged :: "'a mmio_scheme \<Rightarrow> 'a mmio_scheme \<Rightarrow> io list \<Rightarrow> bool" where
  "logged s s' P \<longleftrightarrow> (\<exists>L. io_log s' = io_log s @ L \<and> filter is_write L = P)"

lemma traced_logged: "traced s s' P \<Longrightarrow> logged s s' P" by (auto simp: traced_def logged_def)

lemma logged_trans: "logged s t P \<Longrightarrow> logged t u Q \<Longrightarrow> R = P @ Q \<Longrightarrow> logged s u R" by (auto simp: logged_def)

lemma logged_same: "io_log s' = io_log s \<Longrightarrow> logged s s' []" by (auto simp: logged_def)

definition prio_field :: "uint32 \<Rightarrow> uint32 \<Rightarrow> uint8 \<Rightarrow> uint32" where
  "prio_field v intid prio =
     (let sh = unat ((intid mod 4) * 8) in (v AND NOT (push_bit sh 0xFF)) OR (push_bit sh (ucast prio) AND push_bit sh 0xFF))"

lemma traced_set_priority:
  assumes "32 \<le> unat intid" "unat intid < 1020"
  shows "\<exists>v. traced s (gic_irq_set_priority w intid prio s) [at_gicd (gicd s) (0x400 + 4 * (unat intid div 4)) (prio_field v intid prio)]"
proof -
  have "unat (intid div 4) = unat intid div 4" by (simp add: unat_div)
  then have o: "GICD_IPRIORITYR (intid div 4) = of_nat (0x400 + 4 * (unat intid div 4))" using assms(2) by (simp add: gicd_offsets)
  have ge: "GIC_SPI_BASE \<le> intid" using assms(1) by (simp add: word_le_nat_alt GIC_SPI_BASE_def)
  obtain v where "traced s (mmio_clrsetbits32 w (gicd s + GICD_IPRIORITYR (intid div 4)) (push_bit (unat ((intid mod 4) * 8)) 0xFF)
      (push_bit (unat ((intid mod 4) * 8)) (ucast prio)) s) [Wr32 (gicd s + GICD_IPRIORITYR (intid div 4))
        ((v AND NOT (push_bit (unat ((intid mod 4) * 8)) 0xFF)) OR (push_bit (unat ((intid mod 4) * 8)) (ucast prio) AND push_bit (unat ((intid mod 4) * 8)) 0xFF))]"
    using traced_clrset by blast
  then show ?thesis unfolding gic_irq_set_priority_def Let_def if_P [OF ge] at_gicd_def o [symmetric] prio_field_def by blast
qed

lemma traced_enable:
  assumes "32 \<le> unat intid" "unat intid < 1020"
  shows "traced s (gic_irq_enable intid s) [at_gicd (gicd s) (0x100 + 4 * (unat intid div 32)) (push_bit (unat (intid mod 32)) 1)]"
proof -
  have "unat (intid div 32) = unat intid div 32" by (simp add: unat_div)
  then have o: "GICD_ISENABLER (intid div 32) = of_nat (0x100 + 4 * (unat intid div 32))" using assms(2) by (simp add: gicd_offsets)
  have ge: "GIC_SPI_BASE \<le> intid" using assms(1) by (simp add: word_le_nat_alt GIC_SPI_BASE_def)
  show ?thesis unfolding gic_irq_enable_def if_P [OF ge] at_gicd_def o [symmetric] by (rule traced_gicd_write)
qed

definition gic_on :: uint32 where "gic_on = GICD_CTLR_ARE_NS OR GICD_CTLR_EN_GRP1NS OR GICD_CTLR_EN_GRP1A"

definition init_writes :: "uintptr \<Rightarrow> nat \<Rightarrow> uint64 \<Rightarrow> uint32 \<Rightarrow> uint32 \<Rightarrow> io list" where
  "init_writes g n m u p =
     [at_gicd g 0 0] @ spi_config g n @ [at_gicd g 0 gic_on] @ map (\<lambda>i. Wr64 (g + of_nat (0x6000 + 8 * i)) m) [32..<n]
     @ [at_gicd g (0x400 + 4 * (unat u div 4)) p, at_gicd g (0x100 + 4 * (unat u div 32)) (push_bit (unat (u mod 32)) 1)]"

lemma at_ctlr: "at_gicd g 0 v = Wr32 (g + GICD_CTLR) v" by (simp add: at_gicd_def GICD_CTLR_def)

text \<open>The second half: from the disabled distributor on. The states after the waits are \<open>s2\<close> and \<open>s4\<close>.\<close>

lemma init_tail:
  assumes "unat n \<le> 1020" "runs_on w m" "32 \<le> unat u" "unat u < 1020"
    and w2: "traced (fold (\<lambda>i. gicd_write32 (GICD_IPRIORITYR (drop_bit 2 i)) 0x80808080) (spis 4 n)
      (fold (\<lambda>i. gicd_write32 (GICD_ICFGR (drop_bit 4 i)) 0) (spis 16 n) (fold spi_reset (spis 32 n) s))) s2 []" and w4: "traced (gicd_write32 GICD_CTLR gic_on s2) s4 []"
  shows "\<exists>v. traced s (gic_irq_enable u (gic_irq_set_priority w u prio (fold (spi_route w) (spis 1 n) s4)))
     (tl (init_writes (gicd s) (unat n) m u (prio_field v u prio)))"
proof -
  let ?g = "gicd s"
  let ?s5 = "fold (spi_route w) (spis 1 n) s4"
  let ?s6 = "gic_irq_set_priority w u prio ?s5"
  have t2: "traced s s2 (spi_config ?g (unat n))" by (rule traced_trans [OF config_traced [OF assms(1)] w2]) simp
  have t4: "traced s2 s4 [at_gicd ?g 0 gic_on]"
    using traced_trans [OF traced_gicd_write w4 refl] traced_gicd [OF t2] by (simp add: at_ctlr)
  have g4: "gicd s4 = ?g" using traced_gicd [OF t4] traced_gicd [OF t2] by simp
  have "traced s4 ?s5 (concat (map (\<lambda>i. [Wr64 (gicd s4 + of_nat (0x6000 + 8 * i)) m]) (filter (\<lambda>i. (i - 32) mod 1 = 0) [32..<unat n])))"
    unfolding spis_def
    by (rule traced_loop [where h = "\<lambda>g i. [Wr64 (g + of_nat (0x6000 + 8 * i)) m]"]) (use traced_route [OF _ _ assms(2)] assms(1) in auto)
  then have t5: "traced s4 ?s5 (map (\<lambda>i. Wr64 (?g + of_nat (0x6000 + 8 * i)) m) [32..<unat n])"
    unfolding g4 concat_singles by simp
  have g5: "gicd ?s5 = ?g" using traced_gicd [OF t5] g4 by simp
  obtain v where t6: "traced ?s5 ?s6 [at_gicd ?g (0x400 + 4 * (unat u div 4)) (prio_field v u prio)]"
    using traced_set_priority [OF assms(3,4), of ?s5 w prio] unfolding g5 by blast
  have g6: "gicd ?s6 = ?g" using traced_gicd [OF t6] g5 by simp
  note t7 = traced_enable [OF assms(3,4), of ?s6, unfolded g6]
  show ?thesis
    by (rule exI [of _ v], rule traced_trans [OF t2 traced_trans [OF t4 traced_trans [OF t5 traced_trans [OF t6 t7 refl] refl] refl]])
      (simp add: init_writes_def)
qed

text \<open>The first half: the variables of the driver and the distributor switched off.\<close>

lemma init_head:
  assumes "gicd_read32 w GICD_PIDR2 (s\<lparr>gicd := g\<rparr>) = (p2, s1)" "mmio_read64 w a s1 = (ty, s2)"
    and nirq: "gic_typer_nirq w (if b then s2\<lparr>gicr_stride := st\<rparr> else s2) = (n, s4)"
    and w: "traced (gicd_write32 GICD_CTLR 0 (s4\<lparr>gic_nirq := n\<rparr>)) s6 []"
  shows "gicd s6 = g \<and> gic_nirq s6 = n \<and> logged s s6 [at_gicd g 0 0]"
proof -
  let ?s0 = "s\<lparr>gicd := g\<rparr>" and ?s3 = "if b then s2\<lparr>gicr_stride := st\<rparr> else s2" and ?s5 = "s4\<lparr>gic_nirq := n\<rparr>"
  have t1: "traced ?s0 s1 []" using traced_gicd_read [of ?s0 w GICD_PIDR2] assms(1) by simp
  have t2: "traced s1 s2 []" using traced_mmio_read64 [of s1 w a] assms(2) by simp
  have t4: "traced ?s3 s4 []" using nirq_range [OF nirq] by blast
  have t6: "traced ?s5 s6 [at_gicd (gicd ?s5) 0 0]" using traced_trans [OF traced_gicd_write w refl] by (simp add: at_ctlr)
  have g: "gicd ?s5 = g" using traced_gicd [OF t1] traced_gicd [OF t2] traced_gicd [OF t4] by (simp split: if_splits)
  have "logged s ?s5 []"
    using traced_logged [OF t1] traced_logged [OF t2] traced_logged [OF t4] by (auto simp: logged_def split: if_splits)
  then show ?thesis using logged_trans [OF _ traced_logged [OF t6] refl, of s "[]"] traced_gicd [OF t6] traced_nirq [OF t6] g by simp
qed

lemma gic_init_trace:
  assumes clk: "clock_runs w f c"
    and v3: "3 \<le> drop_bit 4 (ucast (w (io_log s) (Rd32 (PA_TO_KVA (gicd_base pf) + GICD_PIDR2))) :: uint32) AND 0xF"
    and m: "runs_on w m" and u: "32 \<le> unat (uart_irq pf)" "unat (uart_irq pf) < 1020"
  shows "\<exists>s' n v. gic_init w pf s = Some (Inr s') \<and> gicd s' = PA_TO_KVA (gicd_base pf) \<and> gic_nirq s' = n \<and> 32 \<le> unat n \<and> unat n \<le> 1020
     \<and> logged s s' (init_writes (PA_TO_KVA (gicd_base pf)) (unat n) m (uart_irq pf) (prio_field v (uart_irq pf) GIC_PRIO_DEFAULT))"
proof -
  let ?g = "PA_TO_KVA (gicd_base pf)" and ?u = "uart_irq pf"
  obtain p2 s1 where 1: "gicd_read32 w GICD_PIDR2 (s\<lparr>gicd := ?g\<rparr>) = (p2, s1)" by fastforce
  obtain ty s2 where 2: "mmio_read64 w (PA_TO_KVA (gicr_base pf) + GICR_TYPER_OFF) s1 = (ty, s2)" by fastforce
  obtain n s4 where 4: "gic_typer_nirq w (if ty AND GICR_TYPER_VLPIS \<noteq> 0 then s2\<lparr>gicr_stride := GICR_FRAME_SIZE_VLPI\<rparr> else s2) = (n, s4)" by fastforce
  obtain s6 where 6: "gic_wait_rwp w (gicd_write32 GICD_CTLR 0 (s4\<lparr>gic_nirq := n\<rparr>)) = Some s6"
    "traced (gicd_write32 GICD_CTLR 0 (s4\<lparr>gic_nirq := n\<rparr>)) s6 []" using wait_rwp_ends [OF clk] by blast
  let ?s7 = "fold (\<lambda>i. gicd_write32 (GICD_IPRIORITYR (drop_bit 2 i)) 0x80808080) (spis 4 n)
      (fold (\<lambda>i. gicd_write32 (GICD_ICFGR (drop_bit 4 i)) 0) (spis 16 n) (fold spi_reset (spis 32 n) s6))"
  obtain s8 where 8: "gic_wait_rwp w ?s7 = Some s8" "traced ?s7 s8 []" using wait_rwp_ends [OF clk] by blast
  obtain s10 where 10: "gic_wait_rwp w (gicd_write32 GICD_CTLR gic_on s8) = Some s10" "traced (gicd_write32 GICD_CTLR gic_on s8) s10 []"
    using wait_rwp_ends [OF clk] by blast
  let ?s' = "gic_irq_enable ?u (gic_irq_set_priority w ?u GIC_PRIO_DEFAULT (fold (spi_route w) (spis 1 n) s10))"
  have rev: "\<not> drop_bit GICD_PIDR2_ARCHREV_SHIFT p2 AND GICD_PIDR2_ARCHREV_MASK < 3"
    using 1 v3 by (auto simp: gicd_read32_def mmio_read32_def io_read_def kdefs)
  have run: "gic_init w pf s = Some (Inr ?s')"
    unfolding gic_init_def Let_def 1 2 4 prod.case if_not_P [OF rev] obind_def 6 8 10 [unfolded gic_on_def] option.case tret_def ..
  note n = nirq_range [OF 4] and h = init_head [OF 1 2 4 6(2)]
  obtain v where t: "traced s6 ?s' (tl (init_writes ?g (unat n) m ?u (prio_field v ?u GIC_PRIO_DEFAULT)))"
    using init_tail [OF _ m u 8(2) 10(2)] n h by metis
  have "logged s ?s' (init_writes ?g (unat n) m ?u (prio_field v ?u GIC_PRIO_DEFAULT))"
    using h by (intro logged_trans [OF _ traced_logged [OF t]]) (auto simp: init_writes_def)
  then show ?thesis using run n h traced_gicd [OF t] traced_nirq [OF t] by auto
qed

text \<open>The values stored at each offset of the distributor.\<close>

lemma init_stores:
  assumes "n \<le> 1020" "unat u < 1020" "off < 0x10000"
  shows "stores (init_writes g n m u p) (g + of_nat off) =
     (if off = 0 then [0] else [])
     @ (if \<exists>k. (off = 0x80 + 4 * k \<or> off = 0x180 + 4 * k \<or> off = 0x380 + 4 * k) \<and> 32 \<le> 32 * k \<and> 32 * k < n then [0xFFFFFFFF] else [])
     @ (if \<exists>k. off = 0xC00 + 4 * k \<and> 32 \<le> 16 * k \<and> 16 * k < n then [0] else [])
     @ (if \<exists>k. off = 0x400 + 4 * k \<and> 32 \<le> 4 * k \<and> 4 * k < n then [0x80808080] else [])
     @ (if off = 0 then [ucast gic_on] else [])
     @ (if \<exists>i. off = 0x6000 + 8 * i \<and> 32 \<le> i \<and> i < n then [m] else [])
     @ (if off = 0x400 + 4 * (unat u div 4) then [ucast p] else [])
     @ (if off = 0x100 + 4 * (unat u div 32) then [push_bit (unat (u mod 32)) 1] else [])"
proof -
  have one: "stores [at_gicd g b v] (g + of_nat off) = (if off = b then [ucast v] else [])" if "b < 0x10000" for b v
    using off_eq [OF that assms(3), of g] by (auto simp: at_gicd_def)
  have 0: "stores [at_gicd g 0 v] (g + of_nat off) = (if off = 0 then [ucast v] else [])" for v by (rule one) simp
  have p: "stores [at_gicd g (0x400 + 4 * (unat u div 4)) p] (g + of_nat off) = (if off = 0x400 + 4 * (unat u div 4) then [ucast p] else [])"
    using assms(2) by (intro one) simp
  have "unat (u mod 32) < 32" by (simp add: unat_mod)
  then have "(ucast (push_bit (unat (u mod 32)) 1 :: uint32) :: uint64) = push_bit (unat (u mod 32)) 1"
    by (intro bit_word_eqI) (auto simp: bit_simps)
  then have e: "stores [at_gicd g (0x100 + 4 * (unat u div 32)) (push_bit (unat (u mod 32)) 1)] (g + of_nat off)
      = (if off = 0x100 + 4 * (unat u div 32) then [push_bit (unat (u mod 32)) 1] else [])"
    using assms(2) one [of "0x100 + 4 * (unat u div 32)" "push_bit (unat (u mod 32)) 1"] by simp
  have c: "(ucast (0 :: uint32) :: uint64) = 0" "(ucast (0xFFFFFFFF :: uint32) :: uint64) = 0xFFFFFFFF"
    "(ucast (0x80808080 :: uint32) :: uint64) = 0x80808080" by simp_all
  have pe: "stores [x, y] a = stores [x] a @ stores [y] a" for x y a by simp
  have l16: "stores (map (\<lambda>i. at_gicd g (0xC00 + 4 * (i div 16)) 0) (filter (\<lambda>i. (i - 32) mod 16 = 0) [32..<n])) (g + of_nat off)
      = (if \<exists>k. off = 0xC00 + 4 * k \<and> 32 \<le> 16 * k \<and> 16 * k < n then [ucast (0 :: uint32)] else [])"
    using assms by (intro loop_hits) auto
  have l4: "stores (map (\<lambda>i. at_gicd g (0x400 + 4 * (i div 4)) 0x80808080) (filter (\<lambda>i. (i - 32) mod 4 = 0) [32..<n])) (g + of_nat off)
      = (if \<exists>k. off = 0x400 + 4 * k \<and> 32 \<le> 4 * k \<and> 4 * k < n then [ucast (0x80808080 :: uint32)] else [])"
    using assms by (intro loop_hits) auto
  have "stores (init_writes g n m u p) (g + of_nat off) =
      stores [at_gicd g 0 0] (g + of_nat off)
      @ stores (concat (map (\<lambda>i. [at_gicd g (0x80 + 4 * (i div 32)) 0xFFFFFFFF, at_gicd g (0x180 + 4 * (i div 32)) 0xFFFFFFFF, at_gicd g (0x380 + 4 * (i div 32)) 0xFFFFFFFF])
       (filter (\<lambda>i. (i - 32) mod 32 = 0) [32..<n]))) (g + of_nat off)
      @ stores (map (\<lambda>i. at_gicd g (0xC00 + 4 * (i div 16)) 0) (filter (\<lambda>i. (i - 32) mod 16 = 0) [32..<n])) (g + of_nat off)
      @ stores (map (\<lambda>i. at_gicd g (0x400 + 4 * (i div 4)) 0x80808080) (filter (\<lambda>i. (i - 32) mod 4 = 0) [32..<n])) (g + of_nat off)
      @ stores [at_gicd g 0 gic_on] (g + of_nat off) @ stores (map (\<lambda>i. Wr64 (g + of_nat (0x6000 + 8 * i)) m) [32..<n]) (g + of_nat off)
      @ stores [at_gicd g (0x400 + 4 * (unat u div 4)) p] (g + of_nat off)
      @ stores [at_gicd g (0x100 + 4 * (unat u div 32)) (push_bit (unat (u mod 32)) 1)] (g + of_nat off)"
    unfolding init_writes_def spi_config_def stores_append pe append_assoc ..
  then show ?thesis
    unfolding 0 p e reset_hits [OF assms(1,3)] route_hits [OF assms(1,3)] l16 l4 c .
qed

text \<open>A write inside the 64 KB of the distributor.\<close>

fun in_gicd :: "uintptr \<Rightarrow> io \<Rightarrow> bool" where
  "in_gicd g (Wr32 a v) \<longleftrightarrow> a - g \<le> 0x10000 - 4"
| "in_gicd g (Wr64 a v) \<longleftrightarrow> a - g \<le> 0x10000 - 8"
| "in_gicd g x \<longleftrightarrow> False"

lemma at_gicd_in: "b + 4 \<le> 0x10000 \<Longrightarrow> in_gicd g (at_gicd g b v)"
  using unat_off [of b] by (simp add: at_gicd_def word_le_nat_alt)

lemma init_writes_in:
  assumes "n \<le> 1020" "unat u < 1020" "x \<in> set (init_writes g n m u p)"
  shows "in_gicd g x"
proof -
  have r: "in_gicd g (Wr64 (g + of_nat (0x6000 + 8 * i)) m)" if "i < 1020" for i
    using unat_off [of "0x6000 + 8 * i"] that by (simp add: word_le_nat_alt)
  have d: "i div c < 1020" if "i < 1020" for i c :: nat using that div_le_dividend [of i c] by linarith
  have c: "in_gicd g x" if "x \<in> set (spi_config g n)"
    using that assms(1) by (auto simp: spi_config_def intro!: at_gicd_in)
  show ?thesis using assms c by (auto simp: init_writes_def simp del: of_nat_add of_nat_mult in_gicd.simps intro!: at_gicd_in r)
qed

lemma prio_field_read:
  "drop_bit (unat ((u mod 4) * 8)) (ucast (prio_field v u prio) :: uint64) AND 0xFF = ucast prio"
proof -
  have "unat (u mod 4) < 4" by (simp add: unat_mod)
  then have "unat ((u mod 4) * 8) \<le> 24" by (simp add: unat_word_ariths)
  then have sh: "k < 8 \<Longrightarrow> unat ((u mod 4) * 8) + k < 32" for k by simp
  have m: "0xFF = (mask 8 :: uint64)" "0xFF = (mask 8 :: uint32)" by (simp_all add: mask_eq_exp_minus_1)
  have "bit prio k \<Longrightarrow> k < 8" for k using bit_imp_le_length [of prio k] by simp
  then show ?thesis unfolding prio_field_def Let_def m using sh
    by (intro bit_word_eqI) (force simp: bit_simps)
qed

text \<open>
  Interrupt \<open>i\<close> is set up: non-secure group, disabled, not active, level-triggered, default priority (that of the word of the serial
  port's interrupt \<open>u\<close> apart) and routed to the CPU with affinity \<open>m\<close>, each by one write.
\<close>

definition spi_ready :: "io list \<Rightarrow> uintptr \<Rightarrow> uint64 \<Rightarrow> uint32 \<Rightarrow> uint32 \<Rightarrow> bool" where
  "spi_ready L g m u i \<longleftrightarrow>
     stores L (g + GICD_IGROUPR (i div 32)) = [0xFFFFFFFF] \<and> stores L (g + GICD_ICENABLER (i div 32)) = [0xFFFFFFFF]
     \<and> stores L (g + GICD_ICACTIVER (i div 32)) = [0xFFFFFFFF] \<and> stores L (g + GICD_ICFGR (i div 16)) = [0]
     \<and> (i div 4 \<noteq> u div 4 \<longrightarrow> stores L (g + GICD_IPRIORITYR (i div 4)) = [0x80808080]) \<and> stores L (g + GICD_IROUTER i) = [m]"

lemma init_regs:
  assumes "n \<le> 1020" "unat u < 1020"
  shows "0 < k \<Longrightarrow> 32 * k < n \<Longrightarrow> stores (init_writes g n m u p) (g + of_nat (0x80 + 4 * k)) = [0xFFFFFFFF]"
    "0 < k \<Longrightarrow> 32 * k < n \<Longrightarrow> stores (init_writes g n m u p) (g + of_nat (0x180 + 4 * k)) = [0xFFFFFFFF]"
    "0 < k \<Longrightarrow> 32 * k < n \<Longrightarrow> stores (init_writes g n m u p) (g + of_nat (0x380 + 4 * k)) = [0xFFFFFFFF]"
    "2 \<le> k \<Longrightarrow> 16 * k < n \<Longrightarrow> stores (init_writes g n m u p) (g + of_nat (0xC00 + 4 * k)) = [0]"
    "8 \<le> k \<Longrightarrow> 4 * k < n \<Longrightarrow> unat u div 4 \<noteq> k \<Longrightarrow> stores (init_writes g n m u p) (g + of_nat (0x400 + 4 * k)) = [0x80808080]"
    "32 \<le> k \<Longrightarrow> k < n \<Longrightarrow> stores (init_writes g n m u p) (g + of_nat (0x6000 + 8 * k)) = [m]"
    "k < 32 \<Longrightarrow> stores (init_writes g n m u p) (g + of_nat (0x100 + 4 * k)) = (if unat u div 32 = k then [push_bit (unat (u mod 32)) 1] else [])"
    "stores (init_writes g n m u p) (g + of_nat 0) = [0, ucast gic_on]"
    "\<exists>xs. stores (init_writes g n m u p) (g + of_nat (0x400 + 4 * (unat u div 4))) = xs @ [ucast p]"
proof -
  have b: "unat u div 4 < 256" "unat u div 32 < 32" using assms(2) by simp_all
  note st = init_stores [OF assms]
  show "0 < k \<Longrightarrow> 32 * k < n \<Longrightarrow> stores (init_writes g n m u p) (g + of_nat (0x80 + 4 * k)) = [0xFFFFFFFF]"
    using b assms(1) by (subst st) auto
  show "0 < k \<Longrightarrow> 32 * k < n \<Longrightarrow> stores (init_writes g n m u p) (g + of_nat (0x180 + 4 * k)) = [0xFFFFFFFF]"
    using b assms(1) by (subst st) (auto intro!: exI [of _ k])
  show "0 < k \<Longrightarrow> 32 * k < n \<Longrightarrow> stores (init_writes g n m u p) (g + of_nat (0x380 + 4 * k)) = [0xFFFFFFFF]"
    using b assms(1) by (subst st) (auto intro!: exI [of _ k])
  show "2 \<le> k \<Longrightarrow> 16 * k < n \<Longrightarrow> stores (init_writes g n m u p) (g + of_nat (0xC00 + 4 * k)) = [0]"
    using b assms(1) by (subst st) auto
  show "8 \<le> k \<Longrightarrow> 4 * k < n \<Longrightarrow> unat u div 4 \<noteq> k \<Longrightarrow> stores (init_writes g n m u p) (g + of_nat (0x400 + 4 * k)) = [0x80808080]"
    using b assms(1) by (subst st) auto
  show "32 \<le> k \<Longrightarrow> k < n \<Longrightarrow> stores (init_writes g n m u p) (g + of_nat (0x6000 + 8 * k)) = [m]"
    using b assms(1) by (subst st) auto
  show "k < 32 \<Longrightarrow> stores (init_writes g n m u p) (g + of_nat (0x100 + 4 * k)) = (if unat u div 32 = k then [push_bit (unat (u mod 32)) 1] else [])"
    using b assms(1) by (subst st) auto
  show "stores (init_writes g n m u p) (g + of_nat 0) = [0, ucast gic_on]"
    by (subst st) auto
  show "\<exists>xs. stores (init_writes g n m u p) (g + of_nat (0x400 + 4 * (unat u div 4))) = xs @ [ucast p]"
    using b by (subst st) auto
qed

lemma init_spi_ready:
  assumes "n \<le> 1020" "unat u < 1020" "32 \<le> unat i" "unat i < n"
  shows "spi_ready (init_writes g n m u p) g m u i"
proof -
  have d: "unat (i div 32) = unat i div 32" "unat (i div 16) = unat i div 16" "unat (i div 4) = unat i div 4" "unat (u div 4) = unat u div 4"
    by (simp_all add: unat_div)
  have ne: "i div 4 \<noteq> u div 4 \<Longrightarrow> unat u div 4 \<noteq> unat i div 4" using d by (metis word_unat_eq_iff)
  have b: "unat i div 32 < 0x1000" "unat i div 16 < 0x1000" "unat i div 4 < 0x1000" "unat i < 0x1000" using assms by linarith+
  have k: "0 < unat i div 32" "2 \<le> unat i div 16" "8 \<le> unat i div 4" using assms(3) by linarith+
  have l: "32 * (unat i div 32) < n" "16 * (unat i div 16) < n" "4 * (unat i div 4) < n"
    using assms(4) times_div_less_eq_dividend [of _ "unat i"] le_less_trans by blast+
  note r = init_regs [OF assms(1,2)]
  show ?thesis
    unfolding spi_ready_def using r(1-3) [OF k(1) l(1)] r(4) [OF k(2) l(2)] r(5) [OF k(3) l(3) ne] r(6) [OF assms(3,4)] b
    by (simp add: gicd_offsets d)
qed

text \<open>C13: On a GICv3 distributor \<^verbatim>\<open>gic_init\<close> returns, whether or not the controller ever reports its writes as done, and has configured
  every shared interrupt. Every write stays inside the distributor's 64 KB; the distributor is switched off once and then
  on; each interrupt from 32 up to the number the controller reports, which is between 32 and 1020, is put in the non-secure group, disabled, deactivated,
  made level-triggered and routed to the CPU that boots, each by exactly one write; the serial port's interrupt is the only one that
  is enabled, with priority 0xA0 in its byte.
\<close>

theorem gic_init_configures:
  assumes "clock_runs w f c" "runs_on w m" "32 \<le> uart_irq pf" "uart_irq pf < 1020"
    "3 \<le> drop_bit 4 (ucast (w (io_log s) (Rd32 (PA_TO_KVA (gicd_base pf) + GICD_PIDR2))) :: uint32) AND 0xF"
  shows "\<exists>s' L. gic_init w pf s = Some (Inr s') \<and> io_log s' = io_log s @ L
     \<and> (let g = PA_TO_KVA (gicd_base pf); u = uart_irq pf in
        gicd s' = g \<and> 32 \<le> gic_nirq s' \<and> gic_nirq s' \<le> 1020 \<and> list_all (in_gicd g) (filter is_write L)
        \<and> stores L (g + GICD_CTLR) = [0, ucast (GICD_CTLR_ARE_NS OR GICD_CTLR_EN_GRP1NS OR GICD_CTLR_EN_GRP1A)]
        \<and> (\<forall>i. 32 \<le> i \<and> i < gic_nirq s' \<longrightarrow> spi_ready L g m u i)
        \<and> (\<forall>k. k < 32 \<longrightarrow> stores L (g + GICD_ISENABLER k) = (if k = u div 32 then [push_bit (unat (u mod 32)) 1] else []))
        \<and> drop_bit (unat ((u mod 4) * 8)) (last (stores L (g + GICD_IPRIORITYR (u div 4)))) AND 0xFF = 0xA0)"
proof -
  let ?g = "PA_TO_KVA (gicd_base pf)" and ?u = "uart_irq pf"
  have u: "32 \<le> unat ?u" "unat ?u < 1020" using assms(3,4) by (simp_all add: word_le_nat_alt word_less_nat_alt)
  obtain s' n v where r: "gic_init w pf s = Some (Inr s')" "gicd s' = ?g" "gic_nirq s' = n" "32 \<le> unat n" "unat n \<le> 1020"
    and lg: "logged s s' (init_writes ?g (unat n) m ?u (prio_field v ?u GIC_PRIO_DEFAULT))"
    using gic_init_trace [OF assms(1,5,2) u] by blast
  then obtain L where L: "io_log s' = io_log s @ L" "filter is_write L = init_writes ?g (unat n) m ?u (prio_field v ?u GIC_PRIO_DEFAULT)"
    by (auto simp: logged_def)
  have st: "stores L = stores (init_writes ?g (unat n) m ?u (prio_field v ?u GIC_PRIO_DEFAULT))"
    using stores_writes [of L] unfolding L(2) by auto
  note regs = init_regs [OF r(5) u(2)]
  have d: "unat (?u div 4) = unat ?u div 4" "unat (?u div 32) = unat ?u div 32" by (simp_all add: unat_div)
  have bnd: "unat ?u div 4 < 0x1000" using u by linarith
  have "list_all (in_gicd ?g) (filter is_write L)" using init_writes_in [OF r(5) u(2)] by (auto simp: list_all_iff L(2))
  moreover have "stores L (?g + GICD_CTLR) = [0, ucast gic_on]" using regs(8) by (simp add: st GICD_CTLR_def)
  moreover have "spi_ready L ?g m ?u i" if "32 \<le> i" "i < n" for i
    using init_spi_ready [OF r(5) u(2), of i] that by (simp add: spi_ready_def st word_le_nat_alt word_less_nat_alt)
  moreover have "stores L (?g + GICD_ISENABLER k) = (if k = ?u div 32 then [push_bit (unat (?u mod 32)) 1] else [])" if "k < 32" for k
  proof -
    have k: "unat k < 32" using that by (simp add: word_less_nat_alt)
    have "(k = ?u div 32) = (unat ?u div 32 = unat k)" using d by (metis word_unat_eq_iff)
    then show ?thesis using regs(7) [OF k] k by (simp add: st gicd_offsets)
  qed
  moreover have "drop_bit (unat ((?u mod 4) * 8)) (last (stores L (?g + GICD_IPRIORITYR (?u div 4)))) AND 0xFF = 0xA0"
  proof -
    obtain xs where "stores L (?g + GICD_IPRIORITYR (?u div 4)) = xs @ [ucast (prio_field v ?u GIC_PRIO_DEFAULT)]"
      using regs(9) [of ?g m "prio_field v ?u GIC_PRIO_DEFAULT"] bnd by (auto simp: st gicd_offsets d)
    then show ?thesis using prio_field_read [of ?u v GIC_PRIO_DEFAULT] by (simp add: GIC_PRIO_DEFAULT_def)
  qed
  ultimately show ?thesis using r L by (auto simp: Let_def word_le_nat_alt gic_on_def)
qed

section \<open>Finding the redistributor of a CPU\<close>

text \<open>
  The redistributor frames from \<open>base\<close> on, \<open>stride\<close> apart: \<open>ty k\<close> is the type register of frame \<open>k\<close>, and frame \<open>lst\<close> is the first one
  that says it is the last.
\<close>

definition frames_at :: "world \<Rightarrow> uintptr \<Rightarrow> uint64 \<Rightarrow> (nat \<Rightarrow> uint64) \<Rightarrow> nat \<Rightarrow> bool" where
  "frames_at w base stride ty lst \<longleftrightarrow>
     (\<forall>l. \<forall>k\<le>lst. w l (Rd64 (base + of_nat k * stride + GICR_TYPER_OFF)) = ty k)
     \<and> (\<forall>k<lst. ty k AND GICR_TYPER_LAST = 0) \<and> ty lst AND GICR_TYPER_LAST \<noteq> 0"

definition frame_aff :: "uint64 \<Rightarrow> uint64" where "frame_aff typer = drop_bit 32 typer AND 0xffffffff"

definition found :: "uintptr \<Rightarrow> uint64 \<Rightarrow> (nat \<Rightarrow> uint64) \<Rightarrow> nat \<Rightarrow> uint64 \<Rightarrow> 'a gic_scheme \<Rightarrow> (uintptr \<times> 'a gic_scheme) res \<Rightarrow> bool" where
  "found base stride ty lst target s r \<longleftrightarrow>
     (case r of Inl e \<Rightarrow> e = Panic ''gic: no redistributor frame for this CPU'' \<and> (\<forall>j\<le>lst. frame_aff (ty j) \<noteq> target)
      | Inr (frame, s') \<Rightarrow> traced s s' [] \<and> (\<exists>j\<le>lst. frame = base + of_nat j * stride \<and> frame_aff (ty j) = target \<and> (\<forall>i<j. frame_aff (ty i) \<noteq> target)))"

lemma found_later: "traced s s1 [] \<Longrightarrow> found base stride ty lst target s1 r \<Longrightarrow> found base stride ty lst target s r"
  by (auto simp: found_def split: sum.splits intro: traced_trans)

lemma find_loop_ok:
  assumes "frames_at w base (gicr_stride s) ty lst" "k \<le> lst" "\<forall>j<k. frame_aff (ty j) \<noteq> target"
  shows "\<exists>r. gicr_find_loop w target (base + of_nat k * gicr_stride s) s = Some r \<and> found base (gicr_stride s) ty lst target s r"
  using assms
proof (induction "lst - k" arbitrary: k s rule: less_induct)
  case less
  let ?f = "base + of_nat k * gicr_stride s"
  let ?s1 = "s\<lparr>io_log := io_log s @ [Rd64 (?f + GICR_TYPER_OFF)]\<rparr>"
  have rd: "mmio_read64 w (?f + GICR_TYPER_OFF) s = (ty k, ?s1)"
    using less.prems(1,2) by (simp add: mmio_read64_def io_read_def frames_at_def)
  have tr: "traced s ?s1 []" using traced_mmio_read64 [of s w "?f + GICR_TYPER_OFF"] rd by simp
  consider "frame_aff (ty k) = target" | "frame_aff (ty k) \<noteq> target" "k = lst" | "frame_aff (ty k) \<noteq> target" "k < lst"
    using less.prems(2) by linarith
  then show ?case
  proof cases
    case 1
    then show ?thesis using less.prems tr by (subst gicr_find_loop.simps) (auto simp: rd frame_aff_def found_def)
  next
    case 2
    then have "\<forall>j\<le>lst. frame_aff (ty j) \<noteq> target" using less.prems(3) by (auto simp: le_less)
    then show ?thesis using 2 less.prems by (subst gicr_find_loop.simps) (auto simp: rd [unfolded 2(2)] frame_aff_def frames_at_def found_def)
  next
    case 3
    have "gicr_find_loop w target ?f s = gicr_find_loop w target (base + of_nat (Suc k) * gicr_stride ?s1) ?s1"
      using 3 less.prems(1) by (subst gicr_find_loop.simps) (simp add: rd frame_aff_def frames_at_def, simp add: algebra_simps)
    moreover have "\<forall>j<Suc k. frame_aff (ty j) \<noteq> target" using 3 less.prems(3) by (auto simp: less_Suc_eq)
    moreover from this obtain r where "gicr_find_loop w target (base + of_nat (Suc k) * gicr_stride ?s1) ?s1 = Some r" "found base (gicr_stride ?s1) ty lst target ?s1 r"
      using less.hyps [of "Suc k" ?s1] 3 less.prems(1) by (auto simp: diff_less_mono2)
    ultimately show ?thesis using found_later [OF tr, of base "gicr_stride s" ty lst target r] by simp
  qed
qed

text \<open>The redistributor at \<open>gicr\<close> wakes: after enough accesses its children are awake.\<close>

definition wakes :: "world \<Rightarrow> uintptr \<Rightarrow> nat \<Rightarrow> bool" where
  "wakes w gicr n \<longleftrightarrow> (\<forall>l. n \<le> length l \<longrightarrow> (ucast (w l (Rd32 (gicr + GICR_WAKER_OFF))) :: uint32) AND GICR_WAKER_CASLEEP = 0)"

lemma wake_wait_ends:
  assumes "wakes w gicr n"
  shows "\<exists>s'. wake_wait w gicr s = Some s' \<and> traced s s' []"
proof (induction "Suc n - length (io_log s)" arbitrary: s rule: less_induct)
  case less
  let ?x = "Rd32 (gicr + GICR_WAKER_OFF)"
  let ?s1 = "s\<lparr>io_log := io_log s @ [?x]\<rparr>"
  have tr: "traced s ?s1 []" using traced_read [of ?x s w] by (simp add: io_read_def)
  show ?case
  proof (cases "(ucast (w (io_log s) ?x) :: uint32) AND GICR_WAKER_CASLEEP = 0")
    case True
    then show ?thesis using tr by (subst wake_wait.simps) (simp add: mmio_read32_def io_read_def)
  next
    case False
    then have "length (io_log s) < n" using assms by (force simp: wakes_def not_le [symmetric])
    then have "\<exists>s'. wake_wait w gicr ?s1 = Some s' \<and> traced ?s1 s' []" by (intro less.hyps) simp
    then show ?thesis using False traced_trans [OF tr] by (subst wake_wait.simps) (auto simp: mmio_read32_def io_read_def)
  qed
qed

lemma traced_msr: "traced s (io_write (Msr r v) s) [Msr r v]" by (rule traced_write) simp

lemma traced_priority_ppi:
  assumes "unat intid < 32"
  shows "\<exists>v. traced s (gic_irq_set_priority w intid prio s) [Wr32 (gicr_base_fn s + GICR_IPRIORITYR_OFF (intid div 4)) (prio_field v intid prio)]"
proof -
  have lt: "\<not> GIC_SPI_BASE \<le> intid" using assms by (simp add: word_le_nat_alt GIC_SPI_BASE_def)
  obtain v where "traced s (mmio_clrsetbits32 w (gicr_base_fn s + GICR_IPRIORITYR_OFF (intid div 4)) (push_bit (unat ((intid mod 4) * 8)) 0xFF)
      (push_bit (unat ((intid mod 4) * 8)) (ucast prio)) s) [Wr32 (gicr_base_fn s + GICR_IPRIORITYR_OFF (intid div 4))
        ((v AND NOT (push_bit (unat ((intid mod 4) * 8)) 0xFF)) OR (push_bit (unat ((intid mod 4) * 8)) (ucast prio) AND push_bit (unat ((intid mod 4) * 8)) 0xFF))]"
    using traced_clrset by blast
  then show ?thesis unfolding gic_irq_set_priority_def Let_def if_not_P [OF lt] prio_field_def by blast
qed

lemma traced_enable_ppi:
  assumes "unat intid < 32"
  shows "traced s (gic_irq_enable intid s) [Wr32 (gicr_base_fn s + GICR_ISENABLER0_OFF) (push_bit (unat intid) 1)]"
proof -
  have lt: "\<not> GIC_SPI_BASE \<le> intid" using assms by (simp add: word_le_nat_alt GIC_SPI_BASE_def)
  show ?thesis unfolding gic_irq_enable_def if_not_P [OF lt] mmio_write32_def by (rule traced_write) simp
qed

definition hart_writes :: "uintptr \<Rightarrow> uint32 \<Rightarrow> uint64 \<Rightarrow> uint32 \<Rightarrow> uint32 \<Rightarrow> uint32 \<Rightarrow> io list" where
  "hart_writes g t c wk p q =
     [Msr ''ICC_SRE_EL1'' 1, Msr ''ICC_CTLR_EL1'' (c OR ICC_CTLR_EOIMODE), Msr ''ICC_PMR_EL1'' 0xFF, Msr ''ICC_IGRPEN1_EL1'' 1,
      Wr32 (g + GICR_WAKER_OFF) (wk AND NOT GICR_WAKER_PSLEEP), Wr32 (g + GICR_IGROUPR0_OFF) (NOT 0),
      Wr32 (g + GICR_IPRIORITYR_OFF (t div 4)) (prio_field p t 0xA0), Wr32 (g + GICR_IPRIORITYR_OFF 0) (prio_field q 0 0xA0),
      Wr32 (g + GICR_ISENABLER0_OFF) (push_bit (unat t) 1), Wr32 (g + GICR_ISENABLER0_OFF) 1]"

lemma hart_tail:
  assumes "wakes w (gicr_base_fn s) n" "unat t < 32"
  shows "\<exists>s2 p q. wake_wait w (gicr_base_fn s) s = Some s2
     \<and> traced s (gic_irq_enable 0 (gic_irq_enable t (gic_irq_set_priority w 0 GIC_PRIO_DEFAULT (gic_irq_set_priority w t GIC_PRIO_DEFAULT
         (mmio_write32 (gicr_base_fn s + GICR_IGROUPR0_OFF) (NOT 0) s2)))))
       (drop 5 (hart_writes (gicr_base_fn s) t c wk p q))"
proof -
  let ?g = "gicr_base_fn s"
  obtain s2 where s2: "wake_wait w ?g s = Some s2" "traced s s2 []" using wake_wait_ends [OF assms(1)] by blast
  let ?s3 = "mmio_write32 (?g + GICR_IGROUPR0_OFF) (NOT 0) s2"
  let ?s4 = "gic_irq_set_priority w t GIC_PRIO_DEFAULT ?s3"
  let ?s5 = "gic_irq_set_priority w 0 GIC_PRIO_DEFAULT ?s4"
  have t3: "traced s2 ?s3 [Wr32 (?g + GICR_IGROUPR0_OFF) (NOT 0)]" unfolding mmio_write32_def by (rule traced_write) simp
  have g3: "gicr_base_fn ?s3 = ?g" using traced_frame [OF t3] traced_frame [OF s2(2)] by simp
  obtain p where t4: "traced ?s3 ?s4 [Wr32 (?g + GICR_IPRIORITYR_OFF (t div 4)) (prio_field p t GIC_PRIO_DEFAULT)]"
    using traced_priority_ppi [OF assms(2), of ?s3 w GIC_PRIO_DEFAULT] unfolding g3 by blast
  have g4: "gicr_base_fn ?s4 = ?g" using traced_frame [OF t4] g3 by simp
  obtain q where t5: "traced ?s4 ?s5 [Wr32 (?g + GICR_IPRIORITYR_OFF (0 div 4)) (prio_field q 0 GIC_PRIO_DEFAULT)]"
    using traced_priority_ppi [of 0 ?s4 w GIC_PRIO_DEFAULT] unfolding g4 by auto
  have g5: "gicr_base_fn ?s5 = ?g" using traced_frame [OF t5] g4 by simp
  note t6 = traced_enable_ppi [OF assms(2), of ?s5, unfolded g5]
  have g6: "gicr_base_fn (gic_irq_enable t ?s5) = ?g" using traced_frame [OF t6] g5 by simp
  have t7: "traced (gic_irq_enable t ?s5) (gic_irq_enable 0 (gic_irq_enable t ?s5)) [Wr32 (?g + GICR_ISENABLER0_OFF) 1]"
    using traced_enable_ppi [of 0 "gic_irq_enable t ?s5"] g6 by simp
  show ?thesis
    by (intro exI conjI, rule s2(1), rule traced_trans [OF s2(2) traced_trans [OF t3 traced_trans [OF t4 traced_trans [OF t5 traced_trans [OF t6 t7 refl] refl] refl] refl]])
      (simp add: hart_writes_def GIC_PRIO_DEFAULT_def)
qed

lemma hart_head:
  assumes "icc_read_ctlr w (icc_write_sre 1 s) = (c, s1)"
  shows "\<exists>wk. traced s (mmio_clrbits32 w (g + GICR_WAKER_OFF) GICR_WAKER_PSLEEP
       (icc_write_igrpen1 1 (icc_write_pmr 0xFF (icc_write_ctlr (c OR ICC_CTLR_EOIMODE) s1)))) (take 5 (hart_writes g t c wk p q))"
proof -
  let ?s2 = "icc_write_igrpen1 1 (icc_write_pmr 0xFF (icc_write_ctlr (c OR ICC_CTLR_EOIMODE) s1))"
  have t1: "traced s s1 [Msr ''ICC_SRE_EL1'' 1]"
    using traced_trans [OF traced_msr [of s "''ICC_SRE_EL1''" 1] traced_read [of "Mrs ''ICC_CTLR_EL1''" _ w] refl] assms
    by (simp add: icc_read_ctlr_def icc_write_sre_def)
  have t2: "traced s1 ?s2 [Msr ''ICC_CTLR_EL1'' (c OR ICC_CTLR_EOIMODE), Msr ''ICC_PMR_EL1'' 0xFF, Msr ''ICC_IGRPEN1_EL1'' 1]"
    unfolding icc_write_igrpen1_def icc_write_pmr_def icc_write_ctlr_def
    by (rule traced_trans [OF traced_msr traced_trans [OF traced_msr traced_msr refl]]) simp
  obtain wk where t3: "traced ?s2 (mmio_clrbits32 w (g + GICR_WAKER_OFF) GICR_WAKER_PSLEEP ?s2) [Wr32 (g + GICR_WAKER_OFF) (wk AND NOT GICR_WAKER_PSLEEP)]"
    using traced_clr by blast
  show ?thesis by (rule exI [of _ wk], rule traced_trans [OF t1 traced_trans [OF t2 t3 refl]]) (simp add: hart_writes_def)
qed

text \<open>
  \<^verbatim>\<open>gic_inithart\<close> searches the redistributor frames up to the one marked last. If no frame has this CPU's affinity it panics; otherwise it takes the
  first one that has, records it for this CPU alone and returns once the redistributor is awake, with exactly these writes, in this order: the CPU interface is switched to
  system registers, to separate priority drop and deactivation, to all priorities and to group 1; the redistributor is woken; all private interrupts go to
  group 1; the timer and the panic interrupt get priority 0xA0 in their byte and are enabled, and no other interrupt is.
\<close>

theorem gic_inithart_configures:
  assumes "frames_at w (PA_TO_KVA (gicr_base pf)) (gicr_stride s) ty lst" "timer_irq pf < 32"
    "\<forall>k\<le>lst. wakes w (PA_TO_KVA (gicr_base pf) + of_nat k * gicr_stride s) n"
  shows "\<exists>r. gic_inithart w mp pf s = Some r
     \<and> (case r of
          Inl e \<Rightarrow> e = Panic ''gic: no redistributor frame for this CPU'' \<and> (\<forall>j\<le>lst. frame_aff (ty j) \<noteq> mpidr_to_affinity (mp ! gi_cpu s))
        | Inr s' \<Rightarrow> \<exists>j\<le>lst. \<exists>L c wk p q.
            frame_aff (ty j) = mpidr_to_affinity (mp ! gi_cpu s) \<and> (\<forall>i<j. frame_aff (ty i) \<noteq> mpidr_to_affinity (mp ! gi_cpu s))
            \<and> s' = s\<lparr>gicr_frame := (gicr_frame s)(gi_cpu s := PA_TO_KVA (gicr_base pf) + of_nat j * gicr_stride s), io_log := io_log s @ L\<rparr>
            \<and> filter is_write L = hart_writes (PA_TO_KVA (gicr_base pf) + of_nat j * gicr_stride s) (timer_irq pf) c wk p q)"
proof -
  let ?b = "PA_TO_KVA (gicr_base pf)" and ?t = "mpidr_to_affinity (mp ! gi_cpu s)"
  obtain r0 where r0: "gicr_find w mp pf s = Some r0" and c0: "case r0 of Inl e \<Rightarrow> e = Panic ''gic: no redistributor frame for this CPU'' \<and> (\<forall>j\<le>lst. frame_aff (ty j) \<noteq> ?t)
      | Inr (frame, s') \<Rightarrow> traced s s' [] \<and> (\<exists>j\<le>lst. frame = ?b + of_nat j * gicr_stride s \<and> frame_aff (ty j) = ?t \<and> (\<forall>i<j. frame_aff (ty i) \<noteq> ?t))"
    using find_loop_ok [OF assms(1), of 0 ?t] unfolding gicr_find_def found_def by auto
  show ?thesis
  proof (cases r0)
    case (Inl e)
    then show ?thesis using r0 c0 by (simp add: gic_inithart_def tbind_def)
  next
    case (Inr x)
    then obtain fr s1 j where x: "x = (fr, s1)" and tr: "traced s s1 []" and j: "j \<le> lst" "fr = ?b + of_nat j * gicr_stride s"
      "frame_aff (ty j) = ?t" "\<forall>i<j. frame_aff (ty i) \<noteq> ?t" using c0 by (cases x) auto
    define s2 where "s2 = s1\<lparr>gicr_frame := (gicr_frame s1)(gi_cpu s1 := fr)\<rparr>"
    have fr2: "gicr_base_fn s2 = fr" by (simp add: s2_def gicr_base_fn_def)
    obtain c s3 where c: "icc_read_ctlr w (icc_write_sre 1 s2) = (c, s3)" by fastforce
    let ?s4 = "icc_write_igrpen1 1 (icc_write_pmr 0xFF (icc_write_ctlr (c OR ICC_CTLR_EOIMODE) s3))"
    let ?s5 = "mmio_clrbits32 w (fr + GICR_WAKER_OFF) GICR_WAKER_PSLEEP ?s4"
    obtain wk where t25: "\<And>p q. traced s2 ?s5 (take 5 (hart_writes fr (timer_irq pf) c wk p q))"
      using hart_head [OF c, of fr "timer_irq pf"] by (auto simp: hart_writes_def)
    have b5: "gicr_base_fn ?s5 = fr" using traced_frame [OF t25] fr2 by simp
    have "wakes w (gicr_base_fn ?s5) n" using assms(3) j b5 by simp
    moreover have "unat (timer_irq pf) < 32" using assms(2) by (simp add: word_less_nat_alt)
    ultimately obtain s6 p q where w6: "wake_wait w fr ?s5 = Some s6" and t7: "traced ?s5 (gic_irq_enable 0 (gic_irq_enable (timer_irq pf)
        (gic_irq_set_priority w 0 GIC_PRIO_DEFAULT (gic_irq_set_priority w (timer_irq pf) GIC_PRIO_DEFAULT (mmio_write32 (fr + GICR_IGROUPR0_OFF) (NOT 0) s6)))))
        (drop 5 (hart_writes fr (timer_irq pf) c wk p q))" (is "traced _ ?s' _")
      using hart_tail [of w ?s5 n "timer_irq pf" c wk] unfolding b5 by blast
    have run: "gic_inithart w mp pf s = Some (Inr ?s')"
      by (simp add: gic_inithart_def tbind_def r0 Inr x s2_def [symmetric] fr2 c w6 obind_def tret_def Let_def)
    have "traced s2 ?s' (hart_writes fr (timer_irq pf) c wk p q)"
      by (rule traced_trans [OF t25 [of p q] t7]) (simp only: append_take_drop_id)
    then obtain L where L: "?s' = s2\<lparr>io_log := io_log s2 @ L\<rparr>" "filter is_write L = hart_writes fr (timer_irq pf) c wk p q"
      by (auto simp: traced_def)
    obtain L0 where L0: "s1 = s\<lparr>io_log := io_log s @ L0\<rparr>" "filter is_write L0 = []" using tr by (auto simp: traced_def)
    have s': "?s' = s\<lparr>gicr_frame := (gicr_frame s)(gi_cpu s := fr), io_log := io_log s @ (L0 @ L)\<rparr>"
      using L(1) by (simp add: s2_def L0(1))
    have w': "filter is_write (L0 @ L) = hart_writes fr (timer_irq pf) c wk p q" using L0(2) L(2) by simp
    show ?thesis
      by (rule exI [of _ "Inr ?s'"], unfold sum.case, rule conjI [OF run], rule exI [of _ j], rule conjI [OF j(1)], rule exI [of _ "L0 @ L"],
        rule exI [of _ c], rule exI [of _ wk], rule exI [of _ p], rule exI [of _ q], unfold j(2) [symmetric], intro conjI j s' w')
  qed
qed

section \<open>A machine\<close>

text \<open>A controller with 64 interrupts and two redistributors, no counter frequency, and pending writes that are never reported as done.\<close>

definition demo_pf :: platform where
  "demo_pf = \<lparr>uart_base = 0x9000000, uart_clk = 24000000, uart_irq = 33, gicd_base = 0x8000000, gicr_base = 0x80A0000, timer_irq = 30\<rparr>"

definition demo_gic_world :: world where
  "demo_gic_world l x =
     (case x of
        Rd32 a \<Rightarrow> if a = PA_TO_KVA 0x8000000 + GICD_PIDR2 then 0x30 else if a = PA_TO_KVA 0x8000000 + GICD_TYPER then 1
                  else if a = PA_TO_KVA 0x8000000 then 0x80000000 else 0
      | Rd64 a \<Rightarrow> if a = PA_TO_KVA 0x80A0000 + 0x20000 + GICR_TYPER_OFF then 0x100000010 else 0
      | _ \<Rightarrow> 0)"

definition demo_gic :: gic where
  "demo_gic = \<lparr>io_log = [], gicd = 0, gic_nirq = 0, gicr_stride = GICR_FRAME_SIZE, gicr_frame = (\<lambda>_. 0), gi_cpu = 1\<rparr>"

lemma demo_frames:
  "frames_at demo_gic_world (PA_TO_KVA (gicr_base demo_pf)) (gicr_stride demo_gic) (\<lambda>k. if k = 0 then 0 else 0x100000010) 1"
  by (simp add: frames_at_def demo_gic_world_def demo_pf_def demo_gic_def kdefs le_Suc_eq less_Suc_eq PA_TO_KVA_def)

theorem gic_init_configures_witness:
  "\<exists>s' L. gic_init demo_gic_world demo_pf demo_gic = Some (Inr s') \<and> io_log s' = L \<and> 32 \<le> gic_nirq s'
     \<and> stores L (PA_TO_KVA 0x8000000 + GICD_ISENABLER 1) = [2]"
proof -
  have c: "clock_runs demo_gic_world 0 0" by (simp add: clock_runs_def demo_gic_world_def)
  have r: "runs_on demo_gic_world 0" by (simp add: runs_on_def demo_gic_world_def)
  have u: "32 \<le> uart_irq demo_pf" "uart_irq demo_pf < 1020" by (simp_all add: demo_pf_def)
  have v: "3 \<le> drop_bit 4 (ucast (demo_gic_world (io_log demo_gic) (Rd32 (PA_TO_KVA (gicd_base demo_pf) + GICD_PIDR2))) :: uint32) AND 0xF"
    by (simp add: demo_gic_world_def demo_pf_def)
  obtain s' L where i: "gic_init demo_gic_world demo_pf demo_gic = Some (Inr s')" "io_log s' = io_log demo_gic @ L" "32 \<le> gic_nirq s'"
    and k: "\<And>k. k < 32 \<Longrightarrow> stores L (PA_TO_KVA (gicd_base demo_pf) + GICD_ISENABLER k)
        = (if k = uart_irq demo_pf div 32 then [push_bit (unat (uart_irq demo_pf mod 32)) 1] else [])"
    using gic_init_configures [OF c r u v] unfolding Let_def by blast
  then show ?thesis using k [of 1] by (auto simp: demo_pf_def demo_gic_def)
qed

theorem gic_inithart_configures_witness:
  "\<exists>s' L c wk p q. gic_inithart demo_gic_world [0, 1] demo_pf demo_gic = Some (Inr s') \<and> gicr_frame s' 1 = PA_TO_KVA 0x80C0000
     \<and> io_log s' = L \<and> filter is_write L = hart_writes (PA_TO_KVA 0x80C0000) 30 c wk p q"
proof -
  have w: "\<forall>k\<le>1. wakes demo_gic_world (PA_TO_KVA (gicr_base demo_pf) + of_nat k * gicr_stride demo_gic) 0"
    by (auto simp: wakes_def demo_gic_world_def demo_pf_def demo_gic_def kdefs le_Suc_eq PA_TO_KVA_def)
  have t: "timer_irq demo_pf < 32" by (simp add: demo_pf_def)
  have a: "frame_aff 0x100000010 = 1" "frame_aff 0 = 0" "mpidr_to_affinity ([0, 1] ! 1) = 1"
    by (simp_all add: frame_aff_def mpidr_to_affinity_def demo_gic_def)
  have f: "PA_TO_KVA (gicr_base demo_pf) + gicr_stride demo_gic = PA_TO_KVA 0x80C0000" "timer_irq demo_pf = 30" "gi_cpu demo_gic = 1" "io_log demo_gic = []"
    by (simp_all add: demo_pf_def demo_gic_def PA_TO_KVA_def GICR_FRAME_SIZE_def)
  have one: "(frame_aff (if j = 0 then 0 else 0x100000010) = 1) = (j \<noteq> 0)" for j :: nat using a by simp
  show ?thesis
    using gic_inithart_configures [OF demo_frames t w, of "[0, 1]"] unfolding f append_Nil a(3) one
  proof (elim exE conjE, goal_cases)
    case (1 r)
    show ?case
    proof (cases r)
      case (Inr s')
      then obtain j L c wk p q where j: "j \<le> 1" "j \<noteq> 0"
        and s': "s' = demo_gic\<lparr>gicr_frame := (gicr_frame demo_gic)(1 := PA_TO_KVA (gicr_base demo_pf) + of_nat j * gicr_stride demo_gic), io_log := L\<rparr>"
        and L: "filter is_write L = hart_writes (PA_TO_KVA (gicr_base demo_pf) + of_nat j * gicr_stride demo_gic) 30 c wk p q"
        using 1(2) unfolding Inr sum.case by blast
      have "j = 1" using j by simp
      then show ?thesis using 1(1) Inr s' L f(1) by auto
    qed (use 1(2) in \<open>auto dest: spec [of _ 1]\<close>)
  qed
qed

end
