(* ===== verification/Kvm.thy ===== *)
theory Kvm
  imports Gic Trap
begin

text \<open>
  The system registers of a CPU: \<^verbatim>\<open>kvminithart\<close> of \<^verbatim>\<open>arch/pmap.c\<close>, which turns the MMU on, and \<^verbatim>\<open>mte_init\<close> of \<^verbatim>\<open>arch/mte.c\<close>. A TLB or instruction cache
  maintenance instruction is recorded like a write of a register of its name; barriers have no state, and the lines
  that the boot CPU prints are left out.
\<close>

section \<open>Register values\<close>

definition MAIR_DEVICE_nGnRnE :: uint64 where [kdefs]: "MAIR_DEVICE_nGnRnE = 0x00"
definition MAIR_NORMAL_WB :: uint64 where [kdefs]: "MAIR_NORMAL_WB = 0xff"
definition MAIR_NORMAL_TAGGED :: uint64 where [kdefs]: "MAIR_NORMAL_TAGGED = 0xf0"
definition MAIR_VALUE :: uint64 where [kdefs]:
  "MAIR_VALUE = push_bit (unat MT_DEVICE_nGnRnE * 8) MAIR_DEVICE_nGnRnE OR push_bit (unat MT_NORMAL * 8) MAIR_NORMAL_WB
     OR push_bit (unat MT_NORMAL_TAGGED * 8) MAIR_NORMAL_TAGGED"

definition TCR_T0SZ :: "uint64 \<Rightarrow> uint64" where [kdefs]: "TCR_T0SZ va_bits = (64 - va_bits) AND 0x3f"
definition TCR_TG0_4KB :: uint64 where [kdefs]: "TCR_TG0_4KB = push_bit 14 0"
definition TCR_IRGN0_WB_WA :: uint64 where [kdefs]: "TCR_IRGN0_WB_WA = push_bit 8 1"
definition TCR_ORGN0_WB_WA :: uint64 where [kdefs]: "TCR_ORGN0_WB_WA = push_bit 10 1"
definition TCR_SH0_INNER :: uint64 where [kdefs]: "TCR_SH0_INNER = push_bit 12 3"
definition TCR_IPS_SHIFT :: nat where [kdefs]: "TCR_IPS_SHIFT = 32"
definition TCR_IPS :: "uint64 \<Rightarrow> uint64" where [kdefs]: "TCR_IPS parange = push_bit TCR_IPS_SHIFT (parange AND 0x7)"
definition TCR_HA :: uint64 where [kdefs]: "TCR_HA = push_bit 39 1"
definition TCR_TBI0 :: uint64 where [kdefs]: "TCR_TBI0 = push_bit 37 1"
definition TCR_TBI1 :: uint64 where [kdefs]: "TCR_TBI1 = push_bit 38 1"
definition TCR_AS :: uint64 where [kdefs]: "TCR_AS = push_bit 36 1"
definition TCR_T1SZ :: "uint64 \<Rightarrow> uint64" where [kdefs]: "TCR_T1SZ va_bits = push_bit 16 ((64 - va_bits) AND 0x3f)"
definition TCR_TG1_4KB :: uint64 where [kdefs]: "TCR_TG1_4KB = push_bit 30 2"
definition TCR_IRGN1_WB_WA :: uint64 where [kdefs]: "TCR_IRGN1_WB_WA = push_bit 24 1"
definition TCR_ORGN1_WB_WA :: uint64 where [kdefs]: "TCR_ORGN1_WB_WA = push_bit 26 1"
definition TCR_SH1_INNER :: uint64 where [kdefs]: "TCR_SH1_INNER = push_bit 28 3"

definition SCTLR_EL1_M :: uint64 where [kdefs]: "SCTLR_EL1_M = push_bit 0 1"
definition SCTLR_EL1_C :: uint64 where [kdefs]: "SCTLR_EL1_C = push_bit 2 1"
definition SCTLR_EL1_SA :: uint64 where [kdefs]: "SCTLR_EL1_SA = push_bit 3 1"
definition SCTLR_EL1_SA0 :: uint64 where [kdefs]: "SCTLR_EL1_SA0 = push_bit 4 1"
definition SCTLR_EL1_EOS :: uint64 where [kdefs]: "SCTLR_EL1_EOS = push_bit 11 1"
definition SCTLR_EL1_I :: uint64 where [kdefs]: "SCTLR_EL1_I = push_bit 12 1"
definition SCTLR_EL1_TSCXT :: uint64 where [kdefs]: "SCTLR_EL1_TSCXT = push_bit 20 1"
definition SCTLR_EL1_IESB :: uint64 where [kdefs]: "SCTLR_EL1_IESB = push_bit 21 1"
definition SCTLR_EL1_EIS :: uint64 where [kdefs]: "SCTLR_EL1_EIS = push_bit 22 1"
definition SCTLR_EL1_nTLSMD :: uint64 where [kdefs]: "SCTLR_EL1_nTLSMD = push_bit 28 1"
definition SCTLR_EL1_LSMAOE :: uint64 where [kdefs]: "SCTLR_EL1_LSMAOE = push_bit 29 1"
definition SCTLR_EL1_BASE :: uint64 where [kdefs]:
  "SCTLR_EL1_BASE = SCTLR_EL1_LSMAOE OR SCTLR_EL1_nTLSMD OR SCTLR_EL1_EIS OR SCTLR_EL1_IESB OR SCTLR_EL1_TSCXT OR SCTLR_EL1_EOS"
definition SCTLR_EL1_SPAN :: uint64 where [kdefs]: "SCTLR_EL1_SPAN = push_bit 23 1"
definition SCTLR_EL1_TCF0_SHIFT :: nat where [kdefs]: "SCTLR_EL1_TCF0_SHIFT = 38"
definition SCTLR_EL1_TCF0_SYNC :: uint64 where [kdefs]: "SCTLR_EL1_TCF0_SYNC = push_bit SCTLR_EL1_TCF0_SHIFT 1"
definition SCTLR_EL1_TCF0_MASK :: uint64 where [kdefs]: "SCTLR_EL1_TCF0_MASK = push_bit SCTLR_EL1_TCF0_SHIFT 3"
definition SCTLR_EL1_TCF_SHIFT :: nat where [kdefs]: "SCTLR_EL1_TCF_SHIFT = 40"
definition SCTLR_EL1_TCF_MASK :: uint64 where [kdefs]: "SCTLR_EL1_TCF_MASK = push_bit SCTLR_EL1_TCF_SHIFT 3"
definition SCTLR_EL1_ATA0 :: uint64 where [kdefs]: "SCTLR_EL1_ATA0 = push_bit 42 1"
definition SCTLR_EL1_ATA :: uint64 where [kdefs]: "SCTLR_EL1_ATA = push_bit 43 1"
definition GCR_EL1_EXCLUDE_0_F :: uint64 where [kdefs]: "GCR_EL1_EXCLUDE_0_F = 0x8001"
definition RGSR_EL1_SEED_SHIFT :: nat where [kdefs]: "RGSR_EL1_SEED_SHIFT = 8"

definition ID_AA64MMFR0_ASIDBITS_SHIFT :: nat where [kdefs]: "ID_AA64MMFR0_ASIDBITS_SHIFT = 4"
definition ID_AA64MMFR0_ASIDBITS_WIDTH :: nat where [kdefs]: "ID_AA64MMFR0_ASIDBITS_WIDTH = 4"
definition ID_AA64MMFR0_ASIDBITS_16 :: uint64 where [kdefs]: "ID_AA64MMFR0_ASIDBITS_16 = 0x2"
definition ID_AA64MMFR0_PARANGE_SHIFT :: nat where [kdefs]: "ID_AA64MMFR0_PARANGE_SHIFT = 0"
definition ID_AA64MMFR0_PARANGE_WIDTH :: nat where [kdefs]: "ID_AA64MMFR0_PARANGE_WIDTH = 4"
definition ID_AA64MMFR0_PARANGE_48 :: uint64 where [kdefs]: "ID_AA64MMFR0_PARANGE_48 = 0x5"
definition ID_AA64MMFR1_HAFDBS_SHIFT :: nat where [kdefs]: "ID_AA64MMFR1_HAFDBS_SHIFT = 0"
definition ID_AA64MMFR1_HAFDBS_WIDTH :: nat where [kdefs]: "ID_AA64MMFR1_HAFDBS_WIDTH = 4"
definition ID_AA64MMFR1_HAFDBS_NONE :: uint64 where [kdefs]: "ID_AA64MMFR1_HAFDBS_NONE = 0x0"
definition ID_AA64PFR1_MTE_SHIFT :: nat where [kdefs]: "ID_AA64PFR1_MTE_SHIFT = 8"
definition ID_AA64PFR1_MTE_WIDTH :: nat where [kdefs]: "ID_AA64PFR1_MTE_WIDTH = 4"
definition ID_AA64PFR1_MTE_MTE2 :: uint64 where [kdefs]: "ID_AA64PFR1_MTE_MTE2 = 0x2"

section \<open>Operations\<close>

definition read_sysreg :: "world \<Rightarrow> string \<Rightarrow> 'a mmio_scheme \<Rightarrow> uint64 \<times> 'a mmio_scheme" where
  "read_sysreg w r = io_read w (Mrs r)"

definition asid_bits :: "world \<Rightarrow> 'a mmio_scheme \<Rightarrow> nat \<times> 'a mmio_scheme" where
  "asid_bits w s =
     (let (mmfr0, s) = read_sysreg w ''id_aa64mmfr0_el1'' s in
      (if SYS_FIELD mmfr0 ID_AA64MMFR0_ASIDBITS_SHIFT ID_AA64MMFR0_ASIDBITS_WIDTH = ID_AA64MMFR0_ASIDBITS_16 then 16 else 8, s))"

definition pa_range :: "world \<Rightarrow> 'a mmio_scheme \<Rightarrow> uint64 \<times> 'a mmio_scheme" where
  "pa_range w s =
     (let (v, s) = read_sysreg w ''id_aa64mmfr0_el1'' s;
          parange = SYS_FIELD v ID_AA64MMFR0_PARANGE_SHIFT ID_AA64MMFR0_PARANGE_WIDTH in
      (if parange > ID_AA64MMFR0_PARANGE_48 then ID_AA64MMFR0_PARANGE_48 else parange, s))"

definition has_hafdbs :: "world \<Rightarrow> 'a mmio_scheme \<Rightarrow> bool \<times> 'a mmio_scheme" where
  "has_hafdbs w s =
     (let (v, s) = read_sysreg w ''id_aa64mmfr1_el1'' s in
      (SYS_FIELD v ID_AA64MMFR1_HAFDBS_SHIFT ID_AA64MMFR1_HAFDBS_WIDTH \<noteq> ID_AA64MMFR1_HAFDBS_NONE, s))"

definition has_pan :: "world \<Rightarrow> 'a mmio_scheme \<Rightarrow> bool \<times> 'a mmio_scheme" where
  "has_pan w s = (let (mmfr1, s) = io_read w (Mrs ''id_aa64mmfr1_el1'') s in (drop_bit 20 mmfr1 AND 0xF \<noteq> 0, s))"

definition pan_on :: "'a mmio_scheme \<Rightarrow> 'a mmio_scheme" where "pan_on = io_write (Msr ''pan'' 1)"

definition has_mte2 :: "world \<Rightarrow> 'a mmio_scheme \<Rightarrow> bool \<times> 'a mmio_scheme" where
  "has_mte2 w s =
     (let (pfr1, s) = read_sysreg w ''id_aa64pfr1_el1'' s in (SYS_FIELD pfr1 ID_AA64PFR1_MTE_SHIFT ID_AA64PFR1_MTE_WIDTH \<ge> ID_AA64PFR1_MTE_MTE2, s))"

definition mte_sctlr :: "uint64 \<Rightarrow> uint64" where
  "mte_sctlr sctlr =
     (((sctlr AND NOT SCTLR_EL1_TCF0_MASK) OR SCTLR_EL1_TCF0_SYNC) AND NOT SCTLR_EL1_TCF_MASK) OR SCTLR_EL1_ATA OR SCTLR_EL1_ATA0"

definition mte_seed :: "uint64 \<Rightarrow> uint64" where
  "mte_seed mpidr = push_bit RGSR_EL1_SEED_SHIFT (((mpidr AND 0xff) + 1) AND 0xffff) OR 0x1"

definition mte_init :: "world \<Rightarrow> 'a mmio_scheme \<Rightarrow> 'a mmio_scheme res" where
  "mte_init w s =
     (let (ok, s) = has_mte2 w s in
      if \<not> ok then Inl (Panic ''mte_init: CPU does not implement FEAT_MTE2'')
      else
        (let (sctlr, s) = io_read w (Mrs ''sctlr_el1'') s;
             s = io_write (Msr ''gcr_el1'' GCR_EL1_EXCLUDE_0_F) (io_write (Msr ''sctlr_el1'' (mte_sctlr sctlr)) s);
             (mpidr, s) = io_read w (Mrs ''mpidr_el1'') s in
         Inr (io_write (Msr ''rgsr_el1'' (mte_seed mpidr)) s)))"

definition tcr_value :: "uint64 \<Rightarrow> nat \<Rightarrow> bool \<Rightarrow> uint64" where
  "tcr_value parange bits ha =
     (let tcr = TCR_T0SZ 48 OR TCR_TG0_4KB OR TCR_IRGN0_WB_WA OR TCR_ORGN0_WB_WA OR TCR_SH0_INNER OR TCR_IPS parange OR TCR_TBI0 OR TCR_TBI1
          OR TCR_T1SZ 48 OR TCR_TG1_4KB OR TCR_IRGN1_WB_WA OR TCR_ORGN1_WB_WA OR TCR_SH1_INNER;
          tcr = (if bits = 16 then tcr OR TCR_AS else tcr) in
      if ha then tcr OR TCR_HA else tcr)"

definition sctlr_value :: uint64 where
  "sctlr_value = SCTLR_EL1_BASE OR SCTLR_EL1_M OR SCTLR_EL1_C OR SCTLR_EL1_I OR SCTLR_EL1_SA OR SCTLR_EL1_SA0"

definition kvminithart :: "world \<Rightarrow> uintptr \<Rightarrow> 'a mmio_scheme \<Rightarrow> 'a mmio_scheme res" where
  "kvminithart w l0_table s =
     (let s = io_write (Msr ''mair_el1'' MAIR_VALUE) s;
          (parange, s) = pa_range w s;
          (bits, s) = asid_bits w s;
          (ha, s) = has_hafdbs w s;
          s = io_write (Msr ''tcr_el1'' (tcr_value parange bits ha)) s;
          s = io_write (Msr ''ttbr1_el1'' l0_table) (io_write (Msr ''ttbr0_el1'' l0_table) s);
          s = io_write (Msr ''ic iallu'' 0) (io_write (Msr ''tlbi vmalle1'' 0) s);
          (old, s) = io_read w (Mrs ''sctlr_el1'') s;
          s = io_write (Msr ''sctlr_el1'' sctlr_value) s;
          (pan, s) = has_pan w s in
      if \<not> pan then Inl (Panic ''kvminithart: CPU does not implement FEAT_PAN'')
      else mte_init w (pan_on s))"

section \<open>What the registers hold\<close>

text \<open>
  The hypotheses about the CPU: its identification registers are constant, and the system control register reads what was written to it
  last.
\<close>

fun last_msr :: "string \<Rightarrow> io list \<Rightarrow> uint64 option" where
  "last_msr r [] = None"
| "last_msr r (x # l) = (case last_msr r l of Some v \<Rightarrow> Some v | None \<Rightarrow> (case x of Msr q v \<Rightarrow> if q = r then Some v else None | _ \<Rightarrow> None))"

definition cpu_regs :: "world \<Rightarrow> uint64 \<Rightarrow> uint64 \<Rightarrow> uint64 \<Rightarrow> uint64 \<Rightarrow> bool" where
  "cpu_regs w mmfr0 mmfr1 pfr1 mpidr \<longleftrightarrow>
     (\<forall>l. w l (Mrs ''id_aa64mmfr0_el1'') = mmfr0 \<and> w l (Mrs ''id_aa64mmfr1_el1'') = mmfr1 \<and> w l (Mrs ''id_aa64pfr1_el1'') = pfr1
        \<and> w l (Mrs ''mpidr_el1'') = mpidr \<and> (\<forall>v. last_msr ''sctlr_el1'' l = Some v \<longrightarrow> w l (Mrs ''sctlr_el1'') = v))"

lemma last_msr_append: "last_msr r (l @ m) = (case last_msr r m of Some v \<Rightarrow> Some v | None \<Rightarrow> last_msr r l)"
  by (induction l) (auto split: option.splits)

definition hart_regs :: "uintptr \<Rightarrow> uint64 \<Rightarrow> nat \<Rightarrow> bool \<Rightarrow> uint64 \<Rightarrow> io list" where
  "hart_regs l0 parange bits ha mpidr =
     [Msr ''mair_el1'' MAIR_VALUE, Msr ''tcr_el1'' (tcr_value parange bits ha), Msr ''ttbr0_el1'' l0, Msr ''ttbr1_el1'' l0,
      Msr ''tlbi vmalle1'' 0, Msr ''ic iallu'' 0, Msr ''sctlr_el1'' sctlr_value, Msr ''pan'' 1,
      Msr ''sctlr_el1'' (mte_sctlr sctlr_value), Msr ''gcr_el1'' 0x8001, Msr ''rgsr_el1'' (mte_seed mpidr)]"

lemma kvminithart_run:
  assumes "cpu_regs w mmfr0 mmfr1 pfr1 mpidr"
  shows "kvminithart w l0 s =
     (if drop_bit 20 mmfr1 AND 0xF = 0 then Inl (Panic ''kvminithart: CPU does not implement FEAT_PAN'')
      else if SYS_FIELD pfr1 8 4 < 2 then Inl (Panic ''mte_init: CPU does not implement FEAT_MTE2'')
      else Inr (s\<lparr>io_log := io_log s @
         [Msr ''mair_el1'' MAIR_VALUE, Mrs ''id_aa64mmfr0_el1'', Mrs ''id_aa64mmfr0_el1'', Mrs ''id_aa64mmfr1_el1'',
          Msr ''tcr_el1'' (tcr_value (min (SYS_FIELD mmfr0 0 4) 5) (if SYS_FIELD mmfr0 4 4 = 2 then 16 else 8) (SYS_FIELD mmfr1 0 4 \<noteq> 0)),
          Msr ''ttbr0_el1'' l0, Msr ''ttbr1_el1'' l0, Msr ''tlbi vmalle1'' 0, Msr ''ic iallu'' 0, Mrs ''sctlr_el1'', Msr ''sctlr_el1'' sctlr_value,
          Mrs ''id_aa64mmfr1_el1'', Msr ''pan'' 1, Mrs ''id_aa64pfr1_el1'', Mrs ''sctlr_el1'', Msr ''sctlr_el1'' (mte_sctlr sctlr_value),
          Msr ''gcr_el1'' 0x8001, Mrs ''mpidr_el1'', Msr ''rgsr_el1'' (mte_seed mpidr)]\<rparr>))"
  using assms unfolding cpu_regs_def
  by (simp add: kvminithart_def mte_init_def pa_range_def asid_bits_def has_hafdbs_def has_pan_def has_mte2_def pan_on_def read_sysreg_def
      io_read_def io_write_def last_msr_append kdefs min_def not_le Let_def)

lemma parange_cases:
  fixes r :: uint64
  assumes "r \<le> 5"
  shows "r = 0 \<or> r = 1 \<or> r = 2 \<or> r = 3 \<or> r = 4 \<or> r = 5"
proof -
  have "unat r \<le> 5" using assms by (simp add: word_le_nat_alt)
  then have "unat r \<in> {0, 1, 2, 3, 4, 5}" by auto
  then have "of_nat (unat r) = r \<and> unat r \<in> {0, 1, 2, 3, 4, 5}" by simp
  then show ?thesis by (auto intro: word_unat_eq_iff [THEN iffD2])
qed

lemma tcr_const:
  assumes "r \<le> 5"
  shows "tcr_value r b ha = 0x60B5103510 + r * 0x100000000 + (if b = 16 then 0x1000000000 else 0) + (if ha then 0x8000000000 else 0)"
  using parange_cases [OF assms]
  by (elim disjE; cases "b = 16"; cases ha; simp add: tcr_value_def kdefs)

lemma tcr_fields:
  assumes "r \<le> 5"
  shows "SYS_FIELD (tcr_value r b ha) 0 6 = 16 \<and> SYS_FIELD (tcr_value r b ha) 14 2 = 0 \<and> SYS_FIELD (tcr_value r b ha) 16 6 = 16
    \<and> SYS_FIELD (tcr_value r b ha) 30 2 = 2 \<and> SYS_FIELD (tcr_value r b ha) 32 3 = r \<and> bit (tcr_value r b ha) 36 = (b = 16)
    \<and> bit (tcr_value r b ha) 39 = ha \<and> bit (tcr_value r b ha) 37 \<and> bit (tcr_value r b ha) 38"
  unfolding tcr_const [OF assms] using parange_cases [OF assms]
  by (elim disjE; cases "b = 16"; cases ha; simp add: SYS_FIELD_def mask_eq_exp_minus_1 bit_iff_odd_drop_bit)

lemma sctlr_fields:
  "bit (mte_sctlr sctlr_value) 0 \<and> bit (mte_sctlr sctlr_value) 2 \<and> bit (mte_sctlr sctlr_value) 12 \<and> \<not> bit (mte_sctlr sctlr_value) 23
   \<and> SYS_FIELD (mte_sctlr sctlr_value) 38 2 = 1 \<and> SYS_FIELD (mte_sctlr sctlr_value) 40 2 = 0
   \<and> bit (mte_sctlr sctlr_value) 42 \<and> bit (mte_sctlr sctlr_value) 43"
proof -
  have v: "mte_sctlr sctlr_value = 0xC403070181D" by (simp add: mte_sctlr_def sctlr_value_def kdefs)
  show ?thesis unfolding v by (simp add: SYS_FIELD_def mask_eq_exp_minus_1 bit_iff_odd_drop_bit)
qed

lemma seed_fields: "SYS_FIELD (mte_seed m) 8 16 = (m AND 0xff) + 1 \<and> SYS_FIELD (mte_seed m) 0 4 = 1 \<and> (m AND 0xff) + 1 \<noteq> 0"
proof -
  have m8: "0xff = (mask 8 :: uint64)" "0xffff = (mask 16 :: uint64)" by (simp_all add: mask_eq_exp_minus_1)
  have "unat (m AND 0xff) < 256" unfolding m8 by (simp add: unat_and_mask)
  then have u: "unat ((m AND 0xff) + 1) = unat (m AND 0xff) + 1" "unat ((m AND 0xff) + 1) < 2 ^ 16" by (simp_all add: unat_word_ariths)
  then have x: "((m AND 0xff) + 1) AND 0xffff = (m AND 0xff) + 1"
    unfolding m8(2) word_unat_eq_iff unat_and_mask by simp
  have "SYS_FIELD (mte_seed m) 8 16 = ((m AND 0xff) + 1) AND 0xffff"
    unfolding SYS_FIELD_def mte_seed_def RGSR_EL1_SEED_SHIFT_def m8(2)
    by (intro bit_word_eqI) (auto simp: bit_simps bit_1_iff)
  then have "SYS_FIELD (mte_seed m) 8 16 = (m AND 0xff) + 1" unfolding x .
  moreover have "SYS_FIELD (mte_seed m) 0 4 = 1"
    unfolding SYS_FIELD_def mte_seed_def RGSR_EL1_SEED_SHIFT_def
    by (intro bit_word_eqI) (auto simp: bit_simps bit_1_iff)
  moreover have "(m AND 0xff) + 1 \<noteq> 0" using u(1) by (metis Suc_eq_plus1 nat.distinct(1) unsigned_0)
  ultimately show ?thesis by blast
qed

lemma mair_slots: "SYS_FIELD MAIR_VALUE (8 * unat MT_DEVICE_nGnRnE) 8 = 0 \<and> SYS_FIELD MAIR_VALUE (8 * unat MT_NORMAL) 8 = 0xff
    \<and> SYS_FIELD MAIR_VALUE (8 * unat MT_NORMAL_TAGGED) 8 = 0xf0"
  by (simp add: kdefs SYS_FIELD_def mask_eq_exp_minus_1)


text \<open>A CPU with 40-bit addresses, 16-bit address space numbers, PAN and MTE2.\<close>

definition demo_cpu :: world where
  "demo_cpu l x = (case x of Mrs r \<Rightarrow> if r = ''id_aa64mmfr0_el1'' then 0x22 else if r = ''id_aa64mmfr1_el1'' then 0x100000 else if r = ''id_aa64pfr1_el1'' then 0x200
     else if r = ''sctlr_el1'' then (case last_msr r l of Some v \<Rightarrow> v | None \<Rightarrow> 0) else 0 | _ \<Rightarrow> 0)"

lemma demo_cpu_regs: "cpu_regs demo_cpu 0x22 0x100000 0x200 0"
  by (simp add: cpu_regs_def demo_cpu_def)


end
