(* ===== verification/Smp.thy ===== *)
theory Smp
  imports Gic
begin

text \<open>
  Starting and stopping the other CPUs: \<^verbatim>\<open>smp_init\<close> of \<^verbatim>\<open>arch/smp.c\<close>, which asks the firmware to start each CPU and waits for it, and
  \<^verbatim>\<open>panic_stop_others\<close> of \<^verbatim>\<open>kern/panic.c\<close>. The flags that the other CPUs store, \<^verbatim>\<open>online\<close> and \<^verbatim>\<open>halted\<close>, and the firmware's answers are the
  world's. The printed lines are left out.
\<close>

section \<open>Starting\<close>

definition PSCI_CPU_ON :: uint64 where [kdefs]: "PSCI_CPU_ON = 0xC4000003"
definition SMP_ONLINE_SECS :: uint64 where [kdefs]: "SMP_ONLINE_SECS = 5"
definition SMP_ONLINE_SPINS :: uint64 where [kdefs]: "SMP_ONLINE_SPINS = 500000000"

definition psci_io :: "int \<Rightarrow> uint64 \<Rightarrow> uint64 \<Rightarrow> uint64 \<Rightarrow> uint64 \<Rightarrow> io" where
  "psci_io conduit fn arg0 arg1 arg2 = (if conduit = PSCI_CONDUIT_SMC then Smc fn arg0 arg1 arg2 else Hvc fn arg0 arg1 arg2)"

definition psci_call :: "world \<Rightarrow> int \<Rightarrow> uint64 \<Rightarrow> uint64 \<Rightarrow> uint64 \<Rightarrow> uint64 \<Rightarrow> 'a mmio_scheme \<Rightarrow> int \<times> 'a mmio_scheme" where
  "psci_call w conduit fn arg0 arg1 arg2 s = (let (x0, s) = io_read w (psci_io conduit fn arg0 arg1 arg2) s in (sint x0, s))"

definition read_online :: "world \<Rightarrow> nat \<Rightarrow> 'a mmio_scheme \<Rightarrow> uint64 \<times> 'a mmio_scheme" where
  "read_online w i = io_read w (Rd_online i)"

definition not_online :: "world \<Rightarrow> nat \<Rightarrow> 'a mmio_scheme \<Rightarrow> bool \<times> 'a mmio_scheme" where
  "not_online w i s = (let (v, s) = read_online w i s in (v = 0, s))"

definition wait_online :: "world \<Rightarrow> nat \<Rightarrow> 'a mmio_scheme \<Rightarrow> 'a mmio_scheme option" where
  "wait_online w i s =
     (let (freq, s) = read_cntfrq w s;
          (deadline, s) = (if freq \<noteq> 0 then (let (v, s) = read_cntpct w s in (v + freq * SMP_ONLINE_SECS, s)) else (0, s)) in
      timed_wait w (not_online w i) freq deadline SMP_ONLINE_SPINS s)"

primrec smp_cpus :: "world \<Rightarrow> int \<Rightarrow> uint64 list \<Rightarrow> uintptr \<Rightarrow> nat list \<Rightarrow> nat \<Rightarrow> 'a mmio_scheme \<Rightarrow> (nat \<times> 'a mmio_scheme) option" where
  "smp_cpus w conduit cpu_mpidr mpentry [] online s = Some (online, s)"
| "smp_cpus w conduit cpu_mpidr mpentry (i # rest) online s =
     (let (ret, s) = psci_call w conduit PSCI_CPU_ON (cpu_mpidr ! i) (KVA_TO_PA mpentry) (of_nat i) s in
      if ret \<noteq> 0 then smp_cpus w conduit cpu_mpidr mpentry rest online s
      else (case wait_online w i s of
              None \<Rightarrow> None
            | Some s \<Rightarrow> (let (v, s) = read_online w i s in smp_cpus w conduit cpu_mpidr mpentry rest (if v = 0 then online else online + 1) s)))"

definition smp_init :: "world \<Rightarrow> int \<Rightarrow> nat \<Rightarrow> uint64 list \<Rightarrow> uintptr \<Rightarrow> 'a mmio_scheme \<Rightarrow> (nat \<times> 'a mmio_scheme) option" where
  "smp_init w conduit ncpus cpu_mpidr mpentry s = smp_cpus w conduit cpu_mpidr mpentry [1..<ncpus] 1 s"

section \<open>Stopping\<close>

definition PANIC_STOP_SPINS :: uint64 where [kdefs]: "PANIC_STOP_SPINS = 100000000"

record stopping = mmio +
  st_stuck :: nat

fun count_stuck :: "world \<Rightarrow> nat \<Rightarrow> nat list \<Rightarrow> nat \<Rightarrow> 'a mmio_scheme \<Rightarrow> nat \<times> 'a mmio_scheme" where
  "count_stuck w self [] stuck s = (stuck, s)"
| "count_stuck w self (i # rest) stuck s =
     (if i = self then count_stuck w self rest stuck s
      else (let (on, s) = io_read w (Rd_online i) s in
            if on = 0 then count_stuck w self rest stuck s
            else (let (h, s) = io_read w (Rd_halted i) s in count_stuck w self rest (if h = 0 then stuck + 1 else stuck) s)))"

text \<open>The body of the wait up to the look at the clock: the count, and the interrupt again if somebody still runs.\<close>

definition stop_busy :: "world \<Rightarrow> nat \<Rightarrow> nat \<Rightarrow> 'a stopping_scheme \<Rightarrow> bool \<times> 'a stopping_scheme" where
  "stop_busy w self ncpus s =
     (let (stuck, s) = count_stuck w self [0..<ncpus] 0 s; s = s\<lparr>st_stuck := stuck\<rparr> in
      if stuck = 0 then (False, s) else (True, gic_send_sgi_all 0 s))"

definition panic_stop_others :: "world \<Rightarrow> nat \<Rightarrow> nat \<Rightarrow> 'a stopping_scheme \<Rightarrow> (nat \<times> 'a stopping_scheme) option" where
  "panic_stop_others w self ncpus s =
     (let (freq, s) = read_cntfrq w s;
          s = gic_send_sgi_all 0 s;
          (deadline, s) = (if freq \<noteq> 0 then (let (v, s) = read_cntpct w s in (v + freq, s)) else (0, s)) in
      (case timed_wait w (stop_busy w self ncpus) freq deadline PANIC_STOP_SPINS s of None \<Rightarrow> None | Some s \<Rightarrow> Some (st_stuck s, s)))"

section \<open>The clock\<close>

text \<open>
  The counter moves with every access, up to its greatest value: a 64-bit counter does not wrap in the life of the machine. The frequency is
  constant.
\<close>

definition clock_ticks :: "world \<Rightarrow> bool" where
  "clock_ticks w \<longleftrightarrow> (\<forall>l x. w l (Mrs ''cntpct_el0'') < w (l @ [x]) (Mrs ''cntpct_el0'') \<or> w (l @ [x]) (Mrs ''cntpct_el0'') = - 1)
     \<and> (\<exists>f. \<forall>l. w l (Mrs ''cntfrq_el0'') = f)"

lemma ticks_at_least:
  assumes "clock_ticks w"
  shows "min (length l) (2 ^ 64 - 1) \<le> unat (w l (Mrs ''cntpct_el0''))"
proof (induction l rule: rev_induct)
  case (snoc x l)
  let ?c = "w l (Mrs ''cntpct_el0'')" and ?d = "w (l @ [x]) (Mrs ''cntpct_el0'')"
  have "unat (- 1 :: uint64) = 2 ^ 64 - 1" by (simp add: unsigned_minus_1_eq_mask mask_eq_exp_minus_1)
  then have "unat ?c < unat ?d \<or> unat ?d = 2 ^ 64 - 1"
    using assms unfolding clock_ticks_def by (metis word_less_nat_alt)
  then show ?case using snoc by auto
qed simp

lemma ticks_reach: "clock_ticks w \<Longrightarrow> counter_reaches w d (2 ^ 64)"
proof -
  assume a: "clock_ticks w"
  have "d \<le> w l (Mrs ''cntpct_el0'')" if "2 ^ 64 \<le> length l" for l
  proof -
    have "2 ^ 64 - 1 \<le> unat (w l (Mrs ''cntpct_el0''))" using ticks_at_least [OF a, of l] that by simp
    moreover have "unat d \<le> 2 ^ 64 - 1" using unat64_less [of d] by simp
    ultimately show ?thesis by (simp add: word_le_nat_alt)
  qed
  then show ?thesis by (simp add: counter_reaches_def)
qed

section \<open>Every CPU is asked once\<close>

lemma traced_call: "traced s (snd (psci_call w conduit fn a b c s)) [psci_io conduit fn a b c]"
  by (auto simp: psci_call_def psci_io_def io_read_def traced_def)

lemma traced_online: "traced s (snd (read_online w i s)) []"
  using traced_read [of "Rd_online i" s w] by (simp add: read_online_def)

interpretation onl: wait_body w "not_online w i" "\<lambda>s s'. traced s s' []"
  by unfold_locales (auto simp: not_online_def split_beta traced_online tick_traced intro: traced_trans traced_grows)

lemma traced_freq: "traced s (snd (read_cntfrq w s)) []" "traced s (snd (read_cntpct w s)) []"
  by (auto simp: read_cntfrq_def read_cntpct_def io_read_def traced_def)

lemma wait_online_ends:
  assumes "clock_ticks w"
  shows "\<exists>s'. wait_online w i s = Some s' \<and> traced s s' []"
proof -
  obtain f s1 where f: "read_cntfrq w s = (f, s1)" by fastforce
  obtain d s2 where d: "(if f \<noteq> 0 then (let (v, s) = read_cntpct w s1 in (v + f * SMP_ONLINE_SECS, s)) else (0, s1)) = (d, s2)" by fastforce
  have t1: "traced s s1 []" using traced_freq(1) [of s w] f by simp
  have t2: "traced s1 s2 []" using traced_freq(2) [of s1 w] d by (auto simp: split_beta split: if_splits)
  have "wait_online w i s = timed_wait w (not_online w i) f d SMP_ONLINE_SPINS s2"
    unfolding wait_online_def Let_def f prod.case d [unfolded Let_def] ..
  moreover have "\<exists>s'. timed_wait w (not_online w i) f d SMP_ONLINE_SPINS s2 = Some s' \<and> onl.ended w i s2 s'"
    by (rule onl.ends [OF _ ticks_reach [OF assms]]) (simp add: SMP_ONLINE_SPINS_def)
  ultimately show ?thesis using traced_trans [OF t1 traced_trans [OF t2 _ refl]] by (fastforce simp: onl.ended_def)
qed

text \<open>\<open>answers\<close>: the firmware's answer for a CPU and whether the CPU comes online do not change while the machine starts.\<close>

definition answers :: "world \<Rightarrow> int \<Rightarrow> uint64 list \<Rightarrow> uintptr \<Rightarrow> (nat \<Rightarrow> uint64) \<Rightarrow> (nat \<Rightarrow> uint64) \<Rightarrow> bool" where
  "answers w conduit mp entry ret onl \<longleftrightarrow>
     (\<forall>l i. w l (psci_io conduit PSCI_CPU_ON (mp ! i) (KVA_TO_PA entry) (of_nat i)) = ret i \<and> w l (Rd_online i) = onl i)"

lemma smp_cpus_ok:
  assumes "clock_ticks w" "answers w conduit mp entry ret onl"
  shows "\<exists>s'. smp_cpus w conduit mp entry xs n s = Some (n + length (filter (\<lambda>i. ret i = 0 \<and> onl i \<noteq> 0) xs), s')
     \<and> traced s s' (map (\<lambda>i. psci_io conduit PSCI_CPU_ON (mp ! i) (KVA_TO_PA entry) (of_nat i)) xs)"
proof (induction xs arbitrary: n s)
  case (Cons i xs)
  let ?x = "psci_io conduit PSCI_CPU_ON (mp ! i) (KVA_TO_PA entry) (of_nat i)"
  obtain r s1 where c: "psci_call w conduit PSCI_CPU_ON (mp ! i) (KVA_TO_PA entry) (of_nat i) s = (r, s1)" by fastforce
  have r: "(r = 0) = (ret i = 0)" using c assms(2) by (auto simp: psci_call_def io_read_def answers_def signed_eq_0_iff)
  have t1: "traced s s1 [?x]" using traced_call [of s w conduit PSCI_CPU_ON "mp ! i" "KVA_TO_PA entry" "of_nat i"] c by simp
  show ?case
  proof (cases "r = 0")
    case False
    then show ?thesis using Cons.IH [of n s1] c r traced_trans [OF t1] by fastforce
  next
    case True
    obtain s2 where w2: "wait_online w i s1 = Some s2" "traced s1 s2 []" using wait_online_ends [OF assms(1)] by blast
    obtain v s3 where v: "read_online w i s2 = (v, s3)" by fastforce
    have v': "v = onl i" using v assms(2) by (auto simp: read_online_def io_read_def answers_def)
    have t3: "traced s s3 [?x]"
      using traced_trans [OF t1 traced_trans [OF w2(2) traced_online [of s2 w i] refl]] v by simp
    show ?thesis using Cons.IH [of "if v = 0 then n else n + 1" s3] c r True w2 v v' traced_trans [OF t3] by fastforce
  qed
qed simp


section \<open>Stopping the others\<close>

text \<open>\<open>rang\<close>: from \<open>s\<close> to \<open>s'\<close> the only writes are panic interrupts to the other CPUs.\<close>

definition sgi_panic :: io where "sgi_panic = Msr ''ICC_SGI1R_EL1'' (push_bit 40 1)"

definition rang :: "'a mmio_scheme \<Rightarrow> 'a mmio_scheme \<Rightarrow> bool" where
  "rang s s' \<longleftrightarrow> (\<exists>L. io_log s' = io_log s @ L \<and> set (filter is_write L) \<subseteq> {sgi_panic})"

lemma rang_trans: "rang s t \<Longrightarrow> rang t u \<Longrightarrow> rang s u" by (auto simp: rang_def)

lemma traced_rang: "traced s s' [] \<Longrightarrow> rang s s'" unfolding traced_def rang_def by (metis empty_set empty_subsetI mmio.select_convs(1) mmio.surjective mmio.update_convs(1))

lemma sgi_sent: "io_log (gic_send_sgi_all 0 s) = io_log s @ [sgi_panic]"
  by (simp add: gic_send_sgi_all_def io_write_def sgi_panic_def)

lemma traced_count: "traced s (snd (count_stuck w self xs k s)) []"
proof (induction xs arbitrary: k s)
  case (Cons i xs)
  obtain on s1 where a: "io_read w (Rd_online i) s = (on, s1)" by fastforce
  obtain h s2 where b: "io_read w (Rd_halted i) s1 = (h, s2)" by fastforce
  have t1: "traced s s1 []" using traced_read [of "Rd_online i" s w] a by simp
  have t2: "traced s1 s2 []" using traced_read [of "Rd_halted i" s1 w] b by simp
  show ?case using Cons.IH traced_trans [OF t1 Cons.IH] traced_trans [OF t1 traced_trans [OF t2 Cons.IH refl]] a b by simp
qed simp

lemma count_bound: "fst (count_stuck w self xs k s) \<le> k + length (filter (\<lambda>i. i \<noteq> self) xs)"
proof (induction xs arbitrary: k s)
  case (Cons i xs)
  obtain on s1 where a: "io_read w (Rd_online i) s = (on, s1)" by fastforce
  obtain h s2 where b: "io_read w (Rd_halted i) s1 = (h, s2)" by fastforce
  show ?case using Cons.IH [of k s] Cons.IH [of k s1] Cons.IH [of k s2] Cons.IH [of "k + 1" s2] a b by simp
qed simp

lemma stop_busy_rang: "rang s (snd (stop_busy w self ncpus s))"
proof -
  let ?c = "count_stuck w self [0..<ncpus] 0 s"
  have "rang s ((snd ?c)\<lparr>st_stuck := fst ?c\<rparr>)" using traced_rang [OF traced_count [of s w self "[0..<ncpus]" 0]] by (simp add: rang_def)
  moreover have "rang t (gic_send_sgi_all 0 t)" for t by (auto simp: rang_def sgi_sent)
  ultimately show ?thesis using rang_trans by (auto simp: stop_busy_def split_beta Let_def)
qed

interpretation stop: wait_body w "stop_busy w self ncpus" rang
proof (unfold_locales, goal_cases)
  case (2 s t u)
  then show ?case by (rule rang_trans)
qed (auto simp: stop_busy_rang, auto simp: rang_def)

text \<open>\<open>stuck_cpus\<close>: the CPUs other than \<open>self\<close> that are online and not halted.\<close>

definition stuck_cpus :: "nat \<Rightarrow> nat \<Rightarrow> (nat \<Rightarrow> uint64) \<Rightarrow> (nat \<Rightarrow> uint64) \<Rightarrow> nat set" where
  "stuck_cpus self ncpus onl hlt = {i. i < ncpus \<and> i \<noteq> self \<and> onl i \<noteq> 0 \<and> hlt i = 0}"

lemma count_exact:
  assumes "\<forall>l i. w l (Rd_online i) = onl i \<and> w l (Rd_halted i) = hlt i"
  shows "fst (count_stuck w self xs k s) = k + length (filter (\<lambda>i. i \<noteq> self \<and> onl i \<noteq> 0 \<and> hlt i = 0) xs)"
  using assms
proof (induction w self xs k s rule: count_stuck.induct)
  case (2 w self i rest stuck s)
  then show ?case by (auto simp: split_beta Let_def io_read_def)
qed simp

lemma stop_busy_stuck: "stop_busy w self ncpus s = (b, s1) \<Longrightarrow> st_stuck s1 = fst (count_stuck w self [0..<ncpus] 0 s)"
  by (auto simp: stop_busy_def split_beta Let_def gic_send_sgi_all_def io_write_def split: if_splits)

lemma stop_run:
  fixes s :: "'a stopping_scheme"
  assumes "clock_ticks w"
  shows "\<exists>(s0 :: 'a stopping_scheme) s' s1. panic_stop_others w self ncpus s = Some (fst (count_stuck w self [0..<ncpus] 0 s0), s')
     \<and> traced s s1 [] \<and> rang (gic_send_sgi_all 0 s1) s'"
proof -
  obtain f s1 where f: "read_cntfrq w s = (f, s1)" by fastforce
  let ?s2 = "gic_send_sgi_all 0 s1"
  obtain d s3 where d: "(if f \<noteq> 0 then (let (v, s) = read_cntpct w ?s2 in (v + f, s)) else (0, ?s2)) = (d, s3)" by fastforce
  have t1: "traced s s1 []" using traced_freq(1) [of s w] f by simp
  have t3: "traced ?s2 s3 []" using traced_freq(2) [of ?s2 w] d by (auto simp: split_beta split: if_splits)
  have run: "panic_stop_others w self ncpus s = (case timed_wait w (stop_busy w self ncpus) f d PANIC_STOP_SPINS s3 of None \<Rightarrow> None | Some s \<Rightarrow> Some (st_stuck s, s))"
    unfolding panic_stop_others_def Let_def f prod.case d [unfolded Let_def] ..
  have "\<exists>s'. timed_wait w (stop_busy w self ncpus) f d PANIC_STOP_SPINS s3 = Some s' \<and> stop.ended w self ncpus s3 s'"
    by (rule stop.ends [OF _ ticks_reach [OF assms]]) (simp add: PANIC_STOP_SPINS_def)
  then obtain s' where s': "timed_wait w (stop_busy w self ncpus) f d PANIC_STOP_SPINS s3 = Some s'" "stop.ended w self ncpus s3 s'" by blast
  then obtain s0 b s4 where e: "stop_busy w self ncpus s0 = (b, s4)" "rang s3 s'" "s' = s4 \<or> s' = s4\<lparr>io_log := io_log s4 @ [Mrs ''cntpct_el0'']\<rparr>"
    unfolding stop.ended_def by blast
  have "st_stuck s' = fst (count_stuck w self [0..<ncpus] 0 s0)" using stop_busy_stuck [OF e(1)] e(3) by auto
  then show ?thesis using run s'(1) t1 rang_trans [OF traced_rang [OF t3] e(2)] by auto
qed

text \<open>C38: \<^verbatim>\<open>panic_stop_others\<close> returns whatever the other CPUs do. It has sent the panic interrupt to them at least once and written nothing else, and what it returns counts CPUs other than its own; where
  their flags do not change any more it is exactly the number of CPUs that are online and not halted.
\<close>

theorem panic_stop_ends:
  fixes s :: "'a stopping_scheme"
  assumes "clock_ticks w"
  shows "\<exists>k s' L. panic_stop_others w self ncpus s = Some (k, s') \<and> io_log s' = io_log s @ L
     \<and> sgi_panic \<in> set L \<and> set (filter is_write L) \<subseteq> {sgi_panic} \<and> k \<le> card ({..<ncpus} - {self})
     \<and> (\<forall>onl hlt. (\<forall>l i. w l (Rd_online i) = onl i \<and> w l (Rd_halted i) = hlt i) \<longrightarrow> k = card (stuck_cpus self ncpus onl hlt))"
proof -
  obtain s0 :: "'a stopping_scheme" and s' s1 where r: "panic_stop_others w self ncpus s = Some (fst (count_stuck w self [0..<ncpus] 0 s0), s')" "traced s s1 []" "rang (gic_send_sgi_all 0 s1) s'"
    using stop_run [OF assms, of self ncpus s] by blast
  obtain L0 where L0: "s1 = s\<lparr>io_log := io_log s @ L0\<rparr>" "filter is_write L0 = []" using r(2) by (auto simp: traced_def)
  obtain L1 where L1: "io_log s' = io_log (gic_send_sgi_all 0 s1) @ L1" "set (filter is_write L1) \<subseteq> {sgi_panic}" using r(3) by (auto simp: rang_def)
  have log: "io_log s' = io_log s @ (L0 @ sgi_panic # L1)" using L1(1) L0(1) by (simp add: sgi_sent)
  have wr: "set (filter is_write (L0 @ sgi_panic # L1)) \<subseteq> {sgi_panic}" using L0(2) L1(2) by auto
  have cd: "length (filter P [0..<ncpus]) = card {i. i < ncpus \<and> P i}" for P
  proof -
    have "set (filter P [0..<ncpus]) = {i. i < ncpus \<and> P i}" by auto
    then show ?thesis using distinct_card [of "filter P [0..<ncpus]"] by simp
  qed
  have "{i. i < ncpus \<and> i \<noteq> self} = {..<ncpus} - {self}" by auto
  then have le: "fst (count_stuck w self [0..<ncpus] 0 s0) \<le> card ({..<ncpus} - {self})"
    using count_bound [of w self "[0..<ncpus]" 0 s0] by (simp add: cd)
  have ex: "fst (count_stuck w self [0..<ncpus] 0 s0) = card (stuck_cpus self ncpus onl hlt)"
    if "\<forall>l i. w l (Rd_online i) = onl i \<and> w l (Rd_halted i) = hlt i" for onl hlt
    using count_exact [OF that, of self "[0..<ncpus]" 0 s0] by (simp add: cd stuck_cpus_def)
  show ?thesis
    by (rule exI, rule exI [of _ s'], rule exI [of _ "L0 @ sgi_panic # L1"], intro conjI, rule r(1), rule log, simp, rule wr, rule le)
      (use ex in blast)
qed

section \<open>A machine\<close>

text \<open>Three CPUs, of which the second one starts and the third is refused; the second one halts when asked.\<close>

definition demo_smp :: world where
  "demo_smp l x =
     (case x of Mrs r \<Rightarrow> if r = ''cntpct_el0'' then of_nat (min (length l) (2 ^ 64 - 1)) else if r = ''cntfrq_el0'' then 10 else 0
      | Rd_online i \<Rightarrow> if i = 1 then 1 else 0 | Rd_halted i \<Rightarrow> if i = 1 then 1 else 0 | Hvc a b c d \<Rightarrow> if d = 2 then - 2 else 0 | _ \<Rightarrow> 0)"

lemma demo_ticks: "clock_ticks demo_smp"
proof -
  have u: "unat (of_nat (min n (2 ^ 64 - 1)) :: uint64) = min n (2 ^ 64 - 1)" for n by (rule unat_of_nat_small) simp
  have m: "unat (- 1 :: uint64) = 2 ^ 64 - 1" by (simp add: unsigned_minus_1_eq_mask mask_eq_exp_minus_1)
  have "(of_nat (min n (2 ^ 64 - 1)) :: uint64) < of_nat (min (Suc n) (2 ^ 64 - 1)) \<or> (of_nat (min (Suc n) (2 ^ 64 - 1)) :: uint64) = - 1" for n
    unfolding word_less_nat_alt word_unat_eq_iff u m by auto
  then show ?thesis by (auto simp: clock_ticks_def demo_smp_def)
qed


theorem panic_stop_ends_witness:
  "\<exists>s'. panic_stop_others demo_smp 0 3 \<lparr>io_log = [], st_stuck = 7\<rparr> = Some (0, s') \<and> sgi_panic \<in> set (io_log s')"
proof -
  have f: "\<forall>l i. demo_smp l (Rd_online i) = (if i = 1 then 1 else 0) \<and> demo_smp l (Rd_halted i) = (if i = 1 then 1 else 0)" by (simp add: demo_smp_def)
  have z: "card (stuck_cpus 0 3 (\<lambda>i. if i = 1 then 1 else 0) (\<lambda>i. if i = 1 then 1 else 0)) = 0" by (simp add: stuck_cpus_def)
  show ?thesis
    using panic_stop_ends [OF demo_ticks, of 0 3 "\<lparr>io_log = [], st_stuck = 7\<rparr>"]
  proof (elim exE conjE, goal_cases)
    case (1 k s' L)
    have "k = 0" using 1(6) [rule_format, OF f [rule_format]] z by simp
    then show ?case using 1 by auto
  qed
qed

end
