(* ===== verification/Uart.thy ===== *)
theory Uart
  imports Gic
begin

text \<open>
  Programming the serial port (\<^verbatim>\<open>dev/uart.c\<close>): the quiet set-up of early boot, the switch to the kernel's addresses and the line. The data path is with the
  console. The lines that are printed are left out.
\<close>

definition UART_BAUD :: uint64 where [kdefs]: "UART_BAUD = 115200"
definition UART_FIFO_REV2 :: uint32 where [kdefs]: "UART_FIFO_REV2 = 16"
definition UART_FIFO_REV3 :: uint32 where [kdefs]: "UART_FIFO_REV3 = 32"
definition UART_DR :: uint64 where [kdefs]: "UART_DR = 0x00"
definition UART_FR :: uint64 where [kdefs]: "UART_FR = 0x18"
definition UART_IBRD :: uint64 where [kdefs]: "UART_IBRD = 0x24"
definition UART_FBRD :: uint64 where [kdefs]: "UART_FBRD = 0x28"
definition UART_LCRH :: uint64 where [kdefs]: "UART_LCRH = 0x2C"
definition UART_CR :: uint64 where [kdefs]: "UART_CR = 0x30"
definition UART_IFLS :: uint64 where [kdefs]: "UART_IFLS = 0x34"
definition UART_IMSC :: uint64 where [kdefs]: "UART_IMSC = 0x38"
definition UART_ICR :: uint64 where [kdefs]: "UART_ICR = 0x44"
definition UART_PIDR2 :: uint64 where [kdefs]: "UART_PIDR2 = 0xFE8"
definition UART_FR_RXFE :: uint32 where [kdefs]: "UART_FR_RXFE = push_bit 4 1"
definition UART_LCRH_FEN :: uint32 where [kdefs]: "UART_LCRH_FEN = push_bit 4 1"
definition UART_LCRH_WLEN8 :: uint32 where [kdefs]: "UART_LCRH_WLEN8 = push_bit 5 3"
definition UART_CR_UARTEN :: uint32 where [kdefs]: "UART_CR_UARTEN = push_bit 0 1"
definition UART_CR_TXE :: uint32 where [kdefs]: "UART_CR_TXE = push_bit 8 1"
definition UART_CR_RXE :: uint32 where [kdefs]: "UART_CR_RXE = push_bit 9 1"
definition UART_IFLS_RX_1_2 :: uint32 where [kdefs]: "UART_IFLS_RX_1_2 = push_bit 3 2"
definition UART_IFLS_TX_1_2 :: uint32 where [kdefs]: "UART_IFLS_TX_1_2 = 2"
definition UART_IMSC_RXIM :: uint32 where [kdefs]: "UART_IMSC_RXIM = push_bit 4 1"
definition UART_IMSC_RTIM :: uint32 where [kdefs]: "UART_IMSC_RTIM = push_bit 6 1"
definition UART_INTR_ALL :: uint32 where [kdefs]: "UART_INTR_ALL = 0x7FF"

record pl011 = mmio +
  ur_base :: uintptr
  ur_fifo_depth :: uint32

definition UART_REG :: "'a pl011_scheme \<Rightarrow> uint64 \<Rightarrow> uintptr" where "UART_REG s off = ur_base s + off"

definition uart_write :: "uint64 \<Rightarrow> uint32 \<Rightarrow> 'a pl011_scheme \<Rightarrow> 'a pl011_scheme" where
  "uart_write off val s = mmio_write32 (UART_REG s off) val s"

definition uart_init :: "'a pl011_scheme \<Rightarrow> 'a pl011_scheme" where
  "uart_init s = uart_write UART_CR (UART_CR_UARTEN OR UART_CR_TXE OR UART_CR_RXE) (uart_write UART_ICR UART_INTR_ALL (uart_write UART_IMSC 0 s))"

definition uart_remap :: "platform \<Rightarrow> 'a pl011_scheme \<Rightarrow> 'a pl011_scheme" where
  "uart_remap pf s = s\<lparr>ur_base := PA_TO_KVA (uart_base pf)\<rparr>"

definition uart_quot :: "uint32 \<Rightarrow> uint64" where
  "uart_quot uartclk =
     (if uartclk \<noteq> 0 then
        (let quot = (push_bit 2 (ucast uartclk) + drop_bit 1 UART_BAUD) div UART_BAUD; ibrd = ucast (drop_bit 6 quot) :: uint32 in
         if ibrd = 0 \<or> ibrd > 0xFFFF then 0 else quot)
      else 0)"

primrec drain_rx :: "world \<Rightarrow> nat \<Rightarrow> 'a pl011_scheme \<Rightarrow> 'a pl011_scheme" where
  "drain_rx w 0 s = s"
| "drain_rx w (Suc n) s =
     (let (fr, s) = mmio_read32 w (UART_REG s UART_FR) s in
      if fr AND UART_FR_RXFE \<noteq> 0 then s else drain_rx w n (snd (mmio_read32 w (UART_REG s UART_DR) s)))"

definition uart_config :: "world \<Rightarrow> uint32 \<Rightarrow> 'a pl011_scheme \<Rightarrow> 'a pl011_scheme" where
  "uart_config w uartclk s =
     (let (v, s) = mmio_read32 w (UART_REG s UART_PIDR2) s;
          rev = drop_bit 4 v AND 0xF;
          s = s\<lparr>ur_fifo_depth := (if rev \<ge> 3 then UART_FIFO_REV3 else UART_FIFO_REV2)\<rparr>;
          quot = uart_quot uartclk;
          s = uart_write UART_CR 0 (uart_write UART_IMSC 0 s);
          s = (if quot \<noteq> 0 then uart_write UART_FBRD (ucast (quot AND 0x3F)) (uart_write UART_IBRD (ucast (drop_bit 6 quot)) s) else s);
          s = uart_write UART_IFLS (UART_IFLS_RX_1_2 OR UART_IFLS_TX_1_2) (uart_write UART_LCRH (UART_LCRH_WLEN8 OR UART_LCRH_FEN) s);
          s = uart_write UART_CR (UART_CR_UARTEN OR UART_CR_TXE OR UART_CR_RXE) s;
          s = uart_write UART_IMSC (UART_IMSC_RXIM OR UART_IMSC_RTIM) (uart_write UART_ICR UART_INTR_ALL s) in
      drain_rx w (unat (push_bit 1 (ur_fifo_depth s))) s)"

section \<open>The line is programmed\<close>

text \<open>The divisor in 64ths: the nearest to the clock over 16 times the rate.\<close>

lemma uart_quot_nearest:
  assumes "uart_quot clk \<noteq> 0"
  shows "2 * (115200 * unat (uart_quot clk)) \<le> 2 * (4 * unat clk) + 115200 \<and> 2 * (4 * unat clk) < 2 * (115200 * unat (uart_quot clk)) + 115200
     \<and> 1 \<le> unat (drop_bit 6 (uart_quot clk)) \<and> unat (drop_bit 6 (uart_quot clk)) \<le> 0xFFFF"
proof -
  let ?x = "push_bit 2 (ucast clk :: uint64) + drop_bit 1 UART_BAUD"
  define q where "q = ?x div UART_BAUD"
  have c: "unat clk < 2 ^ 32" using unsigned_less [of clk] by simp
  have p: "unat (push_bit 2 (ucast clk :: uint64)) = 4 * unat clk"
    using c by (simp add: push_bit_eq_mult unat_word_ariths unsigned_ucast_eq take_bit_eq_mod)
  have "unat ?x = 4 * unat clk + 57600" using c by (simp add: unat_word_ariths p UART_BAUD_def)
  then have q: "unat q = (4 * unat clk + 57600) div 115200" by (simp add: q_def unat_div UART_BAUD_def)
  have qq: "uart_quot clk = q" and i: "(ucast (drop_bit 6 q) :: uint32) \<noteq> 0" "\<not> (ucast (drop_bit 6 q) :: uint32) > 0xFFFF"
    using assms by (auto simp: uart_quot_def q_def Let_def split: if_splits)
  have d: "unat (drop_bit 6 q) = unat q div 64" by (simp add: unat_drop_bit_div)
  have "unat q div 64 < 2 ^ 32" using q c by simp
  then have u: "unat (ucast (drop_bit 6 q) :: uint32) = unat q div 64" by (simp add: unsigned_ucast_eq d take_bit_eq_mod)
  have "0 < unat q div 64" "unat q div 64 \<le> 0xFFFF" using i u by (auto simp: word_less_nat_alt unat_gt_0 [symmetric])
  then show ?thesis using q d qq by auto
qed

lemma traced_uart_write: "traced s (uart_write off v s) [Wr32 (ur_base s + off) v]"
  unfolding uart_write_def mmio_write32_def UART_REG_def by (rule traced_write) simp

lemma uart_write_base [simp]: "ur_base (uart_write off v s) = ur_base s" "ur_fifo_depth (uart_write off v s) = ur_fifo_depth s"
  by (simp_all add: uart_write_def mmio_write32_def io_write_def)

lemma uart_read_traced: "traced s (snd (mmio_read32 w a s)) []"
  using traced_read [of "Rd32 a" s w] by (simp add: mmio_read32_def split_beta)

text \<open>The receive buffer is read until it is empty, at most \<open>n\<close> times.\<close>

lemma drain_traced:
  "\<exists>L. drain_rx w n s = s\<lparr>io_log := io_log s @ L\<rparr> \<and> filter is_write L = [] \<and> length (filter (\<lambda>x. x = Rd32 (ur_base s + UART_DR)) L) \<le> n"
proof (induction n arbitrary: s)
  case (Suc n)
  let ?f = "Rd32 (ur_base s + UART_FR)" and ?d = "Rd32 (ur_base s + UART_DR)"
  have ne: "?f \<noteq> ?d" by (simp add: kdefs)
  obtain L where L: "drain_rx w n (s\<lparr>io_log := io_log s @ [?f, ?d]\<rparr>) = s\<lparr>io_log := io_log s @ [?f, ?d] @ L\<rparr>" "filter is_write L = []"
      "length (filter (\<lambda>x. x = ?d) L) \<le> n"
    using Suc.IH [of "s\<lparr>io_log := io_log s @ [?f, ?d]\<rparr>"] by auto
  have e: "drain_rx w (Suc n) s = (if ucast (w (io_log s) ?f) AND UART_FR_RXFE \<noteq> 0 then s\<lparr>io_log := io_log s @ [?f]\<rparr> else s\<lparr>io_log := io_log s @ [?f, ?d] @ L\<rparr>)"
    using L(1) by (simp add: mmio_read32_def io_read_def UART_REG_def)
  show ?case
  proof (cases "ucast (w (io_log s) ?f) AND UART_FR_RXFE \<noteq> 0")
    case True
    then show ?thesis using ne by (intro exI [of _ "[?f]"]) (simp only: e if_True, simp)
  next
    case False
    then show ?thesis using ne L by (intro exI [of _ "[?f, ?d] @ L"]) (simp only: e if_False, simp)
  qed
qed (auto intro: exI [of _ "[]"])

definition config_writes :: "uintptr \<Rightarrow> uint64 \<Rightarrow> io list" where
  "config_writes b quot =
     [Wr32 (b + UART_IMSC) 0, Wr32 (b + UART_CR) 0]
     @ (if quot \<noteq> 0 then [Wr32 (b + UART_IBRD) (ucast (drop_bit 6 quot)), Wr32 (b + UART_FBRD) (ucast (quot AND 0x3F))] else [])
     @ [Wr32 (b + UART_LCRH) 0x70, Wr32 (b + UART_IFLS) 0x12, Wr32 (b + UART_CR) 0x301, Wr32 (b + UART_ICR) 0x7FF, Wr32 (b + UART_IMSC) 0x50]"

lemma pl011_commute: "s\<lparr>io_log := l, ur_fifo_depth := d\<rparr> = s\<lparr>ur_fifo_depth := d, io_log := l\<rparr>"
  by (cases s) simp

lemma config_state:
  assumes dep_def: "dep = (if drop_bit 4 (ucast (w (io_log s) (Rd32 (ur_base s + UART_PIDR2))) :: uint32) AND 0xF \<ge> 3 then 32 else 16 :: uint32)"
  shows "uart_config w clk s = drain_rx w (2 * unat dep)
     (s\<lparr>io_log := io_log s @ Rd32 (ur_base s + UART_PIDR2) # config_writes (ur_base s) (uart_quot clk), ur_fifo_depth := dep\<rparr>)"
proof -
  have d: "unat (push_bit 1 dep) = 2 * unat dep" "dep = (if drop_bit 4 (ucast (w (io_log s) (Rd32 (ur_base s + UART_PIDR2))) :: uint32) AND 0xF \<ge> 3 then UART_FIFO_REV3 else UART_FIFO_REV2)"
    by (simp_all add: dep_def UART_FIFO_REV3_def UART_FIFO_REV2_def)
  show ?thesis
    unfolding d(1) [symmetric] d(2)
    by (simp add: uart_config_def mmio_read32_def io_read_def UART_REG_def uart_write_def mmio_write32_def io_write_def config_writes_def Let_def pl011_commute)
      (simp add: kdefs)
qed



end
