(* ===== verification/Spec2Isabelle.thy ===== *)
theory Spec2Isabelle
  imports Kmsg Asid Spinlock Kstring Fmt Uvm Kstack Kmalloc TrapSpec Dtb Dmap Links Kvm Smp Uart
begin

text \<open>
  \<^bold>\<open>AV6, a small multiprocessor kernel for 64-bit Arm\<close>

  AV6 boots from a flattened device tree, builds a direct map of physical memory, starts the other CPUs through the
  firmware, and runs user processes with their own address spaces, a round-robin scheduler and nine system
  calls over a serial console. This development models its C code, function by function, as executable
  definitions, and proves what the functions promise to each other and to user programs. Paths below are under
  \<^verbatim>\<open>src/src/\<close>.

  \<^bold>\<open>Conventions of the model\<close>

  \<^item> Machine integers are words of their width and wrap as in C; pointers are 64-bit words (or, where only the
    identity of an object matters, list positions and natural numbers). A structure is a record with the
    fields of the C structure; a component that stands on another extends its record, so the whole of kernel
    memory from the page allocator up to the console is one record (\<open>kmem\<close>, \<open>vm\<close>, \<open>slabs\<close>, \<open>kstacks\<close>, \<open>procs\<close>, \<open>cons_io\<close>,
    \<open>irqs\<close>).
  \<^item> An operation is a function from state to result and state. \<open>Inl (Panic msg)\<close> is a call of \<open>panic\<close> or a failed assertion
    with its message, \<open>Inl Fault\<close> an access the hardware would refuse; \<open>Inr\<close> is a return. A loop whose end is
    not obvious is a partial function with values in \<open>option\<close>, where \<open>None\<close> is the loop that does not
    end; the theorems show that it does end (\<open>Some\<close>), they never assume it.
  \<^item> A function that gives up the CPU is cut at the context switch: the model returns the state at \<open>swtch\<close>, and
    another definition continues from there (\<open>scheduler_return\<close>, \<open>syscall_resume\<close>).
  \<^item> What other CPUs do between two shared accesses is modelled as interleaved steps where the code relies on it: spin
    locks and the ASID fast path are inductive step relations. Elsewhere a critical section under a lock is one step.

  \<^bold>\<open>Theories, in the order of their dependence\<close>

  \<^item> \<open>Prelude\<close>: words, panics, sequencing of fallible steps, collections of simplification rules. \<open>Bitstring\<close>:
    \<^verbatim>\<open>sys/bitstring.h\<close>, \<^verbatim>\<open>sys/cpumask.h\<close>. \<open>Mmu\<close>: \<^verbatim>\<open>arch/mmu.h\<close>, \<^verbatim>\<open>arch/memlayout.h\<close>. \<open>Ring\<close>: arrays used as rings. \<open>Links\<close>: the list macros of \<^verbatim>\<open>sys/list.h\<close> on
    a heap of link fields; they implement lists, and the lists they do not name are untouched, which is why the other
    theories may use lists.
  \<^item> \<open>Physmem\<close> (\<^verbatim>\<open>vm/physmem.c\<close>): memory regions; the segments handed out are exactly the hardware's pages that no exclusion touches.
    \<open>Kalloc\<close> (\<^verbatim>\<open>vm/kalloc.c\<close>): the page allocator; its free list after \<open>kinit\<close>, and the cycle of allocation and freeing with the
    double free caught. Locale \<open>page_allocator\<close> is its contract.
  \<^item> \<open>Ptable\<close>, \<open>Pmap\<close>, \<open>PmapProofs\<close>, \<open>Uvm\<close> (\<^verbatim>\<open>arch/pmap.c\<close>): page tables as words in pages, the walk, mapping, growing, shrinking, copying and freeing of user
    address spaces. The lemmas give each operation as a change of the set of mappings and of the set of pages
    in use, including the failures. Locale \<open>page_store\<close> is what they ask of memory. \<open>Kstack\<close>: the kernel stack window with its guard pages. \<open>Dmap\<close>: \<open>kvminit\<close>; a model of
    the MMU's walk translates exactly the addresses the direct map means.
  \<^item> \<open>Slab\<close>, \<open>SlabProofs\<close>, \<open>SlabSpec\<close>, \<open>Kmalloc\<close> (\<^verbatim>\<open>vm/slab.c\<close>, \<^verbatim>\<open>vm/kmalloc.c\<close>): caches, magazines and depot; objects do not overlap and are handed out once until freed; kmalloc picks
    the smallest class.
  \<^item> \<open>Kstring\<close>, \<open>Fmt\<close> (\<^verbatim>\<open>libkern/string.c\<close>, \<^verbatim>\<open>libkern/fmt.c\<close>): the word-wise copies equal the byte-wise specification for every overlap; formatting returns the full length and cuts the
    text to the buffer. \<open>Kmsg\<close> (\<^verbatim>\<open>kern/kmsg.c\<close>): the log ring implements an abstract log of records.
  \<^item> \<open>Spinlock\<close> (\<^verbatim>\<open>kern/spinlock.c\<close>): mutual exclusion over all interleavings. \<open>Asid\<close> (\<^verbatim>\<open>arch/asid.c\<close>): no CPU ever uses TLB entries of another process, over all interleavings of switches and
    rollovers.
  \<^item> \<open>ProcState\<close>, \<open>Proc\<close>, \<open>ProcSpec\<close> (\<^verbatim>\<open>kern/proc.c\<close>): processes, scheduling, sleep and wakeup, exit, wait, kill. The tables agree in every reachable
    state; wakeups are not lost; the run queue (locale \<open>fifo_queue\<close>) does not starve. \<open>Frame\<close>: what memory operations leave alone (locale \<open>memory_frame\<close>).
  \<^item> \<open>Elf\<close>, \<open>Exec\<close> (\<^verbatim>\<open>kern/exec.c\<close>): loading of images and \<open>exec\<close>, all or nothing. \<open>Copy\<close>, \<open>Access\<close> (\<^verbatim>\<open>arch/copy.c\<close>): user memory. \<open>Console\<close>,
    \<open>ConsoleSpec\<close>, \<open>Printk\<close> (\<^verbatim>\<open>dev/console.c\<close>, \<^verbatim>\<open>dev/uart.c\<close>, \<^verbatim>\<open>kern/printk.c\<close>): the ring refines a line editor, typed lines are what is read. \<open>Syscall\<close>, \<open>SyscallSpec\<close>
    (\<^verbatim>\<open>kern/syscall.c\<close>): argument fetch, the nine calls and the dispatcher.
  \<^item> \<open>Intr\<close>, \<open>Trap\<close>, \<open>TrapSpec\<close> (\<^verbatim>\<open>kern/intr.c\<close>, \<^verbatim>\<open>arch/timer.c\<close>, \<^verbatim>\<open>arch/trap.c\<close>): interrupts are completed once; a user fault ends the process and never the kernel.
  \<^item> \<open>Fdt\<close>, \<open>FdtSpec\<close>, \<open>Dtb\<close> (\<^verbatim>\<open>libkern/fdt.c\<close>, \<^verbatim>\<open>arch/dtb.c\<close>): every walk over a blob ends; on the encoding of a tree the walk is the tree's.
  \<^item> \<open>Mmio\<close>, \<open>Gic\<close>, \<open>Kvm\<close>, \<open>Smp\<close>, \<open>Uart\<close> (\<^verbatim>\<open>arch/mmio.h\<close>, \<^verbatim>\<open>arch/gic.c\<close>, \<open>kvminithart\<close> of \<^verbatim>\<open>arch/pmap.c\<close>, \<^verbatim>\<open>arch/mte.c\<close>, \<^verbatim>\<open>arch/smp.c\<close>, \<^verbatim>\<open>kern/panic.c\<close>, \<^verbatim>\<open>dev/uart.c\<close>): register programming as the
    sequence of accesses it makes. Locale \<open>wait_body\<close> is what the bounded wait loop asks of its condition; it
    is interpreted for the three waits of the code.

  \<^bold>\<open>Bounds and fuel\<close>

  The only recursion with a fixed number of turns in the place of a loop is where the code has that number itself: 256
  characters per receive interrupt in \<open>intr_loop\<close>, the argument count of \<open>exec\<close>, the buffer depth in \<open>drain_rx\<close>. \<open>kill_line\<close>
  is given the number of characters being edited, the most its loop can erase. All
  other loops are structural, have a measure, or are partial functions with a proof that they return.

  \<^bold>\<open>Parameters\<close>

  The definitions take as arguments what the C code does not contain: the copy loops of \<^verbatim>\<open>arch/copy_user.s\<close> (\<open>uaccess\<close>, with the instance \<open>user_access\<close> on the page tables
  that the theorems use), the program images linked into the kernel, the addresses the linker fixes (\<open>ksyms\<close>), the saved frame and the exception registers that the vectors hand
  over, and what devices, firmware and other CPUs answer to a read (\<open>world\<close>). Hypotheses about the \<open>world\<close> are named: the
  clock runs, identification registers are constant, the control register reads what was written to it, a redistributor wakes.

  \<^bold>\<open>Not modelled\<close>

  \<^item> Assembly (\<^verbatim>\<open>entry.s\<close>, \<^verbatim>\<open>vectors.s\<close>, \<^verbatim>\<open>swtch.s\<close>, \<^verbatim>\<open>copy_user.s\<close>) and the user programs: there is no C code to translate; see the parameters.
  \<^item> Weak memory ordering, barriers and cache maintenance: the models are sequentially consistent. What a TLB holds is modelled in \<open>Asid\<close> only.
  \<^item> The message and the report of \<open>panic\<close> after the other CPUs were stopped: a panic ends a run with its message.
  \<^item> \<open>boot_init\<close>, \<open>main\<close>, \<open>mpboot\<close> and \<open>mpmain\<close>, which call the initialisations one after the other on states that the theories keep apart, and
    the wait for room in the transmit buffer in \<open>uart_putc\<close>.
  \<^item> The in-kernel tests (\<^verbatim>\<open>tests/\<close>), the generated offsets (\<^verbatim>\<open>arch/assym.c\<close>), linker scripts and build tools.
\<close>

end
